(* ===== verification/Prelude.thy ===== *)
theory Prelude
  imports Main "HOL-Library.Word"
begin

text \<open>
  Shared vocabulary of the development.

  \<^item> \<open>'a res\<close>: the outcome of a Java method, an exception or a value, with its sequencing
    operator \<open>ebind\<close> and the loops over lists that stop at the first exception.
  \<^item> \<open>byte\<close>, \<open>mem_write\<close>, \<open>mem_read\<close>, \<open>memcpy\<close>: C character arrays.
  \<^item> \<open>'a cres\<close>: the outcome of a C function, a failure or a value.
  \<^item> the collections \<open>res_simps\<close>, \<open>mem_simps\<close> that the component theories extend and use.
\<close>

named_theorems res_simps "sequencing of computations that may raise"
named_theorems mem_simps "reading and writing character arrays"

subsection \<open>Exceptions as values\<close>

text \<open>The exception classes the Java sources raise, with their messages.\<close>

datatype jexc =
    IllegalArgumentException string
  | IndexOutOfBoundsException
  | RuntimeException string
  | UnsupportedOperationException string

type_synonym 'a res = "jexc + 'a"

definition ebind :: "'e + 'a \<Rightarrow> ('a \<Rightarrow> 'e + 'b) \<Rightarrow> 'e + 'b" where
  "ebind m f = (case m of Inl e \<Rightarrow> Inl e | Inr x \<Rightarrow> f x)"

lemma ebind_Inl [simp, res_simps]: "ebind (Inl e) f = Inl e"
  by (simp add: ebind_def)

lemma ebind_Inr [simp, res_simps]: "ebind (Inr x) f = f x"
  by (simp add: ebind_def)

lemma ebind_eq_Inr: "ebind m f = Inr y \<longleftrightarrow> (\<exists>x. m = Inr x \<and> f x = Inr y)"
  by (cases m) auto

lemma ebind_assoc: "ebind (ebind m f) g = ebind m (\<lambda>x. ebind (f x) g)"
  by (cases m) auto

lemma ebind_cong [fundef_cong]:
  "m = m' \<Longrightarrow> (\<And>x. m' = Inr x \<Longrightarrow> f x = f' x) \<Longrightarrow> ebind m f = ebind m' f'"
  by (cases m') auto

text \<open>A Java \<open>for\<close> loop over a list whose body may raise.\<close>

fun efold :: "('a \<Rightarrow> 's \<Rightarrow> 'e + 's) \<Rightarrow> 'a list \<Rightarrow> 's \<Rightarrow> 'e + 's" where
  "efold f [] s = Inr s"
| "efold f (x # xs) s = ebind (f x s) (efold f xs)"

lemma efold_append [res_simps]:
  "efold f (xs @ ys) s = ebind (efold f xs s) (efold f ys)"
proof (induction xs arbitrary: s)
  case (Cons x xs)
  then show ?case by (cases "f x s") auto
qed simp

lemma efold_total:
  assumes "\<And>x s. x \<in> set xs \<Longrightarrow> P s \<Longrightarrow> f x s = Inr (g x s) \<and> P (g x s)" and "P s"
  shows "efold f xs s = Inr (fold g xs s) \<and> P (fold g xs s)"
  using assms by (induction xs arbitrary: s) auto

subsection \<open>Character arrays\<close>

type_synonym byte = "8 word"

text \<open>\<open>memcpy\<close> of \<open>src\<close> to offset \<open>off\<close> of an array, and the bytes at an offset.\<close>

definition mem_write :: "nat \<Rightarrow> 'a list \<Rightarrow> 'a list \<Rightarrow> 'a list" where
  "mem_write off src m = take off m @ src @ drop (off + length src) m"

definition mem_read :: "nat \<Rightarrow> nat \<Rightarrow> 'a list \<Rightarrow> 'a list" where
  "mem_read off n m = take n (drop off m)"

lemma length_mem_write [simp, mem_simps]:
  "off + length src \<le> length m \<Longrightarrow> length (mem_write off src m) = length m"
  by (simp add: mem_write_def)

lemma length_mem_read [simp, mem_simps]:
  "off + n \<le> length m \<Longrightarrow> length (mem_read off n m) = n"
  by (simp add: mem_read_def)

lemma mem_read_write_same [simp, mem_simps]:
  "off + length src \<le> length m \<Longrightarrow> n = length src \<Longrightarrow> mem_read off n (mem_write off src m) = src"
  by (simp add: mem_read_def mem_write_def)

lemma mem_read_0 [simp, mem_simps]: "mem_read off 0 m = []"
  by (simp add: mem_read_def)

lemma mem_read_append:
  "mem_read off (a + b) m = mem_read off a m @ mem_read (off + a) b m"
  by (simp add: mem_read_def take_add add.commute)

lemma take_mem_read [mem_simps]: "k \<le> n \<Longrightarrow> take k (mem_read off n m) = mem_read off k m"
  by (simp add: mem_read_def min_def)

lemma drop_mem_read [mem_simps]:
  "drop k (mem_read off n m) = mem_read (off + k) (n - k) m"
  by (simp add: mem_read_def drop_take add.commute)

text \<open>Appending behind the used part of an array: what the buffer routines do all the time.\<close>

lemma mem_read_write_extend [mem_simps]:
  assumes "off + n + length src \<le> length m"
  shows "mem_read off (n + length src) (mem_write (off + n) src m) = mem_read off n m @ src"
proof -
  have "mem_read off n (mem_write (off + n) src m) = mem_read off n m"
    using assms by (simp add: mem_read_def mem_write_def drop_take)
  moreover have "mem_read (off + n) (length src) (mem_write (off + n) src m) = src"
    using assms by simp
  ultimately show ?thesis by (simp add: mem_read_append)
qed

subsection \<open>Failures of C code\<close>

text \<open>
  \<open>OutOfBounds\<close> is an access outside an array, \<open>StaleLast\<close> the use of a pointer to a block that was
  given away, \<open>Exits\<close> an error exit of the process, \<open>Diverges\<close> a loop out of fuel, \<open>NullDeref\<close>
  an access through a null pointer.
\<close>

datatype cerr = OutOfBounds | Abort | AssertFailed | StaleLast | Exits | Diverges | NullDeref

type_synonym 'a cres = "cerr + 'a"

definition memcpy :: "nat \<Rightarrow> byte list \<Rightarrow> byte list \<Rightarrow> byte list cres" where
  "memcpy off src m =
     (if off + length src \<le> length m then Inr (mem_write off src m) else Inl OutOfBounds)"

lemma memcpy_ok [simp]: "off + length src \<le> length m \<Longrightarrow> memcpy off src m = Inr (mem_write off src m)"
  by (simp add: memcpy_def)

end
