(* ===== verification/NP_Comb.thy ===== *)
theory NP_Comb
  imports Prelude
begin

text \<open>
  Combinations, test cases and the checker (src/main/java/nju/gist/Common/Comb.java,
  MutableComb.java, Testcase.java, MutableTestcase.java and Tester/Checker.java).

  A combination is the list of its elements, with \<open>UNKNOWN\<close> where a parameter has no value; a
  test case is a combination whose constructor has checked it. The mutable subclasses differ
  only in setters, which become functions on the list. The checker knows the faulty combinations
  of the system under test: a test case fails exactly when it contains one of them.
\<close>

subsection \<open>Comb\<close>

type_synonym comb = "int list"

definition UNKNOWN :: int where
  "UNKNOWN = -1"

text \<open>The three constructors that do not just copy.\<close>

definition comb_new :: "nat \<Rightarrow> comb" where
  "comb_new n = replicate n UNKNOWN"

definition comb_of_list :: "int list \<Rightarrow> comb res" where
  "comb_of_list comb =
     (if list_ex (\<lambda>x. x < 0 \<and> x \<noteq> UNKNOWN) comb
      then Inl (IllegalArgumentException ''Not a valid combination'') else Inr comb)"

definition comb_get :: "comb \<Rightarrow> nat \<Rightarrow> int res" where
  "comb_get c i = (if i < length c then Inr (c ! i) else Inl IndexOutOfBoundsException)"

definition comb_set :: "nat \<Rightarrow> int \<Rightarrow> comb \<Rightarrow> comb res" where
  "comb_set i v c = (if i < length c then Inr (c[i := v]) else Inl IndexOutOfBoundsException)"

definition comb_project :: "comb \<Rightarrow> nat list \<Rightarrow> comb res" where
  "comb_project testcase indices =
     efold (\<lambda>index els. ebind (comb_get testcase index) (\<lambda>v. comb_set index v els))
       indices (comb_new (length testcase))"

fun contains_loop :: "comb \<Rightarrow> comb \<Rightarrow> bool" where
  "contains_loop (a # as) (b # bs) =
     (if a \<noteq> b \<and> b \<noteq> UNKNOWN then False else contains_loop as bs)"
| "contains_loop _ _ = True"

definition contains :: "comb \<Rightarrow> comb \<Rightarrow> bool res" where
  "contains A B =
     (if length A \<noteq> length B
      then Inl (IllegalArgumentException ''A.getLogicSize() != B.getLogicSize()'')
      else Inr (contains_loop A B))"

subsection \<open>Testcase\<close>

definition testcase_of_comb :: "comb \<Rightarrow> comb res" where
  "testcase_of_comb comb =
     (if list_ex (\<lambda>x. x = UNKNOWN) comb
      then Inl (IllegalArgumentException ''This Combination is not a Testcase'') else Inr comb)"

definition testcase_of_list :: "int list \<Rightarrow> comb res" where
  "testcase_of_list elements = comb_of_list elements"

definition padding_value :: "comb \<Rightarrow> comb \<Rightarrow> nat \<Rightarrow> int res" where
  "padding_value safeValues tfail i =
     ebind (comb_get safeValues i) (\<lambda>s.
       if s = UNKNOWN then ebind (comb_get tfail i) (\<lambda>t. Inr (1 - t)) else Inr s)"

definition paddingWithSafeValues :: "comb \<Rightarrow> comb \<Rightarrow> comb \<Rightarrow> comb res" where
  "paddingWithSafeValues comb safeValues tfail =
     ebind (efold (\<lambda>i els. if els ! i = UNKNOWN
                     then ebind (padding_value safeValues tfail i) (\<lambda>v. Inr (els[i := v]))
                     else Inr els)
              [0..<length comb] comb)
       testcase_of_list"

definition getOverlappingParts :: "comb \<Rightarrow> comb \<Rightarrow> comb res" where
  "getOverlappingParts a b =
     (if length a \<noteq> length b
      then Inl (IllegalArgumentException ''Testcases must have the same getLogicSize'')
      else Inr (map2 (\<lambda>x y. if x = y then x else UNKNOWN) a b))"

text \<open>\<open>MutableTestcase\<close>: a two-valued system, any other value is refused.\<close>

definition testcase_flip :: "nat \<Rightarrow> comb \<Rightarrow> comb res" where
  "testcase_flip i t =
     (if i \<ge> length t then Inl (IllegalArgumentException ''Index out of bounds'')
      else if t ! i = 0 then Inr (t[i := 1])
      else if t ! i = 1 then Inr (t[i := 0])
      else Inl (IllegalArgumentException ''Not Two Values System!''))"

definition testcase_set :: "nat \<Rightarrow> int \<Rightarrow> comb \<Rightarrow> comb res" where
  "testcase_set i v t =
     (if i \<ge> length t then Inl (IllegalArgumentException ''Index out of bounds'')
      else if v \<noteq> 0 \<and> v \<noteq> 1 then Inl (IllegalArgumentException ''Not Two Values System!'')
      else Inr (t[i := v]))"

subsection \<open>Checker\<close>

record checker =
  MFS :: "comb list"
  executedTestcase :: "comb set"
  counter :: "32 word"

definition checker_new :: "comb list \<Rightarrow> checker" where
  "checker_new mfs = \<lparr>MFS = mfs, executedTestcase = {}, counter = 0\<rparr>"

definition checker_reset :: "checker \<Rightarrow> checker" where
  "checker_reset ck = ck\<lparr>counter := 0, executedTestcase := {}\<rparr>"

fun check_loop :: "comb \<Rightarrow> comb list \<Rightarrow> bool res" where
  "check_loop testcase [] = Inr True"
| "check_loop testcase (mf # mfs) =
     ebind (contains testcase mf) (\<lambda>b. if b then Inr False else check_loop testcase mfs)"

definition check :: "checker \<Rightarrow> comb \<Rightarrow> (bool \<times> checker) res" where
  "check ck testcase =
     (let ck' = ck\<lparr>counter := counter ck + 1,
                   executedTestcase := insert testcase (executedTestcase ck)\<rparr>
      in ebind (check_loop testcase (MFS ck)) (\<lambda>res. Inr (res, ck')))"

subsection \<open>Lemmas\<close>

text \<open>What \<open>contains\<close> decides: every parameter the smaller combination fixes agrees.\<close>

lemma contains_loop_iff:
  "length A = length B \<Longrightarrow>
   contains_loop A B \<longleftrightarrow> (\<forall>i<length A. B ! i \<noteq> UNKNOWN \<longrightarrow> A ! i = B ! i)"
proof (induction A B rule: list_induct2)
  case (Cons a as b bs)
  then show ?case by (auto simp: less_Suc_eq_0_disj)
qed simp

lemma contains_eq:
  "length A = length B \<Longrightarrow>
   contains A B = Inr (\<forall>i<length A. B ! i \<noteq> UNKNOWN \<longrightarrow> A ! i = B ! i)"
  by (simp add: contains_def contains_loop_iff)

lemma check_loop_eq:
  "\<forall>mf\<in>set mfs. length mf = length t \<Longrightarrow>
   check_loop t mfs = Inr (\<forall>mf\<in>set mfs. \<not> contains_loop t mf)"
  by (induction mfs) (auto simp: contains_def)

text \<open>The value the padding puts at an unknown position, and the whole padded list.\<close>

definition pad :: "comb \<Rightarrow> comb \<Rightarrow> nat \<Rightarrow> int" where
  "pad safe tfail i = (if safe ! i = UNKNOWN then 1 - tfail ! i else safe ! i)"

lemma padding_value_eq:
  "i < length safe \<Longrightarrow> i < length tfail \<Longrightarrow> padding_value safe tfail i = Inr (pad safe tfail i)"
  by (simp add: padding_value_def comb_get_def pad_def)

definition padded :: "comb \<Rightarrow> comb \<Rightarrow> comb \<Rightarrow> comb" where
  "padded c safe tfail =
     map (\<lambda>i. if c ! i = UNKNOWN then pad safe tfail i else c ! i) [0..<length c]"

lemma padded_nth [simp]:
  "i < length c \<Longrightarrow> padded c safe tfail ! i = (if c ! i = UNKNOWN then pad safe tfail i else c ! i)"
  by (simp add: padded_def)

lemma length_padded [simp]: "length (padded c safe tfail) = length c"
  by (simp add: padded_def)

text \<open>The loop that replaces the unknown elements, for any source of values.\<close>

lemma fill_loop_eq:
  assumes "\<forall>i<length c. v i = Inr (w i)" "n \<le> length c"
    "f = map (\<lambda>i. if c ! i = UNKNOWN then w i else c ! i) [0..<length c]"
  shows "efold (\<lambda>i els. if els ! i = UNKNOWN then ebind (v i) (\<lambda>x. Inr (els[i := x])) else Inr els) [0..<n] c =
         Inr (take n f @ drop n c)"
  using \<open>n \<le> length c\<close>
proof (induction n)
  case 0
  then show ?case by simp
next
  case (Suc n)
  then have n: "n < length c" by simp
  have "drop n c = c ! n # drop (Suc n) c"
    using n by (rule Cons_nth_drop_Suc [symmetric])
  moreover have "take (Suc n) f = take n f @ [if c ! n = UNKNOWN then w n else c ! n]"
    using n assms(3) by (simp add: take_Suc_conv_app_nth)
  ultimately show ?case
    using Suc n assms by (simp add: efold_append nth_append list_update_append)
qed

lemma paddingWithSafeValues_eq:
  assumes "length safe = length c" "length tfail = length c"
  shows "paddingWithSafeValues c safe tfail = testcase_of_list (padded c safe tfail)"
  using fill_loop_eq [of c "padding_value safe tfail" "pad safe tfail" "length c"] assms
  by (simp add: paddingWithSafeValues_def padding_value_eq padded_def)

end
