(* ===== verification/NP_Schema.thy ===== *)
theory NP_Schema
  imports NP_Comb
begin

text \<open>
  Schemas (src/main/java/nju/gist/Common/Schema.java and MutableSchema.java): sets of parameter
  positions. A \<open>java.util.BitSet\<close> is the finite set of its set bits; \<open>logic_size\<close> is the number
  of parameters, which the binary operations compare before they work. The invariant \<open>schema_wf\<close>
  says that no bit lies at or beyond the logical size; under it every operation is the set
  operation it is named after.
\<close>

named_theorems schema_simps "operations on well-formed schemas as set operations"

record schema =
  bitset :: "nat set"
  logic_size :: nat

subsection \<open>Constructors\<close>

definition schema_new :: "nat \<Rightarrow> schema" where
  "schema_new n = \<lparr>bitset = {}, logic_size = n\<rparr>"

definition schema_flag :: "nat \<Rightarrow> bool \<Rightarrow> schema" where
  "schema_flag n flag =
     (if flag then (schema_new n)\<lparr>bitset := set [0..<n]\<rparr> else schema_new n)"

definition schema_copy :: "schema \<Rightarrow> schema" where
  "schema_copy other = \<lparr>bitset = bitset other, logic_size = logic_size other\<rparr>"

definition schema_of_comb :: "comb \<Rightarrow> schema" where
  "schema_of_comb comb =
     fold (\<lambda>i s. if comb ! i \<noteq> UNKNOWN then s\<lparr>bitset := insert i (bitset s)\<rparr> else s)
       [0..<length comb] (schema_new (length comb))"

definition schema_of_indices :: "nat \<Rightarrow> nat list \<Rightarrow> schema" where
  "schema_of_indices n indices =
     fold (\<lambda>index s. s\<lparr>bitset := insert index (bitset s)\<rparr>) indices (schema_new n)"

subsection \<open>Observers\<close>

definition schema_get :: "schema \<Rightarrow> nat \<Rightarrow> bool" where
  "schema_get s index \<longleftrightarrow> index \<in> bitset s"

definition schema_size :: "schema \<Rightarrow> nat" where
  "schema_size s = card (bitset s)"

definition getComb :: "schema \<Rightarrow> comb \<Rightarrow> comb res" where
  "getComb s testcase =
     efold (\<lambda>i comb. if schema_get s i
              then ebind (comb_get testcase i) (\<lambda>v. comb_set i v comb)
              else comb_set i UNKNOWN comb)
       [0..<logic_size s] (comb_new (logic_size s))"

definition getIndices :: "schema \<Rightarrow> nat list" where
  "getIndices s = filter (schema_get s) [0..<logic_size s]"

definition schema_equals :: "schema \<Rightarrow> schema \<Rightarrow> bool" where
  "schema_equals s other \<longleftrightarrow> bitset s = bitset other"

subsection \<open>Operations\<close>

definition same_size :: "schema \<Rightarrow> schema \<Rightarrow> 'a res \<Rightarrow> 'a res" where
  "same_size s other r =
     (if logic_size s \<noteq> logic_size other
      then Inl (IllegalArgumentException ''Schemas must have the same getLogicSize'') else r)"

definition schema_and :: "schema \<Rightarrow> schema \<Rightarrow> schema res" where
  "schema_and s other =
     same_size s other (Inr ((schema_copy s)\<lparr>bitset := bitset s \<inter> bitset other\<rparr>))"

definition schema_or :: "schema \<Rightarrow> schema \<Rightarrow> schema res" where
  "schema_or s other =
     same_size s other
       (Inr ((schema_new (logic_size s))
          \<lparr>bitset := set (filter (\<lambda>i. schema_get s i \<or> schema_get other i) [0..<logic_size s])\<rparr>))"

definition schema_complement :: "schema \<Rightarrow> schema" where
  "schema_complement s =
     (schema_new (logic_size s))
       \<lparr>bitset := set (filter (\<lambda>i. \<not> schema_get s i) [0..<logic_size s])\<rparr>"

definition isSubsetOf :: "schema \<Rightarrow> schema \<Rightarrow> bool res" where
  "isSubsetOf s other =
     same_size s other (ebind (schema_and s other) (\<lambda>r. Inr (schema_equals r s)))"

definition isSupersetOf :: "schema \<Rightarrow> schema \<Rightarrow> bool res" where
  "isSupersetOf s other = same_size s other (isSubsetOf other s)"

definition complement_in :: "schema \<Rightarrow> schema \<Rightarrow> schema res" where
  "complement_in s universe =
     same_size s universe
       (ebind (isSubsetOf s universe) (\<lambda>sub.
          if \<not> sub
          then Inl (IllegalArgumentException ''Universe must be the super set of this schema'')
          else Inr ((schema_new (logic_size s))
            \<lparr>bitset := set (filter (\<lambda>i. schema_get universe i \<and> \<not> schema_get s i)
                              [0..<logic_size s])\<rparr>)))"

definition overlapsWith :: "schema \<Rightarrow> schema \<Rightarrow> bool res" where
  "overlapsWith s other =
     same_size s other
       (Inr (list_ex (\<lambda>i. schema_get s i \<and> schema_get other i) [0..<logic_size s]))"

text \<open>
  \<open>MutableSchema\<close>. \<open>BitSet.size()\<close> is the number of bits the allocated words hold: a multiple
  of 64, not the logical size.
\<close>

definition schema_set :: "nat \<Rightarrow> bool \<Rightarrow> schema \<Rightarrow> schema" where
  "schema_set index v s =
     s\<lparr>bitset := (if v then insert index (bitset s) else bitset s - {index})\<rparr>"

definition bitset_capacity :: "nat \<Rightarrow> nat" where
  "bitset_capacity nbits = (nbits + 63) div 64 * 64"

definition setComplement :: "schema \<Rightarrow> schema" where
  "setComplement s =
     fold (\<lambda>i t. schema_set i (\<not> schema_get t i) t) [0..<bitset_capacity (logic_size s)] s"

subsection \<open>Well-formedness\<close>

definition schema_wf :: "nat \<Rightarrow> schema \<Rightarrow> bool" where
  "schema_wf n s \<longleftrightarrow> logic_size s = n \<and> bitset s \<subseteq> {..<n}"

lemma schema_wf_size: "schema_wf n s \<Longrightarrow> logic_size s = n"
  by (simp add: schema_wf_def)

lemma schema_wf_finite: "schema_wf n s \<Longrightarrow> finite (bitset s)"
  unfolding schema_wf_def by (meson finite_lessThan finite_subset)

lemma schema_wf_sub: "schema_wf n s \<Longrightarrow> bitset s \<subseteq> {..<n}"
  by (simp add: schema_wf_def)

lemma schema_wf_intro: "A \<subseteq> {..<n} \<Longrightarrow> schema_wf n \<lparr>bitset = A, logic_size = n\<rparr>"
  by (simp add: schema_wf_def)

lemma schema_eq_iff:
  "schema_wf n s \<Longrightarrow> schema_wf n t \<Longrightarrow> s = t \<longleftrightarrow> bitset s = bitset t"
  by (cases s, cases t) (auto simp: schema_wf_def)

lemma schema_wf_constructors [simp]:
  "schema_wf n (schema_new n)" "schema_wf n (schema_flag n flag)"
  "schema_wf n s \<Longrightarrow> schema_wf n (schema_copy s)"
  by (auto simp: schema_wf_def schema_new_def schema_flag_def schema_copy_def)

lemma bitset_constructors [simp]:
  "bitset (schema_new n) = {}" "bitset (schema_flag n True) = {..<n}"
  "bitset (schema_copy s) = bitset s" "schema_copy s = (s :: schema)"
  by (auto simp: schema_new_def schema_flag_def schema_copy_def)

lemma schema_set_wf [simp]:
  "schema_wf n s \<Longrightarrow> i < n \<Longrightarrow> schema_wf n (schema_set i v s)"
  "bitset (schema_set i True s) = insert i (bitset s)"
  "bitset (schema_set i False s) = bitset s - {i}"
  by (auto simp: schema_wf_def schema_set_def)

subsection \<open>The operations on well-formed schemas\<close>

lemma isSubsetOf_wf [schema_simps]:
  "schema_wf n s \<Longrightarrow> schema_wf n t \<Longrightarrow> isSubsetOf s t = Inr (bitset s \<subseteq> bitset t)"
  by (auto simp: isSubsetOf_def same_size_def schema_and_def schema_equals_def schema_wf_def)

lemma isSupersetOf_wf [schema_simps]:
  "schema_wf n s \<Longrightarrow> schema_wf n t \<Longrightarrow> isSupersetOf s t = Inr (bitset t \<subseteq> bitset s)"
  by (simp add: isSupersetOf_def same_size_def isSubsetOf_wf schema_wf_size)

lemma overlapsWith_wf [schema_simps]:
  "schema_wf n s \<Longrightarrow> schema_wf n t \<Longrightarrow> overlapsWith s t = Inr (bitset s \<inter> bitset t \<noteq> {})"
  by (auto simp: overlapsWith_def same_size_def schema_get_def list_ex_iff schema_wf_def)

lemma complement_in_wf:
  assumes "schema_wf n s" "schema_wf n u" "bitset s \<subseteq> bitset u"
  shows "complement_in s u = Inr \<lparr>bitset = bitset u - bitset s, logic_size = n\<rparr>"
proof -
  have "set (filter (\<lambda>i. schema_get u i \<and> \<not> schema_get s i) [0..<n]) = bitset u - bitset s"
    using assms(2) by (auto simp: schema_get_def schema_wf_def)
  with assms show ?thesis
    by (simp add: complement_in_def same_size_def isSubsetOf_wf schema_new_def schema_wf_size)
qed

lemma set_getIndices [schema_simps]: "schema_wf n s \<Longrightarrow> set (getIndices s) = bitset s"
  by (auto simp: getIndices_def schema_get_def schema_wf_def)

lemma schema_size_wf [schema_simps]: "schema_size s = card (bitset s)"
  by (simp add: schema_size_def)

lemma schema_equals_wf [schema_simps]: "schema_equals s t \<longleftrightarrow> bitset s = bitset t"
  by (simp add: schema_equals_def)

text \<open>\<open>getComb\<close> keeps the test case's values at the schema's positions.\<close>

definition proj :: "nat set \<Rightarrow> comb \<Rightarrow> comb" where
  "proj A t = map (\<lambda>i. if i \<in> A then t ! i else UNKNOWN) [0..<length t]"

lemma length_proj [simp]: "length (proj A t) = length t"
  by (simp add: proj_def)

lemma proj_nth [simp]: "i < length t \<Longrightarrow> proj A t ! i = (if i \<in> A then t ! i else UNKNOWN)"
  by (simp add: proj_def)

lemma getComb_loop:
  assumes "length t = n" "k \<le> n"
  shows "efold (\<lambda>i comb. if schema_get s i
              then ebind (comb_get t i) (\<lambda>v. comb_set i v comb) else comb_set i UNKNOWN comb)
           [0..<k] (comb_new n) = Inr (take k (proj (bitset s) t) @ replicate (n - k) UNKNOWN)"
  using \<open>k \<le> n\<close>
proof (induction k)
  case 0
  then show ?case by (simp add: comb_new_def)
next
  case (Suc k)
  then have k: "k < n" by simp
  have "replicate (n - k) UNKNOWN = UNKNOWN # replicate (n - Suc k) UNKNOWN"
    using k by (metis Suc_diff_Suc replicate_Suc)
  moreover have "take (Suc k) (proj (bitset s) t) =
      take k (proj (bitset s) t) @ [if k \<in> bitset s then t ! k else UNKNOWN]"
    using k assms by (simp add: take_Suc_conv_app_nth)
  ultimately show ?case
    using Suc k assms
    by (simp add: efold_append comb_get_def comb_set_def schema_get_def list_update_append)
qed

lemma getComb_wf [schema_simps]:
  "schema_wf n s \<Longrightarrow> length t = n \<Longrightarrow> getComb s t = Inr (proj (bitset s) t)"
  using getComb_loop [of t n n s] by (simp add: getComb_def schema_wf_size)

lemma schema_of_comb_loop:
  "fold (\<lambda>i s. if c ! i \<noteq> UNKNOWN then s\<lparr>bitset := insert i (bitset s)\<rparr> else s) [0..<k]
     (schema_new n) = \<lparr>bitset = {i. i < k \<and> c ! i \<noteq> UNKNOWN}, logic_size = n\<rparr>"
  by (induction k) (auto simp: schema_new_def less_Suc_eq)

lemma schema_of_comb_eq:
  "schema_of_comb c = \<lparr>bitset = {i. i < length c \<and> c ! i \<noteq> UNKNOWN}, logic_size = length c\<rparr>"
  by (simp add: schema_of_comb_def schema_of_comb_loop)

lemma schema_of_comb_wf [simp]: "schema_wf (length c) (schema_of_comb c)"
  by (auto simp: schema_of_comb_eq schema_wf_def)

end
