(* ===== verification/NP_Monotone.thy ===== *)
theory NP_Monotone
  imports NP_Schema
begin

text \<open>
  Monotone schema sets (src/main/java/nju/gist/Common/MonotoneSchemaSet.java): a list of schemas
  kept as an antichain, the minimal or the maximal ones of all that were added, and the minimal
  hitting sets of such a family.

  The contract is the locale \<open>monotone_family\<close>: a family stands for everything above (or below)
  one of its elements, and \<open>add\<close> extends exactly that region. It is interpreted twice on the
  model, for minimal and for maximal sets, so what follows from the contract is proved once.
\<close>

record mss =
  schemas :: "schema list"
  isMinimal :: bool

definition mss_new :: "bool \<Rightarrow> mss" where
  "mss_new b = \<lparr>schemas = [], isMinimal = b\<rparr>"

text \<open>
  \<open>add\<close>: one pass with an iterator; \<open>kept\<close> is the part of the list already passed, without the
  elements the iterator removed.
\<close>

fun add_loop :: "bool \<Rightarrow> schema \<Rightarrow> schema list \<Rightarrow> schema list \<Rightarrow> (bool \<times> schema list) res" where
  "add_loop minimal newschema kept [] = Inr (True, kept @ [newschema])"
| "add_loop minimal newschema kept (cur # rest) =
     (if schema_equals cur newschema then Inr (False, kept @ cur # rest)
      else if minimal then
        ebind (isSubsetOf cur newschema) (\<lambda>sub. if sub then Inr (False, kept @ cur # rest)
          else ebind (isSupersetOf cur newschema) (\<lambda>sup.
            if sup then add_loop minimal newschema kept rest
            else add_loop minimal newschema (kept @ [cur]) rest))
      else
        ebind (isSupersetOf cur newschema) (\<lambda>sup. if sup then Inr (False, kept @ cur # rest)
          else ebind (isSubsetOf cur newschema) (\<lambda>sub.
            if sub then add_loop minimal newschema kept rest
            else add_loop minimal newschema (kept @ [cur]) rest)))"

definition mss_add :: "schema \<Rightarrow> mss \<Rightarrow> (bool \<times> mss) res" where
  "mss_add newschema m =
     ebind (add_loop (isMinimal m) newschema [] (schemas m))
       (\<lambda>(added, ss). Inr (added, m\<lparr>schemas := ss\<rparr>))"

text \<open>Callers that ignore the returned flag.\<close>

definition mss_insert :: "schema \<Rightarrow> mss \<Rightarrow> mss res" where
  "mss_insert s m = ebind (mss_add s m) (\<lambda>(added, m'). Inr m')"

definition mss_remove :: "schema \<Rightarrow> mss \<Rightarrow> bool \<times> mss" where
  "mss_remove removed m =
     (if list_ex (\<lambda>s. schema_equals s removed) (schemas m)
      then (True, m\<lparr>schemas := takeWhile (\<lambda>s. \<not> schema_equals s removed) (schemas m) @
                     tl (dropWhile (\<lambda>s. \<not> schema_equals s removed) (schemas m))\<rparr>)
      else (False, m))"

definition mss_complement :: "mss \<Rightarrow> mss res" where
  "mss_complement m =
     efold (\<lambda>s result. mss_insert (schema_complement s) result) (schemas m)
       (mss_new (\<not> isMinimal m))"

definition mss_complement_in :: "mss \<Rightarrow> schema \<Rightarrow> mss res" where
  "mss_complement_in m universe =
     efold (\<lambda>s result. ebind (complement_in s universe) (\<lambda>c. mss_insert c result)) (schemas m)
       (mss_new (\<not> isMinimal m))"

text \<open>
  \<open>getMHS_recursive\<close>: the index into the list is the rest of the list; \<open>ans\<close> is the mutable
  schema, handed on and handed back. The inner loop over \<open>cur.getIndices()\<close> is \<open>getMHS_for\<close>.
\<close>

fun getMHS_recursive :: "schema \<Rightarrow> mss \<Rightarrow> schema list \<Rightarrow> (schema \<times> mss) res"
and getMHS_for :: "nat list \<Rightarrow> schema \<Rightarrow> mss \<Rightarrow> schema list \<Rightarrow> (schema \<times> mss) res" where
  "getMHS_recursive ans mhs [] =
     ebind (mss_insert (schema_copy ans) mhs) (\<lambda>mhs'. Inr (ans, mhs'))"
| "getMHS_recursive ans mhs (cur # rest) =
     ebind (overlapsWith ans cur) (\<lambda>b.
       if b then getMHS_recursive ans mhs rest
       else getMHS_for (getIndices cur) ans mhs rest)"
| "getMHS_for [] ans mhs rest = Inr (ans, mhs)"
| "getMHS_for (i # is) ans mhs rest =
     ebind (getMHS_recursive (schema_set i True ans) mhs rest)
       (\<lambda>(ans', mhs'). getMHS_for is (schema_set i False ans') mhs' rest)"

definition getMHS :: "mss \<Rightarrow> mss res" where
  "getMHS schemaSet =
     (case schemas schemaSet of
        [] \<Rightarrow> Inl (IllegalArgumentException ''schemaSet cannot be empty'')
      | s # ss \<Rightarrow>
          if ss = [] \<and> schema_size s = 0
          then Inl (IllegalArgumentException ''schemaSet cannot just have a single empty set'')
          else ebind (getMHS_recursive (schema_new (logic_size s)) (mss_new True) (s # ss))
                 (\<lambda>(ans, mhs). Inr mhs))"

subsection \<open>The contract of a monotone family\<close>

definition mss_elems :: "mss \<Rightarrow> nat set set" where
  "mss_elems m = bitset ` set (schemas m)"

definition covered :: "('a \<Rightarrow> 'a \<Rightarrow> bool) \<Rightarrow> 'a set \<Rightarrow> 'a \<Rightarrow> bool" where
  "covered le S y \<longleftrightarrow> (\<exists>c\<in>S. le c y)"

definition antichain_wrt :: "('a \<Rightarrow> 'a \<Rightarrow> bool) \<Rightarrow> 'a set \<Rightarrow> bool" where
  "antichain_wrt le S \<longleftrightarrow> (\<forall>a\<in>S. \<forall>b\<in>S. le a b \<longrightarrow> a = b)"

locale monotone_family =
  fixes le :: "'a \<Rightarrow> 'a \<Rightarrow> bool"
    and val :: "'s \<Rightarrow> 'a"
    and ok :: "'s \<Rightarrow> bool"
    and ins :: "'s \<Rightarrow> 'm \<Rightarrow> 'e + 'm"
    and elems :: "'m \<Rightarrow> 'a set"
    and invar :: "'m \<Rightarrow> bool"
  assumes le_refl: "le a a"
    and le_trans: "le a b \<Longrightarrow> le b c \<Longrightarrow> le a c"
    and le_antisym: "le a b \<Longrightarrow> le b a \<Longrightarrow> a = b"
    and ins_total: "invar m \<Longrightarrow> ok s \<Longrightarrow> \<exists>m'. ins s m = Inr m' \<and> invar m'"
    and ins_elems: "invar m \<Longrightarrow> ok s \<Longrightarrow> ins s m = Inr m' \<Longrightarrow>
      elems m' = (if covered le (elems m) (val s) then elems m
                  else insert (val s) {c \<in> elems m. \<not> le (val s) c})"
    and antichain: "invar m \<Longrightarrow> antichain_wrt le (elems m)"
begin

lemma covered_insert:
  assumes "invar m" "ok s" "ins s m = Inr m'"
  shows "covered le (elems m') y \<longleftrightarrow> le (val s) y \<or> covered le (elems m) y"
  using ins_elems [OF assms] le_refl
  by (auto simp: covered_def split: if_splits intro: le_trans)

text \<open>An antichain is determined by the region it covers: its elements are the extremal ones.\<close>

lemma elems_extremal:
  assumes "invar m"
  shows "x \<in> elems m \<longleftrightarrow>
    covered le (elems m) x \<and> (\<forall>y. covered le (elems m) y \<longrightarrow> le y x \<longrightarrow> y = x)"
  using antichain [OF assms] le_refl le_trans le_antisym
  unfolding covered_def antichain_wrt_def by blast

lemma elems_insert_sub:
  assumes "invar m" "ok s" "ins s m = Inr m'"
  shows "elems m' \<subseteq> insert (val s) (elems m)"
  using ins_elems [OF assms] by (auto split: if_splits)

text \<open>Adding a whole list never raises and covers exactly what its members cover.\<close>

lemma insert_all:
  assumes "invar m" "\<forall>s\<in>set ss. ok s"
  shows "\<exists>m'. efold ins ss m = Inr m' \<and> invar m' \<and> elems m' \<subseteq> elems m \<union> val ` set ss \<and>
    (\<forall>y. covered le (elems m') y \<longleftrightarrow> covered le (elems m) y \<or> (\<exists>s\<in>set ss. le (val s) y))"
  using assms
proof (induction ss arbitrary: m)
  case Nil
  then show ?case by simp
next
  case (Cons s ss)
  then obtain m1 where m1: "ins s m = Inr m1" "invar m1" using ins_total by fastforce
  with Cons obtain m2 where "efold ins ss m1 = Inr m2" "invar m2"
    "elems m2 \<subseteq> elems m1 \<union> val ` set ss"
    "\<forall>y. covered le (elems m2) y \<longleftrightarrow> covered le (elems m1) y \<or> (\<exists>s\<in>set ss. le (val s) y)"
    by fastforce
  with m1 Cons.prems covered_insert [of m s m1] elems_insert_sub [of m s m1] show ?case by auto
qed

end

subsection \<open>The model satisfies the contract\<close>

definition mss_wf :: "nat \<Rightarrow> bool \<Rightarrow> mss \<Rightarrow> bool" where
  "mss_wf n b m \<longleftrightarrow> isMinimal m = b \<and> (\<forall>s\<in>set (schemas m). schema_wf n s) \<and>
     antichain_wrt (\<subseteq>) (mss_elems m)"

definition order_of :: "bool \<Rightarrow> nat set \<Rightarrow> nat set \<Rightarrow> bool" where
  "order_of b x y \<longleftrightarrow> (if b then x \<subseteq> y else y \<subseteq> x)"

lemma order_of_simps [simp]: "order_of True = (\<subseteq>)" "order_of False = (\<lambda>x y. y \<subseteq> x)"
  by (auto simp: order_of_def fun_eq_iff)

text \<open>The pass over the list: it stops at a covering element, and otherwise filters.\<close>

lemma add_loop_step:
  assumes "schema_wf n s" "schema_wf n c"
  shows "add_loop b s kept (c # cs) =
    (if order_of b (bitset c) (bitset s) then Inr (False, kept @ c # cs)
     else if order_of b (bitset s) (bitset c) then add_loop b s kept cs
     else add_loop b s (kept @ [c]) cs)"
  using isSubsetOf_wf [OF assms(2,1)] isSupersetOf_wf [OF assms(2,1)]
  by (simp add: order_of_def schema_equals_def)

lemma add_loop_covered:
  assumes "schema_wf n s" "\<forall>c\<in>set cs. schema_wf n c" "covered (order_of b) (bitset ` set cs) (bitset s)"
    "antichain_wrt (\<subseteq>) (bitset ` set cs)"
  shows "add_loop b s kept cs = Inr (False, kept @ cs)"
  using assms(2-)
proof (induction cs arbitrary: kept)
  case Nil
  then show ?case by (simp add: covered_def)
next
  case (Cons c cs)
  have wf: "schema_wf n c" and ac: "antichain_wrt (\<subseteq>) (bitset ` set cs)"
    using Cons.prems by (auto simp: antichain_wrt_def)
  show ?case
  proof (cases "order_of b (bitset c) (bitset s)")
    case True
    with add_loop_step [OF assms(1) wf] show ?thesis by (simp del: add_loop.simps)
  next
    case False
    then have cov: "covered (order_of b) (bitset ` set cs) (bitset s)"
      using Cons.prems by (auto simp: covered_def)
    then obtain d where d: "d \<in> set cs" "order_of b (bitset d) (bitset s)"
      by (auto simp: covered_def)
    have "\<not> order_of b (bitset s) (bitset c)"
    proof
      assume "order_of b (bitset s) (bitset c)"
      with d have "order_of b (bitset d) (bitset c)" by (cases b) auto
      with d Cons.prems(3) have "bitset c = bitset d"
        by (cases b) (auto simp: antichain_wrt_def)
      with False d show False by simp
    qed
    with False Cons.IH [OF _ cov ac, of "kept @ [c]"] Cons.prems show ?thesis
      using add_loop_step [OF assms(1) wf, of b kept cs] by (simp del: add_loop.simps)
  qed
qed

lemma add_loop_fresh:
  assumes "schema_wf n s" "\<forall>c\<in>set cs. schema_wf n c"
    "\<not> covered (order_of b) (bitset ` set cs) (bitset s)"
  shows "add_loop b s kept cs =
    Inr (True, kept @ filter (\<lambda>c. \<not> order_of b (bitset s) (bitset c)) cs @ [s])"
  using assms(2-)
proof (induction cs arbitrary: kept)
  case (Cons c cs)
  then have "\<not> order_of b (bitset c) (bitset s)" "\<not> covered (order_of b) (bitset ` set cs) (bitset s)"
    by (auto simp: covered_def)
  with Cons.IH [of "kept @ [c]"] Cons.IH [of kept] Cons.prems
  show ?case using add_loop_step [OF assms(1), of c b kept cs]
    by (simp del: add_loop.simps)
qed simp

lemma mss_insert_eq:
  assumes "mss_wf n b m" "schema_wf n s"
  shows "mss_insert s m =
    Inr (if covered (order_of b) (mss_elems m) (bitset s) then m
         else m\<lparr>schemas := filter (\<lambda>c. \<not> order_of b (bitset s) (bitset c)) (schemas m) @ [s]\<rparr>)"
  using assms add_loop_covered [of n s "schemas m" b "[]"]
    add_loop_fresh [of n s "schemas m" b "[]"]
  by (auto simp: mss_insert_def mss_add_def mss_wf_def mss_elems_def)

lemma mss_insert_elems:
  assumes "mss_wf n b m" "schema_wf n s" "mss_insert s m = Inr m'"
  shows "mss_elems m' = (if covered (order_of b) (mss_elems m) (bitset s) then mss_elems m
    else insert (bitset s) {c \<in> mss_elems m. \<not> order_of b (bitset s) c})"
  using assms mss_insert_eq [OF assms(1,2)] by (auto simp: mss_elems_def split: if_splits)

lemma mss_insert_wf:
  assumes "mss_wf n b m" "schema_wf n s" "mss_insert s m = Inr m'"
  shows "mss_wf n b m'"
proof -
  have "antichain_wrt (\<subseteq>) (mss_elems m')"
    using mss_insert_elems [OF assms] assms(1)
    by (cases b) (auto simp: antichain_wrt_def mss_wf_def covered_def split: if_splits)
  then show ?thesis
    using assms mss_insert_eq [OF assms(1,2)] by (auto simp: mss_wf_def split: if_splits)
qed

lemma mss_new_wf [simp]: "mss_wf n b (mss_new b)" "mss_elems (mss_new b) = {}"
  by (auto simp: mss_wf_def mss_new_def mss_elems_def antichain_wrt_def)

lemma mss_elems_bound: "mss_wf n b m \<Longrightarrow> c \<in> mss_elems m \<Longrightarrow> c \<subseteq> {..<n}"
  by (auto simp: mss_wf_def mss_elems_def schema_wf_def)

interpretation minF: monotone_family "(\<subseteq>)" bitset "schema_wf n" mss_insert mss_elems "mss_wf n True"
  for n
proof
  fix m :: mss and s
  assume a: "mss_wf n True m" "schema_wf n s"
  then show "\<exists>m'. mss_insert s m = Inr m' \<and> mss_wf n True m'"
    using mss_insert_eq [OF a] mss_insert_wf [OF a] by blast
  show "mss_insert s m = Inr m' \<Longrightarrow> mss_elems m' =
      (if covered (\<subseteq>) (mss_elems m) (bitset s) then mss_elems m
       else insert (bitset s) {c \<in> mss_elems m. \<not> bitset s \<subseteq> c})" for m'
    using mss_insert_elems [OF a] by simp
qed (auto simp: mss_wf_def)

interpretation maxP: monotone_family "\<lambda>x y. y \<subseteq> x" bitset "schema_wf n" mss_insert mss_elems
  "mss_wf n False" for n
proof
  fix m :: mss and s
  assume a: "mss_wf n False m" "schema_wf n s"
  then show "\<exists>m'. mss_insert s m = Inr m' \<and> mss_wf n False m'"
    using mss_insert_eq [OF a] mss_insert_wf [OF a] by blast
  show "mss_insert s m = Inr m' \<Longrightarrow> mss_elems m' =
      (if covered (\<lambda>x y. y \<subseteq> x) (mss_elems m) (bitset s) then mss_elems m
       else insert (bitset s) {c \<in> mss_elems m. \<not> c \<subseteq> bitset s})" for m'
    using mss_insert_elems [OF a] by simp
qed (auto simp: mss_wf_def antichain_wrt_def)

subsection \<open>Adding schemas\<close>

lemma insert_list_extremal:
  assumes "\<forall>s\<in>set ss. schema_wf n s"
  shows "\<exists>m. efold mss_insert ss (mss_new b) = Inr m \<and> mss_wf n b m \<and>
    mss_elems m = {x \<in> bitset ` set ss. \<forall>y\<in>bitset ` set ss. order_of b y x \<longrightarrow> y = x}"
proof (cases b)
  case True
  obtain m where m: "efold mss_insert ss (mss_new True) = Inr m" "mss_wf n True m"
    "\<And>y. covered (\<subseteq>) (mss_elems m) y \<longleftrightarrow> (\<exists>s\<in>set ss. bitset s \<subseteq> y)"
    using minF.insert_all [of n "mss_new True" ss] assms by (auto simp: covered_def)
  have "x \<in> mss_elems m \<longleftrightarrow>
      x \<in> bitset ` set ss \<and> (\<forall>y\<in>bitset ` set ss. y \<subseteq> x \<longrightarrow> y = x)" for x
    unfolding minF.elems_extremal [OF m(2)] m(3) by blast
  then have "mss_elems m = {x \<in> bitset ` set ss. \<forall>y\<in>bitset ` set ss. y \<subseteq> x \<longrightarrow> y = x}" by blast
  with m True show ?thesis by simp
next
  case False
  obtain m where m: "efold mss_insert ss (mss_new False) = Inr m" "mss_wf n False m"
    "\<And>y. covered (\<lambda>x y. y \<subseteq> x) (mss_elems m) y \<longleftrightarrow> (\<exists>s\<in>set ss. y \<subseteq> bitset s)"
    using maxP.insert_all [of n "mss_new False" ss] assms by (auto simp: covered_def)
  have "x \<in> mss_elems m \<longleftrightarrow>
      x \<in> bitset ` set ss \<and> (\<forall>y\<in>bitset ` set ss. x \<subseteq> y \<longrightarrow> y = x)" for x
    unfolding maxP.elems_extremal [OF m(2)] m(3) by blast
  then have "mss_elems m = {x \<in> bitset ` set ss. \<forall>y\<in>bitset ` set ss. x \<subseteq> y \<longrightarrow> y = x}" by blast
  with m False show ?thesis by simp
qed

text \<open>C11. A schema set that starts empty and receives any list of schemas over the same parameters
  never raises and ends with exactly the minimal (or, for a maximal set, the maximal) schemas of
  that list, whatever the order in which they arrive.\<close>

theorem add_keeps_extremal:
  assumes "\<forall>s\<in>set ss. schema_wf n s"
  shows "\<exists>m. efold mss_insert ss (mss_new b) = Inr m \<and> mss_wf n b m \<and>
    mss_elems m = {x \<in> bitset ` set ss. \<forall>y\<in>bitset ` set ss. order_of b y x \<longrightarrow> y = x}"
  using assms by (rule insert_list_extremal)

theorem add_keeps_extremal_witness:
  "\<exists>m. efold mss_insert [\<lparr>bitset = {0, 1}, logic_size = 3\<rparr>, \<lparr>bitset = {0}, logic_size = 3\<rparr>,
       \<lparr>bitset = {1, 2}, logic_size = 3\<rparr>] (mss_new True) = Inr m \<and> mss_elems m = {{0}, {1, 2}}"
proof -
  let ?ss = "[\<lparr>bitset = {0, 1}, logic_size = 3\<rparr>, \<lparr>bitset = {0}, logic_size = 3\<rparr>,
       \<lparr>bitset = {1, 2}, logic_size = 3\<rparr>]"
  have "{x \<in> bitset ` set ?ss. \<forall>y\<in>bitset ` set ?ss. y \<subseteq> x \<longrightarrow> y = x} = {{0}, {1, 2}}" by auto
  with add_keeps_extremal [of ?ss 3 True] show ?thesis by (auto simp: schema_wf_def)
qed

subsection \<open>Minimal hitting sets\<close>

definition hits :: "nat set \<Rightarrow> nat set set \<Rightarrow> bool" where
  "hits h Fs \<longleftrightarrow> (\<forall>F\<in>Fs. F \<inter> h \<noteq> {})"

definition grows :: "nat \<Rightarrow> mss \<Rightarrow> mss \<Rightarrow> (nat set \<Rightarrow> bool) \<Rightarrow> bool" where
  "grows n m m' Q \<longleftrightarrow> mss_wf n True m' \<and>
     (\<forall>y. covered (\<subseteq>) (mss_elems m') y \<longleftrightarrow> covered (\<subseteq>) (mss_elems m) y \<or> Q y)"

lemma grows_wf: "grows n m m' Q \<Longrightarrow> mss_wf n True m'"
  by (simp add: grows_def)

lemma grows_trans:
  "grows n m m1 Q \<Longrightarrow> grows n m1 m2 R \<Longrightarrow> (\<And>y. S y \<longleftrightarrow> Q y \<or> R y) \<Longrightarrow> grows n m m2 S"
  by (auto simp: grows_def)

lemma grows_insert:
  assumes "mss_wf n True m" "schema_wf n s"
  shows "\<exists>m'. mss_insert s m = Inr m' \<and> grows n m m' (\<lambda>y. bitset s \<subseteq> y)"
proof -
  obtain m' where m': "mss_insert s m = Inr m'" "mss_wf n True m'"
    using minF.ins_total [OF assms] by blast
  with minF.covered_insert [OF assms m'(1)] show ?thesis by (auto simp: grows_def)
qed

lemma schema_set_restore: "i \<notin> bitset s \<Longrightarrow> schema_set i False (schema_set i True s) = s"
  by (simp add: schema_set_def)

text \<open>
  The recursion adds every superset of \<open>ans\<close> that hits the rest of the family, and leaves \<open>ans\<close>
  as it found it.
\<close>

lemma getMHS_recursive_correct:
  "schema_wf n ans \<Longrightarrow> mss_wf n True mhs \<Longrightarrow> \<forall>F\<in>set rest. schema_wf n F \<Longrightarrow>
     \<exists>mhs'. getMHS_recursive ans mhs rest = Inr (ans, mhs') \<and>
       grows n mhs mhs' (\<lambda>y. bitset ans \<subseteq> y \<and> hits y (bitset ` set rest))"
  "schema_wf n ans \<Longrightarrow> mss_wf n True mhs \<Longrightarrow> \<forall>F\<in>set rest. schema_wf n F \<Longrightarrow>
     set is \<subseteq> {..<n} \<Longrightarrow> set is \<inter> bitset ans = {} \<Longrightarrow>
     \<exists>mhs'. getMHS_for is ans mhs rest = Inr (ans, mhs') \<and>
       grows n mhs mhs' (\<lambda>y. bitset ans \<subseteq> y \<and> set is \<inter> y \<noteq> {} \<and> hits y (bitset ` set rest))"
proof (induction ans mhs rest and "is" ans mhs rest rule: getMHS_recursive_getMHS_for.induct)
  case (1 ans mhs)
  with grows_insert [of n mhs ans] show ?case by (auto simp: hits_def)
next
  case (2 ans mhs cur rest)
  then have wf: "schema_wf n cur" by simp
  show ?case
  proof (cases "bitset ans \<inter> bitset cur = {}")
    case True
    then obtain mhs' where m: "getMHS_for (getIndices cur) ans mhs rest = Inr (ans, mhs')"
      and g: "grows n mhs mhs' (\<lambda>y. bitset ans \<subseteq> y \<and> bitset cur \<inter> y \<noteq> {} \<and> hits y (bitset ` set rest))"
      using "2.IH"(2) [of False] "2.prems" wf
      by (auto simp: overlapsWith_wf [of n] set_getIndices [of n] schema_wf_sub Int_commute)
    have "grows n mhs mhs' (\<lambda>y. bitset ans \<subseteq> y \<and> hits y (bitset ` set (cur # rest)))"
      using g by (simp add: hits_def)
    with m True "2.prems" wf show ?thesis by (auto simp: overlapsWith_wf [of n])
  next
    case False
    then obtain mhs' where m: "getMHS_recursive ans mhs rest = Inr (ans, mhs')"
      and g: "grows n mhs mhs' (\<lambda>y. bitset ans \<subseteq> y \<and> hits y (bitset ` set rest))"
      using "2.IH"(1) [of True] "2.prems" wf by (auto simp: overlapsWith_wf [of n])
    have "(bitset ans \<subseteq> y \<and> hits y (bitset ` set rest)) =
        (bitset ans \<subseteq> y \<and> hits y (bitset ` set (cur # rest)))" for y
      using False by (auto simp: hits_def)
    with g have "grows n mhs mhs' (\<lambda>y. bitset ans \<subseteq> y \<and> hits y (bitset ` set (cur # rest)))"
      by simp
    with m False "2.prems" wf show ?thesis by (auto simp: overlapsWith_wf [of n])
  qed
next
  case (3 ans mhs rest)
  then show ?case by (simp add: grows_def)
next
  case (4 i "is" ans mhs rest)
  let ?ans = "schema_set i True ans"
  have i: "i < n" "i \<notin> bitset ans" using "4.prems" by auto
  obtain m1 where m1: "getMHS_recursive ?ans mhs rest = Inr (?ans, m1)"
    and g1: "grows n mhs m1 (\<lambda>y. insert i (bitset ans) \<subseteq> y \<and> hits y (bitset ` set rest))"
    using "4.IH"(1) "4.prems" i by auto
  obtain m2 where m2: "getMHS_for is ans m1 rest = Inr (ans, m2)"
    and g2: "grows n m1 m2 (\<lambda>y. bitset ans \<subseteq> y \<and> set is \<inter> y \<noteq> {} \<and> hits y (bitset ` set rest))"
    using "4.IH"(2) [OF m1 refl] "4.prems" i grows_wf [OF g1]
    by (auto simp: schema_set_restore)
  have "grows n mhs m2
      (\<lambda>y. bitset ans \<subseteq> y \<and> set (i # is) \<inter> y \<noteq> {} \<and> hits y (bitset ` set rest))"
    by (rule grows_trans [OF g1 g2]) auto
  with m1 m2 i show ?case by (simp add: schema_set_restore)
qed

lemma getMHS_covers:
  assumes "mss_wf n b S" "mss_elems S \<noteq> {}" "{} \<notin> mss_elems S"
  shows "\<exists>m. getMHS S = Inr m \<and> mss_wf n True m \<and>
    (\<forall>y. covered (\<subseteq>) (mss_elems m) y \<longleftrightarrow> hits y (mss_elems S))"
proof -
  obtain s ss where S: "schemas S = s # ss"
    using assms(2) by (cases "schemas S") (auto simp: mss_elems_def)
  have wf: "\<forall>F\<in>set (s # ss). schema_wf n F"
    using assms(1) S by (auto simp: mss_wf_def)
  obtain m where m: "getMHS_recursive (schema_new n) (mss_new True) (s # ss) = Inr (schema_new n, m)"
    and g: "grows n (mss_new True) m (\<lambda>y. hits y (bitset ` set (s # ss)))"
    using getMHS_recursive_correct(1) [of n "schema_new n" "mss_new True" "s # ss"] wf by auto
  have "schema_size s \<noteq> 0"
    using assms(3) S wf schema_wf_finite [of n s] by (auto simp: mss_elems_def schema_size_def)
  with m wf S have "getMHS S = Inr m"
    by (simp add: getMHS_def schema_wf_size [of n] del: getMHS_recursive.simps)
  moreover have "mss_elems S = bitset ` set (s # ss)" using S by (simp add: mss_elems_def)
  moreover have "mss_elems (mss_new True) = {}" by simp
  ultimately show ?thesis using g by (auto simp: grows_def covered_def)
qed

text \<open>C10. For a non-empty family of non-empty schemas, \<open>getMHS\<close> returns exactly the minimal
  hitting sets of the family: the position sets that meet every member and lose that property
  with any proper subset.\<close>

theorem getMHS_minimal_hitting_sets:
  assumes "mss_wf n b S" "mss_elems S \<noteq> {}" "{} \<notin> mss_elems S"
  shows "\<exists>m. getMHS S = Inr m \<and> mss_wf n True m \<and>
    mss_elems m = {h. hits h (mss_elems S) \<and> (\<forall>h'\<subset>h. \<not> hits h' (mss_elems S))}"
proof -
  obtain m where m: "getMHS S = Inr m" "mss_wf n True m"
    "\<And>y. covered (\<subseteq>) (mss_elems m) y \<longleftrightarrow> hits y (mss_elems S)"
    using getMHS_covers [OF assms] by blast
  have "x \<in> mss_elems m \<longleftrightarrow> hits x (mss_elems S) \<and> (\<forall>h'\<subset>x. \<not> hits h' (mss_elems S))" for x
    unfolding minF.elems_extremal [OF m(2)] m(3) by blast
  with m show ?thesis by blast
qed

theorem getMHS_minimal_hitting_sets_witness:
  "\<exists>m. getMHS \<lparr>schemas = [\<lparr>bitset = {0, 1}, logic_size = 3\<rparr>, \<lparr>bitset = {1, 2}, logic_size = 3\<rparr>],
       isMinimal = True\<rparr> = Inr m \<and> {1} \<in> mss_elems m \<and> {0, 1} \<notin> mss_elems m"
proof -
  let ?S = "\<lparr>schemas = [\<lparr>bitset = {0, 1}, logic_size = 3\<rparr>, \<lparr>bitset = {1, 2}, logic_size = 3\<rparr>],
       isMinimal = True\<rparr>"
  have el: "mss_elems ?S = {{0, 1}, {1, 2}}" by (simp add: mss_elems_def)
  have wf: "mss_wf 3 True ?S"
    unfolding mss_wf_def el by (auto simp: schema_wf_def antichain_wrt_def)
  have ne: "mss_elems ?S \<noteq> {}" "{} \<notin> mss_elems ?S" unfolding el by auto
  obtain m where m: "getMHS ?S = Inr m"
    "mss_elems m = {h. hits h (mss_elems ?S) \<and> (\<forall>h'\<subset>h. \<not> hits h' (mss_elems ?S))}"
    using getMHS_minimal_hitting_sets [OF wf] ne by blast
  have "hits {1} (mss_elems ?S)" "\<not> hits {} (mss_elems ?S)" unfolding el hits_def by auto
  moreover have "{1} \<subset> {0, 1::nat}" by auto
  moreover have "h' = {}" if "h' \<subset> {1}" for h' :: "nat set" using that by blast
  ultimately have "{1} \<in> mss_elems m" "{0, 1} \<notin> mss_elems m"
    unfolding m(2) mem_Collect_eq by (metis, metis)
  with m(1) show ?thesis by blast
qed

end
