(* ===== verification/NP_Identify.thy ===== *)
theory NP_Identify
  imports NP_Monotone
begin

text \<open>
  The NoPend fault resolver (src/main/java/nju/gist/FaultResolver/AbstractFaultResolver.java,
  NoPend/NoPend.java and NoPend/NoPendFaultResolver.java).

  The resolver object is the record \<open>resolver\<close>; each method takes it and returns it updated.
  \<open>identify\<close> is a loop that calls itself on a smaller universe, so it is a
  \<open>partial_function (option)\<close>: \<open>None\<close> would be a run that never returns, \<open>Some (Inl e)\<close> one
  that raises. The theorems show that neither happens and that the result is right.

  \<open>MFC_identified\<close> is a \<open>HashSet\<close>; its iteration order is not specified, so it is a parameter
  \<open>iter\<close> that lists the elements of a set in some order.
\<close>

record resolver =
  Tpass :: "comb list"
  Tfail :: "comb list"
  the_checker :: checker
  healthyCombs :: "comb list"
  faultyCombs :: "comb list"
  safeValues :: "comb option"
  MFC_identified :: "comb set"
  conducted :: bool

subsection \<open>AbstractFaultResolver\<close>

definition resolver_new :: "checker \<Rightarrow> comb list \<Rightarrow> comb list \<Rightarrow> resolver res" where
  "resolver_new ck tpass tfail =
     (if tfail = [] then Inl (IllegalArgumentException ''Tfail is empty'')
      else Inr \<lparr>Tpass = tpass, Tfail = tfail, the_checker = ck, healthyCombs = [],
                faultyCombs = [], safeValues = None, MFC_identified = {}, conducted = False\<rparr>)"

definition resolver_reset :: "resolver \<Rightarrow> resolver" where
  "resolver_reset r =
     r\<lparr>conducted := False, the_checker := checker_reset (the_checker r), MFC_identified := {}\<rparr>"

text \<open>
  With no safe values set, the padding fails at the first unknown element (a null dereference) and
  copies a combination that has none.
\<close>

definition pad_comb :: "resolver \<Rightarrow> comb \<Rightarrow> comb \<Rightarrow> comb res" where
  "pad_comb r comb tfail =
     (case safeValues r of
        None \<Rightarrow> if list_ex (\<lambda>x. x = UNKNOWN) comb then Inl (RuntimeException ''NullPointerException'')
                else testcase_of_list comb
      | Some safe \<Rightarrow> paddingWithSafeValues comb safe tfail)"

definition check_with_safevalues :: "comb \<Rightarrow> comb \<Rightarrow> resolver \<Rightarrow> (bool \<times> resolver) res" where
  "check_with_safevalues comb tfail r =
     ebind (pad_comb r comb tfail) (\<lambda>t.
     ebind (check (the_checker r) t) (\<lambda>(result, ck).
       Inr (result,
            if result then r\<lparr>the_checker := ck, healthyCombs := healthyCombs r @ [comb]\<rparr>
            else r\<lparr>the_checker := ck, faultyCombs := faultyCombs r @ [comb]\<rparr>)))"

text \<open>\<open>checkPending\<close>: neither inside a healthy combination nor above a faulty one.\<close>

fun any_contains :: "(comb \<Rightarrow> bool res) \<Rightarrow> comb list \<Rightarrow> bool res" where
  "any_contains f [] = Inr False"
| "any_contains f (c # cs) = ebind (f c) (\<lambda>b. if b then Inr True else any_contains f cs)"

definition checkPending :: "resolver \<Rightarrow> comb \<Rightarrow> bool res" where
  "checkPending r comb =
     ebind (any_contains (\<lambda>h. contains h comb) (healthyCombs r)) (\<lambda>b.
       if b then Inr False
       else ebind (any_contains (\<lambda>f. contains comb f) (faultyCombs r)) (\<lambda>b'. Inr (\<not> b')))"

subsection \<open>NoPend.getLongestChain\<close>

definition chain_step :: "schema \<times> schema \<Rightarrow> (schema \<times> schema) option \<times> int \<Rightarrow>
    ((schema \<times> schema) option \<times> int) res" where
  "chain_step = (\<lambda>(top, bottom) (best, longest_size).
     ebind (isSupersetOf top bottom) (\<lambda>sup.
       let len = int (schema_size top) - int (schema_size bottom) + 1
       in if sup \<and> len > longest_size then Inr (Some (top, bottom), len)
          else Inr (best, longest_size)))"

definition getLongestChain :: "mss \<Rightarrow> mss \<Rightarrow> (schema \<times> schema) option res" where
  "getLongestChain topSchemas bottomSchemas =
     (if schemas topSchemas = [] \<or> schemas bottomSchemas = []
      then Inl (RuntimeException ''Max non-faulty or min non-healthy is empty'')
      else ebind (efold chain_step
                    (List.product (schemas topSchemas) (schemas bottomSchemas)) (None, -1))
             (\<lambda>(best, longest_size). Inr best))"

subsection \<open>NoPendFaultResolver.binarySearch\<close>

text \<open>Version 2 of the chain: positions are added from the last parameter to the first.\<close>

definition build_chain :: "schema \<Rightarrow> schema \<Rightarrow> schema list" where
  "build_chain maxS minS =
     snd (fold (\<lambda>i (now, chain).
            if \<not> schema_get minS i \<and> schema_get maxS i
            then (schema_set i True now, chain @ [schema_copy (schema_set i True now)])
            else (now, chain))
          (rev [0..<logic_size maxS]) (minS, [minS]))"

definition check_schema :: "schema \<Rightarrow> comb \<Rightarrow> resolver \<Rightarrow> (bool \<times> resolver) res" where
  "check_schema s tfail r =
     ebind (getComb s tfail) (\<lambda>comb. check_with_safevalues comb tfail r)"

function search_loop ::
  "schema list \<Rightarrow> comb \<Rightarrow> int \<Rightarrow> int \<Rightarrow> int \<Rightarrow> resolver \<Rightarrow> (int \<times> resolver) res" where
  "search_loop chain tfail left right result r =
     (if left \<le> right then
        (let mid = left + (right - left) div 2
         in if mid < 0 \<or> int (length chain) \<le> mid then Inl IndexOutOfBoundsException
            else ebind (check_schema (chain ! nat mid) tfail r) (\<lambda>(healthy, r').
              if healthy then search_loop chain tfail (mid + 1) right result r'
              else search_loop chain tfail left (mid - 1) mid r'))
      else Inr (result, r))"
  by pat_completeness auto
termination
  by (relation "measure (\<lambda>(chain, tfail, left, right, result, r). nat (right - left + 1))") auto

declare search_loop.simps [simp del]

definition binarySearch :: "schema \<Rightarrow> schema \<Rightarrow> comb \<Rightarrow> resolver \<Rightarrow> (schema option \<times> resolver) res" where
  "binarySearch maxS minS tfail r =
     (if logic_size maxS \<noteq> logic_size minS then Inl (RuntimeException ''Schema sizes mismatch'')
      else ebind (isSupersetOf maxS minS) (\<lambda>sup.
        if \<not> sup then Inl (IllegalArgumentException ''max is not a superset of min'')
        else ebind (check_schema maxS tfail r) (\<lambda>(healthy, r').
          if healthy then Inr (None, r')
          else let chain = build_chain maxS minS
               in ebind (search_loop chain tfail 0 (int (length chain) - 1) (-1) r')
                    (\<lambda>(result, r''). Inr (if result = -1 then None else Some (chain ! nat result), r'')))))"

subsection \<open>NoPendFaultResolver.identify\<close>

text \<open>
  One turn of the loop up to the binary search: the pending border, the longest chain across it
  and what the search on that chain found. \<open>None\<close> is the return when no chain is left.
\<close>

definition identify_step :: "schema \<Rightarrow> mss \<Rightarrow> mss \<Rightarrow> comb \<Rightarrow> resolver \<Rightarrow>
    (schema \<times> schema option \<times> resolver) option res" where
  "identify_step universe CMinF CMaxP tfail r =
     ebind (ebind (mss_complement_in CMaxP universe) getMHS) (\<lambda>bottomSchemas.
     ebind (ebind (getMHS CMinF) (\<lambda>m. mss_complement_in m universe)) (\<lambda>topSchemas.
     ebind (getLongestChain topSchemas bottomSchemas) (\<lambda>longestChain.
       case longestChain of
         None \<Rightarrow> Inr None
       | Some (maxS, minS) \<Rightarrow>
           ebind (binarySearch maxS minS tfail r) (\<lambda>(minfault, r'). Inr (Some (maxS, minfault, r'))))))"

definition identify_init :: "schema \<Rightarrow> (mss \<times> mss) res" where
  "identify_init universe =
     ebind (mss_insert universe (mss_new True)) (\<lambda>F.
     ebind (mss_insert (schema_new (logic_size universe)) (mss_new False)) (\<lambda>P. Inr (F, P)))"

definition identify_merge :: "mss \<Rightarrow> mss \<Rightarrow> mss \<Rightarrow> mss \<Rightarrow> (mss \<times> mss) res" where
  "identify_merge CMinF CMaxP CMinF_rec CMaxP_rec =
     ebind (efold mss_insert (schemas CMinF_rec) CMinF) (\<lambda>F.
     ebind (efold mss_insert (schemas CMaxP_rec) CMaxP) (\<lambda>P. Inr (F, P)))"

partial_function (option) identify_loop ::
  "schema \<Rightarrow> mss \<Rightarrow> mss \<Rightarrow> comb \<Rightarrow> resolver \<Rightarrow> (mss \<times> mss \<times> resolver) res option" where
  "identify_loop universe CMinF CMaxP tfail r =
     (case identify_step universe CMinF CMaxP tfail r of
        Inl e \<Rightarrow> Some (Inl e)
      | Inr None \<Rightarrow> Some (Inr (CMinF, CMaxP, r))
      | Inr (Some (maxS, None, r')) \<Rightarrow>
          (case mss_insert (schema_copy maxS) CMaxP of
             Inl e \<Rightarrow> Some (Inl e)
           | Inr CMaxP' \<Rightarrow> identify_loop universe CMinF CMaxP' tfail r')
      | Inr (Some (maxS, Some minfault, r')) \<Rightarrow>
          (case identify_init (schema_copy minfault) of
             Inl e \<Rightarrow> Some (Inl e)
           | Inr (F, P) \<Rightarrow>
               Option.bind
                 (if schema_size minfault = 1 then Some (Inr (F, P, r'))
                  else identify_loop (schema_copy minfault) F P tfail r')
                 (\<lambda>rec. case rec of
                    Inl e \<Rightarrow> Some (Inl e)
                  | Inr (F', P', r'') \<Rightarrow>
                      (case identify_merge CMinF CMaxP F' P' of
                         Inl e \<Rightarrow> Some (Inl e)
                       | Inr (CMinF', CMaxP') \<Rightarrow>
                           identify_loop universe CMinF' CMaxP' tfail r''))))"

definition identify ::
  "schema \<Rightarrow> mss \<Rightarrow> mss \<Rightarrow> comb \<Rightarrow> resolver \<Rightarrow> (mss \<times> mss \<times> resolver) res option" where
  "identify universe CMinF CMaxP tfail r =
     (if schema_size universe = 1 then Some (Inr (CMinF, CMaxP, r))
      else identify_loop universe CMinF CMaxP tfail r)"

subsection \<open>NoPendFaultResolver.conduct\<close>

text \<open>The first identified combination that the failing test case contains seeds \<open>CMinF\<close>.\<close>

fun seed_CMinF :: "comb \<Rightarrow> comb list \<Rightarrow> mss \<Rightarrow> mss res" where
  "seed_CMinF tfail [] CMinF = Inr CMinF"
| "seed_CMinF tfail (c # cs) CMinF =
     ebind (contains tfail c) (\<lambda>b.
       if b then mss_insert (schema_of_comb c) CMinF else seed_CMinF tfail cs CMinF)"

definition record_MFCs :: "mss \<Rightarrow> comb \<Rightarrow> resolver \<Rightarrow> resolver res" where
  "record_MFCs CMinF tfail r =
     efold (\<lambda>s r. ebind (getComb s tfail)
              (\<lambda>c. Inr (r\<lparr>MFC_identified := insert c (MFC_identified r)\<rparr>))) (schemas CMinF) r"

definition conduct_one :: "(comb set \<Rightarrow> comb list) \<Rightarrow> comb \<Rightarrow> resolver \<Rightarrow> resolver res option" where
  "conduct_one iter tfail r =
     (case ebind (identify_init (schema_flag (length tfail) True)) (\<lambda>(F, P).
             ebind (seed_CMinF tfail (iter (MFC_identified r)) F) (\<lambda>F'. Inr (F', P))) of
        Inl e \<Rightarrow> Some (Inl e)
      | Inr (CMinF, CMaxP) \<Rightarrow>
          Option.bind (identify (schema_flag (length tfail) True) CMinF CMaxP tfail r)
            (\<lambda>result. case result of
               Inl e \<Rightarrow> Some (Inl e)
             | Inr (CMinF', CMaxP', r') \<Rightarrow> Some (record_MFCs CMinF' tfail r')))"

fun conduct_loop :: "(comb set \<Rightarrow> comb list) \<Rightarrow> comb list \<Rightarrow> resolver \<Rightarrow> resolver res option" where
  "conduct_loop iter [] r = Some (Inr r)"
| "conduct_loop iter (tfail # rest) r =
     Option.bind (conduct_one iter tfail r) (\<lambda>result. case result of
       Inl e \<Rightarrow> Some (Inl e)
     | Inr r' \<Rightarrow> conduct_loop iter rest r')"

definition conduct :: "(comb set \<Rightarrow> comb list) \<Rightarrow> resolver \<Rightarrow> resolver res option" where
  "conduct iter r =
     (if conducted r then Some (Inr r)
      else (let r' = r\<lparr>conducted := True\<rparr>
            in if safeValues r = None then Some (Inl (RuntimeException ''Safe values are not set''))
               else conduct_loop iter (Tfail r') r'))"

end
