(* ===== verification/NP_Correct.thy ===== *)
theory NP_Correct
  imports NP_Identify
begin

text \<open>
  Correctness of the NoPend resolver, in three layers: the binary search on a chain, the loop of
  \<open>identify\<close> against any monotone fault oracle, and \<open>conduct\<close> against the checker.

  \<open>oracle_for\<close> states what the search needs of the tests it runs: each run reports whether the
  schema is faulty, faults are inherited by larger schemas, and the empty schema passes.
\<close>

definition oracle_for ::
  "nat \<Rightarrow> comb \<Rightarrow> (nat set \<Rightarrow> bool) \<Rightarrow> (resolver \<Rightarrow> bool) \<Rightarrow> bool" where
  "oracle_for n tfail faulty okr \<longleftrightarrow>
     (\<forall>s r. schema_wf n s \<longrightarrow> okr r \<longrightarrow>
        (\<exists>r'. check_schema s tfail r = Inr (\<not> faulty (bitset s), r') \<and> okr r')) \<and>
     (\<forall>A B. A \<subseteq> B \<longrightarrow> faulty A \<longrightarrow> faulty B) \<and> \<not> faulty {}"

lemma oracle_check:
  "oracle_for n tfail faulty okr \<Longrightarrow> schema_wf n s \<Longrightarrow> okr r \<Longrightarrow>
   \<exists>r'. check_schema s tfail r = Inr (\<not> faulty (bitset s), r') \<and> okr r'"
  by (simp add: oracle_for_def)

lemma oracle_mono: "oracle_for n tfail faulty okr \<Longrightarrow> A \<subseteq> B \<Longrightarrow> faulty A \<Longrightarrow> faulty B"
  unfolding oracle_for_def by blast

lemma oracle_empty: "oracle_for n tfail faulty okr \<Longrightarrow> \<not> faulty {}"
  by (simp add: oracle_for_def)

subsection \<open>Binary search\<close>

lemma search_loop_correct:
  assumes "oracle_for n tfail faulty okr" "\<forall>c\<in>set chain. schema_wf n c"
  shows "okr r \<Longrightarrow> 0 \<le> left \<Longrightarrow> left \<le> right + 1 \<Longrightarrow> right < int (length chain) \<Longrightarrow>
    result = -1 \<and> right = int (length chain) - 1 \<or>
      result = right + 1 \<and> result < int (length chain) \<and> faulty (bitset (chain ! nat result)) \<Longrightarrow>
    left = 0 \<or> \<not> faulty (bitset (chain ! nat (left - 1))) \<Longrightarrow>
    \<exists>k r'. search_loop chain tfail left right result r = Inr (k, r') \<and> okr r' \<and>
      (k = -1 \<and> (chain = [] \<or> \<not> faulty (bitset (last chain))) \<or>
       0 \<le> k \<and> k < int (length chain) \<and> faulty (bitset (chain ! nat k)) \<and>
         (k = 0 \<or> \<not> faulty (bitset (chain ! (nat k - 1)))))"
proof (induction "nat (right - left + 1)" arbitrary: left right result r rule: less_induct)
  case less
  show ?case
  proof (cases "left \<le> right")
    case False
    then have "left = right + 1" using less.prems by simp
    moreover have "nat (int (length chain) - 1) = length chain - Suc 0"
      "nat (left - 1) = nat left - Suc 0" using less.prems by auto
    ultimately show ?thesis
      using less.prems by (subst search_loop.simps) (auto simp: last_conv_nth)
  next
    case True
    define mid where "mid = left + (right - left) div 2"
    have mid: "left \<le> mid" "mid \<le> right" using True by (auto simp: mid_def)
    then have wf: "schema_wf n (chain ! nat mid)" using assms(2) less.prems by (simp add: nat_less_iff)
    obtain r' where r': "check_schema (chain ! nat mid) tfail r =
        Inr (\<not> faulty (bitset (chain ! nat mid)), r')" "okr r'"
      using oracle_check [OF assms(1) wf less.prems(1)] by blast
    have eq: "search_loop chain tfail left right result r =
        (if faulty (bitset (chain ! nat mid)) then search_loop chain tfail left (mid - 1) mid r'
         else search_loop chain tfail (mid + 1) right result r')"
      using True mid less.prems r' by (subst search_loop.simps) (auto simp: mid_def [symmetric])
    show ?thesis
    proof (cases "faulty (bitset (chain ! nat mid))")
      case True
      with eq less.hyps [of "mid - 1" left r' mid] mid less.prems r' show ?thesis by simp
    next
      case False
      with eq less.hyps [of right "mid + 1" r' result] mid less.prems r' show ?thesis by simp
    qed
  qed
qed

text \<open>The chain climbs from the smaller schema to the larger one.\<close>

definition between :: "nat \<Rightarrow> schema \<Rightarrow> schema \<Rightarrow> schema \<Rightarrow> bool" where
  "between n lo hi c \<longleftrightarrow> schema_wf n c \<and> bitset lo \<subseteq> bitset c \<and> bitset c \<subseteq> bitset hi"

lemma build_chain_fold:
  fixes lo hi :: schema
  assumes "schema_wf n hi" "set is \<subseteq> {..<n}"
  shows "between n lo hi now \<Longrightarrow> chain \<noteq> [] \<Longrightarrow> last chain = now \<Longrightarrow>
    \<forall>c\<in>set chain. between n lo hi c \<Longrightarrow>
    fold (\<lambda>i (now, chain). if \<not> schema_get lo i \<and> schema_get hi i
            then (schema_set i True now, chain @ [schema_copy (schema_set i True now)])
            else (now, chain)) is (now, chain) = (now', chain') \<Longrightarrow>
    chain' \<noteq> [] \<and> bitset (last chain') = bitset now \<union> (set is \<inter> (bitset hi - bitset lo)) \<and>
    (\<forall>c\<in>set chain'. between n lo hi c)"
  using assms(2)
proof (induction "is" arbitrary: now chain)
  case Nil
  then show ?case by auto
next
  case (Cons i "is")
  show ?case
  proof (cases "\<not> schema_get lo i \<and> schema_get hi i")
    case True
    have "between n lo hi (schema_set i True now)"
      using Cons.prems True by (auto simp: between_def schema_get_def)
    then have "chain' \<noteq> [] \<and> bitset (last chain') =
        bitset (schema_set i True now) \<union> (set is \<inter> (bitset hi - bitset lo)) \<and>
      (\<forall>c\<in>set chain'. between n lo hi c)"
      using Cons.IH [of "schema_set i True now" "chain @ [schema_set i True now]"] Cons.prems True
      by simp
    with True show ?thesis by (auto simp: schema_get_def)
  next
    case False
    with Cons.IH [of now chain] Cons.prems show ?thesis by (auto simp: schema_get_def)
  qed
qed

definition climbs :: "nat \<Rightarrow> schema \<Rightarrow> schema \<Rightarrow> schema list \<Rightarrow> bool" where
  "climbs n lo hi chain \<longleftrightarrow> chain \<noteq> [] \<and> last chain = hi \<and> (\<forall>c\<in>set chain. between n lo hi c)"

text \<open>Whatever the order in which the positions are added.\<close>

lemma chain_climbs:
  assumes "schema_wf n hi" "schema_wf n lo" "bitset lo \<subseteq> bitset hi" "set is = {..<n}"
  shows "climbs n lo hi (snd (fold (\<lambda>i (now, chain). if \<not> schema_get lo i \<and> schema_get hi i
            then (schema_set i True now, chain @ [schema_copy (schema_set i True now)])
            else (now, chain)) is (lo, [lo])))"
proof -
  obtain now' chain' where f: "fold (\<lambda>i (now, chain). if \<not> schema_get lo i \<and> schema_get hi i
            then (schema_set i True now, chain @ [schema_copy (schema_set i True now)])
            else (now, chain)) is (lo, [lo]) = (now', chain')" by fastforce
  have ch: "chain' \<noteq> [] \<and> bitset (last chain') =
      bitset lo \<union> (set is \<inter> (bitset hi - bitset lo)) \<and>
    (\<forall>c\<in>set chain'. between n lo hi c)"
    by (rule build_chain_fold [OF assms(1) _ _ _ _ _ f]) (use assms in \<open>auto simp: between_def\<close>)
  moreover have "bitset (last chain') = bitset hi"
    using ch assms(3,4) schema_wf_sub [OF assms(1)] by auto
  then have "last chain' = hi"
    using ch assms(1) schema_eq_iff [of n "last chain'" hi] last_in_set unfolding between_def by blast
  ultimately show ?thesis by (simp add: f climbs_def)
qed

lemma build_chain_correct:
  assumes "schema_wf n hi" "schema_wf n lo" "bitset lo \<subseteq> bitset hi"
  shows "climbs n lo hi (build_chain hi lo)"
  unfolding build_chain_def schema_wf_size [OF assms(1)] by (rule chain_climbs [OF assms]) auto

text \<open>The search along a chain, for any chain that climbs.\<close>

lemma chain_search_spec:
  assumes "oracle_for n tfail faulty okr" "okr r"
    "schema_wf n hi" "schema_wf n lo" "bitset lo \<subseteq> bitset hi" and chain: "climbs n lo hi ch"
    and eq: "search = (if logic_size hi \<noteq> logic_size lo then Inl (RuntimeException ''Schema sizes mismatch'')
      else ebind (isSupersetOf hi lo) (\<lambda>sup.
        if \<not> sup then Inl (IllegalArgumentException ''max is not a superset of min'')
        else ebind (check_schema hi tfail r) (\<lambda>(healthy, r').
          if healthy then Inr (None, r')
          else let chain = ch
               in ebind (search_loop chain tfail 0 (int (length chain) - 1) (-1) r')
                    (\<lambda>(result, r''). Inr (if result = -1 then None else Some (chain ! nat result), r'')))))"
  shows "\<exists>found r'. search = Inr (found, r') \<and> okr r' \<and>
    (found = None \<longleftrightarrow> \<not> faulty (bitset hi)) \<and>
    (\<forall>c. found = Some c \<longrightarrow> schema_wf n c \<and> faulty (bitset c) \<and>
       bitset lo \<subseteq> bitset c \<and> bitset c \<subseteq> bitset hi \<and>
       (\<exists>i<length ch. ch ! i = c \<and> (i = 0 \<or> \<not> faulty (bitset (ch ! (i - 1))))))"
proof -
  have sup: "isSupersetOf hi lo = Inr True" "logic_size hi = logic_size lo"
    using assms(3-5) by (auto simp: isSupersetOf_wf [of n] schema_wf_size)
  obtain r1 where r1: "check_schema hi tfail r = Inr (\<not> faulty (bitset hi), r1)" "okr r1"
    using oracle_check [OF assms(1,3,2)] by blast
  show ?thesis
  proof (cases "faulty (bitset hi)")
    case False
    with r1 sup show ?thesis by (simp add: eq)
  next
    case True
    have "\<forall>c\<in>set ch. schema_wf n c" using chain by (simp add: climbs_def between_def)
    then obtain k r2 where k: "search_loop ch tfail 0 (int (length ch) - 1) (-1) r1 = Inr (k, r2)"
      "okr r2" "0 \<le> k" "nat k < length ch" "faulty (bitset (ch ! nat k))"
      "k = 0 \<or> \<not> faulty (bitset (ch ! (nat k - 1)))"
      using search_loop_correct [OF assms(1), of ch r1 0 "int (length ch) - 1" "-1"] r1 True chain
      by (auto simp: nat_less_iff climbs_def)
    then have "between n lo hi (ch ! nat k)" using chain by (simp add: climbs_def)
    moreover have "search = Inr (Some (ch ! nat k), r2)"
      using r1 sup True k by (simp add: eq Let_def)
    ultimately show ?thesis using k True by (auto simp: between_def)
  qed
qed

lemma binarySearch_spec:
  assumes "oracle_for n tfail faulty okr" "okr r"
    "schema_wf n hi" "schema_wf n lo" "bitset lo \<subseteq> bitset hi"
  shows "\<exists>found r'. binarySearch hi lo tfail r = Inr (found, r') \<and> okr r' \<and>
    (found = None \<longleftrightarrow> \<not> faulty (bitset hi)) \<and>
    (\<forall>c. found = Some c \<longrightarrow> schema_wf n c \<and> faulty (bitset c) \<and>
       bitset lo \<subseteq> bitset c \<and> bitset c \<subseteq> bitset hi \<and>
       (\<exists>i<length (build_chain hi lo). build_chain hi lo ! i = c \<and>
          (i = 0 \<or> \<not> faulty (bitset (build_chain hi lo ! (i - 1))))))"
  by (rule chain_search_spec [OF assms build_chain_correct [OF assms(3-5)]]) (rule binarySearch_def)

text \<open>C3. \<open>binarySearch\<close> between two nested schemas never raises. It returns null exactly when the
  larger schema passes; otherwise it returns a failing schema between the two that is either the
  smaller one or the successor, on the chain it searched, of a passing one.\<close>

theorem binarySearch_correct:
  assumes "oracle_for n tfail faulty okr" "okr r"
    "schema_wf n hi" "schema_wf n lo" "bitset lo \<subseteq> bitset hi"
  shows "\<exists>found r'. binarySearch hi lo tfail r = Inr (found, r') \<and> okr r' \<and>
    (found = None \<longleftrightarrow> \<not> faulty (bitset hi)) \<and>
    (\<forall>c. found = Some c \<longrightarrow> schema_wf n c \<and> faulty (bitset c) \<and>
       bitset lo \<subseteq> bitset c \<and> bitset c \<subseteq> bitset hi \<and>
       (\<exists>i<length (build_chain hi lo). build_chain hi lo ! i = c \<and>
          (i = 0 \<or> \<not> faulty (bitset (build_chain hi lo ! (i - 1))))))"
  using assms by (rule binarySearch_spec)

subsection \<open>The longest chain\<close>

definition best_chain :: "(schema \<times> schema) set \<Rightarrow> (schema \<times> schema) option \<times> int \<Rightarrow> bool" where
  "best_chain pairs st \<longleftrightarrow> (case st of
     (None, l) \<Rightarrow> l = -1 \<and> (\<forall>(t, b)\<in>pairs. \<not> bitset b \<subseteq> bitset t)
   | (Some (t, b), l) \<Rightarrow> (t, b) \<in> pairs \<and> bitset b \<subseteq> bitset t \<and>
       l = int (card (bitset t)) - int (card (bitset b)) + 1 \<and>
       (\<forall>(t', b')\<in>pairs. bitset b' \<subseteq> bitset t' \<longrightarrow>
          int (card (bitset t')) - int (card (bitset b')) + 1 \<le> l))"

lemma chain_step_best:
  assumes "best_chain pairs st" "schema_wf n t" "schema_wf n b"
  shows "\<exists>st'. chain_step (t, b) st = Inr st' \<and> best_chain (insert (t, b) pairs) st'"
proof -
  have card: "bitset b \<subseteq> bitset t \<Longrightarrow> card (bitset b) \<le> card (bitset t)"
    using assms by (simp add: card_mono schema_wf_finite)
  obtain best l where st: "st = (best, l)" by fastforce
  show ?thesis
    using assms(1) isSupersetOf_wf [OF assms(2,3)] card unfolding st
    by (cases best) (auto simp: chain_step_def best_chain_def schema_size_def Let_def)
qed

lemma chain_fold_best:
  assumes "\<forall>(t, b)\<in>set ps. schema_wf n t \<and> schema_wf n b"
  shows "\<exists>st. efold chain_step ps (None, -1) = Inr st \<and> best_chain (set ps) st"
  using assms
proof (induction ps rule: rev_induct)
  case Nil
  then show ?case by (simp add: best_chain_def)
next
  case (snoc p ps)
  obtain t b where p: "p = (t, b)" by fastforce
  from snoc obtain st where "efold chain_step ps (None, -1) = Inr st" "best_chain (set ps) st"
    by auto
  with snoc.prems chain_step_best [of "set ps" st n t b] show ?case
    by (auto simp: p efold_append)
qed

lemma getLongestChain_spec:
  assumes "mss_wf n bt T" "mss_wf n bb B" "mss_elems T \<noteq> {}" "mss_elems B \<noteq> {}"
  shows "\<exists>best. getLongestChain T B = Inr best \<and>
    (best = None \<longrightarrow> (\<forall>t\<in>mss_elems T. \<forall>b\<in>mss_elems B. \<not> b \<subseteq> t)) \<and>
    (\<forall>t b. best = Some (t, b) \<longrightarrow> schema_wf n t \<and> schema_wf n b \<and>
       bitset t \<in> mss_elems T \<and> bitset b \<in> mss_elems B \<and> bitset b \<subseteq> bitset t \<and>
       (\<forall>t'\<in>mss_elems T. \<forall>b'\<in>mss_elems B. b' \<subseteq> t' \<longrightarrow>
          int (card t') - int (card b') \<le> int (card (bitset t)) - int (card (bitset b))))"
proof -
  have wf: "\<forall>(t, b)\<in>set (List.product (schemas T) (schemas B)). schema_wf n t \<and> schema_wf n b"
    using assms by (auto simp: mss_wf_def)
  obtain best l where b: "efold chain_step (List.product (schemas T) (schemas B)) (None, -1) =
      Inr (best, l)" "best_chain (set (schemas T) \<times> set (schemas B)) (best, l)"
    using chain_fold_best [OF wf] by auto
  have "schemas T \<noteq> []" "schemas B \<noteq> []" using assms by (auto simp: mss_elems_def)
  with b have "getLongestChain T B = Inr best" by (simp add: getLongestChain_def)
  with b(2) assms show ?thesis
    by (cases best) (auto simp: best_chain_def mss_elems_def mss_wf_def)
qed

subsection \<open>The pending border\<close>

definition pending :: "schema \<Rightarrow> mss \<Rightarrow> mss \<Rightarrow> nat set set" where
  "pending U F P = {A. A \<subseteq> bitset U \<and> \<not> covered (\<subseteq>) (mss_elems F) A \<and>
     \<not> covered (\<lambda>x y. y \<subseteq> x) (mss_elems P) A}"

definition identify_inv :: "nat \<Rightarrow> (nat set \<Rightarrow> bool) \<Rightarrow> schema \<Rightarrow> mss \<Rightarrow> mss \<Rightarrow> bool" where
  "identify_inv n faulty U F P \<longleftrightarrow> schema_wf n U \<and> mss_wf n True F \<and> mss_wf n False P \<and>
     mss_elems F \<noteq> {} \<and> mss_elems P \<noteq> {} \<and>
     (\<forall>f\<in>mss_elems F. f \<subseteq> bitset U \<and> faulty f) \<and>
     (\<forall>p\<in>mss_elems P. p \<subseteq> bitset U \<and> \<not> faulty p)"

lemma mss_complement_in_loop:
  assumes "schema_wf n U" "\<forall>s\<in>set ss. schema_wf n s \<and> bitset s \<subseteq> bitset U"
  shows "efold (\<lambda>s result. ebind (complement_in s U) (\<lambda>c. mss_insert c result)) ss m =
    efold mss_insert (map (\<lambda>s. \<lparr>bitset = bitset U - bitset s, logic_size = n\<rparr>) ss) m"
  using assms(2)
proof (induction ss arbitrary: m)
  case (Cons s ss)
  with complement_in_wf [of n s U] assms(1) show ?case
    by (cases "mss_insert \<lparr>bitset = bitset U - bitset s, logic_size = n\<rparr> m") auto
qed simp

lemma mss_complement_in_spec:
  assumes "schema_wf n U" "mss_wf n b m" "\<forall>x\<in>mss_elems m. x \<subseteq> bitset U"
  shows "\<exists>m'. mss_complement_in m U = Inr m' \<and> mss_wf n (\<not> b) m' \<and>
    mss_elems m' = (\<lambda>x. bitset U - x) ` mss_elems m"
proof -
  let ?cs = "map (\<lambda>s. \<lparr>bitset = bitset U - bitset s, logic_size = n\<rparr>) (schemas m)"
  have wf: "\<forall>s\<in>set (schemas m). schema_wf n s \<and> bitset s \<subseteq> bitset U"
    using assms(2,3) by (auto simp: mss_wf_def mss_elems_def)
  have img: "bitset ` set ?cs = (\<lambda>x. bitset U - x) ` mss_elems m"
    by (auto simp: mss_elems_def image_image)
  have "\<forall>c\<in>set ?cs. schema_wf n c"
    using schema_wf_sub [OF assms(1)] by (auto simp: schema_wf_def)
  then obtain m' where m': "efold mss_insert ?cs (mss_new (\<not> b)) = Inr m'" "mss_wf n (\<not> b) m'"
    "mss_elems m' = {x \<in> bitset ` set ?cs. \<forall>y\<in>bitset ` set ?cs. order_of (\<not> b) y x \<longrightarrow> y = x}"
    using insert_list_extremal by blast
  have "order_of (\<not> b) (bitset U - x) (bitset U - y) \<Longrightarrow> x = y"
    if "x \<in> mss_elems m" "y \<in> mss_elems m" for x y
  proof -
    assume "order_of (\<not> b) (bitset U - x) (bitset U - y)"
    with that assms(3) have "x \<subseteq> y \<or> y \<subseteq> x" by (cases b) fastforce+
    with that assms(2) show "x = y" by (auto simp: mss_wf_def antichain_wrt_def)
  qed
  then have "mss_elems m' = (\<lambda>x. bitset U - x) ` mss_elems m"
    unfolding m'(3) img by blast
  moreover have "mss_complement_in m U = Inr m'"
    using m'(1) mss_complement_in_loop [OF assms(1) wf] assms(2)
    by (simp add: mss_complement_in_def mss_wf_def)
  ultimately show ?thesis using m' by blast
qed

text \<open>The bottom schemas cover what no known-healthy schema contains.\<close>

lemma bottom_schemas:
  assumes "identify_inv n faulty U F P" "oracle_for n tfail faulty okr"
  shows "\<exists>B. ebind (mss_complement_in P U) getMHS = Inr B \<and> mss_wf n True B \<and>
    (\<forall>y. covered (\<subseteq>) (mss_elems B) y \<longleftrightarrow> (\<forall>p\<in>mss_elems P. (bitset U - p) \<inter> y \<noteq> {}))"
proof -
  have inv: "\<forall>f\<in>mss_elems F. f \<subseteq> bitset U \<and> faulty f" "mss_elems F \<noteq> {}"
    "\<forall>p\<in>mss_elems P. \<not> faulty p"
    using assms(1) by (auto simp: identify_inv_def)
  then have "faulty (bitset U)" using oracle_mono [OF assms(2)] by fastforce
  then have "\<not> bitset U \<subseteq> p" if "p \<in> mss_elems P" for p
    using that inv(3) oracle_mono [OF assms(2)] by blast
  then have no_U: "\<forall>p\<in>mss_elems P. bitset U - p \<noteq> {}" by blast
  obtain S where S: "mss_complement_in P U = Inr S" "mss_wf n True S"
    "mss_elems S = (\<lambda>x. bitset U - x) ` mss_elems P"
    using mss_complement_in_spec [of n U False P] assms(1) by (auto simp: identify_inv_def)
  moreover have "mss_elems S \<noteq> {}" "{} \<notin> mss_elems S"
    using S(3) no_U assms(1) by (auto simp: identify_inv_def)
  ultimately obtain B where "getMHS S = Inr B" "mss_wf n True B"
    "\<forall>y. covered (\<subseteq>) (mss_elems B) y \<longleftrightarrow> hits y (mss_elems S)"
    using getMHS_covers [of n True S] by auto
  with S show ?thesis by (auto simp: hits_def)
qed

text \<open>The top schemas cover, downwards, what contains no known-faulty schema.\<close>

lemma top_schemas:
  assumes "identify_inv n faulty U F P" "oracle_for n tfail faulty okr"
  shows "\<exists>T. ebind (getMHS F) (\<lambda>m. mss_complement_in m U) = Inr T \<and> mss_wf n False T \<and>
    mss_elems T \<noteq> {} \<and> (\<forall>t\<in>mss_elems T. t \<subseteq> bitset U) \<and>
    (\<forall>y. y \<subseteq> bitset U \<longrightarrow>
       (covered (\<lambda>x y. y \<subseteq> x) (mss_elems T) y \<longleftrightarrow> (\<forall>f\<in>mss_elems F. \<not> f \<subseteq> y)))"
proof -
  have F: "mss_wf n True F" "mss_elems F \<noteq> {}" "\<forall>f\<in>mss_elems F. f \<subseteq> bitset U" "schema_wf n U"
    using assms(1) by (auto simp: identify_inv_def)
  have nF: "{} \<notin> mss_elems F"
    using assms oracle_empty [OF assms(2)] by (auto simp: identify_inv_def)
  obtain m where m: "getMHS F = Inr m" "mss_wf n True m"
    "\<And>y. covered (\<subseteq>) (mss_elems m) y \<longleftrightarrow> hits y (mss_elems F)"
    using getMHS_covers [OF F(1,2) nF] by blast
  have hit_U: "hits (bitset U) (mss_elems F)"
    using F(3) nF unfolding hits_def by (metis inf.absorb1)
  have sub: "h \<subseteq> bitset U" if "h \<in> mss_elems m" for h
  proof -
    have "hits h (mss_elems F)" using that m(3) [of h] by (auto simp: covered_def)
    then have "hits (h \<inter> bitset U) (mss_elems F)" using F(3) unfolding hits_def by blast
    then have "h \<inter> bitset U = h"
      using that minF.elems_extremal [OF m(2), of h] m(3) by blast
    then show ?thesis by blast
  qed
  obtain T where T: "mss_complement_in m U = Inr T" "mss_wf n False T"
    "mss_elems T = (\<lambda>x. bitset U - x) ` mss_elems m"
    using mss_complement_in_spec [OF F(4) m(2)] sub by auto
  have "covered (\<lambda>x y. y \<subseteq> x) (mss_elems T) y \<longleftrightarrow> covered (\<subseteq>) (mss_elems m) (bitset U - y)"
    if y: "y \<subseteq> bitset U" for y
  proof -
    have "y \<subseteq> bitset U - h \<longleftrightarrow> h \<subseteq> bitset U - y" if "h \<in> mss_elems m" for h
      using y sub [OF that] by blast
    then show ?thesis by (simp add: covered_def T(3))
  qed
  moreover have "hits (bitset U - y) (mss_elems F) \<longleftrightarrow> (\<forall>f\<in>mss_elems F. \<not> f \<subseteq> y)" for y
    using F(3) unfolding hits_def by blast
  moreover have "mss_elems m \<noteq> {}" using m(3) [of "bitset U"] hit_U by (auto simp: covered_def)
  ultimately show ?thesis using T m by auto
qed

subsection \<open>One turn of the loop\<close>

definition step_outcome :: "nat \<Rightarrow> (nat set \<Rightarrow> bool) \<Rightarrow> (resolver \<Rightarrow> bool) \<Rightarrow> schema \<Rightarrow> mss \<Rightarrow> mss \<Rightarrow>
    (schema \<times> schema option \<times> resolver) option \<Rightarrow> bool" where
  "step_outcome n faulty okr U F P out \<longleftrightarrow> (case out of
     None \<Rightarrow> pending U F P = {}
   | Some (m, None, r') \<Rightarrow> okr r' \<and> schema_wf n m \<and> bitset m \<in> pending U F P \<and> \<not> faulty (bitset m)
   | Some (m, Some c, r') \<Rightarrow> okr r' \<and> schema_wf n c \<and> bitset c \<in> pending U F P \<and>
       faulty (bitset c) \<and> bitset c \<subset> bitset U)"

lemma pending_between:
  assumes "b \<in> mss_elems B" "t \<in> mss_elems T" "t \<subseteq> bitset U" "b \<subseteq> c" "c \<subseteq> t"
    and B: "\<forall>y. covered (\<subseteq>) (mss_elems B) y \<longleftrightarrow> (\<forall>p\<in>mss_elems P. (bitset U - p) \<inter> y \<noteq> {})"
    and T: "\<forall>y. y \<subseteq> bitset U \<longrightarrow>
       (covered (\<lambda>x y. y \<subseteq> x) (mss_elems T) y \<longleftrightarrow> (\<forall>f\<in>mss_elems F. \<not> f \<subseteq> y))"
  shows "c \<in> pending U F P"
proof -
  have c: "c \<subseteq> bitset U" using assms by blast
  have "covered (\<subseteq>) (mss_elems B) c" using assms(1,4) by (auto simp: covered_def)
  with B have "\<forall>p\<in>mss_elems P. \<not> c \<subseteq> p" by blast
  moreover have "covered (\<lambda>x y. y \<subseteq> x) (mss_elems T) c" using assms(2,5) by (auto simp: covered_def)
  with T c have "\<forall>f\<in>mss_elems F. \<not> f \<subseteq> c" by blast
  ultimately show ?thesis using c by (simp add: pending_def covered_def)
qed

lemma pending_empty:
  assumes "\<forall>t\<in>mss_elems T. \<forall>b\<in>mss_elems B. \<not> b \<subseteq> t"
    and P: "\<forall>p\<in>mss_elems P. p \<subseteq> bitset U"
    and B: "\<forall>y. covered (\<subseteq>) (mss_elems B) y \<longleftrightarrow> (\<forall>p\<in>mss_elems P. (bitset U - p) \<inter> y \<noteq> {})"
    and T: "\<forall>y. y \<subseteq> bitset U \<longrightarrow>
       (covered (\<lambda>x y. y \<subseteq> x) (mss_elems T) y \<longleftrightarrow> (\<forall>f\<in>mss_elems F. \<not> f \<subseteq> y))"
  shows "pending U F P = {}"
proof (rule ccontr)
  assume "pending U F P \<noteq> {}"
  then obtain A where A: "A \<subseteq> bitset U" "\<forall>f\<in>mss_elems F. \<not> f \<subseteq> A" "\<forall>p\<in>mss_elems P. \<not> A \<subseteq> p"
    by (auto simp: pending_def covered_def)
  then have "covered (\<lambda>x y. y \<subseteq> x) (mss_elems T) A" using T by blast
  then obtain t where t: "t \<in> mss_elems T" "A \<subseteq> t" by (auto simp: covered_def)
  have "\<forall>p\<in>mss_elems P. (bitset U - p) \<inter> A \<noteq> {}" using A(1,3) by blast
  then have "covered (\<subseteq>) (mss_elems B) A" using B by blast
  then obtain b where "b \<in> mss_elems B" "b \<subseteq> A" by (auto simp: covered_def)
  with t assms(1) show False by blast
qed

lemma identify_step_spec:
  assumes inv: "identify_inv n faulty U F P" and orc: "oracle_for n tfail faulty okr" and r: "okr r"
  shows "\<exists>out. identify_step U F P tfail r = Inr out \<and> step_outcome n faulty okr U F P out"
proof -
  obtain B where B: "ebind (mss_complement_in P U) getMHS = Inr B" "mss_wf n True B"
    "\<forall>y. covered (\<subseteq>) (mss_elems B) y \<longleftrightarrow> (\<forall>p\<in>mss_elems P. (bitset U - p) \<inter> y \<noteq> {})"
    using bottom_schemas [OF inv orc] by blast
  obtain T where T: "ebind (getMHS F) (\<lambda>m. mss_complement_in m U) = Inr T" "mss_wf n False T"
    "mss_elems T \<noteq> {}" "\<forall>t\<in>mss_elems T. t \<subseteq> bitset U"
    "\<forall>y. y \<subseteq> bitset U \<longrightarrow>
       (covered (\<lambda>x y. y \<subseteq> x) (mss_elems T) y \<longleftrightarrow> (\<forall>f\<in>mss_elems F. \<not> f \<subseteq> y))"
    using top_schemas [OF inv orc] by blast
  have P: "\<forall>p\<in>mss_elems P. p \<subseteq> bitset U \<and> \<not> faulty p" and F: "mss_elems F \<noteq> {}"
    "\<forall>f\<in>mss_elems F. f \<subseteq> bitset U \<and> faulty f"
    using inv by (auto simp: identify_inv_def)
  have fU: "faulty (bitset U)" using F oracle_mono [OF orc] by fastforce
  have "\<forall>p\<in>mss_elems P. (bitset U - p) \<inter> bitset U \<noteq> {}"
    using P fU oracle_mono [OF orc] by blast
  then have "covered (\<subseteq>) (mss_elems B) (bitset U)" using B(3) by blast
  then have "mss_elems B \<noteq> {}" by (auto simp: covered_def)
  then obtain best where best: "getLongestChain T B = Inr best"
    "best = None \<longrightarrow> (\<forall>t\<in>mss_elems T. \<forall>b\<in>mss_elems B. \<not> b \<subseteq> t)"
    "\<forall>t b. best = Some (t, b) \<longrightarrow> schema_wf n t \<and> schema_wf n b \<and>
       bitset t \<in> mss_elems T \<and> bitset b \<in> mss_elems B \<and> bitset b \<subseteq> bitset t"
    using getLongestChain_spec [OF T(2) B(2) T(3)] by auto
  show ?thesis
  proof (cases best)
    case None
    have "pending U F P = {}"
      using None best P by (intro pending_empty [OF _ _ B(3) T(5)]) auto
    with None B(1) T(1) best show ?thesis
      by (simp add: identify_step_def step_outcome_def ebind_assoc)
  next
    case (Some p)
    then obtain t b where p: "best = Some (t, b)" by (cases p) auto
    with best have tb: "schema_wf n t" "schema_wf n b" "bitset t \<in> mss_elems T"
      "bitset b \<in> mss_elems B" "bitset b \<subseteq> bitset t" by auto
    note mid = pending_between [OF tb(4,3) _ _ _ B(3) T(5)]
    obtain found r' where fr: "binarySearch t b tfail r = Inr (found, r')" "okr r'"
      "found = None \<longleftrightarrow> \<not> faulty (bitset t)"
      "\<forall>c. found = Some c \<longrightarrow> schema_wf n c \<and> faulty (bitset c) \<and>
         bitset b \<subseteq> bitset c \<and> bitset c \<subseteq> bitset t"
      using binarySearch_spec [OF orc r tb(1,2,5)] by blast
    have tU: "bitset t \<subseteq> bitset U" using T(4) tb by blast
    have "bitset t \<in> pending U F P" using mid tb tU by blast
    then have tU': "bitset t \<noteq> bitset U" using F by (auto simp: pending_def covered_def)
    have eq: "identify_step U F P tfail r = Inr (Some (t, found, r'))"
      using B(1) T(1) best p fr by (simp add: identify_step_def ebind_assoc)
    have "step_outcome n faulty okr U F P (Some (t, found, r'))"
      using fr tb mid tU tU' by (cases found) (auto simp: step_outcome_def psubset_eq)
    with eq show ?thesis by blast
  qed
qed

subsection \<open>The whole search\<close>

lemma identify_init_spec:
  assumes "schema_wf n U" "faulty (bitset U)" "\<not> faulty {}"
  shows "\<exists>F P. identify_init U = Inr (F, P) \<and> identify_inv n faulty U F P \<and>
    mss_elems F = {bitset U} \<and> mss_elems P = {{}}"
proof -
  obtain F where F: "mss_insert U (mss_new True) = Inr F" "mss_wf n True F"
    using minF.ins_total [of n "mss_new True" U] assms by auto
  obtain P where P: "mss_insert (schema_new n) (mss_new False) = Inr P" "mss_wf n False P"
    using maxP.ins_total [of n "mss_new False" "schema_new n"] by auto
  have "mss_elems F = {bitset U}" "mss_elems P = {{}}"
    using minF.ins_elems [OF _ assms(1) F(1)] maxP.ins_elems [of n "mss_new False" "schema_new n" P] P
    by (auto simp: covered_def)
  with F P assms show ?thesis
    by (auto simp: identify_init_def identify_inv_def schema_wf_size [OF assms(1)])
qed

lemma identify_merge_spec:
  assumes "identify_inv n faulty U F P" "identify_inv n faulty c F' P'" "bitset c \<subseteq> bitset U"
  shows "\<exists>F2 P2. identify_merge F P F' P' = Inr (F2, P2) \<and> identify_inv n faulty U F2 P2 \<and>
    pending U F2 P2 \<subseteq> pending U F P \<and>
    (\<forall>A. covered (\<subseteq>) (mss_elems F') A \<longrightarrow> covered (\<subseteq>) (mss_elems F2) A)"
proof -
  have wf: "mss_wf n True F" "mss_wf n False P" "\<forall>s\<in>set (schemas F'). schema_wf n s"
    "\<forall>s\<in>set (schemas P'). schema_wf n s"
    using assms by (auto simp: identify_inv_def mss_wf_def)
  obtain F2 where F2: "efold mss_insert (schemas F') F = Inr F2" "mss_wf n True F2"
    "mss_elems F2 \<subseteq> mss_elems F \<union> mss_elems F'"
    "\<forall>y. covered (\<subseteq>) (mss_elems F2) y \<longleftrightarrow>
       covered (\<subseteq>) (mss_elems F) y \<or> covered (\<subseteq>) (mss_elems F') y"
    using minF.insert_all [OF wf(1,3)] by (auto simp: covered_def mss_elems_def)
  obtain P2 where P2: "efold mss_insert (schemas P') P = Inr P2" "mss_wf n False P2"
    "mss_elems P2 \<subseteq> mss_elems P \<union> mss_elems P'"
    "\<forall>y. covered (\<lambda>x y. y \<subseteq> x) (mss_elems P2) y \<longleftrightarrow>
       covered (\<lambda>x y. y \<subseteq> x) (mss_elems P) y \<or> covered (\<lambda>x y. y \<subseteq> x) (mss_elems P') y"
    using maxP.insert_all [OF wf(2,4)] by (auto simp: covered_def mss_elems_def)
  have ne: "mss_elems F2 \<noteq> {}" "mss_elems P2 \<noteq> {}"
  proof -
    obtain f p where "f \<in> mss_elems F" "p \<in> mss_elems P" using assms(1) by (auto simp: identify_inv_def)
    then have "covered (\<subseteq>) (mss_elems F2) f" "covered (\<lambda>x y. y \<subseteq> x) (mss_elems P2) p"
      using F2(4) P2(4) by (auto simp: covered_def)
    then show "mss_elems F2 \<noteq> {}" "mss_elems P2 \<noteq> {}" by (auto simp: covered_def)
  qed
  have inv: "\<forall>f\<in>mss_elems F. f \<subseteq> bitset U \<and> faulty f" "\<forall>p\<in>mss_elems P. p \<subseteq> bitset U \<and> \<not> faulty p"
    "\<forall>f\<in>mss_elems F'. f \<subseteq> bitset c \<and> faulty f" "\<forall>p\<in>mss_elems P'. p \<subseteq> bitset c \<and> \<not> faulty p"
    using assms(1,2) by (simp_all add: identify_inv_def)
  have "\<forall>f\<in>mss_elems F2. f \<subseteq> bitset U \<and> faulty f"
    using F2(3) inv(1,3) assms(3) by (metis Un_iff subset_iff)
  moreover have "\<forall>p\<in>mss_elems P2. p \<subseteq> bitset U \<and> \<not> faulty p"
    using P2(3) inv(2,4) assms(3) by (metis Un_iff subset_iff)
  ultimately have "identify_inv n faulty U F2 P2"
    using F2(2) P2(2) ne assms(1) by (simp add: identify_inv_def)
  moreover have "pending U F2 P2 \<subseteq> pending U F P" using F2(4) P2(4) by (auto simp: pending_def)
  ultimately show ?thesis using F2(1,4) P2(1) by (simp add: identify_merge_def)
qed

lemma pending_smaller:
  assumes "schema_wf n U" "pending U F' P' \<subseteq> pending U F P" "A \<in> pending U F P" "A \<notin> pending U F' P'"
  shows "card (pending U F' P') < card (pending U F P)"
proof (rule psubset_card_mono)
  have "pending U F P \<subseteq> Pow (bitset U)" by (auto simp: pending_def)
  then show "finite (pending U F P)"
    using schema_wf_finite [OF assms(1)] finite_subset by blast
qed (use assms in blast)

lemma healthy_add_spec:
  assumes "identify_inv n faulty U F P" "schema_wf n m" "bitset m \<in> pending U F P" "\<not> faulty (bitset m)"
  shows "\<exists>P'. mss_insert m P = Inr P' \<and> identify_inv n faulty U F P' \<and>
    card (pending U F P') < card (pending U F P)"
proof -
  have wf: "mss_wf n False P" "schema_wf n U" using assms(1) by (auto simp: identify_inv_def)
  obtain P' where P': "mss_insert m P = Inr P'" "mss_wf n False P'"
    using maxP.ins_total [OF wf(1) assms(2)] by blast
  have cov: "covered (\<lambda>x y. y \<subseteq> x) (mss_elems P') y \<longleftrightarrow>
      y \<subseteq> bitset m \<or> covered (\<lambda>x y. y \<subseteq> x) (mss_elems P) y" for y
    using maxP.covered_insert [OF wf(1) assms(2) P'(1)] .
  have "bitset m \<subseteq> bitset U" using assms(3) by (auto simp: pending_def)
  moreover have "mss_elems P' \<noteq> {}" using cov [of "bitset m"] by (auto simp: covered_def)
  moreover have "\<forall>p\<in>mss_elems P'. p \<subseteq> bitset U \<and> \<not> faulty p"
    using maxP.elems_insert_sub [OF wf(1) assms(2) P'(1)] assms(1,4) \<open>bitset m \<subseteq> bitset U\<close>
    unfolding identify_inv_def by blast
  ultimately have "identify_inv n faulty U F P'" using assms(1) P' by (simp add: identify_inv_def)
  moreover have "pending U F P' \<subseteq> pending U F P" "bitset m \<notin> pending U F P'"
    using cov by (auto simp: pending_def)
  ultimately show ?thesis using P' pending_smaller [OF wf(2) _ assms(3)] by blast
qed

lemma identify_done_singleton:
  assumes "identify_inv n faulty U F P" "oracle_for n tfail faulty okr" "schema_size U = 1"
  shows "pending U F P = {}"
proof -
  obtain x where x: "bitset U = {x}" using assms(3) by (auto simp: schema_size_def card_1_singleton_iff)
  obtain f p where f: "f \<in> mss_elems F" "f \<subseteq> {x}" "faulty f" and p: "p \<in> mss_elems P"
    using assms(1) x by (auto simp: identify_inv_def)
  have "f = {x}" using f oracle_empty [OF assms(2)] by (cases "f = {}") auto
  with f(1) p x show ?thesis by (auto simp: pending_def covered_def subset_singleton_iff)
qed

lemma identify_loop_fault:
  assumes "identify_step U F P tfail r = Inr (Some (m, Some c, r'))" "identify_init c = Inr (F0, P0)"
    "(if schema_size c = 1 then Some (Inr (F0, P0, r')) else identify_loop c F0 P0 tfail r') =
       Some (Inr (F1, P1, r1))" "identify_merge F P F1 P1 = Inr (F2, P2)"
  shows "identify_loop U F P tfail r = identify_loop U F2 P2 tfail r1"
  using assms by (subst identify_loop.simps) (simp cong: if_cong split del: if_split)

lemma identify_loop_spec:
  assumes orc: "oracle_for n tfail faulty okr"
  shows "identify_inv n faulty U F P \<Longrightarrow> okr r \<Longrightarrow>
    \<exists>F' P' r'. identify_loop U F P tfail r = Some (Inr (F', P', r')) \<and> okr r' \<and>
      identify_inv n faulty U F' P' \<and> pending U F' P' = {}"
proof (induction "card (bitset U)" arbitrary: U F P r rule: less_induct)
  case outer: less
  show ?case
    using outer.prems
  proof (induction "card (pending U F P)" arbitrary: F P r rule: less_induct)
    case inner: less
    note inv = inner.prems(1)
    have U: "schema_wf n U" using inv by (simp add: identify_inv_def)
    obtain out where out: "identify_step U F P tfail r = Inr out" "step_outcome n faulty okr U F P out"
      using identify_step_spec [OF inv orc inner.prems(2)] by blast
    consider (finished) "out = None"
      | (healthy) m r' where "out = Some (m, None, r')"
      | (fault) m c r' where "out = Some (m, Some c, r')"
      by (cases out) (auto, metis option.exhaust)
    then show ?case
    proof cases
      case finished
      with out inner.prems show ?thesis by (subst identify_loop.simps) (simp add: step_outcome_def)
    next
      case healthy
      with out have h: "okr r'" "schema_wf n m" "bitset m \<in> pending U F P" "\<not> faulty (bitset m)"
        by (auto simp: step_outcome_def)
      obtain P' where "mss_insert m P = Inr P'" "identify_inv n faulty U F P'"
        "card (pending U F P') < card (pending U F P)"
        using healthy_add_spec [OF inv h(2-4)] by blast
      with inner.hyps [of F P' r'] h(1) healthy out(1) show ?thesis
        by (subst identify_loop.simps) simp
    next
      case fault
      with out have c: "okr r'" "schema_wf n c" "bitset c \<in> pending U F P" "faulty (bitset c)"
        "bitset c \<subset> bitset U" by (auto simp: step_outcome_def)
      obtain F0 P0 where i0: "identify_init c = Inr (F0, P0)" "identify_inv n faulty c F0 P0"
        "mss_elems F0 = {bitset c}" "mss_elems P0 = {{}}"
        using identify_init_spec [OF c(2,4) oracle_empty [OF orc]] by blast
      have "card (bitset c) < card (bitset U)"
        using c(5) schema_wf_finite [OF U] by (simp add: psubset_card_mono)
      then obtain F1 P1 r1 where rec: "(if schema_size c = 1 then Some (Inr (F0, P0, r'))
           else identify_loop c F0 P0 tfail r') = Some (Inr (F1, P1, r1))" "okr r1"
        "identify_inv n faulty c F1 P1" "pending c F1 P1 = {}"
        using outer.hyps [of c F0 P0 r'] i0 c(1) identify_done_singleton [OF i0(2) orc]
        by (cases "schema_size c = 1") auto
      obtain F2 P2 where mg: "identify_merge F P F1 P1 = Inr (F2, P2)"
        "identify_inv n faulty U F2 P2" "pending U F2 P2 \<subseteq> pending U F P"
        "\<forall>A. covered (\<subseteq>) (mss_elems F1) A \<longrightarrow> covered (\<subseteq>) (mss_elems F2) A"
        using identify_merge_spec [OF inv rec(3)] c(5) by blast
      have "\<not> covered (\<lambda>x y. y \<subseteq> x) (mss_elems P1) (bitset c)"
        using rec(3) c(4) oracle_mono [OF orc] unfolding identify_inv_def covered_def by blast
      then have "covered (\<subseteq>) (mss_elems F1) (bitset c)" using rec(4) by (auto simp: pending_def)
      then have "bitset c \<notin> pending U F2 P2" using mg(4) by (auto simp: pending_def)
      then have "card (pending U F2 P2) < card (pending U F P)"
        using pending_smaller [OF U mg(3) c(3)] by blast
      with inner.hyps [of F2 P2 r1] mg(2) rec(2) show ?thesis
        using identify_loop_fault [OF _ i0(1) rec(1) mg(1)] fault out(1) by simp
    qed
  qed
qed

text \<open>With nothing pending, the two families are the minimal faulty and maximal healthy schemas.\<close>

lemma identify_spec:
  assumes "oracle_for n tfail faulty okr" "identify_inv n faulty U F P" "okr r"
  shows "\<exists>F' P' r'. identify U F P tfail r = Some (Inr (F', P', r')) \<and> okr r' \<and>
    identify_inv n faulty U F' P' \<and> pending U F' P' = {}"
  using identify_loop_spec [OF assms] identify_done_singleton [OF assms(2,1)] assms
  by (auto simp: identify_def)

lemma identify_result:
  assumes "identify_inv n faulty U F P" "oracle_for n tfail faulty okr" "pending U F P = {}"
  shows "mss_elems F = {A. A \<subseteq> bitset U \<and> faulty A \<and> (\<forall>B\<subset>A. \<not> faulty B)}"
    and "mss_elems P = {A. A \<subseteq> bitset U \<and> \<not> faulty A \<and> (\<forall>B. A \<subset> B \<and> B \<subseteq> bitset U \<longrightarrow> faulty B)}"
proof -
  note mono = oracle_mono [OF assms(2)]
  have wf: "mss_wf n True F" "mss_wf n False P"
    and F: "\<forall>f\<in>mss_elems F. f \<subseteq> bitset U \<and> faulty f"
    and P: "\<forall>p\<in>mss_elems P. p \<subseteq> bitset U \<and> \<not> faulty p"
    using assms(1) by (simp_all add: identify_inv_def)
  have up: "covered (\<subseteq>) (mss_elems F) A \<Longrightarrow> faulty A"
    and down: "covered (\<lambda>x y. y \<subseteq> x) (mss_elems P) A \<Longrightarrow> \<not> faulty A" for A
    using F P mono by (auto simp: covered_def)
  have split: "A \<subseteq> bitset U \<Longrightarrow>
      covered (\<subseteq>) (mss_elems F) A \<or> covered (\<lambda>x y. y \<subseteq> x) (mss_elems P) A" for A
    using assms(3) by (auto simp: pending_def)
  show "mss_elems F = {A. A \<subseteq> bitset U \<and> faulty A \<and> (\<forall>B\<subset>A. \<not> faulty B)}"
  proof (intro set_eqI iffI CollectI conjI allI impI)
    fix A assume A: "A \<in> mss_elems F"
    then show "A \<subseteq> bitset U" "faulty A" using F by blast+
    fix B assume B: "B \<subset> A"
    show "\<not> faulty B"
    proof
      assume "faulty B"
      then have "covered (\<subseteq>) (mss_elems F) B" using split [of B] down B A F by blast
      then show False using minF.elems_extremal [OF wf(1), of A] A B by blast
    qed
  next
    fix A assume "A \<in> {A. A \<subseteq> bitset U \<and> faulty A \<and> (\<forall>B\<subset>A. \<not> faulty B)}"
    then show "A \<in> mss_elems F"
      using minF.elems_extremal [OF wf(1), of A] up split [of A] down by blast
  qed
  show "mss_elems P = {A. A \<subseteq> bitset U \<and> \<not> faulty A \<and> (\<forall>B. A \<subset> B \<and> B \<subseteq> bitset U \<longrightarrow> faulty B)}"
  proof (intro set_eqI iffI CollectI conjI allI impI)
    fix A assume A: "A \<in> mss_elems P"
    then show "A \<subseteq> bitset U" "\<not> faulty A" using P by blast+
    fix B assume B: "A \<subset> B \<and> B \<subseteq> bitset U"
    show "faulty B"
    proof (rule ccontr)
      assume "\<not> faulty B"
      then have "covered (\<lambda>x y. y \<subseteq> x) (mss_elems P) B" using split [of B] up B by blast
      then show False using maxP.elems_extremal [OF wf(2), of A] A B by blast
    qed
  next
    fix A assume A: "A \<in> {A. A \<subseteq> bitset U \<and> \<not> faulty A \<and>
      (\<forall>B. A \<subset> B \<and> B \<subseteq> bitset U \<longrightarrow> faulty B)}"
    then have cov: "covered (\<lambda>x y. y \<subseteq> x) (mss_elems P) A" using split [of A] up by blast
    then obtain p where p: "p \<in> mss_elems P" "A \<subseteq> p" by (auto simp: covered_def)
    then have "p = A" using A P by blast
    with p show "A \<in> mss_elems P" by simp
  qed
qed

text \<open>C2. Against any monotone fault oracle, \<open>identify\<close> terminates without an exception, from any
  families of known-faulty and known-healthy schemas; it leaves in \<open>CMinF\<close> exactly the minimal
  faulty schemas of the universe and in \<open>CMaxP\<close> exactly the maximal healthy ones, so that no
  schema is left pending.\<close>

theorem identify_finds_all_minimal_faults:
  assumes "oracle_for n tfail faulty okr" "identify_inv n faulty U F P" "okr r"
  shows "\<exists>F' P' r'. identify U F P tfail r = Some (Inr (F', P', r')) \<and> okr r' \<and>
    mss_elems F' = {A. A \<subseteq> bitset U \<and> faulty A \<and> (\<forall>B\<subset>A. \<not> faulty B)} \<and>
    mss_elems P' = {A. A \<subseteq> bitset U \<and> \<not> faulty A \<and>
      (\<forall>B. A \<subset> B \<and> B \<subseteq> bitset U \<longrightarrow> faulty B)} \<and>
    pending U F' P' = {}"
proof -
  obtain F' P' r' where i: "identify U F P tfail r = Some (Inr (F', P', r'))" "okr r'"
    "identify_inv n faulty U F' P'" "pending U F' P' = {}"
    using identify_spec [OF assms] by blast
  then show ?thesis using identify_result [OF i(3) assms(1) i(4)] by simp
qed

end
