(* ===== verification/NP_Conduct.thy ===== *)
theory NP_Conduct
  imports NP_Correct "HOL-Library.List_Lexorder"
begin

text \<open>
  The NoPend resolver against the checker: which system under test, safe values and failing test
  cases make the checker a monotone oracle, and what \<open>conduct\<close> then reports.
\<close>

text \<open>The positions a combination fixes.\<close>

definition supp :: "comb \<Rightarrow> nat set" where
  "supp c = {i. i < length c \<and> c ! i \<noteq> UNKNOWN}"

text \<open>
  A two-valued system of \<open>n\<close> parameters: the faulty combinations fix at least one parameter and
  none contains another; the safe values are values or unknown.
\<close>

definition sut_ok :: "nat \<Rightarrow> comb list \<Rightarrow> comb \<Rightarrow> bool" where
  "sut_ok n mfs safe \<longleftrightarrow> length safe = n \<and> (\<forall>v\<in>set safe. v \<in> {UNKNOWN, 0, 1}) \<and>
     (\<forall>mf\<in>set mfs. length mf = n \<and> supp mf \<noteq> {}) \<and>
     (\<forall>a\<in>set mfs. \<forall>b\<in>set mfs. contains_loop a b \<longrightarrow> a = b)"

text \<open>
  A failing test case for which the padding is safe: the value that replaces a parameter is never
  one that a faulty combination asks for.
\<close>

definition tfail_ok :: "nat \<Rightarrow> comb list \<Rightarrow> comb \<Rightarrow> comb \<Rightarrow> bool" where
  "tfail_ok n mfs safe tfail \<longleftrightarrow> length tfail = n \<and> (\<forall>v\<in>set tfail. v \<in> {0, 1}) \<and>
     (\<exists>mf\<in>set mfs. contains_loop tfail mf) \<and>
     (\<forall>mf\<in>set mfs. \<forall>i\<in>supp mf. mf ! i \<noteq> pad safe tfail i)"

definition faulty_by :: "comb list \<Rightarrow> comb \<Rightarrow> comb \<Rightarrow> nat set \<Rightarrow> bool" where
  "faulty_by mfs safe tfail A \<longleftrightarrow>
     (\<exists>mf\<in>set mfs. contains_loop (padded (proj A tfail) safe tfail) mf)"

subsection \<open>The checker as an oracle\<close>

lemma contains_supp:
  "length A = length B \<Longrightarrow> contains_loop A B \<longleftrightarrow> (\<forall>i\<in>supp B. A ! i = B ! i)"
  by (auto simp: contains_loop_iff supp_def)

lemma tfail_known: "tfail_ok n mfs safe tfail \<Longrightarrow> i < n \<Longrightarrow> tfail ! i = 0 \<or> tfail ! i = 1"
  unfolding tfail_ok_def by (metis insertE nth_mem singletonD)

lemma tfail_not_unknown: "tfail_ok n mfs safe tfail \<Longrightarrow> i < n \<Longrightarrow> tfail ! i \<noteq> UNKNOWN"
  using tfail_known [of n mfs safe tfail i] by (auto simp: UNKNOWN_def)

lemma faulty_by_iff:
  assumes "sut_ok n mfs safe" "tfail_ok n mfs safe tfail"
  shows "faulty_by mfs safe tfail A \<longleftrightarrow> (\<exists>mf\<in>set mfs. contains_loop tfail mf \<and> supp mf \<subseteq> A)"
proof -
  have "contains_loop (padded (proj A tfail) safe tfail) mf \<longleftrightarrow>
      contains_loop tfail mf \<and> supp mf \<subseteq> A" if mf: "mf \<in> set mfs" for mf
  proof -
    have len: "length mf = n" "length tfail = n" and safe: "\<forall>i\<in>supp mf. mf ! i \<noteq> pad safe tfail i"
      using assms mf by (auto simp: sut_ok_def tfail_ok_def)
    have "padded (proj A tfail) safe tfail ! i = (if i \<in> A then tfail ! i else pad safe tfail i)"
      if "i \<in> supp mf" for i
      using that len tfail_not_unknown [OF assms(2), of i] by (auto simp: supp_def)
    then have "padded (proj A tfail) safe tfail ! i = mf ! i \<longleftrightarrow> tfail ! i = mf ! i \<and> i \<in> A"
      if "i \<in> supp mf" for i
      using that safe by (metis (full_types))
    then show ?thesis using len by (auto simp: contains_supp)
  qed
  then show ?thesis unfolding faulty_by_def by blast
qed

lemma padded_valid:
  assumes "sut_ok n mfs safe" "tfail_ok n mfs safe tfail"
  shows "testcase_of_list (padded (proj A tfail) safe tfail) = Inr (padded (proj A tfail) safe tfail)"
proof -
  have len: "length tfail = n" "length safe = n" using assms by (auto simp: sut_ok_def tfail_ok_def)
  have "padded (proj A tfail) safe tfail ! i \<ge> 0" if i: "i < n" for i
  proof -
    have "safe ! i \<in> {UNKNOWN, 0, 1}" using assms(1) i by (auto simp: sut_ok_def)
    then show ?thesis
      using tfail_known [OF assms(2) i] i len by (auto simp: pad_def UNKNOWN_def)
  qed
  then have "\<forall>x\<in>set (padded (proj A tfail) safe tfail). x \<ge> 0"
    using len by (auto simp: in_set_conv_nth)
  then show ?thesis
    by (force simp: testcase_of_list_def comb_of_list_def list_ex_iff)
qed

definition runs_on :: "comb list \<Rightarrow> comb \<Rightarrow> comb set \<Rightarrow> resolver \<Rightarrow> bool" where
  "runs_on mfs safe M r \<longleftrightarrow>
     MFS (the_checker r) = mfs \<and> safeValues r = Some safe \<and> MFC_identified r = M \<and> conducted r"

lemma check_oracle:
  assumes "sut_ok n mfs safe" "tfail_ok n mfs safe tfail"
  shows "oracle_for n tfail (faulty_by mfs safe tfail) (runs_on mfs safe M)"
  unfolding oracle_for_def
proof (intro conjI allI impI)
  fix s r assume s: "schema_wf n s" and r: "runs_on mfs safe M r"
  let ?t = "padded (proj (bitset s) tfail) safe tfail"
  have len: "length tfail = n" "length safe = n" "\<forall>mf\<in>set mfs. length mf = n"
    using assms by (auto simp: sut_ok_def tfail_ok_def)
  have c: "getComb s tfail = Inr (proj (bitset s) tfail)" using getComb_wf [OF s] len by simp
  have p: "pad_comb r (proj (bitset s) tfail) tfail = Inr ?t"
    using r len paddingWithSafeValues_eq [of safe "proj (bitset s) tfail" tfail] padded_valid [OF assms]
    by (simp add: pad_comb_def runs_on_def)
  have "check_loop ?t mfs = Inr (\<not> faulty_by mfs safe tfail (bitset s))"
    using check_loop_eq [of mfs ?t] len by (auto simp: faulty_by_def)
  then show "\<exists>r'. check_schema s tfail r = Inr (\<not> faulty_by mfs safe tfail (bitset s), r') \<and>
      runs_on mfs safe M r'"
    using c p r by (auto simp: check_schema_def check_with_safevalues_def check_def runs_on_def Let_def)
next
  fix A B assume "A \<subseteq> B" "faulty_by mfs safe tfail A"
  then show "faulty_by mfs safe tfail B" unfolding faulty_by_iff [OF assms] by blast
next
  show "\<not> faulty_by mfs safe tfail {}"
    using faulty_by_iff [OF assms, of "{}"] assms(1) by (auto simp: sut_ok_def)
qed

text \<open>The minimal faulty schemas of a failing test case are the faulty combinations it contains.\<close>

lemma proj_supp:
  assumes "length mf = length tfail" "contains_loop tfail mf"
  shows "proj (supp mf) tfail = mf"
  using assms by (intro nth_equalityI) (auto simp: contains_supp supp_def)

lemma supp_inj:
  assumes "length a = length t" "length b = length t" "contains_loop t a" "contains_loop t b"
    "supp a \<subseteq> supp b"
  shows "contains_loop b a"
proof -
  have "b ! i = a ! i" if "i \<in> supp a" for i
    using that assms contains_supp [of t a] contains_supp [of t b] by (metis subsetD)
  then show ?thesis using assms contains_supp [of b a] by simp
qed

lemma minimal_faults:
  assumes "sut_ok n mfs safe" "tfail_ok n mfs safe tfail"
  shows "(\<lambda>A. proj A tfail) ` {A. A \<subseteq> {..<n} \<and> faulty_by mfs safe tfail A \<and>
      (\<forall>B\<subset>A. \<not> faulty_by mfs safe tfail B)} = {mf \<in> set mfs. contains_loop tfail mf}"
proof -
  have len: "length tfail = n" "\<forall>mf\<in>set mfs. length mf = n"
    and ac: "\<forall>a\<in>set mfs. \<forall>b\<in>set mfs. contains_loop a b \<longrightarrow> a = b"
    using assms by (auto simp: sut_ok_def tfail_ok_def)
  note iff = faulty_by_iff [OF assms]
  have "{A. A \<subseteq> {..<n} \<and> faulty_by mfs safe tfail A \<and> (\<forall>B\<subset>A. \<not> faulty_by mfs safe tfail B)} =
      supp ` {mf \<in> set mfs. contains_loop tfail mf}"
  proof (intro set_eqI iffI)
    fix A
    assume "A \<in> {A. A \<subseteq> {..<n} \<and> faulty_by mfs safe tfail A \<and> (\<forall>B\<subset>A. \<not> faulty_by mfs safe tfail B)}"
    then obtain mf where mf: "mf \<in> set mfs" "contains_loop tfail mf" "supp mf \<subseteq> A"
      and least: "\<forall>B\<subset>A. \<not> faulty_by mfs safe tfail B"
      unfolding iff by blast
    have "faulty_by mfs safe tfail (supp mf)" unfolding iff using mf by blast
    then have "supp mf = A" using mf least by blast
    then show "A \<in> supp ` {mf \<in> set mfs. contains_loop tfail mf}" using mf by blast
  next
    fix A assume "A \<in> supp ` {mf \<in> set mfs. contains_loop tfail mf}"
    then obtain mf where mf: "mf \<in> set mfs" "contains_loop tfail mf" "A = supp mf" by blast
    have "\<not> faulty_by mfs safe tfail B" if B: "B \<subset> A" for B
    proof
      assume "faulty_by mfs safe tfail B"
      then obtain m where m: "m \<in> set mfs" "contains_loop tfail m" "supp m \<subseteq> B"
        unfolding iff by blast
      then have "contains_loop mf m" using supp_inj [of m tfail mf] mf B len by auto
      then have "mf = m" using ac m mf by blast
      with m B mf show False by blast
    qed
    moreover have "A \<subseteq> {..<n}" using mf len by (auto simp: supp_def)
    moreover have "faulty_by mfs safe tfail A" unfolding iff using mf by blast
    ultimately show "A \<in> {A. A \<subseteq> {..<n} \<and> faulty_by mfs safe tfail A \<and>
        (\<forall>B\<subset>A. \<not> faulty_by mfs safe tfail B)}"
      by blast
  qed
  then show ?thesis using len proj_supp by (force simp: image_image)
qed

subsection \<open>One failing test case\<close>

lemma faulty_insert_spec:
  assumes "identify_inv n faulty U F P" "schema_wf n m" "bitset m \<subseteq> bitset U" "faulty (bitset m)"
  shows "\<exists>F'. mss_insert m F = Inr F' \<and> identify_inv n faulty U F' P"
proof -
  have wf: "mss_wf n True F" using assms(1) by (simp add: identify_inv_def)
  obtain F' where F': "mss_insert m F = Inr F'" "mss_wf n True F'"
    using minF.ins_total [OF wf assms(2)] by blast
  have "covered (\<subseteq>) (mss_elems F') (bitset m)"
    using minF.covered_insert [OF wf assms(2) F'(1)] by blast
  then have "mss_elems F' \<noteq> {}" by (auto simp: covered_def)
  moreover have "\<forall>f\<in>mss_elems F'. f \<subseteq> bitset U \<and> faulty f"
    using minF.elems_insert_sub [OF wf assms(2) F'(1)] assms unfolding identify_inv_def by blast
  ultimately show ?thesis using F' assms(1) by (simp add: identify_inv_def)
qed

lemma seed_CMinF_spec:
  assumes "sut_ok n mfs safe" "tfail_ok n mfs safe tfail"
  shows "identify_inv n (faulty_by mfs safe tfail) (schema_flag n True) F P \<Longrightarrow> set cs \<subseteq> set mfs \<Longrightarrow>
    \<exists>F'. seed_CMinF tfail cs F = Inr F' \<and>
      identify_inv n (faulty_by mfs safe tfail) (schema_flag n True) F' P"
proof (induction cs)
  case Nil
  then show ?case by simp
next
  case (Cons c cs)
  have len: "length c = n" "length tfail = n" using assms Cons.prems by (auto simp: sut_ok_def tfail_ok_def)
  show ?case
  proof (cases "contains_loop tfail c")
    case True
    have "faulty_by mfs safe tfail (supp c)"
      unfolding faulty_by_iff [OF assms] using Cons.prems True by auto
    moreover have "bitset (schema_of_comb c) = supp c" by (auto simp: schema_of_comb_eq supp_def)
    moreover have "supp c \<subseteq> bitset (schema_flag n True)" using len by (auto simp: supp_def)
    ultimately have "\<exists>F'. mss_insert (schema_of_comb c) F = Inr F' \<and>
        identify_inv n (faulty_by mfs safe tfail) (schema_flag n True) F' P"
      using faulty_insert_spec [OF Cons.prems(1), of "schema_of_comb c"] len schema_of_comb_wf [of c]
      by simp
    then show ?thesis using True len by (simp add: contains_def)
  next
    case False
    then show ?thesis using Cons len by (simp add: contains_def)
  qed
qed

lemma record_loop:
  assumes "length tfail = n" "\<forall>s\<in>set ss. schema_wf n s"
  shows "efold (\<lambda>s r. ebind (getComb s tfail)
              (\<lambda>c. Inr (r\<lparr>MFC_identified := insert c (MFC_identified r)\<rparr>))) ss r =
    Inr (r\<lparr>MFC_identified := MFC_identified r \<union> (\<lambda>s. proj (bitset s) tfail) ` set ss\<rparr>)"
  using assms(2)
proof (induction ss arbitrary: r)
  case (Cons s ss)
  then show ?case using getComb_wf [of n s tfail] assms(1) by simp
qed simp

lemma record_MFCs_spec:
  assumes "length tfail = n" "mss_wf n True F"
  shows "record_MFCs F tfail r =
    Inr (r\<lparr>MFC_identified := MFC_identified r \<union> (\<lambda>A. proj A tfail) ` mss_elems F\<rparr>)"
  using record_loop [of tfail n "schemas F"] assms
  by (simp add: record_MFCs_def mss_wf_def mss_elems_def image_image)

lemma conduct_one_spec:
  assumes "sut_ok n mfs safe" "tfail_ok n mfs safe tfail" "runs_on mfs safe M r"
    "set (iter M) \<subseteq> set mfs"
  shows "\<exists>r'. conduct_one iter tfail r = Some (Inr r') \<and>
    runs_on mfs safe (M \<union> {mf \<in> set mfs. contains_loop tfail mf}) r'"
proof -
  let ?U = "schema_flag n True" and ?f = "faulty_by mfs safe tfail"
  note orc = check_oracle [OF assms(1,2)]
  have len: "length tfail = n" using assms(2) by (simp add: tfail_ok_def)
  have "?f {..<n}"
    unfolding faulty_by_iff [OF assms(1,2)] using assms by (auto simp: tfail_ok_def sut_ok_def supp_def)
  then obtain F P where i: "identify_init ?U = Inr (F, P)" "identify_inv n ?f ?U F P"
    using identify_init_spec [of n ?U ?f] oracle_empty [OF orc] by auto
  obtain F1 where s: "seed_CMinF tfail (iter M) F = Inr F1" "identify_inv n ?f ?U F1 P"
    using seed_CMinF_spec [OF assms(1,2) i(2) assms(4)] by blast
  obtain F2 P2 r2 where d: "identify ?U F1 P tfail r = Some (Inr (F2, P2, r2))" "runs_on mfs safe M r2"
    "identify_inv n ?f ?U F2 P2" "pending ?U F2 P2 = {}"
    using identify_spec [OF orc s(2) assms(3)] by blast
  have "mss_wf n True F2" using d(3) by (simp add: identify_inv_def)
  then have "record_MFCs F2 tfail r2 =
      Inr (r2\<lparr>MFC_identified := M \<union> (\<lambda>A. proj A tfail) ` mss_elems F2\<rparr>)"
    using record_MFCs_spec [OF len] d(2) by (simp add: runs_on_def)
  moreover have "(\<lambda>A. proj A tfail) ` mss_elems F2 = {mf \<in> set mfs. contains_loop tfail mf}"
    using identify_result(1) [OF d(3) orc d(4)] minimal_faults [OF assms(1,2)] by simp
  moreover have "MFC_identified r = M" using assms(3) by (simp add: runs_on_def)
  ultimately show ?thesis
    using i(1) s(1) d(1,2) len by (auto simp: conduct_one_def runs_on_def)
qed

subsection \<open>The whole run\<close>

lemma conduct_loop_spec:
  assumes "sut_ok n mfs safe" "\<forall>M. M \<subseteq> set mfs \<longrightarrow> set (iter M) = M"
  shows "\<forall>t\<in>set ts. tfail_ok n mfs safe t \<Longrightarrow> runs_on mfs safe M r \<Longrightarrow> M \<subseteq> set mfs \<Longrightarrow>
    \<exists>r'. conduct_loop iter ts r = Some (Inr r') \<and>
      runs_on mfs safe (M \<union> {mf \<in> set mfs. \<exists>t\<in>set ts. contains_loop t mf}) r'"
proof (induction ts arbitrary: M r)
  case Nil
  then show ?case by simp
next
  case (Cons t ts)
  let ?M = "M \<union> {mf \<in> set mfs. contains_loop t mf}"
  obtain r1 where r1: "conduct_one iter t r = Some (Inr r1)" "runs_on mfs safe ?M r1"
    using conduct_one_spec [OF assms(1) _ Cons.prems(2), of t iter] Cons.prems(1,3) assms(2)
    by (metis list.set_intros(1))
  then obtain r2 where "conduct_loop iter ts r1 = Some (Inr r2)"
    "runs_on mfs safe (?M \<union> {mf \<in> set mfs. \<exists>t\<in>set ts. contains_loop t mf}) r2"
    using Cons.IH [OF _ r1(2)] Cons.prems(1,3) by fastforce
  moreover have "?M \<union> {mf \<in> set mfs. \<exists>t\<in>set ts. contains_loop t mf} =
      M \<union> {mf \<in> set mfs. \<exists>t'\<in>set (t # ts). contains_loop t' mf}" by auto
  ultimately show ?case using r1 by simp
qed

text \<open>C1. \<open>conduct\<close> is sound and complete. For a two-valued system whose faulty combinations form
  an antichain, a fresh resolver with safe padding values and failing test cases for which they
  are safe, \<open>conduct\<close> terminates without an exception, whatever the iteration order of the hash
  set of results, and reports exactly the faulty combinations of the system that occur in some
  failing test case.\<close>

theorem conduct_identifies_all:
  assumes "sut_ok n (MFS ck) safe" "\<forall>M. M \<subseteq> set (MFS ck) \<longrightarrow> set (iter M) = M"
    "\<forall>t\<in>set tfails. tfail_ok n (MFS ck) safe t" "resolver_new ck tpass tfails = Inr r"
  shows "\<exists>r'. conduct iter (r\<lparr>safeValues := Some safe\<rparr>) = Some (Inr r') \<and> conducted r' \<and>
    MFC_identified r' = {mf \<in> set (MFS ck). \<exists>t\<in>set tfails. contains_loop t mf}"
proof -
  let ?r = "r\<lparr>safeValues := Some safe, conducted := True\<rparr>"
  have r: "Tfail r = tfails" "\<not> conducted r" "runs_on (MFS ck) safe {} ?r"
    using assms(4) by (auto simp: resolver_new_def runs_on_def split: if_splits)
  then obtain r' where "conduct_loop iter tfails ?r = Some (Inr r')"
    "runs_on (MFS ck) safe ({} \<union> {mf \<in> set (MFS ck). \<exists>t\<in>set tfails. contains_loop t mf}) r'"
    using conduct_loop_spec [OF assms(1,2,3) r(3)] by blast
  then show ?thesis using r by (simp add: conduct_def runs_on_def)
qed

subsection \<open>A concrete system\<close>

text \<open>Three parameters, two faulty combinations, one safe value left to the flipped test case.\<close>

definition demo_mfs :: "comb list" where
  "demo_mfs = [[1, -1, 0], [-1, 1, -1]]"

definition demo_safe :: comb where
  "demo_safe = [0, 0, -1]"

definition demo_resolver :: "comb list \<Rightarrow> bool \<Rightarrow> resolver" where
  "demo_resolver tfails b =
     \<lparr>Tpass = [], Tfail = tfails, the_checker = checker_new demo_mfs, healthyCombs = [],
      faultyCombs = [], safeValues = Some demo_safe, MFC_identified = {}, conducted = b\<rparr>"

lemmas demo_defs = demo_mfs_def demo_safe_def demo_resolver_def checker_new_def

lemma demo_supp: "supp [1, -1, 0] = {0, 2}" "supp [-1, 1, -1] = {1}"
  by (auto simp: supp_def UNKNOWN_def less_Suc_eq numeral_3_eq_3)

lemma demo_sut: "sut_ok 3 demo_mfs demo_safe"
  by (simp add: sut_ok_def demo_defs demo_supp UNKNOWN_def)

lemma demo_tfail: "tfail_ok 3 demo_mfs demo_safe [1, 1, 0]" "tfail_ok 3 demo_mfs demo_safe [1, 0, 0]"
  by (simp_all add: tfail_ok_def demo_defs demo_supp UNKNOWN_def pad_def)

lemma demo_runs: "runs_on demo_mfs demo_safe {} (demo_resolver tfails True)"
  by (simp add: runs_on_def demo_defs)

lemma demo_faulty: "faulty_by demo_mfs demo_safe [1, 1, 0] A \<longleftrightarrow> {0, 2} \<subseteq> A \<or> 1 \<in> A"
  unfolding faulty_by_iff [OF demo_sut demo_tfail(1)] by (simp add: demo_defs demo_supp UNKNOWN_def)

theorem binarySearch_correct_witness:
  "\<exists>found r'. binarySearch (schema_flag 3 True) (schema_new 3) [1, 1, 0]
     (demo_resolver [[1, 1, 0]] True) = Inr (Some found, r') \<and> ({0, 2} \<subseteq> bitset found \<or> 1 \<in> bitset found)"
  using binarySearch_correct [OF check_oracle [OF demo_sut demo_tfail(1)] demo_runs,
      of "schema_flag 3 True" "schema_new 3" "[[1, 1, 0]]"]
  by (auto simp: demo_faulty)

theorem identify_finds_all_minimal_faults_witness:
  "\<exists>F' P' r'. identify (schema_flag 3 True) \<lparr>schemas = [schema_flag 3 True], isMinimal = True\<rparr>
     \<lparr>schemas = [schema_new 3], isMinimal = False\<rparr> [1, 1, 0] (demo_resolver [[1, 1, 0]] True) =
       Some (Inr (F', P', r')) \<and> {1} \<in> mss_elems F' \<and> {0} \<in> mss_elems P'"
proof -
  let ?U = "schema_flag 3 True" and ?f = "faulty_by demo_mfs demo_safe [1, 1, 0]"
  let ?F = "\<lparr>schemas = [?U], isMinimal = True\<rparr>" and ?P = "\<lparr>schemas = [schema_new 3], isMinimal = False\<rparr>"
  have inv: "identify_inv 3 ?f ?U ?F ?P"
    by (simp add: identify_inv_def mss_wf_def mss_elems_def antichain_wrt_def demo_faulty)
  obtain F' P' r' where i: "identify ?U ?F ?P [1, 1, 0] (demo_resolver [[1, 1, 0]] True) =
      Some (Inr (F', P', r'))"
    "mss_elems F' = {A. A \<subseteq> bitset ?U \<and> ?f A \<and> (\<forall>B\<subset>A. \<not> ?f B)}"
    "mss_elems P' = {A. A \<subseteq> bitset ?U \<and> \<not> ?f A \<and> (\<forall>B. A \<subset> B \<and> B \<subseteq> bitset ?U \<longrightarrow> ?f B)}"
    using identify_finds_all_minimal_faults [OF check_oracle [OF demo_sut demo_tfail(1)] inv
        demo_runs [of "[[1, 1, 0]]"]]
    by (elim exE conjE) (rule that)
  have "{1} \<in> mss_elems F'" unfolding i(2) by (auto simp: demo_faulty psubset_eq subset_singleton_iff)
  moreover have "{0, 2} \<subseteq> B \<or> 1 \<in> B" if "{0} \<subset> B" "B \<subseteq> {..<3}" for B :: "nat set"
  proof -
    have "{..<3} = {0, 1, 2 :: nat}" by auto
    then have "B \<subseteq> {0, 1, 2}" using that(2) by simp
    with that(1) show ?thesis by blast
  qed
  then have "{0} \<in> mss_elems P'" unfolding i(3) by (auto simp: demo_faulty)
  ultimately show ?thesis using i(1) by blast
qed

theorem conduct_identifies_all_witness:
  "\<exists>r'. conduct sorted_list_of_set (demo_resolver [[1, 1, 0], [1, 0, 0]] False) = Some (Inr r') \<and>
     conducted r' \<and> MFC_identified r' = {[1, -1, 0], [-1, 1, -1]}"
proof -
  let ?ck = "checker_new demo_mfs"
  have sut: "sut_ok 3 (MFS ?ck) demo_safe" using demo_sut by (simp add: checker_new_def)
  have tf: "\<forall>t\<in>set [[1, 1, 0], [1, 0, 0]]. tfail_ok 3 (MFS ?ck) demo_safe t"
    using demo_tfail by (simp add: checker_new_def)
  have it: "\<forall>M. M \<subseteq> set (MFS ?ck) \<longrightarrow> set (sorted_list_of_set M) = M"
    using finite_subset [of _ "set (MFS ?ck)"] by auto
  have "{mf \<in> set (MFS ?ck). \<exists>t\<in>set [[1, 1, 0], [1, 0, 0]]. contains_loop t mf} =
      {[1, -1, 0], [-1, 1, -1]}"
    by (auto simp: demo_defs UNKNOWN_def)
  with conduct_identifies_all [OF sut it tf, of "[]"] show ?thesis
    by (simp add: resolver_new_def demo_resolver_def)
qed

end
