(* ===== verification/NP_Finovlp.thy ===== *)
theory NP_Finovlp
  imports NP_Conduct
begin

text \<open>
  The fault resolvers FIC and FIC\_BS on top of FINOVLP, and SOFOT
  (src/main/java/nju/gist/FaultResolver/FINOVLP/FINOVLPFaultResolver.java, FICFaultResovler.java,
  FICBSFaultResolver.java and SOFOT/SOFOTFaultResolver.java).

  FINOVLP repeats: locate one faulty combination, replace the values it uses, until the test case
  passes. How one is located is the method that the subclasses override; it is the parameter \<open>locate\<close> of
  the loop. The loop ends only if every round finds something, so it is a \<open>partial_function (option)\<close>.

  The checker keeps a reference to the test case that FINOVLP goes on changing; \<open>executedTestcase\<close> has
  the content at the time of the call.
\<close>

subsection \<open>FICFaultResovler\<close>

fun fic_loop :: "nat list \<Rightarrow> comb \<Rightarrow> schema \<Rightarrow> comb \<Rightarrow> schema \<Rightarrow> resolver \<Rightarrow> (schema \<times> resolver) res" where
  "fic_loop [] tfail fixedParameter comb mfs r = Inr (mfs, r)"
| "fic_loop (i # is) tfail fixedParameter comb mfs r =
     (if schema_get fixedParameter i then fic_loop is tfail fixedParameter comb mfs r
      else ebind (comb_set i UNKNOWN comb) (\<lambda>comb.
        ebind (check_with_safevalues comb tfail r) (\<lambda>(healthy, r).
          if healthy
          then ebind (comb_get tfail i) (\<lambda>v. ebind (comb_set i v comb) (\<lambda>comb.
                 fic_loop is tfail fixedParameter comb (schema_set i True mfs) r))
          else fic_loop is tfail fixedParameter comb mfs r)))"

definition fic_locateOneMFC :: "comb \<Rightarrow> schema \<Rightarrow> resolver \<Rightarrow> (comb \<times> resolver) res" where
  "fic_locateOneMFC tfail fixedParameter r =
     ebind (fic_loop [0..<length tfail] tfail fixedParameter tfail (schema_new (length tfail)) r)
       (\<lambda>(mfs, r). ebind (getComb mfs tfail) (\<lambda>c. Inr (c, r)))"

subsection \<open>FICBSFaultResolver\<close>

function ficbs_search ::
  "comb \<Rightarrow> nat list \<Rightarrow> int \<Rightarrow> int \<Rightarrow> int \<Rightarrow> resolver \<Rightarrow> (int \<times> resolver) res" where
  "ficbs_search tfail freeParameters left right ans r =
     (if left \<le> right then
        (let mid = left + (right - left) div 2
         in ebind (efold (\<lambda>i comb. if i < length freeParameters then comb_set (freeParameters ! i) UNKNOWN comb
                                  else Inl IndexOutOfBoundsException) [0..<nat (mid + 1)] tfail) (\<lambda>comb.
              ebind (check_with_safevalues comb tfail r) (\<lambda>(healthy, r).
                if healthy then ficbs_search tfail freeParameters left (mid - 1) mid r
                else ficbs_search tfail freeParameters (mid + 1) right ans r)))
      else Inr (ans, r))"
  by pat_completeness auto
termination
  by (relation "measure (\<lambda>(tfail, free, left, right, ans, r). nat (right - left + 1))") auto

declare ficbs_search.simps [simp del]

definition locateOneFixedParameter :: "comb \<Rightarrow> nat list \<Rightarrow> resolver \<Rightarrow> (int \<times> resolver) res" where
  "locateOneFixedParameter tfail freeParameters r =
     (if freeParameters = [] then Inr (-1, r)
      else ficbs_search tfail freeParameters 0 (int (length freeParameters) - 1) (-1) r)"

text \<open>\<open>locateOneMFC\<close> of the base class; \<open>freeParameters.get\<close> and \<open>remove\<close> raise on an index out of range.\<close>

function locate_loop :: "comb \<Rightarrow> nat list \<Rightarrow> nat list \<Rightarrow> resolver \<Rightarrow> (nat list \<times> resolver) res" where
  "locate_loop t freeParameters locatedFaultyBits r =
     ebind (locateOneFixedParameter t freeParameters r) (\<lambda>(k, r).
       if k = -1 then Inr (locatedFaultyBits, r)
       else if k < 0 \<or> int (length freeParameters) \<le> k then Inl IndexOutOfBoundsException
       else locate_loop t (take (nat k) freeParameters @ drop (nat k + 1) freeParameters)
              (locatedFaultyBits @ [freeParameters ! nat k]) r)"
  by pat_completeness auto
termination
  by (relation "measure (\<lambda>(t, free, located, r). length free)") auto

declare locate_loop.simps [simp del]

definition ficbs_locateOneMFC :: "comb \<Rightarrow> schema \<Rightarrow> resolver \<Rightarrow> (comb \<times> resolver) res" where
  "ficbs_locateOneMFC tfail fixedParameter r =
     ebind (testcase_of_comb tfail) (\<lambda>t.
     ebind (locate_loop t (getIndices (schema_complement fixedParameter)) [] r) (\<lambda>(bits, r).
       ebind (getComb (schema_of_indices (length tfail) bits) tfail) (\<lambda>c. Inr (c, r))))"

subsection \<open>FINOVLPFaultResolver\<close>

definition padding_index :: "comb \<Rightarrow> nat \<Rightarrow> comb \<Rightarrow> comb res" where
  "padding_index safe index t =
     ebind (comb_get safe index) (\<lambda>s. if s = UNKNOWN then testcase_flip index t else testcase_set index s t)"

definition fix_parameters :: "comb \<Rightarrow> comb \<Rightarrow> comb \<Rightarrow> schema \<Rightarrow> (comb \<times> schema) res" where
  "fix_parameters safe mfs tfail fixedParameters =
     efold (\<lambda>i (t, fixed). if mfs ! i \<noteq> UNKNOWN
              then ebind (padding_index safe i t) (\<lambda>t. Inr (t, schema_set i True fixed)) else Inr (t, fixed))
       [0..<length mfs] (tfail, fixedParameters)"

partial_function (option) finovlp_loop ::
  "(comb \<Rightarrow> schema \<Rightarrow> resolver \<Rightarrow> (comb \<times> resolver) res) \<Rightarrow> comb \<Rightarrow> comb \<Rightarrow> schema \<Rightarrow> comb set \<Rightarrow> resolver \<Rightarrow>
     (comb set \<times> resolver) res option" where
  "finovlp_loop locate safe tfail fixedParameters MFSSet r =
     (case check (the_checker r) tfail of
        Inl e \<Rightarrow> Some (Inl e)
      | Inr (passed, ck) \<Rightarrow>
          if passed then Some (Inr (MFSSet, r\<lparr>the_checker := ck\<rparr>))
          else (case locate tfail fixedParameters (r\<lparr>the_checker := ck\<rparr>) of
                  Inl e \<Rightarrow> Some (Inl e)
                | Inr (mfs, r') \<Rightarrow>
                    (case fix_parameters safe mfs tfail fixedParameters of
                       Inl e \<Rightarrow> Some (Inl e)
                     | Inr (tfail', fixed') \<Rightarrow> finovlp_loop locate safe tfail' fixed' (insert mfs MFSSet) r')))"

definition FINOVLP ::
  "(comb \<Rightarrow> schema \<Rightarrow> resolver \<Rightarrow> (comb \<times> resolver) res) \<Rightarrow> comb \<Rightarrow> comb \<Rightarrow> resolver \<Rightarrow> (comb set \<times> resolver) res option" where
  "FINOVLP locate safe tfail r =
     (case testcase_of_comb tfail of
        Inl e \<Rightarrow> Some (Inl e)
      | Inr t \<Rightarrow> finovlp_loop locate safe t (schema_new (length t)) {} r)"

fun finovlp_conduct_loop ::
  "(comb \<Rightarrow> schema \<Rightarrow> resolver \<Rightarrow> (comb \<times> resolver) res) \<Rightarrow> comb \<Rightarrow> comb list \<Rightarrow> resolver \<Rightarrow> resolver res option" where
  "finovlp_conduct_loop locate safe [] r = Some (Inr r)"
| "finovlp_conduct_loop locate safe (tfail # rest) r =
     Option.bind (FINOVLP locate safe tfail r) (\<lambda>result. case result of
       Inl e \<Rightarrow> Some (Inl e)
     | Inr (found, r') \<Rightarrow> finovlp_conduct_loop locate safe rest (r'\<lparr>MFC_identified := MFC_identified r' \<union> found\<rparr>))"

definition finovlp_conduct ::
  "(comb \<Rightarrow> schema \<Rightarrow> resolver \<Rightarrow> (comb \<times> resolver) res) \<Rightarrow> resolver \<Rightarrow> resolver res option" where
  "finovlp_conduct locate r =
     (if conducted r then Some (Inr r)
      else case safeValues r of
             None \<Rightarrow> Some (Inl (RuntimeException ''Safe values not set''))
           | Some safe \<Rightarrow> finovlp_conduct_loop locate safe (Tfail r) (r\<lparr>conducted := True\<rparr>))"

subsection \<open>SOFOTFaultResolver\<close>

definition sofot_step :: "comb \<Rightarrow> nat \<Rightarrow> comb \<times> schema \<times> resolver \<Rightarrow> (comb \<times> schema \<times> resolver) res" where
  "sofot_step tfail i = (\<lambda>(t, mfs, r).
     ebind (comb_get tfail i) (\<lambda>old_value.
     ebind (comb_set i UNKNOWN t) (\<lambda>t.
     ebind (check_with_safevalues t tfail r) (\<lambda>(healthy, r).
     ebind (comb_set i old_value t) (\<lambda>t.
       Inr (t, if healthy then schema_set i True mfs else mfs, r))))))"

definition sofot_one :: "comb \<Rightarrow> resolver \<Rightarrow> resolver res" where
  "sofot_one tfail r =
     ebind (efold (sofot_step tfail) [0..<length tfail] (tfail, schema_new (length tfail), r)) (\<lambda>(t, mfs, r).
       if schema_size mfs = 0 then Inr r
       else ebind (getComb mfs tfail) (\<lambda>c. Inr (r\<lparr>MFC_identified := insert c (MFC_identified r)\<rparr>)))"

definition sofot_flip :: "nat \<Rightarrow> comb \<times> nat list \<times> resolver \<Rightarrow> (comb \<times> nat list \<times> resolver) res" where
  "sofot_flip i = (\<lambda>(t, mfs, r).
     ebind (testcase_flip i t) (\<lambda>t.
     ebind (check (the_checker r) t) (\<lambda>(passed, ck).
     ebind (testcase_flip i t) (\<lambda>t.
       Inr (t, if passed then mfs @ [i] else mfs, r\<lparr>the_checker := ck\<rparr>)))))"

definition sofot_one_without :: "comb \<Rightarrow> resolver \<Rightarrow> resolver res" where
  "sofot_one_without tfail r =
     ebind (testcase_of_comb tfail) (\<lambda>t.
     ebind (efold sofot_flip [0..<length t] (t, [], r)) (\<lambda>(t, mfs, r).
       if mfs = [] then Inr r
       else ebind (getComb (schema_of_indices (length tfail) mfs) tfail)
              (\<lambda>c. Inr (r\<lparr>MFC_identified := insert c (MFC_identified r)\<rparr>))))"

definition sofot_conduct :: "resolver \<Rightarrow> resolver res" where
  "sofot_conduct r =
     (if conducted r then Inr r
      else let r = r\<lparr>conducted := True\<rparr>
           in if safeValues r = None then efold sofot_one_without (Tfail r) r else efold sofot_one (Tfail r) r)"

end
