(* ===== verification/NP_Locate.thy ===== *)
theory NP_Locate
  imports NP_Finovlp
begin

text \<open>
  Locating one faulty combination: both FIC and FIC\_BS return a minimal faulty set of the parameters
  that are not fixed. The contract of the method that FINOVLP calls is the locale \<open>mfc_locator\<close>; the loop
  of FINOVLP is proved in it, and FIC and FIC\_BS are its interpretations.
\<close>

subsection \<open>Test cases with replaced values\<close>

definition replaced :: "nat set \<Rightarrow> comb \<Rightarrow> comb \<Rightarrow> comb" where
  "replaced F safe T = map (\<lambda>i. if i \<in> F then pad safe T i else T ! i) [0..<length T]"

lemma length_replaced [simp]: "length (replaced F safe T) = length T"
  by (simp add: replaced_def)

lemma replaced_nth [simp]: "i < length T \<Longrightarrow> replaced F safe T ! i = (if i \<in> F then pad safe T i else T ! i)"
  by (simp add: replaced_def)

lemma replaced_empty [simp]: "replaced {} safe T = T"
  by (intro nth_equalityI) auto

lemma pad_value: "sut_ok n mfs safe \<Longrightarrow> tfail_ok n mfs safe T \<Longrightarrow> i < n \<Longrightarrow> pad safe T i = 0 \<or> pad safe T i = 1"
  using tfail_known [of n mfs safe T i] unfolding sut_ok_def pad_def by (metis diff_0_right diff_self insertE nth_mem singletonD)

lemma padded_replaced:
  assumes "sut_ok n mfs safe" "tfail_ok n mfs safe T" "A \<inter> F = {}"
  shows "padded (proj (A \<union> F) (replaced F safe T)) safe (replaced F safe T) = padded (proj A T) safe T"
proof (intro nth_equalityI)
  fix i assume i: "i < length (padded (proj (A \<union> F) (replaced F safe T)) safe (replaced F safe T))"
  have n: "i < length T" "length T = n" using i assms(2) by (auto simp: tfail_ok_def)
  have "pad safe T i \<noteq> UNKNOWN" "T ! i \<noteq> UNKNOWN"
    using pad_value [OF assms(1,2), of i] tfail_not_unknown [OF assms(2), of i] n by (auto simp: UNKNOWN_def)
  then show "padded (proj (A \<union> F) (replaced F safe T)) safe (replaced F safe T) ! i = padded (proj A T) safe T ! i"
    using n assms(3) by (auto simp: pad_def)
qed simp

lemma replaced_padded:
  assumes "sut_ok n mfs safe" "tfail_ok n mfs safe T"
  shows "replaced F safe T = padded (proj ({..<n} - F) T) safe T"
proof (intro nth_equalityI)
  fix i assume "i < length (replaced F safe T)"
  then have "i < length T" "i < n" using assms(2) by (simp_all add: tfail_ok_def)
  then show "replaced F safe T ! i = padded (proj ({..<n} - F) T) safe T ! i"
    using tfail_not_unknown [OF assms(2)] by auto
qed simp

text \<open>Every test the resolvers run decides whether the kept parameters are faulty.\<close>

lemma check_kept:
  assumes "sut_ok n mfs safe" "tfail_ok n mfs safe T" "runs_on mfs safe M r" "A \<inter> F = {}"
  shows "\<exists>r'. check_with_safevalues (proj (A \<union> F) (replaced F safe T)) (replaced F safe T) r = Inr (\<not> faulty_by mfs safe T A, r') \<and>
    runs_on mfs safe M r'"
proof -
  let ?t = "padded (proj A T) safe T"
  have len: "length T = n" "length safe = n" "\<forall>mf\<in>set mfs. length mf = n" using assms by (auto simp: sut_ok_def tfail_ok_def)
  have "pad_comb r (proj (A \<union> F) (replaced F safe T)) (replaced F safe T) = Inr ?t"
    using assms(3) len paddingWithSafeValues_eq [of safe "proj (A \<union> F) (replaced F safe T)" "replaced F safe T"]
      padded_valid [OF assms(1,2)] padded_replaced [OF assms(1,2,4)] by (simp add: pad_comb_def runs_on_def)
  moreover have "check_loop ?t mfs = Inr (\<not> faulty_by mfs safe T A)"
    using check_loop_eq [of mfs ?t] len by (auto simp: faulty_by_def)
  ultimately show ?thesis using assms(3) by (auto simp: check_with_safevalues_def check_def runs_on_def Let_def)
qed

lemma check_replaced:
  assumes "sut_ok n mfs safe" "tfail_ok n mfs safe T" "runs_on mfs safe M r"
  shows "\<exists>ck. check (the_checker r) (replaced F safe T) = Inr (\<not> faulty_by mfs safe T ({..<n} - F), ck) \<and>
    runs_on mfs safe M (r\<lparr>the_checker := ck\<rparr>)"
proof -
  have "\<forall>mf\<in>set mfs. length mf = length (replaced F safe T)" using assms by (auto simp: sut_ok_def tfail_ok_def)
  then have "check_loop (replaced F safe T) mfs = Inr (\<not> faulty_by mfs safe T ({..<n} - F))"
    using check_loop_eq [of mfs "replaced F safe T"] unfolding faulty_by_def replaced_padded [OF assms(1,2), symmetric] by auto
  then show ?thesis using assms(3) by (simp add: check_def runs_on_def Let_def)
qed

lemma faulty_mono: "sut_ok n mfs safe \<Longrightarrow> tfail_ok n mfs safe T \<Longrightarrow> faulty_by mfs safe T A \<Longrightarrow> A \<subseteq> B \<Longrightarrow> faulty_by mfs safe T B"
  unfolding faulty_by_iff by blast

definition minimal_in :: "comb list \<Rightarrow> comb \<Rightarrow> comb \<Rightarrow> nat set \<Rightarrow> bool" where
  "minimal_in mfs safe T S \<longleftrightarrow> faulty_by mfs safe T S \<and> (\<forall>i\<in>S. \<not> faulty_by mfs safe T (S - {i}))"

text \<open>A minimal faulty set is the support of a faulty combination of the system.\<close>

lemma minimal_is_fault:
  assumes "sut_ok n mfs safe" "tfail_ok n mfs safe T" "minimal_in mfs safe T S" "S \<subseteq> {..<n}"
  shows "proj S T \<in> set mfs" "contains_loop T (proj S T)" "supp (proj S T) = S"
proof -
  have least: "\<not> faulty_by mfs safe T B" if sub: "B \<subset> S" for B
  proof -
    obtain i where "i \<in> S" "i \<notin> B" using sub by blast
    then have "i \<in> S" "B \<subseteq> S - {i}" using sub by auto
    then show ?thesis using assms(3) faulty_mono [OF assms(1,2)] unfolding minimal_in_def by blast
  qed
  have "proj S T \<in> {mf \<in> set mfs. contains_loop T mf}"
    unfolding minimal_faults [OF assms(1,2), symmetric] using assms(3,4) least by (auto simp: minimal_in_def)
  then show "proj S T \<in> set mfs" "contains_loop T (proj S T)" by blast+
  show "supp (proj S T) = S"
    using assms(4) tfail_not_unknown [OF assms(2)] assms(2) by (auto simp: supp_def tfail_ok_def split: if_splits)
qed

subsection \<open>FIC\<close>

lemma proj_upd: "i < length t \<Longrightarrow> i \<in> A \<Longrightarrow> (proj A t)[i := UNKNOWN] = proj (A - {i}) t"
  by (intro nth_equalityI) (auto simp: nth_list_update)

lemma proj_restore: "i < length t \<Longrightarrow> (proj (A - {i}) t)[i := t ! i] = proj (insert i A) t"
  by (intro nth_equalityI) (auto simp: nth_list_update)

lemma fic_loop_spec:
  assumes "sut_ok n mfs safe" "tfail_ok n mfs safe T" "bitset fixed = F"
  shows "runs_on mfs safe M r \<Longrightarrow> distinct is \<Longrightarrow> set is \<subseteq> {..<n} \<Longrightarrow> schema_wf n S \<Longrightarrow> bitset S \<inter> (set is \<union> F) = {} \<Longrightarrow>
    A = bitset S \<union> (set is - F) \<Longrightarrow> faulty_by mfs safe T A \<Longrightarrow> \<forall>i\<in>bitset S. \<not> faulty_by mfs safe T (A - {i}) \<Longrightarrow>
    \<exists>S' r'. fic_loop is (replaced F safe T) fixed (proj (A \<union> F) (replaced F safe T)) S r = Inr (S', r') \<and> schema_wf n S' \<and>
      bitset S' \<inter> F = {} \<and> minimal_in mfs safe T (bitset S') \<and> runs_on mfs safe M r'"
proof (induction "is" arbitrary: S A r)
  case Nil
  then have "A = bitset S" by simp
  then show ?case using Nil by (auto simp: minimal_in_def)
next
  case (Cons i "is")
  let ?t = "replaced F safe T"
  have n: "i < length ?t" "i < n" "length ?t = n" using Cons.prems(3) assms(2) by (auto simp: tfail_ok_def)
  show ?case
  proof (cases "i \<in> F")
    case True
    then have "A = bitset S \<union> (set is - F)" using Cons.prems(6) by auto
    then show ?thesis using Cons.IH [of r S A] Cons.prems True assms(3) by (auto simp: schema_get_def)
  next
    case False
    have i: "i \<in> A" "i \<notin> bitset S" "A \<inter> F = {}" "i \<notin> set is" using Cons.prems(2,5,6) False by auto
    have c: "proj (A \<union> F - {i}) ?t = proj (A - {i} \<union> F) ?t" using False by (simp add: Un_Diff)
    obtain r1 where r1: "check_with_safevalues (proj (A - {i} \<union> F) ?t) ?t r = Inr (\<not> faulty_by mfs safe T (A - {i}), r1)" "runs_on mfs safe M r1"
      using check_kept [OF assms(1,2) Cons.prems(1), of "A - {i}" F] i(3) by auto
    have step: "fic_loop (i # is) ?t fixed (proj (A \<union> F) ?t) S r =
        (if \<not> faulty_by mfs safe T (A - {i}) then fic_loop is ?t fixed (proj (A \<union> F) ?t) (schema_set i True S) r1
         else fic_loop is ?t fixed (proj (A - {i} \<union> F) ?t) S r1)"
      using False assms(3) n r1(1) i(1) proj_restore [of i ?t "A \<union> F"]
      by (simp add: schema_get_def comb_set_def comb_get_def proj_upd c insert_absorb)
    show ?thesis
    proof (cases "faulty_by mfs safe T (A - {i})")
      case True
      have "A - {i} = bitset S \<union> (set is - F)" using Cons.prems(6) i by auto
      moreover have "\<forall>j\<in>bitset S. \<not> faulty_by mfs safe T (A - {i} - {j})"
        using Cons.prems(8) faulty_mono [OF assms(1,2)] by (metis Diff_insert2 Diff_subset insert_commute Diff_insert)
      ultimately show ?thesis using Cons.IH [of r1 S "A - {i}"] Cons.prems(2-5) r1(2) True unfolding step by auto
    next
      case healthy: False
      have "A = bitset (schema_set i True S) \<union> (set is - F)" using Cons.prems(6) False by auto
      then show ?thesis using Cons.IH [of r1 "schema_set i True S" A] Cons.prems(2-5,7,8) r1(2) healthy False n(2) i(4) unfolding step by auto
    qed
  qed
qed

text \<open>The contract of a locator: the support of what it returns is a minimal faulty set of free parameters.\<close>

definition locates :: "(comb \<Rightarrow> schema \<Rightarrow> resolver \<Rightarrow> (comb \<times> resolver) res) \<Rightarrow> bool" where
  "locates locate \<longleftrightarrow> (\<forall>n mfs safe T fixed M r. sut_ok n mfs safe \<longrightarrow> tfail_ok n mfs safe T \<longrightarrow> schema_wf n fixed \<longrightarrow> runs_on mfs safe M r \<longrightarrow>
     faulty_by mfs safe T ({..<n} - bitset fixed) \<longrightarrow>
     (\<exists>S r'. locate (replaced (bitset fixed) safe T) fixed r = Inr (proj S T, r') \<and> S \<subseteq> {..<n} - bitset fixed \<and>
        minimal_in mfs safe T S \<and> runs_on mfs safe M r'))"

lemma proj_replaced: "S \<inter> F = {} \<Longrightarrow> proj S (replaced F safe T) = proj S T"
  by (intro nth_equalityI) auto

lemma fic_locates: "locates fic_locateOneMFC"
  unfolding locates_def
proof (intro allI impI)
  fix n mfs safe T fixed M r
  assume a: "sut_ok n mfs safe" "tfail_ok n mfs safe T" "schema_wf n fixed" "runs_on mfs safe M r" "faulty_by mfs safe T ({..<n} - bitset fixed)"
  let ?F = "bitset fixed" and ?t = "replaced (bitset fixed) safe T"
  have n: "length ?t = n" "length T = n" "?F \<subseteq> {..<n}" using a(2,3) by (auto simp: tfail_ok_def schema_wf_def)
  have all: "proj (({..<n} - ?F) \<union> ?F) ?t = ?t" using n by (intro nth_equalityI) auto
  have "{..<n} - ?F = bitset (schema_new n) \<union> (set [0..<n] - ?F)" by auto
  then obtain S r' where S: "fic_loop [0..<n] ?t fixed ?t (schema_new n) r = Inr (S, r')" "schema_wf n S" "bitset S \<inter> ?F = {}"
    "minimal_in mfs safe T (bitset S)" "runs_on mfs safe M r'"
    using fic_loop_spec [OF a(1,2) refl a(4), of "[0..<n]" "schema_new n" fixed "{..<n} - ?F"] a(5) unfolding all by (auto simp: atLeast0LessThan)
  have "getComb S ?t = Inr (proj (bitset S) T)" using getComb_wf [OF S(2) n(1)] proj_replaced [OF S(3)] by simp
  then show "\<exists>S r'. fic_locateOneMFC ?t fixed r = Inr (proj S T, r') \<and> S \<subseteq> {..<n} - ?F \<and> minimal_in mfs safe T S \<and> runs_on mfs safe M r'"
    using S n by (intro exI [of _ "bitset S"] exI [of _ r']) (auto simp: fic_locateOneMFC_def schema_wf_def)
qed

subsection \<open>FIC\_BS\<close>

text \<open>The combination tested: the first \<open>k\<close> free parameters are unknown.\<close>

lemma unknown_prefix:
  assumes "set free \<subseteq> {..<length t}"
  shows "k \<le> length free \<Longrightarrow> efold (\<lambda>i comb. if i < length free then comb_set (free ! i) UNKNOWN comb
           else Inl IndexOutOfBoundsException) [0..<k] t = Inr (proj ({..<length t} - set (take k free)) t)"
proof (induction k)
  case 0
  have "proj {..<length t} t = t" by (intro nth_equalityI) auto
  then show ?case by simp
next
  case (Suc k)
  have "free ! k \<in> set free" using Suc.prems by simp
  then have "free ! k < length t" using assms by blast
  moreover have "(proj A t)[j := UNKNOWN] = proj (A - {j}) t" if "j < length t" for A j
    using that by (intro nth_equalityI) (auto simp: nth_list_update)
  moreover have "{..<length t} - set (take (Suc k) free) = {..<length t} - set (take k free) - {free ! k}"
    using Suc.prems by (auto simp: take_Suc_conv_app_nth)
  ultimately show ?case using Suc by (simp add: efold_append comb_set_def)
qed

definition free_ok :: "nat \<Rightarrow> nat set \<Rightarrow> nat set \<Rightarrow> nat list \<Rightarrow> bool" where
  "free_ok n F K free \<longleftrightarrow> distinct free \<and> set free \<union> K = {..<n} - F \<and> set free \<inter> K = {} \<and> F \<subseteq> {..<n}"

lemma kept_prefix:
  assumes "free_ok n F K free"
  shows "{..<n} - set (take k free) = K \<union> set (drop k free) \<union> F" "(K \<union> set (drop k free)) \<inter> F = {}"
proof -
  have "set (take k free) \<union> set (drop k free) = set free" by (metis append_take_drop_id set_append)
  moreover have "set (take k free) \<inter> set (drop k free) = {}" using assms by (simp add: free_ok_def set_take_disj_set_drop_if_distinct)
  ultimately show "{..<n} - set (take k free) = K \<union> set (drop k free) \<union> F" "(K \<union> set (drop k free)) \<inter> F = {}"
    using assms unfolding free_ok_def by blast+
qed

lemma ficbs_search_spec:
  assumes "sut_ok n mfs safe" "tfail_ok n mfs safe T" "free_ok n F K free"
  defines "healthy k \<equiv> \<not> faulty_by mfs safe T (K \<union> set (drop (nat (k + 1)) free))"
  shows "runs_on mfs safe M r \<Longrightarrow> 0 \<le> left \<Longrightarrow> left \<le> right + 1 \<Longrightarrow> right < int (length free) \<Longrightarrow>
    ans = -1 \<and> right = int (length free) - 1 \<or> ans = right + 1 \<and> ans < int (length free) \<and> healthy ans \<Longrightarrow>
    left = 0 \<or> \<not> healthy (left - 1) \<Longrightarrow>
    \<exists>k r'. ficbs_search (replaced F safe T) free left right ans r = Inr (k, r') \<and> runs_on mfs safe M r' \<and>
      (k = -1 \<and> (free = [] \<or> \<not> healthy (int (length free) - 1)) \<or>
       0 \<le> k \<and> k < int (length free) \<and> healthy k \<and> (k = 0 \<or> \<not> healthy (k - 1)))"
proof (induction "nat (right - left + 1)" arbitrary: left right ans r rule: less_induct)
  case less
  let ?t = "replaced F safe T"
  show ?case
  proof (cases "left \<le> right")
    case False
    then have "left = right + 1" using less.prems(3) by simp
    moreover have "ficbs_search ?t free left right ans r = Inr (ans, r)" using False by (simp add: ficbs_search.simps)
    ultimately show ?thesis using less.prems by auto
  next
    case True
    define mid where "mid = left + (right - left) div 2"
    have mid: "left \<le> mid" "mid \<le> right" using True by (auto simp: mid_def)
    let ?A = "K \<union> set (drop (nat (mid + 1)) free)"
    have len: "length ?t = n" using assms(2) by (simp add: tfail_ok_def)
    have sub: "set free \<subseteq> {..<length ?t}" using assms(3) len by (auto simp: free_ok_def)
    have comb: "efold (\<lambda>i comb. if i < length free then comb_set (free ! i) UNKNOWN comb else Inl IndexOutOfBoundsException)
        [0..<nat (mid + 1)] ?t = Inr (proj (?A \<union> F) ?t)"
      using unknown_prefix [OF sub, of "nat (mid + 1)"] kept_prefix(1) [OF assms(3)] len mid less.prems(2,4) by simp
    obtain r1 where r1: "check_with_safevalues (proj (?A \<union> F) ?t) ?t r = Inr (healthy mid, r1)" "runs_on mfs safe M r1"
      using check_kept [OF assms(1,2) less.prems(1) kept_prefix(2) [OF assms(3)]] unfolding healthy_def by blast
    have step: "ficbs_search ?t free left right ans r =
        (if healthy mid then ficbs_search ?t free left (mid - 1) mid r1 else ficbs_search ?t free (mid + 1) right ans r1)"
      using True comb r1(1) by (simp add: ficbs_search.simps [of ?t free left right ans r] mid_def [symmetric] Let_def)
    show ?thesis
    proof (cases "healthy mid")
      case h: True
      show ?thesis unfolding step using h less.hyps [of "mid - 1" left r1 mid] mid less.prems r1(2) by auto
    next
      case h: False
      show ?thesis unfolding step using h less.hyps [of right "mid + 1" r1 ans] mid less.prems r1(2) by auto
    qed
  qed
qed

lemma remove_nth: "k < length xs \<Longrightarrow> set (take k xs @ drop (k + 1) xs) \<union> {xs ! k} = set xs"
  by (metis Un_insert_right append_take_drop_id Cons_nth_drop_Suc Suc_eq_plus1 insert_is_Un list.simps(15) set_append sup_bot_right)

text \<open>The parameters located so far are needed, given the free ones behind the last of them.\<close>

lemma locate_loop_spec:
  assumes "sut_ok n mfs safe" "tfail_ok n mfs safe T"
  shows "runs_on mfs safe M r \<Longrightarrow> free_ok n F (set bits) free \<Longrightarrow> p \<le> length free \<Longrightarrow>
    faulty_by mfs safe T (set bits \<union> set (drop p free)) \<Longrightarrow>
    \<forall>i\<in>set bits. \<not> faulty_by mfs safe T (set bits \<union> set (drop p free) - {i}) \<Longrightarrow>
    \<exists>bits' r'. locate_loop (replaced F safe T) free bits r = Inr (bits', r') \<and> set bits' \<subseteq> {..<n} - F \<and>
      minimal_in mfs safe T (set bits') \<and> runs_on mfs safe M r'"
proof (induction "length free" arbitrary: free bits p r rule: less_induct)
  case less
  let ?t = "replaced F safe T" and ?f = "faulty_by mfs safe T" and ?h = "\<lambda>k. \<not> faulty_by mfs safe T (set bits \<union> set (drop (nat (k + 1)) free))"
  note mono = faulty_mono [OF assms]
  have anti: "\<not> ?f A" if "\<not> ?f B" "A \<subseteq> B" for A B using that mono [of A B] by blast
  have all: "?f (set bits \<union> set free)" by (rule mono [OF less.prems(4)]) (intro Un_mono order_refl set_drop_subset)
  have "\<exists>k r'. locateOneFixedParameter ?t free r = Inr (k, r') \<and> runs_on mfs safe M r' \<and>
      (k = -1 \<and> (free = [] \<or> \<not> ?h (int (length free) - 1)) \<or> 0 \<le> k \<and> k < int (length free) \<and> ?h k \<and> (k = 0 \<or> \<not> ?h (k - 1)))"
  proof (cases "free = []")
    case True
    then show ?thesis using less.prems(1) by (simp add: locateOneFixedParameter_def)
  next
    case False
    then show ?thesis
      using ficbs_search_spec [OF assms less.prems(2,1), of 0 "int (length free) - 1" "-1"] by (simp add: locateOneFixedParameter_def)
  qed
  then obtain k r1 where k: "locateOneFixedParameter ?t free r = Inr (k, r1)" "runs_on mfs safe M r1"
    "k = -1 \<and> (free = [] \<or> \<not> ?h (int (length free) - 1)) \<or> 0 \<le> k \<and> k < int (length free) \<and> ?h k \<and> (k = 0 \<or> \<not> ?h (k - 1))" by blast
  show ?case
  proof (cases "k = -1")
    case True
    then have "?f (set bits)" using k(3) all by (auto simp: nat_add_distrib)
    moreover have "\<not> ?f (set bits - {i})" if "i \<in> set bits" for i by (rule anti [OF bspec [OF less.prems(5) that]]) auto
    moreover have "set bits \<subseteq> {..<n} - F" using less.prems(2) unfolding free_ok_def by blast
    ultimately show ?thesis using True k(1,2) by (simp add: locate_loop.simps [of ?t free bits r] minimal_in_def)
  next
    case False
    then have kk: "0 \<le> k" "k < int (length free)" "?h k" "k = 0 \<or> \<not> ?h (k - 1)" using k(3) by auto
    define j where "j = nat k"
    have j: "j < length free" "\<not> ?f (set bits \<union> set (drop (Suc j) free))" using kk by (simp_all add: j_def nat_add_distrib)
    have fj: "?f (set bits \<union> set (drop j free))"
    proof (cases "k = 0")
      case True
      then show ?thesis using all by (simp add: j_def)
    next
      case False
      then have "nat (k - 1 + 1) = j" by (simp add: j_def)
      then show ?thesis using kk(4) False by simp
    qed
    let ?free = "take j free @ drop (j + 1) free" and ?bits = "bits @ [free ! j]"
    have split: "set (drop j free) = insert (free ! j) (set (drop (Suc j) free))" using j(1) by (metis Cons_nth_drop_Suc list.simps(15))
    have "p \<le> j"
    proof (rule ccontr)
      assume "\<not> p \<le> j"
      then have "set (drop p free) \<subseteq> set (drop (Suc j) free)" by (simp add: set_drop_subset_set_drop)
      then have "set bits \<union> set (drop p free) \<subseteq> set bits \<union> set (drop (Suc j) free)" by (intro Un_mono order_refl)
      then show False using anti [OF j(2)] less.prems(4) by blast
    qed
    then have sub: "set (drop j free) \<subseteq> set (drop p free)" by (rule set_drop_subset_set_drop)
    have d: "drop j ?free = drop (Suc j) free" using j(1) by simp
    have un: "set ?bits \<union> set (drop j ?free) = set bits \<union> set (drop j free)" unfolding d split by auto
    have dist: "distinct free" "free ! j \<notin> set bits" using less.prems(2) nth_mem [OF j(1)] unfolding free_ok_def by blast+
    have nin: "free ! j \<notin> set (drop (Suc j) free)" "free ! j \<notin> set ?free"
      using dist(1) j(1) by (auto simp: in_set_conv_nth nth_append nth_eq_iff_index_eq)
    have ok: "free_ok n F (set ?bits) ?free"
      using less.prems(2) remove_nth [OF j(1)] nin(2) dist unfolding free_ok_def by (auto simp: set_take_disj_set_drop_if_distinct)
    have least: "\<not> ?f (set ?bits \<union> set (drop j ?free) - {i})" if "i \<in> set ?bits" for i
    proof (cases "i = free ! j")
      case True
      then have "set bits \<union> set (drop j free) - {i} = set bits \<union> set (drop (Suc j) free)" using split nin(1) dist(2) by auto
      then show ?thesis unfolding un using j(2) by simp
    next
      case False
      then have "i \<in> set bits" using that by simp
      then show ?thesis unfolding un by (rule anti [OF bspec [OF less.prems(5)]]) (use sub in auto)
    qed
    have jl: "j \<le> length ?free" and shorter: "length ?free < length free" using j(1) by simp_all
    have f': "?f (set ?bits \<union> set (drop j ?free))" unfolding un by (rule fj)
    obtain bits' r' where "locate_loop ?t ?free ?bits r1 = Inr (bits', r')" "set bits' \<subseteq> {..<n} - F"
      "minimal_in mfs safe T (set bits')" "runs_on mfs safe M r'"
      using less.hyps [OF shorter k(2) ok jl f' ballI [OF least]] by blast
    then show ?thesis using False kk k(1) by (simp add: locate_loop.simps [of ?t free bits r] j_def)
  qed
qed

lemma schema_of_indices_eq: "schema_of_indices n xs = \<lparr>bitset = set xs, logic_size = n\<rparr>"
proof -
  have "fold (\<lambda>index s. s\<lparr>bitset := insert index (bitset s)\<rparr>) xs s = s\<lparr>bitset := set xs \<union> bitset s\<rparr>" for s :: schema
    by (induction xs arbitrary: s) auto
  then show ?thesis by (simp add: schema_of_indices_def schema_new_def)
qed

lemma ficbs_locates: "locates ficbs_locateOneMFC"
  unfolding locates_def
proof (intro allI impI)
  fix n mfs safe T fixed M r
  assume a: "sut_ok n mfs safe" "tfail_ok n mfs safe T" "schema_wf n fixed" "runs_on mfs safe M r" "faulty_by mfs safe T ({..<n} - bitset fixed)"
  let ?F = "bitset fixed" and ?t = "replaced (bitset fixed) safe T"
  let ?free = "getIndices (schema_complement fixed)"
  have n: "length ?t = n" "length T = n" "?F \<subseteq> {..<n}" "logic_size fixed = n" using a(2,3) by (auto simp: tfail_ok_def schema_wf_def)
  have free: "set ?free = {..<n} - ?F" "distinct ?free"
    using n(4) by (auto simp: getIndices_def schema_complement_def schema_get_def schema_new_def)
  have "?t ! i \<noteq> UNKNOWN" if "i < n" for i
    using that pad_value [OF a(1,2) that] tfail_not_unknown [OF a(2) that] n by (auto simp: UNKNOWN_def)
  then have tc: "testcase_of_comb ?t = Inr ?t" using n(1) by (auto simp: testcase_of_comb_def list_ex_length)
  obtain bits r' where b: "locate_loop ?t ?free [] r = Inr (bits, r')" "set bits \<subseteq> {..<n} - ?F" "minimal_in mfs safe T (set bits)" "runs_on mfs safe M r'"
    using locate_loop_spec [OF a(1,2,4), of ?F "[]" ?free 0] a(5) free n(3) by (auto simp: free_ok_def)
  have "schema_wf n (schema_of_indices n bits)" using b(2) by (auto simp: schema_of_indices_eq schema_wf_def)
  then have "getComb (schema_of_indices n bits) ?t = Inr (proj (set bits) T)"
    using getComb_wf [of n "schema_of_indices n bits" ?t] proj_replaced [of "set bits" ?F safe T] b(2) n(1) by (auto simp: schema_of_indices_eq)
  then show "\<exists>S r'. ficbs_locateOneMFC ?t fixed r = Inr (proj S T, r') \<and> S \<subseteq> {..<n} - ?F \<and> minimal_in mfs safe T S \<and> runs_on mfs safe M r'"
    using b tc n(1) by (intro exI [of _ "set bits"] exI [of _ r']) (simp add: ficbs_locateOneMFC_def)
qed

end
