(* ===== verification/NP_Resolvers.thy ===== *)
theory NP_Resolvers
  imports NP_Locate
begin

text \<open>
  What the resolvers built on FINOVLP, and SOFOT, report. The loop of FINOVLP is proved once in the locale
  \<open>mfc_locator\<close>, for any way of locating one faulty combination; FIC and FIC\_BS are its interpretations.
\<close>

subsection \<open>Replacing the values of a located combination\<close>

lemma padding_index_eq:
  assumes "sut_ok n mfs safe" "tfail_ok n mfs safe T" "i < n" "i \<notin> F"
  shows "padding_index safe i (replaced F safe T) = Inr (replaced (insert i F) safe T)"
proof -
  have len: "length safe = n" "length T = n" and s: "safe ! i \<in> {UNKNOWN, 0, 1}" and t: "T ! i = 0 \<or> T ! i = 1"
    using assms tfail_known [OF assms(2,3)] by (auto simp: sut_ok_def tfail_ok_def)
  have "(replaced F safe T)[i := pad safe T i] = replaced (insert i F) safe T"
    using assms(3,4) len by (intro nth_equalityI) (auto simp: nth_list_update)
  then show ?thesis
    using s t assms(3,4) len by (auto simp: padding_index_def comb_get_def testcase_flip_def testcase_set_def pad_def UNKNOWN_def)
qed

lemma fix_parameters_eq:
  assumes "sut_ok n mfs safe" "tfail_ok n mfs safe T" "length mf = n" "supp mf \<inter> bitset fixed = {}" "schema_wf n fixed"
  shows "\<exists>fixed'. fix_parameters safe mf (replaced (bitset fixed) safe T) fixed = Inr (replaced (bitset fixed') safe T, fixed') \<and>
    schema_wf n fixed' \<and> bitset fixed' = bitset fixed \<union> supp mf"
proof -
  let ?step = "\<lambda>i (t, fixed). if mf ! i \<noteq> UNKNOWN then ebind (padding_index safe i t) (\<lambda>t. Inr (t, schema_set i True fixed)) else Inr (t, fixed)"
  have "\<exists>fixed'. efold ?step [0..<k] (replaced (bitset fixed) safe T, fixed) = Inr (replaced (bitset fixed') safe T, fixed') \<and>
      schema_wf n fixed' \<and> bitset fixed' = bitset fixed \<union> {i\<in>supp mf. i < k}" if "k \<le> n" for k
    using that
  proof (induction k)
    case 0
    then show ?case using assms(5) by auto
  next
    case (Suc k)
    then obtain g where g: "efold ?step [0..<k] (replaced (bitset fixed) safe T, fixed) = Inr (replaced (bitset g) safe T, g)"
      "schema_wf n g" "bitset g = bitset fixed \<union> {i\<in>supp mf. i < k}" by auto
    show ?case
    proof (cases "k \<in> supp mf")
      case True
      have "k \<notin> bitset g" using g(3) True assms(4) by auto
      then have "padding_index safe k (replaced (bitset g) safe T) = Inr (replaced (bitset (schema_set k True g)) safe T)"
        using padding_index_eq [OF assms(1,2), of k] Suc.prems by simp
      moreover have "{i\<in>supp mf. i < Suc k} = insert k {i\<in>supp mf. i < k}" using True by auto
      ultimately show ?thesis using g True Suc.prems
        by (intro exI [of _ "schema_set k True g"]) (simp add: efold_append supp_def)
    next
      case False
      then have "{i\<in>supp mf. i < Suc k} = {i\<in>supp mf. i < k}" by (auto simp: less_Suc_eq)
      moreover have "mf ! k = UNKNOWN" using False Suc.prems assms(3) by (simp add: supp_def)
      ultimately show ?thesis using g by (intro exI [of _ g]) (simp add: efold_append)
    qed
  qed
  from this [of n] have "\<exists>fixed'. efold ?step [0..<n] (replaced (bitset fixed) safe T, fixed) = Inr (replaced (bitset fixed') safe T, fixed') \<and>
      schema_wf n fixed' \<and> bitset fixed' = bitset fixed \<union> {i\<in>supp mf. i < n}" by simp
  moreover have "{i\<in>supp mf. i < n} = supp mf" using assms(3) by (auto simp: supp_def)
  ultimately show ?thesis using assms(3) unfolding fix_parameters_def by simp
qed

subsection \<open>The loop of FINOVLP\<close>

text \<open>\<open>found_ok\<close>: faulty combinations of the system in the test case, no two of them sharing a parameter.\<close>

definition found_ok :: "comb list \<Rightarrow> comb \<Rightarrow> comb set \<Rightarrow> bool" where
  "found_ok mfs T X \<longleftrightarrow> X \<subseteq> {mf\<in>set mfs. contains_loop T mf} \<and> (\<forall>a\<in>X. \<forall>b\<in>X. a \<noteq> b \<longrightarrow> supp a \<inter> supp b = {})"

definition reported :: "comb list \<Rightarrow> comb list \<Rightarrow> comb set \<Rightarrow> bool" where
  "reported mfs ts X \<longleftrightarrow> X \<subseteq> {mf\<in>set mfs. \<exists>t\<in>set ts. contains_loop t mf} \<and>
     (\<forall>t\<in>set ts. \<forall>mf\<in>set mfs. contains_loop t mf \<longrightarrow> (\<exists>m\<in>X. contains_loop t m \<and> supp m \<inter> supp mf \<noteq> {}))"

locale mfc_locator =
  fixes locate :: "comb \<Rightarrow> schema \<Rightarrow> resolver \<Rightarrow> (comb \<times> resolver) res"
  assumes locate_minimal: "locates locate"
begin

lemma loop_spec:
  assumes "sut_ok n mfs safe" "tfail_ok n mfs safe T"
  shows "runs_on mfs safe M r \<Longrightarrow> schema_wf n fixed \<Longrightarrow> found_ok mfs T X \<Longrightarrow> bitset fixed = \<Union> (supp ` X) \<Longrightarrow>
    \<exists>X' r'. finovlp_loop locate safe (replaced (bitset fixed) safe T) fixed X r = Some (Inr (X', r')) \<and> found_ok mfs T X' \<and>
      (\<forall>mf\<in>set mfs. contains_loop T mf \<longrightarrow> (\<exists>m\<in>X'. supp m \<inter> supp mf \<noteq> {})) \<and> runs_on mfs safe M r'"
proof (induction "card ({..<n} - bitset fixed)" arbitrary: fixed X r rule: less_induct)
  case less
  let ?F = "bitset fixed"
  let ?t = "replaced ?F safe T"
  obtain ck where ck: "check (the_checker r) ?t = Inr (\<not> faulty_by mfs safe T ({..<n} - ?F), ck)" "runs_on mfs safe M (r\<lparr>the_checker := ck\<rparr>)"
    using check_replaced [OF assms less.prems(1)] by blast
  note iff = faulty_by_iff [OF assms]
  have sub: "supp mf \<subseteq> {..<n}" if "mf \<in> set mfs" for mf using that assms(1) by (auto simp: sut_ok_def supp_def)
  show ?case
  proof (cases "faulty_by mfs safe T ({..<n} - ?F)")
    case False
    then have "finovlp_loop locate safe ?t fixed X r = Some (Inr (X, r\<lparr>the_checker := ck\<rparr>))"
      using ck(1) by (simp add: finovlp_loop.simps [of locate safe ?t])
    moreover have "\<exists>m\<in>X. supp m \<inter> supp mf \<noteq> {}" if "mf \<in> set mfs" "contains_loop T mf" for mf
    proof -
      have "\<not> supp mf \<subseteq> {..<n} - ?F" using False that unfolding iff by blast
      then show ?thesis using sub [OF that(1)] less.prems(4) by auto
    qed
    ultimately show ?thesis using less.prems(3) ck(2) by blast
  next
    case True
    obtain S r1 where S: "locate ?t fixed (r\<lparr>the_checker := ck\<rparr>) = Inr (proj S T, r1)" "S \<subseteq> {..<n} - ?F" "minimal_in mfs safe T S" "runs_on mfs safe M r1"
      using locate_minimal assms less.prems(2) ck(2) True unfolding locates_def by metis
    let ?mf = "proj S T"
    have "S \<subseteq> {..<n}" using S(2) by blast
    note mf = minimal_is_fault [OF assms S(3) this]
    have len: "length ?mf = n" using assms(2) by (simp add: tfail_ok_def)
    have disj: "supp ?mf \<inter> ?F = {}" using mf(3) S(2) by blast
    obtain g where g: "fix_parameters safe ?mf ?t fixed = Inr (replaced (bitset g) safe T, g)" "schema_wf n g" "bitset g = ?F \<union> S"
      using fix_parameters_eq [OF assms len disj less.prems(2)] unfolding mf(3) by blast
    have "S \<noteq> {}" using mf(1,3) assms(1) by (auto simp: sut_ok_def)
    then have "card ({..<n} - bitset g) < card ({..<n} - ?F)"
      using S(2) g(3) by (intro psubset_card_mono) auto
    moreover have "found_ok mfs T (insert ?mf X)"
      using less.prems(3,4) mf S(2) unfolding found_ok_def by auto
    moreover have "bitset g = \<Union> (supp ` insert ?mf X)" using g(3) less.prems(4) mf(3) by auto
    ultimately obtain X' r' where "finovlp_loop locate safe (replaced (bitset g) safe T) g (insert ?mf X) r1 = Some (Inr (X', r'))"
      "found_ok mfs T X'" "\<forall>mf\<in>set mfs. contains_loop T mf \<longrightarrow> (\<exists>m\<in>X'. supp m \<inter> supp mf \<noteq> {})" "runs_on mfs safe M r'"
      using less.hyps [of g r1 "insert ?mf X"] S(4) g(2) by blast
    moreover have "finovlp_loop locate safe ?t fixed X r = finovlp_loop locate safe (replaced (bitset g) safe T) g (insert ?mf X) r1"
      using True ck(1) S(1) g(1) by (simp add: finovlp_loop.simps [of locate safe ?t])
    ultimately show ?thesis by auto
  qed
qed

lemma FINOVLP_spec:
  assumes "sut_ok n mfs safe" "tfail_ok n mfs safe T" "runs_on mfs safe M r"
  shows "\<exists>X r'. FINOVLP locate safe T r = Some (Inr (X, r')) \<and> found_ok mfs T X \<and>
      (\<forall>mf\<in>set mfs. contains_loop T mf \<longrightarrow> (\<exists>m\<in>X. supp m \<inter> supp mf \<noteq> {})) \<and> runs_on mfs safe M r'"
proof -
  have n: "length T = n" using assms(2) by (simp add: tfail_ok_def)
  have "testcase_of_comb T = Inr T" using tfail_not_unknown [OF assms(2)] n by (auto simp: testcase_of_comb_def list_ex_length)
  then show ?thesis using loop_spec [OF assms, of "schema_new n" "{}"] n by (simp add: FINOVLP_def found_ok_def)
qed

lemma all_tests_spec:
  assumes "sut_ok n mfs safe"
  shows "\<forall>t\<in>set ts. tfail_ok n mfs safe t \<Longrightarrow> runs_on mfs safe M r \<Longrightarrow>
    \<exists>X r'. finovlp_conduct_loop locate safe ts r = Some (Inr r') \<and> reported mfs ts X \<and> runs_on mfs safe (M \<union> X) r'"
proof (induction ts arbitrary: M r)
  case Nil
  then show ?case by (intro exI [of _ "{}"]) (auto simp: reported_def)
next
  case (Cons t ts)
  obtain X r1 where X: "FINOVLP locate safe t r = Some (Inr (X, r1))" "found_ok mfs t X"
    "\<forall>mf\<in>set mfs. contains_loop t mf \<longrightarrow> (\<exists>m\<in>X. supp m \<inter> supp mf \<noteq> {})" "runs_on mfs safe M r1"
    using FINOVLP_spec [OF assms _ Cons.prems(2)] Cons.prems(1) by (metis list.set_intros(1))
  let ?r = "r1\<lparr>MFC_identified := MFC_identified r1 \<union> X\<rparr>"
  have "runs_on mfs safe (M \<union> X) ?r" using X(4) by (simp add: runs_on_def)
  then obtain Y r' where Y: "finovlp_conduct_loop locate safe ts ?r = Some (Inr r')" "reported mfs ts Y" "runs_on mfs safe (M \<union> X \<union> Y) r'"
    using Cons.IH Cons.prems(1) by (metis list.set_intros(2))
  have "reported mfs (t # ts) (X \<union> Y)"
    unfolding reported_def
  proof (intro conjI ballI impI)
    show "X \<union> Y \<subseteq> {mf\<in>set mfs. \<exists>t\<in>set (t # ts). contains_loop t mf}" using X(2) Y(2) by (auto simp: found_ok_def reported_def)
    fix t' mf assume t': "t' \<in> set (t # ts)" "mf \<in> set mfs" "contains_loop t' mf"
    show "\<exists>m\<in>X \<union> Y. contains_loop t' m \<and> supp m \<inter> supp mf \<noteq> {}"
    proof (cases "t' = t")
      case True
      then obtain m where "m \<in> X" "supp m \<inter> supp mf \<noteq> {}" using X(3) t' by blast
      then show ?thesis using X(2) True unfolding found_ok_def by blast
    next
      case False
      then have "t' \<in> set ts" using t'(1) by simp
      then show ?thesis using Y(2) t'(2,3) unfolding reported_def by blast
    qed
  qed
  then show ?case using X(1) Y by (intro exI [of _ "X \<union> Y"] exI [of _ r']) (simp add: Un_assoc)
qed

end

interpretation fic: mfc_locator fic_locateOneMFC
  by unfold_locales (rule fic_locates)

interpretation ficbs: mfc_locator ficbs_locateOneMFC
  by unfold_locales (rule ficbs_locates)

lemma finovlp_spec:
  assumes loc: "locate = fic_locateOneMFC \<or> locate = ficbs_locateOneMFC" and sut: "sut_ok n (MFS ck) safe"
    and ts: "\<forall>t\<in>set tfails. tfail_ok n (MFS ck) safe t" and r: "resolver_new ck tpass tfails = Inr r"
  shows "\<exists>r'. finovlp_conduct locate (r\<lparr>safeValues := Some safe\<rparr>) = Some (Inr r') \<and> reported (MFS ck) tfails (MFC_identified r')"
proof -
  let ?r = "r\<lparr>safeValues := Some safe, conducted := True\<rparr>"
  have r: "Tfail r = tfails" "\<not> conducted r" "runs_on (MFS ck) safe {} ?r"
    using r by (auto simp: resolver_new_def runs_on_def split: if_splits)
  then obtain X r' where "finovlp_conduct_loop locate safe tfails ?r = Some (Inr r')" "reported (MFS ck) tfails X" "runs_on (MFS ck) safe ({} \<union> X) r'"
    using loc fic.all_tests_spec [OF sut ts] ficbs.all_tests_spec [OF sut ts] by blast
  then show ?thesis using r by (simp add: finovlp_conduct_def runs_on_def)
qed

text \<open>C4. FIC and FIC\_BS: for safe padding values \<open>conduct\<close> terminates without an exception and reports only
  faulty combinations of the system that occur in a failing test case; every faulty combination of a failing
  test case shares a parameter with a reported one that occurs there. So where the faulty combinations of a
  test case do not overlap, exactly all of them are reported.\<close>

theorem finovlp_reports_disjoint_faults:
  assumes "locate = fic_locateOneMFC \<or> locate = ficbs_locateOneMFC" "sut_ok n (MFS ck) safe"
    "\<forall>t\<in>set tfails. tfail_ok n (MFS ck) safe t" "resolver_new ck tpass tfails = Inr r"
  shows "\<exists>r'. finovlp_conduct locate (r\<lparr>safeValues := Some safe\<rparr>) = Some (Inr r') \<and>
    MFC_identified r' \<subseteq> {mf\<in>set (MFS ck). \<exists>t\<in>set tfails. contains_loop t mf} \<and>
    (\<forall>t\<in>set tfails. \<forall>mf\<in>set (MFS ck). contains_loop t mf \<longrightarrow> (\<exists>m\<in>MFC_identified r'. contains_loop t m \<and> supp m \<inter> supp mf \<noteq> {})) \<and>
    ((\<forall>t\<in>set tfails. \<forall>a\<in>set (MFS ck). \<forall>b\<in>set (MFS ck). contains_loop t a \<longrightarrow> contains_loop t b \<longrightarrow> a \<noteq> b \<longrightarrow> supp a \<inter> supp b = {}) \<longrightarrow>
      MFC_identified r' = {mf\<in>set (MFS ck). \<exists>t\<in>set tfails. contains_loop t mf})"
proof -
  obtain r' where r': "finovlp_conduct locate (r\<lparr>safeValues := Some safe\<rparr>) = Some (Inr r')" "reported (MFS ck) tfails (MFC_identified r')"
    using finovlp_spec [OF assms] by blast
  then have sub: "MFC_identified r' \<subseteq> {mf\<in>set (MFS ck). \<exists>t\<in>set tfails. contains_loop t mf}"
    and cov: "\<And>t mf. t \<in> set tfails \<Longrightarrow> mf \<in> set (MFS ck) \<Longrightarrow> contains_loop t mf \<Longrightarrow> \<exists>m\<in>MFC_identified r'. contains_loop t m \<and> supp m \<inter> supp mf \<noteq> {}"
    unfolding reported_def by blast+
  have "mf \<in> MFC_identified r'"
    if d: "\<forall>t\<in>set tfails. \<forall>a\<in>set (MFS ck). \<forall>b\<in>set (MFS ck). contains_loop t a \<longrightarrow> contains_loop t b \<longrightarrow> a \<noteq> b \<longrightarrow> supp a \<inter> supp b = {}"
      and mf: "mf \<in> set (MFS ck)" "t \<in> set tfails" "contains_loop t mf" for mf t
  proof -
    obtain m where "m \<in> MFC_identified r'" "contains_loop t m" "supp m \<inter> supp mf \<noteq> {}" using cov [OF mf(2,1,3)] by blast
    moreover from this have "m \<in> set (MFS ck)" using sub by blast
    ultimately have "m = mf" using d mf by blast
    then show ?thesis using \<open>m \<in> MFC_identified r'\<close> by simp
  qed
  note complete = this
  show ?thesis
  proof (intro exI [of _ r'] conjI ballI impI)
    assume "\<forall>t\<in>set tfails. \<forall>a\<in>set (MFS ck). \<forall>b\<in>set (MFS ck). contains_loop t a \<longrightarrow> contains_loop t b \<longrightarrow> a \<noteq> b \<longrightarrow> supp a \<inter> supp b = {}"
    then show "MFC_identified r' = {mf\<in>set (MFS ck). \<exists>t\<in>set tfails. contains_loop t mf}" using sub complete by auto
  qed (use r'(1) sub cov in auto)
qed

theorem finovlp_reports_disjoint_faults_witness:
  "\<exists>r'. finovlp_conduct ficbs_locateOneMFC (demo_resolver [[1, 1, 0], [1, 0, 0]] False) = Some (Inr r') \<and>
     MFC_identified r' = {[1, -1, 0], [-1, 1, -1]}"
proof -
  let ?ck = "checker_new demo_mfs" and ?ts = "[[1, 1, 0], [1, 0, 0]] :: comb list"
  have sut: "sut_ok 3 (MFS ?ck) demo_safe" using demo_sut by (simp add: checker_new_def)
  have tf: "\<forall>t\<in>set ?ts. tfail_ok 3 (MFS ?ck) demo_safe t" using demo_tfail by (simp add: checker_new_def)
  have dis: "\<forall>t\<in>set ?ts. \<forall>a\<in>set (MFS ?ck). \<forall>b\<in>set (MFS ?ck). contains_loop t a \<longrightarrow> contains_loop t b \<longrightarrow> a \<noteq> b \<longrightarrow> supp a \<inter> supp b = {}"
    by (simp add: demo_defs demo_supp)
  have "{mf \<in> set (MFS ?ck). \<exists>t\<in>set ?ts. contains_loop t mf} = {[1, -1, 0], [-1, 1, -1]}" by (auto simp: demo_defs UNKNOWN_def)
  with finovlp_reports_disjoint_faults [OF disjI2 [OF refl] sut tf, of "[]"] dis show ?thesis
    by (auto simp: resolver_new_def demo_resolver_def)
qed

subsection \<open>SOFOT\<close>

text \<open>The parameters that all faulty combinations of a test case use.\<close>

definition common_part :: "comb list \<Rightarrow> comb \<Rightarrow> nat set" where
  "common_part mfs T = \<Inter> (supp ` {mf\<in>set mfs. contains_loop T mf})"

lemma sofot_scan:
  assumes "sut_ok n mfs safe" "tfail_ok n mfs safe T" "runs_on mfs safe M r" "k \<le> n"
  shows "\<exists>S r'. efold (sofot_step T) [0..<k] (T, schema_new n, r) = Inr (T, S, r') \<and> schema_wf n S \<and>
    bitset S = {i. i < k \<and> i \<in> common_part mfs T} \<and> runs_on mfs safe M r'"
  using assms(4)
proof (induction k)
  case 0
  then show ?case using assms(3) by auto
next
  case (Suc k)
  then obtain S r1 where S: "efold (sofot_step T) [0..<k] (T, schema_new n, r) = Inr (T, S, r1)" "schema_wf n S"
    "bitset S = {i. i < k \<and> i \<in> common_part mfs T}" "runs_on mfs safe M r1" by auto
  have n: "k < length T" "length T = n" using Suc.prems assms(2) by (auto simp: tfail_ok_def)
  let ?A = "{..<n} - {k}"
  have c: "T[k := UNKNOWN] = proj ?A T" using n by (intro nth_equalityI) (auto simp: nth_list_update)
  obtain r2 where r2: "check_with_safevalues (proj ?A T) T r1 = Inr (\<not> faulty_by mfs safe T ?A, r2)" "runs_on mfs safe M r2"
    using check_kept [OF assms(1,2) S(4), of ?A "{}"] by auto
  have "supp mf \<subseteq> ?A \<longleftrightarrow> k \<notin> supp mf" if "mf \<in> set mfs" for mf using that assms(1) by (auto simp: sut_ok_def supp_def)
  then have h: "\<not> faulty_by mfs safe T ?A \<longleftrightarrow> k \<in> common_part mfs T"
    unfolding faulty_by_iff [OF assms(1,2)] common_part_def by auto
  have restored: "(proj ?A T)[k := T ! k] = T" using n by (intro nth_equalityI) (auto simp: nth_list_update)
  let ?S = "if k \<in> common_part mfs T then schema_set k True S else S"
  have "sofot_step T k (T, S, r1) = Inr (T, ?S, r2)"
    using n r2(1) h by (simp add: sofot_step_def comb_get_def comb_set_def c restored)
  then have "efold (sofot_step T) [0..<Suc k] (T, schema_new n, r) = Inr (T, ?S, r2)" using S(1) by (simp add: efold_append)
  moreover have "schema_wf n ?S" using S(2) Suc.prems by simp
  moreover have "bitset ?S = {i. i < Suc k \<and> i \<in> common_part mfs T}" using S(3) by (auto simp: less_Suc_eq)
  ultimately show ?case using r2(2) by blast
qed

lemma common_sub: "sut_ok n mfs safe \<Longrightarrow> tfail_ok n mfs safe T \<Longrightarrow> common_part mfs T \<subseteq> {..<n}"
  unfolding common_part_def sut_ok_def tfail_ok_def supp_def by fastforce

lemma sofot_one_spec:
  assumes "sut_ok n mfs safe" "tfail_ok n mfs safe T" "runs_on mfs safe M r"
  shows "\<exists>r'. sofot_one T r = Inr r' \<and>
    runs_on mfs safe (M \<union> (if common_part mfs T = {} then {} else {proj (common_part mfs T) T})) r'"
proof -
  have n: "length T = n" using assms(2) by (simp add: tfail_ok_def)
  obtain S r1 where S: "efold (sofot_step T) [0..<n] (T, schema_new n, r) = Inr (T, S, r1)" "schema_wf n S"
    "bitset S = {i. i < n \<and> i \<in> common_part mfs T}" "runs_on mfs safe M r1"
    using sofot_scan [OF assms order_refl] by blast
  have b: "bitset S = common_part mfs T" using S(3) common_sub [OF assms(1,2)] by auto
  have e: "schema_size S = 0 \<longleftrightarrow> common_part mfs T = {}" using b schema_wf_finite [OF S(2)] by (simp add: schema_size_def)
  show ?thesis using S(1,4) e n b getComb_wf [OF S(2) n] by (auto simp: sofot_one_def runs_on_def)
qed

lemma sofot_run:
  assumes "sut_ok n mfs safe"
  shows "\<forall>t\<in>set ts. tfail_ok n mfs safe t \<Longrightarrow> runs_on mfs safe M r \<Longrightarrow>
    \<exists>r'. efold sofot_one ts r = Inr r' \<and> runs_on mfs safe (M \<union> {proj (common_part mfs t) t |t. t \<in> set ts \<and> common_part mfs t \<noteq> {}}) r'"
proof (induction ts arbitrary: M r)
  case Nil
  then show ?case by simp
next
  case (Cons t ts)
  let ?M = "M \<union> (if common_part mfs t = {} then {} else {proj (common_part mfs t) t})"
  obtain r1 where r1: "sofot_one t r = Inr r1" "runs_on mfs safe ?M r1"
    using sofot_one_spec [OF assms _ Cons.prems(2)] Cons.prems(1) by (metis list.set_intros(1))
  obtain r' where "efold sofot_one ts r1 = Inr r'" "runs_on mfs safe (?M \<union> {proj (common_part mfs t) t |t. t \<in> set ts \<and> common_part mfs t \<noteq> {}}) r'"
    using Cons.IH [OF _ r1(2)] Cons.prems(1) by auto
  moreover have "?M \<union> {proj (common_part mfs t) t |t. t \<in> set ts \<and> common_part mfs t \<noteq> {}} =
      M \<union> {proj (common_part mfs t') t' |t'. t' \<in> set (t # ts) \<and> common_part mfs t' \<noteq> {}}" by auto
  ultimately show ?case using r1(1) by simp
qed

text \<open>C5. SOFOT with safe values reports, for each failing test case, the part that all of its faulty
  combinations have in common, and nothing when they have none. So it reports exactly the faulty combinations
  when every failing test case has a single one.\<close>

theorem sofot_reports_common_part:
  assumes "sut_ok n (MFS ck) safe" "\<forall>t\<in>set tfails. tfail_ok n (MFS ck) safe t" "resolver_new ck tpass tfails = Inr r"
  shows "\<exists>r'. sofot_conduct (r\<lparr>safeValues := Some safe\<rparr>) = Inr r' \<and>
    MFC_identified r' = {proj (common_part (MFS ck) t) t |t. t \<in> set tfails \<and> common_part (MFS ck) t \<noteq> {}} \<and>
    ((\<forall>t\<in>set tfails. \<exists>mf. {m\<in>set (MFS ck). contains_loop t m} = {mf}) \<longrightarrow>
      MFC_identified r' = {mf\<in>set (MFS ck). \<exists>t\<in>set tfails. contains_loop t mf})"
proof -
  let ?r = "r\<lparr>safeValues := Some safe, conducted := True\<rparr>" and ?mfs = "MFS ck"
  let ?X = "{proj (common_part ?mfs t) t |t. t \<in> set tfails \<and> common_part ?mfs t \<noteq> {}}"
  have r: "Tfail r = tfails" "\<not> conducted r" "runs_on ?mfs safe {} ?r"
    using assms(3) by (auto simp: resolver_new_def runs_on_def split: if_splits)
  then obtain r' where r': "efold sofot_one tfails ?r = Inr r'" "runs_on ?mfs safe ({} \<union> ?X) r'"
    using sofot_run [OF assms(1,2) r(3)] by blast
  have one: "common_part ?mfs t = supp mf \<and> supp mf \<noteq> {} \<and> proj (supp mf) t = mf"
    if "t \<in> set tfails" "{m\<in>set ?mfs. contains_loop t m} = {mf}" for t mf
  proof -
    have mf: "mf \<in> set ?mfs" "contains_loop t mf" using that(2) by blast+
    then have "length mf = length t" "supp mf \<noteq> {}" using assms(1,2) that(1) by (auto simp: sut_ok_def tfail_ok_def)
    then show ?thesis using that(2) proj_supp mf(2) by (simp add: common_part_def)
  qed
  have "?X = {mf\<in>set ?mfs. \<exists>t\<in>set tfails. contains_loop t mf}" if s: "\<forall>t\<in>set tfails. \<exists>mf. {m\<in>set ?mfs. contains_loop t m} = {mf}"
  proof (intro set_eqI iffI)
    fix x assume "x \<in> ?X"
    then obtain t where t: "t \<in> set tfails" "x = proj (common_part ?mfs t) t" by blast
    then obtain mf where mf: "{m\<in>set ?mfs. contains_loop t m} = {mf}" using s by blast
    then have "x = mf" using one [OF t(1) mf] t(2) by simp
    then show "x \<in> {mf\<in>set ?mfs. \<exists>t\<in>set tfails. contains_loop t mf}" using mf t(1) by blast
  next
    fix x assume "x \<in> {mf\<in>set ?mfs. \<exists>t\<in>set tfails. contains_loop t mf}"
    then obtain t where t: "x \<in> set ?mfs" "t \<in> set tfails" "contains_loop t x" by blast
    then obtain mf where mf: "{m\<in>set ?mfs. contains_loop t m} = {mf}" using s by blast
    then have "x = mf" using t by blast
    then show "x \<in> ?X" using one [OF t(2) mf] t(2) by (intro CollectI exI [of _ t]) simp
  qed
  then show ?thesis using r' r(1,2) by (simp add: sofot_conduct_def runs_on_def)
qed

theorem sofot_reports_common_part_witness:
  "\<exists>r'. sofot_conduct (demo_resolver [[1, 0, 0]] False) = Inr r' \<and> MFC_identified r' = {[1, -1, 0]}"
proof -
  let ?ck = "checker_new demo_mfs" and ?ts = "[[1, 0, 0]] :: comb list"
  have sut: "sut_ok 3 (MFS ?ck) demo_safe" using demo_sut by (simp add: checker_new_def)
  have tf: "\<forall>t\<in>set ?ts. tfail_ok 3 (MFS ?ck) demo_safe t" using demo_tfail by (simp add: checker_new_def)
  have one: "\<forall>t\<in>set ?ts. \<exists>mf. {m\<in>set (MFS ?ck). contains_loop t m} = {mf}"
    by (auto simp: demo_defs UNKNOWN_def intro!: exI [of _ "[1, -1, 0]"])
  have "{mf \<in> set (MFS ?ck). \<exists>t\<in>set ?ts. contains_loop t mf} = {[1, -1, 0]}" by (auto simp: demo_defs UNKNOWN_def)
  with sofot_reports_common_part [OF sut tf, of "[]"] one show ?thesis
    by (auto simp: resolver_new_def demo_resolver_def)
qed

end
