(* ===== verification/NP_Exhaust.thy ===== *)
theory NP_Exhaust
  imports NP_Conduct Complex_Main
begin

text \<open>
  The resolvers that enumerate all combinations of the failing test cases:
  \<open>Util/Combinatorics.java\<close>, \<open>tWayComb\<close> and \<open>powerSet\<close> of \<open>Common/Testcase.java\<close>, the check with safe values of
  \<open>AbstractFaultResolver.java\<close> that knows no failing test case, \<open>ComFIL/ComFILFaultResolver.java\<close>,
  \<open>IterAIFL/IterAIFL.java\<close> and \<open>IterAIFL/IterAIFLFaultResolver.java\<close>.

  Parameters: \<open>combinationOf\<close> stands for \<open>org.raistlic.common.permutation.Combination.of\<close>, \<open>iter\<close> for the order
  in which a hash set is traversed, and \<open>rnd r i\<close> for the random value drawn for parameter \<open>i\<close> in state \<open>r\<close>
  (every check changes the state, so that every sequence of draws is covered).
\<close>

subsection \<open>Combinatorics\<close>

definition falling_products :: "int \<Rightarrow> int \<Rightarrow> int \<times> int" where
  "falling_products n k =
     fold (\<lambda>i (fraction, denominator). (fraction * (n - i + 1), denominator * i)) [1..k] (1, 1)"

text \<open>\<open>BigInteger.intValue\<close> keeps the low 32 bits.\<close>

definition intValue :: "int \<Rightarrow> int" where
  "intValue x = sint (word_of_int x :: 32 word)"

definition n_choose_k :: "int \<Rightarrow> int \<Rightarrow> int res" where
  "n_choose_k n k =
     (if k = 0 \<or> k = n then Inr 1
      else if k > n \<or> k < 0 then Inl (IllegalArgumentException ''k is invalid!'')
      else let k = (if k > n div 2 then n - k else k);
               (fraction, denominator) = falling_products n k
           in Inr (intValue (fraction div denominator)))"

subsection \<open>Testcase: enumeration\<close>

text \<open>The binomial coefficient is the initial capacity of the list, which must not be negative.\<close>

definition tWayComb :: "(nat list \<Rightarrow> nat \<Rightarrow> nat list list) \<Rightarrow> nat \<Rightarrow> comb \<Rightarrow> comb list res" where
  "tWayComb combinationOf t testcase =
     ebind (n_choose_k (int (length testcase)) (int t)) (\<lambda>capacity.
       if capacity < 0 then Inl (IllegalArgumentException ''Illegal Capacity'')
       else efold (\<lambda>combIndex res. ebind (comb_project testcase combIndex) (\<lambda>c. Inr (res @ [c])))
              (combinationOf [0..<length testcase] t) [])"

definition powerSet :: "(nat list \<Rightarrow> nat \<Rightarrow> nat list list) \<Rightarrow> comb \<Rightarrow> comb list res" where
  "powerSet combinationOf testcase =
     efold (\<lambda>i res. ebind (tWayComb combinationOf i testcase) (\<lambda>cs. Inr (res @ cs)))
       [1..<length testcase + 1] []"

definition random_value :: "(nat \<Rightarrow> int) \<Rightarrow> comb \<Rightarrow> nat \<Rightarrow> int res" where
  "random_value rnd safe i = ebind (comb_get safe i) (\<lambda>s. Inr (if s = UNKNOWN then rnd i else s))"

definition padding_random :: "(nat \<Rightarrow> int) \<Rightarrow> comb \<Rightarrow> comb \<Rightarrow> comb res" where
  "padding_random rnd comb safe =
     ebind (efold (\<lambda>i els. if els ! i = UNKNOWN
                     then ebind (random_value rnd safe i) (\<lambda>v. Inr (els[i := v]))
                     else Inr els)
              [0..<length comb] comb)
       testcase_of_list"

subsection \<open>AbstractFaultResolver: the check without a failing test case\<close>

definition check_comb :: "(resolver \<Rightarrow> nat \<Rightarrow> int) \<Rightarrow> comb \<Rightarrow> resolver \<Rightarrow> (bool \<times> resolver) res" where
  "check_comb rnd comb r =
     ebind (case safeValues r of
              None \<Rightarrow> if list_ex (\<lambda>x. x = UNKNOWN) comb then Inl (RuntimeException ''NullPointerException'')
                      else testcase_of_list comb
            | Some safe \<Rightarrow> padding_random (rnd r) comb safe) (\<lambda>t.
     ebind (check (the_checker r) t) (\<lambda>(result, ck).
       Inr (result,
            if result then r\<lparr>the_checker := ck, healthyCombs := healthyCombs r @ [comb]\<rparr>
            else r\<lparr>the_checker := ck, faultyCombs := faultyCombs r @ [comb]\<rparr>)))"

subsection \<open>Sets of combinations\<close>

text \<open>\<open>removeIf\<close> of a hash set, whose predicate may raise.\<close>

definition removeIf :: "(comb set \<Rightarrow> comb list) \<Rightarrow> (comb \<Rightarrow> bool res) \<Rightarrow> comb set \<Rightarrow> comb set res" where
  "removeIf iter p S = efold (\<lambda>c S. ebind (p c) (\<lambda>b. Inr (if b then S - {c} else S))) (iter S) S"

definition all_combs :: "(nat list \<Rightarrow> nat \<Rightarrow> nat list list) \<Rightarrow> comb list \<Rightarrow> comb set res" where
  "all_combs combinationOf tfails =
     efold (\<lambda>tfail S. ebind (powerSet combinationOf tfail) (\<lambda>cs. Inr (S \<union> set cs))) tfails {}"

definition remove_passed :: "(comb set \<Rightarrow> comb list) \<Rightarrow> comb list \<Rightarrow> comb set \<Rightarrow> comb set res" where
  "remove_passed iter tpasses S = efold (\<lambda>tpass S. removeIf iter (contains tpass) S) tpasses S"

subsection \<open>ComFIL\<close>

definition comfil_step :: "(comb set \<Rightarrow> comb list) \<Rightarrow> (resolver \<Rightarrow> nat \<Rightarrow> int) \<Rightarrow> comb \<Rightarrow>
    comb set \<times> resolver \<Rightarrow> (comb set \<times> resolver) res" where
  "comfil_step iter rnd comb = (\<lambda>(candidateSet, r).
     if comb \<notin> candidateSet then Inr (candidateSet, r)
     else ebind (check_comb rnd comb r) (\<lambda>(healthy, r).
       ebind (if healthy then removeIf iter (contains comb) candidateSet
              else removeIf iter (\<lambda>candidate. ebind (contains candidate comb) (\<lambda>b. Inr (b \<and> candidate \<noteq> comb))) candidateSet)
         (\<lambda>candidateSet. Inr (candidateSet, r))))"

definition comfil_conduct :: "(nat list \<Rightarrow> nat \<Rightarrow> nat list list) \<Rightarrow> (comb set \<Rightarrow> comb list) \<Rightarrow>
    (resolver \<Rightarrow> nat \<Rightarrow> int) \<Rightarrow> resolver \<Rightarrow> resolver res" where
  "comfil_conduct combinationOf iter rnd r =
     (if conducted r then Inr r
      else let r = r\<lparr>conducted := True\<rparr>
           in if safeValues r = None then Inl (RuntimeException ''Safe values not set'')
              else ebind (all_combs combinationOf (Tfail r)) (\<lambda>candidateSet.
                ebind (remove_passed iter (Tpass r) candidateSet) (\<lambda>candidateSet.
                ebind (efold (comfil_step iter rnd) (iter candidateSet) (candidateSet, r)) (\<lambda>(candidateSet, r).
                  Inr (r\<lparr>MFC_identified := MFC_identified r \<union> candidateSet\<rparr>)))))"

subsection \<open>IterAIFL\<close>

definition mutate_one :: "comb \<Rightarrow> comb \<Rightarrow> comb res" where
  "mutate_one tfail tway =
     ebind (testcase_of_comb tfail) (\<lambda>t.
     ebind (efold (\<lambda>i t. ebind (comb_get tway i) (\<lambda>v. if v \<noteq> UNKNOWN then testcase_flip i t else Inr t)) [0..<length t] t)
       testcase_of_comb)"

definition mutate :: "(nat list \<Rightarrow> nat \<Rightarrow> nat list list) \<Rightarrow> nat \<Rightarrow> comb \<Rightarrow> comb list res" where
  "mutate combinationOf strength tfail =
     ebind (tWayComb combinationOf strength tfail) (\<lambda>twaySets.
       efold (\<lambda>tway res. ebind (mutate_one tfail tway) (\<lambda>t. Inr (res @ [t]))) twaySets [])"

definition getAT :: "(nat list \<Rightarrow> nat \<Rightarrow> nat list list) \<Rightarrow> nat \<Rightarrow> comb list \<Rightarrow> comb list res" where
  "getAT combinationOf strength tfails =
     efold (\<lambda>tfail res. ebind (mutate combinationOf strength tfail) (\<lambda>ts. Inr (res @ ts))) tfails []"

definition minimal_step :: "(comb set \<Rightarrow> comb list) \<Rightarrow> comb \<Rightarrow> comb set \<Rightarrow> comb set res" where
  "minimal_step iter comb minimalSet =
     (if comb \<notin> minimalSet then Inr minimalSet
      else removeIf iter (\<lambda>element. ebind (contains element comb) (\<lambda>b. Inr (b \<and> element \<noteq> comb))) minimalSet)"

definition getMinimal :: "(comb set \<Rightarrow> comb list) \<Rightarrow> comb set \<Rightarrow> comb set res" where
  "getMinimal iter faultyComb = efold (minimal_step iter) (iter faultyComb) faultyComb"

definition try_testcase :: "(comb set \<Rightarrow> comb list) \<Rightarrow> comb \<Rightarrow> comb set \<times> resolver \<Rightarrow> (comb set \<times> resolver) res" where
  "try_testcase iter testcase = (\<lambda>(S, r).
     ebind (check (the_checker r) testcase) (\<lambda>(passed, ck).
       ebind (if passed then removeIf iter (contains testcase) S else Inr S) (\<lambda>S.
         Inr (S, r\<lparr>the_checker := ck\<rparr>))))"

definition iterate_strength :: "(nat list \<Rightarrow> nat \<Rightarrow> nat list list) \<Rightarrow> (comb set \<Rightarrow> comb list) \<Rightarrow> nat \<Rightarrow>
    comb set \<times> resolver \<Rightarrow> (comb set \<times> resolver) res" where
  "iterate_strength combinationOf iter i = (\<lambda>(S, r).
     ebind (getAT combinationOf i (Tfail r)) (\<lambda>AT.
     ebind (efold (try_testcase iter) AT (S, r)) (\<lambda>(S, r).
       if S = {} then Inl (RuntimeException ''Implementation is wrong'') else Inr (S, r))))"

text \<open>\<open>Tfail.getFirst()\<close> raises on an empty list, which the constructor excludes.\<close>

definition iteraifl_conduct :: "(nat list \<Rightarrow> nat \<Rightarrow> nat list list) \<Rightarrow> (comb set \<Rightarrow> comb list) \<Rightarrow> resolver \<Rightarrow> resolver res" where
  "iteraifl_conduct combinationOf iter r =
     (if conducted r then Inr r
      else let r = r\<lparr>conducted := True\<rparr>
           in ebind (all_combs combinationOf (Tfail r)) (\<lambda>S.
              ebind (remove_passed iter (Tpass r) S) (\<lambda>S.
              case Tfail r of
                [] \<Rightarrow> Inl (RuntimeException ''NoSuchElementException'')
              | t # ts \<Rightarrow>
                  ebind (efold (iterate_strength combinationOf iter) [1..<length t] (S, r)) (\<lambda>(S, r).
                  ebind (getMinimal iter S) (\<lambda>M. Inr (r\<lparr>MFC_identified := MFC_identified r \<union> M\<rparr>))))))"

subsection \<open>AbstractFaultResolver: the estimate of the pending proportion\<close>

text \<open>\<open>draws k i\<close> is the bit that the random generator of sample \<open>k\<close> gives for parameter \<open>i\<close>.\<close>

definition sampling :: "(nat \<Rightarrow> bool) \<Rightarrow> nat \<Rightarrow> schema" where
  "sampling draw n = fold (\<lambda>i schema. if draw i then schema_set i True schema else schema) [0..<n] (schema_new n)"

definition getPendingCombProportion :: "(nat \<Rightarrow> nat \<Rightarrow> bool) \<Rightarrow> comb \<Rightarrow> resolver \<Rightarrow> rat res" where
  "getPendingCombProportion draws tfail r =
     (if healthyCombs r = [] \<and> faultyCombs r = []
      then Inl (RuntimeException ''This fault resolver does not use Assumption 1'')
      else ebind (efold (\<lambda>k pending_count.
             ebind (getComb (sampling (draws k) (length tfail)) tfail) (\<lambda>comb.
             ebind (checkPending r comb) (\<lambda>b. Inr (if b then pending_count + 1 else pending_count)))) [0..<1000] (0 :: nat))
             (\<lambda>pending_count. Inr (of_nat pending_count / 1000)))"

end
