(* ===== verification/NP_Comfil.thy ===== *)
theory NP_Comfil
  imports NP_Exhaust
begin

text \<open>
  What the enumerating resolvers report: the combinations of a test case, the candidates that survive, and the
  results of ComFIL and IterAIFL.
\<close>

subsection \<open>Binomial coefficients\<close>

lemma falling_products_eq:
  assumes "k \<le> n"
  shows "falling_products (int n) (int k) = (int (fact k * (n choose k)), fact k)"
  using assms
proof (induction k)
  case 0
  then show ?case by (simp add: falling_products_def)
next
  case (Suc k)
  have snoc: "[1..int (Suc k)] = [1..int k] @ [int (Suc k)]"
    using upto_rec2 [of 1 "int (Suc k)"] by simp
  have "falling_products (int n) (int (Suc k)) =
      (int (fact k * (n choose k)) * (int n - int (Suc k) + 1), fact k * int (Suc k))"
    using Suc by (simp add: falling_products_def snoc del: of_nat_Suc)
  moreover have "fact k * (n choose k) * (n - k) = fact (Suc k) * (n choose Suc k)"
  proof -
    have "(n choose k) * (n - k) = Suc k * (n choose Suc k)"
      using binomial_absorb_comp [of n k] times_binomial_minus1_eq [of "Suc k" n] by (simp add: mult.commute)
    then show ?thesis by (metis fact_Suc mult.assoc mult.commute of_nat_id)
  qed
  moreover have "int n - int (Suc k) + 1 = int (n - k)" using Suc.prems by simp
  ultimately show ?case by (metis (no_types, lifting) fact_Suc mult.commute of_nat_mult of_nat_Suc of_nat_fact)
qed

lemma n_choose_k_eq:
  assumes "k \<le> n"
  shows "n_choose_k (int n) (int k) = Inr (intValue (int (n choose k)))"
proof -
  have one: "intValue 1 = 1" by (simp add: intValue_def)
  have quot: "fst (falling_products (int n) (int j)) div snd (falling_products (int n) (int j)) = int (n choose j)"
    if "j \<le> n" for j
    using falling_products_eq [OF that] by simp
  have sym: "n choose (n - k) = n choose k" using assms by (rule binomial_symmetric [symmetric])
  consider "k = 0 \<or> k = n" | "0 < k" "k < n" "int k > int n div 2" | "0 < k" "k < n" "\<not> int k > int n div 2"
    using assms by linarith
  then show ?thesis
  proof cases
    case 1
    then show ?thesis using one by (auto simp: n_choose_k_def)
  next
    case 2
    then have "int n - int k = int (n - k)" by simp
    with 2 show ?thesis using quot [of "n - k"] sym by (simp add: n_choose_k_def Let_def case_prod_beta)
  next
    case 3
    then show ?thesis using quot [of k] by (simp add: n_choose_k_def Let_def case_prod_beta)
  qed
qed

text \<open>Up to 30 parameters no coefficient overflows, so that the capacity of the list is not negative.\<close>

lemma intValue_small: "- (2 ^ 31) \<le> x \<Longrightarrow> x < 2 ^ 31 \<Longrightarrow> intValue x = x"
  by (simp add: intValue_def sint_sbintrunc' signed_take_bit_int_eq_self)

lemma choose_fits:
  assumes "n \<le> 30"
  shows "intValue (int (n choose k)) = int (n choose k)"
proof -
  have "n choose k \<le> 2 ^ n" by (rule binomial_le_pow2)
  also have "(2 :: nat) ^ n \<le> 2 ^ 30" using assms by (intro power_increasing) simp_all
  finally have "int (n choose k) \<le> 2 ^ 30" by (metis of_nat_le_iff of_nat_numeral of_nat_power)
  then show ?thesis by (intro intValue_small) simp_all
qed

lemma n_choose_k_small: "k \<le> n \<Longrightarrow> n \<le> 30 \<Longrightarrow> n_choose_k (int n) (int k) = Inr (int (n choose k))"
  by (simp add: n_choose_k_eq choose_fits)

subsection \<open>The combinations of a test case\<close>

text \<open>What the library's \<open>Combination\<close> promises: exactly the sets of \<open>k\<close> elements.\<close>

definition enumerates :: "(nat list \<Rightarrow> nat \<Rightarrow> nat list list) \<Rightarrow> bool" where
  "enumerates combinationOf \<longleftrightarrow>
     (\<forall>is k. distinct is \<longrightarrow> k \<le> length is \<longrightarrow> set ` set (combinationOf is k) = {A. A \<subseteq> set is \<and> card A = k})"

text \<open>A test case of the two-valued system, and its nonempty combinations.\<close>

definition known :: "nat \<Rightarrow> comb \<Rightarrow> bool" where
  "known n t \<longleftrightarrow> length t = n \<and> (\<forall>v\<in>set t. v \<in> {0, 1})"

definition subcombs :: "comb \<Rightarrow> comb set" where
  "subcombs t = {c. length c = length t \<and> supp c \<noteq> {} \<and> contains_loop t c}"

lemma known_nth: "known n t \<Longrightarrow> i < n \<Longrightarrow> t ! i \<noteq> UNKNOWN \<and> (t ! i = 0 \<or> t ! i = 1)"
  unfolding known_def UNKNOWN_def by (metis insertE nth_mem singletonD zero_neq_neg_one one_neq_neg_one)

lemma efold_collect:
  assumes "\<forall>x\<in>set xs. f x = Inr (g x)"
  shows "efold (\<lambda>x res. ebind (f x) (\<lambda>c. Inr (res @ h c))) xs acc = Inr (acc @ concat (map (h \<circ> g) xs))"
  using assms by (induction xs arbitrary: acc) auto

lemma comb_project_loop:
  assumes "set is \<subseteq> {..<length t}"
  shows "efold (\<lambda>index els. ebind (comb_get t index) (\<lambda>v. comb_set index v els)) is (proj A t) = Inr (proj (A \<union> set is) t)"
  using assms
proof (induction "is" arbitrary: A)
  case (Cons i "is")
  have "(proj A t)[i := t ! i] = proj (insert i A) t"
    using Cons.prems by (intro nth_equalityI) (auto simp: nth_list_update)
  then show ?case using Cons by (simp add: comb_get_def comb_set_def)
qed simp

lemma comb_project_eq: "set is \<subseteq> {..<length t} \<Longrightarrow> comb_project t is = Inr (proj (set is) t)"
proof -
  assume "is": "set is \<subseteq> {..<length t}"
  have "comb_new (length t) = proj {} t" by (intro nth_equalityI) (auto simp: comb_new_def)
  then show ?thesis using comb_project_loop [OF "is", of "{}"] by (simp add: comb_project_def)
qed

lemma tWayComb_fits:
  assumes "enumerates combinationOf" and "0 \<le> intValue (int (length t choose k))" and "k \<le> length t"
  shows "\<exists>cs. tWayComb combinationOf k t = Inr cs \<and> set cs = (\<lambda>A. proj A t) ` {A. A \<subseteq> {..<length t} \<and> card A = k}"
proof -
  let ?is = "combinationOf [0..<length t] k"
  have sets: "set ` set ?is = {A. A \<subseteq> {..<length t} \<and> card A = k}"
    using assms(1,3) unfolding enumerates_def by (auto simp: lessThan_atLeast0)
  have "comb_project t x = Inr (proj (set x) t)" if "x \<in> set ?is" for x
  proof -
    have "set x \<in> set ` set ?is" using that by simp
    then show ?thesis unfolding sets using comb_project_eq by simp
  qed
  then have "efold (\<lambda>combIndex res. ebind (comb_project t combIndex) (\<lambda>c. Inr (res @ [c]))) ?is [] =
      Inr (map (\<lambda>x. proj (set x) t) ?is)"
    using efold_collect [of ?is "comb_project t" "\<lambda>x. proj (set x) t" "\<lambda>c. [c]" "[]"] by (simp add: comp_def)
  then have "tWayComb combinationOf k t = Inr (map (\<lambda>x. proj (set x) t) ?is)"
    using n_choose_k_eq [OF assms(3)] assms(2) by (simp add: tWayComb_def)
  moreover have "set (map (\<lambda>x. proj (set x) t) ?is) = (\<lambda>A. proj A t) ` {A. A \<subseteq> {..<length t} \<and> card A = k}"
    unfolding sets [symmetric] by (simp only: set_map image_image)
  ultimately show ?thesis by blast
qed

lemma tWayComb_eq:
  assumes "enumerates combinationOf" and "length t \<le> 30" and "k \<le> length t"
  shows "\<exists>cs. tWayComb combinationOf k t = Inr cs \<and> set cs = (\<lambda>A. proj A t) ` {A. A \<subseteq> {..<length t} \<and> card A = k}"
  using assms(2) by (intro tWayComb_fits [OF assms(1) _ assms(3)]) (simp add: choose_fits)

lemma supp_proj: "known n t \<Longrightarrow> A \<subseteq> {..<n} \<Longrightarrow> supp (proj A t) = A"
  using known_nth [of n t] by (auto simp: supp_def known_def split: if_splits)

lemma proj_contained: "contains_loop t (proj A t)"
  by (simp add: contains_loop_iff)

lemma subcombs_proj:
  assumes "known n t"
  shows "subcombs t = (\<lambda>A. proj A t) ` {A. A \<subseteq> {..<n} \<and> A \<noteq> {}}"
proof (intro set_eqI iffI)
  fix c
  assume c: "c \<in> subcombs t"
  then have "proj (supp c) t = c" by (intro proj_supp) (auto simp: subcombs_def)
  moreover have "supp c \<subseteq> {..<n}" using c assms by (auto simp: subcombs_def supp_def known_def)
  ultimately show "c \<in> (\<lambda>A. proj A t) ` {A. A \<subseteq> {..<n} \<and> A \<noteq> {}}"
    using c by (auto simp: subcombs_def intro!: image_eqI [of _ _ "supp c"])
next
  fix c
  assume "c \<in> (\<lambda>A. proj A t) ` {A. A \<subseteq> {..<n} \<and> A \<noteq> {}}"
  then show "c \<in> subcombs t" using supp_proj [OF assms] by (auto simp: subcombs_def proj_contained)
qed

lemma powerSet_eq:
  assumes "enumerates combinationOf" and "known n t" and "n \<le> 30"
  shows "\<exists>cs. powerSet combinationOf t = Inr cs \<and> set cs = subcombs t"
proof -
  have n: "length t = n" using assms(2) by (simp add: known_def)
  have "\<forall>k\<in>set [1..<n + 1]. \<exists>cs. tWayComb combinationOf k t = Inr cs \<and>
      set cs = (\<lambda>A. proj A t) ` {A. A \<subseteq> {..<n} \<and> card A = k}"
  proof
    fix k
    assume "k \<in> set [1..<n + 1]"
    then have "k \<le> length t" using n by auto
    then show "\<exists>cs. tWayComb combinationOf k t = Inr cs \<and> set cs = (\<lambda>A. proj A t) ` {A. A \<subseteq> {..<n} \<and> card A = k}"
      using tWayComb_eq [OF assms(1) _ \<open>k \<le> length t\<close>] assms(3) by (simp only: n)
  qed
  then obtain g where g: "\<And>k. k \<in> set [1..<n + 1] \<Longrightarrow> tWayComb combinationOf k t = Inr (g k)"
    "\<And>k. k \<in> set [1..<n + 1] \<Longrightarrow> set (g k) = (\<lambda>A. proj A t) ` {A. A \<subseteq> {..<n} \<and> card A = k}"
    by metis
  have "powerSet combinationOf t = Inr (concat (map g [1..<n + 1]))"
    using efold_collect [of "[1..<n + 1]" "\<lambda>k. tWayComb combinationOf k t" g "\<lambda>cs. cs" "[]"] g(1)
    by (simp add: powerSet_def n comp_def)
  moreover have "set (concat (map g [1..<n + 1])) = (\<lambda>A. proj A t) ` {A. A \<subseteq> {..<n} \<and> A \<noteq> {}}"
  proof -
    have "(\<Union>k\<in>set [1..<n + 1]. {A. A \<subseteq> {..<n} \<and> card A = k}) = {A. A \<subseteq> {..<n} \<and> A \<noteq> {}}"
    proof (intro set_eqI iffI)
      fix A :: "nat set"
      assume "A \<in> {A. A \<subseteq> {..<n} \<and> A \<noteq> {}}"
      then have "A \<subseteq> {..<n}" "A \<noteq> {}" "finite A" by (auto intro: finite_subset)
      then show "A \<in> (\<Union>k\<in>set [1..<n + 1]. {A. A \<subseteq> {..<n} \<and> card A = k})"
        using card_mono [of "{..<n}" A] by (auto simp: Suc_le_eq card_gt_0_iff)
    qed auto
    then show ?thesis using g(2) by (auto simp: image_UN [symmetric])
  qed
  ultimately show ?thesis using subcombs_proj [OF assms(2)] by simp
qed

subsection \<open>Candidates\<close>

text \<open>A traversal order lists the elements of every finite set.\<close>

definition traverses :: "(comb set \<Rightarrow> comb list) \<Rightarrow> bool" where
  "traverses iter \<longleftrightarrow> (\<forall>S. finite S \<longrightarrow> set (iter S) = S)"

lemma removeIf_loop:
  assumes "\<forall>c\<in>set cs. p c = Inr (q c)"
  shows "efold (\<lambda>c S. ebind (p c) (\<lambda>b. Inr (if b then S - {c} else S))) cs S = Inr (S - {c \<in> set cs. q c})"
  using assms by (induction cs arbitrary: S) auto

lemma removeIf_eq:
  assumes "traverses iter" and "finite S" and "\<And>c. c \<in> S \<Longrightarrow> p c = Inr (q c)"
  shows "removeIf iter p S = Inr {c \<in> S. \<not> q c}"
proof -
  have "set (iter S) = S" using assms(1,2) by (simp add: traverses_def)
  then show ?thesis using removeIf_loop [of "iter S" p q S] assms(3) by (auto simp: removeIf_def)
qed

definition sized :: "nat \<Rightarrow> comb set \<Rightarrow> bool" where
  "sized n S \<longleftrightarrow> finite S \<and> (\<forall>c\<in>S. length c = n)"

lemma sized_subset: "sized n S \<Longrightarrow> T \<subseteq> S \<Longrightarrow> sized n T"
  unfolding sized_def by (meson finite_subset subsetD)

lemma remove_contained:
  assumes "traverses iter" and "sized n S" and "length t = n"
  shows "removeIf iter (contains t) S = Inr {c \<in> S. \<not> contains_loop t c}"
  by (rule removeIf_eq) (use assms in \<open>auto simp: sized_def contains_def\<close>)

lemma remove_supersets:
  assumes "traverses iter" and "sized n S" and "length t = n"
  shows "removeIf iter (\<lambda>c. ebind (contains c t) (\<lambda>b. Inr (b \<and> c \<noteq> t))) S = Inr {c \<in> S. \<not> (contains_loop c t \<and> c \<noteq> t)}"
  by (rule removeIf_eq) (use assms in \<open>auto simp: sized_def contains_def\<close>)

lemma remove_passed_eq:
  assumes "traverses iter" and "sized n S" and "\<forall>t\<in>set ts. length t = n"
  shows "remove_passed iter ts S = Inr {c \<in> S. \<forall>t\<in>set ts. \<not> contains_loop t c}"
  using assms(2,3)
proof (induction ts arbitrary: S)
  case (Cons t ts)
  have "sized n {c \<in> S. \<not> contains_loop t c}" using Cons.prems(1) by (rule sized_subset) auto
  then show ?case
    using Cons remove_contained [OF assms(1) Cons.prems(1), of t] by (auto simp: remove_passed_def)
qed (simp add: remove_passed_def)

lemma finite_subcombs: "known n t \<Longrightarrow> finite (subcombs t)"
  by (simp add: subcombs_proj)

lemma all_combs_loop:
  assumes "enumerates combinationOf" and "\<forall>t\<in>set ts. known n t" and "n \<le> 30"
  shows "efold (\<lambda>tfail S. ebind (powerSet combinationOf tfail) (\<lambda>cs. Inr (S \<union> set cs))) ts S =
    Inr (S \<union> (\<Union>t\<in>set ts. subcombs t))"
  using assms(2)
proof (induction ts arbitrary: S)
  case (Cons t ts)
  obtain cs where cs: "powerSet combinationOf t = Inr cs" "set cs = subcombs t"
    using powerSet_eq [OF assms(1) _ assms(3), of t] Cons.prems by auto
  then show ?case using Cons by auto
qed simp

text \<open>The combinations that occur in a failing test case and in no passing one.\<close>

definition candidates :: "comb list \<Rightarrow> comb list \<Rightarrow> comb set" where
  "candidates tpass tfail = {c \<in> \<Union>t\<in>set tfail. subcombs t. \<forall>t\<in>set tpass. \<not> contains_loop t c}"

lemma sized_candidates:
  assumes "\<forall>t\<in>set tfail. known n t"
  shows "sized n (candidates tpass tfail)" "sized n (\<Union>t\<in>set tfail. subcombs t)"
proof -
  show u: "sized n (\<Union>t\<in>set tfail. subcombs t)"
    using assms finite_subcombs by (auto simp: sized_def subcombs_def known_def)
  show "sized n (candidates tpass tfail)" by (rule sized_subset [OF u]) (auto simp: candidates_def)
qed

lemma candidates_eq:
  assumes "enumerates combinationOf" and "traverses iter" and "\<forall>t\<in>set tfail. known n t" and "\<forall>t\<in>set tpass. known n t"
    and "n \<le> 30"
  shows "ebind (all_combs combinationOf tfail) (remove_passed iter tpass) = Inr (candidates tpass tfail)"
proof -
  have "all_combs combinationOf tfail = Inr (\<Union>t\<in>set tfail. subcombs t)"
    using all_combs_loop [OF assms(1,3,5), of "{}"] by (simp add: all_combs_def)
  moreover have "\<forall>t\<in>set tpass. length t = n" using assms(4) by (simp add: known_def)
  ultimately show ?thesis
    using remove_passed_eq [OF assms(2) sized_candidates(2) [OF assms(3)]] by (simp add: candidates_def)
qed

subsection \<open>ComFIL\<close>

lemma contains_loop_refl [simp]: "contains_loop c c"
  by (simp add: contains_loop_iff)

lemma contains_loop_trans:
  "contains_loop a b \<Longrightarrow> contains_loop b c \<Longrightarrow> length a = length b \<Longrightarrow> length b = length c \<Longrightarrow> contains_loop a c"
  by (auto simp: contains_loop_iff)

lemma contains_loop_antisym:
  assumes "contains_loop a b" "contains_loop b a" "length a = length b"
  shows "a = b"
proof (rule nth_equalityI)
  fix i
  assume "i < length a"
  then have "b ! i \<noteq> UNKNOWN \<longrightarrow> a ! i = b ! i" using assms(1,3) by (simp add: contains_loop_iff)
  moreover have "a ! i \<noteq> UNKNOWN \<longrightarrow> b ! i = a ! i"
    using \<open>i < length a\<close> assms(2,3) contains_loop_iff [of b a] by simp
  ultimately show "a ! i = b ! i" by metis
qed (rule assms(3))

definition faulty :: "comb list \<Rightarrow> comb \<Rightarrow> bool" where
  "faulty mfs c \<longleftrightarrow> (\<exists>mf\<in>set mfs. contains_loop c mf)"

text \<open>
  Safe values for a check that knows no failing test case: where a faulty combination fixes a parameter there is
  one, and it is another.
\<close>

definition all_safe :: "comb list \<Rightarrow> comb \<Rightarrow> bool" where
  "all_safe mfs safe \<longleftrightarrow> (\<forall>mf\<in>set mfs. \<forall>i\<in>supp mf. safe ! i \<noteq> UNKNOWN \<and> safe ! i \<noteq> mf ! i)"

definition two_valued :: "nat \<Rightarrow> comb \<Rightarrow> bool" where
  "two_valued n c \<longleftrightarrow> length c = n \<and> (\<forall>v\<in>set c. v \<in> {UNKNOWN, 0, 1})"

lemma two_valued_nth: "two_valued n c \<Longrightarrow> i < n \<Longrightarrow> c ! i = UNKNOWN \<or> c ! i = 0 \<or> c ! i = 1"
  unfolding two_valued_def by (metis empty_iff insert_iff nth_mem)

definition filled :: "(nat \<Rightarrow> int) \<Rightarrow> comb \<Rightarrow> comb \<Rightarrow> comb" where
  "filled rnd c safe =
     map (\<lambda>i. if c ! i = UNKNOWN then if safe ! i = UNKNOWN then rnd i else safe ! i else c ! i) [0..<length c]"

lemma length_filled [simp]: "length (filled rnd c safe) = length c"
  by (simp add: filled_def)

lemma padding_random_eq:
  assumes "two_valued n c" and "two_valued n safe" and "\<And>i. rnd i = 0 \<or> rnd i = 1"
  shows "padding_random rnd c safe = Inr (filled rnd c safe)"
proof -
  have len: "length c = n" "length safe = n" using assms by (auto simp: two_valued_def)
  have "efold (\<lambda>i els. if els ! i = UNKNOWN then ebind (random_value rnd safe i) (\<lambda>v. Inr (els[i := v])) else Inr els)
      [0..<length c] c = Inr (filled rnd c safe)"
    using fill_loop_eq [of c "random_value rnd safe" "\<lambda>i. if safe ! i = UNKNOWN then rnd i else safe ! i" "length c"] len
    by (simp add: random_value_def comb_get_def filled_def)
  moreover have "filled rnd c safe ! i \<ge> 0" if "i < n" for i
    using that len two_valued_nth [OF assms(1) that] two_valued_nth [OF assms(2) that] assms(3) [of i]
    by (auto simp: filled_def UNKNOWN_def)
  then have "\<forall>x\<in>set (filled rnd c safe). x \<ge> 0"
    using len length_filled [of rnd c safe] by (metis in_set_conv_nth)
  then have "testcase_of_list (filled rnd c safe) = Inr (filled rnd c safe)"
    by (force simp: testcase_of_list_def comb_of_list_def list_ex_iff)
  ultimately show ?thesis by (simp add: padding_random_def)
qed

lemma filled_faulty:
  assumes "all_safe mfs safe" and "mf \<in> set mfs" and "length mf = length c"
  shows "contains_loop (filled rnd c safe) mf \<longleftrightarrow> contains_loop c mf"
proof -
  have "filled rnd c safe ! i = mf ! i \<longleftrightarrow> c ! i = mf ! i" if "i \<in> supp mf" for i
    using that assms by (auto simp: filled_def all_safe_def supp_def)
  then show ?thesis using assms(3) by (simp add: contains_supp filled_def)
qed

lemma check_comb_eq:
  assumes "sut_ok n mfs safe" and "all_safe mfs safe" and "two_valued n c" and "runs_on mfs safe M r"
    and "\<And>i. rnd r i = 0 \<or> rnd r i = 1"
  shows "\<exists>r'. check_comb rnd c r = Inr (\<not> faulty mfs c, r') \<and> runs_on mfs safe M r'"
proof -
  let ?t = "filled (rnd r) c safe"
  have safe: "two_valued n safe" and len: "length c = n" "\<forall>mf\<in>set mfs. length mf = n"
    using assms(1,3) by (auto simp: sut_ok_def two_valued_def)
  have "check_loop ?t mfs = Inr (\<not> faulty mfs c)"
    using check_loop_eq [of mfs ?t] filled_faulty [OF assms(2)] len by (auto simp: faulty_def filled_def)
  then show ?thesis
    using assms(4) padding_random_eq [OF assms(3) safe, of "rnd r"] assms(5)
    by (auto simp: check_comb_def check_def runs_on_def Let_def)
qed

lemma two_valued_contained:
  assumes "known n t" and "contains_loop t c" and "length c = n"
  shows "two_valued n c"
proof -
  have "c ! i \<in> {UNKNOWN, 0, 1}" if "i < n" for i
  proof (cases "c ! i = UNKNOWN")
    case False
    then have "t ! i = c ! i" using that assms by (simp add: contains_loop_iff known_def)
    then show ?thesis using known_nth [OF assms(1) that] by auto
  qed simp
  then show ?thesis using assms(3) unfolding two_valued_def by (metis in_set_conv_nth)
qed

text \<open>
  The loop of ComFIL: what the faulty combinations of the system that occur in a failing test case (\<open>R\<close>) keep, and
  what is known of the candidates already looked at (\<open>D\<close>).
\<close>

definition comfil_inv :: "comb list \<Rightarrow> comb set \<Rightarrow> comb set \<Rightarrow> comb set \<Rightarrow> bool" where
  "comfil_inv mfs R D S \<longleftrightarrow> R \<subseteq> S \<and>
     (\<forall>x\<in>S \<inter> D. faulty mfs x \<and> (\<forall>y\<in>S. contains_loop y x \<longrightarrow> y = x))"

lemma comfil_step_spec:
  assumes sut: "sut_ok n mfs safe" "all_safe mfs safe" and iter: "traverses iter"
    and rnd: "\<And>r i. rnd r i = 0 \<or> rnd r i = 1" and R: "R \<subseteq> set mfs"
    and S: "sized n S" "\<forall>c\<in>S. two_valued n c" and inv: "comfil_inv mfs R D S" and r: "runs_on mfs safe M r"
  shows "\<exists>S' r'. comfil_step iter rnd x (S, r) = Inr (S', r') \<and> S' \<subseteq> S \<and> comfil_inv mfs R (insert x D) S' \<and> runs_on mfs safe M r'"
proof (cases "x \<in> S")
  case False
  then show ?thesis using inv r by (auto simp: comfil_step_def comfil_inv_def)
next
  case True
  then have x: "two_valued n x" "length x = n" using S by (auto simp: sized_def)
  obtain r' where r': "check_comb rnd x r = Inr (\<not> faulty mfs x, r')" "runs_on mfs safe M r'"
    using check_comb_eq [OF sut x(1) r, of rnd] rnd by blast
  show ?thesis
  proof (cases "faulty mfs x")
    case False
    have "\<not> contains_loop x m" if "m \<in> R" for m using that R False by (auto simp: faulty_def)
    then have "comfil_inv mfs R (insert x D) {c \<in> S. \<not> contains_loop x c}"
      using inv by (auto simp: comfil_inv_def)
    moreover have "comfil_step iter rnd x (S, r) = Inr ({c \<in> S. \<not> contains_loop x c}, r')"
      using True False r'(1) remove_contained [OF iter S(1) x(2)] by (simp add: comfil_step_def)
    ultimately show ?thesis using r'(2) by blast
  next
    case faulty: True
    have "m = x" if "m \<in> R" "contains_loop m x" for m
    proof -
      obtain f where f: "f \<in> set mfs" "contains_loop x f" using faulty by (auto simp: faulty_def)
      have len: "length m = n" "length f = n" using that(1) R f(1) sut(1) by (auto simp: sut_ok_def)
      then have "contains_loop m f" using contains_loop_trans [OF that(2) f(2)] x(2) by simp
      then have "m = f" using sut(1) that(1) R f(1) unfolding sut_ok_def by blast
      then show ?thesis using contains_loop_antisym [OF that(2)] f(2) x(2) len by simp
    qed
    then have "comfil_inv mfs R (insert x D) {c \<in> S. \<not> (contains_loop c x \<and> c \<noteq> x)}"
      using inv faulty by (auto simp: comfil_inv_def)
    moreover have "comfil_step iter rnd x (S, r) = Inr ({c \<in> S. \<not> (contains_loop c x \<and> c \<noteq> x)}, r')"
      using True faulty r'(1) remove_supersets [OF iter S(1) x(2)] by (simp add: comfil_step_def)
    ultimately show ?thesis using r'(2) by blast
  qed
qed

lemma comfil_loop_spec:
  assumes sut: "sut_ok n mfs safe" "all_safe mfs safe" and iter: "traverses iter"
    and rnd: "\<And>r i. rnd r i = 0 \<or> rnd r i = 1" and R: "R \<subseteq> set mfs"
  shows "sized n S \<Longrightarrow> \<forall>c\<in>S. two_valued n c \<Longrightarrow> comfil_inv mfs R D S \<Longrightarrow> runs_on mfs safe M r \<Longrightarrow>
    \<exists>S' r'. efold (comfil_step iter rnd) xs (S, r) = Inr (S', r') \<and> S' \<subseteq> S \<and> comfil_inv mfs R (D \<union> set xs) S' \<and> runs_on mfs safe M r'"
proof (induction xs arbitrary: S D r)
  case (Cons x xs)
  obtain S1 r1 where s1: "comfil_step iter rnd x (S, r) = Inr (S1, r1)" "S1 \<subseteq> S" "comfil_inv mfs R (insert x D) S1"
    "runs_on mfs safe M r1"
    using comfil_step_spec [where rnd = rnd, OF sut iter rnd R Cons.prems] by blast
  have "sized n S1" "\<forall>c\<in>S1. two_valued n c" using sized_subset [OF Cons.prems(1) s1(2)] Cons.prems(2) s1(2) by auto
  then obtain S2 r2 where s2: "efold (comfil_step iter rnd) xs (S1, r1) = Inr (S2, r2)" "S2 \<subseteq> S1"
    "comfil_inv mfs R (insert x D \<union> set xs) S2" "runs_on mfs safe M r2"
    using Cons.IH [of S1 "insert x D" r1] s1 by blast
  then show ?case using s1 by (auto intro!: exI [of _ S2] exI [of _ r2])
qed auto

text \<open>When all candidates have been looked at, exactly the faulty combinations of the system are left.\<close>

lemma comfil_inv_done:
  assumes sut: "sut_ok n mfs safe" and inv: "comfil_inv mfs R S0 S" and S: "S \<subseteq> S0" "sized n S0"
    and R: "R = {mf \<in> set mfs. mf \<in> S0}" and down: "\<And>c mf. c \<in> S0 \<Longrightarrow> mf \<in> set mfs \<Longrightarrow> contains_loop c mf \<Longrightarrow> mf \<in> S0"
  shows "S = R"
proof
  show "R \<subseteq> S" using inv by (simp add: comfil_inv_def)
  show "S \<subseteq> R"
  proof
    fix c
    assume c: "c \<in> S"
    then have "faulty mfs c" using inv S(1) by (auto simp: comfil_inv_def)
    then obtain mf where mf: "mf \<in> set mfs" "contains_loop c mf" by (auto simp: faulty_def)
    then have "mf \<in> R" using c S(1) down R by blast
    then have "mf \<in> S \<inter> S0" using inv R by (auto simp: comfil_inv_def)
    then have "c = mf" using inv c mf(2) by (auto simp: comfil_inv_def)
    then show "c \<in> R" using \<open>mf \<in> R\<close> by simp
  qed
qed

definition passing :: "nat \<Rightarrow> comb list \<Rightarrow> comb \<Rightarrow> bool" where
  "passing n mfs t \<longleftrightarrow> known n t \<and> \<not> faulty mfs t"

lemma faults_in_candidates:
  assumes sut: "sut_ok n mfs safe" and tf: "\<forall>t\<in>set tfail. known n t" and tp: "\<forall>t\<in>set tpass. passing n mfs t"
    and mf: "mf \<in> set mfs"
  shows "mf \<in> candidates tpass tfail \<longleftrightarrow> (\<exists>t\<in>set tfail. contains_loop t mf)"
proof -
  have "length mf = n" "supp mf \<noteq> {}" using sut mf by (auto simp: sut_ok_def)
  then show ?thesis using tf tp mf by (auto simp: candidates_def subcombs_def known_def passing_def faulty_def)
qed

lemma candidates_down:
  assumes sut: "sut_ok n mfs safe" and tf: "\<forall>t\<in>set tfail. known n t" and tp: "\<forall>t\<in>set tpass. passing n mfs t"
    and c: "c \<in> candidates tpass tfail" and mf: "mf \<in> set mfs" "contains_loop c mf"
  shows "mf \<in> candidates tpass tfail"
proof -
  obtain t where t: "t \<in> set tfail" "length c = length t" "contains_loop t c"
    using c by (auto simp: candidates_def subcombs_def)
  have "length mf = n" "length t = n" using sut mf(1) tf t(1) by (auto simp: sut_ok_def known_def)
  then have "contains_loop t mf" using contains_loop_trans [OF t(3) mf(2)] t(2) by simp
  then show ?thesis using faults_in_candidates [OF sut tf tp mf(1)] t(1) by blast
qed

lemma comfil_spec:
  assumes sut: "sut_ok n (MFS ck) safe" "all_safe (MFS ck) safe" and n: "n \<le> 30"
    and iter: "traverses iter" and enum: "enumerates combinationOf" and rnd: "\<And>r i. rnd r i = 0 \<or> rnd r i = 1"
    and tf: "\<forall>t\<in>set tfails. known n t" and tp: "\<forall>t\<in>set tpass. passing n (MFS ck) t"
    and r: "resolver_new ck tpass tfails = Inr r"
  shows "\<exists>r'. comfil_conduct combinationOf iter rnd (r\<lparr>safeValues := Some safe\<rparr>) = Inr r' \<and> conducted r' \<and>
    MFC_identified r' = {mf \<in> set (MFS ck). \<exists>t\<in>set tfails. contains_loop t mf}"
proof -
  let ?r = "r\<lparr>safeValues := Some safe, conducted := True\<rparr>" and ?S0 = "candidates tpass tfails"
  let ?R = "{mf \<in> set (MFS ck). mf \<in> ?S0}"
  have rr: "Tfail r = tfails" "Tpass r = tpass" "\<not> conducted r" "runs_on (MFS ck) safe {} ?r"
    using r by (auto simp: resolver_new_def runs_on_def split: if_splits)
  have cand: "ebind (all_combs combinationOf tfails) (remove_passed iter tpass) = Inr ?S0"
    by (rule candidates_eq [OF enum iter tf _ n]) (use tp in \<open>simp add: passing_def\<close>)
  have sz: "sized n ?S0" by (rule sized_candidates(1) [OF tf])
  have tv: "\<forall>c\<in>?S0. two_valued n c"
    using tf two_valued_contained by (fastforce simp: candidates_def subcombs_def known_def)
  have "comfil_inv (MFS ck) ?R {} ?S0" by (auto simp: comfil_inv_def)
  moreover have "?R \<subseteq> set (MFS ck)" by blast
  ultimately obtain S r' where l: "efold (comfil_step iter rnd) (iter ?S0) (?S0, ?r) = Inr (S, r')" "S \<subseteq> ?S0"
    "comfil_inv (MFS ck) ?R ({} \<union> set (iter ?S0)) S" "runs_on (MFS ck) safe {} r'"
    using comfil_loop_spec [where rnd = rnd, OF sut iter rnd _ sz tv _ rr(4)] by blast
  have "set (iter ?S0) = ?S0" using iter sz by (simp add: traverses_def sized_def)
  then have "S = ?R"
    using comfil_inv_done [OF sut(1) _ l(2) sz refl candidates_down [OF sut(1) tf tp]] l(3) by simp
  moreover have "?R = {mf \<in> set (MFS ck). \<exists>t\<in>set tfails. contains_loop t mf}"
    using faults_in_candidates [OF sut(1) tf tp] by blast
  ultimately show ?thesis
    using rr cand l(1,4) by (simp add: comfil_conduct_def ebind_assoc [symmetric] runs_on_def)
qed

text \<open>C6. For at most 30 parameters ComFIL never raises and reports exactly the faulty combinations of the system that occur in a failing test
  case, in whatever order the hash set is traversed and whatever random values fill the parameters without a
  safe value, provided the safe values avoid the faulty ones and the given passing test cases do pass.\<close>

theorem comfil_reports_faults:
  assumes "sut_ok n (MFS ck) safe" and "all_safe (MFS ck) safe" and "n \<le> 30"
    and "traverses iter" and "enumerates combinationOf" and "\<And>r i. rnd r i = 0 \<or> rnd r i = 1"
    and "\<forall>t\<in>set tfails. known n t" and "\<forall>t\<in>set tpass. passing n (MFS ck) t"
    and "resolver_new ck tpass tfails = Inr r"
  shows "\<exists>r'. comfil_conduct combinationOf iter rnd (r\<lparr>safeValues := Some safe\<rparr>) = Inr r' \<and> conducted r' \<and>
    MFC_identified r' = {mf \<in> set (MFS ck). \<exists>t\<in>set tfails. contains_loop t mf}"
  using assms by (rule comfil_spec)

subsection \<open>A concrete enumeration\<close>

definition combinations :: "nat list \<Rightarrow> nat \<Rightarrow> nat list list" where
  "combinations is k = filter (\<lambda>xs. length xs = k) (subseqs is)"

lemma enumerates_combinations: "enumerates combinations"
  unfolding enumerates_def
proof (intro allI impI)
  fix "is" :: "nat list" and k
  assume d: "distinct is"
  have "card (set xs) = length xs" if "xs \<in> set (subseqs is)" for xs
    using subseqs_distinctD [OF that d] by (simp add: distinct_card)
  then have "set ` set (combinations is k) = {A \<in> set ` set (subseqs is). card A = k}"
    by (auto simp: combinations_def)
  also have "set ` set (subseqs is) = Pow (set is)" by (rule subseqs_powset)
  finally show "set ` set (combinations is k) = {A. A \<subseteq> set is \<and> card A = k}" by auto
qed

lemma traverses_sorted: "traverses sorted_list_of_set"
  by (simp add: traverses_def)

theorem comfil_reports_faults_witness:
  "\<exists>r'. comfil_conduct combinations sorted_list_of_set (\<lambda>r i. 1)
     ((demo_resolver [[1, 1, 0], [1, 0, 0]] False)\<lparr>safeValues := Some [0, 0, 1]\<rparr>) = Inr r' \<and>
     MFC_identified r' = {[1, -1, 0], [-1, 1, -1]}"
proof -
  let ?ck = "checker_new demo_mfs"
  have sut: "sut_ok 3 (MFS ?ck) [0, 0, 1]" and safe: "all_safe (MFS ?ck) [0, 0, 1]"
    by (simp_all add: sut_ok_def all_safe_def demo_defs demo_supp UNKNOWN_def)
  have tf: "\<forall>t\<in>set [[1, 1, 0], [1, 0, 0]]. known 3 t" by (simp add: known_def)
  have "{mf \<in> set (MFS ?ck). \<exists>t\<in>set [[1, 1, 0], [1, 0, 0]]. contains_loop t mf} = {[1, -1, 0], [-1, 1, -1]}"
    by (auto simp: demo_defs UNKNOWN_def)
  with comfil_reports_faults [OF sut safe _ traverses_sorted enumerates_combinations _ tf, of "\<lambda>r i. 1" "[]"]
  show ?thesis by (auto simp: resolver_new_def demo_resolver_def)
qed

end
