(* ===== verification/NP_Aifl.thy ===== *)
theory NP_Aifl
  imports NP_Comfil
begin

text \<open>What IterAIFL reports: the minimal combinations that occur in no passing test case, given or generated.\<close>

subsection \<open>Mutants\<close>

definition flipped :: "nat set \<Rightarrow> comb \<Rightarrow> comb" where
  "flipped A t = map (\<lambda>i. if i \<in> A then 1 - t ! i else t ! i) [0..<length t]"

lemma length_flipped [simp]: "length (flipped A t) = length t"
  by (simp add: flipped_def)

lemma flipped_nth [simp]: "i < length t \<Longrightarrow> flipped A t ! i = (if i \<in> A then 1 - t ! i else t ! i)"
  by (simp add: flipped_def)

lemma known_flipped:
  assumes "known n t"
  shows "known n (flipped A t)"
proof -
  have "flipped A t ! i \<in> {0, 1}" if "i < n" for i
    using that assms known_nth [OF assms that] by (auto simp: known_def)
  then show ?thesis using assms unfolding known_def by (metis in_set_conv_nth length_flipped)
qed

lemma testcase_of_known: "known n t \<Longrightarrow> testcase_of_comb t = Inr t"
  by (auto simp: testcase_of_comb_def known_def list_ex_iff UNKNOWN_def)

lemma mutate_loop:
  assumes t: "known n t" and A: "A \<subseteq> {..<n}" and "k \<le> n" and tf: "known n tf"
  shows "efold (\<lambda>i t. ebind (comb_get (proj A tf) i) (\<lambda>v. if v \<noteq> UNKNOWN then testcase_flip i t else Inr t)) [0..<k] t =
    Inr (take k (flipped A t) @ drop k t)"
  using \<open>k \<le> n\<close>
proof (induction k)
  case (Suc k)
  then have k: "k < n" and len: "length t = n" "length tf = n" using t tf by (auto simp: known_def)
  have "drop k t = t ! k # drop (Suc k) t" using k len by (simp add: Cons_nth_drop_Suc)
  moreover have "take (Suc k) (flipped A t) = take k (flipped A t) @ [if k \<in> A then 1 - t ! k else t ! k]"
    using k len by (simp add: take_Suc_conv_app_nth)
  moreover have "proj A tf ! k \<noteq> UNKNOWN \<longleftrightarrow> k \<in> A" using known_nth [OF tf k] k len by simp
  ultimately show ?case
    using Suc k len known_nth [OF t k]
    by (auto simp: efold_append comb_get_def testcase_flip_def nth_append list_update_append)
qed simp

lemma mutate_one_eq:
  assumes "known n t" and "A \<subseteq> {..<n}"
  shows "mutate_one t (proj A t) = Inr (flipped A t)"
  using mutate_loop [OF assms order_refl assms(1)] testcase_of_known [OF assms(1)]
    testcase_of_known [OF known_flipped [OF assms(1)]] assms(1)
  by (simp add: mutate_one_def known_def)

lemma mutate_eq:
  assumes "enumerates combinationOf" and "known n t" and "n \<le> 30" and "k \<le> n"
  shows "\<exists>ts. mutate combinationOf k t = Inr ts \<and> set ts = {flipped A t | A. A \<subseteq> {..<n} \<and> card A = k}"
proof -
  have n: "length t = n" using assms(2) by (simp add: known_def)
  obtain cs where cs: "tWayComb combinationOf k t = Inr cs" "set cs = (\<lambda>A. proj A t) ` {A. A \<subseteq> {..<n} \<and> card A = k}"
    using tWayComb_eq [OF assms(1), of t k] assms(3,4) n by auto
  have one: "mutate_one t c = Inr (flipped (supp c) t)" if c: "c \<in> set cs" for c
  proof -
    obtain A where A: "A \<subseteq> {..<n}" "c = proj A t" using c cs(2) by auto
    then show ?thesis using mutate_one_eq [OF assms(2) A(1)] supp_proj [OF assms(2) A(1)] by simp
  qed
  have "mutate combinationOf k t = Inr (map (\<lambda>c. flipped (supp c) t) cs)"
    using efold_collect [of cs "mutate_one t" "\<lambda>c. flipped (supp c) t" "\<lambda>c. [c]" "[]"] one cs(1)
    by (simp add: mutate_def comp_def)
  moreover have "set (map (\<lambda>c. flipped (supp c) t) cs) = {flipped A t | A. A \<subseteq> {..<n} \<and> card A = k}"
    using cs(2) supp_proj [OF assms(2)] by (auto simp: image_iff) metis
  ultimately show ?thesis by blast
qed

definition mutants :: "nat \<Rightarrow> comb list \<Rightarrow> nat set \<Rightarrow> comb set" where
  "mutants n tfails K = {flipped A t | A t. t \<in> set tfails \<and> A \<subseteq> {..<n} \<and> card A \<in> K}"

lemma known_mutants: "\<forall>t\<in>set tfails. known n t \<Longrightarrow> t \<in> mutants n tfails K \<Longrightarrow> known n t"
  using known_flipped by (auto simp: mutants_def)

lemma getAT_eq:
  assumes "enumerates combinationOf" and "\<forall>t\<in>set tfails. known n t" and "n \<le> 30" and "k \<le> n"
  shows "\<exists>ts. getAT combinationOf k tfails = Inr ts \<and> set ts = mutants n tfails {k}"
proof -
  have "\<forall>t\<in>set tfails. \<exists>ts. mutate combinationOf k t = Inr ts \<and> set ts = {flipped A t | A. A \<subseteq> {..<n} \<and> card A = k}"
    using mutate_eq [OF assms(1) _ assms(3,4)] assms(2) by simp
  then obtain g where g: "\<forall>t\<in>set tfails. mutate combinationOf k t = Inr (g t) \<and>
      set (g t) = {flipped A t | A. A \<subseteq> {..<n} \<and> card A = k}"
    by (rule bchoice [THEN exE])
  have "getAT combinationOf k tfails = Inr (concat (map g tfails))"
    using efold_collect [of tfails "mutate combinationOf k" g "\<lambda>x. x" "[]"] g by (simp add: getAT_def comp_def)
  moreover have "set (concat (map g tfails)) = mutants n tfails {k}" using g by (auto simp: mutants_def)
  ultimately show ?thesis by blast
qed

subsection \<open>The iteration\<close>

definition aifl_state :: "comb list \<Rightarrow> comb list \<Rightarrow> resolver \<Rightarrow> bool" where
  "aifl_state mfs tfails r \<longleftrightarrow> MFS (the_checker r) = mfs \<and> Tfail r = tfails \<and> MFC_identified r = {} \<and> conducted r"

definition survivors :: "comb list \<Rightarrow> comb set \<Rightarrow> comb set \<Rightarrow> comb set" where
  "survivors mfs T S = {c \<in> S. \<forall>t\<in>T. \<not> faulty mfs t \<longrightarrow> \<not> contains_loop t c}"

lemma survivors_Un: "survivors mfs T' (survivors mfs T S) = survivors mfs (T \<union> T') S"
  by (auto simp: survivors_def)

lemma sized_survivors: "sized n S \<Longrightarrow> sized n (survivors mfs T S)"
  by (erule sized_subset) (auto simp: survivors_def)

lemma try_testcase_eq:
  assumes "traverses iter" and "\<forall>mf\<in>set mfs. length mf = n" and "sized n S" and "length t = n" and "aifl_state mfs tfails r"
  shows "\<exists>r'. try_testcase iter t (S, r) = Inr (survivors mfs {t} S, r') \<and> aifl_state mfs tfails r'"
proof -
  have "check_loop t mfs = Inr (\<not> faulty mfs t)" using check_loop_eq [of mfs t] assms(2,4) by (simp add: faulty_def)
  then show ?thesis
    using assms(5) remove_contained [OF assms(1,3,4)]
    by (auto simp: try_testcase_def check_def aifl_state_def survivors_def Let_def)
qed

lemma try_all_eq:
  assumes "traverses iter" and "\<forall>mf\<in>set mfs. length mf = n"
  shows "sized n S \<Longrightarrow> \<forall>t\<in>set ts. length t = n \<Longrightarrow> aifl_state mfs tfails r \<Longrightarrow>
    \<exists>r'. efold (try_testcase iter) ts (S, r) = Inr (survivors mfs (set ts) S, r') \<and> aifl_state mfs tfails r'"
proof (induction ts arbitrary: S r)
  case Nil
  then show ?case by (auto simp: survivors_def)
next
  case (Cons t ts)
  obtain r1 where r1: "try_testcase iter t (S, r) = Inr (survivors mfs {t} S, r1)" "aifl_state mfs tfails r1"
    using try_testcase_eq [OF assms Cons.prems(1) _ Cons.prems(3), of t] Cons.prems(2) by auto
  then show ?case
    using Cons.IH [of "survivors mfs {t} S" r1] Cons.prems sized_survivors [OF Cons.prems(1)] by (simp add: survivors_Un)
qed

lemma iterate_eq:
  assumes iter: "traverses iter" and enum: "enumerates combinationOf" and mfs: "\<forall>mf\<in>set mfs. length mf = n"
    and tf: "\<forall>t\<in>set tfails. known n t" and n: "n \<le> 30" and f: "f \<in> set mfs"
  shows "sized n S \<Longrightarrow> f \<in> S \<Longrightarrow> set ks \<subseteq> {..n} \<Longrightarrow> aifl_state mfs tfails r \<Longrightarrow>
    \<exists>r'. efold (iterate_strength combinationOf iter) ks (S, r) = Inr (survivors mfs (mutants n tfails (set ks)) S, r') \<and>
      aifl_state mfs tfails r'"
proof (induction ks arbitrary: S r)
  case Nil
  then show ?case by (auto simp: survivors_def mutants_def)
next
  case (Cons k ks)
  obtain ts where ts: "getAT combinationOf k tfails = Inr ts" "set ts = mutants n tfails {k}"
    using getAT_eq [OF enum tf n, of k] Cons.prems(3) by auto
  have "\<forall>t\<in>set ts. length t = n" using known_mutants [OF tf] ts(2) by (auto simp: known_def)
  then obtain r1 where r1: "efold (try_testcase iter) ts (S, r) = Inr (survivors mfs (set ts) S, r1)" "aifl_state mfs tfails r1"
    using try_all_eq [OF iter mfs Cons.prems(1) _ Cons.prems(4)] by blast
  have fs: "f \<in> survivors mfs (set ts) S" using f Cons.prems(2) by (auto simp: survivors_def faulty_def)
  then have "iterate_strength combinationOf iter k (S, r) = Inr (survivors mfs (set ts) S, r1)"
    using ts(1) r1(1) Cons.prems(4) by (auto simp: iterate_strength_def aifl_state_def)
  moreover have "mutants n tfails {k} \<union> mutants n tfails (set ks) = mutants n tfails (set (k # ks))"
    by (auto simp: mutants_def)
  ultimately show ?case
    using Cons.IH [OF sized_survivors [OF Cons.prems(1)] fs _ r1(2)] Cons.prems(3) ts(2) by (simp add: survivors_Un)
qed

subsection \<open>Minimal combinations\<close>

definition minimal_in :: "comb set \<Rightarrow> comb set" where
  "minimal_in S = {c \<in> S. \<forall>d\<in>S. contains_loop c d \<longrightarrow> d = c}"

lemma minimal_below:
  assumes S: "sized n S" and d: "d \<in> S"
  shows "\<exists>m\<in>minimal_in S. contains_loop d m"
proof -
  obtain m where m: "m \<in> S" "contains_loop d m"
    and least: "\<And>y. y \<in> S \<Longrightarrow> contains_loop d y \<Longrightarrow> card (supp m) \<le> card (supp y)"
    using ex_has_least_nat [of "\<lambda>x. x \<in> S \<and> contains_loop d x" d "\<lambda>x. card (supp x)"] d by auto
  have "y = m" if y: "y \<in> S" "contains_loop m y" for y
  proof -
    have len: "length m = length y" "length d = length m" using S d m(1) y(1) by (auto simp: sized_def)
    have eq: "m ! i = y ! i" if "i \<in> supp y" for i using y(2) that len by (simp add: contains_supp)
    then have "supp y \<subseteq> supp m" using len by (auto simp: supp_def)
    moreover have "card (supp m) \<le> card (supp y)"
      using least [OF y(1)] contains_loop_trans [OF m(2) y(2)] len by simp
    moreover have "finite (supp m)" by (simp add: supp_def)
    ultimately have "supp y = supp m" by (simp add: card_seteq)
    then have "contains_loop y m" using eq len contains_supp [of y m] by simp
    then show ?thesis using contains_loop_antisym y(2) len by simp
  qed
  then show ?thesis using m by (auto simp: minimal_in_def)
qed

lemma getMinimal_loop:
  assumes iter: "traverses iter" and S: "sized n S"
  shows "minimal_in S \<subseteq> T \<Longrightarrow> T \<subseteq> S \<Longrightarrow> \<forall>x\<in>T \<inter> D. \<forall>y\<in>T. contains_loop y x \<longrightarrow> y = x \<Longrightarrow> set xs \<subseteq> S \<Longrightarrow>
    \<exists>T'. efold (minimal_step iter) xs T = Inr T' \<and> minimal_in S \<subseteq> T' \<and> T' \<subseteq> T \<and>
      (\<forall>x\<in>T' \<inter> (D \<union> set xs). \<forall>y\<in>T'. contains_loop y x \<longrightarrow> y = x)"
proof (induction xs arbitrary: T D)
  case (Cons x xs)
  let ?T = "if x \<in> T then {c \<in> T. \<not> (contains_loop c x \<and> c \<noteq> x)} else T"
  have rem: "minimal_step iter x T = Inr ?T"
    using remove_supersets [OF iter sized_subset [OF S Cons.prems(2)], of x] S Cons.prems(4)
    by (simp add: minimal_step_def sized_def)
  have "minimal_in S \<subseteq> ?T" using Cons.prems(1,4) by (auto simp: minimal_in_def)
  moreover have "?T \<subseteq> S" using Cons.prems(2) by auto
  moreover have "\<forall>z\<in>?T \<inter> insert x D. \<forall>y\<in>?T. contains_loop y z \<longrightarrow> y = z" using Cons.prems(3) by (auto split: if_splits)
  moreover have "set xs \<subseteq> S" using Cons.prems(4) by simp
  ultimately obtain T' where T': "efold (minimal_step iter) xs ?T = Inr T'" "minimal_in S \<subseteq> T'" "T' \<subseteq> ?T"
    "\<forall>z\<in>T' \<inter> (insert x D \<union> set xs). \<forall>y\<in>T'. contains_loop y z \<longrightarrow> y = z"
    by (rule Cons.IH [THEN exE]) (elim conjE)
  have "?T \<subseteq> T" by auto
  then have "T' \<subseteq> T" using T'(3) by (rule order_trans [rotated])
  moreover have "D \<union> set (x # xs) = insert x D \<union> set xs" by auto
  moreover have "efold (minimal_step iter) (x # xs) T = Inr T'" using rem T'(1) by simp
  ultimately show ?case using T'(2,4) by (intro exI [of _ T']) simp
qed auto

lemma getMinimal_eq:
  assumes iter: "traverses iter" and S: "sized n S"
  shows "getMinimal iter S = Inr (minimal_in S)"
proof -
  have list: "set (iter S) = S" using iter S by (simp add: traverses_def sized_def)
  obtain T where T: "getMinimal iter S = Inr T" "minimal_in S \<subseteq> T" "T \<subseteq> S" "\<forall>x\<in>T \<inter> S. \<forall>y\<in>T. contains_loop y x \<longrightarrow> y = x"
    using getMinimal_loop [OF assms, of S "{}" "iter S"] list by (auto simp: getMinimal_def minimal_in_def)
  have "c \<in> minimal_in S" if c: "c \<in> T" for c
  proof -
    obtain m where m: "m \<in> minimal_in S" "contains_loop c m" using minimal_below [OF S] c T(3) by blast
    then have "m \<in> T" "m \<in> S" using T(2) by (auto simp: minimal_in_def)
    then have "c = m" using T(4) c m(2) by blast
    then show ?thesis using m(1) by simp
  qed
  then have "T = minimal_in S" using T(2) by blast
  then show ?thesis using T(1) by simp
qed

subsection \<open>The report\<close>

definition faults_ok :: "nat \<Rightarrow> comb list \<Rightarrow> bool" where
  "faults_ok n mfs \<longleftrightarrow> (\<forall>mf\<in>set mfs. length mf = n \<and> supp mf \<noteq> {}) \<and> (\<forall>a\<in>set mfs. \<forall>b\<in>set mfs. contains_loop a b \<longrightarrow> a = b)"

definition failing :: "nat \<Rightarrow> comb list \<Rightarrow> comb \<Rightarrow> bool" where
  "failing n mfs t \<longleftrightarrow> known n t \<and> faulty mfs t"

definition suspicious :: "nat \<Rightarrow> comb list \<Rightarrow> comb list \<Rightarrow> comb list \<Rightarrow> comb set" where
  "suspicious n mfs tpass tfails = survivors mfs (mutants n tfails {1..<n}) (candidates tpass tfails)"

lemma fault_suspicious:
  assumes mfs: "faults_ok n mfs" and tf: "\<forall>t\<in>set tfails. known n t" and tp: "\<forall>t\<in>set tpass. passing n mfs t"
    and mf: "mf \<in> set mfs" "t \<in> set tfails" "contains_loop t mf"
  shows "mf \<in> suspicious n mfs tpass tfails"
proof -
  have "mf \<in> subcombs t" using mfs tf mf by (auto simp: subcombs_def faults_ok_def known_def)
  then show ?thesis
    using tp mf by (auto simp: suspicious_def survivors_def candidates_def passing_def faulty_def)
qed

text \<open>Where every fault lies in every failing test case, flipping removes faults and never adds one.\<close>

lemma suspicious_faulty:
  assumes mfs: "faults_ok n mfs" and tf: "\<forall>t\<in>set tfails. known n t"
    and all: "\<forall>mf\<in>set mfs. \<forall>t\<in>set tfails. contains_loop t mf" and c: "c \<in> suspicious n mfs tpass tfails"
    and failing: "\<forall>t\<in>set tfails. faulty mfs t"
  shows "faulty mfs c"
proof (rule ccontr)
  assume nf: "\<not> faulty mfs c"
  obtain t where t: "t \<in> set tfails" "length c = length t" "supp c \<noteq> {}" "contains_loop t c"
    using c by (auto simp: suspicious_def survivors_def candidates_def subcombs_def)
  have len: "length t = n" "length c = n" using tf t by (auto simp: known_def)
  let ?A = "{..<n} - supp c" and ?u = "flipped ({..<n} - supp c) t"
  have sub: "supp c \<subseteq> {..<n}" using len by (auto simp: supp_def)
  have "contains_loop ?u mf \<Longrightarrow> contains_loop c mf" if mf: "mf \<in> set mfs" for mf
  proof -
    assume u: "contains_loop ?u mf"
    have lm: "length mf = n" and tm: "\<forall>i\<in>supp mf. t ! i = mf ! i"
      using mfs mf all t(1) len contains_supp [of t mf] by (auto simp: faults_ok_def)
    have "c ! i = mf ! i" if i: "i \<in> supp mf" for i
    proof -
      have ui: "?u ! i = mf ! i" and ti: "t ! i = mf ! i" "i < n"
        using u i lm len tm contains_supp [of ?u mf] by (auto simp: supp_def)
      have "i \<in> supp c"
      proof (rule ccontr)
        assume "i \<notin> supp c"
        then have "1 - t ! i = t ! i" using ui ti len by simp
        then show False by presburger
      qed
      then show ?thesis using t(4) ti len contains_supp [of t c] by simp
    qed
    then show "contains_loop c mf" using lm len by (simp add: contains_supp)
  qed
  then have "\<not> faulty mfs ?u" using nf by (auto simp: faulty_def)
  moreover have "contains_loop ?u c" using t(4) len contains_supp [of t c] contains_supp [of ?u c] by (auto simp: supp_def)
  moreover have "card ?A \<in> {1..<n}"
  proof -
    have "supp c \<noteq> {..<n}"
    proof
      assume "supp c = {..<n}"
      then have "t = c" using t(4) len contains_supp [of t c] by (intro nth_equalityI) auto
      then show False using failing t(1) nf by simp
    qed
    then have "card (supp c) < n" using sub psubset_card_mono [of "{..<n}" "supp c"] by auto
    moreover have "0 < card (supp c)" using t(3) finite_subset [OF sub] by (simp add: card_gt_0_iff)
    moreover have "card ?A = n - card (supp c)" using sub finite_subset [OF sub] by (simp add: card_Diff_subset)
    ultimately show ?thesis by simp
  qed
  then have "?u \<in> mutants n tfails {1..<n}" using t(1) unfolding mutants_def by blast
  ultimately show False using c unfolding suspicious_def survivors_def by blast
qed

lemma iteraifl_spec:
  assumes mfs: "faults_ok n (MFS ck)" and n: "n \<le> 30" and iter: "traverses iter" and enum: "enumerates combinationOf"
    and tf: "\<forall>t\<in>set tfails. failing n (MFS ck) t" and tp: "\<forall>t\<in>set tpass. passing n (MFS ck) t"
    and r: "resolver_new ck tpass tfails = Inr r"
  shows "\<exists>r'. iteraifl_conduct combinationOf iter r = Inr r' \<and> conducted r' \<and>
    MFC_identified r' = minimal_in (suspicious n (MFS ck) tpass tfails)"
proof -
  let ?S = "candidates tpass tfails" and ?r = "r\<lparr>conducted := True\<rparr>"
  have known: "\<forall>t\<in>set tfails. known n t" using tf by (simp add: failing_def)
  have st: "aifl_state (MFS ck) tfails ?r" and rr: "Tfail r = tfails" "Tpass r = tpass" "\<not> conducted r"
    using r by (auto simp: resolver_new_def aifl_state_def split: if_splits)
  obtain t ts where tts: "tfails = t # ts" using r by (cases tfails) (auto simp: resolver_new_def)
  obtain f where f: "f \<in> set (MFS ck)" "contains_loop t f" using tf tts by (auto simp: failing_def faulty_def)
  have len: "length t = n" using known tts by (simp add: known_def)
  have cand: "ebind (all_combs combinationOf tfails) (remove_passed iter tpass) = Inr ?S"
    by (rule candidates_eq [OF enum iter known _ n]) (use tp in \<open>simp add: passing_def\<close>)
  have sz: "sized n ?S" by (rule sized_candidates(1) [OF known])
  have lens: "\<forall>mf\<in>set (MFS ck). length mf = n" using mfs by (simp add: faults_ok_def)
  have strengths: "set [1..<n] \<subseteq> {..n}" by auto
  have "f \<in> ?S"
    using fault_suspicious [OF mfs known tp f(1) _ f(2)] tts by (simp add: suspicious_def survivors_def)
  then obtain r' where it: "efold (iterate_strength combinationOf iter) [1..<n] (?S, ?r) =
      Inr (suspicious n (MFS ck) tpass tfails, r')" "aifl_state (MFS ck) tfails r'"
    using iterate_eq [OF iter enum lens known n f(1) sz _ strengths st] by (auto simp: suspicious_def)
  have "getMinimal iter (suspicious n (MFS ck) tpass tfails) = Inr (minimal_in (suspicious n (MFS ck) tpass tfails))"
    by (rule getMinimal_eq [OF iter]) (unfold suspicious_def, rule sized_survivors [OF sz])
  then show ?thesis
    using rr cand it tts len by (simp add: iteraifl_conduct_def ebind_assoc [symmetric] aifl_state_def)
qed

lemma iteraifl_exact:
  assumes mfs: "faults_ok n mfs" and tf: "\<forall>t\<in>set tfails. failing n mfs t" and tp: "\<forall>t\<in>set tpass. passing n mfs t"
    and all: "\<forall>mf\<in>set mfs. \<forall>t\<in>set tfails. contains_loop t mf" and ne: "tfails \<noteq> []"
  shows "minimal_in (suspicious n mfs tpass tfails) = set mfs"
proof -
  have known: "\<forall>t\<in>set tfails. known n t" and fl: "\<forall>t\<in>set tfails. faulty mfs t" using tf by (auto simp: failing_def)
  have "hd tfails \<in> set tfails" using ne by simp
  then have mem: "mf \<in> suspicious n mfs tpass tfails" if "mf \<in> set mfs" for mf
    using fault_suspicious [OF mfs known tp that] all that by blast
  have fty: "faulty mfs c" if "c \<in> suspicious n mfs tpass tfails" for c
    by (rule suspicious_faulty [OF mfs known all that fl])
  have len: "length c = n" if "c \<in> suspicious n mfs tpass tfails" for c
    using that known by (auto simp: suspicious_def survivors_def candidates_def subcombs_def known_def)
  show ?thesis
  proof (intro set_eqI iffI)
    fix c
    assume c: "c \<in> minimal_in (suspicious n mfs tpass tfails)"
    then have "faulty mfs c" by (intro fty) (simp add: minimal_in_def)
    then obtain mf where "mf \<in> set mfs" "contains_loop c mf" by (auto simp: faulty_def)
    then show "c \<in> set mfs" using c mem by (auto simp: minimal_in_def)
  next
    fix c
    assume c: "c \<in> set mfs"
    have "d = c" if d: "d \<in> suspicious n mfs tpass tfails" "contains_loop c d" for d
    proof -
      obtain mf where mf: "mf \<in> set mfs" "contains_loop d mf" using fty [OF d(1)] by (auto simp: faulty_def)
      have "length c = n" "length mf = n" using c mf(1) mfs by (auto simp: faults_ok_def)
      then have "c = mf" using contains_loop_trans [OF d(2) mf(2)] len [OF d(1)] c mf(1) mfs by (auto simp: faults_ok_def)
      then show ?thesis using contains_loop_antisym [of d c] d(2) mf(2) len [OF d(1)] \<open>length c = n\<close> by simp
    qed
    then show "c \<in> minimal_in (suspicious n mfs tpass tfails)" using mem [OF c] by (auto simp: minimal_in_def)
  qed
qed

text \<open>C7. For at most 30 parameters IterAIFL never raises and reports the minimal ones among the combinations that occur in a failing test case
  but in no passing one, where the test cases that arise from a failing one by flipping some but not all
  parameters are counted too. So no fault of a failing test case escapes: a part of it is reported. If every
  fault lies in every failing test case, the report consists of exactly the faults.\<close>

theorem iteraifl_reports_minimal:
  assumes "faults_ok n (MFS ck)" and "n \<le> 30" and "traverses iter" and "enumerates combinationOf"
    and "\<forall>t\<in>set tfails. failing n (MFS ck) t" and "\<forall>t\<in>set tpass. passing n (MFS ck) t"
    and "resolver_new ck tpass tfails = Inr r"
  shows "\<exists>r'. iteraifl_conduct combinationOf iter r = Inr r' \<and> conducted r' \<and>
    MFC_identified r' = minimal_in (suspicious n (MFS ck) tpass tfails) \<and>
    (\<forall>mf\<in>set (MFS ck). \<forall>t\<in>set tfails. contains_loop t mf \<longrightarrow> (\<exists>c\<in>MFC_identified r'. contains_loop mf c)) \<and>
    ((\<forall>mf\<in>set (MFS ck). \<forall>t\<in>set tfails. contains_loop t mf) \<longrightarrow> MFC_identified r' = set (MFS ck))"
proof -
  obtain r' where r': "iteraifl_conduct combinationOf iter r = Inr r'" "conducted r'"
    "MFC_identified r' = minimal_in (suspicious n (MFS ck) tpass tfails)"
    using iteraifl_spec [OF assms] by blast
  have known: "\<forall>t\<in>set tfails. known n t" using assms(5) by (simp add: failing_def)
  have "sized n (suspicious n (MFS ck) tpass tfails)"
    unfolding suspicious_def by (rule sized_survivors [OF sized_candidates(1) [OF known]])
  then have "\<exists>c\<in>MFC_identified r'. contains_loop mf c"
    if "mf \<in> set (MFS ck)" "t \<in> set tfails" "contains_loop t mf" for mf t
    using minimal_below fault_suspicious [OF assms(1) known assms(6) that] r'(3) by simp
  moreover have "tfails \<noteq> []" using assms(7) by (auto simp: resolver_new_def split: if_splits)
  then have "(\<forall>mf\<in>set (MFS ck). \<forall>t\<in>set tfails. contains_loop t mf) \<longrightarrow> MFC_identified r' = set (MFS ck)"
    using iteraifl_exact [OF assms(1,5,6)] r'(3) by simp
  ultimately show ?thesis using r' by blast
qed

theorem iteraifl_reports_minimal_witness:
  "\<exists>r'. iteraifl_conduct combinations sorted_list_of_set ((demo_resolver [[1, 1, 0]] False)\<lparr>safeValues := None\<rparr>) = Inr r' \<and>
    MFC_identified r' = {[1, -1, 0], [-1, 1, -1]}"
proof -
  let ?ck = "checker_new demo_mfs" and ?r = "(demo_resolver [[1, 1, 0]] False)\<lparr>safeValues := None\<rparr>"
  have ok: "faults_ok 3 (MFS ?ck)"
    by (simp add: faults_ok_def demo_defs demo_supp UNKNOWN_def)
  have tf: "\<forall>t\<in>set [[1, 1, 0]]. failing 3 (MFS ?ck) t"
    by (simp add: failing_def known_def faulty_def demo_defs UNKNOWN_def)
  have r: "resolver_new ?ck [] [[1, 1, 0]] = Inr ?r" by (simp add: resolver_new_def demo_resolver_def)
  have "\<forall>mf\<in>set (MFS ?ck). \<forall>t\<in>set [[1, 1, 0]]. contains_loop t mf" by (simp add: demo_defs UNKNOWN_def)
  then obtain r' where "iteraifl_conduct combinations sorted_list_of_set ?r = Inr r'" "MFC_identified r' = set (MFS ?ck)"
    using iteraifl_reports_minimal [OF ok _ traverses_sorted enumerates_combinations tf _ r] by auto
  then show ?thesis by (auto simp: demo_defs)
qed

end
