(* ===== verification/NP_TRT.thy ===== *)
theory NP_TRT
  imports NP_Conduct
begin

text \<open>
  The relation tree of all schemas (\<open>NoPend/TRT.java\<close>) and the resolver that works on it
  (\<open>NoPend/TRTFaultResolver.java\<close>). A TRT holds three bit sets indexed by schemas: the healthy ones, the faulty ones
  and the marks of the traversals. The recursive methods share one mutable schema, in which they change one
  position before a recursive call and restore it afterwards; \<open>schema_set\<close> returns the changed copy. Their loops
  over the parameters are the functions \<open>..._for\<close>.
\<close>

record trt =
  num_parameter :: nat
  trt_size :: nat
  trt_healthy :: "nat set"
  trt_faulty :: "nat set"
  flag :: "nat set"

text \<open>The second check of the constructor (the size is a power of two) never fails after the first.\<close>

definition trt_new :: "nat \<Rightarrow> trt res" where
  "trt_new n =
     (if (2 :: int) ^ n > 2147483647
      then Inl (UnsupportedOperationException ''BitSet getLogicSize exceeds maximum supported getLogicSize'')
      else Inr \<lparr>num_parameter = n, trt_size = 2 ^ n, trt_healthy = {0}, trt_faulty = {2 ^ n - 1}, flag = {}\<rparr>)"

definition schema2int :: "schema \<Rightarrow> nat" where
  "schema2int s = fold (\<lambda>i res. res + (if schema_get s i then 2 ^ i else 0)) [0..<logic_size s] 0"

definition clear_flag :: "nat \<Rightarrow> trt \<Rightarrow> trt" where
  "clear_flag upto_index T = T\<lparr>flag := {k \<in> flag T. upto_index \<le> k}\<rparr>"

definition size_error :: jexc where
  "size_error = IllegalArgumentException ''Schema getLogicSize does not match TRT getLogicSize''"

function setHealthy :: "schema \<Rightarrow> trt \<Rightarrow> trt res" and setHealthy_for :: "nat \<Rightarrow> schema \<Rightarrow> trt \<Rightarrow> trt res" where
  "setHealthy s T =
     (if logic_size s \<noteq> num_parameter T then Inl size_error
      else if schema2int s \<in> trt_healthy T then Inr T
      else setHealthy_for 0 s (T\<lparr>trt_healthy := insert (schema2int s) (trt_healthy T)\<rparr>))"
| "setHealthy_for i s T =
     (if i < logic_size s
      then if schema_get s i then ebind (setHealthy (schema_set i False s) T) (setHealthy_for (i + 1) s)
           else setHealthy_for (i + 1) s T
      else Inr T)"
  by pat_completeness auto

function setFaulty :: "schema \<Rightarrow> trt \<Rightarrow> trt res" and setFaulty_for :: "nat \<Rightarrow> schema \<Rightarrow> trt \<Rightarrow> trt res" where
  "setFaulty s T =
     (if logic_size s \<noteq> num_parameter T then Inl size_error
      else if schema2int s \<in> trt_faulty T then Inr T
      else setFaulty_for 0 s (T\<lparr>trt_faulty := insert (schema2int s) (trt_faulty T)\<rparr>))"
| "setFaulty_for i s T =
     (if i < logic_size s
      then if \<not> schema_get s i then ebind (setFaulty (schema_set i True s) T) (setFaulty_for (i + 1) s)
           else setFaulty_for (i + 1) s T
      else Inr T)"
  by pat_completeness auto

function getTop_rec :: "schema \<Rightarrow> trt \<times> mss \<Rightarrow> (trt \<times> mss) res"
and getTop_for :: "nat \<Rightarrow> schema \<Rightarrow> trt \<times> mss \<Rightarrow> (trt \<times> mss) res" where
  "getTop_rec s (T, m) =
     (if schema2int s \<in> flag T then Inr (T, m)
      else let T = T\<lparr>flag := insert (schema2int s) (flag T)\<rparr>
           in if schema2int s \<in> trt_healthy T then Inr (T, m)
              else if schema2int s \<notin> trt_faulty T then ebind (mss_insert (schema_copy s) m) (\<lambda>m. Inr (T, m))
              else getTop_for 0 s (T, m))"
| "getTop_for i s st =
     (if i < logic_size s
      then if schema_get s i then ebind (getTop_rec (schema_set i False s) st) (getTop_for (i + 1) s)
           else getTop_for (i + 1) s st
      else Inr st)"
  by pat_completeness auto

function getBottom_rec :: "schema \<Rightarrow> trt \<times> mss \<Rightarrow> (trt \<times> mss) res"
and getBottom_for :: "nat \<Rightarrow> schema \<Rightarrow> trt \<times> mss \<Rightarrow> (trt \<times> mss) res" where
  "getBottom_rec s (T, m) =
     (if schema2int s \<in> flag T then Inr (T, m)
      else let T = T\<lparr>flag := insert (schema2int s) (flag T)\<rparr>
           in if schema2int s \<in> trt_faulty T then Inr (T, m)
              else if schema2int s \<notin> trt_healthy T then ebind (mss_insert (schema_copy s) m) (\<lambda>m. Inr (T, m))
              else getBottom_for 0 s (T, m))"
| "getBottom_for i s st =
     (if i < logic_size s
      then if \<not> schema_get s i then ebind (getBottom_rec (schema_set i True s) st) (getBottom_for (i + 1) s)
           else getBottom_for (i + 1) s st
      else Inr st)"
  by pat_completeness auto

function getMFS_rec :: "schema \<Rightarrow> trt \<times> mss \<Rightarrow> (trt \<times> mss) res"
and getMFS_for :: "nat \<Rightarrow> schema \<Rightarrow> trt \<times> mss \<Rightarrow> (trt \<times> mss) res" where
  "getMFS_rec s (T, m) =
     (if schema2int s \<in> flag T then Inr (T, m)
      else let T = T\<lparr>flag := insert (schema2int s) (flag T)\<rparr>
           in if schema2int s \<in> trt_faulty T then ebind (mss_insert (schema_copy s) m) (\<lambda>m. Inr (T, m))
              else getMFS_for 0 s (T, m))"
| "getMFS_for i s st =
     (if i < logic_size s
      then if \<not> schema_get s i then ebind (getMFS_rec (schema_set i True s) st) (getMFS_for (i + 1) s)
           else getMFS_for (i + 1) s st
      else Inr st)"
  by pat_completeness auto

text \<open>Every recursive call has one parameter less, or one more, below the logical size.\<close>

definition inside :: "schema \<Rightarrow> nat" where
  "inside s = card (bitset s \<inter> {..<logic_size s})"

definition outside :: "schema \<Rightarrow> nat" where
  "outside s = card ({..<logic_size s} - bitset s)"

lemma inside_less: "i < logic_size s \<Longrightarrow> schema_get s i \<Longrightarrow> inside (schema_set i False s) < inside s"
  unfolding inside_def by (rule psubset_card_mono) (auto simp: schema_set_def schema_get_def)

lemma outside_less: "i < logic_size s \<Longrightarrow> \<not> schema_get s i \<Longrightarrow> outside (schema_set i True s) < outside s"
  unfolding outside_def by (rule psubset_card_mono) (auto simp: schema_set_def schema_get_def)

lemma logic_size_set [simp]: "logic_size (schema_set i b s) = logic_size s"
  by (simp add: schema_set_def)

termination setHealthy
  by (relation "measures [case_sum (\<lambda>(s, T). inside s) (\<lambda>(i, s, T). inside s),
        case_sum (\<lambda>(s, T). logic_size s + 1) (\<lambda>(i, s, T). logic_size s - i)]") (auto simp: inside_less)

termination setFaulty
  by (relation "measures [case_sum (\<lambda>(s, T). outside s) (\<lambda>(i, s, T). outside s),
        case_sum (\<lambda>(s, T). logic_size s + 1) (\<lambda>(i, s, T). logic_size s - i)]") (auto simp: outside_less)

termination getTop_rec
  by (relation "measures [case_sum (\<lambda>(s, T, m). inside s) (\<lambda>(i, s, st). inside s),
        case_sum (\<lambda>(s, T, m). logic_size s + 1) (\<lambda>(i, s, st). logic_size s - i)]") (auto simp: inside_less)

termination getBottom_rec
  by (relation "measures [case_sum (\<lambda>(s, T, m). outside s) (\<lambda>(i, s, st). outside s),
        case_sum (\<lambda>(s, T, m). logic_size s + 1) (\<lambda>(i, s, st). logic_size s - i)]") (auto simp: outside_less)

termination getMFS_rec
  by (relation "measures [case_sum (\<lambda>(s, T, m). outside s) (\<lambda>(i, s, st). outside s),
        case_sum (\<lambda>(s, T, m). logic_size s + 1) (\<lambda>(i, s, st). logic_size s - i)]") (auto simp: outside_less)

lemmas trt_recursions [simp del] = setHealthy.simps setHealthy_for.simps setFaulty.simps setFaulty_for.simps
  getTop_rec.simps getTop_for.simps getBottom_rec.simps getBottom_for.simps getMFS_rec.simps getMFS_for.simps

subsection \<open>The borders\<close>

text \<open>
  \<open>flag.size()\<close> is the number of bits of the allocated words. \<open>getTopSchemas\<close> clears all of them, the other two all
  but the last.
\<close>

definition getTopSchemas :: "trt \<Rightarrow> (trt \<times> mss) res" where
  "getTopSchemas T =
     getTop_rec (schema_flag (num_parameter T) True) (clear_flag (bitset_capacity (trt_size T)) T, mss_new False)"

definition getBottomSchemas :: "trt \<Rightarrow> (trt \<times> mss) res" where
  "getBottomSchemas T =
     getBottom_rec (schema_flag (num_parameter T) False) (clear_flag (bitset_capacity (trt_size T) - 1) T, mss_new True)"

definition getMFS :: "trt \<Rightarrow> (trt \<times> mss) res" where
  "getMFS T =
     getMFS_rec (schema_flag (num_parameter T) False) (clear_flag (bitset_capacity (trt_size T) - 1) T, mss_new True)"

subsection \<open>TRTFaultResolver\<close>

definition trt_resolver_new :: "checker \<Rightarrow> comb list \<Rightarrow> comb list \<Rightarrow> resolver res" where
  "trt_resolver_new ck tpass tfail =
     ebind (resolver_new ck tpass tfail) (\<lambda>r.
       if (2 :: int) ^ length (hd tfail) > 2147483647
       then Inl (UnsupportedOperationException ''BitSet getLogicSize exceeds maximum supported getLogicSize'')
       else Inr r)"

text \<open>The chain of this resolver adds the positions from the first parameter to the last.\<close>

definition build_chain_up :: "schema \<Rightarrow> schema \<Rightarrow> schema list" where
  "build_chain_up maxS minS =
     snd (fold (\<lambda>i (now, chain).
            if \<not> schema_get minS i \<and> schema_get maxS i
            then (schema_set i True now, chain @ [schema_copy (schema_set i True now)])
            else (now, chain))
          [0..<logic_size maxS] (minS, [minS]))"

definition trt_binarySearch :: "schema \<Rightarrow> schema \<Rightarrow> comb \<Rightarrow> resolver \<Rightarrow> (schema option \<times> resolver) res" where
  "trt_binarySearch maxS minS tfail r =
     (if logic_size maxS \<noteq> logic_size minS then Inl (RuntimeException ''Schema sizes mismatch'')
      else ebind (isSupersetOf maxS minS) (\<lambda>sup.
        if \<not> sup then Inl (IllegalArgumentException ''max is not a superset of min'')
        else ebind (check_schema maxS tfail r) (\<lambda>(healthy, r').
          if healthy then Inr (None, r')
          else let chain = build_chain_up maxS minS
               in ebind (search_loop chain tfail 0 (int (length chain) - 1) (-1) r')
                    (\<lambda>(result, r''). Inr (if result = -1 then None else Some (chain ! nat result), r'')))))"

text \<open>One turn of the loop; the flag tells whether there was a pending schema.\<close>

definition trt_step :: "comb \<Rightarrow> trt \<Rightarrow> resolver \<Rightarrow> (bool \<times> trt \<times> resolver) res" where
  "trt_step tfail T r =
     ebind (getTopSchemas T) (\<lambda>(T, topSchemas).
       if schemas topSchemas = [] then Inr (False, T, r)
       else ebind (getBottomSchemas T) (\<lambda>(T, bottomSchemas).
         if schemas bottomSchemas = [] then Inl (RuntimeException ''Bottom schemas should not be empty'')
         else ebind (getLongestChain topSchemas bottomSchemas) (\<lambda>longestChain.
           case longestChain of
             None \<Rightarrow> Inl (RuntimeException ''Longest chain should not be empty'')
           | Some (maxS, minS) \<Rightarrow>
               ebind (trt_binarySearch maxS minS tfail r) (\<lambda>(minfault, r).
                 ebind (case minfault of None \<Rightarrow> setHealthy maxS T | Some f \<Rightarrow> setFaulty f T) (\<lambda>T.
                   Inr (True, T, r))))))"

partial_function (option) trt_loop :: "comb \<Rightarrow> trt \<Rightarrow> resolver \<Rightarrow> (trt \<times> resolver) res option" where
  "trt_loop tfail T r =
     (case trt_step tfail T r of
        Inl e \<Rightarrow> Some (Inl e)
      | Inr (pend, T', r') \<Rightarrow> if pend then trt_loop tfail T' r' else Some (Inr (T', r')))"

definition trt_conduct_one :: "comb \<Rightarrow> resolver \<Rightarrow> resolver res option" where
  "trt_conduct_one tfail r =
     (case trt_new (length tfail) of
        Inl e \<Rightarrow> Some (Inl e)
      | Inr T \<Rightarrow>
          Option.bind (trt_loop tfail T r) (\<lambda>result. Some
            (ebind result (\<lambda>(T, r). ebind (getMFS T) (\<lambda>(T, mfs). record_MFCs mfs tfail r)))))"

fun trt_conduct_loop :: "comb list \<Rightarrow> resolver \<Rightarrow> resolver res option" where
  "trt_conduct_loop [] r = Some (Inr r)"
| "trt_conduct_loop (tfail # rest) r =
     Option.bind (trt_conduct_one tfail r) (\<lambda>result. case result of
       Inl e \<Rightarrow> Some (Inl e)
     | Inr r' \<Rightarrow> trt_conduct_loop rest r')"

definition trt_conduct :: "resolver \<Rightarrow> resolver res option" where
  "trt_conduct r =
     (if conducted r then Some (Inr r)
      else (let r' = r\<lparr>conducted := True\<rparr>
            in if safeValues r = None then Some (Inl (RuntimeException ''Safe values not set''))
               else trt_conduct_loop (Tfail r') r'))"

end
