(* ===== verification/NP_Search.thy ===== *)
theory NP_Search
  imports NP_TRT "HOL-Library.Countable"
begin

text \<open>
  The traversals of the relation tree. All five recursive methods of a TRT have the same form: leave at a marked
  schema, mark it, and either stop or visit the schemas with one parameter less (or more). The locale
  \<open>lattice_search\<close> states this form; what such a search marks and what it reports is proved there once, and the
  interpretations on the five methods follow.
\<close>

subsection \<open>A search that marks\<close>

inductive reaches :: "(nat \<Rightarrow> nat set \<Rightarrow> nat set option) \<Rightarrow> (nat set \<Rightarrow> bool) \<Rightarrow> nat \<Rightarrow> nat set \<Rightarrow> nat set \<Rightarrow> bool"
  for kid expand n where
  reaches_refl: "reaches kid expand n A A"
| reaches_step: "expand A \<Longrightarrow> i < n \<Longrightarrow> kid i A = Some C \<Longrightarrow> reaches kid expand n C B \<Longrightarrow> reaches kid expand n A B"

lemma reaches_trans: "reaches kid expand n A B \<Longrightarrow> reaches kid expand n B C \<Longrightarrow> reaches kid expand n A C"
  by (induction rule: reaches.induct) (auto intro: reaches.intros)

lemma reaches_unfold:
  "{B. reaches kid expand n A B} =
    insert A (if expand A then \<Union>i\<in>{0..<n}. {B. \<exists>C. kid i A = Some C \<and> reaches kid expand n C B} else {})"
  by (auto intro: reaches.intros elim: reaches.cases)

locale lattice_search =
  fixes n :: nat
    and kid :: "nat \<Rightarrow> nat set \<Rightarrow> nat set option"
    and expand :: "nat set \<Rightarrow> bool"
    and rank :: "nat set \<Rightarrow> nat"
    and emits :: "nat set \<Rightarrow> 'o set"
    and visit :: "schema \<Rightarrow> 's \<Rightarrow> 'e + 's"
    and visit_for :: "nat \<Rightarrow> schema \<Rightarrow> 's \<Rightarrow> 'e + 's"
    and good :: "'s \<Rightarrow> bool"
    and seen :: "'s \<Rightarrow> nat set set"
    and out :: "'s \<Rightarrow> 'o set"
  assumes visit_seen: "good T \<Longrightarrow> schema_wf n s \<Longrightarrow> bitset s \<in> seen T \<Longrightarrow> visit s T = Inr T"
    and visit_new: "good T \<Longrightarrow> schema_wf n s \<Longrightarrow> bitset s \<notin> seen T \<Longrightarrow>
      \<exists>T1. good T1 \<and> seen T1 = insert (bitset s) (seen T) \<and> out T1 = out T \<union> emits (bitset s) \<and>
        visit s T = (if expand (bitset s) then visit_for 0 s T1 else Inr T1)"
    and for_done: "schema_wf n s \<Longrightarrow> n \<le> i \<Longrightarrow> visit_for i s T = Inr T"
    and for_skip: "schema_wf n s \<Longrightarrow> i < n \<Longrightarrow> kid i (bitset s) = None \<Longrightarrow> visit_for i s T = visit_for (i + 1) s T"
    and for_kid: "schema_wf n s \<Longrightarrow> i < n \<Longrightarrow> kid i (bitset s) = Some C \<Longrightarrow>
      \<exists>k. schema_wf n k \<and> bitset k = C \<and> visit_for i s T = ebind (visit k T) (visit_for (i + 1) s)"
    and rank_kid: "A \<subseteq> {..<n} \<Longrightarrow> i < n \<Longrightarrow> kid i A = Some C \<Longrightarrow> rank C < rank A"
begin

text \<open>Below rank \<open>r\<close> the marked schemas are closed under reachability.\<close>

definition closed_below :: "nat \<Rightarrow> nat set set \<Rightarrow> bool" where
  "closed_below r V \<longleftrightarrow> (\<forall>A\<in>V. rank A < r \<longrightarrow> {B. reaches kid expand n A B} \<subseteq> V)"

definition searched :: "'s \<Rightarrow> nat set set \<Rightarrow> 's \<Rightarrow> bool" where
  "searched T R T' \<longleftrightarrow> good T' \<and> seen T' = seen T \<union> R \<and> out T' = out T \<union> \<Union> (emits ` (seen T' - seen T))"

lemma closed_below_reach:
  assumes "closed_below r V"
  shows "closed_below r (V \<union> {B. reaches kid expand n A B})"
  using assms reaches_trans unfolding closed_below_def by (auto; blast)

lemma closed_below_Un:
  assumes "closed_below r V" and "closed_below r W"
  shows "closed_below r (V \<union> W)"
  using assms unfolding closed_below_def by blast

lemma searched_trans:
  assumes "searched T R T1" and "searched T1 R' T2"
  shows "searched T (R \<union> R') T2"
proof -
  have "seen T2 - seen T = (seen T1 - seen T) \<union> (seen T2 - seen T1)"
    using assms by (auto simp: searched_def)
  then show ?thesis using assms by (auto simp: searched_def)
qed

lemma for_spec:
  assumes visit: "\<And>k T. schema_wf n k \<Longrightarrow> rank (bitset k) < rank (bitset s) \<Longrightarrow> good T \<Longrightarrow> closed_below (rank (bitset k) + 1) (seen T) \<Longrightarrow>
      \<exists>T'. visit k T = Inr T' \<and> searched T {B. reaches kid expand n (bitset k) B} T'"
    and s: "schema_wf n s"
  shows "good T \<Longrightarrow> closed_below (rank (bitset s)) (seen T) \<Longrightarrow>
    \<exists>T'. visit_for i s T = Inr T' \<and>
      searched T (\<Union>j\<in>{i..<n}. {B. \<exists>C. kid j (bitset s) = Some C \<and> reaches kid expand n C B}) T'"
proof (induction "n - i" arbitrary: i T)
  case 0
  then show ?case using for_done [OF s, of i T] by (auto simp: searched_def)
next
  case (Suc d)
  then have i: "i < n" and d: "d = n - (i + 1)" by simp_all
  have split: "{i..<n} = insert i {i + 1..<n}" using i by auto
  show ?case
  proof (cases "kid i (bitset s)")
    case None
    then show ?thesis using Suc.hyps(1) [OF d Suc.prems] for_skip [OF s i None, of T] split by simp
  next
    case (Some C)
    obtain k where k: "schema_wf n k" "bitset k = C" "visit_for i s T = ebind (visit k T) (visit_for (i + 1) s)"
      using for_kid [OF s i Some] by blast
    have rk: "rank C < rank (bitset s)" using rank_kid [OF schema_wf_sub [OF s] i Some] .
    have "closed_below (rank (bitset k) + 1) (seen T)"
      using Suc.prems(2) rk k(2) unfolding closed_below_def by auto
    then obtain T1 where T1: "visit k T = Inr T1" "searched T {B. reaches kid expand n C B} T1"
      using visit [OF k(1) _ Suc.prems(1)] rk k(2) by auto
    have "good T1" "closed_below (rank (bitset s)) (seen T1)"
      using T1(2) closed_below_reach [OF Suc.prems(2)] by (auto simp: searched_def)
    then obtain T2 where T2: "visit_for (i + 1) s T1 = Inr T2"
      "searched T1 (\<Union>j\<in>{i + 1..<n}. {B. \<exists>C. kid j (bitset s) = Some C \<and> reaches kid expand n C B}) T2"
      using Suc.hyps(1) [OF d] by blast
    then show ?thesis using k(3) T1(1) searched_trans [OF T1(2) T2(2)] split Some by auto
  qed
qed

text \<open>The search marks exactly what is reachable and reports what it marks.\<close>

lemma visit_spec:
  "schema_wf n s \<Longrightarrow> good T \<Longrightarrow> closed_below (rank (bitset s) + 1) (seen T) \<Longrightarrow>
    \<exists>T'. visit s T = Inr T' \<and> searched T {B. reaches kid expand n (bitset s) B} T'"
proof (induction "rank (bitset s)" arbitrary: s T rule: less_induct)
  case less
  show ?case
  proof (cases "bitset s \<in> seen T")
    case True
    then have "{B. reaches kid expand n (bitset s) B} \<subseteq> seen T"
      using less.prems(3) by (auto simp: closed_below_def)
    then show ?thesis using visit_seen [OF less.prems(2,1) True] less.prems(2) by (auto simp: searched_def)
  next
    case False
    obtain T1 where T1: "good T1" "seen T1 = insert (bitset s) (seen T)" "out T1 = out T \<union> emits (bitset s)"
      "visit s T = (if expand (bitset s) then visit_for 0 s T1 else Inr T1)"
      using visit_new [OF less.prems(2,1) False] by blast
    have first: "searched T {bitset s} T1" using T1 False by (auto simp: searched_def)
    show ?thesis
    proof (cases "expand (bitset s)")
      case False
      then have "{B. reaches kid expand n (bitset s) B} = {bitset s}" by (subst reaches_unfold) simp
      then show ?thesis using first T1(4) False by simp
    next
      case True
      have cl: "closed_below (rank (bitset s)) (seen T1)"
        using less.prems(3) unfolding closed_below_def T1(2) by auto
      obtain T2 where T2: "visit_for 0 s T1 = Inr T2"
        "searched T1 (\<Union>j\<in>{0..<n}. {B. \<exists>C. kid j (bitset s) = Some C \<and> reaches kid expand n C B}) T2"
        using for_spec [OF less.hyps less.prems(1) T1(1) cl] by blast
      have "{B. reaches kid expand n (bitset s) B} =
          {bitset s} \<union> (\<Union>j\<in>{0..<n}. {B. \<exists>C. kid j (bitset s) = Some C \<and> reaches kid expand n C B})"
        using True by (subst reaches_unfold) simp
      then show ?thesis using T1(4) True T2(1) searched_trans [OF first T2(2)] by simp
    qed
  qed
qed

end

subsection \<open>Schemas as bit positions\<close>

lemma schema2int_eq:
  assumes "schema_wf n s"
  shows "schema2int s = set_encode (bitset s)"
proof -
  have "fold (\<lambda>i res. res + (if schema_get s i then 2 ^ i else 0)) [0..<k] 0 = set_encode (bitset s \<inter> {..<k})" for k
  proof (induction k)
    case (Suc k)
    have "bitset s \<inter> {..<Suc k} = (if k \<in> bitset s then insert k (bitset s \<inter> {..<k}) else bitset s \<inter> {..<k})"
      by (auto simp: less_Suc_eq)
    then show ?case using Suc by (simp add: set_encode_def schema_get_def)
  qed (simp add: set_encode_def)
  moreover have "bitset s \<inter> {..<n} = bitset s" using assms by (auto simp: schema_wf_def)
  ultimately show ?thesis using assms by (simp add: schema2int_def schema_wf_size)
qed

definition decoded :: "nat \<Rightarrow> nat set \<Rightarrow> nat set set" where
  "decoded n X = {A. A \<subseteq> {..<n} \<and> set_encode A \<in> X}"

lemma encode_inj: "A \<subseteq> {..<n} \<Longrightarrow> B \<subseteq> {..<n} \<Longrightarrow> set_encode A = set_encode B \<longleftrightarrow> A = B"
  by (rule set_encode_eq) (simp_all add: finite_subset [OF _ finite_lessThan])

lemma decoded_insert: "A \<subseteq> {..<n} \<Longrightarrow> decoded n (insert (set_encode A) X) = insert A (decoded n X)"
  using encode_inj [of A n] unfolding decoded_def by (intro set_eqI) (metis (no_types, lifting) insert_iff mem_Collect_eq)

lemma decoded_iff: "schema_wf n s \<Longrightarrow> bitset s \<in> decoded n X \<longleftrightarrow> schema2int s \<in> X"
  by (simp add: decoded_def schema_wf_sub schema2int_eq)

lemma decoded_mark: "schema_wf n s \<Longrightarrow> decoded n (insert (schema2int s) X) = insert (bitset s) (decoded n X)"
  by (simp add: schema2int_eq decoded_insert schema_wf_sub)

definition down_kid :: "nat \<Rightarrow> nat set \<Rightarrow> nat set option" where
  "down_kid i A = (if i \<in> A then Some (A - {i}) else None)"

definition up_kid :: "nat \<Rightarrow> nat set \<Rightarrow> nat set option" where
  "up_kid i A = (if i \<notin> A then Some (insert i A) else None)"

lemma down_rank: "A \<subseteq> {..<n} \<Longrightarrow> down_kid i A = Some C \<Longrightarrow> card C < card A"
  by (auto simp: down_kid_def split: if_splits intro: psubset_card_mono finite_subset)

lemma up_rank:
  assumes "A \<subseteq> {..<n}" and "i < n" and "up_kid i A = Some C"
  shows "n - card C < n - card A"
proof -
  have "C = insert i A" "i \<notin> A" "finite A" using assms finite_subset by (auto simp: up_kid_def split: if_splits)
  moreover have "card C \<le> n" using assms card_mono [of "{..<n}" C] by (auto simp: up_kid_def split: if_splits)
  ultimately show ?thesis by simp
qed

text \<open>The loops over the parameters.\<close>

lemma down_kid_schema:
  assumes "schema_wf n s" and "i < n"
  shows "down_kid i (bitset s) = None \<longleftrightarrow> \<not> schema_get s i"
    and "down_kid i (bitset s) = Some C \<Longrightarrow> schema_get s i \<and> schema_wf n (schema_set i False s) \<and> bitset (schema_set i False s) = C"
  using assms by (auto simp: down_kid_def schema_get_def split: if_splits)

lemma up_kid_schema:
  assumes "schema_wf n s" and "i < n"
  shows "up_kid i (bitset s) = None \<longleftrightarrow> schema_get s i"
    and "up_kid i (bitset s) = Some C \<Longrightarrow> \<not> schema_get s i \<and> schema_wf n (schema_set i True s) \<and> bitset (schema_set i True s) = C"
  using assms by (auto simp: up_kid_def schema_get_def split: if_splits)

lemma down_loop:
  assumes eq: "\<And>i s T. loop i s T = (if i < logic_size s then if schema_get s i
      then ebind (rec (schema_set i False s) T) (loop (i + 1) s) else loop (i + 1) s T else Inr T)" and s: "schema_wf n s"
  shows down_loop_done: "n \<le> i \<Longrightarrow> loop i s T = Inr T"
    and down_loop_skip: "i < n \<Longrightarrow> down_kid i (bitset s) = None \<Longrightarrow> loop i s T = loop (i + 1) s T"
    and down_loop_kid: "i < n \<Longrightarrow> down_kid i (bitset s) = Some C \<Longrightarrow>
      \<exists>k. schema_wf n k \<and> bitset k = C \<and> loop i s T = ebind (rec k T) (loop (i + 1) s)"
proof -
  note unfold = eq [of i s T] and size = schema_wf_size [OF s]
  show "loop i s T = Inr T" if "n \<le> i" using that by (subst unfold) (simp add: size)
  assume i: "i < n"
  show "loop i s T = loop (i + 1) s T" if "down_kid i (bitset s) = None"
    using that down_kid_schema(1) [OF s i] i by (subst unfold) (simp add: size)
  show "\<exists>k. schema_wf n k \<and> bitset k = C \<and> loop i s T = ebind (rec k T) (loop (i + 1) s)" if "down_kid i (bitset s) = Some C"
    using down_kid_schema(2) [OF s i that] i
    by (intro exI [of _ "schema_set i False s"]) (subst unfold, simp add: size)
qed

lemma up_loop:
  assumes eq: "\<And>i s T. loop i s T = (if i < logic_size s then if \<not> schema_get s i
      then ebind (rec (schema_set i True s) T) (loop (i + 1) s) else loop (i + 1) s T else Inr T)" and s: "schema_wf n s"
  shows up_loop_done: "n \<le> i \<Longrightarrow> loop i s T = Inr T"
    and up_loop_skip: "i < n \<Longrightarrow> up_kid i (bitset s) = None \<Longrightarrow> loop i s T = loop (i + 1) s T"
    and up_loop_kid: "i < n \<Longrightarrow> up_kid i (bitset s) = Some C \<Longrightarrow>
      \<exists>k. schema_wf n k \<and> bitset k = C \<and> loop i s T = ebind (rec k T) (loop (i + 1) s)"
proof -
  note unfold = eq [of i s T] and size = schema_wf_size [OF s]
  show "loop i s T = Inr T" if "n \<le> i" using that by (subst unfold) (simp add: size)
  assume i: "i < n"
  show "loop i s T = loop (i + 1) s T" if "up_kid i (bitset s) = None"
    using that up_kid_schema(1) [OF s i] i by (subst unfold) (simp add: size)
  show "\<exists>k. schema_wf n k \<and> bitset k = C \<and> loop i s T = ebind (rec k T) (loop (i + 1) s)" if "up_kid i (bitset s) = Some C"
    using up_kid_schema(2) [OF s i that] i
    by (intro exI [of _ "schema_set i True s"]) (subst unfold, simp add: size)
qed

subsection \<open>Marking healthy and faulty schemas\<close>

interpretation heal: lattice_search n down_kid "\<lambda>_. True" card "\<lambda>_. {} :: unit set" setHealthy setHealthy_for
  "\<lambda>T. num_parameter T = n \<and> trt_size T = sz \<and> trt_faulty T = F \<and> flag T = G" "\<lambda>T. decoded n (trt_healthy T)" "\<lambda>_. {}"
  for n sz F G
proof
  fix T :: trt and s
  assume T: "num_parameter T = n \<and> trt_size T = sz \<and> trt_faulty T = F \<and> flag T = G" and s: "schema_wf n s"
  show "bitset s \<in> decoded n (trt_healthy T) \<Longrightarrow> setHealthy s T = Inr T"
    using T s by (simp add: setHealthy.simps decoded_iff schema_wf_size)
  show "bitset s \<notin> decoded n (trt_healthy T) \<Longrightarrow>
      \<exists>T1. (num_parameter T1 = n \<and> trt_size T1 = sz \<and> trt_faulty T1 = F \<and> flag T1 = G) \<and>
        decoded n (trt_healthy T1) = insert (bitset s) (decoded n (trt_healthy T)) \<and> {} = {} \<union> {} \<and>
        setHealthy s T = (if True then setHealthy_for 0 s T1 else Inr T1)"
    using T s by (intro exI [of _ "T\<lparr>trt_healthy := insert (schema2int s) (trt_healthy T)\<rparr>"])
      (simp add: setHealthy.simps [of s T] decoded_iff decoded_mark schema_wf_size)
qed (rule down_loop_done [OF setHealthy_for.simps] down_loop_skip [OF setHealthy_for.simps] down_loop_kid [OF setHealthy_for.simps] down_rank; assumption)+

interpretation blame: lattice_search n up_kid "\<lambda>_. True" "\<lambda>A. n - card A" "\<lambda>_. {} :: unit set" setFaulty setFaulty_for
  "\<lambda>T. num_parameter T = n \<and> trt_size T = sz \<and> trt_healthy T = H \<and> flag T = G" "\<lambda>T. decoded n (trt_faulty T)" "\<lambda>_. {}"
  for n sz H G
proof
  fix T :: trt and s
  assume T: "num_parameter T = n \<and> trt_size T = sz \<and> trt_healthy T = H \<and> flag T = G" and s: "schema_wf n s"
  show "bitset s \<in> decoded n (trt_faulty T) \<Longrightarrow> setFaulty s T = Inr T"
    using T s by (simp add: setFaulty.simps decoded_iff schema_wf_size)
  show "bitset s \<notin> decoded n (trt_faulty T) \<Longrightarrow>
      \<exists>T1. (num_parameter T1 = n \<and> trt_size T1 = sz \<and> trt_healthy T1 = H \<and> flag T1 = G) \<and>
        decoded n (trt_faulty T1) = insert (bitset s) (decoded n (trt_faulty T)) \<and> {} = {} \<union> {} \<and>
        setFaulty s T = (if True then setFaulty_for 0 s T1 else Inr T1)"
    using T s by (intro exI [of _ "T\<lparr>trt_faulty := insert (schema2int s) (trt_faulty T)\<rparr>"])
      (simp add: setFaulty.simps [of s T] decoded_iff decoded_mark schema_wf_size)
qed (rule up_loop_done [OF setFaulty_for.simps] up_loop_skip [OF setFaulty_for.simps] up_loop_kid [OF setFaulty_for.simps] up_rank; assumption)+

subsection \<open>Collecting schemas\<close>

text \<open>The three traversals that collect schemas keep the two sets and mark in \<open>flag\<close>.\<close>

definition collecting :: "nat \<Rightarrow> bool \<Rightarrow> trt \<Rightarrow> trt \<times> mss \<Rightarrow> bool" where
  "collecting n b T0 = (\<lambda>(T, m). T\<lparr>flag := flag T0\<rparr> = T0 \<and> mss_wf n b m)"

definition marked :: "nat \<Rightarrow> trt \<times> mss \<Rightarrow> nat set set" where
  "marked n = (\<lambda>(T, m). decoded n (flag T))"

definition collected :: "bool \<Rightarrow> trt \<times> mss \<Rightarrow> nat set set" where
  "collected b = (\<lambda>(T, m). {y. covered (order_of b) (mss_elems m) y})"

lemma collecting_frame:
  "collecting n b T0 (T, m) \<Longrightarrow> trt_healthy T = trt_healthy T0 \<and> trt_faulty T = trt_faulty T0 \<and> num_parameter T = num_parameter T0"
  unfolding collecting_def by (cases T0; cases T) simp

lemma collecting_mark: "collecting n b T0 (T, m) \<Longrightarrow> collecting n b T0 (T\<lparr>flag := X\<rparr>, m)"
  by (simp add: collecting_def)

lemma collect_insert:
  assumes "collecting n b T0 (T, m)" and "schema_wf n s"
  shows "\<exists>m'. mss_insert s m = Inr m' \<and> collecting n b T0 (T, m') \<and>
    collected b (T, m') = collected b (T, m) \<union> {y. order_of b (bitset s) y}"
proof (cases b)
  case True
  then have "mss_wf n True m" using assms(1) by (simp add: collecting_def)
  then show ?thesis
    using minF.ins_total [OF _ assms(2)] minF.covered_insert [OF _ assms(2)] assms(1) True
    unfolding collecting_def collected_def by fastforce
next
  case False
  then have "mss_wf n False m" using assms(1) by (simp add: collecting_def)
  then show ?thesis
    using maxP.ins_total [OF _ assms(2)] maxP.covered_insert [OF _ assms(2)] assms(1) False
    unfolding collecting_def collected_def by fastforce
qed

text \<open>A visit that marks a new schema and then collects it, expands it or leaves.\<close>

lemma collect_visit:
  assumes good: "collecting n b T0 T" and s: "schema_wf n s" and new: "bitset s \<notin> marked n T"
    and eq: "visit s T = (let U = (fst T)\<lparr>flag := insert (schema2int s) (flag (fst T))\<rparr>
      in if emit then ebind (mss_insert s (snd T)) (\<lambda>m. Inr (U, m)) else if expand then for_loop 0 s (U, snd T) else Inr (U, snd T))"
    and excl: "\<not> (emit \<and> expand)"
  shows "\<exists>T1. collecting n b T0 T1 \<and> marked n T1 = insert (bitset s) (marked n T) \<and>
    collected b T1 = collected b T \<union> (if emit then {y. order_of b (bitset s) y} else {}) \<and>
    visit s T = (if expand then for_loop 0 s T1 else Inr T1)"
proof -
  obtain U m where T: "T = (U, m)" by (cases T)
  let ?U = "U\<lparr>flag := insert (schema2int s) (flag U)\<rparr>"
  have mark: "marked n (?U, m') = insert (bitset s) (marked n T)" for m'
    using s by (simp add: T marked_def decoded_mark)
  have good1: "collecting n b T0 (?U, m)" using good collecting_mark by (simp add: T)
  have same: "collected b (?U, m) = collected b T" by (simp add: T collected_def)
  show ?thesis
  proof (cases emit)
    case True
    obtain m' where m': "mss_insert s m = Inr m'" "collecting n b T0 (?U, m')"
      "collected b (?U, m') = collected b (?U, m) \<union> {y. order_of b (bitset s) y}"
      using collect_insert [OF good1 s] by blast
    then show ?thesis using True excl mark same eq by (intro exI [of _ "(?U, m')"]) (simp add: T)
  next
    case False
    then show ?thesis using good1 mark same eq by (intro exI [of _ "(?U, m)"]) (simp add: T)
  qed
qed

interpretation topS: lattice_search n down_kid "\<lambda>A. set_encode A \<in> trt_faulty T0 \<and> set_encode A \<notin> trt_healthy T0" card
  "\<lambda>A. if set_encode A \<notin> trt_healthy T0 \<and> set_encode A \<notin> trt_faulty T0 then {y. order_of False A y} else {}" getTop_rec getTop_for "collecting n False T0" "marked n" "collected False"
  for n T0
proof
  fix T :: "trt \<times> mss" and s
  assume good: "collecting n False T0 T" and s: "schema_wf n s"
  obtain U m where T: "T = (U, m)" by (cases T)
  show "bitset s \<in> marked n T \<Longrightarrow> getTop_rec s T = Inr T"
    using s by (simp add: T marked_def getTop_rec.simps decoded_iff)
  assume new: "bitset s \<notin> marked n T"
  show "\<exists>T1. collecting n False T0 T1 \<and> marked n T1 = insert (bitset s) (marked n T) \<and>
        collected False T1 = collected False T \<union> (if set_encode (bitset s) \<notin> trt_healthy T0 \<and> set_encode (bitset s) \<notin> trt_faulty T0 then {y. order_of False (bitset s) y} else {}) \<and>
        getTop_rec s T = (if set_encode (bitset s) \<in> trt_faulty T0 \<and> set_encode (bitset s) \<notin> trt_healthy T0 then getTop_for 0 s T1 else Inr T1)"
    by (rule collect_visit [OF good s new])
      (use new s collecting_frame [OF good [unfolded T]] in \<open>auto simp: T getTop_rec.simps marked_def decoded_iff schema2int_eq Let_def\<close>)
qed (rule down_loop_done [OF getTop_for.simps] down_loop_skip [OF getTop_for.simps] down_loop_kid [OF getTop_for.simps] down_rank; assumption)+

interpretation bottomS: lattice_search n up_kid "\<lambda>A. set_encode A \<in> trt_healthy T0 \<and> set_encode A \<notin> trt_faulty T0" "\<lambda>A. n - card A"
  "\<lambda>A. if set_encode A \<notin> trt_healthy T0 \<and> set_encode A \<notin> trt_faulty T0 then {y. order_of True A y} else {}" getBottom_rec getBottom_for "collecting n True T0" "marked n" "collected True"
  for n T0
proof
  fix T :: "trt \<times> mss" and s
  assume good: "collecting n True T0 T" and s: "schema_wf n s"
  obtain U m where T: "T = (U, m)" by (cases T)
  show "bitset s \<in> marked n T \<Longrightarrow> getBottom_rec s T = Inr T"
    using s by (simp add: T marked_def getBottom_rec.simps decoded_iff)
  assume new: "bitset s \<notin> marked n T"
  show "\<exists>T1. collecting n True T0 T1 \<and> marked n T1 = insert (bitset s) (marked n T) \<and>
        collected True T1 = collected True T \<union> (if set_encode (bitset s) \<notin> trt_healthy T0 \<and> set_encode (bitset s) \<notin> trt_faulty T0 then {y. order_of True (bitset s) y} else {}) \<and>
        getBottom_rec s T = (if set_encode (bitset s) \<in> trt_healthy T0 \<and> set_encode (bitset s) \<notin> trt_faulty T0 then getBottom_for 0 s T1 else Inr T1)"
    by (rule collect_visit [OF good s new])
      (use new s collecting_frame [OF good [unfolded T]] in \<open>auto simp: T getBottom_rec.simps marked_def decoded_iff schema2int_eq Let_def\<close>)
qed (rule up_loop_done [OF getBottom_for.simps] up_loop_skip [OF getBottom_for.simps] up_loop_kid [OF getBottom_for.simps] up_rank; assumption)+

interpretation mfsS: lattice_search n up_kid "\<lambda>A. set_encode A \<notin> trt_faulty T0" "\<lambda>A. n - card A"
  "\<lambda>A. if set_encode A \<in> trt_faulty T0 then {y. order_of True A y} else {}" getMFS_rec getMFS_for "collecting n True T0" "marked n" "collected True"
  for n T0
proof
  fix T :: "trt \<times> mss" and s
  assume good: "collecting n True T0 T" and s: "schema_wf n s"
  obtain U m where T: "T = (U, m)" by (cases T)
  show "bitset s \<in> marked n T \<Longrightarrow> getMFS_rec s T = Inr T"
    using s by (simp add: T marked_def getMFS_rec.simps decoded_iff)
  assume new: "bitset s \<notin> marked n T"
  show "\<exists>T1. collecting n True T0 T1 \<and> marked n T1 = insert (bitset s) (marked n T) \<and>
        collected True T1 = collected True T \<union> (if set_encode (bitset s) \<in> trt_faulty T0 then {y. order_of True (bitset s) y} else {}) \<and>
        getMFS_rec s T = (if set_encode (bitset s) \<notin> trt_faulty T0 then getMFS_for 0 s T1 else Inr T1)"
    by (rule collect_visit [OF good s new])
      (use new s collecting_frame [OF good [unfolded T]] in \<open>auto simp: T getMFS_rec.simps marked_def decoded_iff schema2int_eq Let_def\<close>)
qed (rule up_loop_done [OF getMFS_for.simps] up_loop_skip [OF getMFS_for.simps] up_loop_kid [OF getMFS_for.simps] up_rank; assumption)+

end
