(* ===== verification/NP_Tree.thy ===== *)
theory NP_Tree
  imports NP_Search
begin

text \<open>
  The resolver on the relation tree: what the traversals collect, that every turn of the loop settles a pending
  schema, and what is reported in the end.
\<close>

subsection \<open>Reachability in the lattice of schemas\<close>

lemma reaches_down_sub: "reaches down_kid E n A B \<Longrightarrow> B \<subseteq> A"
  by (induction rule: reaches.induct) (auto simp: down_kid_def split: if_splits)

lemma reaches_up_sub: "reaches up_kid E n A B \<Longrightarrow> A \<subseteq> B \<and> (A \<subseteq> {..<n} \<longrightarrow> B \<subseteq> {..<n})"
  by (induction rule: reaches.induct) (auto simp: up_kid_def split: if_splits)

lemma reaches_downI:
  assumes "B \<subseteq> A" and "A \<subseteq> {..<n}" and "\<And>C. B \<subset> C \<Longrightarrow> C \<subseteq> A \<Longrightarrow> E C"
  shows "reaches down_kid E n A B"
  using assms
proof (induction "card (A - B)" arbitrary: A)
  case 0
  have "finite A" using 0(3) by (rule finite_subset) simp
  then have "A = B" using 0 by auto
  then show ?case by (simp add: reaches_refl)
next
  case (Suc d)
  have fin: "finite A" using Suc.prems(2) by (rule finite_subset) simp
  have "A - B \<noteq> {}" using Suc.hyps(2) by (metis card.empty nat.distinct(1))
  then obtain i where i: "i \<in> A" "i \<notin> B" by blast
  have eq: "(A - {i}) - B = (A - B) - {i}" by blast
  have "card ((A - {i}) - B) = d" unfolding eq using Suc.hyps(2) i fin by simp
  moreover have "B \<subseteq> A - {i}" using i Suc.prems(1) by blast
  moreover have "A - {i} \<subseteq> {..<n}" using Suc.prems(2) by blast
  moreover have "E C" if "B \<subset> C" "C \<subseteq> A - {i}" for C using that Suc.prems(3) by blast
  ultimately have "reaches down_kid E n (A - {i}) B" using Suc.hyps(1) [of "A - {i}"] by blast
  moreover have "E A" using Suc.prems i by blast
  moreover have "down_kid i A = Some (A - {i})" "i < n" using i Suc.prems(2) by (auto simp: down_kid_def)
  ultimately show ?case by (intro reaches_step [of E A i])
qed

lemma reaches_upI:
  assumes "A \<subseteq> B" and "B \<subseteq> {..<n}" and "\<And>C. A \<subseteq> C \<Longrightarrow> C \<subset> B \<Longrightarrow> E C"
  shows "reaches up_kid E n A B"
  using assms
proof (induction "card (B - A)" arbitrary: A)
  case 0
  have "finite B" using 0(3) by (rule finite_subset) simp
  then have "A = B" using 0 by auto
  then show ?case by (simp add: reaches_refl)
next
  case (Suc d)
  have fin: "finite B" using Suc.prems(2) by (rule finite_subset) simp
  have "B - A \<noteq> {}" using Suc.hyps(2) by (metis card.empty nat.distinct(1))
  then obtain i where i: "i \<in> B" "i \<notin> A" by blast
  have eq: "B - insert i A = (B - A) - {i}" by blast
  have "card (B - insert i A) = d" unfolding eq using Suc.hyps(2) i fin by simp
  moreover have "insert i A \<subseteq> B" using i Suc.prems(1) by blast
  moreover have "E C" if "insert i A \<subseteq> C" "C \<subset> B" for C using that Suc.prems(3) by blast
  ultimately have "reaches up_kid E n (insert i A) B" using Suc.hyps(1) [of "insert i A"] Suc.prems(2) by blast
  moreover have "E A" using Suc.prems i by blast
  moreover have "up_kid i A = Some (insert i A)" "i < n" using i Suc.prems(2) by (auto simp: up_kid_def)
  ultimately show ?case by (intro reaches_step [of E A i])
qed

text \<open>Extremal members of a finite family.\<close>

lemma maximal_above:
  assumes "finite S" and "A \<in> S"
  shows "\<exists>M\<in>S. A \<subseteq> M \<and> (\<forall>C\<in>S. M \<subseteq> C \<longrightarrow> C = M)"
  using finite_has_maximal2 [OF assms] by (elim bexE conjE) (intro bexI conjI ballI impI, auto)

lemma minimal_within:
  assumes "finite S" and "A \<in> S"
  shows "\<exists>M\<in>S. M \<subseteq> A \<and> (\<forall>C\<in>S. C \<subseteq> M \<longrightarrow> C = M)"
  using finite_has_minimal2 [OF assms] by (elim bexE conjE) (intro bexI conjI ballI impI, auto)

subsection \<open>The flags\<close>

lemma encode_le: "A \<subseteq> {..<n} \<Longrightarrow> set_encode A \<le> 2 ^ n - 1"
proof -
  assume "A \<subseteq> {..<n}"
  then have "set_encode A \<le> set_encode {..<n}"
    unfolding set_encode_def by (intro sum_mono2) (auto intro: finite_subset)
  also have "set_encode {..<n} = 2 ^ n - 1" by (simp add: set_encode_def mask_eq_sum_exp_nat [symmetric] lessThan_def)
  finally show ?thesis .
qed

lemma encode_full: "set_encode {..<n} = 2 ^ n - 1"
  by (simp add: set_encode_def mask_eq_sum_exp_nat [symmetric] lessThan_def)

lemma capacity_ge: "m \<le> bitset_capacity m"
  unfolding bitset_capacity_def by linarith

lemma capacity_eq: "bitset_capacity (2 ^ n) = 2 ^ n \<longleftrightarrow> 6 \<le> n"
proof (cases "6 \<le> n")
  case True
  then obtain k where "n = 6 + k" using le_Suc_ex by blast
  then have "(2 :: nat) ^ n = 64 * 2 ^ k" by (simp add: power_add)
  then show ?thesis using True by (simp add: bitset_capacity_def)
next
  case False
  then have "n \<in> {0, 1, 2, 3, 4, 5}" by auto
  then show ?thesis by (auto simp: bitset_capacity_def)
qed

lemma cleared_all: "decoded n (flag (clear_flag (bitset_capacity (2 ^ n)) T)) = {}"
proof -
  have "\<not> bitset_capacity (2 ^ n) \<le> set_encode A" if "A \<subseteq> {..<n}" for A
  proof -
    have "(0 :: nat) < 2 ^ n" by simp
    then show ?thesis using encode_le [OF that] capacity_ge [of "2 ^ n"] by linarith
  qed
  then show ?thesis by (auto simp: decoded_def clear_flag_def)
qed

lemma cleared_rest:
  "decoded n (flag (clear_flag (bitset_capacity (2 ^ n) - 1) T)) =
    (if 6 \<le> n then {{..<n}} \<inter> decoded n (flag T) else {})"
proof -
  have "bitset_capacity (2 ^ n) - 1 \<le> set_encode A \<longleftrightarrow> 6 \<le> n \<and> A = {..<n}" if A: "A \<subseteq> {..<n}" for A
  proof -
    have "set_encode A = 2 ^ n - 1 \<longleftrightarrow> A = {..<n}" using encode_inj [OF A, of "{..<n}"] encode_full by simp
    moreover have "bitset_capacity (2 ^ n) = 2 ^ n \<or> bitset_capacity (2 ^ n) > 2 ^ n"
      using capacity_ge [of "2 ^ n"] by linarith
    moreover have "(0 :: nat) < 2 ^ n" by simp
    ultimately show ?thesis using encode_le [OF A] capacity_eq [of n] by linarith
  qed
  then show ?thesis by (auto simp: decoded_def clear_flag_def)
qed

subsection \<open>The state of the tree\<close>

definition healthy_set :: "trt \<Rightarrow> nat set set" where
  "healthy_set T = decoded (num_parameter T) (trt_healthy T)"

definition faulty_set :: "trt \<Rightarrow> nat set set" where
  "faulty_set T = decoded (num_parameter T) (trt_faulty T)"

definition pending_set :: "trt \<Rightarrow> nat set set" where
  "pending_set T = {A. A \<subseteq> {..<num_parameter T} \<and> A \<notin> healthy_set T \<and> A \<notin> faulty_set T}"

text \<open>Healthy schemas pass and are closed downwards, faulty ones fail and are closed upwards.\<close>

definition trt_inv :: "nat \<Rightarrow> (nat set \<Rightarrow> bool) \<Rightarrow> trt \<Rightarrow> bool" where
  "trt_inv n fl T \<longleftrightarrow> num_parameter T = n \<and> trt_size T = 2 ^ n \<and> {} \<in> healthy_set T \<and> {..<n} \<in> faulty_set T \<and>
     (\<forall>A\<in>healthy_set T. \<not> fl A \<and> (\<forall>B\<subseteq>A. B \<in> healthy_set T)) \<and>
     (\<forall>A\<in>faulty_set T. fl A \<and> (\<forall>B\<subseteq>{..<n}. A \<subseteq> B \<longrightarrow> B \<in> faulty_set T))"

lemma trt_invD:
  assumes "trt_inv n fl T"
  shows "num_parameter T = n" "trt_size T = 2 ^ n" "{} \<in> healthy_set T" "{..<n} \<in> faulty_set T"
    "A \<in> healthy_set T \<Longrightarrow> \<not> fl A" "A \<in> healthy_set T \<Longrightarrow> B \<subseteq> A \<Longrightarrow> B \<in> healthy_set T"
    "A \<in> faulty_set T \<Longrightarrow> fl A" "A \<in> faulty_set T \<Longrightarrow> A \<subseteq> B \<Longrightarrow> B \<subseteq> {..<n} \<Longrightarrow> B \<in> faulty_set T"
  using assms by (auto simp: trt_inv_def)

lemma sets_bounded: "A \<in> healthy_set T \<union> faulty_set T \<union> pending_set T \<Longrightarrow> A \<subseteq> {..<num_parameter T}"
  by (auto simp: healthy_set_def faulty_set_def pending_set_def decoded_def)

lemma finite_sets: "finite (healthy_set T)" "finite (faulty_set T)" "finite (pending_set T)"
  by (rule finite_subset [of _ "Pow {..<num_parameter T}"]; use sets_bounded in blast)+

definition same_tree :: "trt \<Rightarrow> trt \<Rightarrow> bool" where
  "same_tree T T' \<longleftrightarrow> T'\<lparr>flag := flag T\<rparr> = T"

lemma same_tree_sets:
  assumes "same_tree T T'"
  shows "healthy_set T' = healthy_set T" "faulty_set T' = faulty_set T" "pending_set T' = pending_set T"
    "trt_inv n fl T' = trt_inv n fl T" "num_parameter T' = num_parameter T"
proof -
  have "num_parameter T' = num_parameter T" "trt_size T' = trt_size T" "trt_healthy T' = trt_healthy T"
    "trt_faulty T' = trt_faulty T"
    using assms unfolding same_tree_def by (cases T; cases T'; simp)+
  then show "healthy_set T' = healthy_set T" "faulty_set T' = faulty_set T" "pending_set T' = pending_set T"
    "trt_inv n fl T' = trt_inv n fl T" "num_parameter T' = num_parameter T"
    by (simp_all add: healthy_set_def faulty_set_def pending_set_def trt_inv_def)
qed

lemma same_tree_trans: "same_tree T T1 \<Longrightarrow> same_tree T1 T2 \<Longrightarrow> same_tree T T2"
  unfolding same_tree_def by (cases T; cases T1; cases T2) simp

lemma clear_flag_same: "same_tree T (clear_flag k T)"
  by (simp add: same_tree_def clear_flag_def)

subsection \<open>Marking\<close>

lemma reach_up_all:
  assumes "A \<subseteq> {..<n}"
  shows "{B. reaches up_kid (\<lambda>_. True) n A B} = {B. A \<subseteq> B \<and> B \<subseteq> {..<n}}"
proof (rule set_eqI, unfold mem_Collect_eq, rule iffI)
  fix B
  assume "reaches up_kid (\<lambda>_. True) n A B"
  then show "A \<subseteq> B \<and> B \<subseteq> {..<n}" using reaches_up_sub assms by blast
next
  fix B
  assume "A \<subseteq> B \<and> B \<subseteq> {..<n}"
  then show "reaches up_kid (\<lambda>_. True) n A B" by (simp add: reaches_upI)
qed

lemma setHealthy_spec:
  assumes "trt_inv n fl T" and "schema_wf n s" and "\<not> fl (bitset s)" and "\<And>A B. A \<subseteq> B \<Longrightarrow> fl A \<Longrightarrow> fl B"
  shows "\<exists>T'. setHealthy s T = Inr T' \<and> trt_inv n fl T' \<and> healthy_set T' = healthy_set T \<union> Pow (bitset s) \<and> faulty_set T' = faulty_set T"
proof -
  note inv = trt_invD [OF assms(1)]
  have down: "{B. reaches down_kid (\<lambda>_. True) n A B} = Pow A" if "A \<subseteq> {..<n}" for A
    by (intro set_eqI iffI) (auto dest: reaches_down_sub intro: reaches_downI [OF _ that])
  have "heal.closed_below n (card (bitset s) + 1) (decoded n (trt_healthy T))"
    unfolding heal.closed_below_def using inv down sets_bounded [of _ T] by (auto simp: healthy_set_def)
  then obtain T' where T': "setHealthy s T = Inr T'" "heal.searched n (trt_size T) (trt_faulty T) (flag T) T
      {B. reaches down_kid (\<lambda>_. True) n (bitset s) B} T'"
    using heal.visit_spec [OF assms(2), of T "trt_size T" "trt_faulty T" "flag T"] inv(1) by auto
  have fields: "num_parameter T' = n" "trt_size T' = 2 ^ n" "trt_faulty T' = trt_faulty T"
    and H: "healthy_set T' = healthy_set T \<union> Pow (bitset s)"
    using T'(2) inv(1,2) down [OF schema_wf_sub [OF assms(2)]] by (auto simp: heal.searched_def healthy_set_def)
  have F: "faulty_set T' = faulty_set T" using fields inv(1) by (simp add: faulty_set_def)
  have "trt_inv n fl T'"
    unfolding trt_inv_def H F using fields inv assms(3,4) by auto
  then show ?thesis using T'(1) H F by blast
qed

lemma setFaulty_spec:
  assumes "trt_inv n fl T" and "schema_wf n s" and "fl (bitset s)" and "\<And>A B. A \<subseteq> B \<Longrightarrow> fl A \<Longrightarrow> fl B"
  shows "\<exists>T'. setFaulty s T = Inr T' \<and> trt_inv n fl T' \<and>
    faulty_set T' = faulty_set T \<union> {B. bitset s \<subseteq> B \<and> B \<subseteq> {..<n}} \<and> healthy_set T' = healthy_set T"
proof -
  note inv = trt_invD [OF assms(1)]
  have up: "{B. reaches up_kid (\<lambda>_. True) n A B} = {B. A \<subseteq> B \<and> B \<subseteq> {..<n}}" if "A \<subseteq> {..<n}" for A
    by (rule reach_up_all [OF that])
  have "blame.closed_below n (n - card (bitset s) + 1) (decoded n (trt_faulty T))"
    unfolding blame.closed_below_def
  proof (intro ballI impI)
    fix A
    assume "A \<in> decoded n (trt_faulty T)"
    then have A: "A \<in> faulty_set T" "A \<subseteq> {..<n}" using inv(1) by (simp_all add: faulty_set_def decoded_def)
    have "{B. A \<subseteq> B \<and> B \<subseteq> {..<n}} \<subseteq> faulty_set T" using inv(8) [OF A(1)] by blast
    then show "{B. reaches up_kid (\<lambda>_. True) n A B} \<subseteq> decoded n (trt_faulty T)"
      unfolding up [OF A(2)] using inv(1) by (simp add: faulty_set_def)
  qed
  then obtain T' where T': "setFaulty s T = Inr T'" "blame.searched n (trt_size T) (trt_healthy T) (flag T) T
      {B. reaches up_kid (\<lambda>_. True) n (bitset s) B} T'"
    using blame.visit_spec [OF assms(2), of T "trt_size T" "trt_healthy T" "flag T"] inv(1) by auto
  have fields: "num_parameter T' = n" "trt_size T' = 2 ^ n" "trt_healthy T' = trt_healthy T"
    and F: "faulty_set T' = faulty_set T \<union> {B. bitset s \<subseteq> B \<and> B \<subseteq> {..<n}}"
    using T'(2) inv(1,2) up [OF schema_wf_sub [OF assms(2)]] by (auto simp: blame.searched_def faulty_set_def)
  have H: "healthy_set T' = healthy_set T" using fields inv(1) by (simp add: healthy_set_def)
  have "trt_inv n fl T'"
    unfolding trt_inv_def H F using fields inv assms(3,4) by auto
  then show ?thesis using T'(1) H F by blast
qed

subsection \<open>Collecting\<close>

lemma collecting_same: "collecting n b T0 (T, m) \<Longrightarrow> same_tree T0 T \<and> mss_wf n b m"
  by (simp add: collecting_def same_tree_def)

lemma collecting_start: "collecting n b T0 (T0, mss_new b)"
  by (simp add: collecting_def)

lemma collected_start: "collected b (T0, mss_new b) = {}"
  by (simp add: collected_def covered_def)

lemma emits_member:
  "y \<in> \<Union> ((\<lambda>A. if P A then {y. order_of b A y} else {}) ` X) \<longleftrightarrow> (\<exists>B\<in>X. P B \<and> order_of b B y)"
  by (auto split: if_splits)

lemma encode_sets:
  assumes "A \<subseteq> {..<n}" and "num_parameter T = n"
  shows "set_encode A \<in> trt_healthy T \<longleftrightarrow> A \<in> healthy_set T" "set_encode A \<in> trt_faulty T \<longleftrightarrow> A \<in> faulty_set T"
    "set_encode A \<notin> trt_healthy T \<and> set_encode A \<notin> trt_faulty T \<longleftrightarrow> A \<in> pending_set T"
  using assms by (auto simp: healthy_set_def faulty_set_def pending_set_def decoded_def)

lemma getTop_spec:
  assumes "trt_inv n fl T"
  shows "\<exists>T' m. getTopSchemas T = Inr (T', m) \<and> same_tree T T' \<and> {..<n} \<in> decoded n (flag T') \<and> mss_wf n False m \<and>
    (\<forall>y. covered (\<lambda>x y. y \<subseteq> x) (mss_elems m) y \<longleftrightarrow> (\<exists>B\<in>pending_set T. y \<subseteq> B))"
proof -
  note inv = trt_invD [OF assms]
  let ?T0 = "clear_flag (bitset_capacity (trt_size T)) T" and ?s = "schema_flag n True"
  let ?R = "{B. reaches down_kid (\<lambda>A. set_encode A \<in> trt_faulty ?T0 \<and> set_encode A \<notin> trt_healthy ?T0) n {..<n} B}"
  have start: "marked n (?T0, mss_new False) = {}" using cleared_all [of n T] inv(2) by (simp add: marked_def)
  have enc: "set_encode A \<in> trt_faulty ?T0 \<longleftrightarrow> A \<in> faulty_set T" "set_encode A \<in> trt_healthy ?T0 \<longleftrightarrow> A \<in> healthy_set T"
    if "A \<subseteq> {..<n}" for A
    using encode_sets [OF that inv(1)] by (simp_all add: clear_flag_def)
  obtain T' m where r: "getTop_rec ?s (?T0, mss_new False) = Inr (T', m)"
    "topS.searched ?T0 n (?T0, mss_new False) ?R (T', m)"
    using topS.visit_spec [of n ?s ?T0 "(?T0, mss_new False)"] collecting_start start by (auto simp: topS.closed_below_def)
  have col: "collecting n False ?T0 (T', m)" and seen: "marked n (T', m) = ?R"
    using r(2) start by (auto simp: topS.searched_def)
  have out: "y \<in> collected False (T', m) \<longleftrightarrow> (\<exists>B\<in>?R. (set_encode B \<notin> trt_healthy ?T0 \<and> set_encode B \<notin> trt_faulty ?T0) \<and> order_of False B y)" for y
  proof -
    have "collected False (T', m) = \<Union> ((\<lambda>A. if set_encode A \<notin> trt_healthy ?T0 \<and> set_encode A \<notin> trt_faulty ?T0
        then {y. order_of False A y} else {}) ` ?R)"
      using r(2) unfolding topS.searched_def seen start collected_start by (simp only: Un_empty_left Diff_empty)
    then show ?thesis by (simp only: emits_member)
  qed
  have "covered (\<lambda>x y. y \<subseteq> x) (mss_elems m) y \<longleftrightarrow> (\<exists>B\<in>pending_set T. y \<subseteq> B)" for y
  proof
    assume "covered (\<lambda>x y. y \<subseteq> x) (mss_elems m) y"
    then obtain B where B: "B \<in> ?R" "set_encode B \<notin> trt_healthy ?T0" "set_encode B \<notin> trt_faulty ?T0" "y \<subseteq> B"
      using out [of y] by (auto simp: collected_def)
    then have "B \<subseteq> {..<n}" using reaches_down_sub [of _ n "{..<n}" B] by simp
    then show "\<exists>B\<in>pending_set T. y \<subseteq> B" using B enc [of B] inv(1) by (auto simp: pending_set_def)
  next
    assume "\<exists>B\<in>pending_set T. y \<subseteq> B"
    then obtain M where M: "M \<in> pending_set T" "y \<subseteq> M" "\<forall>C\<in>pending_set T. M \<subseteq> C \<longrightarrow> C = M"
      using maximal_above [OF finite_sets(3)] by (meson order_trans)
    have Mn: "M \<subseteq> {..<n}" using M(1) sets_bounded [of M T] inv(1) by auto
    have "M \<in> ?R"
    proof (intro CollectI reaches_downI Mn subset_refl)
      fix C
      assume C: "M \<subset> C" "C \<subseteq> {..<n}"
      have "C \<notin> healthy_set T" using inv(6) [of C M] C(1) M(1) by (auto simp: pending_set_def)
      moreover have "C \<notin> pending_set T" using C(1) M(3) by blast
      ultimately have "C \<in> faulty_set T" using C(2) inv(1) by (auto simp: pending_set_def)
      then show "set_encode C \<in> trt_faulty ?T0 \<and> set_encode C \<notin> trt_healthy ?T0"
        using enc [OF C(2)] \<open>C \<notin> healthy_set T\<close> by simp
    qed
    then have "y \<in> collected False (T', m)"
      unfolding out using M(1,2) enc [OF Mn] by (intro bexI [of _ M]) (auto simp: pending_set_def)
    then show "covered (\<lambda>x y. y \<subseteq> x) (mss_elems m) y" by (simp add: collected_def)
  qed
  moreover have "{..<n} \<in> decoded n (flag T')" using seen reaches_refl by (auto simp: marked_def)
  moreover have "same_tree T T'"
    using collecting_same [OF col] same_tree_trans [OF clear_flag_same] by blast
  ultimately show ?thesis using r(1) collecting_same [OF col] inv(1) by (auto simp: getTopSchemas_def)
qed

lemma reach_up_full: "reaches up_kid E n {..<n} B \<longleftrightarrow> B = {..<n}"
  using reaches_up_sub [of E n "{..<n}" B] reaches_refl by auto

text \<open>The marks that the incomplete clearing leaves: at most the one of the full schema.\<close>

definition stale :: "trt \<Rightarrow> nat set set" where
  "stale T = (if 6 \<le> num_parameter T then {{..<num_parameter T}} \<inter> decoded (num_parameter T) (flag T) else {})"

lemma stale_eq:
  "num_parameter T = n \<Longrightarrow> trt_size T = 2 ^ n \<Longrightarrow> marked n (clear_flag (bitset_capacity (trt_size T) - 1) T, m) = stale T"
  by (simp add: marked_def stale_def cleared_rest [simplified])

lemma stale_closed: "A \<in> stale T \<Longrightarrow> {B. reaches up_kid E (num_parameter T) A B} \<subseteq> stale T"
  by (auto simp: stale_def reach_up_full split: if_splits)

lemma getBottom_spec:
  assumes "trt_inv n fl T"
  shows "\<exists>T' m. getBottomSchemas T = Inr (T', m) \<and> same_tree T T' \<and> mss_wf n True m \<and>
    (\<forall>y. covered (\<subseteq>) (mss_elems m) y \<longleftrightarrow> (\<exists>B\<in>pending_set T. B \<subseteq> y))"
proof -
  note inv = trt_invD [OF assms]
  let ?T0 = "clear_flag (bitset_capacity (trt_size T) - 1) T" and ?s = "schema_flag n False"
  let ?R = "{B. reaches up_kid (\<lambda>A. set_encode A \<in> trt_healthy ?T0 \<and> set_encode A \<notin> trt_faulty ?T0) n {} B}"
  have s: "bitset ?s = {}" "schema_wf n ?s" by (simp_all add: schema_flag_def)
  have start: "marked n (?T0, mss_new True) = stale T" using stale_eq inv(1,2) by simp
  have enc: "set_encode A \<in> trt_faulty ?T0 \<longleftrightarrow> A \<in> faulty_set T" "set_encode A \<in> trt_healthy ?T0 \<longleftrightarrow> A \<in> healthy_set T"
    if "A \<subseteq> {..<n}" for A
    using encode_sets [OF that inv(1)] by (simp_all add: clear_flag_def)
  have "bottomS.closed_below n ?T0 (n - card (bitset ?s) + 1) (marked n (?T0, mss_new True))"
    unfolding bottomS.closed_below_def start using stale_closed inv(1) by blast
  then obtain T' m where r: "getBottom_rec ?s (?T0, mss_new True) = Inr (T', m)"
    "bottomS.searched ?T0 n (?T0, mss_new True) ?R (T', m)"
    using bottomS.visit_spec [OF s(2), of ?T0 "(?T0, mss_new True)"] collecting_start by (auto simp: s(1))
  have col: "collecting n True ?T0 (T', m)" and seen: "marked n (T', m) = stale T \<union> ?R"
    using r(2) start by (auto simp: bottomS.searched_def)
  have out: "y \<in> collected True (T', m) \<longleftrightarrow> (\<exists>B\<in>stale T \<union> ?R - stale T. (set_encode B \<notin> trt_healthy ?T0 \<and> set_encode B \<notin> trt_faulty ?T0) \<and> order_of True B y)" for y
  proof -
    have "collected True (T', m) = \<Union> ((\<lambda>A. if set_encode A \<notin> trt_healthy ?T0 \<and> set_encode A \<notin> trt_faulty ?T0
        then {y. order_of True A y} else {}) ` (stale T \<union> ?R - stale T))"
      using r(2) unfolding bottomS.searched_def seen start collected_start by (simp only: Un_empty_left)
    then show ?thesis by (simp only: emits_member)
  qed
  have "covered (\<subseteq>) (mss_elems m) y \<longleftrightarrow> (\<exists>B\<in>pending_set T. B \<subseteq> y)" for y
  proof
    assume "covered (\<subseteq>) (mss_elems m) y"
    then obtain B where B: "B \<in> ?R" "set_encode B \<notin> trt_healthy ?T0" "set_encode B \<notin> trt_faulty ?T0" "B \<subseteq> y"
      using out [of y] by (auto simp: collected_def)
    then have "B \<subseteq> {..<n}" using reaches_up_sub [of _ n "{}" B] by simp
    then show "\<exists>B\<in>pending_set T. B \<subseteq> y" using B enc [of B] inv(1) by (auto simp: pending_set_def)
  next
    assume "\<exists>B\<in>pending_set T. B \<subseteq> y"
    then obtain M where M: "M \<in> pending_set T" "M \<subseteq> y" "\<forall>C\<in>pending_set T. C \<subseteq> M \<longrightarrow> C = M"
      using minimal_within [OF finite_sets(3)] by (meson order_trans)
    have Mn: "M \<subseteq> {..<n}" using M(1) sets_bounded [of M T] inv(1) by auto
    have "M \<in> ?R"
    proof (intro CollectI reaches_upI Mn empty_subsetI)
      fix C
      assume C: "C \<subset> M"
      then have Cn: "C \<subseteq> {..<n}" using Mn by blast
      have "C \<notin> faulty_set T" using inv(8) [of C M] C(1) Mn M(1) by (auto simp: pending_set_def)
      moreover have "C \<notin> pending_set T" using C(1) M(3) by blast
      ultimately have "C \<in> healthy_set T" using Cn inv(1) by (auto simp: pending_set_def)
      then show "set_encode C \<in> trt_healthy ?T0 \<and> set_encode C \<notin> trt_faulty ?T0"
        using enc [OF Cn] \<open>C \<notin> faulty_set T\<close> by simp
    qed
    moreover have "M \<notin> stale T" using M(1) inv(1,4) by (auto simp: stale_def pending_set_def split: if_splits)
    ultimately have "y \<in> collected True (T', m)"
      unfolding out using M(1,2) enc [OF Mn] by (intro bexI [of _ M]) (auto simp: pending_set_def)
    then show "covered (\<subseteq>) (mss_elems m) y" by (simp add: collected_def)
  qed
  moreover have "same_tree T T'"
    using collecting_same [OF col] same_tree_trans [OF clear_flag_same] by blast
  ultimately show ?thesis using r(1) collecting_same [OF col] inv(1) by (auto simp: getBottomSchemas_def)
qed

lemma getMFS_spec:
  assumes "trt_inv n fl T"
  shows "\<exists>T' m. getMFS T = Inr (T', m) \<and> same_tree T T' \<and> mss_wf n True m \<and>
    (\<forall>y. covered (\<subseteq>) (mss_elems m) y \<longleftrightarrow> (\<exists>B\<in>faulty_set T - stale T. B \<subseteq> y))"
proof -
  note inv = trt_invD [OF assms]
  let ?T0 = "clear_flag (bitset_capacity (trt_size T) - 1) T" and ?s = "schema_flag n False"
  let ?R = "{B. reaches up_kid (\<lambda>A. set_encode A \<notin> trt_faulty ?T0) n {} B}"
  have s: "bitset ?s = {}" "schema_wf n ?s" by (simp_all add: schema_flag_def)
  have start: "marked n (?T0, mss_new True) = stale T" using stale_eq inv(1,2) by simp
  have enc: "set_encode A \<in> trt_faulty ?T0 \<longleftrightarrow> A \<in> faulty_set T" if "A \<subseteq> {..<n}" for A
    using encode_sets [OF that inv(1)] by (simp add: clear_flag_def)
  have "mfsS.closed_below n ?T0 (n - card (bitset ?s) + 1) (marked n (?T0, mss_new True))"
    unfolding mfsS.closed_below_def start using stale_closed inv(1) by blast
  then obtain T' m where r: "getMFS_rec ?s (?T0, mss_new True) = Inr (T', m)"
    "mfsS.searched ?T0 n (?T0, mss_new True) ?R (T', m)"
    using mfsS.visit_spec [OF s(2), of ?T0 "(?T0, mss_new True)"] collecting_start by (auto simp: s(1))
  have col: "collecting n True ?T0 (T', m)" and seen: "marked n (T', m) = stale T \<union> ?R"
    using r(2) start by (auto simp: mfsS.searched_def)
  have out: "y \<in> collected True (T', m) \<longleftrightarrow> (\<exists>B\<in>stale T \<union> ?R - stale T. set_encode B \<in> trt_faulty ?T0 \<and> order_of True B y)" for y
  proof -
    have "collected True (T', m) = \<Union> ((\<lambda>A. if set_encode A \<in> trt_faulty ?T0
        then {y. order_of True A y} else {}) ` (stale T \<union> ?R - stale T))"
      using r(2) unfolding mfsS.searched_def seen start collected_start by (simp only: Un_empty_left)
    then show ?thesis by (simp only: emits_member)
  qed
  have "covered (\<subseteq>) (mss_elems m) y \<longleftrightarrow> (\<exists>B\<in>faulty_set T - stale T. B \<subseteq> y)" for y
  proof
    assume "covered (\<subseteq>) (mss_elems m) y"
    then obtain B where B: "B \<in> ?R" "B \<notin> stale T" "set_encode B \<in> trt_faulty ?T0" "B \<subseteq> y"
      using out [of y] by (auto simp: collected_def)
    then have "B \<subseteq> {..<n}" using reaches_up_sub [of _ n "{}" B] by simp
    then show "\<exists>B\<in>faulty_set T - stale T. B \<subseteq> y" using B enc [of B] by auto
  next
    assume "\<exists>B\<in>faulty_set T - stale T. B \<subseteq> y"
    then obtain B where B: "B \<in> faulty_set T" "B \<notin> stale T" "B \<subseteq> y" by blast
    obtain M where M: "M \<in> faulty_set T" "M \<subseteq> B" "\<forall>C\<in>faulty_set T. C \<subseteq> M \<longrightarrow> C = M"
      using minimal_within [OF finite_sets(2) B(1)] by blast
    have Bn: "B \<subseteq> {..<n}" and Mn: "M \<subseteq> {..<n}" using B(1) M(1) sets_bounded [of _ T] inv(1) by auto
    have "M \<in> ?R"
    proof (intro CollectI reaches_upI Mn empty_subsetI)
      fix C
      assume C: "C \<subset> M"
      then have "C \<notin> faulty_set T" using M(3) by blast
      then show "set_encode C \<notin> trt_faulty ?T0" using enc [of C] C Mn by auto
    qed
    moreover have "M \<notin> stale T"
    proof
      assume "M \<in> stale T"
      then have "M = {..<n}" using inv(1) by (auto simp: stale_def split: if_splits)
      then show False using M(2) Bn B(2) \<open>M \<in> stale T\<close> by auto
    qed
    ultimately have "y \<in> collected True (T', m)"
      unfolding out using M(1,2) B(3) enc [OF Mn] by (intro bexI [of _ M]) auto
    then show "covered (\<subseteq>) (mss_elems m) y" by (simp add: collected_def)
  qed
  moreover have "same_tree T T'"
    using collecting_same [OF col] same_tree_trans [OF clear_flag_same] by blast
  ultimately show ?thesis using r(1) collecting_same [OF col] inv(1) by (auto simp: getMFS_def)
qed

subsection \<open>The loop\<close>

lemma trt_search_spec:
  assumes "oracle_for n tfail fl okr" "okr r" "schema_wf n hi" "schema_wf n lo" "bitset lo \<subseteq> bitset hi"
  shows "\<exists>found r'. trt_binarySearch hi lo tfail r = Inr (found, r') \<and> okr r' \<and>
    (found = None \<longleftrightarrow> \<not> fl (bitset hi)) \<and>
    (\<forall>c. found = Some c \<longrightarrow> schema_wf n c \<and> fl (bitset c) \<and> bitset lo \<subseteq> bitset c \<and> bitset c \<subseteq> bitset hi)"
proof -
  have "climbs n lo hi (build_chain_up hi lo)"
    unfolding build_chain_up_def schema_wf_size [OF assms(3)] by (rule chain_climbs [OF assms(3-5)]) auto
  from chain_search_spec [OF assms this trt_binarySearch_def] show ?thesis by blast
qed

lemma pending_convex:
  assumes "trt_inv n fl T" and "A \<in> pending_set T" and "C \<in> pending_set T" and "A \<subseteq> B" and "B \<subseteq> C"
  shows "B \<in> pending_set T"
proof -
  note inv = trt_invD [OF assms(1)]
  have "B \<subseteq> {..<n}" using assms(3,5) inv(1) by (auto simp: pending_set_def)
  moreover have "B \<notin> healthy_set T" using inv(6) [of B A] assms(2,4) by (auto simp: pending_set_def)
  moreover have "B \<notin> faulty_set T" using inv(1) inv(8) [of B C] assms(3,5) by (auto simp: pending_set_def)
  ultimately show ?thesis using inv(1) by (simp add: pending_set_def)
qed

lemma trt_settle:
  assumes inv: "trt_inv n fl T" and orc: "oracle_for n tfail fl okr" and s: "schema_wf n s" "bitset s \<in> pending_set T"
  shows "fl (bitset s) \<Longrightarrow> \<exists>T'. setFaulty s T = Inr T' \<and> trt_inv n fl T' \<and> card (pending_set T') < card (pending_set T)"
    and "\<not> fl (bitset s) \<Longrightarrow> \<exists>T'. setHealthy s T = Inr T' \<and> trt_inv n fl T' \<and> card (pending_set T') < card (pending_set T)"
proof -
  have smaller: "card (pending_set T') < card (pending_set T)"
    if "trt_inv n fl T'" "healthy_set T \<subseteq> healthy_set T'" "faulty_set T \<subseteq> faulty_set T'"
      "bitset s \<in> healthy_set T' \<union> faulty_set T'" for T'
  proof (rule psubset_card_mono [OF finite_sets(3)])
    show "pending_set T' \<subset> pending_set T"
      using that s(2) trt_invD(1) [OF inv] trt_invD(1) [OF that(1)] by (auto simp: pending_set_def)
  qed
  have sn: "bitset s \<subseteq> {..<n}" using s(1) by (rule schema_wf_sub)
  have mono: "fl B" if "A \<subseteq> B" "fl A" for A B using oracle_mono [OF orc that] .
  show "\<exists>T'. setFaulty s T = Inr T' \<and> trt_inv n fl T' \<and> card (pending_set T') < card (pending_set T)" if fs: "fl (bitset s)"
  proof -
    obtain T' where T': "setFaulty s T = Inr T'" "trt_inv n fl T'"
      "faulty_set T' = faulty_set T \<union> {B. bitset s \<subseteq> B \<and> B \<subseteq> {..<n}}" "healthy_set T' = healthy_set T"
      using setFaulty_spec [OF inv s(1) fs] mono by blast
    then show ?thesis using smaller [OF T'(2)] sn by auto
  qed
  show "\<exists>T'. setHealthy s T = Inr T' \<and> trt_inv n fl T' \<and> card (pending_set T') < card (pending_set T)" if hs: "\<not> fl (bitset s)"
  proof -
    obtain T' where T': "setHealthy s T = Inr T'" "trt_inv n fl T'"
      "healthy_set T' = healthy_set T \<union> Pow (bitset s)" "faulty_set T' = faulty_set T"
      using setHealthy_spec [OF inv s(1) hs] mono by blast
    then show ?thesis using smaller [OF T'(2)] by auto
  qed
qed

definition trt_step_outcome :: "nat \<Rightarrow> (nat set \<Rightarrow> bool) \<Rightarrow> trt \<Rightarrow> bool \<Rightarrow> trt \<Rightarrow> bool" where
  "trt_step_outcome n fl T pend T' \<longleftrightarrow> trt_inv n fl T' \<and>
     (if pend then card (pending_set T') < card (pending_set T) else pending_set T' = {} \<and> {..<n} \<in> decoded n (flag T'))"

lemma trt_step_spec:
  assumes inv: "trt_inv n fl T" and orc: "oracle_for n tfail fl okr" and r: "okr r"
  shows "\<exists>pend T' r'. trt_step tfail T r = Inr (pend, T', r') \<and> okr r' \<and> trt_step_outcome n fl T pend T'"
proof -
  obtain T1 t where top: "getTopSchemas T = Inr (T1, t)" "same_tree T T1" "{..<n} \<in> decoded n (flag T1)" "mss_wf n False t"
    and tcov: "\<And>y. covered (\<lambda>x y. y \<subseteq> x) (mss_elems t) y \<longleftrightarrow> (\<exists>B\<in>pending_set T. y \<subseteq> B)"
    using getTop_spec [OF inv] by blast
  note same1 = same_tree_sets [OF top(2)]
  have inv1: "trt_inv n fl T1" using same1(4) inv by simp
  have tpend: "x \<in> pending_set T" if "x \<in> mss_elems t" for x
    using that maxP.elems_extremal [OF top(4), of x] unfolding tcov by blast
  have tall: "\<exists>x\<in>mss_elems t. A \<subseteq> x" if "A \<in> pending_set T" for A
    using tcov [of A] that by (auto simp: covered_def)
  show ?thesis
  proof (cases "schemas t = []")
    case True
    then have "pending_set T1 = {}" using tall same1(3) by (auto simp: mss_elems_def)
    then show ?thesis using top(1,3) True r inv1 by (auto simp: trt_step_def trt_step_outcome_def)
  next
    case False
    then have "bitset (hd (schemas t)) \<in> mss_elems t" by (simp add: mss_elems_def)
    then obtain A where A: "A \<in> pending_set T" using tpend by blast
    obtain T2 b where bot: "getBottomSchemas T1 = Inr (T2, b)" "same_tree T1 T2" "mss_wf n True b"
      and bcov: "\<And>y. covered (\<subseteq>) (mss_elems b) y \<longleftrightarrow> (\<exists>B\<in>pending_set T1. B \<subseteq> y)"
      using getBottom_spec [OF inv1] by blast
    note same2 = same_tree_sets [OF bot(2)]
    have inv2: "trt_inv n fl T2" and pend2: "pending_set T2 = pending_set T" using same1 same2 inv by simp_all
    have bpend: "x \<in> pending_set T" if "x \<in> mss_elems b" for x
      using that minF.elems_extremal [OF bot(3), of x] unfolding bcov same1(3) by blast
    obtain x y where xy: "x \<in> mss_elems t" "y \<in> mss_elems b" "y \<subseteq> x"
      using tall [OF A] bcov [of A] A same1(3) by (auto simp: covered_def)
    then have ne: "mss_elems t \<noteq> {}" "mss_elems b \<noteq> {}" "schemas b \<noteq> []" by (auto simp: mss_elems_def)
    obtain hi lo where chain: "getLongestChain t b = Inr (Some (hi, lo))" "schema_wf n hi" "schema_wf n lo"
      "bitset hi \<in> mss_elems t" "bitset lo \<in> mss_elems b" "bitset lo \<subseteq> bitset hi"
    proof -
      obtain best where best: "getLongestChain t b = Inr best"
        "best = None \<longrightarrow> (\<forall>t'\<in>mss_elems t. \<forall>b'\<in>mss_elems b. \<not> b' \<subseteq> t')"
        "\<forall>hi lo. best = Some (hi, lo) \<longrightarrow> schema_wf n hi \<and> schema_wf n lo \<and> bitset hi \<in> mss_elems t \<and>
          bitset lo \<in> mss_elems b \<and> bitset lo \<subseteq> bitset hi"
        using getLongestChain_spec [OF top(4) bot(3) ne(1,2)] by (elim exE conjE) (rule that, auto)
      then obtain p where "best = Some p" using xy by blast
      then show thesis using best that by (cases p) auto
    qed
    obtain found r1 where sr: "trt_binarySearch hi lo tfail r = Inr (found, r1)" "okr r1"
      "found = None \<longleftrightarrow> \<not> fl (bitset hi)"
      "\<And>c. found = Some c \<Longrightarrow> schema_wf n c \<and> fl (bitset c) \<and> bitset lo \<subseteq> bitset c \<and> bitset c \<subseteq> bitset hi"
      using trt_search_spec [OF orc r chain(2,3,6)] by blast
    have hp: "bitset hi \<in> pending_set T2" and lp: "bitset lo \<in> pending_set T2"
      using tpend [OF chain(4)] bpend [OF chain(5)] pend2 by simp_all
    have "\<exists>T3. (case found of None \<Rightarrow> setHealthy hi T2 | Some f \<Rightarrow> setFaulty f T2) = Inr T3 \<and> trt_inv n fl T3 \<and>
        card (pending_set T3) < card (pending_set T)"
    proof (cases found)
      case None
      then show ?thesis using trt_settle(2) [OF inv2 orc chain(2) hp] sr(3) pend2 by auto
    next
      case (Some c)
      then have "bitset c \<in> pending_set T2" using sr(4) [OF Some] pending_convex [OF inv2 lp hp] by blast
      then show ?thesis using trt_settle(1) [OF inv2 orc] sr(4) [OF Some] Some pend2 by auto
    qed
    then obtain T3 where T3: "(case found of None \<Rightarrow> setHealthy hi T2 | Some f \<Rightarrow> setFaulty f T2) = Inr T3"
      "trt_inv n fl T3" "card (pending_set T3) < card (pending_set T)" by blast
    have "trt_step tfail T r = Inr (True, T3, r1)"
      using top(1) False bot(1) ne(3) chain(1) sr(1) T3(1) by (simp add: trt_step_def)
    then show ?thesis using sr(2) T3(2,3) by (auto simp: trt_step_outcome_def)
  qed
qed

lemma trt_loop_spec:
  assumes orc: "oracle_for n tfail fl okr"
  shows "trt_inv n fl T \<Longrightarrow> okr r \<Longrightarrow>
    \<exists>T' r'. trt_loop tfail T r = Some (Inr (T', r')) \<and> okr r' \<and> trt_inv n fl T' \<and> pending_set T' = {} \<and> {..<n} \<in> decoded n (flag T')"
proof (induction "card (pending_set T)" arbitrary: T r rule: less_induct)
  case less
  obtain pend T1 r1 where st: "trt_step tfail T r = Inr (pend, T1, r1)" "okr r1" "trt_step_outcome n fl T pend T1"
    using trt_step_spec [OF less.prems(1) orc less.prems(2)] by blast
  show ?case
  proof (cases pend)
    case True
    then have "trt_loop tfail T r = trt_loop tfail T1 r1" using st(1) by (subst trt_loop.simps) simp
    then show ?thesis using less.hyps [of T1 r1] st(2,3) True by (simp add: trt_step_outcome_def)
  next
    case False
    then have "trt_loop tfail T r = Some (Inr (T1, r1))" using st(1) by (subst trt_loop.simps) simp
    then show ?thesis using st(2,3) False by (simp add: trt_step_outcome_def)
  qed
qed

subsection \<open>The report\<close>

lemma trt_new_inv:
  assumes "n \<le> 30" and "0 < n" and "fl {..<n}" and "\<not> fl {}"
  shows "\<exists>T. trt_new n = Inr T \<and> trt_inv n fl T"
proof -
  let ?T = "\<lparr>num_parameter = n, trt_size = 2 ^ n, trt_healthy = {0}, trt_faulty = {2 ^ n - 1}, flag = {}\<rparr>"
  have "(2 :: int) ^ n \<le> 2 ^ 30" using assms(1) by (intro power_increasing) simp_all
  then have "trt_new n = Inr ?T" by (simp add: trt_new_def)
  moreover have "healthy_set ?T = {{}}"
    using decoded_insert [of "{}" n "{}"] by (simp add: healthy_set_def) (simp add: decoded_def)
  moreover have "faulty_set ?T = {{..<n}}"
    using decoded_insert [of "{..<n}" n "{}"] encode_full [of n] by (simp add: faulty_set_def) (simp add: decoded_def)
  ultimately show ?thesis using assms(3,4) by (auto simp: trt_inv_def)
qed

lemma getMFS_result:
  assumes inv: "trt_inv n fl T" and settled: "pending_set T = {}" and full: "{..<n} \<in> decoded n (flag T)"
  shows "\<exists>T' m. getMFS T = Inr (T', m) \<and> mss_wf n True m \<and>
    mss_elems m = {A. A \<subseteq> {..<n} \<and> fl A \<and> (\<forall>B\<subset>A. \<not> fl B) \<and> (n < 6 \<or> A \<noteq> {..<n})}"
proof -
  note i = trt_invD [OF inv]
  obtain T' m where m: "getMFS T = Inr (T', m)" "mss_wf n True m"
    and cov: "\<And>y. covered (\<subseteq>) (mss_elems m) y \<longleftrightarrow> (\<exists>B\<in>faulty_set T - stale T. B \<subseteq> y)"
    using getMFS_spec [OF inv] by blast
  have F: "A \<in> faulty_set T \<longleftrightarrow> A \<subseteq> {..<n} \<and> fl A" for A
  proof
    assume "A \<in> faulty_set T"
    then show "A \<subseteq> {..<n} \<and> fl A" using i(7) sets_bounded [of A T] i(1) by auto
  next
    assume A: "A \<subseteq> {..<n} \<and> fl A"
    then have "A \<notin> healthy_set T" using i(5) by blast
    then show "A \<in> faulty_set T" using settled A i(1) by (auto simp: pending_set_def)
  qed
  have stale: "A \<in> stale T \<longleftrightarrow> 6 \<le> n \<and> A = {..<n}" for A using full i(1) by (auto simp: stale_def)
  have "x \<in> mss_elems m \<longleftrightarrow> x \<in> faulty_set T - stale T \<and> (\<forall>B\<in>faulty_set T - stale T. B \<subseteq> x \<longrightarrow> B = x)" for x
    unfolding minF.elems_extremal [OF m(2)] cov by blast
  moreover have "(\<forall>B\<in>faulty_set T - stale T. B \<subseteq> x \<longrightarrow> B = x) \<longleftrightarrow> (\<forall>B\<subset>x. \<not> fl B)"
    if x: "x \<in> faulty_set T - stale T" for x
  proof -
    have "B \<in> faulty_set T - stale T \<longleftrightarrow> fl B" if "B \<subset> x" for B
      using that x F stale by auto
    then show ?thesis by (metis psubset_eq)
  qed
  ultimately have "x \<in> mss_elems m \<longleftrightarrow> x \<subseteq> {..<n} \<and> fl x \<and> (\<forall>B\<subset>x. \<not> fl B) \<and> (n < 6 \<or> x \<noteq> {..<n})" for x
    using F [of x] stale [of x] by auto
  then show ?thesis using m by blast
qed

lemma minimal_faults_restricted:
  assumes "sut_ok n mfs safe" "tfail_ok n mfs safe tfail"
  shows "(\<lambda>A. proj A tfail) ` {A. A \<subseteq> {..<n} \<and> faulty_by mfs safe tfail A \<and>
      (\<forall>B\<subset>A. \<not> faulty_by mfs safe tfail B) \<and> P A} = {mf \<in> set mfs. contains_loop tfail mf \<and> P (supp mf)}"
proof -
  let ?M = "{A. A \<subseteq> {..<n} \<and> faulty_by mfs safe tfail A \<and> (\<forall>B\<subset>A. \<not> faulty_by mfs safe tfail B)}"
  have len: "length tfail = n" using assms(2) by (simp add: tfail_ok_def)
  have supp: "supp (proj A tfail) = A" if "A \<in> ?M" for A
  proof -
    have "A \<subseteq> {..<n}" using that by simp
    then show ?thesis using len tfail_not_unknown [OF assms(2)] by (auto simp: supp_def split: if_splits)
  qed
  have "(\<lambda>A. proj A tfail) ` {A \<in> ?M. P A} = {c \<in> (\<lambda>A. proj A tfail) ` ?M. P (supp c)}"
  proof (intro set_eqI iffI)
    fix c
    assume "c \<in> (\<lambda>A. proj A tfail) ` {A \<in> ?M. P A}"
    then obtain A where "A \<in> ?M" "P A" "c = proj A tfail" by (auto simp only: mem_Collect_eq image_iff)
    then show "c \<in> {c \<in> (\<lambda>A. proj A tfail) ` ?M. P (supp c)}" using supp [of A] by simp
  next
    fix c
    assume "c \<in> {c \<in> (\<lambda>A. proj A tfail) ` ?M. P (supp c)}"
    then obtain A where A: "A \<in> ?M" "c = proj A tfail" and P: "P (supp c)" by (auto simp only: mem_Collect_eq image_iff)
    have "A \<in> {A \<in> ?M. P A}" using A P supp [OF A(1)] by simp
    then show "c \<in> (\<lambda>A. proj A tfail) ` {A \<in> ?M. P A}" unfolding A(2) by (rule imageI)
  qed
  then show ?thesis unfolding minimal_faults [OF assms] by (simp add: conj_ac Collect_conj_eq [symmetric])
qed

definition missed :: "nat \<Rightarrow> nat set \<Rightarrow> bool" where
  "missed n A \<longleftrightarrow> 6 \<le> n \<and> A = {..<n}"

lemma trt_conduct_one_spec:
  assumes "sut_ok n mfs safe" "tfail_ok n mfs safe tfail" "runs_on mfs safe M r" "n \<le> 30"
  shows "\<exists>r'. trt_conduct_one tfail r = Some (Inr r') \<and>
    runs_on mfs safe (M \<union> {mf \<in> set mfs. contains_loop tfail mf \<and> \<not> missed n (supp mf)}) r'"
proof -
  let ?f = "faulty_by mfs safe tfail"
  note orc = check_oracle [OF assms(1,2)]
  have len: "length tfail = n" using assms(2) by (simp add: tfail_ok_def)
  obtain mf where mf: "mf \<in> set mfs" "contains_loop tfail mf" using assms(2) by (auto simp: tfail_ok_def)
  have "length mf = n" and ne: "supp mf \<noteq> {}" using assms(1) mf(1) by (auto simp: sut_ok_def)
  then have sub: "supp mf \<subseteq> {..<n}" by (auto simp: supp_def)
  then have "0 < n" using ne by (cases n) auto
  moreover have "?f {..<n}" unfolding faulty_by_iff [OF assms(1,2)] using mf sub by blast
  ultimately obtain T where T: "trt_new n = Inr T" "trt_inv n ?f T"
    using trt_new_inv [OF assms(4)] oracle_empty [OF orc] by blast
  obtain T1 r1 where l: "trt_loop tfail T r = Some (Inr (T1, r1))" "runs_on mfs safe M r1" "trt_inv n ?f T1"
    "pending_set T1 = {}" "{..<n} \<in> decoded n (flag T1)"
    using trt_loop_spec [OF orc T(2) assms(3)] by blast
  obtain T2 m where g: "getMFS T1 = Inr (T2, m)" "mss_wf n True m"
    "mss_elems m = {A. A \<subseteq> {..<n} \<and> ?f A \<and> (\<forall>B\<subset>A. \<not> ?f B) \<and> (n < 6 \<or> A \<noteq> {..<n})}"
    using getMFS_result [OF l(3-5)] by blast
  have "n < 6 \<or> A \<noteq> {..<n} \<longleftrightarrow> \<not> missed n A" for A by (auto simp: missed_def)
  then have "(\<lambda>A. proj A tfail) ` mss_elems m = {mf \<in> set mfs. contains_loop tfail mf \<and> \<not> missed n (supp mf)}"
    using minimal_faults_restricted [OF assms(1,2), of "\<lambda>A. \<not> missed n A"] g(3) by simp
  moreover have "record_MFCs m tfail r1 = Inr (r1\<lparr>MFC_identified := M \<union> (\<lambda>A. proj A tfail) ` mss_elems m\<rparr>)"
    using record_MFCs_spec [OF len g(2)] l(2) by (simp add: runs_on_def)
  ultimately show ?thesis using T(1) l(1,2) g(1) len by (simp add: trt_conduct_one_def runs_on_def)
qed

lemma trt_conduct_loop_spec:
  assumes "sut_ok n mfs safe" "n \<le> 30"
  shows "\<forall>t\<in>set ts. tfail_ok n mfs safe t \<Longrightarrow> runs_on mfs safe M r \<Longrightarrow>
    \<exists>r'. trt_conduct_loop ts r = Some (Inr r') \<and>
      runs_on mfs safe (M \<union> {mf \<in> set mfs. (\<exists>t\<in>set ts. contains_loop t mf) \<and> \<not> missed n (supp mf)}) r'"
proof (induction ts arbitrary: M r)
  case (Cons t ts)
  let ?M = "M \<union> {mf \<in> set mfs. contains_loop t mf \<and> \<not> missed n (supp mf)}"
  obtain r1 where r1: "trt_conduct_one t r = Some (Inr r1)" "runs_on mfs safe ?M r1"
    using trt_conduct_one_spec [OF assms(1) _ Cons.prems(2) assms(2), of t] Cons.prems(1) by auto
  have "?M \<union> {mf \<in> set mfs. (\<exists>t\<in>set ts. contains_loop t mf) \<and> \<not> missed n (supp mf)} =
      M \<union> {mf \<in> set mfs. (\<exists>t\<in>set (t # ts). contains_loop t mf) \<and> \<not> missed n (supp mf)}" by auto
  then show ?case using Cons.IH [OF _ r1(2)] Cons.prems(1) r1(1) by simp
qed simp

lemma trt_conduct_spec:
  assumes "sut_ok n (MFS ck) safe" "n \<le> 30" "\<forall>t\<in>set tfails. tfail_ok n (MFS ck) safe t"
    "trt_resolver_new ck tpass tfails = Inr r"
  shows "\<exists>r'. trt_conduct (r\<lparr>safeValues := Some safe\<rparr>) = Some (Inr r') \<and> conducted r' \<and>
    MFC_identified r' = {mf \<in> set (MFS ck). (\<exists>t\<in>set tfails. contains_loop t mf) \<and> \<not> missed n (supp mf)}"
proof -
  let ?r = "r\<lparr>safeValues := Some safe, conducted := True\<rparr>"
  have r: "Tfail r = tfails" "\<not> conducted r" "runs_on (MFS ck) safe {} ?r"
    using assms(4) by (auto simp: trt_resolver_new_def resolver_new_def runs_on_def split: if_splits)
  then obtain r' where "trt_conduct_loop tfails ?r = Some (Inr r')"
    "runs_on (MFS ck) safe ({} \<union> {mf \<in> set (MFS ck). (\<exists>t\<in>set tfails. contains_loop t mf) \<and> \<not> missed n (supp mf)}) r'"
    using trt_conduct_loop_spec [OF assms(1,2,3) r(3)] by blast
  then show ?thesis using r by (simp add: trt_conduct_def runs_on_def)
qed

text \<open>C9. The resolver on the relation tree ends without an exception. It reports exactly the faulty combinations that
  occur in a failing test case, with one exception: with six or more parameters a combination that fixes all
  parameters is never reported. The mark of the full schema is the last bit of the set, \<open>getTopSchemas\<close> sets it and
  \<open>getMFS\<close> clears all bits but the last, so that its traversal takes the full schema for visited.\<close>

theorem trt_reports_all_but_full:
  assumes "sut_ok n (MFS ck) safe" "n \<le> 30" "\<forall>t\<in>set tfails. tfail_ok n (MFS ck) safe t"
    "trt_resolver_new ck tpass tfails = Inr r"
  shows "\<exists>r'. trt_conduct (r\<lparr>safeValues := Some safe\<rparr>) = Some (Inr r') \<and> conducted r' \<and>
    MFC_identified r' = {mf \<in> set (MFS ck). (\<exists>t\<in>set tfails. contains_loop t mf) \<and> \<not> (6 \<le> n \<and> supp mf = {..<n})}"
  using trt_conduct_spec [OF assms] by (simp add: missed_def)

text \<open>Six parameters and one fault that fixes them all: nothing is reported.\<close>

theorem trt_reports_all_but_full_witness:
  "\<exists>r'. trt_conduct \<lparr>Tpass = [], Tfail = [[1, 1, 1, 1, 1, 1]], the_checker = checker_new [[1, 1, 1, 1, 1, 1]],
     healthyCombs = [], faultyCombs = [], safeValues = Some [0, 0, 0, 0, 0, 0], MFC_identified = {}, conducted = False\<rparr> =
     Some (Inr r') \<and> MFC_identified r' = {}"
proof -
  let ?t = "[1, 1, 1, 1, 1, 1] :: comb" and ?safe = "[0, 0, 0, 0, 0, 0] :: comb"
  have upto: "{..<6} = {0, 1, 2, 3, 4, 5 :: nat}" by auto
  have supp: "supp ?t = {..<6}" unfolding upto by (auto simp: supp_def UNKNOWN_def less_Suc_eq nth_Cons')
  have sut: "sut_ok 6 (MFS (checker_new [?t])) ?safe"
    by (simp add: sut_ok_def checker_new_def supp UNKNOWN_def lessThan_empty_iff)
  have "?t ! i \<noteq> pad ?safe ?t i" if "i < 6" for i
    using that by (auto simp: pad_def UNKNOWN_def nth_Cons' less_Suc_eq)
  then have tf: "\<forall>t\<in>set [?t]. tfail_ok 6 (MFS (checker_new [?t])) ?safe t"
    by (simp add: tfail_ok_def checker_new_def supp)
  have r: "trt_resolver_new (checker_new [?t]) [] [?t] = Inr \<lparr>Tpass = [], Tfail = [?t], the_checker = checker_new [?t],
      healthyCombs = [], faultyCombs = [], safeValues = None, MFC_identified = {}, conducted = False\<rparr>"
    by (simp add: trt_resolver_new_def resolver_new_def)
  show ?thesis
    using trt_reports_all_but_full [OF sut _ tf r] supp by (auto simp: checker_new_def)
qed

end
