(* ===== verification/NP_Ben.thy ===== *)
theory NP_Ben
  imports NP_Comfil
begin

text \<open>
  The resolver Ben (\<open>FaultResolver/Ben/BenFaultResolver.java\<close>): combinations of a given strength are ranked by their
  suspiciousness, test cases that contain them and otherwise the least suspicious values are generated, until
  the number of suspicious combinations stays the same.

  The floating-point operations are a parameter: \<open>arith\<close> holds those the code uses, on any type, so that what is
  proved does not depend on rounding. As before \<open>combinationOf\<close> stands for the library class \<open>Combination\<close> and \<open>iter\<close>
  for the order in which a hash set is traversed; \<open>draws turn comb k\<close> is the \<open>k\<close>-th
  random index drawn for \<open>comb\<close> in that turn. The strength \<open>t\<close> is the
  field of the same name, set before \<open>conduct\<close>.
\<close>

record 'd arith =
  d_zero :: 'd
  d_one :: 'd
  d_three :: 'd
  d_MAX :: 'd
  d_of_int :: "nat \<Rightarrow> 'd"
  d_add :: "'d \<Rightarrow> 'd \<Rightarrow> 'd"
  d_div :: "'d \<Rightarrow> 'd \<Rightarrow> 'd"
  d_min :: "'d \<Rightarrow> 'd \<Rightarrow> 'd"
  d_greater :: "'d \<Rightarrow> 'd \<Rightarrow> bool"
  d_compare :: "'d \<Rightarrow> 'd \<Rightarrow> int"

type_synonym component = "nat \<times> int"

type_synonym 'd susp = "component \<Rightarrow> 'd option"

subsection \<open>Suspicious combinations\<close>

definition isCurrentlyHealthy :: "resolver \<Rightarrow> comb \<Rightarrow> bool res" where
  "isCurrentlyHealthy r comb = any_contains (\<lambda>tpass. contains tpass comb) (Tpass r)"

definition getAllSuspiciousCombinations ::
    "(nat list \<Rightarrow> nat \<Rightarrow> nat list list) \<Rightarrow> (comb set \<Rightarrow> comb list) \<Rightarrow> nat \<Rightarrow> resolver \<Rightarrow> comb set res" where
  "getAllSuspiciousCombinations combinationOf iter t r =
     ebind (efold (\<lambda>tfail res. ebind (tWayComb combinationOf t tfail) (\<lambda>cs. Inr (res \<union> set cs))) (Tfail r) {})
       (removeIf iter (isCurrentlyHealthy r))"

subsection \<open>Suspiciousness\<close>

definition count_component :: "'d arith \<Rightarrow> component \<Rightarrow> comb list \<Rightarrow> 'd res" where
  "count_component D cmpt cs =
     efold (\<lambda>c n. ebind (comb_get c (fst cmpt)) (\<lambda>v. Inr (if v = snd cmpt then d_add D n (d_one D) else n))) cs (d_zero D)"

definition computeSuspiciousnessForOneComponent ::
    "'d arith \<Rightarrow> (comb set \<Rightarrow> comb list) \<Rightarrow> resolver \<Rightarrow> comb set \<Rightarrow> 'd susp \<Rightarrow> component \<Rightarrow> 'd res" where
  "computeSuspiciousnessForOneComponent D iter r S m cmpt =
     (case m cmpt of
        Some d \<Rightarrow> Inr d
      | None \<Rightarrow>
          ebind (count_component D cmpt (Tfail r)) (\<lambda>nfail.
          ebind (count_component D cmpt (Tpass r)) (\<lambda>npass.
            let u = d_div D nfail (d_of_int D (length (Tfail r)));
                v = d_div D nfail (d_add D nfail npass)
            in ebind (count_component D cmpt (iter S)) (\<lambda>w.
                 let w = d_div D w (d_of_int D (card S))
                 in Inr (d_div D (d_add D (d_add D u v) w) (d_three D))))))"

definition put_component ::
    "'d arith \<Rightarrow> (comb set \<Rightarrow> comb list) \<Rightarrow> resolver \<Rightarrow> comb set \<Rightarrow> component \<Rightarrow> 'd susp \<Rightarrow> 'd susp res" where
  "put_component D iter r S cmpt m =
     ebind (computeSuspiciousnessForOneComponent D iter r S m cmpt) (\<lambda>d. Inr (m(cmpt \<mapsto> d)))"

definition put_components ::
    "'d arith \<Rightarrow> (comb set \<Rightarrow> comb list) \<Rightarrow> resolver \<Rightarrow> comb set \<Rightarrow> comb \<Rightarrow> 'd susp \<Rightarrow> 'd susp res" where
  "put_components D iter r S testcase m =
     efold (\<lambda>i. put_component D iter r S (i, testcase ! i)) [0..<length testcase] m"

definition computeSuspiciousnessForAllComponents ::
    "'d arith \<Rightarrow> (comb set \<Rightarrow> comb list) \<Rightarrow> resolver \<Rightarrow> comb set \<Rightarrow> 'd susp \<Rightarrow> 'd susp res" where
  "computeSuspiciousnessForAllComponents D iter r S m =
     ebind (efold (put_components D iter r S) (Tfail r) m) (efold (put_components D iter r S) (Tpass r))"

subsection \<open>Ranking\<close>

definition component_value :: "'d susp \<Rightarrow> nat \<Rightarrow> int \<Rightarrow> 'd res" where
  "component_value m i v =
     (case m (i, v) of None \<Rightarrow> Inl (RuntimeException ''Component not found'') | Some d \<Rightarrow> Inr d)"

definition getRho_c :: "'d arith \<Rightarrow> 'd susp \<Rightarrow> comb \<Rightarrow> 'd res" where
  "getRho_c D m comb =
     ebind (efold (\<lambda>i (rho_c, n). if comb ! i \<noteq> UNKNOWN
                then ebind (component_value m i (comb ! i)) (\<lambda>d. Inr (d_add D rho_c d, n + 1))
                else Inr (rho_c, n))
              [0..<length comb] (d_zero D, 0))
       (\<lambda>(rho_c, n). Inr (d_div D rho_c (d_of_int D n)))"

definition rho_in :: "'d arith \<Rightarrow> 'd susp \<Rightarrow> comb \<Rightarrow> comb \<Rightarrow> 'd res" where
  "rho_in D m comb tfail =
     ebind (efold (\<lambda>i (tmp, n). ebind (comb_get comb i) (\<lambda>v.
                if v = UNKNOWN
                then ebind (component_value m i (tfail ! i)) (\<lambda>d. Inr (d_add D tmp d, n + 1))
                else Inr (tmp, n)))
              [0..<length tfail] (d_zero D, 0))
       (\<lambda>(tmp, n). Inr (d_div D tmp (d_of_int D n)))"

definition getRho_e :: "'d arith \<Rightarrow> 'd susp \<Rightarrow> resolver \<Rightarrow> comb \<Rightarrow> 'd res" where
  "getRho_e D m r comb =
     efold (\<lambda>tfail rho_s. ebind (contains tfail comb) (\<lambda>b.
              if \<not> b then Inr rho_s
              else ebind (rho_in D m comb tfail) (\<lambda>tmp. Inr (d_min D rho_s tmp))))
       (Tfail r) (d_MAX D)"

text \<open>A stable sort by a key. The comparator is not called for fewer than two elements.\<close>

fun insert_ranked :: "'d arith \<Rightarrow> 'd \<times> 'a \<Rightarrow> ('d \<times> 'a) list \<Rightarrow> ('d \<times> 'a) list" where
  "insert_ranked D x [] = [x]"
| "insert_ranked D x (y # ys) = (if d_compare D (fst x) (fst y) \<le> 0 then x # y # ys else y # insert_ranked D x ys)"

definition rank_combs :: "'d arith \<Rightarrow> (comb set \<Rightarrow> comb list) \<Rightarrow> 'd susp \<Rightarrow> resolver \<Rightarrow> comb set \<Rightarrow> comb list res" where
  "rank_combs D iter m r S =
     (let cs = iter S
      in if length cs < 2 then Inr cs
         else ebind (efold (\<lambda>c ks. ebind (getRho_c D m c) (\<lambda>a. ebind (getRho_e D m r c) (\<lambda>b.
                       Inr (ks @ [(d_add D a b, c)])))) cs [])
                (\<lambda>ks. Inr (map snd (foldr (insert_ranked D) ks []))))"

subsection \<open>New test cases\<close>

text \<open>\<open>equals\<close> compares the classes of the objects too, and \<open>contains\<close> asks the given object.\<close>

datatype comb_class = Comb_class | Testcase_class | MutableTestcase_class

definition comb_equals :: "comb_class \<times> comb \<Rightarrow> comb_class \<times> comb \<Rightarrow> bool" where
  "comb_equals a b \<longleftrightarrow> fst a = fst b \<and> snd a = snd b"

definition tested :: "resolver \<Rightarrow> comb_class \<times> comb \<Rightarrow> bool" where
  "tested r t \<longleftrightarrow> list_ex (\<lambda>e. comb_equals t (Testcase_class, e)) (Tpass r) \<or>
     list_ex (\<lambda>e. comb_equals t (Testcase_class, e)) (Tfail r)"

definition fill_component :: "'d arith \<Rightarrow> 'd susp \<Rightarrow> nat \<Rightarrow> int" where
  "fill_component D m i =
     (case m (i, 0) of None \<Rightarrow> 1
      | Some a \<Rightarrow> (case m (i, 1) of None \<Rightarrow> 0 | Some b \<Rightarrow> if d_greater D a b then 1 else 0))"

partial_function (option) flip_untested ::
    "(nat \<Rightarrow> nat) \<Rightarrow> resolver \<Rightarrow> comb \<Rightarrow> nat \<Rightarrow> comb \<Rightarrow> comb res option" where
  "flip_untested draws r comb k t =
     (let index = draws k
      in if comb ! index = UNKNOWN
         then (case testcase_flip index t of
                 Inl e \<Rightarrow> Some (Inl e)
               | Inr t' \<Rightarrow>
                   if \<not> tested r (MutableTestcase_class, t') then Some (Inr t')
                   else (case testcase_flip index t' of
                           Inl e \<Rightarrow> Some (Inl e) | Inr t'' \<Rightarrow> flip_untested draws r comb (k + 1) t''))
         else flip_untested draws r comb (k + 1) t)"

definition generateNewTestcaseForOneSuspiciousComb ::
    "'d arith \<Rightarrow> (comb \<Rightarrow> nat \<Rightarrow> nat) \<Rightarrow> 'd susp \<Rightarrow> resolver \<Rightarrow> comb \<Rightarrow> comb res option" where
  "generateNewTestcaseForOneSuspiciousComb D draws m r comb =
     (let newComb = fold (\<lambda>i c. if c ! i = UNKNOWN then c[i := fill_component D m i] else c) [0..<length comb] comb
      in case testcase_of_comb newComb of
           Inl e \<Rightarrow> Some (Inl e)
         | Inr t \<Rightarrow> if tested r (MutableTestcase_class, t) then flip_untested (draws comb) r comb 0 t else Some (Inr t))"

fun generateNewTestcases ::
    "'d arith \<Rightarrow> (comb \<Rightarrow> nat \<Rightarrow> nat) \<Rightarrow> 'd susp \<Rightarrow> resolver \<Rightarrow> comb list \<Rightarrow> comb set \<Rightarrow> comb set res option" where
  "generateNewTestcases D draws m r [] testcases = Some (Inr testcases)"
| "generateNewTestcases D draws m r (c # cs) testcases =
     (case generateNewTestcaseForOneSuspiciousComb D draws m r c of
        None \<Rightarrow> None
      | Some (Inl e) \<Rightarrow> Some (Inl e)
      | Some (Inr t) \<Rightarrow> generateNewTestcases D draws m r cs (insert t testcases))"

definition run_testcase :: "comb \<Rightarrow> resolver \<Rightarrow> resolver res" where
  "run_testcase testcase r = ebind (check (the_checker r) testcase) (\<lambda>(passed, ck).
     Inr (if passed then r\<lparr>the_checker := ck, Tpass := Tpass r @ [testcase]\<rparr>
          else r\<lparr>the_checker := ck, Tfail := Tfail r @ [testcase]\<rparr>))"

subsection \<open>conduct\<close>

definition smallerCombs :: "(nat list \<Rightarrow> nat \<Rightarrow> nat list list) \<Rightarrow> comb \<Rightarrow> nat \<Rightarrow> comb list res" where
  "smallerCombs combinationOf comb d =
     (let combIndex = filter (\<lambda>i. comb ! i \<noteq> UNKNOWN) [0..<length comb]
      in efold (\<lambda>is res. ebind (comb_project comb is) (\<lambda>c. Inr (res @ [c]))) (combinationOf combIndex d) [])"

definition derive ::
    "(nat list \<Rightarrow> nat \<Rightarrow> nat list list) \<Rightarrow> (comb set \<Rightarrow> comb list) \<Rightarrow> nat \<Rightarrow> comb set \<Rightarrow> resolver \<Rightarrow> resolver res" where
  "derive combinationOf iter t S r =
     efold (\<lambda>comb r. efold (\<lambda>i r. ebind (smallerCombs combinationOf comb i) (\<lambda>cs.
              Inr (r\<lparr>MFC_identified := MFC_identified r \<union> set cs\<rparr>))) [1..<t + 1] r)
       (iter S) r"

text \<open>One turn after the tests for the end: rank, generate, run.\<close>

definition ben_round ::
    "'d arith \<Rightarrow> (comb set \<Rightarrow> comb list) \<Rightarrow> (comb \<Rightarrow> nat \<Rightarrow> nat) \<Rightarrow> comb set \<Rightarrow> resolver \<Rightarrow> resolver res option" where
  "ben_round D iter draws S r =
     (case ebind (computeSuspiciousnessForAllComponents D iter r S Map.empty) (\<lambda>m.
             ebind (rank_combs D iter m r S) (\<lambda>cs. Inr (m, cs))) of
        Inl e \<Rightarrow> Some (Inl e)
      | Inr (m, cs) \<Rightarrow>
          (case generateNewTestcases D draws m r cs {} of
             None \<Rightarrow> None
           | Some (Inl e) \<Rightarrow> Some (Inl e)
           | Some (Inr testcases) \<Rightarrow> Some (efold run_testcase (iter testcases) r)))"

partial_function (option) ben_loop ::
    "(nat list \<Rightarrow> nat \<Rightarrow> nat list list) \<Rightarrow> 'd arith \<Rightarrow> (comb set \<Rightarrow> comb list) \<Rightarrow> (nat \<Rightarrow> comb \<Rightarrow> nat \<Rightarrow> nat) \<Rightarrow> nat \<Rightarrow>
     nat \<Rightarrow> nat option \<Rightarrow> resolver \<Rightarrow> resolver res option" where
  "ben_loop combinationOf D iter draws t turn old r =
     (case getAllSuspiciousCombinations combinationOf iter t r of
        Inl e \<Rightarrow> Some (Inl e)
      | Inr S \<Rightarrow>
          if S = {} then Some (Inr r)
          else if old = Some (card S) then Some (derive combinationOf iter t S r)
          else Option.bind (ben_round D iter (draws turn) S r) (\<lambda>res.
                 case res of Inl e \<Rightarrow> Some (Inl e)
                 | Inr r \<Rightarrow> ben_loop combinationOf D iter draws t (turn + 1) (Some (card S)) r))"

definition ben_conduct ::
    "(nat list \<Rightarrow> nat \<Rightarrow> nat list list) \<Rightarrow> 'd arith \<Rightarrow> (comb set \<Rightarrow> comb list) \<Rightarrow> (nat \<Rightarrow> comb \<Rightarrow> nat \<Rightarrow> nat) \<Rightarrow> nat \<Rightarrow>
     resolver \<Rightarrow> resolver res option" where
  "ben_conduct combinationOf D iter draws t r =
     (if conducted r then Some (Inr r)
      else ben_loop combinationOf D iter draws t 0 None (r\<lparr>conducted := True\<rparr>))"

end
