(* ===== verification/NP_BenRuns.thy ===== *)
theory NP_BenRuns
  imports NP_Ben Complex_Main
begin

text \<open>
  The resolver Ben always returns. Whatever the floating-point operations give, every round runs test cases of the
  same system; when none of them is new the number of suspicious combinations repeats and the loop ends.
\<close>

definition agrees :: "nat \<Rightarrow> comb list \<Rightarrow> resolver \<Rightarrow> bool" where
  "agrees n mfs r \<longleftrightarrow> MFS (the_checker r) = mfs
     \<and> (\<forall>t\<in>set (Tpass r). known n t \<and> \<not> faulty mfs t) \<and> (\<forall>t\<in>set (Tfail r). known n t \<and> faulty mfs t)"

text \<open>Combinations of \<open>t\<close> parameters that occur in a failing test case and in no passing one.\<close>

definition suspects :: "nat \<Rightarrow> nat \<Rightarrow> resolver \<Rightarrow> comb set" where
  "suspects n t r = {c. length c = n \<and> card (supp c) = t \<and> (\<exists>f\<in>set (Tfail r). contains_loop f c) \<and>
     (\<forall>p\<in>set (Tpass r). \<not> contains_loop p c)}"

subsection \<open>Suspicious combinations\<close>

lemma tway_parts:
  assumes "known n f"
  shows "(\<lambda>A. proj A f) ` {A. A \<subseteq> {..<n} \<and> card A = t} = {c. length c = n \<and> card (supp c) = t \<and> contains_loop f c}"
proof (intro set_eqI iffI)
  fix c assume "c \<in> {c. length c = n \<and> card (supp c) = t \<and> contains_loop f c}"
  then have c: "length c = n" "card (supp c) = t" "contains_loop f c" by auto
  then have "proj (supp c) f = c" using assms by (intro proj_supp) (simp_all add: known_def)
  moreover have "supp c \<subseteq> {..<n}" using c(1) by (auto simp: supp_def)
  ultimately show "c \<in> (\<lambda>A. proj A f) ` {A. A \<subseteq> {..<n} \<and> card A = t}" using c(2) by (auto intro!: image_eqI [of _ _ "supp c"])
next
  fix c assume "c \<in> (\<lambda>A. proj A f) ` {A. A \<subseteq> {..<n} \<and> card A = t}"
  then show "c \<in> {c. length c = n \<and> card (supp c) = t \<and> contains_loop f c}"
    using supp_proj [OF assms] assms by (auto simp: proj_contained known_def)
qed

lemma efold_union:
  assumes "\<forall>x\<in>set xs. \<exists>cs. f x = Inr cs \<and> set cs = g x"
  shows "efold (\<lambda>x res. ebind (f x) (\<lambda>cs. Inr (res \<union> set cs))) xs S = Inr (S \<union> (\<Union>x\<in>set xs. g x))"
  using assms by (induction xs arbitrary: S) auto

lemma healthy_eq:
  assumes "\<forall>p\<in>set ts. length p = length c"
  shows "any_contains (\<lambda>p. contains p c) ts = Inr (\<exists>p\<in>set ts. contains_loop p c)"
  using assms by (induction ts) (auto simp: contains_def)

lemma suspicious_eq:
  assumes enum: "enumerates combinationOf" and iter: "traverses iter" and n: "0 \<le> intValue (int (n choose t))" "t \<le> n" and r: "agrees n mfs r"
  shows "getAllSuspiciousCombinations combinationOf iter t r = Inr (suspects n t r)"
    and "finite (suspects n t r)"
proof -
  let ?U = "\<Union>f\<in>set (Tfail r). {c. length c = n \<and> card (supp c) = t \<and> contains_loop f c}"
  have known: "\<forall>f\<in>set (Tfail r). known n f" "\<forall>p\<in>set (Tpass r). length p = n" using r by (auto simp: agrees_def known_def)
  have "\<exists>cs. tWayComb combinationOf t f = Inr cs \<and> set cs = {c. length c = n \<and> card (supp c) = t \<and> contains_loop f c}"
    if "f \<in> set (Tfail r)" for f
  proof -
    have f: "known n f" "length f = n" using known(1) that by (auto simp: known_def)
    show ?thesis using tWayComb_fits [OF enum, of f t] n f(2) tway_parts [OF f(1), of t] by simp
  qed
  then have all: "efold (\<lambda>tfail res. ebind (tWayComb combinationOf t tfail) (\<lambda>cs. Inr (res \<union> set cs))) (Tfail r) {} = Inr ?U"
    using efold_union [of "Tfail r" "tWayComb combinationOf t"
        "\<lambda>f. {c. length c = n \<and> card (supp c) = t \<and> contains_loop f c}" "{}"] by simp
  have fin: "finite ?U"
  proof (intro finite_UN_I finite_set)
    fix f assume "f \<in> set (Tfail r)"
    then have "known n f" using known(1) by simp
    from tway_parts [OF this, of t, symmetric] show "finite {c. length c = n \<and> card (supp c) = t \<and> contains_loop f c}" by simp
  qed
  have "removeIf iter (isCurrentlyHealthy r) ?U = Inr {c \<in> ?U. \<not> (\<exists>p\<in>set (Tpass r). contains_loop p c)}"
    by (rule removeIf_eq [OF iter fin]) (use known(2) healthy_eq in \<open>auto simp: isCurrentlyHealthy_def\<close>)
  moreover have "{c \<in> ?U. \<not> (\<exists>p\<in>set (Tpass r). contains_loop p c)} = suspects n t r" by (auto simp: suspects_def)
  ultimately show "getAllSuspiciousCombinations combinationOf iter t r = Inr (suspects n t r)"
    by (simp add: getAllSuspiciousCombinations_def all)
  show "finite (suspects n t r)" by (rule finite_subset [OF _ fin]) (auto simp: suspects_def)
qed

subsection \<open>Suspiciousness and ranking\<close>

definition rectangular :: "nat \<Rightarrow> (comb set \<Rightarrow> comb list) \<Rightarrow> resolver \<Rightarrow> comb set \<Rightarrow> bool" where
  "rectangular n iter r S \<longleftrightarrow> (\<forall>c\<in>set (Tfail r) \<union> set (Tpass r) \<union> set (iter S). length c = n)"

lemma count_component_total:
  assumes "\<forall>c\<in>set cs. length c = n" "fst p < n"
  shows "\<exists>d. count_component D p cs = Inr d"
proof -
  have "\<exists>d. efold (\<lambda>c m. ebind (comb_get c (fst p)) (\<lambda>v. Inr (if v = snd p then d_add D m (d_one D) else m))) cs z = Inr d" for z
    using assms(1) by (induction cs arbitrary: z) (use assms(2) in \<open>auto simp: comb_get_def\<close>)
  then show ?thesis by (simp add: count_component_def)
qed

lemma one_component_total:
  assumes "rectangular n iter r S" "fst p < n"
  shows "\<exists>d. computeSuspiciousnessForOneComponent D iter r S m p = Inr d"
proof (cases "m p")
  case None
  obtain a b w where "count_component D p (Tfail r) = Inr a" "count_component D p (Tpass r) = Inr b"
      "count_component D p (iter S) = Inr w"
    using count_component_total [OF _ assms(2), of "Tfail r" D] count_component_total [OF _ assms(2), of "Tpass r" D]
      count_component_total [OF _ assms(2), of "iter S" D] assms(1) by (auto simp: rectangular_def)
  then show ?thesis using None by (simp add: computeSuspiciousnessForOneComponent_def Let_def)
qed (simp add: computeSuspiciousnessForOneComponent_def)

lemma put_component_total:
  assumes "rectangular n iter r S" "fst p < n"
  shows "\<exists>m'. put_component D iter r S p m = Inr m' \<and> insert p (dom m) \<subseteq> dom m'"
  using one_component_total [OF assms, where D = D and m = m] by (auto simp: put_component_def)

text \<open>Loops that only add components.\<close>

lemma efold_dom:
  assumes "\<And>x m. x \<in> set xs \<Longrightarrow> \<exists>m'. f x m = Inr m' \<and> dom m \<union> g x \<subseteq> dom m'"
  shows "\<exists>m'. efold f xs m = Inr m' \<and> dom m \<union> (\<Union>x\<in>set xs. g x) \<subseteq> dom m'"
  using assms
proof (induction xs arbitrary: m)
  case (Cons x xs)
  obtain m1 where m1: "f x m = Inr m1" "dom m \<union> g x \<subseteq> dom m1" using Cons.prems [of x m] by auto
  obtain m2 where m2: "efold f xs m1 = Inr m2" "dom m1 \<union> (\<Union>x\<in>set xs. g x) \<subseteq> dom m2"
    using Cons.IH [of m1] Cons.prems by (meson list.set_intros(2))
  have "dom m \<union> (\<Union>x\<in>set (x # xs). g x) \<subseteq> dom m2" using m1(2) m2(2) by (simp only: set_simps UN_insert) blast
  then show ?case using m1(1) m2(1) by simp
qed simp

lemma put_components_total:
  assumes "rectangular n iter r S" "length f = n"
  shows "\<exists>m'. put_components D iter r S f m = Inr m' \<and> dom m \<union> (\<Union>i\<in>set [0..<n]. {(i, f ! i)}) \<subseteq> dom m'"
  unfolding put_components_def assms(2)
proof (rule efold_dom)
  fix i and m :: "'a susp" assume "i \<in> set [0..<n]"
  then have "fst (i, f ! i) < n" by simp
  from put_component_total [OF assms(1) this, of D m]
  show "\<exists>m'. put_component D iter r S (i, f ! i) m = Inr m' \<and> dom m \<union> {(i, f ! i)} \<subseteq> dom m'" by auto
qed

lemma put_all_total:
  assumes "rectangular n iter r S" "\<forall>f\<in>set fs. length f = n"
  shows "\<exists>m'. efold (put_components D iter r S) fs m = Inr m' \<and>
    dom m \<union> (\<Union>f\<in>set fs. \<Union>i\<in>set [0..<n]. {(i, f ! i)}) \<subseteq> dom m'"
proof (rule efold_dom)
  fix f and m :: "'a susp" assume "f \<in> set fs"
  then have "length f = n" using assms(2) by simp
  from put_components_total [OF assms(1) this, of D m]
  show "\<exists>m'. put_components D iter r S f m = Inr m' \<and> dom m \<union> (\<Union>i\<in>set [0..<n]. {(i, f ! i)}) \<subseteq> dom m'" .
qed

text \<open>Every component of a failing test case has a suspiciousness.\<close>

lemma all_components_total:
  assumes "rectangular n iter r S"
  shows "\<exists>m. computeSuspiciousnessForAllComponents D iter r S Map.empty = Inr m \<and>
    (\<forall>f\<in>set (Tfail r). \<forall>i<n. m (i, f ! i) \<noteq> None)"
proof -
  obtain m1 where m1: "efold (put_components D iter r S) (Tfail r) Map.empty = Inr m1"
      "(\<Union>f\<in>set (Tfail r). \<Union>i\<in>set [0..<n]. {(i, f ! i)}) \<subseteq> dom m1"
    using put_all_total [OF assms, of "Tfail r" D Map.empty] assms by (auto simp: rectangular_def)
  obtain m2 where m2: "efold (put_components D iter r S) (Tpass r) m1 = Inr m2" "dom m1 \<subseteq> dom m2"
    using put_all_total [OF assms, of "Tpass r" D m1] assms by (auto simp: rectangular_def)
  have "m2 (i, f ! i) \<noteq> None" if "f \<in> set (Tfail r)" "i < n" for f i
  proof -
    have "(i, f ! i) \<in> (\<Union>f\<in>set (Tfail r). \<Union>i\<in>set [0..<n]. {(i, f ! i)})" using that by auto
    then show ?thesis using m1(2) m2(2) by blast
  qed
  then show ?thesis using m1(1) m2(1) by (auto simp: computeSuspiciousnessForAllComponents_def)
qed

definition rated :: "nat \<Rightarrow> 'd susp \<Rightarrow> comb list \<Rightarrow> bool" where
  "rated n m fs \<longleftrightarrow> (\<forall>f\<in>set fs. length f = n \<and> (\<forall>i<n. m (i, f ! i) \<noteq> None))"

lemma rho_c_total:
  fixes D :: "'d arith"
  assumes "rated n m fs" "f \<in> set fs" "length c = n" "contains_loop f c"
  shows "\<exists>d. getRho_c D m c = Inr d"
proof -
  have f: "length f = n" "\<forall>i<n. m (i, f ! i) \<noteq> None" using assms(1,2) by (auto simp: rated_def)
  have val: "\<exists>d. component_value m i (c ! i) = Inr d" if "i < n" "c ! i \<noteq> UNKNOWN" for i
  proof -
    have "f ! i = c ! i" using that assms(3,4) f(1) by (simp add: contains_loop_iff)
    then show ?thesis using f(2) that(1) by (auto simp: component_value_def split: option.splits)
  qed
  have "\<exists>x. efold (\<lambda>i (rho_c, k). if c ! i \<noteq> UNKNOWN then ebind (component_value m i (c ! i)) (\<lambda>d. Inr (d_add D rho_c d, k + 1))
      else Inr (rho_c, k)) is z = Inr x" if "set is \<subseteq> {..<n}" for "is" and z :: "'d \<times> nat"
    using that
  proof (induction "is" arbitrary: z)
    case (Cons i "is")
    then show ?case using val [of i] by (cases z) auto
  qed simp
  from this [of "[0..<length c]" "(d_zero D, 0)"] show ?thesis using assms(3) by (auto simp: getRho_c_def lessThan_atLeast0)
qed

lemma rho_in_total:
  fixes D :: "'d arith"
  assumes "rated n m fs" "f \<in> set fs" "length c = n"
  shows "\<exists>d. rho_in D m c f = Inr d"
proof -
  have f: "length f = n" "\<forall>i<n. m (i, f ! i) \<noteq> None" using assms(1,2) by (auto simp: rated_def)
  have val: "\<exists>d. component_value m i (f ! i) = Inr d" if "i < n" for i
    using f(2) that by (auto simp: component_value_def split: option.splits)
  have "\<exists>x. efold (\<lambda>i (tmp, k). ebind (comb_get c i) (\<lambda>v. if v = UNKNOWN
      then ebind (component_value m i (f ! i)) (\<lambda>d. Inr (d_add D tmp d, k + 1)) else Inr (tmp, k))) is z = Inr x"
    if "set is \<subseteq> {..<n}" for "is" and z :: "'d \<times> nat"
    using that
  proof (induction "is" arbitrary: z)
    case (Cons i "is")
    then show ?case using val [of i] assms(3) by (cases z) (auto simp: comb_get_def)
  qed simp
  from this [of "[0..<length f]" "(d_zero D, 0)"] show ?thesis using f(1) by (auto simp: rho_in_def lessThan_atLeast0)
qed

lemma rho_e_total:
  assumes "rated n m (Tfail r)" "length c = n"
  shows "\<exists>d. getRho_e D m r c = Inr d"
proof -
  have "\<exists>d. efold (\<lambda>tfail rho_s. ebind (contains tfail c) (\<lambda>b. if \<not> b then Inr rho_s
      else ebind (rho_in D m c tfail) (\<lambda>tmp. Inr (d_min D rho_s tmp)))) fs z = Inr d" if "set fs \<subseteq> set (Tfail r)" for fs z
    using that
  proof (induction fs arbitrary: z)
    case (Cons f fs)
    have "length f = n" using Cons.prems assms(1) by (simp add: rated_def)
    then show ?case using Cons rho_in_total [OF assms(1) _ assms(2), of f D] assms(2) by (auto simp: contains_def)
  qed simp
  then show ?thesis by (simp add: getRho_e_def)
qed

lemma set_insert_ranked: "set (insert_ranked D x ys) = insert x (set ys)"
  by (induction ys) auto

lemma set_ranked: "set (foldr (insert_ranked D) xs []) = set xs"
  by (induction xs) (simp_all add: set_insert_ranked)

text \<open>Ranking only reorders: what is generated afterwards is a set, and does not depend on the order.\<close>

lemma rank_spec:
  assumes m: "rated n m (Tfail r)" and S: "set (iter S) = S"
    and c: "\<forall>c\<in>S. length c = n \<and> (\<exists>f\<in>set (Tfail r). contains_loop f c)"
  shows "\<exists>cs. rank_combs D iter m r S = Inr cs \<and> set cs = S"
proof -
  have "\<exists>ks'. efold (\<lambda>c ks. ebind (getRho_c D m c) (\<lambda>a. ebind (getRho_e D m r c) (\<lambda>b. Inr (ks @ [(d_add D a b, c)])))) cs ks =
      Inr ks' \<and> snd ` set ks' = snd ` set ks \<union> set cs" if "set cs \<subseteq> S" for cs ks
    using that
  proof (induction cs arbitrary: ks)
    case (Cons d cs)
    then obtain f where "f \<in> set (Tfail r)" "contains_loop f d" "length d = n" using c by auto
    then obtain a b where "getRho_c D m d = Inr a" "getRho_e D m r d = Inr b"
      using rho_c_total [OF m, of f d D] rho_e_total [OF m, of d D] by auto
    then show ?case using Cons.IH [of "ks @ [(d_add D a b, d)]"] Cons.prems by (auto simp: image_Un)
  qed simp
  from this [of "iter S" "[]"] S obtain ks' where
    "efold (\<lambda>c ks. ebind (getRho_c D m c) (\<lambda>a. ebind (getRho_e D m r c) (\<lambda>b. Inr (ks @ [(d_add D a b, c)])))) (iter S) [] = Inr ks'"
    "snd ` set ks' = S" by auto
  then show ?thesis using S by (auto simp: rank_combs_def Let_def set_ranked)
qed

subsection \<open>New test cases\<close>

text \<open>A mutable test case equals no stored one, so that the generated one is always taken.\<close>

lemma never_tested: "\<not> tested r (MutableTestcase_class, t)"
  by (simp add: tested_def comb_equals_def list_ex_iff)

definition completed :: "'d arith \<Rightarrow> 'd susp \<Rightarrow> comb \<Rightarrow> comb" where
  "completed D m c = map (\<lambda>i. if c ! i = UNKNOWN then fill_component D m i else c ! i) [0..<length c]"

lemma complete_loop:
  assumes "k \<le> length c"
  shows "fold (\<lambda>i c. if c ! i = UNKNOWN then c[i := fill_component D m i] else c) [0..<k] c =
    take k (completed D m c) @ drop k c"
  using assms
proof (induction k)
  case (Suc k)
  then have k: "k < length c" by simp
  have "drop k c = c ! k # drop (Suc k) c" using k by (simp add: Cons_nth_drop_Suc)
  moreover have "take (Suc k) (completed D m c) = take k (completed D m c) @
      [if c ! k = UNKNOWN then fill_component D m k else c ! k]"
    using k by (simp add: take_Suc_conv_app_nth completed_def)
  moreover have "length (take k (completed D m c)) = k" using k by (simp add: completed_def)
  ultimately show ?case using Suc k by (simp add: nth_append list_update_append)
qed simp

lemma known_completed:
  assumes "length c = n" "known n f" "contains_loop f c"
  shows "known n (completed D m c)"
proof -
  have "(if c ! i = UNKNOWN then fill_component D m i else c ! i) \<in> {0, 1}" if "i < n" for i
  proof -
    have "c ! i \<noteq> UNKNOWN \<longrightarrow> c ! i = f ! i" using that assms by (auto simp: contains_loop_iff known_def)
    moreover have "fill_component D m i \<in> {0, 1}" by (auto simp: fill_component_def split: option.splits)
    ultimately show ?thesis using known_nth [OF assms(2) that] by auto
  qed
  then have "\<forall>v\<in>set (completed D m c). v \<in> {0, 1}" using assms(1) by (fastforce simp: completed_def)
  then show ?thesis using assms(1) by (simp add: known_def completed_def)
qed

lemma generate_one_eq:
  assumes "length c = n" "known n f" "contains_loop f c"
  shows "generateNewTestcaseForOneSuspiciousComb D draws m r c = Some (Inr (completed D m c))"
proof -
  have "length (completed D m c) = length c" by (simp add: completed_def)
  then have "fold (\<lambda>i c. if c ! i = UNKNOWN then c[i := fill_component D m i] else c) [0..<length c] c = completed D m c"
    using complete_loop [of "length c" c D m] by simp
  moreover have "testcase_of_comb (completed D m c) = Inr (completed D m c)"
    using known_completed [OF assms, of D m] by (auto simp: testcase_of_comb_def list_ex_iff known_def UNKNOWN_def)
  ultimately show ?thesis by (simp add: generateNewTestcaseForOneSuspiciousComb_def never_tested)
qed

lemma generate_eq:
  assumes "\<forall>c\<in>set cs. length c = n \<and> (\<exists>f. known n f \<and> contains_loop f c)"
  shows "generateNewTestcases D draws m r cs T = Some (Inr (T \<union> completed D m ` set cs))"
  using assms
proof (induction cs arbitrary: T)
  case (Cons c cs)
  then obtain f where "known n f" "contains_loop f c" "length c = n" by auto
  then show ?case using Cons generate_one_eq [of c n f D draws m r] by simp
qed simp

subsection \<open>Running them\<close>

definition all_tests :: "resolver \<Rightarrow> comb set" where
  "all_tests r = set (Tpass r) \<union> set (Tfail r)"

text \<open>Between two states of the loop: the reported combinations are the same, test cases have been added.\<close>

definition ran :: "nat \<Rightarrow> comb list \<Rightarrow> comb set \<Rightarrow> resolver \<Rightarrow> resolver \<Rightarrow> bool" where
  "ran n mfs T r r' \<longleftrightarrow> agrees n mfs r' \<and> all_tests r' = all_tests r \<union> T \<and> MFC_identified r' = MFC_identified r \<and>
     conducted r' = conducted r"

lemma agrees_split:
  assumes "agrees n mfs r"
  shows "set (Tpass r) = {t \<in> all_tests r. \<not> faulty mfs t}" "set (Tfail r) = {t \<in> all_tests r. faulty mfs t}"
  using assms by (auto simp: agrees_def all_tests_def)

lemma suspects_cong:
  assumes "agrees n mfs r" "agrees n mfs r'" "all_tests r' = all_tests r"
  shows "suspects n t r' = suspects n t r"
  unfolding suspects_def agrees_split [OF assms(1)] agrees_split [OF assms(2)] assms(3) ..

lemma run_one:
  assumes r: "agrees n mfs r" and mfs: "\<forall>mf\<in>set mfs. length mf = n" and x: "known n x"
  shows "\<exists>r'. run_testcase x r = Inr r' \<and> ran n mfs {x} r r'"
proof -
  have "check_loop x (MFS (the_checker r)) = Inr (\<not> faulty mfs x)"
    using check_loop_eq [of mfs x] mfs x r by (simp add: faulty_def known_def agrees_def)
  then show ?thesis using r x
    by (auto simp: run_testcase_def check_def Let_def ran_def agrees_def all_tests_def)
qed

lemma run_all:
  assumes r: "agrees n mfs r" and mfs: "\<forall>mf\<in>set mfs. length mf = n" and x: "\<forall>x\<in>set ts. known n x"
  shows "\<exists>r'. efold run_testcase ts r = Inr r' \<and> ran n mfs (set ts) r r'"
  using r x
proof (induction ts arbitrary: r)
  case (Cons x ts)
  obtain r1 where r1: "run_testcase x r = Inr r1" "ran n mfs {x} r r1" using run_one [OF Cons.prems(1) mfs, of x] Cons.prems by auto
  obtain r2 where r2: "efold run_testcase ts r1 = Inr r2" "ran n mfs (set ts) r1 r2"
    using Cons.IH [of r1] Cons.prems r1(2) by (auto simp: ran_def)
  have "ran n mfs (set (x # ts)) r r2" using r1(2) r2(2) by (auto simp: ran_def)
  then show ?case using r1(1) r2(1) by simp
qed (simp add: ran_def)

lemma round_spec:
  assumes iter: "traverses iter" and mfs: "\<forall>mf\<in>set mfs. length mf = n" and r: "agrees n mfs r"
    and S: "S = suspects n t r" "finite S"
  shows "\<exists>r' T. ben_round D iter draws S r = Some (Inr r') \<and> ran n mfs T r r'"
proof -
  have it: "set (iter S) = S" using iter S(2) by (simp add: traverses_def)
  have c: "\<forall>c\<in>S. length c = n \<and> (\<exists>f\<in>set (Tfail r). contains_loop f c)" by (auto simp: S(1) suspects_def)
  have "rectangular n iter r S" using r it c by (auto simp: rectangular_def agrees_def known_def)
  from all_components_total [OF this, of D] obtain m where
    m: "computeSuspiciousnessForAllComponents D iter r S Map.empty = Inr m" "\<forall>f\<in>set (Tfail r). \<forall>i<n. m (i, f ! i) \<noteq> None"
    by blast
  then have "rated n m (Tfail r)" using r by (auto simp: rated_def agrees_def known_def)
  from rank_spec [where iter = iter and S = S and D = D, OF this it c] obtain cs where cs: "rank_combs D iter m r S = Inr cs" "set cs = S" by blast
  have kn: "\<forall>c\<in>set cs. length c = n \<and> (\<exists>f. known n f \<and> contains_loop f c)" using c cs(2) r by (fastforce simp: agrees_def)
  let ?T = "completed D m ` S"
  have gen: "generateNewTestcases D draws m r cs {} = Some (Inr ?T)" using generate_eq [OF kn, of D draws m r "{}"] cs(2) by simp
  have "set (iter ?T) = ?T" using iter S(2) by (simp add: traverses_def)
  moreover have "\<forall>x\<in>?T. known n x" using kn cs(2) known_completed by blast
  ultimately obtain r' where "efold run_testcase (iter ?T) r = Inr r'" "ran n mfs ?T r r'"
    using run_all [OF r mfs, of "iter ?T"] by auto
  then show ?thesis using m(1) cs(1) gen by (auto simp: ben_round_def)
qed

subsection \<open>What is reported\<close>

lemma smaller_parts:
  "{d. length d = length c \<and> card (supp d) = k \<and> contains_loop c d} = (\<lambda>A. proj A c) ` {A. A \<subseteq> supp c \<and> card A = k}"
proof (intro set_eqI iffI)
  fix d assume "d \<in> {d. length d = length c \<and> card (supp d) = k \<and> contains_loop c d}"
  then have d: "length d = length c" "card (supp d) = k" "contains_loop c d" by auto
  then have "proj (supp d) c = d" by (intro proj_supp) simp_all
  moreover have "supp d \<subseteq> supp c" using d by (auto simp: supp_def contains_loop_iff)
  ultimately show "d \<in> (\<lambda>A. proj A c) ` {A. A \<subseteq> supp c \<and> card A = k}" using d(2) by (auto intro!: image_eqI [of _ _ "supp d"])
next
  fix d assume "d \<in> (\<lambda>A. proj A c) ` {A. A \<subseteq> supp c \<and> card A = k}"
  then obtain A where A: "d = proj A c" "A \<subseteq> supp c" "card A = k" by auto
  then have "supp d = A" by (auto simp: supp_def split: if_splits)
  then show "d \<in> {d. length d = length c \<and> card (supp d) = k \<and> contains_loop c d}" using A by (simp add: proj_contained)
qed

lemma smallerCombs_eq:
  assumes enum: "enumerates combinationOf" and k: "k \<le> card (supp c)"
  shows "\<exists>cs. smallerCombs combinationOf c k = Inr cs \<and>
    set cs = {d. length d = length c \<and> card (supp d) = k \<and> contains_loop c d}"
proof -
  let ?idx = "filter (\<lambda>i. c ! i \<noteq> UNKNOWN) [0..<length c]"
  let ?is = "combinationOf ?idx k"
  have idx: "distinct ?idx" "set ?idx = supp c" by (auto simp: supp_def)
  then have "k \<le> length ?idx" using k distinct_card [OF idx(1)] by simp
  from enum [unfolded enumerates_def, rule_format, OF idx(1) this]
  have sets: "set ` set ?is = {A. A \<subseteq> supp c \<and> card A = k}" unfolding idx(2) .
  have "comb_project c x = Inr (proj (set x) c)" if "x \<in> set ?is" for x
  proof -
    have "set x \<in> set ` set ?is" using that by simp
    then have "set x \<subseteq> {..<length c}" unfolding sets by (auto simp: supp_def)
    then show ?thesis by (rule comb_project_eq)
  qed
  then have "smallerCombs combinationOf c k = Inr (map (\<lambda>x. proj (set x) c) ?is)"
    using efold_collect [of ?is "comb_project c" "\<lambda>x. proj (set x) c" "\<lambda>c. [c]" "[]"]
    by (simp add: smallerCombs_def Let_def comp_def)
  moreover have "set (map (\<lambda>x. proj (set x) c) ?is) = {d. length d = length c \<and> card (supp d) = k \<and> contains_loop c d}"
    unfolding smaller_parts sets [symmetric] by (simp only: set_map image_image)
  ultimately show ?thesis by blast
qed

lemma sizes_parts:
  assumes "card (supp c) = t"
  shows "(\<Union>k\<in>set [1..<t + 1]. {d. length d = length c \<and> card (supp d) = k \<and> contains_loop c d}) = subcombs c"
proof (intro set_eqI iffI)
  fix d assume "d \<in> subcombs c"
  then have d: "length d = length c" "supp d \<noteq> {}" "contains_loop c d" by (auto simp: subcombs_def)
  have fin: "finite (supp c)" "finite (supp d)" by (auto simp: supp_def)
  have "supp d \<subseteq> supp c" using d by (auto simp: supp_def contains_loop_iff)
  then have "card (supp d) \<le> t" using card_mono [OF fin(1)] assms by simp
  moreover have "0 < card (supp d)" using d(2) fin(2) by (simp add: card_gt_0_iff)
  ultimately have "card (supp d) \<in> set [1..<t + 1]" by simp linarith
  then show "d \<in> (\<Union>k\<in>set [1..<t + 1]. {d. length d = length c \<and> card (supp d) = k \<and> contains_loop c d})" using d by auto
qed (auto simp: subcombs_def)

lemma derive_eq:
  assumes enum: "enumerates combinationOf" and iter: "traverses iter" "finite S" and S: "\<forall>c\<in>S. card (supp c) = t"
  shows "derive combinationOf iter t S r = Inr (r\<lparr>MFC_identified := MFC_identified r \<union> (\<Union>c\<in>S. subcombs c)\<rparr>)"
proof -
  have one: "efold (\<lambda>i r. ebind (smallerCombs combinationOf c i) (\<lambda>cs. Inr (r\<lparr>MFC_identified := MFC_identified r \<union> set cs\<rparr>))) ks r =
      Inr (r\<lparr>MFC_identified := MFC_identified r \<union>
        (\<Union>k\<in>set ks. {d. length d = length c \<and> card (supp d) = k \<and> contains_loop c d})\<rparr>)"
    if "\<forall>k\<in>set ks. k \<le> card (supp c)" for c ks and r :: resolver
    using that
  proof (induction ks arbitrary: r)
    case (Cons k ks)
    obtain cs where "smallerCombs combinationOf c k = Inr cs"
        "set cs = {d. length d = length c \<and> card (supp d) = k \<and> contains_loop c d}"
      using smallerCombs_eq [OF enum, of k c] Cons.prems by auto
    then show ?case using Cons by (simp add: Un_assoc)
  qed simp
  have "efold (\<lambda>comb r. efold (\<lambda>i r. ebind (smallerCombs combinationOf comb i) (\<lambda>cs.
      Inr (r\<lparr>MFC_identified := MFC_identified r \<union> set cs\<rparr>))) [1..<t + 1] r) cs r =
      Inr (r\<lparr>MFC_identified := MFC_identified r \<union> (\<Union>c\<in>set cs. subcombs c)\<rparr>)" if "set cs \<subseteq> S" for cs and r :: resolver
    using that
  proof (induction cs arbitrary: r)
    case (Cons c cs)
    have "card (supp c) = t" using S Cons.prems by auto
    then show ?case using one [of "[1..<t + 1]" c r] sizes_parts [of c t] Cons by (simp add: Un_assoc del: upt_Suc)
  qed simp
  from this [of "iter S" r] show ?thesis using iter by (simp add: derive_def traverses_def)
qed

subsection \<open>The loop ends\<close>

lemma ben_done:
  assumes "getAllSuspiciousCombinations combinationOf iter t r = Inr {}"
  shows "ben_loop combinationOf D iter draws t turn old r = Some (Inr r)"
  by (subst ben_loop.simps) (simp add: assms)

lemma ben_repeat:
  assumes "getAllSuspiciousCombinations combinationOf iter t r = Inr S" "S \<noteq> {}" "old = Some (card S)"
  shows "ben_loop combinationOf D iter draws t turn old r = Some (derive combinationOf iter t S r)"
  by (subst ben_loop.simps) (simp add: assms)

lemma ben_turn:
  assumes "getAllSuspiciousCombinations combinationOf iter t r = Inr S" "S \<noteq> {}" "old \<noteq> Some (card S)"
    and "ben_round D iter (draws turn) S r = Some (Inr r')"
  shows "ben_loop combinationOf D iter draws t turn old r =
    ben_loop combinationOf D iter draws t (turn + 1) (Some (card S)) r'"
  by (subst ben_loop.simps) (simp add: assms)

text \<open>What holds when the loop has ended.\<close>

definition ben_ended :: "nat \<Rightarrow> nat \<Rightarrow> comb list \<Rightarrow> resolver \<Rightarrow> resolver \<Rightarrow> bool" where
  "ben_ended n t mfs r r' \<longleftrightarrow> agrees n mfs r' \<and> all_tests r \<subseteq> all_tests r' \<and> conducted r' = conducted r \<and>
     MFC_identified r' = MFC_identified r \<union> (\<Union>c\<in>suspects n t r'. subcombs c)"

lemma ben_ended_ran:
  assumes "ran n mfs T r r1" "ben_ended n t mfs r1 r'"
  shows "ben_ended n t mfs r r'"
  using assms by (auto simp: ran_def ben_ended_def)

lemma derive_ends:
  assumes enum: "enumerates combinationOf" and iter: "traverses iter" and fin: "finite (suspects n t r)"
    and r: "agrees n mfs r"
  shows "\<exists>r'. derive combinationOf iter t (suspects n t r) r = Inr r' \<and> ben_ended n t mfs r r'"
proof -
  let ?r = "r\<lparr>MFC_identified := MFC_identified r \<union> (\<Union>c\<in>suspects n t r. subcombs c)\<rparr>"
  have "derive combinationOf iter t (suspects n t r) r = Inr ?r"
    by (rule derive_eq [OF enum iter fin]) (simp add: suspects_def)
  moreover have "suspects n t ?r = suspects n t r" by (simp add: suspects_def)
  then have "ben_ended n t mfs r ?r" using r by (simp add: ben_ended_def agrees_def all_tests_def)
  ultimately show ?thesis by blast
qed

lemma finite_known: "finite {x. known n x}"
proof (rule finite_subset)
  show "{x. known n x} \<subseteq> {xs. set xs \<subseteq> {0, 1} \<and> length xs = n}" by (auto simp: known_def)
  show "finite {xs. set xs \<subseteq> {0, 1 :: int} \<and> length xs = n}" by (rule finite_lists_length_eq) simp
qed

lemma untested_card_less:
  assumes "agrees n mfs r1" "all_tests r \<subset> all_tests r1"
  shows "card {x. known n x \<and> x \<notin> all_tests r1} < card {x. known n x \<and> x \<notin> all_tests r}"
proof (rule psubset_card_mono)
  have "finite {x. known n x}" by (rule finite_known)
  then show "finite {x. known n x \<and> x \<notin> all_tests r}" by (rule rev_finite_subset) auto
  have "\<forall>x\<in>all_tests r1. known n x" using assms(1) by (auto simp: agrees_def all_tests_def)
  then show "{x. known n x \<and> x \<notin> all_tests r1} \<subset> {x. known n x \<and> x \<notin> all_tests r}" using assms(2) by blast
qed

lemma ben_loop_spec:
  assumes enum: "enumerates combinationOf" and iter: "traverses iter" and n: "0 \<le> intValue (int (n choose t))" "t \<le> n"
    and mfs: "\<forall>mf\<in>set mfs. length mf = n"
  shows "agrees n mfs r \<Longrightarrow> \<exists>r'. ben_loop combinationOf D iter draws t turn old r = Some (Inr r') \<and> ben_ended n t mfs r r'"
proof (induction "card {x. known n x \<and> x \<notin> all_tests r}" arbitrary: r turn old rule: less_induct)
  case less
  note r = less.prems
  let ?S = "suspects n t r"
  note S = suspicious_eq [where mfs = mfs, OF enum iter n]
  have ended: "\<exists>r'. ben_loop combinationOf D iter draws t u (Some (card (suspects n t q))) q = Some (Inr r') \<and> ben_ended n t mfs q r'"
    if "agrees n mfs q" "suspects n t q \<noteq> {}" for q u
    using ben_repeat [OF S(1) [OF that(1)] that(2) refl, of D draws u] derive_ends [OF enum iter S(2) [OF that(1)] that(1)]
    by auto
  consider "?S = {}" | "?S \<noteq> {}" "old = Some (card ?S)" | "?S \<noteq> {}" "old \<noteq> Some (card ?S)" by blast
  then show ?case
  proof cases
    case 1
    then show ?thesis using ben_done [of combinationOf iter t r D draws turn old] S(1) [OF r] r by (auto simp: ben_ended_def)
  next
    case 2
    then show ?thesis using ended [OF r 2(1)] by simp
  next
    case 3
    obtain r1 T where r1: "ben_round D iter (draws turn) ?S r = Some (Inr r1)" "ran n mfs T r r1"
      using round_spec [OF iter mfs r refl S(2) [OF r], of D "draws turn"] by blast
    note step = ben_turn [where draws = draws and turn = turn, OF S(1) [OF r] 3 r1(1)]
    have a1: "agrees n mfs r1" "all_tests r \<subseteq> all_tests r1" using r1(2) by (auto simp: ran_def)
    have "\<exists>r'. ben_loop combinationOf D iter draws t (turn + 1) (Some (card ?S)) r1 = Some (Inr r') \<and> ben_ended n t mfs r1 r'"
    proof (cases "all_tests r1 = all_tests r")
      case True
      from suspects_cong [OF r a1(1) this] have "suspects n t r1 = ?S" .
      then show ?thesis using ended [OF a1(1)] 3(1) by metis
    next
      case False
      then show ?thesis using less.hyps [OF untested_card_less [OF a1(1)] a1(1)] a1(2) by blast
    qed
    then show ?thesis using step ben_ended_ran [OF r1(2)] by auto
  qed
qed

subsection \<open>Faulty combinations are reported\<close>

text \<open>A faulty combination of at most \<open>t\<close> parameters extends to a suspicious one, since no passing test case contains it.\<close>

lemma fault_in_suspect:
  assumes r: "agrees n mfs r" and mfs: "\<forall>mf\<in>set mfs. length mf = n" and t: "t \<le> n"
    and mf: "mf \<in> set mfs" "card (supp mf) \<le> t" and f: "f \<in> set (Tfail r)" "contains_loop f mf"
  shows "\<exists>c\<in>suspects n t r. contains_loop c mf"
proof -
  have "known n f" using r f(1) by (simp add: agrees_def)
  have len: "length mf = n" "length f = n" using mfs mf(1) \<open>known n f\<close> by (auto simp: known_def)
  have "supp mf \<subseteq> {..<n}" using len by (auto simp: supp_def)
  then obtain A where A: "supp mf \<subseteq> A" "A \<subseteq> {..<n}" "card A = t"
    using exists_subset_between [of "supp mf" t "{..<n}"] mf(2) t by auto
  have c: "contains_loop (proj A f) mf" using A(1) f(2) len by (auto simp: contains_loop_iff supp_def)
  have "\<not> contains_loop p (proj A f)" if "p \<in> set (Tpass r)" for p
  proof
    assume "contains_loop p (proj A f)"
    moreover have "length p = n" "\<not> faulty mfs p" using r that by (auto simp: agrees_def known_def)
    ultimately show False using contains_loop_trans [of p "proj A f" mf] c len mf(1) by (auto simp: faulty_def)
  qed
  then have "proj A f \<in> suspects n t r"
    using f(1) len supp_proj [OF \<open>known n f\<close> A(2)] A(3) proj_contained [of f A] by (auto simp: suspects_def)
  then show ?thesis using c by blast
qed

lemma subcombs_mono: "length d = length c \<Longrightarrow> contains_loop c d \<Longrightarrow> subcombs d \<subseteq> subcombs c"
  using contains_loop_trans by (auto simp: subcombs_def)

lemma ben_spec:
  assumes mfs: "\<forall>mf\<in>set (MFS ck). length mf = n" and n: "0 \<le> intValue (int (n choose t))" "t \<le> n"
    and iter: "traverses iter" and enum: "enumerates combinationOf"
    and tf: "\<forall>x\<in>set tfails. known n x \<and> faulty (MFS ck) x" and tp: "\<forall>x\<in>set tpass. passing n (MFS ck) x"
    and new: "resolver_new ck tpass tfails = Inr r"
  shows "\<exists>r'. ben_conduct combinationOf D iter draws t r = Some (Inr r') \<and> conducted r' \<and>
    agrees n (MFS ck) r' \<and> set tfails \<subseteq> set (Tfail r') \<and>
    MFC_identified r' = (\<Union>c\<in>suspects n t r'. subcombs c) \<and>
    {mf \<in> set (MFS ck). card (supp mf) \<le> t \<and> supp mf \<noteq> {} \<and> (\<exists>f\<in>set tfails. contains_loop f mf)} \<subseteq> MFC_identified r'"
proof -
  have r: "Tpass r = tpass" "Tfail r = tfails" "MFS (the_checker r) = MFS ck" "\<not> conducted r" "MFC_identified r = {}"
    using new by (auto simp: resolver_new_def split: if_splits)
  let ?r = "r\<lparr>conducted := True\<rparr>"
  have ag: "agrees n (MFS ck) ?r" using r tf tp by (simp add: agrees_def passing_def)
  obtain r' where r': "ben_loop combinationOf D iter draws t 0 None ?r = Some (Inr r')" "ben_ended n t (MFS ck) ?r r'"
    using ben_loop_spec [where D = D and draws = draws and turn = 0 and old = None, OF enum iter n mfs ag] by blast
  then have e: "agrees n (MFS ck) r'" "all_tests ?r \<subseteq> all_tests r'" "conducted r'"
      "MFC_identified r' = (\<Union>c\<in>suspects n t r'. subcombs c)"
    using r(5) by (simp_all add: ben_ended_def)
  have fails: "set tfails \<subseteq> set (Tfail r')"
    using agrees_split(2) [OF ag] agrees_split(2) [OF e(1)] e(2) r(2) by auto
  have "mf \<in> MFC_identified r'" if mf: "mf \<in> set (MFS ck)" "card (supp mf) \<le> t" "supp mf \<noteq> {}"
    and f: "f \<in> set tfails" "contains_loop f mf" for mf f
  proof -
    obtain c where c: "c \<in> suspects n t r'" "contains_loop c mf"
      using fault_in_suspect [OF e(1) mfs n(2) mf(1,2) _ f(2)] fails f(1) by blast
    then have "length mf = length c" using mfs mf(1) by (simp add: suspects_def)
    then have "mf \<in> subcombs c" using c(2) mf(3) by (simp add: subcombs_def)
    then show ?thesis using c(1) e(4) by blast
  qed
  then have "{mf \<in> set (MFS ck). card (supp mf) \<le> t \<and> supp mf \<noteq> {} \<and> (\<exists>f\<in>set tfails. contains_loop f mf)} \<subseteq> MFC_identified r'"
    by blast
  then show ?thesis using r'(1) r(4) e fails unfolding ben_conduct_def by (intro exI [of _ r']) simp
qed

text \<open>The capacity of a list decides before anything else: a strength above the number of parameters, or a binomial
  coefficient that is negative as an \<open>int\<close>, raises in the first call of \<open>tWayComb\<close>.\<close>

lemma ben_raises:
  assumes len: "\<forall>x\<in>set tfails. length x = n" and new: "resolver_new ck tpass tfails = Inr r"
    and bad: "n_choose_k (int n) (int t) = Inl err \<or>
      (\<exists>cap. n_choose_k (int n) (int t) = Inr cap \<and> cap < 0 \<and> err = IllegalArgumentException ''Illegal Capacity'')"
  shows "ben_conduct combinationOf D iter draws t r = Some (Inl err)"
proof -
  obtain f fs where f: "tfails = f # fs" using new by (cases tfails) (auto simp: resolver_new_def)
  have r: "Tfail (r\<lparr>conducted := True\<rparr>) = tfails" "\<not> conducted r" using new by (auto simp: resolver_new_def split: if_splits)
  have "length f = n" using len f by simp
  then have "tWayComb combinationOf t f = Inl err" using bad by (auto simp: tWayComb_def)
  then have "getAllSuspiciousCombinations combinationOf iter t (r\<lparr>conducted := True\<rparr>) = Inl err"
    unfolding getAllSuspiciousCombinations_def r(1) f by simp
  then show ?thesis using r(2) by (simp add: ben_conduct_def) (subst ben_loop.simps, simp)
qed

lemma n_choose_k_invalid: "n < t \<Longrightarrow> n_choose_k (int n) (int t) = Inl (IllegalArgumentException ''k is invalid!'')"
  by (simp add: n_choose_k_def)

text \<open>C8. What Ben does for any number of parameters and any strength. If the strength exceeds the number of
  parameters, or if the number of combinations of that many parameters is negative when it is cut to 32 bits (which
  cannot happen up to 30 parameters), it raises before it runs a test case. Otherwise it always
  returns, without raising, whatever its floating-point operations give, whatever random indices
  it draws and in whatever order the hash sets are traversed: every round runs test cases of the same system, and a
  round that runs no new one leaves the suspicious combinations as they were. All test cases it has then stored under
  their outcome are test cases of the system; it reports every part of every combination of \<open>t\<close> parameters that
  occurs in a stored failing test case and in no passing one, and among them every faulty combination of at most
  \<open>t\<close> parameters that a given failing test case contains.\<close>

theorem ben_returns_all_faults:
  assumes "\<forall>mf\<in>set (MFS ck). length mf = n"
    and "traverses iter" and "enumerates combinationOf"
    and "\<forall>x\<in>set tfails. known n x \<and> faulty (MFS ck) x" and "\<forall>x\<in>set tpass. passing n (MFS ck) x"
    and "resolver_new ck tpass tfails = Inr r"
  shows "if n < t then ben_conduct combinationOf D iter draws t r = Some (Inl (IllegalArgumentException ''k is invalid!''))
    else if intValue (int (n choose t)) < 0
    then ben_conduct combinationOf D iter draws t r = Some (Inl (IllegalArgumentException ''Illegal Capacity''))
    else \<exists>r'. ben_conduct combinationOf D iter draws t r = Some (Inr r') \<and> conducted r' \<and>
      agrees n (MFS ck) r' \<and> set tfails \<subseteq> set (Tfail r') \<and>
      MFC_identified r' = (\<Union>c\<in>suspects n t r'. subcombs c) \<and>
      {mf \<in> set (MFS ck). card (supp mf) \<le> t \<and> supp mf \<noteq> {} \<and> (\<exists>f\<in>set tfails. contains_loop f mf)} \<subseteq> MFC_identified r'"
proof -
  have len: "\<forall>x\<in>set tfails. length x = n" using assms(4) by (simp add: known_def)
  consider "n < t" | "t \<le> n" "intValue (int (n choose t)) < 0" | "t \<le> n" "0 \<le> intValue (int (n choose t))" by linarith
  then show ?thesis
  proof cases
    case 1
    then show ?thesis using ben_raises [OF len assms(6), of t "IllegalArgumentException ''k is invalid!''"] n_choose_k_invalid [of n t] by simp
  next
    case 2
    then show ?thesis using ben_raises [OF len assms(6), of t "IllegalArgumentException ''Illegal Capacity''"] n_choose_k_eq [of t n] by simp
  next
    case 3
    then show ?thesis using ben_spec [where D = D and draws = draws, OF assms(1) 3(2,1) assms(2-6)] by simp
  qed
qed

text \<open>Exact arithmetic, with the largest value of type \<open>double\<close>.\<close>

definition rat_arith :: "rat arith" where
  "rat_arith = \<lparr>d_zero = 0, d_one = 1, d_three = 3, d_MAX = 2 ^ 1024 - 2 ^ 971, d_of_int = of_nat, d_add = (+), d_div = (/),
     d_min = min, d_greater = (>), d_compare = (\<lambda>a b. if a < b then -1 else if a = b then 0 else 1)\<rparr>"

theorem ben_returns_all_faults_witness:
  "\<exists>r'. ben_conduct combinations rat_arith sorted_list_of_set (\<lambda>turn c k. 2) 2
     ((demo_resolver [[1, 1, 0], [1, 0, 0]] False)\<lparr>safeValues := None\<rparr>) = Some (Inr r') \<and>
     {[1, -1, 0], [-1, 1, -1]} \<subseteq> MFC_identified r'"
proof -
  let ?ck = "checker_new demo_mfs" and ?fails = "[[1, 1, 0], [1, 0, 0]] :: comb list"
  have mfs: "\<forall>mf\<in>set (MFS ?ck). length mf = 3" by (simp add: demo_defs)
  have tf: "\<forall>x\<in>set ?fails. known 3 x \<and> faulty (MFS ?ck) x" by (simp add: known_def faulty_def demo_defs UNKNOWN_def)
  have tp: "\<forall>x\<in>set ([] :: comb list). passing 3 (MFS ?ck) x" by simp
  have "resolver_new ?ck [] ?fails = Inr ((demo_resolver ?fails False)\<lparr>safeValues := None\<rparr>)"
    by (simp add: resolver_new_def demo_resolver_def)
  from ben_returns_all_faults [where D = rat_arith and draws = "\<lambda>turn c k. 2" and t = 2,
      OF mfs traverses_sorted enumerates_combinations tf tp this]
  have "\<exists>r'. ben_conduct combinations rat_arith sorted_list_of_set (\<lambda>turn c k. 2) 2
      ((demo_resolver ?fails False)\<lparr>safeValues := None\<rparr>) = Some (Inr r') \<and>
      {mf \<in> set (MFS ?ck). card (supp mf) \<le> 2 \<and> supp mf \<noteq> {} \<and> (\<exists>f\<in>set ?fails. contains_loop f mf)} \<subseteq> MFC_identified r'"
    using choose_fits [of 3 2] by auto
  moreover have "{[1, -1, 0], [-1, 1, -1]} \<subseteq>
      {mf \<in> set (MFS ?ck). card (supp mf) \<le> 2 \<and> supp mf \<noteq> {} \<and> (\<exists>f\<in>set ?fails. contains_loop f mf)}"
    by (simp add: demo_defs demo_supp UNKNOWN_def)
  ultimately show ?thesis by blast
qed

end
