(* ===== verification/CVS_Buffer.thy ===== *)
theory CVS_Buffer
  imports Prelude
begin

text \<open>
  The buffer data structure of the CVS client and server (bugs/cvs/src/buffer.c): the pool of
  fixed-size blocks, appending to a buffer, and sending and flushing it.

  A \<open>struct buffer_data\<close> is the record \<open>buffer_data\<close>: an array of \<open>BUFFER_DATA_SIZE\<close> bytes, an
  offset for \<open>bufp\<close> and the number of bytes in use. The \<open>next\<close> pointers are the order of a list, and
  \<open>buf->last\<close> is the last element of a non-empty chain; for an empty chain the code distinguishes
  only whether it is NULL, which is the flag \<open>last_null\<close>. \<open>BUFFER_DATA_SIZE\<close> is defined in
  buffer.h; it is the parameter \<open>bds\<close>.

  The static list \<open>free_buffer_data\<close> and what \<open>valloc\<close> will return are the record \<open>pool\<close>, which
  every operation threads through. \<open>mem_errors\<close> counts the calls of the buffer's \<open>memory_error\<close>
  handler, which is assumed to return (the default handler ends the process instead).

  Every \<open>memcpy\<close> into a block is checked: \<open>OutOfBounds\<close> stands for a write past the array, so a
  theorem that a result is \<open>Inr\<close> includes memory safety. \<open>abort\<close>, a failed \<open>assert\<close> and an exit
  through \<open>error (1, ...)\<close> are the other error values.

  Device functions (\<open>input_fn\<close>, \<open>output_fn\<close>, \<open>flush_fn\<close>, \<open>block_fn\<close>) are fields of the buffer, \<open>None\<close> for a NULL
  pointer; they map the closure to a status, their result and the new closure.
\<close>

record buffer_data =
  dtext :: "byte list"
  dbufp :: nat
  dsize :: nat

record pool =
  free_buffer_data :: "buffer_data list"
  valloc :: "byte list list"
  mem_errors :: nat

record 'c buffer =
  bdata :: "buffer_data list"
  last_null :: bool
  nonblocking :: bool
  input_fn :: "('c \<Rightarrow> nat \<Rightarrow> nat \<Rightarrow> pool \<Rightarrow> (int \<times> byte list \<times> 'c \<times> pool) cres) option"
  output_fn :: "('c \<Rightarrow> byte list \<Rightarrow> pool \<Rightarrow> (int \<times> nat \<times> 'c \<times> pool) cres) option"
  flush_fn :: "('c \<Rightarrow> pool \<Rightarrow> (int \<times> 'c \<times> pool) cres) option"
  block_fn :: "('c \<Rightarrow> bool \<Rightarrow> pool \<Rightarrow> (int \<times> 'c \<times> pool) cres) option"
  closure :: 'c

definition ENOMEM :: int where
  "ENOMEM = 12"

definition EIO :: int where
  "EIO = 5"

subsection \<open>Creating and freeing\<close>

definition buf_initialize where
  "buf_initialize inp outp fl bl c =
     \<lparr>bdata = [], last_null = True, nonblocking = False, input_fn = inp, output_fn = outp, flush_fn = fl,
      block_fn = bl, closure = c\<rparr>"

definition buf_nonio_initialize :: "'c \<Rightarrow> 'c buffer" where
  "buf_nonio_initialize c = buf_initialize None None None None c"

definition buf_free :: "'c buffer \<Rightarrow> pool \<Rightarrow> pool" where
  "buf_free buf p =
     (if bdata buf \<noteq> [] then p\<lparr>free_buffer_data := bdata buf @ free_buffer_data p\<rparr> else p)"

subsection \<open>The pool of blocks\<close>

definition ALLOC_COUNT :: nat where
  "ALLOC_COUNT = 16"

definition allocate_buffer_datas :: "nat \<Rightarrow> pool \<Rightarrow> pool" where
  "allocate_buffer_datas bds p =
     (case valloc p of
        [] \<Rightarrow> p
      | space # rest \<Rightarrow>
          p\<lparr>valloc := rest,
            free_buffer_data :=
              fold (\<lambda>i free. \<lparr>dtext = mem_read (i * bds) bds space, dbufp = 0, dsize = 0\<rparr> # free)
                [0..<ALLOC_COUNT] (free_buffer_data p)\<rparr>)"

definition get_buffer_data :: "nat \<Rightarrow> pool \<Rightarrow> buffer_data option \<times> pool" where
  "get_buffer_data bds p =
     (let p' = (if free_buffer_data p = [] then allocate_buffer_datas bds p else p)
      in case free_buffer_data p' of
           [] \<Rightarrow> (None, p')
         | ret # rest \<Rightarrow> (Some ret, p'\<lparr>free_buffer_data := rest\<rparr>))"

definition memory_error :: "pool \<Rightarrow> pool" where
  "memory_error p = p\<lparr>mem_errors := mem_errors p + 1\<rparr>"

text \<open>Blocks that can still be handed out, and the shape every block has.\<close>

definition pool_blocks :: "pool \<Rightarrow> nat" where
  "pool_blocks p = length (free_buffer_data p) + ALLOC_COUNT * length (valloc p)"

definition pool_ok :: "nat \<Rightarrow> pool \<Rightarrow> bool" where
  "pool_ok bds p \<longleftrightarrow> (\<forall>d\<in>set (free_buffer_data p). length (dtext d) = bds) \<and>
     (\<forall>s\<in>set (valloc p). length s = ALLOC_COUNT * bds)"

definition chunk_wf :: "nat \<Rightarrow> buffer_data \<Rightarrow> bool" where
  "chunk_wf bds d \<longleftrightarrow> length (dtext d) = bds \<and> dbufp d + dsize d \<le> bds"

definition chunk_bytes :: "buffer_data \<Rightarrow> byte list" where
  "chunk_bytes d = mem_read (dbufp d) (dsize d) (dtext d)"

definition contents :: "buffer_data list \<Rightarrow> byte list" where
  "contents ds = concat (map chunk_bytes ds)"

definition buf_wf :: "nat \<Rightarrow> 'c buffer \<Rightarrow> bool" where
  "buf_wf bds buf \<longleftrightarrow> (\<forall>d\<in>set (bdata buf). chunk_wf bds d)"

definition last_ok :: "'c buffer \<Rightarrow> bool" where
  "last_ok buf \<longleftrightarrow> (bdata buf = [] \<longrightarrow> last_null buf)"

lemma alloc_fold:
  "fold (\<lambda>i free. f i # free) [0..<k] fs = rev (map f [0..<k]) @ fs"
  by (induction k) auto

lemma get_buffer_data_blocks:
  "get_buffer_data bds p = (Some d, p') \<Longrightarrow> pool_blocks p = Suc (pool_blocks p')"
  by (auto simp: get_buffer_data_def allocate_buffer_datas_def pool_blocks_def alloc_fold Let_def
      ALLOC_COUNT_def upt_conv_Cons split: list.splits if_splits)

subsection \<open>Looking at a buffer\<close>

fun buf_empty_loop :: "buffer_data list \<Rightarrow> bool" where
  "buf_empty_loop [] = True"
| "buf_empty_loop (d # ds) = (if dsize d > 0 then False else buf_empty_loop ds)"

definition buf_empty_p :: "'c buffer \<Rightarrow> bool" where
  "buf_empty_p buf = buf_empty_loop (bdata buf)"

definition buf_count_mem :: "nat \<Rightarrow> 'c buffer \<Rightarrow> 32 word" where
  "buf_count_mem bds buf = fold (\<lambda>d mem. mem + of_nat bds) (bdata buf) 0"

definition buf_chain_length :: "buffer_data list \<Rightarrow> 32 word" where
  "buf_chain_length ds = fold (\<lambda>d size. size + of_nat (dsize d)) ds 0"

definition buf_length :: "'c buffer \<Rightarrow> 32 word" where
  "buf_length buf = buf_chain_length (bdata buf)"

subsection \<open>Appending\<close>

text \<open>\<open>memcpy\<close> behind the used part of the last block.\<close>

definition chunk_put :: "byte list \<Rightarrow> buffer_data \<Rightarrow> buffer_data cres" where
  "chunk_put bytes d =
     ebind (memcpy (dbufp d + dsize d) bytes (dtext d))
       (\<lambda>t. Inr (d\<lparr>dtext := t, dsize := dsize d + length bytes\<rparr>))"

definition put_last :: "byte list \<Rightarrow> 'c buffer \<Rightarrow> 'c buffer cres" where
  "put_last bytes buf =
     ebind (chunk_put bytes (last (bdata buf)))
       (\<lambda>d. Inr (buf\<lparr>bdata := butlast (bdata buf) @ [d]\<rparr>))"

definition buf_append_data :: "'c buffer \<Rightarrow> buffer_data list \<Rightarrow> 'c buffer" where
  "buf_append_data buf ds =
     (if ds \<noteq> [] then buf\<lparr>bdata := bdata buf @ ds, last_null := False\<rparr> else buf)"

function buf_output_loop ::
  "nat \<Rightarrow> 'c buffer \<Rightarrow> byte list \<Rightarrow> pool \<Rightarrow> ('c buffer \<times> pool) cres" where
  "buf_output_loop bds buf bytes p =
     (case get_buffer_data bds p of
        (None, p') \<Rightarrow> Inr (buf, memory_error p')
      | (Some newdata, p') \<Rightarrow>
          if length bytes \<le> bds
          then ebind (memcpy 0 bytes (dtext newdata)) (\<lambda>t.
                 Inr (buf_append_data buf [\<lparr>dtext = t, dbufp = 0, dsize = length bytes\<rparr>], p'))
          else ebind (memcpy 0 (take bds bytes) (dtext newdata)) (\<lambda>t.
                 buf_output_loop bds (buf_append_data buf [\<lparr>dtext = t, dbufp = 0, dsize = bds\<rparr>])
                   (drop bds bytes) p'))"
  by pat_completeness auto
termination
  by (relation "measure (\<lambda>(bds, buf, bytes, p). pool_blocks p)") (auto dest: get_buffer_data_blocks [OF sym])

declare buf_output_loop.simps [simp del]

definition buf_output :: "nat \<Rightarrow> 'c buffer \<Rightarrow> byte list \<Rightarrow> pool \<Rightarrow> ('c buffer \<times> pool) cres" where
  "buf_output bds buf bytes p =
     (if bdata buf \<noteq> [] \<and>
         int bds - int (dbufp (last (bdata buf)) + dsize (last (bdata buf))) \<ge> int (length bytes)
      then ebind (put_last bytes buf) (\<lambda>buf'. Inr (buf', p))
      else buf_output_loop bds buf bytes p)"

text \<open>A C string argument is the list of its bytes up to the terminating zero.\<close>

definition buf_output0 :: "nat \<Rightarrow> 'c buffer \<Rightarrow> byte list \<Rightarrow> pool \<Rightarrow> ('c buffer \<times> pool) cres" where
  "buf_output0 bds buf str p = buf_output bds buf (takeWhile (\<lambda>b. b \<noteq> 0) str) p"

definition buf_append_char :: "nat \<Rightarrow> 'c buffer \<Rightarrow> byte \<Rightarrow> pool \<Rightarrow> ('c buffer \<times> pool) cres" where
  "buf_append_char bds buf ch p =
     (if bdata buf \<noteq> [] \<and> bds \<noteq> dbufp (last (bdata buf)) + dsize (last (bdata buf))
      then ebind (put_last [ch] buf) (\<lambda>buf'. Inr (buf', p))
      else buf_output bds buf [ch] p)"

definition buf_append_buffer :: "'c buffer \<Rightarrow> 'd buffer \<Rightarrow> 'c buffer \<times> 'd buffer" where
  "buf_append_buffer dst src =
     (buf_append_data dst (bdata src), src\<lparr>bdata := [], last_null := True\<rparr>)"

subsection \<open>Sending\<close>

fun send_output_loop ::
  "('c \<Rightarrow> byte list \<Rightarrow> pool \<Rightarrow> (int \<times> nat \<times> 'c \<times> pool) cres) \<Rightarrow> bool \<Rightarrow> buffer_data list \<Rightarrow>
   'c \<Rightarrow> pool \<Rightarrow> (int \<times> buffer_data list \<times> 'c \<times> pool) cres" where
  "send_output_loop outp nonbl [] c p = Inr (0, [], c, p)"
| "send_output_loop outp nonbl (d # ds) c p =
     (if dsize d > 0 then
        ebind (outp c (chunk_bytes d) p) (\<lambda>(status, nbytes, c', p').
          if status \<noteq> 0
          then Inr (status, [], c', p'\<lparr>free_buffer_data := (d # ds) @ free_buffer_data p'\<rparr>)
          else if nbytes \<noteq> dsize d
          then (if \<not> nonbl then Inl AssertFailed
                else if nbytes > dsize d then Inl OutOfBounds
                else Inr (0, d\<lparr>dsize := dsize d - nbytes, dbufp := dbufp d + nbytes\<rparr> # ds, c', p'))
          else send_output_loop outp nonbl ds c' (p'\<lparr>free_buffer_data := d # free_buffer_data p'\<rparr>))
      else send_output_loop outp nonbl ds c (p\<lparr>free_buffer_data := d # free_buffer_data p\<rparr>))"

definition buf_send_output :: "'c buffer \<Rightarrow> pool \<Rightarrow> (int \<times> 'c buffer \<times> pool) cres" where
  "buf_send_output buf p =
     (case output_fn buf of
        None \<Rightarrow> Inl Abort
      | Some outp \<Rightarrow>
          ebind (send_output_loop outp (nonblocking buf) (bdata buf) (closure buf) p)
            (\<lambda>(status, ds, c', p').
               Inr (status,
                    buf\<lparr>bdata := ds, last_null := (if ds = [] then True else last_null buf),
                        closure := c'\<rparr>, p')))"

definition set_nonblock :: "'c buffer \<Rightarrow> pool \<Rightarrow> (int \<times> 'c buffer \<times> pool) cres" where
  "set_nonblock buf p =
     (if nonblocking buf then Inr (0, buf, p)
      else case block_fn buf of
             None \<Rightarrow> Inl Abort
           | Some bl \<Rightarrow>
               ebind (bl (closure buf) False p) (\<lambda>(status, c', p').
                 if status \<noteq> 0 then Inr (status, buf\<lparr>closure := c'\<rparr>, p')
                 else Inr (0, buf\<lparr>closure := c', nonblocking := True\<rparr>, p')))"

definition set_block :: "'c buffer \<Rightarrow> pool \<Rightarrow> (int \<times> 'c buffer \<times> pool) cres" where
  "set_block buf p =
     (if \<not> nonblocking buf then Inr (0, buf, p)
      else case block_fn buf of
             None \<Rightarrow> Inl Abort
           | Some bl \<Rightarrow>
               ebind (bl (closure buf) True p) (\<lambda>(status, c', p').
                 if status \<noteq> 0 then Inr (status, buf\<lparr>closure := c'\<rparr>, p')
                 else Inr (0, buf\<lparr>closure := c', nonblocking := False\<rparr>, p')))"

text \<open>The middle of \<open>buf_flush\<close>: send, then call the device's flush unless sending failed.\<close>

definition send_and_flush ::
  "('c \<Rightarrow> pool \<Rightarrow> (int \<times> 'c \<times> pool) cres) \<Rightarrow> 'c buffer \<Rightarrow> pool \<Rightarrow> (int \<times> 'c buffer \<times> pool) cres" where
  "send_and_flush fl buf p =
     ebind (buf_send_output buf p) (\<lambda>(status, buf', p').
       if status = 0
       then ebind (fl (closure buf') p') (\<lambda>(st, c', p''). Inr (st, buf'\<lparr>closure := c'\<rparr>, p''))
       else Inr (status, buf', p'))"

definition buf_flush :: "'c buffer \<Rightarrow> bool \<Rightarrow> pool \<Rightarrow> (int \<times> 'c buffer \<times> pool) cres" where
  "buf_flush buf blk p =
     (case flush_fn buf of
        None \<Rightarrow> Inl Abort
      | Some fl \<Rightarrow>
          if nonblocking buf \<and> blk then
            ebind (set_block buf p) (\<lambda>(status, buf1, p1).
              if status \<noteq> 0 then Inr (status, buf1, p1)
              else ebind (send_and_flush fl buf1 p1) (\<lambda>(status, buf2, p2).
                ebind (set_nonblock buf2 p2) (\<lambda>(blockstat, buf3, p3).
                  Inr (if status = 0 then blockstat else status, buf3, p3))))
          else send_and_flush fl buf p)"

text \<open>
  \<open>int\<close> has four bytes, in the byte order \<open>big\<close>; \<open>*((int *) data->text) = size\<close> stores it at the
  start of the block. When the chain is empty but \<open>last\<close> is not NULL, the code leaves \<open>last\<close> on a
  block that is already back in the pool: \<open>StaleLast\<close>.
\<close>

definition int_bytes :: "bool \<Rightarrow> 32 word \<Rightarrow> byte list" where
  "int_bytes big w =
     (let bs = map (\<lambda>k. ucast (drop_bit (8 * k) w)) [0..<4] in if big then rev bs else bs)"

definition send_int :: "nat \<Rightarrow> bool \<Rightarrow> 'c buffer \<Rightarrow> 32 word \<Rightarrow> pool \<Rightarrow> (int \<times> 'c buffer \<times> pool) cres" where
  "send_int bds big buf count p =
     (case get_buffer_data bds p of
        (None, p') \<Rightarrow> Inr (ENOMEM, buf, memory_error p')
      | (Some d, p') \<Rightarrow>
          if bdata buf = [] \<and> \<not> last_null buf then Inl StaleLast
          else ebind (memcpy 0 (int_bytes big count) (dtext d)) (\<lambda>t.
                 buf_send_output
                   (buf\<lparr>bdata := \<lparr>dtext = t, dbufp = 0, dsize = 4\<rparr> # bdata buf, last_null := False\<rparr>) p'))"

definition buf_send_counted :: "nat \<Rightarrow> bool \<Rightarrow> 'c buffer \<Rightarrow> pool \<Rightarrow> (int \<times> 'c buffer \<times> pool) cres" where
  "buf_send_counted bds big buf p =
     send_int bds big buf (fold (\<lambda>d size. size + of_nat (dsize d)) (bdata buf) 0) p"

definition buf_send_special_count ::
  "nat \<Rightarrow> bool \<Rightarrow> 'c buffer \<Rightarrow> 32 word \<Rightarrow> pool \<Rightarrow> (int \<times> 'c buffer \<times> pool) cres" where
  "buf_send_special_count bds big buf count p = send_int bds big buf count p"

subsection \<open>The pool\<close>

lemma get_buffer_data_none:
  "pool_blocks p = 0 \<Longrightarrow> get_buffer_data bds p = (None, p)"
  by (simp add: pool_blocks_def get_buffer_data_def allocate_buffer_datas_def ALLOC_COUNT_def)

lemma allocate_ok:
  assumes "pool_ok bds p"
  shows "pool_ok bds (allocate_buffer_datas bds p)"
proof (cases "valloc p")
  case (Cons space rest)
  have "length (mem_read (i * bds) bds space) = bds" if "i < ALLOC_COUNT" for i
  proof -
    have "Suc i * bds \<le> ALLOC_COUNT * bds" using that by (intro mult_le_mono1) simp
    then show ?thesis using assms Cons by (simp add: pool_ok_def)
  qed
  with assms Cons show ?thesis
    by (auto simp: pool_ok_def allocate_buffer_datas_def alloc_fold)
qed (use assms in \<open>simp add: allocate_buffer_datas_def\<close>)

lemma get_buffer_data_some:
  assumes "pool_ok bds p" "0 < pool_blocks p"
  obtains d p' where "get_buffer_data bds p = (Some d, p')" "pool_ok bds p'" "length (dtext d) = bds"
    "pool_blocks p = Suc (pool_blocks p')" "mem_errors p' = mem_errors p"
proof -
  define q where "q = (if free_buffer_data p = [] then allocate_buffer_datas bds p else p)"
  have q: "pool_ok bds q" "mem_errors q = mem_errors p"
    using assms allocate_ok by (auto simp: q_def allocate_buffer_datas_def split: list.split)
  have "free_buffer_data q \<noteq> []"
    using assms by (auto simp: q_def pool_blocks_def allocate_buffer_datas_def alloc_fold
        ALLOC_COUNT_def split: list.split)
  then obtain d rest where f: "free_buffer_data q = d # rest" by (cases "free_buffer_data q") auto
  then have g: "get_buffer_data bds p = (Some d, q\<lparr>free_buffer_data := rest\<rparr>)"
    by (simp add: get_buffer_data_def q_def [symmetric])
  moreover have "pool_ok bds (q\<lparr>free_buffer_data := rest\<rparr>)" "length (dtext d) = bds"
    using q f by (auto simp: pool_ok_def)
  ultimately show ?thesis using that q get_buffer_data_blocks [OF g] by simp
qed

lemma pool_release [simp]:
  "pool_ok bds (p\<lparr>free_buffer_data := ds @ free_buffer_data p\<rparr>) \<longleftrightarrow>
     pool_ok bds p \<and> (\<forall>d\<in>set ds. length (dtext d) = bds)"
  "pool_ok bds (p\<lparr>free_buffer_data := d # free_buffer_data p\<rparr>) \<longleftrightarrow>
     pool_ok bds p \<and> length (dtext d) = bds"
  "pool_blocks (p\<lparr>free_buffer_data := ds @ free_buffer_data p\<rparr>) = length ds + pool_blocks p"
  "pool_blocks (p\<lparr>free_buffer_data := d # free_buffer_data p\<rparr>) = Suc (pool_blocks p)"
  by (auto simp: pool_ok_def pool_blocks_def)

lemma memory_error_simps [simp]:
  "pool_ok bds (memory_error p) = pool_ok bds p" "pool_blocks (memory_error p) = pool_blocks p"
  "mem_errors (memory_error p) = Suc (mem_errors p)"
  by (simp_all add: memory_error_def pool_ok_def pool_blocks_def)

subsection \<open>Contents\<close>

lemma contents_simps [simp]:
  "contents [] = []" "contents (d # ds) = chunk_bytes d @ contents ds"
  "contents (ds @ es) = contents ds @ contents es"
  by (simp_all add: contents_def)

lemma chunk_bytes_length [simp]: "chunk_wf bds d \<Longrightarrow> length (chunk_bytes d) = dsize d"
  by (simp add: chunk_wf_def chunk_bytes_def)

lemma chunk_wf_text: "chunk_wf bds d \<Longrightarrow> length (dtext d) = bds"
  by (simp add: chunk_wf_def)

lemma fresh_chunk:
  assumes "length t = bds" "length bytes \<le> bds"
  shows "chunk_wf bds \<lparr>dtext = mem_write 0 bytes t, dbufp = 0, dsize = length bytes\<rparr>"
    "chunk_bytes \<lparr>dtext = mem_write 0 bytes t, dbufp = 0, dsize = length bytes\<rparr> = bytes"
  using assms by (simp_all add: chunk_wf_def chunk_bytes_def)

lemma chunk_advance:
  assumes "chunk_wf bds d" "n \<le> dsize d"
  shows "chunk_wf bds (d\<lparr>dsize := dsize d - n, dbufp := dbufp d + n\<rparr>)"
    "chunk_bytes (d\<lparr>dsize := dsize d - n, dbufp := dbufp d + n\<rparr>) = drop n (chunk_bytes d)"
  using assms by (simp_all add: chunk_wf_def chunk_bytes_def drop_mem_read)

lemma chunk_put_ok:
  assumes "chunk_wf bds d" "dbufp d + dsize d + length bytes \<le> bds"
  shows "\<exists>d'. chunk_put bytes d = Inr d' \<and> chunk_wf bds d' \<and> chunk_bytes d' = chunk_bytes d @ bytes"
  using assms mem_read_write_extend [of "dbufp d" "dsize d" bytes "dtext d"]
  by (simp add: chunk_put_def chunk_wf_def chunk_bytes_def)

lemma put_last_ok:
  assumes "buf_wf bds buf" "bdata buf \<noteq> []"
    "dbufp (last (bdata buf)) + dsize (last (bdata buf)) + length bytes \<le> bds"
  shows "\<exists>ds. put_last bytes buf = Inr (buf\<lparr>bdata := ds\<rparr>) \<and> (\<forall>d\<in>set ds. chunk_wf bds d) \<and>
    length ds = length (bdata buf) \<and> contents ds = contents (bdata buf) @ bytes"
proof -
  have split: "bdata buf = butlast (bdata buf) @ [last (bdata buf)]" using assms(2) by simp
  have wf: "\<forall>d\<in>set (butlast (bdata buf)). chunk_wf bds d" "chunk_wf bds (last (bdata buf))"
    using assms by (auto simp: buf_wf_def dest: in_set_butlastD)
  obtain d' where d': "chunk_put bytes (last (bdata buf)) = Inr d'" "chunk_wf bds d'"
    "chunk_bytes d' = chunk_bytes (last (bdata buf)) @ bytes"
    using chunk_put_ok [OF wf(2) assms(3)] by blast
  have "contents (bdata buf) = contents (butlast (bdata buf)) @ chunk_bytes (last (bdata buf))"
    by (subst split) simp
  moreover have "length (butlast (bdata buf) @ [d']) = length (bdata buf)" using assms(2) by simp
  ultimately show ?thesis
    using d' wf by (intro exI [of _ "butlast (bdata buf) @ [d']"]) (simp add: put_last_def)
qed

lemma buf_append_data_simps [simp]:
  "bdata (buf_append_data buf ds) = bdata buf @ ds"
  "buf_wf bds (buf_append_data buf ds) \<longleftrightarrow> buf_wf bds buf \<and> (\<forall>d\<in>set ds. chunk_wf bds d)"
  "closure (buf_append_data buf ds) = closure buf"
  "buf_append_data (buf_append_data buf ds) es = buf_append_data buf (ds @ es)"
  by (auto simp: buf_append_data_def buf_wf_def)

subsection \<open>Appending\<close>

definition blocks_for :: "nat \<Rightarrow> nat \<Rightarrow> nat" where
  "blocks_for bds len = Suc ((len - 1) div bds)"

lemma blocks_for_drop:
  assumes "0 < bds" "bds < len"
  shows "blocks_for bds len = Suc (blocks_for bds (len - bds))"
proof -
  have "(len - 1 - bds) div bds + 1 = (len - 1) div bds"
    using le_div_geq [of bds "len - 1"] assms by simp
  moreover have "len - bds - 1 = len - 1 - bds" by simp
  ultimately show ?thesis by (simp add: blocks_for_def)
qed

text \<open>What the loop does with the blocks it can get: all bytes if they suffice, else as many as fit.\<close>

definition fills :: "nat \<Rightarrow> byte list \<Rightarrow> pool \<Rightarrow> buffer_data list \<Rightarrow> pool \<Rightarrow> bool" where
  "fills bds bytes p ds p' \<longleftrightarrow> pool_ok bds p' \<and> (\<forall>d\<in>set ds. chunk_wf bds d) \<and>
     pool_blocks p = pool_blocks p' + length ds \<and>
     (blocks_for bds (length bytes) \<le> pool_blocks p \<longrightarrow>
        contents ds = bytes \<and> length ds = blocks_for bds (length bytes) \<and>
        mem_errors p' = mem_errors p) \<and>
     (\<not> blocks_for bds (length bytes) \<le> pool_blocks p \<longrightarrow>
        contents ds = take (pool_blocks p * bds) bytes \<and> length ds = pool_blocks p \<and>
        mem_errors p' = Suc (mem_errors p))"

lemma fillsD:
  assumes "fills bds bytes p ds p'"
  shows "pool_ok bds p'" "\<forall>d\<in>set ds. chunk_wf bds d" "pool_blocks p = pool_blocks p' + length ds"
    "blocks_for bds (length bytes) \<le> pool_blocks p \<Longrightarrow>
       contents ds = bytes \<and> length ds = blocks_for bds (length bytes) \<and> mem_errors p' = mem_errors p"
    "\<not> blocks_for bds (length bytes) \<le> pool_blocks p \<Longrightarrow>
       contents ds = take (pool_blocks p * bds) bytes \<and> length ds = pool_blocks p \<and>
       mem_errors p' = Suc (mem_errors p)"
  using assms unfolding fills_def by blast+

lemma fills_Cons:
  assumes "0 < bds" "bds < length bytes" "chunk_wf bds d" "chunk_bytes d = take bds bytes"
    "fills bds (drop bds bytes) p1 ds p'" "pool_blocks p = Suc (pool_blocks p1)"
    "mem_errors p1 = mem_errors p"
  shows "fills bds bytes p (d # ds) p'"
proof -
  let ?rest = "drop bds bytes"
  have n: "blocks_for bds (length bytes) = Suc (blocks_for bds (length ?rest))"
    using blocks_for_drop [OF assms(1,2)] by simp
  have t: "take (pool_blocks p * bds) bytes = take bds bytes @ take (pool_blocks p1 * bds) ?rest"
    using take_add [of bds "pool_blocks p1 * bds" bytes] assms(6) by simp
  have le: "blocks_for bds (length bytes) \<le> pool_blocks p \<longleftrightarrow>
      blocks_for bds (length ?rest) \<le> pool_blocks p1"
    unfolding n assms(6) by simp
  have c: "contents (d # ds) = take bds bytes @ contents ds" by (simp add: assms(4))
  note f = fillsD [OF assms(5)]
  have "pool_blocks p = pool_blocks p' + length (d # ds)" using f(3) assms(6) by simp
  moreover have "\<forall>d\<in>set (d # ds). chunk_wf bds d" using f(2) assms(3) by simp
  moreover have "contents (d # ds) = bytes \<and> length (d # ds) = blocks_for bds (length bytes) \<and>
        mem_errors p' = mem_errors p" if "blocks_for bds (length bytes) \<le> pool_blocks p"
    using f(4) [OF that [unfolded le]] unfolding c n by (simp add: assms(7))
  moreover have "contents (d # ds) = take (pool_blocks p * bds) bytes \<and>
        length (d # ds) = pool_blocks p \<and> mem_errors p' = Suc (mem_errors p)"
    if "\<not> blocks_for bds (length bytes) \<le> pool_blocks p"
  proof -
    have "contents ds = take (pool_blocks p1 * bds) ?rest" "length ds = pool_blocks p1"
      "mem_errors p' = Suc (mem_errors p1)" using f(5) that unfolding le by blast+
    then show ?thesis unfolding c t using assms(6,7) by simp
  qed
  ultimately show ?thesis using f(1) unfolding fills_def by blast
qed

lemma buf_output_loop_spec:
  assumes "0 < bds"
  shows "pool_ok bds p \<Longrightarrow>
    \<exists>ds p'. buf_output_loop bds buf bytes p = Inr (buf_append_data buf ds, p') \<and> fills bds bytes p ds p'"
proof (induction "pool_blocks p" arbitrary: buf bytes p)
  case 0
  then have "\<not> blocks_for bds (length bytes) \<le> pool_blocks p" by (simp add: blocks_for_def)
  with 0 get_buffer_data_none [of p bds] show ?case
    by (intro exI [of _ "[]"] exI [of _ "memory_error p"])
      (simp add: buf_output_loop.simps buf_append_data_def fills_def)
next
  case (Suc k)
  obtain d p1 where g: "get_buffer_data bds p = (Some d, p1)" "pool_ok bds p1"
    "length (dtext d) = bds" "pool_blocks p = Suc (pool_blocks p1)" "mem_errors p1 = mem_errors p"
    using get_buffer_data_some [OF Suc.prems] Suc.hyps(2) by (metis zero_less_Suc)
  show ?case
  proof (cases "length bytes \<le> bds")
    case True
    let ?d = "\<lparr>dtext = mem_write 0 bytes (dtext d), dbufp = 0, dsize = length bytes\<rparr>"
    have "buf_output_loop bds buf bytes p = Inr (buf_append_data buf [?d], p1)"
      using g True by (simp add: buf_output_loop.simps)
    moreover have "blocks_for bds (length bytes) = 1"
      using True assms by (simp add: blocks_for_def)
    ultimately show ?thesis
      using g fresh_chunk [OF g(3) True] by (intro exI [of _ "[?d]"]) (simp add: fills_def)
  next
    case False
    let ?d = "\<lparr>dtext = mem_write 0 (take bds bytes) (dtext d), dbufp = 0, dsize = bds\<rparr>"
    have d: "chunk_wf bds ?d" "chunk_bytes ?d = take bds bytes"
      using fresh_chunk [of "dtext d" bds "take bds bytes"] g(3) False by simp_all
    have eq: "buf_output_loop bds buf bytes p =
        buf_output_loop bds (buf_append_data buf [?d]) (drop bds bytes) p1"
      using g False by (subst buf_output_loop.simps) simp
    have k: "k = pool_blocks p1" using Suc.hyps(2) g(4) by simp
    obtain ds p' where r: "buf_output_loop bds (buf_append_data buf [?d]) (drop bds bytes) p1 =
        Inr (buf_append_data (buf_append_data buf [?d]) ds, p')" "fills bds (drop bds bytes) p1 ds p'"
      using Suc.hyps(1) [OF k g(2)] by blast
    have "fills bds bytes p (?d # ds) p'"
      using fills_Cons [OF assms _ d r(2) g(4,5)] False by simp
    then show ?thesis using eq r(1) by auto
  qed
qed

text \<open>Everything an append may do to a buffer and the pool.\<close>

definition appends :: "nat \<Rightarrow> 'c buffer \<Rightarrow> pool \<Rightarrow> byte list \<Rightarrow> 'c buffer \<Rightarrow> pool \<Rightarrow> bool" where
  "appends bds buf p bytes buf' p' \<longleftrightarrow>
     (\<exists>ds l. buf' = buf\<lparr>bdata := ds, last_null := l\<rparr>) \<and> (last_ok buf \<longrightarrow> last_ok buf') \<and>
     buf_wf bds buf' \<and> pool_ok bds p' \<and>
     contents (bdata buf') = contents (bdata buf) @ bytes \<and>
     pool_blocks p' + length (bdata buf') = pool_blocks p + length (bdata buf)"

lemma buffer_same: "\<exists>ds l. buf = buf\<lparr>bdata := ds, last_null := l\<rparr>"
  by (rule exI [of _ "bdata buf"], rule exI [of _ "last_null buf"]) simp

lemma buf_append_data_appends:
  assumes "buf_wf bds buf" "pool_ok bds p'" "\<forall>d\<in>set ds. chunk_wf bds d" "contents ds = bytes"
    "pool_blocks p = pool_blocks p' + length ds"
  shows "appends bds buf p bytes (buf_append_data buf ds) p'"
proof -
  have "\<exists>ds' l. buf_append_data buf ds = buf\<lparr>bdata := ds', last_null := l\<rparr>"
    by (cases "ds = []") (auto simp: buf_append_data_def intro: buffer_same)
  moreover have "last_ok buf \<longrightarrow> last_ok (buf_append_data buf ds)"
    by (simp add: last_ok_def buf_append_data_def)
  ultimately show ?thesis using assms by (simp add: appends_def)
qed

lemma put_last_appends:
  assumes "buf_wf bds buf" "pool_ok bds p" "bdata buf \<noteq> []"
    "dbufp (last (bdata buf)) + dsize (last (bdata buf)) + length bytes \<le> bds"
  shows "\<exists>buf'. put_last bytes buf = Inr buf' \<and> appends bds buf p bytes buf' p"
proof -
  obtain ds where ds: "put_last bytes buf = Inr (buf\<lparr>bdata := ds\<rparr>)" "\<forall>d\<in>set ds. chunk_wf bds d"
    "length ds = length (bdata buf)" "contents ds = contents (bdata buf) @ bytes"
    using put_last_ok [OF assms(1,3,4)] by blast
  have "buf\<lparr>bdata := ds\<rparr> = buf\<lparr>bdata := ds, last_null := last_null buf\<rparr>" by simp
  then have "\<exists>ds' l. buf\<lparr>bdata := ds\<rparr> = buf\<lparr>bdata := ds', last_null := l\<rparr>" by blast
  then have "appends bds buf p bytes (buf\<lparr>bdata := ds\<rparr>) p"
    using assms ds by (auto simp: appends_def buf_wf_def last_ok_def)
  with ds(1) show ?thesis by blast
qed

lemma buf_output_spec:
  assumes "0 < bds" "buf_wf bds buf" "pool_ok bds p"
  shows "\<exists>buf' p' kept. buf_output bds buf bytes p = Inr (buf', p') \<and> appends bds buf p kept buf' p' \<and>
    (if blocks_for bds (length bytes) \<le> pool_blocks p then kept = bytes \<and> mem_errors p' = mem_errors p
     else kept = bytes \<and> mem_errors p' = mem_errors p \<or>
          kept = take (pool_blocks p * bds) bytes \<and> mem_errors p' = Suc (mem_errors p))"
proof (cases "bdata buf \<noteq> [] \<and>
    int bds - int (dbufp (last (bdata buf)) + dsize (last (bdata buf))) \<ge> int (length bytes)")
  case True
  then have "dbufp (last (bdata buf)) + dsize (last (bdata buf)) + length bytes \<le> bds" by linarith
  then obtain buf' where "put_last bytes buf = Inr buf'" "appends bds buf p bytes buf' p"
    using put_last_appends [OF assms(2,3)] True by blast
  then show ?thesis
    using True by (intro exI [of _ buf'] exI [of _ p] exI [of _ bytes]) (simp add: buf_output_def)
next
  case False
  obtain ds p' where r: "buf_output_loop bds buf bytes p = Inr (buf_append_data buf ds, p')"
    "fills bds bytes p ds p'"
    using buf_output_loop_spec [OF assms(1,3)] by blast
  have "appends bds buf p (contents ds) (buf_append_data buf ds) p'"
    by (intro buf_append_data_appends [OF assms(2) fillsD(1,2) [OF r(2)] refl fillsD(3) [OF r(2)]])
  moreover have "buf_output bds buf bytes p = Inr (buf_append_data buf ds, p')"
    using r(1) False by (auto simp: buf_output_def)
  moreover have "if blocks_for bds (length bytes) \<le> pool_blocks p
     then contents ds = bytes \<and> mem_errors p' = mem_errors p
     else contents ds = bytes \<and> mem_errors p' = mem_errors p \<or>
          contents ds = take (pool_blocks p * bds) bytes \<and> mem_errors p' = Suc (mem_errors p)"
    using fillsD(4,5) [OF r(2)] by presburger
  ultimately show ?thesis by blast
qed

lemma buf_output_enough:
  assumes "0 < bds" "buf_wf bds buf" "pool_ok bds p" "length bytes < pool_blocks p"
  shows "\<exists>buf' p'. buf_output bds buf bytes p = Inr (buf', p') \<and> appends bds buf p bytes buf' p' \<and>
    pool_blocks p \<le> pool_blocks p' + Suc (length bytes) \<and> mem_errors p' = mem_errors p"
proof (cases "bdata buf \<noteq> [] \<and>
    int bds - int (dbufp (last (bdata buf)) + dsize (last (bdata buf))) \<ge> int (length bytes)")
  case True
  then have "dbufp (last (bdata buf)) + dsize (last (bdata buf)) + length bytes \<le> bds" by linarith
  then obtain buf' where "put_last bytes buf = Inr buf'" "appends bds buf p bytes buf' p"
    using put_last_appends [OF assms(2,3)] True by blast
  then show ?thesis
    using True by (intro exI [of _ buf'] exI [of _ p]) (simp add: buf_output_def)
next
  case False
  obtain ds p' where r: "buf_output_loop bds buf bytes p = Inr (buf_append_data buf ds, p')"
    "fills bds bytes p ds p'"
    using buf_output_loop_spec [OF assms(1,3)] by blast
  have "(length bytes - 1) div bds \<le> length bytes - 1" by simp
  then have le: "blocks_for bds (length bytes) \<le> Suc (length bytes)"
    unfolding blocks_for_def by linarith
  note f = fillsD(1-3) [OF r(2)] fillsD(4) [OF r(2) order_trans [OF le]]
  have "appends bds buf p bytes (buf_append_data buf ds) p'"
    using buf_append_data_appends [OF assms(2) f(1,2) _ f(3)] f(4) assms(4) by simp
  moreover have "buf_output bds buf bytes p = Inr (buf_append_data buf ds, p')"
    using r(1) False by (auto simp: buf_output_def)
  moreover have "length ds \<le> Suc (length bytes)" using f(4) assms(4) le by simp
  ultimately show ?thesis using f(3,4) assms(4) by simp
qed

lemma buf_append_char_spec:
  assumes "0 < bds" "buf_wf bds buf" "pool_ok bds p" "0 < pool_blocks p"
  shows "\<exists>buf' p'. buf_append_char bds buf ch p = Inr (buf', p') \<and> appends bds buf p [ch] buf' p' \<and>
    pool_blocks p \<le> Suc (pool_blocks p') \<and> mem_errors p' = mem_errors p"
proof (cases "bdata buf \<noteq> [] \<and> bds \<noteq> dbufp (last (bdata buf)) + dsize (last (bdata buf))")
  case True
  then have "chunk_wf bds (last (bdata buf))" using assms(2) by (simp add: buf_wf_def)
  then have "dbufp (last (bdata buf)) + dsize (last (bdata buf)) + length [ch] \<le> bds"
    using True by (simp add: chunk_wf_def)
  then obtain buf' where "put_last [ch] buf = Inr buf'" "appends bds buf p [ch] buf' p"
    using put_last_appends [OF assms(2,3)] True by blast
  then show ?thesis
    using True by (intro exI [of _ buf'] exI [of _ p]) (simp add: buf_append_char_def)
next
  case False
  then have "buf_append_char bds buf ch p = buf_output_loop bds buf [ch] p"
    by (auto simp: buf_append_char_def buf_output_def)
  moreover obtain ds p' where r: "buf_output_loop bds buf [ch] p = Inr (buf_append_data buf ds, p')"
    "fills bds [ch] p ds p'"
    using buf_output_loop_spec [OF assms(1,3)] by blast
  moreover have "blocks_for bds (length [ch]) = 1" by (simp add: blocks_for_def)
  then have "contents ds = [ch]" "length ds = 1" "mem_errors p' = mem_errors p"
    using fillsD(4) [OF r(2)] assms(4) by simp_all
  moreover have "appends bds buf p (contents ds) (buf_append_data buf ds) p'"
    using buf_append_data_appends [OF assms(2) fillsD(1,2) [OF r(2)] _ fillsD(3) [OF r(2)]] by simp
  ultimately show ?thesis using fillsD(3) [OF r(2)] by simp
qed

lemma appends_trans:
  assumes "appends bds b p x b' p'" "appends bds b' p' y b'' p''"
  shows "appends bds b p (x @ y) b'' p''"
proof -
  obtain ds l ds' l' where "b' = b\<lparr>bdata := ds, last_null := l\<rparr>" "b'' = b'\<lparr>bdata := ds', last_null := l'\<rparr>"
    using assms unfolding appends_def by blast
  then have "b'' = b\<lparr>bdata := ds', last_null := l'\<rparr>" by simp
  then have "\<exists>ds l. b'' = b\<lparr>bdata := ds, last_null := l\<rparr>" by blast
  with assms show ?thesis by (simp add: appends_def)
qed

text \<open>
  The contract of an append-only byte queue with a limited number of blocks: as long as the bytes
  are fewer than the blocks, they are appended. Then so is any sequence of pieces.
\<close>

locale byte_queue =
  fixes put :: "byte list \<Rightarrow> 's \<Rightarrow> 's cres"
    and bytes_of :: "'s \<Rightarrow> byte list" and inv :: "'s \<Rightarrow> bool" and room :: "'s \<Rightarrow> nat"
  assumes put_ok: "inv s \<Longrightarrow> length bs < room s \<Longrightarrow>
    \<exists>s'. put bs s = Inr s' \<and> inv s' \<and> bytes_of s' = bytes_of s @ bs \<and> room s \<le> room s' + Suc (length bs)"
begin

lemma put_all:
  "inv s \<Longrightarrow> (\<Sum>b\<leftarrow>bss. Suc (length b)) \<le> room s \<Longrightarrow>
   \<exists>s'. efold put bss s = Inr s' \<and> inv s' \<and> bytes_of s' = bytes_of s @ concat bss"
proof (induction bss arbitrary: s)
  case (Cons b bss)
  then obtain s1 where "put b s = Inr s1" "inv s1" "bytes_of s1 = bytes_of s @ b"
    "room s \<le> room s1 + Suc (length b)"
    using put_ok [of s b] by auto
  with Cons.IH [of s1] Cons.prems show ?case by auto
qed simp

end

definition queue_put :: "nat \<Rightarrow> byte list \<Rightarrow> 'c buffer \<times> pool \<Rightarrow> ('c buffer \<times> pool) cres" where
  "queue_put bds bs = (\<lambda>(buf, p). buf_output bds buf bs p)"

definition queue_inv :: "nat \<Rightarrow> 'c buffer \<Rightarrow> 'c buffer \<times> pool \<Rightarrow> bool" where
  "queue_inv bds b0 = (\<lambda>(buf, p). 0 < bds \<and> buf_wf bds buf \<and> pool_ok bds p \<and>
     (last_ok b0 \<longrightarrow> last_ok buf) \<and> (\<exists>ds l. buf = b0\<lparr>bdata := ds, last_null := l\<rparr>))"

interpretation outq: byte_queue "queue_put bds" "\<lambda>(buf, p). contents (bdata buf)" "queue_inv bds b0"
  "\<lambda>(buf, p). pool_blocks p" for bds b0
proof unfold_locales
  fix s :: "'a buffer \<times> pool" and bs :: "byte list"
  assume i: "queue_inv bds b0 s" and r: "length bs < (case s of (buf, p) \<Rightarrow> pool_blocks p)"
  obtain buf p where s: "s = (buf, p)" by fastforce
  have pre: "0 < bds" "buf_wf bds buf" "pool_ok bds p" using i by (auto simp: s queue_inv_def)
  obtain buf' p' where o: "buf_output bds buf bs p = Inr (buf', p')" "appends bds buf p bs buf' p'"
    "pool_blocks p \<le> pool_blocks p' + Suc (length bs)"
    using buf_output_enough [OF pre, of bs] r by (auto simp: s)
  obtain ds l ds' l' where "buf = b0\<lparr>bdata := ds, last_null := l\<rparr>" "buf' = buf\<lparr>bdata := ds', last_null := l'\<rparr>"
    using i o(2) by (auto simp: s queue_inv_def appends_def)
  then have "\<exists>ds l. buf' = b0\<lparr>bdata := ds, last_null := l\<rparr>" by auto
  with i o(2) have "queue_inv bds b0 (buf', p')" by (auto simp: s queue_inv_def appends_def)
  then show "\<exists>s'. queue_put bds bs s = Inr s' \<and> queue_inv bds b0 s' \<and>
      (case s' of (buf, p) \<Rightarrow> contents (bdata buf)) = (case s of (buf, p) \<Rightarrow> contents (bdata buf)) @ bs \<and>
      (case s of (buf, p) \<Rightarrow> pool_blocks p) \<le> (case s' of (buf, p) \<Rightarrow> pool_blocks p) + Suc (length bs)"
    using o by (intro exI [of _ "(buf', p')"]) (simp add: s queue_put_def appends_def)
qed

subsection \<open>Sending\<close>

text \<open>
  The contract of an output device: \<open>sent\<close> is what has left through it. A call never fails to
  return, leaves the pool alone, and on status 0 has sent a prefix of what it was given; a
  blocking device sends all of it.
\<close>

locale output_device =
  fixes outp :: "'c \<Rightarrow> byte list \<Rightarrow> pool \<Rightarrow> (int \<times> nat \<times> 'c \<times> pool) cres"
    and sent :: "'c \<Rightarrow> byte list"
  assumes outp_ok: "bs \<noteq> [] \<Longrightarrow> \<exists>st n c'. outp c bs p = Inr (st, n, c', p) \<and>
    (st = 0 \<longrightarrow> n \<le> length bs \<and> sent c' = sent c @ take n bs)"

locale blocking_device = output_device +
  assumes outp_all: "bs \<noteq> [] \<Longrightarrow> outp c bs p = Inr (0, n, c', p') \<Longrightarrow> n = length bs"

definition sends :: "nat \<Rightarrow> ('c \<Rightarrow> byte list) \<Rightarrow> buffer_data list \<Rightarrow> 'c \<Rightarrow> pool \<Rightarrow>
    int \<Rightarrow> buffer_data list \<Rightarrow> 'c \<Rightarrow> pool \<Rightarrow> bool" where
  "sends bds sent ds c p st ds' c' p' \<longleftrightarrow> pool_ok bds p' \<and> (\<forall>d\<in>set ds'. chunk_wf bds d) \<and>
     pool_blocks p' + length ds' = pool_blocks p + length ds \<and>
     (st = 0 \<longrightarrow> sent c' @ contents ds' = sent c @ contents ds) \<and> (st \<noteq> 0 \<longrightarrow> ds' = [])"

context output_device
begin

lemma send_loop_nonblocking:
  "pool_ok bds p \<Longrightarrow> \<forall>d\<in>set ds. chunk_wf bds d \<Longrightarrow>
   \<exists>st ds' c' p'. send_output_loop outp True ds c p = Inr (st, ds', c', p') \<and>
     sends bds sent ds c p st ds' c' p'"
proof (induction ds arbitrary: c p)
  case Nil
  then show ?case by (simp add: sends_def)
next
  case (Cons d ds)
  have wf: "chunk_wf bds d" "length (dtext d) = bds" using Cons.prems by (auto simp: chunk_wf_def)
  show ?case
  proof (cases "dsize d > 0")
    case False
    then have "chunk_bytes d = []" by (simp add: chunk_bytes_def)
    moreover obtain st ds' c' p' where
      "send_output_loop outp True ds c (p\<lparr>free_buffer_data := d # free_buffer_data p\<rparr>) = Inr (st, ds', c', p')"
      "sends bds sent ds c (p\<lparr>free_buffer_data := d # free_buffer_data p\<rparr>) st ds' c' p'"
      using Cons.IH [of "p\<lparr>free_buffer_data := d # free_buffer_data p\<rparr>" c] Cons.prems wf by auto
    ultimately show ?thesis using False by (simp add: sends_def)
  next
    case True
    have ne: "chunk_bytes d \<noteq> []" using True wf(1) by (metis chunk_bytes_length list.size(3) less_numeral_extra(3))
    obtain st n c1 where o: "outp c (chunk_bytes d) p = Inr (st, n, c1, p)"
      "st = 0 \<longrightarrow> n \<le> dsize d \<and> sent c1 = sent c @ take n (chunk_bytes d)"
      using outp_ok [OF ne] wf(1) by fastforce
    consider (err) "st \<noteq> 0" | (part) "st = 0" "n < dsize d" | (all) "st = 0" "n = dsize d"
      using o(2) by force
    then show ?thesis
    proof cases
      case err
      with o(1) True Cons.prems show ?thesis
        by (simp add: sends_def chunk_wf_def pool_ok_def pool_blocks_def ball_Un)
    next
      case part
      with chunk_advance [OF wf(1), of n] o True Cons.prems show ?thesis
        by (simp add: sends_def)
    next
      case all
      let ?p = "p\<lparr>free_buffer_data := d # free_buffer_data p\<rparr>"
      obtain st' ds' c' p' where
        "send_output_loop outp True ds c1 ?p = Inr (st', ds', c', p')" "sends bds sent ds c1 ?p st' ds' c' p'"
        using Cons.IH [of ?p c1] Cons.prems wf by auto
      moreover have "sent c1 = sent c @ chunk_bytes d" using o(2) all wf(1) by simp
      ultimately show ?thesis using o(1) all True by (simp add: sends_def)
    qed
  qed
qed

end

context blocking_device
begin

lemma send_loop_blocking:
  "pool_ok bds p \<Longrightarrow> \<forall>d\<in>set ds. chunk_wf bds d \<Longrightarrow>
   send_output_loop outp nonbl ds c p = send_output_loop outp True ds c p \<and>
   (\<forall>st ds' c' p'. send_output_loop outp True ds c p = Inr (st, ds', c', p') \<longrightarrow> ds' = [])"
proof (induction ds arbitrary: c p)
  case (Cons d ds)
  have wf: "chunk_wf bds d" "length (dtext d) = bds" using Cons.prems by (auto simp: chunk_wf_def)
  show ?case
  proof (cases "dsize d > 0")
    case False
    with Cons.IH [of "p\<lparr>free_buffer_data := d # free_buffer_data p\<rparr>" c] Cons.prems wf
    show ?thesis by simp
  next
    case True
    have ne: "chunk_bytes d \<noteq> []" using True wf(1) by (metis chunk_bytes_length list.size(3) less_numeral_extra(3))
    obtain st n c1 where o: "outp c (chunk_bytes d) p = Inr (st, n, c1, p)" using outp_ok [OF ne] by blast
    then have "st = 0 \<longrightarrow> n = dsize d" using outp_all [OF ne, of c p n c1 p] wf(1) by auto
    with o Cons.IH [of "p\<lparr>free_buffer_data := d # free_buffer_data p\<rparr>" c1] Cons.prems wf True
    show ?thesis by auto
  qed
qed simp

end

text \<open>C12. \<open>buf_output\<close> appends: it never writes outside a block and keeps the buffer well formed.
  With enough blocks the contents grow by exactly the bytes given and the memory handler is not
  called; when the blocks run out the handler is called once and the bytes that fit are kept. No
  block is lost either way.\<close>

theorem buf_output_appends:
  assumes "0 < bds" "buf_wf bds buf" "pool_ok bds p"
  shows "\<exists>buf' p' kept. buf_output bds buf bytes p = Inr (buf', p') \<and> buf_wf bds buf' \<and> pool_ok bds p' \<and>
    contents (bdata buf') = contents (bdata buf) @ kept \<and>
    pool_blocks p' + length (bdata buf') = pool_blocks p + length (bdata buf) \<and>
    (blocks_for bds (length bytes) \<le> pool_blocks p \<longrightarrow> kept = bytes) \<and>
    (kept = bytes \<and> mem_errors p' = mem_errors p \<or>
     kept = take (pool_blocks p * bds) bytes \<and> mem_errors p' = Suc (mem_errors p))"
proof -
  obtain buf' p' kept where o: "buf_output bds buf bytes p = Inr (buf', p')" "appends bds buf p kept buf' p'"
    and k: "if blocks_for bds (length bytes) \<le> pool_blocks p then kept = bytes \<and> mem_errors p' = mem_errors p
     else kept = bytes \<and> mem_errors p' = mem_errors p \<or>
          kept = take (pool_blocks p * bds) bytes \<and> mem_errors p' = Suc (mem_errors p)"
    using buf_output_spec [OF assms] by blast
  from k have "(blocks_for bds (length bytes) \<le> pool_blocks p \<longrightarrow> kept = bytes) \<and>
    (kept = bytes \<and> mem_errors p' = mem_errors p \<or>
     kept = take (pool_blocks p * bds) bytes \<and> mem_errors p' = Suc (mem_errors p))" by presburger
  with o show ?thesis unfolding appends_def by blast
qed

theorem buf_output_appends_witness:
  "\<exists>buf' p' kept. buf_output 4 (buf_nonio_initialize ()) [1, 2, 3, 4, 5]
      \<lparr>free_buffer_data = [], valloc = [replicate 64 0], mem_errors = 0\<rparr> = Inr (buf', p') \<and>
     contents (bdata buf') = [1, 2, 3, 4, 5]"
  using buf_output_appends [of 4 "buf_nonio_initialize ()"
      "\<lparr>free_buffer_data = [], valloc = [replicate 64 0], mem_errors = 0\<rparr>" "[1, 2, 3, 4, 5]"]
  by (auto simp: buf_wf_def buf_nonio_initialize_def buf_initialize_def pool_ok_def pool_blocks_def
      ALLOC_COUNT_def blocks_for_def)

text \<open>Sending to a device that may accept only part of the data, with the buffer in
  nonblocking mode: the call returns, and on status 0 what the device has now sent followed by
  what is left in the buffer is what it had sent followed by what was in the buffer. On an error
  the buffer is emptied. Either way no block is lost.\<close>

lemma send_output_nonblocking:
  assumes "output_device outp sent" "output_fn buf = Some outp" "nonblocking buf" "buf_wf bds buf"
    "pool_ok bds p"
  shows "\<exists>st buf' p'. buf_send_output buf p = Inr (st, buf', p') \<and> buf_wf bds buf' \<and> pool_ok bds p' \<and>
    (st = 0 \<longrightarrow> sent (closure buf') @ contents (bdata buf') = sent (closure buf) @ contents (bdata buf)) \<and>
    (st \<noteq> 0 \<longrightarrow> bdata buf' = []) \<and> (bdata buf' = [] \<longrightarrow> last_null buf') \<and>
    pool_blocks p' + length (bdata buf') = pool_blocks p + length (bdata buf)"
proof -
  obtain st ds' c' p' where "send_output_loop outp True (bdata buf) (closure buf) p = Inr (st, ds', c', p')"
    "sends bds sent (bdata buf) (closure buf) p st ds' c' p'"
    using output_device.send_loop_nonblocking [OF assms(1,5), of "bdata buf" "closure buf"] assms(4)
    unfolding buf_wf_def by blast
  then show ?thesis using assms(2,3) by (auto simp: buf_send_output_def sends_def buf_wf_def)
qed

lemma send_output_mode:
  "buf_send_output buf p = Inr (st, buf', p') \<Longrightarrow> nonblocking buf' = nonblocking buf"
  by (auto simp: buf_send_output_def ebind_def split: option.splits sum.splits)

lemma send_and_flush_mode:
  assumes "send_and_flush fl buf p = Inr (st, buf', p')"
  shows "nonblocking buf' = nonblocking buf"
proof -
  obtain s1 b1 p1 where b: "buf_send_output buf p = Inr (s1, b1, p1)"
    using assms by (cases "buf_send_output buf p") (auto simp: send_and_flush_def)
  have "nonblocking buf' = nonblocking b1"
  proof (cases "s1 = 0")
    case True
    with assms b show ?thesis by (cases "fl (closure b1) p1") (auto simp: send_and_flush_def)
  next
    case False
    with assms b show ?thesis by (simp add: send_and_flush_def)
  qed
  with send_output_mode [OF b] show ?thesis by simp
qed

lemma set_nonblock_mode:
  assumes "set_nonblock buf p = Inr (0, buf', p')" shows "nonblocking buf'"
proof (cases "nonblocking buf")
  case True
  with assms show ?thesis by (simp add: set_nonblock_def)
next
  case False
  then obtain bl where bl: "block_fn buf = Some bl" using assms by (cases "block_fn buf") (auto simp: set_nonblock_def)
  with False assms show ?thesis
    by (cases "bl (closure buf) False p") (auto simp: set_nonblock_def split: if_splits)
qed

text \<open>\<open>buf_flush\<close> leaves the blocking mode as it found it: always when no mode switch is
  needed, and whenever it returns 0 otherwise.\<close>

lemma flush_keeps_mode:
  assumes "buf_flush buf blk p = Inr (st, buf', p')" "st = 0 \<or> \<not> (nonblocking buf \<and> blk)"
  shows "nonblocking buf' = nonblocking buf"
proof (cases "nonblocking buf \<and> blk")
  case False
  with assms(1) show ?thesis by (auto simp: buf_flush_def dest: send_and_flush_mode split: option.splits)
next
  case True
  then have st: "st = 0" using assms(2) by simp
  obtain fl where fl: "flush_fn buf = Some fl" using assms(1) by (cases "flush_fn buf") (auto simp: buf_flush_def)
  obtain s1 b1 p1 where 1: "set_block buf p = Inr (s1, b1, p1)"
    using assms(1) True fl by (cases "set_block buf p") (auto simp: buf_flush_def)
  then have "s1 = 0" using assms(1) True fl st by (auto simp: buf_flush_def split: if_splits)
  with 1 obtain s2 b2 p2 where 2: "send_and_flush fl b1 p1 = Inr (s2, b2, p2)"
    using assms(1) True fl by (cases "send_and_flush fl b1 p1") (auto simp: buf_flush_def)
  then obtain s3 b3 p3 where 3: "set_nonblock b2 p2 = Inr (s3, b3, p3)"
    using assms(1) True fl 1 \<open>s1 = 0\<close> by (cases "set_nonblock b2 p2") (auto simp: buf_flush_def)
  have "s3 = 0" "b3 = buf'" using assms(1) True fl st 1 2 3 \<open>s1 = 0\<close> by (auto simp: buf_flush_def split: if_splits)
  then show ?thesis using set_nonblock_mode 3 True by blast
qed

end
