(* ===== verification/CVS_Stdio.thy ===== *)
theory CVS_Stdio
  imports CVS_Buffer
begin

text \<open>
  Buffers on a stdio FILE (bugs/cvs/src/buffer.c, the stdio_buffer_* functions): the device that
  discharges the output and input contracts of the buffer routines.

  A \<open>FILE\<close> is what is left to read, whether an error or the end of file follows, the bytes
  written, how many more the file accepts, whether \<open>fflush\<close> and \<open>fclose\<close> succeed, and the value
  \<open>errno\<close> has after a failing call. The preprocessor options SHUTDOWN_SERVER, NO_SOCKET_TO_FD and
  START_RSH_WITH_POPEN_RW are off, as on a Unix system; CLIENT_SUPPORT and SERVER_SUPPORT are on.
\<close>

subsection \<open>Standard I/O\<close>

record FILE =
  to_read :: "byte list"
  read_fails :: bool
  at_eof :: bool
  written :: "byte list"
  write_room :: nat
  fflush_ok :: bool
  errno_after :: int

definition getc :: "FILE \<Rightarrow> byte option \<times> FILE" where
  "getc f = (case to_read f of
     b # bs \<Rightarrow> (Some b, f\<lparr>to_read := bs\<rparr>)
   | [] \<Rightarrow> (None, if read_fails f then f else f\<lparr>at_eof := True\<rparr>))"

definition fread :: "nat \<Rightarrow> FILE \<Rightarrow> byte list \<times> FILE" where
  "fread n f =
     (take n (to_read f),
      f\<lparr>to_read := drop n (to_read f),
        at_eof := (at_eof f \<or> (length (to_read f) < n \<and> \<not> read_fails f))\<rparr>)"

definition fwrite :: "byte list \<Rightarrow> FILE \<Rightarrow> nat \<times> FILE" where
  "fwrite bs f =
     (let k = min (length bs) (write_room f)
      in (k, f\<lparr>written := written f @ take k bs, write_room := write_room f - k\<rparr>))"

definition errno_or_EIO :: "FILE \<Rightarrow> int" where
  "errno_or_EIO f = (if errno_after f = 0 then EIO else errno_after f)"

subsection \<open>The device functions\<close>

record stdio_buffer_closure =
  fp :: FILE
  child_pid :: nat

definition read_failure :: "FILE \<Rightarrow> int" where
  "read_failure f = (if at_eof f then -1 else errno_or_EIO f)"

definition stdio_buffer_input :: "stdio_buffer_closure \<Rightarrow> nat \<Rightarrow> nat \<Rightarrow> pool \<Rightarrow>
    (int \<times> byte list \<times> stdio_buffer_closure \<times> pool) cres" where
  "stdio_buffer_input bc need sz p =
     (if need = 0 \<or> need = 1 then
        (case getc (fp bc) of
           (None, f) \<Rightarrow> Inr (read_failure f, [], bc\<lparr>fp := f\<rparr>, p)
         | (Some ch, f) \<Rightarrow> Inr (0, [ch], bc\<lparr>fp := f\<rparr>, p))
      else
        (case fread need (fp bc) of
           (bytes, f) \<Rightarrow>
             if length bytes = 0 then Inr (read_failure f, [], bc\<lparr>fp := f\<rparr>, p)
             else Inr (0, bytes, bc\<lparr>fp := f\<rparr>, p)))"

function stdio_output_loop :: "byte list \<Rightarrow> nat \<Rightarrow> FILE \<Rightarrow> int \<times> nat \<times> FILE" where
  "stdio_output_loop data wrote f =
     (if data = [] then (0, wrote, f)
      else let (nbytes, f') = fwrite data f
           in if nbytes \<noteq> length data then (errno_or_EIO f', wrote, f')
              else stdio_output_loop (drop nbytes data) (wrote + nbytes) f')"
  by pat_completeness auto
termination
  by (relation "measure (\<lambda>(data, wrote, f). length data)") auto

declare stdio_output_loop.simps [simp del]

definition stdio_buffer_output :: "stdio_buffer_closure \<Rightarrow> byte list \<Rightarrow> pool \<Rightarrow>
    (int \<times> nat \<times> stdio_buffer_closure \<times> pool) cres" where
  "stdio_buffer_output bc data p =
     (case stdio_output_loop data 0 (fp bc) of (status, wrote, f) \<Rightarrow>
        Inr (status, wrote, bc\<lparr>fp := f\<rparr>, p))"

definition stdio_buffer_flush :: "stdio_buffer_closure \<Rightarrow> pool \<Rightarrow>
    (int \<times> stdio_buffer_closure \<times> pool) cres" where
  "stdio_buffer_flush bc p =
     Inr (if \<not> fflush_ok (fp bc) then errno_or_EIO (fp bc) else 0, bc, p)"

definition stdio_buffer_initialize :: "FILE \<Rightarrow> nat \<Rightarrow> bool \<Rightarrow> stdio_buffer_closure buffer" where
  "stdio_buffer_initialize f pid inp =
     buf_initialize
       (if inp then Some stdio_buffer_input else None)
       (if inp then None else Some stdio_buffer_output)
       (if inp then None else Some stdio_buffer_flush)
       None \<lparr>fp = f, child_pid = pid\<rparr>"

text \<open>The assertion that the buffer is one of stdio is the type of its closure.\<close>

definition stdio_buffer_get_file :: "stdio_buffer_closure buffer \<Rightarrow> FILE" where
  "stdio_buffer_get_file buf = fp (closure buf)"

subsection \<open>Shutdown\<close>

text \<open>
  What \<open>stdio_buffer_shutdown\<close> finds: the descriptor, the outcome of \<open>fclose\<close> and the results of
  the successive \<open>waitpid\<close> calls. The calls it makes are recorded in order.
\<close>

datatype wait_result = Reaped | Interrupted | WaitError

datatype sys_call = Sock_shutdown nat | Fclose | Waitpid nat

record sys_state =
  fstat_ok :: bool
  is_sock :: bool
  fclose_ok :: bool
  server_active :: bool
  wait_results :: "wait_result list"

fun wait_loop :: "nat \<Rightarrow> wait_result list \<Rightarrow> sys_call list cres" where
  "wait_loop pid [] = Inl Diverges"
| "wait_loop pid (Interrupted # ws) = ebind (wait_loop pid ws) (\<lambda>cs. Inr (Waitpid pid # cs))"
| "wait_loop pid (WaitError # ws) = Inl Exits"
| "wait_loop pid (Reaped # ws) = Inr [Waitpid pid]"

definition stdio_buffer_shutdown :: "sys_state \<Rightarrow> stdio_buffer_closure buffer \<Rightarrow> pool \<Rightarrow>
    (int \<times> sys_call list \<times> stdio_buffer_closure buffer \<times> pool) cres" where
  "stdio_buffer_shutdown sys buf p =
     (if \<not> fstat_ok sys then Inl AssertFailed
      else ebind (case flush_fn buf of
                    None \<Rightarrow> Inr (buf, p)
                  | Some fl \<Rightarrow> ebind (buf_flush buf True p) (\<lambda>(status, buf', p').
                      Inr (buf'\<lparr>flush_fn := None\<rparr>, p')))
        (\<lambda>(buf1, p1).
          let (calls, buf2) =
                (if input_fn buf1 \<noteq> None
                 then (if is_sock sys then [Sock_shutdown 0] else [], buf1\<lparr>input_fn := None\<rparr>)
                 else if output_fn buf1 \<noteq> None
                 then (if is_sock sys then [Sock_shutdown 1] else [], buf1\<lparr>output_fn := None\<rparr>)
                 else ([], buf1))
          in if \<not> fclose_ok sys \<and> \<not> server_active sys then Inl Exits
             else if child_pid (closure buf2) \<noteq> 0
             then ebind (wait_loop (child_pid (closure buf2)) (wait_results sys)) (\<lambda>ws.
                    Inr (0, calls @ [Fclose] @ ws, buf2, p1))
             else Inr (0, calls @ [Fclose], buf2, p1)))"

text \<open>The function behind the \<open>shutdown\<close> pointer of a buffer, which changes that buffer, is an argument.\<close>

definition buf_shutdown :: "('c buffer \<Rightarrow> pool \<Rightarrow> (int \<times> sys_call list \<times> 'c buffer \<times> pool) cres) option \<Rightarrow>
    'c buffer \<Rightarrow> pool \<Rightarrow> (int \<times> sys_call list \<times> 'c buffer \<times> pool) cres" where
  "buf_shutdown shutdown buf p =
     (case shutdown of Some f \<Rightarrow> f buf p | None \<Rightarrow> Inr (0, [], buf, p))"

subsection \<open>The contracts hold\<close>

lemma stdio_output_loop_eq:
  "data \<noteq> [] \<Longrightarrow> stdio_output_loop data 0 f =
     (if length data \<le> write_room f
      then (0, length data, f\<lparr>written := written f @ data, write_room := write_room f - length data\<rparr>)
      else (errno_or_EIO f, 0, f\<lparr>written := written f @ take (write_room f) data, write_room := 0\<rparr>))"
  by (subst stdio_output_loop.simps)
    (auto simp: fwrite_def Let_def stdio_output_loop.simps [of "[]"] errno_or_EIO_def min_def)

interpretation stdio_out: blocking_device stdio_buffer_output "\<lambda>bc. written (fp bc)"
proof unfold_locales
  fix bs :: "byte list" and c :: stdio_buffer_closure and p assume ne: "bs \<noteq> []"
  have "errno_or_EIO (fp c) \<noteq> 0" by (simp add: errno_or_EIO_def EIO_def)
  then show "\<exists>st n c'. stdio_buffer_output c bs p = Inr (st, n, c', p) \<and>
      (st = 0 \<longrightarrow> n \<le> length bs \<and> written (fp c') = written (fp c) @ take n bs)"
    by (cases "length bs \<le> write_room (fp c)")
      (simp_all add: stdio_buffer_output_def stdio_output_loop_eq [OF ne])
next
  fix bs :: "byte list" and c p n c' p'
  assume ne: "bs \<noteq> []" and o: "stdio_buffer_output c bs p = Inr (0, n, c', p')"
  have "errno_or_EIO (fp c) \<noteq> 0" by (simp add: errno_or_EIO_def EIO_def)
  with o show "n = length bs"
    by (auto simp: stdio_buffer_output_def stdio_output_loop_eq [OF ne] split: if_splits)
qed

lemma stdio_send_fits:
  "pool_ok bds p \<Longrightarrow> \<forall>d\<in>set ds. chunk_wf bds d \<Longrightarrow> length (contents ds) \<le> write_room (fp c) \<Longrightarrow>
   \<exists>c' p'. send_output_loop stdio_buffer_output True ds c p = Inr (0, [], c', p') \<and>
           child_pid c' = child_pid c \<and> fflush_ok (fp c') = fflush_ok (fp c)"
proof (induction ds arbitrary: c p)
  case (Cons d ds)
  have wf: "chunk_wf bds d" "length (dtext d) = bds" using Cons.prems by (auto simp: chunk_wf_def)
  show ?case
  proof (cases "dsize d > 0")
    case False
    then have "chunk_bytes d = []" by (simp add: chunk_bytes_def)
    with False Cons.IH [of "p\<lparr>free_buffer_data := d # free_buffer_data p\<rparr>" c] Cons.prems wf
    show ?thesis by simp
  next
    case True
    have ne: "chunk_bytes d \<noteq> []"
      using True wf(1) by (metis chunk_bytes_length list.size(3) less_numeral_extra(3))
    let ?f = "(fp c)\<lparr>written := written (fp c) @ chunk_bytes d, write_room := write_room (fp c) - dsize d\<rparr>"
    have "stdio_buffer_output c (chunk_bytes d) p = Inr (0, dsize d, c\<lparr>fp := ?f\<rparr>, p)"
      using Cons.prems(3) wf(1) by (simp add: stdio_buffer_output_def stdio_output_loop_eq [OF ne])
    with Cons.IH [of "p\<lparr>free_buffer_data := d # free_buffer_data p\<rparr>" "c\<lparr>fp := ?f\<rparr>"] Cons.prems wf True
    show ?thesis by simp
  qed
qed simp

lemma stdio_send_all:
  assumes buf: "output_fn buf = Some stdio_buffer_output" "\<not> nonblocking buf"
      "\<forall>d\<in>set (bdata buf). chunk_wf bds d" "pool_ok bds p"
    and room: "length (contents (bdata buf)) \<le> write_room (fp (closure buf))"
  obtains c' p' where
    "buf_send_output buf p = Inr (0, buf\<lparr>bdata := [], last_null := True, closure := c'\<rparr>, p')"
    and "written (fp c') = written (fp (closure buf)) @ contents (bdata buf)" and "pool_ok bds p'"
    and "child_pid c' = child_pid (closure buf)" and "fflush_ok (fp c') = fflush_ok (fp (closure buf))"
proof -
  obtain c' p2 where s: "send_output_loop stdio_buffer_output True (bdata buf) (closure buf) p = Inr (0, [], c', p2)"
    and c': "child_pid c' = child_pid (closure buf)" "fflush_ok (fp c') = fflush_ok (fp (closure buf))"
    using stdio_send_fits [OF buf(4,3) room] by auto
  have "sends bds (\<lambda>bc. written (fp bc)) (bdata buf) (closure buf) p 0 [] c' p2"
    using stdio_out.send_loop_nonblocking [OF buf(4,3), of "closure buf"] s by auto
  moreover have "send_output_loop stdio_buffer_output False (bdata buf) (closure buf) p = Inr (0, [], c', p2)"
    using stdio_out.send_loop_blocking [OF buf(4,3), of False "closure buf"] s by simp
  ultimately show ?thesis
    using that [where c' = c' and p' = p2] buf c' by (simp add: buf_send_output_def sends_def)
qed

text \<open>C16. Output that is queued in any number of \<open>buf_output\<close> calls on a fresh stdio buffer and
  then sent reaches the file completely and in order: \<open>buf_send_output\<close> returns 0, the file has
  received exactly the pieces, the buffer is empty with \<open>last\<close> reset, and every block is back in
  the pool. The hypotheses are that the pool has enough blocks and the file enough room.\<close>

theorem queued_output_is_sent:
  assumes "0 < bds" "pool_ok bds p" "(\<Sum>b\<leftarrow>bss. Suc (length b)) \<le> pool_blocks p"
    "length (concat bss) \<le> write_room f"
  shows "\<exists>buf p1 buf' p2.
    efold (queue_put bds) bss (stdio_buffer_initialize f pid False, p) = Inr (buf, p1) \<and>
    buf_send_output buf p1 = Inr (0, buf', p2) \<and> written (stdio_buffer_get_file buf') = written f @ concat bss \<and>
    bdata buf' = [] \<and> last_null buf' \<and> pool_ok bds p2"
proof -
  let ?b0 = "stdio_buffer_initialize f pid False"
  have b0: "bdata ?b0 = []" "output_fn ?b0 = Some stdio_buffer_output" "nonblocking ?b0 = False"
    "fp (closure ?b0) = f" "last_null ?b0"
    by (simp_all add: stdio_buffer_initialize_def buf_initialize_def)
  have "\<exists>ds l. ?b0 = ?b0\<lparr>bdata := ds, last_null := l\<rparr>" by (rule buffer_same)
  then have "queue_inv bds ?b0 (?b0, p)"
    using assms(1,2) by (simp add: queue_inv_def buf_wf_def b0(1))
  then obtain buf p1 where q: "efold (queue_put bds) bss (?b0, p) = Inr (buf, p1)"
    "queue_inv bds ?b0 (buf, p1)" "contents (bdata buf) = concat bss"
    using outq.put_all [of bds ?b0 "(?b0, p)" bss] assms(3) b0(1) by auto
  have buf: "output_fn buf = Some stdio_buffer_output" "nonblocking buf = False" "fp (closure buf) = f"
    "\<forall>d\<in>set (bdata buf). chunk_wf bds d" "pool_ok bds p1"
    using q(2) b0 by (auto simp: queue_inv_def buf_wf_def)
  obtain c' p2 where "buf_send_output buf p1 = Inr (0, buf\<lparr>bdata := [], last_null := True, closure := c'\<rparr>, p2)"
    "written (fp c') = written (fp (closure buf)) @ contents (bdata buf)" "pool_ok bds p2"
    by (rule stdio_send_all [OF buf(1) _ buf(4,5)]) (use q(3) buf(2,3) assms(4) in simp_all)
  then show ?thesis
    using q buf by (intro exI [of _ buf] exI [of _ p1] exI [of _ "buf\<lparr>bdata := [], last_null := True, closure := c'\<rparr>"]
        exI [of _ p2]) (simp add: stdio_buffer_get_file_def)
qed

theorem queued_output_is_sent_witness:
  "\<exists>buf p1 buf' p2.
    efold (queue_put 4) [[1, 2, 3], [], [4, 5, 6, 7, 8]]
      (stdio_buffer_initialize \<lparr>to_read = [], read_fails = False, at_eof = False, written = [9],
         write_room = 8, fflush_ok = True, errno_after = 0\<rparr> 0 False,
       \<lparr>free_buffer_data = [], valloc = [replicate 64 0], mem_errors = 0\<rparr>) = Inr (buf, p1) \<and>
    buf_send_output buf p1 = Inr (0, buf', p2) \<and>
    written (stdio_buffer_get_file buf') = [9, 1, 2, 3, 4, 5, 6, 7, 8]"
  using queued_output_is_sent [of 4 "\<lparr>free_buffer_data = [], valloc = [replicate 64 0], mem_errors = 0\<rparr>"
      "[[1, 2, 3], [], [4, 5, 6, 7, 8]]" "\<lparr>to_read = [], read_fails = False, at_eof = False, written = [9],
         write_room = 8, fflush_ok = True, errno_after = 0\<rparr>" 0]
  by (simp add: pool_ok_def pool_blocks_def ALLOC_COUNT_def) blast

lemma stdio_send_nonblocking:
  "\<exists>st buf' p'. buf_send_output
      ((buf_nonio_initialize \<lparr>fp = \<lparr>to_read = [], read_fails = False, at_eof = False, written = [9],
            write_room = 8, fflush_ok = True, errno_after = 0\<rparr>, child_pid = 0\<rparr>)
         \<lparr>output_fn := Some stdio_buffer_output, nonblocking := True,
          bdata := [\<lparr>dtext = [7, 8, 0, 0], dbufp = 0, dsize = 2\<rparr>]\<rparr>)
      \<lparr>free_buffer_data = [], valloc = [], mem_errors = 0\<rparr> = Inr (st, buf', p') \<and>
     (st = 0 \<longrightarrow> written (fp (closure buf')) @ contents (bdata buf') = [9, 7, 8])"
  using send_output_nonblocking [OF stdio_out.output_device_axioms, of
      "(buf_nonio_initialize \<lparr>fp = \<lparr>to_read = [], read_fails = False, at_eof = False, written = [9],
            write_room = 8, fflush_ok = True, errno_after = 0\<rparr>, child_pid = 0\<rparr>)
         \<lparr>output_fn := Some stdio_buffer_output, nonblocking := True,
          bdata := [\<lparr>dtext = [7, 8, 0, 0], dbufp = 0, dsize = 2\<rparr>]\<rparr>" 4
      "\<lparr>free_buffer_data = [], valloc = [], mem_errors = 0\<rparr>"]
  by (auto simp: buf_nonio_initialize_def buf_initialize_def buf_wf_def chunk_wf_def pool_ok_def
      chunk_bytes_def mem_read_def)

subsection \<open>Shutting down\<close>

lemma wait_loop_interrupted:
  "wait_loop pid (replicate k Interrupted @ Reaped # ws) = Inr (replicate (Suc k) (Waitpid pid))"
  by (induction k) simp_all

text \<open>Shutting down an output buffer on a file writes what is still queued, then closes the file, then waits
  for the child, again after every interruption; the buffer can no longer be written to or flushed.\<close>

lemma shutdown_sends_queue:
  assumes buf: "output_fn buf = Some stdio_buffer_output" "input_fn buf = None" "\<not> nonblocking buf"
      "flush_fn buf = Some stdio_buffer_flush" "\<forall>d\<in>set (bdata buf). chunk_wf bds d" "pool_ok bds p"
    and room: "length (contents (bdata buf)) \<le> write_room (fp (closure buf))"
    and sys: "fstat_ok sys" "fclose_ok sys" "wait_results sys = replicate k Interrupted @ Reaped # ws"
  shows "\<exists>buf' p'. buf_shutdown (Some (stdio_buffer_shutdown sys)) buf p =
      Inr (0, (if is_sock sys then [Sock_shutdown 1] else []) @ [Fclose] @
              (if child_pid (closure buf) \<noteq> 0 then replicate (Suc k) (Waitpid (child_pid (closure buf))) else []),
           buf', p') \<and>
    written (fp (closure buf')) = written (fp (closure buf)) @ contents (bdata buf) \<and> bdata buf' = [] \<and>
    output_fn buf' = None \<and> flush_fn buf' = None \<and> pool_ok bds p'"
proof -
  obtain c' p' where send: "buf_send_output buf p = Inr (0, buf\<lparr>bdata := [], last_null := True, closure := c'\<rparr>, p')"
    and c': "written (fp c') = written (fp (closure buf)) @ contents (bdata buf)" "pool_ok bds p'"
      "child_pid c' = child_pid (closure buf)"
    by (rule stdio_send_all [OF buf(1,3,5,6) room])
  have "buf_flush buf True p = Inr (if fflush_ok (fp c') then 0 else errno_or_EIO (fp c'),
      buf\<lparr>bdata := [], last_null := True, closure := c'\<rparr>, p')"
    using buf(3,4) send by (simp add: buf_flush_def send_and_flush_def stdio_buffer_flush_def)
  then show ?thesis
    using buf sys c' wait_loop_interrupted [of "child_pid (closure buf)" k ws]
    by (simp add: buf_shutdown_def stdio_buffer_shutdown_def Let_def)
qed

end
