(* ===== verification/CVS_Input.thy ===== *)
theory CVS_Input
  imports CVS_Stdio
begin

text \<open>
  Reading into and from a CVS buffer (bugs/cvs/src/buffer.c): filling it from its device, taking a
  line or a number of bytes out of it, and reading a file into a chain of blocks.

  The loops that read from the device are \<open>partial_function (option)\<close>, since a device could go on
  for ever. \<open>input_device\<close> is the contract under which they are shown to return: what a read
  delivers is the next part of a finite stream \<open>rest\<close>, and a read that needs a byte delivers one or
  fails. A pointer into a block that the code hands to its caller is the list of bytes there.
\<close>

definition NL :: byte where
  "NL = 10"

definition memchr :: "byte \<Rightarrow> byte list \<Rightarrow> nat option" where
  "memchr b bs = (if b \<in> set bs then Some (length (takeWhile (\<lambda>x. x \<noteq> b) bs)) else None)"

subsection \<open>Filling the buffer\<close>

text \<open>Both readers first make sure that the last block has room: \<open>False\<close> when no block is left.\<close>

definition last_room :: "nat \<Rightarrow> 'c buffer \<Rightarrow> nat" where
  "last_room bds buf = bds - (dbufp (last (bdata buf)) + dsize (last (bdata buf)))"

definition ensure_block :: "nat \<Rightarrow> 'c buffer \<Rightarrow> pool \<Rightarrow> bool \<times> 'c buffer \<times> pool" where
  "ensure_block bds buf p =
     (if bdata buf = [] \<or> dbufp (last (bdata buf)) + dsize (last (bdata buf)) = bds
      then (case get_buffer_data bds p of
              (None, p') \<Rightarrow> (False, buf, memory_error p')
            | (Some d, p') \<Rightarrow> (True, buf_append_data buf [d\<lparr>dbufp := 0, dsize := 0\<rparr>], p'))
      else (True, buf, p))"

partial_function (option) input_data_loop ::
  "nat \<Rightarrow> ('c \<Rightarrow> nat \<Rightarrow> nat \<Rightarrow> pool \<Rightarrow> (int \<times> byte list \<times> 'c \<times> pool) cres) \<Rightarrow> 'c buffer \<Rightarrow> nat \<Rightarrow> pool \<Rightarrow>
   (int \<times> nat \<times> 'c buffer \<times> pool) cres option" where
  "input_data_loop bds inp buf count p =
     (case ensure_block bds buf p of
        (room, buf1, p1) \<Rightarrow>
          if \<not> room then Some (Inr (-2, count, buf1, p1))
          else (case inp (closure buf1) 0 (last_room bds buf1) p1 of
             Inl e \<Rightarrow> Some (Inl e)
           | Inr (status, bytes, c', p2) \<Rightarrow>
               if status \<noteq> 0 then Some (Inr (status, count, buf1\<lparr>closure := c'\<rparr>, p2))
               else (case put_last bytes (buf1\<lparr>closure := c'\<rparr>) of
                       Inl e \<Rightarrow> Some (Inl e)
                     | Inr buf2 \<Rightarrow>
                         if length bytes < last_room bds buf1
                         then Some (Inr (0, count + length bytes, buf2, p2))
                         else input_data_loop bds inp buf2 (count + length bytes) p2)))"

definition buf_input_data :: "nat \<Rightarrow> 'c buffer \<Rightarrow> pool \<Rightarrow> (int \<times> nat \<times> 'c buffer \<times> pool) cres option" where
  "buf_input_data bds buf p =
     (case input_fn buf of None \<Rightarrow> Some (Inl Abort) | Some inp \<Rightarrow> input_data_loop bds inp buf 0 p)"

definition buf_empty :: "nat \<Rightarrow> 'c buffer \<Rightarrow> pool \<Rightarrow> (bool \<times> 'c buffer \<times> pool) cres option" where
  "buf_empty bds buf p =
     map_option (\<lambda>r. ebind r (\<lambda>(status, count, buf', p'). Inr (buf_empty_p buf', buf', p')))
       (buf_input_data bds buf p)"

subsection \<open>Lines\<close>

text \<open>The first block with the byte: the blocks before it, the block, the offset, the blocks behind it.\<close>

fun find_byte :: "byte \<Rightarrow> buffer_data list \<Rightarrow> buffer_data list \<Rightarrow>
    (buffer_data list \<times> buffer_data \<times> nat \<times> buffer_data list) option" where
  "find_byte b before [] = None"
| "find_byte b before (d # ds) =
     (case memchr b (chunk_bytes d) of
        Some off \<Rightarrow> Some (before, d, off, ds)
      | None \<Rightarrow> find_byte b (before @ [d]) ds)"

text \<open>Copy the line out, give the blocks before the newline back, move the block past it.\<close>

definition take_line :: "buffer_data list \<Rightarrow> buffer_data \<Rightarrow> nat \<Rightarrow> buffer_data list \<Rightarrow> 'c buffer \<Rightarrow> pool \<Rightarrow>
    byte list \<times> 'c buffer \<times> pool" where
  "take_line before d finallen ds buf p =
     (concat (map chunk_bytes before) @ take finallen (chunk_bytes d),
      buf\<lparr>bdata := d\<lparr>dsize := dsize d - (finallen + 1), dbufp := dbufp d + (finallen + 1)\<rparr> # ds\<rparr>,
      p\<lparr>free_buffer_data := fold (\<lambda>d free. d # free) before (free_buffer_data p)\<rparr>)"

partial_function (option) read_more ::
  "nat \<Rightarrow> ('c \<Rightarrow> nat \<Rightarrow> nat \<Rightarrow> pool \<Rightarrow> (int \<times> byte list \<times> 'c \<times> pool) cres) \<Rightarrow> 'c buffer \<Rightarrow> pool \<Rightarrow>
   (int \<times> 'c buffer \<times> pool) cres option" where
  "read_more bds inp buf p =
     (case ensure_block bds buf p of
        (room, buf1, p1) \<Rightarrow>
          if \<not> room then Some (Inr (-2, buf1, p1))
          else (case inp (closure buf1) 1 (last_room bds buf1) p1 of
             Inl e \<Rightarrow> Some (Inl e)
           | Inr (status, bytes, c', p2) \<Rightarrow>
               if status \<noteq> 0 then Some (Inr (status, buf1\<lparr>closure := c'\<rparr>, p2))
               else (case put_last bytes (buf1\<lparr>closure := c'\<rparr>) of
                       Inl e \<Rightarrow> Some (Inl e)
                     | Inr buf2 \<Rightarrow>
                         if memchr NL bytes \<noteq> None then Some (Inr (0, buf2, p2))
                         else read_more bds inp buf2 p2)))"

partial_function (option) read_line_loop ::
  "nat \<Rightarrow> ('c \<Rightarrow> nat \<Rightarrow> nat \<Rightarrow> pool \<Rightarrow> (int \<times> byte list \<times> 'c \<times> pool) cres) \<Rightarrow> 'c buffer \<Rightarrow> pool \<Rightarrow>
   (int \<times> byte list option \<times> 'c buffer \<times> pool) cres option" where
  "read_line_loop bds inp buf p =
     (case find_byte NL [] (bdata buf) of
        Some (before, d, finallen, ds) \<Rightarrow>
          (case take_line before d finallen ds buf p of
             (line, buf', p') \<Rightarrow> Some (Inr (0, Some line, buf', p')))
      | None \<Rightarrow>
          Option.bind (read_more bds inp buf p) (\<lambda>r. case r of
            Inl e \<Rightarrow> Some (Inl e)
          | Inr (status, buf', p') \<Rightarrow>
              if status \<noteq> 0 then Some (Inr (status, None, buf', p'))
              else read_line_loop bds inp buf' p'))"

definition buf_read_line :: "nat \<Rightarrow> 'c buffer \<Rightarrow> pool \<Rightarrow>
    (int \<times> byte list option \<times> 'c buffer \<times> pool) cres option" where
  "buf_read_line bds buf p =
     (case input_fn buf of None \<Rightarrow> Some (Inl Abort) | Some inp \<Rightarrow> read_line_loop bds inp buf p)"

subsection \<open>Bytes\<close>

fun drop_empty :: "buffer_data list \<Rightarrow> pool \<Rightarrow> buffer_data list \<times> pool" where
  "drop_empty [] p = ([], p)"
| "drop_empty (d # ds) p =
     (if dsize d = 0 then drop_empty ds (p\<lparr>free_buffer_data := d # free_buffer_data p\<rparr>) else (d # ds, p))"

definition take_bytes :: "nat \<Rightarrow> 'c buffer \<Rightarrow> byte list \<times> 'c buffer" where
  "take_bytes want buf =
     (case bdata buf of
        [] \<Rightarrow> ([], buf)
      | d # ds \<Rightarrow>
          if want < dsize d
          then (take want (chunk_bytes d),
                buf\<lparr>bdata := d\<lparr>dsize := dsize d - want, dbufp := dbufp d + want\<rparr> # ds\<rparr>)
          else (chunk_bytes d, buf\<lparr>bdata := d\<lparr>dsize := 0\<rparr> # ds\<rparr>))"

definition buf_read_data :: "nat \<Rightarrow> 'c buffer \<Rightarrow> nat \<Rightarrow> pool \<Rightarrow> (int \<times> byte list \<times> 'c buffer \<times> pool) cres" where
  "buf_read_data bds buf want p =
     (case input_fn buf of
        None \<Rightarrow> Inl Abort
      | Some inp \<Rightarrow>
          (case drop_empty (bdata buf) p of (ds, p1) \<Rightarrow>
             let buf1 = buf\<lparr>bdata := ds,
                            last_null := (if bdata buf \<noteq> [] \<and> ds = [] then True else last_null buf)\<rparr>
             in if ds = [] then
                  (case get_buffer_data bds p1 of
                     (None, p2) \<Rightarrow> Inr (-2, [], buf1, memory_error p2)
                   | (Some d, p2) \<Rightarrow>
                       ebind (inp (closure buf1) (if want < bds then want else bds) bds p2)
                         (\<lambda>(status, bytes, c', p3).
                            let buf2 = buf_append_data (buf1\<lparr>closure := c'\<rparr>) [d\<lparr>dbufp := 0, dsize := 0\<rparr>]
                            in if status \<noteq> 0 then Inr (status, [], buf2, p3)
                               else ebind (put_last bytes buf2) (\<lambda>buf3.
                                      case take_bytes want buf3 of (got, buf4) \<Rightarrow> Inr (0, got, buf4, p3))))
                else (case take_bytes want buf1 of (got, buf2) \<Rightarrow> Inr (0, got, buf2, p1))))"

subsection \<open>Reading a file\<close>

text \<open>The error return gives the whole chain back to the pool.\<close>

function buf_read_file :: "nat \<Rightarrow> FILE \<Rightarrow> nat \<Rightarrow> buffer_data list \<Rightarrow> pool \<Rightarrow>
    (int \<times> buffer_data list \<times> FILE \<times> pool) cres" where
  "buf_read_file bds f sz chain p =
     (if sz > 0 then
        (case get_buffer_data bds p of
           (None, p') \<Rightarrow> Inr (-2, [], f, p'\<lparr>free_buffer_data := chain @ free_buffer_data p'\<rparr>)
         | (Some d, p') \<Rightarrow>
             let get = (if sz > bds then bds else sz)
             in case fread get f of (bytes, f') \<Rightarrow>
                  if length bytes < get
                  then Inr (if errno_after f' = 0 then EIO else errno_after f', [], f',
                            p'\<lparr>free_buffer_data := (chain @ [d]) @ free_buffer_data p'\<rparr>)
                  else ebind (memcpy 0 bytes (dtext d)) (\<lambda>t.
                         buf_read_file bds f' (sz - get)
                           (chain @ [\<lparr>dtext = t, dbufp = 0, dsize = get\<rparr>]) p'))
      else Inr (0, chain, f, p))"
  by pat_completeness auto
termination
  by (relation "measure (\<lambda>(bds, f, sz, chain, p). pool_blocks p)") (auto dest: get_buffer_data_blocks [OF sym])

function buf_read_file_to_eof :: "nat \<Rightarrow> FILE \<Rightarrow> buffer_data list \<Rightarrow> pool \<Rightarrow>
    (int \<times> buffer_data list \<times> FILE \<times> pool) cres" where
  "buf_read_file_to_eof bds f chain p =
     (if \<not> at_eof f then
        (case get_buffer_data bds p of
           (None, p') \<Rightarrow> Inr (-2, [], f, p'\<lparr>free_buffer_data := chain @ free_buffer_data p'\<rparr>)
         | (Some d, p') \<Rightarrow>
             (case fread bds f of (bytes, f') \<Rightarrow>
                if length bytes = 0 \<and> \<not> at_eof f'
                then Inr (if errno_after f' = 0 then EIO else errno_after f', [], f',
                          p'\<lparr>free_buffer_data := (chain @ [d]) @ free_buffer_data p'\<rparr>)
                else ebind (memcpy 0 bytes (dtext d)) (\<lambda>t.
                       buf_read_file_to_eof bds f'
                         (chain @ [\<lparr>dtext = t, dbufp = 0, dsize = length bytes\<rparr>]) p')))
      else Inr (0, chain, f, p))"
  by pat_completeness auto
termination
  by (relation "measure (\<lambda>(bds, f, chain, p). pool_blocks p)") (auto dest: get_buffer_data_blocks [OF sym])

declare buf_read_file.simps [simp del] buf_read_file_to_eof.simps [simp del]

subsection \<open>The contract of an input device\<close>

locale input_device =
  fixes inp :: "'c \<Rightarrow> nat \<Rightarrow> nat \<Rightarrow> pool \<Rightarrow> (int \<times> byte list \<times> 'c \<times> pool) cres"
    and rest :: "'c \<Rightarrow> byte list"
  assumes inp_ok: "0 < sz \<Longrightarrow> need \<le> sz \<Longrightarrow> \<exists>st bs c'. inp c need sz p = Inr (st, bs, c', p) \<and>
    (st = 0 \<longrightarrow> length bs \<le> sz \<and> rest c = bs @ rest c' \<and> (0 < need \<longrightarrow> bs \<noteq> [])) \<and>
    (st \<noteq> 0 \<longrightarrow> rest c' = rest c)"

text \<open>What a read keeps: the stream of bytes in the buffer and behind it, and the blocks.\<close>

definition reads :: "nat \<Rightarrow> ('c \<Rightarrow> byte list) \<Rightarrow> 'c buffer \<Rightarrow> pool \<Rightarrow> 'c buffer \<Rightarrow> pool \<Rightarrow> bool" where
  "reads bds rest buf p buf' p' \<longleftrightarrow>
     (\<exists>ds l c. buf' = buf\<lparr>bdata := ds, last_null := l, closure := c\<rparr>) \<and> buf_wf bds buf' \<and> pool_ok bds p' \<and>
     contents (bdata buf') @ rest (closure buf') = contents (bdata buf) @ rest (closure buf) \<and>
     pool_blocks p' + length (bdata buf') = pool_blocks p + length (bdata buf)"

lemma reads_trans:
  assumes "reads bds rest b p b' p'" "reads bds rest b' p' b'' p''"
  shows "reads bds rest b p b'' p''"
proof -
  obtain ds l c ds' l' c' where "b' = b\<lparr>bdata := ds, last_null := l, closure := c\<rparr>"
    "b'' = b'\<lparr>bdata := ds', last_null := l', closure := c'\<rparr>"
    using assms unfolding reads_def by blast
  then have "b'' = b\<lparr>bdata := ds', last_null := l', closure := c'\<rparr>" by simp
  then have "\<exists>ds l c. b'' = b\<lparr>bdata := ds, last_null := l, closure := c\<rparr>" by blast
  with assms show ?thesis by (simp add: reads_def)
qed

lemma readsI:
  assumes "\<forall>d\<in>set ds. chunk_wf bds d" "pool_ok bds p'"
    "contents ds @ rest c = contents (bdata buf) @ rest (closure buf)"
    "pool_blocks p' + length ds = pool_blocks p + length (bdata buf)"
  shows "reads bds rest buf p (buf\<lparr>bdata := ds, last_null := l, closure := c\<rparr>) p'"
proof -
  have "\<exists>ds' l' c'. buf\<lparr>bdata := ds, last_null := l, closure := c\<rparr> =
      buf\<lparr>bdata := ds', last_null := l', closure := c'\<rparr>" by blast
  with assms show ?thesis unfolding reads_def buf_wf_def by simp
qed

lemma ensure_block_spec:
  assumes "0 < bds" "buf_wf bds buf" "pool_ok bds p" "0 < pool_blocks p"
  shows "\<exists>ds l p1. ensure_block bds buf p = (True, buf\<lparr>bdata := ds, last_null := l\<rparr>, p1) \<and> ds \<noteq> [] \<and>
    (\<forall>d\<in>set ds. chunk_wf bds d) \<and> dbufp (last ds) + dsize (last ds) < bds \<and>
    contents ds = contents (bdata buf) \<and> pool_ok bds p1 \<and> pool_blocks p \<le> Suc (pool_blocks p1) \<and>
    pool_blocks p1 + length ds = pool_blocks p + length (bdata buf)"
proof (cases "bdata buf = [] \<or> dbufp (last (bdata buf)) + dsize (last (bdata buf)) = bds")
  case True
  obtain d p1 where g: "get_buffer_data bds p = (Some d, p1)" "pool_ok bds p1" "length (dtext d) = bds"
    "pool_blocks p = Suc (pool_blocks p1)"
    using get_buffer_data_some [OF assms(3,4)] by blast
  let ?d = "d\<lparr>dbufp := 0, dsize := 0\<rparr>"
  have "ensure_block bds buf p = (True, buf\<lparr>bdata := bdata buf @ [?d], last_null := False\<rparr>, p1)"
    using True g(1) by (simp add: ensure_block_def buf_append_data_def)
  moreover have "chunk_wf bds ?d" "chunk_bytes ?d = []" using g(3) by (simp_all add: chunk_wf_def chunk_bytes_def)
  ultimately show ?thesis
    using g assms(1,2) by (intro exI [of _ "bdata buf @ [?d]"] exI [of _ False] exI [of _ p1]) (simp add: buf_wf_def)
next
  case False
  then have "chunk_wf bds (last (bdata buf))" using assms(2) by (simp add: buf_wf_def)
  then have "dbufp (last (bdata buf)) + dsize (last (bdata buf)) < bds"
    using False by (simp add: chunk_wf_def)
  with False assms show ?thesis
    by (intro exI [of _ "bdata buf"] exI [of _ "last_null buf"] exI [of _ p]) (simp add: ensure_block_def buf_wf_def)
qed

context input_device
begin

text \<open>One turn of either reading loop: a block with room, then one call of the device.\<close>

lemma read_step:
  assumes "0 < bds" "buf_wf bds buf" "pool_ok bds p" "length (rest (closure buf)) < pool_blocks p" "need \<le> 1"
  shows "\<exists>buf1 p1 st bytes c'. ensure_block bds buf p = (True, buf1, p1) \<and>
    inp (closure buf1) need (last_room bds buf1) p1 = Inr (st, bytes, c', p1) \<and>
    (st \<noteq> 0 \<longrightarrow> reads bds rest buf p (buf1\<lparr>closure := c'\<rparr>) p1 \<and> contents (bdata buf1) = contents (bdata buf)) \<and>
    (st = 0 \<longrightarrow> (\<exists>buf2. put_last bytes (buf1\<lparr>closure := c'\<rparr>) = Inr buf2 \<and> reads bds rest buf p buf2 p1 \<and>
       contents (bdata buf2) = contents (bdata buf) @ bytes \<and> 0 < last_room bds buf1 \<and>
       (0 < need \<longrightarrow> bytes \<noteq> []) \<and> closure buf2 = c' \<and> rest (closure buf) = bytes @ rest c' \<and>
       (bytes \<noteq> [] \<longrightarrow> length (rest c') < pool_blocks p1)))"
proof -
  have "0 < pool_blocks p" using assms(4) by simp
  then obtain ds l p1 where e: "ensure_block bds buf p = (True, buf\<lparr>bdata := ds, last_null := l\<rparr>, p1)"
    "ds \<noteq> []" "\<forall>d\<in>set ds. chunk_wf bds d" "dbufp (last ds) + dsize (last ds) < bds"
    "contents ds = contents (bdata buf)" "pool_ok bds p1" "pool_blocks p \<le> Suc (pool_blocks p1)"
    "pool_blocks p1 + length ds = pool_blocks p + length (bdata buf)"
    using ensure_block_spec [OF assms(1-3)] by blast
  let ?b1 = "buf\<lparr>bdata := ds, last_null := l\<rparr>"
  have room: "0 < last_room bds ?b1" "need \<le> last_room bds ?b1"
    using e(4) assms(5) by (auto simp: last_room_def)
  obtain st bytes c' where i: "inp (closure ?b1) need (last_room bds ?b1) p1 = Inr (st, bytes, c', p1)"
    "st = 0 \<longrightarrow> length bytes \<le> last_room bds ?b1 \<and> rest (closure buf) = bytes @ rest c' \<and> (0 < need \<longrightarrow> bytes \<noteq> [])"
    "st \<noteq> 0 \<longrightarrow> rest c' = rest (closure buf)"
    using inp_ok [OF room, of "closure ?b1" p1] by auto
  let ?b = "?b1\<lparr>closure := c'\<rparr>"
  show ?thesis
  proof (cases "st = 0")
    case False
    then have "reads bds rest buf p (buf\<lparr>bdata := ds, last_null := l, closure := c'\<rparr>) p1"
      using e i(3) by (intro readsI) simp_all
    with False e i(1) show ?thesis by auto
  next
    case True
    have len: "dbufp (last (bdata ?b)) + dsize (last (bdata ?b)) + length bytes \<le> bds"
      using True i(2) e(4) by (auto simp: last_room_def)
    obtain ds2 where ds2: "put_last bytes ?b = Inr (?b\<lparr>bdata := ds2\<rparr>)" "\<forall>d\<in>set ds2. chunk_wf bds d"
      "length ds2 = length ds" "contents ds2 = contents ds @ bytes"
      using put_last_ok [of bds ?b bytes] len e(2,3) by (auto simp: buf_wf_def)
    have b2: "?b\<lparr>bdata := ds2\<rparr> = buf\<lparr>bdata := ds2, last_null := l, closure := c'\<rparr>" by simp
    have "reads bds rest buf p (?b\<lparr>bdata := ds2\<rparr>) p1"
      unfolding b2 using e i(2) True ds2 by (intro readsI) simp_all
    moreover have "length (rest c') < pool_blocks p1" if "bytes \<noteq> []"
    proof -
      have "length (rest (closure buf)) = length bytes + length (rest c')" using i(2) True by simp
      moreover have "0 < length bytes" using that by simp
      ultimately show ?thesis using assms(4) e(7) by linarith
    qed
    ultimately show ?thesis using True e ds2 i room(1) by auto
  qed
qed

end

subsection \<open>Finding a byte\<close>

lemma memchr_None: "memchr b bs = None \<longleftrightarrow> b \<notin> set bs"
  by (simp add: memchr_def)

lemma memchr_Some:
  assumes "memchr b bs = Some k"
  shows "bs = take k bs @ b # drop (Suc k) bs" "b \<notin> set (take k bs)" "k < length bs"
proof -
  have b: "b \<in> set bs" "k = length (takeWhile (\<lambda>x. x \<noteq> b) bs)"
    using assms by (auto simp: memchr_def split: if_splits)
  then obtain l r where s: "bs = l @ b # r" "b \<notin> set l" by (meson split_list_first)
  then have "takeWhile (\<lambda>x. x \<noteq> b) bs = l" by (auto simp: takeWhile_append)
  with b s show "bs = take k bs @ b # drop (Suc k) bs" "b \<notin> set (take k bs)" "k < length bs"
    by simp_all
qed

lemma find_byte_None: "find_byte b before ds = None \<longleftrightarrow> b \<notin> set (contents ds)"
  by (induction ds arbitrary: before) (auto simp: memchr_def)

lemma find_byte_Some:
  "find_byte b before ds = Some (pre, d, off, post) \<Longrightarrow>
   \<exists>mid. pre = before @ mid \<and> ds = mid @ d # post \<and> b \<notin> set (contents mid) \<and>
     memchr b (chunk_bytes d) = Some off"
proof (induction ds arbitrary: before)
  case (Cons x ds)
  show ?case
  proof (cases "memchr b (chunk_bytes x)")
    case None
    then obtain mid where "pre = before @ x # mid" "ds = mid @ d # post" "b \<notin> set (contents mid)"
      "memchr b (chunk_bytes d) = Some off"
      using Cons.IH [of "before @ [x]"] Cons.prems None by auto
    with None show ?thesis by (intro exI [of _ "x # mid"]) (simp add: memchr_None)
  next
    case (Some k)
    with Cons.prems show ?thesis by (intro exI [of _ "[]"]) auto
  qed
qed simp

lemma release_fold: "fold (\<lambda>d free. d # free) ds fs = rev ds @ fs"
  by (induction ds arbitrary: fs) auto

lemma take_line_spec:
  assumes "buf_wf bds buf" "pool_ok bds p" "find_byte NL [] (bdata buf) = Some (pre, d, off, post)"
    "take_line pre d off post buf p = (line, buf', p')"
  shows "buf_wf bds buf'" "pool_ok bds p'" "NL \<notin> set line" "contents (bdata buf) = line @ NL # contents (bdata buf')"
    "pool_blocks p' + length (bdata buf') = pool_blocks p + length (bdata buf)"
    "\<exists>ds. buf' = buf\<lparr>bdata := ds\<rparr>"
proof -
  have f: "bdata buf = pre @ d # post" "NL \<notin> set (contents pre)" "memchr NL (chunk_bytes d) = Some off"
    using find_byte_Some [OF assms(3)] by auto
  have wf: "chunk_wf bds d" "\<forall>x\<in>set pre. length (dtext x) = bds" "\<forall>x\<in>set post. chunk_wf bds x"
    using assms(1) f(1) by (auto simp: buf_wf_def chunk_wf_def)
  have m: "chunk_bytes d = take off (chunk_bytes d) @ NL # drop (Suc off) (chunk_bytes d)"
    "NL \<notin> set (take off (chunk_bytes d))" "off < dsize d"
    using memchr_Some [OF f(3)] wf(1) by auto
  have t: "line = contents pre @ take off (chunk_bytes d)"
    "buf' = buf\<lparr>bdata := d\<lparr>dsize := dsize d - Suc off, dbufp := dbufp d + Suc off\<rparr> # post\<rparr>"
    "p' = p\<lparr>free_buffer_data := rev pre @ free_buffer_data p\<rparr>"
    using assms(4) by (auto simp: take_line_def release_fold contents_def)
  note adv = chunk_advance [OF wf(1), of "Suc off"]
  show "buf_wf bds buf'" using t(2) adv m(3) wf(3) by (simp add: buf_wf_def)
  show "pool_ok bds p'" using t(3) assms(2) wf(2) by simp
  show "NL \<notin> set line" using t(1) f(2) m(2) by simp
  have "contents (bdata buf) = contents pre @ chunk_bytes d @ contents post" using f(1) by simp
  also have "\<dots> = contents pre @ (take off (chunk_bytes d) @ NL # drop (Suc off) (chunk_bytes d)) @ contents post"
    using m(1) by presburger
  also have "\<dots> = line @ NL # contents (bdata buf')" using t(1,2) adv(2) m(3) by simp
  finally show "contents (bdata buf) = line @ NL # contents (bdata buf')" .
  show "pool_blocks p' + length (bdata buf') = pool_blocks p + length (bdata buf)" using t(2,3) f(1) by simp
  show "\<exists>ds. buf' = buf\<lparr>bdata := ds\<rparr>" using t(2) by blast
qed

subsection \<open>The reading loops return\<close>

context input_device
begin

lemma read_more_spec:
  assumes "0 < bds"
  shows "buf_wf bds buf \<Longrightarrow> pool_ok bds p \<Longrightarrow> length (rest (closure buf)) < pool_blocks p \<Longrightarrow>
    NL \<notin> set (contents (bdata buf)) \<Longrightarrow>
    \<exists>st buf' p'. read_more bds inp buf p = Some (Inr (st, buf', p')) \<and> reads bds rest buf p buf' p' \<and>
      (st = 0 \<longleftrightarrow> NL \<in> set (contents (bdata buf')))"
proof (induction "length (rest (closure buf))" arbitrary: buf p rule: less_induct)
  case less
  obtain buf1 p1 st bytes c' where s: "ensure_block bds buf p = (True, buf1, p1)"
    "inp (closure buf1) 1 (last_room bds buf1) p1 = Inr (st, bytes, c', p1)"
    "st \<noteq> 0 \<longrightarrow> reads bds rest buf p (buf1\<lparr>closure := c'\<rparr>) p1 \<and> contents (bdata buf1) = contents (bdata buf)"
    "st = 0 \<longrightarrow> (\<exists>buf2. put_last bytes (buf1\<lparr>closure := c'\<rparr>) = Inr buf2 \<and> reads bds rest buf p buf2 p1 \<and>
       contents (bdata buf2) = contents (bdata buf) @ bytes \<and> 0 < last_room bds buf1 \<and>
       (0 < (1::nat) \<longrightarrow> bytes \<noteq> []) \<and> closure buf2 = c' \<and> rest (closure buf) = bytes @ rest c' \<and>
       (bytes \<noteq> [] \<longrightarrow> length (rest c') < pool_blocks p1))"
    using read_step [OF assms less.prems(1-3) order_refl] by (elim exE conjE) (rule that)
  show ?case
  proof (cases "st = 0")
    case False
    with s less.prems(4) show ?thesis by (subst read_more.simps) simp
  next
    case True
    then obtain buf2 where b: "put_last bytes (buf1\<lparr>closure := c'\<rparr>) = Inr buf2" "reads bds rest buf p buf2 p1"
      "contents (bdata buf2) = contents (bdata buf) @ bytes" "bytes \<noteq> []" "closure buf2 = c'"
      "rest (closure buf) = bytes @ rest c'" "length (rest c') < pool_blocks p1"
      using s(4) by auto
    show ?thesis
    proof (cases "NL \<in> set bytes")
      case True
      with s(1,2) b \<open>st = 0\<close> show ?thesis by (subst read_more.simps) (simp add: memchr_None)
    next
      case False
      have eq: "read_more bds inp buf p = read_more bds inp buf2 p1"
        using s(1,2) b \<open>st = 0\<close> False by (subst read_more.simps) (simp add: memchr_None)
      have "length (rest (closure buf2)) < length (rest (closure buf))" using b(4-6) by simp
      moreover have "buf_wf bds buf2" "pool_ok bds p1" using b(2) by (simp_all add: reads_def)
      ultimately obtain st' buf' p' where "read_more bds inp buf2 p1 = Some (Inr (st', buf', p'))"
        "reads bds rest buf2 p1 buf' p'" "st' = 0 \<longleftrightarrow> NL \<in> set (contents (bdata buf'))"
        using less.hyps [of buf2 p1] b(3,5,7) less.prems(4) False by auto
      with eq reads_trans [OF b(2)] show ?thesis by auto
    qed
  qed
qed

lemma read_line_spec:
  assumes "0 < bds" "buf_wf bds buf" "pool_ok bds p" "length (rest (closure buf)) < pool_blocks p"
  shows "\<exists>st line buf' p'. read_line_loop bds inp buf p = Some (Inr (st, line, buf', p')) \<and>
    buf_wf bds buf' \<and> pool_ok bds p' \<and>
    pool_blocks p' + length (bdata buf') = pool_blocks p + length (bdata buf) \<and>
    (st = 0 \<longrightarrow> (\<exists>l. line = Some l \<and> NL \<notin> set l \<and>
       contents (bdata buf) @ rest (closure buf) = l @ NL # contents (bdata buf') @ rest (closure buf'))) \<and>
    (st \<noteq> 0 \<longrightarrow> line = None \<and> NL \<notin> set (contents (bdata buf')) \<and>
       contents (bdata buf') @ rest (closure buf') = contents (bdata buf) @ rest (closure buf))"
proof -
  have found: ?thesis if b: "reads bds rest buf p b q" "NL \<in> set (contents (bdata b))"
    "read_line_loop bds inp buf p = read_line_loop bds inp b q" for b q
  proof -
    have wf: "buf_wf bds b" "pool_ok bds q" using b(1) by (simp_all add: reads_def)
    obtain pre d off post where f: "find_byte NL [] (bdata b) = Some (pre, d, off, post)"
      using b(2) find_byte_None [of NL "[]" "bdata b"] by (cases "find_byte NL [] (bdata b)") auto
    obtain line b' q' where t: "take_line pre d off post b q = (line, b', q')" by (cases "take_line pre d off post b q")
    note tl = take_line_spec [OF wf f t]
    have "read_line_loop bds inp b q = Some (Inr (0, Some line, b', q'))"
      using f t by (subst read_line_loop.simps) simp
    moreover have "closure b' = closure b" using tl(6) by auto
    ultimately show ?thesis using tl b(1,3) by (auto simp: reads_def)
  qed
  have same: "reads bds rest buf p buf p"
    using readsI [of "bdata buf" bds p rest "closure buf" buf p "last_null buf"] assms(2,3) by (simp add: buf_wf_def)
  show ?thesis
  proof (cases "NL \<in> set (contents (bdata buf))")
    case True
    with found [OF same] show ?thesis by simp
  next
    case False
    obtain st b q where m: "read_more bds inp buf p = Some (Inr (st, b, q))" "reads bds rest buf p b q"
      "st = 0 \<longleftrightarrow> NL \<in> set (contents (bdata b))"
      using read_more_spec [OF assms False] by blast
    have none: "find_byte NL [] (bdata buf) = None" using False by (simp add: find_byte_None)
    show ?thesis
    proof (cases "st = 0")
      case True
      with found [OF m(2)] m none show ?thesis by (simp add: read_line_loop.simps [of bds inp buf p])
    next
      case False
      then have "read_line_loop bds inp buf p = Some (Inr (st, None, b, q))"
        using m(1) none by (subst read_line_loop.simps) simp
      with m False show ?thesis by (simp add: reads_def)
    qed
  qed
qed

lemma input_data_spec:
  assumes "0 < bds"
  shows "buf_wf bds buf \<Longrightarrow> pool_ok bds p \<Longrightarrow> length (rest (closure buf)) < pool_blocks p \<Longrightarrow>
    \<exists>st got buf' p'. input_data_loop bds inp buf count p = Some (Inr (st, count + length got, buf', p')) \<and>
      reads bds rest buf p buf' p' \<and> contents (bdata buf') = contents (bdata buf) @ got"
proof (induction "length (rest (closure buf))" arbitrary: buf p count rule: less_induct)
  case less
  obtain buf1 p1 st bytes c' where s: "ensure_block bds buf p = (True, buf1, p1)"
    "inp (closure buf1) 0 (last_room bds buf1) p1 = Inr (st, bytes, c', p1)"
    "st \<noteq> 0 \<longrightarrow> reads bds rest buf p (buf1\<lparr>closure := c'\<rparr>) p1 \<and> contents (bdata buf1) = contents (bdata buf)"
    "st = 0 \<longrightarrow> (\<exists>buf2. put_last bytes (buf1\<lparr>closure := c'\<rparr>) = Inr buf2 \<and> reads bds rest buf p buf2 p1 \<and>
       contents (bdata buf2) = contents (bdata buf) @ bytes \<and> 0 < last_room bds buf1 \<and>
       (0 < (0::nat) \<longrightarrow> bytes \<noteq> []) \<and> closure buf2 = c' \<and> rest (closure buf) = bytes @ rest c' \<and>
       (bytes \<noteq> [] \<longrightarrow> length (rest c') < pool_blocks p1))"
    using read_step [OF assms less.prems(1-3) zero_le] by (elim exE conjE) (rule that)
  show ?case
  proof (cases "st = 0")
    case False
    with s show ?thesis by (subst input_data_loop.simps) (auto intro: exI [of _ "[]"])
  next
    case True
    then obtain buf2 where b: "put_last bytes (buf1\<lparr>closure := c'\<rparr>) = Inr buf2" "reads bds rest buf p buf2 p1"
      "contents (bdata buf2) = contents (bdata buf) @ bytes" "0 < last_room bds buf1" "closure buf2 = c'"
      "rest (closure buf) = bytes @ rest c'" "bytes \<noteq> [] \<longrightarrow> length (rest c') < pool_blocks p1"
      using s(4) by auto
    show ?thesis
    proof (cases "length bytes < last_room bds buf1")
      case True
      with s(1,2) b \<open>st = 0\<close> show ?thesis by (subst input_data_loop.simps) auto
    next
      case False
      then have ne: "bytes \<noteq> []" using b(4) by auto
      have eq: "input_data_loop bds inp buf count p = input_data_loop bds inp buf2 (count + length bytes) p1"
        using s(1,2) b \<open>st = 0\<close> False by (subst input_data_loop.simps) simp
      have "length (rest (closure buf2)) < length (rest (closure buf))" using b(5,6) ne by simp
      moreover have "buf_wf bds buf2" "pool_ok bds p1" using b(2) by (simp_all add: reads_def)
      ultimately obtain st' got buf' p' where
        "input_data_loop bds inp buf2 (count + length bytes) p1 = Some (Inr (st', count + length bytes + length got, buf', p'))"
        "reads bds rest buf2 p1 buf' p'" "contents (bdata buf') = contents (bdata buf2) @ got"
        using less.hyps [of buf2 p1 "count + length bytes"] b(5,7) ne by auto
      with eq reads_trans [OF b(2)] b(3) show ?thesis
        by (intro exI [of _ st'] exI [of _ "bytes @ got"]) auto
    qed
  qed
qed

end

lemma drop_empty_spec:
  assumes "drop_empty ds p = (ds', p')" "\<forall>d\<in>set ds. chunk_wf bds d" "pool_ok bds p"
  shows "pool_ok bds p' \<and> contents ds' = contents ds \<and> (\<forall>d\<in>set ds'. chunk_wf bds d) \<and>
    pool_blocks p' + length ds' = pool_blocks p + length ds \<and> pool_blocks p \<le> pool_blocks p' \<and>
    (ds' \<noteq> [] \<longrightarrow> 0 < dsize (hd ds'))"
  using assms
proof (induction ds arbitrary: p)
  case (Cons d ds)
  show ?case
  proof (cases "dsize d = 0")
    case True
    then have "chunk_bytes d = []" by (simp add: chunk_bytes_def)
    with True Cons.IH [of "p\<lparr>free_buffer_data := d # free_buffer_data p\<rparr>"] Cons.prems show ?thesis
      by (auto simp: chunk_wf_text)
  qed (use Cons.prems in auto)
qed simp

lemma take_bytes_spec:
  assumes "bdata buf = d # ds" "\<forall>d\<in>set (bdata buf). chunk_wf bds d" "take_bytes want buf = (got, buf')"
  shows "\<exists>ds'. buf' = buf\<lparr>bdata := ds'\<rparr> \<and> (\<forall>d\<in>set ds'. chunk_wf bds d) \<and> length ds' = length (bdata buf) \<and>
    got @ contents ds' = contents (bdata buf) \<and> length got = min want (dsize d)"
proof -
  have wf: "chunk_wf bds d" "\<forall>d\<in>set ds. chunk_wf bds d" using assms by auto
  show ?thesis
  proof (cases "want < dsize d")
    case True
    with chunk_advance [OF wf(1), of want] assms wf show ?thesis
      by (intro exI [of _ "d\<lparr>dsize := dsize d - want, dbufp := dbufp d + want\<rparr> # ds"])
        (auto simp: take_bytes_def simp flip: append_assoc)
  next
    case False
    with assms wf show ?thesis
      by (intro exI [of _ "d\<lparr>dsize := 0\<rparr> # ds"])
        (auto simp: take_bytes_def chunk_wf_def chunk_bytes_def)
  qed
qed

context input_device
begin

lemma read_data_spec:
  assumes "input_fn buf = Some inp" "0 < bds" "buf_wf bds buf" "pool_ok bds p"
    "0 < pool_blocks p + length (bdata buf)"
  shows "\<exists>st got buf' p'. buf_read_data bds buf want p = Inr (st, got, buf', p') \<and> buf_wf bds buf' \<and>
    pool_ok bds p' \<and> pool_blocks p' + length (bdata buf') = pool_blocks p + length (bdata buf) \<and>
    got @ contents (bdata buf') @ rest (closure buf') = contents (bdata buf) @ rest (closure buf) \<and>
    length got \<le> want \<and> (st = 0 \<longrightarrow> 0 < want \<longrightarrow> got \<noteq> []) \<and> (st \<noteq> 0 \<longrightarrow> got = []) \<and>
    input_fn buf' = input_fn buf"
proof -
  obtain ds p1 where e: "drop_empty (bdata buf) p = (ds, p1)" by (cases "drop_empty (bdata buf) p")
  have d: "pool_ok bds p1" "contents ds = contents (bdata buf)" "\<forall>d\<in>set ds. chunk_wf bds d"
    "pool_blocks p1 + length ds = pool_blocks p + length (bdata buf)" "pool_blocks p \<le> pool_blocks p1"
    "ds \<noteq> [] \<longrightarrow> 0 < dsize (hd ds)"
    using drop_empty_spec [OF e _ assms(4)] assms(3) by (auto simp: buf_wf_def)
  define l where "l = (if bdata buf \<noteq> [] \<and> ds = [] then True else last_null buf)"
  define b1 where "b1 = buf\<lparr>bdata := ds, last_null := l\<rparr>"
  show ?thesis
  proof (cases ds)
    case (Cons x xs)
    obtain got buf' where t: "take_bytes want b1 = (got, buf')" by (cases "take_bytes want b1")
    obtain ds' where "buf' = b1\<lparr>bdata := ds'\<rparr>" "\<forall>d\<in>set ds'. chunk_wf bds d" "length ds' = length ds"
      "got @ contents ds' = contents ds" "length got = min want (dsize x)"
      using take_bytes_spec [OF _ _ t, of x xs bds] d(3) Cons by (auto simp: b1_def)
    moreover have "buf_read_data bds buf want p = Inr (0, got, buf', p1)"
      using assms(1) e t Cons by (simp add: buf_read_data_def Let_def b1_def l_def)
    moreover have "got @ contents ds' @ rest (closure buf) = contents (bdata buf) @ rest (closure buf)"
      using \<open>got @ contents ds' = contents ds\<close> d(2) by (simp flip: append_assoc)
    ultimately show ?thesis using d Cons by (auto simp: buf_wf_def b1_def)
  next
    case Nil
    obtain x p2 where g: "get_buffer_data bds p1 = (Some x, p2)" "pool_ok bds p2" "length (dtext x) = bds"
      "pool_blocks p1 = Suc (pool_blocks p2)"
      using get_buffer_data_some [OF d(1)] assms(5) d(4) Nil by (metis add_0_right list.size(3))
    have need: "(if want < bds then want else bds) \<le> bds" by simp
    have cb: "closure b1 = closure buf" by (simp add: b1_def)
    obtain st bytes c' where i: "inp (closure buf) (if want < bds then want else bds) bds p2 = Inr (st, bytes, c', p2)"
      "st = 0 \<longrightarrow> length bytes \<le> bds \<and> rest (closure buf) = bytes @ rest c' \<and>
         (0 < (if want < bds then want else bds) \<longrightarrow> bytes \<noteq> [])" "st \<noteq> 0 \<longrightarrow> rest c' = rest (closure buf)"
      using inp_ok [OF assms(2) need, of "closure b1" p2] unfolding cb by (elim exE conjE) (rule that)
    define b2 where "b2 = buf_append_data (b1\<lparr>closure := c'\<rparr>) [x\<lparr>dbufp := 0, dsize := 0\<rparr>]"
    have x: "chunk_wf bds (x\<lparr>dbufp := 0, dsize := 0\<rparr>)" "chunk_bytes (x\<lparr>dbufp := 0, dsize := 0\<rparr>) = []"
      using g(3) by (simp_all add: chunk_wf_def chunk_bytes_def)
    have b2: "bdata b2 = [x\<lparr>dbufp := 0, dsize := 0\<rparr>]" "closure b2 = c'" "buf_wf bds b2"
      "input_fn b2 = input_fn buf"
      using Nil x by (simp_all add: b2_def b1_def buf_wf_def buf_append_data_def)
    have c: "contents (bdata buf) = []" using d(2) Nil by simp
    show ?thesis
    proof (cases "st = 0")
      case False
      then have "buf_read_data bds buf want p = Inr (st, [], b2, p2)"
        using assms(1) e g(1) i(1) Nil by (simp add: buf_read_data_def Let_def b1_def l_def b2_def)
      then show ?thesis using False b2 x g d(4) Nil i(3) c by auto
    next
      case True
      obtain ds3 where p3: "put_last bytes b2 = Inr (b2\<lparr>bdata := ds3\<rparr>)" "\<forall>d\<in>set ds3. chunk_wf bds d"
        "length ds3 = 1" "contents ds3 = bytes"
        using put_last_ok [OF b2(3), of bytes] b2(1) x i(2) True by auto
      then obtain y where y: "ds3 = [y]" by (auto simp: length_Suc_conv)
      obtain got b4 where t: "take_bytes want (b2\<lparr>bdata := ds3\<rparr>) = (got, b4)"
        by (cases "take_bytes want (b2\<lparr>bdata := ds3\<rparr>)")
      obtain ds4 where b4: "b4 = b2\<lparr>bdata := ds4\<rparr>" "\<forall>d\<in>set ds4. chunk_wf bds d" "length ds4 = 1"
        "got @ contents ds4 = bytes" "length got = min want (dsize y)"
        using take_bytes_spec [OF _ _ t, of y "[]" bds] p3 y by auto
      have "dsize y = length bytes" using p3(2,4) y by auto
      moreover have "buf_read_data bds buf want p = Inr (0, got, b4, p2)"
        using assms(1) e g(1) i(1) Nil True p3(1) t
        by (simp add: buf_read_data_def Let_def b1_def l_def b2_def)
      moreover have "got @ contents ds4 @ rest c' = rest (closure buf)"
        using b4(4) i(2) True by (simp flip: append_assoc)
      moreover have "got \<noteq> []" if "0 < want"
      proof -
        have "bytes \<noteq> []" using i(2) True that assms(2) by (simp split: if_splits)
        then show ?thesis using b4(5) \<open>dsize y = length bytes\<close> that by (auto simp: min_def split: if_splits)
      qed
      moreover have "pool_blocks p2 + length ds4 = pool_blocks p + length (bdata buf)"
        using b4(3) d(4) g(4) Nil by simp
      ultimately show ?thesis
        using b4 b2(2,4) g(2) c by (intro exI [of _ 0] exI [of _ got] exI [of _ b4] exI [of _ p2])
          (simp add: buf_wf_def)
    qed
  qed
qed

end

subsection \<open>A stdio file is an input device\<close>

interpretation stdio_in: input_device stdio_buffer_input "\<lambda>bc. to_read (fp bc)"
proof unfold_locales
  fix sz need :: nat and c :: stdio_buffer_closure and p
  assume sz: "0 < sz" "need \<le> sz"
  have fail: "read_failure f \<noteq> 0" for f by (simp add: read_failure_def errno_or_EIO_def EIO_def)
  show "\<exists>st bs c'. stdio_buffer_input c need sz p = Inr (st, bs, c', p) \<and>
    (st = 0 \<longrightarrow> length bs \<le> sz \<and> to_read (fp c) = bs @ to_read (fp c') \<and> (0 < need \<longrightarrow> bs \<noteq> [])) \<and>
    (st \<noteq> 0 \<longrightarrow> to_read (fp c') = to_read (fp c))"
  proof (cases "need = 0 \<or> need = 1")
    case True
    with sz fail show ?thesis
      by (cases "to_read (fp c)") (auto simp: stdio_buffer_input_def getc_def)
  next
    case False
    with sz fail show ?thesis
      by (cases "to_read (fp c)") (auto simp: stdio_buffer_input_def fread_def Let_def)
  qed
qed

subsection \<open>Reading a file\<close>

lemma read_file_spec:
  assumes "0 < bds"
  shows "pool_ok bds p \<Longrightarrow> \<forall>d\<in>set chain. chunk_wf bds d \<Longrightarrow>
    \<exists>st ds f' p'. buf_read_file bds f sz chain p = Inr (st, ds, f', p') \<and> pool_ok bds p' \<and>
      pool_blocks p' + length ds = pool_blocks p + length chain \<and>
      (st = 0 \<longrightarrow> (\<forall>d\<in>set ds. chunk_wf bds d) \<and> sz \<le> length (to_read f) \<and>
         contents ds = contents chain @ take sz (to_read f) \<and> to_read f' = drop sz (to_read f)) \<and>
      (st \<noteq> 0 \<longrightarrow> ds = []) \<and> (sz \<le> length (to_read f) \<longrightarrow> sz \<le> pool_blocks p \<longrightarrow> st = 0)"
proof (induction "pool_blocks p" arbitrary: p f sz chain)
  case 0
  then have "\<forall>d\<in>set chain. length (dtext d) = bds" by (simp add: chunk_wf_text)
  with 0 get_buffer_data_none [of p bds] show ?case by (subst buf_read_file.simps) simp
next
  case (Suc k)
  obtain d p1 where g: "get_buffer_data bds p = (Some d, p1)" "pool_ok bds p1" "length (dtext d) = bds"
    "pool_blocks p = Suc (pool_blocks p1)"
    using get_buffer_data_some [OF Suc.prems(1)] Suc.hyps(2) by (metis zero_less_Suc)
  have texts: "\<forall>d\<in>set chain. length (dtext d) = bds" using Suc.prems(2) by (simp add: chunk_wf_text)
  define get where "get = (if sz > bds then bds else sz)"
  define f1 where "f1 = snd (fread get f)"
  let ?bytes = "take get (to_read f)" and ?f = "f1"
  have fr: "fread get f = (?bytes, ?f)" "to_read ?f = drop get (to_read f)"
    by (simp_all add: f1_def fread_def)
  have gs: "get \<le> bds" "get \<le> sz" "0 < sz \<longrightarrow> 0 < get" using assms by (auto simp: get_def)
  show ?case
  proof (cases "0 < sz")
    case False
    with Suc.prems texts show ?thesis by (subst buf_read_file.simps) simp
  next
    case pos: True
    show ?thesis
    proof (cases "length ?bytes < get")
      case True
      have "buf_read_file bds f sz chain p = Inr (if errno_after f1 = 0 then EIO else errno_after f1, [], f1,
          p1\<lparr>free_buffer_data := (chain @ [d]) @ free_buffer_data p1\<rparr>)"
        using pos g(1) fr(1) True by (subst buf_read_file.simps) (simp add: get_def [symmetric] del: length_take)
      moreover have "\<not> sz \<le> length (to_read f)" using True gs(2) by simp
      ultimately show ?thesis using g texts
        by (auto simp: EIO_def pool_ok_def pool_blocks_def ball_Un)
    next
      case False
      let ?c = "\<lparr>dtext = mem_write 0 ?bytes (dtext d), dbufp = 0, dsize = get\<rparr>"
      have len: "length ?bytes = get" using False by simp
      have c: "chunk_wf bds ?c" "chunk_bytes ?c = ?bytes"
        using fresh_chunk [OF g(3), of ?bytes] gs(1) len by simp_all
      have eq: "buf_read_file bds f sz chain p = buf_read_file bds ?f (sz - get) (chain @ [?c]) p1"
        using pos g fr False len gs(1) by (subst buf_read_file.simps) (simp add: get_def [symmetric])
      have "k = pool_blocks p1" using Suc.hyps(2) g(4) by simp
      then obtain st ds f' p' where r: "buf_read_file bds ?f (sz - get) (chain @ [?c]) p1 = Inr (st, ds, f', p')"
        "pool_ok bds p'" "pool_blocks p' + length ds = pool_blocks p1 + length (chain @ [?c])"
        "st = 0 \<longrightarrow> (\<forall>d\<in>set ds. chunk_wf bds d) \<and> sz - get \<le> length (to_read ?f) \<and>
           contents ds = contents (chain @ [?c]) @ take (sz - get) (to_read ?f) \<and>
           to_read f' = drop (sz - get) (to_read ?f)"
        "st \<noteq> 0 \<longrightarrow> ds = []"
        "sz - get \<le> length (to_read ?f) \<longrightarrow> sz - get \<le> pool_blocks p1 \<longrightarrow> st = 0"
        using Suc.hyps(1) [of p1 "chain @ [?c]" ?f "sz - get"] g(2) c(1) Suc.prems(2) by auto
      have "get \<le> length (to_read f)" using len by simp
      moreover have "take sz (to_read f) = ?bytes @ take (sz - get) (drop get (to_read f))"
        using take_add [of get "sz - get" "to_read f"] gs(2) by simp
      ultimately show ?thesis using eq r c(2) fr(2) gs pos g(4) by (auto simp: add.commute)
    qed
  qed
qed

lemma read_to_eof_spec:
  assumes "0 < bds"
  shows "pool_ok bds p \<Longrightarrow> \<forall>d\<in>set chain. chunk_wf bds d \<Longrightarrow> at_eof f \<longrightarrow> to_read f = [] \<Longrightarrow>
    \<exists>st ds f' p'. buf_read_file_to_eof bds f chain p = Inr (st, ds, f', p') \<and> pool_ok bds p' \<and>
      pool_blocks p' + length ds = pool_blocks p + length chain \<and>
      (st = 0 \<longrightarrow> (\<forall>d\<in>set ds. chunk_wf bds d) \<and> contents ds = contents chain @ to_read f \<and> at_eof f') \<and>
      (st \<noteq> 0 \<longrightarrow> ds = []) \<and> (at_eof f \<or> \<not> read_fails f \<and> length (to_read f) < pool_blocks p \<longrightarrow> st = 0)"
proof (induction "pool_blocks p" arbitrary: p f chain)
  case 0
  then have "\<forall>d\<in>set chain. length (dtext d) = bds" by (simp add: chunk_wf_text)
  with 0 get_buffer_data_none [of p bds] show ?case by (subst buf_read_file_to_eof.simps) simp
next
  case (Suc k)
  obtain d p1 where g: "get_buffer_data bds p = (Some d, p1)" "pool_ok bds p1" "length (dtext d) = bds"
    "pool_blocks p = Suc (pool_blocks p1)"
    using get_buffer_data_some [OF Suc.prems(1)] Suc.hyps(2) by (metis zero_less_Suc)
  have texts: "\<forall>d\<in>set chain. length (dtext d) = bds" using Suc.prems(2) by (simp add: chunk_wf_text)
  define f1 where "f1 = snd (fread bds f)"
  let ?bytes = "take bds (to_read f)" and ?f = "f1"
  have fr: "fread bds f = (?bytes, ?f)" "to_read ?f = drop bds (to_read f)" "read_fails ?f = read_fails f"
    "at_eof ?f \<longleftrightarrow> at_eof f \<or> (length (to_read f) < bds \<and> \<not> read_fails f)"
    by (simp_all add: f1_def fread_def)
  show ?case
  proof (cases "at_eof f")
    case True
    with Suc.prems texts show ?thesis by (subst buf_read_file_to_eof.simps) simp
  next
    case pos: False
    show ?thesis
    proof (cases "length ?bytes = 0 \<and> \<not> at_eof ?f")
      case True
      have "buf_read_file_to_eof bds f chain p = Inr (if errno_after ?f = 0 then EIO else errno_after ?f, [], ?f,
          p1\<lparr>free_buffer_data := (chain @ [d]) @ free_buffer_data p1\<rparr>)"
      proof -
        have "?bytes = []" "\<not> at_eof f1" using True unfolding length_0_conv by blast+
        then show ?thesis using pos g(1) fr(1) by (subst buf_read_file_to_eof.simps) simp
      qed
      moreover have "read_fails f" using True fr(4) pos assms by auto
      ultimately show ?thesis using g texts pos
        by (auto simp: EIO_def pool_ok_def pool_blocks_def ball_Un)
    next
      case False
      let ?c = "\<lparr>dtext = mem_write 0 ?bytes (dtext d), dbufp = 0, dsize = length ?bytes\<rparr>"
      have c: "chunk_wf bds ?c" "chunk_bytes ?c = ?bytes" using fresh_chunk [OF g(3), of ?bytes] by simp_all
      have m: "memcpy 0 ?bytes (dtext d) = Inr (mem_write 0 ?bytes (dtext d))" using g(3) by simp
      have eq: "buf_read_file_to_eof bds f chain p = buf_read_file_to_eof bds ?f (chain @ [?c]) p1"
        using pos g(1) fr(1) False m by (subst buf_read_file_to_eof.simps) auto
      have e: "at_eof ?f \<longrightarrow> to_read ?f = []" using fr(2,4) pos by simp
      have "k = pool_blocks p1" using Suc.hyps(2) g(4) by simp
      then obtain st ds f' p' where r: "buf_read_file_to_eof bds ?f (chain @ [?c]) p1 = Inr (st, ds, f', p')"
        "pool_ok bds p'" "pool_blocks p' + length ds = pool_blocks p1 + length (chain @ [?c])"
        "st = 0 \<longrightarrow> (\<forall>d\<in>set ds. chunk_wf bds d) \<and> contents ds = contents (chain @ [?c]) @ to_read ?f \<and> at_eof f'"
        "st \<noteq> 0 \<longrightarrow> ds = []" "at_eof ?f \<or> \<not> read_fails ?f \<and> length (to_read ?f) < pool_blocks p1 \<longrightarrow> st = 0"
        using Suc.hyps(1) [of p1 "chain @ [?c]" ?f] g(2) c(1) Suc.prems(2) e by auto
      have "at_eof ?f \<or> length (to_read ?f) < pool_blocks p1"
        if "length (to_read f) < pool_blocks p" "\<not> read_fails f"
        using that fr(2,4) g(4) assms by (cases "length (to_read f) < bds") auto
      then show ?thesis using eq r c(2) fr(2,3) g(4) pos by auto
    qed
  qed
qed

subsection \<open>Properties\<close>

text \<open>Reading a line returns for every device that delivers a finite stream, with a block in the
  pool for each byte at most. On status 0 it hands out the bytes up to the first newline of the
  stream (what was buffered followed by what the device delivers) and leaves exactly what follows
  that newline; any other status leaves the stream as it was, with no newline in the buffer. No
  block is lost and no write leaves its block.\<close>

lemma read_line_splits_stream:
  assumes "input_device inp rest" "input_fn buf = Some inp" "0 < bds" "buf_wf bds buf" "pool_ok bds p"
    "length (rest (closure buf)) < pool_blocks p"
  shows "\<exists>st line buf' p'. buf_read_line bds buf p = Some (Inr (st, line, buf', p')) \<and>
    buf_wf bds buf' \<and> pool_ok bds p' \<and>
    pool_blocks p' + length (bdata buf') = pool_blocks p + length (bdata buf) \<and>
    (st = 0 \<longrightarrow> (\<exists>l. line = Some l \<and> NL \<notin> set l \<and>
       contents (bdata buf) @ rest (closure buf) = l @ NL # contents (bdata buf') @ rest (closure buf'))) \<and>
    (st \<noteq> 0 \<longrightarrow> line = None \<and> NL \<notin> set (contents (bdata buf')) \<and>
       contents (bdata buf') @ rest (closure buf') = contents (bdata buf) @ rest (closure buf))"
  using input_device.read_line_spec [OF assms(1,3-6)] by (simp add: buf_read_line_def assms(2))

text \<open>A pool and a file for the concrete instances.\<close>

definition demo_pool :: "nat \<Rightarrow> pool" where
  "demo_pool bds = \<lparr>free_buffer_data = [], valloc = [replicate (16 * bds) 0], mem_errors = 0\<rparr>"

definition demo_file :: "byte list \<Rightarrow> FILE" where
  "demo_file bs = \<lparr>to_read = bs, read_fails = False, at_eof = False, written = [], write_room = 0,
     fflush_ok = True, errno_after = 0\<rparr>"

lemma demo_pool_ok [simp]:
  "pool_ok bds (demo_pool bds)" "pool_blocks (demo_pool bds) = 16" "mem_errors (demo_pool bds) = 0"
  by (simp_all add: demo_pool_def pool_ok_def pool_blocks_def ALLOC_COUNT_def)

lemma demo_input [simp]:
  "input_fn (stdio_buffer_initialize f 0 True) = Some stdio_buffer_input"
  "bdata (stdio_buffer_initialize f 0 b) = []" "fp (closure (stdio_buffer_initialize f 0 b)) = f"
  "buf_wf bds (stdio_buffer_initialize f 0 b)" "to_read (demo_file bs) = bs"
  by (simp_all add: stdio_buffer_initialize_def buf_initialize_def buf_wf_def demo_file_def)

text \<open>\<open>buf_read_data\<close> takes bytes off the front of the stream: it returns at most the number
  asked for, at least one if one was asked for and the device did not fail, and leaves exactly the
  rest; one block, in the pool or in the buffer, is enough and none is lost.\<close>

lemma read_data_takes_prefix:
  assumes "input_device inp rest" "input_fn buf = Some inp" "0 < bds" "buf_wf bds buf" "pool_ok bds p"
    "0 < pool_blocks p + length (bdata buf)"
  shows "\<exists>st got buf' p'. buf_read_data bds buf want p = Inr (st, got, buf', p') \<and> buf_wf bds buf' \<and>
    pool_ok bds p' \<and> pool_blocks p' + length (bdata buf') = pool_blocks p + length (bdata buf) \<and>
    got @ contents (bdata buf') @ rest (closure buf') = contents (bdata buf) @ rest (closure buf) \<and>
    length got \<le> want \<and> (st = 0 \<longrightarrow> 0 < want \<longrightarrow> got \<noteq> []) \<and> (st \<noteq> 0 \<longrightarrow> got = [])"
  using input_device.read_data_spec [OF assms, of want] by blast

text \<open>\<open>buf_input_data\<close> returns for every device that delivers a finite stream; it appends what
  it reads, reports how many bytes that was, and loses neither bytes nor blocks.\<close>

lemma input_data_appends:
  assumes "input_device inp rest" "input_fn buf = Some inp" "0 < bds" "buf_wf bds buf" "pool_ok bds p"
    "length (rest (closure buf)) < pool_blocks p"
  shows "\<exists>st got buf' p'. buf_input_data bds buf p = Some (Inr (st, length got, buf', p')) \<and>
    buf_wf bds buf' \<and> pool_ok bds p' \<and> contents (bdata buf') = contents (bdata buf) @ got \<and>
    rest (closure buf) = got @ rest (closure buf') \<and>
    pool_blocks p' + length (bdata buf') = pool_blocks p + length (bdata buf)"
  using input_device.input_data_spec [OF assms(1,3-6), of 0]
  by (auto simp: buf_input_data_def assms(2) reads_def)

text \<open>\<open>buf_read_file\<close> either returns 0 with a chain that holds exactly the next \<open>size\<close> bytes of the
  file, or a nonzero status with every block it took back in the pool; it returns 0 whenever the
  file has the bytes and the pool a block for each.\<close>

lemma read_file_exact:
  assumes "0 < bds" "pool_ok bds p"
  shows "\<exists>st ds f' p'. buf_read_file bds f sz [] p = Inr (st, ds, f', p') \<and> pool_ok bds p' \<and>
    pool_blocks p' + length ds = pool_blocks p \<and>
    (st = 0 \<longrightarrow> (\<forall>d\<in>set ds. chunk_wf bds d) \<and> sz \<le> length (to_read f) \<and>
       contents ds = take sz (to_read f) \<and> to_read f' = drop sz (to_read f)) \<and>
    (st \<noteq> 0 \<longrightarrow> ds = []) \<and> (sz \<le> length (to_read f) \<longrightarrow> sz \<le> pool_blocks p \<longrightarrow> st = 0)"
  using read_file_spec [OF assms, of "[]"] by simp

end
