(* ===== verification/CVS_Transfer.thy ===== *)
theory CVS_Transfer
  imports CVS_Input
begin

text \<open>
  Moving data between CVS buffers (bugs/cvs/src/buffer.c): \<open>buf_copy_lines\<close>, which prefixes each
  complete line with a command, and \<open>buf_copy_counted\<close>, the receiver of the counted messages that
  \<open>buf_send_counted\<close> and \<open>buf_send_special_count\<close> produce. Each has a reference definition on plain
  byte lists, and a refinement theorem says that the block-moving code computes it.
\<close>

unbundle bit_operations_syntax

subsection \<open>Lines\<close>

text \<open>A measure for the loops: the bytes in use.\<close>

definition used :: "buffer_data list \<Rightarrow> nat" where
  "used ds = (\<Sum>d\<leftarrow>ds. dsize d)"

lemma used_simps [simp]:
  "used [] = 0" "used (d # ds) = dsize d + used ds" "used (ds @ es) = used ds + used es"
  by (simp_all add: used_def)

lemma find_byte_used:
  assumes "find_byte b [] ds = Some (pre, d, off, post)"
  shows "off < dsize d" "ds = pre @ d # post"
proof -
  have f: "ds = pre @ d # post" "memchr b (chunk_bytes d) = Some off"
    using find_byte_Some [OF assms] by auto
  have "length (chunk_bytes d) \<le> dsize d" by (simp add: chunk_bytes_def mem_read_def)
  then show "off < dsize d" "ds = pre @ d # post" using memchr_Some(3) [OF f(2)] f(1) by auto
qed

lemma find_byte_less:
  "find_byte b [] ds = Some (pre, d, off, post) \<Longrightarrow> dsize d - Suc off + used post < used ds"
  using find_byte_used [of b ds pre d off post] by auto

function buf_copy_lines :: "nat \<Rightarrow> 'o buffer \<Rightarrow> 'i buffer \<Rightarrow> byte \<Rightarrow> pool \<Rightarrow> ('o buffer \<times> 'i buffer \<times> pool) cres" where
  "buf_copy_lines bds outbuf inbuf command p =
     (case find_byte NL [] (bdata inbuf) of
        None \<Rightarrow> Inr (outbuf, inbuf, p)
      | Some (pre, nldata, off, post) \<Rightarrow>
          ebind (buf_append_char bds outbuf command p) (\<lambda>(o1, p1).
          ebind (buf_append_char bds o1 32 p1) (\<lambda>(o2, p2).
            let o3 = buf_append_data o2 pre; len = off + 1
            in if len = dsize nldata
               then buf_copy_lines bds (buf_append_data o3 [nldata])
                      (inbuf\<lparr>bdata := post, last_null := (if post = [] then True else last_null inbuf)\<rparr>)
                      command p2
               else ebind (buf_output bds o3 (take len (chunk_bytes nldata)) p2) (\<lambda>(o4, p3).
                      buf_copy_lines bds o4
                        (inbuf\<lparr>bdata := nldata\<lparr>dsize := dsize nldata - len, dbufp := dbufp nldata + len\<rparr> # post\<rparr>)
                        command p3))))"
  by pat_completeness auto
termination
  by (relation "measure (\<lambda>(bds, outbuf, inbuf, command, p). used (bdata inbuf))")
    (auto dest: find_byte_less)

declare buf_copy_lines.simps [simp del]

text \<open>The reference: every complete line behind the command and a space, and what is left.\<close>

function line_spec :: "byte \<Rightarrow> byte list \<Rightarrow> byte list \<times> byte list" where
  "line_spec cmd bs =
     (case memchr NL bs of
        None \<Rightarrow> ([], bs)
      | Some k \<Rightarrow> (case line_spec cmd (drop (Suc k) bs) of (out, left) \<Rightarrow> (cmd # 32 # take (Suc k) bs @ out, left)))"
  by pat_completeness auto
termination
  by (relation "measure (\<lambda>(cmd, bs). length bs)") (auto dest: memchr_Some(3))

declare line_spec.simps [simp del]

subsection \<open>Counted messages\<close>

definition bytes_int :: "bool \<Rightarrow> byte list \<Rightarrow> 32 word" where
  "bytes_int big bs = foldr (\<lambda>b w. ucast b OR push_bit 8 w) (if big then rev bs else bs) 0"

text \<open>
  Collect the bytes of the count: either the number still missing, or the bytes, the blocks before
  \<open>start\<close>, \<open>start\<close>, \<open>startoff\<close> and the blocks behind.
\<close>

fun get_count :: "nat \<Rightarrow> byte list \<Rightarrow> buffer_data list \<Rightarrow> buffer_data list \<Rightarrow>
    nat + byte list \<times> buffer_data list \<times> buffer_data \<times> nat \<times> buffer_data list" where
  "get_count need intp before [] = Inl need"
| "get_count need intp before (d # ds) =
     (if dsize d \<ge> need then Inr (intp @ take need (chunk_bytes d), before, d, need, ds)
      else get_count (need - dsize d) (intp @ chunk_bytes d) (before @ [d]) ds)"

text \<open>Search the blocks behind \<open>start\<close> for the end of the data: its index and the bytes wanted there.\<close>

fun find_stop :: "int \<Rightarrow> nat \<Rightarrow> buffer_data list \<Rightarrow> int + nat \<times> nat" where
  "find_stop need i [] = Inl need"
| "find_stop need i (d # ds) =
     (if need \<le> int (dsize d) then Inr (i, nat need) else find_stop (need - int (dsize d)) (i + 1) ds)"

definition stop_of :: "int \<Rightarrow> buffer_data \<Rightarrow> nat \<Rightarrow> buffer_data list \<Rightarrow> int + nat \<times> nat" where
  "stop_of count start startoff ds =
     (if count < 0 then Inr (0, 0)
      else if count - (int (dsize start) - int startoff) \<le> 0 then Inr (0, nat count)
      else find_stop (count - (int (dsize start) - int startoff)) 1 ds)"

text \<open>
  Once the whole message is there: \<open>chain\<close> begins with \<open>start\<close>, already moved past the count. The
  blocks before the new start go back to the pool, those up to \<open>stop\<close> move to the output buffer,
  and the part wanted of \<open>stop\<close> is copied.
\<close>

definition move_message :: "nat \<Rightarrow> nat \<Rightarrow> nat \<Rightarrow> nat \<Rightarrow> buffer_data list \<Rightarrow> 'o buffer \<Rightarrow> 'i buffer \<Rightarrow> pool \<Rightarrow>
    ('o buffer \<times> 'i buffer \<times> pool) cres" where
  "move_message bds s j stopwant chain outbuf inbuf p =
     (let o1 = (if s \<noteq> j then buf_append_data outbuf (take (j - s) (drop s chain)) else outbuf)
      in if stopwant > 0 then
           ebind (buf_output bds o1 (take stopwant (chunk_bytes (chain ! j))) p) (\<lambda>(o2, p2).
             Inr (o2,
                  inbuf\<lparr>bdata := (chain ! j)\<lparr>dsize := dsize (chain ! j) - stopwant,
                                            dbufp := dbufp (chain ! j) + stopwant\<rparr> # drop (Suc j) chain\<rparr>, p2))
         else Inr (o1, inbuf\<lparr>bdata := drop j chain\<rparr>, p))"

definition release :: "buffer_data list \<Rightarrow> pool \<Rightarrow> pool" where
  "release ds p = p\<lparr>free_buffer_data := fold (\<lambda>d free. d # free) ds (free_buffer_data p)\<rparr>"

partial_function (option) buf_copy_counted :: "nat \<Rightarrow> bool \<Rightarrow> 'o buffer \<Rightarrow> 'i buffer \<Rightarrow> pool \<Rightarrow>
    (int \<times> int \<times> 'o buffer \<times> 'i buffer \<times> pool) cres option" where
  "buf_copy_counted bds big outbuf inbuf p =
     (case get_count 4 [] [] (bdata inbuf) of
        Inl need \<Rightarrow> Some (Inr (int need, 0, outbuf, inbuf, p))
      | Inr (bytes, before, start, startoff, ds) \<Rightarrow>
          (case stop_of (sint (bytes_int big bytes)) start startoff ds of
             Inl need \<Rightarrow> Some (Inr (need, 0, outbuf, inbuf, p))
           | Inr (j, stopwant) \<Rightarrow>
               (let start' = start\<lparr>dsize := dsize start - startoff, dbufp := dbufp start + startoff\<rparr>;
                    chain = start' # ds;
                    s = (if dsize start' = 0 then 1 else 0);
                    (j', want) = (if dsize (chain ! j) = stopwant then (j + 1, 0) else (j, stopwant));
                    p1 = release (before @ take s chain) p
                in if sint (bytes_int big bytes) < 0
                   then Some (Inr (0, sint (bytes_int big bytes), outbuf, inbuf\<lparr>bdata := drop s chain\<rparr>, p1))
                   else (case move_message bds s j' want chain outbuf inbuf p1 of
                           Inl e \<Rightarrow> Some (Inl e)
                         | Inr (outbuf', inbuf', p2) \<Rightarrow> buf_copy_counted bds big outbuf' inbuf' p2))))"

text \<open>The reference: bytes to output, bytes left, bytes missing, special count.\<close>

function counted_spec :: "bool \<Rightarrow> byte list \<Rightarrow> byte list \<times> byte list \<times> int \<times> int" where
  "counted_spec big bs =
     (if length bs < 4 then ([], bs, 4 - int (length bs), 0)
      else let count = sint (bytes_int big (take 4 bs)); body = drop 4 bs
           in if count < 0 then ([], body, 0, count)
              else if int (length body) < count then ([], bs, count - int (length body), 0)
              else (case counted_spec big (drop (nat count) body) of (out, left, need, special) \<Rightarrow>
                      (take (nat count) body @ out, left, need, special)))"
  by pat_completeness auto
termination
  by (relation "measure (\<lambda>(big, bs). length bs)") auto

declare counted_spec.simps [simp del]

subsection \<open>Copying lines refines its reference\<close>

lemma line_spec_step:
  assumes "memchr NL bs = Some k" "line_spec cmd (drop (Suc k) bs) = (out, left)"
  shows "line_spec cmd bs = (cmd # 32 # take (Suc k) bs @ out, left)"
  using assms by (subst line_spec.simps) simp

lemma memchr_append:
  assumes "b \<notin> set xs" "memchr b ys = Some k"
  shows "memchr b (xs @ ys @ zs) = Some (length xs + k)"
proof -
  have y: "ys = take k ys @ b # drop (Suc k) ys" "b \<notin> set (take k ys)" "k < length ys"
    using memchr_Some [OF assms(2)] by auto
  have w: "xs @ ys @ zs = (xs @ take k ys) @ b # (drop (Suc k) ys @ zs)" using y(1) by (metis append.assoc append_Cons)
  have "b \<notin> set (xs @ take k ys)" using y(2) assms(1) by simp
  then have "takeWhile (\<lambda>x. x \<noteq> b) (xs @ ys @ zs) = xs @ take k ys"
    unfolding w by (subst takeWhile_append2) auto
  moreover have "b \<in> set (xs @ ys @ zs)" unfolding w by simp
  ultimately show ?thesis using y(3) by (simp add: memchr_def)
qed

lemma appendsD:
  assumes "appends bds b p bytes b' p'"
  shows "buf_wf bds b'" "pool_ok bds p'" "contents (bdata b') = contents (bdata b) @ bytes"
    "pool_blocks p' + length (bdata b') = pool_blocks p + length (bdata b)"
  using assms by (auto simp: appends_def)

text \<open>The command and the space in front of a line.\<close>

lemma append_two:
  assumes "0 < bds" "buf_wf bds b" "pool_ok bds p" "2 \<le> pool_blocks p"
  shows "\<exists>o1 p1 o2 p2. buf_append_char bds b x p = Inr (o1, p1) \<and> buf_append_char bds o1 y p1 = Inr (o2, p2) \<and>
    appends bds b p [x, y] o2 p2 \<and> pool_blocks p \<le> pool_blocks p2 + 2 \<and> mem_errors p2 = mem_errors p"
proof -
  obtain o1 p1 where 1: "buf_append_char bds b x p = Inr (o1, p1)" "appends bds b p [x] o1 p1"
    "pool_blocks p \<le> Suc (pool_blocks p1)" "mem_errors p1 = mem_errors p"
    using buf_append_char_spec [OF assms(1-3), of x] assms(4) by auto
  obtain o2 p2 where 2: "buf_append_char bds o1 y p1 = Inr (o2, p2)" "appends bds o1 p1 [y] o2 p2"
    "pool_blocks p1 \<le> Suc (pool_blocks p2)" "mem_errors p2 = mem_errors p1"
    using buf_append_char_spec [OF assms(1) appendsD(1,2) [OF 1(2)], of y] 1(3) assms(4) by auto
  from appends_trans [OF 1(2) 2(2)] have "appends bds b p [x, y] o2 p2" by simp
  moreover have "pool_blocks p \<le> pool_blocks p2 + 2" "mem_errors p2 = mem_errors p" using 1 2 by simp_all
  ultimately show ?thesis using 1(1) 2(1) by blast
qed

text \<open>What one turn of the loop does: \<open>line\<close>, with its newline, moves over.\<close>

lemma copy_one_line:
  assumes "0 < bds" "buf_wf bds outbuf" "buf_wf bds inbuf" "pool_ok bds p"
    "4 * length (contents (bdata inbuf)) \<le> pool_blocks p" "NL \<in> set (contents (bdata inbuf))"
  shows "\<exists>k o' i' p'. buf_copy_lines bds outbuf inbuf cmd p = buf_copy_lines bds o' i' cmd p' \<and>
    memchr NL (contents (bdata inbuf)) = Some k \<and>
    contents (bdata i') = drop (Suc k) (contents (bdata inbuf)) \<and>
    contents (bdata o') = contents (bdata outbuf) @ cmd # 32 # take (Suc k) (contents (bdata inbuf)) \<and>
    buf_wf bds o' \<and> buf_wf bds i' \<and> pool_ok bds p' \<and> mem_errors p' = mem_errors p \<and>
    pool_blocks p' + length (bdata o') + length (bdata i') =
      pool_blocks p + length (bdata outbuf) + length (bdata inbuf) \<and>
    4 * length (contents (bdata i')) \<le> pool_blocks p' \<and> (last_ok inbuf \<longrightarrow> last_ok i') \<and>
    used (bdata i') < used (bdata inbuf)"
proof -
  obtain pre d off post where x: "find_byte NL [] (bdata inbuf) = Some (pre, d, off, post)"
    using assms(6) find_byte_None [of NL "[]" "bdata inbuf"] by (cases "find_byte NL [] (bdata inbuf)") auto
  have f: "bdata inbuf = pre @ d # post" "NL \<notin> set (contents pre)" "memchr NL (chunk_bytes d) = Some off"
    using find_byte_Some [OF x] by auto
  have wf: "chunk_wf bds d" "\<forall>x\<in>set pre. chunk_wf bds x" "\<forall>x\<in>set post. chunk_wf bds x"
    using assms(3) f(1) by (auto simp: buf_wf_def)
  have off: "off < dsize d" using memchr_Some(3) [OF f(3)] wf(1) by simp
  let ?k = "length (contents pre) + off"
  have c: "contents (bdata inbuf) = contents pre @ chunk_bytes d @ contents post" using f(1) by simp
  have k: "memchr NL (contents (bdata inbuf)) = Some ?k"
    unfolding c using memchr_append [OF f(2,3)] .
  have t: "take (Suc ?k) (contents (bdata inbuf)) = contents pre @ take (Suc off) (chunk_bytes d)"
    "drop (Suc ?k) (contents (bdata inbuf)) = drop (Suc off) (chunk_bytes d) @ contents post"
    unfolding c using off wf(1) by simp_all
  have len: "length (contents (bdata inbuf)) = length (contents pre) + dsize d + length (contents post)"
    unfolding c using wf(1) by simp
  have blocks: "2 \<le> pool_blocks p" using assms(5) len off by linarith
  obtain o1 p1 o2 p2 where a: "buf_append_char bds outbuf cmd p = Inr (o1, p1)" "buf_append_char bds o1 32 p1 = Inr (o2, p2)"
    "appends bds outbuf p [cmd, 32] o2 p2" "pool_blocks p \<le> pool_blocks p2 + 2" "mem_errors p2 = mem_errors p"
    using append_two [OF assms(1,2,4) blocks] by blast
  note o2 = appendsD [OF a(3)]
  define o3 where "o3 = buf_append_data o2 pre"
  have o3: "buf_wf bds o3" "contents (bdata o3) = contents (bdata outbuf) @ [cmd, 32] @ contents pre"
    "length (bdata o3) = length (bdata o2) + length pre"
    using o2 wf(2) by (simp_all add: o3_def)
  have room: "Suc off < pool_blocks p2" using assms(5) a(4) len off by linarith
  have post_len: "length (contents (bdata inbuf)) = Suc off + length (contents pre) + (dsize d - Suc off) + length (contents post)"
    using len off by simp
  show ?thesis
  proof (cases "Suc off = dsize d")
    case True
    let ?o = "buf_append_data o3 [d]"
      and ?i = "inbuf\<lparr>bdata := post, last_null := (if post = [] then True else last_null inbuf)\<rparr>"
    have "buf_copy_lines bds outbuf inbuf cmd p = buf_copy_lines bds ?o ?i cmd p2"
      using x a(1,2) True by (subst buf_copy_lines.simps) (simp add: o3_def)
    moreover have "take (Suc off) (chunk_bytes d) = chunk_bytes d" "drop (Suc off) (chunk_bytes d) = []"
      using True wf(1) by simp_all
    moreover have "buf_wf bds ?i" "last_ok ?i" using wf(3) by (simp_all add: buf_wf_def last_ok_def)
    moreover have "4 * length (contents post) \<le> pool_blocks p2" using assms(5) a(4) post_len by linarith
    moreover have "used post < used (bdata inbuf)" using f(1) off by simp
    ultimately show ?thesis
      using o2 o3 wf a(5) f(1) k t by (intro exI [of _ ?k] exI [of _ ?o] exI [of _ ?i] exI [of _ p2]) simp
  next
    case False
    let ?d = "d\<lparr>dsize := dsize d - Suc off, dbufp := dbufp d + Suc off\<rparr>"
    let ?i = "inbuf\<lparr>bdata := ?d # post\<rparr>"
    have l: "length (take (Suc off) (chunk_bytes d)) = Suc off" using off wf(1) by simp
    obtain o4 p3 where b: "buf_output bds o3 (take (Suc off) (chunk_bytes d)) p2 = Inr (o4, p3)"
      "appends bds o3 p2 (take (Suc off) (chunk_bytes d)) o4 p3"
      "pool_blocks p2 \<le> pool_blocks p3 + Suc (Suc off)" "mem_errors p3 = mem_errors p2"
      using buf_output_enough [OF assms(1) o3(1) o2(2), of "take (Suc off) (chunk_bytes d)"] room l by auto
    note o4 = appendsD [OF b(2)]
    have eq: "buf_copy_lines bds outbuf inbuf cmd p = buf_copy_lines bds o4 ?i cmd p3"
      using x a(1,2) b(1) False by (subst buf_copy_lines.simps) (simp add: o3_def)
    have adv: "chunk_wf bds ?d" "chunk_bytes ?d = drop (Suc off) (chunk_bytes d)"
      using chunk_advance [OF wf(1), of "Suc off"] off by simp_all
    have "4 * length (contents (bdata ?i)) \<le> pool_blocks p3"
    proof -
      have "length (contents (bdata ?i)) = (dsize d - Suc off) + length (contents post)"
        using adv(2) wf(1) by simp
      then show ?thesis using assms(5) a(4) b(3) post_len by linarith
    qed
    moreover have "buf_wf bds ?i" "last_ok ?i" using wf(3) adv(1) by (simp_all add: buf_wf_def last_ok_def)
    moreover have "used (bdata ?i) < used (bdata inbuf)" using f(1) off by simp
    moreover have "pool_blocks p3 + length (bdata o4) + length (bdata ?i) =
        pool_blocks p + length (bdata outbuf) + length (bdata inbuf)"
      using o4(4) o3(3) o2(4) f(1) by simp
    ultimately show ?thesis
      using eq k t o4(1-3) o3(2) adv(2) b(4) a(5)
      by (intro exI [of _ ?k] exI [of _ o4] exI [of _ ?i] exI [of _ p3]) simp
  qed
qed

lemma buf_copy_lines_spec:
  assumes "0 < bds"
  shows "buf_wf bds outbuf \<Longrightarrow> buf_wf bds inbuf \<Longrightarrow> pool_ok bds p \<Longrightarrow>
    4 * length (contents (bdata inbuf)) \<le> pool_blocks p \<Longrightarrow>
    \<exists>o' i' p'. buf_copy_lines bds outbuf inbuf cmd p = Inr (o', i', p') \<and> buf_wf bds o' \<and> buf_wf bds i' \<and>
      pool_ok bds p' \<and> contents (bdata o') = contents (bdata outbuf) @ fst (line_spec cmd (contents (bdata inbuf))) \<and>
      contents (bdata i') = snd (line_spec cmd (contents (bdata inbuf))) \<and>
      pool_blocks p' + length (bdata o') + length (bdata i') =
        pool_blocks p + length (bdata outbuf) + length (bdata inbuf) \<and>
      (last_ok inbuf \<longrightarrow> last_ok i') \<and> mem_errors p' = mem_errors p"
proof (induction "used (bdata inbuf)" arbitrary: outbuf inbuf p rule: less_induct)
  case less
  show ?case
  proof (cases "NL \<in> set (contents (bdata inbuf))")
    case False
    then have "line_spec cmd (contents (bdata inbuf)) = ([], contents (bdata inbuf))"
      by (subst line_spec.simps) (simp add: memchr_def)
    moreover have "find_byte NL [] (bdata inbuf) = None" using False by (simp add: find_byte_None)
    ultimately show ?thesis using less.prems by (subst buf_copy_lines.simps) simp
  next
    case True
    obtain k o1 i1 p1 where 1: "buf_copy_lines bds outbuf inbuf cmd p = buf_copy_lines bds o1 i1 cmd p1"
      "memchr NL (contents (bdata inbuf)) = Some k" "contents (bdata i1) = drop (Suc k) (contents (bdata inbuf))"
      "contents (bdata o1) = contents (bdata outbuf) @ cmd # 32 # take (Suc k) (contents (bdata inbuf))"
      "buf_wf bds o1" "buf_wf bds i1" "pool_ok bds p1" "mem_errors p1 = mem_errors p"
      "pool_blocks p1 + length (bdata o1) + length (bdata i1) =
        pool_blocks p + length (bdata outbuf) + length (bdata inbuf)"
      "4 * length (contents (bdata i1)) \<le> pool_blocks p1" "last_ok inbuf \<longrightarrow> last_ok i1"
      "used (bdata i1) < used (bdata inbuf)"
      using copy_one_line [OF assms less.prems True, of cmd] by (elim exE conjE) (rule that)
    obtain out left where sp: "line_spec cmd (contents (bdata i1)) = (out, left)" by fastforce
    have "line_spec cmd (contents (bdata inbuf)) = (cmd # 32 # take (Suc k) (contents (bdata inbuf)) @ out, left)"
      using line_spec_step [OF 1(2)] sp 1(3) by simp
    then show ?thesis using less.hyps [OF 1(12,5,6,7,10)] 1(1,4,8,9,11) sp by auto
  qed
qed

subsection \<open>Copying counted messages refines its reference\<close>

lemma get_count_Inl:
  "\<forall>d\<in>set ds. chunk_wf bds d \<Longrightarrow> 0 < need \<Longrightarrow> get_count need intp before ds = Inl n \<Longrightarrow>
   length (contents ds) < need \<and> n = need - length (contents ds)"
proof (induction ds arbitrary: need intp before)
  case (Cons d ds)
  have "\<not> need \<le> dsize d" using Cons.prems(3) by auto
  moreover from this have "length (contents ds) < need - dsize d \<and> n = need - dsize d - length (contents ds)"
    using Cons.IH [of "need - dsize d" "intp @ chunk_bytes d" "before @ [d]"] Cons.prems by auto
  moreover have "length (chunk_bytes d) = dsize d" using Cons.prems(1) by auto
  ultimately show ?case by auto
qed simp

lemma get_count_Inr:
  "\<forall>d\<in>set ds. chunk_wf bds d \<Longrightarrow> 0 < need \<Longrightarrow>
   get_count need intp before ds = Inr (bytes, bef, start, off, post) \<Longrightarrow>
   \<exists>mid. bef = before @ mid \<and> ds = mid @ start # post \<and> bytes = intp @ take need (contents ds) \<and>
     off \<le> dsize start \<and> length (contents mid) + off = need"
proof (induction ds arbitrary: need intp before)
  case (Cons d ds)
  show ?case
  proof (cases "need \<le> dsize d")
    case True
    with Cons.prems show ?thesis by (intro exI [of _ "[]"]) auto
  next
    case False
    then obtain mid where "bef = (before @ [d]) @ mid" "ds = mid @ start # post"
      "bytes = (intp @ chunk_bytes d) @ take (need - dsize d) (contents ds)" "off \<le> dsize start"
      "length (contents mid) + off = need - dsize d"
      using Cons.IH [of "need - dsize d" "intp @ chunk_bytes d" "before @ [d]"] Cons.prems by auto
    with False Cons.prems(1) show ?thesis by (intro exI [of _ "d # mid"]) auto
  qed
qed simp

lemma find_stop_Inl:
  "\<forall>d\<in>set ds. chunk_wf bds d \<Longrightarrow> 0 < need \<Longrightarrow> find_stop need i ds = Inl n \<Longrightarrow>
   int (length (contents ds)) < need \<and> n = need - int (length (contents ds))"
proof (induction ds arbitrary: need i)
  case (Cons d ds)
  have "\<not> need \<le> int (dsize d)" using Cons.prems(3) by auto
  moreover from this have "int (length (contents ds)) < need - int (dsize d) \<and>
      n = need - int (dsize d) - int (length (contents ds))"
    using Cons.IH [of "need - int (dsize d)" "i + 1"] Cons.prems by auto
  moreover have "length (chunk_bytes d) = dsize d" using Cons.prems(1) by auto
  ultimately show ?case by simp
qed simp

lemma find_stop_Inr:
  "\<forall>d\<in>set ds. chunk_wf bds d \<Longrightarrow> 0 < need \<Longrightarrow> find_stop need i ds = Inr (j, w) \<Longrightarrow>
   i \<le> j \<and> j - i < length ds \<and> w \<le> dsize (ds ! (j - i)) \<and>
   need = int (length (contents (take (j - i) ds))) + int w"
proof (induction ds arbitrary: need i)
  case (Cons d ds)
  show ?case
  proof (cases "need \<le> int (dsize d)")
    case True
    with Cons.prems show ?thesis by auto
  next
    case False
    then have "i + 1 \<le> j \<and> j - (i + 1) < length ds \<and> w \<le> dsize (ds ! (j - (i + 1))) \<and>
        need - int (dsize d) = int (length (contents (take (j - (i + 1)) ds))) + int w"
      using Cons.IH [of "need - int (dsize d)" "i + 1"] Cons.prems by auto
    moreover from this have "j - i = Suc (j - (i + 1))" by linarith
    ultimately show ?thesis using Cons.prems(1) by (auto simp: nth_Cons' split: if_splits)
  qed
qed simp

text \<open>Where a message ends in a chain that starts behind its count.\<close>

lemma stop_of_spec:
  assumes "\<forall>d\<in>set (start # ds). chunk_wf bds d" "off \<le> dsize start" "0 \<le> count"
    "start' = start\<lparr>dsize := dsize start - off, dbufp := dbufp start + off\<rparr>"
  shows "stop_of count start off ds = Inl n \<Longrightarrow>
      int (length (contents (start' # ds))) < count \<and> n = count - int (length (contents (start' # ds)))"
    and "stop_of count start off ds = Inr (j, w) \<Longrightarrow>
      j < length (start' # ds) \<and> w \<le> dsize ((start' # ds) ! j) \<and>
      count = int (length (contents (take j (start' # ds)))) + int w"
proof -
  have wf: "chunk_wf bds start" "\<forall>d\<in>set ds. chunk_wf bds d" using assms(1) by auto
  have s: "dsize start' = dsize start - off" "length (chunk_bytes start') = dsize start - off"
    using chunk_advance [OF wf(1) assms(2)] assms(4) wf(1) by simp_all
  show "int (length (contents (start' # ds))) < count \<and> n = count - int (length (contents (start' # ds)))"
    if "stop_of count start off ds = Inl n"
    using that find_stop_Inl [OF wf(2), of "count - (int (dsize start) - int off)" 1 n] s assms(2,3)
    by (auto simp: stop_of_def split: if_splits)
  show "j < length (start' # ds) \<and> w \<le> dsize ((start' # ds) ! j) \<and>
      count = int (length (contents (take j (start' # ds)))) + int w"
    if h: "stop_of count start off ds = Inr (j, w)"
  proof (cases "count - (int (dsize start) - int off) \<le> 0")
    case True
    with h assms(2,3) s show ?thesis by (auto simp: stop_of_def)
  next
    case False
    then have "1 \<le> j \<and> j - 1 < length ds \<and> w \<le> dsize (ds ! (j - 1)) \<and>
        count - (int (dsize start) - int off) = int (length (contents (take (j - 1) ds))) + int w"
      using h find_stop_Inr [OF wf(2), of "count - (int (dsize start) - int off)" 1 j w] assms(3)
      by (auto simp: stop_of_def)
    then show ?thesis using s assms(2) by (cases j) auto
  qed
qed

text \<open>The message in terms of the chain, once \<open>start\<close> and \<open>stop\<close> have been adjusted.\<close>

lemma move_message_spec:
  assumes "0 < bds" "buf_wf bds outbuf" "pool_ok bds p" "\<forall>d\<in>set chain. chunk_wf bds d"
    "s \<le> j" "j \<le> length chain" "contents (take s chain) = []"
    "want = 0 \<or> j < length chain \<and> want < dsize (chain ! j)" "want < pool_blocks p"
    "n = length (contents (take j chain)) + want"
  shows "\<exists>o' i' p'. move_message bds s j want chain outbuf inbuf p = Inr (o', i', p') \<and>
    buf_wf bds o' \<and> buf_wf bds i' \<and> pool_ok bds p' \<and> mem_errors p' = mem_errors p \<and>
    contents (bdata o') = contents (bdata outbuf) @ take n (contents chain) \<and>
    contents (bdata i') = drop n (contents chain) \<and> last_null i' = last_null inbuf \<and>
    pool_blocks p' + length (bdata o') + length (bdata i') + s = pool_blocks p + length (bdata outbuf) + length chain \<and>
    pool_blocks p \<le> pool_blocks p' + Suc want"
proof -
  let ?mid = "take (j - s) (drop s chain)"
  define o1 where "o1 = (if s \<noteq> j then buf_append_data outbuf ?mid else outbuf)"
  have tj: "take j chain = take s chain @ ?mid" using assms(5) by (metis le_add_diff_inverse take_add)
  have mid: "contents ?mid = contents (take j chain)" using assms(7) by (simp add: tj)
  have sub: "\<forall>d\<in>set ?mid. chunk_wf bds d" "\<forall>d\<in>set (drop j chain). chunk_wf bds d"
    using assms(4) by (meson in_set_takeD in_set_dropD)+
  have o1: "buf_wf bds o1" "contents (bdata o1) = contents (bdata outbuf) @ contents (take j chain)"
    "length (bdata o1) = length (bdata outbuf) + (j - s)"
    using assms(2,6) sub(1) mid by (auto simp: o1_def)
  have split: "contents chain = contents (take j chain) @ contents (drop j chain)"
    by (metis append_take_drop_id contents_simps(3))
  show ?thesis
  proof (cases "want = 0")
    case True
    have "move_message bds s j want chain outbuf inbuf p = Inr (o1, inbuf\<lparr>bdata := drop j chain\<rparr>, p)"
      using True by (simp add: move_message_def o1_def Let_def)
    moreover have "n = length (contents (take j chain))" using assms(10) True by simp
    ultimately show ?thesis
      using o1 assms(3,5,6) sub(2) split by (simp add: buf_wf_def)
  next
    case False
    let ?d = "chain ! j"
    have j: "j < length chain" "want < dsize ?d" using assms(8) False by auto
    then have d: "chunk_wf bds ?d" using assms(4) by simp
    have dj: "drop j chain = ?d # drop (Suc j) chain" using j(1) by (rule Cons_nth_drop_Suc [symmetric])
    have l: "length (take want (chunk_bytes ?d)) = want" using d j by simp
    obtain o2 p2 where b: "buf_output bds o1 (take want (chunk_bytes ?d)) p = Inr (o2, p2)"
      "appends bds o1 p (take want (chunk_bytes ?d)) o2 p2" "pool_blocks p \<le> pool_blocks p2 + Suc want"
      "mem_errors p2 = mem_errors p"
      using buf_output_enough [OF assms(1) o1(1) assms(3), of "take want (chunk_bytes ?d)"] assms(9) l by auto
    note o2 = appendsD [OF b(2)]
    let ?d' = "?d\<lparr>dsize := dsize ?d - want, dbufp := dbufp ?d + want\<rparr>"
    let ?i = "inbuf\<lparr>bdata := ?d' # drop (Suc j) chain\<rparr>"
    have "move_message bds s j want chain outbuf inbuf p = Inr (o2, ?i, p2)"
      using False b(1) by (simp add: move_message_def o1_def Let_def)
    moreover have adv: "chunk_wf bds ?d'" "chunk_bytes ?d' = drop want (chunk_bytes ?d)"
      using chunk_advance [OF d, of want] j by simp_all
    moreover have "take n (contents chain) = contents (take j chain) @ take want (chunk_bytes ?d)"
      "drop n (contents chain) = drop want (chunk_bytes ?d) @ contents (drop (Suc j) chain)"
      using split dj assms(10) d j by simp_all
    moreover have "buf_wf bds ?i" using adv(1) sub(2) dj by (simp add: buf_wf_def)
    moreover have "pool_blocks p2 + length (bdata o2) + length (bdata ?i) + s =
        pool_blocks p + length (bdata outbuf) + length chain"
      using o2(4) o1(3) assms(5) j(1) by simp
    ultimately show ?thesis using o2(1-3) o1(2) b(3,4) by auto
  qed
qed

lemma release_simps [simp]:
  "pool_ok bds (release ds p) \<longleftrightarrow> pool_ok bds p \<and> (\<forall>d\<in>set ds. length (dtext d) = bds)"
  "pool_blocks (release ds p) = length ds + pool_blocks p" "mem_errors (release ds p) = mem_errors p"
  by (auto simp: release_def release_fold pool_ok_def pool_blocks_def)

text \<open>One turn of the loop, by what the bytes at the front of the input say.\<close>

lemma copy_counted_short:
  assumes "buf_wf bds inbuf" "length (contents (bdata inbuf)) < 4"
  shows "buf_copy_counted bds big outbuf inbuf p =
    Some (Inr (4 - int (length (contents (bdata inbuf))), 0, outbuf, inbuf, p))"
proof (cases "get_count 4 [] [] (bdata inbuf)")
  case (Inl n)
  then have "n = 4 - length (contents (bdata inbuf))"
    using get_count_Inl [of "bdata inbuf" bds 4] assms(1) by (auto simp: buf_wf_def)
  with Inl assms(2) show ?thesis by (subst buf_copy_counted.simps) auto
next
  case (Inr x)
  obtain bytes bef start off post where x: "x = (bytes, bef, start, off, post)" by (cases x)
  have wfi: "\<forall>d\<in>set (bdata inbuf). chunk_wf bds d" using assms(1) by (simp add: buf_wf_def)
  have "bdata inbuf = bef @ start # post" "off \<le> dsize start" "length (contents bef) + off = 4"
    using get_count_Inr [OF wfi _ Inr [unfolded x]] by auto
  moreover from this have "length (chunk_bytes start) = dsize start" using assms(1) by (auto simp: buf_wf_def)
  ultimately have "4 \<le> length (contents (bdata inbuf))" by simp
  with assms(2) show ?thesis by simp
qed

lemma copy_counted_step:
  assumes "0 < bds" "buf_wf bds outbuf" "buf_wf bds inbuf" "pool_ok bds p"
    "length (contents (bdata inbuf)) < pool_blocks p" "4 \<le> length (contents (bdata inbuf))"
    "count = sint (bytes_int big (take 4 (contents (bdata inbuf))))" "body = drop 4 (contents (bdata inbuf))"
  shows "count < 0 \<Longrightarrow> \<exists>i' p'. buf_copy_counted bds big outbuf inbuf p = Some (Inr (0, count, outbuf, i', p')) \<and>
      buf_wf bds i' \<and> pool_ok bds p' \<and> contents (bdata i') = body \<and> mem_errors p' = mem_errors p \<and>
      pool_blocks p' + length (bdata i') = pool_blocks p + length (bdata inbuf)"
    and "0 \<le> count \<Longrightarrow> int (length body) < count \<Longrightarrow>
      buf_copy_counted bds big outbuf inbuf p = Some (Inr (count - int (length body), 0, outbuf, inbuf, p))"
    and "0 \<le> count \<Longrightarrow> count \<le> int (length body) \<Longrightarrow>
      \<exists>o' i' p'. buf_copy_counted bds big outbuf inbuf p = buf_copy_counted bds big o' i' p' \<and>
        buf_wf bds o' \<and> buf_wf bds i' \<and> pool_ok bds p' \<and> mem_errors p' = mem_errors p \<and>
        contents (bdata o') = contents (bdata outbuf) @ take (nat count) body \<and>
        contents (bdata i') = drop (nat count) body \<and>
        pool_blocks p' + length (bdata o') + length (bdata i') =
          pool_blocks p + length (bdata outbuf) + length (bdata inbuf) \<and>
        length (contents (bdata i')) < pool_blocks p'"
proof -
  have wfi: "\<forall>d\<in>set (bdata inbuf). chunk_wf bds d" using assms(3) by (simp add: buf_wf_def)
  obtain x where "get_count 4 [] [] (bdata inbuf) = Inr x"
    using get_count_Inl [OF wfi, of 4] assms(6) by (cases "get_count 4 [] [] (bdata inbuf)") fastforce+
  then obtain bytes before start off ds where g: "get_count 4 [] [] (bdata inbuf) = Inr (bytes, before, start, off, ds)"
    by (cases x) auto
  have h: "bdata inbuf = before @ start # ds" "bytes = take 4 (contents (bdata inbuf))" "off \<le> dsize start"
    "length (contents before) + off = 4"
    using get_count_Inr [OF wfi _ g] by auto
  define start' where "start' = start\<lparr>dsize := dsize start - off, dbufp := dbufp start + off\<rparr>"
  define chain where "chain = start' # ds"
  have wf: "\<forall>d\<in>set (start # ds). chunk_wf bds d" "chunk_wf bds start" "\<forall>d\<in>set before. length (dtext d) = bds"
    using wfi h(1) by (auto simp: chunk_wf_text)
  have s': "chunk_wf bds start'" "chunk_bytes start' = drop off (chunk_bytes start)"
    using chunk_advance [OF wf(2) h(3)] by (simp_all add: start'_def)
  have wfc: "\<forall>d\<in>set chain. chunk_wf bds d" using wf(1) s'(1) by (simp add: chain_def)
  have off4: "4 - length (contents before) = off" "length (contents before) \<le> 4" using h(4) by linarith+
  have body: "contents chain = body"
    using h(1,3) s'(2) off4 wf(2) by (simp add: assms(8) chain_def)
  define s :: nat where "s = (if dsize start' = 0 then 1 else 0)"
  have s: "contents (take s chain) = []" by (simp add: s_def chain_def chunk_bytes_def)
  have texts: "\<forall>d\<in>set (before @ take s chain). length (dtext d) = bds"
    using wf(3) wfc by (auto simp: chunk_wf_text dest: in_set_takeD)
  have slen: "length (take s chain) = s" "s \<le> length chain" by (simp_all add: s_def chain_def)
  have cnt: "sint (bytes_int big bytes) = count" using h(2) assms(7) by simp
  have ilen: "length (bdata inbuf) = length before + length chain" using h(1) by (simp add: chain_def)
  show "\<exists>i' p'. buf_copy_counted bds big outbuf inbuf p = Some (Inr (0, count, outbuf, i', p')) \<and>
      buf_wf bds i' \<and> pool_ok bds p' \<and> contents (bdata i') = body \<and> mem_errors p' = mem_errors p \<and>
      pool_blocks p' + length (bdata i') = pool_blocks p + length (bdata inbuf)" if neg: "count < 0"
  proof -
    have "buf_copy_counted bds big outbuf inbuf p =
        Some (Inr (0, count, outbuf, inbuf\<lparr>bdata := drop s chain\<rparr>, release (before @ take s chain) p))"
      using g neg cnt by (subst buf_copy_counted.simps)
        (auto simp: stop_of_def start'_def chain_def s_def Let_def)
    moreover have "contents (drop s chain) = body"
      using s body by (metis append_take_drop_id append_Nil contents_simps(3))
    moreover have "\<forall>d\<in>set (drop s chain). chunk_wf bds d" using wfc by (meson in_set_dropD)
    ultimately show ?thesis using texts assms(4) ilen slen by (simp add: buf_wf_def)
  qed
  show "buf_copy_counted bds big outbuf inbuf p = Some (Inr (count - int (length body), 0, outbuf, inbuf, p))"
    if c: "0 \<le> count" "int (length body) < count"
  proof (cases "stop_of count start off ds")
    case (Inl n)
    then have "n = count - int (length body)"
      using stop_of_spec(1) [OF wf(1) h(3) c(1) start'_def, folded chain_def] body by simp
    with Inl g cnt show ?thesis by (subst buf_copy_counted.simps) simp
  next
    case (Inr jw)
    obtain j w where jw: "jw = (j, w)" by fastforce
    have "j < length chain" "w \<le> dsize (chain ! j)" "count = int (length (contents (take j chain))) + int w"
      using stop_of_spec(2) [OF wf(1) h(3) c(1) start'_def] Inr jw by (auto simp: chain_def)
    moreover have "length (contents (take j chain)) + dsize (chain ! j) \<le> length (contents chain)"
      if "j < length chain"
    proof -
      have "contents chain = contents (take j chain) @ contents (chain ! j # drop (Suc j) chain)"
        using that by (metis Cons_nth_drop_Suc append_take_drop_id contents_simps(3))
      moreover have "length (chunk_bytes (chain ! j)) = dsize (chain ! j)" using wfc nth_mem [OF that] chunk_bytes_length by metis
      ultimately show ?thesis by simp
    qed
    ultimately have "count \<le> int (length body)" using body by auto
    with c(2) show ?thesis by simp
  qed
  show "\<exists>o' i' p'. buf_copy_counted bds big outbuf inbuf p = buf_copy_counted bds big o' i' p' \<and>
        buf_wf bds o' \<and> buf_wf bds i' \<and> pool_ok bds p' \<and> mem_errors p' = mem_errors p \<and>
        contents (bdata o') = contents (bdata outbuf) @ take (nat count) body \<and>
        contents (bdata i') = drop (nat count) body \<and>
        pool_blocks p' + length (bdata o') + length (bdata i') =
          pool_blocks p + length (bdata outbuf) + length (bdata inbuf) \<and>
        length (contents (bdata i')) < pool_blocks p'" if c: "0 \<le> count" "count \<le> int (length body)"
  proof -
    obtain j w where jw: "stop_of count start off ds = Inr (j, w)"
      using stop_of_spec(1) [OF wf(1) h(3) c(1) start'_def, folded chain_def] c(2) body
      by (cases "stop_of count start off ds") auto
    have j: "j < length chain" "w \<le> dsize (chain ! j)" "count = int (length (contents (take j chain))) + int w"
      using stop_of_spec(2) [OF wf(1) h(3) c(1) start'_def jw] by (auto simp: chain_def)
    obtain j' want where jj: "(if dsize (chain ! j) = w then (j + 1, 0) else (j, w)) = (j', want)" by fastforce
    have ext: "length (contents (take (j + 1) chain)) = length (contents (take j chain)) + dsize (chain ! j)"
      using j(1) wfc nth_mem [OF j(1)] chunk_bytes_length [of bds "chain ! j"]
      by (simp add: take_Suc_conv_app_nth)
    have m: "j' \<le> length chain" "want = 0 \<or> j' < length chain \<and> want < dsize (chain ! j')"
      "nat count = length (contents (take j' chain)) + want"
      using j jj ext by (auto split: if_splits)
    have sj: "s \<le> j'"
    proof (cases "dsize start' = 0 \<and> j' = 0")
      case True
      then have "j = 0" "w = 0" using j jj by (auto simp: chain_def split: if_splits)
      then show ?thesis using True jj by (auto simp: chain_def)
    qed (auto simp: s_def)
    have want: "want \<le> nat count" using m(3) by simp
    let ?p1 = "release (before @ take s chain) p"
    have p1: "pool_ok bds ?p1" using texts assms(4) by simp
    have blen: "nat count + 4 \<le> length (contents (bdata inbuf))" using c assms(6,8) by auto
    have wp: "want < pool_blocks ?p1" using want blen assms(5) by simp
    obtain o' i' p' where r: "move_message bds s j' want chain outbuf inbuf ?p1 = Inr (o', i', p')"
      "buf_wf bds o'" "buf_wf bds i'" "pool_ok bds p'" "mem_errors p' = mem_errors ?p1"
      "contents (bdata o') = contents (bdata outbuf) @ take (nat count) (contents chain)"
      "contents (bdata i') = drop (nat count) (contents chain)"
      "pool_blocks p' + length (bdata o') + length (bdata i') + s = pool_blocks ?p1 + length (bdata outbuf) + length chain"
      "pool_blocks ?p1 \<le> pool_blocks p' + Suc want"
      using move_message_spec [OF assms(1,2) p1 wfc sj m(1) s m(2) wp m(3), of inbuf] by (elim exE conjE) (rule that)
    have "buf_copy_counted bds big outbuf inbuf p = buf_copy_counted bds big o' i' p'"
      using g jw cnt c(1) r(1) jj
      by (subst buf_copy_counted.simps) (auto simp: start'_def chain_def s_def Let_def split: if_splits)
    moreover have "length (contents (bdata i')) < pool_blocks p'"
    proof -
      have "length (contents (bdata i')) = length (contents (bdata inbuf)) - 4 - nat count"
        using r(7) body assms(8) by simp
      then show ?thesis using r(9) assms(5) want blen by simp
    qed
    moreover have "pool_blocks p' + length (bdata o') + length (bdata i') =
          pool_blocks p + length (bdata outbuf) + length (bdata inbuf)"
      using r(8) slen ilen by simp
    ultimately show ?thesis
      using r body by (intro exI [of _ o'] exI [of _ i'] exI [of _ p']) simp
  qed
qed

lemma buf_copy_counted_spec:
  assumes "0 < bds"
  shows "buf_wf bds outbuf \<Longrightarrow> buf_wf bds inbuf \<Longrightarrow> pool_ok bds p \<Longrightarrow>
    length (contents (bdata inbuf)) < pool_blocks p \<Longrightarrow>
    counted_spec big (contents (bdata inbuf)) = (out, left, need, special) \<Longrightarrow>
    \<exists>o' i' p'. buf_copy_counted bds big outbuf inbuf p = Some (Inr (need, special, o', i', p')) \<and>
      buf_wf bds o' \<and> buf_wf bds i' \<and> pool_ok bds p' \<and> mem_errors p' = mem_errors p \<and>
      contents (bdata o') = contents (bdata outbuf) @ out \<and> contents (bdata i') = left \<and>
      pool_blocks p' + length (bdata o') + length (bdata i') =
        pool_blocks p + length (bdata outbuf) + length (bdata inbuf)"
proof (induction "length (contents (bdata inbuf))" arbitrary: outbuf inbuf p out rule: less_induct)
  case less
  let ?bs = "contents (bdata inbuf)"
  show ?case
  proof (cases "length ?bs < 4")
    case True
    then have "counted_spec big ?bs = ([], ?bs, 4 - int (length ?bs), 0)" by (subst counted_spec.simps) simp
    with copy_counted_short [OF less.prems(2) True, of big outbuf p] less.prems show ?thesis by auto
  next
    case False
    then have four: "4 \<le> length ?bs" by simp
    define count where "count = sint (bytes_int big (take 4 ?bs))"
    define body where "body = drop 4 ?bs"
    note step = copy_counted_step [OF assms less.prems(1-4) four count_def body_def]
    have sp: "counted_spec big ?bs = (if count < 0 then ([], body, 0, count)
        else if int (length body) < count then ([], ?bs, count - int (length body), 0)
        else (case counted_spec big (drop (nat count) body) of (out, left, need, special) \<Rightarrow>
                (take (nat count) body @ out, left, need, special)))"
      using False by (subst counted_spec.simps) (simp add: count_def body_def Let_def)
    consider "count < 0" | "0 \<le> count" "int (length body) < count" | "0 \<le> count" "count \<le> int (length body)"
      by linarith
    then show ?thesis
    proof cases
      case 1
      with step(1) sp less.prems show ?thesis by auto
    next
      case 2
      with step(2) sp less.prems show ?thesis by auto
    next
      case 3
      obtain o1 i1 p1 where m: "buf_copy_counted bds big outbuf inbuf p = buf_copy_counted bds big o1 i1 p1"
        "buf_wf bds o1" "buf_wf bds i1" "pool_ok bds p1" "mem_errors p1 = mem_errors p"
        "contents (bdata o1) = contents (bdata outbuf) @ take (nat count) body"
        "contents (bdata i1) = drop (nat count) body"
        "pool_blocks p1 + length (bdata o1) + length (bdata i1) =
          pool_blocks p + length (bdata outbuf) + length (bdata inbuf)"
        "length (contents (bdata i1)) < pool_blocks p1"
        using step(3) [OF 3] by (elim exE conjE) (rule that)
      obtain out1 where o: "counted_spec big (contents (bdata i1)) = (out1, left, need, special)"
        "out = take (nat count) body @ out1"
        using less.prems(5) sp 3 m(7) by (cases "counted_spec big (drop (nat count) body)") auto
      have "length (contents (bdata i1)) < length ?bs" using m(7) four by (simp add: body_def)
      from less.hyps [OF this m(2-4,9) o(1)] m(1,5,6,8) o(2) show ?thesis by auto
    qed
  qed
qed

subsection \<open>The messages of the sender\<close>

lemma split8: "(ucast (ucast w :: 8 word) :: 32 word) OR push_bit 8 (drop_bit 8 w) = w"
  by (rule bit_word_eqI) (auto simp: bit_simps, (metis le_add_diff_inverse not_le)+)

lemma bytes_int_inverse: "bytes_int big (int_bytes big w) = w"
proof -
  have 4: "[0..<4] = [0, 1, 2, 3::nat]" by (simp add: upt_rec)
  have z: "drop_bit 32 w = 0" by (rule bit_word_eqI) (auto simp: bit_simps dest: bit_imp_le_length)
  have s: "(ucast (ucast (drop_bit k w) :: 8 word) :: 32 word) OR push_bit 8 (drop_bit (k + 8) w) = drop_bit k w" for k
    using split8 [of "drop_bit k w"] by (simp add: drop_bit_drop_bit add.commute)
  show ?thesis
    using s [of 0] s [of 8] s [of 16] s [of 24] z by (simp add: bytes_int_def int_bytes_def 4 Let_def)
qed

lemma length_int_bytes [simp]: "length (int_bytes big w) = 4"
  by (simp add: int_bytes_def Let_def)

lemma sint_small: "n < 2 ^ 31 \<Longrightarrow> sint (of_nat n :: 32 word) = int n"
  by (simp add: signed_of_nat signed_take_bit_int_eq_self)

definition message :: "bool \<Rightarrow> byte list \<Rightarrow> byte list" where
  "message big m = int_bytes big (of_nat (length m)) @ m"

lemma counted_spec_message:
  assumes "length m < 2 ^ 31" "counted_spec big rest = (out, left, need, special)"
  shows "counted_spec big (message big m @ rest) = (m @ out, left, need, special)"
  using assms by (subst counted_spec.simps) (simp add: message_def bytes_int_inverse sint_small Let_def)

lemma counted_spec_messages:
  assumes "\<forall>m\<in>set ms. length m < 2 ^ 31" "counted_spec big rest = (out, left, need, special)"
  shows "counted_spec big (concat (map (message big) ms) @ rest) = (concat ms @ out, left, need, special)"
  using assms(1) by (induction ms) (simp_all add: assms(2) counted_spec_message)

lemma size_fold: "fold (\<lambda>d size. size + of_nat (dsize d)) ds a = a + (of_nat (used ds) :: 32 word)"
  by (induction ds arbitrary: a) (simp_all add: add.assoc)

lemma used_contents: "\<forall>d\<in>set ds. chunk_wf bds d \<Longrightarrow> used ds = length (contents ds)"
  by (induction ds) auto

lemma blocking_send:
  assumes "blocking_device outp sent" "output_fn buf = Some outp" "buf_wf bds buf" "pool_ok bds p"
  shows "\<exists>st buf' p'. buf_send_output buf p = Inr (st, buf', p') \<and> bdata buf' = [] \<and> last_ok buf' \<and>
    pool_ok bds p' \<and> pool_blocks p' = pool_blocks p + length (bdata buf) \<and>
    (st = 0 \<longrightarrow> sent (closure buf') = sent (closure buf) @ contents (bdata buf))"
proof -
  have wf: "\<forall>x\<in>set (bdata buf). chunk_wf bds x" using assms(3) by (simp add: buf_wf_def)
  have od: "output_device outp sent" using assms(1) by (rule blocking_device.axioms)
  obtain st ds' c' p' where l: "send_output_loop outp True (bdata buf) (closure buf) p = Inr (st, ds', c', p')"
    "sends bds sent (bdata buf) (closure buf) p st ds' c' p'"
    using output_device.send_loop_nonblocking [OF od assms(4) wf, of "closure buf"] by blast
  have "ds' = []" "send_output_loop outp (nonblocking buf) (bdata buf) (closure buf) p = Inr (st, ds', c', p')"
    using blocking_device.send_loop_blocking [OF assms(1,4) wf, of "nonblocking buf" "closure buf"] l(1) by auto
  then show ?thesis using l(2) assms(2) by (auto simp: buf_send_output_def sends_def last_ok_def)
qed

lemma send_counted_spec:
  assumes "blocking_device outp sent" "output_fn buf = Some outp" "4 \<le> bds" "buf_wf bds buf" "last_ok buf"
    "pool_ok bds p" "0 < pool_blocks p"
  shows "\<exists>st buf' p'. buf_send_counted bds big buf p = Inr (st, buf', p') \<and> bdata buf' = [] \<and> last_ok buf' \<and>
    pool_ok bds p' \<and> pool_blocks p' = pool_blocks p + length (bdata buf) \<and>
    (st = 0 \<longrightarrow> sent (closure buf') = sent (closure buf) @ message big (contents (bdata buf)))"
proof -
  obtain d p1 where g: "get_buffer_data bds p = (Some d, p1)" "pool_ok bds p1" "length (dtext d) = bds"
    "pool_blocks p = Suc (pool_blocks p1)"
    using get_buffer_data_some [OF assms(6,7)] by blast
  let ?n = "of_nat (length (contents (bdata buf))) :: 32 word"
  let ?d = "\<lparr>dtext = mem_write 0 (int_bytes big ?n) (dtext d), dbufp = 0, dsize = 4\<rparr>"
  have d: "chunk_wf bds ?d" "chunk_bytes ?d = int_bytes big ?n"
    using fresh_chunk [OF g(3), of "int_bytes big ?n"] assms(3) by simp_all
  have wf: "\<forall>x\<in>set (?d # bdata buf). chunk_wf bds x" using d(1) assms(4) by (simp add: buf_wf_def)
  have cnt: "fold (\<lambda>d size. size + of_nat (dsize d)) (bdata buf) 0 = ?n"
    using size_fold [of "bdata buf" 0] used_contents [of "bdata buf" bds] assms(4) by (simp add: buf_wf_def)
  let ?b = "buf\<lparr>bdata := ?d # bdata buf, last_null := False\<rparr>"
  have nl: "\<not> (bdata buf = [] \<and> \<not> last_null buf)" using assms(5) by (auto simp: last_ok_def)
  have "buf_send_counted bds big buf p = buf_send_output ?b p1"
    using g nl assms(3) by (auto simp: buf_send_counted_def send_int_def cnt)
  moreover have "buf_wf bds ?b" using wf by (simp add: buf_wf_def)
  then obtain st buf' p' where "buf_send_output ?b p1 = Inr (st, buf', p')" "bdata buf' = []" "last_ok buf'" "pool_ok bds p'"
    "pool_blocks p' = pool_blocks p1 + length (bdata ?b)"
    "st = 0 \<longrightarrow> sent (closure buf') = sent (closure ?b) @ contents (bdata ?b)"
    using blocking_send [OF assms(1) _ _ g(2), of ?b] assms(2) by auto
  ultimately show ?thesis using d(2) g(4) by (auto simp: message_def)
qed

subsection \<open>What copying leaves of the input\<close>

text \<open>The copying of counted data never assigns to \<open>last\<close> of the input, and leaves no empty block at its front.\<close>

lemma get_count_split:
  "get_count need intp before ds = Inr (bytes, before', start, off, rest) \<Longrightarrow>
     (\<exists>bs. ds = bs @ start # rest) \<and> off \<le> dsize start"
  by (induction need intp before ds rule: get_count.induct) (simp, fastforce split: if_splits intro: exI [of _ "[]"] exI [of _ "_ # _"])

lemma find_stop_bound:
  "find_stop need i ds = Inr (j, w) \<Longrightarrow> i \<le> j \<and> j - i < length ds \<and> w \<le> dsize (ds ! (j - i))"
  by (induction need i ds rule: find_stop.induct) (auto split: if_splits simp: nth_Cons')

lemma move_message_keeps:
  assumes m: "move_message bds s j w chain outbuf inbuf p = Inr (o', i', p')"
    and w: "w = 0 \<or> w < dsize (chain ! j)" and pos: "\<forall>d\<in>set (drop j chain). 0 < dsize d"
  shows "last_null i' = last_null inbuf \<and> (\<forall>d\<in>set (bdata i'). 0 < dsize d)"
proof -
  have "set (drop (Suc j) chain) \<subseteq> set (drop j chain)" by (rule set_drop_subset_set_drop) simp
  then have "\<forall>d\<in>set (drop (Suc j) chain). 0 < dsize d" using pos by blast
  then show ?thesis using m w pos by (auto simp: move_message_def Let_def ebind_eq_Inr split: if_splits)
qed

definition no_empty :: "buffer_data list \<Rightarrow> bool" where
  "no_empty ds \<longleftrightarrow> (\<forall>d\<in>set ds. 0 < dsize d)"


lemma copy_counted_turn_keeps:
  assumes g: "get_count 4 [] [] ds = Inr (bytes, bef, start, off, post)" and ne: "no_empty ds"
    and st: "stop_of count start off post = Inr (j, w)"
    and chain: "chain = start\<lparr>dsize := dsize start - off, dbufp := dbufp start + off\<rparr> # post"
    and s: "s = (if dsize (hd chain) = 0 then 1 else 0)"
    and adj: "(j', want) = (if dsize (chain ! j) = w then (j + 1, 0) else (j, w))"
  shows "no_empty (drop s chain)"
    and "0 \<le> count \<Longrightarrow> (want = 0 \<or> want < dsize (chain ! j')) \<and> no_empty (drop j' chain)"
proof -
  have post: "no_empty post" using get_count_split [OF g] ne by (auto simp: no_empty_def)
  show "no_empty (drop s chain)" using post s chain by (auto simp: no_empty_def)
  assume c: "0 \<le> count"
  have w: "w \<le> dsize (chain ! j)" and j: "j = 0 \<or> 1 \<le> j"
    using st c chain find_stop_bound [of "count - (int (dsize start) - int off)" 1 post j w]
      get_count_split [OF g] by (auto simp: stop_of_def nth_Cons' split: if_splits)
  have suf: "k > 0 \<Longrightarrow> no_empty (drop k chain)" for k
    using post chain by (cases k) (auto simp: no_empty_def dest: in_set_dropD)
  show "(want = 0 \<or> want < dsize (chain ! j')) \<and> no_empty (drop j' chain)"
  proof (cases "dsize (chain ! j) = w")
    case True
    with adj suf [of "j + 1"] show ?thesis by simp
  next
    case False
    with adj w have e: "j' = j" "want = w" "w < dsize (chain ! j)" by auto
    then show ?thesis using suf [of j] post chain by (cases j) (auto simp: no_empty_def)
  qed
qed

lemma copy_counted_keeps:
  assumes "buf_copy_counted bds big outbuf inbuf p = Some r"
  shows "\<forall>need special o' i' p'. r = Inr (need, special, o', i', p') \<longrightarrow> no_empty (bdata inbuf) \<longrightarrow>
    last_null i' = last_null inbuf \<and> no_empty (bdata i')" (is "?P bds big outbuf inbuf p r")
proof (rule buf_copy_counted.raw_induct [where P = ?P, OF _ assms])
  fix copy :: "nat \<Rightarrow> bool \<Rightarrow> 'a buffer \<Rightarrow> 'b buffer \<Rightarrow> pool \<Rightarrow> (int \<times> int \<times> 'a buffer \<times> 'b buffer \<times> pool) cres option"
    and bds big outbuf inbuf p r
  assume hyp: "\<And>bds big outbuf inbuf p r. copy bds big outbuf inbuf p = Some r \<Longrightarrow> ?P bds big outbuf inbuf p r"
    and body: "(case get_count 4 [] [] (bdata inbuf) of
        Inl need \<Rightarrow> Some (Inr (int need, 0, outbuf, inbuf, p))
      | Inr (bytes, before, start, startoff, ds) \<Rightarrow>
          (case stop_of (sint (bytes_int big bytes)) start startoff ds of
             Inl need \<Rightarrow> Some (Inr (need, 0, outbuf, inbuf, p))
           | Inr (j, stopwant) \<Rightarrow>
               (let start' = start\<lparr>dsize := dsize start - startoff, dbufp := dbufp start + startoff\<rparr>;
                    chain = start' # ds;
                    s = (if dsize start' = 0 then 1 else 0);
                    (j', want) = (if dsize (chain ! j) = stopwant then (j + 1, 0) else (j, stopwant));
                    p1 = release (before @ take s chain) p
                in if sint (bytes_int big bytes) < 0
                   then Some (Inr (0, sint (bytes_int big bytes), outbuf, inbuf\<lparr>bdata := drop s chain\<rparr>, p1))
                   else (case move_message bds s j' want chain outbuf inbuf p1 of
                           Inl e \<Rightarrow> Some (Inl e)
                         | Inr (outbuf', inbuf', p2) \<Rightarrow> copy bds big outbuf' inbuf' p2)))) = Some r"
  show "?P bds big outbuf inbuf p r"
  proof (cases "get_count 4 [] [] (bdata inbuf)")
    case (Inl n)
    with body show ?thesis by auto
  next
    case (Inr g)
    obtain bytes bef start off post where g: "get_count 4 [] [] (bdata inbuf) = Inr (bytes, bef, start, off, post)"
      using Inr by (cases g) auto
    let ?count = "sint (bytes_int big bytes)"
    show ?thesis
    proof (cases "stop_of ?count start off post")
      case (Inl n)
      with body g show ?thesis by auto
    next
      case (Inr x)
      obtain j w where st: "stop_of ?count start off post = Inr (j, w)" using Inr by (cases x) auto
      define chain where "chain = start\<lparr>dsize := dsize start - off, dbufp := dbufp start + off\<rparr> # post"
      define s :: nat where "s = (if dsize (hd chain) = 0 then 1 else 0)"
      obtain j' want where adj: "(j', want) = (if dsize (chain ! j) = w then (j + 1, 0) else (j, w))" by force
      note keeps = copy_counted_turn_keeps [OF g _ st chain_def s_def adj]
      let ?p1 = "release (bef @ take s chain) p"
      have b: "(if ?count < 0 then Some (Inr (0, ?count, outbuf, inbuf\<lparr>bdata := drop s chain\<rparr>, ?p1))
          else (case move_message bds s j' want chain outbuf inbuf ?p1 of
                  Inl e \<Rightarrow> Some (Inl e) | Inr (outbuf', inbuf', p2) \<Rightarrow> copy bds big outbuf' inbuf' p2)) = Some r"
        using body by (simp only: g st sum.case prod.case Let_def chain_def s_def list.sel adj [unfolded chain_def, symmetric])
      show ?thesis
      proof (cases "?count < 0")
        case True
        with b keeps(1) show ?thesis by auto
      next
        case False
        show ?thesis
        proof (cases "move_message bds s j' want chain outbuf inbuf ?p1")
          case (Inl e)
          with b False show ?thesis by auto
        next
          case (Inr y)
          obtain o1 i1 p2 where m: "move_message bds s j' want chain outbuf inbuf ?p1 = Inr (o1, i1, p2)"
            using Inr by (cases y) auto
          have "copy bds big o1 i1 p2 = Some r" using b False m by simp
          note copied = hyp [OF this]
          show ?thesis
          proof (intro allI impI)
            fix need special o' i' p'
            assume r: "r = Inr (need, special, o', i', p')" and ne: "no_empty (bdata inbuf)"
            have c: "0 \<le> ?count" using False by simp
            have k: "want = 0 \<or> want < dsize (chain ! j')" "no_empty (drop j' chain)" using keeps(2) [OF ne c] by simp_all
            have "last_null i1 = last_null inbuf \<and> no_empty (bdata i1)"
              using move_message_keeps [OF m k(1)] k(2) by (simp add: no_empty_def)
            with copied r show "last_null i' = last_null inbuf \<and> no_empty (bdata i')" by simp
          qed
        qed
      qed
    qed
  qed
qed

subsection \<open>Properties\<close>

text \<open>\<open>buf_copy_lines\<close> computes the reference \<open>line_spec\<close>: every complete line of the input goes
  to the output behind the command character and a space, the rest of the input stays, blocks are
  moved rather than lost, and no write leaves its block.\<close>

lemma copy_lines_refines:
  assumes "0 < bds" "buf_wf bds outbuf" "buf_wf bds inbuf" "pool_ok bds p"
    "4 * length (contents (bdata inbuf)) \<le> pool_blocks p"
  shows "\<exists>o' i' p'. buf_copy_lines bds outbuf inbuf cmd p = Inr (o', i', p') \<and> buf_wf bds o' \<and> buf_wf bds i' \<and>
    pool_ok bds p' \<and> contents (bdata o') = contents (bdata outbuf) @ fst (line_spec cmd (contents (bdata inbuf))) \<and>
    contents (bdata i') = snd (line_spec cmd (contents (bdata inbuf))) \<and>
    pool_blocks p' + length (bdata o') + length (bdata i') =
      pool_blocks p + length (bdata outbuf) + length (bdata inbuf) \<and>
    (last_ok inbuf \<longrightarrow> last_ok i') \<and> mem_errors p' = mem_errors p"
  using assms by (rule buf_copy_lines_spec)

definition demo_buffer :: "byte list list \<Rightarrow> unit buffer" where
  "demo_buffer bss = (buf_nonio_initialize ())\<lparr>bdata := map (\<lambda>bs. \<lparr>dtext = bs @ replicate (4 - length bs) 0,
     dbufp = 0, dsize = length bs\<rparr>) bss, last_null := (bss = [])\<rparr>"

lemma demo_buffer_ok [simp]:
  assumes "\<forall>b\<in>set bss. length b \<le> 4"
  shows "buf_wf 4 (demo_buffer bss)" "contents (bdata (demo_buffer bss)) = concat bss"
  using assms
  by (auto simp: demo_buffer_def buf_wf_def chunk_wf_def contents_def chunk_bytes_def mem_read_def comp_def)

text \<open>C13. \<open>buf_copy_counted\<close> always returns and computes the reference \<open>counted_spec\<close>: it moves the
  bodies of all complete messages to the output, stops at a negative count and reports it, and
  otherwise reports how many bytes the next message lacks and leaves that message in the input.\<close>

theorem copy_counted_refines:
  assumes "0 < bds" "buf_wf bds outbuf" "buf_wf bds inbuf" "pool_ok bds p"
    "length (contents (bdata inbuf)) < pool_blocks p"
    "counted_spec big (contents (bdata inbuf)) = (out, left, need, special)"
  shows "\<exists>o' i' p'. buf_copy_counted bds big outbuf inbuf p = Some (Inr (need, special, o', i', p')) \<and>
    buf_wf bds o' \<and> buf_wf bds i' \<and> pool_ok bds p' \<and> mem_errors p' = mem_errors p \<and>
    contents (bdata o') = contents (bdata outbuf) @ out \<and> contents (bdata i') = left \<and>
    pool_blocks p' + length (bdata o') + length (bdata i') =
      pool_blocks p + length (bdata outbuf) + length (bdata inbuf)"
  using assms by (rule buf_copy_counted_spec)

theorem copy_counted_refines_witness:
  "\<exists>o' i' p'. buf_copy_counted 4 False (demo_buffer []) (demo_buffer [[2, 0, 0], [0, 7, 8], [1]]) (demo_pool 4) =
     Some (Inr (3, 0, o', i', p')) \<and> contents (bdata o') = [7, 8] \<and> contents (bdata i') = [1]"
proof -
  have "counted_spec False [2, 0, 0, 0, 7, 8, 1] = ([7, 8], [1], 3, 0)"
    using counted_spec_message [of "[7, 8]" False "[1]" "[]" "[1]" 3 0]
    by (simp add: counted_spec.simps [of False "[1]"] message_def int_bytes_def upt_rec Let_def)
  with copy_counted_refines [of 4 "demo_buffer []" "demo_buffer [[2, 0, 0], [0, 7, 8], [1]]" "demo_pool 4" False]
  show ?thesis by auto
qed

text \<open>C14. Counted messages survive the pipe: when \<open>buf_send_counted\<close> reports success to a blocking
  device, then feeding exactly the bytes it sent, in blocks of any shape, to \<open>buf_copy_counted\<close>
  yields the sender's contents, consumes all of them and asks for the four bytes of the next
  count.\<close>

theorem counted_roundtrip:
  assumes "blocking_device outp sent" "output_fn buf = Some outp" "4 \<le> bds" "buf_wf bds buf" "last_ok buf"
    "pool_ok bds p" "0 < pool_blocks p" "length (contents (bdata buf)) < 2 ^ 31"
    "buf_send_counted bds big buf p = Inr (0, buf', p')"
    "sent (closure buf') = sent (closure buf) @ contents (bdata inbuf)"
    "buf_wf bds inbuf" "buf_wf bds outbuf" "pool_ok bds q" "length (contents (bdata inbuf)) < pool_blocks q"
  shows "\<exists>o' i' q'. buf_copy_counted bds big outbuf inbuf q = Some (Inr (4, 0, o', i', q')) \<and>
    contents (bdata o') = contents (bdata outbuf) @ contents (bdata buf) \<and> contents (bdata i') = []"
proof -
  have "sent (closure buf') = sent (closure buf) @ message big (contents (bdata buf))"
    using send_counted_spec [OF assms(1-7), of big] assms(9) by auto
  then have "contents (bdata inbuf) = message big (contents (bdata buf)) @ []" using assms(10) by simp
  moreover have "counted_spec big [] = ([], [], 4, 0)" by (simp add: counted_spec.simps)
  ultimately have "counted_spec big (contents (bdata inbuf)) = (contents (bdata buf), [], 4, 0)"
    using counted_spec_message [OF assms(8)] by (metis append_Nil2)
  with buf_copy_counted_spec [OF _ assms(12,11,13,14)] assms(3) show ?thesis by fastforce
qed

theorem counted_roundtrip_witness:
  "\<exists>buf' p' o' i' q'. buf_send_counted 4 False
      ((stdio_buffer_initialize (demo_file []\<lparr>write_room := 9\<rparr>) 0 False)
         \<lparr>bdata := [\<lparr>dtext = [7, 8, 0, 0], dbufp = 0, dsize = 2\<rparr>], last_null := False\<rparr>)
      \<lparr>free_buffer_data = [\<lparr>dtext = [0, 0, 0, 0], dbufp = 0, dsize = 0\<rparr>], valloc = [], mem_errors = 0\<rparr> =
      Inr (0, buf', p') \<and> written (fp (closure buf')) = [2, 0, 0, 0, 7, 8] \<and>
    buf_copy_counted 4 False (demo_buffer []) (demo_buffer [[2, 0, 0, 0], [7, 8]]) (demo_pool 4) =
      Some (Inr (4, 0, o', i', q')) \<and> contents (bdata o') = [7, 8]"
proof -
  let ?b = "(stdio_buffer_initialize (demo_file []\<lparr>write_room := 9\<rparr>) 0 False)
         \<lparr>bdata := [\<lparr>dtext = [7, 8, 0, 0], dbufp = 0, dsize = 2\<rparr>], last_null := False\<rparr>"
  let ?p = "\<lparr>free_buffer_data = [\<lparr>dtext = [0, 0, 0, 0], dbufp = 0, dsize = 0\<rparr>], valloc = [], mem_errors = 0\<rparr>"
  have "\<exists>buf' p'. buf_send_counted 4 False ?b ?p = Inr (0, buf', p') \<and> written (fp (closure buf')) = [2, 0, 0, 0, 7, 8]"
    by (simp add: buf_send_counted_def send_int_def get_buffer_data_def memcpy_def buf_send_output_def
        stdio_buffer_initialize_def buf_initialize_def stdio_buffer_output_def stdio_output_loop_eq
        chunk_bytes_def mem_read_def mem_write_def int_bytes_def upt_rec demo_file_def)
  then obtain buf' p' where s: "buf_send_counted 4 False ?b ?p = Inr (0, buf', p')"
    "written (fp (closure buf')) = [2, 0, 0, 0, 7, 8]" by blast
  have b: "output_fn ?b = Some stdio_buffer_output" "buf_wf 4 ?b" "last_ok ?b" "contents (bdata ?b) = [7, 8]"
    "written (fp (closure ?b)) = []"
    by (simp_all add: stdio_buffer_initialize_def buf_initialize_def buf_wf_def chunk_wf_def last_ok_def
        chunk_bytes_def mem_read_def demo_file_def)
  have p: "pool_ok 4 ?p" "0 < pool_blocks ?p" by (simp_all add: pool_ok_def pool_blocks_def)
  have len: "length (contents (bdata ?b)) < 2 ^ 31" unfolding b(4) by simp
  obtain o' i' q' where "buf_copy_counted 4 False (demo_buffer []) (demo_buffer [[2, 0, 0, 0], [7, 8]]) (demo_pool 4) =
      Some (Inr (4, 0, o', i', q'))" "contents (bdata o') = [7, 8]"
    using counted_roundtrip [OF stdio_out.blocking_device_axioms b(1) order_refl b(2,3) p len s(1),
        of "demo_buffer [[2, 0, 0, 0], [7, 8]]" "demo_buffer []" "demo_pool 4"] s(2) b(4,5) by auto
  with s show ?thesis by blast
qed

text \<open>C31. When \<open>buf_copy_counted\<close>, with enough blocks in the pool, consumes all of an input without
  empty blocks whose \<open>last\<close> is not NULL, the input is left
  with \<open>data\<close> NULL and with \<open>last\<close> still pointing to a block, one that has gone to the output buffer
  or back to the pool: \<open>last_ok\<close> is lost. (\<open>buf_copy_lines\<close> resets the pointer in the same situation.)\<close>

theorem copy_counted_leaves_stale_last:
  assumes "0 < bds" "buf_wf bds outbuf" "buf_wf bds inbuf" "pool_ok bds p"
    "length (contents (bdata inbuf)) < pool_blocks p"
    "bdata inbuf \<noteq> []" "\<not> last_null inbuf" "no_empty (bdata inbuf)"
    "counted_spec big (contents (bdata inbuf)) = (out, [], need, special)"
  shows "\<exists>o' i' p'. buf_copy_counted bds big outbuf inbuf p = Some (Inr (need, special, o', i', p')) \<and>
    buf_wf bds o' \<and> contents (bdata o') = contents (bdata outbuf) @ out \<and>
    bdata i' = [] \<and> \<not> last_null i' \<and> \<not> last_ok i' \<and>
    pool_blocks p' + length (bdata o') = pool_blocks p + length (bdata outbuf) + length (bdata inbuf)"
proof -
  obtain o' i' p' where c: "buf_copy_counted bds big outbuf inbuf p = Some (Inr (need, special, o', i', p'))"
    "buf_wf bds o'" "buf_wf bds i'" "contents (bdata o') = contents (bdata outbuf) @ out" "contents (bdata i') = []"
    "pool_blocks p' + length (bdata o') + length (bdata i') =
      pool_blocks p + length (bdata outbuf) + length (bdata inbuf)"
    using buf_copy_counted_spec [OF assms(1-5,9)] by blast
  have k: "last_null i' = last_null inbuf" "no_empty (bdata i')"
    using copy_counted_keeps [OF c(1)] assms(8) by simp_all
  have "bdata i' = []" using k(2) c(3,5) by (cases "bdata i'") (auto simp: no_empty_def buf_wf_def dest: chunk_bytes_length)
  then show ?thesis using c k(1) assms(7) by (simp add: last_ok_def)
qed

theorem copy_counted_leaves_stale_last_witness:
  "\<exists>o' i' p'. buf_copy_counted 4 False (demo_buffer []) (demo_buffer [[2, 0, 0, 0], [7, 8]]) (demo_pool 4) =
     Some (Inr (4, 0, o', i', p')) \<and> contents (bdata o') = [7, 8] \<and> bdata i' = [] \<and> \<not> last_ok i'"
proof -
  have "counted_spec False [2, 0, 0, 0, 7, 8] = ([7, 8], [], 4, 0)"
    using counted_spec_message [of "[7, 8]" False "[]" "[]" "[]" 4 0]
    by (simp add: counted_spec.simps [of False "[]"] message_def int_bytes_def upt_rec Let_def)
  moreover have "bdata (demo_buffer [[2, 0, 0, 0], [7, 8]]) \<noteq> []" "\<not> last_null (demo_buffer [[2, 0, 0, 0], [7, 8]])"
    "no_empty (bdata (demo_buffer [[2, 0, 0, 0], [7, 8]]))"
    by (simp_all add: demo_buffer_def no_empty_def)
  ultimately show ?thesis
    using copy_counted_leaves_stale_last [of 4 "demo_buffer []" "demo_buffer [[2, 0, 0, 0], [7, 8]]" "demo_pool 4" False]
    by auto
qed

end
