(* ===== verification/CVS_Packet.thy ===== *)
theory CVS_Packet
  imports CVS_Transfer
begin

text \<open>
  Packetizing buffers (bugs/cvs/src/buffer.c, the packetizing_buffer_* functions): a buffer whose
  device cuts the data into packets, translates each one (compression, encryption) and passes it
  to an underlying buffer. A packet is a two-byte count and that many translated bytes; the
  translated data starts with the two-byte length of the original.

  The translation functions are parameters with their closure, fields of the record like the
  function pointers of the struct. \<open>holddata\<close> is an offset into \<open>holdbuf\<close>. The input loop has
  fuel, \<open>Diverges\<close> when it runs out; the theorems show that the length of the stream is enough.
\<close>

definition PACKET_SLOP :: nat where
  "PACKET_SLOP = 100"

record ('c, 'f) packetizing_buffer =
  pbuf :: "'c buffer"
  inpfn :: "('f \<Rightarrow> byte list \<Rightarrow> int \<times> byte list \<times> 'f) option"
  outfn :: "('f \<Rightarrow> byte list \<Rightarrow> int \<times> byte list \<times> 'f) option"
  fnclosure :: 'f
  translated :: bool
  holdsize :: nat
  holdbuf :: "byte list"
  holddata :: nat

text \<open>A two-byte count, most significant byte first.\<close>

definition put_count :: "nat \<Rightarrow> byte list" where
  "put_count n = [of_nat (n div 256), of_nat n]"

definition take_count :: "byte list \<Rightarrow> nat" where
  "take_count bs = unat (bs ! 0) * 256 + unat (bs ! 1)"

subsection \<open>Input\<close>

datatype packet_step = Return int | Again | Ready

definition read_status :: "int \<Rightarrow> int" where
  "read_status status = (if status = -2 then ENOMEM else status)"

definition packet_count :: "nat \<Rightarrow> ('c, 'f) packetizing_buffer \<Rightarrow> pool \<Rightarrow>
    (packet_step \<times> ('c, 'f) packetizing_buffer \<times> pool) cres" where
  "packet_count bds pb p =
     (if holdsize pb < 2 then
        ebind (buf_read_data bds (pbuf pb) (2 - holdsize pb) p) (\<lambda>(status, bytes, b, p').
          let pb1 = pb\<lparr>pbuf := b\<rparr>
          in if status \<noteq> 0 then Inr (Return (read_status status), pb1, p')
             else if bytes = [] then Inr (Return 0, pb1, p')
             else if holdsize pb = 1
             then Inr (Ready, pb1\<lparr>holdbuf := (holdbuf pb)[1 := bytes ! 0], holdsize := 2\<rparr>, p')
             else if length bytes < 2
             then Inr (Again, pb1\<lparr>holdbuf := (holdbuf pb)[0 := bytes ! 0], holdsize := 1\<rparr>, p')
             else Inr (Ready, pb1\<lparr>holdbuf := (holdbuf pb)[0 := bytes ! 0, 1 := bytes ! 1], holdsize := 2\<rparr>, p'))
      else Inr (Ready, pb, p))"

text \<open>
  With the count known: enlarge \<open>holdbuf\<close> if needed, read, and keep a partial packet. \<open>Ready\<close>
  carries the \<open>count\<close> bytes of a complete packet.
\<close>

definition grow_hold :: "nat \<Rightarrow> byte list \<Rightarrow> byte list" where
  "grow_hold n h = (if n > length h then h @ replicate (n - length h) 0 else h)"

definition packet_body :: "nat \<Rightarrow> ('c, 'f) packetizing_buffer \<Rightarrow> pool \<Rightarrow>
    (packet_step \<times> byte list \<times> ('c, 'f) packetizing_buffer \<times> pool) cres" where
  "packet_body bds pb p =
     (let count = take_count (holdbuf pb);
          pb0 = pb\<lparr>holdbuf := grow_hold (count + 2) (holdbuf pb)\<rparr>;
          get = count - (holdsize pb - 2)
      in ebind (buf_read_data bds (pbuf pb0) get p) (\<lambda>(status, bytes, b, p').
           let pb1 = pb0\<lparr>pbuf := b\<rparr>
           in if status \<noteq> 0 then Inr (Return (read_status status), [], pb1, p')
              else if bytes = [] then Inr (Return 0, [], pb1, p')
              else if length bytes < get
              then ebind (memcpy (holdsize pb1) bytes (holdbuf pb1)) (\<lambda>h.
                     Inr (Again, [], pb1\<lparr>holdbuf := h, holdsize := holdsize pb1 + length bytes\<rparr>, p'))
              else if holdsize pb1 = 2 then Inr (Ready, bytes, pb1, p')
              else ebind (memcpy (holdsize pb1) bytes (holdbuf pb1)) (\<lambda>h.
                     Inr (Ready, take count (drop 2 h), pb1\<lparr>holdbuf := h\<rparr>, p'))))"

text \<open>
  Deliver a translated packet to the caller's array of \<open>sz\<close> bytes. The code compares the real
  length only with the packet's size, but reads it behind the two-byte count: \<open>OutOfBounds\<close> stands
  for reading bytes that the translation did not produce.
\<close>

definition deliver :: "('c, 'f) packetizing_buffer \<Rightarrow> nat \<Rightarrow> byte list \<Rightarrow> nat \<Rightarrow>
    (bool \<times> byte list \<times> ('c, 'f) packetizing_buffer) cres" where
  "deliver pb count outbuf sz =
     (let tcount = take_count outbuf
      in if tcount > count then Inl Exits
         else if tcount + 2 > length outbuf then Inl OutOfBounds
         else if tcount > sz
         then ebind (memcpy 0 (take (tcount - sz) (drop (2 + sz) outbuf)) (holdbuf pb)) (\<lambda>h.
                Inr (True, take sz (drop 2 outbuf),
                     pb\<lparr>holdsize := tcount - sz, holdbuf := h, holddata := 0, translated := True\<rparr>))
         else Inr (False, take tcount (drop 2 outbuf), pb\<lparr>holdsize := 0\<rparr>))"

fun packetizing_input_loop :: "nat \<Rightarrow> nat \<Rightarrow> ('c, 'f) packetizing_buffer \<Rightarrow> int \<Rightarrow> nat \<Rightarrow> byte list \<Rightarrow> pool \<Rightarrow>
    (int \<times> byte list \<times> ('c, 'f) packetizing_buffer \<times> pool) cres" where
  "packetizing_input_loop 0 bds pb need sz got p = Inl Diverges"
| "packetizing_input_loop (Suc fuel) bds pb need sz got p =
     (if need > 0 \<or> got = [] then
        ebind (packet_count bds pb p) (\<lambda>(step, pb1, p1).
          case step of
            Return status \<Rightarrow> Inr (status, got, pb1, p1)
          | Again \<Rightarrow> packetizing_input_loop fuel bds pb1 need sz got p1
          | Ready \<Rightarrow>
              ebind (packet_body bds pb1 p1) (\<lambda>(step, bytes, pb2, p2).
                case step of
                  Return status \<Rightarrow> Inr (status, got, pb2, p2)
                | Again \<Rightarrow> packetizing_input_loop fuel bds pb2 need sz got p2
                | Ready \<Rightarrow>
                    (case inpfn pb2 of
                       None \<Rightarrow> Inl Abort
                     | Some fn \<Rightarrow>
                         (case fn (fnclosure pb2) bytes of
                            (status, outbuf, fc) \<Rightarrow>
                              let pb3 = pb2\<lparr>fnclosure := fc\<rparr>
                              in if status \<noteq> 0 then Inr (status, got, pb3, p2)
                                 else ebind (deliver pb3 (length bytes) outbuf sz) (\<lambda>(full, data, pb4).
                                        if full then Inr (0, got @ data, pb4, p2)
                                        else packetizing_input_loop fuel bds pb4 (need - int (length data))
                                               (sz - length data) (got @ data) p2)))))
      else Inr (0, got, pb, p))"

definition packetizing_buffer_input :: "nat \<Rightarrow> nat \<Rightarrow> ('c, 'f) packetizing_buffer \<Rightarrow> nat \<Rightarrow> nat \<Rightarrow> pool \<Rightarrow>
    (int \<times> byte list \<times> ('c, 'f) packetizing_buffer \<times> pool) cres" where
  "packetizing_buffer_input fuel bds pb need sz p =
     (if holdsize pb > 0 \<and> translated pb then
        let copy = holdsize pb; data = mem_read (holddata pb) copy (holdbuf pb)
        in if copy > sz
           then Inr (0, take sz data, pb\<lparr>holdsize := copy - sz, holddata := holddata pb + sz\<rparr>, p)
           else packetizing_input_loop fuel bds (pb\<lparr>holdsize := 0, translated := False\<rparr>)
                  (int need - int copy) (sz - copy) data p
      else packetizing_input_loop fuel bds pb (int need) sz [] p)"

subsection \<open>Output\<close>

definition packetizing_buffer_output :: "nat \<Rightarrow> ('c, 'f) packetizing_buffer \<Rightarrow> byte list \<Rightarrow> pool \<Rightarrow>
    (int \<times> nat \<times> ('c, 'f) packetizing_buffer \<times> pool) cres" where
  "packetizing_buffer_output bds pb data p =
     (if length data > bds then Inl Abort
      else let inbuf = put_count (length data) @ data; sz = length data + 2;
               onstack = (sz + PACKET_SLOP + 2 > bds);
               (block, p1) = (if onstack then (None, p) else get_buffer_data bds p)
           in if \<not> onstack \<and> block = None then Inr (ENOMEM, 0, pb, memory_error p1)
              else case outfn pb of
                     None \<Rightarrow> Inl Abort
                   | Some fn \<Rightarrow>
                       (case fn (fnclosure pb) inbuf of
                          (status, tdata, fc) \<Rightarrow>
                            let pb1 = pb\<lparr>fnclosure := fc\<rparr>
                            in if status \<noteq> 0 then Inr (status, 0, pb1, p1)
                               else if length tdata > sz + PACKET_SLOP then Inl Abort
                               else ebind
                                 (case block of
                                    None \<Rightarrow> buf_output bds (pbuf pb1) (put_count (length tdata) @ tdata) p1
                                  | Some outdata \<Rightarrow>
                                      ebind (memcpy 0 (put_count (length tdata) @ tdata) (dtext outdata)) (\<lambda>t.
                                        Inr (buf_append_data (pbuf pb1)
                                          [\<lparr>dtext = t, dbufp = 0, dsize = length tdata + 2\<rparr>], p1)))
                                 (\<lambda>(b, p2). ebind (buf_send_output b p2) (\<lambda>(st, b', p3).
                                    Inr (st, length data, pb1\<lparr>pbuf := b'\<rparr>, p3)))))"

definition packetizing_buffer_flush :: "('c, 'f) packetizing_buffer \<Rightarrow> pool \<Rightarrow>
    (int \<times> ('c, 'f) packetizing_buffer \<times> pool) cres" where
  "packetizing_buffer_flush pb p =
     ebind (buf_flush (pbuf pb) False p) (\<lambda>(st, b, p'). Inr (st, pb\<lparr>pbuf := b\<rparr>, p'))"

definition packetizing_buffer_block :: "('c, 'f) packetizing_buffer \<Rightarrow> bool \<Rightarrow> pool \<Rightarrow>
    (int \<times> ('c, 'f) packetizing_buffer \<times> pool) cres" where
  "packetizing_buffer_block pb blk p =
     ebind (if blk then set_block (pbuf pb) p else set_nonblock (pbuf pb) p)
       (\<lambda>(st, b, p'). Inr (st, pb\<lparr>pbuf := b\<rparr>, p'))"

definition packetizing_buffer_shutdown :: "('c buffer \<Rightarrow> pool \<Rightarrow> (int \<times> sys_call list \<times> 'c buffer \<times> pool) cres) option \<Rightarrow>
    ('c, 'f) packetizing_buffer buffer \<Rightarrow> pool \<Rightarrow>
    (int \<times> sys_call list \<times> ('c, 'f) packetizing_buffer buffer \<times> pool) cres" where
  "packetizing_buffer_shutdown shutdown buf p =
     ebind (buf_shutdown shutdown (pbuf (closure buf)) p) (\<lambda>(st, calls, b, p').
       Inr (st, calls, buf\<lparr>closure := (closure buf)\<lparr>pbuf := b\<rparr>\<rparr>, p'))"

definition packetizing_buffer_initialize :: "nat \<Rightarrow> nat \<Rightarrow> 'c buffer \<Rightarrow>
    ('f \<Rightarrow> byte list \<Rightarrow> int \<times> byte list \<times> 'f) option \<Rightarrow> ('f \<Rightarrow> byte list \<Rightarrow> int \<times> byte list \<times> 'f) option \<Rightarrow> 'f \<Rightarrow>
    ('c, 'f) packetizing_buffer buffer" where
  "packetizing_buffer_initialize fuel bds buf ifn ofn fc =
     (let pb = \<lparr>pbuf = buf, inpfn = ifn, outfn = ofn, fnclosure = fc, translated = False, holdsize = 0,
                holdbuf = (if ifn \<noteq> None then replicate (bds + PACKET_SLOP + 2) 0 else []), holddata = 0\<rparr>
      in buf_initialize
           (if ifn \<noteq> None then Some (packetizing_buffer_input fuel bds) else None)
           (if ifn \<noteq> None then None else Some (packetizing_buffer_output bds))
           (if ifn \<noteq> None then None else Some packetizing_buffer_flush)
           (Some packetizing_buffer_block) pb)"

subsection \<open>Counts\<close>

lemma unat_byte: "unat (of_nat n :: byte) = n mod 256"
  by (simp add: unsigned_of_nat take_bit_eq_mod)

lemma take_put_count: "n < 65536 \<Longrightarrow> take_count (put_count n @ xs) = n"
proof -
  assume "n < 65536"
  then have "n div 256 < 256" by (simp add: less_mult_imp_div_less)
  then show ?thesis using div_mult_mod_eq [of n 256] by (simp add: take_count_def put_count_def unat_byte)
qed

lemma length_put_count [simp]: "length (put_count n) = 2"
  by (simp add: put_count_def)

definition packet :: "byte list \<Rightarrow> byte list" where
  "packet td = put_count (length td) @ td"

lemma length_packet [simp]: "length (packet td) = length td + 2"
  by (simp add: packet_def)

subsection \<open>Reading a packet\<close>

text \<open>The receiver is in the middle of a packet \<open>td\<close> that \<open>tail\<close> follows.\<close>

definition stream :: "('c \<Rightarrow> byte list) \<Rightarrow> ('c, 'f) packetizing_buffer \<Rightarrow> byte list" where
  "stream rest pb = contents (bdata (pbuf pb)) @ rest (closure (pbuf pb))"

definition in_packet :: "nat \<Rightarrow> ('c \<Rightarrow> byte list) \<Rightarrow> byte list \<Rightarrow> byte list \<Rightarrow> ('c, 'f) packetizing_buffer \<Rightarrow> pool \<Rightarrow> bool" where
  "in_packet bds rest td tail pb p \<longleftrightarrow> buf_wf bds (pbuf pb) \<and> pool_ok bds p \<and>
     0 < pool_blocks p + length (bdata (pbuf pb)) \<and> 2 \<le> length (holdbuf pb) \<and>
     holdsize pb < length td + 2 \<and> holdsize pb \<le> length (holdbuf pb) \<and>
     take (holdsize pb) (holdbuf pb) @ stream rest pb = packet td @ tail"

lemma in_packet_step:
  assumes "in_packet bds rest td tail pb p" "buf_wf bds b" "pool_ok bds p'" "0 < pool_blocks p' + length (bdata b)"
    "bytes @ contents (bdata b) @ rest (closure b) = stream rest pb"
    "take n h = take (holdsize pb) (holdbuf pb) @ bytes" "n \<le> length h" "2 \<le> length h" "n < length td + 2"
  shows "in_packet bds rest td tail (pb\<lparr>pbuf := b, holdbuf := h, holdsize := n\<rparr>) p'"
  using assms by (simp add: in_packet_def stream_def)

context input_device
begin

lemma read_packet_bytes:
  assumes "in_packet bds rest td tail pb p" "0 < bds" "input_fn (pbuf pb) = Some inp" "0 < want"
    "holdsize pb + want \<le> length td + 2"
  shows "\<exists>st bytes b p'. buf_read_data bds (pbuf pb) want p = Inr (st, bytes, b, p') \<and>
    input_fn b = Some inp \<and> buf_wf bds b \<and> pool_ok bds p' \<and> 0 < pool_blocks p' + length (bdata b) \<and>
    (st = 0 \<longrightarrow> bytes \<noteq> []) \<and> (st \<noteq> 0 \<longrightarrow> bytes = []) \<and> length bytes \<le> want \<and>
    bytes @ contents (bdata b) @ rest (closure b) = stream rest pb \<and>
    take (holdsize pb) (holdbuf pb) @ bytes = take (holdsize pb + length bytes) (packet td)"
proof -
  have ip: "buf_wf bds (pbuf pb)" "pool_ok bds p" "0 < pool_blocks p + length (bdata (pbuf pb))"
    "holdsize pb \<le> length (holdbuf pb)" "take (holdsize pb) (holdbuf pb) @ stream rest pb = packet td @ tail"
    using assms(1) by (simp_all add: in_packet_def)
  obtain st bytes b p' where r: "buf_read_data bds (pbuf pb) want p = Inr (st, bytes, b, p')" "buf_wf bds b"
    "pool_ok bds p'" "pool_blocks p' + length (bdata b) = pool_blocks p + length (bdata (pbuf pb))"
    "bytes @ contents (bdata b) @ rest (closure b) = stream rest pb" "length bytes \<le> want"
    "st = 0 \<longrightarrow> 0 < want \<longrightarrow> bytes \<noteq> []" "st \<noteq> 0 \<longrightarrow> bytes = []" "input_fn b = input_fn (pbuf pb)"
    using read_data_spec [OF assms(3,2) ip(1-3), of want, folded stream_def] by (elim exE conjE) (rule that)
  have "take (holdsize pb + length bytes) (packet td @ tail) = take (holdsize pb) (holdbuf pb) @ bytes"
    unfolding ip(5) [symmetric] r(5) [symmetric] using ip(4) by simp
  then have "take (holdsize pb) (holdbuf pb) @ bytes = take (holdsize pb + length bytes) (packet td)"
    using r(6) assms(5) by simp
  with r assms(3,4) ip(3) show ?thesis by auto
qed

lemma packet_count_spec:
  assumes "in_packet bds rest td tail pb p" "0 < bds" "input_fn (pbuf pb) = Some inp" "td \<noteq> []"
  shows "\<exists>step pb' p'. packet_count bds pb p = Inr (step, pb', p') \<and> in_packet bds rest td tail pb' p' \<and>
    input_fn (pbuf pb') = Some inp \<and> inpfn pb' = inpfn pb \<and> fnclosure pb' = fnclosure pb \<and>
    ((\<exists>st. st \<noteq> 0 \<and> step = Return st) \<or>
     step = Again \<and> length (stream rest pb') < length (stream rest pb) \<or>
     step = Ready \<and> 2 \<le> holdsize pb' \<and> length (stream rest pb') \<le> length (stream rest pb))"
proof (cases "holdsize pb < 2")
  case False
  with assms show ?thesis by (auto simp: packet_count_def)
next
  case True
  have want: "0 < 2 - holdsize pb" "holdsize pb + (2 - holdsize pb) \<le> length td + 2" using True by auto
  obtain st bytes b p' where r: "buf_read_data bds (pbuf pb) (2 - holdsize pb) p = Inr (st, bytes, b, p')"
    "input_fn b = Some inp" "buf_wf bds b" "pool_ok bds p'" "0 < pool_blocks p' + length (bdata b)"
    "st = 0 \<longrightarrow> bytes \<noteq> []" "st \<noteq> 0 \<longrightarrow> bytes = []" "length bytes \<le> 2 - holdsize pb"
    "bytes @ contents (bdata b) @ rest (closure b) = stream rest pb"
    "take (holdsize pb) (holdbuf pb) @ bytes = take (holdsize pb + length bytes) (packet td)"
    using read_packet_bytes [OF assms(1-3) want] by (elim exE conjE) (rule that)
  have ip: "2 \<le> length (holdbuf pb)" "holdsize pb < length td + 2" "holdsize pb \<le> length (holdbuf pb)"
    "take (holdsize pb) (holdbuf pb) @ stream rest pb = packet td @ tail"
    using assms(1) by (simp_all add: in_packet_def)
  have len: "length (stream rest pb) = length bytes + length (contents (bdata b) @ rest (closure b))"
    using r(9) by (metis length_append)
  have td: "2 < length td + 2" using assms(4) by simp
  have nxt: "in_packet bds rest td tail (pb\<lparr>pbuf := b, holdbuf := h, holdsize := n\<rparr>) p'"
    if "take n h = take (holdsize pb) (holdbuf pb) @ bytes" "n \<le> length h" "2 \<le> length h" "n < length td + 2" for n h
    using in_packet_step [OF assms(1) r(3-5,9) that] .
  obtain x y t where h: "holdbuf pb = x # y # t" using ip(1) by (metis Suc_le_length_iff numeral_2_eq_2)
  have str: "stream rest (pb\<lparr>pbuf := b, holdbuf := h', holdsize := n\<rparr>) = contents (bdata b) @ rest (closure b)" for h' n
    by (simp add: stream_def)
  show ?thesis
  proof (cases "st = 0")
    case False
    then have "packet_count bds pb p = Inr (Return (read_status st), pb\<lparr>pbuf := b\<rparr>, p')"
      using True r(1) by (simp add: packet_count_def)
    moreover have "in_packet bds rest td tail (pb\<lparr>pbuf := b\<rparr>) p'"
      using nxt [of "holdsize pb" "holdbuf pb"] False r(7) ip by simp
    ultimately show ?thesis using False r(2) by (auto simp: read_status_def ENOMEM_def)
  next
    case st: True
    show ?thesis
    proof (cases "holdsize pb = 1")
      case True
      then obtain z where z: "bytes = [z]" using r(6,8) st by (cases bytes) auto
      have "packet_count bds pb p = Inr (Ready, pb\<lparr>pbuf := b, holdbuf := [x, z] @ t, holdsize := 2\<rparr>, p')"
        using True r(1) st z h by (simp add: packet_count_def)
      moreover have "in_packet bds rest td tail (pb\<lparr>pbuf := b, holdbuf := [x, z] @ t, holdsize := 2\<rparr>) p'"
        using nxt [of 2 "[x, z] @ t"] True z h td by simp
      ultimately show ?thesis using r(2) len str by auto
    next
      case False
      then have hs: "holdsize pb = 0" using True by simp
      show ?thesis
      proof (cases "length bytes < 2")
        case True
        then obtain z where z: "bytes = [z]" using r(6) st by (cases bytes) auto
        have "packet_count bds pb p = Inr (Again, pb\<lparr>pbuf := b, holdbuf := [z, y] @ t, holdsize := 1\<rparr>, p')"
          using hs r(1) st z h by (simp add: packet_count_def)
        moreover have "in_packet bds rest td tail (pb\<lparr>pbuf := b, holdbuf := [z, y] @ t, holdsize := 1\<rparr>) p'"
          using nxt [of 1 "[z, y] @ t"] hs z h td by simp
        ultimately show ?thesis using r(2) len str z by auto
      next
        case False
        then obtain z w where z: "bytes = [z, w]" using r(8) hs by (cases bytes; cases "tl bytes") auto
        have "packet_count bds pb p = Inr (Ready, pb\<lparr>pbuf := b, holdbuf := [z, w] @ t, holdsize := 2\<rparr>, p')"
          using hs r(1) st z h by (simp add: packet_count_def)
        moreover have "in_packet bds rest td tail (pb\<lparr>pbuf := b, holdbuf := [z, w] @ t, holdsize := 2\<rparr>) p'"
          using nxt [of 2 "[z, w] @ t"] hs z h td by simp
        ultimately show ?thesis using r(2) len str by auto
      qed
    qed
  qed
qed

lemma packet_body_spec:
  assumes "in_packet bds rest td tail pb p" "0 < bds" "input_fn (pbuf pb) = Some inp" "2 \<le> holdsize pb"
    "length td < 65536"
  shows "\<exists>step bytes pb' p'. packet_body bds pb p = Inr (step, bytes, pb', p') \<and>
    input_fn (pbuf pb') = Some inp \<and> inpfn pb' = inpfn pb \<and> fnclosure pb' = fnclosure pb \<and>
    ((\<exists>st. st \<noteq> 0 \<and> step = Return st) \<and> in_packet bds rest td tail pb' p' \<or>
     step = Again \<and> in_packet bds rest td tail pb' p' \<and> length (stream rest pb') < length (stream rest pb) \<or>
     step = Ready \<and> bytes = td \<and> stream rest pb' = tail \<and> buf_wf bds (pbuf pb') \<and> pool_ok bds p' \<and>
       0 < length (stream rest pb) \<and> length td + 2 \<le> length (holdbuf pb'))"
proof -
  have ip: "holdsize pb < length td + 2" "holdsize pb \<le> length (holdbuf pb)"
    "take (holdsize pb) (holdbuf pb) @ stream rest pb = packet td @ tail"
    using assms(1) by (simp_all add: in_packet_def)
  have "take 2 (holdbuf pb) = take 2 (take (holdsize pb) (holdbuf pb) @ stream rest pb)"
    using assms(4) ip(2) by simp
  then have "take 2 (holdbuf pb) = put_count (length td)" unfolding ip(3) by (simp add: packet_def)
  then have "holdbuf pb = put_count (length td) @ drop 2 (holdbuf pb)" by (metis append_take_drop_id)
  then have count: "take_count (holdbuf pb) = length td" using take_put_count [OF assms(5)] by metis
  define h where "h = grow_hold (length td + 2) (holdbuf pb)"
  define pb0 where "pb0 = pb\<lparr>holdbuf := h\<rparr>"
  have h: "length td + 2 \<le> length h" "take (holdsize pb) h = take (holdsize pb) (holdbuf pb)"
    using ip(2) by (auto simp: h_def grow_hold_def)
  have ip0: "in_packet bds rest td tail pb0 p"
    using assms(1) h by (simp add: in_packet_def pb0_def stream_def)
  let ?get = "length td - (holdsize pb - 2)"
  have get: "0 < ?get" "holdsize pb0 + ?get \<le> length td + 2" using ip(1) assms(4) by (auto simp: pb0_def)
  have i0: "input_fn (pbuf pb0) = Some inp" using assms(3) by (simp add: pb0_def)
  obtain st bytes b p' where r: "buf_read_data bds (pbuf pb0) ?get p = Inr (st, bytes, b, p')"
    "input_fn b = Some inp" "buf_wf bds b" "pool_ok bds p'" "0 < pool_blocks p' + length (bdata b)"
    "st = 0 \<longrightarrow> bytes \<noteq> []" "st \<noteq> 0 \<longrightarrow> bytes = []" "length bytes \<le> ?get"
    "bytes @ contents (bdata b) @ rest (closure b) = stream rest pb0"
    "take (holdsize pb0) (holdbuf pb0) @ bytes = take (holdsize pb0 + length bytes) (packet td)"
    using read_packet_bytes [OF ip0 assms(2) i0 get] by (elim exE conjE) (rule that)
  have unf: "packet_body bds pb p = (let pb1 = pb0\<lparr>pbuf := b\<rparr>
       in if st \<noteq> 0 then Inr (Return (read_status st), [], pb1, p')
          else if bytes = [] then Inr (Return 0, [], pb1, p')
          else if length bytes < ?get
          then ebind (memcpy (holdsize pb1) bytes (holdbuf pb1)) (\<lambda>h.
                 Inr (Again, [], pb1\<lparr>holdbuf := h, holdsize := holdsize pb1 + length bytes\<rparr>, p'))
          else if holdsize pb1 = 2 then Inr (Ready, bytes, pb1, p')
          else ebind (memcpy (holdsize pb1) bytes (holdbuf pb1)) (\<lambda>h.
                 Inr (Ready, take (length td) (drop 2 h), pb1\<lparr>holdbuf := h\<rparr>, p')))"
    unfolding packet_body_def Let_def count h_def [symmetric] pb0_def [symmetric] r(1) by simp
  have room: "holdsize pb + length bytes \<le> length h" using r(8) h(1) get(2) by (simp add: pb0_def)
  have mw: "take (holdsize pb + length bytes) (mem_write (holdsize pb) bytes h) = take (holdsize pb) h @ bytes"
    using room by (simp add: mem_write_def)
  have str0: "stream rest pb0 = stream rest pb" by (simp add: stream_def pb0_def)
  have nxt: "in_packet bds rest td tail (pb0\<lparr>pbuf := b, holdbuf := h', holdsize := n\<rparr>) p'"
    if "take n h' = take (holdsize pb0) (holdbuf pb0) @ bytes" "n \<le> length h'" "2 \<le> length h'" "n < length td + 2" for n h'
    using in_packet_step [OF ip0 r(3-5,9) that] .
  show ?thesis
  proof (cases "st = 0")
    case False
    then have "packet_body bds pb p = Inr (Return (read_status st), [], pb0\<lparr>pbuf := b\<rparr>, p')" by (simp add: unf Let_def)
    moreover have "in_packet bds rest td tail (pb0\<lparr>pbuf := b\<rparr>) p'"
      using nxt [of "holdsize pb0" "holdbuf pb0"] False r(7) ip0 by (simp add: in_packet_def)
    ultimately show ?thesis using False r(2) by (auto simp: read_status_def ENOMEM_def pb0_def)
  next
    case st: True
    then have ne: "bytes \<noteq> []" using r(6) by simp
    show ?thesis
    proof (cases "length bytes < ?get")
      case True
      let ?pb = "pb0\<lparr>pbuf := b, holdbuf := mem_write (holdsize pb) bytes h, holdsize := holdsize pb + length bytes\<rparr>"
      have "packet_body bds pb p = Inr (Again, [], ?pb, p')"
        using st ne True room by (simp add: unf Let_def pb0_def)
      moreover have "in_packet bds rest td tail ?pb p'"
        using nxt [of "holdsize pb + length bytes" "mem_write (holdsize pb) bytes h"] mw room h(1) True get
        by (simp add: pb0_def)
      moreover have "length (stream rest ?pb) < length (stream rest pb)"
      proof -
        have "length (stream rest pb) = length bytes + length (stream rest ?pb)"
          unfolding str0 [symmetric] r(9) [symmetric] by (simp add: stream_def)
        then show ?thesis using ne by simp
      qed
      ultimately show ?thesis using r(2) by (auto simp: pb0_def)
    next
      case False
      then have lb: "length bytes = ?get" using r(8) by simp
      have all: "take (holdsize pb) h @ bytes = packet td"
        using r(10) lb get(2) ip(1) assms(4) by (simp add: pb0_def)
      have tl: "contents (bdata b) @ rest (closure b) = tail"
      proof -
        have "take (holdsize pb) h @ stream rest pb = packet td @ tail" using h(2) ip(3) by simp
        then show ?thesis using all r(9) str0 by (metis append.assoc same_append_eq)
      qed
      have pos: "0 < length (stream rest pb)" using r(9) ne str0 by (metis append_is_Nil_conv length_greater_0_conv)
      show ?thesis
      proof (cases "holdsize pb = 2")
        case True
        have "packet_body bds pb p = Inr (Ready, bytes, pb0\<lparr>pbuf := b\<rparr>, p')"
          using st ne False True by (simp add: unf Let_def pb0_def)
        moreover have "bytes = td"
          using all True h(1) by (simp add: packet_def append_eq_append_conv)
        ultimately show ?thesis using r(2-4) tl pos h(1) by (simp add: stream_def pb0_def)
      next
        case hs: False
        let ?h = "mem_write (holdsize pb) bytes h"
        have "packet_body bds pb p = Inr (Ready, take (length td) (drop 2 ?h), pb0\<lparr>pbuf := b, holdbuf := ?h\<rparr>, p')"
          using st ne False hs room by (simp add: unf Let_def pb0_def)
        moreover have "take (length td + 2) ?h = packet td"
          using mw all lb ip(1) assms(4) by simp
        then have "take (length td) (drop 2 ?h) = td"
          by (metis append_eq_conv_conj drop_take add_diff_cancel_right' length_put_count packet_def)
        ultimately show ?thesis using r(2-4) tl pos h(1) room by (simp add: stream_def pb0_def)
      qed
    qed
  qed
qed

text \<open>The whole loop, for a caller who wants no more than the packet holds and has room for it.\<close>

lemma input_loop_spec:
  assumes "0 < bds" "td \<noteq> []" "length td < 65536" "fn fc td = (0, put_count (length data) @ data @ pad, fc')"
    "length data + 2 + length pad = length td" "data \<noteq> []" "need \<le> int (length data)" "length data \<le> sz"
  shows "in_packet bds rest td tail pb p \<Longrightarrow> input_fn (pbuf pb) = Some inp \<Longrightarrow> inpfn pb = Some fn \<Longrightarrow>
    fnclosure pb = fc \<Longrightarrow> length (stream rest pb) < fuel \<Longrightarrow>
    \<exists>st got pb' p'. packetizing_input_loop fuel bds pb need sz [] p = Inr (st, got, pb', p') \<and>
      (st = 0 \<longrightarrow> got = data \<and> stream rest pb' = tail \<and> holdsize pb' = 0) \<and>
      (st \<noteq> 0 \<longrightarrow> got = [] \<and> in_packet bds rest td tail pb' p')"
proof (induction fuel arbitrary: pb p)
  case (Suc fuel)
  obtain step pb1 p1 where c: "packet_count bds pb p = Inr (step, pb1, p1)" "in_packet bds rest td tail pb1 p1"
    "input_fn (pbuf pb1) = Some inp" "inpfn pb1 = inpfn pb" "fnclosure pb1 = fnclosure pb"
    "(\<exists>st. st \<noteq> 0 \<and> step = Return st) \<or> step = Again \<and> length (stream rest pb1) < length (stream rest pb) \<or>
     step = Ready \<and> 2 \<le> holdsize pb1 \<and> length (stream rest pb1) \<le> length (stream rest pb)"
    using packet_count_spec [OF Suc.prems(1) assms(1) Suc.prems(2) assms(2)] by (elim exE conjE) (rule that)
  consider (ret) st where "st \<noteq> 0" "step = Return st" | (again) "step = Again" "length (stream rest pb1) < length (stream rest pb)"
    | (ready) "step = Ready" "2 \<le> holdsize pb1" "length (stream rest pb1) \<le> length (stream rest pb)"
    using c(6) by blast
  then show ?case
  proof cases
    case ret
    with c(1,2) show ?thesis by simp
  next
    case again
    with Suc.IH [OF c(2,3)] c(1,4,5) Suc.prems show ?thesis by simp
  next
    case ready
    obtain step2 bytes pb2 p2 where b: "packet_body bds pb1 p1 = Inr (step2, bytes, pb2, p2)"
      "input_fn (pbuf pb2) = Some inp" "inpfn pb2 = inpfn pb1" "fnclosure pb2 = fnclosure pb1"
      "(\<exists>st. st \<noteq> 0 \<and> step2 = Return st) \<and> in_packet bds rest td tail pb2 p2 \<or>
       step2 = Again \<and> in_packet bds rest td tail pb2 p2 \<and> length (stream rest pb2) < length (stream rest pb1) \<or>
       step2 = Ready \<and> bytes = td \<and> stream rest pb2 = tail \<and> buf_wf bds (pbuf pb2) \<and> pool_ok bds p2 \<and>
         0 < length (stream rest pb1) \<and> length td + 2 \<le> length (holdbuf pb2)"
      using packet_body_spec [OF c(2) assms(1) c(3) ready(2) assms(3)] by (elim exE conjE) (rule that)
    consider (ret) st where "st \<noteq> 0" "step2 = Return st" "in_packet bds rest td tail pb2 p2"
      | (again) "step2 = Again" "in_packet bds rest td tail pb2 p2" "length (stream rest pb2) < length (stream rest pb1)"
      | (complete) "step2 = Ready" "bytes = td" "stream rest pb2 = tail" "0 < length (stream rest pb1)"
      using b(5) by blast
    then show ?thesis
    proof cases
      case ret
      with c(1) b(1) ready(1) show ?thesis by simp
    next
      case again
      with Suc.IH [OF again(2) b(2)] c(1,4,5) b(1,3,4) ready Suc.prems show ?thesis by simp
    next
      case complete
      have "0 < length (stream rest pb)" using complete(4) ready(3) by linarith
      then obtain f where f: "fuel = Suc f" using Suc.prems(5) by (cases fuel) auto
      have fn: "inpfn pb2 = Some fn" "fn (fnclosure pb2) bytes = (0, put_count (length data) @ data @ pad, fc')"
        using b(3,4) c(4,5) Suc.prems(3,4) complete(2) assms(4) by simp_all
      have tc: "take_count (put_count (length data) @ data @ pad) = length data"
        using take_put_count [of "length data" "data @ pad"] assms(3,5) by simp
      have "deliver (pb2\<lparr>fnclosure := fc'\<rparr>) (length bytes) (put_count (length data) @ data @ pad) sz =
          Inr (False, data, pb2\<lparr>fnclosure := fc', holdsize := 0\<rparr>)"
        using assms(5,8) complete(2) by (simp add: deliver_def tc Let_def)
      moreover have "\<not> (need - int (length data) > 0 \<or> data = [])" using assms(6,7) by simp
      ultimately have "packetizing_input_loop (Suc fuel) bds pb need sz [] p =
          Inr (0, data, pb2\<lparr>fnclosure := fc', holdsize := 0\<rparr>, p2)"
        using c(1) b(1) ready(1) complete(1) fn by (simp add: f)
      moreover have "stream rest (pb2\<lparr>fnclosure := fc', holdsize := 0\<rparr>) = tail" using complete(3) by (simp add: stream_def)
      ultimately show ?thesis by simp
    qed
  qed
qed simp

end

subsection \<open>Sending a packet\<close>

lemma packet_output_spec:
  assumes "blocking_device outp sent" "output_fn (pbuf pb) = Some outp" "0 < bds" "buf_wf bds (pbuf pb)" "pool_ok bds p"
    "length data \<le> bds" "outfn pb = Some fn" "fn (fnclosure pb) (put_count (length data) @ data) = (0, td, fc)"
    "length td \<le> length data + 2 + PACKET_SLOP" "length td + 2 < pool_blocks p"
  shows "\<exists>st pb' p'. packetizing_buffer_output bds pb data p = Inr (st, length data, pb', p') \<and> pool_ok bds p' \<and>
    (st = 0 \<longrightarrow> sent (closure (pbuf pb')) = sent (closure (pbuf pb)) @ contents (bdata (pbuf pb)) @ packet td) \<and>
    bdata (pbuf pb') = []"
proof -
  have send: "\<exists>st b' p3. buf_send_output b p2 = Inr (st, b', p3) \<and> pool_ok bds p3 \<and> bdata b' = [] \<and>
      (st = 0 \<longrightarrow> sent (closure b') = sent (closure b) @ contents (bdata b))"
    if "buf_wf bds b" "pool_ok bds p2" "output_fn b = Some outp" for b p2
    using blocking_send [OF assms(1) that(3,1,2)] by blast
  show ?thesis
  proof (cases "length data + 2 + PACKET_SLOP + 2 > bds")
    case True
    obtain b p2 where o: "buf_output bds (pbuf pb) (packet td) p = Inr (b, p2)" "appends bds (pbuf pb) p (packet td) b p2"
      using buf_output_enough [OF assms(3-5), of "packet td"] assms(10) by auto
    have ob: "output_fn b = Some outp" "closure b = closure (pbuf pb)" using o(2) assms(2) by (auto simp: appends_def)
    obtain st b' p3 where s: "buf_send_output b p2 = Inr (st, b', p3)" "pool_ok bds p3" "bdata b' = []"
      "st = 0 \<longrightarrow> sent (closure b') = sent (closure b) @ contents (bdata b)"
      using send [OF appendsD(1,2) [OF o(2)] ob(1)] by blast
    have "packetizing_buffer_output bds pb data p = Inr (st, length data, pb\<lparr>fnclosure := fc, pbuf := b'\<rparr>, p3)"
      using True assms(6-9) o(1) s(1) by (simp add: packetizing_buffer_output_def packet_def Let_def)
    then show ?thesis using s ob(2) appendsD(3) [OF o(2)] by simp
  next
    case False
    obtain d p1 where g: "get_buffer_data bds p = (Some d, p1)" "pool_ok bds p1" "length (dtext d) = bds"
      using get_buffer_data_some [OF assms(5)] assms(10) by (metis less_nat_zero_code not_gr_zero)
    have fit: "length (packet td) \<le> bds" using False assms(9) by simp
    let ?d = "\<lparr>dtext = mem_write 0 (packet td) (dtext d), dbufp = 0, dsize = length td + 2\<rparr>"
    have d: "chunk_wf bds ?d" "chunk_bytes ?d = packet td" using fresh_chunk [OF g(3) fit] by simp_all
    let ?b = "buf_append_data (pbuf pb) [?d]"
    have b: "buf_wf bds ?b" "output_fn ?b = Some outp" "closure ?b = closure (pbuf pb)"
      "contents (bdata ?b) = contents (bdata (pbuf pb)) @ packet td"
      using d assms(2,4) by (simp_all add: buf_append_data_def buf_wf_def)
    obtain st b' p3 where s: "buf_send_output ?b p1 = Inr (st, b', p3)" "pool_ok bds p3" "bdata b' = []"
      "st = 0 \<longrightarrow> sent (closure b') = sent (closure ?b) @ contents (bdata ?b)"
      using send [OF b(1) g(2) b(2)] by blast
    have "memcpy 0 (put_count (length td) @ td) (dtext d) = Inr (mem_write 0 (packet td) (dtext d))"
      using fit g(3) by (simp add: packet_def)
    then have "packetizing_buffer_output bds pb data p = Inr (st, length data, pb\<lparr>fnclosure := fc, pbuf := b'\<rparr>, p3)"
      using False assms(6-9) g(1) s(1) by (simp add: packetizing_buffer_output_def Let_def)
    then show ?thesis using s b(3,4) by simp
  qed
qed

subsection \<open>Property\<close>

text \<open>C15. Packets survive the wire. When a packetizing buffer over a blocking device reports
  success for \<open>data\<close>, then a fresh receiving buffer whose stream begins with exactly the bytes that
  were sent, arriving in pieces of any size, either reports a device error without losing its
  place in the packet, or returns exactly \<open>data\<close> and leaves the rest of the stream; fuel for each
  byte of the stream is enough. The translation functions are required to be inverse to each
  other on this packet, up to padding, to stay within the slop and below 65536 bytes.\<close>

theorem packet_roundtrip:
  assumes "blocking_device outp sent" "output_fn (pbuf pbo) = Some outp" "0 < bds" "buf_wf bds (pbuf pbo)"
    "bdata (pbuf pbo) = []" "pool_ok bds p" "length data \<le> bds" "data \<noteq> []" "outfn pbo = Some ofn"
    "ofn (fnclosure pbo) (put_count (length data) @ data) = (0, td, fo)"
    "length td \<le> length data + 2 + PACKET_SLOP" "length td + 2 < pool_blocks p" "length td < 65536"
    "packetizing_buffer_output bds pbo data p = Inr (0, n, pbo', p')"
    "input_device inp rest" "input_fn (pbuf pbi) = Some inp" "buf_wf bds (pbuf pbi)" "pool_ok bds q"
    "0 < pool_blocks q" "inpfn pbi = Some ifn" "holdsize pbi = 0" "2 \<le> length (holdbuf pbi)"
    "ifn (fnclosure pbi) td = (0, put_count (length data) @ data @ pad, fi)"
    "length td = length data + 2 + length pad"
    "sent (closure (pbuf pbo)) @ stream rest pbi = sent (closure (pbuf pbo')) @ tail"
    "length (stream rest pbi) < fuel" "need \<le> length data" "length data \<le> sz"
  shows "n = length data \<and> (\<exists>st got pbi' q'. packetizing_buffer_input fuel bds pbi need sz q = Inr (st, got, pbi', q') \<and>
    (st = 0 \<longrightarrow> got = data \<and> stream rest pbi' = tail \<and> holdsize pbi' = 0) \<and>
    (st \<noteq> 0 \<longrightarrow> got = [] \<and> in_packet bds rest td tail pbi' q'))"
proof -
  have o: "n = length data" "sent (closure (pbuf pbo')) = sent (closure (pbuf pbo)) @ packet td"
    using packet_output_spec [OF assms(1-4,6,7,9-12)] assms(5,14) by auto
  then have "stream rest pbi = packet td @ tail" using assms(25) by simp
  moreover have td: "td \<noteq> []" using assms(8,24) by auto
  ultimately have "in_packet bds rest td tail pbi q"
    using assms(17-19,21,22) by (simp add: in_packet_def)
  moreover have "packetizing_buffer_input fuel bds pbi need sz q = packetizing_input_loop fuel bds pbi (int need) sz [] q"
    using assms(21) by (simp add: packetizing_buffer_input_def)
  ultimately show ?thesis
    using input_device.input_loop_spec [where fn = ifn and fc = "fnclosure pbi" and td = td and data = data
        and pad = pad and need = "int need" and sz = sz, OF assms(15,3) td assms(13,23) _ assms(8) _ assms(28),
        of tail pbi q fuel] assms(16,20,24,26,27) o(1) by auto
qed

text \<open>With the identity as translation.\<close>

definition demo_fn :: "unit \<Rightarrow> byte list \<Rightarrow> int \<times> byte list \<times> unit" where
  "demo_fn fc bs = (0, bs, fc)"

definition demo_sender :: "(stdio_buffer_closure, unit) packetizing_buffer" where
  "demo_sender = \<lparr>pbuf = stdio_buffer_initialize (demo_file []\<lparr>write_room := 9\<rparr>) 0 False, inpfn = None,
     outfn = Some demo_fn, fnclosure = (), translated = False, holdsize = 0, holdbuf = [], holddata = 0\<rparr>"

definition demo_receiver :: "(stdio_buffer_closure, unit) packetizing_buffer" where
  "demo_receiver = \<lparr>pbuf = stdio_buffer_initialize (demo_file [0, 4, 0, 2, 7, 8, 99]) 0 True, inpfn = Some demo_fn,
     outfn = None, fnclosure = (), translated = False, holdsize = 0, holdbuf = [0, 0, 0, 0, 0, 0], holddata = 0\<rparr>"

definition demo_blocks :: pool where
  "demo_blocks = (let d = \<lparr>dtext = [0, 0, 0, 0], dbufp = 0, dsize = 0\<rparr>
     in \<lparr>free_buffer_data = [d, d, d, d, d, d, d, d], valloc = [], mem_errors = 0\<rparr>)"

lemma demo_blocks_ok: "pool_ok 4 demo_blocks" "pool_blocks demo_blocks = 8"
  by (simp_all add: demo_blocks_def pool_ok_def pool_blocks_def Let_def)

lemma demo_send:
  "\<exists>pb' p'. packetizing_buffer_output 4 demo_sender [7, 8] demo_blocks = Inr (0, 2, pb', p') \<and>
     written (fp (closure (pbuf pb'))) = [0, 4, 0, 2, 7, 8]"
  by (simp add: packetizing_buffer_output_def demo_sender_def demo_blocks_def demo_fn_def put_count_def
      PACKET_SLOP_def buf_output_def buf_output_loop.simps get_buffer_data_def memcpy_def buf_append_data_def
      stdio_buffer_initialize_def buf_initialize_def buf_send_output_def stdio_buffer_output_def
      stdio_output_loop_eq chunk_bytes_def mem_read_def mem_write_def demo_file_def Let_def)

theorem packet_roundtrip_witness:
  "\<exists>st got pbi' q'. packetizing_buffer_input 9 4 demo_receiver 1 10 (demo_pool 4) = Inr (st, got, pbi', q') \<and>
     (st = 0 \<longrightarrow> got = [7, 8])"
proof -
  obtain pbo' p' where s: "packetizing_buffer_output 4 demo_sender [7, 8] demo_blocks = Inr (0, 2, pbo', p')"
    "written (fp (closure (pbuf pbo'))) = [0, 4, 0, 2, 7, 8]" using demo_send by blast
  have "output_fn (pbuf demo_sender) = Some stdio_buffer_output" "buf_wf 4 (pbuf demo_sender)" "bdata (pbuf demo_sender) = []"
    "outfn demo_sender = Some demo_fn" "written (fp (closure (pbuf demo_sender))) = []"
    by (simp_all add: demo_sender_def stdio_buffer_initialize_def buf_initialize_def buf_wf_def demo_file_def)
  moreover have "input_fn (pbuf demo_receiver) = Some stdio_buffer_input" "buf_wf 4 (pbuf demo_receiver)"
    "inpfn demo_receiver = Some demo_fn" "holdsize demo_receiver = 0" "2 \<le> length (holdbuf demo_receiver)"
    "stream (\<lambda>bc. to_read (fp bc)) demo_receiver = [0, 4, 0, 2, 7, 8, 99]"
    by (simp_all add: demo_receiver_def stream_def)
  moreover have "demo_fn fc (put_count (length [7, 8]) @ [7, 8]) = (0, [0, 2, 7, 8], fc)"
    "demo_fn fc [0, 2, 7, 8] = (0, put_count (length [7, 8]) @ [7, 8] @ [], fc)" for fc
    by (simp_all add: demo_fn_def put_count_def)
  ultimately show ?thesis
    using packet_roundtrip [OF stdio_out.blocking_device_axioms, of demo_sender 4 demo_blocks "[7, 8]" demo_fn
        "[0, 2, 7, 8]" "()" 2 pbo' p' stdio_buffer_input "\<lambda>bc. to_read (fp bc)" demo_receiver "demo_pool 4"
        demo_fn "[]" "()" "[99]" 9 1 10] s stdio_in.input_device_axioms demo_blocks_ok by (auto simp: PACKET_SLOP_def)
qed

end
