(* ===== verification/PNG_Trans.thy ===== *)
theory PNG_Trans
  imports Prelude
begin

text \<open>
  Row transformations of libpng 1.0.9beta9 (bugs/libpng/pngtrans.c): the functions that request a
  transformation and those that carry it out on one row in place.

  Flag and color type values are defined in png.h; they are fields of the parameter record
  \<open>png_h\<close>. A row is a byte array; every access is checked, and \<open>OutOfBounds\<close> stands for one
  outside the row, so the theorems include memory safety for rows of the declared length. All
  _SUPPORTED options are on and PNG_USELESS_TESTS_SUPPORTED (tests against NULL) is off. 32-bit
  fields and loop counters are words, so \<open>width * channels\<close> wraps as in the code.
\<close>

unbundle bit_operations_syntax

subsection \<open>Requests\<close>

record png_h =
  PNG_BGR :: "32 word"
  PNG_INTERLACE :: "32 word"
  PNG_PACK :: "32 word"
  PNG_SHIFT :: "32 word"
  PNG_SWAP_BYTES :: "32 word"
  PNG_INVERT_MONO :: "32 word"
  PNG_FILLER :: "32 word"
  PNG_PACKSWAP :: "32 word"
  PNG_SWAP_ALPHA :: "32 word"
  PNG_INVERT_ALPHA :: "32 word"
  PNG_FILLER_AFTER :: int
  PNG_FLAG_FILLER_AFTER :: "32 word"
  PNG_COLOR_TYPE_GRAY :: byte
  PNG_COLOR_TYPE_RGB :: byte
  PNG_COLOR_TYPE_RGB_ALPHA :: byte
  PNG_COLOR_MASK_COLOR :: byte
  PNG_COLOR_MASK_ALPHA :: byte

record 'u png_struct =
  transformations :: "32 word"
  flags :: "32 word"
  png_bit_depth :: byte
  png_color_type :: byte
  usr_bit_depth :: byte
  usr_channels :: byte
  interlaced :: byte
  shift_bits :: "byte list"
  filler :: byte
  user_transform_ptr :: "'u option"
  user_transform_depth :: byte
  user_transform_channels :: byte

definition png_set_bgr :: "png_h \<Rightarrow> 'u png_struct \<Rightarrow> 'u png_struct" where
  "png_set_bgr H p = p\<lparr>transformations := transformations p OR PNG_BGR H\<rparr>"

definition png_set_swap :: "png_h \<Rightarrow> 'u png_struct \<Rightarrow> 'u png_struct" where
  "png_set_swap H p =
     (if png_bit_depth p = 16 then p\<lparr>transformations := transformations p OR PNG_SWAP_BYTES H\<rparr> else p)"

definition png_set_packing :: "png_h \<Rightarrow> 'u png_struct \<Rightarrow> 'u png_struct" where
  "png_set_packing H p =
     (if png_bit_depth p < 8
      then p\<lparr>transformations := transformations p OR PNG_PACK H, usr_bit_depth := 8\<rparr> else p)"

definition png_set_packswap :: "png_h \<Rightarrow> 'u png_struct \<Rightarrow> 'u png_struct" where
  "png_set_packswap H p =
     (if png_bit_depth p < 8 then p\<lparr>transformations := transformations p OR PNG_PACKSWAP H\<rparr> else p)"

definition png_set_shift :: "png_h \<Rightarrow> 'u png_struct \<Rightarrow> byte list \<Rightarrow> 'u png_struct" where
  "png_set_shift H p true_bits =
     p\<lparr>transformations := transformations p OR PNG_SHIFT H, shift_bits := true_bits\<rparr>"

definition png_set_interlace_handling :: "png_h \<Rightarrow> 'u png_struct \<Rightarrow> int \<times> 'u png_struct" where
  "png_set_interlace_handling H p =
     (if interlaced p \<noteq> 0 then (7, p\<lparr>transformations := transformations p OR PNG_INTERLACE H\<rparr>) else (1, p))"

definition png_set_filler :: "png_h \<Rightarrow> 'u png_struct \<Rightarrow> 32 word \<Rightarrow> int \<Rightarrow> 'u png_struct" where
  "png_set_filler H p fill filler_loc =
     (let p1 = p\<lparr>transformations := transformations p OR PNG_FILLER H, filler := ucast fill,
                 flags := (if filler_loc = PNG_FILLER_AFTER H then flags p OR PNG_FLAG_FILLER_AFTER H
                           else flags p AND NOT (PNG_FLAG_FILLER_AFTER H))\<rparr>;
          p2 = (if png_color_type p1 = PNG_COLOR_TYPE_RGB H then p1\<lparr>usr_channels := 4\<rparr> else p1)
      in if png_color_type p2 = PNG_COLOR_TYPE_GRAY H \<and> png_bit_depth p2 \<ge> 8
         then p2\<lparr>usr_channels := 2\<rparr> else p2)"

definition png_set_swap_alpha :: "png_h \<Rightarrow> 'u png_struct \<Rightarrow> 'u png_struct" where
  "png_set_swap_alpha H p = p\<lparr>transformations := transformations p OR PNG_SWAP_ALPHA H\<rparr>"

definition png_set_invert_alpha :: "png_h \<Rightarrow> 'u png_struct \<Rightarrow> 'u png_struct" where
  "png_set_invert_alpha H p = p\<lparr>transformations := transformations p OR PNG_INVERT_ALPHA H\<rparr>"

definition png_set_invert_mono :: "png_h \<Rightarrow> 'u png_struct \<Rightarrow> 'u png_struct" where
  "png_set_invert_mono H p = p\<lparr>transformations := transformations p OR PNG_INVERT_MONO H\<rparr>"

definition png_set_user_transform_info :: "'u png_struct \<Rightarrow> 'u option \<Rightarrow> int \<Rightarrow> int \<Rightarrow> 'u png_struct" where
  "png_set_user_transform_info p ptr depth chans =
     p\<lparr>user_transform_ptr := ptr, user_transform_depth := word_of_int depth,
       user_transform_channels := word_of_int chans\<rparr>"

definition png_get_user_transform_ptr :: "'u png_struct \<Rightarrow> 'u option" where
  "png_get_user_transform_ptr p = user_transform_ptr p"

subsection \<open>Rows\<close>

record row_info =
  width :: "32 word"
  rowbytes :: "32 word"
  color_type :: byte
  bit_depth :: byte
  channels :: byte
  pixel_depth :: byte

definition rget :: "byte list \<Rightarrow> nat \<Rightarrow> byte cres" where
  "rget row i = (if i < length row then Inr (row ! i) else Inl OutOfBounds)"

definition rput :: "nat \<Rightarrow> byte \<Rightarrow> byte list \<Rightarrow> byte list cres" where
  "rput i v row = (if i < length row then Inr (row[i := v]) else Inl OutOfBounds)"

text \<open>Exchange two bytes through a temporary.\<close>

definition exchange :: "nat \<Rightarrow> nat \<Rightarrow> byte list \<Rightarrow> byte list cres" where
  "exchange i j row =
     ebind (rget row i) (\<lambda>t. ebind (rget row j) (\<lambda>v. ebind (rput i v row) (rput j t)))"

definition png_do_invert :: "png_h \<Rightarrow> row_info \<Rightarrow> byte list \<Rightarrow> byte list cres" where
  "png_do_invert H ri row =
     (if bit_depth ri = 1 \<and> color_type ri = PNG_COLOR_TYPE_GRAY H
      then efold (\<lambda>i row. ebind (rget row i) (\<lambda>b. rput i (NOT b) row)) [0..<unat (rowbytes ri)] row
      else Inr row)"

definition png_do_swap :: "row_info \<Rightarrow> byte list \<Rightarrow> byte list cres" where
  "png_do_swap ri row =
     (if bit_depth ri = 16
      then efold (\<lambda>i row. exchange (2 * i) (2 * i + 1) row) [0..<unat (width ri * ucast (channels ri))] row
      else Inr row)"

definition onebppswaptable :: "byte list" where
  "onebppswaptable =
    [0x00, 0x80, 0x40, 0xC0, 0x20, 0xA0, 0x60, 0xE0,
     0x10, 0x90, 0x50, 0xD0, 0x30, 0xB0, 0x70, 0xF0,
     0x08, 0x88, 0x48, 0xC8, 0x28, 0xA8, 0x68, 0xE8,
     0x18, 0x98, 0x58, 0xD8, 0x38, 0xB8, 0x78, 0xF8,
     0x04, 0x84, 0x44, 0xC4, 0x24, 0xA4, 0x64, 0xE4,
     0x14, 0x94, 0x54, 0xD4, 0x34, 0xB4, 0x74, 0xF4,
     0x0C, 0x8C, 0x4C, 0xCC, 0x2C, 0xAC, 0x6C, 0xEC,
     0x1C, 0x9C, 0x5C, 0xDC, 0x3C, 0xBC, 0x7C, 0xFC,
     0x02, 0x82, 0x42, 0xC2, 0x22, 0xA2, 0x62, 0xE2,
     0x12, 0x92, 0x52, 0xD2, 0x32, 0xB2, 0x72, 0xF2,
     0x0A, 0x8A, 0x4A, 0xCA, 0x2A, 0xAA, 0x6A, 0xEA,
     0x1A, 0x9A, 0x5A, 0xDA, 0x3A, 0xBA, 0x7A, 0xFA,
     0x06, 0x86, 0x46, 0xC6, 0x26, 0xA6, 0x66, 0xE6,
     0x16, 0x96, 0x56, 0xD6, 0x36, 0xB6, 0x76, 0xF6,
     0x0E, 0x8E, 0x4E, 0xCE, 0x2E, 0xAE, 0x6E, 0xEE,
     0x1E, 0x9E, 0x5E, 0xDE, 0x3E, 0xBE, 0x7E, 0xFE,
     0x01, 0x81, 0x41, 0xC1, 0x21, 0xA1, 0x61, 0xE1,
     0x11, 0x91, 0x51, 0xD1, 0x31, 0xB1, 0x71, 0xF1,
     0x09, 0x89, 0x49, 0xC9, 0x29, 0xA9, 0x69, 0xE9,
     0x19, 0x99, 0x59, 0xD9, 0x39, 0xB9, 0x79, 0xF9,
     0x05, 0x85, 0x45, 0xC5, 0x25, 0xA5, 0x65, 0xE5,
     0x15, 0x95, 0x55, 0xD5, 0x35, 0xB5, 0x75, 0xF5,
     0x0D, 0x8D, 0x4D, 0xCD, 0x2D, 0xAD, 0x6D, 0xED,
     0x1D, 0x9D, 0x5D, 0xDD, 0x3D, 0xBD, 0x7D, 0xFD,
     0x03, 0x83, 0x43, 0xC3, 0x23, 0xA3, 0x63, 0xE3,
     0x13, 0x93, 0x53, 0xD3, 0x33, 0xB3, 0x73, 0xF3,
     0x0B, 0x8B, 0x4B, 0xCB, 0x2B, 0xAB, 0x6B, 0xEB,
     0x1B, 0x9B, 0x5B, 0xDB, 0x3B, 0xBB, 0x7B, 0xFB,
     0x07, 0x87, 0x47, 0xC7, 0x27, 0xA7, 0x67, 0xE7,
     0x17, 0x97, 0x57, 0xD7, 0x37, 0xB7, 0x77, 0xF7,
     0x0F, 0x8F, 0x4F, 0xCF, 0x2F, 0xAF, 0x6F, 0xEF,
     0x1F, 0x9F, 0x5F, 0xDF, 0x3F, 0xBF, 0x7F, 0xFF]"

definition twobppswaptable :: "byte list" where
  "twobppswaptable =
    [0x00, 0x40, 0x80, 0xC0, 0x10, 0x50, 0x90, 0xD0,
     0x20, 0x60, 0xA0, 0xE0, 0x30, 0x70, 0xB0, 0xF0,
     0x04, 0x44, 0x84, 0xC4, 0x14, 0x54, 0x94, 0xD4,
     0x24, 0x64, 0xA4, 0xE4, 0x34, 0x74, 0xB4, 0xF4,
     0x08, 0x48, 0x88, 0xC8, 0x18, 0x58, 0x98, 0xD8,
     0x28, 0x68, 0xA8, 0xE8, 0x38, 0x78, 0xB8, 0xF8,
     0x0C, 0x4C, 0x8C, 0xCC, 0x1C, 0x5C, 0x9C, 0xDC,
     0x2C, 0x6C, 0xAC, 0xEC, 0x3C, 0x7C, 0xBC, 0xFC,
     0x01, 0x41, 0x81, 0xC1, 0x11, 0x51, 0x91, 0xD1,
     0x21, 0x61, 0xA1, 0xE1, 0x31, 0x71, 0xB1, 0xF1,
     0x05, 0x45, 0x85, 0xC5, 0x15, 0x55, 0x95, 0xD5,
     0x25, 0x65, 0xA5, 0xE5, 0x35, 0x75, 0xB5, 0xF5,
     0x09, 0x49, 0x89, 0xC9, 0x19, 0x59, 0x99, 0xD9,
     0x29, 0x69, 0xA9, 0xE9, 0x39, 0x79, 0xB9, 0xF9,
     0x0D, 0x4D, 0x8D, 0xCD, 0x1D, 0x5D, 0x9D, 0xDD,
     0x2D, 0x6D, 0xAD, 0xED, 0x3D, 0x7D, 0xBD, 0xFD,
     0x02, 0x42, 0x82, 0xC2, 0x12, 0x52, 0x92, 0xD2,
     0x22, 0x62, 0xA2, 0xE2, 0x32, 0x72, 0xB2, 0xF2,
     0x06, 0x46, 0x86, 0xC6, 0x16, 0x56, 0x96, 0xD6,
     0x26, 0x66, 0xA6, 0xE6, 0x36, 0x76, 0xB6, 0xF6,
     0x0A, 0x4A, 0x8A, 0xCA, 0x1A, 0x5A, 0x9A, 0xDA,
     0x2A, 0x6A, 0xAA, 0xEA, 0x3A, 0x7A, 0xBA, 0xFA,
     0x0E, 0x4E, 0x8E, 0xCE, 0x1E, 0x5E, 0x9E, 0xDE,
     0x2E, 0x6E, 0xAE, 0xEE, 0x3E, 0x7E, 0xBE, 0xFE,
     0x03, 0x43, 0x83, 0xC3, 0x13, 0x53, 0x93, 0xD3,
     0x23, 0x63, 0xA3, 0xE3, 0x33, 0x73, 0xB3, 0xF3,
     0x07, 0x47, 0x87, 0xC7, 0x17, 0x57, 0x97, 0xD7,
     0x27, 0x67, 0xA7, 0xE7, 0x37, 0x77, 0xB7, 0xF7,
     0x0B, 0x4B, 0x8B, 0xCB, 0x1B, 0x5B, 0x9B, 0xDB,
     0x2B, 0x6B, 0xAB, 0xEB, 0x3B, 0x7B, 0xBB, 0xFB,
     0x0F, 0x4F, 0x8F, 0xCF, 0x1F, 0x5F, 0x9F, 0xDF,
     0x2F, 0x6F, 0xAF, 0xEF, 0x3F, 0x7F, 0xBF, 0xFF]"

definition fourbppswaptable :: "byte list" where
  "fourbppswaptable =
    [0x00, 0x10, 0x20, 0x30, 0x40, 0x50, 0x60, 0x70,
     0x80, 0x90, 0xA0, 0xB0, 0xC0, 0xD0, 0xE0, 0xF0,
     0x01, 0x11, 0x21, 0x31, 0x41, 0x51, 0x61, 0x71,
     0x81, 0x91, 0xA1, 0xB1, 0xC1, 0xD1, 0xE1, 0xF1,
     0x02, 0x12, 0x22, 0x32, 0x42, 0x52, 0x62, 0x72,
     0x82, 0x92, 0xA2, 0xB2, 0xC2, 0xD2, 0xE2, 0xF2,
     0x03, 0x13, 0x23, 0x33, 0x43, 0x53, 0x63, 0x73,
     0x83, 0x93, 0xA3, 0xB3, 0xC3, 0xD3, 0xE3, 0xF3,
     0x04, 0x14, 0x24, 0x34, 0x44, 0x54, 0x64, 0x74,
     0x84, 0x94, 0xA4, 0xB4, 0xC4, 0xD4, 0xE4, 0xF4,
     0x05, 0x15, 0x25, 0x35, 0x45, 0x55, 0x65, 0x75,
     0x85, 0x95, 0xA5, 0xB5, 0xC5, 0xD5, 0xE5, 0xF5,
     0x06, 0x16, 0x26, 0x36, 0x46, 0x56, 0x66, 0x76,
     0x86, 0x96, 0xA6, 0xB6, 0xC6, 0xD6, 0xE6, 0xF6,
     0x07, 0x17, 0x27, 0x37, 0x47, 0x57, 0x67, 0x77,
     0x87, 0x97, 0xA7, 0xB7, 0xC7, 0xD7, 0xE7, 0xF7,
     0x08, 0x18, 0x28, 0x38, 0x48, 0x58, 0x68, 0x78,
     0x88, 0x98, 0xA8, 0xB8, 0xC8, 0xD8, 0xE8, 0xF8,
     0x09, 0x19, 0x29, 0x39, 0x49, 0x59, 0x69, 0x79,
     0x89, 0x99, 0xA9, 0xB9, 0xC9, 0xD9, 0xE9, 0xF9,
     0x0A, 0x1A, 0x2A, 0x3A, 0x4A, 0x5A, 0x6A, 0x7A,
     0x8A, 0x9A, 0xAA, 0xBA, 0xCA, 0xDA, 0xEA, 0xFA,
     0x0B, 0x1B, 0x2B, 0x3B, 0x4B, 0x5B, 0x6B, 0x7B,
     0x8B, 0x9B, 0xAB, 0xBB, 0xCB, 0xDB, 0xEB, 0xFB,
     0x0C, 0x1C, 0x2C, 0x3C, 0x4C, 0x5C, 0x6C, 0x7C,
     0x8C, 0x9C, 0xAC, 0xBC, 0xCC, 0xDC, 0xEC, 0xFC,
     0x0D, 0x1D, 0x2D, 0x3D, 0x4D, 0x5D, 0x6D, 0x7D,
     0x8D, 0x9D, 0xAD, 0xBD, 0xCD, 0xDD, 0xED, 0xFD,
     0x0E, 0x1E, 0x2E, 0x3E, 0x4E, 0x5E, 0x6E, 0x7E,
     0x8E, 0x9E, 0xAE, 0xBE, 0xCE, 0xDE, 0xEE, 0xFE,
     0x0F, 0x1F, 0x2F, 0x3F, 0x4F, 0x5F, 0x6F, 0x7F,
     0x8F, 0x9F, 0xAF, 0xBF, 0xCF, 0xDF, 0xEF, 0xFF]"

definition png_do_packswap :: "row_info \<Rightarrow> byte list \<Rightarrow> byte list cres" where
  "png_do_packswap ri row =
     (if bit_depth ri < 8 then
        (let apply = (\<lambda>table. efold (\<lambda>i row. ebind (rget row i) (\<lambda>b. rput i (table ! unat b) row))
                                [0..<unat (rowbytes ri)] row)
         in if bit_depth ri = 1 then apply onebppswaptable
            else if bit_depth ri = 2 then apply twobppswaptable
            else if bit_depth ri = 4 then apply fourbppswaptable
            else Inr row)
      else Inr row)"

text \<open>
  The loops of \<open>png_do_strip_filler\<close>: per pixel, skip \<open>lead\<close> bytes, copy \<open>n\<close> bytes one at a time
  with \<open>*dp++ = *sp++\<close>, skip \<open>trail\<close> bytes.
\<close>

fun copy_bytes :: "nat \<Rightarrow> nat \<Rightarrow> nat \<Rightarrow> byte list \<Rightarrow> byte list cres" where
  "copy_bytes 0 sp dp row = Inr row"
| "copy_bytes (Suc n) sp dp row =
     ebind (rget row sp) (\<lambda>b. ebind (rput dp b row) (copy_bytes n (sp + 1) (dp + 1)))"

fun strip_loop :: "nat \<Rightarrow> nat \<Rightarrow> nat \<Rightarrow> nat \<Rightarrow> nat \<Rightarrow> nat \<Rightarrow> byte list \<Rightarrow> byte list cres" where
  "strip_loop lead n trail 0 sp dp row = Inr row"
| "strip_loop lead n trail (Suc k) sp dp row =
     ebind (copy_bytes n (sp + lead) dp row) (strip_loop lead n trail k (sp + lead + n + trail) (dp + n))"

definition png_do_strip_filler :: "png_h \<Rightarrow> row_info \<Rightarrow> byte list \<Rightarrow> 32 word \<Rightarrow> (row_info \<times> byte list) cres" where
  "png_do_strip_filler H ri row flgs =
     (let after = (flgs AND PNG_FLAG_FILLER_AFTER H \<noteq> 0); w = unat (width ri);
          rgb = NOT (PNG_COLOR_MASK_ALPHA H)
      in if channels ri = 4 then
           (if bit_depth ri = 8 then
              ebind (if after then strip_loop 0 3 1 (w - 1) 4 3 row else strip_loop 1 3 0 w 0 0 row)
                (\<lambda>row'. Inr (ri\<lparr>pixel_depth := 24, rowbytes := width ri * 3, channels := 3,
                              color_type := color_type ri AND rgb\<rparr>, row'))
            else
              ebind (if after then strip_loop 0 6 2 (w - 1) 8 6 row else strip_loop 2 6 0 w 0 0 row)
                (\<lambda>row'. Inr (ri\<lparr>pixel_depth := 48, rowbytes := width ri * 6, channels := 3,
                              color_type := color_type ri AND rgb\<rparr>, row')))
         else if channels ri = 2 then
           (if bit_depth ri = 8 then
              ebind (if after then strip_loop 0 1 1 w 0 0 row else strip_loop 1 1 0 w 0 0 row)
                (\<lambda>row'. Inr (ri\<lparr>pixel_depth := 8, rowbytes := width ri, channels := 1,
                              color_type := color_type ri AND rgb\<rparr>, row'))
            else
              ebind (if after then strip_loop 0 2 2 (w - 1) 4 2 row else strip_loop 2 2 0 w 0 0 row)
                (\<lambda>row'. Inr (ri\<lparr>pixel_depth := 16, rowbytes := width ri * 2, channels := 1,
                              color_type := color_type ri AND rgb\<rparr>, row')))
         else Inr (ri, row))"

text \<open>The four loops of \<open>png_do_bgr\<close> differ in the pixel size and in the bytes exchanged.\<close>

definition bgr_loop :: "nat \<Rightarrow> bool \<Rightarrow> nat \<Rightarrow> byte list \<Rightarrow> byte list cres" where
  "bgr_loop px two w row =
     efold (\<lambda>i row. if two then ebind (exchange (px * i) (px * i + 4) row) (exchange (px * i + 1) (px * i + 5))
                    else exchange (px * i) (px * i + 2) row) [0..<w] row"

definition png_do_bgr :: "png_h \<Rightarrow> row_info \<Rightarrow> byte list \<Rightarrow> byte list cres" where
  "png_do_bgr H ri row =
     (if color_type ri AND PNG_COLOR_MASK_COLOR H \<noteq> 0 then
        (if bit_depth ri = 8 then
           (if color_type ri = PNG_COLOR_TYPE_RGB H then bgr_loop 3 False (unat (width ri)) row
            else if color_type ri = PNG_COLOR_TYPE_RGB_ALPHA H then bgr_loop 4 False (unat (width ri)) row
            else Inr row)
         else if bit_depth ri = 16 then
           (if color_type ri = PNG_COLOR_TYPE_RGB H then bgr_loop 6 True (unat (width ri)) row
            else if color_type ri = PNG_COLOR_TYPE_RGB_ALPHA H then bgr_loop 8 True (unat (width ri)) row
            else Inr row)
         else Inr row)
      else Inr row)"

subsection \<open>Lemmas: copying down\<close>

lemma mem_write_Cons:
  assumes "dp < length row"
  shows "mem_write dp (x # xs) row = mem_write (Suc dp) xs (row[dp := x])"
proof -
  have "take (Suc dp) (row[dp := x]) = take dp row @ [x]"
    using assms by (simp add: take_Suc_conv_app_nth)
  then show ?thesis by (simp add: mem_write_def)
qed

lemma mem_read_Cons: "sp < length row \<Longrightarrow> mem_read sp (Suc n) row = row ! sp # mem_read (Suc sp) n row"
  by (simp add: mem_read_def Cons_nth_drop_Suc [symmetric])

lemma copy_bytes_eq:
  "dp \<le> sp \<Longrightarrow> sp + n \<le> length row \<Longrightarrow> copy_bytes n sp dp row = Inr (mem_write dp (mem_read sp n row) row)"
proof (induction n arbitrary: sp dp row)
  case 0
  then show ?case by (simp add: mem_write_def)
next
  case (Suc n)
  have "mem_read (Suc sp) n (row[dp := row ! sp]) = mem_read (Suc sp) n row"
    using Suc.prems by (simp add: mem_read_def)
  then show ?case
    using Suc.IH [of "Suc dp" "Suc sp" "row[dp := row ! sp]"] Suc.prems
    by (simp add: rget_def rput_def mem_read_Cons mem_write_Cons)
qed

definition strip_ref :: "nat \<Rightarrow> nat \<Rightarrow> nat \<Rightarrow> byte list \<Rightarrow> nat list \<Rightarrow> byte list" where
  "strip_ref px lead n row is = concat (map (\<lambda>i. mem_read (i * px + lead) n row) is)"

lemma mem_read_above: "off + length src \<le> pos \<Longrightarrow> pos \<le> length m \<Longrightarrow> mem_read pos k (mem_write off src m) = mem_read pos k m"
  by (simp add: mem_read_def mem_write_def)

lemma strip_loop_spec:
  assumes "px = lead + n + trail"
  shows "(a + k) * px \<le> length row \<Longrightarrow>
    \<exists>row'. strip_loop lead n trail k (a * px) (a * n) row = Inr row' \<and> length row' = length row \<and>
      take ((a + k) * n) row' = take (a * n) row @ strip_ref px lead n row [a..<a + k]"
proof (induction k arbitrary: a row)
  case 0
  then show ?case by (simp add: strip_ref_def)
next
  case (Suc k)
  have bound: "Suc a * px \<le> length row" using Suc.prems by (metis add_Suc_right le_add1 le_trans mult_le_mono1 add_Suc)
  have np: "n \<le> px" using assms by simp
  then have an: "a * n \<le> a * px" "Suc a * n \<le> Suc a * px" by (blast intro: mult_le_mono2)+
  let ?r = "mem_write (a * n) (mem_read (a * px + lead) n row) row"
  have src: "a * px + lead + n \<le> length row" using bound assms by simp
  then have len: "length (mem_read (a * px + lead) n row) = n" by simp
  have lr: "length ?r = length row" using len an bound assms by simp
  have t: "take (Suc a * n) ?r = take (a * n) row @ mem_read (a * px + lead) n row"
    using len an bound by (simp add: mem_write_def)
  have s1: "copy_bytes n (a * px + lead) (a * n) row = Inr ?r"
    using copy_bytes_eq [of "a * n" "a * px + lead" n row] an src by simp
  have "(Suc a + k) * px \<le> length ?r" using Suc.prems lr by simp
  then obtain row' where r: "strip_loop lead n trail k (Suc a * px) (Suc a * n) ?r = Inr row'"
    "length row' = length ?r" "take ((Suc a + k) * n) row' = take (Suc a * n) ?r @ strip_ref px lead n ?r [Suc a..<Suc a + k]"
    using Suc.IH [of "Suc a" ?r] by blast
  have same: "strip_ref px lead n ?r [Suc a..<Suc a + k] = strip_ref px lead n row [Suc a..<Suc a + k]"
  proof -
    have "mem_read (i * px + lead) n ?r = mem_read (i * px + lead) n row" if "i \<in> set [Suc a..<Suc a + k]" for i
    proof -
      have "Suc a \<le> i" "Suc i \<le> a + Suc k" using that by auto
      then have up: "Suc a * px \<le> i * px" and "Suc i * px \<le> (a + Suc k) * px" by (blast intro: mult_le_mono1)+
      then have "px + i * px \<le> length row" using Suc.prems by (metis le_trans mult_Suc)
      then have "i * px + lead \<le> length row" using assms by linarith
      moreover have "a * n + length (mem_read (a * px + lead) n row) \<le> i * px + lead" using up an(2) len by simp
      ultimately show ?thesis by (intro mem_read_above)
    qed
    then show ?thesis unfolding strip_ref_def by (metis (no_types, lifting) map_cong)
  qed
  have pos: "a * px + lead + n + trail = Suc a * px" "a * n + n = Suc a * n" using assms by simp_all
  have "[a..<a + Suc k] = a # [Suc a..<Suc a + k]" by (simp add: upt_conv_Cons)
  then have "take ((a + Suc k) * n) row' = take (a * n) row @ strip_ref px lead n row [a..<a + Suc k]"
    using r(3) t same by (simp add: strip_ref_def)
  moreover have "strip_loop lead n trail (Suc k) (a * px) (a * n) row = Inr row'"
    using s1 r(1) unfolding strip_loop.simps pos by simp
  ultimately show ?case using r(2) lr by auto
qed

subsection \<open>Lemmas: bytewise maps and permutations within a pixel\<close>

lemma bytewise_map:
  "n \<le> length row \<Longrightarrow> efold (\<lambda>i row. ebind (rget row i) (\<lambda>b. rput i (f b) row)) [0..<n] row =
     Inr (map f (take n row) @ drop n row)"
proof (induction n)
  case (Suc n)
  then have "drop n row = row ! n # drop (Suc n) row" by (simp add: Cons_nth_drop_Suc)
  with Suc show ?case
    by (simp add: efold_append rget_def rput_def nth_append take_Suc_conv_app_nth list_update_append)
qed simp

definition pixperm :: "nat \<Rightarrow> (nat \<Rightarrow> nat) \<Rightarrow> nat \<Rightarrow> byte list \<Rightarrow> byte list" where
  "pixperm px \<sigma> m row =
     map (\<lambda>k. row ! (if k < px * m then px * (k div px) + \<sigma> (k mod px) else k)) [0..<length row]"

lemma length_pixperm [simp]: "length (pixperm px \<sigma> m row) = length row"
  by (simp add: pixperm_def)

lemma pixperm_nth [simp]:
  "k < length row \<Longrightarrow> pixperm px \<sigma> m row ! k = row ! (if k < px * m then px * (k div px) + \<sigma> (k mod px) else k)"
  by (simp add: pixperm_def)

lemma pixel_bound: "k < px * m \<Longrightarrow> r < px \<Longrightarrow> px * (k div px) + r < px * (m :: nat)"
proof -
  assume "k < px * m" "r < px"
  then have "k div px < m" by (simp add: less_mult_imp_div_less mult.commute)
  then have "px * Suc (k div px) \<le> px * m" by (intro mult_le_mono2) simp
  then show ?thesis using \<open>r < px\<close> by simp
qed

lemma pixperm_involution:
  assumes "\<forall>r<px. \<sigma> r < px \<and> \<sigma> (\<sigma> r) = r" "px * m \<le> length row"
  shows "pixperm px \<sigma> m (pixperm px \<sigma> m row) = row"
proof (rule nth_equalityI)
  fix k assume "k < length (pixperm px \<sigma> m (pixperm px \<sigma> m row))"
  then have k: "k < length row" by simp
  show "pixperm px \<sigma> m (pixperm px \<sigma> m row) ! k = row ! k"
  proof (cases "k < px * m")
    case True
    then have r: "k mod px < px" by (cases px) auto
    then have s: "\<sigma> (k mod px) < px" "\<sigma> (\<sigma> (k mod px)) = k mod px" using assms(1) by auto
    let ?j = "px * (k div px) + \<sigma> (k mod px)"
    have j: "?j < px * m" using pixel_bound [OF True s(1)] .
    have "?j div px = k div px" "?j mod px = \<sigma> (k mod px)" using s(1) by (simp_all add: div_mult_self4)
    then show ?thesis using True j s(2) k assms(2) by simp
  qed (use k in simp)
qed simp

definition pixel_at :: "nat \<Rightarrow> (nat \<Rightarrow> nat) \<Rightarrow> nat \<Rightarrow> byte list \<Rightarrow> byte list" where
  "pixel_at px \<sigma> i row = map (\<lambda>k. row ! (if k div px = i then px * i + \<sigma> (k mod px) else k)) [0..<length row]"

lemma length_pixel_at [simp]: "length (pixel_at px \<sigma> i row) = length row"
  by (simp add: pixel_at_def)

lemma pixel_at_nth [simp]:
  "k < length row \<Longrightarrow> pixel_at px \<sigma> i row ! k = row ! (if k div px = i then px * i + \<sigma> (k mod px) else k)"
  by (simp add: pixel_at_def)

lemma in_pixel: "r < px \<Longrightarrow> (k :: nat) = px * i + r \<longleftrightarrow> k div px = i \<and> k mod px = r"
  by auto

lemma div_range: "0 < px \<Longrightarrow> k div px = m \<longleftrightarrow> px * m \<le> k \<and> k < px * Suc (m :: nat)"
  by (metis div_nat_eqI div_times_less_eq_dividend dividend_less_times_div mult.commute mult_Suc_right add.commute)

lemma perm_fold:
  assumes "0 < px" "\<forall>r<px. \<sigma> r < px"
    "\<And>i row'. px * Suc i \<le> length row' \<Longrightarrow> step i row' = Inr (pixel_at px \<sigma> i row')"
  shows "px * m \<le> length row \<Longrightarrow> efold step [0..<m] row = Inr (pixperm px \<sigma> m row)"
proof (induction m)
  case 0
  have "pixperm px \<sigma> 0 row = row" by (rule nth_equalityI) simp_all
  then show ?case by simp
next
  case (Suc m)
  have "pixel_at px \<sigma> m (pixperm px \<sigma> m row) = pixperm px \<sigma> (Suc m) row"
  proof (rule nth_equalityI)
    fix k assume "k < length (pixel_at px \<sigma> m (pixperm px \<sigma> m row))"
    then have k: "k < length row" by simp
    have r: "\<sigma> (k mod px) < px" using assms(1,2) by simp
    show "pixel_at px \<sigma> m (pixperm px \<sigma> m row) ! k = pixperm px \<sigma> (Suc m) row ! k"
    proof (cases "k div px = m")
      case True
      then have "px * m \<le> k" "k < px * Suc m" using div_range [OF assms(1)] by auto
      moreover have "px * m + \<sigma> (k mod px) < length row" using r Suc.prems by simp
      ultimately show ?thesis using True k by simp
    next
      case False
      then have "k < px * m \<longleftrightarrow> k < px * Suc m" using div_range [OF assms(1), of k m] by auto
      then show ?thesis using False k by simp
    qed
  qed simp
  then show ?case using Suc assms(3) [of m "pixperm px \<sigma> m row"] by (simp add: efold_append)
qed

definition swap_at :: "nat \<Rightarrow> nat \<Rightarrow> nat \<Rightarrow> nat" where
  "swap_at a b r = (if r = a then b else if r = b then a else r)"

lemma exchange_pixel:
  assumes "a < px" "b < px" "a \<noteq> b" "px * Suc i \<le> length row"
  shows "exchange (px * i + a) (px * i + b) row = Inr (pixel_at px (swap_at a b) i row)"
proof -
  have ab: "px * i + a < length row" "px * i + b < length row" using assms by simp_all
  have "row[px * i + a := row ! (px * i + b), px * i + b := row ! (px * i + a)] = pixel_at px (swap_at a b) i row"
  proof (rule nth_equalityI)
    fix k assume "k < length (row[px * i + a := row ! (px * i + b), px * i + b := row ! (px * i + a)])"
    then have k: "k < length row" by simp
    then have e: "row[px * i + a := row ! (px * i + b), px * i + b := row ! (px * i + a)] ! k =
        (if k = px * i + b then row ! (px * i + a) else if k = px * i + a then row ! (px * i + b) else row ! k)"
      by (simp add: nth_list_update)
    show "row[px * i + a := row ! (px * i + b), px * i + b := row ! (px * i + a)] ! k = pixel_at px (swap_at a b) i row ! k"
    proof (cases "k div px = i")
      case True
      then have "k = px * i + k mod px" by auto
      then show ?thesis
        unfolding e using True k in_pixel [OF assms(1), of k i] in_pixel [OF assms(2), of k i] assms(3)
        by (auto simp: swap_at_def)
    next
      case False
      then show ?thesis unfolding e using k in_pixel [OF assms(1), of k i] in_pixel [OF assms(2), of k i] by auto
    qed
  qed simp
  then show ?thesis using ab assms(3) by (simp add: exchange_def rget_def rput_def)
qed

lemma pixel_at_compose:
  assumes "0 < px" "\<forall>r<px. \<tau> r < px" "px * Suc i \<le> length row"
  shows "pixel_at px \<tau> i (pixel_at px \<sigma> i row) = pixel_at px (\<sigma> \<circ> \<tau>) i row"
proof (rule nth_equalityI)
  fix k assume "k < length (pixel_at px \<tau> i (pixel_at px \<sigma> i row))"
  then have k: "k < length row" by simp
  have "\<tau> (k mod px) < px" using assms(1,2) by simp
  then have "px * i + \<tau> (k mod px) < length row" "(px * i + \<tau> (k mod px)) div px = i"
    "(px * i + \<tau> (k mod px)) mod px = \<tau> (k mod px)" using assms(3) by simp_all
  then show "pixel_at px \<tau> i (pixel_at px \<sigma> i row) ! k = pixel_at px (\<sigma> \<circ> \<tau>) i row ! k" using k by simp
qed simp

text \<open>The permutation of the bytes of a pixel that exchanging red and blue is.\<close>

definition bgr_perm :: "bool \<Rightarrow> nat \<Rightarrow> nat" where
  "bgr_perm two = (if two then swap_at 0 4 \<circ> swap_at 1 5 else swap_at 0 2)"

lemma bgr_loop_eq:
  assumes "if two then 6 \<le> px else 3 \<le> px" "px * m \<le> length row"
  shows "bgr_loop px two m row = Inr (pixperm px (bgr_perm two) m row)"
  unfolding bgr_loop_def
proof (rule perm_fold)
  show "0 < px" using assms(1) by (cases two) auto
  show "\<forall>r<px. bgr_perm two r < px" using assms(1) by (cases two) (auto simp: bgr_perm_def swap_at_def)
  fix i and row' :: "byte list" assume row': "px * Suc i \<le> length row'"
  show "(if two then ebind (exchange (px * i) (px * i + 4) row') (exchange (px * i + 1) (px * i + 5))
      else exchange (px * i) (px * i + 2) row') = Inr (pixel_at px (bgr_perm two) i row')"
  proof (cases two)
    case True
    have "\<forall>r<px. swap_at 1 5 r < px" "0 < px" using assms(1) True by (auto simp: swap_at_def)
    then show ?thesis
      using True assms(1) row' exchange_pixel [of 0 px 4 i row'] exchange_pixel [of 1 px 5 i "pixel_at px (swap_at 0 4) i row'"]
        pixel_at_compose [of px "swap_at 1 5" i row' "swap_at 0 4"]
      by (simp add: bgr_perm_def)
  next
    case False
    then show ?thesis using assms(1) row' exchange_pixel [of 0 px 2 i row'] by (simp add: bgr_perm_def)
  qed
qed (rule assms(2))

lemma bgr_perm_involution: "if two then 6 \<le> px else 3 \<le> px \<Longrightarrow> \<forall>r<px. bgr_perm two r < px \<and> bgr_perm two (bgr_perm two r) = r"
  by (cases two) (auto simp: bgr_perm_def swap_at_def)

lemma do_swap_loop:
  assumes "2 * m \<le> length row"
  shows "efold (\<lambda>i row. exchange (2 * i) (2 * i + 1) row) [0..<m] row = Inr (pixperm 2 (swap_at 0 1) m row)"
proof (rule perm_fold)
  show "\<forall>r<2. swap_at 0 1 r < 2" by (simp add: swap_at_def)
  show "exchange (2 * i) (2 * i + 1) row' = Inr (pixel_at 2 (swap_at 0 1) i row')" if "2 * Suc i \<le> length row'" for i row'
    using exchange_pixel [of 0 2 1 i row'] that by simp
qed (use assms in auto)

subsection \<open>Lemmas: the tables\<close>

text \<open>A byte with its 1-, 2- or 4-bit pixels in reverse order.\<close>

definition pixrev :: "nat \<Rightarrow> byte \<Rightarrow> byte" where
  "pixrev d b = foldr (\<lambda>j w. push_bit (8 - d * (j + 1)) (take_bit d (drop_bit (d * j) b)) OR w) [0..<8 div d] 0"

lemma swap_tables:
  "onebppswaptable = map (\<lambda>i. pixrev 1 (of_nat i)) [0..<256]"
  "twobppswaptable = map (\<lambda>i. pixrev 2 (of_nat i)) [0..<256]"
  "fourbppswaptable = map (\<lambda>i. pixrev 4 (of_nat i)) [0..<256]"
  by code_simp+

lemma table_at: "map (\<lambda>i. f (of_nat i :: byte)) [0..<256] ! unat b = f b"
proof -
  have "unat b < 256" using unsigned_less [of b] by simp
  then show ?thesis by simp
qed

lemma below_8: "n < 8 \<Longrightarrow> n = 0 \<or> n = 1 \<or> n = 2 \<or> n = 3 \<or> n = 4 \<or> n = 5 \<or> n = 6 \<or> n = (7 :: nat)"
  by arith

lemma pixrev_unfold:
  "pixrev 1 b = push_bit 7 (take_bit 1 b) OR push_bit 6 (take_bit 1 (drop_bit 1 b)) OR push_bit 5 (take_bit 1 (drop_bit 2 b)) OR
     push_bit 4 (take_bit 1 (drop_bit 3 b)) OR push_bit 3 (take_bit 1 (drop_bit 4 b)) OR push_bit 2 (take_bit 1 (drop_bit 5 b)) OR
     push_bit 1 (take_bit 1 (drop_bit 6 b)) OR take_bit 1 (drop_bit 7 b)"
  "pixrev 2 b = push_bit 6 (take_bit 2 b) OR push_bit 4 (take_bit 2 (drop_bit 2 b)) OR push_bit 2 (take_bit 2 (drop_bit 4 b)) OR
     take_bit 2 (drop_bit 6 b)"
  "pixrev 4 b = push_bit 4 (take_bit 4 b) OR take_bit 4 (drop_bit 4 b)"
proof -
  have u: "[0..<8] = [0, 1, 2, 3, 4, 5, 6, 7 :: nat]" "[0..<4] = [0, 1, 2, 3 :: nat]" "[0..<2] = [0, 1 :: nat]"
    by (simp_all add: upt_rec)
  show "pixrev 1 b = push_bit 7 (take_bit 1 b) OR push_bit 6 (take_bit 1 (drop_bit 1 b)) OR push_bit 5 (take_bit 1 (drop_bit 2 b)) OR
     push_bit 4 (take_bit 1 (drop_bit 3 b)) OR push_bit 3 (take_bit 1 (drop_bit 4 b)) OR push_bit 2 (take_bit 1 (drop_bit 5 b)) OR
     push_bit 1 (take_bit 1 (drop_bit 6 b)) OR take_bit 1 (drop_bit 7 b)"
    by (simp add: pixrev_def u del: upt_Suc)
  show "pixrev 2 b = push_bit 6 (take_bit 2 b) OR push_bit 4 (take_bit 2 (drop_bit 2 b)) OR push_bit 2 (take_bit 2 (drop_bit 4 b)) OR
     take_bit 2 (drop_bit 6 b)" by (simp add: pixrev_def u del: upt_Suc)
  show "pixrev 4 b = push_bit 4 (take_bit 4 b) OR take_bit 4 (drop_bit 4 b)" by (simp add: pixrev_def u del: upt_Suc)
qed

lemma bit_pixrev:
  "n < 8 \<Longrightarrow> bit (pixrev 1 b) n = bit b (7 - n)"
  "n < 8 \<Longrightarrow> bit (pixrev 2 b) n = bit b (6 - 2 * (n div 2) + n mod 2)"
  "n < 8 \<Longrightarrow> bit (pixrev 4 b) n = bit b (if n < 4 then n + 4 else n - 4)"
proof -
  assume n: "n < 8"
  show "bit (pixrev 1 b) n = bit b (7 - n)"
    unfolding pixrev_unfold bit_or_iff bit_push_bit_iff bit_take_bit_iff bit_drop_bit_eq o_def
    using below_8 [OF n] by (elim disjE) simp_all
  show "bit (pixrev 2 b) n = bit b (6 - 2 * (n div 2) + n mod 2)"
    unfolding pixrev_unfold bit_or_iff bit_push_bit_iff bit_take_bit_iff bit_drop_bit_eq o_def
    using below_8 [OF n] by (elim disjE) simp_all
  show "bit (pixrev 4 b) n = bit b (if n < 4 then n + 4 else n - 4)"
    unfolding pixrev_unfold bit_or_iff bit_push_bit_iff bit_take_bit_iff bit_drop_bit_eq o_def
    using below_8 [OF n] by (elim disjE) simp_all
qed

lemma pixrev_twice: "d \<in> {1, 2, 4} \<Longrightarrow> pixrev d (pixrev d b) = b"
proof (rule bit_word_eqI)
  fix n assume d: "d \<in> {1, 2, 4}" and "n < LENGTH(8)"
  then have n: "n < 8" by simp
  consider "d = 1" | "d = 2" | "d = 4" using d by blast
  then show "bit (pixrev d (pixrev d b)) n \<longleftrightarrow> bit b n"
  proof cases
    case 1
    then show ?thesis using n by (simp add: bit_pixrev(1) del: One_nat_def)
  next
    case 2
    then show ?thesis using below_8 [OF n] by (elim disjE) (simp_all add: bit_pixrev(2))
  next
    case 3
    then show ?thesis using below_8 [OF n] by (elim disjE) (simp_all add: bit_pixrev(3))
  qed
qed

subsection \<open>Properties\<close>

text \<open>C40. Removing the filler or alpha channel: on a row with room for the declared pixels,
  \<open>png_do_strip_filler\<close> stays inside the row and leaves at its front exactly the color samples of
  each pixel, in order, without the channel that came first or last; width and depth are kept and
  channels, row size and pixel depth are updated to match.\<close>

theorem strip_filler_removes_channel:
  assumes "channels ri = 2 \<or> channels ri = 4" "bit_depth ri = 8 \<or> bit_depth ri = 16"
    "s = (if bit_depth ri = 8 then 1 else 2)" "c = unat (channels ri)" "w = unat (width ri)"
    "w * (c * s) \<le> length row" "lead = (if flgs AND PNG_FLAG_FILLER_AFTER H \<noteq> 0 then 0 else s)"
  shows "\<exists>ri' row'. png_do_strip_filler H ri row flgs = Inr (ri', row') \<and> length row' = length row \<and>
    take (w * ((c - 1) * s)) row' = strip_ref (c * s) lead ((c - 1) * s) row [0..<w] \<and>
    width ri' = width ri \<and> bit_depth ri' = bit_depth ri \<and> unat (channels ri') = c - 1 \<and>
    rowbytes ri' = width ri * of_nat ((c - 1) * s) \<and> unat (pixel_depth ri') = 8 * ((c - 1) * s)"
proof -
  have front: "\<exists>row'. strip_loop l n t w 0 0 row = Inr row' \<and> length row' = length row \<and>
      take (w * n) row' = strip_ref px l n row [0..<w]" if "px = l + n + t" "w * px \<le> length row" for px l n t
    using strip_loop_spec [of px l n t 0 w row] that by simp
  have rest: "\<exists>row'. strip_loop 0 n t (w - 1) (n + t) n row = Inr row' \<and> length row' = length row \<and>
      take (w * n) row' = strip_ref (n + t) 0 n row [0..<w]" if "w * (n + t) \<le> length row" for n t
  proof (cases w)
    case 0
    then show ?thesis by (simp add: strip_ref_def)
  next
    case (Suc v)
    have "[0..<w] = 0 # [1..<w]" using Suc by (simp add: upt_conv_Cons del: upt_Suc)
    moreover have "take n row = mem_read 0 n row" by (simp add: mem_read_def)
    ultimately show ?thesis
      using strip_loop_spec [of "n + t" 0 n t 1 v row] that Suc by (simp add: strip_ref_def del: upt_Suc)
  qed
  consider "channels ri = 4" "bit_depth ri = 8" | "channels ri = 4" "bit_depth ri = 16"
    | "channels ri = 2" "bit_depth ri = 8" | "channels ri = 2" "bit_depth ri = 16"
    using assms(1,2) by blast
  then show ?thesis
  proof cases
    case 1
    then have k: "c = 4" "s = 1" using assms(3,4) by simp_all
    show ?thesis
      using 1 k front [of 4 1 3 0] rest [of 3 1] assms(5-7)
      by (cases "flgs AND PNG_FLAG_FILLER_AFTER H = 0") (auto simp: png_do_strip_filler_def Let_def)
  next
    case 2
    then have k: "c = 4" "s = 2" using assms(3,4) by simp_all
    show ?thesis
      using 2 k front [of 8 2 6 0] rest [of 6 2] assms(5-7)
      by (cases "flgs AND PNG_FLAG_FILLER_AFTER H = 0") (auto simp: png_do_strip_filler_def Let_def)
  next
    case 3
    then have k: "c = 2" "s = 1" using assms(3,4) by simp_all
    show ?thesis
      using 3 k front [of 2 1 1 0] front [of 2 0 1 1] assms(5-7)
      by (cases "flgs AND PNG_FLAG_FILLER_AFTER H = 0") (auto simp: png_do_strip_filler_def Let_def)
  next
    case 4
    then have k: "c = 2" "s = 2" using assms(3,4) by simp_all
    show ?thesis
      using 4 k front [of 4 2 2 0] rest [of 2 2] assms(5-7)
      by (cases "flgs AND PNG_FLAG_FILLER_AFTER H = 0") (auto simp: png_do_strip_filler_def Let_def)
  qed
qed

text \<open>The values of png.h for the concrete instances.\<close>

definition demo_h :: png_h where
  "demo_h = \<lparr>PNG_BGR = 1, PNG_INTERLACE = 2, PNG_PACK = 4, PNG_SHIFT = 8, PNG_SWAP_BYTES = 16,
     PNG_INVERT_MONO = 32, PNG_FILLER = 0x8000, PNG_PACKSWAP = 0x10000, PNG_SWAP_ALPHA = 0x20000,
     PNG_INVERT_ALPHA = 0x80000, PNG_FILLER_AFTER = 1, PNG_FLAG_FILLER_AFTER = 0x80, PNG_COLOR_TYPE_GRAY = 0,
     PNG_COLOR_TYPE_RGB = 2, PNG_COLOR_TYPE_RGB_ALPHA = 6, PNG_COLOR_MASK_COLOR = 2, PNG_COLOR_MASK_ALPHA = 4\<rparr>"

definition demo_row :: "byte \<Rightarrow> byte \<Rightarrow> byte \<Rightarrow> 32 word \<Rightarrow> 32 word \<Rightarrow> row_info" where
  "demo_row ct bd ch w rb = \<lparr>width = w, rowbytes = rb, color_type = ct, bit_depth = bd, channels = ch, pixel_depth = ch * bd\<rparr>"

theorem strip_filler_removes_channel_witness:
  "\<exists>ri' row'. png_do_strip_filler demo_h (demo_row 6 8 4 2 8) [1, 2, 3, 255, 4, 5, 6, 254] 0x80 = Inr (ri', row') \<and>
    take 6 row' = [1, 2, 3, 4, 5, 6] \<and> unat (channels ri') = 3"
proof -
  have ref: "strip_ref 4 0 3 [1, 2, 3, 255, 4, 5, 6, 254] [0..<2] = [1, 2, 3, 4, 5, 6]"
    by (simp add: strip_ref_def mem_read_def upt_rec)
  have h: "channels (demo_row 6 8 4 2 8) = 4" "bit_depth (demo_row 6 8 4 2 8) = 8" "width (demo_row 6 8 4 2 8) = 2"
    "0x80 AND PNG_FLAG_FILLER_AFTER demo_h \<noteq> 0" by (simp_all add: demo_row_def demo_h_def)
  have "\<exists>ri' row'. png_do_strip_filler demo_h (demo_row 6 8 4 2 8) [1, 2, 3, 255, 4, 5, 6, 254] 0x80 = Inr (ri', row') \<and>
      length row' = length [1, 2, 3, 255, 4, 5, 6, 254 :: byte] \<and>
      take (2 * ((4 - 1) * 1)) row' = strip_ref (4 * 1) 0 ((4 - 1) * 1) [1, 2, 3, 255, 4, 5, 6, 254] [0..<2] \<and>
      width ri' = width (demo_row 6 8 4 2 8) \<and> bit_depth ri' = bit_depth (demo_row 6 8 4 2 8) \<and> unat (channels ri') = 4 - 1 \<and>
      rowbytes ri' = width (demo_row 6 8 4 2 8) * of_nat ((4 - 1) * 1) \<and> unat (pixel_depth ri') = 8 * ((4 - 1) * 1)"
    by (rule strip_filler_removes_channel) (use h in simp_all)
  then show ?thesis using ref by (elim exE conjE) (simp del: take_Suc_Cons)
qed

text \<open>Byte swapping of 16-bit samples exchanges the two bytes of every sample of the row, touches
  nothing else, stays inside a row of the declared size, and doing it twice restores the row.\<close>

lemma do_swap_exchanges_bytes:
  assumes "bit_depth ri = 16" "2 * unat (width ri * ucast (channels ri)) \<le> length row"
  shows "\<exists>row'. png_do_swap ri row = Inr row' \<and> length row' = length row \<and> png_do_swap ri row' = Inr row \<and>
    (\<forall>k<length row. row' ! k = row ! (if k < 2 * unat (width ri * ucast (channels ri))
       then (if even k then k + 1 else k - 1) else k))"
proof -
  let ?m = "unat (width ri * ucast (channels ri))"
  have s: "png_do_swap ri r = Inr (pixperm 2 (swap_at 0 1) ?m r)" if "2 * ?m \<le> length r" for r
    using do_swap_loop [OF that] assms(1) by (simp add: png_do_swap_def)
  have inv: "pixperm 2 (swap_at 0 1) ?m (pixperm 2 (swap_at 0 1) ?m row) = row"
    using assms(2) by (intro pixperm_involution) (auto simp: swap_at_def)
  have idx: "2 * (k div 2) + swap_at 0 1 (k mod 2) = (if even k then k + 1 else k - 1)" for k :: nat
    by (cases "even k") (auto simp: swap_at_def elim!: evenE oddE)
  show ?thesis using s [OF assms(2)] s [of "pixperm 2 (swap_at 0 1) ?m row"] assms(2) inv idx by auto
qed

text \<open>Exchanging red and blue: for every color row of the declared size \<open>png_do_bgr\<close> stays inside
  the row, exchanges the first and the third sample of each pixel and nothing else, and doing it
  twice restores the row.\<close>

lemma do_bgr_exchanges_red_blue:
  assumes "color_type ri AND PNG_COLOR_MASK_COLOR H \<noteq> 0" "bit_depth ri = 8 \<or> bit_depth ri = 16"
    "color_type ri = PNG_COLOR_TYPE_RGB H \<or> color_type ri = PNG_COLOR_TYPE_RGB_ALPHA H"
    "c = (if color_type ri = PNG_COLOR_TYPE_RGB H then 3 else 4)" "s = (if bit_depth ri = 8 then 1 else 2)"
    "c * s * unat (width ri) \<le> length row"
  shows "png_do_bgr H ri row = Inr (pixperm (c * s) (bgr_perm (bit_depth ri = 16)) (unat (width ri)) row) \<and>
    png_do_bgr H ri (pixperm (c * s) (bgr_perm (bit_depth ri = 16)) (unat (width ri)) row) = Inr row"
proof -
  let ?two = "bit_depth ri = 16" and ?w = "unat (width ri)"
  have px: "if ?two then 6 \<le> c * s else 3 \<le> c * s" using assms(2,4,5) by auto
  have b: "png_do_bgr H ri r = Inr (pixperm (c * s) (bgr_perm ?two) ?w r)" if "c * s * ?w \<le> length r" for r
    using bgr_loop_eq [OF px that] assms(1-5) by (auto simp: png_do_bgr_def)
  have "pixperm (c * s) (bgr_perm ?two) ?w (pixperm (c * s) (bgr_perm ?two) ?w row) = row"
    using assms(6) by (intro pixperm_involution bgr_perm_involution px)
  then show ?thesis using b [OF assms(6)] b [of "pixperm (c * s) (bgr_perm ?two) ?w row"] assms(6) by simp
qed

text \<open>The three lookup tables are right: \<open>png_do_packswap\<close> replaces every byte of the row by the
  byte with its pixels in reverse order, for pixels of 1, 2 and 4 bits, and doing it twice
  restores the row.\<close>

lemma packswap_reverses_pixels:
  assumes "bit_depth ri = of_nat d" "d \<in> {1, 2, 4}" "unat (rowbytes ri) \<le> length row"
  shows "png_do_packswap ri row = Inr (map (pixrev d) (take (unat (rowbytes ri)) row) @ drop (unat (rowbytes ri)) row) \<and>
    png_do_packswap ri (map (pixrev d) (take (unat (rowbytes ri)) row) @ drop (unat (rowbytes ri)) row) = Inr row"
proof -
  let ?n = "unat (rowbytes ri)"
  have p: "png_do_packswap ri r = Inr (map (pixrev d) (take ?n r) @ drop ?n r)" if "?n \<le> length r" for r
    using assms(1,2) bytewise_map [OF that, of "pixrev d"]
    by (auto simp: png_do_packswap_def swap_tables table_at Let_def)
  have "map (pixrev d) (map (pixrev d) xs) = xs" for xs
    using pixrev_twice [OF assms(2)] by (simp add: map_idI)
  then show ?thesis
    using p [OF assms(3)] p [of "map (pixrev d) (take ?n row) @ drop ?n row"] assms(3) by simp
qed

end
