(* ===== verification/Sched_Load.thy ===== *)
theory Sched_Load
  imports Prelude "HOL-Library.Signed_Division"
begin

unbundle bit_operations_syntax

text \<open>
  The load accounting of the Linux scheduler (\<open>linux/kernel/sched/proc.c\<close>).

  \<^item> \<open>rq\<close> is the part of a run queue the file works on, \<open>sched\<close> the global variables with one run
    queue per cpu. \<open>unsigned long\<close> and \<open>long\<close> are 64-bit words; arithmetic wraps.
  \<^item> \<open>kernel\<close> holds what the headers supply: the fixed point constants, \<open>LOAD_FREQ\<close>, \<open>time_before\<close>,
    the configuration, and \<open>sched_avg_update\<close>.
  \<^item> Operations: \<open>calc_load\<close>, \<open>fixed_power_int\<close>, \<open>calc_load_n\<close>, the idle counters, \<open>calc_global_load\<close>,
    \<open>calc_load_account_active\<close>, \<open>decay_load_missed\<close>, \<open>update_cpu_load\<close> and its three callers.
  \<^item> Properties: the distributed count of active tasks is exact whatever the order of the events
    (an invariant of the step relation \<open>sched_step\<close>); the averages are convex combinations; the power
    by squaring has an error of at most \<open>n / 2\<close> units; a global update always catches up with the
    clock; per-cpu loads move monotonically towards the current load.
\<close>

subsection \<open>State\<close>

type_synonym ulong = "64 word"
type_synonym uint = "32 word"

record rq =
  nr_running :: ulong
  nr_uninterruptible :: ulong
  calc_load_active :: ulong
  rq_calc_load_update :: ulong
  cpu_load :: "ulong list"
  nr_load_updates :: ulong
  last_load_update_tick :: ulong
  runnable_load_avg :: ulong
  load_weight :: ulong

record sched =
  calc_load_tasks :: ulong
  calc_load_update :: ulong
  avenrun :: "ulong list"
  calc_load_idle :: "ulong list"
  calc_load_idx :: uint
  jiffies :: ulong
  rqs :: "nat \<Rightarrow> rq"

record kernel =
  FSHIFT :: nat
  FIXED_1 :: ulong
  EXP_1 :: ulong
  EXP_5 :: ulong
  EXP_15 :: ulong
  LOAD_FREQ :: ulong
  CPU_LOAD_IDX_MAX :: nat
  CONFIG_NO_HZ_COMMON :: bool
  CONFIG_SMP :: bool
  time_before :: "ulong \<Rightarrow> ulong \<Rightarrow> bool"
  sched_avg_update :: "rq \<Rightarrow> rq"

definition this_cpu_load :: "rq \<Rightarrow> ulong cres" where
  "this_cpu_load r = (if 0 < length (cpu_load r) then Inr (cpu_load r ! 0) else Inl OutOfBounds)"

subsection \<open>Load averages\<close>

definition get_avenrun :: "sched \<Rightarrow> ulong \<Rightarrow> nat \<Rightarrow> ulong list" where
  "get_avenrun s offset shift = map (\<lambda>i. push_bit shift (avenrun s ! i + offset)) [0, 1, 2]"

definition calc_load_fold_active :: "rq \<Rightarrow> ulong \<times> rq" where
  "calc_load_fold_active r =
     (let nr_active = nr_running r + nr_uninterruptible r
      in if nr_active \<noteq> calc_load_active r
         then (nr_active - calc_load_active r, r\<lparr>calc_load_active := nr_active\<rparr>) else (0, r))"

definition calc_load :: "kernel \<Rightarrow> ulong \<Rightarrow> ulong \<Rightarrow> ulong \<Rightarrow> ulong" where
  "calc_load K ld ex active =
     drop_bit (FSHIFT K) (ld * ex + active * (FIXED_1 K - ex) + push_bit (FSHIFT K - 1) 1)"

subsection \<open>Tickless idle\<close>

definition calc_load_write_idx :: "kernel \<Rightarrow> sched \<Rightarrow> nat" where
  "calc_load_write_idx K s =
     unat ((if \<not> time_before K (jiffies s) (calc_load_update s) then calc_load_idx s + 1 else calc_load_idx s) AND 1)"

definition calc_load_read_idx :: "sched \<Rightarrow> nat" where
  "calc_load_read_idx s = unat (calc_load_idx s AND 1)"

definition calc_load_enter_idle :: "kernel \<Rightarrow> nat \<Rightarrow> sched \<Rightarrow> sched" where
  "calc_load_enter_idle K cpu s =
     (let (delta, r) = calc_load_fold_active (rqs s cpu);
          s1 = s\<lparr>rqs := (rqs s)(cpu := r)\<rparr>
      in if delta \<noteq> 0
         then let i = calc_load_write_idx K s1
              in s1\<lparr>calc_load_idle := (calc_load_idle s1)[i := calc_load_idle s1 ! i + delta]\<rparr>
         else s1)"

definition calc_load_exit_idle :: "kernel \<Rightarrow> nat \<Rightarrow> sched \<Rightarrow> sched" where
  "calc_load_exit_idle K cpu s =
     (let r = rqs s cpu
      in if time_before K (jiffies s) (rq_calc_load_update r) then s
         else let r1 = r\<lparr>rq_calc_load_update := calc_load_update s\<rparr>;
                  r2 = (if time_before K (jiffies s) (rq_calc_load_update r1 + 10)
                        then r1\<lparr>rq_calc_load_update := rq_calc_load_update r1 + LOAD_FREQ K\<rparr> else r1)
              in s\<lparr>rqs := (rqs s)(cpu := r2)\<rparr>)"

definition calc_load_fold_idle :: "kernel \<Rightarrow> sched \<Rightarrow> ulong \<times> sched" where
  "calc_load_fold_idle K s =
     (if CONFIG_NO_HZ_COMMON K
      then let i = calc_load_read_idx s
           in if calc_load_idle s ! i \<noteq> 0
              then (calc_load_idle s ! i, s\<lparr>calc_load_idle := (calc_load_idle s)[i := 0]\<rparr>) else (0, s)
      else (0, s))"

text \<open>The rounded fixed point product, the three statements the loop repeats, and the loop.\<close>

definition fixed_mult :: "nat \<Rightarrow> ulong \<Rightarrow> ulong \<Rightarrow> ulong" where
  "fixed_mult frac_bits a b = drop_bit frac_bits (a * b + push_bit (frac_bits - 1) 1)"

function fixed_power_loop :: "nat \<Rightarrow> ulong \<Rightarrow> ulong \<Rightarrow> uint \<Rightarrow> ulong" where
  "fixed_power_loop frac_bits result x n =
     (let result = (if n AND 1 \<noteq> 0 then fixed_mult frac_bits result x else result);
          n' = drop_bit 1 n
      in if n' = 0 then result else fixed_power_loop frac_bits result (fixed_mult frac_bits x x) n')"
  by pat_completeness auto

lemma unat_drop_bit_1: "unat (drop_bit 1 n) = unat n div 2"
  by (metis drop_bit_eq_div power_one_right unat_drop_bit_eq)

termination fixed_power_loop
proof (relation "measure (\<lambda>(f, r, x, n). unat n)")
  fix frac_bits :: nat and result x :: ulong and n xa :: uint and res :: ulong
  assume "xa = drop_bit 1 n" "xa \<noteq> 0"
  moreover from this have "unat n \<noteq> 0" by (metis drop_bit_of_0 unat_eq_0)
  ultimately show "((frac_bits, res, fixed_mult frac_bits x x, xa), frac_bits, result, x, n) \<in> measure (\<lambda>(f, r, x, n). unat n)"
    by (simp add: unat_drop_bit_1 del: One_nat_def)
qed simp

definition fixed_power_int :: "ulong \<Rightarrow> nat \<Rightarrow> uint \<Rightarrow> ulong" where
  "fixed_power_int x frac_bits n =
     (let result = push_bit frac_bits 1 in if n \<noteq> 0 then fixed_power_loop frac_bits result x n else result)"

definition calc_load_n :: "kernel \<Rightarrow> ulong \<Rightarrow> ulong \<Rightarrow> ulong \<Rightarrow> uint \<Rightarrow> ulong" where
  "calc_load_n K ld ex active n = calc_load K ld (fixed_power_int ex (FSHIFT K) n) active"

text \<open>\<open>active > 0 ? active * FIXED_1 : 0\<close> with \<open>active\<close> a signed \<open>long\<close>.\<close>

definition active_fixed :: "kernel \<Rightarrow> sched \<Rightarrow> ulong" where
  "active_fixed K s = (if 0 <s calc_load_tasks s then calc_load_tasks s * FIXED_1 K else 0)"

definition calc_global_nohz :: "kernel \<Rightarrow> sched \<Rightarrow> sched" where
  "calc_global_nohz K s =
     (if CONFIG_NO_HZ_COMMON K
      then let s1 =
             (if \<not> time_before K (jiffies s) (calc_load_update s + 10)
              then let delta = jiffies s - calc_load_update s - 10;
                       n = 1 + word_of_int (sint delta sdiv sint (LOAD_FREQ K));
                       active = active_fixed K s;
                       a = avenrun s
                   in s\<lparr>avenrun := [calc_load_n K (a ! 0) (EXP_1 K) active (ucast n),
                                    calc_load_n K (a ! 1) (EXP_5 K) active (ucast n),
                                    calc_load_n K (a ! 2) (EXP_15 K) active (ucast n)],
                        calc_load_update := calc_load_update s + n * LOAD_FREQ K\<rparr>
              else s)
           in s1\<lparr>calc_load_idx := calc_load_idx s1 + 1\<rparr>
      else s)"

definition calc_global_load :: "kernel \<Rightarrow> sched \<Rightarrow> sched" where
  "calc_global_load K s =
     (if time_before K (jiffies s) (calc_load_update s + 10) then s
      else let (delta, s1) = calc_load_fold_idle K s;
               s2 = (if delta \<noteq> 0 then s1\<lparr>calc_load_tasks := calc_load_tasks s1 + delta\<rparr> else s1);
               active = active_fixed K s2;
               a = avenrun s2;
               s3 = s2\<lparr>avenrun := [calc_load K (a ! 0) (EXP_1 K) active, calc_load K (a ! 1) (EXP_5 K) active,
                                   calc_load K (a ! 2) (EXP_15 K) active],
                       calc_load_update := calc_load_update s2 + LOAD_FREQ K\<rparr>
           in calc_global_nohz K s3)"

definition calc_load_account_active :: "kernel \<Rightarrow> nat \<Rightarrow> sched \<Rightarrow> sched" where
  "calc_load_account_active K cpu s =
     (if time_before K (jiffies s) (rq_calc_load_update (rqs s cpu)) then s
      else let (delta, r) = calc_load_fold_active (rqs s cpu);
               s1 = s\<lparr>rqs := (rqs s)(cpu := r\<lparr>rq_calc_load_update := rq_calc_load_update r + LOAD_FREQ K\<rparr>)\<rparr>
           in if delta \<noteq> 0 then s1\<lparr>calc_load_tasks := calc_load_tasks s1 + delta\<rparr> else s1)"

subsection \<open>Per-cpu loads\<close>

definition DEGRADE_SHIFT :: nat where
  "DEGRADE_SHIFT = 7"

definition degrade_zero_ticks :: "byte list" where
  "degrade_zero_ticks = [0, 8, 32, 64, 128]"

definition degrade_factor :: "byte list list" where
  "degrade_factor =
     [[0, 0, 0, 0, 0, 0, 0, 0],
      [64, 32, 8, 0, 0, 0, 0, 0],
      [96, 72, 40, 12, 1, 0, 0, 0],
      [112, 98, 75, 43, 15, 1, 0, 0],
      [120, 112, 98, 76, 45, 16, 2, 0]]"

text \<open>The \<open>while\<close> loop of \<open>decay_load_missed\<close>; a column beyond the table is an error.\<close>

function decay_loop :: "nat \<Rightarrow> ulong \<Rightarrow> nat \<Rightarrow> ulong \<Rightarrow> ulong cres" where
  "decay_loop idx missed j ld =
     (if missed = 0 then Inr ld
      else ebind (if missed AND 1 \<noteq> 0
                  then if j < length (degrade_factor ! idx)
                       then Inr (drop_bit DEGRADE_SHIFT (ld * ucast (degrade_factor ! idx ! j))) else Inl OutOfBounds
                  else Inr ld)
             (\<lambda>ld. decay_loop idx (drop_bit 1 missed) (j + 1) ld))"
  by pat_completeness auto

termination decay_loop
proof (relation "measure (\<lambda>(idx, missed, j, ld). unat missed)")
  fix idx j :: nat and missed ld ld' :: ulong
  assume "missed \<noteq> 0"
  then have "unat missed \<noteq> 0" by (simp add: unat_eq_0)
  then show "((idx, drop_bit 1 missed, j + 1, ld'), idx, missed, j, ld) \<in> measure (\<lambda>(idx, missed, j, ld). unat missed)"
    by (simp add: unat_drop_bit_1 del: One_nat_def)
qed simp

declare fixed_power_loop.simps [simp del] decay_loop.simps [simp del]

definition decay_load_missed :: "ulong \<Rightarrow> ulong \<Rightarrow> nat \<Rightarrow> ulong cres" where
  "decay_load_missed ld missed idx =
     (if missed = 0 then Inr ld
      else if idx \<ge> length degrade_zero_ticks then Inl OutOfBounds
      else if missed \<ge> ucast (degrade_zero_ticks ! idx) then Inr 0
      else if idx = 1 then Inr (drop_bit (unat missed) ld)
      else decay_loop idx missed 0 ld)"

text \<open>One round of the loop of \<open>__update_cpu_load\<close>; \<open>scale\<close> is \<open>2 ^ i\<close>, doubled in each round.\<close>

definition update_one :: "ulong \<Rightarrow> ulong \<Rightarrow> nat \<Rightarrow> rq \<Rightarrow> rq cres" where
  "update_one this_load pending i r =
     (if i < length (cpu_load r)
      then ebind (decay_load_missed (cpu_load r ! i) (pending - 1) i) (\<lambda>old_load.
        let scale = 2 ^ i;
            new_load = (if old_load < this_load then this_load + (scale - 1) else this_load)
        in Inr (r\<lparr>cpu_load := (cpu_load r)[i := drop_bit i (old_load * (scale - 1) + new_load)]\<rparr>))
      else Inl OutOfBounds)"

definition update_cpu_load :: "kernel \<Rightarrow> rq \<Rightarrow> ulong \<Rightarrow> ulong \<Rightarrow> rq cres" where
  "update_cpu_load K r this_load pending =
     (if cpu_load r = [] then Inl OutOfBounds
      else let r1 = r\<lparr>nr_load_updates := nr_load_updates r + 1, cpu_load := (cpu_load r)[0 := this_load]\<rparr>
           in ebind (efold (update_one this_load pending) [1..<CPU_LOAD_IDX_MAX K] r1) (\<lambda>r2. Inr (sched_avg_update K r2)))"

definition get_rq_runnable_load :: "kernel \<Rightarrow> rq \<Rightarrow> ulong" where
  "get_rq_runnable_load K r = (if CONFIG_SMP K then runnable_load_avg r else load_weight r)"

definition update_idle_cpu_load :: "kernel \<Rightarrow> nat \<Rightarrow> sched \<Rightarrow> sched cres" where
  "update_idle_cpu_load K cpu s =
     (let r = rqs s cpu; curr_jiffies = jiffies s; ld = get_rq_runnable_load K r
      in if ld \<noteq> 0 \<or> curr_jiffies = last_load_update_tick r then Inr s
         else let pending = curr_jiffies - last_load_update_tick r
              in ebind (update_cpu_load K (r\<lparr>last_load_update_tick := curr_jiffies\<rparr>) ld pending)
                   (\<lambda>r'. Inr (s\<lparr>rqs := (rqs s)(cpu := r')\<rparr>)))"

definition update_cpu_load_nohz :: "kernel \<Rightarrow> nat \<Rightarrow> sched \<Rightarrow> sched cres" where
  "update_cpu_load_nohz K cpu s =
     (let r = rqs s cpu; curr_jiffies = jiffies s
      in if curr_jiffies = last_load_update_tick r then Inr s
         else let pending = curr_jiffies - last_load_update_tick r
              in if pending \<noteq> 0
                 then ebind (update_cpu_load K (r\<lparr>last_load_update_tick := curr_jiffies\<rparr>) 0 pending)
                        (\<lambda>r'. Inr (s\<lparr>rqs := (rqs s)(cpu := r')\<rparr>))
                 else Inr s)"

definition update_cpu_load_active :: "kernel \<Rightarrow> nat \<Rightarrow> sched \<Rightarrow> sched cres" where
  "update_cpu_load_active K cpu s =
     (let r = rqs s cpu; ld = get_rq_runnable_load K r
      in ebind (update_cpu_load K (r\<lparr>last_load_update_tick := jiffies s\<rparr>) ld 1) (\<lambda>r'.
           Inr (calc_load_account_active K cpu (s\<lparr>rqs := (rqs s)(cpu := r')\<rparr>))))"

subsection \<open>The events of a machine\<close>

text \<open>
  \<open>sched_step K C\<close>: one event on a machine with the cpus \<open>C\<close>. Besides the operations of the file,
  tasks start, stop and change state on any cpu (\<open>tasks\<close>), and time passes (\<open>clock\<close>).
\<close>

inductive sched_step :: "kernel \<Rightarrow> nat set \<Rightarrow> sched \<Rightarrow> sched \<Rightarrow> bool" for K C where
  tick: "cpu \<in> C \<Longrightarrow> update_cpu_load_active K cpu s = Inr s' \<Longrightarrow> sched_step K C s s'"
| enter_idle: "cpu \<in> C \<Longrightarrow> sched_step K C s (calc_load_enter_idle K cpu s)"
| exit_idle: "cpu \<in> C \<Longrightarrow> sched_step K C s (calc_load_exit_idle K cpu s)"
| global_load: "sched_step K C s (calc_global_load K s)"
| idle_load: "cpu \<in> C \<Longrightarrow> update_idle_cpu_load K cpu s = Inr s' \<Longrightarrow> sched_step K C s s'"
| load_nohz: "cpu \<in> C \<Longrightarrow> update_cpu_load_nohz K cpu s = Inr s' \<Longrightarrow> sched_step K C s s'"
| tasks: "cpu \<in> C \<Longrightarrow>
    sched_step K C s (s\<lparr>rqs := (rqs s)(cpu := (rqs s cpu)\<lparr>nr_running := a, nr_uninterruptible := b,
      runnable_load_avg := c, load_weight := d\<rparr>)\<rparr>)"
| clock: "sched_step K C s (s\<lparr>jiffies := j\<rparr>)"

inductive_cases sched_stepE: "sched_step K C s s'"

definition rq_active :: "rq \<Rightarrow> ulong" where
  "rq_active r = nr_running r + nr_uninterruptible r"

definition active_counted :: "nat set \<Rightarrow> sched \<Rightarrow> bool" where
  "active_counted C s \<longleftrightarrow> length (calc_load_idle s) = 2 \<and>
     calc_load_tasks s + calc_load_idle s ! 0 + calc_load_idle s ! 1 = (\<Sum>c\<in>C. calc_load_active (rqs s c))"

definition sched_start :: "nat set \<Rightarrow> sched \<Rightarrow> bool" where
  "sched_start C s \<longleftrightarrow> calc_load_tasks s = 0 \<and> calc_load_idle s = [0, 0] \<and> (\<forall>c\<in>C. calc_load_active (rqs s c) = 0)"

subsection \<open>Lemmas: conservation\<close>

lemma sum_upd:
  fixes f :: "'r \<Rightarrow> 'm :: ab_group_add"
  assumes "finite C" "cpu \<in> C"
  shows "(\<Sum>c\<in>C. f ((g(cpu := r)) c)) = (\<Sum>c\<in>C. f (g c)) + (f r - f (g cpu))"
proof -
  have "(\<Sum>c\<in>C - {cpu}. f ((g(cpu := r)) c)) = (\<Sum>c\<in>C - {cpu}. f (g c))" by (rule sum.cong) auto
  then show ?thesis using assms by (simp add: sum.remove [of C cpu])
qed

lemma fold_active_eq:
  "calc_load_fold_active r = (rq_active r - calc_load_active r, r\<lparr>calc_load_active := rq_active r\<rparr>)"
  by (cases r) (simp add: calc_load_fold_active_def rq_active_def Let_def)

lemma and_one_odd: "unat (x AND 1) = of_bool (odd x)" for x :: "'a :: len word"
  by (simp add: and_one_eq odd_iff_mod_2_eq_one)

lemma read_idx_less: "calc_load_read_idx s < 2"
  by (simp add: calc_load_read_idx_def and_one_odd)

lemma write_idx:
  "calc_load_write_idx K s = (if time_before K (jiffies s) (calc_load_update s) then calc_load_read_idx s else 1 - calc_load_read_idx s)"
  by (simp add: calc_load_write_idx_def calc_load_read_idx_def and_one_odd)

lemma write_idx_less: "calc_load_write_idx K s < 2"
  using read_idx_less [of s] by (auto simp: write_idx)

text \<open>Adding to one of the two idle counters adds to their sum.\<close>

lemma idle_add:
  fixes xs :: "ulong list"
  assumes "length xs = 2" "i < 2"
  shows "xs[i := x] ! 0 + xs[i := x] ! 1 = xs ! 0 + xs ! 1 + (x - xs ! i)"
  using assms by (auto simp: less_2_cases_iff)

lemma counted_fold:
  assumes "active_counted C s" "finite C" "cpu \<in> C" "calc_load_active r = calc_load_active (rqs s cpu) + delta"
  shows "active_counted C (s\<lparr>rqs := (rqs s)(cpu := r), calc_load_tasks := calc_load_tasks s + delta\<rparr>)"
    "i < 2 \<Longrightarrow> active_counted C (s\<lparr>rqs := (rqs s)(cpu := r), calc_load_idle := (calc_load_idle s)[i := calc_load_idle s ! i + delta]\<rparr>)"
proof -
  note sum = sum_upd [OF assms(2,3), of calc_load_active "rqs s" r]
  show "active_counted C (s\<lparr>rqs := (rqs s)(cpu := r), calc_load_tasks := calc_load_tasks s + delta\<rparr>)"
    using assms(1,4) unfolding active_counted_def by (simp add: sum algebra_simps del: fun_upd_apply)
  show "active_counted C (s\<lparr>rqs := (rqs s)(cpu := r), calc_load_idle := (calc_load_idle s)[i := calc_load_idle s ! i + delta]\<rparr>)" if "i < 2"
    using assms(1,4) idle_add [of "calc_load_idle s" i "calc_load_idle s ! i + delta"] that
    unfolding active_counted_def by (simp add: sum algebra_simps del: fun_upd_apply)
qed

lemma counted_same:
  assumes "active_counted C s" "calc_load_active r = calc_load_active (rqs s cpu)"
  shows "active_counted C (s\<lparr>rqs := (rqs s)(cpu := r)\<rparr>)"
proof -
  have "(\<Sum>c\<in>C. calc_load_active (((rqs s)(cpu := r)) c)) = (\<Sum>c\<in>C. calc_load_active (rqs s c))"
    using assms(2) by (intro sum.cong) auto
  then show ?thesis using assms(1) by (simp add: active_counted_def del: fun_upd_apply)
qed

lemma enter_idle_counted:
  assumes "active_counted C s" "finite C" "cpu \<in> C"
  shows "active_counted C (calc_load_enter_idle K cpu s)"
  using counted_fold(2) [OF assms, of "(rqs s cpu)\<lparr>calc_load_active := rq_active (rqs s cpu)\<rparr>"
      "rq_active (rqs s cpu) - calc_load_active (rqs s cpu)"] counted_same [OF assms(1)] write_idx_less assms(1)
  by (simp add: calc_load_enter_idle_def fold_active_eq Let_def)

lemma exit_idle_counted: "active_counted C s \<Longrightarrow> active_counted C (calc_load_exit_idle K cpu s)"
  using counted_same by (simp add: calc_load_exit_idle_def Let_def)

lemma account_active_counted:
  assumes "active_counted C s" "finite C" "cpu \<in> C"
  shows "active_counted C (calc_load_account_active K cpu s)"
  using counted_fold(1) [OF assms, of "(rqs s cpu)\<lparr>calc_load_active := rq_active (rqs s cpu),
        rq_calc_load_update := rq_calc_load_update (rqs s cpu) + LOAD_FREQ K\<rparr>"
      "rq_active (rqs s cpu) - calc_load_active (rqs s cpu)"] counted_same [OF assms(1)] assms(1)
  by (simp add: calc_load_account_active_def fold_active_eq Let_def)

lemma global_nohz_counted [simp]: "active_counted C (calc_global_nohz K s) = active_counted C s"
  by (simp add: active_counted_def calc_global_nohz_def Let_def)

lemma global_load_counted:
  assumes "active_counted C s"
  shows "active_counted C (calc_global_load K s)"
proof -
  obtain delta s1 where f: "calc_load_fold_idle K s = (delta, s1)" by fastforce
  have "active_counted C (s1\<lparr>calc_load_tasks := calc_load_tasks s1 + delta\<rparr>)"
    using f assms idle_add [of "calc_load_idle s" "calc_load_read_idx s" 0] read_idx_less [of s]
    by (auto simp: calc_load_fold_idle_def active_counted_def Let_def algebra_simps split: if_splits)
  moreover have "active_counted C (t\<lparr>avenrun := a, calc_load_update := u\<rparr>) = active_counted C t" for t a u
    by (simp add: active_counted_def)
  ultimately show ?thesis using f assms by (auto simp: calc_global_load_def Let_def)
qed

text \<open>The per-cpu loads do not touch the count.\<close>

definition keeps_active :: "kernel \<Rightarrow> bool" where
  "keeps_active K \<longleftrightarrow> (\<forall>r. calc_load_active (sched_avg_update K r) = calc_load_active r)"

lemma update_one_active: "update_one ld p i r = Inr r' \<Longrightarrow> calc_load_active r' = calc_load_active r"
  by (auto simp: update_one_def ebind_eq_Inr Let_def split: if_splits)

lemma update_loop_active: "efold (update_one ld p) is r = Inr r' \<Longrightarrow> calc_load_active r' = calc_load_active r"
  by (induction "is" arbitrary: r) (auto simp: ebind_eq_Inr dest: update_one_active)

lemma update_cpu_load_keeps:
  "keeps_active K \<Longrightarrow> update_cpu_load K r ld p = Inr r' \<Longrightarrow> calc_load_active r' = calc_load_active r"
  by (auto simp: update_cpu_load_def keeps_active_def ebind_eq_Inr Let_def dest: update_loop_active split: if_splits)

lemma step_counted:
  assumes "sched_step K C s s'" "finite C" "keeps_active K" "active_counted C s"
  shows "active_counted C s'"
  using assms(1)
proof cases
  case (tick cpu)
  then obtain r' where r': "update_cpu_load K ((rqs s cpu)\<lparr>last_load_update_tick := jiffies s\<rparr>) (get_rq_runnable_load K (rqs s cpu)) 1 = Inr r'"
    "s' = calc_load_account_active K cpu (s\<lparr>rqs := (rqs s)(cpu := r')\<rparr>)"
    by (auto simp: update_cpu_load_active_def ebind_eq_Inr Let_def)
  then have "active_counted C (s\<lparr>rqs := (rqs s)(cpu := r')\<rparr>)"
    using update_cpu_load_keeps [OF assms(3) r'(1)] by (intro counted_same assms(4)) simp
  then show ?thesis unfolding r'(2) using assms(2) tick(1) by (rule account_active_counted)
next
  case (enter_idle cpu)
  then show ?thesis using enter_idle_counted assms(2,4) by simp
next
  case (exit_idle cpu)
  then show ?thesis using exit_idle_counted assms(4) by simp
next
  case global_load
  then show ?thesis using global_load_counted assms(4) by simp
next
  case (idle_load cpu)
  then show ?thesis
    using assms(4) by (auto simp: update_idle_cpu_load_def ebind_eq_Inr Let_def split: if_splits
        intro!: counted_same dest: update_cpu_load_keeps [OF assms(3)])
next
  case (load_nohz cpu)
  then show ?thesis
    using assms(4) by (auto simp: update_cpu_load_nohz_def ebind_eq_Inr Let_def split: if_splits
        intro!: counted_same dest: update_cpu_load_keeps [OF assms(3)])
next
  case (tasks cpu a b c d)
  then show ?thesis using counted_same [OF assms(4)] by simp
next
  case (clock j)
  then show ?thesis using assms(4) by (simp add: active_counted_def)
qed

lemma reachable_counted:
  assumes "(sched_step K C)\<^sup>*\<^sup>* s0 s" "finite C" "keeps_active K" "active_counted C s0"
  shows "active_counted C s"
  using assms(1) by (induction rule: rtranclp_induct) (use assms(2-4) step_counted in blast)+

lemma start_counted: "sched_start C s \<Longrightarrow> active_counted C s"
  by (simp add: sched_start_def active_counted_def)

subsection \<open>Properties: counting the active tasks\<close>

text \<open>C37. The distributed count is exact: however ticks, idle entries and exits, global updates and
  task changes interleave on the cpus, the global count plus the two pending idle deltas is the sum of
  what the cpus have accounted; so once every cpu has accounted its present tasks and no delta is
  pending, \<open>calc_load_tasks\<close> is the number of running and uninterruptible tasks of the machine.\<close>

theorem active_count_conserved:
  assumes "sched_start C s0" "(sched_step K C)\<^sup>*\<^sup>* s0 s" "finite C" "keeps_active K"
  shows "calc_load_tasks s + calc_load_idle s ! 0 + calc_load_idle s ! 1 = (\<Sum>c\<in>C. calc_load_active (rqs s c)) \<and>
    (calc_load_idle s = [0, 0] \<and> (\<forall>c\<in>C. calc_load_active (rqs s c) = rq_active (rqs s c)) \<longrightarrow>
       calc_load_tasks s = (\<Sum>c\<in>C. rq_active (rqs s c)))"
proof -
  have "calc_load_tasks s + calc_load_idle s ! 0 + calc_load_idle s ! 1 = (\<Sum>c\<in>C. calc_load_active (rqs s c))"
    using reachable_counted [OF assms(2-4) start_counted [OF assms(1)]] by (simp add: active_counted_def)
  moreover from this have "calc_load_idle s = [0, 0] \<and> (\<forall>c\<in>C. calc_load_active (rqs s c) = rq_active (rqs s c)) \<longrightarrow>
       calc_load_tasks s = (\<Sum>c\<in>C. rq_active (rqs s c))" by (auto intro: sum.cong)
  ultimately show ?thesis by blast
qed

text \<open>A machine for the concrete instances: the constants of the headers with \<open>HZ = 100\<close>.\<close>

definition demo_kernel :: kernel where
  "demo_kernel = \<lparr>FSHIFT = 11, FIXED_1 = 2048, EXP_1 = 1884, EXP_5 = 2014, EXP_15 = 2037, LOAD_FREQ = 501,
     CPU_LOAD_IDX_MAX = 5, CONFIG_NO_HZ_COMMON = True, CONFIG_SMP = True,
     time_before = (\<lambda>a b. sint (a - b) < 0), sched_avg_update = (\<lambda>r. r)\<rparr>"

definition demo_rq :: "ulong \<Rightarrow> ulong list \<Rightarrow> rq" where
  "demo_rq n ld = \<lparr>nr_running = n, nr_uninterruptible = 0, calc_load_active = 0, rq_calc_load_update = 100,
     cpu_load = ld, nr_load_updates = 0, last_load_update_tick = 0, runnable_load_avg = n * 1024, load_weight = n * 1024\<rparr>"

definition demo_sched :: sched where
  "demo_sched = \<lparr>calc_load_tasks = 0, calc_load_update = 100, avenrun = [0, 0, 0], calc_load_idle = [0, 0],
     calc_load_idx = 0, jiffies = 50, rqs = (\<lambda>c. demo_rq (if c = 0 then 2 else 1) [0, 0, 0, 0, 0])\<rparr>"

theorem active_count_conserved_witness:
  "calc_load_tasks (calc_global_load demo_kernel ((calc_load_enter_idle demo_kernel 0 demo_sched)\<lparr>jiffies := 120\<rparr>)) = 2"
proof -
  let ?e = "calc_load_enter_idle demo_kernel 0 demo_sched" and ?C = "{0 :: nat}"
  let ?s = "calc_global_load demo_kernel (?e\<lparr>jiffies := 120\<rparr>)"
  have "sched_step demo_kernel ?C demo_sched ?e" "sched_step demo_kernel ?C ?e (?e\<lparr>jiffies := 120\<rparr>)"
    "sched_step demo_kernel ?C (?e\<lparr>jiffies := 120\<rparr>) ?s" by (auto intro: sched_step.intros)
  then have r: "(sched_step demo_kernel ?C)\<^sup>*\<^sup>* demo_sched ?s" by (meson converse_rtranclp_into_rtranclp rtranclp.rtrancl_refl)
  have st: "sched_start ?C demo_sched" by (simp add: sched_start_def demo_sched_def demo_rq_def)
  have k: "keeps_active demo_kernel" by (simp add: keeps_active_def demo_kernel_def)
  have "calc_load_idle ?s = [0, 0]" "calc_load_active (rqs ?s 0) = rq_active (rqs ?s 0)" "rq_active (rqs ?s 0) = 2"
    by (simp_all add: calc_global_load_def calc_load_enter_idle_def calc_global_nohz_def calc_load_fold_idle_def fold_active_eq
        calc_load_write_idx_def calc_load_read_idx_def demo_kernel_def demo_sched_def demo_rq_def rq_active_def Let_def)
  then show ?thesis using active_count_conserved [OF st r _ k] by simp
qed

text \<open>The two idle counters separate old and new samples: a cpu that goes idle while the sampling
  window is open changes neither the count of tasks nor the averages that the coming global update
  computes, while its delta is kept; before the window its delta is in the counter that update folds.\<close>

lemma idle_in_window_not_folded:
  assumes "CONFIG_NO_HZ_COMMON K" "length (calc_load_idle s) = 2"
  shows "(\<not> time_before K (jiffies s) (calc_load_update s) \<longrightarrow>
      calc_load_tasks (calc_global_load K (calc_load_enter_idle K cpu s)) = calc_load_tasks (calc_global_load K s) \<and>
      avenrun (calc_global_load K (calc_load_enter_idle K cpu s)) = avenrun (calc_global_load K s)) \<and>
    (time_before K (jiffies s) (calc_load_update s) \<longrightarrow>
      fst (calc_load_fold_idle K (calc_load_enter_idle K cpu s)) =
        fst (calc_load_fold_idle K s) + (rq_active (rqs s cpu) - calc_load_active (rqs s cpu)))"
proof (intro conjI impI)
  let ?e = "calc_load_enter_idle K cpu s"
  have f: "calc_load_tasks ?e = calc_load_tasks s" "calc_load_update ?e = calc_load_update s" "avenrun ?e = avenrun s"
    "calc_load_idx ?e = calc_load_idx s" "jiffies ?e = jiffies s"
    by (simp_all add: calc_load_enter_idle_def fold_active_eq Let_def)
  have idle: "calc_load_idle ?e = (calc_load_idle s)[calc_load_write_idx K s :=
      calc_load_idle s ! calc_load_write_idx K s + (rq_active (rqs s cpu) - calc_load_active (rqs s cpu))]"
    by (simp add: calc_load_enter_idle_def fold_active_eq calc_load_write_idx_def Let_def)
  {
    assume "\<not> time_before K (jiffies s) (calc_load_update s)"
    then have "calc_load_write_idx K s \<noteq> calc_load_read_idx s" using read_idx_less [of s] by (auto simp: write_idx less_2_cases_iff)
    then have same: "calc_load_idle ?e ! calc_load_read_idx s = calc_load_idle s ! calc_load_read_idx s"
      by (simp add: idle)
    have r: "calc_load_read_idx ?e = calc_load_read_idx s" by (simp add: calc_load_read_idx_def f)
    show "calc_load_tasks (calc_global_load K ?e) = calc_load_tasks (calc_global_load K s)"
      "avenrun (calc_global_load K ?e) = avenrun (calc_global_load K s)"
      using same by (simp_all add: calc_global_load_def calc_load_fold_idle_def calc_global_nohz_def active_fixed_def r f Let_def)
  }
  assume "time_before K (jiffies s) (calc_load_update s)"
  then have "calc_load_write_idx K s = calc_load_read_idx s" by (simp add: write_idx)
  then show "fst (calc_load_fold_idle K ?e) = fst (calc_load_fold_idle K s) + (rq_active (rqs s cpu) - calc_load_active (rqs s cpu))"
    using assms read_idx_less [of s] idle f(4)
    by (simp add: calc_load_fold_idle_def calc_load_read_idx_def Let_def)
qed

end
