(* ===== verification/Sched_Bounds.thy ===== *)
theory Sched_Bounds
  imports Sched_Load Complex_Main
begin

unbundle bit_operations_syntax

text \<open>
  What the numbers of \<open>linux/kernel/sched/proc.c\<close> mean: the averages against the exact formulas in
  its comments, over the reals, with the 64-bit arithmetic shown not to wrap.
\<close>

text \<open>The documented constants: \<open>FIXED_1\<close> is 1.0 with \<open>FSHIFT\<close> fractional bits.\<close>

definition fixed_point :: "kernel \<Rightarrow> bool" where
  "fixed_point K \<longleftrightarrow> 0 < FSHIFT K \<and> FSHIFT K \<le> 31 \<and> FIXED_1 K = 2 ^ FSHIFT K"

text \<open>The documented meaning of \<open>time_before\<close>, a comparison that survives the wrap of \<open>jiffies\<close>, and a
  positive sampling period.\<close>

definition clock_laws :: "kernel \<Rightarrow> bool" where
  "clock_laws K \<longleftrightarrow> (\<forall>a b. time_before K a b \<longleftrightarrow> sint (a - b) < 0) \<and> 0 < sint (LOAD_FREQ K)"

subsection \<open>Words as numbers\<close>

lemma unat_pow2: "k < 64 \<Longrightarrow> unat (2 ^ k :: ulong) = 2 ^ k"
proof -
  assume "k < 64"
  then have "(2 :: nat) ^ k < 2 ^ 64" by (intro power_strict_increasing) simp_all
  then show ?thesis using unat_of_nat [of "2 ^ k", where 'a = 64] by simp
qed

lemma unat_no_wrap:
  fixes a b :: ulong
  shows "unat a * unat b < 2 ^ 64 \<Longrightarrow> unat (a * b) = unat a * unat b"
    "unat a + unat b < 2 ^ 64 \<Longrightarrow> unat (a + b) = unat a + unat b"
  by (simp_all add: unat_mult_lem [THEN iffD1] unat_add_lem [THEN iffD1])

lemma unat_drop: "unat (drop_bit k w) = unat w div 2 ^ k"
  by (metis drop_bit_eq_div unat_drop_bit_eq)

lemma odd_and_1: "(n AND 1 \<noteq> 0) = odd (unat n)" for n :: "'a :: len word"
  by (metis and_one_odd bit_0 bit_unsigned_iff of_bool_eq_0_iff unat_eq_0 len_gt_0 possible_bit_word possible_bit_0)

text \<open>Rounded multiplication of natural numbers with \<open>f\<close> fractional bits, and rounding in general:
  \<open>(a + F div 2) div F\<close> is \<open>a / F\<close> to the nearest unit.\<close>

definition rmul :: "nat \<Rightarrow> nat \<Rightarrow> nat \<Rightarrow> nat" where
  "rmul f a b = (a * b + 2 ^ f div 2) div 2 ^ f"

lemma half_pow: "0 < f \<Longrightarrow> (2 :: nat) ^ (f - 1) = 2 ^ f div 2"
  by (cases f) simp_all

lemma round_div:
  assumes "0 < (F :: nat)" "even F"
  shows "\<bar>real ((a + F div 2) div F) - real a / real F\<bar> \<le> 1 / 2"
proof -
  let ?q = "(a + F div 2) div F" and ?r = "(a + F div 2) mod F"
  obtain h where h: "F = 2 * h" using assms(2) by (elim evenE)
  have "a + h = ?q * F + ?r" using h by (simp add: mult.commute)
  then have e: "real a + real h = real ?q * real F + real ?r" by (metis of_nat_add of_nat_mult)
  have "real ?r \<le> real F" using assms(1) by (simp add: less_imp_le)
  moreover have "real F = 2 * real h" using h by simp
  ultimately have d: "\<bar>real ?q * real F - real a\<bar> \<le> real F / 2" using e by arith
  have "real ?q - real a / real F = (real ?q * real F - real a) / real F"
    using assms(1) by (simp add: field_simps)
  then have "\<bar>real ?q - real a / real F\<bar> = \<bar>real ?q * real F - real a\<bar> / real F" by (simp add: abs_divide)
  also have "\<dots> \<le> (real F / 2) / real F" using d assms(1) by (intro divide_right_mono) simp_all
  finally show ?thesis using assms(1) by simp
qed

lemma rmul_le:
  assumes "0 < f" "a \<le> 2 ^ f" "b \<le> 2 ^ f"
  shows "rmul f a b \<le> 2 ^ f"
proof -
  have "a * b \<le> 2 ^ f * 2 ^ f" using assms(2,3) by (rule mult_le_mono)
  moreover have "(2 :: nat) ^ f div 2 < 2 ^ f" by simp
  ultimately have "a * b + 2 ^ f div 2 < 2 ^ f * 2 ^ f + 2 ^ f" by (rule add_le_less_mono)
  then have "a * b + 2 ^ f div 2 < Suc (2 ^ f) * 2 ^ f" by simp
  then have "rmul f a b < Suc (2 ^ f)" unfolding rmul_def by (rule less_mult_imp_div_less)
  then show ?thesis by simp
qed

lemma unat_fixed_mult:
  assumes "0 < f" "f \<le> 31" "unat a \<le> 2 ^ f" "unat b \<le> 2 ^ f"
  shows "unat (fixed_mult f a b) = rmul f (unat a) (unat b)"
proof -
  have "unat a * unat b \<le> 2 ^ f * 2 ^ f" using assms(3,4) by (rule mult_le_mono)
  also have "\<dots> \<le> 2 ^ 31 * 2 ^ 31" using assms(2) by (intro mult_le_mono power_increasing) simp_all
  finally have ab: "unat a * unat b \<le> 2 ^ 62" by simp
  have "(2 :: nat) ^ (f - 1) \<le> 2 ^ 31" using assms(2) by (intro power_increasing) simp_all
  then have "unat (a * b + 2 ^ (f - 1)) = unat a * unat b + 2 ^ (f - 1)"
    using ab assms(2) unat_no_wrap(2) [of "a * b" "2 ^ (f - 1)"] unat_no_wrap(1) [of a b] unat_pow2 [of "f - 1"] by simp
  then show ?thesis using half_pow [OF assms(1)] by (simp add: fixed_mult_def unat_drop rmul_def)
qed

text \<open>One rounded product: the errors of the factors add up, plus half a unit.\<close>

lemma rmul_error:
  assumes "0 < f" "b \<le> 2 ^ f" "0 \<le> A" "A \<le> 1"
    "\<bar>real a - 2 ^ f * A\<bar> \<le> \<alpha>" "\<bar>real b - 2 ^ f * B\<bar> \<le> \<beta>"
  shows "\<bar>real (rmul f a b) - 2 ^ f * (A * B)\<bar> \<le> \<alpha> + \<beta> + 1 / 2"
proof -
  let ?F = "(2 :: real) ^ f"
  have "\<bar>real (rmul f a b) - real a * real b / ?F\<bar> \<le> 1 / 2"
    using round_div [of "2 ^ f" "a * b"] assms(1) by (simp add: rmul_def)
  moreover have "\<bar>real a * real b / ?F - ?F * (A * B)\<bar> \<le> \<alpha> + \<beta>"
  proof -
    have eq: "real a * real b / ?F - ?F * (A * B) = (real a - ?F * A) * (real b / ?F) + A * (real b - ?F * B)"
      by (simp add: field_simps)
    have "real b \<le> ?F" using assms(2) by (metis of_nat_le_iff of_nat_numeral of_nat_power)
    then have b: "0 \<le> real b / ?F" "real b / ?F \<le> 1" by simp_all
    have "\<bar>(real a - ?F * A) * (real b / ?F)\<bar> \<le> \<alpha> * 1"
      unfolding abs_mult using assms(5) b by (intro mult_mono) simp_all
    moreover have "\<bar>A * (real b - ?F * B)\<bar> \<le> 1 * \<beta>"
      unfolding abs_mult using assms(3,4,6) by (intro mult_mono) simp_all
    ultimately show ?thesis unfolding eq by linarith
  qed
  ultimately show ?thesis by linarith
qed

subsection \<open>The power by squaring\<close>

text \<open>The loop on natural numbers.\<close>

fun power_loop :: "nat \<Rightarrow> nat \<Rightarrow> nat \<Rightarrow> nat \<Rightarrow> nat" where
  "power_loop f r x n =
     (let r = (if odd n then rmul f r x else r)
      in if n div 2 = 0 then r else power_loop f r (rmul f x x) (n div 2))"

declare power_loop.simps [simp del]

lemma fixed_power_loop_nat:
  "0 < f \<Longrightarrow> f \<le> 31 \<Longrightarrow> unat r \<le> 2 ^ f \<Longrightarrow> unat x \<le> 2 ^ f \<Longrightarrow>
    unat (fixed_power_loop f r x n) = power_loop f (unat r) (unat x) (unat n)"
proof (induction f r x n rule: fixed_power_loop.induct)
  case (1 f r x n)
  let ?r = "if n AND 1 \<noteq> 0 then fixed_mult f r x else r" and ?s = "if odd (unat n) then rmul f (unat r) (unat x) else unat r"
  have r: "unat ?r = ?s" using "1.prems" by (simp add: unat_fixed_mult odd_and_1)
  have le: "?s \<le> 2 ^ f" using "1.prems" by (simp add: rmul_le)
  have z: "drop_bit 1 n = 0 \<longleftrightarrow> unat n div 2 = 0" by (metis unat_drop_bit_1 unat_eq_0)
  show ?case
  proof (cases "unat n div 2 = 0")
    case True
    then show ?thesis using r z by (simp add: fixed_power_loop.simps [of f r x n] power_loop.simps [of f "unat r"] Let_def del: One_nat_def)
  next
    case False
    then have "unat (fixed_power_loop f ?r (fixed_mult f x x) (drop_bit 1 n)) =
        power_loop f (unat ?r) (unat (fixed_mult f x x)) (unat (drop_bit 1 n))"
      using "1.IH" [of ?r "drop_bit 1 n"] "1.prems" r le z by (simp add: unat_fixed_mult rmul_le del: One_nat_def)
    then show ?thesis using False r z "1.prems"
      by (simp add: fixed_power_loop.simps [of f r x n] power_loop.simps [of f "unat r"] unat_drop_bit_1 unat_fixed_mult Let_def del: One_nat_def)
  qed
qed

lemma power_loop_le:
  "0 < f \<Longrightarrow> r \<le> 2 ^ f \<Longrightarrow> x \<le> 2 ^ f \<Longrightarrow> power_loop f r x n \<le> 2 ^ f"
  by (induction f r x n rule: power_loop.induct) (simp add: power_loop.simps rmul_le Let_def)

text \<open>The error grows by half a unit per multiplication of the exact power.\<close>

lemma power_loop_error:
  "0 < f \<Longrightarrow> r \<le> 2 ^ f \<Longrightarrow> x \<le> 2 ^ f \<Longrightarrow> 0 \<le> R \<Longrightarrow> R \<le> 1 \<Longrightarrow> 0 \<le> X \<Longrightarrow> X \<le> 1 \<Longrightarrow>
    \<bar>real r - 2 ^ f * R\<bar> \<le> \<rho> \<Longrightarrow> \<bar>real x - 2 ^ f * X\<bar> \<le> \<epsilon> \<Longrightarrow>
    \<bar>real (power_loop f r x n) - 2 ^ f * (R * X ^ n)\<bar> \<le> \<rho> + real n * \<epsilon> + real n / 2"
proof (induction f r x n arbitrary: R X \<rho> \<epsilon> rule: power_loop.induct)
  case (1 f r x n)
  define r' R' \<rho>' where "r' = (if odd n then rmul f r x else r)" and "R' = (if odd n then R * X else R)"
    and "\<rho>' = (if odd n then \<rho> + \<epsilon> + 1 / 2 else \<rho>)"
  note pr = "1.prems"
  have r': "r' \<le> 2 ^ f" "0 \<le> R'" "R' \<le> 1" "\<bar>real r' - 2 ^ f * R'\<bar> \<le> \<rho>'"
    using pr rmul_error [OF pr(1,3,4,5,8,9)] by (auto simp: r'_def R'_def \<rho>'_def rmul_le mult_le_one)
  have x': "rmul f x x \<le> 2 ^ f" "0 \<le> X * X" "X * X \<le> 1" "\<bar>real (rmul f x x) - 2 ^ f * (X * X)\<bar> \<le> \<epsilon> + \<epsilon> + 1 / 2"
    using pr rmul_error [OF pr(1,3,6,7,9,9)] by (auto simp: rmul_le mult_le_one)
  have e0: "0 \<le> \<epsilon>" using pr(9) by linarith
  show ?case
  proof (cases "n div 2 = 0")
    case True
    then have "n = 0 \<or> n = 1" by auto
    then show ?thesis
      using r'(4) True e0 by (auto simp: power_loop.simps [of f r x] r'_def R'_def \<rho>'_def)
  next
    case False
    have p: "R' * (X * X) ^ (n div 2) = R * X ^ n"
    proof (cases "odd n")
      case True
      then have "X ^ n = X * (X * X) ^ (n div 2)" by (metis odd_two_times_div_two_succ power_Suc power_mult power2_eq_square Suc_eq_plus1)
      then show ?thesis using True by (simp add: R'_def)
    next
      case False
      then have "X ^ n = (X * X) ^ (n div 2)" by (metis dvd_mult_div_cancel power_mult power2_eq_square)
      then show ?thesis using False by (simp add: R'_def)
    qed
    have b: "\<rho>' + real (n div 2) * (\<epsilon> + \<epsilon> + 1 / 2) + real (n div 2) / 2 = \<rho> + real n * \<epsilon> + real n / 2"
    proof (cases "odd n")
      case True
      then have "real n = 2 * real (n div 2) + 1" by (metis odd_two_times_div_two_succ of_nat_add of_nat_mult of_nat_numeral of_nat_1)
      then show ?thesis using True by (simp add: \<rho>'_def algebra_simps)
    next
      case even: False
      then have "real n = 2 * real (n div 2)" by (metis dvd_mult_div_cancel of_nat_mult of_nat_numeral)
      then show ?thesis using even by (simp add: \<rho>'_def algebra_simps)
    qed
    have "\<bar>real (power_loop f r' (rmul f x x) (n div 2)) - 2 ^ f * (R' * (X * X) ^ (n div 2))\<bar> \<le>
        \<rho>' + real (n div 2) * (\<epsilon> + \<epsilon> + 1 / 2) + real (n div 2) / 2"
      using "1.IH" [OF r'_def False pr(1) r'(1) x'(1) r'(2,3) x'(2,3) r'(4) x'(4)] .
    moreover have "power_loop f r x n = power_loop f r' (rmul f x x) (n div 2)"
      using False by (simp add: power_loop.simps [of f r x] r'_def Let_def)
    ultimately show ?thesis using p b by simp
  qed
qed

text \<open>What \<open>fixed_power_int\<close> computes.\<close>

lemma fixed_power_nat:
  assumes "0 < f" "f \<le> 31" "unat x \<le> 2 ^ f"
  shows "unat (fixed_power_int x f n) = (if n = 0 then 2 ^ f else power_loop f (2 ^ f) (unat x) (unat n))"
    "unat (fixed_power_int x f n) \<le> 2 ^ f"
proof -
  have one: "unat (push_bit f 1 :: ulong) = 2 ^ f" using assms(2) unat_pow2 [of f] by simp
  show e: "unat (fixed_power_int x f n) = (if n = 0 then 2 ^ f else power_loop f (2 ^ f) (unat x) (unat n))"
    using fixed_power_loop_nat [OF assms(1,2), of "push_bit f 1" x n] one assms by (simp add: fixed_power_int_def Let_def)
  show "unat (fixed_power_int x f n) \<le> 2 ^ f" unfolding e using power_loop_le [OF assms(1)] assms(3) by simp
qed

lemma fixed_power_bound:
  assumes "0 < f" "f \<le> 31" "unat x \<le> 2 ^ f"
  shows "\<bar>real (unat (fixed_power_int x f n)) - 2 ^ f * (real (unat x) / 2 ^ f) ^ unat n\<bar> \<le> real (unat n) / 2"
proof (cases "n = 0")
  case True
  then show ?thesis using assms(2) unat_pow2 [of f] by (simp add: fixed_power_int_def)
next
  case False
  have "real (unat x) \<le> 2 ^ f" using assms(3) by (metis of_nat_le_iff of_nat_numeral of_nat_power)
  then have "\<bar>real (power_loop f (2 ^ f) (unat x) (unat n)) - 2 ^ f * (1 * (real (unat x) / 2 ^ f) ^ unat n)\<bar> \<le>
      0 + real (unat n) * 0 + real (unat n) / 2"
    using assms(1,3) by (intro power_loop_error) (simp_all del: of_nat_unat)
  then show ?thesis using fixed_power_nat(1) [OF assms] False by (simp del: of_nat_unat)
qed

subsection \<open>Weighted averages\<close>

lemma weighted_bounds:
  fixes F e a b :: nat
  assumes "0 < F" "e \<le> F"
  shows "min a b \<le> (a * e + b * (F - e) + F div 2) div F" "(a * e + b * (F - e) + F div 2) div F \<le> max a b"
    "a * e + b * (F - e) \<le> max a b * F"
proof -
  have F: "F = e + (F - e)" using assms(2) by simp
  have lo: "min a b * F \<le> a * e + b * (F - e)"
    by (subst F) (simp only: distrib_left add_mono mult_le_mono1 min.cobounded1 min.cobounded2)
  show hi: "a * e + b * (F - e) \<le> max a b * F"
    by (subst (2) F) (simp only: distrib_left add_mono mult_le_mono1 max.cobounded1 max.cobounded2)
  have "min a b = min a b * F div F" using assms(1) by simp
  also have "\<dots> \<le> (a * e + b * (F - e) + F div 2) div F" using lo by (intro div_le_mono) simp
  finally show "min a b \<le> (a * e + b * (F - e) + F div 2) div F" .
  have "F div 2 < F" using assms(1) by simp
  then have "a * e + b * (F - e) + F div 2 < max a b * F + F" using hi by (rule add_le_less_mono [rotated])
  then have "a * e + b * (F - e) + F div 2 < Suc (max a b) * F" by simp
  then have "(a * e + b * (F - e) + F div 2) div F < Suc (max a b)" by (rule less_mult_imp_div_less)
  then show "(a * e + b * (F - e) + F div 2) div F \<le> max a b" by simp
qed

lemma average_diff: "(a * q + b * (1 - q)) - (a * p + b * (1 - p)) = (a - b) * (q - p)" for a b p q :: real
  by (simp add: algebra_simps)

lemma calc_load_nat:
  assumes "fixed_point K" "unat ex \<le> 2 ^ FSHIFT K" "unat ld < 2 ^ (63 - FSHIFT K)" "unat active < 2 ^ (63 - FSHIFT K)"
  shows "unat (calc_load K ld ex active) =
    (unat ld * unat ex + unat active * (2 ^ FSHIFT K - unat ex) + 2 ^ FSHIFT K div 2) div 2 ^ FSHIFT K"
proof -
  let ?S = "FSHIFT K"
  let ?w = "unat ld * unat ex + unat active * (2 ^ ?S - unat ex)"
  have S: "0 < ?S" "?S \<le> 31" "FIXED_1 K = 2 ^ ?S" using assms(1) by (simp_all add: fixed_point_def)
  have F: "unat (FIXED_1 K) = 2 ^ ?S" using S unat_pow2 [of ?S] by simp
  then have sub: "unat (FIXED_1 K - ex) = 2 ^ ?S - unat ex" using assms(2) by (simp add: unat_sub word_le_nat_alt)
  have "?w \<le> max (unat ld) (unat active) * 2 ^ ?S" using assms(2) by (intro weighted_bounds(3)) simp_all
  also have "\<dots> \<le> 2 ^ (63 - ?S) * 2 ^ ?S" using assms(3,4) by (intro mult_le_mono1) simp
  also have "\<dots> = 2 ^ 63" using S(2) by (simp flip: power_add)
  finally have w: "?w \<le> 2 ^ 63" .
  have "(2 :: nat) ^ (?S - 1) \<le> 2 ^ 31" using S(2) by (intro power_increasing) simp_all
  then have h: "?w + 2 ^ (?S - 1) < 2 ^ 64" using w by simp
  have m1: "unat (ld * ex) = unat ld * unat ex" using w by (intro unat_no_wrap) simp
  have m2: "unat (active * (FIXED_1 K - ex)) = unat active * (2 ^ ?S - unat ex)"
    using w unat_no_wrap(1) [of active "FIXED_1 K - ex"] sub by simp
  have a1: "unat (ld * ex + active * (FIXED_1 K - ex)) = ?w"
    using w unat_no_wrap(2) [of "ld * ex" "active * (FIXED_1 K - ex)"] m1 m2 by simp
  have "unat (ld * ex + active * (FIXED_1 K - ex) + 2 ^ (?S - 1)) = ?w + 2 ^ (?S - 1)"
    using h S(2) unat_no_wrap(2) [of "ld * ex + active * (FIXED_1 K - ex)" "2 ^ (?S - 1)"] a1 unat_pow2 [of "?S - 1"] by simp
  then show ?thesis using half_pow [OF S(1)] by (simp add: calc_load_def unat_drop)
qed

lemma calc_load_near:
  assumes "fixed_point K" "unat ex \<le> 2 ^ FSHIFT K" "unat ld < 2 ^ (63 - FSHIFT K)" "unat active < 2 ^ (63 - FSHIFT K)"
  shows "\<bar>real (unat (calc_load K ld ex active)) -
    (real (unat ld) * (real (unat ex) / 2 ^ FSHIFT K) + real (unat active) * (1 - real (unat ex) / 2 ^ FSHIFT K))\<bar> \<le> 1 / 2"
proof -
  let ?F = "2 ^ FSHIFT K :: nat"
  have "0 < FSHIFT K" using assms(1) by (simp add: fixed_point_def)
  then have "\<bar>real (unat (calc_load K ld ex active)) - real (unat ld * unat ex + unat active * (?F - unat ex)) / real ?F\<bar> \<le> 1 / 2"
    unfolding calc_load_nat [OF assms] by (intro round_div) simp_all
  moreover have "real (unat ld * unat ex + unat active * (?F - unat ex)) / real ?F =
      real (unat ld) * (real (unat ex) / 2 ^ FSHIFT K) + real (unat active) * (1 - real (unat ex) / 2 ^ FSHIFT K)"
    using assms(2) by (simp add: of_nat_diff field_simps del: of_nat_unat)
  ultimately show ?thesis by simp
qed

text \<open>One step of the load average: with a weight of at most 1.0, \<open>calc_load\<close> never wraps, is the
  formula of its comment to within half a unit, and lies between the old load and the active count.\<close>

lemma calc_load_is_average:
  assumes "fixed_point K" "unat ex \<le> 2 ^ FSHIFT K" "unat ld < 2 ^ (63 - FSHIFT K)" "unat active < 2 ^ (63 - FSHIFT K)"
  shows "\<bar>real (unat (calc_load K ld ex active)) -
      (real (unat ld) * (real (unat ex) / 2 ^ FSHIFT K) + real (unat active) * (1 - real (unat ex) / 2 ^ FSHIFT K))\<bar> \<le> 1 / 2 \<and>
    min ld active \<le> calc_load K ld ex active \<and> calc_load K ld ex active \<le> max ld active"
proof -
  have "min (unat ld) (unat active) \<le> unat (calc_load K ld ex active)" "unat (calc_load K ld ex active) \<le> max (unat ld) (unat active)"
    unfolding calc_load_nat [OF assms] using assms(2) by (intro weighted_bounds; simp)+
  then show ?thesis using calc_load_near [OF assms] by (auto simp: word_le_nat_alt min_def max_def)
qed

lemma demo_fixed_point: "fixed_point demo_kernel"
  by (simp add: fixed_point_def demo_kernel_def)

text \<open>C38. \<open>fixed_power_int\<close> terminates with \<open>x ^ n\<close> in fixed point, at most \<open>n / 2\<close> units away from the
  exact power, never above 1.0, and without overflow, for every base up to 1.0 and every \<open>n\<close>.\<close>

theorem fixed_power_error:
  assumes "0 < f" "f \<le> 31" "unat x \<le> 2 ^ f"
  shows "\<bar>real (unat (fixed_power_int x f n)) - 2 ^ f * (real (unat x) / 2 ^ f) ^ unat n\<bar> \<le> real (unat n) / 2 \<and>
    unat (fixed_power_int x f n) \<le> 2 ^ f"
  using fixed_power_bound [OF assms] fixed_power_nat(2) [OF assms] by blast

theorem fixed_power_error_witness:
  "\<bar>real (unat (fixed_power_int 1024 11 3)) - 256\<bar> \<le> 3 / 2"
  using fixed_power_error [of 11 1024 3] by (simp add: power3_eq_cube)

text \<open>C39. Catching up in bulk: \<open>calc_load_n\<close> is the closed form \<open>a0 * e^n + a * (1 - e^n)\<close> of \<open>n\<close> missed
  steps, to within half a unit plus \<open>n / 2\<close> parts of \<open>FIXED_1\<close> of the distance of the two loads.\<close>

theorem calc_load_n_closed_form:
  assumes "fixed_point K" "unat ex \<le> 2 ^ FSHIFT K" "unat ld < 2 ^ (63 - FSHIFT K)" "unat active < 2 ^ (63 - FSHIFT K)"
    "e = real (unat ex) / 2 ^ FSHIFT K"
  shows "\<bar>real (unat (calc_load_n K ld ex active n)) - (real (unat ld) * e ^ unat n + real (unat active) * (1 - e ^ unat n))\<bar>
    \<le> 1 / 2 + \<bar>real (unat ld) - real (unat active)\<bar> * (real (unat n) / 2 / 2 ^ FSHIFT K)"
proof -
  let ?F = "2 ^ FSHIFT K :: real" and ?p = "fixed_power_int ex (FSHIFT K) n"
  let ?d = "real (unat ld) - real (unat active)" and ?q = "real (unat ?p) / ?F"
  have f: "0 < FSHIFT K" "FSHIFT K \<le> 31" using assms(1) by (simp_all add: fixed_point_def)
  have "\<bar>real (unat ?p) - ?F * e ^ unat n\<bar> \<le> real (unat n) / 2"
    using fixed_power_bound [OF f assms(2), of n] unfolding assms(5) .
  then have "\<bar>real (unat ?p) - ?F * e ^ unat n\<bar> / ?F \<le> real (unat n) / 2 / ?F" by (rule divide_right_mono) simp
  moreover have "\<bar>?q - e ^ unat n\<bar> = \<bar>real (unat ?p) - ?F * e ^ unat n\<bar> / ?F"
  proof -
    have "?q - e ^ unat n = (real (unat ?p) - ?F * e ^ unat n) / ?F" by (simp add: field_simps del: of_nat_unat)
    then show ?thesis by (simp add: abs_divide del: of_nat_unat)
  qed
  ultimately have "\<bar>?d\<bar> * \<bar>?q - e ^ unat n\<bar> \<le> \<bar>?d\<bar> * (real (unat n) / 2 / ?F)" by (intro mult_left_mono) simp_all
  moreover have "\<bar>real (unat (calc_load_n K ld ex active n)) - (real (unat ld) * ?q + real (unat active) * (1 - ?q))\<bar> \<le> 1 / 2"
    unfolding calc_load_n_def using calc_load_near [OF assms(1) fixed_power_nat(2) [OF f assms(2)] assms(3,4)] .
  moreover have "(real (unat ld) * ?q + real (unat active) * (1 - ?q)) - (real (unat ld) * e ^ unat n + real (unat active) * (1 - e ^ unat n))
      = ?d * (?q - e ^ unat n)" by (rule average_diff)
  ultimately show ?thesis unfolding abs_mult [symmetric] by linarith
qed

theorem calc_load_n_closed_form_witness:
  "\<bar>real (unat (calc_load_n demo_kernel 4096 1024 0 2)) - 1024\<bar> \<le> 1 / 2 + 2"
  using calc_load_n_closed_form [OF demo_fixed_point, of 1024 4096 0 "1 / 2" 2] by (simp add: demo_kernel_def power2_eq_square)

subsection \<open>Keeping up with the clock\<close>

lemma sint_word: "- (2 ^ 63) \<le> k \<Longrightarrow> k < 2 ^ 63 \<Longrightarrow> sint (word_of_int k :: ulong) = k"
  by (simp add: signed_of_int signed_take_bit_int_eq_self)

lemma sint_range: "- (2 ^ 63) \<le> sint w" "sint w < 2 ^ 63" for w :: ulong
  using sint_ge [of w] sint_lt [of w] by simp_all

text \<open>Late by \<open>d\<close>, one period less, and after as many further periods as fit.\<close>

lemma late_minus_period:
  fixes d L :: ulong
  assumes "0 \<le> sint d" "0 < sint L"
  shows "sint (d - L) = sint d - sint L"
proof -
  have "d - L = word_of_int (sint d - sint L)" by simp
  then show ?thesis using sint_word [of "sint d - sint L"] sint_range [of d] sint_range [of L] assms by simp
qed

lemma caught_up:
  fixes d L :: ulong
  assumes "0 \<le> sint d" "0 < sint L"
  shows "sint (d - (1 + word_of_int (sint d sdiv sint L)) * L) = sint d mod sint L - sint L"
proof -
  have q: "sint d sdiv sint L = sint d div sint L" using assms by (cases "sint d = 0") (simp_all add: signed_divide_int_def)
  have "sint d - (1 + sint d div sint L) * sint L = sint d mod sint L - sint L"
    by (simp add: algebra_simps minus_mult_div_eq_mod)
  moreover have "d - (1 + word_of_int (sint d div sint L)) * L = word_of_int (sint d - (1 + sint d div sint L) * sint L)"
    by simp
  moreover have "0 \<le> sint d mod sint L" "sint d mod sint L < sint L" using assms(2) by simp_all
  ultimately show ?thesis using sint_word [of "sint d mod sint L - sint L"] sint_range [of L] unfolding q by simp
qed

text \<open>A global update always catches up: whenever \<open>calc_global_load\<close> has run with tickless idle
  configured, the next update lies in the future, however many periods were missed, and the update
  time has moved by a whole number of periods.\<close>

lemma global_load_catches_up:
  assumes "clock_laws K" "CONFIG_NO_HZ_COMMON K"
  shows "time_before K (jiffies s) (calc_load_update (calc_global_load K s) + 10) \<and>
    (\<exists>k. calc_load_update (calc_global_load K s) = calc_load_update s + k * LOAD_FREQ K)"
proof (cases "time_before K (jiffies s) (calc_load_update s + 10)")
  case True
  then have "calc_global_load K s = s" by (simp add: calc_global_load_def)
  then show ?thesis using True by (auto intro: exI [of _ 0])
next
  case False
  let ?L = "LOAD_FREQ K" and ?u = "calc_load_update s" and ?j = "jiffies s"
  let ?d = "?j - (?u + 10)"
  have tb: "time_before K a b \<longleftrightarrow> sint (a - b) < 0" and L: "0 < sint ?L" for a b
    using assms(1) by (simp_all add: clock_laws_def)
  have d: "0 \<le> sint ?d" using False tb by simp
  let ?u1 = "?u + ?L"
  let ?late = "\<not> time_before K ?j (?u1 + 10)"
  let ?n = "1 + word_of_int (sint (?j - ?u1 - 10) sdiv sint ?L)"
  have u: "calc_load_update (calc_global_load K s) = (if ?late then ?u1 + ?n * ?L else ?u1)"
    using False assms(2) by (auto simp: calc_global_load_def calc_global_nohz_def calc_load_fold_idle_def Let_def split: prod.splits)
  have e: "?j - ?u1 - 10 = ?d - ?L" "?j - (?u1 + 10) = ?d - ?L" by (simp_all add: algebra_simps)
  have now: "time_before K ?j (?u1 + ?n * ?L + 10)" if ?late
  proof -
    have l: "0 \<le> sint (?d - ?L)" using that tb e by simp
    have m: "?j - (?u1 + m + 10) = (?d - ?L) - m" for m by (simp add: algebra_simps)
    have "sint (?d - ?L) mod sint ?L < sint ?L" using L by simp
    then show ?thesis using caught_up [OF l L] unfolding tb e(1) m by simp
  qed
  have k: "?u1 + ?n * ?L = ?u + (1 + ?n) * ?L" "?u1 = ?u + 1 * ?L" by (simp_all only: distrib_right mult_1_left add.assoc)
  show ?thesis
  proof (cases ?late)
    case True
    then have "calc_load_update (calc_global_load K s) = ?u1 + ?n * ?L" using u by presburger
    then show ?thesis using now [OF True] k(1) by metis
  next
    case False
    then have "calc_load_update (calc_global_load K s) = ?u1" using u by presburger
    then show ?thesis using False k(2) by metis
  qed
qed

lemma demo_clock_laws: "clock_laws demo_kernel"
  by (simp add: clock_laws_def demo_kernel_def)

subsection \<open>Decay of the per-cpu loads\<close>

lemma degrade_shape: "i < 5 \<Longrightarrow> length (degrade_factor ! i) = 8 \<and> (\<forall>j<8. unat (degrade_factor ! i ! j) \<le> 128)"
proof -
  assume "i < 5"
  moreover have "list_all (\<lambda>row. length row = 8 \<and> list_all (\<lambda>b. unat b \<le> 128) row) degrade_factor" "length degrade_factor = 5"
    by (simp_all add: degrade_factor_def)
  ultimately show ?thesis by (simp add: list_all_length)
qed

text \<open>The loop never leaves the table, and with room for the product it only lowers the load.\<close>

lemma decay_step:
  fixes ld :: ulong and f :: byte
  assumes "unat f \<le> 128" "ld < 2 ^ 57"
  shows "drop_bit DEGRADE_SHIFT (ld * ucast f) \<le> ld"
proof -
  have l: "unat ld < 2 ^ 57" using assms(2) by (simp add: word_less_nat_alt unat_pow2)
  have f: "unat (ucast f :: ulong) = unat f" using assms(1) by (simp add: unsigned_ucast_eq take_bit_nat_eq_self)
  have m: "unat ld * unat f \<le> unat ld * 128" using assms(1) by simp
  moreover have "unat ld * 128 < 2 ^ 64" using l by simp
  ultimately have "unat ld * unat f < 2 ^ 64" by (rule order_le_less_trans)
  then have "unat (ld * ucast f) = unat ld * unat f" using f unat_no_wrap(1) [of ld "ucast f"] by simp
  then have "unat (drop_bit DEGRADE_SHIFT (ld * ucast f)) = unat ld * unat f div 128"
    by (simp add: unat_drop DEGRADE_SHIFT_def)
  also have "\<dots> \<le> unat ld" using m by (metis div_le_mono nonzero_mult_div_cancel_right zero_neq_numeral)
  finally show ?thesis by (simp add: word_le_nat_alt)
qed

lemma decay_loop_ok:
  "i < 5 \<Longrightarrow> unat missed < 2 ^ (8 - j) \<Longrightarrow> j \<le> 8 \<Longrightarrow>
    \<exists>ld'. decay_loop i missed j ld = Inr ld' \<and> (ld < 2 ^ 57 \<longrightarrow> ld' \<le> ld)"
proof (induction i missed j ld rule: decay_loop.induct)
  case (1 i missed j ld)
  show ?case
  proof (cases "missed = 0")
    case True
    then show ?thesis by (simp add: decay_loop.simps [of i 0])
  next
    case False
    then have "0 < unat missed" by (simp add: unat_gt_0)
    then have j: "j < 8" using "1.prems"(2,3) by (cases "j = 8") auto
    then have s: "(2 :: nat) ^ (8 - j) = 2 * 2 ^ (8 - (j + 1))" by (simp add: Suc_diff_Suc flip: power_Suc)
    then have half: "unat (drop_bit 1 missed) < 2 ^ (8 - (j + 1))" using "1.prems"(2) by (simp add: unat_drop_bit_1 del: One_nat_def)
    let ?ld = "if missed AND 1 \<noteq> 0 then drop_bit DEGRADE_SHIFT (ld * ucast (degrade_factor ! i ! j)) else ld"
    have sh: "length (degrade_factor ! i) = 8" "unat (degrade_factor ! i ! j) \<le> 128" using degrade_shape [OF "1.prems"(1)] j by auto
    have st: "(if missed AND 1 \<noteq> 0 then if j < length (degrade_factor ! i)
        then Inr (drop_bit DEGRADE_SHIFT (ld * ucast (degrade_factor ! i ! j))) else Inl OutOfBounds else Inr ld) = Inr ?ld"
      using sh(1) j by simp
    obtain ld' where ld': "decay_loop i (drop_bit 1 missed) (j + 1) ?ld = Inr ld'" "?ld < 2 ^ 57 \<longrightarrow> ld' \<le> ?ld"
      using "1.IH" [OF False st "1.prems"(1) half] j by auto
    have "ld < 2 ^ 57 \<longrightarrow> ?ld \<le> ld" using decay_step [OF sh(2)] by simp
    then have "ld < 2 ^ 57 \<longrightarrow> ld' \<le> ld" using ld'(2) by (meson order_trans order_le_less_trans)
    moreover have "decay_loop i missed j ld = Inr ld'" using st ld'(1) False by (simp add: decay_loop.simps [of i missed] del: One_nat_def)
    ultimately show ?thesis by blast
  qed
qed

lemma drop_bit_le: "drop_bit k w \<le> w" for w :: ulong
  by (simp add: word_le_nat_alt unat_drop)

lemma decay_ok:
  assumes "i < 5"
  shows "\<exists>ld'. decay_load_missed ld missed i = Inr ld' \<and> (ld < 2 ^ 57 \<longrightarrow> ld' \<le> ld)"
proof (cases "missed = 0 \<or> i = 1 \<or> missed \<ge> ucast (degrade_zero_ticks ! i)")
  case True
  then show ?thesis using assms drop_bit_le by (auto simp: decay_load_missed_def degrade_zero_ticks_def)
next
  case False
  have "i = 0 \<or> i = 1 \<or> i = 2 \<or> i = 3 \<or> i = 4" using assms by arith
  then have "(ucast (degrade_zero_ticks ! i) :: ulong) \<le> 128" by (auto simp: degrade_zero_ticks_def)
  then have "missed < 128" using False by (meson not_le order_less_le_trans)
  then have "unat missed < 2 ^ (8 - 0)" by (simp add: word_less_nat_alt)
  then show ?thesis using decay_loop_ok [OF assms, of missed 0 ld] False assms
    by (simp add: decay_load_missed_def degrade_zero_ticks_def)
qed

text \<open>One entry of the loop of \<open>__update_cpu_load\<close>: from the decayed load \<open>old\<close> towards \<open>t\<close>.\<close>

definition moved :: "nat \<Rightarrow> ulong \<Rightarrow> ulong \<Rightarrow> ulong \<Rightarrow> bool" where
  "moved i t old new \<longleftrightarrow> (old < t \<longrightarrow> old < new \<and> new \<le> t) \<and> (t < old \<longrightarrow> t \<le> new \<and> new < old) \<and> (old = t \<longrightarrow> new = t)"

lemma moved_nat:
  fixes s t old :: nat
  assumes "2 \<le> s"
  shows "old < t \<Longrightarrow> old < (old * (s - 1) + (t + (s - 1))) div s \<and> (old * (s - 1) + (t + (s - 1))) div s \<le> t"
    "t < old \<Longrightarrow> t \<le> (old * (s - 1) + t) div s \<and> (old * (s - 1) + t) div s < old"
    "old = t \<Longrightarrow> (old * (s - 1) + t) div s = t"
proof -
  obtain k where k: "s = Suc k" "0 < k" using assms by (cases s) auto
  show "old < (old * (s - 1) + (t + (s - 1))) div s \<and> (old * (s - 1) + (t + (s - 1))) div s \<le> t" if "old < t"
  proof -
    have "old * k < Suc (t * k)" using that by (simp add: less_Suc_eq_le)
    moreover have "Suc old * s \<le> old * (s - 1) + (t + (s - 1))" using that k by simp
    ultimately have "Suc old \<le> (old * (s - 1) + (t + (s - 1))) div s" "old * (s - 1) + (t + (s - 1)) < Suc t * s"
      using k by (simp_all add: less_eq_div_iff_mult_less_eq)
    then show ?thesis using less_mult_imp_div_less [of "old * (s - 1) + (t + (s - 1))" "Suc t" s] by simp
  qed
  show "t \<le> (old * (s - 1) + t) div s \<and> (old * (s - 1) + t) div s < old" if "t < old"
  proof -
    have "t * k \<le> old * k" using that by simp
    then have "t * s \<le> old * (s - 1) + t" "old * (s - 1) + t < old * s" using that k by simp_all
    then show ?thesis using k by (simp add: less_eq_div_iff_mult_less_eq less_mult_imp_div_less)
  qed
  show "(old * (s - 1) + t) div s = t" if "old = t"
  proof -
    have "old * (s - 1) + t = t * s" using that k by simp
    then show ?thesis using assms by (metis nonzero_mult_div_cancel_right not_numeral_le_zero)
  qed
qed

lemma unat_pow2_minus_1: "0 < i \<Longrightarrow> i < 64 \<Longrightarrow> unat (2 ^ i - 1 :: ulong) = 2 ^ i - 1"
  using unat_sub [of 1 "2 ^ i :: ulong"] unat_pow2 [of i] by (simp add: word_le_nat_alt)

lemma update_value:
  fixes old t :: ulong
  assumes "0 < i" "i < 5" "old < 2 ^ 57" "t < 2 ^ 57"
  shows "moved i t old (drop_bit i (old * (2 ^ i - 1) + (if old < t then t + (2 ^ i - 1) else t)))"
proof -
  have o: "unat old < 2 ^ 57" "unat t < 2 ^ 57" using assms(3,4) by (simp_all add: word_less_nat_alt unat_pow2)
  have s: "(2 :: nat) ^ i \<le> 16" "2 \<le> (2 :: nat) ^ i"
    using assms(1,2) power_increasing [of i 4 "2 :: nat"] power_increasing [of 1 i "2 :: nat"] by simp_all
  have "unat old * (2 ^ i - 1) \<le> unat old * 15" using s(1) by (intro mult_le_mono2) simp
  moreover have "unat old * 15 + (unat t + 15) < 2 ^ 64" using o by simp
  ultimately have b: "unat old * (2 ^ i - 1) + (unat t + (2 ^ i - 1)) < 2 ^ 64" using s(1) by linarith
  have p: "unat (2 ^ i - 1 :: ulong) = 2 ^ i - 1" using assms(1,2) by (intro unat_pow2_minus_1) simp_all
  have m: "unat (old * (2 ^ i - 1)) = unat old * (2 ^ i - 1)" using b p unat_no_wrap(1) [of old "2 ^ i - 1"] by simp
  have a: "unat (t + (2 ^ i - 1)) = unat t + (2 ^ i - 1)" using b p unat_no_wrap(2) [of t "2 ^ i - 1"] by simp
  have up: "unat (drop_bit i (old * (2 ^ i - 1) + (t + (2 ^ i - 1)))) = (unat old * (2 ^ i - 1) + (unat t + (2 ^ i - 1))) div 2 ^ i"
    using unat_no_wrap(2) [of "old * (2 ^ i - 1)" "t + (2 ^ i - 1)"] b m a by (simp add: unat_drop)
  have down: "unat (drop_bit i (old * (2 ^ i - 1) + t)) = (unat old * (2 ^ i - 1) + unat t) div 2 ^ i"
    using unat_no_wrap(2) [of "old * (2 ^ i - 1)" t, unfolded m] add_lessD1 [of _ "2 ^ i - 1", OF b [folded add.assoc]]
    by (simp only: unat_drop)
  consider "old < t" | "t < old" | "old = t" by force
  then show ?thesis
  proof cases
    case 1
    then show ?thesis using moved_nat(1) [OF s(2), of "unat old" "unat t"] up
      by (auto simp: moved_def word_less_nat_alt word_le_nat_alt)
  next
    case 2
    then show ?thesis using moved_nat(2) [OF s(2), of "unat t" "unat old"] down
      by (auto simp: moved_def word_less_nat_alt word_le_nat_alt)
  next
    case 3
    then have "drop_bit i (old * (2 ^ i - 1) + t) = t" using moved_nat(3) [OF s(2), of "unat old" "unat t"] down
      by (intro word_unat_eq_iff [THEN iffD2]) simp
    then show ?thesis using 3 by (simp add: moved_def)
  qed
qed

definition entry_moved :: "ulong \<Rightarrow> ulong \<Rightarrow> nat \<Rightarrow> ulong \<Rightarrow> ulong \<Rightarrow> bool" where
  "entry_moved t pending i before after \<longleftrightarrow>
     (\<exists>old. decay_load_missed before (pending - 1) i = Inr old \<and> old \<le> before \<and> moved i t old after)"

lemma update_one_ok:
  assumes "0 < i" "i < 5" "i < length (cpu_load r)" "cpu_load r ! i < 2 ^ 57" "t < 2 ^ 57"
  shows "\<exists>v. update_one t pending i r = Inr (r\<lparr>cpu_load := (cpu_load r)[i := v]\<rparr>) \<and> entry_moved t pending i (cpu_load r ! i) v"
proof -
  obtain old where old: "decay_load_missed (cpu_load r ! i) (pending - 1) i = Inr old" "old \<le> cpu_load r ! i"
    using decay_ok [OF assms(2), of "cpu_load r ! i" "pending - 1"] assms(4) by auto
  then have "old < 2 ^ 57" using assms(4) by (blast intro: order_le_less_trans)
  then have "entry_moved t pending i (cpu_load r ! i) (drop_bit i (old * (2 ^ i - 1) + (if old < t then t + (2 ^ i - 1) else t)))"
    using old update_value [OF assms(1,2) _ assms(5), of old] unfolding entry_moved_def by blast
  then show ?thesis using old assms(3)
    by (intro exI [of _ "drop_bit i (old * (2 ^ i - 1) + (if old < t then t + (2 ^ i - 1) else t))"]) (simp add: update_one_def Let_def)
qed

lemma update_loop_ok:
  assumes "t < 2 ^ 57" "\<forall>i<length (cpu_load r). cpu_load r ! i < 2 ^ 57"
  shows "m \<le> 5 \<Longrightarrow> m \<le> length (cpu_load r) \<Longrightarrow>
    \<exists>r'. efold (update_one t pending) [1..<m] r = Inr r' \<and> length (cpu_load r') = length (cpu_load r) \<and>
      (\<forall>i. i = 0 \<or> m \<le> i \<longrightarrow> cpu_load r' ! i = cpu_load r ! i) \<and>
      (\<forall>i. 0 < i \<and> i < m \<longrightarrow> entry_moved t pending i (cpu_load r ! i) (cpu_load r' ! i))"
proof (induction m)
  case (Suc m)
  obtain r' where r': "efold (update_one t pending) [1..<m] r = Inr r'" "length (cpu_load r') = length (cpu_load r)"
    "\<forall>i. i = 0 \<or> m \<le> i \<longrightarrow> cpu_load r' ! i = cpu_load r ! i"
    "\<forall>i. 0 < i \<and> i < m \<longrightarrow> entry_moved t pending i (cpu_load r ! i) (cpu_load r' ! i)"
    using Suc.IH Suc.prems by auto
  show ?case
  proof (cases "m = 0")
    case True
    then show ?thesis by auto
  next
    case False
    have "cpu_load r' ! m = cpu_load r ! m" using r'(3) by simp
    then obtain v where v: "update_one t pending m r' = Inr (r'\<lparr>cpu_load := (cpu_load r')[m := v]\<rparr>)"
      "entry_moved t pending m (cpu_load r ! m) v"
      using update_one_ok [of m r' t pending] False Suc.prems r'(2) assms by auto
    have "[1..<Suc m] = [1..<m] @ [m]" using False by simp
    then have "efold (update_one t pending) [1..<Suc m] r = Inr (r'\<lparr>cpu_load := (cpu_load r')[m := v]\<rparr>)"
      using r'(1) v(1) by (simp add: efold_append del: upt_Suc)
    then show ?thesis using r'(2-4) v(2) Suc.prems(2) False by (auto simp: nth_list_update less_Suc_eq)
  qed
qed simp

text \<open>A load update succeeds without leaving its tables and moves every average towards the
  present load: it decays the missed ticks (never raising the load), then goes strictly towards the
  present load without passing it, so an average cannot get stuck short of it; index 0 is the load itself.\<close>

lemma cpu_load_moves_towards:
  assumes "length (cpu_load r) = CPU_LOAD_IDX_MAX K" "0 < CPU_LOAD_IDX_MAX K" "CPU_LOAD_IDX_MAX K \<le> 5"
    "\<forall>r. cpu_load (sched_avg_update K r) = cpu_load r"
    "this_load < 2 ^ 57" "\<forall>i<CPU_LOAD_IDX_MAX K. cpu_load r ! i < 2 ^ 57"
  shows "\<exists>r'. update_cpu_load K r this_load pending = Inr r' \<and> cpu_load r' ! 0 = this_load \<and>
    (\<forall>i. 0 < i \<and> i < CPU_LOAD_IDX_MAX K \<longrightarrow>
      (\<exists>old. decay_load_missed (cpu_load r ! i) (pending - 1) i = Inr old \<and> old \<le> cpu_load r ! i \<and>
        (old < this_load \<longrightarrow> old < cpu_load r' ! i \<and> cpu_load r' ! i \<le> this_load) \<and>
        (this_load < old \<longrightarrow> this_load \<le> cpu_load r' ! i \<and> cpu_load r' ! i < old) \<and>
        (old = this_load \<longrightarrow> cpu_load r' ! i = this_load)))"
proof -
  let ?r = "r\<lparr>nr_load_updates := nr_load_updates r + 1, cpu_load := (cpu_load r)[0 := this_load]\<rparr>"
  have ne: "cpu_load r \<noteq> []" using assms(1,2) by auto
  have "\<forall>i<length (cpu_load ?r). cpu_load ?r ! i < 2 ^ 57" using assms(1,5,6) by (simp add: nth_list_update)
  then obtain r' where r': "efold (update_one this_load pending) [1..<CPU_LOAD_IDX_MAX K] ?r = Inr r'"
    "\<forall>i. i = 0 \<or> CPU_LOAD_IDX_MAX K \<le> i \<longrightarrow> cpu_load r' ! i = cpu_load ?r ! i"
    "\<forall>i. 0 < i \<and> i < CPU_LOAD_IDX_MAX K \<longrightarrow> entry_moved this_load pending i (cpu_load ?r ! i) (cpu_load r' ! i)"
    using update_loop_ok [OF assms(5), of ?r "CPU_LOAD_IDX_MAX K" pending] assms(1,3) by auto
  have "update_cpu_load K r this_load pending = Inr (sched_avg_update K r')"
    using ne r'(1) by (simp add: update_cpu_load_def Let_def)
  moreover have "cpu_load r' ! 0 = this_load" using r'(2) ne by simp
  ultimately show ?thesis using r'(3) assms(4) by (simp add: entry_moved_def moved_def)
qed

end
