(* ===== verification/Vim_Memfile.thy ===== *)
theory Vim_Memfile
  imports Prelude
begin

text \<open>
  Vim's memory file (\<open>vim/src/memfile.c\<close>): blocks of memory that can be swapped out to a file.

  \<^item> \<open>bhdr\<close> is a block header, \<open>memfile\<close> a memory file, \<open>env\<close> what all memory files share: the headers
    by address, \<open>total_mem_used\<close>, and the outcomes of \<open>alloc\<close>, of system calls and of
    \<open>mch_char_avail\<close>. The doubly linked lists are lists of addresses, first element first; the two
    bits of \<open>bh_flags\<close> are \<open>bh_dirty\<close> and \<open>bh_locked\<close>. The file itself is the byte list \<open>disk\<close>.
  \<^item> \<open>vim_h\<close> holds what other files supply: \<open>MEMHASH\<close>, the options \<open>p_mm\<close> and \<open>p_mmt\<close>, \<open>FullName\<close>, and the
    bytes that fresh memory contains.
  \<^item> A function that may fail returns \<open>True\<close> for \<open>OK\<close>. \<open>Inl\<close> is a crash (a null pointer) or a loop
    that runs out of fuel.
\<close>

subsection \<open>State\<close>

record bhdr =
  bh_bnum :: int
  bh_page_count :: nat
  bh_dirty :: bool
  bh_locked :: bool
  bh_data :: "byte list"

record memfile =
  mf_fname :: "string option"
  mf_xfname :: "string option"
  mf_fd :: int
  mf_page_size :: nat
  mf_free_first :: "nat list"
  mf_used :: "nat list"
  mf_hash :: "nat \<Rightarrow> nat list"
  mf_trans :: "nat \<Rightarrow> (int \<times> int) list"
  mf_blocknr_max :: int
  mf_blocknr_min :: int
  mf_neg_count :: int
  mf_infile_count :: int
  mf_used_count :: int
  mf_used_count_max :: int
  mf_dirty :: bool
  disk :: "byte list"

record env =
  hdrs :: "nat \<Rightarrow> bhdr"
  next_hdr :: nat
  total_mem_used :: int
  allocs :: "bool list"
  faults :: "nat option list"
  chars :: "bool list"

record vim_h =
  MEMHASH :: "int \<Rightarrow> nat"
  p_mm :: int
  p_mmt :: int
  FullName :: "string \<Rightarrow> string option"
  garbage :: "nat \<Rightarrow> byte"

text \<open>\<open>alloc\<close>, a system call (\<open>None\<close> for success, \<open>Some k\<close> for a failure after \<open>k\<close> bytes), and
  \<open>mch_char_avail\<close>: each takes the next outcome, and succeeds (no character) when none is planned.\<close>

definition alloc :: "env \<Rightarrow> bool \<times> env" where
  "alloc e = (case allocs e of [] \<Rightarrow> (True, e) | b # bs \<Rightarrow> (b, e\<lparr>allocs := bs\<rparr>))"

definition syscall :: "env \<Rightarrow> nat option \<times> env" where
  "syscall e = (case faults e of [] \<Rightarrow> (None, e) | f # fs \<Rightarrow> (f, e\<lparr>faults := fs\<rparr>))"

definition mch_char_avail :: "env \<Rightarrow> bool \<times> env" where
  "mch_char_avail e = (case chars e of [] \<Rightarrow> (False, e) | c # cs \<Rightarrow> (c, e\<lparr>chars := cs\<rparr>))"

definition upd_hdr :: "nat \<Rightarrow> (bhdr \<Rightarrow> bhdr) \<Rightarrow> env \<Rightarrow> env" where
  "upd_hdr hp f e = e\<lparr>hdrs := (hdrs e)(hp := f (hdrs e hp))\<rparr>"

text \<open>Bytes at an offset of the file; a write beyond its end fills the gap with zeros.\<close>

definition write_at :: "nat \<Rightarrow> byte list \<Rightarrow> byte list \<Rightarrow> byte list" where
  "write_at off src file = mem_write off src (file @ replicate (off - length file) 0)"

subsection \<open>The lists\<close>

definition mf_ins_hash :: "vim_h \<Rightarrow> nat \<Rightarrow> env \<Rightarrow> memfile \<Rightarrow> memfile" where
  "mf_ins_hash H hp e m = (let h = MEMHASH H (bh_bnum (hdrs e hp)) in m\<lparr>mf_hash := (mf_hash m)(h := hp # mf_hash m h)\<rparr>)"

definition mf_rem_hash :: "vim_h \<Rightarrow> nat \<Rightarrow> env \<Rightarrow> memfile \<Rightarrow> memfile" where
  "mf_rem_hash H hp e m = (let h = MEMHASH H (bh_bnum (hdrs e hp)) in m\<lparr>mf_hash := (mf_hash m)(h := remove1 hp (mf_hash m h))\<rparr>)"

definition mf_find_hash :: "vim_h \<Rightarrow> int \<Rightarrow> env \<Rightarrow> memfile \<Rightarrow> nat option" where
  "mf_find_hash H nr e m = find (\<lambda>hp. bh_bnum (hdrs e hp) = nr) (mf_hash m (MEMHASH H nr))"

definition mf_ins_used :: "nat \<Rightarrow> env \<Rightarrow> memfile \<Rightarrow> env \<times> memfile" where
  "mf_ins_used hp e m =
     (let n = int (bh_page_count (hdrs e hp))
      in (e\<lparr>total_mem_used := total_mem_used e + n * int (mf_page_size m)\<rparr>,
          m\<lparr>mf_used := hp # mf_used m, mf_used_count := mf_used_count m + n\<rparr>))"

definition mf_rem_used :: "nat \<Rightarrow> env \<Rightarrow> memfile \<Rightarrow> env \<times> memfile" where
  "mf_rem_used hp e m =
     (let n = int (bh_page_count (hdrs e hp))
      in (e\<lparr>total_mem_used := total_mem_used e - n * int (mf_page_size m)\<rparr>,
          m\<lparr>mf_used := remove1 hp (mf_used m), mf_used_count := mf_used_count m - n\<rparr>))"

definition mf_ins_free :: "nat \<Rightarrow> memfile \<Rightarrow> memfile" where
  "mf_ins_free hp m = m\<lparr>mf_free_first := hp # mf_free_first m\<rparr>"

definition mf_rem_free :: "memfile \<Rightarrow> (nat \<times> memfile) cres" where
  "mf_rem_free m = (case mf_free_first m of [] \<Rightarrow> Inl NullDeref | hp # fs \<Rightarrow> Inr (hp, m\<lparr>mf_free_first := fs\<rparr>))"

definition fresh_data :: "vim_h \<Rightarrow> memfile \<Rightarrow> nat \<Rightarrow> byte list" where
  "fresh_data H m page_count = map (garbage H) [0..<mf_page_size m * page_count]"

text \<open>An assignment through a pointer to a header.\<close>

definition store_hdr :: "nat option \<Rightarrow> (bhdr \<Rightarrow> bhdr) \<Rightarrow> env \<Rightarrow> env cres" where
  "store_hdr p f e = (case p of None \<Rightarrow> Inl NullDeref | Some hp \<Rightarrow> Inr (upd_hdr hp f e))"

text \<open>\<open>mf_alloc_bhdr\<close> sets \<open>bh_page_count\<close> of the header also after the failure of the second
  \<open>alloc\<close>, when \<open>hp\<close> is \<open>NULL\<close>.\<close>

definition mf_alloc_bhdr :: "vim_h \<Rightarrow> memfile \<Rightarrow> nat \<Rightarrow> env \<Rightarrow> (nat option \<times> env) cres" where
  "mf_alloc_bhdr H m page_count e =
     (let (ok, e) = alloc e
      in if \<not> ok then Inr (None, e)
         else let (ok2, e) = alloc e;
                  (hp, e) = (if \<not> ok2 then (None, e)
                     else (Some (next_hdr e), e\<lparr>next_hdr := next_hdr e + 1, hdrs := (hdrs e)(next_hdr e :=
                       \<lparr>bh_bnum = 0, bh_page_count = 0, bh_dirty = False, bh_locked = False,
                        bh_data = fresh_data H m page_count\<rparr>)\<rparr>))
              in ebind (store_hdr hp (\<lambda>b. b\<lparr>bh_page_count := page_count\<rparr>) e) (\<lambda>e. Inr (hp, e)))"

subsection \<open>Block numbers\<close>

text \<open>Taking \<open>page_count\<close> pages from the first free block when it is large enough.\<close>

definition mf_trans_number :: "nat \<Rightarrow> env \<Rightarrow> memfile \<Rightarrow> (int \<times> env \<times> memfile) cres" where
  "mf_trans_number page_count e m =
     (case mf_free_first m of
        freep # _ \<Rightarrow>
          if page_count \<le> bh_page_count (hdrs e freep)
          then let new = bh_bnum (hdrs e freep)
               in if page_count < bh_page_count (hdrs e freep)
                  then Inr (new, upd_hdr freep (\<lambda>b. b\<lparr>bh_bnum := bh_bnum b + int page_count,
                         bh_page_count := bh_page_count b - page_count\<rparr>) e, m)
                  else ebind (mf_rem_free m) (\<lambda>(_, m). Inr (new, e, m))
          else Inr (mf_blocknr_max m, e, m\<lparr>mf_blocknr_max := mf_blocknr_max m + int page_count\<rparr>)
      | [] \<Rightarrow> Inr (mf_blocknr_max m, e, m\<lparr>mf_blocknr_max := mf_blocknr_max m + int page_count\<rparr>))"

definition mf_trans_add :: "vim_h \<Rightarrow> nat \<Rightarrow> env \<Rightarrow> memfile \<Rightarrow> (bool \<times> env \<times> memfile) cres" where
  "mf_trans_add H hp e m =
     (if bh_bnum (hdrs e hp) \<ge> 0 then Inr (True, e, m)
      else let (ok, e) = alloc e
           in if \<not> ok then Inr (False, e, m)
              else ebind (mf_trans_number (bh_page_count (hdrs e hp)) e m) (\<lambda>(new, e, m).
                let old = bh_bnum (hdrs e hp);
                    m = mf_rem_hash H hp e m;
                    e = upd_hdr hp (\<lambda>b. b\<lparr>bh_bnum := new\<rparr>) e;
                    m = mf_ins_hash H hp e m;
                    h = MEMHASH H old
                in Inr (True, e, m\<lparr>mf_trans := (mf_trans m)(h := (old, new) # mf_trans m h)\<rparr>)))"

definition mf_trans_del :: "vim_h \<Rightarrow> int \<Rightarrow> memfile \<Rightarrow> int \<times> memfile" where
  "mf_trans_del H old m =
     (let h = MEMHASH H old
      in case find (\<lambda>np. fst np = old) (mf_trans m h) of
           None \<Rightarrow> (old, m)
         | Some np \<Rightarrow> (snd np, m\<lparr>mf_neg_count := mf_neg_count m - 1, mf_trans := (mf_trans m)(h := remove1 np (mf_trans m h))\<rparr>))"

subsection \<open>Reading and writing\<close>

definition mf_read :: "nat \<Rightarrow> env \<Rightarrow> memfile \<Rightarrow> bool \<times> env" where
  "mf_read hp e m =
     (if mf_fd m < 0 then (False, e)
      else let off = mf_page_size m * nat (bh_bnum (hdrs e hp));
               sz = mf_page_size m * bh_page_count (hdrs e hp);
               (sk, e) = syscall e
           in if sk \<noteq> None then (False, e)
              else let (rd, e) = syscall e;
                       got = mem_read off (case rd of None \<Rightarrow> sz | Some k \<Rightarrow> min k sz) (disk m);
                       e = upd_hdr hp (\<lambda>b. b\<lparr>bh_data := mem_write 0 got (bh_data b)\<rparr>) e
                   in (rd = None \<and> length got = sz, e))"

text \<open>
  The loop of \<open>mf_write\<close>. In the source a failing \<open>write\<close> is one that transfers fewer bytes. The loop
  ends because every round that does not write \<open>hp\<close> itself appends at least one page.
\<close>

fun mf_write_loop :: "vim_h \<Rightarrow> nat \<Rightarrow> nat \<Rightarrow> env \<Rightarrow> memfile \<Rightarrow> (bool \<times> env \<times> memfile) cres" where
  "mf_write_loop H 0 hp e m = Inl Diverges"
| "mf_write_loop H (Suc fuel) hp e m =
     (let beyond = mf_infile_count m < bh_bnum (hdrs e hp);
          nr = (if beyond then mf_infile_count m else bh_bnum (hdrs e hp));
          hp2 = (if beyond then mf_find_hash H nr e m else Some hp);
          off = mf_page_size m * nat nr;
          (sk, e) = syscall e
      in if sk \<noteq> None then Inr (False, e, m)
         else let page_count = (case hp2 of None \<Rightarrow> 1 | Some h \<Rightarrow> bh_page_count (hdrs e h));
                  sz = mf_page_size m * page_count;
                  src = take sz (bh_data (hdrs e (case hp2 of None \<Rightarrow> hp | Some h \<Rightarrow> h)));
                  (wr, e) = syscall e
              in if wr \<noteq> None
                 then Inr (False, e, m\<lparr>disk := write_at off (take (the wr) src) (disk m)\<rparr>)
                 else let m = m\<lparr>disk := write_at off src (disk m)\<rparr>;
                          e = (case hp2 of None \<Rightarrow> e | Some h \<Rightarrow> upd_hdr h (\<lambda>b. b\<lparr>bh_dirty := False\<rparr>) e);
                          m = (if mf_infile_count m < nr + int page_count then m\<lparr>mf_infile_count := nr + int page_count\<rparr> else m)
                      in if nr = bh_bnum (hdrs e hp) then Inr (True, e, m)
                         else mf_write_loop H fuel hp e m)"

definition write_fuel :: "nat \<Rightarrow> env \<Rightarrow> memfile \<Rightarrow> nat" where
  "write_fuel hp e m = Suc (nat (bh_bnum (hdrs e hp) - mf_infile_count m))"

definition mf_write :: "vim_h \<Rightarrow> nat \<Rightarrow> env \<Rightarrow> memfile \<Rightarrow> (bool \<times> env \<times> memfile) cres" where
  "mf_write H hp e m =
     (if mf_fd m < 0 then Inr (False, e, m)
      else ebind (if bh_bnum (hdrs e hp) < 0 then mf_trans_add H hp e m else Inr (True, e, m)) (\<lambda>(ok, e, m).
        if \<not> ok then Inr (False, e, m) else mf_write_loop H (write_fuel hp e m) hp e m))"

subsection \<open>Releasing\<close>

definition mf_release :: "vim_h \<Rightarrow> nat \<Rightarrow> env \<Rightarrow> memfile \<Rightarrow> (nat option \<times> env \<times> memfile) cres" where
  "mf_release H page_count e m =
     (if mf_fd m < 0 \<or> (mf_used_count m < mf_used_count_max m \<or> mf_used_count_max m = 0) \<and>
           total_mem_used e div 1024 < p_mmt H
      then Inr (None, e, m)
      else case find (\<lambda>hp. \<not> bh_locked (hdrs e hp)) (rev (mf_used m)) of
             None \<Rightarrow> Inr (None, e, m)
           | Some hp \<Rightarrow>
               ebind (if bh_dirty (hdrs e hp) then mf_write H hp e m else Inr (True, e, m)) (\<lambda>(ok, e, m).
                 if \<not> ok then Inr (None, e, m)
                 else let (e, m) = mf_rem_used hp e m;
                          m = mf_rem_hash H hp e m
                      in if bh_page_count (hdrs e hp) \<noteq> page_count
                         then let (ok, e) = alloc e
                              in if \<not> ok then Inr (None, e, m)
                                 else Inr (Some hp, upd_hdr hp (\<lambda>b. b\<lparr>bh_data := fresh_data H m page_count,
                                        bh_page_count := page_count\<rparr>) e, m)
                         else Inr (Some hp, e, m)))"

text \<open>The inner loop of \<open>mf_release_all\<close>: \<open>hs\<close> is the part of the used list not looked at yet, from
  the end; after a release it starts again.\<close>

fun release_scan :: "vim_h \<Rightarrow> nat \<Rightarrow> nat list \<Rightarrow> bool \<Rightarrow> env \<Rightarrow> memfile \<Rightarrow> (bool \<times> env \<times> memfile) cres" where
  "release_scan H 0 hs retval e m = Inl Diverges"
| "release_scan H (Suc fuel) hs retval e m =
     (case hs of
        [] \<Rightarrow> Inr (retval, e, m)
      | hp # hs' \<Rightarrow>
          ebind (if bh_locked (hdrs e hp) then Inr (False, e, m)
                 else if bh_dirty (hdrs e hp) then mf_write H hp e m else Inr (True, e, m)) (\<lambda>(free, e, m).
            if free
            then let (e, m) = mf_rem_used hp e m; m = mf_rem_hash H hp e m
                 in release_scan H fuel (rev (mf_used m)) True e m
            else release_scan H fuel hs' retval e m))"

fun mf_release_all :: "vim_h \<Rightarrow> memfile list \<Rightarrow> env \<Rightarrow> (bool \<times> env \<times> memfile list) cres" where
  "mf_release_all H [] e = Inr (False, e, [])"
| "mf_release_all H (m # ms) e =
     ebind (if mf_fd m \<ge> 0
            then release_scan H ((length (mf_used m) + 1) * (length (mf_used m) + 1)) (rev (mf_used m)) False e m
            else Inr (False, e, m)) (\<lambda>(r, e, m).
       ebind (mf_release_all H ms e) (\<lambda>(rs, e, ms). Inr (r \<or> rs, e, m # ms)))"

subsection \<open>The interface\<close>

text \<open>\<open>fd\<close> and \<open>contents\<close> are what \<open>open\<close> returns: the descriptor and the bytes of an existing file.\<close>

definition mf_do_open :: "vim_h \<Rightarrow> int \<Rightarrow> byte list \<Rightarrow> string \<Rightarrow> bool \<Rightarrow> memfile \<Rightarrow> memfile" where
  "mf_do_open H fd contents fname new m =
     (if fd < 0 then m\<lparr>mf_fname := None, mf_xfname := None, mf_fd := fd\<rparr>
      else m\<lparr>mf_fname := Some fname, mf_xfname := FullName H fname, mf_fd := fd, disk := (if new then [] else contents)\<rparr>)"

definition MEMFILE_PAGE_SIZE :: nat where
  "MEMFILE_PAGE_SIZE = 4096"

definition empty_memfile :: memfile where
  "empty_memfile = \<lparr>mf_fname = None, mf_xfname = None, mf_fd = -1, mf_page_size = MEMFILE_PAGE_SIZE, mf_free_first = [],
     mf_used = [], mf_hash = (\<lambda>_. []), mf_trans = (\<lambda>_. []), mf_blocknr_max = 0, mf_blocknr_min = -1, mf_neg_count = 0,
     mf_infile_count = 0, mf_used_count = 0, mf_used_count_max = 0, mf_dirty = False, disk = []\<rparr>"

text \<open>\<open>blksize\<close> is the result of \<open>fstatfs\<close>; \<open>lseek\<close> to the end yields the length of the file.\<close>

definition mf_open :: "vim_h \<Rightarrow> int \<Rightarrow> byte list \<Rightarrow> nat option \<Rightarrow> string option \<Rightarrow> bool \<Rightarrow> bool \<Rightarrow> env \<Rightarrow> memfile option \<times> env" where
  "mf_open H fd contents blksize fname new fail_nofile e =
     (let (ok, e) = alloc e
      in if \<not> ok then (None, e)
         else let m = (case fname of None \<Rightarrow> empty_memfile | Some f \<Rightarrow> mf_do_open H fd contents f new empty_memfile)
              in if mf_fd m < 0 \<and> fail_nofile then (None, e)
                 else let m = (case blksize of
                              Some b \<Rightarrow> if mf_fd m \<ge> 0 \<and> 1048 \<le> b \<and> b \<le> 50000 then m\<lparr>mf_page_size := b\<rparr> else m
                            | None \<Rightarrow> m);
                          m = (if mf_fd m < 0 \<or> new \<or> disk m = [] then m\<lparr>mf_blocknr_max := 0\<rparr>
                               else m\<lparr>mf_blocknr_max := int (length (disk m)) div int (mf_page_size m)\<rparr>);
                          m = m\<lparr>mf_blocknr_min := -1, mf_neg_count := 0, mf_infile_count := mf_blocknr_max m,
                                mf_used_count_max := (if mf_fd m < 0 then 0 else p_mm H * 1024 div int (mf_page_size m))\<rparr>
                      in (Some m, e))"

definition mf_open_file :: "vim_h \<Rightarrow> int \<Rightarrow> byte list \<Rightarrow> string \<Rightarrow> memfile \<Rightarrow> bool \<times> memfile" where
  "mf_open_file H fd contents fname m =
     (let m = mf_do_open H fd contents fname True m
      in if mf_fd m < 0 then (False, m) else (True, m\<lparr>mf_dirty := True\<rparr>))"

text \<open>\<open>mf_close\<close> frees the headers, the free list, the translations and the memory file; what remains
  are the shared variables, the diagnostic of a failing \<open>close\<close> and the name of the removed file.\<close>

definition mf_close :: "bool \<Rightarrow> memfile \<Rightarrow> env \<Rightarrow> bool \<times> string option \<times> env" where
  "mf_close delete m e =
     (let (cl, e) = (if mf_fd m \<ge> 0 then syscall e else (None, e))
      in (cl \<noteq> None, if delete then mf_fname m else None, e))"

definition mf_finish_new :: "vim_h \<Rightarrow> nat \<Rightarrow> nat \<Rightarrow> env \<Rightarrow> memfile \<Rightarrow> nat option \<times> env \<times> memfile" where
  "mf_finish_new H page_count hp e m =
     (let e = upd_hdr hp (\<lambda>b. b\<lparr>bh_locked := True, bh_dirty := True, bh_page_count := page_count\<rparr>) e;
          m = m\<lparr>mf_dirty := True\<rparr>;
          (e, m) = mf_ins_used hp e m
      in (Some hp, e, mf_ins_hash H hp e m))"

text \<open>\<open>hp == NULL && (hp = mf_alloc_bhdr(...)) == NULL\<close>.\<close>

definition mf_have_hdr :: "vim_h \<Rightarrow> memfile \<Rightarrow> nat \<Rightarrow> nat option \<Rightarrow> env \<Rightarrow> (nat option \<times> env) cres" where
  "mf_have_hdr H m page_count hp e = (case hp of None \<Rightarrow> mf_alloc_bhdr H m page_count e | Some h \<Rightarrow> Inr (Some h, e))"

text \<open>The branch of \<open>mf_new\<close> that takes a new number.\<close>

definition mf_new_number :: "vim_h \<Rightarrow> bool \<Rightarrow> nat \<Rightarrow> nat option \<Rightarrow> env \<Rightarrow> memfile \<Rightarrow> (nat option \<times> env \<times> memfile) cres" where
  "mf_new_number H negative page_count hp e m =
     ebind (mf_have_hdr H m page_count hp e) (\<lambda>(hp, e).
       case hp of
         None \<Rightarrow> Inr (None, e, m)
       | Some hp \<Rightarrow>
           if negative
           then Inr (mf_finish_new H page_count hp (upd_hdr hp (\<lambda>b. b\<lparr>bh_bnum := mf_blocknr_min m\<rparr>) e)
                  (m\<lparr>mf_blocknr_min := mf_blocknr_min m - 1, mf_neg_count := mf_neg_count m + 1\<rparr>))
           else Inr (mf_finish_new H page_count hp (upd_hdr hp (\<lambda>b. b\<lparr>bh_bnum := mf_blocknr_max m\<rparr>) e)
                  (m\<lparr>mf_blocknr_max := mf_blocknr_max m + int page_count\<rparr>)))"

definition mf_new :: "vim_h \<Rightarrow> bool \<Rightarrow> nat \<Rightarrow> env \<Rightarrow> memfile \<Rightarrow> (nat option \<times> env \<times> memfile) cres" where
  "mf_new H negative page_count e m =
     ebind (mf_release H page_count e m) (\<lambda>(hp, e, m).
       case (if negative then [] else mf_free_first m) of
         freep # _ \<Rightarrow>
           if bh_page_count (hdrs e freep) > page_count
           then ebind (mf_have_hdr H m page_count hp e) (\<lambda>(hp, e).
             case hp of
               None \<Rightarrow> Inr (None, e, m)
             | Some hp \<Rightarrow>
                 let e = upd_hdr hp (\<lambda>b. b\<lparr>bh_bnum := bh_bnum (hdrs e freep)\<rparr>) e;
                     e = upd_hdr freep (\<lambda>b. b\<lparr>bh_bnum := bh_bnum b + int page_count, bh_page_count := bh_page_count b - page_count\<rparr>) e
                 in Inr (mf_finish_new H page_count hp e m))
           else if bh_page_count (hdrs e freep) = page_count
           then (case hp of
               None \<Rightarrow>
                 let (ok, e) = alloc e
                 in if \<not> ok then Inr (None, e, m)
                    else ebind (mf_rem_free m) (\<lambda>(hp, m).
                      let e = upd_hdr hp (\<lambda>b. b\<lparr>bh_data := fresh_data H m page_count\<rparr>) e
                      in Inr (mf_finish_new H page_count hp e m))
             | Some hp \<Rightarrow>
                 ebind (mf_rem_free m) (\<lambda>(freep, m).
                   let e = upd_hdr hp (\<lambda>b. b\<lparr>bh_bnum := bh_bnum (hdrs e freep)\<rparr>) e
                   in Inr (mf_finish_new H page_count hp e m)))
           else mf_new_number H negative page_count hp e m
       | [] \<Rightarrow> mf_new_number H negative page_count hp e m)"

definition mf_front :: "vim_h \<Rightarrow> nat \<Rightarrow> env \<Rightarrow> memfile \<Rightarrow> nat option \<times> env \<times> memfile" where
  "mf_front H hp e m =
     (let e = upd_hdr hp (\<lambda>b. b\<lparr>bh_locked := True\<rparr>) e;
          (e, m) = mf_ins_used hp e m
      in (Some hp, e, mf_ins_hash H hp e m))"

definition mf_get :: "vim_h \<Rightarrow> int \<Rightarrow> nat \<Rightarrow> env \<Rightarrow> memfile \<Rightarrow> (nat option \<times> env \<times> memfile) cres" where
  "mf_get H nr page_count e m =
     (if nr \<ge> mf_blocknr_max m \<or> nr \<le> mf_blocknr_min m then Inr (None, e, m)
      else case mf_find_hash H nr e m of
             None \<Rightarrow>
               if nr < 0 \<or> nr \<ge> mf_infile_count m then Inr (None, e, m)
               else ebind (mf_release H page_count e m) (\<lambda>(hp, e, m).
                      ebind (mf_have_hdr H m page_count hp e) (\<lambda>(hp, e).
                        case hp of
                          None \<Rightarrow> Inr (None, e, m)
                        | Some hp \<Rightarrow>
                            let e = upd_hdr hp (\<lambda>b. b\<lparr>bh_bnum := nr, bh_dirty := False, bh_locked := False, bh_page_count := page_count\<rparr>) e;
                                (ok, e) = mf_read hp e m
                            in if \<not> ok then Inr (None, e, m) else Inr (mf_front H hp e m)))
           | Some hp \<Rightarrow>
               let (e, m) = mf_rem_used hp e m;
                   m = mf_rem_hash H hp e m
               in Inr (mf_front H hp e m))"

definition mf_put :: "vim_h \<Rightarrow> nat \<Rightarrow> bool \<Rightarrow> bool \<Rightarrow> env \<Rightarrow> memfile \<Rightarrow> (env \<times> memfile) cres" where
  "mf_put H hp dirty infile e m =
     (let e = upd_hdr hp (\<lambda>b. b\<lparr>bh_locked := False, bh_dirty := bh_dirty b \<or> dirty\<rparr>) e;
          m = (if dirty then m\<lparr>mf_dirty := True\<rparr> else m)
      in if infile then ebind (mf_trans_add H hp e m) (\<lambda>(_, e, m). Inr (e, m)) else Inr (e, m))"

definition mf_free :: "vim_h \<Rightarrow> nat \<Rightarrow> env \<Rightarrow> memfile \<Rightarrow> env \<times> memfile" where
  "mf_free H hp e m =
     (let m = mf_rem_hash H hp e m;
          (e, m) = mf_rem_used hp e m
      in if bh_bnum (hdrs e hp) < 0 then (e, m\<lparr>mf_neg_count := mf_neg_count m - 1\<rparr>) else (e, mf_ins_free hp m))"

text \<open>The loop of \<open>mf_sync\<close> over the used list from its end; the first component of the result tells
  whether the end of the list was reached.\<close>

fun sync_loop :: "vim_h \<Rightarrow> bool \<Rightarrow> bool \<Rightarrow> nat list \<Rightarrow> bool \<Rightarrow> env \<Rightarrow> memfile \<Rightarrow> (bool \<times> bool \<times> env \<times> memfile) cres" where
  "sync_loop H all check_char [] status e m = Inr (True, status, e, m)"
| "sync_loop H all check_char (hp # hs) status e m =
     (let nr = bh_bnum (hdrs e hp)
      in if (all \<or> nr \<ge> 0) \<and> bh_dirty (hdrs e hp) \<and> (status \<or> nr \<ge> 0 \<and> nr < mf_infile_count m)
         then ebind (mf_write H hp e m) (\<lambda>(ok, e, m).
           if \<not> ok \<and> \<not> status then Inr (False, False, e, m)
           else let status = (status \<and> ok);
                    (c, e) = (if check_char then mch_char_avail e else (False, e))
                in if c then Inr (False, status, e, m) else sync_loop H all check_char hs status e m)
         else sync_loop H all check_char hs status e m)"

definition mf_sync :: "vim_h \<Rightarrow> bool \<Rightarrow> bool \<Rightarrow> env \<Rightarrow> memfile \<Rightarrow> (bool \<times> env \<times> memfile) cres" where
  "mf_sync H all check_char e m =
     (if mf_fd m < 0 then Inr (False, e, m\<lparr>mf_dirty := False\<rparr>)
      else ebind (sync_loop H all check_char (rev (mf_used m)) True e m) (\<lambda>(finished, status, e, m).
        let m = (if finished \<or> \<not> status then m\<lparr>mf_dirty := False\<rparr> else m);
            (fs, e) = syscall e
        in Inr (status \<and> fs = None, e, m)))"

definition mf_fullname :: "memfile \<Rightarrow> memfile" where
  "mf_fullname m = (if mf_fname m \<noteq> None \<and> mf_xfname m \<noteq> None then m\<lparr>mf_fname := mf_xfname m, mf_xfname := None\<rparr> else m)"

definition mf_need_trans :: "memfile \<Rightarrow> bool" where
  "mf_need_trans m \<longleftrightarrow> mf_fname m \<noteq> None \<and> mf_neg_count m > 0"

text \<open>The counts that \<open>mf_statistics\<close> prints: used, locked, dirty, negative and free blocks.\<close>

definition mf_statistics :: "env \<Rightarrow> memfile \<Rightarrow> nat \<times> nat \<times> nat \<times> nat \<times> nat" where
  "mf_statistics e m =
     (length (mf_used m), length (filter (\<lambda>hp. bh_locked (hdrs e hp)) (mf_used m)),
      length (filter (\<lambda>hp. bh_dirty (hdrs e hp)) (mf_used m)),
      length (filter (\<lambda>hp. bh_bnum (hdrs e hp) < 0) (mf_used m)), length (mf_free_first m))"

end
