(* ===== verification/Vim_Swap.thy ===== *)
theory Vim_Swap
  imports Vim_Memfile
begin

text \<open>
  The memory file as virtual memory: the invariant of \<open>vim/src/memfile.c\<close> and what every operation
  does to the contents of the blocks.

  \<open>L\<close> maps the numbers of the blocks in use to their page counts. \<open>mf_inv\<close> relates it to the lists, the
  headers and the file; \<open>holds\<close> is the content of a block, in memory or in the file.
\<close>

subsection \<open>The invariant\<close>

definition pages :: "int \<Rightarrow> nat \<Rightarrow> int set" where
  "pages b c = {b..<b + int c}"

definition on_disk :: "memfile \<Rightarrow> int \<Rightarrow> nat \<Rightarrow> byte list" where
  "on_disk m b c = mem_read (mf_page_size m * nat b) (mf_page_size m * c) (disk m)"

text \<open>The lists: used, free and hash lists agree with each other and with the count of used pages.\<close>

definition wf_lists :: "vim_h \<Rightarrow> (nat \<Rightarrow> bhdr) \<Rightarrow> nat \<Rightarrow> memfile \<Rightarrow> bool" where
  "wf_lists H hs nx m \<longleftrightarrow>
     distinct (mf_used m) \<and> distinct (mf_free_first m) \<and> set (mf_used m) \<inter> set (mf_free_first m) = {} \<and>
     (\<forall>hp\<in>set (mf_used m) \<union> set (mf_free_first m). hp < nx) \<and>
     (\<forall>h. distinct (mf_hash m h) \<and> set (mf_hash m h) = {hp\<in>set (mf_used m). MEMHASH H (bh_bnum (hs hp)) = h}) \<and>
     mf_used_count m = (\<Sum>hp\<in>set (mf_used m). int (bh_page_count (hs hp)))"

text \<open>The numbers: every block in memory is one of \<open>L\<close>, negative blocks are in memory, all numbers are
  within the limits.\<close>

definition wf_numbers :: "(int \<rightharpoonup> nat) \<Rightarrow> (nat \<Rightarrow> bhdr) \<Rightarrow> memfile \<Rightarrow> bool" where
  "wf_numbers L hs m \<longleftrightarrow>
     (\<forall>hp\<in>set (mf_used m). L (bh_bnum (hs hp)) = Some (bh_page_count (hs hp)) \<and>
        length (bh_data (hs hp)) = mf_page_size m * bh_page_count (hs hp)) \<and>
     inj_on (\<lambda>hp. bh_bnum (hs hp)) (set (mf_used m)) \<and>
     (\<forall>b c. L b = Some c \<longrightarrow> 0 < c \<and> (b < 0 \<longrightarrow> mf_blocknr_min m < b \<and> b \<in> (\<lambda>hp. bh_bnum (hs hp)) ` set (mf_used m)) \<and>
        (0 \<le> b \<longrightarrow> b + int c \<le> mf_blocknr_max m)) \<and>
     (\<forall>f\<in>set (mf_free_first m). 0 \<le> bh_bnum (hs f) \<and> 0 < bh_page_count (hs f) \<and>
        bh_bnum (hs f) + int (bh_page_count (hs f)) \<le> mf_blocknr_max m) \<and>
     mf_blocknr_min m < 0 \<and> 0 \<le> mf_blocknr_max m \<and> 0 < mf_page_size m"

text \<open>The pages of the file: no two blocks, in use or free, overlap.\<close>

definition wf_apart :: "(int \<rightharpoonup> nat) \<Rightarrow> (nat \<Rightarrow> bhdr) \<Rightarrow> memfile \<Rightarrow> bool" where
  "wf_apart L hs m \<longleftrightarrow>
     (\<forall>b c b' c'. L b = Some c \<longrightarrow> L b' = Some c' \<longrightarrow> b \<noteq> b' \<longrightarrow> 0 \<le> b \<longrightarrow> 0 \<le> b' \<longrightarrow> pages b c \<inter> pages b' c' = {}) \<and>
     (\<forall>f\<in>set (mf_free_first m). \<forall>b c. L b = Some c \<longrightarrow> 0 \<le> b \<longrightarrow> pages (bh_bnum (hs f)) (bh_page_count (hs f)) \<inter> pages b c = {}) \<and>
     (\<forall>f\<in>set (mf_free_first m). \<forall>f'\<in>set (mf_free_first m). f \<noteq> f' \<longrightarrow>
        pages (bh_bnum (hs f)) (bh_page_count (hs f)) \<inter> pages (bh_bnum (hs f')) (bh_page_count (hs f')) = {})"

text \<open>The file: blocks not in memory are in the file, clean blocks have the same data there.\<close>

definition wf_file :: "(int \<rightharpoonup> nat) \<Rightarrow> (nat \<Rightarrow> bhdr) \<Rightarrow> memfile \<Rightarrow> bool" where
  "wf_file L hs m \<longleftrightarrow>
     0 \<le> mf_infile_count m \<and> mf_page_size m * nat (mf_infile_count m) \<le> length (disk m) \<and>
     (\<forall>b c. L b = Some c \<longrightarrow> 0 \<le> b \<longrightarrow> b \<notin> (\<lambda>hp. bh_bnum (hs hp)) ` set (mf_used m) \<longrightarrow> b + int c \<le> mf_infile_count m) \<and>
     (\<forall>hp\<in>set (mf_used m). \<not> bh_dirty (hs hp) \<longrightarrow> 0 \<le> bh_bnum (hs hp) \<and>
        bh_bnum (hs hp) + int (bh_page_count (hs hp)) \<le> mf_infile_count m \<and>
        (bh_locked (hs hp) \<or> on_disk m (bh_bnum (hs hp)) (bh_page_count (hs hp)) = bh_data (hs hp)))"

text \<open>The translations: one per old number, and old numbers are not in use.\<close>

definition wf_trans :: "vim_h \<Rightarrow> (int \<rightharpoonup> nat) \<Rightarrow> memfile \<Rightarrow> bool" where
  "wf_trans H L m \<longleftrightarrow>
     (\<forall>h. distinct (map fst (mf_trans m h)) \<and>
        (\<forall>np\<in>set (mf_trans m h). MEMHASH H (fst np) = h \<and> fst np < 0 \<and> mf_blocknr_min m < fst np \<and>
          L (fst np) = None \<and> 0 \<le> snd np))"

definition mf_inv :: "vim_h \<Rightarrow> (int \<rightharpoonup> nat) \<Rightarrow> (nat \<Rightarrow> bhdr) \<Rightarrow> nat \<Rightarrow> memfile \<Rightarrow> bool" where
  "mf_inv H L hs nx m \<longleftrightarrow> wf_lists H hs nx m \<and> wf_numbers L hs m \<and> wf_apart L hs m \<and> wf_file L hs m \<and> wf_trans H L m"

lemmas wf_defs = wf_lists_def wf_numbers_def wf_apart_def wf_file_def wf_trans_def

text \<open>The content of block \<open>b\<close> of \<open>c\<close> pages.\<close>

definition holds :: "(nat \<Rightarrow> bhdr) \<Rightarrow> memfile \<Rightarrow> int \<Rightarrow> nat \<Rightarrow> byte list \<Rightarrow> bool" where
  "holds hs m b c d \<longleftrightarrow>
     (if b \<in> (\<lambda>hp. bh_bnum (hs hp)) ` set (mf_used m)
      then \<exists>hp\<in>set (mf_used m). bh_bnum (hs hp) = b \<and> bh_data (hs hp) = d else on_disk m b c = d)"

text \<open>Every block of \<open>L\<close> is in \<open>L'\<close>, with the same content, under a number that is the old one or the
  translation of a negative number.\<close>

definition keeps :: "vim_h \<Rightarrow> (int \<rightharpoonup> nat) \<Rightarrow> (nat \<Rightarrow> bhdr) \<Rightarrow> memfile \<Rightarrow> (int \<rightharpoonup> nat) \<Rightarrow> (nat \<Rightarrow> bhdr) \<Rightarrow> memfile \<Rightarrow> bool" where
  "keeps H L hs m L' hs' m' \<longleftrightarrow>
     (\<forall>h. set (mf_trans m h) \<subseteq> set (mf_trans m' h)) \<and>
     (\<forall>b c d. L b = Some c \<longrightarrow> holds hs m b c d \<longrightarrow>
        (\<exists>b'. L' b' = Some c \<and> holds hs' m' b' c d \<and> (b' = b \<or> b < 0 \<and> (b, b') \<in> set (mf_trans m' (MEMHASH H b)))))"

lemma keeps_refl [simp]: "keeps H L hs m L hs m"
  by (auto simp: keeps_def)

lemma keeps_trans:
  assumes "keeps H L hs m L' hs' m'" "keeps H L' hs' m' L'' hs'' m''" "wf_trans H L' m'"
  shows "keeps H L hs m L'' hs'' m''"
  unfolding keeps_def
proof (intro conjI allI impI)
  show "set (mf_trans m h) \<subseteq> set (mf_trans m'' h)" for h using assms(1,2) unfolding keeps_def by blast
  fix b c d assume "L b = Some c" "holds hs m b c d"
  then obtain b' where b': "L' b' = Some c" "holds hs' m' b' c d" "b' = b \<or> b < 0 \<and> (b, b') \<in> set (mf_trans m' (MEMHASH H b))"
    using assms(1) unfolding keeps_def by blast
  then obtain b'' where b'': "L'' b'' = Some c" "holds hs'' m'' b'' c d" "b'' = b' \<or> b' < 0 \<and> (b', b'') \<in> set (mf_trans m'' (MEMHASH H b'))"
    using assms(2) unfolding keeps_def by blast
  have "b'' = b \<or> b < 0 \<and> (b, b'') \<in> set (mf_trans m'' (MEMHASH H b))"
  proof (cases "b' = b")
    case False
    then have "0 \<le> b'" "(b, b') \<in> set (mf_trans m'' (MEMHASH H b))" "b < 0"
      using b'(3) assms(2,3) unfolding keeps_def wf_trans_def by fastforce+
    then show ?thesis using b''(3) by auto
  qed (use b''(3) in auto)
  then show "\<exists>b'. L'' b' = Some c \<and> holds hs'' m'' b' c d \<and> (b' = b \<or> b < 0 \<and> (b, b') \<in> set (mf_trans m'' (MEMHASH H b)))"
    using b'' by blast
qed

subsection \<open>Writing to the file\<close>

lemma length_write_at [simp]: "length (write_at off src file) = max (length file) (off + length src)"
  by (simp add: write_at_def mem_write_def)

lemma write_at_same: "mem_read off (length src) (write_at off src file) = src"
  by (simp add: write_at_def mem_read_def mem_write_def)

lemma write_at_apart:
  assumes "x + n \<le> off \<or> off + length src \<le> x" "x + n \<le> length file"
  shows "mem_read x n (write_at off src file) = mem_read x n file"
proof (cases "x + n \<le> off")
  case True
  then have "n \<le> off - x" "n \<le> length file - x" using assms(2) by linarith+
  then show ?thesis using True assms(2) by (simp add: write_at_def mem_write_def mem_read_def drop_take)
next
  case False
  then have "off + length src \<le> x" using assms(1) by blast
  then show ?thesis using assms(2) by (simp add: write_at_def mem_write_def mem_read_def)
qed

lemma pages_empty_iff: "0 < c \<Longrightarrow> 0 < c' \<Longrightarrow> pages b c \<inter> pages b' c' = {} \<longleftrightarrow> b + int c \<le> b' \<or> b' + int c' \<le> b"
proof
  assume "pages b c \<inter> pages b' c' = {}" "0 < c" "0 < c'"
  moreover from this have "max b b' \<notin> pages b c \<inter> pages b' c'" by blast
  ultimately show "b + int c \<le> b' \<or> b' + int c' \<le> b" by (auto simp: pages_def)
qed (auto simp: pages_def)

lemma page_bytes:
  assumes "0 \<le> b" "0 \<le> b'" "b + int c \<le> b'"
  shows "ps * nat b + ps * c \<le> ps * nat b'"
proof -
  have "nat b + c \<le> nat b'" using assms by linarith
  then show ?thesis by (metis distrib_left mult_le_mono2)
qed

lemma on_disk_apart:
  assumes "0 \<le> nr" "0 \<le> b" "0 < c" "0 < c0" "length src \<le> mf_page_size m * c0" "pages nr c0 \<inter> pages b c = {}"
    "b + int c \<le> k" "mf_page_size m * nat k \<le> length (disk m)"
  shows "on_disk (m\<lparr>disk := write_at (mf_page_size m * nat nr) src (disk m)\<rparr>) b c = on_disk m b c"
proof -
  let ?p = "mf_page_size m"
  have "nr + int c0 \<le> b \<or> b + int c \<le> nr" using assms(3,4,6) by (auto simp: pages_empty_iff)
  then have "?p * nat nr + ?p * c0 \<le> ?p * nat b \<or> ?p * nat b + ?p * c \<le> ?p * nat nr"
    using page_bytes [OF assms(1,2)] page_bytes [OF assms(2,1)] by blast
  moreover have "?p * nat b + ?p * c \<le> ?p * nat k" using assms(2,3,7) by (intro page_bytes) auto
  ultimately show ?thesis unfolding on_disk_def using assms(5,8) by (simp, intro write_at_apart) linarith+
qed

text \<open>The blocks whose content is read from the file: those not in memory, and the clean ones.\<close>

definition in_file_only :: "(int \<rightharpoonup> nat) \<Rightarrow> (nat \<Rightarrow> bhdr) \<Rightarrow> memfile \<Rightarrow> int \<Rightarrow> nat \<Rightarrow> bool" where
  "in_file_only L hs m b c \<longleftrightarrow> L b = Some c \<and> 0 \<le> b \<and>
     (b \<notin> (\<lambda>hp. bh_bnum (hs hp)) ` set (mf_used m) \<or> (\<exists>hp\<in>set (mf_used m). bh_bnum (hs hp) = b \<and> \<not> bh_dirty (hs hp)))"

lemma in_file_bound:
  assumes "mf_inv H L hs nx m" "in_file_only L hs m b c"
  shows "b + int c \<le> mf_infile_count m" "0 < c"
  using assms unfolding mf_inv_def wf_file_def wf_numbers_def in_file_only_def by fastforce+

definition agree :: "(int \<rightharpoonup> nat) \<Rightarrow> (nat \<Rightarrow> bhdr) \<Rightarrow> memfile \<Rightarrow> (nat \<Rightarrow> bhdr) \<Rightarrow> memfile \<Rightarrow> bool" where
  "agree L hs m hs' m' \<longleftrightarrow> (\<forall>b c d. L b = Some c \<longrightarrow> holds hs m b c d \<longrightarrow> holds hs' m' b c d)"

lemma agree_refl [simp]: "agree L hs m hs m"
  by (simp add: agree_def)

lemma agree_trans: "agree L hs m hs' m' \<Longrightarrow> agree L hs' m' hs'' m'' \<Longrightarrow> agree L hs m hs'' m''"
  by (auto simp: agree_def)

lemma wf_fileI:
  assumes "0 \<le> mf_infile_count m" "mf_page_size m * nat (mf_infile_count m) \<le> length (disk m)"
    "\<And>b c. L b = Some c \<Longrightarrow> 0 \<le> b \<Longrightarrow> b \<notin> (\<lambda>hp. bh_bnum (hs hp)) ` set (mf_used m) \<Longrightarrow> b + int c \<le> mf_infile_count m"
    "\<And>hp. hp \<in> set (mf_used m) \<Longrightarrow> \<not> bh_dirty (hs hp) \<Longrightarrow> 0 \<le> bh_bnum (hs hp)"
    "\<And>hp. hp \<in> set (mf_used m) \<Longrightarrow> \<not> bh_dirty (hs hp) \<Longrightarrow> bh_bnum (hs hp) + int (bh_page_count (hs hp)) \<le> mf_infile_count m"
    "\<And>hp. hp \<in> set (mf_used m) \<Longrightarrow> \<not> bh_dirty (hs hp) \<Longrightarrow> bh_locked (hs hp) \<or> on_disk m (bh_bnum (hs hp)) (bh_page_count (hs hp)) = bh_data (hs hp)"
  shows "wf_file L hs m"
  unfolding wf_file_def using assms by blast

lemma wf_fileD:
  assumes "wf_file L hs m"
  shows "0 \<le> mf_infile_count m" "mf_page_size m * nat (mf_infile_count m) \<le> length (disk m)"
    "L b = Some c \<Longrightarrow> 0 \<le> b \<Longrightarrow> b \<notin> (\<lambda>hp. bh_bnum (hs hp)) ` set (mf_used m) \<Longrightarrow> b + int c \<le> mf_infile_count m"
    "hp \<in> set (mf_used m) \<Longrightarrow> \<not> bh_dirty (hs hp) \<Longrightarrow> 0 \<le> bh_bnum (hs hp)"
    "hp \<in> set (mf_used m) \<Longrightarrow> \<not> bh_dirty (hs hp) \<Longrightarrow> bh_bnum (hs hp) + int (bh_page_count (hs hp)) \<le> mf_infile_count m"
    "hp \<in> set (mf_used m) \<Longrightarrow> \<not> bh_dirty (hs hp) \<Longrightarrow> bh_locked (hs hp) \<or> on_disk m (bh_bnum (hs hp)) (bh_page_count (hs hp)) = bh_data (hs hp)"
  using assms unfolding wf_file_def by blast+

lemma mf_invD:
  assumes "mf_inv H L hs nx m"
  shows "wf_lists H hs nx m" "wf_numbers L hs m" "wf_apart L hs m" "wf_file L hs m" "wf_trans H L m"
  using assms by (simp_all add: mf_inv_def)

lemma file_fields [simp]:
  "wf_lists H hs nx (m\<lparr>disk := d\<rparr>) = wf_lists H hs nx m" "wf_lists H hs nx (m\<lparr>mf_infile_count := n\<rparr>) = wf_lists H hs nx m"
  "wf_numbers L hs (m\<lparr>disk := d\<rparr>) = wf_numbers L hs m" "wf_numbers L hs (m\<lparr>mf_infile_count := n\<rparr>) = wf_numbers L hs m"
  "wf_apart L hs (m\<lparr>disk := d\<rparr>) = wf_apart L hs m" "wf_apart L hs (m\<lparr>mf_infile_count := n\<rparr>) = wf_apart L hs m"
  "wf_trans H L (m\<lparr>disk := d\<rparr>) = wf_trans H L m" "wf_trans H L (m\<lparr>mf_infile_count := n\<rparr>) = wf_trans H L m"
  by (simp_all add: wf_defs)

text \<open>Writing where no such block lies keeps the invariant and all contents.\<close>

lemma write_keeps:
  assumes inv: "mf_inv H L hs nx m" and nr: "0 \<le> nr" "0 < c0" "length src \<le> mf_page_size m * c0"
    and apart: "\<And>b c. in_file_only L hs m b c \<Longrightarrow> pages nr c0 \<inter> pages b c = {}"
  shows "mf_inv H L hs nx (m\<lparr>disk := write_at (mf_page_size m * nat nr) src (disk m)\<rparr>)"
    "agree L hs m hs (m\<lparr>disk := write_at (mf_page_size m * nat nr) src (disk m)\<rparr>)"
proof -
  let ?m = "m\<lparr>disk := write_at (mf_page_size m * nat nr) src (disk m)\<rparr>"
  have room: "mf_page_size m * nat (mf_infile_count m) \<le> length (disk m)" using inv by (simp add: mf_inv_def wf_file_def)
  have same: "on_disk ?m b c = on_disk m b c" if "in_file_only L hs m b c" for b c
    using that in_file_bound [OF inv that] apart [OF that] room nr
    by (intro on_disk_apart [where c = c and src = src]) (auto simp: in_file_only_def)
  have clean: "on_disk ?m (bh_bnum (hs hp)) (bh_page_count (hs hp)) = on_disk m (bh_bnum (hs hp)) (bh_page_count (hs hp))"
    if "hp \<in> set (mf_used m)" "\<not> bh_dirty (hs hp)" for hp
    using that inv by (intro same) (auto simp: in_file_only_def mf_inv_def wf_numbers_def wf_file_def)
  note f = wf_fileD [OF mf_invD(4) [OF inv]]
  have "wf_file L hs ?m"
  proof (rule wf_fileI)
    show "mf_page_size ?m * nat (mf_infile_count ?m) \<le> length (disk ?m)" using room by simp
    show "bh_locked (hs hp) \<or> on_disk ?m (bh_bnum (hs hp)) (bh_page_count (hs hp)) = bh_data (hs hp)"
      if "hp \<in> set (mf_used ?m)" "\<not> bh_dirty (hs hp)" for hp using that f(6) clean by simp
  qed (use f in simp_all)
  then show "mf_inv H L hs nx ?m" using inv by (simp add: mf_inv_def)
  show "agree L hs m hs ?m"
    unfolding agree_def
  proof (intro allI impI)
    fix b c d assume "L b = Some c" "holds hs m b c d"
    moreover have "0 \<le> b" if "b \<notin> (\<lambda>hp. bh_bnum (hs hp)) ` set (mf_used m)" "L b = Some c"
      using inv that unfolding mf_inv_def wf_numbers_def by (meson not_le)
    ultimately show "holds hs ?m b c d" using same [of b c] by (auto simp: holds_def in_file_only_def split: if_splits)
  qed
qed

lemma infile_keeps:
  assumes "mf_inv H L hs nx m" "mf_infile_count m \<le> n" "mf_page_size m * nat n \<le> length (disk m)"
  shows "mf_inv H L hs nx (m\<lparr>mf_infile_count := n\<rparr>)" "agree L hs m hs (m\<lparr>mf_infile_count := n\<rparr>)"
proof -
  have d: "on_disk (m\<lparr>mf_infile_count := n\<rparr>) = on_disk m" by (simp add: on_disk_def fun_eq_iff)
  note f = wf_fileD [OF mf_invD(4) [OF assms(1)]]
  have "wf_file L hs (m\<lparr>mf_infile_count := n\<rparr>)"
    by (rule wf_fileI, simp_all add: d) (use f assms(2,3) in \<open>force+\<close>)
  then show "mf_inv H L hs nx (m\<lparr>mf_infile_count := n\<rparr>)" using assms(1) by (simp add: mf_inv_def)
  show "agree L hs m hs (m\<lparr>mf_infile_count := n\<rparr>)" by (simp add: agree_def holds_def d)
qed

text \<open>A block whose data is in the file may be marked clean.\<close>

lemma clean_keeps:
  assumes "mf_inv H L hs nx m" "hp \<in> set (mf_used m)" "0 \<le> bh_bnum (hs hp)"
    "bh_bnum (hs hp) + int (bh_page_count (hs hp)) \<le> mf_infile_count m"
    "on_disk m (bh_bnum (hs hp)) (bh_page_count (hs hp)) = bh_data (hs hp)"
  shows "mf_inv H L (hs(hp := (hs hp)\<lparr>bh_dirty := False\<rparr>)) nx m" "agree L hs m (hs(hp := (hs hp)\<lparr>bh_dirty := False\<rparr>)) m"
proof -
  let ?hs = "hs(hp := (hs hp)\<lparr>bh_dirty := False\<rparr>)"
  have f: "bh_bnum (?hs x) = bh_bnum (hs x)" "bh_page_count (?hs x) = bh_page_count (hs x)" "bh_data (?hs x) = bh_data (hs x)"
    "bh_locked (?hs x) = bh_locked (hs x)" "\<not> bh_dirty (?hs x) \<longleftrightarrow> x = hp \<or> \<not> bh_dirty (hs x)" for x by auto
  note g = wf_fileD [OF mf_invD(4) [OF assms(1)]]
  have "wf_file L ?hs m" by (rule wf_fileI, unfold f) (use g assms in blast)+
  moreover have "wf_lists H ?hs nx m" "wf_numbers L ?hs m" "wf_apart L ?hs m"
    using mf_invD [OF assms(1)] unfolding wf_lists_def wf_numbers_def wf_apart_def f by blast+
  ultimately show "mf_inv H L ?hs nx m" using mf_invD(5) [OF assms(1)] by (simp add: mf_inv_def)
  show "agree L hs m ?hs m" unfolding agree_def holds_def f by blast
qed

subsection \<open>\<open>mf_write\<close>\<close>

lemma syscall_eq: "syscall e = (if faults e = [] then None else hd (faults e), e\<lparr>faults := tl (faults e)\<rparr>)"
  by (cases e) (auto simp: syscall_def split: list.splits)

lemma alloc_eq: "alloc e = (allocs e = [] \<or> hd (allocs e), e\<lparr>allocs := tl (allocs e)\<rparr>)"
  by (cases e) (auto simp: alloc_def split: list.splits)

lemma target_block:
  assumes "mf_inv H L hs nx m" "h \<in> set (mf_used m)" "0 \<le> bh_bnum (hs h)" "bh_dirty (hs h)" "in_file_only L hs m b c"
  shows "pages (bh_bnum (hs h)) (bh_page_count (hs h)) \<inter> pages b c = {}"
proof -
  have n: "wf_numbers L hs m" "wf_apart L hs m" using mf_invD [OF assms(1)] by blast+
  have "L (bh_bnum (hs h)) = Some (bh_page_count (hs h))" using n(1) assms(2) by (simp add: wf_numbers_def)
  moreover have "b \<noteq> bh_bnum (hs h)"
    using n(1) assms(2,4,5) by (auto simp: in_file_only_def wf_numbers_def inj_on_def)
  ultimately show ?thesis using n(2) assms(3,5) unfolding wf_apart_def in_file_only_def by metis
qed

lemma target_dummy:
  assumes "mf_inv H L hs nx m" "in_file_only L hs m b c"
  shows "pages (mf_infile_count m) 1 \<inter> pages b c = {}"
  using in_file_bound [OF assms] by (auto simp: pages_def)

definition same_but_dirty :: "(nat \<Rightarrow> bhdr) \<Rightarrow> (nat \<Rightarrow> bhdr) \<Rightarrow> bool" where
  "same_but_dirty hs hs' \<longleftrightarrow> (\<forall>x. hs' x = (hs x)\<lparr>bh_dirty := bh_dirty (hs' x)\<rparr> \<and> (bh_dirty (hs' x) \<longrightarrow> bh_dirty (hs x)))"

lemma same_but_dirtyD:
  assumes "same_but_dirty hs hs'"
  shows "bh_bnum (hs' x) = bh_bnum (hs x)" "bh_page_count (hs' x) = bh_page_count (hs x)" "bh_data (hs' x) = bh_data (hs x)"
    "bh_locked (hs' x) = bh_locked (hs x)" "bh_dirty (hs' x) \<Longrightarrow> bh_dirty (hs x)"
proof -
  have e: "hs' x = (hs x)\<lparr>bh_dirty := bh_dirty (hs' x)\<rparr>" and "bh_dirty (hs' x) \<longrightarrow> bh_dirty (hs x)"
    using assms by (simp_all add: same_but_dirty_def)
  then show "bh_dirty (hs' x) \<Longrightarrow> bh_dirty (hs x)" by blast
  show "bh_bnum (hs' x) = bh_bnum (hs x)" "bh_page_count (hs' x) = bh_page_count (hs x)" "bh_data (hs' x) = bh_data (hs x)"
    "bh_locked (hs' x) = bh_locked (hs x)" by (subst e, simp)+
qed

lemma same_but_dirty_trans: "same_but_dirty a b \<Longrightarrow> same_but_dirty b c \<Longrightarrow> same_but_dirty a c"
  unfolding same_but_dirty_def by (metis (no_types, lifting) bhdr.surjective bhdr.update_convs(3))

lemma same_but_dirty_clean: "same_but_dirty hs (hs(h := (hs h)\<lparr>bh_dirty := False\<rparr>))"
  by (simp add: same_but_dirty_def)

text \<open>What a call of \<open>mf_write\<close> on a numbered block \<open>hp\<close> leaves behind.\<close>

definition written :: "vim_h \<Rightarrow> (int \<rightharpoonup> nat) \<Rightarrow> nat \<Rightarrow> env \<Rightarrow> memfile \<Rightarrow> bool \<Rightarrow> env \<Rightarrow> memfile \<Rightarrow> bool" where
  "written H L hp e m ok e' m' \<longleftrightarrow>
     mf_inv H L (hdrs e') (next_hdr e') m' \<and> agree L (hdrs e) m (hdrs e') m' \<and> same_but_dirty (hdrs e) (hdrs e') \<and>
     (\<exists>fs. e' = e\<lparr>hdrs := hdrs e', faults := fs\<rparr>) \<and> (\<exists>d n. m' = m\<lparr>disk := d, mf_infile_count := n\<rparr>) \<and>
     (ok \<longrightarrow> \<not> bh_dirty (hdrs e' hp)) \<and> (faults e = [] \<longrightarrow> ok \<and> faults e' = [])"

lemma written_step:
  assumes inv: "mf_inv H L (hdrs e) (next_hdr e) m" and nr: "0 \<le> nr" "nr \<le> mf_infile_count m"
    and c0: "0 < c0" "length src = mf_page_size m * c0"
    and apart: "\<And>b c. in_file_only L (hdrs e) m b c \<Longrightarrow> pages nr c0 \<inter> pages b c = {}"
    and m': "m' = (let m1 = m\<lparr>disk := write_at (mf_page_size m * nat nr) src (disk m)\<rparr>
                   in if mf_infile_count m1 < nr + int c0 then m1\<lparr>mf_infile_count := nr + int c0\<rparr> else m1)"
  shows "mf_inv H L (hdrs e) (next_hdr e) m'" "agree L (hdrs e) m (hdrs e) m'" "on_disk m' nr c0 = src"
    "mf_infile_count m' = max (mf_infile_count m) (nr + int c0)" "\<exists>d n. m' = m\<lparr>disk := d, mf_infile_count := n\<rparr>"
proof -
  let ?m = "m\<lparr>disk := write_at (mf_page_size m * nat nr) src (disk m)\<rparr>"
  have w: "mf_inv H L (hdrs e) (next_hdr e) ?m" "agree L (hdrs e) m (hdrs e) ?m"
    using write_keeps [OF inv nr(1) c0(1) _ apart, of src] c0(2) by simp_all
  have e: "m' = ?m\<lparr>mf_infile_count := max (mf_infile_count m) (nr + int c0)\<rparr>" using m' by (simp add: Let_def max_def)
  have "mf_page_size m * nat nr + mf_page_size m * c0 = mf_page_size m * nat (nr + int c0)"
    using nr(1) by (simp add: nat_add_distrib distrib_left)
  then have "mf_page_size ?m * nat (max (mf_infile_count m) (nr + int c0)) \<le> length (disk ?m)"
    using wf_fileD(2) [OF mf_invD(4) [OF inv]] c0(2)
    by (cases "mf_infile_count m \<le> nr + int c0") (simp_all add: max_absorb1 max_absorb2 le_max_iff_disj)
  then show "mf_inv H L (hdrs e) (next_hdr e) m'" "agree L (hdrs e) m (hdrs e) m'"
    using infile_keeps [OF w(1), of "max (mf_infile_count m) (nr + int c0)"] agree_trans [OF w(2)] unfolding e by simp_all
  show "on_disk m' nr c0 = src" using write_at_same [of _ src] c0(2) unfolding e on_disk_def by simp
  show "mf_infile_count m' = max (mf_infile_count m) (nr + int c0)" "\<exists>d n. m' = m\<lparr>disk := d, mf_infile_count := n\<rparr>"
    unfolding e by auto
qed

lemma written_refl:
  "mf_inv H L (hdrs e) (next_hdr e) m \<Longrightarrow> faults e \<noteq> [] \<Longrightarrow> written H L hp e m False (e\<lparr>faults := fs\<rparr>) m"
  unfolding written_def by (auto simp: same_but_dirty_def intro!: exI [of _ "disk m"] exI [of _ "mf_infile_count m"])

lemma used_block:
  assumes "mf_inv H L hs nx m" "hp \<in> set (mf_used m)"
  shows "L (bh_bnum (hs hp)) = Some (bh_page_count (hs hp))" "length (bh_data (hs hp)) = mf_page_size m * bh_page_count (hs hp)"
    "0 < bh_page_count (hs hp)"
proof -
  have n: "wf_numbers L hs m" using assms(1) by (rule mf_invD)
  show L: "L (bh_bnum (hs hp)) = Some (bh_page_count (hs hp))" "length (bh_data (hs hp)) = mf_page_size m * bh_page_count (hs hp)"
    using n assms(2) unfolding wf_numbers_def by blast+
  then show "0 < bh_page_count (hs hp)" using n unfolding wf_numbers_def by blast
qed

text \<open>The block that a round of the loop writes: a dirty block in memory, or nothing at the end of the file.\<close>

lemma write_target:
  assumes inv: "mf_inv H L (hdrs e) nx m" and hp: "hp \<in> set (mf_used m)" "0 \<le> bh_bnum (hdrs e hp)" "bh_dirty (hdrs e hp)"
    and beyond: "mf_infile_count m < bh_bnum (hdrs e hp) \<Longrightarrow> mf_find_hash H (mf_infile_count m) e m = Some h"
      "\<not> mf_infile_count m < bh_bnum (hdrs e hp) \<Longrightarrow> h = hp"
    and nr: "nr = min (mf_infile_count m) (bh_bnum (hdrs e hp))"
  shows "h \<in> set (mf_used m)" "bh_bnum (hdrs e h) = nr" "bh_dirty (hdrs e h)" "0 \<le> nr" "nr \<le> mf_infile_count m"
    "0 < bh_page_count (hdrs e h)" "length (bh_data (hdrs e h)) = mf_page_size m * bh_page_count (hdrs e h)"
proof -
  note l = mf_invD [OF inv] and f = wf_fileD [OF mf_invD(4) [OF inv]]
  have "h \<in> set (mf_used m) \<and> bh_bnum (hdrs e h) = nr"
  proof (cases "mf_infile_count m < bh_bnum (hdrs e hp)")
    case True
    then have "h \<in> set (mf_hash m (MEMHASH H (mf_infile_count m)))" "bh_bnum (hdrs e h) = mf_infile_count m"
      using beyond(1) unfolding mf_find_hash_def by (auto simp: find_Some_iff)
    then show ?thesis using l(1) True nr by (auto simp: wf_lists_def)
  next
    case False
    then show ?thesis using beyond(2) hp(1) nr by simp
  qed
  then show h: "h \<in> set (mf_used m)" and b: "bh_bnum (hdrs e h) = nr" by blast+
  show n0: "0 \<le> nr" "nr \<le> mf_infile_count m" using nr f(1) hp(2) by auto
  show c: "0 < bh_page_count (hdrs e h)" and "length (bh_data (hdrs e h)) = mf_page_size m * bh_page_count (hdrs e h)"
    using used_block [OF inv h] by blast+
  show "bh_dirty (hdrs e h)"
  proof (cases "mf_infile_count m < bh_bnum (hdrs e hp)")
    case True
    then have "nr = mf_infile_count m" using nr by simp
    then show ?thesis using f(5) [OF h] b c by auto
  qed (use beyond(2) hp(3) in simp)
qed

text \<open>The parts of one round.\<close>

definition wl_nr :: "nat \<Rightarrow> env \<Rightarrow> memfile \<Rightarrow> int" where
  "wl_nr hp e m = min (mf_infile_count m) (bh_bnum (hdrs e hp))"

definition wl_hp2 :: "vim_h \<Rightarrow> nat \<Rightarrow> env \<Rightarrow> memfile \<Rightarrow> nat option" where
  "wl_hp2 H hp e m = (if mf_infile_count m < bh_bnum (hdrs e hp) then mf_find_hash H (mf_infile_count m) e m else Some hp)"

definition wl_pages :: "vim_h \<Rightarrow> nat \<Rightarrow> env \<Rightarrow> memfile \<Rightarrow> nat" where
  "wl_pages H hp e m = (case wl_hp2 H hp e m of None \<Rightarrow> 1 | Some h \<Rightarrow> bh_page_count (hdrs e h))"

definition wl_src :: "vim_h \<Rightarrow> nat \<Rightarrow> env \<Rightarrow> memfile \<Rightarrow> byte list" where
  "wl_src H hp e m = take (mf_page_size m * wl_pages H hp e m)
     (bh_data (hdrs e (case wl_hp2 H hp e m of None \<Rightarrow> hp | Some h \<Rightarrow> h)))"

definition wl_m :: "vim_h \<Rightarrow> nat \<Rightarrow> env \<Rightarrow> memfile \<Rightarrow> memfile" where
  "wl_m H hp e m = (let m1 = m\<lparr>disk := write_at (mf_page_size m * nat (wl_nr hp e m)) (wl_src H hp e m) (disk m)\<rparr>
     in if mf_infile_count m1 < wl_nr hp e m + int (wl_pages H hp e m)
        then m1\<lparr>mf_infile_count := wl_nr hp e m + int (wl_pages H hp e m)\<rparr> else m1)"

definition wl_hs :: "vim_h \<Rightarrow> nat \<Rightarrow> env \<Rightarrow> memfile \<Rightarrow> nat \<Rightarrow> bhdr" where
  "wl_hs H hp e m = (case wl_hp2 H hp e m of None \<Rightarrow> hdrs e | Some h \<Rightarrow> (hdrs e)(h := (hdrs e h)\<lparr>bh_dirty := False\<rparr>))"

definition fault_at :: "nat \<Rightarrow> env \<Rightarrow> nat option" where
  "fault_at k e = (if drop k (faults e) = [] then None else hd (drop k (faults e)))"

lemma fault_at_none: "faults e = [] \<Longrightarrow> fault_at k e = None"
  by (simp add: fault_at_def)

lemma write_loop_unfold:
  "mf_write_loop H (Suc fuel) hp e m =
     (if fault_at 0 e \<noteq> None then Inr (False, e\<lparr>faults := tl (faults e)\<rparr>, m)
      else if fault_at 1 e \<noteq> None
      then Inr (False, e\<lparr>faults := tl (tl (faults e))\<rparr>, m\<lparr>disk := write_at (mf_page_size m * nat (wl_nr hp e m))
             (take (the (fault_at 1 e)) (wl_src H hp e m)) (disk m)\<rparr>)
      else if wl_nr hp e m = bh_bnum (hdrs e hp)
      then Inr (True, e\<lparr>faults := tl (tl (faults e)), hdrs := wl_hs H hp e m\<rparr>, wl_m H hp e m)
      else mf_write_loop H fuel hp (e\<lparr>faults := tl (tl (faults e)), hdrs := wl_hs H hp e m\<rparr>) (wl_m H hp e m))"
proof -
  have nr: "(if mf_infile_count m < bh_bnum (hdrs e hp) then mf_infile_count m else bh_bnum (hdrs e hp)) = wl_nr hp e m"
    by (simp add: wl_nr_def)
  have hp2: "(if mf_infile_count m < bh_bnum (hdrs e hp) then mf_find_hash H (wl_nr hp e m) e m else Some hp) = wl_hp2 H hp e m"
    "(if mf_infile_count m < bh_bnum (hdrs e hp) then mf_find_hash H (mf_infile_count m) e m else Some hp) = wl_hp2 H hp e m"
    by (simp_all add: wl_nr_def wl_hp2_def)
  have b: "bh_bnum (if hp = a then (hdrs e a)\<lparr>bh_dirty := False\<rparr> else hdrs e hp) = bh_bnum (hdrs e hp)" for a by simp
  note defs = wl_pages_def wl_src_def wl_m_def wl_hs_def upd_hdr_def fault_at_def drop_Suc
  show ?thesis
    apply (simp only: mf_write_loop.simps syscall_eq Let_def prod.case nr hp2(1))
    apply (cases "wl_hp2 H hp e m"; cases "faults e"; cases "tl (faults e)")
    apply (simp_all add: b defs Let_def split del: if_split cong del: if_weak_cong)
    done
qed

text \<open>One successful round.\<close>

lemma write_round:
  assumes inv: "mf_inv H L (hdrs e) (next_hdr e) m" and hp: "hp \<in> set (mf_used m)" "0 \<le> bh_bnum (hdrs e hp)" "bh_dirty (hdrs e hp)"
  shows "0 \<le> wl_nr hp e m" "wl_nr hp e m \<le> mf_infile_count m" "0 < wl_pages H hp e m"
    "length (wl_src H hp e m) = mf_page_size m * wl_pages H hp e m"
    "in_file_only L (hdrs e) m b c \<Longrightarrow> pages (wl_nr hp e m) (wl_pages H hp e m) \<inter> pages b c = {}"
    "wl_hp2 H hp e m = Some h \<Longrightarrow> h \<in> set (mf_used m) \<and> bh_bnum (hdrs e h) = wl_nr hp e m \<and> bh_page_count (hdrs e h) = wl_pages H hp e m \<and>
       bh_data (hdrs e h) = wl_src H hp e m"
proof -
  have n: "0 \<le> wl_nr hp e m \<and> wl_nr hp e m \<le> mf_infile_count m"
    using wf_fileD(1) [OF mf_invD(4) [OF inv]] hp(2) by (simp add: wl_nr_def)
  then show "0 \<le> wl_nr hp e m" "wl_nr hp e m \<le> mf_infile_count m" by blast+
  have tgt: "h \<in> set (mf_used m)" "bh_bnum (hdrs e h) = wl_nr hp e m" "bh_dirty (hdrs e h)" "0 < bh_page_count (hdrs e h)"
    "length (bh_data (hdrs e h)) = mf_page_size m * bh_page_count (hdrs e h)" if "wl_hp2 H hp e m = Some h" for h
  proof -
    have "mf_infile_count m < bh_bnum (hdrs e hp) \<Longrightarrow> mf_find_hash H (mf_infile_count m) e m = Some h"
      "\<not> mf_infile_count m < bh_bnum (hdrs e hp) \<Longrightarrow> h = hp" using that by (simp_all add: wl_hp2_def)
    note t = write_target [OF inv hp this wl_nr_def]
    show "h \<in> set (mf_used m)" "bh_bnum (hdrs e h) = wl_nr hp e m" "bh_dirty (hdrs e h)" "0 < bh_page_count (hdrs e h)"
      "length (bh_data (hdrs e h)) = mf_page_size m * bh_page_count (hdrs e h)" by (simp_all add: t)
  qed
  have hpd: "0 < bh_page_count (hdrs e hp)" "length (bh_data (hdrs e hp)) = mf_page_size m * bh_page_count (hdrs e hp)"
    using used_block [OF inv hp(1)] by blast+
  show p: "0 < wl_pages H hp e m" using tgt(4) by (auto simp: wl_pages_def split: option.splits)
  show "length (wl_src H hp e m) = mf_page_size m * wl_pages H hp e m"
  proof (cases "wl_hp2 H hp e m")
    case None
    moreover have "mf_page_size m * 1 \<le> mf_page_size m * bh_page_count (hdrs e hp)" using hpd(1) by (intro mult_le_mono2) simp
    ultimately show ?thesis using hpd(2) by (simp add: wl_src_def wl_pages_def)
  qed (use tgt(5) in \<open>simp add: wl_src_def wl_pages_def\<close>)
  show "h \<in> set (mf_used m) \<and> bh_bnum (hdrs e h) = wl_nr hp e m \<and> bh_page_count (hdrs e h) = wl_pages H hp e m \<and>
       bh_data (hdrs e h) = wl_src H hp e m" if "wl_hp2 H hp e m = Some h"
    using tgt [OF that] that by (simp add: wl_pages_def wl_src_def)
  show "pages (wl_nr hp e m) (wl_pages H hp e m) \<inter> pages b c = {}" if i: "in_file_only L (hdrs e) m b c"
  proof (cases "wl_hp2 H hp e m")
    case None
    then have "wl_nr hp e m = mf_infile_count m" "wl_pages H hp e m = 1"
      by (auto simp: wl_nr_def wl_hp2_def wl_pages_def split: if_splits)
    then show ?thesis using target_dummy [OF inv i] by simp
  next
    case (Some h)
    then show ?thesis using target_block [OF inv tgt(1) [OF Some] _ tgt(3) [OF Some] i] tgt(2) [OF Some] n by (simp add: wl_pages_def)
  qed
qed

lemma write_round_state:
  assumes inv: "mf_inv H L (hdrs e) (next_hdr e) m" and hp: "hp \<in> set (mf_used m)" "0 \<le> bh_bnum (hdrs e hp)" "bh_dirty (hdrs e hp)"
  shows "mf_inv H L (wl_hs H hp e m) (next_hdr e) (wl_m H hp e m)" "agree L (hdrs e) m (wl_hs H hp e m) (wl_m H hp e m)"
    "same_but_dirty (hdrs e) (wl_hs H hp e m)" "\<exists>d n. wl_m H hp e m = m\<lparr>disk := d, mf_infile_count := n\<rparr>"
    "mf_infile_count (wl_m H hp e m) = max (mf_infile_count m) (wl_nr hp e m + int (wl_pages H hp e m))"
proof -
  note r = write_round [OF assms]
  have w: "mf_inv H L (hdrs e) (next_hdr e) (wl_m H hp e m)" "agree L (hdrs e) m (hdrs e) (wl_m H hp e m)"
    "on_disk (wl_m H hp e m) (wl_nr hp e m) (wl_pages H hp e m) = wl_src H hp e m"
    "mf_infile_count (wl_m H hp e m) = max (mf_infile_count m) (wl_nr hp e m + int (wl_pages H hp e m))"
    "\<exists>d n. wl_m H hp e m = m\<lparr>disk := d, mf_infile_count := n\<rparr>"
    using written_step [OF inv r(1,2,3,4) r(5), of "wl_m H hp e m"] by (simp_all add: wl_m_def)
  then show "mf_infile_count (wl_m H hp e m) = max (mf_infile_count m) (wl_nr hp e m + int (wl_pages H hp e m))"
    "\<exists>d n. wl_m H hp e m = m\<lparr>disk := d, mf_infile_count := n\<rparr>" by blast+
  have used: "mf_used (wl_m H hp e m) = mf_used m" using w(5) by auto
  have "mf_inv H L (wl_hs H hp e m) (next_hdr e) (wl_m H hp e m) \<and> agree L (hdrs e) m (wl_hs H hp e m) (wl_m H hp e m) \<and>
    same_but_dirty (hdrs e) (wl_hs H hp e m)"
  proof (cases "wl_hp2 H hp e m")
    case None
    then have "wl_hs H hp e m = hdrs e" by (simp add: wl_hs_def)
    then show ?thesis using w by (simp add: same_but_dirty_def)
  next
    case (Some h)
    then have hs: "wl_hs H hp e m = (hdrs e)(h := (hdrs e h)\<lparr>bh_dirty := False\<rparr>)" by (simp add: wl_hs_def)
    have t: "h \<in> set (mf_used (wl_m H hp e m))" "0 \<le> bh_bnum (hdrs e h)"
      "bh_bnum (hdrs e h) + int (bh_page_count (hdrs e h)) \<le> mf_infile_count (wl_m H hp e m)"
      "on_disk (wl_m H hp e m) (bh_bnum (hdrs e h)) (bh_page_count (hdrs e h)) = bh_data (hdrs e h)"
      using r(6) [OF Some] r(1) w(3,4) used by simp_all
    show ?thesis using clean_keeps [OF w(1) t] agree_trans [OF w(2)] same_but_dirty_clean unfolding hs by blast
  qed
  then show "mf_inv H L (wl_hs H hp e m) (next_hdr e) (wl_m H hp e m)" "agree L (hdrs e) m (wl_hs H hp e m) (wl_m H hp e m)"
    "same_but_dirty (hdrs e) (wl_hs H hp e m)" by blast+
qed

lemma write_loop_spec:
  "mf_inv H L (hdrs e) (next_hdr e) m \<Longrightarrow> hp \<in> set (mf_used m) \<Longrightarrow> 0 \<le> bh_bnum (hdrs e hp) \<Longrightarrow> bh_dirty (hdrs e hp) \<Longrightarrow>
    nat (bh_bnum (hdrs e hp) - mf_infile_count m) < fuel \<Longrightarrow>
    \<exists>ok e' m'. mf_write_loop H fuel hp e m = Inr (ok, e', m') \<and> written H L hp e m ok e' m'"
proof (induction fuel arbitrary: e m)
  case (Suc fuel)
  note inv = Suc.prems(1) and r = write_round [OF Suc.prems(1-4)] and st = write_round_state [OF Suc.prems(1-4)]
  let ?e2 = "e\<lparr>faults := tl (tl (faults e)), hdrs := wl_hs H hp e m\<rparr>" and ?m2 = "wl_m H hp e m"
  have e2: "\<exists>fs. ?e2 = e\<lparr>hdrs := hdrs ?e2, faults := fs\<rparr>" by (intro exI [of _ "tl (tl (faults e))"]) simp
  consider (seek) "fault_at 0 e \<noteq> None" | (wrfail) "fault_at 0 e = None" "fault_at 1 e \<noteq> None"
    | (final) "fault_at 0 e = None" "fault_at 1 e = None" "wl_nr hp e m = bh_bnum (hdrs e hp)"
    | (more) "fault_at 0 e = None" "fault_at 1 e = None" "wl_nr hp e m \<noteq> bh_bnum (hdrs e hp)" by blast
  then show ?case
  proof cases
    case seek
    then have "faults e \<noteq> []" by (auto simp: fault_at_none)
    then have "written H L hp e m False (e\<lparr>faults := tl (faults e)\<rparr>) m" by (rule written_refl [OF inv])
    then show ?thesis using seek unfolding write_loop_unfold by auto
  next
    case wrfail
    let ?src = "take (the (fault_at 1 e)) (wl_src H hp e m)"
    have "faults e \<noteq> []" using wrfail by (auto simp: fault_at_none)
    moreover have "length ?src \<le> mf_page_size m * wl_pages H hp e m" using r(4) by simp
    ultimately have "written H L hp e m False (e\<lparr>faults := tl (tl (faults e))\<rparr>) (m\<lparr>disk := write_at (mf_page_size m * nat (wl_nr hp e m)) ?src (disk m)\<rparr>)"
      using write_keeps [OF inv r(1,3) _ r(5), of ?src]
      by (auto simp: written_def same_but_dirty_def intro!: exI [of _ "mf_infile_count m"])
    then show ?thesis using wrfail unfolding write_loop_unfold by auto
  next
    case final
    then have "wl_hp2 H hp e m = Some hp" by (auto simp: wl_hp2_def wl_nr_def)
    then have "\<not> bh_dirty (wl_hs H hp e m hp)" by (simp add: wl_hs_def)
    then have "written H L hp e m True ?e2 ?m2" unfolding written_def using st e2 by auto
    then show ?thesis using final unfolding write_loop_unfold by auto
  next
    case more
    then have lt: "wl_nr hp e m = mf_infile_count m" "mf_infile_count m < bh_bnum (hdrs e hp)" by (auto simp: wl_nr_def)
    have b: "bh_bnum (wl_hs H hp e m hp) = bh_bnum (hdrs e hp)" using same_but_dirtyD [OF st(3)] by blast
    have "wl_hp2 H hp e m \<noteq> Some hp" using r(6) [of hp] more by auto
    then have d: "bh_dirty (wl_hs H hp e m hp)" using Suc.prems(4) by (auto simp: wl_hs_def split: option.splits)
    have "nat (bh_bnum (hdrs ?e2 hp) - mf_infile_count ?m2) < fuel" using b st(5) lt r(3) Suc.prems(5) by simp
    moreover have "mf_used ?m2 = mf_used m" using st(4) by auto
    ultimately obtain ok e' m' where i: "mf_write_loop H fuel hp ?e2 ?m2 = Inr (ok, e', m')" "written H L hp ?e2 ?m2 ok e' m'"
      using Suc.IH [of ?e2 ?m2] st(1) Suc.prems(2,3) b d by auto
    obtain d1 n1 d2 n2 fs where f: "?m2 = m\<lparr>disk := d1, mf_infile_count := n1\<rparr>" "m' = ?m2\<lparr>disk := d2, mf_infile_count := n2\<rparr>"
      "e' = ?e2\<lparr>hdrs := hdrs e', faults := fs\<rparr>" using st(4) i(2) unfolding written_def by blast
    have "m' = m\<lparr>disk := d2, mf_infile_count := n2\<rparr>" unfolding f(2) f(1) by simp
    moreover have "e' = e\<lparr>hdrs := hdrs e', faults := fs\<rparr>" by (subst f(3)) simp
    ultimately have "written H L hp e m ok e' m'"
      using i(2) agree_trans [OF st(2)] same_but_dirty_trans [OF st(3)] unfolding written_def by auto
    then show ?thesis using more i(1) unfolding write_loop_unfold by simp
  qed
qed simp

end
