(* ===== verification/Vim_Blocks.thy ===== *)
theory Vim_Blocks
  imports Vim_Swap
begin

text \<open>
  How the elementary changes of a memory file affect the invariant of \<open>Vim_Swap\<close>: taking a block out
  of the lists, putting one in, giving it another number, and taking page numbers from the free list.
\<close>

subsection \<open>Introduction and elimination\<close>

abbreviation bnums :: "(nat \<Rightarrow> bhdr) \<Rightarrow> memfile \<Rightarrow> int set" where
  "bnums hs m \<equiv> (\<lambda>hp. bh_bnum (hs hp)) ` set (mf_used m)"

lemma wf_listsD:
  assumes "wf_lists H hs nx m"
  shows "distinct (mf_used m)" "distinct (mf_free_first m)" "set (mf_used m) \<inter> set (mf_free_first m) = {}"
    "hp \<in> set (mf_used m) \<Longrightarrow> hp < nx" "f \<in> set (mf_free_first m) \<Longrightarrow> f < nx" "distinct (mf_hash m h)"
    "set (mf_hash m h) = {hp\<in>set (mf_used m). MEMHASH H (bh_bnum (hs hp)) = h}"
    "mf_used_count m = (\<Sum>hp\<in>set (mf_used m). int (bh_page_count (hs hp)))"
  using assms by (simp_all add: wf_lists_def)

lemma wf_listsI:
  assumes "distinct (mf_used m)" "distinct (mf_free_first m)" "set (mf_used m) \<inter> set (mf_free_first m) = {}"
    "\<And>hp. hp \<in> set (mf_used m) \<Longrightarrow> hp < nx" "\<And>f. f \<in> set (mf_free_first m) \<Longrightarrow> f < nx" "\<And>h. distinct (mf_hash m h)"
    "\<And>h. set (mf_hash m h) = {hp\<in>set (mf_used m). MEMHASH H (bh_bnum (hs hp)) = h}"
    "mf_used_count m = (\<Sum>hp\<in>set (mf_used m). int (bh_page_count (hs hp)))"
  shows "wf_lists H hs nx m"
  unfolding wf_lists_def using assms by blast

lemma wf_numbersD:
  assumes "wf_numbers L hs m"
  shows "hp \<in> set (mf_used m) \<Longrightarrow> L (bh_bnum (hs hp)) = Some (bh_page_count (hs hp))"
    "hp \<in> set (mf_used m) \<Longrightarrow> length (bh_data (hs hp)) = mf_page_size m * bh_page_count (hs hp)"
    "inj_on (\<lambda>hp. bh_bnum (hs hp)) (set (mf_used m))"
    "L b = Some c \<Longrightarrow> 0 < c" "L b = Some c \<Longrightarrow> b < 0 \<Longrightarrow> mf_blocknr_min m < b" "L b = Some c \<Longrightarrow> b < 0 \<Longrightarrow> b \<in> bnums hs m"
    "L b = Some c \<Longrightarrow> 0 \<le> b \<Longrightarrow> b + int c \<le> mf_blocknr_max m"
    "f \<in> set (mf_free_first m) \<Longrightarrow> 0 \<le> bh_bnum (hs f)" "f \<in> set (mf_free_first m) \<Longrightarrow> 0 < bh_page_count (hs f)"
    "f \<in> set (mf_free_first m) \<Longrightarrow> bh_bnum (hs f) + int (bh_page_count (hs f)) \<le> mf_blocknr_max m"
    "mf_blocknr_min m < 0" "0 \<le> mf_blocknr_max m" "0 < mf_page_size m"
  using assms unfolding wf_numbers_def by blast+

lemma wf_numbersI:
  assumes "\<And>hp. hp \<in> set (mf_used m) \<Longrightarrow> L (bh_bnum (hs hp)) = Some (bh_page_count (hs hp))"
    "\<And>hp. hp \<in> set (mf_used m) \<Longrightarrow> length (bh_data (hs hp)) = mf_page_size m * bh_page_count (hs hp)"
    "inj_on (\<lambda>hp. bh_bnum (hs hp)) (set (mf_used m))"
    "\<And>b c. L b = Some c \<Longrightarrow> 0 < c" "\<And>b c. L b = Some c \<Longrightarrow> b < 0 \<Longrightarrow> mf_blocknr_min m < b"
    "\<And>b c. L b = Some c \<Longrightarrow> b < 0 \<Longrightarrow> b \<in> bnums hs m"
    "\<And>b c. L b = Some c \<Longrightarrow> 0 \<le> b \<Longrightarrow> b + int c \<le> mf_blocknr_max m"
    "\<And>f. f \<in> set (mf_free_first m) \<Longrightarrow> 0 \<le> bh_bnum (hs f)" "\<And>f. f \<in> set (mf_free_first m) \<Longrightarrow> 0 < bh_page_count (hs f)"
    "\<And>f. f \<in> set (mf_free_first m) \<Longrightarrow> bh_bnum (hs f) + int (bh_page_count (hs f)) \<le> mf_blocknr_max m"
    "mf_blocknr_min m < 0" "0 \<le> mf_blocknr_max m" "0 < mf_page_size m"
  shows "wf_numbers L hs m"
  unfolding wf_numbers_def using assms by blast

lemma wf_apartD:
  assumes "wf_apart L hs m"
  shows "L b = Some c \<Longrightarrow> L b' = Some c' \<Longrightarrow> b \<noteq> b' \<Longrightarrow> 0 \<le> b \<Longrightarrow> 0 \<le> b' \<Longrightarrow> pages b c \<inter> pages b' c' = {}"
    "f \<in> set (mf_free_first m) \<Longrightarrow> L b = Some c \<Longrightarrow> 0 \<le> b \<Longrightarrow> pages (bh_bnum (hs f)) (bh_page_count (hs f)) \<inter> pages b c = {}"
    "f \<in> set (mf_free_first m) \<Longrightarrow> f' \<in> set (mf_free_first m) \<Longrightarrow> f \<noteq> f' \<Longrightarrow>
       pages (bh_bnum (hs f)) (bh_page_count (hs f)) \<inter> pages (bh_bnum (hs f')) (bh_page_count (hs f')) = {}"
  using assms unfolding wf_apart_def by metis+

lemma wf_apartI:
  assumes "\<And>b c b' c'. L b = Some c \<Longrightarrow> L b' = Some c' \<Longrightarrow> b \<noteq> b' \<Longrightarrow> 0 \<le> b \<Longrightarrow> 0 \<le> b' \<Longrightarrow> pages b c \<inter> pages b' c' = {}"
    "\<And>f b c. f \<in> set (mf_free_first m) \<Longrightarrow> L b = Some c \<Longrightarrow> 0 \<le> b \<Longrightarrow> pages (bh_bnum (hs f)) (bh_page_count (hs f)) \<inter> pages b c = {}"
    "\<And>f f'. f \<in> set (mf_free_first m) \<Longrightarrow> f' \<in> set (mf_free_first m) \<Longrightarrow> f \<noteq> f' \<Longrightarrow>
       pages (bh_bnum (hs f)) (bh_page_count (hs f)) \<inter> pages (bh_bnum (hs f')) (bh_page_count (hs f')) = {}"
  shows "wf_apart L hs m"
  unfolding wf_apart_def by (intro conjI allI impI ballI) (rule assms; assumption)+

lemma wf_transD:
  assumes "wf_trans H L m" 
  shows "distinct (map fst (mf_trans m h))" "np \<in> set (mf_trans m h) \<Longrightarrow> MEMHASH H (fst np) = h"
    "np \<in> set (mf_trans m h) \<Longrightarrow> fst np < 0" "np \<in> set (mf_trans m h) \<Longrightarrow> mf_blocknr_min m < fst np"
    "np \<in> set (mf_trans m h) \<Longrightarrow> L (fst np) = None" "np \<in> set (mf_trans m h) \<Longrightarrow> 0 \<le> snd np"
  using assms unfolding wf_trans_def by blast+

lemma wf_transI:
  assumes "\<And>h. distinct (map fst (mf_trans m h))" "\<And>h np. np \<in> set (mf_trans m h) \<Longrightarrow> MEMHASH H (fst np) = h"
    "\<And>h np. np \<in> set (mf_trans m h) \<Longrightarrow> fst np < 0" "\<And>h np. np \<in> set (mf_trans m h) \<Longrightarrow> mf_blocknr_min m < fst np"
    "\<And>h np. np \<in> set (mf_trans m h) \<Longrightarrow> L (fst np) = None" "\<And>h np. np \<in> set (mf_trans m h) \<Longrightarrow> 0 \<le> snd np"
  shows "wf_trans H L m"
  unfolding wf_trans_def using assms by blast

lemma mf_invI:
  "wf_lists H hs nx m \<Longrightarrow> wf_numbers L hs m \<Longrightarrow> wf_apart L hs m \<Longrightarrow> wf_file L hs m \<Longrightarrow> wf_trans H L m \<Longrightarrow> mf_inv H L hs nx m"
  by (simp add: mf_inv_def)

subsection \<open>Out of the lists and into them\<close>

definition rem_blk :: "vim_h \<Rightarrow> nat \<Rightarrow> (nat \<Rightarrow> bhdr) \<Rightarrow> memfile \<Rightarrow> memfile" where
  "rem_blk H hp hs m = m\<lparr>mf_used := remove1 hp (mf_used m), mf_used_count := mf_used_count m - int (bh_page_count (hs hp)),
     mf_hash := (mf_hash m)(MEMHASH H (bh_bnum (hs hp)) := remove1 hp (mf_hash m (MEMHASH H (bh_bnum (hs hp)))))\<rparr>"

definition ins_blk :: "vim_h \<Rightarrow> nat \<Rightarrow> (nat \<Rightarrow> bhdr) \<Rightarrow> memfile \<Rightarrow> memfile" where
  "ins_blk H hp hs m = m\<lparr>mf_used := hp # mf_used m, mf_used_count := mf_used_count m + int (bh_page_count (hs hp)),
     mf_hash := (mf_hash m)(MEMHASH H (bh_bnum (hs hp)) := hp # mf_hash m (MEMHASH H (bh_bnum (hs hp))))\<rparr>"

lemma blk_fields [simp]:
  "mf_page_size (rem_blk H hp hs m) = mf_page_size m" "mf_free_first (rem_blk H hp hs m) = mf_free_first m"
  "mf_trans (rem_blk H hp hs m) = mf_trans m" "mf_blocknr_max (rem_blk H hp hs m) = mf_blocknr_max m"
  "mf_blocknr_min (rem_blk H hp hs m) = mf_blocknr_min m" "mf_infile_count (rem_blk H hp hs m) = mf_infile_count m"
  "disk (rem_blk H hp hs m) = disk m" "mf_fd (rem_blk H hp hs m) = mf_fd m" "on_disk (rem_blk H hp hs m) = on_disk m"
  "mf_neg_count (rem_blk H hp hs m) = mf_neg_count m"
  "mf_page_size (ins_blk H hp hs m) = mf_page_size m" "mf_free_first (ins_blk H hp hs m) = mf_free_first m"
  "mf_trans (ins_blk H hp hs m) = mf_trans m" "mf_blocknr_max (ins_blk H hp hs m) = mf_blocknr_max m"
  "mf_blocknr_min (ins_blk H hp hs m) = mf_blocknr_min m" "mf_infile_count (ins_blk H hp hs m) = mf_infile_count m"
  "disk (ins_blk H hp hs m) = disk m" "mf_fd (ins_blk H hp hs m) = mf_fd m" "on_disk (ins_blk H hp hs m) = on_disk m"
  "mf_used (rem_blk H hp hs m) = remove1 hp (mf_used m)" "mf_used (ins_blk H hp hs m) = hp # mf_used m"
  "mf_neg_count (ins_blk H hp hs m) = mf_neg_count m"
  by (simp_all add: rem_blk_def ins_blk_def on_disk_def fun_eq_iff)

lemma rem_blk_lists:
  assumes "wf_lists H hs nx m" "hp \<in> set (mf_used m)"
  shows "wf_lists H hs nx (rem_blk H hp hs m)"
proof (rule wf_listsI)
  note l = wf_listsD [OF assms(1)]
  have s: "set (remove1 hp (mf_used m)) = set (mf_used m) - {hp}" using l(1) by (rule set_remove1_eq)
  show "set (mf_hash (rem_blk H hp hs m) h) = {x\<in>set (mf_used (rem_blk H hp hs m)). MEMHASH H (bh_bnum (hs x)) = h}" for h
    using l(6,7) s by (auto simp: rem_blk_def set_remove1_eq)
  have "(\<Sum>x\<in>set (mf_used m). int (bh_page_count (hs x))) = int (bh_page_count (hs hp)) + (\<Sum>x\<in>set (mf_used m) - {hp}. int (bh_page_count (hs x)))"
    using assms(2) by (simp add: sum.remove)
  then show "mf_used_count (rem_blk H hp hs m) = (\<Sum>x\<in>set (mf_used (rem_blk H hp hs m)). int (bh_page_count (hs x)))"
    using l(8) s by (simp add: rem_blk_def)
  show "distinct (mf_hash (rem_blk H hp hs m) h)" for h using l(6) by (simp add: rem_blk_def)
qed (use wf_listsD [OF assms(1)] in \<open>auto dest: notin_set_remove1\<close>)

lemma ins_blk_lists:
  assumes "wf_lists H hs nx m" "hp \<notin> set (mf_used m) \<union> set (mf_free_first m)" "hp < nx'" "nx \<le> nx'"
  shows "wf_lists H (hs(hp := blk)) nx' (ins_blk H hp (hs(hp := blk)) m)"
proof (rule wf_listsI)
  note l = wf_listsD [OF assms(1)]
  let ?hs = "hs(hp := blk)" and ?m = "ins_blk H hp (hs(hp := blk)) m"
  have same: "?hs x = hs x" if "x \<in> set (mf_used m)" for x using that assms(2) by auto
  show "set (mf_hash ?m h) = {x\<in>set (mf_used ?m). MEMHASH H (bh_bnum (?hs x)) = h}" for h
    using l(7) assms(2) by (auto simp: ins_blk_def)
  have "(\<Sum>x\<in>set (mf_used m). int (bh_page_count (?hs x))) = (\<Sum>x\<in>set (mf_used m). int (bh_page_count (hs x)))"
    by (rule sum.cong) (use same in auto)
  then show "mf_used_count ?m = (\<Sum>x\<in>set (mf_used ?m). int (bh_page_count (?hs x)))"
    using l(8) assms(2) by (simp add: ins_blk_def del: fun_upd_apply)
  show "distinct (mf_hash ?m h)" for h using l(6,7) assms(2) by (simp add: ins_blk_def)
  show "x < nx'" if "x \<in> set (mf_used ?m)" for x using that l(4) assms(3,4) by fastforce
  show "x < nx'" if "x \<in> set (mf_free_first ?m)" for x using that l(5) assms(3,4) by fastforce
qed (use wf_listsD [OF assms(1)] assms(2) in auto)


text \<open>Removing a block from memory and from the blocks in use.\<close>

lemma rem_blk_inv:
  assumes inv: "mf_inv H L hs nx m" and hp: "hp \<in> set (mf_used m)"
  shows "mf_inv H (L(bh_bnum (hs hp) := None)) hs nx (rem_blk H hp hs m)"
proof (rule mf_invI)
  let ?b = "bh_bnum (hs hp)" and ?m = "rem_blk H hp hs m"
  let ?L = "L(?b := None)"
  note l = wf_listsD [OF mf_invD(1) [OF inv]] and n = wf_numbersD [OF mf_invD(2) [OF inv]]
    and a = wf_apartD [OF mf_invD(3) [OF inv]] and f = wf_fileD [OF mf_invD(4) [OF inv]] and t = wf_transD [OF mf_invD(5) [OF inv]]
  have used: "set (mf_used ?m) = set (mf_used m) - {hp}" using l(1) by (simp add: set_remove1_eq)
  have other: "bh_bnum (hs x) \<noteq> ?b" if "x \<in> set (mf_used ?m)" for x
    using that n(3) hp used by (auto simp: inj_on_def)
  have bn: "bnums hs ?m = bnums hs m - {?b}" using used other hp by fastforce
  show "wf_lists H hs nx ?m" using rem_blk_lists [OF mf_invD(1) [OF inv] hp] .
  show "wf_numbers ?L hs ?m"
  proof (rule wf_numbersI)
    show "inj_on (\<lambda>hp. bh_bnum (hs hp)) (set (mf_used ?m))" using n(3) used by (auto intro: inj_on_subset)
    show "b \<in> bnums hs ?m" if "?L b = Some c" "b < 0" for b c
      using that n(6) [of b c] unfolding bn by (simp split: if_splits)
    show "?L (bh_bnum (hs x)) = Some (bh_page_count (hs x))" "length (bh_data (hs x)) = mf_page_size ?m * bh_page_count (hs x)"
      if "x \<in> set (mf_used ?m)" for x using that n(1,2) [of x] other [of x] used by simp_all
    show "0 < c" if "?L b = Some c" for b c using that n(4) by (simp split: if_splits)
    show "mf_blocknr_min ?m < b" if "?L b = Some c" "b < 0" for b c using that n(5) by (simp split: if_splits)
    show "b + int c \<le> mf_blocknr_max ?m" if "?L b = Some c" "0 \<le> b" for b c using that n(7) by (simp split: if_splits)
  qed (use n(8-13) in simp_all)
  show "wf_apart ?L hs ?m"
  proof (rule wf_apartI)
    show "pages b c \<inter> pages b' c' = {}" if "?L b = Some c" "?L b' = Some c'" "b \<noteq> b'" "0 \<le> b" "0 \<le> b'" for b c b' c'
      using that a(1) [of b c b' c'] by (simp split: if_splits)
    show "pages (bh_bnum (hs x)) (bh_page_count (hs x)) \<inter> pages b c = {}" if "x \<in> set (mf_free_first ?m)" "?L b = Some c" "0 \<le> b" for x b c
      using that a(2) [of x b c] by (simp split: if_splits)
  qed (use a(3) in simp)
  show "wf_file ?L hs ?m"
  proof (rule wf_fileI)
    show "b + int c \<le> mf_infile_count ?m" if "?L b = Some c" "0 \<le> b" "b \<notin> bnums hs ?m" for b c
    proof -
      have "b \<noteq> ?b" "L b = Some c" using that(1) by (auto split: if_splits)
      then show ?thesis using f(3) [of b c] that(2,3) unfolding bn by simp
    qed
    fix x assume x: "x \<in> set (mf_used ?m)" "\<not> bh_dirty (hs x)"
    then have "x \<in> set (mf_used m)" using used by blast
    then show "0 \<le> bh_bnum (hs x)" "bh_bnum (hs x) + int (bh_page_count (hs x)) \<le> mf_infile_count ?m"
      "bh_locked (hs x) \<or> on_disk ?m (bh_bnum (hs x)) (bh_page_count (hs x)) = bh_data (hs x)"
      using f(4-6) [of x] x(2) by simp_all
  qed (use f(1,2) in simp_all)
  show "wf_trans H ?L ?m" by (rule wf_transI) (use t in auto)
qed

text \<open>A numbered range of pages that no other block has.\<close>

definition own_range :: "(int \<rightharpoonup> nat) \<Rightarrow> (nat \<Rightarrow> bhdr) \<Rightarrow> memfile \<Rightarrow> int \<Rightarrow> nat \<Rightarrow> bool" where
  "own_range L hs m b c \<longleftrightarrow> 0 \<le> b \<and> 0 < c \<and> b + int c \<le> mf_blocknr_max m \<and>
     (\<forall>b' c'. L b' = Some c' \<longrightarrow> b' \<noteq> b \<longrightarrow> 0 \<le> b' \<longrightarrow> pages b c \<inter> pages b' c' = {}) \<and>
     (\<forall>f\<in>set (mf_free_first m). pages (bh_bnum (hs f)) (bh_page_count (hs f)) \<inter> pages b c = {})"

lemma own_rangeD:
  assumes "own_range L hs m b c"
  shows "0 \<le> b" "0 < c" "b + int c \<le> mf_blocknr_max m" "L b' = Some c' \<Longrightarrow> b' \<noteq> b \<Longrightarrow> 0 \<le> b' \<Longrightarrow> pages b c \<inter> pages b' c' = {}"
    "f \<in> set (mf_free_first m) \<Longrightarrow> pages (bh_bnum (hs f)) (bh_page_count (hs f)) \<inter> pages b c = {}"
  using assms unfolding own_range_def by blast+

lemma own_range_known: "mf_inv H L hs nx m \<Longrightarrow> L b = Some c \<Longrightarrow> 0 \<le> b \<Longrightarrow> own_range L hs m b c"
  unfolding own_range_def using wf_apartD [OF mf_invD(3)] wf_numbersD(4,7) [OF mf_invD(2)] by metis

lemma apart_upd:
  assumes "wf_apart L hs m" "b < 0 \<or> own_range L hs m b c"
  shows "wf_apart (L(b \<mapsto> c)) hs m"
proof (rule wf_apartI)
  note a = wf_apartD [OF assms(1)] and r = own_rangeD [of L hs m b c]
  show "pages b1 c1 \<inter> pages b2 c2 = {}" if "(L(b \<mapsto> c)) b1 = Some c1" "(L(b \<mapsto> c)) b2 = Some c2" "b1 \<noteq> b2" "0 \<le> b1" "0 \<le> b2" for b1 c1 b2 c2
    using that a(1) [of b1 c1 b2 c2] r(4) [of b2 c2] r(4) [of b1 c1] assms(2) by (auto split: if_splits)
  show "pages (bh_bnum (hs f)) (bh_page_count (hs f)) \<inter> pages b1 c1 = {}"
    if "f \<in> set (mf_free_first m)" "(L(b \<mapsto> c)) b1 = Some c1" "0 \<le> b1" for f b1 c1
    using that a(2) [of f b1 c1] r(5) [of f] assms(2) by (auto split: if_splits)
qed (use wf_apartD(3) [OF assms(1)] in blast)

text \<open>A block that is only in the file.\<close>

lemma known_blk_inv:
  assumes inv: "mf_inv H L hs nx m" and b: "own_range L hs m b c" "b + int c \<le> mf_infile_count m" "b \<notin> bnums hs m"
  shows "mf_inv H (L(b \<mapsto> c)) hs nx m"
proof (rule mf_invI)
  note n = wf_numbersD [OF mf_invD(2) [OF inv]] and f = wf_fileD [OF mf_invD(4) [OF inv]] and t = wf_transD [OF mf_invD(5) [OF inv]]
    and r = own_rangeD [OF b(1)]
  have new: "bh_bnum (hs hp) \<noteq> b" if "hp \<in> set (mf_used m)" for hp using that b(3) by auto
  show "wf_lists H hs nx m" using mf_invD(1) [OF inv] .
  show "wf_apart (L(b \<mapsto> c)) hs m" using apart_upd [OF mf_invD(3) [OF inv]] b(1) by blast
  show "wf_numbers (L(b \<mapsto> c)) hs m"
  proof (rule wf_numbersI)
    show "(L(b \<mapsto> c)) (bh_bnum (hs hp)) = Some (bh_page_count (hs hp))" if "hp \<in> set (mf_used m)" for hp
      using that n(1) new by simp
    fix b' c' assume L: "(L(b \<mapsto> c)) b' = Some c'"
    then show "0 < c'" using n(4) r(2) by (simp split: if_splits)
    show "mf_blocknr_min m < b'" "b' \<in> bnums hs m" if "b' < 0"
      using that L n(5,6) [of b' c'] r(1) by (simp_all split: if_splits)
    show "b' + int c' \<le> mf_blocknr_max m" if "0 \<le> b'" using that L n(7) r(3) by (simp split: if_splits)
  qed (use n(2,3,8-13) in simp_all)
  show "wf_file (L(b \<mapsto> c)) hs m" 
  proof (rule wf_fileI)
    show "b' + int c' \<le> mf_infile_count m" if "(L(b \<mapsto> c)) b' = Some c'" "0 \<le> b'" "b' \<notin> bnums hs m" for b' c'
      using that f(3) [of b' c'] b(2) by (simp split: if_splits)
  qed (use f in simp_all)
  show "wf_trans H (L(b \<mapsto> c)) m"
  proof (rule wf_transI)
    show "(L(b \<mapsto> c)) (fst np) = None" if "np \<in> set (mf_trans m h)" for h np
      using that t(3,5) [of np h] r(1) by simp
  qed (use t in blast)+
qed

text \<open>Putting a block into memory.\<close>

lemma ins_blk_inv:
  assumes inv: "mf_inv H L hs nx m" and hp: "hp \<notin> set (mf_used m) \<union> set (mf_free_first m)" "hp < nx'" "nx \<le> nx'"
    and blk: "bh_bnum blk = b" "bh_page_count blk = c" "length (bh_data blk) = mf_page_size m * c" "0 < c"
    and b: "b \<notin> bnums hs m" "if b < 0 then mf_blocknr_min m < b \<and> (\<forall>h. b \<notin> fst ` set (mf_trans m h)) else own_range L hs m b c"
    and clean: "\<not> bh_dirty blk \<Longrightarrow> 0 \<le> b \<and> b + int c \<le> mf_infile_count m \<and> (bh_locked blk \<or> on_disk m b c = bh_data blk)"
  shows "mf_inv H (L(b \<mapsto> c)) (hs(hp := blk)) nx' (ins_blk H hp (hs(hp := blk)) m)"
proof (rule mf_invI)
  let ?hs = "hs(hp := blk)"
  let ?m = "ins_blk H hp ?hs m" and ?L = "L(b \<mapsto> c)"
  note n = wf_numbersD [OF mf_invD(2) [OF inv]] and f = wf_fileD [OF mf_invD(4) [OF inv]] and t = wf_transD [OF mf_invD(5) [OF inv]]
  have same: "?hs x = hs x" if "x \<in> set (mf_used m) \<union> set (mf_free_first m)" for x using that hp(1) by auto
  have new: "bh_bnum (hs x) \<noteq> b" if "x \<in> set (mf_used m)" for x using that b(1) by auto
  have bn: "bnums ?hs ?m = insert b (bnums hs m)" using same blk(1) by (auto simp: image_def)
  show "wf_lists H ?hs nx' ?m" using ins_blk_lists [OF mf_invD(1) [OF inv] hp] .
  show "wf_numbers ?L ?hs ?m"
  proof (rule wf_numbersI)
    show "inj_on (\<lambda>x. bh_bnum (?hs x)) (set (mf_used ?m))"
      using n(3) new blk(1) hp(1) unfolding inj_on_def by (simp split: if_splits) metis
    show "?L (bh_bnum (?hs x)) = Some (bh_page_count (?hs x))" if "x \<in> set (mf_used ?m)" for x
      using that n(1) blk new by auto
    show "length (bh_data (?hs x)) = mf_page_size ?m * bh_page_count (?hs x)" if "x \<in> set (mf_used ?m)" for x
      using that n(2) blk by auto
    show "0 < c'" if "?L b' = Some c'" for b' c' using that n(4) blk(4) by (auto split: if_splits)
    show "mf_blocknr_min ?m < b'" if "?L b' = Some c'" "b' < 0" for b' c' using that n(5) b(2) by (auto split: if_splits)
    show "b' \<in> bnums ?hs ?m" if "?L b' = Some c'" "b' < 0" for b' c' using that n(6) unfolding bn by (auto split: if_splits)
    show "b' + int c' \<le> mf_blocknr_max ?m" if "?L b' = Some c'" "0 \<le> b'" for b' c'
      using that n(7) b(2) own_rangeD(3) [of L hs m b c] by (auto split: if_splits)
    show "0 \<le> bh_bnum (?hs f)" "0 < bh_page_count (?hs f)" "bh_bnum (?hs f) + int (bh_page_count (?hs f)) \<le> mf_blocknr_max ?m"
      if "f \<in> set (mf_free_first ?m)" for f using that n(8-10) [of f] same [of f] by simp_all
  qed (use n(11-13) in simp_all)
  have "wf_apart ?L hs m" using apart_upd [OF mf_invD(3) [OF inv]] b(2) by (auto split: if_splits)
  note a = wf_apartD [OF this]
  show "wf_apart ?L ?hs ?m"
  proof (rule wf_apartI)
    show "pages (bh_bnum (?hs f)) (bh_page_count (?hs f)) \<inter> pages b' c' = {}"
      if "f \<in> set (mf_free_first ?m)" "?L b' = Some c'" "0 \<le> b'" for f b' c' using that a(2) [of f b' c'] same [of f] by simp
    show "pages (bh_bnum (?hs f)) (bh_page_count (?hs f)) \<inter> pages (bh_bnum (?hs f')) (bh_page_count (?hs f')) = {}"
      if "f \<in> set (mf_free_first ?m)" "f' \<in> set (mf_free_first ?m)" "f \<noteq> f'" for f f'
      using that a(3) [of f f'] same [of f] same [of f'] by simp
  qed (use a(1) in blast)
  show "wf_file ?L ?hs ?m"
  proof (rule wf_fileI)
    show "b' + int c' \<le> mf_infile_count ?m" if "?L b' = Some c'" "0 \<le> b'" "b' \<notin> bnums ?hs ?m" for b' c'
      using that f(3) [of b' c'] unfolding bn by (auto split: if_splits)
    fix x assume "x \<in> set (mf_used ?m)" "\<not> bh_dirty (?hs x)"
    then show "0 \<le> bh_bnum (?hs x)" "bh_bnum (?hs x) + int (bh_page_count (?hs x)) \<le> mf_infile_count ?m"
      "bh_locked (?hs x) \<or> on_disk ?m (bh_bnum (?hs x)) (bh_page_count (?hs x)) = bh_data (?hs x)"
      using clean blk(1,2) f(4-6) [of x] by (auto split: if_splits)
  qed (use f(1,2) in simp_all)
  show "wf_trans H ?L ?m"
  proof (rule wf_transI)
    show "?L (fst np) = None" if "np \<in> set (mf_trans ?m h)" for h np
      using that t(5) [of np h] t(3) [of np h] b(2) own_rangeD(1) [of L hs m b c] by (auto split: if_splits)
  qed (use t in auto)
qed


text \<open>Changes that the invariant does not see: a header in no list, the order of the used list.\<close>

lemma loose_hdr:
  assumes "mf_inv H L hs nx m" "\<And>x. x \<in> set (mf_used m) \<union> set (mf_free_first m) \<Longrightarrow> hs' x = hs x" "nx \<le> nx'"
  shows "mf_inv H L hs' nx' m"
proof -
  have img: "bnums hs' m = bnums hs m" using assms(2) by (auto simp: image_def)
  have s: "hs' x = hs x" if "x \<in> set (mf_used m) \<or> x \<in> set (mf_free_first m)" for x using assms(2) that by blast
  note l = wf_listsD [OF mf_invD(1) [OF assms(1)]] and n = wf_numbersD [OF mf_invD(2) [OF assms(1)]]
    and a = wf_apartD [OF mf_invD(3) [OF assms(1)]] and f = wf_fileD [OF mf_invD(4) [OF assms(1)]]
  show ?thesis
  proof (rule mf_invI)
    show "wf_lists H hs' nx' m"
    proof (rule wf_listsI)
      show "set (mf_hash m h) = {hp\<in>set (mf_used m). MEMHASH H (bh_bnum (hs' hp)) = h}" for h using l(7) s by auto
      show "mf_used_count m = (\<Sum>hp\<in>set (mf_used m). int (bh_page_count (hs' hp)))" unfolding l(8) by (rule sum.cong) (use s in auto)
      show "x < nx'" if "x \<in> set (mf_used m)" for x using l(4) [OF that] assms(3) by simp
      show "x < nx'" if "x \<in> set (mf_free_first m)" for x using l(5) [OF that] assms(3) by simp
    qed (use l in blast)+
    show "wf_numbers L hs' m"
    proof (rule wf_numbersI)
      show "inj_on (\<lambda>hp. bh_bnum (hs' hp)) (set (mf_used m))" using n(3) s by (simp add: inj_on_def)
      show "b \<in> bnums hs' m" if "L b = Some c" "b < 0" for b c using that n(6) unfolding img by blast
    qed (use n s in simp_all)
    show "wf_apart L hs' m" by (rule wf_apartI) (use a s in simp_all)
    show "wf_file L hs' m"
    proof (rule wf_fileI)
      show "b + int c \<le> mf_infile_count m" if "L b = Some c" "0 \<le> b" "b \<notin> bnums hs' m" for b c using that f(3) unfolding img by blast
    qed (use f s in simp_all)
  qed (rule mf_invD(5) [OF assms(1)])
qed

lemma used_perm:
  assumes "mf_inv H L hs nx m" "set us = set (mf_used m)" "distinct us"
  shows "mf_inv H L hs nx (m\<lparr>mf_used := us\<rparr>)"
proof -
  have d: "on_disk (m\<lparr>mf_used := us\<rparr>) = on_disk m" by (simp add: on_disk_def fun_eq_iff)
  show ?thesis using assms unfolding mf_inv_def wf_defs d by simp
qed

subsection \<open>Contents\<close>

lemma holds_hdr:
  assumes "\<And>x. x \<in> set (mf_used m) \<Longrightarrow> hs' x = hs x"
  shows "holds hs' m b c d = holds hs m b c d"
proof -
  have "bnums hs' m = bnums hs m" using assms by (auto simp: image_def)
  then show ?thesis using assms by (simp add: holds_def)
qed

lemma holds_used:
  assumes "mf_inv H L hs nx m" "hp \<in> set (mf_used m)"
  shows "holds hs m (bh_bnum (hs hp)) c d \<longleftrightarrow> bh_data (hs hp) = d"
  using assms(2) wf_numbersD(3) [OF mf_invD(2) [OF assms(1)]] by (auto simp: holds_def inj_on_def)

lemma holds_rem_other:
  assumes "mf_inv H L hs nx m" "hp \<in> set (mf_used m)" "b \<noteq> bh_bnum (hs hp)"
  shows "holds hs (rem_blk H hp hs m) b c d = holds hs m b c d"
proof -
  have u: "set (mf_used (rem_blk H hp hs m)) = set (mf_used m) - {hp}"
    using wf_listsD(1) [OF mf_invD(1) [OF assms(1)]] by (simp add: set_remove1_eq)
  then have "b \<in> bnums hs (rem_blk H hp hs m) \<longleftrightarrow> b \<in> bnums hs m" using assms(3) by auto
  then show ?thesis using u assms(3) by (auto simp: holds_def)
qed

lemma not_in_memory:
  assumes "mf_inv H L hs nx m" "hp \<in> set (mf_used m)"
  shows "bh_bnum (hs hp) \<notin> bnums hs (rem_blk H hp hs m)"
  using assms(2) wf_numbersD(3) [OF mf_invD(2) [OF assms(1)]] wf_listsD(1) [OF mf_invD(1) [OF assms(1)]]
  by (auto simp: set_remove1_eq inj_on_def)

lemma holds_rem_stored:
  assumes "mf_inv H L hs nx m" "hp \<in> set (mf_used m)" "on_disk m (bh_bnum (hs hp)) c = bh_data (hs hp)"
    "holds hs m (bh_bnum (hs hp)) c d"
  shows "holds hs (rem_blk H hp hs m) (bh_bnum (hs hp)) c d"
  using not_in_memory [OF assms(1,2)] holds_used [OF assms(1,2), of c d] assms(3,4) by (simp add: holds_def)

lemma holds_ins:
  assumes "hp \<notin> set (mf_used m)"
  shows "b \<noteq> bh_bnum blk \<Longrightarrow> holds (hs(hp := blk)) (ins_blk H hp (hs(hp := blk)) m) b c d = holds hs m b c d"
    "bh_bnum blk \<notin> bnums hs m \<Longrightarrow> holds (hs(hp := blk)) (ins_blk H hp (hs(hp := blk)) m) (bh_bnum blk) c d \<longleftrightarrow> bh_data blk = d"
proof -
  let ?hs = "hs(hp := blk)"
  let ?m = "ins_blk H hp ?hs m"
  have same: "?hs x = hs x" if "x \<in> set (mf_used m)" for x using that assms by auto
  have bn: "bnums ?hs ?m = insert (bh_bnum blk) (bnums hs m)" using same by (auto simp: image_def)
  show "holds ?hs ?m b c d = holds hs m b c d" if "b \<noteq> bh_bnum blk"
    unfolding holds_def bn using that same assms by auto
  show "holds ?hs ?m (bh_bnum blk) c d \<longleftrightarrow> bh_data blk = d" if "bh_bnum blk \<notin> bnums hs m"
  proof -
    have "bh_bnum (hs x) \<noteq> bh_bnum blk" if "x \<in> set (mf_used m)" for x using \<open>bh_bnum blk \<notin> bnums hs m\<close> that by force
    then show ?thesis unfolding holds_def bn using same by auto
  qed
qed

subsection \<open>Taking page numbers\<close>

definition took :: "vim_h \<Rightarrow> (int \<rightharpoonup> nat) \<Rightarrow> nat \<Rightarrow> (nat \<Rightarrow> bhdr) \<Rightarrow> memfile \<Rightarrow> (nat \<Rightarrow> bhdr) \<Rightarrow> memfile \<Rightarrow> int \<Rightarrow> nat \<Rightarrow> bool" where
  "took H L nx hs m hs' m' b c \<longleftrightarrow> mf_inv H L hs' nx m' \<and> own_range L hs' m' b c \<and> L b = None \<and>
     (\<forall>x. x \<notin> set (mf_free_first m) \<longrightarrow> hs' x = hs x) \<and>
     (\<exists>fs mx. m' = m\<lparr>mf_free_first := fs, mf_blocknr_max := mx\<rparr> \<and> set fs \<subseteq> set (mf_free_first m))"

lemma pages_split: "k < c \<Longrightarrow> pages b c = pages b k \<union> pages (b + int k) (c - k)" "pages b k \<inter> pages (b + int k) (c - k) = {}"
  by (auto simp: pages_def)

lemma pages_start: "0 < c \<Longrightarrow> b \<in> pages b c"
  by (simp add: pages_def)

lemma range_fresh: "mf_inv H L hs nx m \<Longrightarrow> f \<in> set (mf_free_first m) \<Longrightarrow> L (bh_bnum (hs f)) = None"
proof (rule ccontr)
  assume inv: "mf_inv H L hs nx m" and f: "f \<in> set (mf_free_first m)" and "L (bh_bnum (hs f)) \<noteq> None"
  then obtain c where c: "L (bh_bnum (hs f)) = Some c" by blast
  have "0 < c" "0 \<le> bh_bnum (hs f)" "0 < bh_page_count (hs f)" using wf_numbersD(4,8,9) [OF mf_invD(2) [OF inv]] c f by blast+
  then show False using wf_apartD(2) [OF mf_invD(3) [OF inv] f c] pages_start by blast
qed

lemma take_all:
  assumes inv: "mf_inv H L hs nx m" and f: "mf_free_first m = f # fs"
  shows "took H L nx hs m hs (m\<lparr>mf_free_first := fs\<rparr>) (bh_bnum (hs f)) (bh_page_count (hs f))"
proof -
  let ?m = "m\<lparr>mf_free_first := fs\<rparr>"
  have d: "on_disk ?m = on_disk m" by (simp add: on_disk_def fun_eq_iff)
  note l = wf_listsD [OF mf_invD(1) [OF inv]] and n = wf_numbersD [OF mf_invD(2) [OF inv]]
    and a = wf_apartD [OF mf_invD(3) [OF inv]]
  have fin: "f \<in> set (mf_free_first m)" "set fs \<subseteq> set (mf_free_first m)" "f \<notin> set fs" using f l(2) by auto
  have "mf_inv H L hs nx ?m"
  proof (rule mf_invI)
    show "wf_lists H hs nx ?m" using mf_invD(1) [OF inv] f by (auto simp: wf_lists_def)
    show "wf_numbers L hs ?m" by (rule wf_numbersI) (use n fin in \<open>simp_all add: subset_iff\<close>)
    show "wf_apart L hs ?m" by (rule wf_apartI) (use a fin in \<open>simp_all add: subset_iff\<close>)
    show "wf_file L hs ?m" using mf_invD(4) [OF inv] by (simp add: wf_file_def d)
    show "wf_trans H L ?m" using mf_invD(5) [OF inv] by (simp add: wf_trans_def)
  qed
  moreover have "own_range L hs ?m (bh_bnum (hs f)) (bh_page_count (hs f))"
    unfolding own_range_def using n(8-10) [OF fin(1)] a(2) [OF fin(1)] a(3) [OF _ fin(1)] fin by auto
  ultimately show ?thesis using range_fresh [OF inv fin(1)] fin(2)
    by (auto simp: took_def intro!: exI [of _ fs] exI [of _ "mf_blocknr_max m"])
qed

lemma take_part:
  assumes inv: "mf_inv H L hs nx m" and f: "mf_free_first m = f # fs" and c: "0 < c" "c < bh_page_count (hs f)"
  shows "took H L nx hs m (hs(f := (hs f)\<lparr>bh_bnum := bh_bnum (hs f) + int c, bh_page_count := bh_page_count (hs f) - c\<rparr>)) m (bh_bnum (hs f)) c"
proof -
  let ?hs = "hs(f := (hs f)\<lparr>bh_bnum := bh_bnum (hs f) + int c, bh_page_count := bh_page_count (hs f) - c\<rparr>)"
  note l = wf_listsD [OF mf_invD(1) [OF inv]] and n = wf_numbersD [OF mf_invD(2) [OF inv]]
    and a = wf_apartD [OF mf_invD(3) [OF inv]] and fl = wf_fileD [OF mf_invD(4) [OF inv]]
  have fin: "f \<in> set (mf_free_first m)" using f by simp
  have nu: "?hs x = hs x" if "x \<in> set (mf_used m)" for x using that l(3) fin by auto
  have img: "bnums ?hs m = bnums hs m" using nu by (auto simp: image_def)
  have sub: "pages (bh_bnum (?hs x)) (bh_page_count (?hs x)) \<subseteq> pages (bh_bnum (hs x)) (bh_page_count (hs x))" for x
    using c by (auto simp: pages_def)
  have "mf_inv H L ?hs nx m"
  proof (rule mf_invI)
    show "wf_lists H ?hs nx m"
    proof (rule wf_listsI)
      show "set (mf_hash m h) = {hp\<in>set (mf_used m). MEMHASH H (bh_bnum (?hs hp)) = h}" for h
        unfolding l(7) by (rule Collect_cong) (use nu in metis)
      show "mf_used_count m = (\<Sum>hp\<in>set (mf_used m). int (bh_page_count (?hs hp)))" unfolding l(8) by (rule sum.cong) (use nu in auto)
    qed (use l in blast)+
    show "wf_numbers L ?hs m"
    proof (rule wf_numbersI)
      show "inj_on (\<lambda>hp. bh_bnum (?hs hp)) (set (mf_used m))" using n(3) nu unfolding inj_on_def by metis
      show "b \<in> bnums ?hs m" if "L b = Some c" "b < 0" for b c using that n(6) unfolding img by blast
      show "L (bh_bnum (?hs x)) = Some (bh_page_count (?hs x))" "length (bh_data (?hs x)) = mf_page_size m * bh_page_count (?hs x)"
        if "x \<in> set (mf_used m)" for x using n(1,2) [OF that] nu [OF that] by simp_all
      fix x assume "x \<in> set (mf_free_first m)"
      then show "0 \<le> bh_bnum (?hs x)" "0 < bh_page_count (?hs x)" "bh_bnum (?hs x) + int (bh_page_count (?hs x)) \<le> mf_blocknr_max m"
        using n(8-10) [of x] c by auto
    qed (use n in blast)+
    show "wf_apart L ?hs m"
    proof (rule wf_apartI)
      show "pages (bh_bnum (?hs x)) (bh_page_count (?hs x)) \<inter> pages b c' = {}"
        if "x \<in> set (mf_free_first m)" "L b = Some c'" "0 \<le> b" for x b c' using a(2) [OF that] sub [of x] by blast
      show "pages (bh_bnum (?hs x)) (bh_page_count (?hs x)) \<inter> pages (bh_bnum (?hs y)) (bh_page_count (?hs y)) = {}"
        if "x \<in> set (mf_free_first m)" "y \<in> set (mf_free_first m)" "x \<noteq> y" for x y using a(3) [OF that] sub [of x] sub [of y] by blast
    qed (use a(1) in blast)
    show "wf_file L ?hs m"
    proof (rule wf_fileI)
      show "b + int c \<le> mf_infile_count m" if "L b = Some c" "0 \<le> b" "b \<notin> bnums ?hs m" for b c using that fl(3) unfolding img by blast
      fix x assume x: "x \<in> set (mf_used m)" "\<not> bh_dirty (?hs x)"
      show "0 \<le> bh_bnum (?hs x)" "bh_bnum (?hs x) + int (bh_page_count (?hs x)) \<le> mf_infile_count m"
        "bh_locked (?hs x) \<or> on_disk m (bh_bnum (?hs x)) (bh_page_count (?hs x)) = bh_data (?hs x)"
        using x(2) fl(4-6) [OF x(1)] unfolding nu [OF x(1)] by blast+
    qed (use fl(1,2) in blast)+
  qed (rule mf_invD(5) [OF inv])
  moreover have "own_range L ?hs m (bh_bnum (hs f)) c"
    unfolding own_range_def
  proof (intro conjI allI impI ballI)
    have first: "pages (bh_bnum (hs f)) c \<subseteq> pages (bh_bnum (hs f)) (bh_page_count (hs f))" using c by (auto simp: pages_def)
    show "0 \<le> bh_bnum (hs f)" "0 < c" "bh_bnum (hs f) + int c \<le> mf_blocknr_max m" using n(8-10) [OF fin] c by simp_all
    show "pages (bh_bnum (hs f)) c \<inter> pages b' c' = {}" if "L b' = Some c'" "0 \<le> b'" for b' c' using a(2) [OF fin that] first by blast
    show "pages (bh_bnum (?hs x)) (bh_page_count (?hs x)) \<inter> pages (bh_bnum (hs f)) c = {}" if "x \<in> set (mf_free_first m)" for x
    proof (cases "x = f")
      case True
      then show ?thesis using pages_split(2) [of "bh_bnum (hs f)" c "bh_page_count (hs f)"] by auto
    next
      case False
      then show ?thesis using a(3) [OF that fin False] first by auto
    qed
  qed
  ultimately show ?thesis using range_fresh [OF inv fin] fin
    by (auto simp: took_def intro!: exI [of _ "mf_free_first m"] exI [of _ "mf_blocknr_max m"])
qed

lemma take_new:
  assumes inv: "mf_inv H L hs nx m" and c: "0 < c"
  shows "took H L nx hs m hs (m\<lparr>mf_blocknr_max := mf_blocknr_max m + int c\<rparr>) (mf_blocknr_max m) c"
proof -
  let ?m = "m\<lparr>mf_blocknr_max := mf_blocknr_max m + int c\<rparr>"
  have d: "on_disk ?m = on_disk m" by (simp add: on_disk_def fun_eq_iff)
  note n = wf_numbersD [OF mf_invD(2) [OF inv]]
  have "mf_inv H L hs nx ?m"
  proof (rule mf_invI)
    show "wf_lists H hs nx ?m" using mf_invD(1) [OF inv] by (simp add: wf_lists_def)
    show "wf_numbers L hs ?m"
    proof (rule wf_numbersI)
      show "b + int c' \<le> mf_blocknr_max ?m" if "L b = Some c'" "0 \<le> b" for b c' using n(7) [OF that] by simp
      show "bh_bnum (hs f) + int (bh_page_count (hs f)) \<le> mf_blocknr_max ?m" if "f \<in> set (mf_free_first ?m)" for f using n(10) [of f] that by simp
    qed (use n in simp_all)
    show "wf_apart L hs ?m" using mf_invD(3) [OF inv] by (simp add: wf_apart_def)
    show "wf_file L hs ?m" using mf_invD(4) [OF inv] by (simp add: wf_file_def d)
    show "wf_trans H L ?m" using mf_invD(5) [OF inv] by (simp add: wf_trans_def)
  qed
  moreover have "own_range L hs ?m (mf_blocknr_max m) c"
    unfolding own_range_def
  proof (intro conjI allI impI ballI)
    show "pages (mf_blocknr_max m) c \<inter> pages b' c' = {}" if "L b' = Some c'" "0 \<le> b'" for b' c' using n(7) [OF that] by (auto simp: pages_def)
    show "pages (bh_bnum (hs f)) (bh_page_count (hs f)) \<inter> pages (mf_blocknr_max m) c = {}" if "f \<in> set (mf_free_first ?m)" for f
      using n(10) [of f] that by (auto simp: pages_def)
  qed (use n(12) c in simp_all)
  moreover have "L (mf_blocknr_max m) = None"
  proof (rule ccontr)
    assume "L (mf_blocknr_max m) \<noteq> None"
    then obtain c' where "L (mf_blocknr_max m) = Some c'" by blast
    then show False using n(4,7) [of "mf_blocknr_max m" c'] n(12) by simp
  qed
  ultimately show ?thesis by (auto simp: took_def intro!: exI [of _ "mf_free_first m"])
qed

end
