(* ===== verification/Vim_Ops.thy ===== *)
theory Vim_Ops
  imports Vim_Blocks
begin

text \<open>
  Every operation of \<open>vim/src/memfile.c\<close> against the invariant: what \<open>mf_trans_add\<close>, \<open>mf_write\<close>,
  \<open>mf_release\<close>, \<open>mf_new\<close>, \<open>mf_get\<close>, \<open>mf_put\<close>, \<open>mf_free\<close> and \<open>mf_sync\<close> do to the blocks and their contents.
\<close>

subsection \<open>Relations between states\<close>

lemma holds_cong:
  assumes "set (mf_used m') = set (mf_used m)" "mf_page_size m' = mf_page_size m" "disk m' = disk m"
  shows "holds hs m' b c d = holds hs m b c d"
  using assms by (simp add: holds_def on_disk_def)

lemma agree_keeps: "agree L hs m hs' m' \<Longrightarrow> mf_trans m' = mf_trans m \<Longrightarrow> keeps H L hs m L hs' m'"
  by (auto simp: agree_def keeps_def)

text \<open>\<open>like e e' x\<close>: header \<open>x\<close> is the same but for a cleared dirty bit or a number in place of a negative one.\<close>

definition like :: "(nat \<Rightarrow> bhdr) \<Rightarrow> (nat \<Rightarrow> bhdr) \<Rightarrow> nat \<Rightarrow> bool" where
  "like hs hs' x \<longleftrightarrow> bh_page_count (hs' x) = bh_page_count (hs x) \<and> bh_data (hs' x) = bh_data (hs x) \<and>
     bh_locked (hs' x) = bh_locked (hs x) \<and> (bh_dirty (hs' x) \<longrightarrow> bh_dirty (hs x)) \<and>
     (0 \<le> bh_bnum (hs x) \<longrightarrow> bh_bnum (hs' x) = bh_bnum (hs x))"

lemma like_refl [simp]: "like hs hs x"
  by (simp add: like_def)

lemma like_trans: "like a b x \<Longrightarrow> like b c x \<Longrightarrow> like a c x"
  by (simp add: like_def)

text \<open>A number in the file that a block gets is one that no block had.\<close>

definition renumbered :: "(int \<rightharpoonup> nat) \<Rightarrow> (nat \<Rightarrow> bhdr) \<Rightarrow> (nat \<Rightarrow> bhdr) \<Rightarrow> nat set \<Rightarrow> bool" where
  "renumbered L hs hs' X \<longleftrightarrow> (\<forall>x\<in>X. bh_bnum (hs' x) = bh_bnum (hs x) \<or> 0 \<le> bh_bnum (hs' x) \<and> L (bh_bnum (hs' x)) = None)"

lemma renumbered_refl [simp]: "renumbered L hs hs X"
  by (simp add: renumbered_def)

lemma keeps_number:
  assumes "keeps H L hs m L' hs' m'" "L b = Some c" "0 \<le> b"
  shows "L' b = Some c" "holds hs m b c d \<Longrightarrow> holds hs' m' b c d"
proof -
  have "\<exists>d. holds hs m b c d" by (auto simp: holds_def)
  then show "L' b = Some c" "holds hs m b c d \<Longrightarrow> holds hs' m' b c d" using assms unfolding keeps_def by fastforce+
qed

lemma renumbered_trans:
  assumes "renumbered L hs hs1 X" "renumbered L1 hs1 hs2 Y" "keeps H L hs m L1 hs1 m1" "Y \<subseteq> X"
  shows "renumbered L hs hs2 Y"
proof -
  have "L b = None" if "L1 b = None" "0 \<le> b" for b using keeps_number(1) [OF assms(3), of b] that by (cases "L b") auto
  then show ?thesis using assms(1,2,4) unfolding renumbered_def by (metis subsetD)
qed

definition swapped :: "vim_h \<Rightarrow> (int \<rightharpoonup> nat) \<Rightarrow> env \<Rightarrow> memfile \<Rightarrow> (int \<rightharpoonup> nat) \<Rightarrow> env \<Rightarrow> memfile \<Rightarrow> bool" where
  "swapped H L e m L' e' m' \<longleftrightarrow> mf_inv H L' (hdrs e') (next_hdr e') m' \<and> keeps H L (hdrs e) m L' (hdrs e') m' \<and>
     renumbered L (hdrs e) (hdrs e') (set (mf_used m')) \<and> mf_used m' = mf_used m \<and> mf_fd m' = mf_fd m \<and> mf_page_size m' = mf_page_size m \<and> set (mf_free_first m') \<subseteq> set (mf_free_first m) \<and>
     next_hdr e' = next_hdr e \<and> total_mem_used e' = total_mem_used e \<and> (\<forall>x. x \<notin> set (mf_free_first m) \<longrightarrow> like (hdrs e) (hdrs e') x)"

lemma swapped_refl: "mf_inv H L (hdrs e) (next_hdr e) m \<Longrightarrow> swapped H L e m L e m"
  by (simp add: swapped_def)

lemma swapped_trans:
  assumes "swapped H L e m L1 e1 m1" "swapped H L1 e1 m1 L2 e2 m2"
  shows "swapped H L e m L2 e2 m2"
proof -
  have "keeps H L (hdrs e) m L2 (hdrs e2) m2"
    using assms keeps_trans mf_invD(5) unfolding swapped_def by metis
  moreover have "like (hdrs e) (hdrs e2) x" if "x \<notin> set (mf_free_first m)" for x
    using that assms like_trans unfolding swapped_def by (metis subset_iff)
  moreover have "renumbered L (hdrs e) (hdrs e2) (set (mf_used m2))"
    using assms renumbered_trans [of L "hdrs e" "hdrs e1" "set (mf_used m1)" L1 "hdrs e2" "set (mf_used m2)" H m m1] unfolding swapped_def by (metis order_refl)
  ultimately show ?thesis using assms unfolding swapped_def by auto
qed

text \<open>Outcomes of \<open>alloc\<close>, \<open>syscall\<close> and \<open>mch_char_avail\<close> do not matter for the blocks.\<close>

lemma swapped_env:
  assumes "swapped H L e m L' e' m'"
  shows "swapped H L (e\<lparr>allocs := x\<rparr>) m L' e' m'" "swapped H L e m L' (e'\<lparr>allocs := x\<rparr>) m'"
    "swapped H L e m L' (e'\<lparr>faults := y\<rparr>) m'" "swapped H L e m L' (e'\<lparr>chars := z\<rparr>) m'"
  using assms unfolding swapped_def by simp_all metis+

subsection \<open>\<open>mf_trans_add\<close> and \<open>mf_trans_del\<close>\<close>

lemma trans_number_spec:
  assumes inv: "mf_inv H L (hdrs e) nx m" and c: "0 < c"
  shows "\<exists>new hs' m'. mf_trans_number c e m = Inr (new, e\<lparr>hdrs := hs'\<rparr>, m') \<and> took H L nx (hdrs e) m hs' m' new c"
proof -
  let ?m = "m\<lparr>mf_blocknr_max := mf_blocknr_max m + int c\<rparr>"
  have new: ?thesis if "mf_trans_number c e m = Inr (mf_blocknr_max m, e, ?m)"
    using that take_new [OF inv c] by (intro exI [of _ "mf_blocknr_max m"] exI [of _ "hdrs e"] exI [of _ ?m]) simp
  show ?thesis
  proof (cases "mf_free_first m")
    case Nil
    then show ?thesis by (intro new) (simp add: mf_trans_number_def)
  next
    case (Cons f fs)
    consider "c < bh_page_count (hdrs e f)" | "c = bh_page_count (hdrs e f)" | "bh_page_count (hdrs e f) < c" by linarith
    then show ?thesis
    proof cases
      case 1
      then show ?thesis using Cons take_part [OF inv Cons c] by (auto simp: mf_trans_number_def upd_hdr_def)
    next
      case 2
      then show ?thesis using Cons take_all [OF inv Cons]
        by (intro exI [of _ "bh_bnum (hdrs e f)"] exI [of _ "hdrs e"] exI [of _ "m\<lparr>mf_free_first := fs\<rparr>"]) (simp add: mf_trans_number_def mf_rem_free_def)
    next
      case 3
      then show ?thesis using Cons by (intro new) (simp add: mf_trans_number_def)
    qed
  qed
qed

lemma trans_entry_inv:
  assumes "mf_inv H L hs nx m" "old < 0" "mf_blocknr_min m < old" "L old = None" "\<forall>h. old \<notin> fst ` set (mf_trans m h)" "0 \<le> new"
  shows "mf_inv H L hs nx (m\<lparr>mf_trans := (mf_trans m)(MEMHASH H old := (old, new) # mf_trans m (MEMHASH H old))\<rparr>)"
proof (rule mf_invI)
  let ?m = "m\<lparr>mf_trans := (mf_trans m)(MEMHASH H old := (old, new) # mf_trans m (MEMHASH H old))\<rparr>"
  have d: "on_disk ?m = on_disk m" by (simp add: on_disk_def fun_eq_iff)
  note t = wf_transD [OF mf_invD(5) [OF assms(1)]]
  show "wf_lists H hs nx ?m" "wf_numbers L hs ?m" "wf_apart L hs ?m" "wf_file L hs ?m"
    using mf_invD [OF assms(1)] by (simp_all add: wf_lists_def wf_numbers_def wf_apart_def wf_file_def d)
  show "wf_trans H L ?m"
  proof (rule wf_transI)
    show "distinct (map fst (mf_trans ?m h))" for h using t(1) assms(5) by simp
    fix h np assume "np \<in> set (mf_trans ?m h)"
    then show "MEMHASH H (fst np) = h" "fst np < 0" "mf_blocknr_min ?m < fst np" "L (fst np) = None" "0 \<le> snd np"
      using t(2-6) [of np h] assms(2-4,6) by (auto split: if_splits)
  qed
qed

text \<open>Giving a block in memory a number in the file.\<close>

lemma rename_inv:
  assumes inv: "mf_inv H L hs nx m" and hp: "hp \<in> set (mf_used m)" "bh_bnum (hs hp) = old" "old < 0"
    and new: "own_range L hs m new (bh_page_count (hs hp))" "L new = None"
  defines "hs' \<equiv> hs(hp := (hs hp)\<lparr>bh_bnum := new\<rparr>)"
  defines "m1 \<equiv> (ins_blk H hp hs' (rem_blk H hp hs m))\<lparr>mf_used := mf_used m\<rparr>"
  defines "m' \<equiv> m1\<lparr>mf_trans := (mf_trans m)(MEMHASH H old := (old, new) # mf_trans m (MEMHASH H old))\<rparr>"
  defines "L' \<equiv> L(old := None, new \<mapsto> bh_page_count (hs hp))"
  shows "mf_inv H L' hs' nx m'" "keeps H L hs m L' hs' m'"
proof -
  let ?c = "bh_page_count (hs hp)" and ?r = "rem_blk H hp hs m" and ?blk = "(hs hp)\<lparr>bh_bnum := new\<rparr>"
  note l = wf_listsD [OF mf_invD(1) [OF inv]] and n = wf_numbersD [OF mf_invD(2) [OF inv]] and t = wf_transD [OF mf_invD(5) [OF inv]]
  have rem: "mf_inv H (L(old := None)) hs nx ?r" using rem_blk_inv [OF inv hp(1)] hp(2) by simp
  have nn: "0 \<le> new" using own_rangeD(1) [OF new(1)] .
  have free: "hp \<notin> set (mf_used ?r) \<union> set (mf_free_first ?r)" using l(1,3) hp(1) by (auto simp: set_remove1_eq)
  have nb: "new \<notin> bnums hs m" using n(1) new(2) by force
  then have nbr: "new \<notin> bnums hs ?r" using notin_set_remove1 by fastforce
  have own: "own_range (L(old := None)) hs ?r new ?c" using new(1) unfolding own_range_def by (auto split: if_splits)
  have dirty: "bh_dirty (hs hp)" using wf_fileD(4) [OF mf_invD(4) [OF inv] hp(1)] hp(2,3) by force
  have i: "mf_inv H L' hs' nx (ins_blk H hp hs' ?r)"
    unfolding L'_def hs'_def
  proof (rule ins_blk_inv [OF rem free])
    show "hp < nx" using l(4) [OF hp(1)] .
    show "length (bh_data ?blk) = mf_page_size ?r * ?c" "0 < ?c" using used_block [OF inv hp(1)] by simp_all
    show "if new < 0 then mf_blocknr_min ?r < new \<and> (\<forall>h. new \<notin> fst ` set (mf_trans ?r h)) else own_range (L(old := None)) hs ?r new ?c"
      using own nn by simp
  qed (use nbr dirty in simp_all)
  have u: "set (hp # remove1 hp (mf_used m)) = set (mf_used m)" "distinct (mf_used m)" using l(1) hp(1) by (auto simp: set_remove1_eq)
  have i1: "mf_inv H L' hs' nx m1"
    unfolding m1_def using i by (rule used_perm) (use u in simp_all)
  have f1: "mf_trans m1 = mf_trans m" "mf_blocknr_min m1 = mf_blocknr_min m" "mf_used m1 = mf_used m" by (simp_all add: m1_def)
  have Lo: "L old = Some ?c" using n(1) [OF hp(1)] hp(2) by simp
  have keys: "\<forall>h. old \<notin> fst ` set (mf_trans m h)" using t(5) Lo by fastforce
  have "L' old = None" using nn hp(3) by (simp add: L'_def)
  then show "mf_inv H L' hs' nx m'"
    using trans_entry_inv [OF i1 hp(3), of new] n(5) [OF Lo hp(3)] keys nn f1 unfolding m'_def by simp
  have h: "holds hs' m' b c d = holds hs' (ins_blk H hp hs' ?r) b c d" for b c d
    using u by (intro holds_cong) (simp_all add: m'_def m1_def)
  have nu: "hp \<notin> set (mf_used ?r)" using free by blast
  show "keeps H L hs m L' hs' m'"
    unfolding keeps_def
  proof (intro conjI allI impI)
    show "set (mf_trans m h) \<subseteq> set (mf_trans m' h)" for h by (auto simp: m'_def)
    fix b c d assume b: "L b = Some c" "holds hs m b c d"
    show "\<exists>b'. L' b' = Some c \<and> holds hs' m' b' c d \<and> (b' = b \<or> b < 0 \<and> (b, b') \<in> set (mf_trans m' (MEMHASH H b)))"
    proof (cases "b = old")
      case True
      have "L' new = Some c" using True b(1) Lo by (simp add: L'_def)
      moreover have "bh_data (hs hp) = d" using b(2) holds_used [OF inv hp(1)] True hp(2) by simp
      then have "holds hs' m' new c d" using holds_ins(2) [OF nu, of ?blk hs H c d] nbr unfolding h unfolding hs'_def by simp
      moreover have "(b, new) \<in> set (mf_trans m' (MEMHASH H b))" using True by (simp add: m'_def)
      ultimately show ?thesis using True hp(3) by blast
    next
      case False
      then have "b \<noteq> new" using b(1) new(2) by auto
      then have "holds hs' m' b c d"
        using holds_ins(1) [OF nu, of b ?blk hs H c d] holds_rem_other [OF inv hp(1), of b c d] False hp(2) b(2) unfolding h unfolding hs'_def by simp
      moreover have "L' b = Some c" using False \<open>b \<noteq> new\<close> b(1) by (simp add: L'_def)
      ultimately show ?thesis by blast
    qed
  qed
qed


lemma trans_add_spec:
  assumes inv: "mf_inv H L (hdrs e) (next_hdr e) m" and hp: "hp \<in> set (mf_used m)"
  shows "\<exists>ok e' m' L'. mf_trans_add H hp e m = Inr (ok, e', m') \<and> swapped H L e m L' e' m' \<and>
    (ok \<longrightarrow> 0 \<le> bh_bnum (hdrs e' hp)) \<and> faults e' = faults e \<and> bh_dirty (hdrs e' hp) = bh_dirty (hdrs e hp) \<and>
    (allocs e = [] \<longrightarrow> ok \<and> allocs e' = [])"
proof (cases "0 \<le> bh_bnum (hdrs e hp)")
  case True
  then show ?thesis using swapped_refl [OF inv] by (auto simp: mf_trans_add_def)
next
  case False
  let ?e1 = "e\<lparr>allocs := tl (allocs e)\<rparr>" and ?c = "bh_page_count (hdrs e hp)" and ?old = "bh_bnum (hdrs e hp)"
  show ?thesis
  proof (cases "allocs e = [] \<or> hd (allocs e)")
    case fail: False
    then have "mf_trans_add H hp e m = Inr (False, ?e1, m)" using False by (simp add: mf_trans_add_def alloc_eq)
    then show ?thesis using swapped_env(2) [OF swapped_refl [OF inv]] fail by auto
  next
    case ok: True
    have c: "0 < ?c" using used_block [OF inv hp] by blast
    obtain new hs1 m1 where tn: "mf_trans_number ?c ?e1 m = Inr (new, ?e1\<lparr>hdrs := hs1\<rparr>, m1)"
      and tk: "took H L (next_hdr e) (hdrs e) m hs1 m1 new ?c"
      using trans_number_spec [of H L ?e1 "next_hdr e" m ?c] inv c by auto
    obtain fs mx where m1: "m1 = m\<lparr>mf_free_first := fs, mf_blocknr_max := mx\<rparr>" "set fs \<subseteq> set (mf_free_first m)"
      using tk unfolding took_def by blast
    have t: "mf_inv H L hs1 (next_hdr e) m1" "own_range L hs1 m1 new ?c" "L new = None"
      "\<And>x. x \<notin> set (mf_free_first m) \<Longrightarrow> hs1 x = hdrs e x" using tk unfolding took_def by blast+
    have nf: "x \<notin> set (mf_free_first m)" if "x \<in> set (mf_used m)" for x
      using that wf_listsD(3) [OF mf_invD(1) [OF inv]] by blast
    have hp1: "hs1 hp = hdrs e hp" "hp \<in> set (mf_used m1)" using t(4) [OF nf [OF hp]] hp m1 by simp_all
    let ?hs' = "hs1(hp := (hs1 hp)\<lparr>bh_bnum := new\<rparr>)"
    let ?m' = "((ins_blk H hp ?hs' (rem_blk H hp hs1 m1))\<lparr>mf_used := mf_used m1\<rparr>)
      \<lparr>mf_trans := (mf_trans m1)(MEMHASH H ?old := (?old, new) # mf_trans m1 (MEMHASH H ?old))\<rparr>"
    let ?L' = "L(?old := None, new \<mapsto> ?c)"
    have r: "mf_inv H ?L' ?hs' (next_hdr e) ?m'" "keeps H L hs1 m1 ?L' ?hs' ?m'"
      using rename_inv [OF t(1) hp1(2), of ?old new] False t(2,3) unfolding hp1(1) by simp_all
    have "keeps H L (hdrs e) m L hs1 m1"
    proof (rule agree_keeps)
      show "agree L (hdrs e) m hs1 m1"
        unfolding agree_def using holds_hdr [of m hs1 "hdrs e"] t(4) nf holds_cong [of m1 m] m1 by auto
    qed (simp add: m1)
    then have k: "keeps H L (hdrs e) m ?L' ?hs' ?m'" using keeps_trans r(2) mf_invD(5) [OF t(1)] by blast
    have def: "mf_trans_add H hp e m = Inr (True, ?e1\<lparr>hdrs := ?hs'\<rparr>, ?m')"
      using False ok tn hp1(1)
      by (simp add: mf_trans_add_def alloc_eq Let_def upd_hdr_def mf_rem_hash_def mf_ins_hash_def ins_blk_def rem_blk_def)
    have "like (hdrs e) ?hs' x" if "x \<notin> set (mf_free_first m)" for x using t(4) [OF that] hp1(1) False by (simp add: like_def)
    moreover have nn: "0 \<le> new" using own_rangeD(1) [OF t(2)] .
    moreover have "renumbered L (hdrs e) ?hs' (set (mf_used m))" using nn t(3,4) nf by (auto simp: renumbered_def)
    ultimately have "swapped H L e m ?L' (?e1\<lparr>hdrs := ?hs'\<rparr>) ?m'"
      unfolding swapped_def using r(1) k m1 by (simp del: fun_upd_apply)
    moreover note nn
    ultimately show ?thesis using def hp1(1) ok
      by (intro exI [of _ True] exI [of _ "?e1\<lparr>hdrs := ?hs'\<rparr>"] exI [of _ ?m'] exI [of _ ?L']) simp
  qed
qed

lemma find_unique: "x \<in> set xs \<Longrightarrow> P x \<Longrightarrow> (\<And>y. y \<in> set xs \<Longrightarrow> P y \<Longrightarrow> y = x) \<Longrightarrow> find P xs = Some x"
proof (cases "find P xs")
  case None
  assume "x \<in> set xs" "P x"
  then show ?thesis using None by (simp add: find_None_iff)
next
  case (Some y)
  assume u: "\<And>y. y \<in> set xs \<Longrightarrow> P y \<Longrightarrow> y = x"
  from Some have "y \<in> set xs" "P y" by (auto simp: find_Some_iff)
  from u [OF this] Some show ?thesis by simp
qed

text \<open>The new number is found once, under the old one.\<close>

lemma trans_del_spec:
  assumes "wf_trans H L m" "(old, new) \<in> set (mf_trans m (MEMHASH H old))"
  shows "\<exists>m'. mf_trans_del H old m = (new, m') \<and> mf_trans_del H old m' = (old, m')"
proof -
  let ?ts = "mf_trans m (MEMHASH H old)"
  have d: "distinct (map fst ?ts)" using wf_transD(1) [OF assms(1)] .
  have u: "np = (old, new)" if "np \<in> set ?ts" "fst np = old" for np
  proof -
    have "(old, snd np) \<in> set ?ts" using that by auto
    then show ?thesis using eq_key_imp_eq_value [OF d _ assms(2)] that(2) by (metis prod.collapse)
  qed
  have f: "find (\<lambda>np. fst np = old) ?ts = Some (old, new)" by (rule find_unique [OF assms(2)]) (simp, rule u)
  have "distinct ?ts" using d by (simp add: distinct_map)
  then have "set (remove1 (old, new) ?ts) = set ?ts - {(old, new)}" by (rule set_remove1_eq)
  then have "find (\<lambda>np. fst np = old) (remove1 (old, new) ?ts) = None"
    unfolding find_None_iff using u by blast
  then show ?thesis using f by (simp add: mf_trans_del_def Let_def)
qed


subsection \<open>\<open>mf_write\<close> and \<open>mf_release\<close>\<close>

lemma written_swapped:
  assumes "written H L hp e m ok e' m'"
  shows "swapped H L e m L e' m'" "total_mem_used e' = total_mem_used e" "allocs e' = allocs e"
proof -
  obtain d n fs where f: "m' = m\<lparr>disk := d, mf_infile_count := n\<rparr>" "e' = e\<lparr>hdrs := hdrs e', faults := fs\<rparr>"
    using assms unfolding written_def by blast
  have e: "next_hdr e' = next_hdr e" "total_mem_used e' = total_mem_used e" "allocs e' = allocs e" by (subst f(2), simp)+
  then show "total_mem_used e' = total_mem_used e" "allocs e' = allocs e" by blast+
  have "like (hdrs e) (hdrs e') x" for x
    using assms same_but_dirtyD [of "hdrs e" "hdrs e'"] unfolding written_def like_def by auto
  moreover have "keeps H L (hdrs e) m L (hdrs e') m'" using assms agree_keeps f(1) unfolding written_def by simp
  moreover have "renumbered L (hdrs e) (hdrs e') X" for X
    using assms same_but_dirtyD [of "hdrs e" "hdrs e'"] unfolding written_def renumbered_def by auto
  ultimately show "swapped H L e m L e' m'" using assms e f(1) unfolding swapped_def written_def by simp
qed

lemma write_spec:
  assumes inv: "mf_inv H L (hdrs e) (next_hdr e) m" and hp: "hp \<in> set (mf_used m)" "bh_dirty (hdrs e hp)"
  shows "\<exists>ok e' m' L'. mf_write H hp e m = Inr (ok, e', m') \<and> swapped H L e m L' e' m' \<and> (ok \<longrightarrow> \<not> bh_dirty (hdrs e' hp)) \<and>
    (0 \<le> mf_fd m \<and> faults e = [] \<and> allocs e = [] \<longrightarrow> ok \<and> faults e' = [] \<and> allocs e' = [])"
proof (cases "mf_fd m < 0")
  case True
  then show ?thesis using swapped_refl [OF inv] by (auto simp: mf_write_def)
next
  case False
  obtain ok1 e1 m1 L1 where t: "(if bh_bnum (hdrs e hp) < 0 then mf_trans_add H hp e m else Inr (True, e, m)) = Inr (ok1, e1, m1)"
    "swapped H L e m L1 e1 m1" "ok1 \<longrightarrow> 0 \<le> bh_bnum (hdrs e1 hp)" "faults e1 = faults e" "bh_dirty (hdrs e1 hp) = bh_dirty (hdrs e hp)"
    "allocs e = [] \<longrightarrow> ok1 \<and> allocs e1 = []"
  proof (cases "bh_bnum (hdrs e hp) < 0")
    case True
    then show ?thesis using that trans_add_spec [OF inv hp(1)] by auto
  next
    case False
    then show ?thesis using that [of True e m L] swapped_refl [OF inv] by simp
  qed
  show ?thesis
  proof (cases ok1)
    case no: False
    then show ?thesis using False t by (auto simp: mf_write_def)
  next
    case True
    have u: "mf_used m1 = mf_used m" "mf_inv H L1 (hdrs e1) (next_hdr e1) m1" using t(2) unfolding swapped_def by blast+
    have "nat (bh_bnum (hdrs e1 hp) - mf_infile_count m1) < write_fuel hp e1 m1" by (simp add: write_fuel_def)
    then obtain ok e' m' where w: "mf_write_loop H (write_fuel hp e1 m1) hp e1 m1 = Inr (ok, e', m')" "written H L1 hp e1 m1 ok e' m'"
      using write_loop_spec [OF u(2), of hp "write_fuel hp e1 m1"] t(3,5) True hp u(1) by auto
    have "mf_write H hp e m = Inr (ok, e', m')" using False t(1) True w(1) by (simp add: mf_write_def)
    moreover have "swapped H L e m L1 e' m'" using swapped_trans [OF t(2) written_swapped(1) [OF w(2)]] .
    ultimately show ?thesis using w(2) t(4,6) written_swapped(3) [OF w(2)] unfolding written_def by auto
  qed
qed


text \<open>\<open>mf_release\<close> either keeps all blocks in memory or hands out one header, whose block is then in the
  file only. The result of a call: the header is in no list, the contents are kept.\<close>

definition released :: "vim_h \<Rightarrow> (int \<rightharpoonup> nat) \<Rightarrow> env \<Rightarrow> memfile \<Rightarrow> nat \<Rightarrow> nat option \<Rightarrow> (int \<rightharpoonup> nat) \<Rightarrow> env \<Rightarrow> memfile \<Rightarrow> bool" where
  "released H L e m c hp L' e' m' \<longleftrightarrow> mf_inv H L' (hdrs e') (next_hdr e') m' \<and> keeps H L (hdrs e) m L' (hdrs e') m' \<and>
     renumbered L (hdrs e) (hdrs e') (set (mf_used m')) \<and> set (mf_used m') \<subseteq> set (mf_used m) \<and> set (mf_free_first m') \<subseteq> set (mf_free_first m) \<and> mf_page_size m' = mf_page_size m \<and> mf_fd m' = mf_fd m \<and>
     next_hdr e' = next_hdr e \<and> (\<forall>x\<in>set (mf_used m'). like (hdrs e) (hdrs e') x) \<and>
     (\<forall>x\<in>set (mf_used m). bh_locked (hdrs e x) \<longrightarrow> x \<in> set (mf_used m')) \<and>
     (case hp of None \<Rightarrow> True
      | Some h \<Rightarrow> h < next_hdr e' \<and> h \<notin> set (mf_used m') \<union> set (mf_free_first m') \<and>
          bh_page_count (hdrs e' h) = c \<and> length (bh_data (hdrs e' h)) = mf_page_size m' * c)"

lemma swapped_released:
  assumes "swapped H L e m L' e' m'" "mf_inv H L (hdrs e) (next_hdr e) m"
  shows "released H L e m c None L' e' m'"
proof -
  have "\<forall>x\<in>set (mf_used m). x \<notin> set (mf_free_first m)" using wf_listsD(3) [OF mf_invD(1) [OF assms(2)]] by blast
  then show ?thesis using assms(1) unfolding released_def swapped_def by simp_all metis+
qed

lemma length_fresh_data [simp]: "length (fresh_data H m c) = mf_page_size m * c"
  by (simp add: fresh_data_def)

text \<open>Taking a clean, unlocked block out of memory.\<close>

lemma evict:
  assumes inv: "mf_inv H L hs nx m" and hp: "hp \<in> set (mf_used m)" "\<not> bh_dirty (hs hp)" "\<not> bh_locked (hs hp)"
  shows "mf_inv H L hs nx (rem_blk H hp hs m)" "agree L hs m hs (rem_blk H hp hs m)"
proof -
  let ?b = "bh_bnum (hs hp)" and ?c = "bh_page_count (hs hp)" and ?r = "rem_blk H hp hs m"
  have L: "L ?b = Some ?c" using used_block [OF inv hp(1)] by blast
  note f = wf_fileD [OF mf_invD(4) [OF inv]]
  have b: "0 \<le> ?b" "?b + int ?c \<le> mf_infile_count m" "on_disk m ?b ?c = bh_data (hs hp)"
    using f(4-6) [OF hp(1,2)] hp(3) by blast+
  have "own_range L hs m ?b ?c" using own_range_known [OF inv L b(1)] .
  then have "own_range (L(?b := None)) hs ?r ?b ?c" unfolding own_range_def by (auto split: if_splits)
  then have "mf_inv H ((L(?b := None))(?b \<mapsto> ?c)) hs nx ?r"
    by (rule known_blk_inv [OF rem_blk_inv [OF inv hp(1)]]) (use b(2) not_in_memory [OF inv hp(1)] in simp_all)
  moreover have "(L(?b := None))(?b \<mapsto> ?c) = L" using L by (auto simp: fun_eq_iff)
  ultimately show "mf_inv H L hs nx ?r" by metis
  show "agree L hs m hs ?r"
    unfolding agree_def
  proof (intro allI impI)
    fix b' c' d assume "L b' = Some c'" "holds hs m b' c' d"
    then show "holds hs ?r b' c' d"
      using holds_rem_other [OF inv hp(1)] holds_rem_stored [OF inv hp(1)] b(3) L by (cases "b' = ?b") auto
  qed
qed

lemma mf_rem_blk: "mf_rem_used hp e m = (e', m1) \<Longrightarrow> mf_rem_hash H hp e' m1 = rem_blk H hp (hdrs e) m \<and> hdrs e' = hdrs e \<and> next_hdr e' = next_hdr e \<and>
    allocs e' = allocs e \<and> faults e' = faults e"
  by (auto simp: mf_rem_used_def mf_rem_hash_def rem_blk_def Let_def)

lemma release_tail:
  assumes inv: "mf_inv H L (hdrs e) (next_hdr e) m" and hp: "hp \<in> set (mf_used m)" "\<not> bh_dirty (hdrs e hp)" "\<not> bh_locked (hdrs e hp)"
    and e': "hdrs e' = (if bh_page_count (hdrs e hp) \<noteq> c \<and> r \<noteq> None then (hdrs e)(hp := (hdrs e hp)\<lparr>bh_data := fresh_data H m c, bh_page_count := c\<rparr>) else hdrs e)"
      "next_hdr e' = next_hdr e" and r: "r = Some hp \<or> r = None"
  shows "released H L e m c r L e' (rem_blk H hp (hdrs e) m)"
proof -
  let ?m = "rem_blk H hp (hdrs e) m"
  note l = wf_listsD [OF mf_invD(1) [OF inv]]
  have u: "set (mf_used ?m) = set (mf_used m) - {hp}" using l(1) by (simp add: set_remove1_eq)
  have free: "hp \<notin> set (mf_used ?m) \<union> set (mf_free_first ?m)" using u l(3) hp(1) by auto
  have s: "hdrs e' x = hdrs e x" if "x \<in> set (mf_used ?m) \<union> set (mf_free_first ?m)" for x using that free e'(1) by auto
  have i: "mf_inv H L (hdrs e') (next_hdr e') ?m" using loose_hdr [OF evict(1) [OF inv hp], of "hdrs e'" "next_hdr e'"] s e'(2) by simp
  have "agree L (hdrs e) m (hdrs e') ?m"
    using evict(2) [OF inv hp] holds_hdr [of ?m "hdrs e'" "hdrs e"] s unfolding agree_def by auto
  then have "keeps H L (hdrs e) m L (hdrs e') ?m" by (rule agree_keeps) simp
  then show ?thesis
    using i u free s l(4) [OF hp(1)] e' r hp(3) used_block(2) [OF inv hp(1)] unfolding released_def like_def renumbered_def
    by (auto split: option.splits)
qed

lemma released_swapped:
  assumes "swapped H L e m L1 e1 m1" "released H L1 e1 m1 c hp L2 e2 m2" "mf_inv H L (hdrs e) (next_hdr e) m"
  shows "released H L e m c hp L2 e2 m2"
proof -
  have nf: "x \<notin> set (mf_free_first m)" if "x \<in> set (mf_used m)" for x
    using that wf_listsD(3) [OF mf_invD(1) [OF assms(3)]] by blast
  have "keeps H L (hdrs e) m L2 (hdrs e2) m2"
    using assms(1,2) keeps_trans mf_invD(5) unfolding swapped_def released_def by metis
  moreover have "like (hdrs e) (hdrs e2) x" if "x \<in> set (mf_used m2)" for x
    using that assms(1,2) like_trans nf unfolding swapped_def released_def by (metis subset_iff)
  moreover have "x \<in> set (mf_used m2)" if "x \<in> set (mf_used m)" "bh_locked (hdrs e x)" for x
    using that assms(1,2) nf [OF that(1)] unfolding swapped_def released_def like_def by auto
  moreover have "renumbered L (hdrs e) (hdrs e2) (set (mf_used m2))"
    using assms(1,2) renumbered_trans [of L "hdrs e" "hdrs e1" "set (mf_used m1)" L1 "hdrs e2" "set (mf_used m2)" H m m1]
    unfolding swapped_def released_def by blast
  ultimately show ?thesis using assms(1,2) unfolding swapped_def released_def by auto
qed

text \<open>The end of \<open>mf_release\<close>, when the victim is clean.\<close>

definition take_victim :: "vim_h \<Rightarrow> nat \<Rightarrow> nat \<Rightarrow> env \<Rightarrow> memfile \<Rightarrow> nat option \<times> env \<times> memfile" where
  "take_victim H page_count hp e m =
     (let (e, m) = mf_rem_used hp e m;
          m = mf_rem_hash H hp e m
      in if bh_page_count (hdrs e hp) \<noteq> page_count
         then let (ok, e) = alloc e
              in if \<not> ok then (None, e, m)
                 else (Some hp, upd_hdr hp (\<lambda>b. b\<lparr>bh_data := fresh_data H m page_count, bh_page_count := page_count\<rparr>) e, m)
         else (Some hp, e, m))"

lemma take_victim_spec:
  assumes inv: "mf_inv H L (hdrs e) (next_hdr e) m" and hp: "hp \<in> set (mf_used m)" "\<not> bh_dirty (hdrs e hp)" "\<not> bh_locked (hdrs e hp)"
  shows "\<exists>r e' m'. take_victim H c hp e m = (r, e', m') \<and> released H L e m c r L e' m'"
proof -
  obtain e1 m1 where r: "mf_rem_used hp e m = (e1, m1)" by fastforce
  note b = mf_rem_blk [OF r, of H]
  let ?m = "rem_blk H hp (hdrs e) m" and ?e = "e1\<lparr>allocs := tl (allocs e1)\<rparr>"
  have f: "fresh_data H ?m c = fresh_data H m c" by (simp add: fresh_data_def)
  consider "bh_page_count (hdrs e hp) = c" | "bh_page_count (hdrs e hp) \<noteq> c" "allocs e1 = [] \<or> hd (allocs e1)"
    | "bh_page_count (hdrs e hp) \<noteq> c" "\<not> (allocs e1 = [] \<or> hd (allocs e1))" by blast
  then show ?thesis
  proof cases
    case 1
    then have "take_victim H c hp e m = (Some hp, e1, ?m)" using b by (simp add: take_victim_def r)
    then show ?thesis using release_tail [OF inv hp, of e1 c "Some hp"] 1 b by simp
  next
    case 2
    then have "take_victim H c hp e m = (Some hp, upd_hdr hp (\<lambda>b. b\<lparr>bh_data := fresh_data H m c, bh_page_count := c\<rparr>) ?e, ?m)"
      using b by (simp add: take_victim_def r alloc_eq f)
    then show ?thesis using release_tail [OF inv hp, of "upd_hdr hp (\<lambda>b. b\<lparr>bh_data := fresh_data H m c, bh_page_count := c\<rparr>) ?e" c "Some hp"] 2(1) b
      by (simp add: upd_hdr_def)
  next
    case 3
    then have "take_victim H c hp e m = (None, ?e, ?m)" using b by (simp add: take_victim_def r alloc_eq)
    then show ?thesis using release_tail [OF inv hp, of ?e c None] b by simp
  qed
qed

lemma mf_release_victim:
  "mf_release H c e m =
     (if mf_fd m < 0 \<or> (mf_used_count m < mf_used_count_max m \<or> mf_used_count_max m = 0) \<and> total_mem_used e div 1024 < p_mmt H
      then Inr (None, e, m)
      else case find (\<lambda>hp. \<not> bh_locked (hdrs e hp)) (rev (mf_used m)) of
             None \<Rightarrow> Inr (None, e, m)
           | Some hp \<Rightarrow>
               ebind (if bh_dirty (hdrs e hp) then mf_write H hp e m else Inr (True, e, m)) (\<lambda>(ok, e, m).
                 if \<not> ok then Inr (None, e, m) else Inr (take_victim H c hp e m)))"
  unfolding mf_release_def take_victim_def
  by (intro if_cong refl option.case_cong ebind_cong) (auto simp: Let_def split: prod.splits intro!: ext)

lemma release_spec:
  assumes inv: "mf_inv H L (hdrs e) (next_hdr e) m"
  shows "\<exists>r e' m' L'. mf_release H c e m = Inr (r, e', m') \<and> released H L e m c r L' e' m'"
proof -
  let ?P = "\<lambda>hp. \<not> bh_locked (hdrs e hp)"
  have none: ?thesis if "mf_release H c e m = Inr (None, e, m)" using that swapped_released [OF swapped_refl [OF inv] inv] by blast
  show ?thesis
  proof (cases "mf_fd m < 0 \<or> (mf_used_count m < mf_used_count_max m \<or> mf_used_count_max m = 0) \<and> total_mem_used e div 1024 < p_mmt H")
    case True
    then show ?thesis by (intro none) (simp only: mf_release_def if_True)
  next
    case go: False
    show ?thesis
    proof (cases "find ?P (rev (mf_used m))")
      case None
      then show ?thesis using go by (intro none) (simp only: mf_release_def if_False option.case)
    next
      case (Some hp)
      then have hp: "hp \<in> set (mf_used m)" "\<not> bh_locked (hdrs e hp)" by (auto simp: find_Some_iff rev_nth)
      have r: "mf_release H c e m = ebind (if bh_dirty (hdrs e hp) then mf_write H hp e m else Inr (True, e, m)) (\<lambda>(ok, e, m).
                 if \<not> ok then Inr (None, e, m) else Inr (take_victim H c hp e m))"
        using go Some by (simp only: mf_release_victim if_False option.case)
      obtain ok e1 m1 L1 where w: "(if bh_dirty (hdrs e hp) then mf_write H hp e m else Inr (True, e, m)) = Inr (ok, e1, m1)"
        "swapped H L e m L1 e1 m1" "ok \<longrightarrow> \<not> bh_dirty (hdrs e1 hp)"
      proof (cases "bh_dirty (hdrs e hp)")
        case True
        then show ?thesis using that write_spec [OF inv hp(1)] by auto
      next
        case False
        then show ?thesis using that [of True e m L] swapped_refl [OF inv] by simp
      qed
      show ?thesis
      proof (cases ok)
        case False
        then show ?thesis using r w(1) swapped_released [OF w(2) inv] by auto
      next
        case True
        have "hp \<notin> set (mf_free_first m)" using hp(1) wf_listsD(3) [OF mf_invD(1) [OF inv]] by blast
        then have "mf_inv H L1 (hdrs e1) (next_hdr e1) m1" "hp \<in> set (mf_used m1)" "\<not> bh_locked (hdrs e1 hp)"
          using w(2) hp unfolding swapped_def like_def by metis+
        then obtain v e' m' where v: "take_victim H c hp e1 m1 = (v, e', m')" "released H L1 e1 m1 c v L1 e' m'"
          using take_victim_spec w(3) True by blast
        then show ?thesis using r w(1) True released_swapped [OF w(2) v(2) inv] by auto
      qed
    qed
  qed
qed

end
