(* ===== verification/Vim_New.thy ===== *)
theory Vim_New
  imports Vim_Ops
begin

text \<open>
  \<open>mf_new\<close> and \<open>mf_get\<close> of \<open>vim/src/memfile.c\<close>: a new block gets pages no other block has, and a block that
  is not in memory is read back.
\<close>

subsection \<open>Outcomes of \<open>alloc\<close>\<close>

text \<open>An operation only uses up planned outcomes.\<close>

definition uses_up :: "env \<Rightarrow> env \<Rightarrow> bool" where
  "uses_up e e' \<longleftrightarrow> set (allocs e') \<subseteq> set (allocs e) \<and> set (faults e') \<subseteq> set (faults e)"

lemma uses_up_refl [simp]: "uses_up e e"
  by (simp add: uses_up_def)

lemma uses_up_trans: "uses_up e e1 \<Longrightarrow> uses_up e1 e2 \<Longrightarrow> uses_up e e2"
  by (auto simp: uses_up_def)

lemma uses_up_upd [simp]: "uses_up e (upd_hdr hp f e') = uses_up e e'" "uses_up e (e'\<lparr>hdrs := hs\<rparr>) = uses_up e e'"
  "uses_up e (e'\<lparr>total_mem_used := n\<rparr>) = uses_up e e'"
  by (simp_all add: uses_up_def upd_hdr_def)

lemma set_tl: "set (tl xs) \<subseteq> set xs"
  by (cases xs) auto

lemma uses_up_tl: "uses_up e e' \<Longrightarrow> uses_up e (e'\<lparr>allocs := tl (allocs e')\<rparr>)" "uses_up e e' \<Longrightarrow> uses_up e (e'\<lparr>faults := tl (faults e')\<rparr>)"
  "uses_up e e' \<Longrightarrow> uses_up e (e'\<lparr>faults := tl (tl (faults e'))\<rparr>)" "uses_up e e' \<Longrightarrow> uses_up e (e'\<lparr>faults := tl (tl (faults e')), hdrs := hs\<rparr>)"
  using set_tl [of "allocs e'"] set_tl [of "faults e'"] set_tl [of "tl (faults e')"] by (auto simp: uses_up_def)

lemma write_loop_uses: "mf_write_loop H n hp e m = Inr (ok, e', m') \<Longrightarrow> uses_up e e'"
proof (induction n arbitrary: e m)
  case (Suc n)
  let ?e = "e\<lparr>faults := tl (tl (faults e)), hdrs := wl_hs H hp e m\<rparr>"
  have "uses_up e e'" if "mf_write_loop H n hp ?e (wl_m H hp e m) = Inr (ok, e', m')"
    using uses_up_trans [OF uses_up_tl(4) [OF uses_up_refl] Suc.IH [OF that]] .
  then show ?case using Suc.prems unfolding write_loop_unfold by (auto intro: uses_up_tl split: if_splits)
qed simp

lemma trans_number_uses: "mf_trans_number c e m = Inr (new, e', m') \<Longrightarrow> uses_up e e'"
  by (auto simp: mf_trans_number_def mf_rem_free_def Let_def split: list.splits if_splits)

lemma trans_add_uses: "mf_trans_add H hp e m = Inr (ok, e', m') \<Longrightarrow> uses_up e e'"
  using uses_up_trans [OF uses_up_tl(1) [OF uses_up_refl], of e] uses_up_tl(1) [OF uses_up_refl, of e]
  by (auto simp: mf_trans_add_def alloc_eq ebind_eq_Inr Let_def dest!: trans_number_uses split: if_splits)

lemma write_uses: "mf_write H hp e m = Inr (ok, e', m') \<Longrightarrow> uses_up e e'"
  by (auto simp: mf_write_def ebind_eq_Inr dest!: write_loop_uses trans_add_uses intro: uses_up_trans split: if_splits)

lemma victim_uses: "take_victim H c hp e m = (r, e', m') \<Longrightarrow> uses_up e e'"
  by (auto simp: take_victim_def mf_rem_used_def alloc_eq Let_def uses_up_def upd_hdr_def dest: set_tl [THEN subsetD] split: if_splits)

lemma release_uses: "mf_release H c e m = Inr (r, e', m') \<Longrightarrow> uses_up e e'"
  unfolding mf_release_victim
  by (auto simp: ebind_eq_Inr dest!: write_uses victim_uses intro: uses_up_trans split: if_splits option.splits)

subsection \<open>A header for a block\<close>

text \<open>\<open>loose\<close>: a header in no list, with memory for \<open>c\<close> pages.\<close>

definition loose :: "nat \<Rightarrow> nat \<Rightarrow> (nat \<Rightarrow> bhdr) \<Rightarrow> nat \<Rightarrow> memfile \<Rightarrow> bool" where
  "loose h c hs nx m \<longleftrightarrow> h < nx \<and> h \<notin> set (mf_used m) \<union> set (mf_free_first m) \<and> length (bh_data (hs h)) = mf_page_size m * c"

lemma have_hdr_spec:
  assumes inv: "mf_inv H L (hdrs e) (next_hdr e) m" and r: "\<And>h. r = Some h \<Longrightarrow> loose h c (hdrs e) (next_hdr e) m"
  shows "case mf_have_hdr H m c r e of
      Inl x \<Rightarrow> x = NullDeref \<and> False \<in> set (allocs e)
    | Inr (None, e') \<Rightarrow> hdrs e' = hdrs e \<and> next_hdr e' = next_hdr e \<and> False \<in> set (allocs e)
    | Inr (Some h, e') \<Rightarrow> mf_inv H L (hdrs e') (next_hdr e') m \<and> loose h c (hdrs e') (next_hdr e') m \<and>
        (\<forall>x. x \<noteq> h \<longrightarrow> hdrs e' x = hdrs e x) \<and> uses_up e e'"
proof (cases r)
  case (Some h)
  then show ?thesis using r inv by (simp add: mf_have_hdr_def)
next
  case None
  let ?n = "next_hdr e"
  have n: "?n \<notin> set (mf_used m) \<union> set (mf_free_first m)" using wf_listsD(4,5) [OF mf_invD(1) [OF inv]] by fastforce
  then have "mf_inv H L ((hdrs e)(?n := x)) (Suc ?n) m" for x by (intro loose_hdr [OF inv]) auto
  moreover have "False \<in> set (allocs e)" if "tl (allocs e) \<noteq> []" "\<not> hd (tl (allocs e))"
    using that by (cases "allocs e"; cases "tl (allocs e)") auto
  moreover have "False \<in> set (allocs e)" if "allocs e \<noteq> []" "\<not> hd (allocs e)" using that by (cases "allocs e") auto
  moreover have "uses_up e (e\<lparr>allocs := tl (tl (allocs e)), next_hdr := n', hdrs := hs'\<rparr>)" for n' hs'
    using set_tl [of "allocs e"] set_tl [of "tl (allocs e)"] by (auto simp: uses_up_def)
  ultimately show ?thesis using n None by (auto simp: mf_have_hdr_def mf_alloc_bhdr_def store_hdr_def upd_hdr_def alloc_eq loose_def Let_def)
qed

lemma have_hdr_cases:
  assumes inv: "mf_inv H L (hdrs e) (next_hdr e) m" and r: "\<And>h. r = Some h \<Longrightarrow> loose h c (hdrs e) (next_hdr e) m"
  obtains (crash) "mf_have_hdr H m c r e = Inl NullDeref" "False \<in> set (allocs e)"
    | (none) e1 where "mf_have_hdr H m c r e = Inr (None, e1)" "hdrs e1 = hdrs e" "next_hdr e1 = next_hdr e" "False \<in> set (allocs e)"
    | (hdr) hp e1 where "mf_have_hdr H m c r e = Inr (Some hp, e1)" "mf_inv H L (hdrs e1) (next_hdr e1) m"
        "loose hp c (hdrs e1) (next_hdr e1) m" "\<forall>x. x \<noteq> hp \<longrightarrow> hdrs e1 x = hdrs e x" "uses_up e e1"
  using have_hdr_spec [where r = r, OF inv r] by (auto split: sum.splits prod.splits option.splits)

subsection \<open>\<open>mf_new\<close>\<close>

lemma inv_counts [simp]:
  "mf_inv H L hs nx (m\<lparr>mf_dirty := x\<rparr>) = mf_inv H L hs nx m" "mf_inv H L hs nx (m\<lparr>mf_neg_count := y\<rparr>) = mf_inv H L hs nx m"
  by (simp_all add: mf_inv_def wf_defs on_disk_def)

lemma holds_counts [simp]:
  "holds hs (m\<lparr>mf_dirty := x\<rparr>) b c d = holds hs m b c d" "holds hs (m\<lparr>mf_neg_count := y\<rparr>) b c d = holds hs m b c d"
  "holds hs (m\<lparr>mf_blocknr_min := z\<rparr>) b c d = holds hs m b c d"
  by (simp_all add: holds_def on_disk_def)

text \<open>Block \<open>b\<close> is new: it is in memory, locked, and every other block is as before.\<close>

definition placed :: "vim_h \<Rightarrow> (int \<rightharpoonup> nat) \<Rightarrow> (nat \<Rightarrow> bhdr) \<Rightarrow> memfile \<Rightarrow> (int \<rightharpoonup> nat) \<Rightarrow> nat \<Rightarrow> int \<Rightarrow> nat \<Rightarrow> env \<Rightarrow> memfile \<Rightarrow> bool" where
  "placed H L hs m L' hp b c e' m' \<longleftrightarrow> L' b = None \<and> mf_inv H (L'(b \<mapsto> c)) (hdrs e') (next_hdr e') m' \<and> keeps H L hs m L' (hdrs e') m' \<and>
     hp \<in> set (mf_used m') \<and> bh_bnum (hdrs e' hp) = b \<and> bh_page_count (hdrs e' hp) = c \<and> bh_locked (hdrs e' hp) \<and> bh_dirty (hdrs e' hp)"

lemma placed_keeps:
  assumes "placed H L1 hs1 m1 L' hp b c e' m'" "keeps H L hs m L1 hs1 m1" "wf_trans H L1 m1"
  shows "placed H L hs m L' hp b c e' m'"
  using assms keeps_trans [OF assms(2) _ assms(3)] unfolding placed_def by blast

lemma place:
  assumes inv: "mf_inv H L (hdrs e) (next_hdr e) m" and hp: "loose hp c (hdrs e) (next_hdr e) m" "bh_bnum (hdrs e hp) = b" and c: "0 < c"
    and b: "L b = None" "if b < 0 then mf_blocknr_min m < b \<and> (\<forall>h. b \<notin> fst ` set (mf_trans m h)) else own_range L (hdrs e) m b c"
  shows "\<exists>e' m'. mf_finish_new H c hp e m = (Some hp, e', m') \<and> placed H L (hdrs e) m L hp b c e' m'"
proof -
  let ?blk = "(hdrs e hp)\<lparr>bh_locked := True, bh_dirty := True, bh_page_count := c\<rparr>" and ?m = "m\<lparr>mf_dirty := True\<rparr>"
  let ?hs = "(hdrs e)(hp := ?blk)"
  let ?m' = "ins_blk H hp ?hs ?m"
  have nb: "b \<notin> bnums (hdrs e) m" using wf_numbersD(1) [OF mf_invD(2) [OF inv]] b(1) by force
  have own: "own_range L (hdrs e) ?m b c = own_range L (hdrs e) m b c" by (simp add: own_range_def)
  have l: "hp \<notin> set (mf_used m) \<union> set (mf_free_first m)" "hp < next_hdr e" "length (bh_data (hdrs e hp)) = mf_page_size m * c"
    using hp(1) unfolding loose_def by blast+
  have inv': "mf_inv H (L(b \<mapsto> c)) ?hs (next_hdr e) ?m'"
    by (rule ins_blk_inv [of H L "hdrs e" "next_hdr e"]) (use inv l hp(2) c b(2) nb own in simp_all)
  have "holds ?hs ?m' b' c' d = holds (hdrs e) m b' c' d" if "b' \<noteq> b" for b' c' d
    using holds_ins(1) [of hp ?m b' ?blk "hdrs e" H c' d] l(1) that hp(2) by simp
  then have "agree L (hdrs e) m ?hs ?m'" unfolding agree_def using b(1) by (metis option.distinct(1))
  then have k: "keeps H L (hdrs e) m L ?hs ?m'" by (rule agree_keeps) simp
  obtain e' where e': "mf_finish_new H c hp e m = (Some hp, e', ?m')" "hdrs e' = ?hs" "next_hdr e' = next_hdr e"
    by (auto simp: mf_finish_new_def mf_ins_used_def mf_ins_hash_def upd_hdr_def ins_blk_def Let_def)
  have "placed H L (hdrs e) m L hp b c e' ?m'"
    unfolding placed_def e'(2,3) using b(1) inv' k hp(2) by simp
  then show ?thesis using e'(1) by blast
qed

lemma took_keeps:
  assumes "took H L nx hs m hs' m' b c" "mf_inv H L hs nx m"
  shows "keeps H L hs m L hs' m'"
proof -
  obtain fs mx where m': "m' = m\<lparr>mf_free_first := fs, mf_blocknr_max := mx\<rparr>" using assms(1) unfolding took_def by blast
  have "hs' x = hs x" if "x \<in> set (mf_used m)" for x
    using that assms(1) wf_listsD(3) [OF mf_invD(1) [OF assms(2)]] unfolding took_def by blast
  then have "holds hs' m' b c d = holds hs m b c d" for b c d
    using holds_hdr [of m hs' hs b c d] holds_cong [of m' m hs' b c d] m' by simp
  then show ?thesis using m' by (simp add: keeps_def) blast
qed

lemma place_took:
  assumes inv: "mf_inv H L hs (next_hdr e) m" and t: "took H L (next_hdr e) hs m (hdrs e) m' b c"
    and hp: "loose hp c (hdrs e) (next_hdr e) m'" "bh_bnum (hdrs e hp) = b" and c: "0 < c"
  shows "\<exists>e' m''. mf_finish_new H c hp e m' = (Some hp, e', m'') \<and> placed H L hs m L hp b c e' m''"
proof -
  have t': "mf_inv H L (hdrs e) (next_hdr e) m'" "own_range L (hdrs e) m' b c" "L b = None" using t unfolding took_def by blast+
  obtain e' m'' where "mf_finish_new H c hp e m' = (Some hp, e', m'')" "placed H L (hdrs e) m' L hp b c e' m''"
    using place [OF t'(1) hp c t'(3)] t'(2) own_rangeD(1) [OF t'(2)] by auto
  then show ?thesis using placed_keeps took_keeps [OF t inv] mf_invD(5) [OF t'(1)] by blast
qed

text \<open>What a call of \<open>mf_new\<close> may do: crash after a failed allocation, return no block and keep all
  blocks, or place a new one.\<close>

definition new_result :: "vim_h \<Rightarrow> bool \<Rightarrow> nat \<Rightarrow> (int \<rightharpoonup> nat) \<Rightarrow> env \<Rightarrow> memfile \<Rightarrow> (nat option \<times> env \<times> memfile) cres \<Rightarrow> bool" where
  "new_result H negative c L e m res \<longleftrightarrow>
     (case res of
        Inl x \<Rightarrow> x = NullDeref \<and> False \<in> set (allocs e)
      | Inr (None, e', m') \<Rightarrow> False \<in> set (allocs e) \<and> (\<exists>L'. mf_inv H L' (hdrs e') (next_hdr e') m' \<and> keeps H L (hdrs e) m L' (hdrs e') m')
      | Inr (Some hp, e', m') \<Rightarrow> \<exists>b L'. placed H L (hdrs e) m L' hp b c e' m' \<and> (b < 0) = negative)"

lemma new_result_keeps:
  assumes "new_result H negative c L1 e1 m1 res" "keeps H L (hdrs e) m L1 (hdrs e1) m1" "wf_trans H L1 m1" "uses_up e e1"
  shows "new_result H negative c L e m res"
proof -
  have k: "keeps H L (hdrs e) m L' hs' m'" if "keeps H L1 (hdrs e1) m1 L' hs' m'" for L' hs' m'
    using keeps_trans [OF assms(2) that assms(3)] .
  have p: "placed H L (hdrs e) m L' hp b c e' m'" if "placed H L1 (hdrs e1) m1 L' hp b c e' m'" for L' hp b e' m'
    using placed_keeps [OF that assms(2,3)] .
  show ?thesis
  proof (cases res)
    case (Inl x)
    then show ?thesis using assms(1,4) by (auto simp: new_result_def uses_up_def)
  next
    case (Inr y)
    obtain r e' m' where "y = (r, e', m')" using prod_cases3 by blast
    then show ?thesis using assms(1,4) Inr k p by (cases r) (simp_all add: new_result_def uses_up_def; blast)+
  qed
qed

text \<open>Giving a loose header a number.\<close>

lemma number_hdr:
  assumes "mf_inv H L (hdrs e) (next_hdr e) m" "loose hp c (hdrs e) (next_hdr e) m" "\<And>x. bh_data (f x) = bh_data x"
  shows "mf_inv H L (hdrs (upd_hdr hp f e)) (next_hdr (upd_hdr hp f e)) m"
    "loose hp c (hdrs (upd_hdr hp f e)) (next_hdr (upd_hdr hp f e)) m"
proof -
  show "mf_inv H L (hdrs (upd_hdr hp f e)) (next_hdr (upd_hdr hp f e)) m"
    by (rule loose_hdr [OF assms(1)]) (use assms(2) in \<open>auto simp: upd_hdr_def loose_def\<close>)
  show "loose hp c (hdrs (upd_hdr hp f e)) (next_hdr (upd_hdr hp f e)) m"
    using assms(2,3) by (simp add: upd_hdr_def loose_def)
qed

lemma upd_hdr_simps [simp]: "hdrs (upd_hdr hp f e) = (hdrs e)(hp := f (hdrs e hp))" "next_hdr (upd_hdr hp f e) = next_hdr e"
  "allocs (upd_hdr hp f e) = allocs e" "faults (upd_hdr hp f e) = faults e" "total_mem_used (upd_hdr hp f e) = total_mem_used e"
  by (simp_all add: upd_hdr_def)

lemma placed_from:
  assumes "placed H L hs' m L' hp b c e' m'" "\<And>x. x \<in> set (mf_used m) \<Longrightarrow> hs' x = hs x"
  shows "placed H L hs m L' hp b c e' m'"
  using assms(1) holds_hdr [of m hs' hs, OF assms(2)] unfolding placed_def keeps_def by simp

lemma next_min:
  assumes inv: "mf_inv H L hs nx m"
  shows "L (mf_blocknr_min m) = None" "mf_inv H L hs nx (m\<lparr>mf_blocknr_min := mf_blocknr_min m - 1, mf_neg_count := y\<rparr>)"
proof -
  note n = wf_numbersD [OF mf_invD(2) [OF inv]] and t = wf_transD [OF mf_invD(5) [OF inv]]
  show "L (mf_blocknr_min m) = None" using n(5,11) by (metis less_irrefl not_Some_eq)
  let ?m = "m\<lparr>mf_blocknr_min := mf_blocknr_min m - 1, mf_neg_count := y\<rparr>"
  have d: "on_disk ?m = on_disk m" by (simp add: on_disk_def fun_eq_iff)
  show "mf_inv H L hs nx ?m"
  proof (rule mf_invI)
    show "wf_numbers L hs ?m"
    proof (rule wf_numbersI)
      show "mf_blocknr_min ?m < b" if "L b = Some c" "b < 0" for b c using that n(5) [of b c] by simp
    qed (use n in simp_all)
    show "wf_trans H L ?m"
    proof (rule wf_transI)
      show "mf_blocknr_min ?m < fst np" if "np \<in> set (mf_trans ?m h)" for h np using that t(4) [of np h] by simp
    qed (use t in simp_all)
    show "wf_lists H hs nx ?m" "wf_apart L hs ?m" "wf_file L hs ?m"
      using mf_invD(1,3,4) [OF inv] by (simp_all add: wf_lists_def wf_apart_def wf_file_def d)
  qed
qed

lemma new_number_spec:
  assumes inv: "mf_inv H L (hdrs e) (next_hdr e) m" and r: "\<And>h. r = Some h \<Longrightarrow> loose h c (hdrs e) (next_hdr e) m" and c: "0 < c"
  shows "new_result H negative c L e m (mf_new_number H negative c r e m)"
proof -
  show ?thesis
  proof (cases rule: have_hdr_cases [where r = r and c = c, OF inv r, case_names this crash none hdr])
    case crash
    then show ?thesis by (simp add: mf_new_number_def new_result_def)
  next
    case none
    then show ?thesis using inv by (auto simp: mf_new_number_def new_result_def intro!: exI [of _ L])
  next
    case e1: (hdr hp e1)
    let ?m = "m\<lparr>mf_blocknr_min := mf_blocknr_min m - 1, mf_neg_count := mf_neg_count m + 1\<rparr>"
    let ?b = "if negative then mf_blocknr_min m else mf_blocknr_max m"
    let ?e = "upd_hdr hp (\<lambda>b. b\<lparr>bh_bnum := ?b\<rparr>) e1"
    have e: "mf_inv H L (hdrs ?e) (next_hdr ?e) m" "loose hp c (hdrs ?e) (next_hdr ?e) m" 
      using number_hdr [OF e1(2,3)] by simp_all
    have u: "hdrs ?e x = hdrs e x" if "x \<in> set (mf_used m)" for x using that e1(3,4) by (auto simp: loose_def)
    have "\<exists>e' m'. mf_new_number H negative c r e m = Inr (Some hp, e', m') \<and> placed H L (hdrs ?e) m L hp ?b c e' m'"
    proof (cases negative)
      case True
      have n: "mf_blocknr_min m \<notin> fst ` set (mf_trans m h)" for h using wf_transD(4) [OF mf_invD(5) [OF e(1)]] by force
      have k: "keeps H L (hdrs ?e) m L (hdrs ?e) ?m" by (rule agree_keeps) (simp_all add: agree_def)
      have "\<exists>e' m'. mf_finish_new H c hp ?e ?m = (Some hp, e', m') \<and> placed H L (hdrs ?e) ?m L hp ?b c e' m'"
        by (rule place) (use e next_min [OF e(1)] c True n wf_numbersD(11) [OF mf_invD(2) [OF inv]] in \<open>auto simp: loose_def\<close>)
      then show ?thesis using e1(1) True k placed_keeps mf_invD(5) [OF next_min(2) [OF e(1)]] by (simp add: mf_new_number_def) blast
    next
      case False
      have "\<exists>e' m'. mf_finish_new H c hp ?e (m\<lparr>mf_blocknr_max := mf_blocknr_max m + int c\<rparr>) = (Some hp, e', m') \<and> placed H L (hdrs ?e) m L hp ?b c e' m'"
        by (rule place_took [OF e(1)]) (use e take_new [OF e(1) c] c False in \<open>auto simp: loose_def\<close>)
      then show ?thesis using e1(1) False by (simp add: mf_new_number_def)
    qed
    then obtain e' m' where "mf_new_number H negative c r e m = Inr (Some hp, e', m')" "placed H L (hdrs e) m L hp ?b c e' m'"
      using placed_from u by metis
    moreover have "(?b < 0) = negative" using wf_numbersD(11,12) [OF mf_invD(2) [OF inv]] by simp
    ultimately show ?thesis by (auto simp: new_result_def)
  qed
qed

text \<open>The two branches that use a free block.\<close>

definition new_split :: "vim_h \<Rightarrow> nat \<Rightarrow> nat \<Rightarrow> nat option \<Rightarrow> env \<Rightarrow> memfile \<Rightarrow> (nat option \<times> env \<times> memfile) cres" where
  "new_split H page_count freep hp e m =
     ebind (mf_have_hdr H m page_count hp e) (\<lambda>(hp, e).
       case hp of
         None \<Rightarrow> Inr (None, e, m)
       | Some hp \<Rightarrow>
           let e = upd_hdr hp (\<lambda>b. b\<lparr>bh_bnum := bh_bnum (hdrs e freep)\<rparr>) e;
               e = upd_hdr freep (\<lambda>b. b\<lparr>bh_bnum := bh_bnum b + int page_count, bh_page_count := bh_page_count b - page_count\<rparr>) e
           in Inr (mf_finish_new H page_count hp e m))"

definition new_reuse :: "vim_h \<Rightarrow> nat \<Rightarrow> nat option \<Rightarrow> env \<Rightarrow> memfile \<Rightarrow> (nat option \<times> env \<times> memfile) cres" where
  "new_reuse H page_count hp e m =
     (case hp of
        None \<Rightarrow>
          let (ok, e) = alloc e
          in if \<not> ok then Inr (None, e, m)
             else ebind (mf_rem_free m) (\<lambda>(hp, m).
               let e = upd_hdr hp (\<lambda>b. b\<lparr>bh_data := fresh_data H m page_count\<rparr>) e
               in Inr (mf_finish_new H page_count hp e m))
      | Some hp \<Rightarrow>
          ebind (mf_rem_free m) (\<lambda>(freep, m).
            let e = upd_hdr hp (\<lambda>b. b\<lparr>bh_bnum := bh_bnum (hdrs e freep)\<rparr>) e
            in Inr (mf_finish_new H page_count hp e m)))"

lemma new_split_spec:
  assumes inv: "mf_inv H L (hdrs e) (next_hdr e) m" and r: "\<And>h. r = Some h \<Longrightarrow> loose h c (hdrs e) (next_hdr e) m" and c: "0 < c"
    and f: "mf_free_first m = f # fs" "c < bh_page_count (hdrs e f)"
  shows "new_result H False c L e m (new_split H c f r e m)"
proof (cases rule: have_hdr_cases [where r = r and c = c, OF inv r, case_names this crash none hdr])
  case crash
  then show ?thesis by (simp add: new_split_def new_result_def)
next
  case none
  then show ?thesis using inv by (auto simp: new_split_def new_result_def intro!: exI [of _ L])
next
  case e1: (hdr hp e1)
  let ?b = "bh_bnum (hdrs e1 f)"
  let ?e = "upd_hdr hp (\<lambda>b. b\<lparr>bh_bnum := ?b\<rparr>) e1"
  let ?e2 = "upd_hdr f (\<lambda>b. b\<lparr>bh_bnum := bh_bnum b + int c, bh_page_count := bh_page_count b - c\<rparr>) ?e"
  have ne: "f \<noteq> hp" "hdrs e1 f = hdrs e f" using e1(3,4) f(1) by (auto simp: loose_def)
  have e: "mf_inv H L (hdrs ?e) (next_hdr ?e) m" "loose hp c (hdrs ?e) (next_hdr ?e) m" using number_hdr [OF e1(2,3)] by simp_all
  have "took H L (next_hdr ?e2) (hdrs ?e) m (hdrs ?e2) m ?b c" using take_part [OF e(1) f(1) c] ne f(2) by simp
  moreover have "loose hp c (hdrs ?e2) (next_hdr ?e2) m" using e(2) ne by (simp add: loose_def)
  ultimately obtain e' m' where p: "mf_finish_new H c hp ?e2 m = (Some hp, e', m')" "placed H L (hdrs ?e) m L hp ?b c e' m'"
    using place_took [of H L "hdrs ?e" ?e2 m m ?b c hp] e(1) ne c by auto
  moreover have "placed H L (hdrs e) m L hp ?b c e' m'"
    by (rule placed_from [OF p(2)]) (use e1(3,4) in \<open>auto simp: loose_def\<close>)
  moreover have "0 \<le> ?b" using wf_numbersD(8) [OF mf_invD(2) [OF inv]] f(1) ne by simp
  ultimately show ?thesis using e1(1) f(1) by (auto simp: new_split_def new_result_def Let_def)
qed

lemma new_reuse_spec:
  assumes inv: "mf_inv H L (hdrs e) (next_hdr e) m" and r: "\<And>h. r = Some h \<Longrightarrow> loose h c (hdrs e) (next_hdr e) m" and c: "0 < c"
    and f: "mf_free_first m = f # fs" "bh_page_count (hdrs e f) = c"
  shows "new_result H False c L e m (new_reuse H c r e m)"
proof -
  let ?m = "m\<lparr>mf_free_first := fs\<rparr>" and ?b = "bh_bnum (hdrs e f)"
  note l = wf_listsD [OF mf_invD(1) [OF inv]]
  have b: "0 \<le> ?b" using wf_numbersD(8) [OF mf_invD(2) [OF inv]] f(1) by simp
  have rem: "mf_rem_free m = Inr (f, ?m)" using f(1) by (simp add: mf_rem_free_def)
  show ?thesis
  proof (cases r)
    case None
    let ?e1 = "e\<lparr>allocs := tl (allocs e)\<rparr>"
    let ?e2 = "upd_hdr f (\<lambda>b. b\<lparr>bh_data := fresh_data H ?m c\<rparr>) ?e1"
    have t: "mf_inv H L (hdrs e) (next_hdr e) ?m" "own_range L (hdrs e) ?m ?b c" "L ?b = None" and k: "keeps H L (hdrs e) m L (hdrs e) ?m"
      using take_all [OF inv f(1)] took_keeps [OF take_all [OF inv f(1)] inv] f(2) unfolding took_def by blast+
    have nf: "f \<notin> set (mf_used m) \<union> set fs" "f < next_hdr e" using l(2,3,5) f(1) by auto
    have i: "mf_inv H L (hdrs ?e2) (next_hdr ?e2) ?m" by (rule loose_hdr [OF t(1)]) (use nf in auto)
    have o: "own_range L (hdrs ?e2) ?m ?b c" using t(2) nf unfolding own_range_def by auto
    have "\<exists>e' m'. mf_finish_new H c f ?e2 ?m = (Some f, e', m') \<and> placed H L (hdrs ?e2) ?m L f ?b c e' m'"
      by (rule place [OF i]) (use nf b c t(3) o in \<open>auto simp: loose_def\<close>)
    moreover have "hdrs ?e2 x = hdrs e x" if "x \<in> set (mf_used ?m)" for x using that nf by auto
    ultimately obtain e' m' where "mf_finish_new H c f ?e2 ?m = (Some f, e', m')" "placed H L (hdrs e) m L f ?b c e' m'"
      using placed_keeps [OF placed_from k] mf_invD(5) [OF t(1)] by metis
    moreover have "new_result H False c L e m (Inr (None, ?e1, m))" if "allocs e \<noteq> []" "\<not> hd (allocs e)"
      using inv that by (cases "allocs e") (auto simp: new_result_def intro!: exI [of _ L])
    ultimately show ?thesis using None rem b by (auto simp: new_reuse_def new_result_def alloc_eq Let_def)
  next
    case (Some hp)
    let ?e = "upd_hdr hp (\<lambda>b. b\<lparr>bh_bnum := ?b\<rparr>) e"
    have ne: "f \<noteq> hp" using r [OF Some] f(1) by (auto simp: loose_def)
    have e: "mf_inv H L (hdrs ?e) (next_hdr ?e) m" "loose hp c (hdrs ?e) (next_hdr ?e) m" using number_hdr [OF inv r [OF Some]] by simp_all
    have "took H L (next_hdr ?e) (hdrs ?e) m (hdrs ?e) ?m ?b c" using take_all [OF e(1) f(1)] ne f(2) by simp
    then have "\<exists>e' m'. mf_finish_new H c hp ?e ?m = (Some hp, e', m') \<and> placed H L (hdrs ?e) m L hp ?b c e' m'"
      by (rule place_took [OF e(1)]) (use e(2) f(1) c in \<open>auto simp: loose_def\<close>)
    moreover have "hdrs ?e x = hdrs e x" if "x \<in> set (mf_used m)" for x using that r [OF Some] by (auto simp: loose_def)
    ultimately obtain e' m' where "mf_finish_new H c hp ?e ?m = (Some hp, e', m')" "placed H L (hdrs e) m L hp ?b c e' m'"
      using placed_from by metis
    then show ?thesis using Some rem b by (auto simp: new_reuse_def new_result_def Let_def)
  qed
qed

lemma new_spec:
  assumes inv: "mf_inv H L (hdrs e) (next_hdr e) m" and c: "0 < c"
  shows "new_result H negative c L e m (mf_new H negative c e m)"
proof -
  obtain r e1 m1 L1 where rel: "mf_release H c e m = Inr (r, e1, m1)" "released H L e m c r L1 e1 m1"
    using release_spec [OF inv] by blast
  have i: "mf_inv H L1 (hdrs e1) (next_hdr e1) m1" and k: "keeps H L (hdrs e) m L1 (hdrs e1) m1"
    and loose: "\<And>h. r = Some h \<Longrightarrow> loose h c (hdrs e1) (next_hdr e1) m1"
    using rel(2) by (auto simp: released_def loose_def)
  note lift = new_result_keeps [OF _ k mf_invD(5) [OF i] release_uses [OF rel(1)]]
  have num: "new_result H negative c L1 e1 m1 (mf_new_number H negative c r e1 m1)" using new_number_spec [OF i loose c] .
  show ?thesis
  proof (cases "if negative then [] else mf_free_first m1")
    case Nil
    then have "mf_new H negative c e m = mf_new_number H negative c r e1 m1" using rel(1) by (simp add: mf_new_def)
    then show ?thesis using lift [OF num] by simp
  next
    case (Cons f fs)
    then have nn: "\<not> negative" and f: "mf_free_first m1 = f # fs" by (auto split: if_splits)
    consider "c < bh_page_count (hdrs e1 f)" | "bh_page_count (hdrs e1 f) = c" | "bh_page_count (hdrs e1 f) < c" by linarith
    then show ?thesis
    proof cases
      case 1
      then have "mf_new H negative c e m = new_split H c f r e1 m1" using rel(1) nn f by (simp add: mf_new_def new_split_def Let_def)
      then show ?thesis using lift [OF new_split_spec [OF i loose c f 1]] nn by simp
    next
      case 2
      then have "mf_new H negative c e m = new_reuse H c r e1 m1" using rel(1) nn f by (simp add: mf_new_def new_reuse_def Let_def)
      then show ?thesis using lift [OF new_reuse_spec [OF i loose c f 2]] nn by simp
    next
      case 3
      then have "mf_new H negative c e m = mf_new_number H negative c r e1 m1" using rel(1) nn f by (simp add: mf_new_def)
      then show ?thesis using lift [OF num] by simp
    qed
  qed
qed

end
