(* ===== verification/Vim_Access.thy ===== *)
theory Vim_Access
  imports Vim_New
begin

text \<open>
  \<open>mf_get\<close> of \<open>vim/src/memfile.c\<close> against the invariant, and changes of a header in memory.
\<close>

subsection \<open>Changing a header in memory\<close>

text \<open>\<open>fits\<close>: the header may replace that of block \<open>b\<close> of \<open>c\<close> pages.\<close>

definition fits :: "memfile \<Rightarrow> int \<Rightarrow> nat \<Rightarrow> bhdr \<Rightarrow> bool" where
  "fits m b c blk \<longleftrightarrow> bh_bnum blk = b \<and> bh_page_count blk = c \<and> length (bh_data blk) = mf_page_size m * c \<and>
     (\<not> bh_dirty blk \<longrightarrow> 0 \<le> b \<and> b + int c \<le> mf_infile_count m \<and> (bh_locked blk \<or> on_disk m b c = bh_data blk))"

lemma hdr_upd_inv:
  assumes inv: "mf_inv H L hs nx m" and hp: "hp \<in> set (mf_used m)" "fits m (bh_bnum (hs hp)) (bh_page_count (hs hp)) blk"
  shows "mf_inv H L (hs(hp := blk)) nx m"
proof -
  let ?hs = "hs(hp := blk)"
  note l = wf_listsD [OF mf_invD(1) [OF inv]] and n = wf_numbersD [OF mf_invD(2) [OF inv]]
    and a = wf_apartD [OF mf_invD(3) [OF inv]] and f = wf_fileD [OF mf_invD(4) [OF inv]]
  have blk: "bh_bnum blk = bh_bnum (hs hp)" "bh_page_count blk = bh_page_count (hs hp)" "length (bh_data blk) = mf_page_size m * bh_page_count (hs hp)"
    using hp(2) by (simp_all add: fits_def)
  have same: "bh_bnum (?hs x) = bh_bnum (hs x)" "bh_page_count (?hs x) = bh_page_count (hs x)" for x using blk by simp_all
  show ?thesis
  proof (rule mf_invI)
    show "wf_lists H ?hs nx m" by (rule wf_listsI) (use l same in \<open>simp_all del: fun_upd_apply\<close>)
    show "wf_numbers L ?hs m"
    proof (rule wf_numbersI)
      show "length (bh_data (?hs x)) = mf_page_size m * bh_page_count (?hs x)" if "x \<in> set (mf_used m)" for x
        using n(2) [OF that] blk by simp
    qed (use n same in \<open>simp_all del: fun_upd_apply\<close>)
    show "wf_apart L ?hs m" by (rule wf_apartI) (use a same in \<open>simp_all del: fun_upd_apply\<close>)
    show "wf_file L ?hs m"
    proof (rule wf_fileI)
      show "b + int c \<le> mf_infile_count m" if "L b = Some c" "0 \<le> b" "b \<notin> bnums ?hs m" for b c
        using that f(3) by (simp add: same del: fun_upd_apply)
      fix x assume x: "x \<in> set (mf_used m)" "\<not> bh_dirty (?hs x)"
      then show "0 \<le> bh_bnum (?hs x)" "bh_bnum (?hs x) + int (bh_page_count (?hs x)) \<le> mf_infile_count m"
        "bh_locked (?hs x) \<or> on_disk m (bh_bnum (?hs x)) (bh_page_count (?hs x)) = bh_data (?hs x)"
        using f(4-6) [of x] hp(2) unfolding fits_def by (auto split: if_splits)
    qed (use f(1,2) in simp_all)
  qed (rule mf_invD(5) [OF inv])
qed

lemma hdr_upd_holds:
  assumes inv: "mf_inv H L hs nx m" and hp: "hp \<in> set (mf_used m)" "bh_bnum blk = bh_bnum (hs hp)"
  shows "b \<noteq> bh_bnum (hs hp) \<Longrightarrow> holds (hs(hp := blk)) m b c d = holds hs m b c d"
    "holds (hs(hp := blk)) m (bh_bnum (hs hp)) c d \<longleftrightarrow> bh_data blk = d"
proof -
  let ?hs = "hs(hp := blk)"
  have same: "bh_bnum (?hs x) = bh_bnum (hs x)" for x using hp(2) by simp
  have inj: "inj_on (\<lambda>x. bh_bnum (hs x)) (set (mf_used m))" using wf_numbersD(3) [OF mf_invD(2) [OF inv]] .
  show "holds ?hs m b c d = holds hs m b c d" if "b \<noteq> bh_bnum (hs hp)"
  proof -
    have "(\<exists>x\<in>set (mf_used m). bh_bnum (hs x) = b \<and> bh_data (?hs x) = d) = (\<exists>x\<in>set (mf_used m). bh_bnum (hs x) = b \<and> bh_data (hs x) = d)"
      by (intro bex_cong refl conj_cong) (use that in auto)
    then show ?thesis unfolding holds_def same by (simp only:)
  qed
  show "holds ?hs m (bh_bnum (hs hp)) c d \<longleftrightarrow> bh_data blk = d"
    unfolding holds_def same using hp(1) inj by (auto dest: inj_onD)
qed

lemma hdr_upd_agree:
  assumes "mf_inv H L hs nx m" "hp \<in> set (mf_used m)" "bh_bnum blk = bh_bnum (hs hp)" "bh_data blk = bh_data (hs hp)"
  shows "agree L hs m (hs(hp := blk)) m"
  unfolding agree_def using hdr_upd_holds [OF assms(1-3)] holds_used [OF assms(1,2)] assms(4) by metis

text \<open>Moving a block to the front of the lists.\<close>

lemma refront:
  assumes inv: "mf_inv H L hs nx m" and hp: "hp \<in> set (mf_used m)"
  shows "mf_inv H L hs nx (ins_blk H hp hs (rem_blk H hp hs m))"
proof -
  let ?b = "bh_bnum (hs hp)" and ?c = "bh_page_count (hs hp)" and ?r = "rem_blk H hp hs m"
  note l = wf_listsD [OF mf_invD(1) [OF inv]] and n = wf_numbersD [OF mf_invD(2) [OF inv]] and t = wf_transD [OF mf_invD(5) [OF inv]]
  have L: "L ?b = Some ?c" using n(1) [OF hp] .
  have "mf_inv H ((L(?b := None))(?b \<mapsto> ?c)) (hs(hp := hs hp)) nx (ins_blk H hp (hs(hp := hs hp)) ?r)"
  proof (rule ins_blk_inv [OF rem_blk_inv [OF inv hp]])
    show "hp \<notin> set (mf_used ?r) \<union> set (mf_free_first ?r)" using l(1,3) hp by (auto simp: set_remove1_eq)
    show "if ?b < 0 then mf_blocknr_min ?r < ?b \<and> (\<forall>h. ?b \<notin> fst ` set (mf_trans ?r h)) else own_range (L(?b := None)) hs ?r ?b ?c"
      using own_range_known [OF inv L] n(5) [OF L] t(5) L unfolding own_range_def by (fastforce split: if_splits)
    show "0 \<le> ?b \<and> ?b + int ?c \<le> mf_infile_count ?r \<and> (bh_locked (hs hp) \<or> on_disk ?r ?b ?c = bh_data (hs hp))" if "\<not> bh_dirty (hs hp)"
      using wf_fileD(4-6) [OF mf_invD(4) [OF inv] hp that] by simp
  qed (use l(4) [OF hp] n(2) [OF hp] n(4) [OF L] not_in_memory [OF inv hp] in simp_all)
  moreover have "(L(?b := None))(?b \<mapsto> ?c) = L" using L by (auto simp: fun_eq_iff)
  ultimately show ?thesis by (metis fun_upd_triv)
qed

lemma refront_holds:
  assumes "mf_inv H L hs nx m" "hp \<in> set (mf_used m)"
  shows "holds hs (ins_blk H hp hs (rem_blk H hp hs m)) b c d = holds hs m b c d"
  using assms(2) wf_listsD(1) [OF mf_invD(1) [OF assms(1)]] by (intro holds_cong) (auto simp: set_remove1_eq)

subsection \<open>\<open>mf_get\<close>\<close>

lemma find_hash_iff:
  assumes "mf_inv H L (hdrs e) nx m"
  shows "mf_find_hash H nr e m = Some hp \<longleftrightarrow> hp \<in> set (mf_used m) \<and> bh_bnum (hdrs e hp) = nr"
    "mf_find_hash H nr e m = None \<longleftrightarrow> nr \<notin> bnums (hdrs e) m"
proof -
  note l = wf_listsD(7) [OF mf_invD(1) [OF assms]] and inj = wf_numbersD(3) [OF mf_invD(2) [OF assms]]
  show "mf_find_hash H nr e m = None \<longleftrightarrow> nr \<notin> bnums (hdrs e) m"
    unfolding mf_find_hash_def find_None_iff l by auto
  show "mf_find_hash H nr e m = Some hp \<longleftrightarrow> hp \<in> set (mf_used m) \<and> bh_bnum (hdrs e hp) = nr"
  proof
    assume "mf_find_hash H nr e m = Some hp"
    then have "hp \<in> set (mf_hash m (MEMHASH H nr))" "bh_bnum (hdrs e hp) = nr"
      unfolding mf_find_hash_def find_Some_iff by auto
    then show "hp \<in> set (mf_used m) \<and> bh_bnum (hdrs e hp) = nr" unfolding l by blast
  next
    assume hp: "hp \<in> set (mf_used m) \<and> bh_bnum (hdrs e hp) = nr"
    show "mf_find_hash H nr e m = Some hp" unfolding mf_find_hash_def
      by (rule find_unique) (use hp inj in \<open>auto simp: l inj_on_def\<close>)
  qed
qed

text \<open>What a call of \<open>mf_get\<close> for block \<open>b\<close> with content \<open>d\<close> may do.\<close>

definition got :: "vim_h \<Rightarrow> (int \<rightharpoonup> nat) \<Rightarrow> env \<Rightarrow> memfile \<Rightarrow> nat \<Rightarrow> int \<Rightarrow> nat \<Rightarrow> byte list \<Rightarrow> (int \<rightharpoonup> nat) \<Rightarrow> env \<Rightarrow> memfile \<Rightarrow> bool" where
  "got H L e m hp b c d L' e' m' \<longleftrightarrow> mf_inv H L' (hdrs e') (next_hdr e') m' \<and> keeps H L (hdrs e) m L' (hdrs e') m' \<and>
     hp \<in> set (mf_used m') \<and> bh_bnum (hdrs e' hp) = b \<and> bh_page_count (hdrs e' hp) = c \<and> bh_locked (hdrs e' hp) \<and> bh_data (hdrs e' hp) = d"

lemma get_in_memory:
  assumes inv: "mf_inv H L (hdrs e) (next_hdr e) m" and b: "L b = Some c" "holds (hdrs e) m b c d" "b \<in> bnums (hdrs e) m"
  shows "\<exists>hp e' m'. mf_get H b n e m = Inr (Some hp, e', m') \<and> got H L e m hp b c d L e' m'"
proof -
  obtain hp where hp: "hp \<in> set (mf_used m)" "bh_bnum (hdrs e hp) = b" using b(3) by blast
  let ?blk = "(hdrs e hp)\<lparr>bh_locked := True\<rparr>"
  let ?hs = "(hdrs e)(hp := ?blk)"
  let ?m = "ins_blk H hp ?hs (rem_blk H hp ?hs m)"
  note n = wf_numbersD [OF mf_invD(2) [OF inv]]
  have lim: "\<not> (b \<ge> mf_blocknr_max m \<or> b \<le> mf_blocknr_min m)" using n(4,5,7) [OF b(1)] n(11,12) by (cases "b < 0") auto
  have "fits m (bh_bnum (hdrs e hp)) (bh_page_count (hdrs e hp)) ?blk"
    using used_block [OF inv hp(1)] wf_fileD(4,5) [OF mf_invD(4) [OF inv] hp(1)] by (simp add: fits_def)
  then have i: "mf_inv H L ?hs (next_hdr e) m" by (rule hdr_upd_inv [OF inv hp(1)])
  have k: "keeps H L (hdrs e) m L ?hs ?m"
  proof (rule agree_keeps)
    show "agree L (hdrs e) m ?hs ?m"
      using hdr_upd_agree [OF inv hp(1), of ?blk] unfolding agree_def refront_holds [OF i hp(1)] by simp
  qed simp
  obtain e' where "mf_get H b n e m = Inr (Some hp, e', ?m)" "hdrs e' = ?hs" "next_hdr e' = next_hdr e"
    using lim find_hash_iff(1) [OF inv, of b hp] hp
    by (auto simp: mf_get_def mf_front_def mf_rem_used_def mf_rem_hash_def mf_ins_used_def mf_ins_hash_def rem_blk_def ins_blk_def Let_def)
  moreover have "bh_data (hdrs e hp) = d" using holds_used [OF inv hp(1)] b(2) hp(2) by simp
  moreover have "bh_page_count (hdrs e hp) = c" using used_block(1) [OF inv hp(1)] b(1) hp(2) by simp
  ultimately show ?thesis using refront [OF i hp(1)] k hp by (auto simp: got_def)
qed

lemma read_spec:
  assumes "loose hp c (hdrs e) (next_hdr e) m" "bh_page_count (hdrs e hp) = c" "0 \<le> bh_bnum (hdrs e hp)"
    "mf_page_size m * (nat (bh_bnum (hdrs e hp)) + c) \<le> length (disk m)"
  shows "\<exists>ok e' d. mf_read hp e m = (ok, e') \<and> hdrs e' = (hdrs e)(hp := (hdrs e hp)\<lparr>bh_data := d\<rparr>) \<and> next_hdr e' = next_hdr e \<and>
    (ok \<longrightarrow> d = on_disk m (bh_bnum (hdrs e hp)) c) \<and> (\<not> ok \<longrightarrow> mf_fd m < 0 \<or> (\<exists>k. Some k \<in> set (faults e)))"
proof -
  let ?off = "mf_page_size m * nat (bh_bnum (hdrs e hp))" and ?sz = "mf_page_size m * c"
  have len: "length (bh_data (hdrs e hp)) = ?sz" "length (mem_read ?off ?sz (disk m)) = ?sz"
    using assms(1,4) by (simp_all add: loose_def algebra_simps)
  have f: "\<exists>k. Some k \<in> set (faults e)" if "faults e \<noteq> []" "hd (faults e) \<noteq> None" using that by (cases "faults e") auto
  have f2: "\<exists>k. Some k \<in> set (faults e)" if "tl (faults e) \<noteq> []" "hd (tl (faults e)) \<noteq> None"
    using that by (cases "faults e"; cases "tl (faults e)") auto
  consider (fd) "mf_fd m < 0" | (seek) "\<not> mf_fd m < 0" "faults e \<noteq> []" "hd (faults e) \<noteq> None"
    | (rd) "\<not> mf_fd m < 0" "faults e = [] \<or> hd (faults e) = None" by blast
  then show ?thesis
  proof cases
    case fd
    then show ?thesis by (intro exI [of _ False] exI [of _ e] exI [of _ "bh_data (hdrs e hp)"]) (simp add: mf_read_def)
  next
    case seek
    then show ?thesis using f
      by (intro exI [of _ False] exI [of _ "e\<lparr>faults := tl (faults e)\<rparr>"] exI [of _ "bh_data (hdrs e hp)"]) (auto simp: mf_read_def syscall_eq)
  next
    case rd
    let ?r = "if tl (faults e) = [] then None else hd (tl (faults e))"
    let ?got = "mem_read ?off (case ?r of None \<Rightarrow> ?sz | Some k \<Rightarrow> min k ?sz) (disk m)"
    let ?d = "mem_write 0 ?got (bh_data (hdrs e hp))"
    have "?d = on_disk m (bh_bnum (hdrs e hp)) c" if "?r = None" using that len by (simp add: on_disk_def mem_write_def)
    then show ?thesis using rd f2 len assms(2)
      by (intro exI [of _ "?r = None \<and> length ?got = ?sz"] exI [of _ "upd_hdr hp (\<lambda>b. b\<lparr>bh_data := mem_write 0 ?got (bh_data b)\<rparr>) (e\<lparr>faults := tl (tl (faults e))\<rparr>)"] exI [of _ ?d])
        (auto simp: mf_read_def syscall_eq Let_def split: option.splits)
  qed
qed

definition get_result :: "vim_h \<Rightarrow> int \<Rightarrow> nat \<Rightarrow> byte list \<Rightarrow> (int \<rightharpoonup> nat) \<Rightarrow> env \<Rightarrow> memfile \<Rightarrow> (nat option \<times> env \<times> memfile) cres \<Rightarrow> bool" where
  "get_result H b c d L e m res \<longleftrightarrow>
     (case res of
        Inl x \<Rightarrow> x = NullDeref \<and> False \<in> set (allocs e)
      | Inr (None, e', m') \<Rightarrow> (mf_fd m < 0 \<or> False \<in> set (allocs e) \<or> (\<exists>k. Some k \<in> set (faults e))) \<and>
          (\<exists>L'. mf_inv H L' (hdrs e') (next_hdr e') m' \<and> keeps H L (hdrs e) m L' (hdrs e') m')
      | Inr (Some hp, e', m') \<Rightarrow> \<exists>L'. got H L e m hp b c d L' e' m')"

text \<open>A block in the file, read into a header of no list.\<close>

lemma read_in:
  assumes inv: "mf_inv H L (hdrs e) (next_hdr e) m" and hp: "loose hp c (hdrs e) (next_hdr e) m"
    and b: "L b = Some c" "holds (hdrs e) m b c d" "b \<notin> bnums (hdrs e) m" "0 \<le> b"
    and e': "hdrs e' = (hdrs e)(hp := blk)" "next_hdr e' = next_hdr e" and blk: "bh_bnum blk = b" "bh_page_count blk = c" "bh_data blk = d" "\<not> bh_dirty blk"
  shows "\<exists>e'' m'. mf_front H hp e' m = (Some hp, e'', m') \<and> got H L e m hp b c d L e'' m'"
proof -
  let ?blk = "blk\<lparr>bh_locked := True\<rparr>"
  let ?hs = "(hdrs e)(hp := ?blk)"
  let ?m = "ins_blk H hp ?hs m"
  note n = wf_numbersD [OF mf_invD(2) [OF inv]]
  have d: "on_disk m b c = d" using b(2,3) by (simp add: holds_def)
  have inf: "b + int c \<le> mf_infile_count m" using wf_fileD(3) [OF mf_invD(4) [OF inv] b(1,4,3)] .
  have len: "length d = mf_page_size m * c"
    using page_bytes [OF b(4) _ inf, of "mf_page_size m"] wf_fileD(1,2) [OF mf_invD(4) [OF inv]] unfolding d [symmetric] on_disk_def by simp
  have l: "hp \<notin> set (mf_used m) \<union> set (mf_free_first m)" "hp < next_hdr e" using hp unfolding loose_def by blast+
  have "mf_inv H (L(b \<mapsto> c)) ?hs (next_hdr e) ?m"
    by (rule ins_blk_inv [OF inv]) (use l blk b inf len n(4) [OF b(1)] own_range_known [OF inv b(1,4)] in simp_all)
  then have i: "mf_inv H L ?hs (next_hdr e) ?m" using b(1) by (simp add: map_upd_triv)
  have k: "keeps H L (hdrs e) m L ?hs ?m"
  proof (rule agree_keeps)
    have nu: "hp \<notin> set (mf_used m)" using l by blast
    have "holds ?hs ?m b' c' x" if "L b' = Some c'" "holds (hdrs e) m b' c' x" for b' c' x
    proof (cases "b' = b")
      case True
      then have "x = d" using that b(1-3) by (simp add: holds_def)
      then show ?thesis using holds_ins(2) [OF nu, of ?blk "hdrs e" H c' d] b(3) blk True by simp
    next
      case False
      then show ?thesis using holds_ins(1) [OF nu, of b' ?blk "hdrs e" H c' x] that(2) blk by simp
    qed
    then show "agree L (hdrs e) m ?hs ?m" unfolding agree_def by blast
  qed simp
  obtain e'' where "mf_front H hp e' m = (Some hp, e'', ?m)" "hdrs e'' = ?hs" "next_hdr e'' = next_hdr e"
    using e' by (auto simp: mf_front_def mf_ins_used_def mf_ins_hash_def ins_blk_def Let_def)
  then show ?thesis using i k blk by (auto simp: got_def)
qed

lemma get_from_file:
  assumes inv: "mf_inv H L (hdrs e) (next_hdr e) m" and b: "L b = Some c" "holds (hdrs e) m b c d" "b \<notin> bnums (hdrs e) m"
  shows "get_result H b c d L e m (mf_get H b c e m)"
proof -
  note n = wf_numbersD [OF mf_invD(2) [OF inv]]
  have b0: "0 \<le> b" using n(6) [OF b(1)] b(3) by force
  have inf: "b + int c \<le> mf_infile_count m" using wf_fileD(3) [OF mf_invD(4) [OF inv] b(1) b0 b(3)] .
  have lim: "\<not> (b \<ge> mf_blocknr_max m \<or> b \<le> mf_blocknr_min m)" "\<not> (b < 0 \<or> b \<ge> mf_infile_count m)"
    using n(4,7) [OF b(1)] n(11,12) b0 inf by auto
  obtain r e1 m1 L1 where rel: "mf_release H c e m = Inr (r, e1, m1)" "released H L e m c r L1 e1 m1"
    using release_spec [OF inv] by blast
  have i: "mf_inv H L1 (hdrs e1) (next_hdr e1) m1" and k: "keeps H L (hdrs e) m L1 (hdrs e1) m1" and fd: "mf_fd m1 = mf_fd m"
    and rn: "renumbered L (hdrs e) (hdrs e1) (set (mf_used m1))" "set (mf_used m1) \<subseteq> set (mf_used m)"
    and loose: "\<And>h. r = Some h \<Longrightarrow> loose h c (hdrs e1) (next_hdr e1) m1"
    using rel(2) by (auto simp: released_def loose_def)
  have b1: "L1 b = Some c" "holds (hdrs e1) m1 b c d" using keeps_number [OF k b(1) b0] b(2) by blast+
  have nb: "b \<notin> bnums (hdrs e1) m1" using rn b(1,3) unfolding renumbered_def by force
  note u = release_uses [OF rel(1)]
  have get: "mf_get H b c e m = ebind (mf_have_hdr H m1 c r e1) (\<lambda>(hp, e).
      case hp of None \<Rightarrow> Inr (None, e, m1)
      | Some hp \<Rightarrow> let e = upd_hdr hp (\<lambda>x. x\<lparr>bh_bnum := b, bh_dirty := False, bh_locked := False, bh_page_count := c\<rparr>) e;
                      (ok, e) = mf_read hp e m1
                  in if \<not> ok then Inr (None, e, m1) else Inr (mf_front H hp e m1))"
    using lim find_hash_iff(2) [OF inv, of b] b(3) rel(1) by (simp add: mf_get_def)
  show ?thesis
  proof (cases rule: have_hdr_cases [where r = r and c = c, OF i loose, case_names this crash none hdr])
    case crash
    then show ?thesis using u by (auto simp: get get_result_def uses_up_def)
  next
    case (none e2)
    then show ?thesis using u i k by (auto simp: get get_result_def uses_up_def)
  next
    case e2: (hdr hp e2)
    let ?e = "upd_hdr hp (\<lambda>x. x\<lparr>bh_bnum := b, bh_dirty := False, bh_locked := False, bh_page_count := c\<rparr>) e2"
    have l: "mf_inv H L1 (hdrs ?e) (next_hdr ?e) m1" "loose hp c (hdrs ?e) (next_hdr ?e) m1" by (intro number_hdr [OF e2(2,3)]; simp)+
    have same: "hdrs ?e x = hdrs e1 x" if "x \<in> set (mf_used m1)" for x using that e2(3,4) by (auto simp: loose_def)
    have nb': "b \<notin> bnums (hdrs ?e) m1" using nb image_cong [of "set (mf_used m1)" "set (mf_used m1)" "\<lambda>x. bh_bnum (hdrs ?e x)" "\<lambda>x. bh_bnum (hdrs e1 x)"] same by metis
    have h: "holds (hdrs ?e) m1 b' c' x = holds (hdrs e1) m1 b' c' x" for b' c' x using holds_hdr [OF same] .
    have k': "keeps H L (hdrs e) m L1 (hdrs ?e) m1" using k unfolding keeps_def h .
    have inf1: "b + int c \<le> mf_infile_count m1" using wf_fileD(3) [OF mf_invD(4) [OF i] b1(1) b0 nb] .
    have "mf_page_size m1 * (nat b + c) \<le> length (disk m1)"
      using page_bytes [OF b0 _ inf1, of "mf_page_size m1"] wf_fileD(1,2) [OF mf_invD(4) [OF i]] by (simp add: algebra_simps)
    then obtain ok e3 d' where rd: "mf_read hp ?e m1 = (ok, e3)" "hdrs e3 = (hdrs ?e)(hp := (hdrs ?e hp)\<lparr>bh_data := d'\<rparr>)"
      "next_hdr e3 = next_hdr ?e" "ok \<longrightarrow> d' = on_disk m1 b c" "\<not> ok \<longrightarrow> mf_fd m1 < 0 \<or> (\<exists>k. Some k \<in> set (faults ?e))"
      using read_spec [OF l(2)] b0 by auto
    show ?thesis
    proof (cases ok)
      case False
      have "mf_inv H L1 (hdrs e3) (next_hdr e3) m1" by (rule loose_hdr [OF l(1)]) (use rd(2,3) l(2) in \<open>auto simp: loose_def\<close>)
      moreover have h3: "holds (hdrs e3) m1 b' c' x = holds (hdrs ?e) m1 b' c' x" for b' c' x
        by (rule holds_hdr) (use rd(2) l(2) in \<open>auto simp: loose_def\<close>)
      moreover have "keeps H L (hdrs e) m L1 (hdrs e3) m1" using k' unfolding keeps_def h3 .
      moreover have "mf_fd m < 0 \<or> (\<exists>k. Some k \<in> set (faults e))"
        using rd(5) False fd u e2(5) by (auto simp: uses_up_def)
      ultimately show ?thesis using False e2(1) rd(1) by (auto simp: get get_result_def)
    next
      case True
      have d: "d' = d" using rd(4) True b1(2) nb by (simp add: holds_def)
      have hd: "holds (hdrs ?e) m1 b c d" using h b1(2) by blast
      obtain e4 m4 where fr: "mf_front H hp e3 m1 = (Some hp, e4, m4)" "got H L1 ?e m1 hp b c d L1 e4 m4"
        using read_in [OF l b1(1) hd nb' b0 rd(2,3)] d by auto
      have "got H L e m hp b c d L1 e4 m4" using fr(2) keeps_trans [OF k' _ mf_invD(5) [OF i]] unfolding got_def by blast
      then show ?thesis using True e2(1) rd(1) fr(1) by (auto simp: get get_result_def)
    qed
  qed
qed

lemma get_spec:
  assumes "mf_inv H L (hdrs e) (next_hdr e) m" "L b = Some c" "holds (hdrs e) m b c d"
  shows "get_result H b c d L e m (mf_get H b c e m)"
proof (cases "b \<in> bnums (hdrs e) m")
  case True
  then obtain hp e' m' where "mf_get H b c e m = Inr (Some hp, e', m')" "got H L e m hp b c d L e' m'"
    using get_in_memory [OF assms] by blast
  then show ?thesis by (auto simp: get_result_def)
next
  case False
  show ?thesis using get_from_file [OF assms False] .
qed

end
