(* ===== verification/Vim_Sync.thy ===== *)
theory Vim_Sync
  imports Vim_Access
begin

text \<open>
  \<open>mf_put\<close>, \<open>mf_free\<close>, \<open>mf_sync\<close>, \<open>mf_release_all\<close> and \<open>mf_open\<close> of \<open>vim/src/memfile.c\<close>.
\<close>

subsection \<open>\<open>mf_put\<close>\<close>

text \<open>A block that the client gives back without calling it dirty must be as it was.\<close>

lemma put_spec:
  assumes inv: "mf_inv H L (hdrs e) (next_hdr e) m" and hp: "hp \<in> set (mf_used m)"
    and d: "dirty \<or> bh_dirty (hdrs e hp) \<or> on_disk m (bh_bnum (hdrs e hp)) (bh_page_count (hdrs e hp)) = bh_data (hdrs e hp)"
  shows "\<exists>e' m' L'. mf_put H hp dirty infile e m = Inr (e', m') \<and> mf_inv H L' (hdrs e') (next_hdr e') m' \<and>
    keeps H L (hdrs e) m L' (hdrs e') m' \<and> mf_used m' = mf_used m \<and> \<not> bh_locked (hdrs e' hp)"
proof -
  let ?blk = "(hdrs e hp)\<lparr>bh_locked := False, bh_dirty := bh_dirty (hdrs e hp) \<or> dirty\<rparr>"
  let ?e = "upd_hdr hp (\<lambda>b. b\<lparr>bh_locked := False, bh_dirty := bh_dirty b \<or> dirty\<rparr>) e" and ?m = "m\<lparr>mf_dirty := mf_dirty m \<or> dirty\<rparr>"
  have m: "(if dirty then m\<lparr>mf_dirty := True\<rparr> else m) = ?m" by simp
  have hs: "hdrs ?e = (hdrs e)(hp := ?blk)" by simp
  have fits: "fits m (bh_bnum (hdrs e hp)) (bh_page_count (hdrs e hp)) ?blk"
    using used_block [OF inv hp] wf_fileD(4,5) [OF mf_invD(4) [OF inv] hp] d by (auto simp: fits_def)
  have i: "mf_inv H L (hdrs ?e) (next_hdr ?e) ?m" using hdr_upd_inv [OF inv hp fits] by (simp add: hs)
  have "agree L (hdrs e) m (hdrs ?e) ?m"
    using hdr_upd_agree [OF inv hp, of ?blk] unfolding hs agree_def by simp
  then have k: "keeps H L (hdrs e) m L (hdrs ?e) ?m" by (rule agree_keeps) simp
  show ?thesis
  proof (cases infile)
    case False
    then have "mf_put H hp dirty infile e m = Inr (?e, ?m)" unfolding mf_put_def m by simp
    then show ?thesis using i k by auto
  next
    case True
    obtain ok e' m' L' where t: "mf_trans_add H hp ?e ?m = Inr (ok, e', m')" "swapped H L ?e ?m L' e' m'"
      using trans_add_spec [OF i, of hp] hp by auto
    have "hp \<notin> set (mf_free_first m)" using hp wf_listsD(3) [OF mf_invD(1) [OF inv]] by blast
    then have "\<not> bh_locked (hdrs e' hp)" "mf_inv H L' (hdrs e') (next_hdr e') m'" "mf_used m' = mf_used m"
      using t(2) unfolding swapped_def like_def by (auto simp: upd_hdr_def)
    moreover have "keeps H L (hdrs e) m L' (hdrs e') m'"
      using t(2) keeps_trans [OF k _ mf_invD(5) [OF i]] unfolding swapped_def by blast
    moreover have "mf_put H hp dirty infile e m = Inr (e', m')" unfolding mf_put_def m using True t(1) by simp
    ultimately show ?thesis by blast
  qed
qed

subsection \<open>\<open>mf_free\<close>\<close>

lemma ins_free_inv:
  assumes inv: "mf_inv H L hs nx m" and hp: "hp \<notin> set (mf_used m) \<union> set (mf_free_first m)" "hp < nx"
    and own: "own_range L hs m (bh_bnum (hs hp)) (bh_page_count (hs hp))" "L (bh_bnum (hs hp)) = None"
  shows "mf_inv H L hs nx (m\<lparr>mf_free_first := hp # mf_free_first m\<rparr>)"
proof -
  let ?m = "m\<lparr>mf_free_first := hp # mf_free_first m\<rparr>"
  have d: "on_disk ?m = on_disk m" by (simp add: on_disk_def fun_eq_iff)
  note l = wf_listsD [OF mf_invD(1) [OF inv]] and n = wf_numbersD [OF mf_invD(2) [OF inv]]
    and a = wf_apartD [OF mf_invD(3) [OF inv]] and o = own_rangeD [OF own(1)]
  show ?thesis
  proof (rule mf_invI)
    show "wf_lists H hs nx ?m" using mf_invD(1) [OF inv] hp by (auto simp: wf_lists_def)
    show "wf_numbers L hs ?m" using mf_invD(2) [OF inv] o(1-3) by (auto simp: wf_numbers_def)
    show "wf_apart L hs ?m"
    proof (rule wf_apartI)
      show "pages (bh_bnum (hs f)) (bh_page_count (hs f)) \<inter> pages b c = {}" if "f \<in> set (mf_free_first ?m)" "L b = Some c" "0 \<le> b" for f b c
      proof (cases "f = hp")
        case True
        have "b \<noteq> bh_bnum (hs hp)" using that(2) own(2) by auto
        then show ?thesis using o(4) [of b c] that(2,3) True by simp
      next
        case False
        then show ?thesis using a(2) [of f b c] that by simp
      qed
      show "pages (bh_bnum (hs f)) (bh_page_count (hs f)) \<inter> pages (bh_bnum (hs f')) (bh_page_count (hs f')) = {}"
        if "f \<in> set (mf_free_first ?m)" "f' \<in> set (mf_free_first ?m)" "f \<noteq> f'" for f f'
        using that a(3) [of f f'] o(5) [of f] o(5) [of f'] by auto
    qed (use a(1) in blast)
    show "wf_file L hs ?m" "wf_trans H L ?m" using mf_invD(4,5) [OF inv] by (simp_all add: wf_file_def wf_trans_def d)
  qed
qed

lemma free_spec:
  assumes inv: "mf_inv H L (hdrs e) (next_hdr e) m" and hp: "hp \<in> set (mf_used m)"
  defines "b \<equiv> bh_bnum (hdrs e hp)"
  shows "\<exists>e' m'. mf_free H hp e m = (e', m') \<and> mf_inv H (L(b := None)) (hdrs e') (next_hdr e') m' \<and>
    (\<forall>b' c d. b' \<noteq> b \<longrightarrow> holds (hdrs e') m' b' c d = holds (hdrs e) m b' c d) \<and> (0 \<le> b \<longrightarrow> mf_free_first m' = hp # mf_free_first m)"
proof -
  let ?r = "rem_blk H hp (hdrs e) m" and ?c = "bh_page_count (hdrs e hp)"
  note l = wf_listsD [OF mf_invD(1) [OF inv]]
  have r: "mf_inv H (L(b := None)) (hdrs e) (next_hdr e) ?r" using rem_blk_inv [OF inv hp] unfolding b_def .
  have h: "holds (hdrs e) ?r b' c d = holds (hdrs e) m b' c d" if "b' \<noteq> b" for b' c d
    using holds_rem_other [OF inv hp] that unfolding b_def by blast
  obtain e1 where e1: "hdrs e1 = hdrs e" "next_hdr e1 = next_hdr e"
    "mf_free H hp e m = (if b < 0 then (e1, ?r\<lparr>mf_neg_count := mf_neg_count m - 1\<rparr>) else (e1, ?r\<lparr>mf_free_first := hp # mf_free_first m\<rparr>))"
    by (rule that [of "e\<lparr>total_mem_used := total_mem_used e - int ?c * int (mf_page_size m)\<rparr>"])
      (simp_all add: mf_free_def mf_rem_used_def mf_rem_hash_def mf_ins_free_def rem_blk_def b_def Let_def)
  show ?thesis
  proof (cases "b < 0")
    case True
    then show ?thesis using e1 r h by simp
  next
    case False
    then have "own_range L (hdrs e) m b ?c" using own_range_known [OF inv] used_block(1) [OF inv hp] by (simp add: b_def)
    then have "own_range (L(b := None)) (hdrs e) ?r b ?c" unfolding own_range_def by (auto split: if_splits)
    then have "mf_inv H (L(b := None)) (hdrs e) (next_hdr e) (?r\<lparr>mf_free_first := hp # mf_free_first ?r\<rparr>)"
      by (intro ins_free_inv [OF r]) (use l(1,3) l(4) [OF hp] hp in \<open>auto simp: set_remove1_eq b_def\<close>)
    moreover have "holds (hdrs e) (?r\<lparr>mf_free_first := hp # mf_free_first m\<rparr>) b' c d = holds (hdrs e) ?r b' c d" for b' c d
      by (rule holds_cong) simp_all
    ultimately show ?thesis using e1 h False by simp
  qed
qed

subsection \<open>\<open>mf_sync\<close>\<close>

lemma char_eq: "mch_char_avail e = (chars e \<noteq> [] \<and> hd (chars e), e\<lparr>chars := tl (chars e)\<rparr>)"
  by (cases e) (auto simp: mch_char_avail_def split: list.splits)

text \<open>What the loop leaves behind: all contents, and clean blocks where it wrote everything.\<close>

definition synced :: "vim_h \<Rightarrow> bool \<Rightarrow> nat list \<Rightarrow> bool \<Rightarrow> (int \<rightharpoonup> nat) \<Rightarrow> env \<Rightarrow> memfile \<Rightarrow> bool \<Rightarrow> bool \<Rightarrow> (int \<rightharpoonup> nat) \<Rightarrow> env \<Rightarrow> memfile \<Rightarrow> bool" where
  "synced H all hps status L e m fin st L' e' m' \<longleftrightarrow> swapped H L e m L' e' m' \<and> (st \<longrightarrow> status) \<and>
     (all \<and> fin \<and> st \<longrightarrow> (\<forall>hp\<in>set hps. \<not> bh_dirty (hdrs e' hp)))"

definition no_faults :: "env \<Rightarrow> memfile \<Rightarrow> bool" where
  "no_faults e m \<longleftrightarrow> 0 \<le> mf_fd m \<and> faults e = [] \<and> allocs e = []"

lemma synced_step:
  assumes "swapped H L e m L1 e1 m1" "synced H all hps st1 L1 e1 m1 fin st L2 e2 m2" "mf_inv H L (hdrs e) (next_hdr e) m"
    "hp \<in> set (mf_used m)" "st1 \<longrightarrow> status" "all \<and> st1 \<longrightarrow> \<not> bh_dirty (hdrs e1 hp)"
  shows "synced H all (hp # hps) status L e m fin st L2 e2 m2"
proof -
  have "hp \<in> set (mf_used m1)" "mf_inv H L1 (hdrs e1) (next_hdr e1) m1" using assms(1,4) unfolding swapped_def by metis+
  then have "hp \<notin> set (mf_free_first m1)" using wf_listsD(3) [OF mf_invD(1)] by blast
  then have "like (hdrs e1) (hdrs e2) hp" using assms(2) unfolding synced_def swapped_def by blast
  then show ?thesis using assms(2,5,6) swapped_trans [OF assms(1)] unfolding synced_def like_def by auto
qed

lemma sync_loop_spec:
  assumes "mf_inv H L (hdrs e) (next_hdr e) m" "set hps \<subseteq> set (mf_used m)"
  shows "\<exists>fin st e' m' L'. sync_loop H all check_char hps status e m = Inr (fin, st, e', m') \<and>
    synced H all hps status L e m fin st L' e' m' \<and> (no_faults e m \<and> \<not> check_char \<and> status \<longrightarrow> fin \<and> st \<and> no_faults e' m')"
  using assms
proof (induction hps arbitrary: L e m status)
  case Nil
  then show ?case using swapped_refl [OF Nil.prems(1)] by (auto simp: synced_def)
next
  case (Cons hp hps)
  note inv = Cons.prems(1)
  have hp: "hp \<in> set (mf_used m)" "set hps \<subseteq> set (mf_used m)" using Cons.prems(2) by simp_all
  let ?w = "(all \<or> bh_bnum (hdrs e hp) \<ge> 0) \<and> bh_dirty (hdrs e hp) \<and> (status \<or> bh_bnum (hdrs e hp) \<ge> 0 \<and> bh_bnum (hdrs e hp) < mf_infile_count m)"
  show ?case
  proof (cases ?w)
    case False
    then obtain fin st e' m' L' where r: "sync_loop H all check_char hps status e m = Inr (fin, st, e', m')"
      "synced H all hps status L e m fin st L' e' m'" "no_faults e m \<and> \<not> check_char \<and> status \<longrightarrow> fin \<and> st \<and> no_faults e' m'"
      using Cons.IH [OF inv hp(2)] by metis
    have "synced H all (hp # hps) status L e m fin st L' e' m'"
      using synced_step [OF swapped_refl [OF inv] r(2) inv hp(1)] False by blast
    moreover have "sync_loop H all check_char (hp # hps) status e m = Inr (fin, st, e', m')"
      using False r(1) by (simp only: sync_loop.simps Let_def if_False)
    ultimately show ?thesis using r(3) by blast
  next
    case True
    obtain ok e1 m1 L1 where w: "mf_write H hp e m = Inr (ok, e1, m1)" "swapped H L e m L1 e1 m1" "ok \<longrightarrow> \<not> bh_dirty (hdrs e1 hp)"
      "0 \<le> mf_fd m \<and> faults e = [] \<and> allocs e = [] \<longrightarrow> ok \<and> faults e1 = [] \<and> allocs e1 = []"
      using write_spec [OF inv hp(1)] True by metis
    define e2 where "e2 = (if check_char then e1\<lparr>chars := tl (chars e1)\<rparr> else e1)"
    define c where "c = (check_char \<and> chars e1 \<noteq> [] \<and> hd (chars e1))"
    have s2: "swapped H L e m L1 e2 m1" using w(2) swapped_env(4) by (simp add: e2_def)
    have def: "sync_loop H all check_char (hp # hps) status e m =
        (if \<not> ok \<and> \<not> status then Inr (False, False, e1, m1) else if c then Inr (False, status \<and> ok, e2, m1)
         else sync_loop H all check_char hps (status \<and> ok) e2 m1)"
      using True w(1) by (simp add: char_eq c_def e2_def Let_def split: if_splits)
    have nf: "no_faults e m \<longrightarrow> ok \<and> no_faults e2 m1" using w(2,4) unfolding no_faults_def swapped_def by (simp add: e2_def)
    show ?thesis
    proof (cases "\<not> ok \<and> \<not> status")
      case stop: True
      then show ?thesis using def w(2) nf by (auto simp: synced_def)
    next
      case go: False
      show ?thesis
      proof (cases c)
        case True
        then have "check_char" by (simp add: c_def)
        then show ?thesis using go True def s2 by (auto simp: synced_def)
      next
        case False
        have "mf_inv H L1 (hdrs e2) (next_hdr e2) m1" "set hps \<subseteq> set (mf_used m1)" using s2 hp(2) unfolding swapped_def by metis+
        then obtain fin st e' m' L' where r: "sync_loop H all check_char hps (status \<and> ok) e2 m1 = Inr (fin, st, e', m')"
          "synced H all hps (status \<and> ok) L1 e2 m1 fin st L' e' m'" "no_faults e2 m1 \<and> \<not> check_char \<and> (status \<and> ok) \<longrightarrow> fin \<and> st \<and> no_faults e' m'"
          using Cons.IH by metis
        have "hdrs e2 = hdrs e1" by (simp add: e2_def)
        then have "synced H all (hp # hps) status L e m fin st L' e' m'"
          using synced_step [OF s2 r(2) inv hp(1)] w(3) by auto
        moreover have "sync_loop H all check_char (hp # hps) status e m = Inr (fin, st, e', m')"
          unfolding def using go False r(1) by (simp only: if_False)
        ultimately show ?thesis using r(3) nf by blast
      qed
    qed
  qed
qed

lemma sync_loop_fin:
  "sync_loop H all check_char hps status e m = Inr (fin, st, e', m') \<Longrightarrow> \<not> check_char \<Longrightarrow> st \<Longrightarrow> fin"
proof (induction hps arbitrary: status e m)
  case (Cons hp hps)
  then show ?case by (auto simp: Let_def ebind_eq_Inr split: if_splits)
qed simp

lemma sync_spec:
  assumes inv: "mf_inv H L (hdrs e) (next_hdr e) m"
  shows "\<exists>ok e' m' L'. mf_sync H all check_char e m = Inr (ok, e', m') \<and> mf_inv H L' (hdrs e') (next_hdr e') m' \<and>
    keeps H L (hdrs e) m L' (hdrs e') m' \<and> mf_used m' = mf_used m \<and>
    (ok \<and> all \<and> \<not> check_char \<longrightarrow> (\<forall>hp\<in>set (mf_used m'). \<not> bh_dirty (hdrs e' hp))) \<and> (no_faults e m \<and> \<not> check_char \<longrightarrow> ok)"
proof (cases "mf_fd m < 0")
  case True
  have "keeps H L (hdrs e) m L (hdrs e) (m\<lparr>mf_dirty := False\<rparr>)" by (rule agree_keeps) (simp_all add: agree_def)
  then show ?thesis using True inv by (auto simp: mf_sync_def no_faults_def)
next
  case False
  obtain fin st e1 m1 L1 where r: "sync_loop H all check_char (rev (mf_used m)) True e m = Inr (fin, st, e1, m1)"
    "synced H all (rev (mf_used m)) True L e m fin st L1 e1 m1" "no_faults e m \<and> \<not> check_char \<longrightarrow> fin \<and> st \<and> no_faults e1 m1"
    using sync_loop_spec [OF inv equalityD1 [OF set_rev]] by metis
  define m' where "m' = (if fin \<or> \<not> st then m1\<lparr>mf_dirty := False\<rparr> else m1)"
  let ?e = "e1\<lparr>faults := tl (faults e1)\<rparr>" and ?ok = "st \<and> (faults e1 = [] \<or> hd (faults e1) = None)"
  have def: "mf_sync H all check_char e m = Inr (?ok, ?e, m')" using False r(1) by (simp add: mf_sync_def syscall_eq m'_def Let_def)
  have s: "mf_inv H L1 (hdrs e1) (next_hdr e1) m1" "keeps H L (hdrs e) m L1 (hdrs e1) m1" "mf_used m1 = mf_used m"
    using r(2) unfolding synced_def swapped_def by blast+
  have h: "holds (hdrs e1) m' b c d = holds (hdrs e1) m1 b c d" "mf_trans m' = mf_trans m1" "mf_used m' = mf_used m1" for b c d by (simp_all add: m'_def)
  have "mf_inv H L1 (hdrs e1) (next_hdr e1) m'" using s(1) by (simp add: m'_def)
  moreover have "keeps H L (hdrs e) m L1 (hdrs e1) m'" using s(2) unfolding keeps_def h .
  moreover have "\<forall>hp\<in>set (mf_used m'). \<not> bh_dirty (hdrs e1 hp)" if "st" "all" "\<not> check_char"
    using that r sync_loop_fin [OF r(1) that(3,1)] h(3) s(3) unfolding synced_def by auto
  moreover have "no_faults e m \<and> \<not> check_char \<longrightarrow> ?ok" using r(3) by (auto simp: no_faults_def)
  ultimately show ?thesis using def h(3) s(3) by auto
qed

subsection \<open>\<open>mf_release_all\<close> and \<open>mf_open\<close>\<close>

definition scanned :: "vim_h \<Rightarrow> (int \<rightharpoonup> nat) \<Rightarrow> env \<Rightarrow> memfile \<Rightarrow> (int \<rightharpoonup> nat) \<Rightarrow> env \<Rightarrow> memfile \<Rightarrow> bool" where
  "scanned H L e m L' e' m' \<longleftrightarrow> mf_inv H L' (hdrs e') (next_hdr e') m' \<and> keeps H L (hdrs e) m L' (hdrs e') m' \<and>
     set (mf_used m') \<subseteq> set (mf_used m) \<and> (\<forall>hp\<in>set (mf_used m). bh_locked (hdrs e hp) \<longrightarrow> hp \<in> set (mf_used m'))"

lemma scanned_after:
  assumes "released H L e m c r L1 e1 m1" "scanned H L1 e1 m1 L2 e2 m2"
  shows "scanned H L e m L2 e2 m2"
proof -
  have "keeps H L (hdrs e) m L2 (hdrs e2) m2" using assms keeps_trans mf_invD(5) unfolding released_def scanned_def by metis
  moreover have "hp \<in> set (mf_used m2)" if "hp \<in> set (mf_used m)" "bh_locked (hdrs e hp)" for hp
  proof -
    have "hp \<in> set (mf_used m1)" using assms(1) that unfolding released_def by blast
    then show ?thesis using assms that unfolding released_def scanned_def like_def by metis
  qed
  ultimately show ?thesis using assms unfolding released_def scanned_def by auto
qed

lemma release_scan_spec:
  assumes "mf_inv H L (hdrs e) (next_hdr e) m" "set hps \<subseteq> set (mf_used m)" "length hps + length (mf_used m) * length (mf_used m) < fuel"
  shows "\<exists>r e' m' L'. release_scan H fuel hps retval e m = Inr (r, e', m') \<and> scanned H L e m L' e' m'"
  using assms
proof (induction fuel arbitrary: hps retval L e m)
  case (Suc fuel)
  note inv = Suc.prems(1)
  show ?case
  proof (cases hps)
    case Nil
    then show ?thesis using inv by (auto simp: scanned_def)
  next
    case (Cons hp hps')
    then have hp: "hp \<in> set (mf_used m)" "set hps' \<subseteq> set (mf_used m)" using Suc.prems(2) by simp_all
    obtain free e1 m1 L1 where w: "(if bh_locked (hdrs e hp) then Inr (False, e, m)
        else if bh_dirty (hdrs e hp) then mf_write H hp e m else Inr (True, e, m)) = Inr (free, e1, m1)"
      "swapped H L e m L1 e1 m1" "free \<longrightarrow> \<not> bh_dirty (hdrs e1 hp) \<and> \<not> bh_locked (hdrs e hp)"
    proof -
      consider "bh_locked (hdrs e hp)" | "\<not> bh_locked (hdrs e hp)" "bh_dirty (hdrs e hp)" | "\<not> bh_locked (hdrs e hp)" "\<not> bh_dirty (hdrs e hp)" by blast
      then show ?thesis
      proof cases
        case 2
        then show ?thesis using that write_spec [OF inv hp(1)] by auto
      qed (use that swapped_refl [OF inv] in auto)
    qed
    have m1: "mf_used m1 = mf_used m" "mf_inv H L1 (hdrs e1) (next_hdr e1) m1" using w(2) unfolding swapped_def by blast+
    have nf: "hp \<notin> set (mf_free_first m)" using hp(1) wf_listsD(3) [OF mf_invD(1) [OF inv]] by blast
    have rel: "released H L e m 0 None L1 e1 m1" using swapped_released [OF w(2) inv] .
    show ?thesis
    proof (cases free)
      case False
      have "length hps' + length (mf_used m1) * length (mf_used m1) < fuel" using Suc.prems(3) Cons m1(1) by simp
      then obtain r e' m' L' where "release_scan H fuel hps' retval e1 m1 = Inr (r, e', m')" "scanned H L1 e1 m1 L' e' m'"
        using Suc.IH [OF m1(2)] hp(2) m1(1) by metis
      then show ?thesis using Cons w(1) False scanned_after [OF rel] by auto
    next
      case True
      then have cl: "\<not> bh_dirty (hdrs e1 hp)" "\<not> bh_locked (hdrs e1 hp)" using w(2,3) nf unfolding swapped_def like_def by auto
      obtain e2 m2 where r: "mf_rem_used hp e1 m1 = (e2, m2)" by fastforce
      note b = mf_rem_blk [OF r, of H]
      let ?m = "rem_blk H hp (hdrs e1) m1"
      have "released H L1 e1 m1 0 None L1 e2 ?m" by (rule release_tail) (use m1 hp cl b in auto)
      then have rel2: "released H L e m 0 None L1 e2 ?m" by (rule released_swapped [OF w(2) _ inv])
      have inv2: "mf_inv H L1 (hdrs e2) (next_hdr e2) ?m" using rel2 unfolding released_def by blast
      have len: "Suc (length (mf_used ?m)) = length (mf_used m)" using length_pos_if_in_set [OF hp(1)] hp(1) m1(1) by (simp add: length_remove1)
      have "length (rev (mf_used ?m)) + length (mf_used ?m) * length (mf_used ?m) < fuel"
        using Suc.prems(3) Cons unfolding len [symmetric] by simp
      then obtain r e' m' L' where "release_scan H fuel (rev (mf_used ?m)) True e2 ?m = Inr (r, e', m')" "scanned H L1 e2 ?m L' e' m'"
        using Suc.IH [OF inv2 equalityD1 [OF set_rev]] by metis
      then show ?thesis using Cons w(1) True r b scanned_after [OF rel2] by (auto simp: Let_def)
    qed
  qed
qed simp

text \<open>The fields of a memory file just opened.\<close>

lemma opened_fields:
  assumes "mf_open H fd contents blksize fname new fail_nofile e = (Some m, e')"
  shows "mf_used m = [] \<and> mf_free_first m = [] \<and> mf_hash m = (\<lambda>_. []) \<and> mf_trans m = (\<lambda>_. []) \<and> mf_blocknr_min m = -1 \<and>
      mf_used_count m = 0 \<and> mf_infile_count m = mf_blocknr_max m \<and>
      (mf_page_size m = MEMFILE_PAGE_SIZE \<or> 1048 \<le> mf_page_size m \<and> mf_page_size m \<le> 50000) \<and>
      (mf_blocknr_max m = 0 \<or> mf_blocknr_max m = int (length (disk m)) div int (mf_page_size m))"
proof -
  define m0 where "m0 = (case fname of None \<Rightarrow> empty_memfile | Some f \<Rightarrow> mf_do_open H fd contents f new empty_memfile)"
  have m0: "mf_used m0 = []" "mf_free_first m0 = []" "mf_hash m0 = (\<lambda>_. [])" "mf_trans m0 = (\<lambda>_. [])" "mf_used_count m0 = 0"
      "mf_page_size m0 = MEMFILE_PAGE_SIZE"
    by (simp_all add: m0_def empty_memfile_def mf_do_open_def split: option.split)
  define m1 where "m1 = (case blksize of Some b \<Rightarrow> if mf_fd m0 \<ge> 0 \<and> 1048 \<le> b \<and> b \<le> 50000 then m0\<lparr>mf_page_size := b\<rparr> else m0
    | None \<Rightarrow> m0)"
  have m1: "mf_used m1 = []" "mf_free_first m1 = []" "mf_hash m1 = (\<lambda>_. [])" "mf_trans m1 = (\<lambda>_. [])" "mf_used_count m1 = 0"
      "mf_page_size m1 = MEMFILE_PAGE_SIZE \<or> 1048 \<le> mf_page_size m1 \<and> mf_page_size m1 \<le> 50000"
    by (simp_all add: m1_def m0 split: option.split)
  obtain mx mu where "m = m1\<lparr>mf_blocknr_max := mx, mf_blocknr_min := -1, mf_neg_count := 0, mf_infile_count := mx, mf_used_count_max := mu\<rparr>"
      "mx = 0 \<or> mx = int (length (disk m1)) div int (mf_page_size m1)"
  proof (cases "alloc e")
    case (Pair ok e1)
    show ?thesis using assms unfolding mf_open_def m0_def [symmetric] Pair
      by (simp add: Let_def m1_def [symmetric] split: if_splits) (rule that, erule sym, simp)+
  qed
  then show ?thesis using m1 by simp
qed

lemma open_spec:
  assumes "mf_open H fd contents blksize fname new fail_nofile e = (Some m, e')"
  shows "mf_inv H (\<lambda>_. None) (hdrs e') (next_hdr e') m" "mf_infile_count m = mf_blocknr_max m" "mf_used m = []"
    "mf_page_size m = MEMFILE_PAGE_SIZE \<or> 1048 \<le> mf_page_size m \<and> mf_page_size m \<le> 50000"
proof -
  note m = opened_fields [OF assms]
  have p: "0 < mf_page_size m" using m by (auto simp: MEMFILE_PAGE_SIZE_def)
  have "int (mf_page_size m) * (int (length (disk m)) div int (mf_page_size m)) \<le> int (length (disk m))" using p by (simp add: mult_div_mod_eq minus_mod_eq_mult_div [symmetric])
  then have "mf_page_size m * nat (mf_blocknr_max m) \<le> length (disk m)" using m by (auto simp: nat_div_distrib)
  moreover have "0 \<le> mf_blocknr_max m" using m by (auto simp: div_int_pos_iff)
  ultimately show "mf_inv H (\<lambda>_. None) (hdrs e') (next_hdr e') m" using m p by (simp add: mf_inv_def wf_defs)
qed (use opened_fields [OF assms] in simp_all)

end
