(* ===== verification/Vim_Store.thy ===== *)
theory Vim_Store
  imports Vim_Sync
begin

text \<open>
  The promises of the memory file (\<open>vim/src/memfile.c\<close>) to its clients: a block keeps its content
  through any sequence of writes, releases and syncs, and \<open>mf_get\<close> finds it again; \<open>mf_new\<close> takes pages
  of no other block; \<open>mf_sync\<close> stores everything; the loops end.
\<close>

subsection \<open>Housekeeping\<close>

text \<open>Operations that move blocks between memory and file. A \<open>keeper\<close> runs requests that keep every block;
  so does a sequence of requests.\<close>

locale keeper =
  fixes H :: vim_h and exec :: "'r \<Rightarrow> env \<times> memfile \<Rightarrow> (env \<times> memfile) cres"
  assumes exec_keeps: "mf_inv H L (hdrs e) (next_hdr e) m \<Longrightarrow>
    \<exists>e' m' L'. exec r (e, m) = Inr (e', m') \<and> mf_inv H L' (hdrs e') (next_hdr e') m' \<and> keeps H L (hdrs e) m L' (hdrs e') m'"
begin

lemma run_keeps:
  assumes "mf_inv H L (hdrs e) (next_hdr e) m"
  shows "\<exists>e' m' L'. efold exec rs (e, m) = Inr (e', m') \<and> mf_inv H L' (hdrs e') (next_hdr e') m' \<and> keeps H L (hdrs e) m L' (hdrs e') m'"
  using assms
proof (induction rs arbitrary: L e m)
  case Nil
  then show ?case by auto
next
  case (Cons r rs)
  obtain e1 m1 L1 where 1: "exec r (e, m) = Inr (e1, m1)" "mf_inv H L1 (hdrs e1) (next_hdr e1) m1" "keeps H L (hdrs e) m L1 (hdrs e1) m1"
    using exec_keeps [OF Cons.prems] by blast
  obtain e2 m2 L2 where 2: "efold exec rs (e1, m1) = Inr (e2, m2)" "mf_inv H L2 (hdrs e2) (next_hdr e2) m2" "keeps H L1 (hdrs e1) m1 L2 (hdrs e2) m2"
    using Cons.IH [OF 1(2)] by blast
  show ?case using 1 2 keeps_trans [OF 1(3) 2(3) mf_invD(5) [OF 1(2)]] by (intro exI [of _ e2] exI [of _ m2] exI [of _ L2]) simp
qed

lemma run_then_get:
  assumes "mf_inv H L (hdrs e) (next_hdr e) m" "L b = Some c" "holds (hdrs e) m b c d"
  shows "\<exists>e' m' L' b'. efold exec rs (e, m) = Inr (e', m') \<and> (b' = b \<or> b < 0 \<and> (b, b') \<in> set (mf_trans m' (MEMHASH H b))) \<and>
    get_result H b' c d L' e' m' (mf_get H b' c e' m')"
proof -
  obtain e' m' L' where r: "efold exec rs (e, m) = Inr (e', m')" "mf_inv H L' (hdrs e') (next_hdr e') m'" "keeps H L (hdrs e) m L' (hdrs e') m'"
    using run_keeps [OF assms(1)] by blast
  obtain b' where b': "L' b' = Some c" "holds (hdrs e') m' b' c d" "b' = b \<or> b < 0 \<and> (b, b') \<in> set (mf_trans m' (MEMHASH H b))"
    using r(3) assms(2,3) unfolding keeps_def by blast
  then show ?thesis using r(1) get_spec [OF r(2) b'(1,2)] by blast
qed

end

datatype request = Sync bool bool | Release nat | Release_all

fun housekeep :: "vim_h \<Rightarrow> request \<Rightarrow> env \<times> memfile \<Rightarrow> (env \<times> memfile) cres" where
  "housekeep H (Sync all check_char) (e, m) = ebind (mf_sync H all check_char e m) (\<lambda>(_, e, m). Inr (e, m))"
| "housekeep H (Release page_count) (e, m) = ebind (mf_release H page_count e m) (\<lambda>(_, e, m). Inr (e, m))"
| "housekeep H Release_all (e, m) = ebind (mf_release_all H [m] e) (\<lambda>(_, e, ms). Inr (e, hd ms))"

lemma release_all_spec:
  assumes inv: "mf_inv H L (hdrs e) (next_hdr e) m"
  shows "\<exists>r e' m' L'. mf_release_all H [m] e = Inr (r, e', [m']) \<and> scanned H L e m L' e' m'"
proof (cases "0 \<le> mf_fd m")
  case True
  have "length (rev (mf_used m)) + length (mf_used m) * length (mf_used m) < (length (mf_used m) + 1) * (length (mf_used m) + 1)" by simp
  then obtain r e' m' L' where "release_scan H ((length (mf_used m) + 1) * (length (mf_used m) + 1)) (rev (mf_used m)) False e m = Inr (r, e', m')"
    "scanned H L e m L' e' m'" using release_scan_spec [OF inv equalityD1 [OF set_rev]] by metis
  then show ?thesis using True by auto
next
  case False
  then show ?thesis using inv by (auto simp: scanned_def)
qed

interpretation housekeeping: keeper H "housekeep H" for H
proof
  fix L :: "int \<rightharpoonup> nat" and e :: env and m :: memfile and r :: request
  assume inv: "mf_inv H L (hdrs e) (next_hdr e) m"
  show "\<exists>e' m' L'. housekeep H r (e, m) = Inr (e', m') \<and> mf_inv H L' (hdrs e') (next_hdr e') m' \<and> keeps H L (hdrs e) m L' (hdrs e') m'"
  proof (cases r)
    case (Sync all check_char)
    then show ?thesis using sync_spec [OF inv, of all check_char] by auto
  next
    case (Release c)
    then show ?thesis using release_spec [OF inv, of c] by (auto simp: released_def)
  next
    case Release_all
    then show ?thesis using release_all_spec [OF inv] by (auto simp: scanned_def)
  qed
qed

subsection \<open>The promises\<close>

text \<open>C17. Swapping is invisible: after any sequence of \<open>mf_sync\<close>, \<open>mf_release\<close> and \<open>mf_release_all\<close>, with any
  failures of system calls and allocations, every block is there under its number, or under the number its
  negative number was translated to, and \<open>mf_get\<close> of it yields its content; it returns no block only when
  the file is closed or an allocation or a system call fails.\<close>

theorem swap_roundtrip:
  assumes "mf_inv H L (hdrs e) (next_hdr e) m" "L b = Some c" "holds (hdrs e) m b c d"
  shows "\<exists>e' m' L' b'. efold (housekeep H) rs (e, m) = Inr (e', m') \<and>
    (b' = b \<or> b < 0 \<and> (b, b') \<in> set (mf_trans m' (MEMHASH H b))) \<and> get_result H b' c d L' e' m' (mf_get H b' c e' m')"
  by (rule housekeeping.run_then_get [OF assms])

text \<open>A memory file with one dirty block in memory that has no number in the file yet.\<close>

definition demo_h :: vim_h where
  "demo_h = \<lparr>MEMHASH = (\<lambda>_. 0), p_mm = 1, p_mmt = 0, FullName = Some, garbage = (\<lambda>_. 0)\<rparr>"

definition demo_e :: env where
  "demo_e = \<lparr>hdrs = (\<lambda>_. \<lparr>bh_bnum = -1, bh_page_count = 1, bh_dirty = True, bh_locked = False, bh_data = [7, 8]\<rparr>),
     next_hdr = 1, total_mem_used = 2, allocs = [], faults = [], chars = []\<rparr>"

definition demo_m :: memfile where
  "demo_m = empty_memfile\<lparr>mf_fd := 3, mf_page_size := 2, mf_used := [0], mf_hash := (\<lambda>h. if h = 0 then [0] else []),
     mf_blocknr_min := -2, mf_neg_count := 1, mf_used_count := 1\<rparr>"

lemmas demo_defs = demo_h_def demo_e_def demo_m_def empty_memfile_def

lemma demo_inv: "mf_inv demo_h [-1 \<mapsto> 1] (hdrs demo_e) (next_hdr demo_e) demo_m"
  unfolding mf_inv_def wf_defs by (auto simp: demo_defs split: if_splits)

lemma demo_holds: "[-1 \<mapsto> 1] (-1::int) = Some (1::nat)" "holds (hdrs demo_e) demo_m (-1) 1 [7, 8]"
  by (auto simp: holds_def demo_defs)

theorem swap_roundtrip_witness:
  "\<exists>e' m' L' b'. efold (housekeep demo_h) [Sync True False, Release 1, Release_all] (demo_e, demo_m) = Inr (e', m') \<and>
    (b' = -1 \<or> (-1::int) < 0 \<and> (-1, b') \<in> set (mf_trans m' (MEMHASH demo_h (-1)))) \<and> get_result demo_h b' 1 [7, 8] L' e' m' (mf_get demo_h b' 1 e' m')"
  by (rule swap_roundtrip [OF demo_inv demo_holds])

text \<open>C18. \<open>mf_get\<close> of a block in use returns a locked header in memory with the block's number, size and
  content, whether it was in memory or had to be read, and keeps all other blocks. Without a failing
  allocation or system call on an open file it does return the block; it crashes only after a failed
  allocation.\<close>

theorem mf_get_returns_content:
  assumes "mf_inv H L (hdrs e) (next_hdr e) m" "L b = Some c" "holds (hdrs e) m b c d"
  shows "case mf_get H b c e m of
      Inl x \<Rightarrow> x = NullDeref \<and> False \<in> set (allocs e)
    | Inr (None, e', m') \<Rightarrow> (mf_fd m < 0 \<or> False \<in> set (allocs e) \<or> (\<exists>k. Some k \<in> set (faults e))) \<and>
        (\<exists>L'. mf_inv H L' (hdrs e') (next_hdr e') m' \<and> keeps H L (hdrs e) m L' (hdrs e') m')
    | Inr (Some hp, e', m') \<Rightarrow> \<exists>L'. mf_inv H L' (hdrs e') (next_hdr e') m' \<and> keeps H L (hdrs e) m L' (hdrs e') m' \<and>
        hp \<in> set (mf_used m') \<and> bh_bnum (hdrs e' hp) = b \<and> bh_page_count (hdrs e' hp) = c \<and> bh_locked (hdrs e' hp) \<and> bh_data (hdrs e' hp) = d"
  using get_spec [OF assms] unfolding get_result_def got_def .

theorem mf_get_returns_content_witness:
  "\<exists>hp e' m'. mf_get demo_h (-1) 1 demo_e demo_m = Inr (Some hp, e', m') \<and> bh_data (hdrs e' hp) = [7, 8] \<and> bh_locked (hdrs e' hp)"
  using mf_get_returns_content [OF demo_inv demo_holds]
  by (auto simp: demo_e_def demo_m_def split: sum.splits prod.splits option.splits)

text \<open>C19. \<open>mf_new\<close> gives a block that nothing else has: its number, and for a number in the file all of its
  pages, belong to no block in use and to no free block; the header is in memory, locked and dirty; all
  other blocks keep their content. It returns no block, or crashes, only after a failed allocation.\<close>

theorem mf_new_takes_unused_pages:
  assumes "mf_inv H L (hdrs e) (next_hdr e) m" "0 < c"
  shows "case mf_new H negative c e m of
      Inl x \<Rightarrow> x = NullDeref \<and> False \<in> set (allocs e)
    | Inr (None, e', m') \<Rightarrow> False \<in> set (allocs e) \<and> (\<exists>L'. mf_inv H L' (hdrs e') (next_hdr e') m' \<and> keeps H L (hdrs e) m L' (hdrs e') m')
    | Inr (Some hp, e', m') \<Rightarrow> \<exists>b L'. L' b = None \<and> mf_inv H (L'(b \<mapsto> c)) (hdrs e') (next_hdr e') m' \<and> keeps H L (hdrs e) m L' (hdrs e') m' \<and>
        (0 \<le> b \<longrightarrow> (\<forall>b' c'. L' b' = Some c' \<longrightarrow> 0 \<le> b' \<longrightarrow> pages b c \<inter> pages b' c' = {})) \<and> (b < 0) = negative \<and>
        hp \<in> set (mf_used m') \<and> bh_bnum (hdrs e' hp) = b \<and> bh_page_count (hdrs e' hp) = c \<and> bh_locked (hdrs e' hp) \<and> bh_dirty (hdrs e' hp)"
proof -
  have apart: "pages b c \<inter> pages b' c' = {}"
    if "mf_inv H (L'(b \<mapsto> c)) hs nx m'" "L' b = None" "0 \<le> b" "L' b' = Some c'" "0 \<le> b'" for L' b hs nx m' b' c'
  proof -
    have "b \<noteq> b'" using that(2,4) by auto
    then show ?thesis using wf_apartD(1) [OF mf_invD(3) [OF that(1)], of b c b' c'] that(3-5) by simp
  qed
  show ?thesis
  proof (cases "mf_new H negative c e m")
    case (Inl x)
    then show ?thesis using new_spec [OF assms, of negative] by (simp add: new_result_def)
  next
    case (Inr y)
    obtain r e' m' where y: "y = (r, e', m')" using prod_cases3 by blast
    show ?thesis
    proof (cases r)
      case None
      then show ?thesis using new_spec [OF assms, of negative] Inr y by (simp add: new_result_def)
    next
      case (Some hp)
      then obtain b L' where p: "placed H L (hdrs e) m L' hp b c e' m'" "(b < 0) = negative"
        using new_spec [OF assms, of negative] Inr y by (auto simp: new_result_def)
      show ?thesis unfolding Inr y Some sum.case prod.case option.case
        by (intro exI [of _ b] exI [of _ L']) (use p apart [of L' b "hdrs e'" "next_hdr e'" m'] in \<open>auto simp: placed_def\<close>)
    qed
  qed
qed

theorem mf_new_takes_unused_pages_witness:
  "\<exists>hp e' m'. mf_new demo_h False 2 demo_e demo_m = Inr (Some hp, e', m') \<and> 0 \<le> bh_bnum (hdrs e' hp) \<and> bh_page_count (hdrs e' hp) = 2 \<and> bh_dirty (hdrs e' hp)"
  using mf_new_takes_unused_pages [OF demo_inv, of 2 False]
  by (auto simp: demo_e_def split: sum.splits prod.splits option.splits)

text \<open>C20. \<open>mf_sync\<close> always returns and keeps every block. When it reports success for all blocks, none is
  dirty and the file holds the content of every block that is not locked; without a failing call on an
  open file it does report success.\<close>

theorem mf_sync_stores_all:
  assumes "mf_inv H L (hdrs e) (next_hdr e) m"
  shows "\<exists>ok e' m' L'. mf_sync H True False e m = Inr (ok, e', m') \<and> mf_inv H L' (hdrs e') (next_hdr e') m' \<and>
    keeps H L (hdrs e) m L' (hdrs e') m' \<and>
    (ok \<longrightarrow> (\<forall>hp\<in>set (mf_used m'). \<not> bh_dirty (hdrs e' hp) \<and> 0 \<le> bh_bnum (hdrs e' hp) \<and>
       (bh_locked (hdrs e' hp) \<or> on_disk m' (bh_bnum (hdrs e' hp)) (bh_page_count (hdrs e' hp)) = bh_data (hdrs e' hp)))) \<and>
    (0 \<le> mf_fd m \<and> faults e = [] \<and> allocs e = [] \<longrightarrow> ok)"
proof -
  obtain ok e' m' L' where s: "mf_sync H True False e m = Inr (ok, e', m')" "mf_inv H L' (hdrs e') (next_hdr e') m'"
    "keeps H L (hdrs e) m L' (hdrs e') m'" "ok \<longrightarrow> (\<forall>hp\<in>set (mf_used m'). \<not> bh_dirty (hdrs e' hp))" "no_faults e m \<longrightarrow> ok"
    using sync_spec [OF assms, of True False] by auto
  note f = wf_fileD(4,6) [OF mf_invD(4) [OF s(2)]]
  show ?thesis using s f by (intro exI [of _ ok] exI [of _ e'] exI [of _ m'] exI [of _ L']) (auto simp: no_faults_def)
qed

theorem mf_sync_stores_all_witness:
  "\<exists>e' m'. mf_sync demo_h True False demo_e demo_m = Inr (True, e', m') \<and> (\<forall>hp\<in>set (mf_used m'). \<not> bh_dirty (hdrs e' hp))"
  using mf_sync_stores_all [OF demo_inv] by (auto simp: demo_e_def demo_m_def)

text \<open>C21. With one memory file open \<open>mf_release_all\<close> ends: with \<open>(n + 1) * (n + 1)\<close> rounds for \<open>n\<close> blocks in memory the scan that starts again
  after every release is complete. It keeps every block and never takes a locked one out of memory.\<close>

theorem mf_release_all_returns:
  assumes "mf_inv H L (hdrs e) (next_hdr e) m"
  shows "\<exists>r e' m' L'. mf_release_all H [m] e = Inr (r, e', [m']) \<and> mf_inv H L' (hdrs e') (next_hdr e') m' \<and>
    keeps H L (hdrs e) m L' (hdrs e') m' \<and> (\<forall>hp\<in>set (mf_used m). bh_locked (hdrs e hp) \<longrightarrow> hp \<in> set (mf_used m'))"
  using release_all_spec [OF assms] unfolding scanned_def by blast

theorem mf_release_all_returns_witness: "\<exists>r e' m'. mf_release_all demo_h [demo_m] demo_e = Inr (r, e', [m'])"
  using mf_release_all_returns [OF demo_inv] by blast

text \<open>\<open>mf_write\<close> ends and stores: the loop that first fills the file up to the block runs at most once per
  missing page; on success the block has a number in the file and is clean, and without failing calls on
  an open file it succeeds. All blocks keep their content.\<close>

lemma mf_write_returns:
  assumes "mf_inv H L (hdrs e) (next_hdr e) m" "hp \<in> set (mf_used m)" "bh_dirty (hdrs e hp)"
  shows "\<exists>ok e' m' L'. mf_write H hp e m = Inr (ok, e', m') \<and> mf_inv H L' (hdrs e') (next_hdr e') m' \<and>
    keeps H L (hdrs e) m L' (hdrs e') m' \<and> (ok \<longrightarrow> \<not> bh_dirty (hdrs e' hp)) \<and>
    (0 \<le> mf_fd m \<and> faults e = [] \<and> allocs e = [] \<longrightarrow> ok)"
  using write_spec [OF assms] unfolding swapped_def by blast

text \<open>Translations: the new number of a block is found exactly once under its old number, after which
  the old number is returned unchanged.\<close>

lemma mf_trans_del_once:
  assumes "mf_inv H L (hdrs e) (next_hdr e) m" "(old, new) \<in> set (mf_trans m (MEMHASH H old))"
  shows "\<exists>m'. mf_trans_del H old m = (new, m') \<and> mf_trans_del H old m' = (old, m')"
  by (rule trans_del_spec [OF mf_invD(5) [OF assms(1)] assms(2)])

text \<open>\<open>mf_open\<close> yields a memory file that satisfies the invariant, with no block in memory, whatever the
  size of an existing file, and with a page size between 1048 and 50000 bytes.\<close>

lemma mf_open_inv:
  assumes "mf_open H fd contents blksize fname new fail_nofile e = (Some m, e')"
  shows "mf_inv H (\<lambda>_. None) (hdrs e') (next_hdr e') m \<and> mf_used m = [] \<and> 1048 \<le> mf_page_size m \<and> mf_page_size m \<le> 50000 \<and>
    mf_blocknr_max m * int (mf_page_size m) \<le> int (length (disk m))"
proof -
  note o = open_spec [OF assms]
  have "mf_page_size m * nat (mf_infile_count m) \<le> length (disk m)" "0 \<le> mf_infile_count m"
    using wf_fileD(1,2) [OF mf_invD(4) [OF o(1)]] by blast+
  then have "int (mf_page_size m * nat (mf_infile_count m)) \<le> int (length (disk m))" by (simp only: of_nat_le_iff)
  then have "mf_blocknr_max m * int (mf_page_size m) \<le> int (length (disk m))"
    using o(2) \<open>0 \<le> mf_infile_count m\<close> by (simp add: mult.commute)
  then show ?thesis using o by (auto simp: MEMFILE_PAGE_SIZE_def)
qed

text \<open>The crash. A header is asked for, its allocation succeeds and that of its data fails.\<close>

definition data_alloc_fails :: "env \<Rightarrow> bool" where
  "data_alloc_fails e \<longleftrightarrow> take 2 (allocs e) = [True, False]"

lemma have_hdr_crashes: "mf_have_hdr H m c r e = Inl err \<longleftrightarrow> err = NullDeref \<and> r = None \<and> data_alloc_fails e"
proof (cases r)
  case None
  consider "allocs e = []" | b where "allocs e = [b]" | b1 b2 bs where "allocs e = b1 # b2 # bs" by (metis list.exhaust)
  then show ?thesis
    by cases (use None in \<open>auto simp: mf_have_hdr_def mf_alloc_bhdr_def store_hdr_def alloc_def Let_def data_alloc_fails_def\<close>)
qed (simp add: mf_have_hdr_def)

lemma new_number_crashes:
  "mf_new_number H negative c r e m = Inl err \<longleftrightarrow> mf_have_hdr H m c r e = Inl err"
  by (cases "mf_have_hdr H m c r e") (auto simp: mf_new_number_def split: option.splits if_splits)

text \<open>C32. The calls that crash. On a memory file in any state with the invariant, \<open>mf_new\<close> dereferences a null pointer exactly when
  \<open>mf_release\<close> gives it no block, it does not take over a free block of the wanted size, and then \<open>alloc\<close> succeeds for the
  header of the new block and fails for its data: \<open>mf_alloc_bhdr\<close> has just set the pointer to \<open>NULL\<close>. \<open>mf_get\<close> does so
  exactly when the block is in the file but not in memory and the same happens. Neither fails otherwise.\<close>

theorem failed_data_alloc_crashes:
  assumes "mf_inv H L (hdrs e) (next_hdr e) m"
  shows "(mf_new H negative c e m = Inl err \<longleftrightarrow> err = NullDeref \<and>
      (\<exists>e1 m1. mf_release H c e m = Inr (None, e1, m1) \<and> data_alloc_fails e1 \<and>
        \<not> (\<exists>f fs. \<not> negative \<and> mf_free_first m1 = f # fs \<and> bh_page_count (hdrs e1 f) = c))) \<and>
    (mf_get H nr c e m = Inl err \<longleftrightarrow> err = NullDeref \<and>
      (\<exists>e1 m1. mf_release H c e m = Inr (None, e1, m1) \<and> data_alloc_fails e1 \<and>
        0 \<le> nr \<and> nr < mf_blocknr_max m \<and> nr < mf_infile_count m \<and> mf_blocknr_min m < nr \<and> mf_find_hash H nr e m = None))"
proof -
  obtain r e1 m1 where rel: "mf_release H c e m = Inr (r, e1, m1)" using release_spec [OF assms, of c] by blast
  have new: "mf_new H negative c e m = Inl err \<longleftrightarrow> err = NullDeref \<and> r = None \<and> data_alloc_fails e1 \<and>
      \<not> (\<exists>f fs. \<not> negative \<and> mf_free_first m1 = f # fs \<and> bh_page_count (hdrs e1 f) = c)"
  proof (cases "if negative then [] else mf_free_first m1")
    case Nil
    then have "mf_new H negative c e m = mf_new_number H negative c r e1 m1" using rel by (simp add: mf_new_def)
    then show ?thesis using Nil by (auto simp: new_number_crashes have_hdr_crashes split: if_splits)
  next
    case (Cons f fs)
    then have nn: "\<not> negative" and f: "mf_free_first m1 = f # fs" by (auto split: if_splits)
    consider "c < bh_page_count (hdrs e1 f)" | "bh_page_count (hdrs e1 f) = c" | "bh_page_count (hdrs e1 f) < c" by linarith
    then show ?thesis
    proof cases
      case 1
      then have eq: "mf_new H negative c e m = new_split H c f r e1 m1" using rel nn f by (simp add: mf_new_def new_split_def Let_def)
      have "new_split H c f r e1 m1 = Inl err \<longleftrightarrow> mf_have_hdr H m1 c r e1 = Inl err"
        by (cases "mf_have_hdr H m1 c r e1") (auto simp: new_split_def Let_def split: option.splits)
      then show ?thesis using 1 f unfolding eq by (auto simp: have_hdr_crashes)
    next
      case 2
      then have eq: "mf_new H negative c e m = new_reuse H c r e1 m1" using rel nn f by (simp add: mf_new_def new_reuse_def Let_def)
      have "new_reuse H c r e1 m1 \<noteq> Inl err"
        using f by (auto simp: new_reuse_def mf_rem_free_def Let_def split: option.splits prod.splits)
      then show ?thesis using 2 nn f unfolding eq by auto
    next
      case 3
      then have "mf_new H negative c e m = mf_new_number H negative c r e1 m1" using rel nn f by (simp add: mf_new_def)
      then show ?thesis using 3 f by (auto simp: new_number_crashes have_hdr_crashes)
    qed
  qed
  have get: "mf_get H nr c e m = Inl err \<longleftrightarrow> err = NullDeref \<and> r = None \<and> data_alloc_fails e1 \<and>
      0 \<le> nr \<and> nr < mf_blocknr_max m \<and> nr < mf_infile_count m \<and> mf_blocknr_min m < nr \<and> mf_find_hash H nr e m = None"
  proof (cases "nr < mf_blocknr_max m \<and> mf_blocknr_min m < nr \<and> mf_find_hash H nr e m = None \<and> 0 \<le> nr \<and> nr < mf_infile_count m")
    case True
    then have "mf_get H nr c e m = Inl err \<longleftrightarrow> mf_have_hdr H m1 c r e1 = Inl err"
      using rel by (cases "mf_have_hdr H m1 c r e1") (auto simp: mf_get_def Let_def split: option.splits prod.splits)
    then show ?thesis using True by (auto simp: have_hdr_crashes)
  next
    case False
    then have "mf_get H nr c e m \<noteq> Inl err" by (auto simp: mf_get_def Let_def split: option.splits prod.splits)
    then show ?thesis using False by auto
  qed
  show ?thesis unfolding new get rel by auto
qed

theorem failed_data_alloc_crashes_witness:
  "mf_new demo_h True 1 (demo_e\<lparr>allocs := [True, False]\<rparr>) (demo_m\<lparr>mf_fd := -1\<rparr>) = Inl NullDeref"
proof -
  let ?e = "demo_e\<lparr>allocs := [True, False]\<rparr>" and ?m = "demo_m\<lparr>mf_fd := -1\<rparr>"
  have inv: "mf_inv demo_h [-1 \<mapsto> 1] (hdrs ?e) (next_hdr ?e) ?m"
    using demo_inv by (simp add: mf_inv_def wf_defs on_disk_def)
  have "mf_release demo_h 1 ?e ?m = Inr (None, ?e, ?m)" by (simp add: mf_release_def)
  then show ?thesis
    using failed_data_alloc_crashes [OF inv, of True 1 NullDeref 0] by (auto simp: data_alloc_fails_def)
qed

end
