(* ===== verification/Cherokee_Access.thy ===== *)
theory Cherokee_Access
  imports Prelude
begin

unbundle bit_operations_syntax

text \<open>
  The access lists of the Cherokee web server (\<open>cherokee/cherokee/access.c\<close>), in the configuration with
  \<open>HAVE_IPV6\<close> and \<open>HAVE_INET_PTON\<close>: which addresses and subnets a rule admits, and whether a socket matches.

  \<^item> An \<open>ip_t\<close> is a union of 16 bytes, an IPv4 address its first four in network order. On \<open>s_addr\<close> the
    operator \<open>&\<close> acts on each byte.
  \<^item> \<open>access_t\<close> holds the two lists and the outcomes of \<open>malloc\<close> (success when none is planned).
  \<^item> \<open>ac_h\<close> holds what other files supply: \<open>inet_pton\<close> and \<open>inet_ntop\<close>, \<open>cherokee_atoi\<close>, the insertion into a
    list, the resolver cache and \<open>cherokee_ntop\<close>. \<open>ret_other\<close> stands for the return codes of such code.
\<close>

subsection \<open>Data\<close>

datatype ip_type = ipv4 | ipv6

datatype ret_t = ret_ok | ret_error | ret_not_found | ret_other int

record ip_item =
  itype :: ip_type
  ip :: "byte list"

record subnet_item = ip_item +
  mask :: "byte list"

record access_t =
  list_ips :: "ip_item list"
  list_subnets :: "subnet_item list"
  mallocs :: "bool list"

text \<open>A socket: its address family, if it is one of the two, and the addresses of both views.\<close>

record sock_t =
  SOCKET_AF :: "ip_type option"
  sin_addr :: "byte list"
  sin6_addr :: "byte list"

record ac_h =
  inet_pton :: "ip_type \<Rightarrow> string \<Rightarrow> byte list option"
  inet_ntop :: "ip_type \<Rightarrow> byte list \<Rightarrow> string"
  cherokee_atoi :: "string \<Rightarrow> int option"
  ip_list_add :: "ip_item \<Rightarrow> ip_item list \<Rightarrow> ip_item list"
  subnet_list_add :: "subnet_item \<Rightarrow> subnet_item list \<Rightarrow> subnet_item list"
  resolv_get_default :: ret_t
  resolv_get_addrinfo :: "string \<Rightarrow> ret_t \<times> nat list"
  cherokee_ntop :: "nat \<Rightarrow> ret_t \<times> string"

subsection \<open>The C library\<close>

definition isdigit :: "char \<Rightarrow> bool" where
  "isdigit c \<longleftrightarrow> c \<in> set ''0123456789''"

definition isspace :: "char \<Rightarrow> bool" where
  "isspace c \<longleftrightarrow> of_char c \<in> {9, 10, 11, 12, 13, 32 :: nat}"

definition digits_value :: "string \<Rightarrow> int" where
  "digits_value ds = foldl (\<lambda>v c. 10 * v + (int (of_char c) - 48)) 0 ds"

definition strtol10 :: "string \<Rightarrow> int" where
  "strtol10 str =
     (let str = dropWhile isspace str;
          neg = (str \<noteq> [] \<and> hd str = CHR ''-'');
          str = (if str \<noteq> [] \<and> (hd str = CHR ''-'' \<or> hd str = CHR ''+'') then tl str else str);
          v = digits_value (takeWhile isdigit str)
      in if neg then - v else v)"

text \<open>\<open>strpbrk(s, "/\\")\<close> as the text before the separator and the text behind it.\<close>

definition split_slash :: "string \<Rightarrow> (string \<times> string) option" where
  "split_slash s =
     (let a = takeWhile (\<lambda>c. c \<noteq> CHR ''/'' \<and> c \<noteq> CHR 0x5C) s
      in if length a < length s then Some (a, drop (length a + 1) s) else None)"

definition IN6_IS_ADDR_V4MAPPED :: "byte list \<Rightarrow> bool" where
  "IN6_IS_ADDR_V4MAPPED a \<longleftrightarrow> take 12 a = replicate 10 0 @ [255, 255]"

definition htonl_bytes :: "32 word \<Rightarrow> byte list" where
  "htonl_bytes w = [ucast (drop_bit 24 w), ucast (drop_bit 16 w), ucast (drop_bit 8 w), ucast w]"

subsection \<open>Items\<close>

definition malloc :: "access_t \<Rightarrow> bool \<times> access_t" where
  "malloc entry = (case mallocs entry of [] \<Rightarrow> (True, entry) | b # bs \<Rightarrow> (b, entry\<lparr>mallocs := bs\<rparr>))"

definition zero_ip :: "byte list" where
  "zero_ip = replicate 16 0"

text \<open>\<open>new_ip\<close> and \<open>new_subnet\<close> leave the type unset; \<open>parse_ip\<close> sets it before it is read.\<close>

definition new_ip :: "access_t \<Rightarrow> ip_item option \<times> access_t" where
  "new_ip entry = (let (ok, entry) = malloc entry in (if ok then Some \<lparr>itype = ipv4, ip = zero_ip\<rparr> else None, entry))"

definition new_subnet :: "access_t \<Rightarrow> subnet_item option \<times> access_t" where
  "new_subnet entry =
     (let (ok, entry) = malloc entry in (if ok then Some \<lparr>itype = ipv4, ip = zero_ip, mask = zero_ip\<rparr> else None, entry))"

definition cherokee_access_init :: "access_t \<Rightarrow> access_t" where
  "cherokee_access_init entry = entry\<lparr>list_ips := [], list_subnets := []\<rparr>"

definition cherokee_access_mrproper :: "access_t \<Rightarrow> access_t" where
  "cherokee_access_mrproper entry = entry\<lparr>list_ips := [], list_subnets := []\<rparr>"

subsection \<open>Parsing\<close>

definition write_front :: "byte list \<Rightarrow> byte list \<Rightarrow> byte list" where
  "write_front bs a = mem_write 0 bs a"

definition parse_ip :: "ac_h \<Rightarrow> string \<Rightarrow> 'a ip_item_scheme \<Rightarrow> ret_t \<times> 'a ip_item_scheme" where
  "parse_ip H str n =
     (let t = (if CHR '':'' \<in> set str \<or> length str > 15 then ipv6 else ipv4);
          n = n\<lparr>itype := t\<rparr>;
          res = inet_pton H t str;
          n = (case res of None \<Rightarrow> n | Some bs \<Rightarrow> n\<lparr>ip := write_front bs (ip n)\<rparr>)
      in if t = ipv6 \<and> IN6_IS_ADDR_V4MAPPED (ip n) then (ret_error, n)
         else (if res \<noteq> None then ret_ok else ret_error, n))"

fun mask_byte :: "nat \<Rightarrow> byte \<Rightarrow> byte \<Rightarrow> byte" where
  "mask_byte 0 m maskbit = m"
| "mask_byte (Suc jj) m maskbit = mask_byte jj (m OR maskbit) (drop_bit 1 maskbit)"

definition parse_netmask :: "ac_h \<Rightarrow> string \<Rightarrow> subnet_item \<Rightarrow> ret_t \<times> subnet_item" where
  "parse_netmask H netmask n =
     (if CHR '':'' \<in> set netmask \<or> CHR ''.'' \<in> set netmask
      then (case inet_pton H (itype n) netmask of
              None \<Rightarrow> (ret_error, n)
            | Some bs \<Rightarrow> (ret_ok, n\<lparr>mask := write_front bs (mask n)\<rparr>))
      else if length netmask > 3 then (ret_error, n)
      else let num = strtol10 netmask
           in if num < 0 then (ret_error, n)
              else if itype n = ipv4 \<and> num > 32 then (ret_error, n)
              else if itype n = ipv6 \<and> num > 128 then (ret_error, n)
              else if num > 128 then (ret_error, n)
              else if num = 128 then (ret_ok, n\<lparr>mask := replicate 16 0\<rparr>)
              else if itype n = ipv6
              then let j = nat (num div 8); jj = nat (num mod 8);
                       m = write_front (replicate j 255) (mask n)
                   in (ret_ok, n\<lparr>mask := m[j := mask_byte jj 0 128]\<rparr>)
              else if num = 0 then (ret_ok, n\<lparr>mask := write_front [0, 0, 0, 0] (mask n)\<rparr>)
              else (ret_ok, n\<lparr>mask := write_front (htonl_bytes (push_bit (32 - nat num) (- 1))) (mask n)\<rparr>))"

subsection \<open>Adding rules\<close>

definition cherokee_access_add_ip :: "ac_h \<Rightarrow> string \<Rightarrow> access_t \<Rightarrow> ret_t \<times> access_t" where
  "cherokee_access_add_ip H str entry =
     (case new_ip entry of
        (None, entry) \<Rightarrow> (ret_error, entry)
      | (Some n, entry) \<Rightarrow>
          let (ret, n) = parse_ip H str n
          in if ret \<noteq> ret_ok then (ret, entry) else (ret, entry\<lparr>list_ips := ip_list_add H n (list_ips entry)\<rparr>))"

fun add_addresses :: "ac_h \<Rightarrow> nat list \<Rightarrow> access_t \<Rightarrow> ret_t \<times> access_t" where
  "add_addresses H [] entry = (ret_ok, entry)"
| "add_addresses H (addr # rest) entry =
     (let (ret, str) = cherokee_ntop H addr
      in if ret \<noteq> ret_ok then (ret, entry)
         else let (ret, entry) = cherokee_access_add_ip H str entry
              in if ret \<noteq> ret_ok then (ret, entry) else add_addresses H rest entry)"

definition cherokee_access_add_domain :: "ac_h \<Rightarrow> string \<Rightarrow> access_t \<Rightarrow> ret_t \<times> access_t" where
  "cherokee_access_add_domain H domain entry =
     (if resolv_get_default H \<noteq> ret_ok then (resolv_get_default H, entry)
      else let (ret, addrs) = resolv_get_addrinfo H domain
           in if ret \<noteq> ret_ok then (ret, entry) else add_addresses H addrs entry)"

text \<open>The item is in the list before it is parsed, and stays there when the parsing fails. An empty
  address leaves the text buffer empty, whose representation is other code; the model parses the empty text.\<close>

definition cherokee_access_add_subnet :: "ac_h \<Rightarrow> string \<Rightarrow> access_t \<Rightarrow> ret_t \<times> access_t" where
  "cherokee_access_add_subnet H subnet entry =
     (case split_slash subnet of
        None \<Rightarrow> (ret_error, entry)
      | Some (str, netmask) \<Rightarrow>
          (case new_subnet entry of
             (None, entry) \<Rightarrow> (ret_error, entry)
           | (Some n, entry) \<Rightarrow>
               let add = (\<lambda>n. entry\<lparr>list_subnets := subnet_list_add H n (list_subnets entry)\<rparr>);
                   (ret, n) = parse_ip H str n
               in if ret \<noteq> ret_ok then (ret_error, add n)
                  else let (ret, n) = parse_netmask H netmask n
                       in if ret \<noteq> ret_ok then (ret_error, add n) else (ret_ok, add n)))"

definition is_letter :: "char \<Rightarrow> bool" where
  "is_letter c \<longleftrightarrow> (97 \<le> (of_char c :: nat) \<and> (of_char c :: nat) \<le> 122) \<or> (65 \<le> (of_char c :: nat) \<and> (of_char c :: nat) \<le> 90)"

definition cherokee_access_add :: "ac_h \<Rightarrow> string \<Rightarrow> access_t \<Rightarrow> ret_t \<times> access_t" where
  "cherokee_access_add H ip_or_subnet entry =
     (let colon = (CHR '':'' \<in> set ip_or_subnet)
      in case split_slash ip_or_subnet of
           None \<Rightarrow>
             if \<not> colon \<and> list_ex is_letter ip_or_subnet then cherokee_access_add_domain H ip_or_subnet entry
             else cherokee_access_add_ip H ip_or_subnet entry
         | Some (str, netmask) \<Rightarrow>
             (case cherokee_atoi H netmask of
                None \<Rightarrow> (ret_error, entry)
              | Some m \<Rightarrow>
                  if colon \<and> m = 128 then cherokee_access_add_ip H str entry
                  else if CHR ''.'' \<in> set ip_or_subnet \<and> m = 32 then cherokee_access_add_ip H str entry
                  else cherokee_access_add_subnet H ip_or_subnet entry))"

subsection \<open>Matching\<close>

definition ip_hit :: "sock_t \<Rightarrow> ip_item \<Rightarrow> bool" where
  "ip_hit sock n \<longleftrightarrow>
     SOCKET_AF sock = Some ipv6 \<and> itype n = ipv4 \<and> IN6_IS_ADDR_V4MAPPED (sin6_addr sock) \<and>
       mem_read 12 4 (sin6_addr sock) = take 4 (ip n) \<or>
     SOCKET_AF sock = Some (itype n) \<and>
       (case itype n of ipv4 \<Rightarrow> take 4 (sin_addr sock) = take 4 (ip n) | ipv6 \<Rightarrow> sin6_addr sock = ip n)"

definition masked_eq4 :: "byte list \<Rightarrow> byte list \<Rightarrow> byte list \<Rightarrow> bool" where
  "masked_eq4 m a b \<longleftrightarrow> map2 (AND) (take 4 a) (take 4 m) = map2 (AND) (take 4 b) (take 4 m)"

definition subnet_hit :: "sock_t \<Rightarrow> subnet_item \<Rightarrow> bool" where
  "subnet_hit sock n \<longleftrightarrow>
     SOCKET_AF sock = Some ipv6 \<and> itype n = ipv4 \<and> IN6_IS_ADDR_V4MAPPED (sin6_addr sock) \<and>
       masked_eq4 (mask n) (mem_read 12 4 (sin6_addr sock)) (ip n) \<or>
     SOCKET_AF sock = Some (itype n) \<and>
       (case itype n of
          ipv4 \<Rightarrow> masked_eq4 (mask n) (sin_addr sock) (ip n)
        | ipv6 \<Rightarrow> list_all (\<lambda>j. ip n ! j AND mask n ! j = sin6_addr sock ! j AND mask n ! j) [0..<16])"

fun match_subnets :: "subnet_item list \<Rightarrow> sock_t \<Rightarrow> ret_t" where
  "match_subnets [] sock = ret_not_found"
| "match_subnets (n # ns) sock = (if subnet_hit sock n then ret_ok else match_subnets ns sock)"

fun match_ips :: "ip_item list \<Rightarrow> subnet_item list \<Rightarrow> sock_t \<Rightarrow> ret_t" where
  "match_ips [] ss sock = match_subnets ss sock"
| "match_ips (n # ns) ss sock = (if ip_hit sock n then ret_ok else match_ips ns ss sock)"

definition cherokee_access_ip_match :: "access_t \<Rightarrow> sock_t \<Rightarrow> ret_t" where
  "cherokee_access_ip_match entry sock = match_ips (list_ips entry) (list_subnets entry) sock"

subsection \<open>Printing\<close>

definition print_ip :: "ac_h \<Rightarrow> ip_type \<Rightarrow> byte list \<Rightarrow> string" where
  "print_ip H t a = inet_ntop H t a"

definition cherokee_access_print_debug :: "ac_h \<Rightarrow> access_t \<Rightarrow> string" where
  "cherokee_access_print_debug H entry =
     ''IPs: '' @ concat (map (\<lambda>n. print_ip H (itype n) (ip n) @ '' '') (list_ips entry)) @ [CHR 0x0A] @
     ''Subnets: '' @ concat (map (\<lambda>n. print_ip H (itype n) (ip n) @ ''/'' @ print_ip H (itype n) (mask n) @ '' '') (list_subnets entry)) @
     [CHR 0x0A]"

end
