(* ===== verification/IP_Bits.thy ===== *)
theory IP_Bits
  imports Prelude
begin

unbundle bit_operations_syntax

text \<open>
  Addresses as sequences of bits, the most significant bit of the first byte first. Both web servers,
  \<open>cherokee/access.c\<close> and \<open>lighttpd/condition.c\<close>, compare addresses under masks; the lemmas turn such a
  comparison into the agreement of the first bits.
\<close>

subsection \<open>Bits of an address\<close>

definition addr_bit :: "byte list \<Rightarrow> nat \<Rightarrow> bool" where
  "addr_bit a i = bit (a ! (i div 8)) (7 - i mod 8)"

definition prefix_eq :: "nat \<Rightarrow> byte list \<Rightarrow> byte list \<Rightarrow> bool" where
  "prefix_eq n a b \<longleftrightarrow> (\<forall>i<n. addr_bit a i = addr_bit b i)"

lemma byte_masked_eq:
  fixes x y m :: byte
  shows "x AND m = y AND m \<longleftrightarrow> (\<forall>k<8. bit m k \<longrightarrow> bit x k = bit y k)"
proof
  assume eq: "x AND m = y AND m"
  have "bit x k = bit y k" if "bit m k" for k
    using arg_cong [OF eq, of "\<lambda>w. bit w k"] that by (simp add: bit_and_iff)
  then show "\<forall>k<8. bit m k \<longrightarrow> bit x k = bit y k" by simp
next
  assume "\<forall>k<8. bit m k \<longrightarrow> bit x k = bit y k"
  then show "x AND m = y AND m" by (intro bit_word_eqI) (auto simp: bit_and_iff)
qed

lemma byte_bits_forward: "(\<forall>k<8. P k) \<longleftrightarrow> (\<forall>k<8. P (7 - k))" for P :: "nat \<Rightarrow> bool"
proof
  assume r: "\<forall>k<8. P (7 - k)"
  show "\<forall>k<8. P k"
  proof (intro allI impI)
    fix k :: nat
    assume "k < 8"
    then have "P (7 - (7 - k))" using r [rule_format, of "7 - k"] by simp
    then show "P k" using \<open>k < 8\<close> by simp
  qed
qed simp

lemma all_bits_of_bytes: "(\<forall>j<n. \<forall>k<8. P (8 * j + k)) \<longleftrightarrow> (\<forall>i<8 * n. P i)" for n :: nat
proof
  assume l: "\<forall>j<n. \<forall>k<8. P (8 * j + k)"
  show "\<forall>i<8 * n. P i"
  proof (intro allI impI)
    fix i
    assume "i < 8 * n"
    then have "i div 8 < n" by (simp add: less_mult_imp_div_less mult.commute)
    then show "P i" using l [rule_format, of "i div 8" "i mod 8"] by simp
  qed
qed simp

text \<open>Comparing under a mask is comparing the bits the mask has.\<close>

lemma masked_eq_bits:
  "(\<forall>j<n. a ! j AND m ! j = b ! j AND m ! j) \<longleftrightarrow> (\<forall>i<8 * n. addr_bit m i \<longrightarrow> addr_bit a i = addr_bit b i)"
proof -
  have "(a ! j AND m ! j = b ! j AND m ! j) \<longleftrightarrow>
      (\<forall>k<8. addr_bit m (8 * j + k) \<longrightarrow> addr_bit a (8 * j + k) = addr_bit b (8 * j + k))" for j
    unfolding byte_masked_eq
    by (subst byte_bits_forward) (simp add: addr_bit_def)
  then show ?thesis by (simp add: all_bits_of_bytes [of n "\<lambda>i. addr_bit m i \<longrightarrow> addr_bit a i = addr_bit b i", symmetric])
qed

lemma masked_eq_prefix:
  assumes "n \<le> 8 * l" and "\<And>i. i < 8 * l \<Longrightarrow> addr_bit m i = (i < n)"
  shows "(\<forall>j<l. a ! j AND m ! j = b ! j AND m ! j) \<longleftrightarrow> prefix_eq n a b"
  unfolding masked_eq_bits prefix_eq_def using assms by (meson order.strict_trans2)

lemma prefix_eq_full:
  assumes "length a = l" and "length b = l"
  shows "prefix_eq (8 * l) a b \<longleftrightarrow> a = b"
proof -
  have full: "addr_bit (replicate l (- 1)) i" if "i < 8 * l" for i
    using that by (simp add: addr_bit_def less_mult_imp_div_less mult.commute)
  have "prefix_eq (8 * l) a b \<longleftrightarrow>
      (\<forall>j<l. a ! j AND replicate l (- 1) ! j = b ! j AND replicate l (- 1) ! j)"
    using masked_eq_prefix [of "8 * l" l "replicate l (- 1)" a b] full by simp
  also have "\<dots> \<longleftrightarrow> (\<forall>j<l. a ! j = b ! j)" by simp
  also have "\<dots> \<longleftrightarrow> a = b" using assms by (simp add: list_eq_iff_nth_eq)
  finally show ?thesis .
qed

lemma prefix_eq_comm: "prefix_eq n a b = prefix_eq n b a"
  by (auto simp: prefix_eq_def)

end
