(* ===== verification/Cherokee_Match.thy ===== *)
theory Cherokee_Match
  imports Cherokee_Access IP_Bits
begin

unbundle bit_operations_syntax

text \<open>
  What the access lists of \<^theory_text>\<open>Cherokee_Access\<close> decide: after a rule \<open>address/n\<close> has been added, the sockets
  admitted in addition are exactly those whose address agrees with the rule's in the first \<open>n\<close> bits. The
  specification speaks of the bits of an address from the most significant one on; masks do not occur in it.
\<close>

subsection \<open>What a socket shows\<close>

text \<open>The bytes of an address family, and the address a socket shows in that family.\<close>

definition addr_len :: "ip_type \<Rightarrow> nat" where
  "addr_len t = (case t of ipv4 \<Rightarrow> 4 | ipv6 \<Rightarrow> 16)"

definition client :: "ip_type \<Rightarrow> sock_t \<Rightarrow> byte list option" where
  "client t sock =
     (case (t, SOCKET_AF sock) of
        (ipv4, Some ipv4) \<Rightarrow> Some (sin_addr sock)
      | (ipv4, Some ipv6) \<Rightarrow> if IN6_IS_ADDR_V4MAPPED (sin6_addr sock) then Some (mem_read 12 4 (sin6_addr sock)) else None
      | (ipv6, Some ipv6) \<Rightarrow> Some (sin6_addr sock)
      | _ \<Rightarrow> None)"

definition wf_sock :: "sock_t \<Rightarrow> bool" where
  "wf_sock sock \<longleftrightarrow> length (sin_addr sock) = 4 \<and> length (sin6_addr sock) = 16"

definition in_net :: "ip_type \<Rightarrow> nat \<Rightarrow> byte list \<Rightarrow> sock_t \<Rightarrow> bool" where
  "in_net t n bs sock \<longleftrightarrow> (case client t sock of None \<Rightarrow> False | Some c \<Rightarrow> prefix_eq n c bs)"

definition admits :: "access_t \<Rightarrow> sock_t \<Rightarrow> bool" where
  "admits entry sock \<longleftrightarrow> cherokee_access_ip_match entry sock = ret_ok"

lemma prefix_eq_write_front:
  assumes "n \<le> 8 * length bs"
  shows "prefix_eq n a (write_front bs z) = prefix_eq n a bs"
proof -
  have "i div 8 < length bs" if "i < n" for i using that assms by linarith
  then show ?thesis by (simp add: prefix_eq_def addr_bit_def write_front_def mem_write_def nth_append)
qed

subsection \<open>The masks\<close>

lemma less4_cases: "j < (4::nat) \<longleftrightarrow> j = 0 \<or> j = 1 \<or> j = 2 \<or> j = 3"
  by linarith

lemma htonl_bits: "i < 32 \<Longrightarrow> addr_bit (htonl_bytes w) i = bit w (31 - i)"
proof -
  assume i: "i < 32"
  then have "i div 8 < 4" by simp
  then have split: "i div 8 = 0 \<or> i div 8 = 1 \<or> i div 8 = 2 \<or> i div 8 = 3" by (simp only: less4_cases)
  have i_eq: "i = 8 * (i div 8) + i mod 8" by simp
  have r: "i mod 8 < 8" "7 - i mod 8 < 8" by simp_all
  show ?thesis
    using split
  proof (elim disjE)
    assume d: "i div 8 = 0"
    then have "24 + (7 - i mod 8) = 31 - i" using i_eq r(1) by linarith
    then show ?thesis using r(2) by (simp add: addr_bit_def htonl_bytes_def d bit_ucast_iff bit_drop_bit_eq del: diff_less)
  next
    assume d: "i div 8 = 1"
    then have "16 + (7 - i mod 8) = 31 - i" using i_eq r(1) by linarith
    then show ?thesis using r(2) by (simp add: addr_bit_def htonl_bytes_def d bit_ucast_iff bit_drop_bit_eq del: diff_less)
  next
    assume d: "i div 8 = 2"
    then have "8 + (7 - i mod 8) = 31 - i" using i_eq r(1) by linarith
    then show ?thesis using r(2) by (simp add: addr_bit_def htonl_bytes_def d bit_ucast_iff bit_drop_bit_eq del: diff_less)
  next
    assume d: "i div 8 = 3"
    then have "7 - i mod 8 = 31 - i" using i_eq r(1) by linarith
    then show ?thesis using r(2) by (simp add: addr_bit_def htonl_bytes_def d bit_ucast_iff del: diff_less)
  qed
qed

lemma v4_mask_bits:
  assumes "0 < n" and "n \<le> 32" and "i < 32"
  shows "addr_bit (htonl_bytes (push_bit (32 - n) (- 1))) i = (i < n)"
  using assms by (auto simp: htonl_bits bit_not_iff bit_mask_iff)

lemma mask_byte_table:
  "list_all (\<lambda>jj. list_all (\<lambda>k. bit (mask_byte jj 0 128) (7 - k) = (k < jj)) [0..<8]) [0..<8]"
  by code_simp

lemma mask_byte_bits: "jj < 8 \<Longrightarrow> k < 8 \<Longrightarrow> bit (mask_byte jj 0 128) (7 - k) = (k < jj)"
  using mask_byte_table by (simp add: list_all_iff)

lemma full_byte_table: "list_all (\<lambda>k. bit (255 :: byte) (7 - k)) [0..<8]"
  by code_simp

lemma ones_front_nth:
  assumes "j < 16" and "k < 16"
  shows "write_front (replicate j 255) zero_ip ! k = (if k < j then 255 else 0)"
proof (cases "k < j")
  case False
  then have "drop j zero_ip ! (k - j) = 0" using assms by (simp add: zero_ip_def)
  with False show ?thesis by (simp add: write_front_def mem_write_def nth_append)
qed (simp add: write_front_def mem_write_def nth_append)

lemma length_ones_front: "j < 16 \<Longrightarrow> length (write_front (replicate j 255) zero_ip) = 16"
  by (simp add: write_front_def mem_write_def zero_ip_def)

lemma v6_mask_bits:
  assumes n: "n < 128" and i: "i < 128"
  shows "addr_bit ((write_front (replicate (n div 8) 255) zero_ip)[n div 8 := mask_byte (n mod 8) 0 128]) i = (i < n)"
proof -
  let ?j = "n div 8" and ?m = "(write_front (replicate (n div 8) 255) zero_ip)[n div 8 := mask_byte (n mod 8) 0 128]"
  have j: "?j < 16" and i8: "i div 8 < 16" using n i by simp_all
  have byte: "?m ! (i div 8) =
      (if i div 8 < ?j then 255 else if i div 8 = ?j then mask_byte (n mod 8) 0 128 else 0)"
    using j i8 ones_front_nth [of ?j "i div 8"] by (simp add: nth_list_update length_ones_front)
  have ones: "bit (255 :: byte) (7 - i mod 8)" using full_byte_table by (simp add: list_all_iff)
  consider "i div 8 < ?j" | "i div 8 = ?j" | "?j < i div 8" by linarith
  then show ?thesis
  proof cases
    case 1
    then have "i < n" by linarith
    with 1 show ?thesis using ones by (simp add: addr_bit_def byte)
  next
    case 2
    then have "i < n \<longleftrightarrow> i mod 8 < n mod 8" by (metis add_less_cancel_left mult_div_mod_eq)
    moreover have "?m ! (i div 8) = mask_byte (n mod 8) 0 128" using 2 byte by simp
    ultimately show ?thesis by (simp only: addr_bit_def mask_byte_bits mod_less_divisor zero_less_numeral)
  next
    case 3
    then have "\<not> i < n" by linarith
    with 3 show ?thesis by (simp add: addr_bit_def byte)
  qed
qed

subsection \<open>Hits\<close>

lemma match_ok_iff [simp]: "match_subnets ss sock = ret_ok \<longleftrightarrow> (\<exists>n\<in>set ss. subnet_hit sock n)"
  by (induction ss) auto

lemma admits_iff:
  "admits entry sock \<longleftrightarrow> (\<exists>n\<in>set (list_ips entry). ip_hit sock n) \<or> (\<exists>n\<in>set (list_subnets entry). subnet_hit sock n)"
proof -
  have "match_ips is ss sock = ret_ok \<longleftrightarrow> (\<exists>n\<in>set is. ip_hit sock n) \<or> (\<exists>n\<in>set ss. subnet_hit sock n)" for "is" ss
    by (induction "is") auto
  then show ?thesis by (simp add: admits_def cherokee_access_ip_match_def)
qed

lemma masked_eq4_nth:
  assumes "4 \<le> length m" and "4 \<le> length a" and "4 \<le> length b"
  shows "masked_eq4 m a b \<longleftrightarrow> (\<forall>j<4. a ! j AND m ! j = b ! j AND m ! j)"
  using assms by (simp add: masked_eq4_def list_eq_iff_nth_eq)

lemma length_client: "wf_sock sock \<Longrightarrow> client t sock = Some c \<Longrightarrow> length c = addr_len t"
  by (auto simp: wf_sock_def client_def addr_len_def split: ip_type.splits option.splits if_splits)

text \<open>A hit is a condition on the address the socket shows in the item's family.\<close>

lemma front_v4: "length bs = 4 \<Longrightarrow> take 4 (write_front bs z) = bs"
  by (simp add: write_front_def mem_write_def)

lemma front_v6: "length bs = 16 \<Longrightarrow> write_front bs zero_ip = bs"
  by (simp add: write_front_def mem_write_def zero_ip_def)

lemma length_front: "length bs = addr_len t \<Longrightarrow> length (write_front bs zero_ip) = 16"
  by (cases t) (simp_all add: write_front_def mem_write_def zero_ip_def addr_len_def)

lemma ip_hit_iff:
  assumes "wf_sock sock" and "itype n = t" and "ip n = write_front bs zero_ip" and "length bs = addr_len t"
  shows "ip_hit sock n \<longleftrightarrow> in_net t (8 * addr_len t) bs sock"
proof -
  have full: "in_net t (8 * addr_len t) bs sock \<longleftrightarrow> client t sock = Some bs"
    using prefix_eq_full [OF length_client [OF assms(1)] assms(4)] by (auto simp: in_net_def split: option.splits)
  show ?thesis
  proof (cases t)
    case ipv4
    then show ?thesis unfolding full using assms
      by (auto simp: ip_hit_def client_def addr_len_def wf_sock_def front_v4 split: option.splits ip_type.splits)
  next
    case ipv6
    then show ?thesis unfolding full using assms
      by (auto simp: ip_hit_def client_def addr_len_def front_v6 split: option.splits ip_type.splits)
  qed
qed

lemma subnet_hit_iff:
  assumes sock: "wf_sock sock" and t: "itype n = t" and ip: "ip n = write_front bs zero_ip"
    and bs: "length bs = addr_len t" and len: "length (mask n) = 16" and k: "k \<le> 8 * addr_len t"
    and bits: "\<And>i. i < 8 * addr_len t \<Longrightarrow> addr_bit (mask n) i = (i < k)"
  shows "subnet_hit sock n \<longleftrightarrow> in_net t k bs sock"
proof -
  have eq: "(\<forall>j<addr_len t. c ! j AND mask n ! j = ip n ! j AND mask n ! j) \<longleftrightarrow> prefix_eq k c bs" for c
    using masked_eq_prefix [OF k bits] k bs by (simp add: ip prefix_eq_write_front)
  have ip16: "length (ip n) = 16" using length_front [OF bs] by (simp add: ip)
  show ?thesis
  proof (cases t)
    case ipv4
    have "masked_eq4 (mask n) c (ip n) \<longleftrightarrow> prefix_eq k c bs" if "length c = 4" for c
      using eq [of c] that by (simp add: masked_eq4_nth len ip16 ipv4 addr_len_def)
    then show ?thesis using t sock ipv4
      by (auto simp: subnet_hit_def in_net_def client_def wf_sock_def split: option.splits ip_type.splits)
  next
    case ipv6
    have "list_all (\<lambda>j. ip n ! j AND mask n ! j = c ! j AND mask n ! j) [0..<16] \<longleftrightarrow> prefix_eq k c bs" for c
      using eq [of c] by (auto simp: list_all_iff ipv6 addr_len_def)
    then show ?thesis using t ipv6
      by (auto simp: subnet_hit_def in_net_def client_def split: option.splits ip_type.splits)
  qed
qed

subsection \<open>Rules\<close>

text \<open>
  \<open>addr_text H t a bs\<close>: the text \<open>a\<close> denotes the address \<open>bs\<close> of family \<open>t\<close> (an IPv6 address that is not a
  mapped IPv4 one), as \<open>inet_pton\<close> reads it.
\<close>

definition addr_text :: "ac_h \<Rightarrow> ip_type \<Rightarrow> string \<Rightarrow> byte list \<Rightarrow> bool" where
  "addr_text H t a bs \<longleftrightarrow>
     inet_pton H t a = Some bs \<and> length bs = addr_len t \<and>
     (case t of ipv4 \<Rightarrow> CHR '':'' \<notin> set a \<and> length a \<le> 15 | ipv6 \<Rightarrow> CHR '':'' \<in> set a \<and> \<not> IN6_IS_ADDR_V4MAPPED bs)"

text \<open>What the list code promises: the new element and the old ones, wherever it puts it.\<close>

definition lists_insert :: "ac_h \<Rightarrow> bool" where
  "lists_insert H \<longleftrightarrow>
     (\<forall>x xs. set (ip_list_add H x xs) = insert x (set xs)) \<and> (\<forall>x xs. set (subnet_list_add H x xs) = insert x (set xs))"

lemma parse_ip_ok:
  assumes "addr_text H t a bs" and "ip n = zero_ip"
  shows "parse_ip H a n = (ret_ok, n\<lparr>itype := t, ip := write_front bs zero_ip\<rparr>)"
proof (cases t)
  case ipv4
  then show ?thesis using assms by (auto simp: parse_ip_def addr_text_def)
next
  case ipv6
  then show ?thesis using assms front_v6 [of bs] by (auto simp: parse_ip_def addr_text_def addr_len_def)
qed

lemma access_add_ip_ok:
  assumes "addr_text H t a bs" and "lists_insert H" and "mallocs entry = []"
  obtains entry' where "cherokee_access_add_ip H a entry = (ret_ok, entry')" and "mallocs entry' = []"
    and "\<And>sock. wf_sock sock \<Longrightarrow> admits entry' sock = (admits entry sock \<or> in_net t (8 * addr_len t) bs sock)"
proof -
  let ?n = "\<lparr>itype = t, ip = write_front bs zero_ip\<rparr>"
  let ?e = "entry\<lparr>list_ips := ip_list_add H ?n (list_ips entry)\<rparr>"
  have add: "cherokee_access_add_ip H a entry = (ret_ok, ?e)"
    using assms by (simp add: cherokee_access_add_ip_def new_ip_def malloc_def parse_ip_ok)
  have hit: "ip_hit sock ?n = in_net t (8 * addr_len t) bs sock" if "wf_sock sock" for sock
    by (rule ip_hit_iff) (use assms(1) that in \<open>simp_all add: addr_text_def\<close>)
  have adm: "admits ?e sock = (admits entry sock \<or> in_net t (8 * addr_len t) bs sock)" if "wf_sock sock" for sock
    using assms(2) hit [OF that] by (auto simp: admits_iff lists_insert_def)
  show thesis by (rule that [OF add _ adm]) (simp_all add: assms(3))
qed

lemma digit_neq:
  assumes "list_all isdigit m" and "c \<in> {CHR '':'', CHR ''.'', CHR ''/'', CHR ''-'', CHR ''+''}"
  shows "c \<notin> set m"
proof
  assume "c \<in> set m"
  then have "isdigit c" using assms(1) by (simp add: list_all_iff)
  then show False using assms(2) by (elim insertE emptyE) (simp_all add: isdigit_def)
qed

lemma strtol10_digits:
  assumes "list_all isdigit m"
  shows "strtol10 m = digits_value m"
proof (cases m)
  case (Cons c cs)
  have "\<not> isspace c" using assms Cons by (auto simp: isdigit_def isspace_def)
  moreover have "c \<noteq> CHR ''-''" "c \<noteq> CHR ''+''" using digit_neq [OF assms] Cons by auto
  moreover have "takeWhile isdigit m = m" using assms by (simp add: list_all_iff takeWhile_eq_all_conv)
  ultimately show ?thesis using Cons by (simp add: strtol10_def)
qed (simp add: strtol10_def)

lemma split_slash_append:
  assumes "CHR ''/'' \<notin> set a" and "CHR 0x5C \<notin> set a"
  shows "split_slash (a @ CHR ''/'' # m) = Some (a, m)"
proof -
  have "takeWhile (\<lambda>c. c \<noteq> CHR ''/'' \<and> c \<noteq> CHR 0x5C) (a @ CHR ''/'' # m) = a"
    using assms by (subst takeWhile_append2) auto
  then show ?thesis by (simp add: split_slash_def)
qed

text \<open>A length mask has exactly the leading bits it names.\<close>

lemma parse_netmask_length:
  assumes n: "itype n = t" "mask n = zero_ip" and m: "list_all isdigit m" "length m \<le> 3"
    and k: "digits_value m = int k" "k \<le> 8 * addr_len t" "k < 128"
  obtains msk where "parse_netmask H m n = (ret_ok, n\<lparr>mask := msk\<rparr>)" and "length msk = 16"
    and "\<And>i. i < 8 * addr_len t \<Longrightarrow> addr_bit msk i = (i < k)"
proof -
  have plain: "CHR '':'' \<notin> set m" "CHR ''.'' \<notin> set m" using digit_neq [OF m(1)] by simp_all
  have parse: "parse_netmask H m n =
      (if t = ipv6 then (ret_ok, n\<lparr>mask := (write_front (replicate (k div 8) 255) zero_ip)[k div 8 := mask_byte (k mod 8) 0 128]\<rparr>)
       else if k = 0 then (ret_ok, n\<lparr>mask := write_front [0, 0, 0, 0] zero_ip\<rparr>)
       else (ret_ok, n\<lparr>mask := write_front (htonl_bytes (push_bit (32 - k) (- 1))) zero_ip\<rparr>))"
    using n m(2) k plain
    by (cases t) (simp_all add: parse_netmask_def strtol10_digits [OF m(1)] addr_len_def Let_def nat_div_distrib nat_mod_distrib)
  consider "t = ipv6" | "t = ipv4" "k = 0" | "t = ipv4" "0 < k" by (cases t) auto
  then show thesis
  proof cases
    case 1
    let ?m6 = "(write_front (replicate (k div 8) 255) zero_ip)[k div 8 := mask_byte (k mod 8) 0 128]"
    show thesis
    proof (rule that [of ?m6])
      show "parse_netmask H m n = (ret_ok, n\<lparr>mask := ?m6\<rparr>)" using parse 1 by simp
      show "length ?m6 = 16" using k(3) by (simp add: length_ones_front)
      show "addr_bit ?m6 i = (i < k)" if "i < 8 * addr_len t" for i
        by (rule v6_mask_bits) (use that k(3) 1 in \<open>simp_all add: addr_len_def\<close>)
    qed
  next
    case 2
    have "addr_bit (write_front [0, 0, 0, 0] zero_ip) i = (i < k)" if "i < 8 * addr_len t" for i
    proof -
      have "write_front [0, 0, 0, 0] zero_ip = zero_ip"
        by (simp add: write_front_def mem_write_def zero_ip_def numeral_eq_Suc)
      moreover have "i div 8 < 16" using that 2 by (simp add: addr_len_def)
      ultimately show ?thesis using 2 by (simp add: addr_bit_def zero_ip_def)
    qed
    then show thesis using parse 2 by (intro that) (auto simp: write_front_def mem_write_def zero_ip_def)
  next
    case 3
    have "addr_bit (write_front (htonl_bytes w) zero_ip) i = addr_bit (htonl_bytes w) i" if "i < 32" for w i
    proof -
      have "i div 8 < length (htonl_bytes w)" using that by (simp add: htonl_bytes_def)
      then show ?thesis by (simp add: addr_bit_def write_front_def mem_write_def nth_append)
    qed
    then have "addr_bit (write_front (htonl_bytes (push_bit (32 - k) (- 1))) zero_ip) i = (i < k)" if "i < 8 * addr_len t" for i
      using that 3 k(2) v4_mask_bits [of k i] by (simp add: addr_len_def)
    then show thesis using parse 3 by (intro that) (auto simp: htonl_bytes_def write_front_def mem_write_def zero_ip_def)
  qed
qed

lemma access_add_subnet_ok:
  assumes a: "addr_text H t a bs" "CHR ''/'' \<notin> set a" "CHR 0x5C \<notin> set a" and H: "lists_insert H" "mallocs entry = []"
    and m: "list_all isdigit m" "length m \<le> 3" and k: "digits_value m = int k" "k \<le> 8 * addr_len t" "k < 128"
  obtains entry' where "cherokee_access_add_subnet H (a @ CHR ''/'' # m) entry = (ret_ok, entry')"
    and "\<And>sock. wf_sock sock \<Longrightarrow> admits entry' sock = (admits entry sock \<or> in_net t k bs sock)"
proof -
  let ?n = "\<lparr>itype = t, ip = write_front bs zero_ip, mask = zero_ip\<rparr>"
  obtain msk where parse: "parse_netmask H m ?n = (ret_ok, ?n\<lparr>mask := msk\<rparr>)" and len: "length msk = 16"
    and bits: "\<And>i. i < 8 * addr_len t \<Longrightarrow> addr_bit msk i = (i < k)"
    by (rule parse_netmask_length [of ?n t m k H]) (use m k in simp_all)
  let ?e = "entry\<lparr>list_subnets := subnet_list_add H (?n\<lparr>mask := msk\<rparr>) (list_subnets entry)\<rparr>"
  have add: "cherokee_access_add_subnet H (a @ CHR ''/'' # m) entry = (ret_ok, ?e)"
    using H parse parse_ip_ok [OF a(1), of "\<lparr>itype = ipv4, ip = zero_ip, mask = zero_ip\<rparr>"]
    by (simp add: cherokee_access_add_subnet_def split_slash_append [OF a(2,3)] new_subnet_def malloc_def)
  have hit: "subnet_hit sock (?n\<lparr>mask := msk\<rparr>) = in_net t k bs sock" if "wf_sock sock" for sock
    by (rule subnet_hit_iff) (use a(1) that len bits k(2) in \<open>simp_all add: addr_text_def\<close>)
  have "admits ?e sock = (admits entry sock \<or> in_net t k bs sock)" if "wf_sock sock" for sock
    using H(1) hit [OF that] by (auto simp: admits_iff lists_insert_def)
  with add show thesis by (rule that)
qed

text \<open>
  A rule \<open>address/k\<close>. A rule whose text contains a dot and whose \<open>k\<close> is 32 is taken for a single address, also
  where the dotted part is the end of an IPv6 address: then all 128 bits are compared.
\<close>

definition effective_bits :: "ip_type \<Rightarrow> string \<Rightarrow> nat \<Rightarrow> nat" where
  "effective_bits t a k = (if t = ipv6 \<and> CHR ''.'' \<in> set a \<and> k = 32 then 128 else k)"

lemma access_add_rule_spec:
  assumes a: "addr_text H t a bs" "CHR ''/'' \<notin> set a" "CHR 0x5C \<notin> set a" and H: "lists_insert H" "mallocs entry = []"
    and m: "list_all isdigit m" "length m \<le> 3" "cherokee_atoi H m = Some (int k)"
    and k: "digits_value m = int k" "k \<le> 8 * addr_len t"
  shows "\<exists>entry'. cherokee_access_add H (a @ CHR ''/'' # m) entry = (ret_ok, entry') \<and>
    (\<forall>sock. wf_sock sock \<longrightarrow> admits entry' sock = (admits entry sock \<or> in_net t (effective_bits t a k) bs sock))"
proof -
  let ?s = "a @ CHR ''/'' # m"
  have colon: "CHR '':'' \<in> set ?s \<longleftrightarrow> t = ipv6"
    using a(1) digit_neq [OF m(1), of "CHR '':''"] by (cases t) (auto simp: addr_text_def)
  have point: "CHR ''.'' \<in> set ?s \<longleftrightarrow> CHR ''.'' \<in> set a" using digit_neq [OF m(1), of "CHR ''.''"] by simp
  have dispatch: "cherokee_access_add H ?s entry =
      (if t = ipv6 \<and> k = 128 \<or> CHR ''.'' \<in> set a \<and> k = 32 then cherokee_access_add_ip H a entry
       else cherokee_access_add_subnet H ?s entry)"
    by (simp add: cherokee_access_add_def colon [simplified] point [simplified] split_slash_append [OF a(2,3)] m(3))
  show ?thesis
  proof (cases "t = ipv6 \<and> k = 128 \<or> CHR ''.'' \<in> set a \<and> k = 32")
    case True
    then have "effective_bits t a k = 8 * addr_len t" using k(2) by (cases t) (auto simp: addr_len_def effective_bits_def)
    then show ?thesis using True dispatch access_add_ip_ok [OF a(1) H] by metis
  next
    case False
    then have "k < 128" "effective_bits t a k = k" using k(2) by (cases t; auto simp: addr_len_def effective_bits_def)+
    then show ?thesis using False dispatch access_add_subnet_ok [OF a H m(1,2) k] by metis
  qed
qed

lemma zero_mask_admits:
  assumes sock: "wf_sock sock" "client t sock \<noteq> None" and bs: "length bs = addr_len t"
  shows "subnet_hit sock \<lparr>itype = t, ip = write_front bs zero_ip, mask = zero_ip\<rparr>"
proof -
  have "subnet_hit sock \<lparr>itype = t, ip = write_front bs zero_ip, mask = zero_ip\<rparr> \<longleftrightarrow> in_net t 0 bs sock"
  proof (rule subnet_hit_iff [OF sock(1)])
    show "addr_bit (mask \<lparr>itype = t, ip = write_front bs zero_ip, mask = zero_ip\<rparr>) i = (i < 0)"
      if "i < 8 * addr_len t" for i
    proof -
      have "i div 8 < 16" using that by (cases t) (simp_all add: addr_len_def)
      then show ?thesis by (simp add: addr_bit_def zero_ip_def)
    qed
  qed (use bs in \<open>simp_all add: zero_ip_def\<close>)
  then show ?thesis using sock(2) by (auto simp: in_net_def prefix_eq_def)
qed

text \<open>The addresses of a domain are added one by one.\<close>

lemma add_addresses_ok:
  assumes "lists_insert H" and "mallocs entry = []"
    and "\<forall>x\<in>set addrs. cherokee_ntop H x = (ret_ok, nm x) \<and> addr_text H (fam x) (nm x) (val x)"
  shows "\<exists>entry'. add_addresses H addrs entry = (ret_ok, entry') \<and>
    (\<forall>sock. wf_sock sock \<longrightarrow> admits entry' sock =
       (admits entry sock \<or> (\<exists>x\<in>set addrs. in_net (fam x) (8 * addr_len (fam x)) (val x) sock)))"
  using assms(2,3)
proof (induction addrs arbitrary: entry)
  case (Cons x xs)
  then have x: "cherokee_ntop H x = (ret_ok, nm x)" "addr_text H (fam x) (nm x) (val x)" by simp_all
  obtain e1 where e1: "cherokee_access_add_ip H (nm x) entry = (ret_ok, e1)" "mallocs e1 = []"
    "\<And>sock. wf_sock sock \<Longrightarrow> admits e1 sock = (admits entry sock \<or> in_net (fam x) (8 * addr_len (fam x)) (val x) sock)"
    by (rule access_add_ip_ok [OF x(2) assms(1) Cons.prems(1)]) (rule that)
  obtain e2 where e2: "add_addresses H xs e1 = (ret_ok, e2)"
    "\<And>sock. wf_sock sock \<Longrightarrow> admits e2 sock =
       (admits e1 sock \<or> (\<exists>y\<in>set xs. in_net (fam y) (8 * addr_len (fam y)) (val y) sock))"
    using Cons.IH [OF e1(2)] Cons.prems(2) by auto
  have "add_addresses H (x # xs) entry = (ret_ok, e2)" by (simp add: x(1) e1(1) e2(1))
  then show ?case using e1(3) e2(2) by auto
qed simp

subsection \<open>The theorems\<close>

text \<open>C25. A rule \<open>address/k\<close>, for IPv4 with \<open>k \<le> 32\<close> and for IPv6 with \<open>k \<le> 128\<close>, is accepted and from then on
  \<open>cherokee_access_ip_match\<close> admits, besides the sockets it admitted before, exactly those whose address in the
  family of the rule (for IPv4 also one mapped into IPv6) agrees with the address of the rule in the first \<open>k\<close>
  bits, with one exception that the statement includes: an IPv6 address written with a dotted part and \<open>k = 32\<close> is taken for
  a single address and compared in all 128 bits. This covers the byte-wise IPv6 mask, the shifted IPv4 mask and the
  rules taken as single addresses, when no allocation fails.\<close>

theorem access_rule_admits_prefix:
  assumes "addr_text H t a bs" and "CHR ''/'' \<notin> set a" and "CHR 0x5C \<notin> set a"
    and "lists_insert H" and "mallocs entry = []"
    and "list_all isdigit m" and "length m \<le> 3" and "cherokee_atoi H m = Some (int k)" and "digits_value m = int k"
    and "k \<le> 8 * addr_len t"
  shows "\<exists>entry'. cherokee_access_add H (a @ CHR ''/'' # m) entry = (ret_ok, entry') \<and>
    (\<forall>sock. wf_sock sock \<longrightarrow> admits entry' sock =
       (admits entry sock \<or> in_net t (if t = ipv6 \<and> CHR ''.'' \<in> set a \<and> k = 32 then 128 else k) bs sock))"
  using access_add_rule_spec [OF assms] unfolding effective_bits_def .

text \<open>A rule that is a domain name adds exactly the addresses the resolver gives for it: the call succeeds and
  the sockets admitted in addition are those with one of these addresses.\<close>

lemma access_domain_admits_its_addresses:
  assumes d: "list_ex is_letter d" "CHR '':'' \<notin> set d" "split_slash d = None"
    and H: "lists_insert H" "mallocs entry = []" "resolv_get_default H = ret_ok" "resolv_get_addrinfo H d = (ret_ok, addrs)"
    and addrs: "\<forall>x\<in>set addrs. cherokee_ntop H x = (ret_ok, nm x) \<and> addr_text H (fam x) (nm x) (val x)"
  shows "\<exists>entry'. cherokee_access_add H d entry = (ret_ok, entry') \<and>
    (\<forall>sock. wf_sock sock \<longrightarrow> admits entry' sock =
       (admits entry sock \<or> (\<exists>x\<in>set addrs. in_net (fam x) (8 * addr_len (fam x)) (val x) sock)))"
  using add_addresses_ok [OF H(1,2) addrs] d H(3,4) by (simp add: cherokee_access_add_def cherokee_access_add_domain_def)

text \<open>C36. An IPv4 rule whose mask length exceeds 32 is refused, but the item is in the list before its mask is
  parsed and stays there with a zero mask: from then on every socket with an IPv4 address is admitted.\<close>

theorem access_bad_mask_admits_all:
  assumes a: "addr_text H ipv4 a bs" "CHR ''/'' \<notin> set a" "CHR 0x5C \<notin> set a" and H: "lists_insert H" "mallocs entry = []"
    and m: "list_all isdigit m" "length m \<le> 3" "cherokee_atoi H m = Some k" "digits_value m = k" "k > 32"
  shows "\<exists>entry'. cherokee_access_add H (a @ CHR ''/'' # m) entry = (ret_error, entry') \<and>
    (\<forall>sock. wf_sock sock \<and> client ipv4 sock \<noteq> None \<longrightarrow> admits entry' sock)"
proof -
  let ?n = "\<lparr>itype = ipv4, ip = write_front bs zero_ip, mask = zero_ip\<rparr>"
  let ?e = "entry\<lparr>list_subnets := subnet_list_add H ?n (list_subnets entry)\<rparr>"
  have plain: "CHR '':'' \<notin> set m" "CHR ''.'' \<notin> set m" using digit_neq [OF m(1)] by simp_all
  have "CHR '':'' \<notin> set (a @ CHR ''/'' # m)" using a(1) plain by (simp add: addr_text_def)
  then have "cherokee_access_add H (a @ CHR ''/'' # m) entry = cherokee_access_add_subnet H (a @ CHR ''/'' # m) entry"
    using m(5) by (simp add: cherokee_access_add_def split_slash_append [OF a(2,3)] m(3))
  also have "parse_netmask H m ?n = (ret_error, ?n)"
    using m plain by (simp add: parse_netmask_def strtol10_digits)
  then have "cherokee_access_add_subnet H (a @ CHR ''/'' # m) entry = (ret_error, ?e)"
    using H parse_ip_ok [OF a(1), of "\<lparr>itype = ipv4, ip = zero_ip, mask = zero_ip\<rparr>"]
    by (simp add: cherokee_access_add_subnet_def split_slash_append [OF a(2,3)] new_subnet_def malloc_def)
  finally have add: "cherokee_access_add H (a @ CHR ''/'' # m) entry = (ret_error, ?e)" .
  have "subnet_hit sock ?n" if "wf_sock sock" "client ipv4 sock \<noteq> None" for sock
    using zero_mask_admits [OF that] a(1) by (simp add: addr_text_def)
  then have "admits ?e sock" if "wf_sock sock" "client ipv4 sock \<noteq> None" for sock
    using H(1) that by (auto simp: admits_iff lists_insert_def)
  with add show ?thesis by blast
qed

subsection \<open>Concrete rules\<close>

text \<open>An address reader for two addresses, lists with insertion at the front, and a resolver with one domain.\<close>

definition access_demo_h :: ac_h where
  "access_demo_h = \<lparr>
     inet_pton = (\<lambda>t s. if t = ipv4 \<and> s = ''10.1.0.0'' then Some [10, 1, 0, 0]
       else if t = ipv6 \<and> s = ''fe80::'' then Some (254 # 128 # replicate 14 0) else None),
     inet_ntop = (\<lambda>t a. []),
     cherokee_atoi = (\<lambda>s. if list_all isdigit s then Some (digits_value s) else None),
     ip_list_add = (#), subnet_list_add = (#),
     resolv_get_default = ret_ok,
     resolv_get_addrinfo = (\<lambda>d. if d = ''home'' then (ret_ok, [4, 6]) else (ret_error, [])),
     cherokee_ntop = (\<lambda>x. (ret_ok, if x = 4 then ''10.1.0.0'' else ''fe80::''))\<rparr>"

definition access_demo :: access_t where
  "access_demo = \<lparr>list_ips = [], list_subnets = [], mallocs = []\<rparr>"

lemma access_demo_sel [simp]:
  "cherokee_atoi access_demo_h s = (if list_all isdigit s then Some (digits_value s) else None)"
  "resolv_get_default access_demo_h = ret_ok" "resolv_get_addrinfo access_demo_h ''home'' = (ret_ok, [4, 6])"
  "cherokee_ntop access_demo_h x = (ret_ok, if x = 4 then ''10.1.0.0'' else ''fe80::'')" "mallocs access_demo = []"
  by (simp_all add: access_demo_h_def access_demo_def)

lemma access_demo_v6_unmapped: "\<not> IN6_IS_ADDR_V4MAPPED (254 # 128 # replicate 14 0)"
  by code_simp

lemma access_demo_texts:
  shows access_demo_v4: "addr_text access_demo_h ipv4 ''10.1.0.0'' [10, 1, 0, 0]"
    and access_demo_v6: "addr_text access_demo_h ipv6 ''fe80::'' (254 # 128 # replicate 14 0)"
    and access_demo_lists: "lists_insert access_demo_h"
  using access_demo_v6_unmapped by (simp_all add: addr_text_def access_demo_h_def addr_len_def lists_insert_def)

theorem access_rule_admits_prefix_witness:
  "\<exists>entry'. cherokee_access_add access_demo_h (''fe80::'' @ CHR ''/'' # ''10'') access_demo = (ret_ok, entry') \<and>
    (\<forall>sock. wf_sock sock \<longrightarrow> admits entry' sock =
      (admits access_demo sock \<or> in_net ipv6 10 (254 # 128 # replicate 14 0) sock))"
  using access_rule_admits_prefix [OF access_demo_v6 _ _ access_demo_lists, where m = "''10''" and k = 10 and entry = access_demo]
  by (simp add: isdigit_def digits_value_def addr_len_def)

theorem access_bad_mask_admits_all_witness:
  "\<exists>entry'. cherokee_access_add access_demo_h (''10.1.0.0'' @ CHR ''/'' # ''40'') access_demo = (ret_error, entry') \<and>
    (\<forall>sock. wf_sock sock \<and> client ipv4 sock \<noteq> None \<longrightarrow> admits entry' sock)"
  by (rule access_bad_mask_admits_all [OF access_demo_v4 _ _ access_demo_lists, where k = 40])
    (simp_all add: isdigit_def digits_value_def)

end
