(* ===== verification/Gz_Read.thy ===== *)
theory Gz_Read
  imports Prelude
begin

text \<open>
  Reading gzip files (bugs/firefox/zlib/gzread.c): the definitions.

  \<open>gz_state\<close> is the structure behind a \<open>gzFile\<close>, with the fields of its \<open>strm\<close> written beside its
  own. The buffers \<open>in\<close> and \<open>out\<close> are byte lists, pointers into them are offsets, and every access is
  checked against the length of the buffer: an access outside is the failure \<open>OutOfBounds\<close>. The buffer
  of the caller is the field \<open>user\<close>. \<open>unsigned\<close> values are natural numbers; where the code could wrap,
  the definitions take the result modulo \<open>2 ^ 32\<close> (\<open>shl1\<close>, \<open>usub\<close>).

  The descriptor is the bytes left in the file and the outcomes of the coming \<open>read\<close> calls: a call may
  deliver fewer bytes than asked for, or fail. \<open>malloc\<close> takes its outcomes from a list in the same way.
  \<open>inflate\<close>, \<open>inflateInit2\<close>, \<open>inflateReset\<close> and \<open>gz_error\<close> are not part of the repository: they
  are the fields of a record of type \<open>zlib\<close> that the operations take as an argument.

  A result has type \<open>'a run\<close>: \<open>None\<close> when the call does not return, else a failure or the value.
\<close>

subsection \<open>Codes, pointers, the descriptor\<close>

datatype z_code = Z_OK | Z_STREAM_END | Z_NEED_DICT | Z_ERRNO | Z_STREAM_ERROR | Z_DATA_ERROR
  | Z_MEM_ERROR | Z_BUF_ERROR

datatype how_t = LOOK | COPY | GZIP

datatype gz_mode = GZ_READ | GZ_WRITE

datatype ptr = Null | Out nat | User nat

datatype read_outcome = Short nat | Fails string

record fdesc =
  fd_rest :: "byte list"
  fd_outcomes :: "read_outcome list"
  fd_close_ok :: bool

definition sys_read :: "nat \<Rightarrow> fdesc \<Rightarrow> (string + byte list) \<times> fdesc" where
  "sys_read n f =
     (case fd_outcomes f of
        [] \<Rightarrow> (Inr (take n (fd_rest f)), f\<lparr>fd_rest := drop n (fd_rest f)\<rparr>)
      | Short k # os \<Rightarrow>
          (Inr (take (min n (Suc k)) (fd_rest f)),
           f\<lparr>fd_rest := drop (min n (Suc k)) (fd_rest f), fd_outcomes := os\<rparr>)
      | Fails e # os \<Rightarrow> (Inl e, f\<lparr>fd_outcomes := os\<rparr>))"

subsection \<open>The state of a file\<close>

record 'z gz_state =
  x_have :: nat
  x_next :: ptr
  x_pos :: int
  mode :: gz_mode
  fd :: fdesc
  bsize :: nat
  want :: nat
  in_buf :: "byte list"
  out_buf :: "byte list"
  direct :: bool
  how :: how_t
  eof :: bool
  past :: bool
  skip :: int
  seek :: bool
  err :: z_code
  msg :: "string option"
  next_in :: "nat option"
  avail_in :: nat
  next_out :: ptr
  avail_out :: nat
  strm_msg :: "string option"
  strm_state :: 'z
  user :: "byte list"
  mallocs :: "(nat \<Rightarrow> byte) option list"

record 'z zlib =
  inflate :: "'z \<Rightarrow> byte list \<Rightarrow> nat \<Rightarrow> z_code \<times> nat \<times> byte list \<times> string option \<times> 'z"
  inflateInit2 :: "'z \<Rightarrow> z_code \<times> 'z"
  inflateReset :: "'z \<Rightarrow> 'z"
  gz_error :: "z_code \<Rightarrow> string option \<Rightarrow> 'z gz_state \<Rightarrow> 'z gz_state"

subsection \<open>Unsigned arithmetic and memory\<close>

definition shl1 :: "nat \<Rightarrow> nat" where
  "shl1 n = (n * 2) mod 2 ^ 32"

definition usub :: "nat \<Rightarrow> nat \<Rightarrow> nat" where
  "usub a b = nat ((int a - int b) mod 2 ^ 32)"

fun ptr_add :: "ptr \<Rightarrow> nat \<Rightarrow> ptr" where
  "ptr_add (Out i) n = Out (i + n)"
| "ptr_add (User i) n = User (i + n)"
| "ptr_add Null n = Null"

fun ptr_sub :: "ptr \<Rightarrow> nat \<Rightarrow> ptr" where
  "ptr_sub (Out i) n = Out (i - n)"
| "ptr_sub (User i) n = User (i - n)"
| "ptr_sub Null n = Null"

definition buf_read :: "nat \<Rightarrow> nat \<Rightarrow> byte list \<Rightarrow> byte list cres" where
  "buf_read off n m = (if off + n \<le> length m then Inr (mem_read off n m) else Inl OutOfBounds)"

text \<open>The bytes at \<open>x.next\<close>, and storing bytes at an output pointer.\<close>

definition out_read :: "nat \<Rightarrow> 'z gz_state \<Rightarrow> byte list cres" where
  "out_read n st =
     (case x_next st of
        Null \<Rightarrow> Inl NullDeref
      | Out i \<Rightarrow> buf_read i n (out_buf st)
      | User i \<Rightarrow> Inl StaleLast)"

definition in_read :: "nat \<Rightarrow> 'z gz_state \<Rightarrow> byte list cres" where
  "in_read n st =
     (case next_in st of None \<Rightarrow> Inl NullDeref | Some i \<Rightarrow> buf_read i n (in_buf st))"

fun store_at :: "ptr \<Rightarrow> byte list \<Rightarrow> 'z gz_state \<Rightarrow> 'z gz_state cres" where
  "store_at Null bs st = (if bs = [] then Inr st else Inl NullDeref)"
| "store_at (Out i) bs st = ebind (memcpy i bs (out_buf st)) (\<lambda>m. Inr (st\<lparr>out_buf := m\<rparr>))"
| "store_at (User i) bs st = ebind (memcpy i bs (user st)) (\<lambda>m. Inr (st\<lparr>user := m\<rparr>))"

definition gz_malloc :: "nat \<Rightarrow> 'z gz_state \<Rightarrow> byte list option \<times> 'z gz_state" where
  "gz_malloc n st =
     (case mallocs st of
        [] \<Rightarrow> (Some (replicate n 0), st)
      | None # ms \<Rightarrow> (None, st\<lparr>mallocs := ms\<rparr>)
      | Some f # ms \<Rightarrow> (Some (map f [0..<n]), st\<lparr>mallocs := ms\<rparr>))"

definition err_serious :: "'z gz_state \<Rightarrow> bool" where
  "err_serious st \<longleftrightarrow> err st \<noteq> Z_OK \<and> err st \<noteq> Z_BUF_ERROR"

subsection \<open>Runs\<close>

type_synonym 'a run = "'a cres option"

definition rbind :: "'a run \<Rightarrow> ('a \<Rightarrow> 'b run) \<Rightarrow> 'b run" where
  "rbind m f = Option.bind m (\<lambda>r. case r of Inl e \<Rightarrow> Some (Inl e) | Inr x \<Rightarrow> f x)"

lemma rbind_simps [simp, res_simps]:
  "rbind None f = None"
  "rbind (Some (Inl e)) f = Some (Inl e)"
  "rbind (Some (Inr x)) f = f x"
  by (simp_all add: rbind_def)

lemma rbind_mono [partial_function_mono]:
  assumes "mono_option M" and "\<And>x. mono_option (\<lambda>h. F x h)"
  shows "mono_option (\<lambda>h. rbind (M h) (\<lambda>x. F x h))"
  unfolding rbind_def
proof (rule bind_mono [OF assms(1)])
  fix r
  show "mono_option (\<lambda>h. case r of Inl e \<Rightarrow> Some (Inl e) | Inr x \<Rightarrow> F x h)"
    using assms(2) by (cases r) (auto intro: option.const_mono)
qed

text \<open>
  A loop: \<open>body\<close> runs on the state of the loop and says whether to go round again or to leave with a
  result. A loop that is never left is \<open>None\<close>.
\<close>

abbreviation again :: "'s \<Rightarrow> ('s + 'r) run" where
  "again s \<equiv> Some (Inr (Inl s))"

abbreviation leave :: "'r \<Rightarrow> ('s + 'r) run" where
  "leave r \<equiv> Some (Inr (Inr r))"

partial_function (option) do_loop :: "('s \<Rightarrow> ('s + 'r) run) \<Rightarrow> 's \<Rightarrow> 'r run" where
  "do_loop body s = rbind (body s) (\<lambda>x. case x of Inl s' \<Rightarrow> do_loop body s' | Inr r \<Rightarrow> Some (Inr r))"

subsection \<open>Loading the buffers\<close>

text \<open>The loop of \<open>gz_load\<close>: the last result of \<open>read\<close> and the bytes loaded.\<close>

function load_loop :: "nat \<Rightarrow> byte list \<Rightarrow> fdesc \<Rightarrow> (string + nat) \<times> byte list \<times> fdesc" where
  "load_loop len got f =
     (case sys_read (len - length got) f of
        (Inl e, f') \<Rightarrow> (Inl e, got, f')
      | (Inr bs, f') \<Rightarrow>
          if bs = [] then (Inr 0, got, f')
          else if length (got @ bs) < len then load_loop len (got @ bs) f'
          else (Inr (length bs), got @ bs, f'))"
  by pat_completeness auto
termination
  by (relation "measure (\<lambda>(len, got, f). len - length got)") (auto simp flip: length_greater_0_conv)

declare load_loop.simps [simp del]

text \<open>
  \<open>put\<close> is where the caller wants the bytes: it stores them at \<open>buf\<close>, and their number at \<open>*have\<close>
  when that is a field of the state. The number is also that of the bytes returned.
\<close>

definition gz_load :: "'z zlib \<Rightarrow> (byte list \<Rightarrow> 'z gz_state \<Rightarrow> 'z gz_state cres) \<Rightarrow> nat \<Rightarrow>
    'z gz_state \<Rightarrow> (int \<times> byte list \<times> 'z gz_state) cres" where
  "gz_load L put len st =
     (case load_loop len [] (fd st) of (ret, bs, f) \<Rightarrow>
        ebind (put bs (st\<lparr>fd := f\<rparr>)) (\<lambda>st.
          case ret of
            Inl e \<Rightarrow> Inr (-1, bs, gz_error L Z_ERRNO (Some e) st)
          | Inr n \<Rightarrow> Inr (0, bs, if n = 0 then st\<lparr>eof := True\<rparr> else st)))"

fun copy_fwd :: "nat \<Rightarrow> nat \<Rightarrow> nat \<Rightarrow> byte list \<Rightarrow> byte list" where
  "copy_fwd p q 0 m = m"
| "copy_fwd p q (Suc n) m = copy_fwd (p + 1) (q + 1) n (m[p := m ! q])"

definition move_down :: "'z gz_state \<Rightarrow> 'z gz_state cres" where
  "move_down st =
     (case next_in st of
        None \<Rightarrow> Inl NullDeref
      | Some q \<Rightarrow>
          if q + avail_in st \<le> length (in_buf st)
          then Inr (st\<lparr>in_buf := copy_fwd 0 q (avail_in st) (in_buf st)\<rparr>)
          else Inl OutOfBounds)"

definition put_in :: "byte list \<Rightarrow> 'z gz_state \<Rightarrow> 'z gz_state cres" where
  "put_in bs st = ebind (memcpy (avail_in st) bs (in_buf st)) (\<lambda>m. Inr (st\<lparr>in_buf := m\<rparr>))"

definition gz_avail :: "'z zlib \<Rightarrow> 'z gz_state \<Rightarrow> (int \<times> 'z gz_state) cres" where
  "gz_avail L st =
     (if err_serious st then Inr (-1, st)
      else if \<not> eof st
      then ebind (if avail_in st \<noteq> 0 then move_down st else Inr st) (\<lambda>st.
             ebind (gz_load L put_in (usub (bsize st) (avail_in st)) st) (\<lambda>(ret, got, st).
               if ret = -1 then Inr (-1, st)
               else Inr (0, st\<lparr>avail_in := avail_in st + length got, next_in := Some 0\<rparr>)))
      else Inr (0, st))"

subsection \<open>Looking for a gzip header\<close>

definition look_alloc :: "'z zlib \<Rightarrow> 'z gz_state \<Rightarrow> int \<times> 'z gz_state" where
  "look_alloc L st =
     (case gz_malloc (want st) st of (ib, st1) \<Rightarrow>
      case gz_malloc (shl1 (want st)) st1 of (ob, st2) \<Rightarrow>
        if ib = None \<or> ob = None
        then (-1, gz_error L Z_MEM_ERROR (Some ''out of memory'') (st2\<lparr>in_buf := [], out_buf := []\<rparr>))
        else
          let st3 = st2\<lparr>in_buf := the ib, out_buf := the ob, bsize := want st,
                        avail_in := 0, next_in := None\<rparr>
          in case inflateInit2 L (strm_state st3) of (ret, z) \<Rightarrow>
               if ret \<noteq> Z_OK
               then (-1, gz_error L Z_MEM_ERROR (Some ''out of memory'')
                           (st3\<lparr>strm_state := z, in_buf := [], out_buf := [], bsize := 0\<rparr>))
               else (0, st3\<lparr>strm_state := z\<rparr>))"

definition in_at :: "nat \<Rightarrow> 'z gz_state \<Rightarrow> byte cres" where
  "in_at k st =
     (case next_in st of
        None \<Rightarrow> Inl NullDeref
      | Some i \<Rightarrow> if i + k < length (in_buf st) then Inr (in_buf st ! (i + k)) else Inl OutOfBounds)"

definition magic_bytes :: "'z gz_state \<Rightarrow> bool cres" where
  "magic_bytes st =
     (if avail_in st > 1
      then ebind (in_at 0 st) (\<lambda>a.
             if a \<noteq> 31 then Inr False else ebind (in_at 1 st) (\<lambda>b. Inr (b = 139)))
      else Inr False)"

definition look_decide :: "'z zlib \<Rightarrow> 'z gz_state \<Rightarrow> (int \<times> 'z gz_state) cres" where
  "look_decide L st =
     ebind (magic_bytes st) (\<lambda>gz.
       if gz
       then Inr (0, st\<lparr>strm_state := inflateReset L (strm_state st), how := GZIP, direct := False\<rparr>)
       else if \<not> direct st
       then Inr (0, st\<lparr>avail_in := 0, eof := True, x_have := 0\<rparr>)
       else ebind (if avail_in st \<noteq> 0
                   then ebind (in_read (avail_in st) st) (\<lambda>bs.
                          ebind (memcpy 0 bs (out_buf st)) (\<lambda>m.
                            Inr (st\<lparr>x_next := Out 0, out_buf := m, x_have := avail_in st,
                                    avail_in := 0\<rparr>)))
                   else Inr (st\<lparr>x_next := Out 0\<rparr>))
              (\<lambda>st. Inr (0, st\<lparr>how := COPY, direct := True\<rparr>)))"

definition gz_look :: "'z zlib \<Rightarrow> 'z gz_state \<Rightarrow> (int \<times> 'z gz_state) cres" where
  "gz_look L st =
     (case (if bsize st = 0 then look_alloc L st else (0, st)) of (ret, st) \<Rightarrow>
        if ret = -1 then Inr (-1, st)
        else if avail_in st < 2
        then ebind (gz_avail L st) (\<lambda>(ret, st).
               if ret = -1 then Inr (-1, st)
               else if avail_in st = 0 then Inr (0, st)
               else look_decide L st)
        else look_decide L st)"

subsection \<open>Decompressing\<close>

text \<open>A call of \<open>inflate\<close> on the stream of the file.\<close>

definition call_inflate :: "'z zlib \<Rightarrow> 'z gz_state \<Rightarrow> (z_code \<times> 'z gz_state) cres" where
  "call_inflate L st =
     ebind (in_read (avail_in st) st) (\<lambda>inp.
       case inflate L (strm_state st) inp (avail_out st) of (ret, used, bs, m, z) \<Rightarrow>
         ebind (store_at (next_out st) bs st) (\<lambda>st.
           Inr (ret, st\<lparr>strm_state := z, strm_msg := m,
                        next_in := map_option (\<lambda>i. i + used) (next_in st),
                        avail_in := avail_in st - used,
                        next_out := ptr_add (next_out st) (length bs),
                        avail_out := avail_out st - length bs\<rparr>)))"

text \<open>The loop of \<open>gz_decomp\<close>: it is left with \<open>None\<close> for a return of -1, else the last code of \<open>inflate\<close>.\<close>

definition decomp_body :: "'z zlib \<Rightarrow> z_code \<times> 'z gz_state \<Rightarrow>
    (z_code \<times> 'z gz_state + z_code option \<times> 'z gz_state) run" where
  "decomp_body L = (\<lambda>(ret, st).
     rbind (Some (if avail_in st = 0 then gz_avail L st else Inr (0, st))) (\<lambda>(r, st).
       if r = -1 then leave (None, st)
       else if avail_in st = 0
       then leave (Some ret, gz_error L Z_BUF_ERROR (Some ''unexpected end of file'') st)
       else rbind (Some (call_inflate L st)) (\<lambda>(ret, st).
         if ret = Z_STREAM_ERROR \<or> ret = Z_NEED_DICT
         then leave (None, gz_error L Z_STREAM_ERROR
                             (Some ''internal error: inflate stream corrupt'') st)
         else if ret = Z_MEM_ERROR
         then leave (None, gz_error L Z_MEM_ERROR (Some ''out of memory'') st)
         else if ret = Z_DATA_ERROR
         then leave (None, gz_error L Z_DATA_ERROR
                (if strm_msg st = None then Some ''compressed data error'' else strm_msg st) st)
         else if avail_out st \<noteq> 0 \<and> ret \<noteq> Z_STREAM_END then again (ret, st)
         else leave (Some ret, st))))"

definition decomp_loop :: "'z zlib \<Rightarrow> z_code \<Rightarrow> 'z gz_state \<Rightarrow> (z_code option \<times> 'z gz_state) run" where
  "decomp_loop L ret st = do_loop (decomp_body L) (ret, st)"

definition gz_decomp :: "'z zlib \<Rightarrow> 'z gz_state \<Rightarrow> (int \<times> 'z gz_state) run" where
  "gz_decomp L st =
     rbind (decomp_loop L Z_OK st) (\<lambda>(r, st').
       case r of
         None \<Rightarrow> Some (Inr (-1, st'))
       | Some ret \<Rightarrow>
           let had = usub (avail_out st) (avail_out st');
               st2 = st'\<lparr>x_have := had, x_next := ptr_sub (next_out st') had\<rparr>
           in Some (Inr (0, if ret = Z_STREAM_END then st2\<lparr>how := LOOK\<rparr> else st2)))"

subsection \<open>Fetching and skipping\<close>

definition put_out :: "byte list \<Rightarrow> 'z gz_state \<Rightarrow> 'z gz_state cres" where
  "put_out bs st =
     ebind (memcpy 0 bs (out_buf st)) (\<lambda>m. Inr (st\<lparr>out_buf := m, x_have := length bs\<rparr>))"

definition fetch_more :: "'z gz_state \<Rightarrow> bool" where
  "fetch_more st \<longleftrightarrow> x_have st = 0 \<and> (\<not> eof st \<or> avail_in st \<noteq> 0)"

definition fetch_body :: "'z zlib \<Rightarrow> 'z gz_state \<Rightarrow> ('z gz_state + int \<times> 'z gz_state) run" where
  "fetch_body L st =
     (case how st of
        LOOK \<Rightarrow>
          rbind (Some (gz_look L st)) (\<lambda>(ret, st).
            if ret = -1 then leave (-1, st)
            else if how st = LOOK then leave (0, st)
            else if fetch_more st then again st else leave (0, st))
      | COPY \<Rightarrow>
          rbind (Some (gz_load L put_out (shl1 (bsize st)) st)) (\<lambda>(ret, bs, st).
            if ret = -1 then leave (-1, st) else leave (0, st\<lparr>x_next := Out 0\<rparr>))
      | GZIP \<Rightarrow>
          rbind (gz_decomp L (st\<lparr>avail_out := shl1 (bsize st), next_out := Out 0\<rparr>)) (\<lambda>(ret, st).
            if ret = -1 then leave (-1, st)
            else if fetch_more st then again st else leave (0, st)))"

definition gz_fetch :: "'z zlib \<Rightarrow> 'z gz_state \<Rightarrow> (int \<times> 'z gz_state) run" where
  "gz_fetch L st = do_loop (fetch_body L) st"

text \<open>Dropping \<open>n\<close> bytes from the front of the output buffer: \<open>x.have\<close>, \<open>x.next\<close>, \<open>x.pos\<close>.\<close>

definition advance :: "nat \<Rightarrow> 'z gz_state \<Rightarrow> 'z gz_state" where
  "advance n st = st\<lparr>x_have := usub (x_have st) n, x_next := ptr_add (x_next st) n,
                     x_pos := x_pos st + int n\<rparr>"

definition skip_body :: "'z zlib \<Rightarrow> int \<times> 'z gz_state \<Rightarrow>
    (int \<times> 'z gz_state + int \<times> 'z gz_state) run" where
  "skip_body L = (\<lambda>(len, st).
     if len = 0 then leave (0, st)
     else if x_have st \<noteq> 0
     then let n = (if int (x_have st) > len then nat (len mod 2 ^ 32) else x_have st)
          in again (len - int n, advance n st)
     else if eof st \<and> avail_in st = 0 then leave (0, st)
     else rbind (gz_fetch L st) (\<lambda>(ret, st).
            if ret = -1 then leave (-1, st) else again (len, st)))"

definition gz_skip :: "'z zlib \<Rightarrow> int \<Rightarrow> 'z gz_state \<Rightarrow> (int \<times> 'z gz_state) run" where
  "gz_skip L len st = do_loop (skip_body L) (len, st)"

definition process_skip :: "'z zlib \<Rightarrow> 'z gz_state \<Rightarrow> (int \<times> 'z gz_state) run" where
  "process_skip L st =
     (if seek st then gz_skip L (skip st) (st\<lparr>seek := False\<rparr>) else Some (Inr (0, st)))"

subsection \<open>gzread\<close>

definition clip :: "nat \<Rightarrow> nat \<Rightarrow> nat" where
  "clip have_n len = (if have_n > len then len else have_n)"

definition put_user :: "nat \<Rightarrow> byte list \<Rightarrow> 'z gz_state \<Rightarrow> 'z gz_state cres" where
  "put_user b bs st = ebind (memcpy b bs (user st)) (\<lambda>m. Inr (st\<lparr>user := m\<rparr>))"

text \<open>
  One round of the loop of \<open>gzread\<close>, for \<open>len\<close> bytes at offset \<open>b\<close> of the caller's buffer. It ends
  with a return of -1, with a \<open>break\<close>, with \<open>continue\<close>, or falls through to the update of the
  progress with \<open>n\<close> bytes delivered.
\<close>

datatype round = Return_error | Break | Continue | Progress nat

definition read_round :: "'z zlib \<Rightarrow> nat \<Rightarrow> nat \<Rightarrow> 'z gz_state \<Rightarrow> (round \<times> 'z gz_state) run" where
  "read_round L len b st =
     (if x_have st \<noteq> 0
      then let n = clip (x_have st) len
           in rbind (Some (out_read n st)) (\<lambda>bs.
                rbind (Some (put_user b bs st)) (\<lambda>st.
                  Some (Inr (Progress n, st\<lparr>x_next := ptr_add (x_next st) n,
                                            x_have := x_have st - n\<rparr>))))
      else if eof st \<and> avail_in st = 0 then Some (Inr (Break, st\<lparr>past := True\<rparr>))
      else if how st = LOOK \<or> len < shl1 (bsize st)
      then rbind (gz_fetch L st) (\<lambda>(ret, st).
             Some (Inr (if ret = -1 then Return_error else Continue, st)))
      else if how st = COPY
      then rbind (Some (gz_load L (put_user b) len st)) (\<lambda>(ret, bs, st).
             Some (Inr (if ret = -1 then Return_error else Progress (length bs), st)))
      else rbind (gz_decomp L (st\<lparr>avail_out := len, next_out := User b\<rparr>)) (\<lambda>(ret, st).
             Some (Inr (if ret = -1 then (Return_error, st)
                        else (Progress (x_have st), st\<lparr>x_have := 0\<rparr>)))))"

text \<open>The whole loop: it is left with \<open>None\<close> for a return of -1, else the number of bytes.\<close>

definition read_body :: "'z zlib \<Rightarrow> nat \<times> nat \<times> nat \<times> 'z gz_state \<Rightarrow>
    (nat \<times> nat \<times> nat \<times> 'z gz_state + nat option \<times> 'z gz_state) run" where
  "read_body L = (\<lambda>(len, b, got, st).
     rbind (read_round L len b st) (\<lambda>(r, st).
       case r of
         Return_error \<Rightarrow> leave (None, st)
       | Break \<Rightarrow> leave (Some got, st)
       | Continue \<Rightarrow> again (len, b, got, st)
       | Progress n \<Rightarrow>
           let st = st\<lparr>x_pos := x_pos st + int n\<rparr>
           in if len - n \<noteq> 0 then again (len - n, b + n, got + n, st) else leave (Some (got + n), st)))"

definition read_loop :: "'z zlib \<Rightarrow> nat \<Rightarrow> nat \<Rightarrow> nat \<Rightarrow> 'z gz_state \<Rightarrow>
    (nat option \<times> 'z gz_state) run" where
  "read_loop L len b got st = do_loop (read_body L) (len, b, got, st)"

definition read_bytes :: "'z zlib \<Rightarrow> nat \<Rightarrow> 'z gz_state \<Rightarrow> (int \<times> 'z gz_state option) run" where
  "read_bytes L len st =
     rbind (read_loop L len 0 0 st) (\<lambda>(r, st).
       Some (Inr (case r of None \<Rightarrow> -1 | Some got \<Rightarrow> int got, Some st)))"

definition gzread :: "'z zlib \<Rightarrow> 'z gz_state option \<Rightarrow> byte list \<Rightarrow> nat \<Rightarrow>
    (int \<times> 'z gz_state option) run" where
  "gzread L file buf len =
     (case file of
        None \<Rightarrow> Some (Inr (-1, None))
      | Some st0 \<Rightarrow>
          let st = st0\<lparr>user := buf\<rparr> in
          if mode st \<noteq> GZ_READ \<or> err_serious st then Some (Inr (-1, Some st))
          else if len \<ge> 2 ^ 31
          then Some (Inr (-1, Some (gz_error L Z_DATA_ERROR
                                      (Some ''requested length does not fit in int'') st)))
          else if len = 0 then Some (Inr (0, Some st))
          else rbind (process_skip L st) (\<lambda>(ret, st).
                 if ret = -1 then Some (Inr (-1, Some st))
                 else read_bytes L len st))"

subsection \<open>Single bytes\<close>

definition gzgetc :: "'z zlib \<Rightarrow> 'z gz_state option \<Rightarrow> (int \<times> 'z gz_state option) run" where
  "gzgetc L file =
     (case file of
        None \<Rightarrow> Some (Inr (-1, None))
      | Some st \<Rightarrow>
          if mode st \<noteq> GZ_READ \<or> err_serious st then Some (Inr (-1, Some st))
          else if x_have st \<noteq> 0
          then rbind (Some (out_read 1 st)) (\<lambda>bs.
                 Some (Inr (uint (hd bs), Some (advance 1 st))))
          else rbind (gzread L file [0] 1) (\<lambda>(ret, file).
                 Some (Inr (if ret < 1 then -1 else uint (hd (user (the file))), file))))"

definition gzgetc_func :: "'z zlib \<Rightarrow> 'z gz_state option \<Rightarrow> (int \<times> 'z gz_state option) run" where
  "gzgetc_func L file = gzgetc L file"

fun slide :: "nat \<Rightarrow> nat \<Rightarrow> byte list \<Rightarrow> nat \<times> byte list" where
  "slide 0 dest m = (dest, m)"
| "slide (Suc src) dest m = slide src (dest - 1) (m[dest - 1 := m ! src])"

definition make_room :: "'z gz_state \<Rightarrow> 'z gz_state cres" where
  "make_room st =
     (if x_next st \<noteq> Out 0 then Inr st
      else if x_have st \<le> shl1 (bsize st) \<and> shl1 (bsize st) \<le> length (out_buf st)
      then (case slide (x_have st) (shl1 (bsize st)) (out_buf st) of (dest, m) \<Rightarrow>
              Inr (st\<lparr>out_buf := m, x_next := Out dest\<rparr>))
      else Inl OutOfBounds)"

definition push_byte :: "int \<Rightarrow> 'z gz_state \<Rightarrow> (int \<times> 'z gz_state) cres" where
  "push_byte c st =
     ebind (store_at (x_next st) [word_of_int c] st) (\<lambda>st.
       Inr (c, st\<lparr>x_pos := x_pos st - 1, past := False\<rparr>))"

text \<open>
  \<open>gzungetc\<close> behind the skip. \<open>out + (size << 1) - 1\<close> lies before the buffer when \<open>size\<close> is 0: then the pointer is null.
\<close>

definition unget :: "'z zlib \<Rightarrow> int \<Rightarrow> 'z gz_state \<Rightarrow> (int \<times> 'z gz_state option) run" where
  "unget L c st =
     (if c < 0 then Some (Inr (-1, Some st))
      else if x_have st = 0
      then rbind (Some (push_byte c (st\<lparr>x_have := 1,
                    x_next := (if shl1 (bsize st) = 0 then Null else Out (shl1 (bsize st) - 1))\<rparr>)))
             (\<lambda>(c, st). Some (Inr (c, Some st)))
      else if x_have st = shl1 (bsize st)
      then Some (Inr (-1, Some (gz_error L Z_DATA_ERROR (Some ''out of room to push characters'') st)))
      else rbind (Some (make_room st)) (\<lambda>st.
             rbind (Some (push_byte c (st\<lparr>x_have := x_have st + 1, x_next := ptr_sub (x_next st) 1\<rparr>)))
               (\<lambda>(c, st). Some (Inr (c, Some st)))))"

definition gzungetc :: "'z zlib \<Rightarrow> int \<Rightarrow> 'z gz_state option \<Rightarrow> (int \<times> 'z gz_state option) run" where
  "gzungetc L c file =
     (case file of
        None \<Rightarrow> Some (Inr (-1, None))
      | Some st \<Rightarrow>
          if mode st \<noteq> GZ_READ \<or> err_serious st then Some (Inr (-1, Some st))
          else rbind (process_skip L st) (\<lambda>(ret, st).
            if ret = -1 then Some (Inr (-1, Some st))
            else unget L c st))"

subsection \<open>Lines\<close>

definition newline :: byte where
  "newline = 10"

fun gz_memchr :: "byte \<Rightarrow> byte list \<Rightarrow> nat option" where
  "gz_memchr c [] = None"
| "gz_memchr c (x # xs) = (if x = c then Some 0 else map_option Suc (gz_memchr c xs))"

text \<open>The loop of \<open>gzgets\<close>: it is left with the offset behind the bytes stored, or \<open>None\<close> on an error.\<close>

definition gets_body :: "'z zlib \<Rightarrow> nat \<times> nat \<times> 'z gz_state \<Rightarrow>
    (nat \<times> nat \<times> 'z gz_state + nat option \<times> 'z gz_state) run" where
  "gets_body L = (\<lambda>(left, b, st).
     rbind (if x_have st = 0 then gz_fetch L st else Some (Inr (0, st))) (\<lambda>(ret, st).
       if ret = -1 then leave (None, st)
       else if x_have st = 0 then leave (Some b, st\<lparr>past := True\<rparr>)
       else
         let n = clip (x_have st) left
         in rbind (Some (out_read n st)) (\<lambda>bs.
              let eol = gz_memchr newline bs;
                  n = (case eol of None \<Rightarrow> n | Some i \<Rightarrow> i + 1)
              in rbind (Some (put_user b (take n bs) st)) (\<lambda>st.
                   if left - n \<noteq> 0 \<and> eol = None then again (left - n, b + n, advance n st)
                   else leave (Some (b + n), advance n st)))))"

definition gets_loop :: "'z zlib \<Rightarrow> nat \<Rightarrow> nat \<Rightarrow> 'z gz_state \<Rightarrow> (nat option \<times> 'z gz_state) run" where
  "gets_loop L left b st = do_loop (gets_body L) (left, b, st)"

definition gets_line :: "'z zlib \<Rightarrow> nat \<Rightarrow> 'z gz_state \<Rightarrow> (bool \<times> 'z gz_state option) run" where
  "gets_line L left st =
     rbind (if left \<noteq> 0 then gets_loop L left 0 st else Some (Inr (Some 0, st))) (\<lambda>(r, st).
       case r of
         None \<Rightarrow> Some (Inr (False, Some st))
       | Some b \<Rightarrow>
           if b = 0 then Some (Inr (False, Some st))
           else rbind (Some (put_user b [0] st)) (\<lambda>st. Some (Inr (True, Some st))))"

definition gzgets :: "'z zlib \<Rightarrow> 'z gz_state option \<Rightarrow> byte list option \<Rightarrow> int \<Rightarrow>
    (bool \<times> 'z gz_state option) run" where
  "gzgets L file buf len =
     (case (file, buf) of
        (Some st0, Some ub) \<Rightarrow>
          if len < 1 then Some (Inr (False, file))
          else
            let st = st0\<lparr>user := ub\<rparr> in
            if mode st \<noteq> GZ_READ \<or> err_serious st then Some (Inr (False, Some st))
            else rbind (process_skip L st) (\<lambda>(ret, st).
              if ret = -1 then Some (Inr (False, Some st))
              else gets_line L (nat len - 1) st)
      | _ \<Rightarrow> Some (Inr (False, file)))"

subsection \<open>gzdirect and gzclose_r\<close>

definition gzdirect :: "'z zlib \<Rightarrow> 'z gz_state option \<Rightarrow> (bool \<times> 'z gz_state option) cres" where
  "gzdirect L file =
     (case file of
        None \<Rightarrow> Inr (False, None)
      | Some st \<Rightarrow>
          ebind (if mode st = GZ_READ \<and> how st = LOOK \<and> x_have st = 0
                 then ebind (gz_look L st) (\<lambda>(ret, st). Inr st) else Inr st) (\<lambda>st.
            Inr (direct st, Some st)))"

text \<open>The calls \<open>gzclose_r\<close> makes, in order; the state is gone afterwards.\<close>

datatype close_call = InflateEnd | Free_out | Free_in | Clear_error | Free_path | Close_fd | Free_state

definition gzclose_r :: "'z gz_state option \<Rightarrow> z_code \<times> close_call list" where
  "gzclose_r file =
     (case file of
        None \<Rightarrow> (Z_STREAM_ERROR, [])
      | Some st \<Rightarrow>
          if mode st \<noteq> GZ_READ then (Z_STREAM_ERROR, [])
          else
            (if \<not> fd_close_ok (fd st) then Z_ERRNO
             else if err st = Z_BUF_ERROR then Z_BUF_ERROR else Z_OK,
             (if bsize st \<noteq> 0 then [InflateEnd, Free_out, Free_in] else [])
             @ [Clear_error, Free_path, Close_fd, Free_state]))"

subsection \<open>One turn of a loop\<close>

lemma decomp_loop_unfold:
  "decomp_loop L ret st = rbind (decomp_body L (ret, st)) (\<lambda>x.
     case x of Inl s \<Rightarrow> decomp_loop L (fst s) (snd s) | Inr r \<Rightarrow> Some (Inr r))"
  by (subst decomp_loop_def, subst do_loop.simps) (simp add: decomp_loop_def)

lemma gz_fetch_unfold:
  "gz_fetch L st = rbind (fetch_body L st) (\<lambda>x. case x of Inl s \<Rightarrow> gz_fetch L s | Inr r \<Rightarrow> Some (Inr r))"
  by (subst gz_fetch_def, subst do_loop.simps) (simp add: gz_fetch_def [abs_def])

lemma gz_skip_unfold:
  "gz_skip L len st = rbind (skip_body L (len, st)) (\<lambda>x.
     case x of Inl s \<Rightarrow> gz_skip L (fst s) (snd s) | Inr r \<Rightarrow> Some (Inr r))"
  by (subst gz_skip_def, subst do_loop.simps) (simp add: gz_skip_def)

lemma read_loop_unfold:
  "read_loop L len b got st = rbind (read_body L (len, b, got, st)) (\<lambda>x.
     case x of Inl s \<Rightarrow> read_loop L (fst s) (fst (snd s)) (fst (snd (snd s))) (snd (snd (snd s)))
             | Inr r \<Rightarrow> Some (Inr r))"
  by (subst read_loop_def, subst do_loop.simps) (simp add: read_loop_def)

lemma gets_loop_unfold:
  "gets_loop L left b st = rbind (gets_body L (left, b, st)) (\<lambda>x.
     case x of Inl s \<Rightarrow> gets_loop L (fst s) (fst (snd s)) (snd (snd s)) | Inr r \<Rightarrow> Some (Inr r))"
  by (subst gets_loop_def, subst do_loop.simps) (simp add: gets_loop_def)

end
