(* ===== verification/Gz_Stream.thy ===== *)
theory Gz_Stream
  imports Gz_Read
begin

text \<open>
  What the bytes of a gzip file mean, the invariant of an open file, and the refinement of the fetching
  routines of gzread.c: a file that is open for reading stands for the list of the bytes still to be
  delivered.
\<close>

subsection \<open>Unsigned values\<close>

lemma shl1_eq [simp]: "n < 2 ^ 31 \<Longrightarrow> shl1 n = 2 * n"
  by (simp add: shl1_def)

lemma usub_eq [simp]:
  assumes "b \<le> a" and "a < 2 ^ 32"
  shows "usub a b = a - b"
  using assms by (simp add: usub_def of_nat_diff nat_mod_as_int flip: of_nat_diff)

subsection \<open>What a decompressor promises\<close>

text \<open>
  \<open>decode z i = Some (o, r)\<close>: in state \<open>z\<close> the input \<open>i\<close> completes the gzip member, \<open>o\<close> is the output
  still to come and \<open>r\<close> the input behind the member. \<open>inflate\<close>, given some input and some room, delivers
  a part of that output and consumes a part of that input, at least a byte of one of them, or it delivers
  the rest and reports the end of the stream. The trailer of a member follows its data, so input is left
  to be read as long as the end has not been reported.
\<close>

type_synonym 'z decoder = "'z \<Rightarrow> byte list \<Rightarrow> (byte list \<times> byte list) option"

definition inflate_step :: "'z zlib \<Rightarrow> 'z decoder \<Rightarrow> 'z \<Rightarrow> byte list \<Rightarrow> nat \<Rightarrow> byte list \<Rightarrow>
    byte list \<Rightarrow> byte list \<Rightarrow> bool" where
  "inflate_step L decode z inp n behind out r =
     (case inflate L z inp n of (ret, used, bs, m, z') \<Rightarrow>
        used \<le> length inp \<and> length bs \<le> n \<and>
        (ret = Z_STREAM_END \<and> bs = out \<and> r = drop used inp @ behind \<or>
         ret = Z_OK \<and> (0 < used \<or> bs \<noteq> []) \<and>
         (\<exists>out'. out = bs @ out' \<and> decode z' (drop used inp @ behind) = Some (out', r))))"

definition inflates :: "'z zlib \<Rightarrow> 'z decoder \<Rightarrow> (byte list \<Rightarrow> (byte list \<times> byte list) option) \<Rightarrow> bool"
  where
  "inflates L decode member \<longleftrightarrow>
     (\<forall>z. decode (inflateReset L z) = member) \<and>
     (\<forall>z i out r. decode z i = Some (out, r) \<longrightarrow> length r < length i) \<and>
     (\<forall>z inp n behind out r. inp \<noteq> [] \<longrightarrow> 0 < n \<longrightarrow> decode z (inp @ behind) = Some (out, r) \<longrightarrow>
        inflate_step L decode z inp n behind out r)"

lemma inflates_shorter: "inflates L decode member \<Longrightarrow> decode z i = Some (out, r) \<Longrightarrow> length r < length i"
  by (simp add: inflates_def)

definition magic :: "byte list \<Rightarrow> bool" where
  "magic i \<longleftrightarrow> 2 \<le> length i \<and> i ! 0 = 31 \<and> i ! 1 = 139"

text \<open>The contents of a sequence of gzip members; what follows the last member is ignored.\<close>

inductive members :: "(byte list \<Rightarrow> (byte list \<times> byte list) option) \<Rightarrow> byte list \<Rightarrow> byte list \<Rightarrow> bool"
  for member where
  no_member: "\<not> magic i \<Longrightarrow> members member i []"
| one_member: "magic i \<Longrightarrow> member i = Some (out, r) \<Longrightarrow> members member r c \<Longrightarrow>
    members member i (out @ c)"

inductive_simps members_not_magic: "members member i c"

lemma members_no_magic: "\<not> magic i \<Longrightarrow> members member i c \<longleftrightarrow> c = []"
  by (auto simp: members_not_magic [of member i c])

lemma members_magic:
  "magic i \<Longrightarrow> members member i c \<longleftrightarrow>
     (\<exists>out r c'. member i = Some (out, r) \<and> members member r c' \<and> c = out @ c')"
  by (auto simp: members_not_magic [of member i c])

lemma not_magic_Nil [simp]: "\<not> magic []"
  by (simp add: magic_def)

subsection \<open>The invariant\<close>

fun at_index :: "nat option \<Rightarrow> nat \<Rightarrow> byte list \<Rightarrow> byte list" where
  "at_index (Some i) n m = mem_read i n m"
| "at_index None n m = []"

fun at_ptr :: "ptr \<Rightarrow> nat \<Rightarrow> byte list \<Rightarrow> byte list" where
  "at_ptr (Out i) n m = mem_read i n m"
| "at_ptr _ n m = []"

fun fits_index :: "nat option \<Rightarrow> nat \<Rightarrow> byte list \<Rightarrow> bool" where
  "fits_index (Some i) n m \<longleftrightarrow> n = 0 \<or> i + n \<le> length m"
| "fits_index None n m \<longleftrightarrow> n = 0"

fun fits_ptr :: "ptr \<Rightarrow> nat \<Rightarrow> byte list \<Rightarrow> bool" where
  "fits_ptr (Out i) n m \<longleftrightarrow> n = 0 \<or> i + n \<le> length m"
| "fits_ptr _ n m \<longleftrightarrow> n = 0"

lemma at_zero [simp]: "at_index p 0 m = []" "at_ptr q 0 m = []"
  by (cases p; simp) (cases q; simp)

lemma fits_zero [simp]: "fits_index p 0 m" "fits_ptr q 0 m"
  by (cases p; simp) (cases q; simp)

lemma fits_index_pos: "0 < n \<Longrightarrow> fits_index p n m \<longleftrightarrow> (\<exists>i. p = Some i \<and> i + n \<le> length m)"
  by (cases p) auto

lemma fits_ptr_pos: "0 < n \<Longrightarrow> fits_ptr p n m \<longleftrightarrow> (\<exists>i. p = Out i \<and> i + n \<le> length m)"
  by (cases p) auto

lemma length_at_index: "fits_index p n m \<Longrightarrow> length (at_index p n m) = n"
  by (cases p) auto

lemma length_at_ptr: "fits_ptr p n m \<Longrightarrow> length (at_ptr p n m) = n"
  by (cases p) auto

definition window_in :: "'z gz_state \<Rightarrow> byte list" where
  "window_in st = at_index (next_in st) (avail_in st) (in_buf st)"

definition window_out :: "'z gz_state \<Rightarrow> byte list" where
  "window_out st = at_ptr (x_next st) (x_have st) (out_buf st)"

definition buffers_ok :: "'z gz_state \<Rightarrow> bool" where
  "buffers_ok st \<longleftrightarrow>
     (bsize st = 0 \<longrightarrow>
        2 \<le> want st \<and> want st < 2 ^ 31 \<and> how st = LOOK \<and> x_have st = 0 \<and> avail_in st = 0) \<and>
     (bsize st \<noteq> 0 \<longrightarrow>
        2 \<le> bsize st \<and> bsize st < 2 ^ 31 \<and> length (in_buf st) = bsize st \<and>
        length (out_buf st) = 2 * bsize st)"

definition in_ok :: "'z gz_state \<Rightarrow> bool" where
  "in_ok st \<longleftrightarrow> fits_index (next_in st) (avail_in st) (in_buf st)"

definition out_ok :: "'z gz_state \<Rightarrow> bool" where
  "out_ok st \<longleftrightarrow> fits_ptr (x_next st) (x_have st) (out_buf st)"

definition how_ok :: "'z gz_state \<Rightarrow> bool" where
  "how_ok st \<longleftrightarrow>
     (how st = COPY \<longrightarrow> avail_in st = 0 \<and> direct st) \<and> (how st = GZIP \<longrightarrow> \<not> direct st) \<and>
     (direct st \<and> eof st \<longrightarrow> fd_rest (fd st) = [])"

definition gz_inv :: "'z gz_state \<Rightarrow> bool" where
  "gz_inv st \<longleftrightarrow> buffers_ok st \<and> in_ok st \<and> out_ok st \<and> how_ok st"

lemmas inv_defs = gz_inv_def buffers_ok_def in_ok_def out_ok_def how_ok_def

text \<open>The state \<open>gzopen\<close> makes for reading: nothing allocated, nothing read, \<open>direct\<close> set.\<close>

definition fresh :: "'z gz_state \<Rightarrow> bool" where
  "fresh st \<longleftrightarrow> mode st = GZ_READ \<and> bsize st = 0 \<and> 2 \<le> want st \<and> want st < 2 ^ 31 \<and> how st = LOOK \<and>
     direct st \<and> x_have st = 0 \<and> avail_in st = 0 \<and> \<not> eof st \<and> \<not> past st \<and> \<not> seek st \<and> x_pos st = 0 \<and>
     err st = Z_OK"

definition no_failure :: "fdesc \<Rightarrow> bool" where
  "no_failure f \<longleftrightarrow> (\<forall>e. Fails e \<notin> set (fd_outcomes f))"

text \<open>No read fails, no allocation fails, and no serious error is pending.\<close>

definition calm :: "'z zlib \<Rightarrow> 'z gz_state \<Rightarrow> bool" where
  "calm L st \<longleftrightarrow> no_failure (fd st) \<and> mode st = GZ_READ \<and> \<not> err_serious st \<and>
     (bsize st = 0 \<longrightarrow> None \<notin> set (mallocs st) \<and> fst (inflateInit2 L (strm_state st)) = Z_OK)"

subsection \<open>The bytes still to be delivered\<close>

fun unread :: "bool \<Rightarrow> byte list \<Rightarrow> byte list" where
  "unread True bs = []"
| "unread False bs = bs"

lemma unread_idle: "(e \<Longrightarrow> bs = []) \<Longrightarrow> unread e bs = bs"
  by (cases e) simp_all

definition input_left :: "'z gz_state \<Rightarrow> byte list" where
  "input_left st = window_in st @ unread (eof st) (fd_rest (fd st))"

fun promise :: "'z decoder \<Rightarrow> (byte list \<Rightarrow> (byte list \<times> byte list) option) \<Rightarrow> how_t \<Rightarrow> bool \<Rightarrow> 'z \<Rightarrow>
    byte list \<Rightarrow> byte list \<Rightarrow> bool" where
  "promise decode member LOOK dir z i c \<longleftrightarrow>
     (if dir \<and> \<not> magic i then c = i else members member i c)"
| "promise decode member COPY dir z i c \<longleftrightarrow> c = i"
| "promise decode member GZIP dir z i c \<longleftrightarrow>
     (\<exists>out r c'. decode z i = Some (out, r) \<and> members member r c' \<and> c = out @ c')"

definition later :: "'z decoder \<Rightarrow> (byte list \<Rightarrow> (byte list \<times> byte list) option) \<Rightarrow> 'z gz_state \<Rightarrow>
    byte list \<Rightarrow> bool" where
  "later decode member st c \<longleftrightarrow>
     promise decode member (how st) (direct st) (strm_state st) (input_left st) c"

definition delivers :: "'z zlib \<Rightarrow> 'z decoder \<Rightarrow> (byte list \<Rightarrow> (byte list \<times> byte list) option) \<Rightarrow>
    'z gz_state \<Rightarrow> byte list \<Rightarrow> bool" where
  "delivers L decode member st c \<longleftrightarrow>
     inflates L decode member \<and> gz_inv st \<and> calm L st \<and>
     (\<exists>c'. c = window_out st @ c' \<and> later decode member st c')"

lemma delivers_caller [simp]:
  "delivers L decode member (st\<lparr>user := u\<rparr>) c = delivers L decode member st c"
  "delivers L decode member (st\<lparr>past := p\<rparr>) c = delivers L decode member st c"
  "delivers L decode member (st\<lparr>x_pos := i\<rparr>) c = delivers L decode member st c"
  "delivers L decode member (st\<lparr>seek := s\<rparr>) c = delivers L decode member st c"
  "delivers L decode member (st\<lparr>next_out := q\<rparr>) c = delivers L decode member st c"
  "delivers L decode member (st\<lparr>avail_out := n\<rparr>) c = delivers L decode member st c"
  by (simp_all add: delivers_def inv_defs calm_def err_serious_def window_out_def later_def
    input_left_def window_in_def)

subsection \<open>Loading\<close>

lemma sys_read_no_failure:
  assumes "no_failure f" and "0 < n"
  obtains k os where "k \<le> n" and "0 < k" and "set os \<subseteq> set (fd_outcomes f)" and
    "sys_read n f = (Inr (take k (fd_rest f)), f\<lparr>fd_rest := drop k (fd_rest f), fd_outcomes := os\<rparr>)"
proof (cases "fd_outcomes f")
  case Nil
  then show ?thesis using that [of n "[]"] assms(2) by (simp add: sys_read_def)
next
  case (Cons a os)
  then obtain k where "a = Short k" using assms(1) by (cases a) (auto simp: no_failure_def)
  then show ?thesis
    using that [of "min n (Suc k)" os] assms(2) Cons by (auto simp: sys_read_def)
qed

lemma load_pieces:
  assumes "k \<le> n"
  shows "take k xs @ take (n - length (take k xs)) (drop k xs) = take n xs"
    and "drop (n - length (take k xs)) (drop k xs) = drop n xs"
proof -
  have "n = k + (n - k)" using assms by simp
  then show "take k xs @ take (n - length (take k xs)) (drop k xs) = take n xs"
    by (cases "k \<le> length xs") (auto simp flip: take_add)
  show "drop (n - length (take k xs)) (drop k xs) = drop n xs"
    using assms by (cases "k \<le> length xs") auto
qed

lemma load_loop_no_failure:
  assumes "no_failure f" and "length got < len"
  shows "\<exists>n os. set os \<subseteq> set (fd_outcomes f) \<and>
    (n = 0 \<longleftrightarrow> length (fd_rest f) < len - length got) \<and>
    load_loop len got f =
      (Inr n, got @ take (len - length got) (fd_rest f),
       f\<lparr>fd_rest := drop (len - length got) (fd_rest f), fd_outcomes := os\<rparr>)"
  using assms
proof (induction len got f rule: load_loop.induct)
  case (1 len got f)
  obtain k os where k: "k \<le> len - length got" "0 < k" "set os \<subseteq> set (fd_outcomes f)"
    and rd: "sys_read (len - length got) f =
      (Inr (take k (fd_rest f)), f\<lparr>fd_rest := drop k (fd_rest f), fd_outcomes := os\<rparr>)"
    using sys_read_no_failure [OF "1.prems"(1), of "len - length got"] "1.prems"(2) by auto
  let ?bs = "take k (fd_rest f)" and ?f = "f\<lparr>fd_rest := drop k (fd_rest f), fd_outcomes := os\<rparr>"
  show ?case
  proof (cases "fd_rest f = []")
    case True
    then show ?thesis using rd k "1.prems"(2) by (intro exI [of _ 0] exI [of _ os]) (simp add: load_loop.simps [of len got])
  next
    case ne: False
    then have bs: "?bs \<noteq> []" using k by simp
    show ?thesis
    proof (cases "length (got @ ?bs) < len")
      case True
      have nf: "no_failure ?f" using "1.prems"(1) k by (auto simp: no_failure_def)
      obtain n os' where IH: "set os' \<subseteq> set os"
        "n = 0 \<longleftrightarrow> length (fd_rest ?f) < len - length (got @ ?bs)"
        "load_loop len (got @ ?bs) ?f =
          (Inr n, (got @ ?bs) @ take (len - length (got @ ?bs)) (fd_rest ?f),
           ?f\<lparr>fd_rest := drop (len - length (got @ ?bs)) (fd_rest ?f), fd_outcomes := os'\<rparr>)"
        using "1.IH" [OF rd [symmetric] refl bs True nf True] by auto
      have "load_loop len got f = load_loop len (got @ ?bs) ?f"
        using rd bs True by (simp add: load_loop.simps [of len got f])
      moreover have "?bs @ take (len - length (got @ ?bs)) (drop k (fd_rest f)) =
          take (len - length got) (fd_rest f)"
        and "drop (len - length (got @ ?bs)) (drop k (fd_rest f)) = drop (len - length got) (fd_rest f)"
        using load_pieces [of k "len - length got" "fd_rest f"] k True by simp_all
      ultimately show ?thesis using IH k(3) "1.prems"(2) True
        by (intro exI [of _ n] exI [of _ os']) (auto simp: min_def split: if_splits)
    next
      case False
      then have eq: "k = len - length got" and le: "k \<le> length (fd_rest f)"
        using k "1.prems"(2) by (auto simp: min_def split: if_splits)
      have "load_loop len got f = (Inr (length ?bs), got @ ?bs, ?f)"
        using rd bs False by (simp add: load_loop.simps [of len got f])
      then show ?thesis using eq le k by (intro exI [of _ k] exI [of _ os]) auto
    qed
  qed
qed

lemma gz_load_calm:
  assumes "no_failure (fd st)" and "0 < len"
  obtains f where "no_failure f" and "fd_rest f = drop len (fd_rest (fd st))" and
    "\<forall>st1. put (take len (fd_rest (fd st))) (st\<lparr>fd := f\<rparr>) = Inr st1 \<longrightarrow>
       gz_load L put len st = Inr (0, take len (fd_rest (fd st)),
         if length (fd_rest (fd st)) < len then st1\<lparr>eof := True\<rparr> else st1)"
proof -
  obtain n os where os: "set os \<subseteq> set (fd_outcomes (fd st))"
    and n: "n = 0 \<longleftrightarrow> length (fd_rest (fd st)) < len"
    and run: "load_loop len [] (fd st) = (Inr n, take len (fd_rest (fd st)),
      (fd st)\<lparr>fd_rest := drop len (fd_rest (fd st)), fd_outcomes := os\<rparr>)"
    using load_loop_no_failure [of "fd st" "[]" len] assms by auto
  show ?thesis
    by (rule that [of "(fd st)\<lparr>fd_rest := drop len (fd_rest (fd st)), fd_outcomes := os\<rparr>"])
      (use assms(1) os n run in \<open>auto simp: no_failure_def gz_load_def\<close>)
qed

lemma length_copy_fwd [simp]: "length (copy_fwd p q n m) = length m"
  by (induction p q n m rule: copy_fwd.induct) auto

lemma nth_copy_fwd:
  assumes "p \<le> q" and "q + n \<le> length m" and "j < length m"
  shows "copy_fwd p q n m ! j = (if p \<le> j \<and> j < p + n then m ! (q + (j - p)) else m ! j)"
  using assms
proof (induction p q n m rule: copy_fwd.induct)
  case (2 p q n m)
  have "Suc (q + j - Suc p) = q + j - p" if "Suc p \<le> j" using that by simp
  then show ?case using 2 by (cases "j = p") (auto simp: nth_list_update)
qed auto

lemma mem_read_copy_fwd:
  assumes "q + n \<le> length m"
  shows "mem_read 0 n (copy_fwd 0 q n m) = mem_read q n m"
  using assms by (intro nth_equalityI) (auto simp: mem_read_def nth_copy_fwd)

text \<open>Filling the input buffer loses nothing, and leaves it full unless the file has ended.\<close>

lemma gz_avail_calm:
  assumes size: "0 < bsize st" "bsize st < 2 ^ 32" "length (in_buf st) = bsize st"
    and ok: "in_ok st" "no_failure (fd st)" "\<not> err_serious st"
    and room: "eof st \<or> avail_in st < bsize st"
  obtains f ib n ni e where
    "gz_avail L st = Inr (0, st\<lparr>fd := f, in_buf := ib, avail_in := n, next_in := ni, eof := e\<rparr>)"
    and "input_left (st\<lparr>fd := f, in_buf := ib, avail_in := n, next_in := ni, eof := e\<rparr>) = input_left st"
    and "in_ok (st\<lparr>fd := f, in_buf := ib, avail_in := n, next_in := ni, eof := e\<rparr>)"
    and "length ib = bsize st" and "no_failure f" and "e \<or> n = bsize st"
    and "e \<longrightarrow> eof st \<and> f = fd st \<or> fd_rest f = []"
proof (cases "eof st")
  case True
  show ?thesis
    by (rule that [where f = "fd st" and ib = "in_buf st" and n = "avail_in st" and ni = "next_in st"
         and e = "eof st"])
      (use True assms in \<open>simp_all add: gz_avail_def input_left_def window_in_def in_ok_def\<close>)
next
  case False
  define ib where "ib = (if avail_in st \<noteq> 0 then copy_fwd 0 (the (next_in st)) (avail_in st) (in_buf st)
    else in_buf st)"
  let ?a = "avail_in st" and ?rest = "fd_rest (fd st)" and ?len = "bsize st - avail_in st"
  have moved: "(if ?a \<noteq> 0 then move_down st else Inr st) = Inr (st\<lparr>in_buf := ib\<rparr>)"
    using ok(1) by (auto simp: move_down_def ib_def in_ok_def fits_index_pos)
  have lib: "length ib = bsize st" using size(3) by (simp add: ib_def)
  have win: "mem_read 0 ?a ib = window_in st"
    using ok(1) by (auto simp: ib_def window_in_def in_ok_def mem_read_copy_fwd fits_index_pos)
  have pos: "0 < ?len" using room False by simp
  obtain f where f: "no_failure f" "fd_rest f = drop ?len ?rest"
    and load: "\<forall>st1. put_in (take ?len (fd_rest (fd (st\<lparr>in_buf := ib\<rparr>)))) (st\<lparr>in_buf := ib, fd := f\<rparr>) = Inr st1 \<longrightarrow>
       gz_load L put_in ?len (st\<lparr>in_buf := ib\<rparr>) = Inr (0, take ?len (fd_rest (fd (st\<lparr>in_buf := ib\<rparr>))),
         if length (fd_rest (fd (st\<lparr>in_buf := ib\<rparr>))) < ?len then st1\<lparr>eof := True\<rparr> else st1)"
    using gz_load_calm [of "st\<lparr>in_buf := ib\<rparr>" ?len put_in L] ok(2) pos by auto
  let ?bs = "take ?len ?rest" and ?e = "length ?rest < ?len"
  let ?ib = "mem_write ?a ?bs ib"
  have fits: "?a + length ?bs \<le> length ib" using lib pos by simp
  have put: "put_in ?bs (st\<lparr>in_buf := ib, fd := f\<rparr>) = Inr (st\<lparr>in_buf := ?ib, fd := f\<rparr>)"
    using fits by (simp add: put_in_def)
  have run: "gz_avail L st =
      Inr (0, st\<lparr>fd := f, in_buf := ?ib, avail_in := ?a + length ?bs, next_in := Some 0, eof := ?e\<rparr>)"
    using moved load put ok(3) False size pos by (auto simp: gz_avail_def)
  have read: "mem_read 0 (?a + length ?bs) ?ib = window_in st @ ?bs"
    using mem_read_write_extend [of 0 ?a ?bs ib] fits win by simp
  show ?thesis
    by (rule that [OF run])
      (use read fits f lib False pos in \<open>auto simp: input_left_def window_in_def in_ok_def unread_idle\<close>)
qed

text \<open>The fields that belong to the caller: none of the fetching routines touches them.\<close>

definition same_caller :: "'z gz_state \<Rightarrow> 'z gz_state \<Rightarrow> bool" where
  "same_caller st st' \<longleftrightarrow> user st' = user st \<and> x_pos st' = x_pos st \<and> past st' = past st \<and>
     skip st' = skip st \<and> seek st' = seek st"

lemma same_caller_refl [simp]: "same_caller st st"
  by (simp add: same_caller_def)

lemma same_caller_trans: "same_caller a b \<Longrightarrow> same_caller b c \<Longrightarrow> same_caller a c"
  by (simp add: same_caller_def)

lemma delivers_avail:
  assumes d: "delivers L decode member st c" and "bsize st \<noteq> 0" and "how st \<noteq> COPY"
    and room: "eof st \<or> avail_in st < bsize st"
  obtains f ib n ni e st' where
    "st' = st\<lparr>fd := f, in_buf := ib, avail_in := n, next_in := ni, eof := e\<rparr>"
    and "gz_avail L st = Inr (0, st')" and "delivers L decode member st' c"
    and "input_left st' = input_left st" and "e \<or> n = bsize st"
proof -
  have inv: "gz_inv st" "calm L st" "inflates L decode member" using d by (simp_all add: delivers_def)
  have size: "0 < bsize st" "bsize st < 2 ^ 32" "length (in_buf st) = bsize st"
    and ok: "in_ok st" "no_failure (fd st)" "\<not> err_serious st"
    using inv assms(2) by (simp_all add: gz_inv_def buffers_ok_def calm_def)
  obtain f ib n ni e where
    run: "gz_avail L st = Inr (0, st\<lparr>fd := f, in_buf := ib, avail_in := n, next_in := ni, eof := e\<rparr>)"
    and left: "input_left (st\<lparr>fd := f, in_buf := ib, avail_in := n, next_in := ni, eof := e\<rparr>) = input_left st"
    and iok: "in_ok (st\<lparr>fd := f, in_buf := ib, avail_in := n, next_in := ni, eof := e\<rparr>)"
    and rest: "length ib = bsize st" "no_failure f" "e \<or> n = bsize st"
      "e \<longrightarrow> eof st \<and> f = fd st \<or> fd_rest f = []"
    by (rule gz_avail_calm [OF size ok room])
  let ?st = "st\<lparr>fd := f, in_buf := ib, avail_in := n, next_in := ni, eof := e\<rparr>"
  have "gz_inv ?st" using inv(1) iok rest assms(2,3) by (auto simp: inv_defs)
  moreover have "calm L ?st" using inv(2) rest(2) by (simp add: calm_def err_serious_def)
  moreover have "window_out ?st = window_out st" by (simp add: window_out_def)
  moreover have "later decode member ?st c' = later decode member st c'" for c'
    using left by (simp add: later_def)
  ultimately have "delivers L decode member ?st c" using d by (simp add: delivers_def)
  then show ?thesis by (rule that [OF refl run _ left rest(3)])
qed

lemma gz_malloc_calm:
  assumes "None \<notin> set (mallocs st)"
  obtains m ms where "gz_malloc n st = (Some m, st\<lparr>mallocs := ms\<rparr>)" and "length m = n" and "None \<notin> set ms"
proof (cases "mallocs st")
  case Nil
  then show ?thesis using that [of "replicate n 0" "[]"] by (simp add: gz_malloc_def)
next
  case (Cons a ms)
  then obtain g where "a = Some g" using assms by (cases a) auto
  then show ?thesis using that [of "map g [0..<n]" ms] Cons assms by (simp add: gz_malloc_def)
qed

lemma delivers_alloc:
  assumes d: "delivers L decode member st c" and "bsize st = 0"
  obtains st' where "look_alloc L st = (0, st')" and "delivers L decode member st' c"
    and "bsize st' \<noteq> 0" and "same_caller st st'" and "how st' = LOOK" and "x_have st' = 0"
    and "input_left st' = input_left st" and "direct st' = direct st"
proof -
  have inv: "gz_inv st" "calm L st" using d by (simp_all add: delivers_def)
  have z: "2 \<le> want st" "want st < 2 ^ 31" "how st = LOOK" "x_have st = 0" "avail_in st = 0"
    using inv(1) assms(2) by (simp_all add: inv_defs)
  have m: "None \<notin> set (mallocs st)" "fst (inflateInit2 L (strm_state st)) = Z_OK"
    using inv(2) assms(2) by (simp_all add: calm_def)
  obtain ib ms where ib: "gz_malloc (want st) st = (Some ib, st\<lparr>mallocs := ms\<rparr>)" "length ib = want st"
    "None \<notin> set ms" by (rule gz_malloc_calm [OF m(1)])
  have "None \<notin> set (mallocs (st\<lparr>mallocs := ms\<rparr>))" using ib(3) by simp
  then obtain ob ms' where ob: "gz_malloc (shl1 (want st)) (st\<lparr>mallocs := ms\<rparr>) =
      (Some ob, st\<lparr>mallocs := ms, mallocs := ms'\<rparr>)" "length ob = shl1 (want st)"
    by (rule gz_malloc_calm)
  obtain z' where init: "inflateInit2 L (strm_state st) = (Z_OK, z')"
    using m(2) by (cases "inflateInit2 L (strm_state st)") simp
  let ?st = "st\<lparr>mallocs := ms', in_buf := ib, out_buf := ob, bsize := want st, avail_in := 0,
    next_in := None, strm_state := z'\<rparr>"
  have run: "look_alloc L st = (0, ?st)"
    using ib(1) ob(1) init by (simp add: look_alloc_def)
  have "gz_inv ?st" using inv(1) z ib(2) ob(2) assms(2) by (simp add: inv_defs)
  moreover have "calm L ?st" using inv(2) z by (simp add: calm_def err_serious_def)
  moreover have "window_out ?st = window_out st" using z(4) by (simp add: window_out_def)
  moreover have left: "input_left ?st = input_left st"
    using z(5) by (simp add: input_left_def window_in_def)
  then have "later decode member ?st c' = later decode member st c'" for c'
    using z(3) by (simp add: later_def)
  ultimately have "delivers L decode member ?st c" using d by (simp add: delivers_def)
  then show ?thesis by (rule that [OF run]) (use z left in \<open>simp_all add: same_caller_def\<close>)
qed

lemma magic_bytes_calm:
  assumes "in_ok st" and "2 \<le> avail_in st \<or> eof st"
  shows "magic_bytes st = Inr (magic (input_left st))"
proof (cases "2 \<le> avail_in st")
  case True
  then obtain i where i: "next_in st = Some i" "i + avail_in st \<le> length (in_buf st)"
    using assms(1) by (auto simp: in_ok_def fits_index_pos)
  have "input_left st ! 0 = in_buf st ! i" "input_left st ! 1 = in_buf st ! (i + 1)"
    "2 \<le> length (input_left st)"
    using True i by (simp_all add: input_left_def window_in_def nth_append mem_read_def)
  then show ?thesis using True i by (simp add: magic_bytes_def in_at_def magic_def)
next
  case False
  then have "length (input_left st) < 2"
    using assms by (simp add: input_left_def window_in_def in_ok_def length_at_index)
  then show ?thesis using False by (simp add: magic_bytes_def magic_def)
qed

text \<open>What \<open>gz_look\<close> leaves behind: a decision, or the end of the data.\<close>

definition looked :: "'z gz_state \<Rightarrow> 'z gz_state \<Rightarrow> bool" where
  "looked st st' \<longleftrightarrow> same_caller st st' \<and> bsize st' \<noteq> 0 \<and>
     (direct st' \<longleftrightarrow> direct st \<and> \<not> magic (input_left st)) \<and>
     (how st' = LOOK \<longrightarrow> x_have st' = 0 \<and> eof st' \<and> avail_in st' = 0) \<and>
     (how st' = COPY \<longrightarrow> x_have st' \<noteq> 0) \<and>
     (how st' = GZIP \<longrightarrow> x_have st' = 0 \<and> length (input_left st') \<le> length (input_left st))"

lemma delivers_decide:
  assumes d: "delivers L decode member st c"
    and st: "how st = LOOK" "x_have st = 0" "bsize st \<noteq> 0" "avail_in st \<noteq> 0"
    and two: "2 \<le> avail_in st \<or> eof st"
  obtains st' where "look_decide L st = Inr (0, st')" and "delivers L decode member st' c"
    and "looked st st'"
proof -
  have inv: "gz_inv st" "calm L st" "inflates L decode member" using d by (simp_all add: delivers_def)
  have in_ok: "in_ok st" and sizes: "length (in_buf st) = bsize st" "length (out_buf st) = 2 * bsize st"
    using inv(1) st(3) by (simp_all add: inv_defs)
  have mb: "magic_bytes st = Inr (magic (input_left st))" by (rule magic_bytes_calm [OF in_ok two])
  have win: "window_out st = []" using st(2) by (simp add: window_out_def)
  have c: "if direct st \<and> \<not> magic (input_left st) then c = input_left st
           else members member (input_left st) c"
    using d win st(1) by (simp add: delivers_def later_def)
  consider "magic (input_left st)" | "\<not> magic (input_left st)" "\<not> direct st"
    | "\<not> magic (input_left st)" "direct st" by blast
  then show ?thesis
  proof cases
    case 1
    let ?st = "st\<lparr>strm_state := inflateReset L (strm_state st), how := GZIP, direct := False\<rparr>"
    have "input_left ?st = input_left st" by (simp add: input_left_def window_in_def)
    moreover have "gz_inv ?st" "calm L ?st" "window_out ?st = []"
      using inv st win by (simp_all add: inv_defs calm_def err_serious_def window_out_def)
    moreover have "decode (inflateReset L (strm_state st)) = member"
      using inv(3) by (simp add: inflates_def)
    ultimately have "delivers L decode member ?st c"
      using c 1 inv(3) by (simp add: delivers_def later_def members_magic)
    then show ?thesis
      by (rule that [rotated]) (use mb 1 st in \<open>simp_all add: look_decide_def looked_def same_caller_def
        input_left_def window_in_def\<close>)
  next
    case 2
    let ?st = "st\<lparr>avail_in := 0, eof := True, x_have := 0\<rparr>"
    have "c = []" using c 2 by (simp add: members_no_magic)
    moreover have "input_left ?st = []" by (simp add: input_left_def window_in_def)
    moreover have "gz_inv ?st" "calm L ?st" "window_out ?st = []"
      using inv st 2 by (simp_all add: inv_defs calm_def err_serious_def window_out_def)
    ultimately have "delivers L decode member ?st c"
      using 2 st inv(3) by (simp add: delivers_def later_def members_no_magic)
    then show ?thesis
      by (rule that [rotated]) (use mb 2 st in \<open>simp_all add: look_decide_def looked_def same_caller_def\<close>)
  next
    case 3
    obtain i where i: "next_in st = Some i" "i + avail_in st \<le> length (in_buf st)"
      using in_ok st(4) by (auto simp: in_ok_def fits_index_pos)
    let ?bs = "mem_read i (avail_in st) (in_buf st)"
    let ?st = "st\<lparr>x_next := Out 0, out_buf := mem_write 0 ?bs (out_buf st), x_have := avail_in st,
      avail_in := 0, how := COPY, direct := True\<rparr>"
    have len: "length ?bs = avail_in st" and fits: "length ?bs \<le> length (out_buf st)"
      using i sizes by simp_all
    have "window_out ?st = window_in st" using i fits len by (simp add: window_out_def window_in_def)
    moreover have "input_left st = window_in st @ input_left ?st"
      by (simp add: input_left_def window_in_def)
    moreover have "gz_inv ?st" using inv(1) st sizes fits len 3 by (simp add: inv_defs)
    moreover have "calm L ?st" using inv(2) st by (simp add: calm_def err_serious_def)
    ultimately have "delivers L decode member ?st c"
      using c 3 inv(3) by (simp add: delivers_def later_def)
    then show ?thesis
      by (rule that [rotated])
        (use mb 3 st i fits len in \<open>simp_all add: look_decide_def in_read_def buf_read_def looked_def same_caller_def\<close>)
  qed
qed

lemma delivers_look:
  assumes d: "delivers L decode member st c" and st: "how st = LOOK" "x_have st = 0"
  obtains st' where "gz_look L st = Inr (0, st')" and "delivers L decode member st' c"
    and "looked st st'"
proof -
  obtain st1 where alloc: "(if bsize st = 0 then look_alloc L st else (0, st)) = (0, st1)"
    and d1: "delivers L decode member st1 c"
    and st1: "bsize st1 \<noteq> 0" "same_caller st st1" "how st1 = LOOK" "x_have st1 = 0"
    and left1: "input_left st1 = input_left st" and dir1: "direct st1 = direct st"
  proof (cases "bsize st = 0")
    case True
    obtain st1 where "look_alloc L st = (0, st1)" "delivers L decode member st1 c" "bsize st1 \<noteq> 0"
      "same_caller st st1" "how st1 = LOOK" "x_have st1 = 0" "input_left st1 = input_left st"
      "direct st1 = direct st"
      by (rule delivers_alloc [OF d True])
    then show ?thesis using that [of st1] True by simp
  next
    case False
    then show ?thesis using that [of st] d st by simp
  qed
  show ?thesis
  proof (cases "avail_in st1 < 2")
    case False
    then obtain st' where "look_decide L st1 = Inr (0, st')" "delivers L decode member st' c"
      "looked st1 st'" using delivers_decide [OF d1 st1(3,4,1)] by auto
    then show ?thesis
      using that [of st'] alloc False st1(2) left1 dir1
      by (auto simp: gz_look_def looked_def intro: same_caller_trans)
  next
    case True
    have "2 \<le> bsize st1" using d1 st1(1) by (simp add: delivers_def inv_defs)
    then have room: "eof st1 \<or> avail_in st1 < bsize st1" using True by simp
    obtain f ib n ni e st2 where
      st2: "st2 = st1\<lparr>fd := f, in_buf := ib, avail_in := n, next_in := ni, eof := e\<rparr>"
      and av: "gz_avail L st1 = Inr (0, st2)" and d2: "delivers L decode member st2 c"
      and left2: "input_left st2 = input_left st1" and full: "e \<or> n = bsize st1"
      by (rule delivers_avail [OF d1 st1(1) _ room]) (simp_all add: st1(3))
    have same2: "same_caller st st2" using st1(2) st2 by (simp add: same_caller_def)
    show ?thesis
    proof (cases "n = 0")
      case True
      then have "e" using full st1(1) by simp
      then have none: "input_left st = []"
        using True left1 left2 st2 by (simp add: input_left_def window_in_def)
      have "gz_look L st = Inr (0, st2)"
        using alloc av True st2 \<open>avail_in st1 < 2\<close> by (simp add: gz_look_def)
      then show ?thesis
        by (rule that [OF _ d2]) (use True \<open>e\<close> st1 st2 same2 dir1 none in \<open>simp add: looked_def\<close>)
    next
      case False
      have two: "2 \<le> avail_in st2 \<or> eof st2" using full \<open>2 \<le> bsize st1\<close> st2 by auto
      obtain st' where dec: "look_decide L st2 = Inr (0, st')" "delivers L decode member st' c"
        "looked st2 st'"
        using delivers_decide [OF d2 _ _ _ _ two] st1 st2 False by auto
      have "gz_look L st = Inr (0, st')"
        using alloc av dec(1) False st2 \<open>avail_in st1 < 2\<close> by (simp add: gz_look_def)
      moreover have "looked st st'"
        using dec(3) same2 left1 left2 dir1 st2 by (auto simp: looked_def intro: same_caller_trans)
      ultimately show ?thesis using that dec(2) by blast
    qed
  qed
qed

subsection \<open>Decompressing\<close>

fun room_at :: "ptr \<Rightarrow> nat \<Rightarrow> byte list \<Rightarrow> byte list \<Rightarrow> bool" where
  "room_at (Out i) n a u \<longleftrightarrow> i + n \<le> length a"
| "room_at (User i) n a u \<longleftrightarrow> i + n \<le> length u"
| "room_at Null n a u \<longleftrightarrow> False"

fun stored :: "ptr \<Rightarrow> byte list \<Rightarrow> byte list \<Rightarrow> byte list \<Rightarrow> byte list \<times> byte list" where
  "stored (Out i) bs a u = (mem_write i bs a, u)"
| "stored (User i) bs a u = (a, mem_write i bs u)"
| "stored Null bs a u = (a, u)"

lemma store_at_room:
  "room_at p n (out_buf st) (user st) \<Longrightarrow> length bs \<le> n \<Longrightarrow>
   store_at p bs st = Inr (st\<lparr>out_buf := fst (stored p bs (out_buf st) (user st)),
                             user := snd (stored p bs (out_buf st) (user st))\<rparr>)"
  by (cases p) auto

lemma mem_write_append:
  "off + length a + length b \<le> length m \<Longrightarrow>
   mem_write (off + length a) b (mem_write off a m) = mem_write off (a @ b) m"
  by (simp add: mem_write_def ac_simps)

lemma length_stored:
  "room_at p n a u \<Longrightarrow> length bs \<le> n \<Longrightarrow> length (fst (stored p bs a u)) = length a"
  "room_at p n a u \<Longrightarrow> length bs \<le> n \<Longrightarrow> length (snd (stored p bs a u)) = length u"
  by (cases p; simp)+

lemma room_after:
  "room_at p n a u \<Longrightarrow> length bs \<le> n \<Longrightarrow>
   room_at (ptr_add p (length bs)) (n - length bs) (fst (stored p bs a u)) (snd (stored p bs a u))"
  by (cases p) auto

lemma stored_append:
  "room_at p n a u \<Longrightarrow> length bs + length cs \<le> n \<Longrightarrow>
   stored (ptr_add p (length bs)) cs (fst (stored p bs a u)) (snd (stored p bs a u)) =
   stored p (bs @ cs) a u"
  by (cases p) (auto simp: mem_write_append)

lemma stored_Nil: "room_at p n a u \<Longrightarrow> stored p [] a u = (a, u)"
  by (cases p) (auto simp: mem_write_def)

lemma ptr_add_0 [simp]: "ptr_add p 0 = p"
  by (cases p) auto

lemma ptr_add_add [simp]: "ptr_add (ptr_add p m) n = ptr_add p (m + n)"
  by (cases p) auto

text \<open>A file in the middle of a member: \<open>out\<close> is the output still to come, \<open>r\<close> the input behind the member.\<close>

definition in_member :: "'z zlib \<Rightarrow> 'z decoder \<Rightarrow> (byte list \<Rightarrow> (byte list \<times> byte list) option) \<Rightarrow>
    'z gz_state \<Rightarrow> byte list \<Rightarrow> byte list \<Rightarrow> bool" where
  "in_member L decode member st out r \<longleftrightarrow>
     inflates L decode member \<and> gz_inv st \<and> calm L st \<and> how st = GZIP \<and> x_have st = 0 \<and>
     decode (strm_state st) (input_left st) = Some (out, r)"

lemma in_member_avail:
  assumes i: "in_member L decode member st out r" and "avail_in st = 0"
  obtains f ib n ni e st' where
    "st' = st\<lparr>fd := f, in_buf := ib, avail_in := n, next_in := ni, eof := e\<rparr>"
    and "gz_avail L st = Inr (0, st')" and "in_member L decode member st' out r" and "n \<noteq> 0"
    and "input_left st' = input_left st"
proof -
  have st: "gz_inv st" "calm L st" "how st = GZIP" "x_have st = 0"
    and dec: "decode (strm_state st) (input_left st) = Some (out, r)"
    and inf: "inflates L decode member"
    using i by (simp_all add: in_member_def)
  have size: "0 < bsize st" "bsize st < 2 ^ 32" "length (in_buf st) = bsize st" "in_ok st"
    using st(1,3) by (auto simp: inv_defs split: if_splits)
  have ok: "no_failure (fd st)" "\<not> err_serious st" using st(2) by (simp_all add: calm_def)
  have room: "eof st \<or> avail_in st < bsize st" using assms(2) size by simp
  obtain f ib n ni e where
    run: "gz_avail L st = Inr (0, st\<lparr>fd := f, in_buf := ib, avail_in := n, next_in := ni, eof := e\<rparr>)"
    and left: "input_left (st\<lparr>fd := f, in_buf := ib, avail_in := n, next_in := ni, eof := e\<rparr>) = input_left st"
    and iok: "in_ok (st\<lparr>fd := f, in_buf := ib, avail_in := n, next_in := ni, eof := e\<rparr>)"
    and rest: "length ib = bsize st" "no_failure f" "e \<or> n = bsize st"
    by (rule gz_avail_calm [OF size ok room])
  let ?st = "st\<lparr>fd := f, in_buf := ib, avail_in := n, next_in := ni, eof := e\<rparr>"
  have "length r < length (input_left st)" by (rule inflates_shorter [OF inf dec])
  then have "input_left ?st \<noteq> []" using left by auto
  then have "n \<noteq> 0" using rest(3) size
    by (cases "n = 0") (auto simp: input_left_def window_in_def split: if_splits)
  moreover have "gz_inv ?st" using st iok rest size by (simp add: inv_defs)
  moreover have "calm L ?st" using st(2) rest(2) by (simp add: calm_def err_serious_def)
  ultimately show ?thesis
    by (intro that [OF refl run _ _ left]) (use dec inf left st in \<open>simp_all add: in_member_def\<close>)
qed

lemma call_inflate_in_member:
  assumes i: "in_member L decode member st out r" and pos: "avail_in st \<noteq> 0" "avail_out st \<noteq> 0"
    and room: "room_at (next_out st) (avail_out st) (out_buf st) (user st)"
  obtains ret bs k ni m z st' where
    "call_inflate L st = Inr (ret, st')" and "length bs \<le> avail_out st"
    and "st' = st\<lparr>out_buf := fst (stored (next_out st) bs (out_buf st) (user st)),
                  user := snd (stored (next_out st) bs (out_buf st) (user st)),
                  strm_state := z, strm_msg := m, next_in := ni, avail_in := k,
                  next_out := ptr_add (next_out st) (length bs), avail_out := avail_out st - length bs\<rparr>"
    and "gz_inv st'" and "calm L st'"
    and "ret = Z_STREAM_END \<and> out = bs \<and> input_left st' = r \<or>
         ret = Z_OK \<and> (\<exists>out'. out = bs @ out' \<and> in_member L decode member st' out' r) \<and>
         length (input_left st') + avail_out st' < length (input_left st) + avail_out st"
proof -
  have st: "gz_inv st" "calm L st" "how st = GZIP" "x_have st = 0"
    and dec: "decode (strm_state st) (input_left st) = Some (out, r)"
    and inf: "inflates L decode member"
    using i by (simp_all add: in_member_def)
  have size: "bsize st \<noteq> 0" using st(1,3) by (auto simp: inv_defs split: if_splits)
  obtain j where j: "next_in st = Some j" "j + avail_in st \<le> length (in_buf st)"
    using st(1) pos(1) by (auto simp: inv_defs fits_index_pos)
  let ?inp = "mem_read j (avail_in st) (in_buf st)" and ?b = "unread (eof st) (fd_rest (fd st))"
  have left: "input_left st = ?inp @ ?b" using j by (simp add: input_left_def window_in_def)
  have len: "length ?inp = avail_in st" using j(2) by simp
  then have ne: "?inp \<noteq> []" using pos(1) by auto
  obtain ret used bs m z where run: "inflate L (strm_state st) ?inp (avail_out st) = (ret, used, bs, m, z)"
    by (cases "inflate L (strm_state st) ?inp (avail_out st)") auto
  have step: "inflate_step L decode (strm_state st) ?inp (avail_out st) ?b out r"
    using inf ne pos(2) dec left unfolding inflates_def by (metis neq0_conv)
  then have used: "used \<le> avail_in st" "length bs \<le> avail_out st"
    and alt: "ret = Z_STREAM_END \<and> bs = out \<and> r = drop used ?inp @ ?b \<or>
      ret = Z_OK \<and> (0 < used \<or> bs \<noteq> []) \<and>
      (\<exists>out'. out = bs @ out' \<and> decode z (drop used ?inp @ ?b) = Some (out', r))"
    using run len by (simp_all add: inflate_step_def)
  let ?st = "st\<lparr>out_buf := fst (stored (next_out st) bs (out_buf st) (user st)),
                  user := snd (stored (next_out st) bs (out_buf st) (user st)),
                  strm_state := z, strm_msg := m, next_in := Some (j + used), avail_in := avail_in st - used,
                  next_out := ptr_add (next_out st) (length bs), avail_out := avail_out st - length bs\<rparr>"
  have call: "call_inflate L st = Inr (ret, ?st)"
    using run j room used by (simp add: call_inflate_def in_read_def buf_read_def store_at_room)
  have left': "input_left ?st = drop used ?inp @ ?b"
    using used by (simp add: input_left_def window_in_def drop_mem_read)
  have inv': "gz_inv ?st" using st size j used length_stored [OF room] by (auto simp: inv_defs)
  have calm': "calm L ?st" using st(2) size by (simp add: calm_def err_serious_def)
  have "length (input_left ?st) + avail_out ?st < length (input_left st) + avail_out st"
    if "0 < used \<or> bs \<noteq> []"
    using that left left' used len by (auto simp flip: length_greater_0_conv)
  then show ?thesis
    by (intro that [OF call used(2) refl inv' calm'])
      (use alt left' inv' calm' st inf in \<open>auto simp: in_member_def\<close>)
qed

text \<open>Between two states of the loop of \<open>gz_decomp\<close> the bytes \<open>bs\<close> were stored.\<close>

definition drained :: "'z gz_state \<Rightarrow> byte list \<Rightarrow> 'z gz_state \<Rightarrow> bool" where
  "drained st bs st' \<longleftrightarrow>
     x_pos st' = x_pos st \<and> past st' = past st \<and> skip st' = skip st \<and> seek st' = seek st \<and>
     bsize st' = bsize st \<and> how st' = how st \<and> x_have st' = x_have st \<and>
     (out_buf st', user st') = stored (next_out st) bs (out_buf st) (user st) \<and>
     next_out st' = ptr_add (next_out st) (length bs) \<and> avail_out st = avail_out st' + length bs"

lemma drained_trans:
  assumes "room_at (next_out a) (avail_out a) (out_buf a) (user a)"
    and ab: "drained a bs b" and bc: "drained b cs c"
  shows "drained a (bs @ cs) c"
proof -
  have "out_buf b = fst (stored (next_out a) bs (out_buf a) (user a))"
    "user b = snd (stored (next_out a) bs (out_buf a) (user a))"
    using ab by (simp_all add: drained_def prod_eq_iff)
  then have "stored (next_out b) cs (out_buf b) (user b) =
      stored (next_out a) (bs @ cs) (out_buf a) (user a)"
    using stored_append [OF assms(1), of bs cs] ab bc by (simp add: drained_def)
  then show ?thesis using ab bc by (simp add: drained_def)
qed

text \<open>One round of the loop: input is provided if there is none left, then \<open>inflate\<close> runs.\<close>

lemma decomp_enter:
  assumes i: "in_member L decode member st out r"
    and room: "room_at (next_out st) (avail_out st) (out_buf st) (user st)"
  obtains st1 where "(if avail_in st = 0 then gz_avail L st else Inr (0, st)) = Inr (0, st1)"
    and "in_member L decode member st1 out r" and "avail_in st1 \<noteq> 0" and "input_left st1 = input_left st"
    and "drained st [] st1"
proof (cases "avail_in st = 0")
  case True
  obtain f ib n ni e st1 where
    "st1 = st\<lparr>fd := f, in_buf := ib, avail_in := n, next_in := ni, eof := e\<rparr>"
    "gz_avail L st = Inr (0, st1)" "in_member L decode member st1 out r" "n \<noteq> 0"
    "input_left st1 = input_left st"
    by (rule in_member_avail [OF i True])
  then show ?thesis using that [of st1] True stored_Nil [OF room]
    by (cases "next_out st") (simp_all add: drained_def)
next
  case False
  then show ?thesis using that [of st] i stored_Nil [OF room]
    by (cases "next_out st") (simp_all add: drained_def)
qed

lemma drained_Nil:
  assumes "room_at (next_out st) (avail_out st) (out_buf st) (user st)" and "drained st [] st'"
  shows "avail_out st' = avail_out st" and "next_out st' = next_out st" and "out_buf st' = out_buf st"
    and "user st' = user st"
  using assms stored_Nil [OF assms(1)] by (cases "next_out st"; simp add: drained_def)+

lemma decomp_turn:
  assumes i: "in_member L decode member st out r" and pos: "avail_out st \<noteq> 0"
    and room: "room_at (next_out st) (avail_out st) (out_buf st) (user st)"
  obtains ret bs st2 where
    "\<forall>ret0. decomp_loop L ret0 st =
      (if avail_out st2 \<noteq> 0 \<and> ret \<noteq> Z_STREAM_END then decomp_loop L ret st2
       else Some (Inr (Some ret, st2)))"
    and "drained st bs st2" and "gz_inv st2" and "calm L st2"
    and "room_at (next_out st2) (avail_out st2) (out_buf st2) (user st2)"
    and "ret = Z_STREAM_END \<and> out = bs \<and> input_left st2 = r \<or>
         ret = Z_OK \<and> (\<exists>out'. out = bs @ out' \<and> in_member L decode member st2 out' r) \<and>
         length (input_left st2) + avail_out st2 < length (input_left st) + avail_out st"
proof -
  obtain st1 where av: "(if avail_in st = 0 then gz_avail L st else Inr (0, st)) = Inr (0, st1)"
    and in1: "in_member L decode member st1 out r" "avail_in st1 \<noteq> 0"
    and left1: "input_left st1 = input_left st" and dr1: "drained st [] st1"
    by (rule decomp_enter [OF i room])
  note io = drained_Nil [OF room dr1]
  have pos1: "avail_out st1 \<noteq> 0" and room1: "room_at (next_out st1) (avail_out st1) (out_buf st1) (user st1)"
    using pos room io by simp_all
  obtain ret bs k ni m z st2 where call: "call_inflate L st1 = Inr (ret, st2)"
    and le: "length bs \<le> avail_out st1"
    and st2: "st2 = st1\<lparr>out_buf := fst (stored (next_out st1) bs (out_buf st1) (user st1)),
                  user := snd (stored (next_out st1) bs (out_buf st1) (user st1)),
                  strm_state := z, strm_msg := m, next_in := ni, avail_in := k,
                  next_out := ptr_add (next_out st1) (length bs), avail_out := avail_out st1 - length bs\<rparr>"
    and inv2: "gz_inv st2" "calm L st2"
    and alt: "ret = Z_STREAM_END \<and> out = bs \<and> input_left st2 = r \<or>
         ret = Z_OK \<and> (\<exists>out'. out = bs @ out' \<and> in_member L decode member st2 out' r) \<and>
         length (input_left st2) + avail_out st2 < length (input_left st1) + avail_out st1"
    by (rule call_inflate_in_member [OF in1 pos1 room1])
  have "drained st1 bs st2" using st2 le by (simp add: drained_def)
  then have dr2: "drained st bs st2" using drained_trans [OF room dr1] by simp
  have loop: "\<forall>ret0. decomp_loop L ret0 st =
      (if avail_out st2 \<noteq> 0 \<and> ret \<noteq> Z_STREAM_END then decomp_loop L ret st2
       else Some (Inr (Some ret, st2)))"
    using av in1(2) call alt by (subst decomp_loop_unfold) (auto simp: decomp_body_def)
  have room2: "room_at (next_out st2) (avail_out st2) (out_buf st2) (user st2)"
    using room_after [OF room1 le] st2 by simp
  show ?thesis
    by (rule that [OF loop dr2 inv2 room2]) (use left1 alt io(1) in simp_all)
qed

lemma decomp_loop_in_member:
  assumes "in_member L decode member st out r" and "avail_out st \<noteq> 0"
    and "room_at (next_out st) (avail_out st) (out_buf st) (user st)"
  shows "\<exists>ret bs out' st'. decomp_loop L ret0 st = Some (Inr (Some ret, st')) \<and>
    out = bs @ out' \<and> drained st bs st' \<and> gz_inv st' \<and> calm L st' \<and>
    (ret = Z_STREAM_END \<and> out' = [] \<and> input_left st' = r \<or>
     ret = Z_OK \<and> avail_out st' = 0 \<and> in_member L decode member st' out' r)"
  using assms
proof (induction "length (input_left st) + avail_out st" arbitrary: st out ret0 rule: less_induct)
  case less
  obtain ret bs st2 where loop: "\<forall>ret0. decomp_loop L ret0 st =
      (if avail_out st2 \<noteq> 0 \<and> ret \<noteq> Z_STREAM_END then decomp_loop L ret st2
       else Some (Inr (Some ret, st2)))"
    and dr: "drained st bs st2" and inv2: "gz_inv st2" "calm L st2"
    and room2: "room_at (next_out st2) (avail_out st2) (out_buf st2) (user st2)"
    and alt: "ret = Z_STREAM_END \<and> out = bs \<and> input_left st2 = r \<or>
         ret = Z_OK \<and> (\<exists>out'. out = bs @ out' \<and> in_member L decode member st2 out' r) \<and>
         length (input_left st2) + avail_out st2 < length (input_left st) + avail_out st"
    by (rule decomp_turn [OF less.prems])
  show ?case
  proof (cases "ret = Z_STREAM_END")
    case True
    then show ?thesis using alt loop dr inv2 by (intro exI [of _ ret] exI [of _ bs] exI [of _ "[]"]) auto
  next
    case False
    then obtain out2 where out2: "ret = Z_OK" "out = bs @ out2" "in_member L decode member st2 out2 r"
      "length (input_left st2) + avail_out st2 < length (input_left st) + avail_out st"
      using alt by auto
    show ?thesis
    proof (cases "avail_out st2 = 0")
      case True
      then show ?thesis using out2 loop dr inv2
        by (intro exI [of _ ret] exI [of _ bs] exI [of _ out2]) auto
    next
      case more: False
      obtain ret' cs out' st' where IH: "decomp_loop L ret st2 = Some (Inr (Some ret', st'))"
        "out2 = cs @ out'" "drained st2 cs st'" "gz_inv st'" "calm L st'"
        "ret' = Z_STREAM_END \<and> out' = [] \<and> input_left st' = r \<or>
         ret' = Z_OK \<and> avail_out st' = 0 \<and> in_member L decode member st' out' r"
        using less.hyps [OF out2(4,3) more room2, of ret] by (elim exE conjE) (rule that)
      have "drained st (bs @ cs) st'" by (rule drained_trans [OF less.prems(3) dr IH(3)])
      then show ?thesis using IH out2 loop more False
        by (intro exI [of _ ret'] exI [of _ "bs @ cs"] exI [of _ out'] exI [of _ st']) auto
    qed
  qed
qed

lemma ptr_sub_add [simp]: "ptr_sub (ptr_add p n) n = p"
  by (cases p) auto

lemma delivers_decomp:
  assumes d: "delivers L decode member st c" and st: "how st = GZIP" "x_have st = 0"
    and pos: "avail_out st \<noteq> 0" "avail_out st < 2 ^ 32"
    and room: "room_at (next_out st) (avail_out st) (out_buf st) (user st)"
  obtains bs c' st' where "gz_decomp L st = Some (Inr (0, st'))" and "c = bs @ c'"
    and "delivers L decode member (st'\<lparr>x_have := 0\<rparr>) c'"
    and "x_have st' = length bs" and "x_next st' = next_out st" and "length bs \<le> avail_out st"
    and "(out_buf st', user st') = stored (next_out st) bs (out_buf st) (user st)"
    and "same_caller (st\<lparr>user := user st'\<rparr>) st'" and "bsize st' = bsize st"
    and "how st' = LOOK \<and> length (input_left st') < length (input_left st) \<or>
         how st' = GZIP \<and> length bs = avail_out st"
proof -
  obtain out r c0 where dec: "decode (strm_state st) (input_left st) = Some (out, r)"
    and c: "members member r c0" "c = out @ c0"
    and ok: "inflates L decode member" "gz_inv st" "calm L st"
    using d st by (auto simp: delivers_def later_def window_out_def)
  then have i: "in_member L decode member st out r" using st by (simp add: in_member_def)
  obtain ret bs out' st1 where loop: "decomp_loop L Z_OK st = Some (Inr (Some ret, st1))"
    and out: "out = bs @ out'" and dr: "drained st bs st1" and inv1: "gz_inv st1" "calm L st1"
    and alt: "ret = Z_STREAM_END \<and> out' = [] \<and> input_left st1 = r \<or>
      ret = Z_OK \<and> avail_out st1 = 0 \<and> in_member L decode member st1 out' r"
    using decomp_loop_in_member [OF i pos(1) room, of Z_OK] by (elim exE conjE) (rule that)
  have had: "usub (avail_out st) (avail_out st1) = length bs" "avail_out st1 = avail_out st - length bs"
    "length bs \<le> avail_out st" "how st1 = GZIP"
    using dr pos(2) st by (auto simp: drained_def)
  have nd: "\<not> direct st1" and sz: "bsize st1 \<noteq> 0"
    using inv1(1) had(4) by (auto simp: inv_defs split: if_splits)
  have shorter: "length r < length (input_left st)" by (rule inflates_shorter [OF ok(1) dec])
  let ?st = "st1\<lparr>x_have := length bs, x_next := next_out st,
                  how := (if ret = Z_STREAM_END then LOOK else GZIP)\<rparr>"
  have run: "gz_decomp L st = Some (Inr (0, ?st))"
    using loop had dr st by (simp add: gz_decomp_def drained_def)
  have left: "input_left (?st\<lparr>x_have := 0\<rparr>) = input_left st1" "input_left ?st = input_left st1"
    by (simp_all add: input_left_def window_in_def)
  have "gz_inv (?st\<lparr>x_have := 0\<rparr>)" using inv1(1) had(4) nd sz by (simp add: inv_defs)
  moreover have "calm L (?st\<lparr>x_have := 0\<rparr>)" using inv1(2) sz by (simp add: calm_def err_serious_def)
  moreover have "later decode member (?st\<lparr>x_have := 0\<rparr>) (out' @ c0)"
    using alt c(1) left nd had(4) by (auto simp: later_def in_member_def)
  ultimately have d': "delivers L decode member (?st\<lparr>x_have := 0\<rparr>) (out' @ c0)"
    using ok(1) by (simp add: delivers_def window_out_def)
  show ?thesis
    by (rule that [OF run _ d'])
      (use c out dr had alt left shorter in \<open>auto simp: drained_def same_caller_def\<close>)
qed

end
