(* ===== verification/Gz_Fetch.thy ===== *)
theory Gz_Fetch
  imports Gz_Stream
begin

text \<open>
  \<open>gz_fetch\<close> (bugs/firefox/zlib/gzread.c) on a file without read errors: it returns, loses nothing of what
  is still to be delivered, and leaves bytes in the output buffer unless there are none left. The loop ends
  because every turn that leaves the buffer empty decides on a header or consumes a member.
\<close>

lemma delivers_window:
  "delivers L decode member st c \<Longrightarrow> x_have st = 0 \<Longrightarrow> later decode member st c"
  by (auto simp: delivers_def window_out_def)

lemma delivers_copy:
  assumes d: "delivers L decode member st c" and st: "how st = COPY" "x_have st = 0"
  shows "c = unread (eof st) (fd_rest (fd st))" and "direct st" and "avail_in st = 0"
    and "eof st \<Longrightarrow> fd_rest (fd st) = []" and "c = fd_rest (fd st)"
    and "2 \<le> bsize st" and "bsize st < 2 ^ 31" and "length (out_buf st) = 2 * bsize st"
proof -
  have i: "gz_inv st" using d by (simp add: delivers_def)
  then show a: "avail_in st = 0" and "direct st" and e: "eof st \<Longrightarrow> fd_rest (fd st) = []"
    and "2 \<le> bsize st" and "bsize st < 2 ^ 31" and "length (out_buf st) = 2 * bsize st"
    using st(1) by (auto simp: inv_defs split: if_splits)
  show c: "c = unread (eof st) (fd_rest (fd st))"
    using delivers_window [OF d st(2)] st(1) a by (simp add: later_def input_left_def window_in_def)
  show "c = fd_rest (fd st)" using c e by (cases "eof st") simp_all
qed

text \<open>A file copied as it is: \<open>gz_load\<close> delivers the next bytes wherever they are wanted.\<close>

lemma delivers_load:
  assumes d: "delivers L decode member st c" and st: "how st = COPY" "x_have st = 0" and "0 < len"
    and put: "\<And>f. put (take len c) (st\<lparr>fd := f\<rparr>) = Inr (g (st\<lparr>fd := f\<rparr>))"
  obtains f where "gz_load L put len st = Inr (0, take len c,
      if length c < len then (g (st\<lparr>fd := f\<rparr>))\<lparr>eof := True\<rparr> else g (st\<lparr>fd := f\<rparr>))"
    and "no_failure f" and "fd_rest f = drop len c"
proof -
  have c: "fd_rest (fd st) = c" using delivers_copy(5) [OF d st] by simp
  have "no_failure (fd st)" using d by (simp add: delivers_def calm_def)
  then obtain f where "no_failure f" "fd_rest f = drop len (fd_rest (fd st))"
    and "\<forall>st1. put (take len (fd_rest (fd st))) (st\<lparr>fd := f\<rparr>) = Inr st1 \<longrightarrow>
       gz_load L put len st = Inr (0, take len (fd_rest (fd st)),
         if length (fd_rest (fd st)) < len then st1\<lparr>eof := True\<rparr> else st1)"
    by (rule gz_load_calm [OF _ assms(4)])
  then show ?thesis using that c put by auto
qed

definition fetched :: "'z gz_state \<Rightarrow> 'z gz_state \<Rightarrow> bool" where
  "fetched st st' \<longleftrightarrow> same_caller st st' \<and> (x_have st' = 0 \<longrightarrow> eof st' \<and> avail_in st' = 0)"

lemma fetch_copy:
  assumes d: "delivers L decode member st c" and st: "how st = COPY" "x_have st = 0"
  shows "\<exists>st'. gz_fetch L st = Some (Inr (0, st')) \<and> delivers L decode member st' c \<and> fetched st st'"
proof -
  note cp = delivers_copy [OF d st]
  have inf: "inflates L decode member" using d by (simp add: delivers_def)
  let ?n = "2 * bsize st"
  let ?g = "\<lambda>st. st\<lparr>out_buf := mem_write 0 (take ?n c) (out_buf st), x_have := length (take ?n c)\<rparr>"
  have put: "put_out (take ?n c) (st\<lparr>fd := f\<rparr>) = Inr (?g (st\<lparr>fd := f\<rparr>))" for f
    using cp(8) by (simp add: put_out_def)
  have "0 < ?n" using cp(6) by simp
  then obtain f where load: "gz_load L put_out ?n st = Inr (0, take ?n c,
      if length c < ?n then (?g (st\<lparr>fd := f\<rparr>))\<lparr>eof := True\<rparr> else ?g (st\<lparr>fd := f\<rparr>))"
    and f: "no_failure f" "fd_rest f = drop ?n c"
    by (rule delivers_load [where put = put_out and g = ?g, OF d st _ put])
  let ?st = "st\<lparr>fd := f, out_buf := mem_write 0 (take ?n c) (out_buf st),
    x_have := length (take ?n c), eof := eof st \<or> length c < ?n, x_next := Out 0\<rparr>"
  have run: "gz_fetch L st = Some (Inr (0, ?st))"
    using load st cp(7) by (subst gz_fetch_unfold) (auto simp: fetch_body_def)
  have eof: "eof st \<Longrightarrow> c = []" using cp(1) by simp
  have out: "window_out ?st = take ?n c" using cp(8) by (simp add: window_out_def)
  have left: "input_left ?st = drop ?n c"
    using f(2) cp(3) eof by (cases "eof st") (auto simp: input_left_def window_in_def unread_idle)
  have "gz_inv ?st"
    using d st cp f eof by (auto simp: delivers_def inv_defs)
  moreover have "calm L ?st" using d f(1) cp(6) by (simp add: delivers_def calm_def err_serious_def)
  ultimately have "delivers L decode member ?st c"
    using inf out left st(1) unfolding delivers_def
    by (intro conjI exI [of _ "drop ?n c"]) (simp_all add: later_def)
  moreover have "fetched st ?st"
    using cp(3,6) by (auto simp: fetched_def same_caller_def)
  ultimately show ?thesis using run by blast
qed

lemma fetch_gzip:
  assumes d: "delivers L decode member st c" and st: "how st = GZIP" "x_have st = 0"
  obtains st' where "gz_decomp L (st\<lparr>avail_out := shl1 (bsize st), next_out := Out 0\<rparr>) = Some (Inr (0, st'))"
    and "delivers L decode member st' c" and "same_caller st st'"
    and "x_have st' = 0 \<longrightarrow> how st' = LOOK \<and> length (input_left st') < length (input_left st)"
proof -
  let ?st = "st\<lparr>avail_out := shl1 (bsize st), next_out := Out 0\<rparr>"
  have sz: "2 \<le> bsize st" "bsize st < 2 ^ 31" "length (out_buf st) = 2 * bsize st"
    using d st(1) by (auto simp: delivers_def inv_defs split: if_splits)
  have d': "delivers L decode member ?st c" using d by simp
  obtain bs c' st' where run: "gz_decomp L ?st = Some (Inr (0, st'))" and c: "c = bs @ c'"
    and d1: "delivers L decode member (st'\<lparr>x_have := 0\<rparr>) c'"
    and st': "x_have st' = length bs" "x_next st' = next_out ?st"
    and le: "length bs \<le> avail_out ?st"
    and buf: "(out_buf st', user st') = stored (next_out ?st) bs (out_buf ?st) (user ?st)"
    and same: "same_caller (?st\<lparr>user := user st'\<rparr>) st'" and bs: "bsize st' = bsize ?st"
    and alt: "how st' = LOOK \<and> length (input_left st') < length (input_left ?st) \<or>
         how st' = GZIP \<and> length bs = avail_out ?st"
    by (rule delivers_decomp [OF d']) (use st sz in simp_all)
  have out: "window_out st' = bs" using buf st' le sz by (simp add: window_out_def)
  have "later decode member st' c'"
    using d1 by (simp add: delivers_def later_def window_out_def input_left_def window_in_def)
  moreover have "gz_inv st'" using d1 st' le sz bs by (simp add: delivers_def inv_defs)
  moreover have "calm L st'" using d1 by (simp add: delivers_def calm_def err_serious_def)
  ultimately have "delivers L decode member st' c" using d c out by (auto simp: delivers_def)
  moreover have "same_caller st st'" using same buf by (simp add: same_caller_def)
  moreover have "input_left ?st = input_left st" by (simp add: input_left_def window_in_def)
  then have "x_have st' = 0 \<longrightarrow> how st' = LOOK \<and> length (input_left st') < length (input_left st)"
    using alt st'(1) sz by auto
  ultimately show ?thesis by (rule that [OF run])
qed

text \<open>\<open>gz_fetch\<close> returns, and leaves bytes in the output buffer unless there are none left.\<close>

lemma delivers_fetch:
  assumes "delivers L decode member st c" and "x_have st = 0"
  shows "\<exists>st'. gz_fetch L st = Some (Inr (0, st')) \<and> delivers L decode member st' c \<and> fetched st st'"
  using assms
proof (induction "2 * length (input_left st) + (if how st = LOOK then 1 else 0)" arbitrary: st
    rule: less_induct)
  case less
  note d = less.prems(1)
  show ?case
  proof (cases "how st")
    case COPY
    then show ?thesis using fetch_copy less.prems by blast
  next
    case LOOK
    obtain st1 where look: "gz_look L st = Inr (0, st1)" and d1: "delivers L decode member st1 c"
      and l: "looked st st1" by (rule delivers_look [OF d LOOK less.prems(2)])
    have eq: "gz_fetch L st = (if how st1 = LOOK \<or> \<not> fetch_more st1 then Some (Inr (0, st1)) else gz_fetch L st1)"
      using LOOK look by (subst gz_fetch_unfold) (auto simp: fetch_body_def)
    show ?thesis
    proof (cases "how st1 = LOOK \<or> \<not> fetch_more st1")
      case True
      then show ?thesis using eq d1 l by (auto simp: looked_def fetched_def fetch_more_def)
    next
      case False
      then have "how st1 = GZIP" "x_have st1 = 0"
        using l by (cases "how st1"; auto simp: looked_def fetch_more_def)+
      moreover have "length (input_left st1) \<le> length (input_left st)" "same_caller st st1"
        using l \<open>how st1 = GZIP\<close> by (simp_all add: looked_def)
      ultimately obtain st' where "gz_fetch L st1 = Some (Inr (0, st'))"
        "delivers L decode member st' c" "fetched st1 st'"
        using less.hyps [OF _ d1] LOOK by auto
      then show ?thesis using eq False \<open>same_caller st st1\<close>
        by (auto simp: fetched_def intro: same_caller_trans)
    qed
  next
    case GZIP
    obtain st1 where dec: "gz_decomp L (st\<lparr>avail_out := shl1 (bsize st), next_out := Out 0\<rparr>) = Some (Inr (0, st1))"
      and d1: "delivers L decode member st1 c" and same: "same_caller st st1"
      and sh: "x_have st1 = 0 \<longrightarrow> how st1 = LOOK \<and> length (input_left st1) < length (input_left st)"
      by (rule fetch_gzip [OF d GZIP less.prems(2)])
    have eq: "gz_fetch L st = (if fetch_more st1 then gz_fetch L st1 else Some (Inr (0, st1)))"
      using GZIP dec by (subst gz_fetch_unfold) (auto simp: fetch_body_def)
    show ?thesis
    proof (cases "fetch_more st1")
      case True
      then have "x_have st1 = 0" by (simp add: fetch_more_def)
      then obtain st' where "gz_fetch L st1 = Some (Inr (0, st'))"
        "delivers L decode member st' c" "fetched st1 st'"
        using less.hyps [OF _ d1] sh GZIP by auto
      then show ?thesis using eq True same by (auto simp: fetched_def intro: same_caller_trans)
    next
      case False
      then show ?thesis using eq d1 same by (auto simp: fetched_def fetch_more_def)
    qed
  qed
qed

end
