(* ===== verification/Gz_Client.thy ===== *)
theory Gz_Client
  imports Gz_Stream
begin

text \<open>
  The reading calls as clients of the fetching routines (bugs/firefox/zlib/gzread.c): gz_skip, gzread,
  gzgetc and gzgets take bytes out of the output buffer and ask for more. What they rely on is the
  contract \<open>byte_source\<close>: a predicate \<open>src st c\<close> that relates a state to the bytes it still delivers.
\<close>

subsection \<open>Progress\<close>

definition at_end :: "'z gz_state \<Rightarrow> bool" where
  "at_end st \<longleftrightarrow> x_have st = 0 \<and> eof st \<and> avail_in st = 0"

text \<open>How many rounds of \<open>gzread\<close> may pass before a byte is delivered.\<close>

definition rank :: "'z gz_state \<Rightarrow> nat" where
  "rank st = (if x_have st \<noteq> 0 \<or> at_end st then 0 else if how st = LOOK then 1 else 2)"

text \<open>The skip that \<open>gzseek\<close> has asked for: what is left of the bytes after it.\<close>

definition after_skip :: "'z gz_state \<Rightarrow> byte list \<Rightarrow> byte list" where
  "after_skip st c = (if seek st then drop (nat (skip st)) c else c)"

text \<open>\<open>len\<close> bytes were asked for at offset \<open>b\<close> of the caller's buffer, and \<open>c\<close> could be delivered.\<close>

definition got_bytes :: "'z gz_state \<Rightarrow> nat \<Rightarrow> nat \<Rightarrow> byte list \<Rightarrow> 'z gz_state \<Rightarrow> bool" where
  "got_bytes st b len c st' \<longleftrightarrow>
     same_caller (st\<lparr>user := mem_write b (take len c) (user st),
       x_pos := x_pos st + int (min len (length c)), past := past st \<or> length c < len\<rparr>) st'"

lemma got_bytes_more:
  assumes "same_caller (st\<lparr>user := mem_write b (take n c) (user st)\<rparr>) st1" and "n \<le> len" "n \<le> length c"
    and "b + len \<le> length (user st)"
    and "got_bytes (st1\<lparr>x_pos := x_pos st1 + int n\<rparr>) (b + n) (len - n) (drop n c) st'"
  shows "got_bytes st b len c st'"
proof -
  have "mem_write (b + length (take n c)) (take (len - n) (drop n c)) (mem_write b (take n c) (user st)) =
      mem_write b (take n c @ take (len - n) (drop n c)) (user st)"
    using assms(2-4) by (intro mem_write_append) simp
  moreover have "take n c @ take (len - n) (drop n c) = take len c"
    using load_pieces(1) [of n len c] assms(2,3) by simp
  ultimately have "mem_write (b + n) (take (len - n) (drop n c)) (mem_write b (take n c) (user st)) =
      mem_write b (take len c) (user st)"
    using assms(3) by simp
  moreover have "int n + int (min (len - n) (length c - n)) = int (min len (length c))"
    and "length c - n < len - n \<longleftrightarrow> length c < len"
    using assms(2,3) by linarith+
  ultimately show ?thesis
    using assms(1,5) by (simp add: got_bytes_def same_caller_def add.assoc)
qed

text \<open>The first line of a byte list, with its newline, and the search for the newline.\<close>

fun line_of :: "byte list \<Rightarrow> byte list" where
  "line_of [] = []"
| "line_of (x # xs) = (if x = newline then [x] else x # line_of xs)"

lemma line_of_append:
  "line_of (xs @ ys) = (if newline \<in> set xs then line_of xs else xs @ line_of ys)"
  by (induction xs) auto

lemma gz_memchr_None: "gz_memchr a xs = None \<longleftrightarrow> a \<notin> set xs"
  by (induction xs) auto

lemma gz_memchr_Some: "gz_memchr newline xs = Some i \<Longrightarrow> i < length xs \<and> take (i + 1) xs = line_of xs"
  by (induction xs arbitrary: i) (auto split: if_splits)

lemma line_of_idem: "line_of (line_of xs) = line_of xs"
  by (induction xs) auto

lemma newline_line_of: "newline \<in> set (line_of xs) \<longleftrightarrow> newline \<in> set xs"
  by (induction xs) auto

lemma gets_stop:
  assumes "0 < n" and "n \<le> length c"
  defines "k \<equiv> (case gz_memchr newline (take n c) of None \<Rightarrow> n | Some i \<Rightarrow> i + 1)"
  shows "0 < k" and "k \<le> n" and "newline \<in> set (take k c) \<longleftrightarrow> gz_memchr newline (take n c) \<noteq> None"
    and "newline \<in> set (take k c) \<longrightarrow> line_of (take k c) = take k c"
proof -
  have "0 < k \<and> k \<le> n \<and> (newline \<in> set (take k c) \<longleftrightarrow> gz_memchr newline (take n c) \<noteq> None) \<and>
    (newline \<in> set (take k c) \<longrightarrow> line_of (take k c) = take k c)"
  proof (cases "gz_memchr newline (take n c)")
    case None
    then have "newline \<notin> set (take n c)" by (simp add: gz_memchr_None)
    then show ?thesis using assms(1) None by (simp add: k_def)
  next
    case (Some i)
    then have i: "i < n" and "take (i + 1) (take n c) = line_of (take n c)"
      using gz_memchr_Some [OF Some] assms(2) by auto
    have "newline \<in> set (take n c)" using Some gz_memchr_None [of newline "take n c"] by auto
    moreover have "take k c = line_of (take n c)"
      using i Some \<open>take (i + 1) (take n c) = line_of (take n c)\<close> by (simp add: k_def min_absorb1 Suc_leI)
    ultimately show ?thesis using Some i by (simp add: k_def line_of_idem newline_line_of)
  qed
  then show "0 < k" and "k \<le> n" and "newline \<in> set (take k c) \<longleftrightarrow> gz_memchr newline (take n c) \<noteq> None"
    and "newline \<in> set (take k c) \<longrightarrow> line_of (take k c) = take k c" by simp_all
qed

text \<open>The bytes \<open>l\<close> went to offset \<open>b\<close> of the caller's buffer.\<close>

definition got_line :: "'z gz_state \<Rightarrow> nat \<Rightarrow> byte list \<Rightarrow> 'z gz_state \<Rightarrow> bool" where
  "got_line st b l st' \<longleftrightarrow>
     same_caller (st\<lparr>user := mem_write b l (user st), x_pos := x_pos st + int (length l)\<rparr>) st'"

lemma got_line_more:
  assumes "got_line st b l st1" and "got_line st1 (b + length l) m (st'\<lparr>past := past st1\<rparr>)"
    and "b + length l + length m \<le> length (user st)"
  shows "got_line st b (l @ m) (st'\<lparr>past := past st\<rparr>)"
  using assms by (simp add: got_line_def same_caller_def mem_write_append)

subsection \<open>The contract\<close>

locale byte_source =
  fixes L :: "'z zlib" and src :: "'z gz_state \<Rightarrow> byte list \<Rightarrow> bool"
  assumes src_ready: "src st c \<Longrightarrow> mode st = GZ_READ \<and> \<not> err_serious st"
    and src_have: "src st c \<Longrightarrow> x_have st < 2 ^ 32 \<and> x_have st \<le> length c"
    and src_out: "src st c \<Longrightarrow> n \<le> x_have st \<Longrightarrow> 0 < n \<Longrightarrow> out_read n st = Inr (take n c)"
    and src_advance: "src st c \<Longrightarrow> n \<le> x_have st \<Longrightarrow> src (advance n st) (drop n c)"
    and src_user: "src (st\<lparr>user := u\<rparr>) c = src st c"
    and src_past: "src (st\<lparr>past := p\<rparr>) c = src st c"
    and src_pos: "src (st\<lparr>x_pos := i\<rparr>) c = src st c"
    and src_seek: "src (st\<lparr>seek := s\<rparr>) c = src st c"
    and src_end: "src st c \<Longrightarrow> at_end st \<Longrightarrow> c = []"
    and src_fetch: "src st c \<Longrightarrow> x_have st = 0 \<Longrightarrow>
      \<exists>st'. gz_fetch L st = Some (Inr (0, st')) \<and> src st' c \<and> same_caller st st' \<and>
            (x_have st' \<noteq> 0 \<or> at_end st')"
    and src_direct: "src st c \<Longrightarrow> x_have st = 0 \<Longrightarrow> \<not> at_end st \<Longrightarrow> how st \<noteq> LOOK \<Longrightarrow>
      shl1 (bsize st) \<le> len \<Longrightarrow> len < 2 ^ 31 \<Longrightarrow> 0 < len \<Longrightarrow> b + len \<le> length (user st) \<Longrightarrow>
      \<exists>n st'. read_round L len b st = Some (Inr (Progress n, st')) \<and> n \<le> len \<and> n \<le> length c \<and>
              src st' (drop n c) \<and> same_caller (st\<lparr>user := mem_write b (take n c) (user st)\<rparr>) st' \<and>
              (n = 0 \<longrightarrow> rank st' < rank st)"
begin

lemmas src_fields = src_user src_past src_pos src_seek

lemma skip_one:
  assumes "0 < len" and "x_have st < 2 ^ 32"
  shows "(if int (x_have st) > len then nat (len mod 2 ^ 32) else x_have st) = min (nat len) (x_have st)"
  using assms by (auto simp: min_def)

lemma skip_spec:
  assumes "src st c" and "0 \<le> len"
  shows "\<exists>st'. gz_skip L len st = Some (Inr (0, st')) \<and> src st' (drop (nat len) c) \<and>
    same_caller (st\<lparr>x_pos := x_pos st + int (min (nat len) (length c))\<rparr>) st'"
  using assms
proof (induction "2 * nat len + (if x_have st \<noteq> 0 \<or> at_end st then 0 else 1)" arbitrary: st c len
    rule: less_induct)
  case less
  note have_le = src_have [OF less.prems(1)]
  consider "len = 0" | "len \<noteq> 0" "x_have st \<noteq> 0" | "len \<noteq> 0" "x_have st = 0" "at_end st"
    | "len \<noteq> 0" "x_have st = 0" "\<not> at_end st" by blast
  then show ?case
  proof cases
    case 1
    then show ?thesis using less.prems by (subst gz_skip_unfold) (simp add: skip_body_def same_caller_def)
  next
    case 2
    define n where "n = min (nat len) (x_have st)"
    have eq: "gz_skip L len st = gz_skip L (len - int n) (advance n st)"
      using 2 less.prems skip_one [of len st] have_le
      by (subst gz_skip_unfold) (simp add: skip_body_def n_def Let_def)
    have n: "0 < n" "int n \<le> len" "n \<le> x_have st" "n \<le> length c"
      using 2 less.prems have_le by (auto simp: n_def)
    have "src (advance n st) (drop n c)" by (rule src_advance [OF less.prems(1) n(3)])
    moreover have "2 * nat (len - int n) + (if x_have (advance n st) \<noteq> 0 \<or> at_end (advance n st) then 0 else 1)
        < 2 * nat len + (if x_have st \<noteq> 0 \<or> at_end st then 0 else 1)"
      using n 2 by (auto simp: nat_diff_distrib)
    ultimately obtain st' where "gz_skip L (len - int n) (advance n st) = Some (Inr (0, st'))"
      "src st' (drop (nat (len - int n)) (drop n c))"
      "same_caller ((advance n st)\<lparr>x_pos := x_pos (advance n st) +
         int (min (nat (len - int n)) (length (drop n c)))\<rparr>) st'"
      using less.hyps [of "len - int n" "advance n st" "drop n c"] n(2) by auto
    then show ?thesis using eq n by (auto simp: same_caller_def advance_def nat_diff_distrib min_def)
  next
    case 3
    then have "c = []" using src_end [OF less.prems(1)] by blast
    then show ?thesis using 3 less.prems by (subst gz_skip_unfold) (simp add: skip_body_def at_end_def same_caller_def)
  next
    case 4
    obtain st1 where f: "gz_fetch L st = Some (Inr (0, st1))" "src st1 c" "same_caller st st1"
      "x_have st1 \<noteq> 0 \<or> at_end st1" using src_fetch [OF less.prems(1) 4(2)] by blast
    have eq: "gz_skip L len st = gz_skip L len st1"
      using 4 f(1) by (subst gz_skip_unfold) (auto simp: skip_body_def at_end_def)
    then show ?thesis using less.hyps [of len st1 c] f 4 less.prems by (auto simp: same_caller_def)
  qed
qed

lemma process_skip_spec:
  assumes "src st c" and "seek st \<longrightarrow> 0 \<le> skip st"
  obtains st' where "process_skip L st = Some (Inr (0, st'))" and "src st' (after_skip st c)"
    and "user st' = user st" and "past st' = past st"
    and "x_pos st' = x_pos st + (if seek st then int (min (nat (skip st)) (length c)) else 0)"
    and "\<not> seek st'"
proof (cases "seek st")
  case True
  have "src (st\<lparr>seek := False\<rparr>) c" using assms(1) by (simp add: src_fields)
  then obtain st' where "gz_skip L (skip st) (st\<lparr>seek := False\<rparr>) = Some (Inr (0, st'))"
    "src st' (drop (nat (skip st)) c)"
    "same_caller (st\<lparr>seek := False, x_pos := x_pos st + int (min (nat (skip st)) (length c))\<rparr>) st'"
    using skip_spec [of "st\<lparr>seek := False\<rparr>" c "skip st"] assms(2) True by auto
  then show ?thesis using that [of st'] True by (simp add: process_skip_def after_skip_def same_caller_def)
next
  case False
  then show ?thesis using that [of st] assms by (simp add: process_skip_def after_skip_def)
qed

subsubsection \<open>gzread\<close>

lemma round_window:
  assumes s: "src st c" and "x_have st \<noteq> 0" and "0 < len" and "b + len \<le> length (user st)"
  obtains n st' where "read_round L len b st = Some (Inr (Progress n, st'))" and "0 < n" and "n \<le> len"
    and "n \<le> length c" and "src st' (drop n c)"
    and "same_caller (st\<lparr>user := mem_write b (take n c) (user st)\<rparr>) st'"
proof -
  define n where "n = min len (x_have st)"
  have n: "0 < n" "n \<le> x_have st" "n \<le> len" "n \<le> length c" "x_have st < 2 ^ 32"
    using assms src_have [OF s] by (auto simp: n_def)
  have "out_read n st = Inr (take n c)" by (rule src_out [OF s n(2,1)])
  moreover have "put_user b (take n c) st = Inr (st\<lparr>user := mem_write b (take n c) (user st)\<rparr>)"
    using n assms(4) by (simp add: put_user_def)
  moreover have "clip (x_have st) len = n" by (simp add: n_def clip_def)
  ultimately have run: "read_round L len b st = Some (Inr (Progress n,
      st\<lparr>user := mem_write b (take n c) (user st), x_next := ptr_add (x_next st) n, x_have := x_have st - n\<rparr>))"
    using assms(2) by (simp add: read_round_def Let_def)
  have "st\<lparr>user := mem_write b (take n c) (user st), x_next := ptr_add (x_next st) n, x_have := x_have st - n\<rparr> =
      (advance n st)\<lparr>user := mem_write b (take n c) (user st), x_pos := x_pos st\<rparr>"
    using n by (simp add: advance_def)
  then have "src (st\<lparr>user := mem_write b (take n c) (user st), x_next := ptr_add (x_next st) n,
      x_have := x_have st - n\<rparr>) (drop n c)"
    using src_advance [OF s n(2)] by (simp add: src_fields)
  then show ?thesis by (rule that [OF run n(1,3,4)]) (simp add: same_caller_def)
qed

lemma round_fetch:
  assumes s: "src st c" and "x_have st = 0" and "\<not> at_end st" and "how st = LOOK \<or> len < shl1 (bsize st)"
  obtains st' where "read_round L len b st = Some (Inr (Continue, st'))" and "src st' c"
    and "same_caller st st'" and "rank st' < rank st"
proof -
  obtain st' where f: "gz_fetch L st = Some (Inr (0, st'))" "src st' c" "same_caller st st'"
    "x_have st' \<noteq> 0 \<or> at_end st'" using src_fetch [OF s assms(2)] by blast
  have "read_round L len b st = Some (Inr (Continue, st'))"
    using assms f(1) by (auto simp: read_round_def at_end_def)
  moreover have "rank st' < rank st" using assms f(4) by (simp add: rank_def)
  ultimately show ?thesis using that f by blast
qed

lemma read_progress:
  assumes r: "read_round L len b st = Some (Inr (Progress n, st1))" "n \<le> len" "n \<le> length c"
    "src st1 (drop n c)" "same_caller (st\<lparr>user := mem_write b (take n c) (user st)\<rparr>) st1"
    and room: "b + len \<le> length (user st)"
    and rest: "n < len \<Longrightarrow> \<exists>st'. read_loop L (len - n) (b + n) (got + n) (st1\<lparr>x_pos := x_pos st1 + int n\<rparr>) =
        Some (Inr (Some (got + n + min (len - n) (length (drop n c))), st')) \<and>
      src st' (drop (len - n) (drop n c)) \<and>
      got_bytes (st1\<lparr>x_pos := x_pos st1 + int n\<rparr>) (b + n) (len - n) (drop n c) st'"
  shows "\<exists>st'. read_loop L len b got st = Some (Inr (Some (got + min len (length c)), st')) \<and>
    src st' (drop len c) \<and> got_bytes st b len c st'"
proof -
  let ?st = "st1\<lparr>x_pos := x_pos st1 + int n\<rparr>"
  have eq: "read_loop L len b got st =
      (if len - n \<noteq> 0 then read_loop L (len - n) (b + n) (got + n) ?st else Some (Inr (Some (got + n), ?st)))"
    using r(1) by (subst read_loop_unfold) (simp add: read_body_def Let_def)
  show ?thesis
  proof (cases "n < len")
    case False
    then have n: "n = len" using r(2) by simp
    have "got_bytes ?st (b + n) (len - n) (drop n c) ?st"
      using n by (simp add: got_bytes_def same_caller_def mem_write_def)
    then have "got_bytes st b len c ?st" by (rule got_bytes_more [OF r(5,2,3) room])
    moreover have "src ?st (drop len c)" using r(4) n by (simp add: src_fields)
    ultimately show ?thesis using eq n r(3) by auto
  next
    case True
    obtain st' where "read_loop L (len - n) (b + n) (got + n) ?st =
        Some (Inr (Some (got + n + min (len - n) (length (drop n c))), st'))"
      "src st' (drop (len - n) (drop n c))" "got_bytes ?st (b + n) (len - n) (drop n c) st'"
      using rest [OF True] by blast
    moreover have "n + min (len - n) (length c - n) = min len (length c)" using r(2,3) by simp
    ultimately show ?thesis
      using eq True r(2,3) got_bytes_more [OF r(5,2,3) room] by (auto simp: add.assoc)
  qed
qed

lemma read_loop_spec:
  assumes "src st c" and "0 < len" and "len < 2 ^ 31" and "b + len \<le> length (user st)"
  shows "\<exists>st'. read_loop L len b got st = Some (Inr (Some (got + min len (length c)), st')) \<and>
    src st' (drop len c) \<and> got_bytes st b len c st'"
  using assms
proof (induction "3 * len + rank st" arbitrary: st c len b got rule: less_induct)
  case less
  note s = less.prems(1)
  have progress: ?case
    if r: "read_round L len b st = Some (Inr (Progress n, st1))" "n \<le> len" "n \<le> length c"
      "src st1 (drop n c)" "same_caller (st\<lparr>user := mem_write b (take n c) (user st)\<rparr>) st1"
      and dec: "n = 0 \<longrightarrow> rank st1 < rank st" for n st1
  proof (rule read_progress [OF r less.prems(4)])
    let ?st = "st1\<lparr>x_pos := x_pos st1 + int n\<rparr>"
    assume "n < len"
    have "rank ?st = rank st1" "rank ?st \<le> 2" by (auto simp: rank_def at_end_def)
    then have "3 * (len - n) + rank ?st < 3 * len + rank st" using dec \<open>n < len\<close> by (cases "n = 0") auto
    moreover have "b + n + (len - n) \<le> length (user ?st)" "len - n < 2 ^ 31" "0 < len - n"
      using r(2,3,5) less.prems \<open>n < len\<close> by (simp_all add: same_caller_def)
    moreover have "src ?st (drop n c)" using r(4) by (simp add: src_fields)
    ultimately show "\<exists>st'. read_loop L (len - n) (b + n) (got + n) ?st =
        Some (Inr (Some (got + n + min (len - n) (length (drop n c))), st')) \<and>
      src st' (drop (len - n) (drop n c)) \<and> got_bytes ?st (b + n) (len - n) (drop n c) st'"
      by (intro less.hyps)
  qed
  consider "x_have st \<noteq> 0" | "x_have st = 0" "at_end st"
    | "x_have st = 0" "\<not> at_end st" "how st = LOOK \<or> len < shl1 (bsize st)"
    | "x_have st = 0" "\<not> at_end st" "how st \<noteq> LOOK" "shl1 (bsize st) \<le> len" by fastforce
  then show ?case
  proof cases
    case 1
    obtain n st1 where "read_round L len b st = Some (Inr (Progress n, st1))" "0 < n" "n \<le> len"
      "n \<le> length c" "src st1 (drop n c)" "same_caller (st\<lparr>user := mem_write b (take n c) (user st)\<rparr>) st1"
      by (rule round_window [OF s 1 less.prems(2,4)])
    then show ?thesis using progress by simp
  next
    case 2
    then have "c = []" using src_end [OF s] by blast
    then show ?thesis using 2 s less.prems
      by (subst read_loop_unfold)
        (auto simp: read_body_def read_round_def at_end_def got_bytes_def same_caller_def src_fields mem_write_def)
  next
    case 3
    obtain st1 where r: "read_round L len b st = Some (Inr (Continue, st1))" "src st1 c"
      "same_caller st st1" "rank st1 < rank st" by (rule round_fetch [OF s 3])
    have eq: "read_loop L len b got st = read_loop L len b got st1"
      using r(1) by (subst read_loop_unfold) (simp add: read_body_def Let_def)
    have "b + len \<le> length (user st1)" using r(3) less.prems(4) by (simp add: same_caller_def)
    then obtain st' where "read_loop L len b got st1 = Some (Inr (Some (got + min len (length c)), st'))"
      "src st' (drop len c)" "got_bytes st1 b len c st'"
      using less.hyps [of len st1 c b got] r less.prems by auto
    then show ?thesis using eq r(3) by (auto simp: got_bytes_def same_caller_def)
  next
    case 4
    then show ?thesis
      using src_direct [OF s 4 less.prems(3,2,4)] progress by blast
  qed
qed

lemma gzread_spec:
  assumes "src st c" and "seek st \<longrightarrow> 0 \<le> skip st" and "0 < len" "len < 2 ^ 31" "len \<le> length buf"
  obtains st' where "gzread L (Some st) buf len =
      Some (Inr (int (min len (length (after_skip st c))), Some st'))"
    and "src st' (drop len (after_skip st c))"
    and "user st' = mem_write 0 (take len (after_skip st c)) buf" and "\<not> seek st'"
    and "past st' = (past st \<or> length (after_skip st c) < len)"
    and "x_pos st' = x_pos st + (if seek st then int (min (nat (skip st)) (length c)) else 0) +
           int (min len (length (after_skip st c)))"
proof -
  let ?st = "st\<lparr>user := buf\<rparr>"
  have s: "src ?st c" "seek ?st \<longrightarrow> 0 \<le> skip ?st" using assms by (simp_all add: src_fields)
  have ready: "mode ?st = GZ_READ" "\<not> err_serious ?st" using src_ready [OF s(1)] by simp_all
  have c: "after_skip ?st c = after_skip st c" by (simp add: after_skip_def)
  obtain st1 where p: "process_skip L ?st = Some (Inr (0, st1))" "src st1 (after_skip ?st c)"
    "user st1 = user ?st" "past st1 = past ?st"
    "x_pos st1 = x_pos ?st + (if seek ?st then int (min (nat (skip ?st)) (length c)) else 0)" "\<not> seek st1"
    by (rule process_skip_spec [OF s])
  obtain st' where r: "read_loop L len 0 0 st1 = Some (Inr (Some (0 + min len (length (after_skip ?st c))), st'))"
    "src st' (drop len (after_skip ?st c))" "got_bytes st1 0 len (after_skip ?st c) st'"
    using read_loop_spec [OF p(2) assms(3,4), of 0 0] p(3) assms(5) by auto
  have "gzread L (Some st) buf len = Some (Inr (int (min len (length (after_skip st c))), Some st'))"
    using ready assms(3,4) p(1) r(1) c by (simp add: gzread_def read_bytes_def Let_def)
  then show ?thesis
    by (rule that) (use r p c in \<open>simp_all add: got_bytes_def same_caller_def\<close>)
qed

subsubsection \<open>gzgetc\<close>

lemma gzgetc_spec:
  assumes s: "src st c" and "seek st \<longrightarrow> 0 \<le> skip st \<and> x_have st = 0"
  obtains st' where "gzgetc L (Some st) =
      Some (Inr (if after_skip st c = [] then -1 else uint (hd (after_skip st c)), Some st'))"
    and "src st' (tl (after_skip st c))" and "\<not> seek st'"
proof (cases "x_have st = 0")
  case False
  then have c: "after_skip st c = c" "\<not> seek st" using assms(2) by (auto simp: after_skip_def)
  have n: "1 \<le> x_have st" "0 < (1 :: nat)" using False by simp_all
  have "c \<noteq> []" using src_have [OF s] False by auto
  moreover have "out_read 1 st = Inr (take 1 c)" by (rule src_out [OF s n])
  ultimately have "gzgetc L (Some st) = Some (Inr (uint (hd c), Some (advance 1 st)))"
    using False src_ready [OF s] by (simp add: gzgetc_def)
  moreover have "src (advance 1 st) (tl c)" using src_advance [OF s n(1)] by (simp add: drop_Suc)
  ultimately show ?thesis using that [of "advance 1 st"] c \<open>c \<noteq> []\<close> by (simp add: advance_def)
next
  case True
  obtain st' where r: "gzread L (Some st) [0] 1 = Some (Inr (int (min 1 (length (after_skip st c))), Some st'))"
    "src st' (drop 1 (after_skip st c))" "user st' = mem_write 0 (take 1 (after_skip st c)) [0]" "\<not> seek st'"
    by (rule gzread_spec [OF s, of 1 "[0]"]) (use assms(2) in auto)
  have "gzgetc L (Some st) =
      Some (Inr (if after_skip st c = [] then -1 else uint (hd (after_skip st c)), Some st'))"
    using True src_ready [OF s] r(1,3)
    by (cases "after_skip st c") (simp_all add: gzgetc_def mem_write_def)
  then show ?thesis by (rule that) (use r in \<open>simp_all add: drop_Suc\<close>)
qed

subsubsection \<open>gzgets\<close>

lemma gets_fill:
  assumes "src st c"
  obtains st1 where "(if x_have st = 0 then gz_fetch L st else Some (Inr (0, st))) = Some (Inr (0, st1))"
    and "src st1 c" and "same_caller st st1" and "x_have st1 = 0 \<longrightarrow> c = []"
proof (cases "x_have st = 0")
  case True
  obtain st1 where "gz_fetch L st = Some (Inr (0, st1))" "src st1 c" "same_caller st st1"
    "x_have st1 \<noteq> 0 \<or> at_end st1" using src_fetch [OF assms True] by blast
  then show ?thesis using that [of st1] True src_end by auto
next
  case False
  then show ?thesis using that [of st] assms by simp
qed

text \<open>One round: a stretch of the line goes to the caller's buffer.\<close>

lemma gets_round:
  assumes s: "src st c" and "c \<noteq> []" and "0 < left" and "b + left \<le> length (user st)"
  obtains l st1 where "0 < length l" and "length l \<le> left" and "c = l @ drop (length l) c"
    and "src st1 (drop (length l) c)" and "got_line st b l st1"
    and "gets_loop L left b st =
      (if left - length l \<noteq> 0 \<and> newline \<notin> set l then gets_loop L (left - length l) (b + length l) st1
       else Some (Inr (Some (b + length l), st1)))"
    and "newline \<in> set l \<longrightarrow> line_of l = l"
proof -
  obtain st0 where fill: "(if x_have st = 0 then gz_fetch L st else Some (Inr (0, st))) = Some (Inr (0, st0))"
    and s0: "src st0 c" and same: "same_caller st st0" and ne: "x_have st0 \<noteq> 0"
    using gets_fill [OF s] assms(2) by blast
  define n where "n = min left (x_have st0)"
  have n: "0 < n" "n \<le> x_have st0" "n \<le> left" "n \<le> length c" "x_have st0 < 2 ^ 32"
    using ne assms(3) src_have [OF s0] by (auto simp: n_def)
  have out: "out_read n st0 = Inr (take n c)" by (rule src_out [OF s0 n(2,1)])
  define k where "k = (case gz_memchr newline (take n c) of None \<Rightarrow> n | Some i \<Rightarrow> i + 1)"
  have k: "0 < k" "k \<le> n" "newline \<in> set (take k c) \<longleftrightarrow> gz_memchr newline (take n c) \<noteq> None"
    "newline \<in> set (take k c) \<longrightarrow> line_of (take k c) = take k c"
    using gets_stop [of n c] n by (auto simp: k_def)
  have kn: "gz_memchr newline (take n c) = None \<Longrightarrow> k = n" by (simp add: k_def)
  let ?u = "mem_write b (take k c) (user st0)"
  have "put_user b (take k (take n c)) st0 = Inr (st0\<lparr>user := ?u\<rparr>)"
    using k(2) n assms(4) same by (simp add: put_user_def same_caller_def min_def)
  moreover have "clip (x_have st0) left = n" by (simp add: n_def clip_def)
  ultimately have eq: "gets_loop L left b st =
      (if left - k \<noteq> 0 \<and> newline \<notin> set (take k c)
       then gets_loop L (left - k) (b + k) (advance k (st0\<lparr>user := ?u\<rparr>))
       else Some (Inr (Some (b + k), advance k (st0\<lparr>user := ?u\<rparr>))))"
    using fill ne out k(3) kn by (subst gets_loop_unfold) (auto simp: gets_body_def Let_def simp flip: k_def)
  have "src (st0\<lparr>user := ?u\<rparr>) c" using s0 by (simp add: src_fields)
  then have src': "src (advance k (st0\<lparr>user := ?u\<rparr>)) (drop k c)" using src_advance k(2) n(2) by simp
  have len: "length (take k c) = k" using k(2) n(4) by simp
  show ?thesis
    by (rule that [of "take k c" "advance k (st0\<lparr>user := ?u\<rparr>)"])
      (use k n len src' eq same in \<open>simp_all add: got_line_def same_caller_def advance_def\<close>)
qed

lemma gets_loop_spec:
  assumes "src st c" and "0 < left" and "b + left \<le> length (user st)"
  shows "\<exists>st'. gets_loop L left b st = Some (Inr (Some (b + length (take left (line_of c))), st')) \<and>
    src st' (drop (length (take left (line_of c))) c) \<and>
    got_line st b (take left (line_of c)) (st'\<lparr>past := past st\<rparr>)"
  using assms
proof (induction left arbitrary: st c b rule: less_induct)
  case (less left)
  note s = less.prems(1)
  show ?case
  proof (cases "c = []")
    case True
    obtain st1 where fill: "(if x_have st = 0 then gz_fetch L st else Some (Inr (0, st))) = Some (Inr (0, st1))"
      and s1: "src st1 c" and same: "same_caller st st1" by (rule gets_fill [OF s])
    have "x_have st1 = 0" using src_have [OF s1] True by simp
    then have "gets_loop L left b st = Some (Inr (Some b, st1\<lparr>past := True\<rparr>))"
      using fill by (subst gets_loop_unfold) (simp add: gets_body_def Let_def)
    then show ?thesis using True s1 same
      by (auto simp: src_fields got_line_def same_caller_def mem_write_def)
  next
    case False
    obtain l st1 where l: "0 < length l" "length l \<le> left" "c = l @ drop (length l) c"
      and s1: "src st1 (drop (length l) c)" and g1: "got_line st b l st1"
      and eq: "gets_loop L left b st =
      (if left - length l \<noteq> 0 \<and> newline \<notin> set l then gets_loop L (left - length l) (b + length l) st1
       else Some (Inr (Some (b + length l), st1)))" and nl: "newline \<in> set l \<longrightarrow> line_of l = l"
      by (rule gets_round [OF s False less.prems(2,3)])
    let ?d = "drop (length l) c"
    have line: "line_of c = (if newline \<in> set l then l else l @ line_of ?d)"
      using line_of_append [of l ?d] l(3) nl by auto
    show ?thesis
    proof (cases "left - length l \<noteq> 0 \<and> newline \<notin> set l")
      case False
      then have "take left (line_of c) = l" using l(2) line by auto
      then show ?thesis using eq False s1 g1 by (auto simp: got_line_def same_caller_def)
    next
      case True
      have "b + length l + (left - length l) \<le> length (user st1)"
        using g1 l(2) less.prems(3) by (simp add: got_line_def same_caller_def)
      then obtain st' where IH: "gets_loop L (left - length l) (b + length l) st1 =
          Some (Inr (Some (b + length l + length (take (left - length l) (line_of ?d))), st'))"
        "src st' (drop (length (take (left - length l) (line_of ?d))) ?d)"
        "got_line st1 (b + length l) (take (left - length l) (line_of ?d)) (st'\<lparr>past := past st1\<rparr>)"
        using less.IH [of "left - length l" st1 ?d "b + length l"] s1 True l(1) less.prems(2) by auto
      have tk: "take left (line_of c) = l @ take (left - length l) (line_of ?d)"
        using line True l(2) by simp
      have "got_line st b (l @ take (left - length l) (line_of ?d)) (st'\<lparr>past := past st\<rparr>)"
        by (rule got_line_more [OF g1 IH(3)]) (use l(2) less.prems(3) in simp)
      then show ?thesis using eq True IH(1,2) tk by (auto simp: add.assoc add.commute)
    qed
  qed
qed

lemma gzgets_spec:
  assumes "src st c" and "seek st \<longrightarrow> 0 \<le> skip st" and "1 \<le> len" "nat len \<le> length ub"
  defines "l \<equiv> take (nat len - 1) (line_of (after_skip st c))"
  obtains st' where "gzgets L (Some st) (Some ub) len = Some (Inr (l \<noteq> [], Some st'))"
    and "src st' (drop (length l) (after_skip st c))"
    and "user st' = (if l = [] then ub else mem_write 0 (l @ [0]) ub)"
proof -
  let ?st = "st\<lparr>user := ub\<rparr>"
  have s: "src ?st c" "seek ?st \<longrightarrow> 0 \<le> skip ?st" using assms by (simp_all add: src_fields)
  have ready: "mode ?st = GZ_READ" "\<not> err_serious ?st" using src_ready [OF s(1)] by simp_all
  have c: "after_skip ?st c = after_skip st c" by (simp add: after_skip_def)
  obtain st1 where p: "process_skip L ?st = Some (Inr (0, st1))" "src st1 (after_skip st c)"
    "user st1 = ub"
    using process_skip_spec [OF s] c by auto
  obtain st2 where loop: "(if nat len - 1 \<noteq> 0 then gets_loop L (nat len - 1) 0 st1 else Some (Inr (Some 0, st1))) =
      Some (Inr (Some (length l), st2))"
    and s2: "src st2 (drop (length l) (after_skip st c))" and u2: "user st2 = mem_write 0 l ub"
  proof (cases "nat len - 1 = 0")
    case True
    then have "l = []" by (simp add: l_def)
    then show ?thesis using that [of st1] True p by (simp add: mem_write_def)
  next
    case False
    then have "0 < nat len - 1" "0 + (nat len - 1) \<le> length (user st1)" using assms(4) p(3) by simp_all
    then show ?thesis
      using gets_loop_spec [OF p(2), of "nat len - 1" 0] that False p(3)
      by (auto simp: l_def got_line_def same_caller_def)
  qed
  have len: "length l + 1 \<le> length ub" using assms(3,4) by (simp add: l_def)
  have start: "gzgets L (Some st) (Some ub) len =
      (if length l = 0 then Some (Inr (False, Some st2))
       else rbind (Some (put_user (length l) [0] st2)) (\<lambda>st. Some (Inr (True, Some st))))"
  proof -
    have "gets_line L (nat len - 1) st1 = (if length l = 0 then Some (Inr (False, Some st2))
       else rbind (Some (put_user (length l) [0] st2)) (\<lambda>st. Some (Inr (True, Some st))))"
      unfolding gets_line_def loop by simp
    then show ?thesis using assms(3) ready p(1) by (simp add: gzgets_def)
  qed
  show ?thesis
  proof (cases "l = []")
    case True
    then show ?thesis using that [of st2] start s2 u2 by (simp add: mem_write_def)
  next
    case False
    have "put_user (length l) [0] st2 = Inr (st2\<lparr>user := mem_write 0 (l @ [0]) ub\<rparr>)"
      using len u2 mem_write_append [of 0 l "[0]" ub] by (simp add: put_user_def)
    then show ?thesis
      using that [of "st2\<lparr>user := mem_write 0 (l @ [0]) ub\<rparr>"] start False s2 by (simp add: src_fields)
  qed
qed

end

end
