(* ===== verification/Gz_File.thy ===== *)
theory Gz_File
  imports Gz_Fetch Gz_Client
begin

text \<open>
  The fetching routines honour the contract of the reading calls (bugs/firefox/zlib/gzread.c): the
  interpretation of \<open>byte_source\<close> on \<open>delivers\<close>, for any decompressor. What a file that has just been
  opened delivers, and bytes pushed back.
\<close>

subsection \<open>The laws\<close>

lemma delivers_bounds:
  assumes d: "delivers L decode member st c"
  shows "length (window_out st) = x_have st" and "x_have st \<le> length c" and "x_have st < 2 ^ 32"
    and "n \<le> x_have st \<Longrightarrow> take n c = take n (window_out st)"
proof -
  have "fits_ptr (x_next st) (x_have st) (out_buf st)" and
    sz: "bsize st = 0 \<longrightarrow> x_have st = 0" "bsize st \<noteq> 0 \<longrightarrow> length (out_buf st) < 2 ^ 32"
    using d by (auto simp: delivers_def inv_defs split: if_splits)
  then show len: "length (window_out st) = x_have st" by (simp add: window_out_def length_at_ptr)
  then show "x_have st \<le> length c" and "n \<le> x_have st \<Longrightarrow> take n c = take n (window_out st)"
    using d by (auto simp: delivers_def)
  show "x_have st < 2 ^ 32"
  proof (cases "x_have st = 0")
    case False
    then have "x_have st \<le> length (out_buf st)"
      using \<open>fits_ptr (x_next st) (x_have st) (out_buf st)\<close> by (auto simp: fits_ptr_pos)
    then show ?thesis using sz False by linarith
  qed simp
qed

lemma delivers_out_read:
  assumes d: "delivers L decode member st c" and n: "n \<le> x_have st" "0 < n"
  obtains i where "x_next st = Out i" and "i + x_have st \<le> length (out_buf st)"
    and "out_read n st = Inr (take n c)"
proof -
  have "gz_inv st" using d by (simp add: delivers_def)
  moreover have "0 < x_have st" using n by simp
  ultimately obtain i where i: "x_next st = Out i" "i + x_have st \<le> length (out_buf st)"
    by (auto simp: gz_inv_def out_ok_def fits_ptr_pos)
  moreover have "take n c = mem_read i n (out_buf st)"
    using delivers_bounds(4) [OF d n(1)] i n by (simp add: window_out_def take_mem_read)
  ultimately show ?thesis using that n by (simp add: out_read_def buf_read_def)
qed

lemma delivers_advance:
  assumes d: "delivers L decode member st c" and n: "n \<le> x_have st"
  shows "delivers L decode member (advance n st) (drop n c)"
proof (cases "n = 0")
  case True
  have "advance 0 st = st" using delivers_bounds(3) [OF d] by (simp add: advance_def)
  then show ?thesis using True d by simp
next
  case False
  obtain i where i: "x_next st = Out i" "i + x_have st \<le> length (out_buf st)"
    using delivers_out_read [OF d n] False by auto
  have us: "usub (x_have st) n = x_have st - n" using delivers_bounds(3) [OF d] n by simp
  obtain c' where c: "c = window_out st @ c'" "later decode member st c'" and
    ok: "inflates L decode member" "gz_inv st" "calm L st" using d by (auto simp: delivers_def)
  have "window_out (advance n st) = drop n (window_out st)"
    using i us by (simp add: advance_def window_out_def drop_mem_read)
  moreover have "drop n c = drop n (window_out st) @ c'"
    using c delivers_bounds(1) [OF d] n by simp
  moreover have "gz_inv (advance n st)"
    using ok(2) i us n by (auto simp: inv_defs advance_def)
  moreover have "calm L (advance n st)" using ok(3) by (simp add: calm_def err_serious_def advance_def)
  moreover have "later decode member (advance n st) c'"
    using c(2) by (simp add: later_def advance_def input_left_def window_in_def)
  ultimately show ?thesis using ok(1) by (simp add: delivers_def)
qed

lemma delivers_end:
  assumes d: "delivers L decode member st c" and e: "at_end st"
  shows "c = []"
proof -
  have left: "input_left st = []" and "x_have st = 0"
    using e by (simp_all add: at_end_def input_left_def window_in_def)
  then have l: "later decode member st c" using delivers_window [OF d] by simp
  have "inflates L decode member" using d by (simp add: delivers_def)
  then have "\<And>z out r. decode z [] \<noteq> Some (out, r)" using inflates_shorter by fastforce
  then show ?thesis using l left by (cases "how st") (auto simp: later_def members_no_magic split: if_splits)
qed

lemma direct_copy:
  assumes d: "delivers L decode member st c" and st: "how st = COPY" "x_have st = 0" "\<not> at_end st"
    and len: "shl1 (bsize st) \<le> len" "0 < len" "b + len \<le> length (user st)"
  shows "\<exists>n st'. read_round L len b st = Some (Inr (Progress n, st')) \<and> n \<le> len \<and> n \<le> length c \<and>
    delivers L decode member st' (drop n c) \<and>
    same_caller (st\<lparr>user := mem_write b (take n c) (user st)\<rparr>) st' \<and> (n = 0 \<longrightarrow> rank st' < rank st)"
proof -
  note cp = delivers_copy [OF d st(1,2)]
  let ?g = "\<lambda>st. st\<lparr>user := mem_write b (take len c) (user st)\<rparr>"
  have put: "put_user b (take len c) (st\<lparr>fd := f\<rparr>) = Inr (?g (st\<lparr>fd := f\<rparr>))" for f
    using len(3) by (simp add: put_user_def)
  obtain f where load: "gz_load L (put_user b) len st = Inr (0, take len c,
      if length c < len then (?g (st\<lparr>fd := f\<rparr>))\<lparr>eof := True\<rparr> else ?g (st\<lparr>fd := f\<rparr>))"
    and f: "no_failure f" "fd_rest f = drop len c"
    by (rule delivers_load [where put = "put_user b" and g = ?g, OF d st(1,2) len(2) put])
  let ?st = "st\<lparr>fd := f, user := mem_write b (take len c) (user st), eof := length c < len\<rparr>"
  have ne: "\<not> eof st" using st cp(3) by (simp add: at_end_def)
  have run: "read_round L len b st = Some (Inr (Progress (length (take len c)), ?st))"
    using load st ne len(1) by (simp add: read_round_def)
  have left: "input_left ?st = drop len c"
    using f(2) cp(3) by (simp add: input_left_def window_in_def unread_idle)
  have "gz_inv ?st" using d st cp f by (auto simp: delivers_def inv_defs)
  moreover have "calm L ?st" using d f(1) cp(6) by (simp add: delivers_def calm_def err_serious_def)
  moreover have "inflates L decode member" using d by (simp add: delivers_def)
  moreover have "later decode member ?st (drop len c)" using left st(1) by (simp add: later_def)
  moreover have "window_out ?st = []" using st(2) by (simp add: window_out_def)
  ultimately have "delivers L decode member ?st (drop len c)" by (simp add: delivers_def)
  moreover have "drop (length (take len c)) c = drop len c" "take (length (take len c)) c = take len c"
    by (simp_all add: min_def)
  moreover have "length (take len c) = 0 \<longrightarrow> rank ?st < rank st"
    using st cp(3) len(2) by (auto simp: rank_def at_end_def)
  ultimately show ?thesis using run
    by (intro exI [of _ "length (take len c)"] exI [of _ ?st]) (simp add: same_caller_def)
qed

lemma direct_gzip:
  assumes d: "delivers L decode member st c" and st: "how st = GZIP" "x_have st = 0" "\<not> at_end st"
    and len: "shl1 (bsize st) \<le> len" "0 < len" "len < 2 ^ 31" "b + len \<le> length (user st)"
  shows "\<exists>n st'. read_round L len b st = Some (Inr (Progress n, st')) \<and> n \<le> len \<and> n \<le> length c \<and>
    delivers L decode member st' (drop n c) \<and>
    same_caller (st\<lparr>user := mem_write b (take n c) (user st)\<rparr>) st' \<and> (n = 0 \<longrightarrow> rank st' < rank st)"
proof -
  let ?st = "st\<lparr>avail_out := len, next_out := User b\<rparr>"
  have d': "delivers L decode member ?st c" using d by simp
  obtain bs c' st' where run: "gz_decomp L ?st = Some (Inr (0, st'))" and c: "c = bs @ c'"
    and d1: "delivers L decode member (st'\<lparr>x_have := 0\<rparr>) c'"
    and st': "x_have st' = length bs" "x_next st' = next_out ?st"
    and le: "length bs \<le> avail_out ?st"
    and buf: "(out_buf st', user st') = stored (next_out ?st) bs (out_buf ?st) (user ?st)"
    and same: "same_caller (?st\<lparr>user := user st'\<rparr>) st'"
    and alt: "how st' = LOOK \<and> length (input_left st') < length (input_left ?st) \<or>
         how st' = GZIP \<and> length bs = avail_out ?st"
    by (rule delivers_decomp [OF d']) (use st len in simp_all)
  have "read_round L len b st = Some (Inr (Progress (length bs), st'\<lparr>x_have := 0\<rparr>))"
    using run st len(1) st'(1) by (auto simp: read_round_def at_end_def)
  moreover have "length bs = 0 \<longrightarrow> rank (st'\<lparr>x_have := 0\<rparr>) < rank st"
    using alt st len(2) by (auto simp: rank_def at_end_def)
  ultimately show ?thesis using c d1 le same buf
    by (intro exI [of _ "length bs"] exI [of _ "st'\<lparr>x_have := 0\<rparr>"]) (simp add: same_caller_def)
qed

interpretation gz: byte_source L "delivers L decode member" for L decode member
proof
  fix st :: "'a gz_state" and c n len b u p i s
  assume d: "delivers L decode member st c"
  show "mode st = GZ_READ \<and> \<not> err_serious st" using d by (simp add: delivers_def calm_def)
  show "x_have st < 2 ^ 32 \<and> x_have st \<le> length c" using delivers_bounds [OF d] by simp
  show "out_read n st = Inr (take n c)" if "n \<le> x_have st" "0 < n"
    using delivers_out_read [OF d that] by auto
  show "delivers L decode member (advance n st) (drop n c)" if "n \<le> x_have st"
    by (rule delivers_advance [OF d that])
  show "c = []" if "at_end st" by (rule delivers_end [OF d that])
  show "\<exists>st'. gz_fetch L st = Some (Inr (0, st')) \<and> delivers L decode member st' c \<and>
      same_caller st st' \<and> (x_have st' \<noteq> 0 \<or> at_end st')" if "x_have st = 0"
    using delivers_fetch [OF d that] by (auto simp: fetched_def at_end_def)
  show "\<exists>n st'. read_round L len b st = Some (Inr (Progress n, st')) \<and> n \<le> len \<and> n \<le> length c \<and>
      delivers L decode member st' (drop n c) \<and>
      same_caller (st\<lparr>user := mem_write b (take n c) (user st)\<rparr>) st' \<and> (n = 0 \<longrightarrow> rank st' < rank st)"
    if "x_have st = 0" "\<not> at_end st" "how st \<noteq> LOOK" "shl1 (bsize st) \<le> len" "len < 2 ^ 31" "0 < len"
      "b + len \<le> length (user st)"
  proof (cases "how st")
    case COPY
    show ?thesis by (rule direct_copy [OF d COPY that(1,2,4,6,7)])
  next
    case GZIP
    show ?thesis by (rule direct_gzip [OF d GZIP that(1,2,4,6,5,7)])
  qed (use that in simp)
qed simp_all

subsection \<open>Opening\<close>

text \<open>
  What the caller is to read from a file: the contents of the members of a gzip file, or the bytes of any
  other file as they are.
\<close>

definition file_content :: "(byte list \<Rightarrow> (byte list \<times> byte list) option) \<Rightarrow> byte list \<Rightarrow> byte list \<Rightarrow> bool"
  where
  "file_content member bytes c \<longleftrightarrow> (if magic bytes then members member bytes c else c = bytes)"

lemma fresh_delivers:
  assumes "inflates L decode member" and "fresh st" and "file_content member (fd_rest (fd st)) c"
    and "calm L st"
  shows "delivers L decode member st c"
proof -
  have "input_left st = fd_rest (fd st)" "window_out st = []"
    using assms(2) by (simp_all add: fresh_def input_left_def window_in_def window_out_def)
  then have "later decode member st c" using assms(2,3)
    by (simp add: later_def fresh_def file_content_def)
  moreover have "gz_inv st" using assms(2) by (simp add: fresh_def inv_defs)
  ultimately show ?thesis using assms \<open>window_out st = []\<close> by (simp add: delivers_def)
qed

text \<open>\<open>gzdirect\<close> on a file that has just been opened says whether the file has no gzip header.\<close>

lemma gzdirect_spec:
  assumes "inflates L decode member" and "fresh st" and "calm L st"
    and "file_content member (fd_rest (fd st)) c"
  shows "\<exists>st'. gzdirect L (Some st) = Inr (\<not> magic (fd_rest (fd st)), Some st') \<and> delivers L decode member st' c"
proof -
  have f: "mode st = GZ_READ" "how st = LOOK" "x_have st = 0" "direct st" "input_left st = fd_rest (fd st)"
    using assms(2) by (simp_all add: fresh_def input_left_def window_in_def)
  obtain st' where look: "gz_look L st = Inr (0, st')" "delivers L decode member st' c" "looked st st'"
    by (rule delivers_look [OF fresh_delivers [OF assms(1,2,4,3)] f(2,3)])
  then have "direct st' \<longleftrightarrow> \<not> magic (fd_rest (fd st))" using f by (simp add: looked_def)
  then show ?thesis using f look by (simp add: gzdirect_def)
qed

subsection \<open>Pushing back\<close>

lemma slide_spec:
  assumes "src \<le> dest" and "dest \<le> length m"
  shows "\<exists>m'. slide src dest m = (dest - src, m') \<and> length m' = length m \<and>
    take src (drop (dest - src) m') = take src m \<and> drop dest m' = drop dest m"
  using assms
proof (induction src arbitrary: dest m)
  case (Suc src)
  then obtain d where d: "dest = Suc d" by (cases dest) auto
  obtain m' where m': "slide src d (m[d := m ! src]) = (d - src, m')" "length m' = length m"
    "take src (drop (d - src) m') = take src (m[d := m ! src])" "drop d m' = drop d (m[d := m ! src])"
    using Suc.IH [of d "m[d := m ! src]"] Suc.prems d by auto
  have "take (Suc src) (drop (d - src) m') = take src (drop (d - src) m') @ [m' ! d]"
    using m'(2) Suc.prems d by (simp add: take_Suc_conv_app_nth)
  moreover have "m' ! d = m ! src"
    using arg_cong [OF m'(4), of hd] m'(2) Suc.prems d by (simp add: hd_drop_conv_nth)
  moreover have "take (Suc src) m = take src m @ [m ! src]"
    using Suc.prems by (simp add: take_Suc_conv_app_nth)
  moreover have "drop (Suc d) m' = drop (Suc d) m"
    using arg_cong [OF m'(4), of "drop 1"] by simp
  ultimately show ?case using m' d Suc.prems by simp
qed simp

lemma make_room_spec:
  assumes d: "delivers L decode member st c" and "x_have st \<noteq> 0" and "x_have st < shl1 (bsize st)"
  obtains j m where "make_room st = Inr (st\<lparr>out_buf := m, x_next := Out (Suc j)\<rparr>)"
    and "length m = length (out_buf st)" and "Suc j + x_have st \<le> length m"
    and "mem_read (Suc j) (x_have st) m = window_out st"
proof -
  have "0 < x_have st" using assms(2) by simp
  then obtain i where i: "x_next st = Out i" "i + x_have st \<le> length (out_buf st)"
    using delivers_out_read [OF d order_refl] by blast
  have sz: "length (out_buf st) = shl1 (bsize st)"
    using d assms(2) by (auto simp: delivers_def inv_defs split: if_splits)
  show ?thesis
  proof (cases i)
    case 0
    obtain m where "slide (x_have st) (shl1 (bsize st)) (out_buf st) = (shl1 (bsize st) - x_have st, m)"
      "length m = length (out_buf st)"
      "take (x_have st) (drop (shl1 (bsize st) - x_have st) m) = take (x_have st) (out_buf st)"
      using slide_spec [of "x_have st" "shl1 (bsize st)" "out_buf st"] assms(3) sz by auto
    then show ?thesis
      using that [where m = m and j = "shl1 (bsize st) - x_have st - 1"] 0 i assms(3) sz
      by (simp add: make_room_def window_out_def mem_read_def Suc_diff_Suc)
  next
    case (Suc j)
    then show ?thesis using that [where m = "out_buf st" and j = j] i by (simp add: make_room_def window_out_def)
  qed
qed

lemma push_spec:
  assumes d: "delivers L decode member st c" and sz: "bsize st \<noteq> 0"
    and m: "length m = length (out_buf st)" "Suc j + x_have st \<le> length m"
      "mem_read (Suc j) (x_have st) m = window_out st"
  obtains st' where "push_byte ch (st\<lparr>out_buf := m, x_have := x_have st + 1, x_next := Out j\<rparr>) = Inr (ch, st')"
    and "delivers L decode member st' (word_of_int ch # c)" and "x_have st' \<noteq> 0"
    and "x_pos st' = x_pos st - 1" and "\<not> past st'" and "seek st' = seek st"
proof -
  let ?m = "mem_write j [word_of_int ch] m"
  let ?st = "st\<lparr>out_buf := ?m, x_have := x_have st + 1, x_next := Out j, x_pos := x_pos st - 1, past := False\<rparr>"
  have run: "push_byte ch (st\<lparr>out_buf := m, x_have := x_have st + 1, x_next := Out j\<rparr>) = Inr (ch, ?st)"
    using m(2) by (simp add: push_byte_def)
  obtain c' where c: "c = window_out st @ c'" "later decode member st c'"
    and ok: "inflates L decode member" "gz_inv st" "calm L st" using d by (auto simp: delivers_def)
  have "window_out ?st = word_of_int ch # window_out st"
    using m(2) by (simp add: window_out_def m(3) [unfolded window_out_def, symmetric] mem_read_def mem_write_def)
  moreover have "gz_inv ?st" using ok(2) sz m by (simp add: inv_defs)
  moreover have "calm L ?st" using ok(3) by (simp add: calm_def err_serious_def)
  moreover have "later decode member ?st c'"
    using c(2) by (simp add: later_def input_left_def window_in_def)
  ultimately have "delivers L decode member ?st (word_of_int ch # c)"
    using ok(1) c(1) unfolding delivers_def by (intro conjI exI [of _ c']) simp_all
  then show ?thesis by (rule that [OF run]) simp_all
qed

lemma gzungetc_spec:
  assumes d: "delivers L decode member st c" and st: "\<not> seek st" "bsize st \<noteq> 0" "x_have st < 2 * bsize st"
    and "0 \<le> ch"
  obtains st' where "gzungetc L ch (Some st) = Some (Inr (ch, Some st'))"
    and "delivers L decode member st' (word_of_int ch # c)" and "x_have st' \<noteq> 0"
    and "x_pos st' = x_pos st - 1" and "\<not> past st'" and "\<not> seek st'"
proof -
  have sz: "shl1 (bsize st) = 2 * bsize st" "length (out_buf st) = 2 * bsize st" "2 \<le> bsize st"
    and ready: "mode st = GZ_READ" "\<not> err_serious st"
    using d st(2) by (simp_all add: delivers_def inv_defs calm_def)
  have skip: "process_skip L st = Some (Inr (0, st))" using st(1) by (simp add: process_skip_def)
  show ?thesis
  proof (cases "x_have st = 0")
    case True
    obtain st' where p: "push_byte ch (st\<lparr>out_buf := out_buf st, x_have := x_have st + 1,
        x_next := Out (2 * bsize st - 1)\<rparr>) = Inr (ch, st')"
      and st': "delivers L decode member st' (word_of_int ch # c)" "x_have st' \<noteq> 0"
        "x_pos st' = x_pos st - 1" "\<not> past st'" "seek st' = seek st"
      by (rule push_spec [OF d st(2), where m = "out_buf st" and j = "2 * bsize st - 1"])
        (use True sz in \<open>simp_all add: window_out_def\<close>)
    have "gzungetc L ch (Some st) = Some (Inr (ch, Some st'))"
      using p True skip ready sz assms(5) by (simp add: gzungetc_def unget_def)
    then show ?thesis by (rule that) (use st' st in simp_all)
  next
    case False
    have "x_have st < shl1 (bsize st)" using st(3) sz by simp
    then obtain j m where room: "make_room st = Inr (st\<lparr>out_buf := m, x_next := Out (Suc j)\<rparr>)"
      and m: "length m = length (out_buf st)" "Suc j + x_have st \<le> length m"
        "mem_read (Suc j) (x_have st) m = window_out st"
      by (rule make_room_spec [OF d False])
    obtain st' where p: "push_byte ch (st\<lparr>out_buf := m, x_have := x_have st + 1, x_next := Out j\<rparr>) = Inr (ch, st')"
      and st': "delivers L decode member st' (word_of_int ch # c)" "x_have st' \<noteq> 0"
        "x_pos st' = x_pos st - 1" "\<not> past st'" "seek st' = seek st"
      by (rule push_spec [OF d st(2) m])
    have "gzungetc L ch (Some st) = Some (Inr (ch, Some st'))"
      using p room False skip ready sz st(3) assms(5) by (simp add: gzungetc_def unget_def)
    then show ?thesis by (rule that) (use st' st in simp_all)
  qed
qed

end
