(* ===== verification/Gz_Safe.thy ===== *)
theory Gz_Safe
  imports Gz_Stream
begin

text \<open>
  The routines of gzread.c (bugs/firefox/zlib) when anything may fail: reads, allocations, the
  decompressor. \<open>ok_run P m\<close> says that the run \<open>m\<close> never accesses memory outside a buffer or through a
  null pointer, and that a state it ends with satisfies \<open>P\<close>; loops are handled by an invariant
  (\<open>do_loop_safe\<close>). Every routine keeps \<open>safe\<close>: the buffers have the sizes the state says, and the
  input and output windows lie in_member them.
\<close>

subsection \<open>Runs without a failure\<close>

definition ok_res :: "('a \<Rightarrow> bool) \<Rightarrow> 'a cres \<Rightarrow> bool" where
  "ok_res P m \<longleftrightarrow> (case m of Inl e \<Rightarrow> False | Inr x \<Rightarrow> P x)"

definition ok_run :: "('a \<Rightarrow> bool) \<Rightarrow> 'a run \<Rightarrow> bool" where
  "ok_run P m \<longleftrightarrow> (case m of None \<Rightarrow> True | Some r \<Rightarrow> ok_res P r)"

lemma ok_res_simps [simp]: "ok_res P (Inr x) = P x" "\<not> ok_res P (Inl e)"
  by (simp_all add: ok_res_def)

lemma ok_run_simps [simp]: "ok_run P None" "ok_run P (Some r) = ok_res P r"
  by (simp_all add: ok_run_def)

lemma ok_res_ebind: "ok_res P m \<Longrightarrow> (\<And>x. P x \<Longrightarrow> ok_res Q (f x)) \<Longrightarrow> ok_res Q (ebind m f)"
  by (cases m) auto

lemma ok_run_rbind: "ok_run P m \<Longrightarrow> (\<And>x. P x \<Longrightarrow> ok_run Q (f x)) \<Longrightarrow> ok_run Q (rbind m f)"
proof (cases m)
  case (Some r)
  then show "ok_run P m \<Longrightarrow> (\<And>x. P x \<Longrightarrow> ok_run Q (f x)) \<Longrightarrow> ok_run Q (rbind m f)" by (cases r) auto
qed simp

lemma ok_res_mono: "ok_res P m \<Longrightarrow> (\<And>x. P x \<Longrightarrow> Q x) \<Longrightarrow> ok_res Q m"
  by (cases m) auto

lemma ok_run_mono: "ok_run P m \<Longrightarrow> (\<And>x. P x \<Longrightarrow> Q x) \<Longrightarrow> ok_run Q m"
  by (auto simp: ok_run_def intro: ok_res_mono split: option.splits)

lemma ok_res_cases: "ok_res P m \<Longrightarrow> (\<And>x. m = Inr x \<Longrightarrow> P x \<Longrightarrow> thesis) \<Longrightarrow> thesis"
  by (cases m) auto

text \<open>An invariant of a loop: every turn keeps it, or leaves the loop as wanted.\<close>

lemma do_loop_safe:
  assumes body: "\<And>s. I s \<Longrightarrow> ok_run (\<lambda>x. case x of Inl s' \<Rightarrow> I s' | Inr r \<Rightarrow> Q r) (body s)" and "I s"
  shows "ok_run Q (do_loop body s)"
proof (cases "do_loop body s")
  case (Some y)
  have "I s \<longrightarrow> (\<forall>t. I t \<longrightarrow> ok_run (\<lambda>x. case x of Inl s' \<Rightarrow> I s' | Inr r \<Rightarrow> Q r) (body t)) \<longrightarrow> ok_res Q y"
  proof (rule do_loop.raw_induct [OF _ Some], intro impI)
    fix loop and body :: "'a \<Rightarrow> ('a + 'b) run" and s y
    assume IH: "\<And>body s y. loop body s = Some y \<Longrightarrow> I s \<longrightarrow>
        (\<forall>t. I t \<longrightarrow> ok_run (\<lambda>x. case x of Inl s' \<Rightarrow> I s' | Inr r \<Rightarrow> Q r) (body t)) \<longrightarrow> ok_res Q y"
      and run: "rbind (body s) (\<lambda>x. case x of Inl s' \<Rightarrow> loop body s' | Inr r \<Rightarrow> Some (Inr r)) = Some y"
      and s: "I s" and all: "\<forall>t. I t \<longrightarrow> ok_run (\<lambda>x. case x of Inl s' \<Rightarrow> I s' | Inr r \<Rightarrow> Q r) (body t)"
    have "ok_run Q (case x of Inl s' \<Rightarrow> loop body s' | Inr r \<Rightarrow> Some (Inr r))"
      if x: "case x of Inl s' \<Rightarrow> I s' | Inr r \<Rightarrow> Q r" for x
    proof (cases x)
      case (Inl s')
      show ?thesis
      proof (cases "loop body s'")
        case (Some w)
        then show ?thesis using IH [OF Some] x all Inl by simp
      qed (simp add: Inl)
    qed (use x in simp)
    then have "ok_run Q (Some y)" unfolding run [symmetric] using all s by (auto intro: ok_run_rbind)
    then show "ok_res Q y" by simp
  qed
  then show ?thesis using assms Some by auto
qed simp

subsection \<open>What is assumed of the library\<close>

text \<open>
  \<open>gz_error\<close> records the error, and empties the output window unless the error is \<open>Z_OK\<close> or
  \<open>Z_BUF_ERROR\<close>. \<open>inflate\<close> consumes no more than it is given and produces no more than there is room for.
\<close>

definition tame :: "'z zlib \<Rightarrow> bool" where
  "tame L \<longleftrightarrow>
     (\<forall>e m st. \<exists>h e' m'. gz_error L e m st = st\<lparr>x_have := h, err := e', msg := m'\<rparr> \<and>
        h = (if e = Z_OK \<or> e = Z_BUF_ERROR then x_have st else 0)) \<and>
     (\<forall>z inp n. case inflate L z inp n of (ret, used, bs, m, z') \<Rightarrow> used \<le> length inp \<and> length bs \<le> n)"

definition safe :: "'z gz_state \<Rightarrow> bool" where
  "safe st \<longleftrightarrow> buffers_ok st \<and> in_ok st \<and> out_ok st \<and> (seek st \<longrightarrow> 0 \<le> skip st)"

lemmas safe_defs = safe_def buffers_ok_def in_ok_def out_ok_def

lemma fits_index_length: "length m = length m' \<Longrightarrow> fits_index p n m = fits_index p n m'"
  by (cases p) auto

lemma fits_ptr_length: "length m = length m' \<Longrightarrow> fits_ptr p n m = fits_ptr p n m'"
  by (cases p) auto

text \<open>What the routines keep: the sizes of the buffers, the output pointer, the request to skip.\<close>

definition kept :: "'z gz_state \<Rightarrow> 'z gz_state \<Rightarrow> bool" where
  "kept st st' \<longleftrightarrow> bsize st' = bsize st \<and> length (out_buf st') = length (out_buf st) \<and>
     length (user st') = length (user st) \<and> (x_have st' = x_have st \<or> x_have st' = 0) \<and>
     next_out st' = next_out st \<and> avail_out st' = avail_out st \<and> how st' = how st"

lemma kept_refl [simp]: "kept st st"
  by (simp add: kept_def)

lemma kept_trans: "kept a b \<Longrightarrow> kept b c \<Longrightarrow> kept a c"
  by (auto simp: kept_def)

lemma gz_error_safe:
  assumes "tame L" and "safe st"
  shows "safe (gz_error L e m st)" and "kept st (gz_error L e m st)"
proof -
  obtain h e' m' where "gz_error L e m st = st\<lparr>x_have := h, err := e', msg := m'\<rparr>" "h = 0 \<or> h = x_have st"
    using assms(1) unfolding tame_def by metis
  then show "safe (gz_error L e m st)" and "kept st (gz_error L e m st)"
    using assms(2) by (auto simp: safe_defs kept_def)
qed

text \<open>A fatal error empties the output window, whatever \<open>x.next\<close> is by then.\<close>

lemma gz_error_fatal:
  assumes "tame L" and "safe (st\<lparr>x_have := 0\<rparr>)"
  shows "safe (gz_error L Z_ERRNO m st)" and "length (user (gz_error L Z_ERRNO m st)) = length (user st)"
    and "bsize (gz_error L Z_ERRNO m st) = bsize st"
proof -
  obtain h e' m' where "gz_error L Z_ERRNO m st = st\<lparr>x_have := h, err := e', msg := m'\<rparr>"
    "h = (if Z_ERRNO = Z_OK \<or> Z_ERRNO = Z_BUF_ERROR then x_have st else 0)"
    using assms(1) unfolding tame_def by metis
  then have "gz_error L Z_ERRNO m st = st\<lparr>x_have := 0, err := e', msg := m'\<rparr>" by simp
  then show "safe (gz_error L Z_ERRNO m st)" and "length (user (gz_error L Z_ERRNO m st)) = length (user st)"
    and "bsize (gz_error L Z_ERRNO m st) = bsize st"
    using assms(2) by (simp_all add: safe_defs)
qed

subsection \<open>Loading\<close>

lemma sys_read_length: "sys_read n f = (Inr bs, f') \<Longrightarrow> length bs \<le> n"
  by (auto simp: sys_read_def split: list.splits read_outcome.splits)

lemma load_loop_length:
  "length got \<le> len \<Longrightarrow> load_loop len got f = (r, bs, f') \<Longrightarrow> length bs \<le> len"
proof (induction len got f rule: load_loop.induct)
  case (1 len got f)
  obtain q f1 where rd: "sys_read (len - length got) f = (q, f1)" by (cases "sys_read (len - length got) f")
  show ?case
  proof (cases q)
    case (Inl e)
    then show ?thesis using "1.prems" rd by (simp add: load_loop.simps [of len got f])
  next
    case (Inr xs)
    then have "length xs \<le> len - length got" using sys_read_length rd by simp
    then show ?thesis
      using "1.IH" [OF rd [symmetric] Inr] "1.prems" rd Inr
      by (auto simp: load_loop.simps [of len got f] split: if_splits)
  qed
qed

lemma gz_load_cases:
  obtains (failed) bs f e where "length bs \<le> len"
      and "gz_load L put len st = ebind (put bs (st\<lparr>fd := f\<rparr>)) (\<lambda>st1. Inr (-1, bs, gz_error L Z_ERRNO (Some e) st1))"
  | (loaded) bs f z where "length bs \<le> len"
      and "gz_load L put len st = ebind (put bs (st\<lparr>fd := f\<rparr>)) (\<lambda>st1. Inr (0, bs, st1\<lparr>eof := z \<or> eof st1\<rparr>))"
proof -
  obtain r bs f where run: "load_loop len [] (fd st) = (r, bs, f)" by (cases "load_loop len [] (fd st)")
  then have len: "length bs \<le> len" using load_loop_length [of "[]" len] by simp
  show ?thesis
  proof (cases r)
    case (Inl e)
    then show ?thesis using failed [OF len, of f e] run by (simp add: gz_load_def)
  next
    case (Inr n)
    have "gz_load L put len st = ebind (put bs (st\<lparr>fd := f\<rparr>)) (\<lambda>st1. Inr (0, bs, st1\<lparr>eof := n = 0 \<or> eof st1\<rparr>))"
      using run Inr by (cases "n = 0"; cases "put bs (st\<lparr>fd := f\<rparr>)") (simp_all add: gz_load_def)
    then show ?thesis by (rule loaded [OF len])
  qed
qed

lemma safe_eof [simp]: "safe (st\<lparr>eof := e\<rparr>) = safe st"
  by (simp add: safe_defs)

lemma move_down_safe:
  assumes "safe st" and "bsize st \<noteq> 0"
  obtains m where "(if avail_in st \<noteq> 0 then move_down st else Inr st) = Inr (st\<lparr>in_buf := m\<rparr>)"
    and "length m = bsize st"
proof (cases "avail_in st = 0")
  case True
  then show ?thesis using that [of "in_buf st"] assms by (simp add: safe_defs)
next
  case False
  then obtain q where "next_in st = Some q" "q + avail_in st \<le> length (in_buf st)"
    using assms by (auto simp: safe_defs fits_index_pos)
  then show ?thesis
    using that [of "copy_fwd 0 q (avail_in st) (in_buf st)"] assms False by (simp add: move_down_def safe_defs)
qed

lemma avail_in_le: "safe st \<Longrightarrow> bsize st \<noteq> 0 \<Longrightarrow> avail_in st \<le> bsize st"
  by (cases "avail_in st = 0") (auto simp: safe_defs fits_index_pos)

lemma gz_avail_safe:
  assumes L: "tame L" and st: "safe st" "bsize st \<noteq> 0"
  shows "ok_res (\<lambda>(ret, st'). safe st' \<and> kept st st') (gz_avail L st)"
proof (cases "err_serious st \<or> eof st")
  case True
  then show ?thesis using st by (auto simp: gz_avail_def)
next
  case False
  have sz: "bsize st < 2 ^ 32" using st by (simp add: safe_defs)
  note a = avail_in_le [OF st]
  obtain m where mv: "(if avail_in st \<noteq> 0 then move_down st else Inr st) = Inr (st\<lparr>in_buf := m\<rparr>)"
    and m: "length m = bsize st" by (rule move_down_safe [OF st])
  let ?len = "bsize st - avail_in st"
  have iok: "fits_index (next_in st) (avail_in st) m'" if "length m' = bsize st" for m'
    using st that fits_index_length [of "in_buf st" m'] by (simp add: safe_defs)
  have put: "put_in bs (st\<lparr>in_buf := m, fd := f\<rparr>) = Inr (st\<lparr>in_buf := mem_write (avail_in st) bs m, fd := f\<rparr>)"
    and safe1: "safe (st\<lparr>in_buf := mem_write (avail_in st) bs m, fd := f\<rparr>)"
    and safe2: "safe (st\<lparr>in_buf := mem_write (avail_in st) bs m, fd := f,
      avail_in := avail_in st + length bs, next_in := Some 0\<rparr>)"
    if "length bs \<le> ?len" for bs f
  proof -
    have "avail_in st + length bs \<le> bsize st" using that a by simp
    then show "put_in bs (st\<lparr>in_buf := m, fd := f\<rparr>) = Inr (st\<lparr>in_buf := mem_write (avail_in st) bs m, fd := f\<rparr>)"
      and "safe (st\<lparr>in_buf := mem_write (avail_in st) bs m, fd := f\<rparr>)"
      and "safe (st\<lparr>in_buf := mem_write (avail_in st) bs m, fd := f,
        avail_in := avail_in st + length bs, next_in := Some 0\<rparr>)"
      using m st iok [of "mem_write (avail_in st) bs m"] by (simp_all add: put_in_def safe_defs)
  qed
  show ?thesis
  proof (rule gz_load_cases [of ?len L put_in "st\<lparr>in_buf := m\<rparr>"])
    fix bs f e assume len: "length bs \<le> ?len" and
      ld: "gz_load L put_in ?len (st\<lparr>in_buf := m\<rparr>) = ebind (put_in bs (st\<lparr>in_buf := m, fd := f\<rparr>))
        (\<lambda>st1. Inr (-1, bs, gz_error L Z_ERRNO (Some e) st1))"
    have k: "kept st (st\<lparr>in_buf := mem_write (avail_in st) bs m, fd := f\<rparr>)" by (simp add: kept_def)
    show ?thesis
      using False mv ld put [OF len] sz a gz_error_safe [OF L safe1 [OF len, of f], of Z_ERRNO "Some e"] k
      by (auto simp: gz_avail_def intro: kept_trans)
  next
    fix bs f z assume len: "length bs \<le> ?len" and
      ld: "gz_load L put_in ?len (st\<lparr>in_buf := m\<rparr>) = ebind (put_in bs (st\<lparr>in_buf := m, fd := f\<rparr>))
        (\<lambda>st1. Inr (0, bs, st1\<lparr>eof := z \<or> eof st1\<rparr>))"
    let ?st = "st\<lparr>in_buf := mem_write (avail_in st) bs m, fd := f, eof := z \<or> eof st,
      avail_in := avail_in st + length bs, next_in := Some 0\<rparr>"
    have "gz_avail L st = Inr (0, ?st)" using False mv ld put [OF len] sz a by (simp add: gz_avail_def)
    moreover have "safe ?st" using safe2 [OF len, of f] st(2) by (simp add: safe_defs) linarith
    moreover have "kept st ?st" by (simp add: kept_def)
    ultimately show ?thesis by simp
  qed
qed

subsection \<open>Looking\<close>

lemma gz_malloc_length: "gz_malloc n st = (m, st') \<Longrightarrow> (\<forall>b. m = Some b \<longrightarrow> length b = n) \<and> (\<exists>ms. st' = st\<lparr>mallocs := ms\<rparr>)"
  by (auto simp: gz_malloc_def split: list.splits option.splits intro: exI [of _ "mallocs st"])

definition alloc_ok :: "'z gz_state \<Rightarrow> 'z gz_state \<Rightarrow> bool" where
  "alloc_ok st st' \<longleftrightarrow> safe st' \<and> length (user st') = length (user st) \<and> how st' = LOOK \<and> x_have st' = 0"

lemma alloc_ok_error:
  assumes "tame L" and "alloc_ok st st'"
  shows "alloc_ok st (gz_error L e m st')"
  using assms gz_error_safe [OF assms(1), of st' e m] by (auto simp: alloc_ok_def kept_def)

lemma look_alloc_safe:
  assumes L: "tame L" and st: "safe st" "bsize st = 0" and run: "look_alloc L st = (ret, st')"
  shows "alloc_ok st st' \<and> (ret = -1 \<or> bsize st' \<noteq> 0)"
proof -
  have z: "2 \<le> want st" "want st < 2 ^ 31" "how st = LOOK" "x_have st = 0" "avail_in st = 0"
    "seek st \<longrightarrow> 0 \<le> skip st"
    using st by (simp_all add: safe_defs)
  obtain ib st1 where m1: "gz_malloc (want st) st = (ib, st1)" by (cases "gz_malloc (want st) st")
  obtain ob st2 where m2: "gz_malloc (shl1 (want st)) st1 = (ob, st2)" by (cases "gz_malloc (shl1 (want st)) st1")
  obtain ms where st2: "st2 = st\<lparr>mallocs := ms\<rparr>" and
    len: "\<forall>b. ib = Some b \<longrightarrow> length b = want st" "\<forall>b. ob = Some b \<longrightarrow> length b = 2 * want st"
    using gz_malloc_length [OF m1] gz_malloc_length [OF m2] z(2) by auto
  obtain r w where init: "inflateInit2 L (strm_state st) = (r, w)" by (cases "inflateInit2 L (strm_state st)")
  have e1: "alloc_ok st (st2\<lparr>in_buf := [], out_buf := []\<rparr>)"
    and e2: "alloc_ok st (st2\<lparr>avail_in := 0, next_in := None, strm_state := w, in_buf := [], out_buf := [], bsize := 0\<rparr>)"
    using st z st2 by (simp_all add: alloc_ok_def safe_defs)
  show ?thesis
  proof (cases "ib = None \<or> ob = None")
    case True
    then have "ret = -1" "st' = gz_error L Z_MEM_ERROR (Some ''out of memory'') (st2\<lparr>in_buf := [], out_buf := []\<rparr>)"
      using run m1 m2 by (auto simp: look_alloc_def)
    then show ?thesis using alloc_ok_error [OF L e1] by simp
  next
    case False
    then obtain ibs obs where some: "ib = Some ibs" "ob = Some obs" by auto
    let ?st = "st2\<lparr>in_buf := ibs, out_buf := obs, bsize := want st, avail_in := 0, next_in := None, strm_state := w\<rparr>"
    have ok: "alloc_ok st ?st" using st z st2 len some by (simp add: alloc_ok_def safe_defs)
    show ?thesis
    proof (cases "r = Z_OK")
      case True
      then have "st' = ?st" using run m1 m2 some init st2 by (simp add: look_alloc_def Let_def)
      then show ?thesis using ok z by simp
    next
      case False
      then have "ret = -1" "st' = gz_error L Z_MEM_ERROR (Some ''out of memory'')
          (st2\<lparr>avail_in := 0, next_in := None, strm_state := w, in_buf := [], out_buf := [], bsize := 0\<rparr>)"
        using run m1 m2 some init st2 by (simp_all add: look_alloc_def Let_def)
      then show ?thesis using alloc_ok_error [OF L e2] by simp
    qed
  qed
qed

text \<open>What the fetching routines guarantee to their callers.\<close>

definition served :: "'z gz_state \<Rightarrow> 'z gz_state \<Rightarrow> bool" where
  "served st st' \<longleftrightarrow> safe st' \<and> length (user st') = length (user st) \<and> (bsize st \<noteq> 0 \<longrightarrow> bsize st' \<noteq> 0)"

lemma magic_bytes_safe:
  assumes "safe st"
  obtains g where "magic_bytes st = Inr g"
proof (cases "avail_in st > 1")
  case True
  then obtain q where "next_in st = Some q" "q + avail_in st \<le> length (in_buf st)"
    using assms by (auto simp: safe_defs fits_index_pos)
  then show ?thesis using that True
    by (cases "in_buf st ! q = 31") (auto simp: magic_bytes_def in_at_def)
next
  case False
  then show ?thesis using that by (simp add: magic_bytes_def)
qed

lemma look_decide_safe:
  assumes st: "safe st" "bsize st \<noteq> 0" and x: "x_have st = 0"
  shows "ok_res (\<lambda>(ret, st'). served st st' \<and> bsize st' \<noteq> 0) (look_decide L st)"
proof -
  obtain g where g: "magic_bytes st = Inr g" by (rule magic_bytes_safe [OF st(1)])
  have "ok_res (\<lambda>(ret, st'). served st st' \<and> bsize st' \<noteq> 0) (look_decide L st)"
    if c: "\<not> g" "direct st" "avail_in st \<noteq> 0"
  proof -
    obtain q where q: "next_in st = Some q" "q + avail_in st \<le> length (in_buf st)"
      using st c(3) by (auto simp: safe_defs fits_index_pos)
    then have "length (mem_read q (avail_in st) (in_buf st)) \<le> length (out_buf st)"
      using st by (simp add: safe_defs)
    then show ?thesis
      using g c q st by (auto simp: look_decide_def in_read_def buf_read_def served_def safe_defs)
  qed
  then show ?thesis using g st x by (cases g; cases "direct st"; cases "avail_in st = 0")
    (simp_all add: look_decide_def served_def safe_defs)
qed

lemma gz_look_safe:
  assumes L: "tame L" and st: "safe st" "x_have st = 0" "how st = LOOK"
  shows "ok_res (\<lambda>(ret, st'). served st st' \<and> (ret = -1 \<or> bsize st' \<noteq> 0)) (gz_look L st)"
proof -
  obtain ret st1 where alloc: "(if bsize st = 0 then look_alloc L st else (0, st)) = (ret, st1)"
    by (cases "if bsize st = 0 then look_alloc L st else (0, st)")
  have st1: "alloc_ok st st1" "ret = -1 \<or> bsize st1 \<noteq> 0"
    using look_alloc_safe [OF L st(1)] alloc st by (cases "bsize st = 0"; auto simp: alloc_ok_def)+
  have dec: "ok_res (\<lambda>(ret, st'). served st st' \<and> (ret = -1 \<or> bsize st' \<noteq> 0)) (look_decide L s)"
    if "safe s" "bsize s \<noteq> 0" "x_have s = 0" "length (user s) = length (user st)" for s
    by (rule ok_res_mono [OF look_decide_safe [OF that(1-3)]]) (use that(4) in \<open>auto simp: served_def\<close>)
  show ?thesis
  proof (cases "ret = -1")
    case True
    then have "bsize st = 0" using alloc by (cases "bsize st = 0") simp_all
    then show ?thesis using True alloc st1 by (simp add: gz_look_def alloc_ok_def served_def)
  next
    case False
    then have s1: "safe st1" "bsize st1 \<noteq> 0" "x_have st1 = 0" "length (user st1) = length (user st)"
      using st1 by (simp_all add: alloc_ok_def)
    have "ok_res (\<lambda>(ret, st'). served st st' \<and> (ret = -1 \<or> bsize st' \<noteq> 0))
      (ebind (gz_avail L st1) (\<lambda>(ret, st).
               if ret = -1 then Inr (-1, st)
               else if avail_in st = 0 then Inr (0, st)
               else look_decide L st))"
      by (rule ok_res_ebind [OF gz_avail_safe [OF L s1(1,2)]])
        (use s1 dec in \<open>auto simp: kept_def served_def\<close>)
    then show ?thesis using alloc False dec [OF s1] by (simp add: gz_look_def)
  qed
qed

subsection \<open>Decompressing\<close>

definition drain :: "'z gz_state \<Rightarrow> 'z gz_state \<Rightarrow> bool" where
  "drain st st' \<longleftrightarrow> bsize st' = bsize st \<and> length (out_buf st') = length (out_buf st) \<and>
     length (user st') = length (user st) \<and> (x_have st' = x_have st \<or> x_have st' = 0) \<and>
     (\<exists>k. avail_out st = avail_out st' + k \<and> next_out st' = ptr_add (next_out st) k)"

definition has_room :: "'z gz_state \<Rightarrow> bool" where
  "has_room st \<longleftrightarrow> room_at (next_out st) (avail_out st) (out_buf st) (user st)"

lemma kept_drain: "kept st st' \<Longrightarrow> drain st st'"
  by (auto simp: kept_def drain_def)

lemma drain_trans: "drain a b \<Longrightarrow> drain b c \<Longrightarrow> drain a c"
  unfolding drain_def by (metis (no_types, lifting) add.assoc add.commute ptr_add_add)

lemma drain_room: "drain st st' \<Longrightarrow> has_room st \<Longrightarrow> has_room st'"
  by (cases "next_out st") (auto simp: drain_def has_room_def)

lemma call_inflate_safe:
  assumes L: "tame L" and st: "safe st" "bsize st \<noteq> 0" "avail_in st \<noteq> 0" "has_room st"
  shows "ok_res (\<lambda>(ret, st'). safe st' \<and> drain st st') (call_inflate L st)"
proof -
  obtain q where q: "next_in st = Some q" "q + avail_in st \<le> length (in_buf st)"
    using st by (auto simp: safe_defs fits_index_pos)
  let ?inp = "mem_read q (avail_in st) (in_buf st)"
  obtain ret used bs m z where run: "inflate L (strm_state st) ?inp (avail_out st) = (ret, used, bs, m, z)"
    by (cases "inflate L (strm_state st) ?inp (avail_out st)") auto
  have "case inflate L (strm_state st) ?inp (avail_out st) of (ret, used, bs, m, z') \<Rightarrow>
      used \<le> length ?inp \<and> length bs \<le> avail_out st"
    using L by (simp add: tame_def)
  then have b: "used \<le> avail_in st" "length bs \<le> avail_out st" using run q(2) by simp_all
  have room: "room_at (next_out st) (avail_out st) (out_buf st) (user st)" using st(4) by (simp add: has_room_def)
  let ?o = "fst (stored (next_out st) bs (out_buf st) (user st))" and
    ?u = "snd (stored (next_out st) bs (out_buf st) (user st))"
  let ?st = "st\<lparr>out_buf := ?o, user := ?u, strm_state := z, strm_msg := m, next_in := Some (q + used),
    avail_in := avail_in st - used, next_out := ptr_add (next_out st) (length bs),
    avail_out := avail_out st - length bs\<rparr>"
  have call: "call_inflate L st = Inr (ret, ?st)"
    using run q b store_at_room [OF room b(2)] by (simp add: call_inflate_def in_read_def buf_read_def)
  note len = length_stored [OF room b(2)]
  have "fits_ptr (x_next st) (x_have st) ?o = fits_ptr (x_next st) (x_have st) (out_buf st)"
    by (rule fits_ptr_length [OF len(1)])
  then have "safe ?st" using st(1,2) q b(1) len by (simp add: safe_defs)
  moreover have "drain st ?st" unfolding drain_def using len b(2) by (intro conjI exI [of _ "length bs"]) simp_all
  ultimately show ?thesis using call by simp
qed

lemma decomp_loop_safe:
  assumes L: "tame L" and st: "safe st" "bsize st \<noteq> 0" "has_room st"
  shows "ok_run (\<lambda>(r, st'). safe st' \<and> drain st st') (decomp_loop L ret st)"
  unfolding decomp_loop_def
proof (rule do_loop_safe [where I = "\<lambda>(ret, s). safe s \<and> drain st s"])
  fix rs :: "z_code \<times> 'a gz_state" assume I: "case rs of (ret, s) \<Rightarrow> safe s \<and> drain st s"
  obtain r s where rs: "rs = (r, s)" by (cases rs)
  then have s: "safe s" "drain st s" "bsize s \<noteq> 0" using I st(2) by (auto simp: drain_def)
  have err: "safe (gz_error L e m s) \<and> drain st (gz_error L e m s)" if "safe s" "drain st s" for e m s
    using gz_error_safe [OF L that(1), of e m] drain_trans [OF that(2) kept_drain] by simp
  have "ok_res (\<lambda>(ret :: int, s). safe s \<and> drain st s) (gz_avail L s)"
    by (rule ok_res_mono [OF gz_avail_safe [OF L s(1,3)]]) (use drain_trans [OF s(2) kept_drain] in auto)
  then have av: "ok_run (\<lambda>(ret :: int, s). safe s \<and> drain st s) (Some (if avail_in s = 0 then gz_avail L s else Inr (0, s)))"
    using s by simp
  have ci: "ok_run (\<lambda>(ret :: z_code, s'). safe s' \<and> drain st s') (Some (call_inflate L s))"
    if "safe s" "drain st s" "avail_in s \<noteq> 0" for s
  proof -
    have sz: "bsize s \<noteq> 0" using that st by (simp add: drain_def)
    have "ok_res (\<lambda>(ret, s'). safe s' \<and> drain st s') (call_inflate L s)"
      by (rule ok_res_mono [OF call_inflate_safe [OF L that(1) sz that(3) drain_room [OF that(2) st(3)]]])
        (use drain_trans [OF that(2)] in auto)
    then show ?thesis by simp
  qed
  show "ok_run (\<lambda>x. case x of Inl s' \<Rightarrow> (case s' of (ret, s) \<Rightarrow> safe s \<and> drain st s)
      | Inr (r, st') \<Rightarrow> safe st' \<and> drain st st') (decomp_body L rs)"
    unfolding rs decomp_body_def prod.case
    by (rule ok_run_rbind [OF av], clarsimp, intro conjI impI, simp_all add: err,
      rule ok_run_rbind [OF ci]; clarsimp simp: err)
qed (use st in \<open>simp add: kept_drain\<close>)

lemma gz_decomp_safe:
  assumes L: "tame L" and st: "safe st" "bsize st \<noteq> 0" "has_room st" "avail_out st < 2 ^ 32"
  shows "ok_run (\<lambda>(ret :: int, st'). bsize st' = bsize st \<and> length (user st') = length (user st) \<and>
    length (out_buf st') = length (out_buf st) \<and> safe (st'\<lparr>x_have := 0\<rparr>) \<and>
    (ret = -1 \<and> safe st' \<or> ret \<noteq> -1 \<and> x_have st' \<le> avail_out st \<and> x_next st' = next_out st)) (gz_decomp L st)"
  unfolding gz_decomp_def
proof (rule ok_run_rbind [OF decomp_loop_safe [OF L st(1-3)]], clarify)
  fix r and s :: "'a gz_state" assume s: "safe s" "drain st s"
  obtain k where k: "avail_out st = avail_out s + k" "next_out s = ptr_add (next_out st) k"
    and l: "bsize s = bsize st" "length (user s) = length (user st)" "length (out_buf s) = length (out_buf st)"
    using s(2) by (auto simp: drain_def)
  have had: "usub (avail_out st) (avail_out s) = k" using k(1) st(4) by simp
  have z: "safe (s\<lparr>x_have := 0\<rparr>)" using s(1) by (simp add: safe_defs split: if_splits)
  have y: "safe (s\<lparr>x_have := k, x_next := p, x_have := 0\<rparr>)" "safe (s\<lparr>x_have := k, x_next := p, how := LOOK, x_have := 0\<rparr>)" for p
    using s(1) st(2) l by (simp_all add: safe_defs)
  show "ok_run (\<lambda>(ret :: int, st'). bsize st' = bsize st \<and> length (user st') = length (user st) \<and>
    length (out_buf st') = length (out_buf st) \<and> safe (st'\<lparr>x_have := 0\<rparr>) \<and>
    (ret = -1 \<and> safe st' \<or> ret \<noteq> -1 \<and> x_have st' \<le> avail_out st \<and> x_next st' = next_out st))
    (case r of None \<Rightarrow> Some (Inr (-1, s)) | Some ret \<Rightarrow>
       let had = usub (avail_out st) (avail_out s);
           st2 = s\<lparr>x_have := had, x_next := ptr_sub (next_out s) had\<rparr>
       in Some (Inr (0, if ret = Z_STREAM_END then st2\<lparr>how := LOOK\<rparr> else st2)))"
    using s z y l k had by (cases r) (simp_all add: Let_def)
qed

subsection \<open>Fetching\<close>

lemma fetch_copy_safe:
  assumes L: "tame L" and st: "safe st" "bsize st \<noteq> 0"
  shows "ok_run (\<lambda>x. case x of Inl s \<Rightarrow> False | Inr (ret, st') \<Rightarrow> served st st')
    (rbind (Some (gz_load L put_out (shl1 (bsize st)) st)) (\<lambda>(ret, bs, st).
       if ret = -1 then leave (-1, st) else leave (0, st\<lparr>x_next := Out 0\<rparr>)))"
proof (rule gz_load_cases [of "shl1 (bsize st)" L put_out st])
  have sz: "length (out_buf st) = shl1 (bsize st)" using st by (simp add: safe_defs)
  fix bs :: "byte list" and f assume len: "length bs \<le> shl1 (bsize st)"
  let ?st = "st\<lparr>fd := f, out_buf := mem_write 0 bs (out_buf st), x_have := length bs\<rparr>"
  have put: "put_out bs (st\<lparr>fd := f\<rparr>) = Inr ?st" using len sz by (simp add: put_out_def)
  have z: "safe (?st\<lparr>x_have := 0\<rparr>)" and y: "safe (?st\<lparr>eof := b, x_next := Out 0\<rparr>)" for b
    using st len sz by (simp_all add: safe_defs)
  {
    fix e assume "gz_load L put_out (shl1 (bsize st)) st =
      ebind (put_out bs (st\<lparr>fd := f\<rparr>)) (\<lambda>st1. Inr (-1, bs, gz_error L Z_ERRNO (Some e) st1))"
    then show ?thesis using put gz_error_fatal [OF L z, of "Some e"] by (simp add: served_def)
  next
    fix w assume "gz_load L put_out (shl1 (bsize st)) st =
      ebind (put_out bs (st\<lparr>fd := f\<rparr>)) (\<lambda>st1. Inr (0, bs, st1\<lparr>eof := w \<or> eof st1\<rparr>))"
    then show ?thesis using put y by (simp add: served_def)
  }
qed

lemma gz_fetch_safe:
  assumes L: "tame L" and st: "safe st" "x_have st = 0"
  shows "ok_run (\<lambda>(ret, st'). served st st') (gz_fetch L st)"
  unfolding gz_fetch_def
proof (rule do_loop_safe [where I = "\<lambda>s. served st s \<and> x_have s = 0"])
  fix s :: "'a gz_state" assume I: "served st s \<and> x_have s = 0"
  then have s: "safe s" "x_have s = 0" "length (user s) = length (user st)" by (simp_all add: served_def)
  have srv: "served s s' \<Longrightarrow> served st s'" for s' using I by (simp add: served_def)
  let ?R = "\<lambda>x. case x of Inl s' \<Rightarrow> served st s' \<and> x_have s' = 0 | Inr (ret :: int, st') \<Rightarrow> served st st'"
  show "ok_run ?R (fetch_body L s)"
  proof (cases "how s")
    case LOOK
    have "ok_run (\<lambda>(ret, st'). served st st') (Some (gz_look L s))"
      using ok_res_mono [OF gz_look_safe [OF L s(1,2) LOOK], of "\<lambda>(ret, st'). served st st'"] srv by auto
    then show ?thesis unfolding fetch_body_def LOOK how_t.case
      by (rule ok_run_rbind) (auto simp: fetch_more_def)
  next
    case COPY
    have "bsize s \<noteq> 0" using s(1) COPY by (auto simp: safe_defs split: if_splits)
    then show ?thesis unfolding fetch_body_def COPY how_t.case
      by (intro ok_run_mono [OF fetch_copy_safe [OF L s(1)]]) (auto simp: srv split: sum.splits prod.splits)
  next
    case GZIP
    have sz: "bsize s \<noteq> 0" "bsize s < 2 ^ 31" "length (out_buf s) = 2 * bsize s"
      using s(1) GZIP by (auto simp: safe_defs split: if_splits)
    let ?s = "s\<lparr>avail_out := shl1 (bsize s), next_out := Out 0\<rparr>"
    have pre: "safe ?s" "bsize ?s \<noteq> 0" "has_room ?s" "avail_out ?s < 2 ^ 32"
      using s(1) sz by (simp_all add: safe_defs has_room_def)
    have "ok_run (\<lambda>(ret, st'). served st st') (gz_decomp L ?s)"
      by (rule ok_run_mono [OF gz_decomp_safe [OF L pre]])
        (use sz s(3) in \<open>auto simp: served_def safe_defs\<close>)
    then show ?thesis unfolding fetch_body_def GZIP how_t.case
      by (rule ok_run_rbind) (auto simp: fetch_more_def)
  qed
qed (use st in \<open>simp_all add: served_def\<close>)

lemma served_trans: "served a b \<Longrightarrow> served b c \<Longrightarrow> served a c"
  by (simp add: served_def)

subsection \<open>Skipping\<close>

lemma x_have_bound: "safe st \<Longrightarrow> x_have st < 2 ^ 32"
  by (cases "x_have st = 0"; cases "bsize st = 0") (auto simp: safe_defs fits_ptr_pos)

lemma advance_safe:
  assumes "safe st" and "n \<le> x_have st"
  shows "served st (advance n st)"
proof -
  have us: "usub (x_have st) n = x_have st - n" using assms(2) x_have_bound [OF assms(1)] by simp
  have "fits_ptr (ptr_add (x_next st) n) (x_have st - n) (out_buf st)"
    using assms by (cases "x_next st") (auto simp: safe_defs)
  then show ?thesis using assms us by (auto simp: served_def advance_def safe_defs)
qed

lemma out_read_safe:
  assumes "safe st" and "n \<le> x_have st" and "0 < n"
  obtains bs where "out_read n st = Inr bs" and "length bs = n"
proof -
  obtain i where "x_next st = Out i" "i + x_have st \<le> length (out_buf st)"
    using assms by (auto simp: safe_defs fits_ptr_pos)
  then show ?thesis using that [of "mem_read i n (out_buf st)"] assms(2) by (simp add: out_read_def buf_read_def)
qed

lemma gz_skip_safe:
  assumes L: "tame L" and st: "safe st" "0 \<le> len"
  shows "ok_run (\<lambda>(ret, st'). served st st') (gz_skip L len st)"
  unfolding gz_skip_def
proof (rule do_loop_safe [where I = "\<lambda>(len, s). served st s \<and> 0 \<le> len"])
  fix ls :: "int \<times> 'a gz_state" assume I: "case ls of (len, s) \<Rightarrow> served st s \<and> 0 \<le> len"
  obtain len s where ls: "ls = (len, s)" by (cases ls)
  then have s: "served st s" "0 \<le> len" "safe s" using I by (simp_all add: served_def)
  let ?R = "\<lambda>x. case x of Inl s' \<Rightarrow> (case s' of (len, s) \<Rightarrow> served st s \<and> 0 \<le> len) | Inr (ret :: int, st') \<Rightarrow> served st st'"
  show "ok_run ?R (skip_body L ls)"
  proof (cases "x_have s = 0")
    case True
    have "ok_run (\<lambda>(ret :: int, st'). served st st') (gz_fetch L s)"
      using ok_run_mono [OF gz_fetch_safe [OF L s(3) True], of "\<lambda>(ret, st'). served st st'"]
        served_trans [OF s(1)] by auto
    then have "ok_run ?R (rbind (gz_fetch L s) (\<lambda>(ret, st). if ret = -1 then leave (-1, st) else again (len, st)))"
      by (rule ok_run_rbind) (use s(2) in auto)
    then show ?thesis using ls s True by (simp add: skip_body_def)
  next
    case False
    let ?n = "if int (x_have s) > len then nat (len mod 2 ^ 32) else x_have s"
    have "len \<noteq> 0 \<Longrightarrow> ?n \<le> x_have s \<and> int ?n \<le> len"
      using x_have_bound [OF s(3)] s(2) by auto
    then show ?thesis using ls s False served_trans [OF s(1) advance_safe [OF s(3)], of ?n]
      by (simp add: skip_body_def Let_def)
  qed
qed (use st in \<open>simp_all add: served_def\<close>)

lemma process_skip_safe:
  assumes L: "tame L" and st: "safe st"
  shows "ok_run (\<lambda>(ret, st'). served st st') (process_skip L st)"
proof (cases "seek st")
  case True
  have "safe (st\<lparr>seek := False\<rparr>)" "0 \<le> skip st" using st True by (simp_all add: safe_defs)
  then show ?thesis
    using ok_run_mono [OF gz_skip_safe [OF L], of "st\<lparr>seek := False\<rparr>" "skip st" "\<lambda>(ret, st'). served st st'"] True
    by (auto simp: process_skip_def served_def)
next
  case False
  then show ?thesis using st by (simp add: process_skip_def served_def)
qed

subsection \<open>Reading\<close>

lemma put_user_safe:
  assumes "safe st" and "b + length bs \<le> length (user st)"
  obtains u where "put_user b bs st = Inr (st\<lparr>user := u\<rparr>)" and "length u = length (user st)"
  using assms that [of "mem_write b bs (user st)"] by (simp add: put_user_def)

lemma safe_user [simp]: "safe (st\<lparr>user := u\<rparr>) = safe st" "safe (st\<lparr>past := p\<rparr>) = safe st"
  "safe (st\<lparr>x_pos := i\<rparr>) = safe st"
  by (simp_all add: safe_defs)

lemma round_copy_safe:
  assumes L: "tame L" and st: "safe st" and room: "b + len \<le> length (user st)"
  shows "ok_run (\<lambda>(r, st'). served st st' \<and> (\<forall>n. r = Progress n \<longrightarrow> n \<le> len))
    (rbind (Some (gz_load L (put_user b) len st)) (\<lambda>(ret, bs, st).
       Some (Inr (if ret = -1 then Return_error else Progress (length bs), st))))"
proof (rule gz_load_cases [of len L "put_user b" st])
  fix bs :: "byte list" and f assume len: "length bs \<le> len"
  let ?st = "st\<lparr>fd := f, user := mem_write b bs (user st)\<rparr>"
  have put: "put_user b bs (st\<lparr>fd := f\<rparr>) = Inr ?st" using len room by (simp add: put_user_def)
  have z: "safe ?st" "safe (?st\<lparr>x_have := 0\<rparr>)" using st by (simp_all add: safe_defs)
  {
    fix e assume "gz_load L (put_user b) len st =
      ebind (put_user b bs (st\<lparr>fd := f\<rparr>)) (\<lambda>st1. Inr (-1, bs, gz_error L Z_ERRNO (Some e) st1))"
    then show ?thesis using put gz_error_fatal [OF L z(2), of "Some e"] len room by (simp add: served_def)
  next
    fix w assume "gz_load L (put_user b) len st =
      ebind (put_user b bs (st\<lparr>fd := f\<rparr>)) (\<lambda>st1. Inr (0, bs, st1\<lparr>eof := w \<or> eof st1\<rparr>))"
    then show ?thesis using put z len room by (simp add: served_def)
  }
qed

lemma round_gzip_safe:
  assumes L: "tame L" and st: "safe st" "bsize st \<noteq> 0" "x_have st = 0" and len: "len < 2 ^ 31"
    and room: "b + len \<le> length (user st)"
  shows "ok_run (\<lambda>(r, st'). served st st' \<and> (\<forall>n. r = Progress n \<longrightarrow> n \<le> len))
    (rbind (gz_decomp L (st\<lparr>avail_out := len, next_out := User b\<rparr>)) (\<lambda>(ret, st).
       Some (Inr (if ret = -1 then (Return_error, st) else (Progress (x_have st), st\<lparr>x_have := 0\<rparr>)))))"
proof -
  let ?s = "st\<lparr>avail_out := len, next_out := User b\<rparr>"
  have pre: "safe ?s" "bsize ?s \<noteq> 0" "has_room ?s" "avail_out ?s < 2 ^ 32"
    using st room len by (simp_all add: safe_defs has_room_def)
  show ?thesis
    by (rule ok_run_rbind [OF gz_decomp_safe [OF L pre]]) (auto simp: served_def)
qed

lemma read_round_safe:
  assumes L: "tame L" and st: "safe st" and len: "0 < len" "len < 2 ^ 31" and room: "b + len \<le> length (user st)"
  shows "ok_run (\<lambda>(r, st'). served st st' \<and> (\<forall>n. r = Progress n \<longrightarrow> n \<le> len)) (read_round L len b st)"
proof (cases "x_have st = 0")
  case True
  have "ok_run (\<lambda>(r, st'). served st st' \<and> (\<forall>n. r = Progress n \<longrightarrow> n \<le> len))
      (rbind (gz_fetch L st) (\<lambda>(ret, st). Some (Inr (if ret = -1 then Return_error else Continue, st))))"
    by (rule ok_run_rbind [OF gz_fetch_safe [OF L st True]]) auto
  moreover have "how st \<noteq> LOOK \<Longrightarrow> bsize st \<noteq> 0" using st by (auto simp: safe_defs)
  ultimately show ?thesis
    using True st round_copy_safe [OF L st room] round_gzip_safe [OF L st _ True len(2) room]
    by (auto simp: read_round_def served_def)
next
  case False
  let ?n = "clip (x_have st) len"
  have n: "?n \<le> x_have st" "0 < ?n" "?n \<le> len" using False len(1) by (auto simp: clip_def)
  obtain bs where bs: "out_read ?n st = Inr bs" "length bs = ?n" by (rule out_read_safe [OF st n(1,2)])
  obtain u where u: "put_user b bs st = Inr (st\<lparr>user := u\<rparr>)" "length u = length (user st)"
    by (rule put_user_safe [OF st]) (use bs n room in auto)
  have "served st (advance ?n st)" by (rule advance_safe [OF st n(1)])
  then have "safe (st\<lparr>user := u, x_next := ptr_add (x_next st) ?n, x_have := x_have st - ?n\<rparr>)"
    using n(1) x_have_bound [OF st] by (simp add: served_def advance_def safe_defs)
  then show ?thesis using False bs u n(3) by (simp add: read_round_def Let_def served_def)
qed

lemma read_loop_safe:
  assumes L: "tame L" and st: "safe st" and len: "0 < len" "len < 2 ^ 31" and room: "len \<le> length (user st)"
  shows "ok_run (\<lambda>(r, st'). served st st' \<and> (\<forall>g. r = Some g \<longrightarrow> g \<le> len)) (read_loop L len 0 0 st)"
  unfolding read_loop_def
proof (rule do_loop_safe [where I = "\<lambda>(l, b, got, s). served st s \<and> 0 < l \<and> b = got \<and> got + l = len"])
  fix x :: "nat \<times> nat \<times> nat \<times> 'a gz_state"
  assume I: "case x of (l, b, got, s) \<Rightarrow> served st s \<and> 0 < l \<and> b = got \<and> got + l = len"
  obtain l b got s where x: "x = (l, b, got, s)" by (cases x)
  then have s: "served st s" "0 < l" "b = got" "got + l = len" and ss: "safe s" using I by (auto simp: served_def)
  have "b + l \<le> length (user s)" "l < 2 ^ 31" using s room len by (simp_all add: served_def)
  note r = read_round_safe [OF L ss s(2) this(2,1)]
  have tr: "served s s' \<Longrightarrow> served st s'" for s' by (rule served_trans [OF s(1)])
  have pos: "served s s' \<Longrightarrow> served st (s'\<lparr>x_pos := i\<rparr>)" for s' i using tr [of s'] by (simp add: served_def)
  show "ok_run (\<lambda>x. case x of Inl s' \<Rightarrow> (case s' of (l, b, got, s) \<Rightarrow> served st s \<and> 0 < l \<and> b = got \<and> got + l = len)
      | Inr (r, st') \<Rightarrow> served st st' \<and> (\<forall>g. r = Some g \<longrightarrow> g \<le> len)) (read_body L x)"
    unfolding x read_body_def prod.case
    by (rule ok_run_rbind [OF r]) (use s tr pos in \<open>auto simp: Let_def split: round.splits\<close>)
qed (use st len in \<open>simp_all add: served_def\<close>)

text \<open>The answer of a call: at least -1, at most \<open>n\<close>, with a file whose state is in order.\<close>

definition answered :: "'z gz_state \<Rightarrow> int \<Rightarrow> int \<times> 'z gz_state option \<Rightarrow> bool" where
  "answered st n x \<longleftrightarrow> (\<exists>st'. snd x = Some st' \<and> served st st' \<and> -1 \<le> fst x \<and> fst x \<le> n)"

lemma read_bytes_safe:
  assumes L: "tame L" and st: "safe st" and len: "0 < len" "len < 2 ^ 31" and room: "len \<le> length (user st)"
  shows "ok_run (answered st (int len)) (read_bytes L len st)"
  unfolding read_bytes_def
  by (rule ok_run_rbind [OF read_loop_safe [OF assms]]) (auto simp: answered_def split: option.splits)

lemma gzread_safe:
  assumes L: "tame L" and st: "safe st" and room: "len \<le> length buf"
  shows "ok_run (answered (st\<lparr>user := buf\<rparr>) (int len)) (gzread L (Some st) buf len)"
proof -
  let ?st = "st\<lparr>user := buf\<rparr>"
  have s: "safe ?st" using st by simp
  have skip: "ok_run (answered ?st (int len))
     (rbind (process_skip L ?st) (\<lambda>(ret, st). if ret = -1 then Some (Inr (-1, Some st)) else read_bytes L len st))"
    if len: "0 < len" "len < 2 ^ 31"
  proof (rule ok_run_rbind [OF process_skip_safe [OF L s]], clarify)
    fix ret :: int and s1 assume s1: "served ?st s1"
    then have "safe s1" "len \<le> length (user s1)" using room by (simp_all add: served_def)
    then have "ok_run (answered ?st (int len)) (read_bytes L len s1)"
      by (intro ok_run_mono [OF read_bytes_safe [OF L _ len]]) (use served_trans [OF s1] in \<open>auto simp: answered_def\<close>)
    then show "ok_run (answered ?st (int len)) (if ret = -1 then Some (Inr (-1, Some s1)) else read_bytes L len s1)"
      using s1 by (simp add: answered_def)
  qed
  have e: "answered ?st (int len) (-1, Some (gz_error L e m ?st))" for e m
    using gz_error_safe [OF L s, of e m] by (auto simp: answered_def served_def kept_def)
  have same: "answered ?st (int len) (-1, Some ?st)" "answered ?st (int len) (0, Some ?st)" "answered ?st 0 (0, Some ?st)"
    using s by (simp_all add: answered_def served_def)
  have "gzread L (Some st) buf len =
      (if mode ?st \<noteq> GZ_READ \<or> err_serious ?st then Some (Inr (-1, Some ?st))
       else if len \<ge> 2 ^ 31 then Some (Inr (-1, Some (gz_error L Z_DATA_ERROR
                                      (Some ''requested length does not fit in int'') ?st)))
       else if len = 0 then Some (Inr (0, Some ?st))
       else rbind (process_skip L ?st) (\<lambda>(ret, st). if ret = -1 then Some (Inr (-1, Some st)) else read_bytes L len st))"
    by (simp add: gzread_def)
  then show ?thesis using skip e same by simp
qed

end
