(* ===== verification/Gz_Calls.thy ===== *)
theory Gz_Calls
  imports Gz_Safe
begin

text \<open>
  The calls of gzread.c (bugs/firefox/zlib) other than \<open>gzread\<close>, when anything may fail, and the states
  that sequences of calls lead to.
\<close>

subsection \<open>gzgetc\<close>

definition in_order :: "'a \<times> 'z gz_state option \<Rightarrow> bool" where
  "in_order x \<longleftrightarrow> (\<exists>st. snd x = Some st \<and> safe st)"

lemma gzgetc_safe:
  assumes L: "tame L" and st: "safe st"
  shows "ok_run in_order (gzgetc L (Some st))"
proof -
  have read: "ok_run in_order (rbind (gzread L (Some st) [0] 1) (\<lambda>(ret, file).
      Some (Inr (if ret < 1 then -1 else uint (hd (user (the file))), file))))"
    by (rule ok_run_rbind [OF gzread_safe [OF L st, of 1 "[0]"]])
      (auto simp: answered_def in_order_def served_def)
  show ?thesis
  proof (cases "x_have st = 0")
    case True
    then show ?thesis using read st by (simp add: gzgetc_def in_order_def)
  next
    case False
    then have n: "1 \<le> x_have st" "0 < (1 :: nat)" by simp_all
    obtain bs where "out_read 1 st = Inr bs" by (rule out_read_safe [OF st n])
    then show ?thesis using advance_safe [OF st n(1)] st False
      by (simp add: gzgetc_def in_order_def served_def)
  qed
qed

subsection \<open>Lines\<close>

lemma gz_memchr_bound: "gz_memchr a xs = Some i \<Longrightarrow> i < length xs"
  by (induction xs arbitrary: i) (auto split: if_splits)

lemma gets_take_safe:
  assumes st: "safe st" "x_have st \<noteq> 0" and left: "0 < left" "b + left < length (user st)"
  obtains bs n u where "out_read (clip (x_have st) left) st = Inr bs"
    and "n = (case gz_memchr newline bs of None \<Rightarrow> clip (x_have st) left | Some i \<Rightarrow> i + 1)" and "n \<le> left"
    and "put_user b (take n bs) st = Inr (st\<lparr>user := u\<rparr>)" and "length u = length (user st)"
    and "served st (advance n (st\<lparr>user := u\<rparr>))"
proof -
  let ?n = "clip (x_have st) left"
  have n: "?n \<le> x_have st" "0 < ?n" "?n \<le> left" using st left(1) by (auto simp: clip_def)
  obtain bs where bs: "out_read ?n st = Inr bs" "length bs = ?n" by (rule out_read_safe [OF st(1) n(1,2)])
  define k where "k = (case gz_memchr newline bs of None \<Rightarrow> ?n | Some i \<Rightarrow> i + 1)"
  have k: "k \<le> ?n"
  proof (cases "gz_memchr newline bs")
    case (Some i)
    then show ?thesis using gz_memchr_bound [OF Some] bs(2) by (simp add: k_def)
  qed (simp add: k_def)
  obtain u where u: "put_user b (take k bs) st = Inr (st\<lparr>user := u\<rparr>)" "length u = length (user st)"
    by (rule put_user_safe [OF st(1), of b "take k bs"]) (use k n(3) bs(2) left(2) in simp)
  have "served (st\<lparr>user := u\<rparr>) (advance k (st\<lparr>user := u\<rparr>))"
    by (rule advance_safe) (use st(1) k n(1) in simp_all)
  then have "served st (advance k (st\<lparr>user := u\<rparr>))" using u(2) by (simp add: served_def)
  then show ?thesis by (rule that [OF bs(1) k_def order.trans [OF k n(3)] u])
qed

lemma gets_body_safe:
  assumes L: "tame L" and st: "safe st" and left: "0 < left" "b + left < length (user st)"
  shows "ok_run (\<lambda>x. case x of
      Inl (left', b', s) \<Rightarrow> served st s \<and> 0 < left' \<and> b' + left' = b + left
    | Inr (r, s) \<Rightarrow> served st s \<and> (\<forall>e. r = Some e \<longrightarrow> e \<le> b + left)) (gets_body L (left, b, st))"
proof -
  have "ok_run (\<lambda>(ret :: int, s). served st s) (if x_have st = 0 then gz_fetch L st else Some (Inr (0, st)))"
    using gz_fetch_safe [OF L st] st by (simp add: served_def)
  then show ?thesis
    unfolding gets_body_def prod.case
  proof (rule ok_run_rbind, clarify)
    fix ret :: int and s assume s: "served st s"
    show "ok_run (\<lambda>x. case x of
      Inl (left', b', s) \<Rightarrow> served st s \<and> 0 < left' \<and> b' + left' = b + left
    | Inr (r, s) \<Rightarrow> served st s \<and> (\<forall>e. r = Some e \<longrightarrow> e \<le> b + left))
      (if ret = -1 then leave (None, s)
       else if x_have s = 0 then leave (Some b, s\<lparr>past := True\<rparr>)
       else
         let n = clip (x_have s) left
         in rbind (Some (out_read n s)) (\<lambda>bs.
              let eol = gz_memchr newline bs;
                  n = (case eol of None \<Rightarrow> n | Some i \<Rightarrow> i + 1)
              in rbind (Some (put_user b (take n bs) s)) (\<lambda>st.
                   if left - n \<noteq> 0 \<and> eol = None then again (left - n, b + n, advance n st)
                   else leave (Some (b + n), advance n st))))"
    proof (cases "x_have s = 0")
      case True
      then show ?thesis using s by (simp add: served_def)
    next
      case False
      have "safe s" "b + left < length (user s)" using s left by (simp_all add: served_def)
      then obtain bs n u where bs: "out_read (clip (x_have s) left) s = Inr bs"
        and n: "n = (case gz_memchr newline bs of None \<Rightarrow> clip (x_have s) left | Some i \<Rightarrow> i + 1)" "n \<le> left"
        and u: "put_user b (take n bs) s = Inr (s\<lparr>user := u\<rparr>)"
        and sv: "served s (advance n (s\<lparr>user := u\<rparr>))"
        by (rule gets_take_safe [OF _ False left(1)])
      have "served st (advance n (s\<lparr>user := u\<rparr>))" by (rule served_trans [OF s sv])
      moreover have "gz_memchr newline bs = None \<Longrightarrow> clip (x_have s) left = n" using n(1) by simp
      ultimately show ?thesis using s False bs u n(2) by (auto simp: Let_def n(1) [symmetric])
    qed
  qed
qed

lemma gets_loop_safe:
  assumes L: "tame L" and st: "safe st" and left: "0 < left" "left < length (user st)"
  shows "ok_run (\<lambda>(r, s). served st s \<and> (\<forall>e. r = Some e \<longrightarrow> e \<le> left)) (gets_loop L left 0 st)"
  unfolding gets_loop_def
proof (rule do_loop_safe [where I = "\<lambda>(l, b, s). served st s \<and> 0 < l \<and> b + l = left"])
  fix x :: "nat \<times> nat \<times> 'a gz_state" assume I: "case x of (l, b, s) \<Rightarrow> served st s \<and> 0 < l \<and> b + l = left"
  obtain l b s where x: "x = (l, b, s)" by (cases x)
  then have s: "served st s" "0 < l" "b + l = left" using I by auto
  then have "safe s" "b + l < length (user s)" using left by (simp_all add: served_def)
  then show "ok_run (\<lambda>x. case x of Inl s' \<Rightarrow> (case s' of (l, b, s) \<Rightarrow> served st s \<and> 0 < l \<and> b + l = left)
      | Inr (r, s) \<Rightarrow> served st s \<and> (\<forall>e. r = Some e \<longrightarrow> e \<le> left)) (gets_body L x)"
    unfolding x by (intro ok_run_mono [OF gets_body_safe [OF L _ s(2)]])
      (use s served_trans [OF s(1)] in \<open>auto split: sum.splits\<close>)
qed (use st left in \<open>simp_all add: served_def\<close>)

lemma gets_line_safe:
  assumes L: "tame L" and st: "safe st" and room: "left < length (user st)"
  shows "ok_run in_order (gets_line L left st)"
proof -
  have "ok_run (\<lambda>(r, s'). served st s' \<and> (\<forall>e. r = Some e \<longrightarrow> e \<le> left))
      (if left \<noteq> 0 then gets_loop L left 0 st else Some (Inr (Some 0, st)))"
    using gets_loop_safe [OF L st, of left] st room by (simp add: served_def)
  then show ?thesis unfolding gets_line_def
  proof (rule ok_run_rbind, clarify)
    fix r s' assume s': "served st s'" "\<forall>e. r = Some e \<longrightarrow> e \<le> left"
    show "ok_run in_order (case r of None \<Rightarrow> Some (Inr (False, Some s')) | Some b \<Rightarrow>
          if b = 0 then Some (Inr (False, Some s'))
          else rbind (Some (put_user b [0] s')) (\<lambda>st. Some (Inr (True, Some st))))"
      using s' room by (cases r) (auto simp: in_order_def served_def put_user_def)
  qed
qed

lemma gzgets_safe:
  assumes L: "tame L" and st: "safe st" and room: "nat len \<le> length ub"
  shows "ok_run in_order (gzgets L (Some st) (Some ub) len)"
proof (cases "len < 1 \<or> mode st \<noteq> GZ_READ \<or> err_serious (st\<lparr>user := ub\<rparr>)")
  case True
  then show ?thesis using st by (auto simp: gzgets_def in_order_def)
next
  case False
  have s0: "safe (st\<lparr>user := ub\<rparr>)" using st by simp
  have "ok_run in_order (gets_line L (nat len - 1) s)" if "served (st\<lparr>user := ub\<rparr>) s" for s
    by (rule gets_line_safe [OF L]) (use that room False in \<open>auto simp: served_def\<close>)
  then have "ok_run in_order (rbind (process_skip L (st\<lparr>user := ub\<rparr>)) (\<lambda>(ret, s).
      if ret = -1 then Some (Inr (False, Some s)) else gets_line L (nat len - 1) s))"
    by (intro ok_run_rbind [OF process_skip_safe [OF L s0]]) (auto simp: in_order_def served_def)
  then show ?thesis using False by (simp add: gzgets_def)
qed

subsection \<open>Pushing back\<close>

lemma slide_dest: "slide src dest m = (d, m') \<Longrightarrow> src \<le> dest \<Longrightarrow> d = dest - src \<and> length m' = length m"
  by (induction src dest m rule: slide.induct) auto

lemma make_room_safe:
  assumes st: "safe st" "bsize st \<noteq> 0" "x_have st \<noteq> 0" "x_have st \<noteq> shl1 (bsize st)"
  obtains j m where "make_room st = Inr (st\<lparr>out_buf := m, x_next := Out (Suc j)\<rparr>)"
    and "length m = length (out_buf st)" and "Suc j + x_have st \<le> length m"
proof -
  obtain i where i: "x_next st = Out i" "i + x_have st \<le> length (out_buf st)"
    using st by (auto simp: safe_defs fits_ptr_pos)
  have sz: "length (out_buf st) = shl1 (bsize st)" using st by (simp add: safe_defs)
  then have lt: "x_have st < shl1 (bsize st)" using i st(4) by simp
  show ?thesis
  proof (cases i)
    case 0
    obtain d m where sl: "slide (x_have st) (shl1 (bsize st)) (out_buf st) = (d, m)"
      by (cases "slide (x_have st) (shl1 (bsize st)) (out_buf st)")
    then have "d = shl1 (bsize st) - x_have st" "length m = length (out_buf st)"
      using slide_dest [OF sl] lt by simp_all
    then show ?thesis using that [where m = m and j = "d - 1"] sl 0 i lt sz by (simp add: make_room_def)
  next
    case (Suc j)
    then show ?thesis using that [where m = "out_buf st" and j = j] i by (simp add: make_room_def)
  qed
qed

lemma push_safe:
  assumes "safe st" and "bsize st \<noteq> 0" and "length m = length (out_buf st)" and "Suc j + h \<le> length m"
  shows "ok_run in_order (rbind (Some (push_byte c (st\<lparr>out_buf := m, x_have := h + 1, x_next := Out j\<rparr>)))
    (\<lambda>(c, st). Some (Inr (c, Some st))))"
  using assms by (simp add: push_byte_def in_order_def safe_defs)

lemma unget_safe:
  assumes L: "tame L" and s: "safe s" "bsize s \<noteq> 0"
  shows "ok_run in_order (unget L c s)"
proof -
  have sz: "shl1 (bsize s) = 2 * bsize s" "length (out_buf s) = 2 * bsize s" using s by (simp_all add: safe_defs)
  consider "c < 0" | "0 \<le> c" "x_have s = 0" | "0 \<le> c" "x_have s \<noteq> 0" "x_have s = shl1 (bsize s)"
    | "0 \<le> c" "x_have s \<noteq> 0" "x_have s \<noteq> shl1 (bsize s)" by linarith
  then show ?thesis
  proof cases
    case 1
    then show ?thesis using s by (simp add: in_order_def unget_def)
  next
    case 2
    then show ?thesis
      using push_safe [OF s refl, where h = 0 and j = "2 * bsize s - 1" and c = c] s(2) sz by (simp add: unget_def)
  next
    case 3
    then show ?thesis using gz_error_safe [OF L s(1)] by (simp add: in_order_def unget_def)
  next
    case 4
    obtain j m where "make_room s = Inr (s\<lparr>out_buf := m, x_next := Out (Suc j)\<rparr>)"
      and m: "length m = length (out_buf s)" "Suc j + x_have s \<le> length m"
      by (rule make_room_safe [OF s 4(2,3)])
    then show ?thesis using push_safe [OF s m, of c] 4 by (simp add: unget_def)
  qed
qed

lemma gzungetc_safe:
  assumes L: "tame L" and st: "safe st" "bsize st \<noteq> 0"
  shows "ok_run in_order (gzungetc L c (Some st))"
proof (cases "mode st \<noteq> GZ_READ \<or> err_serious st")
  case True
  then show ?thesis using st by (auto simp: gzungetc_def in_order_def)
next
  case False
  have "ok_run in_order (unget L c s)" if "served st s" for s
    by (rule unget_safe [OF L]) (use that st(2) in \<open>simp_all add: served_def\<close>)
  then have "ok_run in_order (rbind (process_skip L st) (\<lambda>(ret, s).
      if ret = -1 then Some (Inr (-1, Some s)) else unget L c s))"
    by (intro ok_run_rbind [OF process_skip_safe [OF L st(1)]]) (auto simp: in_order_def served_def)
  then show ?thesis using False by (simp add: gzungetc_def)
qed

text \<open>Before a buffer is allocated the call may fail, but if it returns the state is in order.\<close>

lemma gzungetc_returned:
  assumes L: "tame L" and st: "safe st" and run: "gzungetc L c (Some st) = Some (Inr x)"
  shows "in_order x"
proof (cases "mode st \<noteq> GZ_READ \<or> err_serious st")
  case True
  then show ?thesis using st run by (auto simp: gzungetc_def in_order_def)
next
  case False
  then have "rbind (process_skip L st) (\<lambda>(ret, s).
      if ret = -1 then Some (Inr (-1, Some s)) else unget L c s) = Some (Inr x)"
    using run by (simp add: gzungetc_def)
  moreover obtain ret s where "process_skip L st = Some (Inr (ret, s))" and s: "served st s"
    using process_skip_safe [OF L st] calculation
    by (auto simp: ok_run_def ok_res_def split: option.splits sum.splits)
  ultimately have r: "(if ret = -1 then Some (Inr (-1, Some s)) else unget L c s) = Some (Inr x)" by simp
  have ss: "safe s" using s by (simp add: served_def)
  show ?thesis
  proof (cases "ret = -1 \<or> bsize s = 0")
    case True
    then show ?thesis using r ss
      by (auto simp: in_order_def unget_def push_byte_def shl1_def safe_defs split: if_splits)
  next
    case False
    then show ?thesis using r unget_safe [OF L ss, of c] by simp
  qed
qed

lemma gzdirect_safe:
  assumes L: "tame L" and st: "safe st"
  shows "ok_res in_order (gzdirect L (Some st))"
proof (cases "mode st = GZ_READ \<and> how st = LOOK \<and> x_have st = 0")
  case True
  have "ok_res safe (ebind (gz_look L st) (\<lambda>(ret, st). Inr st))"
    by (rule ok_res_ebind [OF gz_look_safe [OF L st]]) (use True in \<open>auto simp: served_def\<close>)
  then have "ok_res in_order (ebind (ebind (gz_look L st) (\<lambda>(ret, st). Inr st)) (\<lambda>st. Inr (direct st, Some st)))"
    by (rule ok_res_ebind) (simp add: in_order_def)
  then show ?thesis using True by (simp add: gzdirect_def)
next
  case False
  then show ?thesis using st by (auto simp: gzdirect_def in_order_def)
qed

subsection \<open>Sequences of calls\<close>

datatype call = Call_read nat | Call_getc | Call_ungetc int | Call_gets int | Call_direct

definition new_state :: "('a \<times> 'z gz_state option) run \<Rightarrow> 'z gz_state run" where
  "new_state m = rbind m (\<lambda>(ret, file). Some (Inr (the file)))"

fun perform :: "'z zlib \<Rightarrow> call \<Rightarrow> 'z gz_state \<Rightarrow> 'z gz_state run" where
  "perform L (Call_read n) st = new_state (gzread L (Some st) (replicate n 0) n)"
| "perform L Call_getc st = new_state (gzgetc L (Some st))"
| "perform L (Call_ungetc c) st = new_state (gzungetc L c (Some st))"
| "perform L (Call_gets len) st = new_state (gzgets L (Some st) (Some (replicate (nat len) 0)) len)"
| "perform L Call_direct st = new_state (Some (gzdirect L (Some st)))"

text \<open>The states of an open file: after the calls, and after a request of \<open>gzseek\<close> to skip.\<close>

inductive reached :: "'z zlib \<Rightarrow> 'z gz_state \<Rightarrow> bool" for L where
  opened: "fresh st \<Longrightarrow> reached L st"
| called: "reached L st \<Longrightarrow> perform L c st = Some (Inr st') \<Longrightarrow> reached L st'"
| sought: "reached L st \<Longrightarrow> 0 \<le> n \<Longrightarrow> reached L (st\<lparr>seek := True, skip := n\<rparr>)"

definition allowed :: "call \<Rightarrow> 'z gz_state \<Rightarrow> bool" where
  "allowed c st \<longleftrightarrow> (case c of Call_ungetc _ \<Rightarrow> bsize st \<noteq> 0 | _ \<Rightarrow> True)"

lemma new_state_safe: "ok_run in_order m \<Longrightarrow> ok_run safe (new_state m)"
  unfolding new_state_def by (erule ok_run_rbind) (auto simp: in_order_def)

lemma new_state_returned:
  assumes "new_state m = Some (Inr st')"
  shows "\<exists>x. m = Some (Inr x) \<and> st' = the (snd x)"
proof (cases m)
  case (Some r)
  then show ?thesis using assms by (cases r) (auto simp: new_state_def)
qed (use assms in \<open>simp add: new_state_def\<close>)

lemma answered_in_order: "answered st n x \<Longrightarrow> in_order x"
  by (auto simp: answered_def in_order_def served_def)

lemma perform_safe:
  assumes "tame L" and "safe st" and "allowed c st"
  shows "ok_run safe (perform L c st)"
proof -
  have "ok_run in_order (gzread L (Some st) (replicate n 0) n)" for n
    by (rule ok_run_mono [OF gzread_safe [OF assms(1,2)]]) (auto intro: answered_in_order)
  then show ?thesis
    using assms gzgetc_safe [OF assms(1,2)] gzungetc_safe [OF assms(1,2)] gzgets_safe [OF assms(1,2)]
      gzdirect_safe [OF assms(1,2)]
    by (cases c) (auto simp: allowed_def intro!: new_state_safe)
qed

lemma reached_safe:
  assumes L: "tame L" and "reached L st"
  shows "safe st"
  using assms(2)
proof (induction rule: reached.induct)
  case (opened st)
  then show ?case by (simp add: fresh_def safe_defs)
next
  case (called st c st')
  show ?case
  proof (cases "allowed c st")
    case True
    then show ?thesis using perform_safe [OF L called.IH True] called.hyps(2) by simp
  next
    case False
    then obtain d where c: "c = Call_ungetc d" by (cases c) (auto simp: allowed_def)
    then obtain x where "gzungetc L d (Some st) = Some (Inr x)" "st' = the (snd x)"
      using called.hyps(2) new_state_returned by fastforce
    moreover have "in_order x" by (rule gzungetc_returned [OF L called.IH calculation(1)])
    ultimately show ?thesis by (auto simp: in_order_def)
  qed
next
  case (sought st n)
  then show ?case by (simp add: safe_defs)
qed

end
