(* ===== verification/Gz_Session.thy ===== *)
theory Gz_Session
  imports Gz_File Gz_Calls
begin

text \<open>
  What a caller of gzread.c sees (bugs/firefox/zlib/gzread.c): a sequence of \<open>gzread\<close> calls on a file
  that has just been opened, lines, bytes pushed back, and the call that fails on a file nothing has
  been read from.

  \<open>stored_zlib\<close> is a decompressor for a format with the gzip header, a length byte, the data as they are
  and a trailer byte. It shows that the hypotheses on the decompressor can be met, and serves the
  witnesses only.
\<close>

subsection \<open>A decompressor\<close>

fun stored_decode :: "nat decoder" where
  "stored_decode z [] = None"
| "stored_decode z (x # xs) =
     (if z < 2 then stored_decode (z + 1) xs
      else if z = 2 then stored_decode (3 + unat x) xs
      else if z = 3 then Some ([], xs)
      else map_option (\<lambda>(out, r). (x # out, r)) (stored_decode (z - 1) xs))"

fun stored_inflate :: "nat \<Rightarrow> byte list \<Rightarrow> nat \<Rightarrow> z_code \<times> nat \<times> byte list \<times> string option \<times> nat" where
  "stored_inflate z [] n = (Z_BUF_ERROR, 0, [], None, z)"
| "stored_inflate z (x # xs) n =
     (if z < 2 then (Z_OK, 1, [], None, z + 1)
      else if z = 2 then (Z_OK, 1, [], None, 3 + unat x)
      else if z = 3 then (Z_STREAM_END, 1, [], None, z)
      else if n = 0 then (Z_BUF_ERROR, 0, [], None, z)
      else (Z_OK, 1, [x], None, z - 1))"

definition stored_zlib :: "nat zlib" where
  "stored_zlib = \<lparr>inflate = stored_inflate, inflateInit2 = (\<lambda>z. (Z_OK, 0)), inflateReset = (\<lambda>z. 0),
     gz_error = (\<lambda>e m st. st\<lparr>x_have := (if e = Z_OK \<or> e = Z_BUF_ERROR then x_have st else 0),
                            err := e, msg := m\<rparr>)\<rparr>"

lemma stored_shorter: "stored_decode z i = Some (out, r) \<Longrightarrow> length r < length i"
  by (induction z i arbitrary: out r rule: stored_decode.induct) (force split: if_splits)+

lemma stored_step:
  assumes "inp \<noteq> []" and "0 < n" and "stored_decode z (inp @ behind) = Some (out, r)"
  shows "inflate_step stored_zlib stored_decode z inp n behind out r"
  using assms by (cases inp) (auto simp: inflate_step_def stored_zlib_def split: if_splits)

lemma stored_inflates: "inflates stored_zlib stored_decode (stored_decode 0)"
  using stored_shorter stored_step by (simp add: inflates_def stored_zlib_def)

subsection \<open>A session\<close>

text \<open>A sequence of \<open>gzread\<close> calls: the bytes each of them delivers.\<close>

fun gzread_all :: "'z zlib \<Rightarrow> 'z gz_state \<Rightarrow> nat list \<Rightarrow> (byte list list \<times> 'z gz_state) run" where
  "gzread_all L st [] = Some (Inr ([], st))"
| "gzread_all L st (len # lens) =
     rbind (gzread L (Some st) (replicate len 0) len) (\<lambda>(ret, file).
       case file of
         None \<Rightarrow> Some (Inr ([], st))
       | Some st' \<Rightarrow>
           rbind (gzread_all L st' lens) (\<lambda>(bss, st'').
             Some (Inr (take (nat ret) (user st') # bss, st''))))"

fun chunks :: "nat list \<Rightarrow> byte list \<Rightarrow> byte list list" where
  "chunks [] c = []"
| "chunks (n # ns) c = take n c # chunks ns (drop n c)"

lemma gzread_step:
  assumes d: "delivers L decode member st c" and "\<not> seek st" and "len < 2 ^ 31"
  obtains st' where "gzread L (Some st) (replicate len 0) len = Some (Inr (int (min len (length c)), Some st'))"
    and "take (min len (length c)) (user st') = take len c"
    and "delivers L decode member st' (drop len c)" and "\<not> seek st'"
    and "past st' = (past st \<or> length c < len)" and "x_pos st' = x_pos st + int (min len (length c))"
proof (cases "len = 0")
  case True
  have "mode st = GZ_READ" "\<not> err_serious st" using d by (simp_all add: delivers_def calm_def)
  then have "gzread L (Some st) (replicate len 0) len = Some (Inr (0, Some (st\<lparr>user := []\<rparr>)))"
    using True by (simp add: gzread_def Let_def err_serious_def)
  then show ?thesis using that [of "st\<lparr>user := []\<rparr>"] True assms by simp
next
  case False
  have c: "after_skip st c = c" using assms(2) by (simp add: after_skip_def)
  obtain st' where "gzread L (Some st) (replicate len 0) len =
      Some (Inr (int (min len (length (after_skip st c))), Some st'))"
    "delivers L decode member st' (drop len (after_skip st c))"
    "user st' = mem_write 0 (take len (after_skip st c)) (replicate len 0)" "\<not> seek st'"
    "past st' = (past st \<or> length (after_skip st c) < len)"
    "x_pos st' = x_pos st + (if seek st then int (min (nat (skip st)) (length c)) else 0) +
           int (min len (length (after_skip st c)))"
    by (rule gz.gzread_spec [OF d, of len "replicate len 0"]) (use assms False in auto)
  moreover have "take (min len (length c)) c = take len c" by (simp add: min_def)
  ultimately show ?thesis using that [of st'] c assms(2) by (simp add: mem_write_def min.commute)
qed

lemma gzread_all_spec:
  assumes "delivers L decode member st c" and "\<not> seek st" and "list_all (\<lambda>n. n < 2 ^ 31) lens"
  shows "\<exists>st'. gzread_all L st lens = Some (Inr (chunks lens c, st')) \<and>
    delivers L decode member st' (drop (sum_list lens) c) \<and>
    past st' = (past st \<or> length c < sum_list lens) \<and>
    x_pos st' = x_pos st + int (min (sum_list lens) (length c))"
  using assms
proof (induction lens arbitrary: st c)
  case (Cons len lens)
  obtain st1 where g: "gzread L (Some st) (replicate len 0) len = Some (Inr (int (min len (length c)), Some st1))"
    "take (min len (length c)) (user st1) = take len c"
    and d1: "delivers L decode member st1 (drop len c)" "\<not> seek st1"
    and p: "past st1 = (past st \<or> length c < len)" "x_pos st1 = x_pos st + int (min len (length c))"
    using gzread_step [OF Cons.prems(1,2), of len] Cons.prems(3) by auto
  obtain st' where rest: "gzread_all L st1 lens = Some (Inr (chunks lens (drop len c), st'))"
    "delivers L decode member st' (drop (sum_list lens) (drop len c))"
    "past st' = (past st1 \<or> length (drop len c) < sum_list lens)"
    "x_pos st' = x_pos st1 + int (min (sum_list lens) (length (drop len c)))"
    using Cons.IH [OF d1] Cons.prems(3) by auto
  have "int (min len (length c)) + int (min (sum_list lens) (length c - len)) =
      int (min (len + sum_list lens) (length c))"
    and "length c < len \<or> length c - len < sum_list lens \<longleftrightarrow> length c < len + sum_list lens"
    by linarith+
  then show ?case using g p rest
    by (intro exI [of _ st']) (simp add: add.assoc add.commute disj_assoc)
qed simp

text \<open>C22. Reading a file back. On a file that has just been opened for reading, with any buffer size of
  at least 2 bytes and below 2 GB and whatever short reads the descriptor produces, any sequence of
  \<open>gzread\<close> calls returns, without an access outside a buffer, and delivers the contents of the file cut
  into the lengths asked for: the uncompressed members one after the other for a gzip file (with what
  follows the last member ignored), the bytes as they are for any other file. \<open>x.pos\<close> is the number of
  bytes delivered and \<open>past\<close> says whether more was asked for than there is. The decompressor is any that
  delivers the output of a member piece by piece.\<close>

theorem gzread_reads_back:
  assumes "inflates L decode member" and "fresh st" and "calm L st"
    and "file_content member (fd_rest (fd st)) c" and "list_all (\<lambda>n. n < 2 ^ 31) lens"
  shows "\<exists>st'. gzread_all L st lens = Some (Inr (chunks lens c, st')) \<and>
    delivers L decode member st' (drop (sum_list lens) c) \<and>
    (past st' \<longleftrightarrow> length c < sum_list lens) \<and> x_pos st' = int (min (sum_list lens) (length c))"
proof -
  have f: "\<not> seek st" "\<not> past st" "x_pos st = 0" using assms(2) by (simp_all add: fresh_def)
  show ?thesis
    using gzread_all_spec [OF fresh_delivers [OF assms(1,2,4,3)] f(1) assms(5)] f by simp
qed

text \<open>Two members and a byte behind them, read in single bytes and pairs.\<close>

definition sample_state :: "nat gz_state" where
  "sample_state = \<lparr>x_have = 0, x_next = Null, x_pos = 0, mode = GZ_READ,
     fd = \<lparr>fd_rest = [31, 139, 2, 104, 105, 0, 31, 139, 1, 10, 0, 7],
           fd_outcomes = [Short 0, Short 1, Short 0], fd_close_ok = True\<rparr>,
     bsize = 0, want = 2, in_buf = [], out_buf = [], direct = True, how = LOOK, eof = False, past = False,
     skip = 0, seek = False, err = Z_OK, msg = None, next_in = None, avail_in = 0, next_out = Null,
     avail_out = 0, strm_msg = None, strm_state = 0, user = [], mallocs = []\<rparr>"

lemma sample_content: "file_content (stored_decode 0) (fd_rest (fd sample_state)) [104, 105, 10]"
  by (simp add: sample_state_def file_content_def magic_def members_magic members_no_magic)

lemma sample_fresh: "fresh sample_state" "calm stored_zlib sample_state"
  by (simp_all add: sample_state_def fresh_def calm_def no_failure_def err_serious_def stored_zlib_def)

theorem gzread_reads_back_witness:
  "\<exists>st'. gzread_all stored_zlib sample_state [2, 5] = Some (Inr ([[104, 105], [10]], st')) \<and>
    delivers stored_zlib stored_decode (stored_decode 0) st' [] \<and> past st' \<and> x_pos st' = 3"
  using gzread_reads_back [OF stored_inflates sample_fresh sample_content, of "[2, 5]"] by simp

text \<open>Lines. On a file that still has the bytes \<open>c\<close> to deliver, after the skip a seek has asked for,
  \<open>gzgets\<close> stores the next bytes through the first newline, at most \<open>len - 1\<close> of them, with a zero byte
  behind them, and leaves the rest to be read; it returns null just when there is nothing to store.\<close>

lemma gzgets_stores_line:
  assumes "delivers L decode member st c" and "seek st \<longrightarrow> 0 \<le> skip st" and "1 \<le> len"
    and "nat len \<le> length ub"
  shows "\<exists>st'. let l = take (nat len - 1) (line_of (after_skip st c)) in
    gzgets L (Some st) (Some ub) len = Some (Inr (l \<noteq> [], Some st')) \<and>
    delivers L decode member st' (drop (length l) (after_skip st c)) \<and>
    user st' = (if l = [] then ub else l @ [0] @ drop (length l + 1) ub)"
proof -
  obtain st' where "gzgets L (Some st) (Some ub) len =
      Some (Inr (take (nat len - 1) (line_of (after_skip st c)) \<noteq> [], Some st'))"
    "delivers L decode member st' (drop (length (take (nat len - 1) (line_of (after_skip st c)))) (after_skip st c))"
    "user st' = (if take (nat len - 1) (line_of (after_skip st c)) = [] then ub
       else mem_write 0 (take (nat len - 1) (line_of (after_skip st c)) @ [0]) ub)"
    by (rule gz.gzgets_spec [OF assms])
  then show ?thesis by (intro exI [of _ st']) (simp add: Let_def mem_write_def)
qed

lemma sample_delivers: "delivers stored_zlib stored_decode (stored_decode 0) sample_state [104, 105, 10]"
  by (rule fresh_delivers [OF stored_inflates sample_fresh(1) sample_content sample_fresh(2)])

lemma sample_line: "line_of (after_skip sample_state [104, 105, 10]) = [104, 105, 10]"
  by (simp add: after_skip_def sample_state_def newline_def)

lemma sample_seek: "seek sample_state \<longrightarrow> 0 \<le> skip sample_state"
  by (simp add: sample_state_def)

text \<open>C24. A byte pushed back is read again. When a buffer has been allocated and is not full, \<open>gzungetc\<close>
  accepts any byte, the file then delivers that byte and after it what it delivered before, and \<open>gzgetc\<close>
  returns the byte and leaves the file where it was.\<close>

theorem gzungetc_gzgetc:
  assumes d: "delivers L decode member st c" and st: "\<not> seek st" "bsize st \<noteq> 0" "x_have st < 2 * bsize st"
    and ch: "0 \<le> ch" "ch < 256"
  shows "\<exists>st1 st2. gzungetc L ch (Some st) = Some (Inr (ch, Some st1)) \<and>
    delivers L decode member st1 (word_of_int ch # c) \<and> \<not> past st1 \<and>
    gzgetc L (Some st1) = Some (Inr (ch, Some st2)) \<and>
    delivers L decode member st2 c"
proof -
  obtain st1 where u: "gzungetc L ch (Some st) = Some (Inr (ch, Some st1))"
    and d1: "delivers L decode member st1 (word_of_int ch # c)" and "\<not> past st1" "\<not> seek st1"
    by (rule gzungetc_spec [OF d st ch(1)])
  have c1: "after_skip st1 (word_of_int ch # c) = word_of_int ch # c"
    using \<open>\<not> seek st1\<close> by (simp add: after_skip_def)
  obtain st2 where "gzgetc L (Some st1) = Some (Inr (uint (word_of_int ch :: byte), Some st2))"
    "delivers L decode member st2 c"
    using gz.gzgetc_spec [OF d1] \<open>\<not> seek st1\<close> c1 by auto
  moreover have "uint (word_of_int ch :: byte) = ch" using ch by (simp add: uint_word_of_int)
  ultimately show ?thesis using u d1 \<open>\<not> past st1\<close> by auto
qed

text \<open>A file copied as it is, with three bytes in the output buffer.\<close>

definition copy_state :: "nat gz_state" where
  "copy_state = sample_state\<lparr>bsize := 2, in_buf := [0, 0], out_buf := [1, 2, 3, 4], x_have := 3,
     x_next := Out 0, how := COPY, fd := \<lparr>fd_rest = [9], fd_outcomes = [], fd_close_ok = True\<rparr>\<rparr>"

lemma copy_delivers: "delivers stored_zlib stored_decode (stored_decode 0) copy_state [1, 2, 3, 9]"
  using stored_inflates
  by (simp add: delivers_def copy_state_def sample_state_def inv_defs calm_def no_failure_def err_serious_def
    window_out_def later_def input_left_def window_in_def mem_read_def)

theorem gzungetc_gzgetc_witness:
  "\<exists>st1 st2. gzungetc stored_zlib 200 (Some copy_state) = Some (Inr (200, Some st1)) \<and>
    delivers stored_zlib stored_decode (stored_decode 0) st1 [200, 1, 2, 3, 9] \<and>
    gzgetc stored_zlib (Some st1) = Some (Inr (200, Some st2)) \<and>
    delivers stored_zlib stored_decode (stored_decode 0) st2 [1, 2, 3, 9]"
  using gzungetc_gzgetc [OF copy_delivers, of 200] by (auto simp: copy_state_def sample_state_def)

text \<open>C33. Pushing back before the first read. On a file that has just been opened no buffer is allocated, and
  \<open>gzungetc\<close> of any byte stores through a pointer to nowhere: the output buffer is null and its size is 0.\<close>

theorem gzungetc_before_read:
  assumes "fresh st" and "0 \<le> ch"
  shows "gzungetc L ch (Some st) = Some (Inl NullDeref)"
  using assms by (simp add: fresh_def gzungetc_def unget_def process_skip_def err_serious_def shl1_def push_byte_def)

theorem gzungetc_before_read_witness:
  "gzungetc stored_zlib 65 (Some sample_state) = Some (Inl NullDeref)"
  using gzungetc_before_read [OF sample_fresh(1), of 65] by simp

subsection \<open>Failing calls\<close>

text \<open>C23. No access outside a buffer. Whatever reads and allocations fail, and whatever the decompressor
  reports about the data, as long as it consumes no more than it is given and produces no more than there
  is room for: in every state that a sequence of calls can lead to from a file just opened, the buffers,
  their sizes and the pointers into them agree, and neither \<open>gzread\<close>, \<open>gzgetc\<close>, \<open>gzgets\<close> or \<open>gzdirect\<close>,
  nor \<open>gzungetc\<close> once a buffer is allocated, reads or writes outside a buffer or through a null pointer.\<close>

theorem gz_calls_stay_in_bounds:
  assumes "tame L" and "reached L st" and "allowed c st"
  shows "safe st \<and> perform L c st \<noteq> Some (Inl e)"
  using perform_safe [OF assms(1) reached_safe [OF assms(1,2)] assms(3)] reached_safe [OF assms(1,2)]
  by (auto simp: ok_run_def)

lemma stored_tame: "tame stored_zlib"
proof -
  have "case stored_inflate z inp n of (ret, used, bs, m, z') \<Rightarrow> used \<le> length inp \<and> length bs \<le> n" for z inp n
    by (cases inp) auto
  then show ?thesis by (auto simp: tame_def stored_zlib_def)
qed

theorem gz_calls_stay_in_bounds_witness:
  "safe sample_state \<and> perform stored_zlib (Call_gets 6) sample_state \<noteq> Some (Inl OutOfBounds)"
  by (rule gz_calls_stay_in_bounds [OF stored_tame reached.opened [OF sample_fresh(1)]])
    (simp add: allowed_def)

end
