(* ===== verification/Light_Cond.thy ===== *)
theory Light_Cond
  imports Prelude
begin

text \<open>
  The conditions of the lighttpd configuration (\<open>lighttpd/src/condition.c\<close>): \<open>lvalue op rvalue\<close>, created by the
  configuration parser and shared by reference counts. This theory holds the data, the constructors and the
  reference counting; \<^theory_text>\<open>Light_Eval\<close> holds the evaluation for a request.

  \<^item> \<open>store\<close> is the part of the heap this file allocates and frees: the two kinds of counted objects, strings
    and regular expressions, each a partial function on addresses. A freed object is undefined there, so that
    every later access through an old pointer is the error \<open>Dangling\<close>.
  \<^item> The tagged union \<open>condition_rvalue\<close> is a datatype; reading another member than the one the tag names is
    \<open>OtherMember\<close>. Strings are C strings: the bytes in front of the terminating zero.
  \<^item> \<open>light_h\<close> holds what other files and GLib supply.
\<close>

subsection \<open>Data\<close>

type_synonym addr = nat

datatype light_err = Assertion | Dangling | NullPointer | OutOfArray | OtherMember

datatype comp_operator_t =
    CONFIG_COND_EQ | CONFIG_COND_NE
  | CONFIG_COND_PREFIX | CONFIG_COND_NOPREFIX | CONFIG_COND_SUFFIX | CONFIG_COND_NOSUFFIX
  | CONFIG_COND_MATCH | CONFIG_COND_NOMATCH
  | CONFIG_COND_IP | CONFIG_COND_NOTIP
  | CONFIG_COND_GT | CONFIG_COND_GE | CONFIG_COND_LT | CONFIG_COND_LE

datatype cond_lvalue_t =
    COMP_REQUEST_LOCALIP | COMP_REQUEST_REMOTEIP | COMP_REQUEST_PATH | COMP_REQUEST_HOST | COMP_REQUEST_SCHEME
  | COMP_REQUEST_QUERY_STRING | COMP_REQUEST_METHOD | COMP_REQUEST_CONTENT_LENGTH
  | COMP_PHYSICAL_PATH | COMP_PHYSICAL_PATH_EXISTS | COMP_PHYSICAL_SIZE | COMP_PHYSICAL_ISDIR | COMP_PHYSICAL_ISFILE
  | COMP_REQUEST_HEADER | COMP_UNKNOWN

datatype condition_rvalue =
    COND_VALUE_BOOL bool
  | COND_VALUE_NUMBER "64 word"
  | COND_VALUE_STRING addr
  | COND_VALUE_REGEXP addr
  | COND_VALUE_SOCKET_IPV4 "32 word" "32 word"
  | COND_VALUE_SOCKET_IPV6 "byte list" "32 word"

record condition_lvalue =
  lv_type :: cond_lvalue_t
  lv_key :: "addr option"
  lv_refcount :: "32 word"

record condition =
  c_refcount :: "32 word"
  c_op :: comp_operator_t
  c_lvalue :: "addr option"
  c_rvalue :: condition_rvalue

text \<open>A regular expression of GLib carries its own count.\<close>

record 'rx store =
  lvalues :: "addr \<rightharpoonup> condition_lvalue"
  conds :: "addr \<rightharpoonup> condition"
  strings :: "addr \<rightharpoonup> string"
  regexes :: "addr \<rightharpoonup> 'rx \<times> nat"
  srv_log :: "string list"

text \<open>
  Code outside the file: a new address of the allocator, the value of a zeroed \<open>condition_rvalue\<close>, the string
  and regular expression functions of GLib, and the parsers of addresses. The flag of \<open>parse_ipv4\<close> and
  \<open>parse_ipv6\<close> tells whether the caller asks for a network.
\<close>

record 'rx light_h =
  new_addr :: "'rx store \<Rightarrow> addr"
  rvalue0 :: condition_rvalue
  ascii_down :: "string \<Rightarrow> string"
  str_equal :: "string \<Rightarrow> string \<Rightarrow> bool"
  str_has_prefix :: "string \<Rightarrow> string \<Rightarrow> bool"
  str_has_suffix :: "string \<Rightarrow> string \<Rightarrow> bool"
  offset_text :: "64 word \<Rightarrow> string"
  regex_new :: "string \<Rightarrow> string + 'rx"
  regex_match :: "'rx \<Rightarrow> string \<Rightarrow> bool"
  parse_ipv4 :: "bool \<Rightarrow> string \<Rightarrow> (32 word \<times> 32 word) option"
  parse_ipv6 :: "bool \<Rightarrow> string \<Rightarrow> (byte list \<times> 32 word) option"

subsection \<open>Names\<close>

fun comp_op_to_string :: "comp_operator_t \<Rightarrow> string" where
  "comp_op_to_string CONFIG_COND_EQ = ''==''"
| "comp_op_to_string CONFIG_COND_NE = ''!=''"
| "comp_op_to_string CONFIG_COND_PREFIX = ''=^''"
| "comp_op_to_string CONFIG_COND_NOPREFIX = ''=^''"
| "comp_op_to_string CONFIG_COND_SUFFIX = ''=$''"
| "comp_op_to_string CONFIG_COND_NOSUFFIX = ''!$''"
| "comp_op_to_string CONFIG_COND_MATCH = ''=~''"
| "comp_op_to_string CONFIG_COND_NOMATCH = ''!~''"
| "comp_op_to_string CONFIG_COND_IP = ''=/''"
| "comp_op_to_string CONFIG_COND_NOTIP = ''!/''"
| "comp_op_to_string CONFIG_COND_GT = ''>''"
| "comp_op_to_string CONFIG_COND_GE = ''>=''"
| "comp_op_to_string CONFIG_COND_LT = ''<''"
| "comp_op_to_string CONFIG_COND_LE = ''<=''"

fun cond_lvalue_to_string :: "cond_lvalue_t \<Rightarrow> string" where
  "cond_lvalue_to_string COMP_REQUEST_LOCALIP = ''request.localip''"
| "cond_lvalue_to_string COMP_REQUEST_REMOTEIP = ''request.remoteip''"
| "cond_lvalue_to_string COMP_REQUEST_PATH = ''request.path''"
| "cond_lvalue_to_string COMP_REQUEST_HOST = ''request.host''"
| "cond_lvalue_to_string COMP_REQUEST_SCHEME = ''request.scheme''"
| "cond_lvalue_to_string COMP_REQUEST_QUERY_STRING = ''request.query''"
| "cond_lvalue_to_string COMP_REQUEST_METHOD = ''request.method''"
| "cond_lvalue_to_string COMP_REQUEST_CONTENT_LENGTH = ''request.length''"
| "cond_lvalue_to_string COMP_PHYSICAL_PATH = ''physical.path''"
| "cond_lvalue_to_string COMP_PHYSICAL_PATH_EXISTS = ''physical.exist''"
| "cond_lvalue_to_string COMP_PHYSICAL_SIZE = ''physical.size''"
| "cond_lvalue_to_string COMP_PHYSICAL_ISDIR = ''physical.is_dir''"
| "cond_lvalue_to_string COMP_PHYSICAL_ISFILE = ''physical.is_file''"
| "cond_lvalue_to_string COMP_REQUEST_HEADER = ''request.header''"
| "cond_lvalue_to_string COMP_UNKNOWN = ''<unknown>''"

text \<open>\<open>strncmp(s, t, n) == 0\<close> on C strings. The length \<open>len\<close> is unsigned: it wraps when it is smaller than the
  prefix that was skipped.\<close>

definition strncmp0 :: "string \<Rightarrow> string \<Rightarrow> 32 word \<Rightarrow> bool" where
  "strncmp0 s t n \<longleftrightarrow> take (unat n) s = take (unat n) t"

definition cond_lvalue_from_string :: "'rx light_h \<Rightarrow> string \<Rightarrow> 32 word \<Rightarrow> cond_lvalue_t" where
  "cond_lvalue_from_string L str len =
     (if str_has_prefix L str ''request.'' then
        let c = drop 8 str; len = len - 8
        in if strncmp0 c ''localip'' len then COMP_REQUEST_LOCALIP
           else if strncmp0 c ''remoteip'' len then COMP_REQUEST_REMOTEIP
           else if strncmp0 c ''path'' len then COMP_REQUEST_PATH
           else if strncmp0 c ''host'' len then COMP_REQUEST_HOST
           else if strncmp0 c ''scheme'' len then COMP_REQUEST_SCHEME
           else if strncmp0 c ''query'' len then COMP_REQUEST_QUERY_STRING
           else if strncmp0 c ''method'' len then COMP_REQUEST_METHOD
           else if strncmp0 c ''length'' len then COMP_REQUEST_CONTENT_LENGTH
           else if strncmp0 c ''header'' len then COMP_REQUEST_HEADER
           else COMP_UNKNOWN
      else if strncmp0 str ''physical.'' 9 then
        let c = drop 9 str; len = len - 9
        in if strncmp0 c ''path'' len then COMP_PHYSICAL_PATH
           else if strncmp0 c ''exists'' len then COMP_PHYSICAL_PATH_EXISTS
           else if strncmp0 c ''size'' len then COMP_PHYSICAL_SIZE
           else if strncmp0 c ''is_file'' len then COMP_PHYSICAL_ISFILE
           else if strncmp0 c ''is_dir'' len then COMP_PHYSICAL_ISDIR
           else COMP_UNKNOWN
      else COMP_UNKNOWN)"

subsection \<open>The store\<close>

definition access :: "(addr \<rightharpoonup> 'a) \<Rightarrow> addr \<Rightarrow> light_err + 'a" where
  "access m a = (case m a of None \<Rightarrow> Inl Dangling | Some x \<Rightarrow> Inr x)"

definition deref :: "(addr \<rightharpoonup> 'a) \<Rightarrow> addr option \<Rightarrow> light_err + 'a" where
  "deref m p = (case p of None \<Rightarrow> Inl NullPointer | Some a \<Rightarrow> access m a)"

definition g_string_free :: "addr \<Rightarrow> 'rx store \<Rightarrow> light_err + 'rx store" where
  "g_string_free s h = ebind (access (strings h) s) (\<lambda>_. Inr (h\<lparr>strings := (strings h)(s := None)\<rparr>))"

definition g_regex_unref :: "addr \<Rightarrow> 'rx store \<Rightarrow> light_err + 'rx store" where
  "g_regex_unref r h = ebind (access (regexes h) r) (\<lambda>(rx, n).
     Inr (h\<lparr>regexes := (regexes h)(r := (if n \<le> 1 then None else Some (rx, n - 1)))\<rparr>))"

definition quoted :: "char \<Rightarrow> string \<Rightarrow> string" where
  "quoted q s = q # s @ [q]"

definition log_error :: "string \<Rightarrow> 'rx store \<Rightarrow> 'rx store" where
  "log_error msg h = h\<lparr>srv_log := srv_log h @ [msg]\<rparr>"

subsection \<open>Left-hand sides\<close>

definition condition_lvalue_new ::
    "'rx light_h \<Rightarrow> cond_lvalue_t \<Rightarrow> addr option \<Rightarrow> 'rx store \<Rightarrow> light_err + addr \<times> 'rx store" where
  "condition_lvalue_new L type key h =
     (let l = new_addr L h
      in ebind (if type = COMP_REQUEST_HEADER
                then ebind (deref (strings h) key) (\<lambda>s. Inr (h\<lparr>strings := (strings h)(the key \<mapsto> ascii_down L s)\<rparr>))
                else Inr h) (\<lambda>h.
           Inr (l, h\<lparr>lvalues := (lvalues h)(l \<mapsto> \<lparr>lv_type = type, lv_key = key, lv_refcount = 1\<rparr>)\<rparr>)))"

definition condition_lvalue_acquire :: "addr \<Rightarrow> 'rx store \<Rightarrow> light_err + 'rx store" where
  "condition_lvalue_acquire l h = ebind (access (lvalues h) l) (\<lambda>v.
     if 0 <s lv_refcount v
     then Inr (h\<lparr>lvalues := (lvalues h)(l \<mapsto> v\<lparr>lv_refcount := lv_refcount v + 1\<rparr>)\<rparr>)
     else Inl Assertion)"

definition condition_lvalue_release :: "addr option \<Rightarrow> 'rx store \<Rightarrow> light_err + 'rx store" where
  "condition_lvalue_release lvalue h =
     (case lvalue of None \<Rightarrow> Inr h
      | Some l \<Rightarrow> ebind (access (lvalues h) l) (\<lambda>v.
          if \<not> 0 <s lv_refcount v then Inl Assertion
          else if lv_refcount v - 1 \<noteq> 0
          then Inr (h\<lparr>lvalues := (lvalues h)(l \<mapsto> v\<lparr>lv_refcount := lv_refcount v - 1\<rparr>)\<rparr>)
          else ebind (case lv_key v of None \<Rightarrow> Inr h | Some s \<Rightarrow> g_string_free s h) (\<lambda>h.
                 Inr (h\<lparr>lvalues := (lvalues h)(l := None)\<rparr>))))"

subsection \<open>Reference counts of conditions\<close>

definition condition_free :: "addr \<Rightarrow> 'rx store \<Rightarrow> light_err + 'rx store" where
  "condition_free c h = ebind (access (conds h) c) (\<lambda>k.
     ebind (condition_lvalue_release (c_lvalue k) h) (\<lambda>h.
     ebind (case c_rvalue k of
              COND_VALUE_STRING s \<Rightarrow> g_string_free s h
            | COND_VALUE_REGEXP r \<Rightarrow> g_regex_unref r h
            | _ \<Rightarrow> Inr h) (\<lambda>h.
       Inr (h\<lparr>conds := (conds h)(c := None)\<rparr>))))"

definition condition_acquire :: "addr \<Rightarrow> 'rx store \<Rightarrow> light_err + 'rx store" where
  "condition_acquire c h = ebind (access (conds h) c) (\<lambda>k.
     if 0 <s c_refcount k
     then Inr (h\<lparr>conds := (conds h)(c \<mapsto> k\<lparr>c_refcount := c_refcount k + 1\<rparr>)\<rparr>)
     else Inl Assertion)"

definition condition_release :: "addr option \<Rightarrow> 'rx store \<Rightarrow> light_err + 'rx store" where
  "condition_release cond h =
     (case cond of None \<Rightarrow> Inr h
      | Some c \<Rightarrow> ebind (access (conds h) c) (\<lambda>k.
          if \<not> 0 <s c_refcount k then Inl Assertion
          else let h = h\<lparr>conds := (conds h)(c \<mapsto> k\<lparr>c_refcount := c_refcount k - 1\<rparr>)\<rparr>
               in if c_refcount k - 1 = 0 then condition_free c h else Inr h))"

subsection \<open>Constructors\<close>

definition condition_new ::
    "'rx light_h \<Rightarrow> comp_operator_t \<Rightarrow> addr option \<Rightarrow> 'rx store \<Rightarrow> addr \<times> 'rx store" where
  "condition_new L op lvalue h =
     (let c = new_addr L h
      in (c, h\<lparr>conds := (conds h)(c \<mapsto> \<lparr>c_refcount = 1, c_op = op, c_lvalue = lvalue, c_rvalue = rvalue0 L\<rparr>)\<rparr>))"

text \<open>An assignment to members of \<open>c->rvalue\<close>.\<close>

definition set_rvalue :: "addr \<Rightarrow> condition_rvalue \<Rightarrow> 'rx store \<Rightarrow> 'rx store" where
  "set_rvalue c v h = h\<lparr>conds := (conds h)(c := map_option (c_rvalue_update (\<lambda>_. v)) (conds h c))\<rparr>"

definition condition_parse_ip :: "'rx light_h \<Rightarrow> string \<Rightarrow> condition_rvalue option" where
  "condition_parse_ip L txt =
     (case parse_ipv4 L False txt of
        Some (a, _) \<Rightarrow> Some (COND_VALUE_SOCKET_IPV4 a 0xFFFFFFFF)
      | None \<Rightarrow> (case parse_ipv6 L False txt of
          Some (a, _) \<Rightarrow> Some (COND_VALUE_SOCKET_IPV6 a 128)
        | None \<Rightarrow> None))"

definition condition_parse_ip_net :: "'rx light_h \<Rightarrow> string \<Rightarrow> condition_rvalue option" where
  "condition_parse_ip_net L txt =
     (case parse_ipv4 L True txt of
        Some (a, networkmask) \<Rightarrow> Some (COND_VALUE_SOCKET_IPV4 a networkmask)
      | None \<Rightarrow> (case parse_ipv6 L True txt of
          Some (a, network) \<Rightarrow> Some (COND_VALUE_SOCKET_IPV6 a network)
        | None \<Rightarrow> None))"

definition cond_new_string ::
    "'rx light_h \<Rightarrow> comp_operator_t \<Rightarrow> addr option \<Rightarrow> addr \<Rightarrow> 'rx store \<Rightarrow> light_err + addr option \<times> 'rx store" where
  "cond_new_string L op lvalue str h =
     (let (c, h) = condition_new L op lvalue h in Inr (Some c, set_rvalue c (COND_VALUE_STRING str) h))"

definition cond_new_match ::
    "'rx light_h \<Rightarrow> comp_operator_t \<Rightarrow> addr option \<Rightarrow> addr \<Rightarrow> 'rx store \<Rightarrow> light_err + addr option \<times> 'rx store" where
  "cond_new_match L op lvalue str h = ebind (access (strings h) str) (\<lambda>txt.
     case regex_new L txt of
       Inl message \<Rightarrow> Inr (None, log_error (''failed to compile regex '' @ quoted (CHR 0x22) txt @ '': '' @ message) h)
     | Inr rx \<Rightarrow>
         let regex = new_addr L h;
             h = h\<lparr>regexes := (regexes h)(regex \<mapsto> (rx, 1))\<rparr>;
             (c, h) = condition_new L op lvalue h;
             h = set_rvalue c (COND_VALUE_REGEXP regex) h
         in ebind (g_string_free str h) (\<lambda>h. Inr (Some c, h)))"

definition cond_new_ip ::
    "'rx light_h \<Rightarrow> comp_operator_t \<Rightarrow> addr option \<Rightarrow> addr \<Rightarrow> 'rx store \<Rightarrow> light_err + addr option \<times> 'rx store" where
  "cond_new_ip L op lvalue str h =
     (let (c, h) = condition_new L op lvalue h
      in ebind (access (strings h) str) (\<lambda>txt.
           case condition_parse_ip_net L txt of
             None \<Rightarrow> ebind (condition_release (Some c) (log_error (''Invalid ip address '' @ quoted (CHR 0x27) txt) h)) (\<lambda>h. Inr (None, h))
           | Some v \<Rightarrow> Inr (Some c, set_rvalue c v h)))"

definition condition_new_bool ::
    "'rx light_h \<Rightarrow> addr option \<Rightarrow> bool \<Rightarrow> 'rx store \<Rightarrow> light_err + addr option \<times> 'rx store" where
  "condition_new_bool L lvalue b h =
     (let (c, h) = condition_new L CONFIG_COND_EQ lvalue h in Inr (Some c, set_rvalue c (COND_VALUE_BOOL b) h))"

text \<open>The switches name every operator, so that the messages behind them are never reached.\<close>

definition condition_new_string ::
    "'rx light_h \<Rightarrow> comp_operator_t \<Rightarrow> addr option \<Rightarrow> addr \<Rightarrow> 'rx store \<Rightarrow> light_err + addr option \<times> 'rx store" where
  "condition_new_string L op lvalue str h =
     (if op \<in> {CONFIG_COND_EQ, CONFIG_COND_NE, CONFIG_COND_PREFIX, CONFIG_COND_NOPREFIX, CONFIG_COND_SUFFIX,
               CONFIG_COND_NOSUFFIX}
      then cond_new_string L op lvalue str h
      else if op \<in> {CONFIG_COND_MATCH, CONFIG_COND_NOMATCH} then cond_new_match L op lvalue str h
      else if op \<in> {CONFIG_COND_IP, CONFIG_COND_NOTIP} then cond_new_ip L op lvalue str h
      else Inr (None, log_error (''Cannot compare strings with '' @ quoted (CHR 0x27) (comp_op_to_string op)) h))"

definition condition_new_int ::
    "'rx light_h \<Rightarrow> comp_operator_t \<Rightarrow> addr option \<Rightarrow> 64 word \<Rightarrow> 'rx store \<Rightarrow> light_err + addr option \<times> 'rx store" where
  "condition_new_int L op lvalue i h =
     (if op \<in> {CONFIG_COND_PREFIX, CONFIG_COND_NOPREFIX, CONFIG_COND_SUFFIX, CONFIG_COND_NOSUFFIX,
               CONFIG_COND_MATCH, CONFIG_COND_NOMATCH, CONFIG_COND_IP, CONFIG_COND_NOTIP}
      then Inr (None, log_error (''Cannot compare integers with '' @ quoted (CHR 0x27) (comp_op_to_string op)) h)
      else let (c, h) = condition_new L op lvalue h in Inr (Some c, set_rvalue c (COND_VALUE_NUMBER i) h))"

end
