(* ===== verification/Light_Refs.thy ===== *)
theory Light_Refs
  imports Light_Cond
begin

text \<open>
  Reference counting of \<open>lighttpd/src/condition.c\<close>. The references a caller of the file holds are kept beside the
  store (\<open>held\<close>); the store is \<open>balanced\<close> when every object is referenced by a live object or by the caller, and
  counters agree with these references. Every function is shown to keep the balance; a condition is seen as
  taking references over from the caller when it is created and as giving them back when it is freed.
\<close>

subsection \<open>Counting references\<close>

definition count_if :: "(addr \<rightharpoonup> 'a) \<Rightarrow> ('a \<Rightarrow> bool) \<Rightarrow> nat" where
  "count_if m Q = card {x. \<exists>k. m x = Some k \<and> Q k}"

lemma count_finite: "finite (dom m) \<Longrightarrow> finite {x. \<exists>k. m x = Some k \<and> Q k}"
  by (erule rev_finite_subset) auto

lemma count_insert:
  assumes "finite (dom m)" "m x = None"
  shows "count_if (m(x \<mapsto> k)) Q = count_if m Q + of_bool (Q k)"
proof -
  have "{y. \<exists>k'. (m(x \<mapsto> k)) y = Some k' \<and> Q k'} =
      (if Q k then insert x {y. \<exists>k'. m y = Some k' \<and> Q k'} else {y. \<exists>k'. m y = Some k' \<and> Q k'})"
    using assms(2) by auto
  then show ?thesis using count_finite [OF assms(1)] assms(2) by (simp add: count_if_def)
qed

lemma count_delete:
  assumes "finite (dom m)" "m x = Some k"
  shows "count_if m Q = count_if (m(x := None)) Q + of_bool (Q k)"
proof -
  have "m = (m(x := None))(x \<mapsto> k)" using assms(2) by auto
  then show ?thesis using count_insert [of "m(x := None)" x k Q] assms(1) by simp
qed

lemma count_update:
  assumes "m x = Some k" "Q k' = Q k"
  shows "count_if (m(x \<mapsto> k')) Q = count_if m Q"
  unfolding count_if_def by (rule arg_cong [of _ _ card]) (use assms in auto)

lemma count_pos:
  assumes "finite (dom m)" "m x = Some k" "Q k"
  shows "0 < count_if m Q"
  using count_delete [OF assms(1,2), of Q] assms(3) by simp

lemma count_empty [simp]: "count_if Map.empty Q = 0"
  by (simp add: count_if_def)

subsection \<open>Balanced stores\<close>

record held =
  held_l :: "addr \<Rightarrow> nat"
  held_c :: "addr \<Rightarrow> nat"
  held_s :: "addr set"
  held_r :: "addr set"

definition lcount :: "'rx store \<Rightarrow> held \<Rightarrow> addr \<Rightarrow> nat" where
  "lcount h g l = held_l g l + count_if (conds h) (\<lambda>k. c_lvalue k = Some l)"

definition scount :: "'rx store \<Rightarrow> held \<Rightarrow> addr \<Rightarrow> nat" where
  "scount h g s = of_bool (s \<in> held_s g) + count_if (lvalues h) (\<lambda>v. lv_key v = Some s)
     + count_if (conds h) (\<lambda>k. c_rvalue k = COND_VALUE_STRING s)"

definition rcount :: "'rx store \<Rightarrow> held \<Rightarrow> addr \<Rightarrow> nat" where
  "rcount h g r = of_bool (r \<in> held_r g) + count_if (conds h) (\<lambda>k. c_rvalue k = COND_VALUE_REGEXP r)"

text \<open>A counter shows the number of references; without references there is no object.\<close>

fun counted :: "nat \<Rightarrow> 32 word option \<Rightarrow> bool" where
  "counted n None = (n = 0)"
| "counted n (Some w) = (0 < n \<and> n < 2 ^ 31 \<and> w = of_nat n)"

definition finite_store :: "'rx store \<Rightarrow> bool" where
  "finite_store h \<longleftrightarrow> finite (dom (lvalues h)) \<and> finite (dom (conds h)) \<and> finite (dom (strings h)) \<and> finite (dom (regexes h))"

definition balanced :: "'rx store \<Rightarrow> held \<Rightarrow> bool" where
  "balanced h g \<longleftrightarrow> finite_store h
   \<and> (\<forall>l. counted (lcount h g l) (map_option lv_refcount (lvalues h l)))
   \<and> (\<forall>c. counted (held_c g c) (map_option c_refcount (conds h c)))
   \<and> (\<forall>s. scount h g s = of_bool (strings h s \<noteq> None))
   \<and> (\<forall>r. rcount h g r = of_bool (regexes h r \<noteq> None))
   \<and> (\<forall>r rx n. regexes h r = Some (rx, n) \<longrightarrow> n = 1)"

lemma balancedD:
  assumes "balanced h g"
  shows "finite_store h"
    and "counted (lcount h g l) (map_option lv_refcount (lvalues h l))"
    and "counted (held_c g c) (map_option c_refcount (conds h c))"
    and "scount h g s = of_bool (strings h s \<noteq> None)"
    and "rcount h g r = of_bool (regexes h r \<noteq> None)"
    and "regexes h r = Some (rx, n) \<Longrightarrow> n = 1"
  using assms by (auto simp: balanced_def)

lemma balancedI:
  assumes "finite_store h"
    and "\<And>l. counted (lcount h g l) (map_option lv_refcount (lvalues h l))"
    and "\<And>c. counted (held_c g c) (map_option c_refcount (conds h c))"
    and "\<And>s. scount h g s = of_bool (strings h s \<noteq> None)"
    and "\<And>r. rcount h g r = of_bool (regexes h r \<noteq> None)"
    and "\<And>r rx n. regexes h r = Some (rx, n) \<Longrightarrow> n = 1"
  shows "balanced h g"
  using assms by (simp add: balanced_def)

lemmas count_defs = lcount_def scount_def rcount_def finite_store_def

lemma balanced_log [simp]: "balanced (log_error msg h) g = balanced h g"
  by (simp add: balanced_def count_defs log_error_def)

lemma unat_small: "m < 2 ^ 31 \<Longrightarrow> unat (of_nat m :: 32 word) = m"
  by (simp add: unat_of_nat)

lemma counted_signed:
  assumes "counted n (Some w)"
  shows "0 <s w" and "w - 1 = 0 \<longleftrightarrow> n = 1" and "n \<noteq> 1 \<Longrightarrow> counted (n - 1) (Some (w - 1))"
    and "n + 1 < 2 ^ 31 \<Longrightarrow> counted (n + 1) (Some (w + 1))"
proof -
  have n: "0 < n" "n < 2 ^ 31" "w = of_nat n" using assms by auto
  have "sint w = int n"
    using n(2) unfolding n(3) signed_of_nat by (simp add: signed_take_bit_int_eq_self)
  then show "0 <s w" using n by (simp add: word_sless_alt)
  have "w - 1 = of_nat (n - 1)" using n by simp
  then have "unat (w - 1) = n - 1" using unat_small [of "n - 1"] n(2) by (metis less_imp_diff_less)
  then show "w - 1 = 0 \<longleftrightarrow> n = 1" using n(1) by (metis One_nat_def Suc_pred unat_0 diff_self_eq_0 word_unat_eq_iff)
  show "counted (n - 1) (Some (w - 1))" if "n \<noteq> 1" using n that by simp
  show "counted (n + 1) (Some (w + 1))" if "n + 1 < 2 ^ 31" using n that by simp
qed

subsection \<open>Moving references\<close>

lemma lvalue_counted:
  assumes "balanced h g" "0 < lcount h g l"
  obtains v where "lvalues h l = Some v" "counted (lcount h g l) (Some (lv_refcount v))"
  using balancedD(2) [OF assms(1), of l] assms(2) by (cases "lvalues h l") auto

lemma cond_counted:
  assumes "balanced h g" "0 < held_c g c"
  obtains k where "conds h c = Some k" "counted (held_c g c) (Some (c_refcount k))"
  using balancedD(3) [OF assms(1), of c] assms(2) by (cases "conds h c") auto

lemma string_live: "balanced h g \<Longrightarrow> 0 < scount h g s \<Longrightarrow> \<exists>t. strings h s = Some t"
  using balancedD(4) [of h g s] by (cases "strings h s") auto

text \<open>Strings and regular expressions that the caller owns.\<close>

lemma balanced_string_text:
  assumes "balanced h g" "strings h s \<noteq> None"
  shows "balanced (h\<lparr>strings := (strings h)(s \<mapsto> t)\<rparr>) g"
  using assms by (auto simp: balanced_def count_defs)

lemma balanced_string_new:
  assumes "balanced h g" "strings h s = None"
  shows "balanced (h\<lparr>strings := (strings h)(s \<mapsto> t)\<rparr>) (g\<lparr>held_s := insert s (held_s g)\<rparr>)"
proof (rule balancedI)
  show "scount (h\<lparr>strings := (strings h)(s \<mapsto> t)\<rparr>) (g\<lparr>held_s := insert s (held_s g)\<rparr>) s' =
      of_bool (strings (h\<lparr>strings := (strings h)(s \<mapsto> t)\<rparr>) s' \<noteq> None)" for s'
    using balancedD(4) [OF assms(1), of s'] assms(2) by (auto simp: scount_def)
qed (use balancedD [OF assms(1)] in \<open>auto simp: count_defs\<close>)

lemma balanced_string_free:
  assumes "balanced h g" "s \<in> held_s g"
  shows "g_string_free s h = Inr (h\<lparr>strings := (strings h)(s := None)\<rparr>)"
    and "balanced (h\<lparr>strings := (strings h)(s := None)\<rparr>) (g\<lparr>held_s := held_s g - {s}\<rparr>)"
proof -
  obtain t where t: "strings h s = Some t" using string_live [OF assms(1), of s] assms(2) by (auto simp: scount_def)
  then show "g_string_free s h = Inr (h\<lparr>strings := (strings h)(s := None)\<rparr>)"
    by (simp add: g_string_free_def access_def)
  show "balanced (h\<lparr>strings := (strings h)(s := None)\<rparr>) (g\<lparr>held_s := held_s g - {s}\<rparr>)"
  proof (rule balancedI)
    show "scount (h\<lparr>strings := (strings h)(s := None)\<rparr>) (g\<lparr>held_s := held_s g - {s}\<rparr>) s' =
        of_bool (strings (h\<lparr>strings := (strings h)(s := None)\<rparr>) s' \<noteq> None)" for s'
      using balancedD(4) [OF assms(1), of s'] assms(2) t by (auto simp: scount_def)
  qed (use balancedD [OF assms(1)] in \<open>auto simp: count_defs\<close>)
qed

lemma balanced_regex_new:
  assumes "balanced h g" "regexes h r = None"
  shows "balanced (h\<lparr>regexes := (regexes h)(r \<mapsto> (rx, 1))\<rparr>) (g\<lparr>held_r := insert r (held_r g)\<rparr>)"
proof (rule balancedI)
  show "rcount (h\<lparr>regexes := (regexes h)(r \<mapsto> (rx, 1))\<rparr>) (g\<lparr>held_r := insert r (held_r g)\<rparr>) r' =
      of_bool (regexes (h\<lparr>regexes := (regexes h)(r \<mapsto> (rx, 1))\<rparr>) r' \<noteq> None)" for r'
    using balancedD(5) [OF assms(1), of r'] assms(2) by (auto simp: rcount_def)
qed (use balancedD [OF assms(1)] in \<open>auto simp: count_defs split: if_splits\<close>)

lemma balanced_regex_unref:
  assumes "balanced h g" "r \<in> held_r g"
  shows "g_regex_unref r h = Inr (h\<lparr>regexes := (regexes h)(r := None)\<rparr>)"
    and "balanced (h\<lparr>regexes := (regexes h)(r := None)\<rparr>) (g\<lparr>held_r := held_r g - {r}\<rparr>)"
proof -
  obtain rx n where t: "regexes h r = Some (rx, n)"
    using balancedD(5) [OF assms(1), of r] assms(2) by (cases "regexes h r") (auto simp: rcount_def)
  then show "g_regex_unref r h = Inr (h\<lparr>regexes := (regexes h)(r := None)\<rparr>)"
    using balancedD(6) [OF assms(1) t] by (simp add: g_regex_unref_def access_def)
  show "balanced (h\<lparr>regexes := (regexes h)(r := None)\<rparr>) (g\<lparr>held_r := held_r g - {r}\<rparr>)"
  proof (rule balancedI)
    show "rcount (h\<lparr>regexes := (regexes h)(r := None)\<rparr>) (g\<lparr>held_r := held_r g - {r}\<rparr>) r' =
        of_bool (regexes (h\<lparr>regexes := (regexes h)(r := None)\<rparr>) r' \<noteq> None)" for r'
      using balancedD(5) [OF assms(1), of r'] assms(2) t by (auto simp: rcount_def)
  qed (use balancedD [OF assms(1)] in \<open>auto simp: count_defs split: if_splits\<close>)
qed

subsection \<open>Left-hand sides\<close>

definition give_strings :: "addr option \<Rightarrow> held \<Rightarrow> held" where
  "give_strings key g = g\<lparr>held_s := held_s g - set_option key\<rparr>"

definition set_l :: "addr \<Rightarrow> nat \<Rightarrow> held \<Rightarrow> held" where
  "set_l l n g = g\<lparr>held_l := (held_l g)(l := n)\<rparr>"

definition set_c :: "addr \<Rightarrow> nat \<Rightarrow> held \<Rightarrow> held" where
  "set_c c n g = g\<lparr>held_c := (held_c g)(c := n)\<rparr>"

lemmas held_defs = give_strings_def set_l_def set_c_def

lemma held_simps [simp]:
  "held_l (set_l l n g) = (held_l g)(l := n)" "held_c (set_l l n g) = held_c g"
  "held_s (set_l l n g) = held_s g" "held_r (set_l l n g) = held_r g"
  "held_l (set_c c n g) = held_l g" "held_c (set_c c n g) = (held_c g)(c := n)"
  "held_s (set_c c n g) = held_s g" "held_r (set_c c n g) = held_r g"
  "held_l (give_strings key g) = held_l g" "held_c (give_strings key g) = held_c g"
  "held_s (give_strings key g) = held_s g - set_option key" "held_r (give_strings key g) = held_r g"
  by (simp_all add: held_defs)

lemma balanced_lvalue_new:
  assumes b: "balanced h g" and l: "lvalues h l = None" and key: "set_option key \<subseteq> held_s g"
  shows "balanced (h\<lparr>lvalues := (lvalues h)(l \<mapsto> \<lparr>lv_type = t, lv_key = key, lv_refcount = 1\<rparr>)\<rparr>)
    (set_l l 1 (give_strings key g))"
    (is "balanced ?h ?g")
proof (rule balancedI)
  have fin: "finite (dom (lvalues h))" using balancedD(1) [OF b] by (simp add: finite_store_def)
  have zero: "lcount h g l = 0" using balancedD(2) [OF b, of l] l by simp
  show "counted (lcount ?h ?g l') (map_option lv_refcount (lvalues ?h l'))" for l'
    using balancedD(2) [OF b, of l'] zero by (auto simp: lcount_def held_defs)
  show "scount ?h ?g s = of_bool (strings ?h s \<noteq> None)" for s
    using balancedD(4) [OF b, of s] key
    by (auto simp: scount_def held_defs count_insert [OF fin l] of_bool_def split: if_splits)
qed (use balancedD [OF b] in \<open>auto simp: count_defs held_defs\<close>)

lemma balanced_lvalue_count:
  assumes b: "balanced h g" and l: "lvalues h l = Some v"
    and w: "counted (n + count_if (conds h) (\<lambda>k. c_lvalue k = Some l)) (Some w)"
  shows "balanced (h\<lparr>lvalues := (lvalues h)(l \<mapsto> v\<lparr>lv_refcount := w\<rparr>)\<rparr>) (set_l l n g)" (is "balanced ?h ?g")
proof (rule balancedI)
  show "counted (lcount ?h ?g l') (map_option lv_refcount (lvalues ?h l'))" for l'
    using balancedD(2) [OF b, of l'] w by (auto simp: lcount_def held_defs)
  show "scount ?h ?g s = of_bool (strings ?h s \<noteq> None)" for s
    using balancedD(4) [OF b, of s]
      count_update [of "lvalues h" l v "\<lambda>v. lv_key v = Some s" "v\<lparr>lv_refcount := w\<rparr>"] l
    by (simp add: scount_def held_defs)
qed (use balancedD [OF b] in \<open>auto simp: count_defs held_defs\<close>)

lemma balanced_lvalue_drop:
  assumes b: "balanced h g" and l: "lvalues h l = Some v" and one: "lcount h g l = 1" "0 < held_l g l"
  shows "balanced (h\<lparr>lvalues := (lvalues h)(l := None)\<rparr>)
    ((set_l l 0 g)\<lparr>held_s := held_s g \<union> set_option (lv_key v)\<rparr>)" (is "balanced ?h ?g")
proof (rule balancedI)
  have fin: "finite (dom (lvalues h))" using balancedD(1) [OF b] by (simp add: finite_store_def)
  show "counted (lcount ?h ?g l') (map_option lv_refcount (lvalues ?h l'))" for l'
    using balancedD(2) [OF b, of l'] one by (auto simp: lcount_def held_defs)
  show "scount ?h ?g s = of_bool (strings ?h s \<noteq> None)" for s
  proof -
    have "scount h g s \<le> 1" using balancedD(4) [OF b, of s] by simp
    then show ?thesis using balancedD(4) [OF b, of s] count_delete [OF fin l, of "\<lambda>v. lv_key v = Some s"]
      by (auto simp: scount_def held_defs split: if_splits)
  qed
qed (use balancedD [OF b] in \<open>auto simp: count_defs held_defs\<close>)

text \<open>What remains of the objects when references are given back.\<close>

definition c_static :: "condition \<Rightarrow> comp_operator_t \<times> addr option \<times> condition_rvalue" where
  "c_static k = (c_op k, c_lvalue k, c_rvalue k)"

definition lv_static :: "condition_lvalue \<Rightarrow> cond_lvalue_t \<times> addr option" where
  "lv_static v = (lv_type v, lv_key v)"

definition shrunk :: "'rx store \<Rightarrow> 'rx store \<Rightarrow> bool" where
  "shrunk h h' \<longleftrightarrow>
     (\<forall>c k'. conds h' c = Some k' \<longrightarrow> (\<exists>k. conds h c = Some k \<and> c_static k = c_static k')) \<and>
     (\<forall>l v'. lvalues h' l = Some v' \<longrightarrow> (\<exists>v. lvalues h l = Some v \<and> lv_static v = lv_static v'))"

lemma static_simps [simp]:
  "c_static (k\<lparr>c_refcount := n\<rparr>) = c_static k" "lv_static (v\<lparr>lv_refcount := n\<rparr>) = lv_static v"
  by (simp_all add: c_static_def lv_static_def)

lemma shrunk_refl [simp]: "shrunk h h"
  by (simp add: shrunk_def)

lemma shrunk_trans: "shrunk h h' \<Longrightarrow> shrunk h' h'' \<Longrightarrow> shrunk h h''"
  unfolding shrunk_def by metis

lemma lvalue_acquire_spec:
  assumes b: "balanced h g" and l: "0 < held_l g l" "lcount h g l + 1 < 2 ^ 31"
  shows "\<exists>h'. condition_lvalue_acquire l h = Inr h' \<and> balanced h' (set_l l (held_l g l + 1) g) \<and> shrunk h h'"
proof -
  have pos: "0 < lcount h g l" using l(1) by (simp add: lcount_def)
  obtain v where v: "lvalues h l = Some v" "counted (lcount h g l) (Some (lv_refcount v))"
    by (rule lvalue_counted [OF b pos])
  have "balanced (h\<lparr>lvalues := (lvalues h)(l \<mapsto> v\<lparr>lv_refcount := lv_refcount v + 1\<rparr>)\<rparr>) (set_l l (held_l g l + 1) g)"
    by (rule balanced_lvalue_count [OF b v(1)])
      (use counted_signed(4) [OF v(2) l(2)] in \<open>simp add: lcount_def ac_simps\<close>)
  then show ?thesis using v counted_signed(1) [OF v(2)]
    by (auto simp: condition_lvalue_acquire_def access_def shrunk_def)
qed

lemma lvalue_release_spec:
  assumes b: "balanced h g" and l: "0 < held_l g l"
  shows "\<exists>h'. condition_lvalue_release (Some l) h = Inr h' \<and> balanced h' (set_l l (held_l g l - 1) g) \<and>
    shrunk h h' \<and> conds h' = conds h"
proof -
  have pos: "0 < lcount h g l" using l by (simp add: lcount_def)
  obtain v where v: "lvalues h l = Some v" "counted (lcount h g l) (Some (lv_refcount v))"
    by (rule lvalue_counted [OF b pos])
  show ?thesis
  proof (cases "lcount h g l = 1")
    case False
    have "balanced (h\<lparr>lvalues := (lvalues h)(l \<mapsto> v\<lparr>lv_refcount := lv_refcount v - 1\<rparr>)\<rparr>) (set_l l (held_l g l - 1) g)"
      by (rule balanced_lvalue_count [OF b v(1)])
        (use counted_signed(3) [OF v(2) False] l in \<open>simp add: lcount_def\<close>)
    then show ?thesis using v counted_signed(1,2) [OF v(2)] False
      by (auto simp: condition_lvalue_release_def access_def shrunk_def)
  next
    case True
    have one: "held_l g l = 1" using True l by (simp add: lcount_def)
    let ?g = "(set_l l 0 g)\<lparr>held_s := held_s g \<union> set_option (lv_key v)\<rparr>"
    have drop: "balanced (h\<lparr>lvalues := (lvalues h)(l := None)\<rparr>) ?g" by (rule balanced_lvalue_drop [OF b v(1) True l])
    show ?thesis
    proof (cases "lv_key v")
      case None
      have g: "?g = set_l l 0 g" using None by (simp add: set_l_def)
      show ?thesis using None v counted_signed(1,2) [OF v(2)] True one drop [unfolded g]
        by (auto simp: condition_lvalue_release_def access_def shrunk_def)
    next
      case (Some s)
      have in_g: "s \<in> held_s ?g" by (simp add: Some)
      have "0 < count_if (lvalues h) (\<lambda>v. lv_key v = Some s)"
        using count_pos [of "lvalues h" l v "\<lambda>v. lv_key v = Some s"] balancedD(1) [OF b] v(1) Some
        by (simp add: finite_store_def)
      then have out: "s \<notin> held_s g" using balancedD(4) [OF b, of s]
        by (auto simp: scount_def of_bool_def split: if_splits)
      obtain t where t: "strings h s = Some t" using balanced_string_free(1) [OF drop in_g]
        by (cases "strings h s") (auto simp: g_string_free_def access_def)
      have "?g\<lparr>held_s := held_s ?g - {s}\<rparr> = set_l l 0 g" using out by (simp add: Some set_l_def)
      then have "balanced (h\<lparr>lvalues := (lvalues h)(l := None), strings := (strings h)(s := None)\<rparr>) (set_l l 0 g)"
        using balanced_string_free(2) [OF drop in_g] by simp
      also have "h\<lparr>lvalues := (lvalues h)(l := None), strings := (strings h)(s := None)\<rparr> =
          h\<lparr>strings := (strings h)(s := None), lvalues := (lvalues h)(l := None)\<rparr>" by simp
      finally show ?thesis using Some v counted_signed(1,2) [OF v(2)] True one t
        by (auto simp: condition_lvalue_release_def access_def shrunk_def g_string_free_def)
    qed
  qed
qed

subsection \<open>Conditions\<close>

fun rv_strings :: "condition_rvalue \<Rightarrow> addr set" where
  "rv_strings (COND_VALUE_STRING s) = {s}"
| "rv_strings _ = {}"

fun rv_regexes :: "condition_rvalue \<Rightarrow> addr set" where
  "rv_regexes (COND_VALUE_REGEXP r) = {r}"
| "rv_regexes _ = {}"

definition give_rvalue :: "condition_rvalue \<Rightarrow> held \<Rightarrow> held" where
  "give_rvalue v g = g\<lparr>held_s := held_s g - rv_strings v, held_r := held_r g - rv_regexes v\<rparr>"

definition take_rvalue :: "condition_rvalue \<Rightarrow> held \<Rightarrow> held" where
  "take_rvalue v g = g\<lparr>held_s := held_s g \<union> rv_strings v, held_r := held_r g \<union> rv_regexes v\<rparr>"

lemma in_rv_strings: "s \<in> rv_strings v \<longleftrightarrow> v = COND_VALUE_STRING s"
  by (cases v) auto

lemma in_rv_regexes: "r \<in> rv_regexes v \<longleftrightarrow> v = COND_VALUE_REGEXP r"
  by (cases v) auto

lemmas rvalue_defs = give_rvalue_def take_rvalue_def in_rv_strings in_rv_regexes held_defs

lemma balanced_cond_new:
  assumes b: "balanced h g" and c: "conds h c = None" and l: "0 < held_l g l"
    and v: "rv_strings v \<subseteq> held_s g" "rv_regexes v \<subseteq> held_r g"
  shows "balanced (h\<lparr>conds := (conds h)(c \<mapsto> \<lparr>c_refcount = 1, c_op = op, c_lvalue = Some l, c_rvalue = v\<rparr>)\<rparr>)
    (set_c c 1 (set_l l (held_l g l - 1) (give_rvalue v g)))" (is "balanced ?h ?g")
proof (rule balancedI)
  have fin: "finite (dom (conds h))" using balancedD(1) [OF b] by (simp add: finite_store_def)
  note count = count_insert [OF fin c]
  show "counted (lcount ?h ?g l') (map_option lv_refcount (lvalues ?h l'))" for l'
    using balancedD(2) [OF b, of l'] l by (auto simp: lcount_def rvalue_defs count)
  show "counted (held_c ?g c') (map_option c_refcount (conds ?h c'))" for c'
    using balancedD(3) [OF b, of c'] by (simp add: rvalue_defs)
  show "scount ?h ?g s = of_bool (strings ?h s \<noteq> None)" for s
    using balancedD(4) [OF b, of s] v(1) by (auto simp: scount_def rvalue_defs count of_bool_def split: if_splits)
  show "rcount ?h ?g r = of_bool (regexes ?h r \<noteq> None)" for r
    using balancedD(5) [OF b, of r] v(2) by (auto simp: rcount_def rvalue_defs count of_bool_def split: if_splits)
qed (use balancedD [OF b] in \<open>auto simp: finite_store_def\<close>)

lemma balanced_cond_drop:
  assumes b: "balanced h g" and c: "conds h c = Some k" "c_lvalue k = Some l"
  shows "balanced (h\<lparr>conds := (conds h)(c := None)\<rparr>)
    (set_c c 0 (set_l l (held_l g l + 1) (take_rvalue (c_rvalue k) g)))" (is "balanced ?h ?g")
proof (rule balancedI)
  have fin: "finite (dom (conds h))" using balancedD(1) [OF b] by (simp add: finite_store_def)
  note count = count_delete [OF fin c(1)]
  show "counted (lcount ?h ?g l') (map_option lv_refcount (lvalues ?h l'))" for l'
    using balancedD(2) [OF b, of l'] count [of "\<lambda>k. c_lvalue k = Some l'"] c(2)
    by (auto simp: lcount_def rvalue_defs)
  show "counted (held_c ?g c') (map_option c_refcount (conds ?h c'))" for c'
    using balancedD(3) [OF b, of c'] by (simp add: rvalue_defs)
  show "scount ?h ?g s = of_bool (strings ?h s \<noteq> None)" for s
    using balancedD(4) [OF b, of s] count [of "\<lambda>k. c_rvalue k = COND_VALUE_STRING s"]
    by (auto simp: scount_def rvalue_defs of_bool_def split: if_splits)
  show "rcount ?h ?g r = of_bool (regexes ?h r \<noteq> None)" for r
    using balancedD(5) [OF b, of r] count [of "\<lambda>k. c_rvalue k = COND_VALUE_REGEXP r"]
    by (auto simp: rcount_def rvalue_defs of_bool_def split: if_splits)
qed (use balancedD [OF b] in \<open>auto simp: finite_store_def\<close>)

lemma balanced_cond_count:
  assumes b: "balanced h g" and c: "conds h c = Some k" and w: "counted n (Some w)"
  shows "balanced (h\<lparr>conds := (conds h)(c \<mapsto> k\<lparr>c_refcount := w\<rparr>)\<rparr>) (set_c c n g)" (is "balanced ?h ?g")
proof (rule balancedI)
  have count: "count_if ((conds h)(c \<mapsto> k\<lparr>c_refcount := w\<rparr>)) Q = count_if (conds h) Q"
    if "Q (k\<lparr>c_refcount := w\<rparr>) = Q k" for Q by (rule count_update [of "conds h" c k]) (use c that in simp_all)
  show "counted (lcount ?h ?g l') (map_option lv_refcount (lvalues ?h l'))" for l'
    using balancedD(2) [OF b, of l'] by (simp add: lcount_def held_defs count)
  show "counted (held_c ?g c') (map_option c_refcount (conds ?h c'))" for c'
    using balancedD(3) [OF b, of c'] w by (simp add: held_defs)
  show "scount ?h ?g s = of_bool (strings ?h s \<noteq> None)" for s
    using balancedD(4) [OF b, of s] by (simp add: scount_def held_defs count)
  show "rcount ?h ?g r = of_bool (regexes ?h r \<noteq> None)" for r
    using balancedD(5) [OF b, of r] by (simp add: rcount_def held_defs count)
qed (use balancedD [OF b] in \<open>auto simp: finite_store_def\<close>)

lemma cond_acquire_spec:
  assumes b: "balanced h g" and c: "0 < held_c g c" "held_c g c + 1 < 2 ^ 31"
  shows "\<exists>h'. condition_acquire c h = Inr h' \<and> balanced h' (set_c c (held_c g c + 1) g) \<and> shrunk h h'"
proof -
  obtain k where k: "conds h c = Some k" "counted (held_c g c) (Some (c_refcount k))"
    by (rule cond_counted [OF b c(1)])
  have "balanced (h\<lparr>conds := (conds h)(c \<mapsto> k\<lparr>c_refcount := c_refcount k + 1\<rparr>)\<rparr>) (set_c c (held_c g c + 1) g)"
    by (rule balanced_cond_count [OF b k(1) counted_signed(4) [OF k(2) c(2)]])
  then show ?thesis using k counted_signed(1) [OF k(2)]
    by (auto simp: condition_acquire_def access_def shrunk_def)
qed

text \<open>Freeing the parts of a condition does not look at the conditions.\<close>

lemma lvalue_release_conds:
  "condition_lvalue_release p (h\<lparr>conds := m\<rparr>) = map_sum id (\<lambda>h. h\<lparr>conds := m\<rparr>) (condition_lvalue_release p h)"
  by (auto simp: condition_lvalue_release_def g_string_free_def access_def Let_def ebind_def
      split: option.splits sum.splits)

definition rvalue_free :: "condition_rvalue \<Rightarrow> 'rx store \<Rightarrow> light_err + 'rx store" where
  "rvalue_free v h = (case v of COND_VALUE_STRING s \<Rightarrow> g_string_free s h | COND_VALUE_REGEXP r \<Rightarrow> g_regex_unref r h | _ \<Rightarrow> Inr h)"

lemma rvalue_free_conds: "rvalue_free v (h\<lparr>conds := m\<rparr>) = map_sum id (\<lambda>h. h\<lparr>conds := m\<rparr>) (rvalue_free v h)"
  by (auto simp: rvalue_free_def g_string_free_def g_regex_unref_def access_def ebind_def
      split: option.splits sum.splits condition_rvalue.splits)

lemma rvalue_free_spec:
  assumes b: "balanced h g" and v: "rv_strings v \<subseteq> held_s g" "rv_regexes v \<subseteq> held_r g"
  shows "\<exists>h'. rvalue_free v h = Inr h' \<and> balanced h' (give_rvalue v g) \<and> conds h' = conds h \<and> lvalues h' = lvalues h"
proof (cases v)
  case (COND_VALUE_STRING s)
  then show ?thesis using balanced_string_free [OF b, of s] v by (simp add: rvalue_free_def give_rvalue_def)
next
  case (COND_VALUE_REGEXP r)
  then show ?thesis using balanced_regex_unref [OF b, of r] v by (simp add: rvalue_free_def give_rvalue_def)
qed (use b in \<open>simp_all add: rvalue_free_def give_rvalue_def\<close>)

lemma owned_rvalue:
  assumes b: "balanced h g" and c: "conds h c = Some k"
  shows "give_rvalue (c_rvalue k) (take_rvalue (c_rvalue k) g) = g"
proof -
  have fin: "finite (dom (conds h))" using balancedD(1) [OF b] by (simp add: finite_store_def)
  have "s \<notin> held_s g" if "c_rvalue k = COND_VALUE_STRING s" for s
    using count_pos [of "conds h" c k "\<lambda>k. c_rvalue k = COND_VALUE_STRING s", OF fin c that] balancedD(4) [OF b, of s]
    by (auto simp: scount_def of_bool_def split: if_splits)
  moreover have "r \<notin> held_r g" if "c_rvalue k = COND_VALUE_REGEXP r" for r
    using count_pos [of "conds h" c k "\<lambda>k. c_rvalue k = COND_VALUE_REGEXP r", OF fin c that] balancedD(5) [OF b, of r]
    by (auto simp: rcount_def of_bool_def split: if_splits)
  ultimately show ?thesis by (cases "c_rvalue k") (auto simp: give_rvalue_def take_rvalue_def)
qed

lemma cond_release_last:
  assumes b: "balanced h g" and c: "conds h c = Some k" "c_lvalue k = Some l" and one: "held_c g c = 1"
  shows "\<exists>h'. condition_free c (h\<lparr>conds := (conds h)(c \<mapsto> k\<lparr>c_refcount := n\<rparr>)\<rparr>) = Inr h' \<and>
    balanced h' (set_c c 0 g) \<and> shrunk h h'"
proof -
  define m where "m = (conds h)(c := None)"
  define g1 where "g1 = set_c c 0 (set_l l (held_l g l + 1) (take_rvalue (c_rvalue k) g))"
  let ?h0 = "h\<lparr>conds := m\<rparr>"
  let ?h1 = "h\<lparr>conds := (conds h)(c \<mapsto> k\<lparr>c_refcount := n\<rparr>)\<rparr>"
  have b1: "balanced ?h0 g1" unfolding g1_def m_def by (rule balanced_cond_drop [OF b c])
  have l1: "0 < held_l g1 l" by (simp add: g1_def rvalue_defs)
  obtain h2 where h2: "condition_lvalue_release (Some l) ?h0 = Inr h2"
      "balanced h2 (set_l l (held_l g1 l - 1) g1)" "shrunk ?h0 h2" "conds h2 = m"
    using lvalue_release_spec [OF b1 l1] by auto
  let ?g2 = "set_l l (held_l g1 l - 1) g1"
  have v2: "rv_strings (c_rvalue k) \<subseteq> held_s ?g2" "rv_regexes (c_rvalue k) \<subseteq> held_r ?g2"
    by (simp_all add: g1_def take_rvalue_def held_defs)
  obtain h3 where h3: "rvalue_free (c_rvalue k) h2 = Inr h3" "balanced h3 (give_rvalue (c_rvalue k) ?g2)"
      "conds h3 = m" "lvalues h3 = lvalues h2"
    using rvalue_free_spec [OF h2(2) v2] h2(4) by auto
  have "give_rvalue (c_rvalue k) ?g2 = set_c c 0 (give_rvalue (c_rvalue k) (take_rvalue (c_rvalue k) g))"
    by (simp add: g1_def give_rvalue_def take_rvalue_def held_defs)
  then have g: "give_rvalue (c_rvalue k) ?g2 = set_c c 0 g" by (simp add: owned_rvalue [OF b c(1)])
  have "condition_lvalue_release (Some l) ?h1 = Inr (h2\<lparr>conds := conds ?h1\<rparr>)"
    using lvalue_release_conds [where p = "Some l" and h = ?h0 and m = "conds ?h1"] h2(1) by simp
  moreover have "rvalue_free (c_rvalue k) (h2\<lparr>conds := conds ?h1\<rparr>) = Inr (h3\<lparr>conds := conds ?h1\<rparr>)"
    by (simp add: rvalue_free_conds h3(1))
  moreover have "h3\<lparr>conds := m\<rparr> = h3" using h3(3) by simp
  ultimately have "condition_free c ?h1 = Inr h3"
    using c by (simp add: condition_free_def access_def rvalue_free_def [symmetric] m_def)
  moreover have "shrunk ?h0 h3" using h2(3,4) h3(3,4) by (simp add: shrunk_def)
  moreover have "shrunk h ?h0" by (auto simp: shrunk_def m_def split: if_splits)
  ultimately show ?thesis using h3(2) g shrunk_trans by metis
qed

lemma cond_release_spec:
  assumes b: "balanced h g" and c: "0 < held_c g c" "\<And>k. conds h c = Some k \<Longrightarrow> c_lvalue k \<noteq> None"
  shows "\<exists>h'. condition_release (Some c) h = Inr h' \<and> balanced h' (set_c c (held_c g c - 1) g) \<and> shrunk h h'"
proof -
  obtain k where k: "conds h c = Some k" "counted (held_c g c) (Some (c_refcount k))"
    by (rule cond_counted [OF b c(1)])
  obtain l where l: "c_lvalue k = Some l" using c(2) [OF k(1)] by auto
  show ?thesis
  proof (cases "held_c g c = 1")
    case True
    then show ?thesis
      using cond_release_last [OF b k(1) l True, of "c_refcount k - 1"] k(1) counted_signed(1,2) [OF k(2)]
      by (simp add: condition_release_def access_def Let_def)
  next
    case False
    have "balanced (h\<lparr>conds := (conds h)(c \<mapsto> k\<lparr>c_refcount := c_refcount k - 1\<rparr>)\<rparr>) (set_c c (held_c g c - 1) g)"
      by (rule balanced_cond_count [OF b k(1) counted_signed(3) [OF k(2) False]])
    then show ?thesis using k counted_signed(1,2) [OF k(2)] False
      by (auto simp: condition_release_def access_def Let_def shrunk_def)
  qed
qed

end
