(* ===== verification/Light_Calls.thy ===== *)
theory Light_Calls
  imports Light_Refs
begin

text \<open>
  The functions of \<open>lighttpd/src/condition.c\<close> as a caller uses them: \<open>make_call\<close> makes one call, \<open>permitted\<close> says what the
  caller must hold for it, \<open>settle\<close> what it holds afterwards. The relation \<open>session\<close> collects the states that
  sequences of such calls lead to. In all of them the store is balanced and every condition has an operator
  that op_fits its value.
\<close>

subsection \<open>What is assumed of other code\<close>

definition supplied :: "'rx light_h \<Rightarrow> bool" where
  "supplied L \<longleftrightarrow>
     (\<forall>h. finite_store h \<longrightarrow> lvalues h (new_addr L h) = None \<and> conds h (new_addr L h) = None
        \<and> strings h (new_addr L h) = None \<and> regexes h (new_addr L h) = None)
   \<and> rv_strings (rvalue0 L) = {} \<and> rv_regexes (rvalue0 L) = {}
   \<and> (\<forall>b str a n. parse_ipv6 L b str = Some (a, n) \<longrightarrow> length a = 16 \<and> unat n \<le> 128)"

lemma suppliedD:
  assumes "supplied L"
  shows "finite_store h \<Longrightarrow> lvalues h (new_addr L h) = None"
    and "finite_store h \<Longrightarrow> conds h (new_addr L h) = None"
    and "finite_store h \<Longrightarrow> strings h (new_addr L h) = None"
    and "finite_store h \<Longrightarrow> regexes h (new_addr L h) = None"
    and "rv_strings (rvalue0 L) = {}" and "rv_regexes (rvalue0 L) = {}"
    and "parse_ipv6 L b str = Some (a, n) \<Longrightarrow> length a = 16 \<and> unat n \<le> 128"
  using assms by (auto simp: supplied_def)

subsection \<open>Operators and values that fit\<close>

fun op_fits :: "comp_operator_t \<Rightarrow> condition_rvalue \<Rightarrow> bool" where
  "op_fits op (COND_VALUE_BOOL _) = (op = CONFIG_COND_EQ)"
| "op_fits op (COND_VALUE_NUMBER _) =
     (op \<in> {CONFIG_COND_EQ, CONFIG_COND_NE, CONFIG_COND_GT, CONFIG_COND_GE, CONFIG_COND_LT, CONFIG_COND_LE})"
| "op_fits op (COND_VALUE_STRING _) =
     (op \<in> {CONFIG_COND_EQ, CONFIG_COND_NE, CONFIG_COND_PREFIX, CONFIG_COND_NOPREFIX, CONFIG_COND_SUFFIX,
            CONFIG_COND_NOSUFFIX})"
| "op_fits op (COND_VALUE_REGEXP _) = (op \<in> {CONFIG_COND_MATCH, CONFIG_COND_NOMATCH})"
| "op_fits op (COND_VALUE_SOCKET_IPV4 _ _) = (op \<in> {CONFIG_COND_IP, CONFIG_COND_NOTIP})"
| "op_fits op (COND_VALUE_SOCKET_IPV6 a n) = (op \<in> {CONFIG_COND_IP, CONFIG_COND_NOTIP} \<and> length a = 16 \<and> unat n \<le> 128)"

definition typed :: "'rx store \<Rightarrow> bool" where
  "typed h \<longleftrightarrow> (\<forall>c k. conds h c = Some k \<longrightarrow> c_lvalue k \<noteq> None \<and> op_fits (c_op k) (c_rvalue k))
     \<and> (\<forall>l v. lvalues h l = Some v \<longrightarrow> lv_type v = COMP_REQUEST_HEADER \<longrightarrow> lv_key v \<noteq> None)"

lemma typed_shrunk: "typed h \<Longrightarrow> shrunk h h' \<Longrightarrow> typed h'"
  unfolding typed_def shrunk_def c_static_def lv_static_def by (metis prod.inject)

lemma typed_same: "conds h' = conds h \<Longrightarrow> lvalues h' = lvalues h \<Longrightarrow> typed h' = typed h"
  by (simp add: typed_def)

definition good :: "'rx store \<Rightarrow> held \<Rightarrow> bool" where
  "good h g \<longleftrightarrow> balanced h g \<and> held_r g = {} \<and> typed h"

lemma good_log [simp]: "good (log_error msg h) g = good h g"
proof -
  have "typed (log_error msg h) = typed h" by (rule typed_same) (simp_all add: log_error_def)
  then show ?thesis by (simp add: good_def)
qed

subsection \<open>Constructors\<close>

definition new_cell ::
    "'rx light_h \<Rightarrow> comp_operator_t \<Rightarrow> addr option \<Rightarrow> condition_rvalue \<Rightarrow> 'rx store \<Rightarrow> 'rx store" where
  "new_cell L op lvalue v h = h\<lparr>conds := (conds h)(new_addr L h \<mapsto>
     \<lparr>c_refcount = 1, c_op = op, c_lvalue = lvalue, c_rvalue = v\<rparr>)\<rparr>"

lemma condition_new_eq:
  "condition_new L op lvalue h = (new_addr L h, new_cell L op lvalue (rvalue0 L) h)"
  by (simp add: condition_new_def new_cell_def Let_def)

lemma set_rvalue_new: "set_rvalue (new_addr L h) v (new_cell L op lvalue w h) = new_cell L op lvalue v h"
  by (simp add: set_rvalue_def new_cell_def)

lemma new_cell_simps [simp]:
  "lvalues (new_cell L op lvalue v h) = lvalues h" "strings (new_cell L op lvalue v h) = strings h"
  "regexes (new_cell L op lvalue v h) = regexes h"
  by (simp_all add: new_cell_def)

text \<open>A new condition takes over a reference to its left-hand side and what its value refers to.\<close>

lemma new_cond_good:
  assumes L: "supplied L" and g: "good h g" and l: "0 < held_l g l"
    and v: "rv_strings v \<subseteq> held_s g" "rv_regexes v = {}" "op_fits op v"
  shows "good (new_cell L op (Some l) v h) (set_c (new_addr L h) 1 (set_l l (held_l g l - 1) (give_rvalue v g)))"
proof -
  have b: "balanced h g" using g by (simp add: good_def)
  have "conds h (new_addr L h) = None" by (rule suppliedD(2) [OF L balancedD(1) [OF b]])
  then have "balanced (new_cell L op (Some l) v h) (set_c (new_addr L h) 1 (set_l l (held_l g l - 1) (give_rvalue v g)))"
    unfolding new_cell_def by (rule balanced_cond_new [OF b _ l v(1)]) (simp add: v(2))
  moreover have "typed (new_cell L op (Some l) v h)" using g v by (auto simp: good_def typed_def new_cell_def)
  ultimately show ?thesis using g by (simp add: good_def give_rvalue_def)
qed

definition keep_string :: "comp_operator_t \<Rightarrow> bool" where
  "keep_string op \<longleftrightarrow> op \<in> {CONFIG_COND_IP, CONFIG_COND_NOTIP}"

text \<open>What a caller holds after \<open>condition_new_string\<close>: on success the condition in exchange for the left-hand side and
  the string, which a comparison of addresses leaves with the caller; a text that is no address costs the
  left-hand side too.\<close>

definition after_string :: "comp_operator_t \<Rightarrow> addr \<Rightarrow> addr \<Rightarrow> addr option \<Rightarrow> held \<Rightarrow> held" where
  "after_string op l s r g =
     (case r of
        Some c \<Rightarrow> set_c c 1 (set_l l (held_l g l - 1) (if keep_string op then g else give_strings (Some s) g))
      | None \<Rightarrow> if keep_string op then set_l l (held_l g l - 1) g else g)"

lemma cond_new_string_good:
  assumes "supplied L" "good h g" "0 < held_l g l" "s \<in> held_s g" "op_fits op (COND_VALUE_STRING s)"
  shows "\<exists>r h'. cond_new_string L op (Some l) s h = Inr (r, h') \<and> good h' (after_string op l s r g)"
proof -
  have "give_rvalue (COND_VALUE_STRING s) g = give_strings (Some s) g" by (simp add: give_rvalue_def give_strings_def)
  moreover have "\<not> keep_string op" using assms(5) by (auto simp: keep_string_def)
  ultimately show ?thesis using new_cond_good [OF assms(1-3), of "COND_VALUE_STRING s" op] assms(4,5)
    by (simp add: cond_new_string_def condition_new_eq set_rvalue_new after_string_def)
qed

lemma cond_new_match_good:
  assumes L: "supplied L" and g: "good h g" and l: "0 < held_l g l" and s: "s \<in> held_s g"
    and op: "op \<in> {CONFIG_COND_MATCH, CONFIG_COND_NOMATCH}"
  shows "\<exists>r h'. cond_new_match L op (Some l) s h = Inr (r, h') \<and> good h' (after_string op l s r g)"
proof -
  have b: "balanced h g" using g by (simp add: good_def)
  obtain str where str: "strings h s = Some str" using string_live [OF b, of s] s by (auto simp: scount_def)
  have nk: "\<not> keep_string op" using op by (auto simp: keep_string_def)
  show ?thesis
  proof (cases "regex_new L str")
    case (Inl message)
    then show ?thesis using str g nk
      by (simp add: cond_new_match_def access_def after_string_def)
  next
    case (Inr rx)
    let ?r = "new_addr L h"
    let ?h1 = "h\<lparr>regexes := (regexes h)(?r \<mapsto> (rx, 1))\<rparr>"
    let ?g1 = "g\<lparr>held_r := insert ?r (held_r g)\<rparr>"
    have b1: "balanced ?h1 ?g1"
      by (rule balanced_regex_new [OF b suppliedD(4) [OF L balancedD(1) [OF b]]])
    let ?c = "new_addr L ?h1"
    let ?h3 = "new_cell L op (Some l) (COND_VALUE_REGEXP ?r) ?h1"
    let ?g3 = "set_c ?c 1 (set_l l (held_l g l - 1) g)"
    have free: "conds ?h1 ?c = None" by (rule suppliedD(2) [OF L balancedD(1) [OF b1]])
    have l1: "0 < held_l ?g1 l" using l by simp
    have "balanced ?h3 (set_c ?c 1 (set_l l (held_l ?g1 l - 1) (give_rvalue (COND_VALUE_REGEXP ?r) ?g1)))"
      unfolding new_cell_def by (rule balanced_cond_new [OF b1 free l1]) simp_all
    moreover have "give_rvalue (COND_VALUE_REGEXP ?r) ?g1 = g"
      using g by (simp add: good_def give_rvalue_def)
    ultimately have b3: "balanced ?h3 ?g3" by simp
    have s3: "s \<in> held_s ?g3" using s by simp
    have "typed ?h3" using g op by (auto simp: new_cell_def good_def typed_def)
    then have "good (?h3\<lparr>strings := (strings ?h3)(s := None)\<rparr>) (?g3\<lparr>held_s := held_s ?g3 - {s}\<rparr>)"
      using balanced_string_free(2) [OF b3 s3] g by (simp add: good_def typed_def)
    moreover have "?g3\<lparr>held_s := held_s ?g3 - {s}\<rparr> = after_string op l s (Some ?c) g"
      using nk by (simp add: after_string_def held_defs)
    moreover have "cond_new_match L op (Some l) s h = Inr (Some ?c, ?h3\<lparr>strings := (strings ?h3)(s := None)\<rparr>)"
      using str Inr balanced_string_free(1) [OF b3 s3]
      by (simp add: cond_new_match_def access_def Let_def condition_new_eq set_rvalue_new)
    ultimately show ?thesis by metis
  qed
qed

lemma cond_new_ip_good:
  assumes L: "supplied L" and g: "good h g" and l: "0 < held_l g l" and s: "s \<in> held_s g"
    and op: "op \<in> {CONFIG_COND_IP, CONFIG_COND_NOTIP}"
  shows "\<exists>r h'. cond_new_ip L op (Some l) s h = Inr (r, h') \<and> good h' (after_string op l s r g)"
proof -
  have b: "balanced h g" using g by (simp add: good_def)
  obtain str where str: "strings h s = Some str" using string_live [OF b, of s] s by (auto simp: scount_def)
  have kp: "keep_string op" using op by (auto simp: keep_string_def)
  have free: "conds h (new_addr L h) = None" by (rule suppliedD(2) [OF L balancedD(1) [OF b]])
  show ?thesis
  proof (cases "condition_parse_ip_net L str")
    case (Some v)
    have v: "op_fits op v" "rv_strings v = {}" "rv_regexes v = {}"
      using Some op suppliedD(7) [OF L] by (auto simp: condition_parse_ip_net_def split: option.splits)
    then have "give_rvalue v g = g" by (simp add: give_rvalue_def)
    then show ?thesis using new_cond_good [OF L g l, of v op] str Some kp v
      by (simp add: cond_new_ip_def condition_new_eq set_rvalue_new access_def after_string_def)
  next
    case None
    let ?c = "new_addr L h"
    let ?g1 = "set_c ?c 1 (set_l l (held_l g l - 1) g)"
    define h2 where "h2 = log_error (''Invalid ip address '' @ quoted (CHR 0x27) str) (new_cell L op (Some l) (rvalue0 L) h)"
    have h2: "conds h2 = conds (new_cell L op (Some l) (rvalue0 L) h)" "lvalues h2 = lvalues h"
      by (simp_all add: h2_def log_error_def)
    have "give_rvalue (rvalue0 L) g = g" using suppliedD(5,6) [OF L] by (simp add: give_rvalue_def)
    moreover have "balanced h2 (set_c ?c 1 (set_l l (held_l g l - 1) (give_rvalue (rvalue0 L) g)))"
      unfolding h2_def balanced_log new_cell_def
      by (rule balanced_cond_new [OF b free l]) (use suppliedD(5,6) [OF L] in simp_all)
    ultimately have b2: "balanced h2 ?g1" by simp
    have c2: "0 < held_c ?g1 ?c" "\<And>k. conds h2 ?c = Some k \<Longrightarrow> c_lvalue k \<noteq> None"
      by (auto simp: h2(1) new_cell_def)
    obtain h' where h': "condition_release (Some ?c) h2 = Inr h'"
        "balanced h' (set_c ?c (held_c ?g1 ?c - 1) ?g1)" "shrunk h2 h'"
      using cond_release_spec [OF b2 c2] by auto
    have zero: "held_c g ?c = 0" using balancedD(3) [OF b, of ?c] free by simp
    have g': "set_c ?c (held_c ?g1 ?c - 1) ?g1 = after_string op l s None g"
      using kp zero by (simp add: after_string_def held_defs fun_upd_idem)
    have "conds h' ?c = None"
      using balancedD(3) [OF h'(2), of ?c] by (cases "conds h' ?c") simp_all
    then have "shrunk h h'" using h'(3) by (auto simp: shrunk_def h2 new_cell_def split: if_splits) (metis not_Some_eq)
    then have "good h' (after_string op l s None g)"
      using h'(2) g g' kp typed_shrunk by (auto simp: good_def after_string_def)
    moreover have "cond_new_ip L op (Some l) s h = Inr (None, h')"
      using str None h'(1) by (simp add: cond_new_ip_def condition_new_eq access_def h2_def)
    ultimately show ?thesis by blast
  qed
qed

lemma condition_new_string_good:
  assumes "supplied L" "good h g" "0 < held_l g l" "s \<in> held_s g"
  shows "\<exists>r h'. condition_new_string L op (Some l) s h = Inr (r, h') \<and> good h' (after_string op l s r g)"
proof (cases op)
  case CONFIG_COND_MATCH
  then show ?thesis using cond_new_match_good [OF assms, of op] by (simp add: condition_new_string_def)
next
  case CONFIG_COND_NOMATCH
  then show ?thesis using cond_new_match_good [OF assms, of op] by (simp add: condition_new_string_def)
next
  case CONFIG_COND_IP
  then show ?thesis using cond_new_ip_good [OF assms, of op] by (simp add: condition_new_string_def)
next
  case CONFIG_COND_NOTIP
  then show ?thesis using cond_new_ip_good [OF assms, of op] by (simp add: condition_new_string_def)
qed (use cond_new_string_good [OF assms, of op] assms(2) in
  \<open>simp_all add: condition_new_string_def after_string_def keep_string_def\<close>)

lemma condition_new_bool_good:
  assumes "supplied L" "good h g" "0 < held_l g l"
  shows "\<exists>c h'. condition_new_bool L (Some l) v h = Inr (Some c, h') \<and> good h' (set_c c 1 (set_l l (held_l g l - 1) g))"
  using new_cond_good [OF assms, of "COND_VALUE_BOOL v" CONFIG_COND_EQ]
  by (simp add: condition_new_bool_def condition_new_eq set_rvalue_new give_rvalue_def)

definition after_int :: "addr \<Rightarrow> addr option \<Rightarrow> held \<Rightarrow> held" where
  "after_int l r g = (case r of Some c \<Rightarrow> set_c c 1 (set_l l (held_l g l - 1) g) | None \<Rightarrow> g)"

lemma condition_new_int_good:
  assumes "supplied L" "good h g" "0 < held_l g l"
  shows "\<exists>r h'. condition_new_int L op (Some l) i h = Inr (r, h') \<and> good h' (after_int l r g)"
  using new_cond_good [OF assms, of "COND_VALUE_NUMBER i" op] assms(2)
  by (cases op) (simp_all add: condition_new_int_def condition_new_eq set_rvalue_new give_rvalue_def after_int_def)

lemma lvalue_new_good:
  assumes L: "supplied L" and g: "good h g" and key: "set_option key \<subseteq> held_s g" "t = COMP_REQUEST_HEADER \<Longrightarrow> key \<noteq> None"
  shows "\<exists>l h'. condition_lvalue_new L t key h = Inr (l, h') \<and> good h' (set_l l 1 (give_strings key g))"
proof -
  have b: "balanced h g" using g by (simp add: good_def)
  have new: "balanced (h'\<lparr>lvalues := (lvalues h')(new_addr L h \<mapsto> \<lparr>lv_type = t, lv_key = key, lv_refcount = 1\<rparr>)\<rparr>)
      (set_l (new_addr L h) 1 (give_strings key g))" if "balanced h' g" "lvalues h' = lvalues h" for h'
    by (rule balanced_lvalue_new [OF that(1) _ key(1)]) (use suppliedD(1) [OF L balancedD(1) [OF b]] that(2) in simp)
  show ?thesis
  proof (cases "t = COMP_REQUEST_HEADER")
    case True
    then obtain s where s: "key = Some s" using key(2) by auto
    obtain str where str: "strings h s = Some str" using string_live [OF b, of s] key(1) s by (auto simp: scount_def)
    let ?h = "h\<lparr>strings := (strings h)(s \<mapsto> ascii_down L str)\<rparr>"
    have "balanced ?h g" by (rule balanced_string_text [OF b]) (use str in simp)
    from new [OF this] show ?thesis using True s str g
      by (auto simp: condition_lvalue_new_def deref_def access_def good_def typed_def Let_def)
  next
    case False
    then show ?thesis using new [OF b] g by (auto simp: condition_lvalue_new_def good_def typed_def Let_def)
  qed
qed

subsection \<open>Counted objects\<close>

text \<open>What users of a counted object rely on: giving one of their references back succeeds and keeps the store in
  order. Giving all of them back then succeeds too.\<close>

fun release_times :: "(addr \<Rightarrow> 'rx store \<Rightarrow> light_err + 'rx store) \<Rightarrow> nat \<Rightarrow> addr \<Rightarrow> 'rx store \<Rightarrow> light_err + 'rx store" where
  "release_times rel 0 a h = Inr h"
| "release_times rel (Suc n) a h = ebind (rel a h) (release_times rel n a)"

locale counted_object =
  fixes refs :: "held \<Rightarrow> addr \<Rightarrow> nat" and set_refs :: "addr \<Rightarrow> nat \<Rightarrow> held \<Rightarrow> held"
    and rel :: "addr \<Rightarrow> 'rx store \<Rightarrow> light_err + 'rx store"
  assumes refs_set: "refs (set_refs a n g) a = n"
    and set_set: "set_refs a m (set_refs a n g) = set_refs a m g"
    and set_refs_same: "set_refs a (refs g a) g = g"
    and released: "good h g \<Longrightarrow> 0 < refs g a \<Longrightarrow> \<exists>h'. rel a h = Inr h' \<and> good h' (set_refs a (refs g a - 1) g)"
begin

lemma release_all:
  assumes "good h g"
  shows "\<exists>h'. release_times rel (refs g a) a h = Inr h' \<and> good h' (set_refs a 0 g)"
  using assms
proof (induction "refs g a" arbitrary: h g)
  case 0
  then show ?case using set_refs_same [of a g] by simp
next
  case (Suc n)
  obtain h1 where h1: "rel a h = Inr h1" "good h1 (set_refs a (refs g a - 1) g)"
    using released [OF Suc.prems, of a] Suc.hyps(2) by auto
  have "n = refs (set_refs a (refs g a - 1) g) a" using Suc.hyps(2) by (simp add: refs_set)
  from Suc.hyps(1) [OF this h1(2)] show ?case
    using h1(1) Suc.hyps(2) [symmetric] by (simp add: refs_set set_set)
qed

end

interpretation lv: counted_object held_l set_l "\<lambda>l. condition_lvalue_release (Some l)"
proof
  fix h :: "'a store" and g l assume g: "good h g" "0 < held_l g l"
  show "\<exists>h'. condition_lvalue_release (Some l) h = Inr h' \<and> good h' (set_l l (held_l g l - 1) g)"
    using lvalue_release_spec [of h g l] g by (auto simp: good_def intro: typed_shrunk)
qed (simp_all add: set_l_def)

interpretation cd: counted_object held_c set_c "\<lambda>c. condition_release (Some c)"
proof
  fix h :: "'a store" and g c assume g: "good h g" "0 < held_c g c"
  have "c_lvalue k \<noteq> None" if "conds h c = Some k" for k using g(1) that by (simp add: good_def typed_def)
  then show "\<exists>h'. condition_release (Some c) h = Inr h' \<and> good h' (set_c c (held_c g c - 1) g)"
    using cond_release_spec [of h g c] g by (auto simp: good_def intro: typed_shrunk)
qed (simp_all add: set_c_def)

text \<open>The last reference frees: afterwards the condition is gone.\<close>

lemma condition_gone:
  assumes "good h g"
  obtains h' where "release_times (\<lambda>c. condition_release (Some c)) (held_c g c) c h = Inr h'" "conds h' c = None"
proof -
  obtain h' where h': "release_times (\<lambda>c. condition_release (Some c)) (held_c g c) c h = Inr h'" "good h' (set_c c 0 g)"
    using cd.release_all [OF assms] by blast
  have "conds h' c = None" using balancedD(3) [of h' "set_c c 0 g" c] h'(2) by (cases "conds h' c") (simp_all add: good_def)
  then show ?thesis using h'(1) that by blast
qed

subsection \<open>Sessions\<close>

datatype cond_call =
    String_new string
  | String_free addr
  | Lvalue_new cond_lvalue_t "addr option"
  | Lvalue_acquire addr
  | Lvalue_release addr
  | New_bool addr bool
  | New_string comp_operator_t addr addr
  | New_int comp_operator_t addr "64 word"
  | Cond_acquire addr
  | Cond_release addr

fun make_call :: "'rx light_h \<Rightarrow> cond_call \<Rightarrow> 'rx store \<Rightarrow> light_err + addr option \<times> 'rx store" where
  "make_call L (String_new t) h = Inr (Some (new_addr L h), h\<lparr>strings := (strings h)(new_addr L h \<mapsto> t)\<rparr>)"
| "make_call L (String_free s) h = ebind (g_string_free s h) (\<lambda>h. Inr (None, h))"
| "make_call L (Lvalue_new t key) h = ebind (condition_lvalue_new L t key h) (\<lambda>(l, h). Inr (Some l, h))"
| "make_call L (Lvalue_acquire l) h = ebind (condition_lvalue_acquire l h) (\<lambda>h. Inr (None, h))"
| "make_call L (Lvalue_release l) h = ebind (condition_lvalue_release (Some l) h) (\<lambda>h. Inr (None, h))"
| "make_call L (New_bool l b) h = condition_new_bool L (Some l) b h"
| "make_call L (New_string op l s) h = condition_new_string L op (Some l) s h"
| "make_call L (New_int op l i) h = condition_new_int L op (Some l) i h"
| "make_call L (Cond_acquire c) h = ebind (condition_acquire c h) (\<lambda>h. Inr (None, h))"
| "make_call L (Cond_release c) h = ebind (condition_release (Some c) h) (\<lambda>h. Inr (None, h))"

fun permitted :: "'rx store \<Rightarrow> held \<Rightarrow> cond_call \<Rightarrow> bool" where
  "permitted h g (String_new t) = True"
| "permitted h g (String_free s) = (s \<in> held_s g)"
| "permitted h g (Lvalue_new t key) = (set_option key \<subseteq> held_s g \<and> (t = COMP_REQUEST_HEADER \<longrightarrow> key \<noteq> None))"
| "permitted h g (Lvalue_acquire l) = (0 < held_l g l \<and> lcount h g l + 1 < 2 ^ 31)"
| "permitted h g (Lvalue_release l) = (0 < held_l g l)"
| "permitted h g (New_bool l b) = (0 < held_l g l)"
| "permitted h g (New_string op l s) = (0 < held_l g l \<and> s \<in> held_s g)"
| "permitted h g (New_int op l i) = (0 < held_l g l)"
| "permitted h g (Cond_acquire c) = (0 < held_c g c \<and> held_c g c + 1 < 2 ^ 31)"
| "permitted h g (Cond_release c) = (0 < held_c g c)"

fun settle :: "cond_call \<Rightarrow> addr option \<Rightarrow> held \<Rightarrow> held" where
  "settle (String_new t) r g = g\<lparr>held_s := held_s g \<union> set_option r\<rparr>"
| "settle (String_free s) r g = give_strings (Some s) g"
| "settle (Lvalue_new t key) r g = set_l (the r) 1 (give_strings key g)"
| "settle (Lvalue_acquire l) r g = set_l l (held_l g l + 1) g"
| "settle (Lvalue_release l) r g = set_l l (held_l g l - 1) g"
| "settle (New_bool l b) r g = after_int l r g"
| "settle (New_string op l s) r g = after_string op l s r g"
| "settle (New_int op l i) r g = after_int l r g"
| "settle (Cond_acquire c) r g = set_c c (held_c g c + 1) g"
| "settle (Cond_release c) r g = set_c c (held_c g c - 1) g"

definition no_store :: "'rx store" where
  "no_store = \<lparr>lvalues = Map.empty, conds = Map.empty, strings = Map.empty, regexes = Map.empty, srv_log = []\<rparr>"

definition holds_nothing :: held where
  "holds_nothing = \<lparr>held_l = (\<lambda>_. 0), held_c = (\<lambda>_. 0), held_s = {}, held_r = {}\<rparr>"

inductive session :: "'rx light_h \<Rightarrow> 'rx store \<Rightarrow> held \<Rightarrow> bool" for L :: "'rx light_h" where
  session_start: "session L no_store holds_nothing"
| session_call: "session L h g \<Longrightarrow> permitted h g x \<Longrightarrow> make_call L x h = Inr (r, h') \<Longrightarrow> session L h' (settle x r g)"

lemma make_call_good:
  assumes L: "supplied L" and g: "good h g" and x: "permitted h g x"
  shows "\<exists>r h'. make_call L x h = Inr (r, h') \<and> good h' (settle x r g)"
proof -
  have b: "balanced h g" and t: "typed h" and r: "held_r g = {}" using g by (simp_all add: good_def)
  show ?thesis
  proof (cases x)
    case (String_new str)
    then show ?thesis using balanced_string_new [OF b suppliedD(3) [OF L balancedD(1) [OF b]], of str] t r
      by (simp add: good_def typed_def)
  next
    case (String_free s)
    then show ?thesis using balanced_string_free [OF b, of s] x t r
      by (simp add: good_def typed_def give_strings_def)
  next
    case (Lvalue_new t key)
    then show ?thesis using lvalue_new_good [OF L g, of key t] x by auto
  next
    case (Lvalue_acquire l)
    then show ?thesis using lvalue_acquire_spec [OF b, of l] x t r by (auto simp: good_def intro: typed_shrunk)
  next
    case (Lvalue_release l)
    then show ?thesis using lv.released [OF g, of l] x by auto
  next
    case (New_bool l v)
    then show ?thesis using condition_new_bool_good [OF L g, of l v] x by (auto simp: after_int_def)
  next
    case (New_string op l s)
    then show ?thesis using condition_new_string_good [OF L g, of l s op] x by simp
  next
    case (New_int op l i)
    then show ?thesis using condition_new_int_good [OF L g, of l op i] x by simp
  next
    case (Cond_acquire c)
    then show ?thesis using cond_acquire_spec [OF b, of c] x t r by (auto simp: good_def intro: typed_shrunk)
  next
    case (Cond_release c)
    then show ?thesis using cd.released [OF g, of c] x by auto
  qed
qed

lemma session_good:
  assumes L: "supplied L"
  shows "session L h g \<Longrightarrow> good h g"
proof (induction rule: session.induct)
  case session_start
  show ?case
    by (simp add: good_def balanced_def typed_def no_store_def holds_nothing_def count_defs)
next
  case (session_call h g x r h')
  then show ?case using make_call_good [OF L session_call.IH session_call.hyps(2)] by auto
qed

lemma good_released:
  assumes g: "good h g" and none: "\<forall>l. held_l g l = 0" "\<forall>c. held_c g c = 0" "held_s g = {}"
  shows "lvalues h = Map.empty \<and> conds h = Map.empty \<and> strings h = Map.empty \<and> regexes h = Map.empty"
proof -
  have b: "balanced h g" "held_r g = {}" using g by (simp_all add: good_def)
  have c: "conds h = Map.empty"
  proof
    show "conds h c = None" for c using balancedD(3) [OF b(1), of c] none(2) by (cases "conds h c") simp_all
  qed
  have l: "lvalues h = Map.empty"
  proof
    show "lvalues h l = None" for l
      using balancedD(2) [OF b(1), of l] none(1) c by (cases "lvalues h l") (simp_all add: lcount_def)
  qed
  have "strings h = Map.empty"
  proof
    show "strings h s = None" for s
      using balancedD(4) [OF b(1), of s] none(3) c l by (cases "strings h s") (simp_all add: scount_def)
  qed
  moreover have "regexes h = Map.empty"
  proof
    show "regexes h r = None" for r
      using balancedD(5) [OF b(1), of r] b(2) c by (cases "regexes h r") (simp_all add: rcount_def)
  qed
  ultimately show ?thesis using c l by simp
qed

end
