(* ===== verification/Light_Eval.thy ===== *)
theory Light_Eval
  imports Light_Cond
begin

unbundle bit_operations_syntax

text \<open>
  The evaluation of conditions for a request (\<open>lighttpd/src/condition.c\<close>). \<open>vrequest\<close> holds the fields of the request, of
  its connection and of the worker that the file reads or writes; \<open>request_h\<close> holds the functions on them
  that other files supply, and the options of the build. A check gives the handler's code, the value of
  \<open>*res\<close> and the request afterwards.
\<close>

subsection \<open>Data\<close>

datatype handler_t = HANDLER_GO_ON | HANDLER_ERROR

datatype errno = EACCES | EBADF | EFAULT | ELOOP | ENAMETOOLONG | ENOENT | ENOMEM | ENOTDIR | other_errno int

datatype sock_addr = AF_INET "32 word" | AF_INET6 "byte list" | AF_other int

record connection =
  local_addr_str :: string
  remote_addr_str :: string
  local_addr :: sock_addr
  remote_addr :: sock_addr
  is_ssl :: bool

text \<open>An element of the stack of matches: the match information and the matched string.\<close>

type_synonym 'rx arse = "('rx \<times> string) \<times> string option"

record ('rx, 'hd) vrequest =
  con :: connection
  uri_path :: string
  uri_host :: string
  uri_query :: string
  http_method_str :: string
  headers :: 'hd
  content_length :: "64 word"
  physical_path :: string
  have_stat :: bool
  have_errno :: bool
  stat_errno :: errno
  st_mode :: "32 word"
  st_size :: "64 word"
  http_status :: int
  tmp_str :: string
  regex_stack :: "'rx arse list"
  vr_log :: "string list"

record ('rx, 'hd) request_h =
  vrequest_stat :: "('rx, 'hd) vrequest \<Rightarrow> bool \<times> ('rx, 'hd) vrequest"
  vrequest_handle_direct :: "('rx, 'hd) vrequest \<Rightarrow> ('rx, 'hd) vrequest"
  http_header_get_fast :: "'hd \<Rightarrow> string \<Rightarrow> string"
  HAVE_IPV6 :: bool
  HAVE_PCRE_H :: bool
  little_endian :: bool

definition VR_ERROR :: "string \<Rightarrow> ('rx, 'hd) vrequest \<Rightarrow> ('rx, 'hd) vrequest" where
  "VR_ERROR msg vr = vr\<lparr>vr_log := vr_log vr @ [msg]\<rparr>"

definition S_ISDIR :: "32 word \<Rightarrow> bool" where
  "S_ISDIR m \<longleftrightarrow> m AND 0xF000 = 0x4000"

definition S_ISREG :: "32 word \<Rightarrow> bool" where
  "S_ISREG m \<longleftrightarrow> m AND 0xF000 = 0x8000"

type_synonym ('rx, 'hd) outcome = "handler_t \<times> bool \<times> ('rx, 'hd) vrequest"

subsection \<open>Networks\<close>

text \<open>A \<open>guint32\<close> in memory: four bytes in the order of the machine.\<close>

definition store32 :: "bool \<Rightarrow> 32 word \<Rightarrow> byte list" where
  "store32 le w =
     (let bs = [ucast w, ucast (drop_bit 8 w), ucast (drop_bit 16 w), ucast (drop_bit 24 w)]
      in if le then bs else rev bs)"

definition load32 :: "bool \<Rightarrow> byte list \<Rightarrow> 32 word" where
  "load32 le bs =
     (let bs = (if le then bs else rev bs)
      in ucast (bs ! 0) OR push_bit 8 (ucast (bs ! 1)) OR push_bit 16 (ucast (bs ! 2)) OR push_bit 24 (ucast (bs ! 3)))"

definition ipv4_in_ipv4_net :: "32 word \<Rightarrow> 32 word \<Rightarrow> 32 word \<Rightarrow> bool" where
  "ipv4_in_ipv4_net target match networkmask \<longleftrightarrow> target AND networkmask = match AND networkmask"

definition memcmp0 :: "byte list \<Rightarrow> byte list \<Rightarrow> nat \<Rightarrow> light_err + bool" where
  "memcmp0 a b n = (if n \<le> length a \<and> n \<le> length b then Inr (take n a = take n b) else Inl OutOfArray)"

definition ipv6_in_ipv6_net :: "byte list \<Rightarrow> byte list \<Rightarrow> 32 word \<Rightarrow> light_err + bool" where
  "ipv6_in_ipv6_net target match network =
     (let mask :: byte = ucast (network mod 8);
          n = unat (network div 8)
      in ebind (memcmp0 target match n) (\<lambda>same.
           if \<not> same then Inr False
           else if mask = 0 then Inr True
           else let mask :: byte = ucast (NOT (push_bit (8 - unat mask) (1 :: 32 word) - 1))
                in if n < length target \<and> n < length match
                   then Inr (target ! n AND mask = match ! n AND mask)
                   else Inl OutOfArray))"

definition ipv6match :: "byte list" where
  "ipv6match = [0, 0, 0, 0, 0, 0, 0, 0, 0, 0, 0xFF, 0xFF, 0, 0, 0, 0]"

definition ipv6_in_ipv4_net :: "bool \<Rightarrow> byte list \<Rightarrow> 32 word \<Rightarrow> 32 word \<Rightarrow> light_err + bool" where
  "ipv6_in_ipv4_net le target match networkmask =
     ebind (ipv6_in_ipv6_net target ipv6match 96) (\<lambda>mapped.
       if \<not> mapped then Inr False
       else if length target < 16 then Inl OutOfArray
       else Inr (ipv4_in_ipv4_net (load32 le (mem_read 12 4 target)) match networkmask))"

definition ipv4_in_ipv6_net :: "bool \<Rightarrow> 32 word \<Rightarrow> byte list \<Rightarrow> 32 word \<Rightarrow> light_err + bool" where
  "ipv4_in_ipv6_net le target match network =
     (let ipv6 = mem_write 12 (store32 le target) ipv6match in ipv6_in_ipv6_net ipv6 match network)"

fun ip_in_net :: "bool \<Rightarrow> condition_rvalue \<Rightarrow> condition_rvalue \<Rightarrow> light_err + bool" where
  "ip_in_net le (COND_VALUE_SOCKET_IPV4 t _) (COND_VALUE_SOCKET_IPV4 n networkmask) =
     Inr (ipv4_in_ipv4_net t n networkmask)"
| "ip_in_net le (COND_VALUE_SOCKET_IPV4 t _) (COND_VALUE_SOCKET_IPV6 n network) = ipv4_in_ipv6_net le t n network"
| "ip_in_net le (COND_VALUE_SOCKET_IPV6 t _) (COND_VALUE_SOCKET_IPV4 n networkmask) =
     ipv6_in_ipv4_net le t n networkmask"
| "ip_in_net le (COND_VALUE_SOCKET_IPV6 t _) (COND_VALUE_SOCKET_IPV6 n network) = ipv6_in_ipv6_net t n network"
| "ip_in_net le _ _ = Inr False"

definition condition_ip_from_socket :: "('rx, 'hd) request_h \<Rightarrow> sock_addr \<Rightarrow> condition_rvalue option" where
  "condition_ip_from_socket R a =
     (case a of
        AF_INET s_addr \<Rightarrow> Some (COND_VALUE_SOCKET_IPV4 s_addr 0xFFFFFFFF)
      | AF_INET6 s6_addr \<Rightarrow> if HAVE_IPV6 R then Some (COND_VALUE_SOCKET_IPV6 s6_addr 128) else None
      | AF_other _ \<Rightarrow> None)"

subsection \<open>Conditions on booleans\<close>

fun errno_status :: "errno \<Rightarrow> int" where
  "errno_status EACCES = 403"
| "errno_status EBADF = 500"
| "errno_status EFAULT = 500"
| "errno_status ELOOP = 500"
| "errno_status ENAMETOOLONG = 500"
| "errno_status ENOENT = 404"
| "errno_status ENOMEM = 500"
| "errno_status ENOTDIR = 404"
| "errno_status (other_errno _) = 500"

text \<open>The part that both evaluations of the physical file begin with: \<open>True\<close> when its status is known, else the
  response has been set from the error.\<close>

definition need_stat :: "('rx, 'hd) request_h \<Rightarrow> ('rx, 'hd) vrequest \<Rightarrow> bool \<times> ('rx, 'hd) vrequest" where
  "need_stat R vr =
     (if have_stat vr then (True, vr)
      else let (ok, vr) = (if have_errno vr then (False, vr) else vrequest_stat R vr)
           in if ok then (True, vr)
              else (False, vrequest_handle_direct R (vr\<lparr>http_status := errno_status (stat_errno vr)\<rparr>)))"

definition condition_check_eval_bool ::
    "('rx, 'hd) request_h \<Rightarrow> 'rx store \<Rightarrow> condition \<Rightarrow> ('rx, 'hd) vrequest \<Rightarrow> light_err + ('rx, 'hd) outcome" where
  "condition_check_eval_bool R h cond vr = ebind (deref (lvalues h) (c_lvalue cond)) (\<lambda>lvalue.
     let (ok, vr) = (if lv_type lvalue \<in> {COMP_PHYSICAL_ISDIR, COMP_PHYSICAL_ISFILE} then need_stat R vr else (True, vr))
     in Inr (if \<not> ok then (HANDLER_GO_ON, False, vr)
             else case lv_type lvalue of
               COMP_PHYSICAL_ISDIR \<Rightarrow> (HANDLER_GO_ON, S_ISDIR (st_mode vr), vr)
             | COMP_PHYSICAL_ISFILE \<Rightarrow> (HANDLER_GO_ON, S_ISREG (st_mode vr), vr)
             | t \<Rightarrow> (HANDLER_ERROR, False,
                 VR_ERROR (''invalid lvalue '' @ quoted (CHR 0x22) (cond_lvalue_to_string t) @ '' for boolean comparison'') vr)))"

subsection \<open>Conditions on strings\<close>

text \<open>The string an lvalue stands for, if the evaluation knows it, and the request with the worker's buffer.\<close>

definition string_value ::
    "'rx light_h \<Rightarrow> ('rx, 'hd) request_h \<Rightarrow> 'rx store \<Rightarrow> condition_lvalue \<Rightarrow> ('rx, 'hd) vrequest \<Rightarrow>
     light_err + string option \<times> ('rx, 'hd) vrequest" where
  "string_value L R h lvalue vr =
     (case lv_type lvalue of
        COMP_REQUEST_LOCALIP \<Rightarrow> Inr (Some (local_addr_str (con vr)), vr)
      | COMP_REQUEST_REMOTEIP \<Rightarrow> Inr (Some (remote_addr_str (con vr)), vr)
      | COMP_REQUEST_PATH \<Rightarrow> Inr (Some (uri_path vr), vr)
      | COMP_REQUEST_HOST \<Rightarrow> Inr (Some (uri_host vr), vr)
      | COMP_REQUEST_SCHEME \<Rightarrow> Inr (Some (if is_ssl (con vr) then ''https'' else ''http''), vr)
      | COMP_REQUEST_QUERY_STRING \<Rightarrow> Inr (Some (uri_query vr), vr)
      | COMP_REQUEST_METHOD \<Rightarrow> Inr (Some (http_method_str vr), vr)
      | COMP_PHYSICAL_PATH \<Rightarrow> Inr (Some (physical_path vr), vr)
      | COMP_PHYSICAL_PATH_EXISTS \<Rightarrow> Inr (Some [], vr)
      | COMP_REQUEST_HEADER \<Rightarrow> ebind (deref (strings h) (lv_key lvalue)) (\<lambda>key.
          let vr = vr\<lparr>tmp_str := http_header_get_fast R (headers vr) key\<rparr> in Inr (Some (tmp_str vr), vr))
      | COMP_REQUEST_CONTENT_LENGTH \<Rightarrow>
          (let vr = vr\<lparr>tmp_str := offset_text L (content_length vr)\<rparr> in Inr (Some (tmp_str vr), vr))
      | _ \<Rightarrow> Inr (None, vr))"

text \<open>The two members of the union that the comparison reads.\<close>

definition rvalue_string :: "'rx store \<Rightarrow> condition \<Rightarrow> light_err + string" where
  "rvalue_string h cond = (case c_rvalue cond of COND_VALUE_STRING s \<Rightarrow> access (strings h) s | _ \<Rightarrow> Inl OtherMember)"

definition rvalue_regex :: "'rx store \<Rightarrow> condition \<Rightarrow> light_err + 'rx" where
  "rvalue_regex h cond =
     (case c_rvalue cond of COND_VALUE_REGEXP r \<Rightarrow> ebind (access (regexes h) r) (\<lambda>(rx, n). Inr rx) | _ \<Rightarrow> Inl OtherMember)"

definition compare_string ::
    "'rx light_h \<Rightarrow> 'rx store \<Rightarrow> condition \<Rightarrow> string \<Rightarrow> ('rx, 'hd) vrequest \<Rightarrow> light_err + ('rx, 'hd) outcome" where
  "compare_string L h cond val vr =
     (let go = (\<lambda>res vr. Inr (HANDLER_GO_ON, res, vr));
          push = (\<lambda>rx str. vr\<lparr>regex_stack := regex_stack vr @ [((rx, val), str)]\<rparr>)
      in case c_op cond of
           CONFIG_COND_EQ \<Rightarrow> ebind (rvalue_string h cond) (\<lambda>s. go (str_equal L val s) vr)
         | CONFIG_COND_NE \<Rightarrow> ebind (rvalue_string h cond) (\<lambda>s. go (\<not> str_equal L val s) vr)
         | CONFIG_COND_PREFIX \<Rightarrow> ebind (rvalue_string h cond) (\<lambda>s. go (str_has_prefix L val s) vr)
         | CONFIG_COND_NOPREFIX \<Rightarrow> ebind (rvalue_string h cond) (\<lambda>s. go (\<not> str_has_prefix L val s) vr)
         | CONFIG_COND_SUFFIX \<Rightarrow> ebind (rvalue_string h cond) (\<lambda>s. go (str_has_suffix L val s) vr)
         | CONFIG_COND_NOSUFFIX \<Rightarrow> ebind (rvalue_string h cond) (\<lambda>s. go (\<not> str_has_suffix L val s) vr)
         | CONFIG_COND_MATCH \<Rightarrow> ebind (rvalue_regex h cond) (\<lambda>rx.
             let res = regex_match L rx val in go res (push rx (if res then Some val else None)))
         | CONFIG_COND_NOMATCH \<Rightarrow> ebind (rvalue_regex h cond) (\<lambda>rx.
             go (\<not> regex_match L rx val) (push rx None))
         | op \<Rightarrow> Inr (HANDLER_ERROR, False,
             VR_ERROR (''cannot compare string/regexp with '' @ quoted (CHR 0x27) (comp_op_to_string op)) vr))"

definition condition_check_eval_string ::
    "'rx light_h \<Rightarrow> ('rx, 'hd) request_h \<Rightarrow> 'rx store \<Rightarrow> condition \<Rightarrow> ('rx, 'hd) vrequest \<Rightarrow>
     light_err + ('rx, 'hd) outcome" where
  "condition_check_eval_string L R h cond vr = ebind (deref (lvalues h) (c_lvalue cond)) (\<lambda>lvalue.
     ebind (string_value L R h lvalue vr) (\<lambda>(val, vr).
       case val of None \<Rightarrow> Inr (HANDLER_ERROR, False, vr) | Some v \<Rightarrow> compare_string L h cond v vr))"

subsection \<open>Conditions on integers\<close>

definition rvalue_number :: "condition \<Rightarrow> light_err + 64 word" where
  "rvalue_number cond = (case c_rvalue cond of COND_VALUE_NUMBER i \<Rightarrow> Inr i | _ \<Rightarrow> Inl OtherMember)"

definition compare_int ::
    "condition \<Rightarrow> 64 word \<Rightarrow> ('rx, 'hd) vrequest \<Rightarrow> light_err + ('rx, 'hd) outcome" where
  "compare_int cond val vr =
     (let go = (\<lambda>rel. ebind (rvalue_number cond) (\<lambda>i. Inr (HANDLER_GO_ON, rel val i, vr)))
      in case c_op cond of
           CONFIG_COND_EQ \<Rightarrow> go (\<lambda>a b. a = b)
         | CONFIG_COND_NE \<Rightarrow> go (\<lambda>a b. a \<noteq> b)
         | CONFIG_COND_LT \<Rightarrow> go (\<lambda>a b. a <s b)
         | CONFIG_COND_LE \<Rightarrow> go (\<lambda>a b. a \<le>s b)
         | CONFIG_COND_GT \<Rightarrow> go (\<lambda>a b. b <s a)
         | CONFIG_COND_GE \<Rightarrow> go (\<lambda>a b. b \<le>s a)
         | op \<Rightarrow> Inr (HANDLER_ERROR, False,
             VR_ERROR (''cannot compare int with '' @ quoted (CHR 0x27) (comp_op_to_string op)) vr))"

text \<open>The case of the content length has no \<open>break\<close>: it continues with the case of the size.\<close>

definition condition_check_eval_int ::
    "('rx, 'hd) request_h \<Rightarrow> 'rx store \<Rightarrow> condition \<Rightarrow> ('rx, 'hd) vrequest \<Rightarrow> light_err + ('rx, 'hd) outcome" where
  "condition_check_eval_int R h cond vr = ebind (deref (lvalues h) (c_lvalue cond)) (\<lambda>lvalue.
     let physical_size = (\<lambda>_ :: 64 word.
           let (ok, vr) = need_stat R vr
           in if \<not> ok then Inr (HANDLER_GO_ON, False, vr) else compare_int cond (st_size vr) vr)
     in case lv_type lvalue of
          COMP_REQUEST_CONTENT_LENGTH \<Rightarrow> (let val = content_length vr in physical_size val)
        | COMP_PHYSICAL_SIZE \<Rightarrow> physical_size 0
        | t \<Rightarrow> Inr (HANDLER_ERROR, False,
            VR_ERROR (''couldn'' @ [CHR 0x27] @ ''t get int value for '' @ quoted (CHR 0x27) (cond_lvalue_to_string t)) vr))"

subsection \<open>Conditions on addresses\<close>

text \<open>The address an lvalue stands for: \<open>Inl\<close> an early return with this code, \<open>Inr\<close> the value of \<open>ipval\<close>
  or the string \<open>val\<close> that is still to be parsed.\<close>

definition ip_value ::
    "('rx, 'hd) request_h \<Rightarrow> 'rx store \<Rightarrow> condition_lvalue \<Rightarrow> ('rx, 'hd) vrequest \<Rightarrow>
     light_err + (handler_t + condition_rvalue \<times> string option) \<times> ('rx, 'hd) vrequest" where
  "ip_value R h lvalue vr =
     (let sock = (\<lambda>a. case condition_ip_from_socket R a of
            None \<Rightarrow> Inr (Inl HANDLER_GO_ON, vr) | Some ipval \<Rightarrow> Inr (Inr (ipval, None), vr));
          text = (\<lambda>val. Inr (Inr (COND_VALUE_NUMBER 0, Some val), vr));
          bad = (\<lambda>msg. Inr (Inl HANDLER_ERROR, VR_ERROR msg vr))
      in case lv_type lvalue of
           COMP_REQUEST_LOCALIP \<Rightarrow> sock (local_addr (con vr))
         | COMP_REQUEST_REMOTEIP \<Rightarrow> sock (remote_addr (con vr))
         | COMP_REQUEST_PATH \<Rightarrow> bad ''Cannot parse request.path as ip''
         | COMP_REQUEST_HOST \<Rightarrow> text (uri_host vr)
         | COMP_REQUEST_SCHEME \<Rightarrow> bad ''Cannot parse request.scheme as ip''
         | COMP_REQUEST_QUERY_STRING \<Rightarrow> text (uri_query vr)
         | COMP_REQUEST_METHOD \<Rightarrow> bad ''Cannot parse request.method as ip''
         | COMP_PHYSICAL_PATH \<Rightarrow> bad ''Cannot parse physical.path(-exists) as ip''
         | COMP_PHYSICAL_PATH_EXISTS \<Rightarrow> bad ''Cannot parse physical.path(-exists) as ip''
         | COMP_REQUEST_HEADER \<Rightarrow> ebind (deref (strings h) (lv_key lvalue)) (\<lambda>key.
             let vr = vr\<lparr>tmp_str := http_header_get_fast R (headers vr) key\<rparr>
             in Inr (Inr (COND_VALUE_NUMBER 0, Some (tmp_str vr)), vr))
         | COMP_PHYSICAL_SIZE \<Rightarrow> bad ''Cannot parse integers as ip''
         | COMP_REQUEST_CONTENT_LENGTH \<Rightarrow> bad ''Cannot parse integers as ip''
         | COMP_PHYSICAL_ISDIR \<Rightarrow> bad ''phys.is_dir and phys.is_file are boolean conditionals''
         | COMP_PHYSICAL_ISFILE \<Rightarrow> bad ''phys.is_dir and phys.is_file are boolean conditionals''
         | COMP_UNKNOWN \<Rightarrow> bad ''Cannot parse unknown condition value'')"

text \<open>The final switch. Its first two cases have no \<open>break\<close>, so that each continues with the next one and
  all of them end in the error.\<close>

definition compare_ip ::
    "('rx, 'hd) request_h \<Rightarrow> condition \<Rightarrow> condition_rvalue \<Rightarrow> bool \<Rightarrow> ('rx, 'hd) vrequest \<Rightarrow>
     light_err + ('rx, 'hd) outcome" where
  "compare_ip R cond ipval res vr =
     (let in_net = ip_in_net (little_endian R) ipval (c_rvalue cond);
          other = (\<lambda>res. Inr (HANDLER_ERROR, res,
            VR_ERROR (''cannot match ips with '' @ quoted (CHR 0x27) (comp_op_to_string (c_op cond))) vr));
          notip = (\<lambda>_ :: bool. ebind in_net (\<lambda>b. other (\<not> b)));
          ip = (\<lambda>_ :: bool. ebind in_net (\<lambda>b. notip b))
      in case c_op cond of CONFIG_COND_IP \<Rightarrow> ip res | CONFIG_COND_NOTIP \<Rightarrow> notip res | _ \<Rightarrow> other res)"

definition condition_check_eval_ip ::
    "'rx light_h \<Rightarrow> ('rx, 'hd) request_h \<Rightarrow> 'rx store \<Rightarrow> condition \<Rightarrow> ('rx, 'hd) vrequest \<Rightarrow>
     light_err + ('rx, 'hd) outcome" where
  "condition_check_eval_ip L R h cond vr =
     (let res = (c_op cond = CONFIG_COND_NOTIP)
      in ebind (deref (lvalues h) (c_lvalue cond)) (\<lambda>lvalue.
         ebind (ip_value R h lvalue vr) (\<lambda>(v, vr).
           case v of
             Inl code \<Rightarrow> Inr (code, res, vr)
           | Inr (ipval, val) \<Rightarrow>
               (case ipval of
                  COND_VALUE_NUMBER _ \<Rightarrow>
                    (case Option.bind val (condition_parse_ip L) of
                       None \<Rightarrow> Inr (HANDLER_GO_ON, res, vr)
                     | Some ipval \<Rightarrow> compare_ip R cond ipval res vr)
                | _ \<Rightarrow> compare_ip R cond ipval res vr))))"

subsection \<open>All conditions\<close>


definition condition_check ::
    "'rx light_h \<Rightarrow> ('rx, 'hd) request_h \<Rightarrow> 'rx store \<Rightarrow> addr \<Rightarrow> ('rx, 'hd) vrequest \<Rightarrow> bool \<Rightarrow>
     light_err + ('rx, 'hd) outcome" where
  "condition_check L R h c vr res = ebind (access (conds h) c) (\<lambda>cond.
     case c_rvalue cond of
       COND_VALUE_BOOL _ \<Rightarrow> condition_check_eval_bool R h cond vr
     | COND_VALUE_STRING _ \<Rightarrow> condition_check_eval_string L R h cond vr
     | COND_VALUE_REGEXP _ \<Rightarrow>
         if HAVE_PCRE_H R then condition_check_eval_string L R h cond vr
         else Inr (HANDLER_ERROR, res, VR_ERROR ''Unsupported conditional type'' vr)
     | COND_VALUE_NUMBER _ \<Rightarrow> condition_check_eval_int R h cond vr
     | COND_VALUE_SOCKET_IPV4 _ _ \<Rightarrow> condition_check_eval_ip L R h cond vr
     | COND_VALUE_SOCKET_IPV6 _ _ \<Rightarrow> condition_check_eval_ip L R h cond vr)"

end
