(* ===== verification/Light_Net.thy ===== *)
theory Light_Net
  imports Light_Eval IP_Bits
begin

unbundle bit_operations_syntax

text \<open>
  The membership tests of \<open>lighttpd/src/condition.c\<close> decide agreement of the first bits. The specification sees
  every address as one of IPv6, an IPv4 address as the mapped address \<open>::ffff:a.b.c.d\<close>, and a network as the
  number of its leading bits; neither the masks nor the byte order of the machine occur in it.
\<close>

subsection \<open>Prefixes of concatenations\<close>

lemma addr_bit_append: "addr_bit (p @ a) (8 * length p + i) = addr_bit a i"
  by (simp add: addr_bit_def nth_append)

lemma addr_bit_front: "i < 8 * length p \<Longrightarrow> addr_bit (p @ a) i = addr_bit p i"
  by (simp add: addr_bit_def nth_append less_mult_imp_div_less mult.commute)

lemma all_less_add: "(\<forall>i < m + k. P i) \<longleftrightarrow> (\<forall>i<m. P i) \<and> (\<forall>i<k. P (m + i))" for m k :: nat
proof
  assume r: "(\<forall>i<m. P i) \<and> (\<forall>i<k. P (m + i))"
  show "\<forall>i < m + k. P i"
  proof (intro allI impI)
    fix i assume "i < m + k"
    then show "P i" using r spec [of "\<lambda>i. i < k \<longrightarrow> P (m + i)" "i - m"] by (cases "i < m") simp_all
  qed
qed simp

lemma prefix_eq_append:
  assumes len: "length p = length q"
  shows "prefix_eq (8 * length p + k) (p @ a) (q @ b) \<longleftrightarrow> p = q \<and> prefix_eq k a b"
proof -
  define N X where "N = 8 * length p" and "X = (\<lambda>i. addr_bit (p @ a) i = addr_bit (q @ b) i)"
  have front: "X i \<longleftrightarrow> addr_bit p i = addr_bit q i" if "i < N" for i
    unfolding X_def using addr_bit_front [of i p a] addr_bit_front [of i q b] that len by (simp add: N_def)
  have behind: "X (N + i) \<longleftrightarrow> addr_bit a i = addr_bit b i" for i
    unfolding X_def N_def using addr_bit_append [of p a i] addr_bit_append [of q b i] len by simp
  have "prefix_eq (N + k) (p @ a) (q @ b) \<longleftrightarrow> (\<forall>i<N. X i) \<and> (\<forall>i<k. X (N + i))"
    unfolding prefix_eq_def X_def by (rule all_less_add)
  also have "\<dots> \<longleftrightarrow> prefix_eq N p q \<and> prefix_eq k a b"
    using front by (simp add: behind prefix_eq_def)
  finally show ?thesis using prefix_eq_full [OF refl len [symmetric]] unfolding N_def by (simp only:)
qed

lemma prefix_eq_split:
  assumes "q \<le> length a" "q \<le> length b"
  shows "prefix_eq (8 * q + k) a b \<longleftrightarrow> take q a = take q b \<and> prefix_eq k (drop q a) (drop q b)"
  using prefix_eq_append [of "take q a" "take q b" k "drop q a" "drop q b"] assms by simp

subsection \<open>IPv6 networks\<close>

lemma rest_mask_bit:
  assumes "r < 8" "k < 8"
  shows "bit (ucast (NOT (push_bit (8 - r) (1 :: 32 word) - 1)) :: byte) k \<longleftrightarrow> 8 - r \<le> k"
proof -
  have "push_bit (8 - r) (1 :: 32 word) - 1 = Bit_Operations.mask (8 - r)" by (simp add: mask_eq_exp_minus_1)
  then show ?thesis using assms by (auto simp: bit_simps)
qed

lemma rest_mask_eq:
  assumes "0 < r" "r < 8"
  shows "a ! 0 AND (ucast (NOT (push_bit (8 - r) (1 :: 32 word) - 1)) :: byte) =
      b ! 0 AND ucast (NOT (push_bit (8 - r) (1 :: 32 word) - 1)) \<longleftrightarrow> prefix_eq r a b"
proof -
  let ?m = "ucast (NOT (push_bit (8 - r) (1 :: 32 word) - 1)) :: byte"
  have "addr_bit [?m] i = (i < r)" if "i < 8 * 1" for i
    using that assms rest_mask_bit [of r "7 - i"] by (auto simp: addr_bit_def)
  from masked_eq_prefix [of r 1 "[?m]" a b, OF _ this] show ?thesis using assms by simp
qed

lemma ipv6_in_ipv6_net_spec:
  assumes "length target = 16" "length match = 16" "unat network \<le> 128"
  shows "ipv6_in_ipv6_net target match network = Inr (prefix_eq (unat network) target match)"
proof -
  define q r where "q = unat network div 8" and "r = unat network mod 8"
  have n: "unat network = 8 * q + r" by (simp add: q_def r_def)
  have q: "unat (network div 8) = q" by (simp add: q_def unat_div)
  have r: "unat (ucast (network mod 8) :: byte) = r"
    by (simp add: r_def unsigned_ucast_eq unat_mod take_bit_eq_mod)
  have r8: "r < 8" by (simp add: r_def)
  have zero: "(ucast (network mod 8) :: byte) = 0 \<longleftrightarrow> r = 0"
    using r by (metis unat_eq_zero)
  have le: "q \<le> 16" and lt: "0 < r \<Longrightarrow> q < 16" using assms(3) n by simp_all
  have split: "prefix_eq (unat network) target match \<longleftrightarrow>
      take q target = take q match \<and> prefix_eq r (drop q target) (drop q match)"
    unfolding n using prefix_eq_split [of q target match r] assms le by simp
  show ?thesis
  proof (cases "r = 0")
    case True
    then show ?thesis using assms le split zero by (simp add: ipv6_in_ipv6_net_def memcmp0_def q Let_def prefix_eq_def)
  next
    case False
    then have "prefix_eq r (drop q target) (drop q match) \<longleftrightarrow>
        target ! q AND (ucast (NOT (push_bit (8 - r) (1 :: 32 word) - 1)) :: byte) =
        match ! q AND ucast (NOT (push_bit (8 - r) (1 :: 32 word) - 1))"
      using rest_mask_eq [of r "drop q target" "drop q match"] r8 lt assms by simp
    then show ?thesis using assms lt False split zero r by (simp add: ipv6_in_ipv6_net_def memcmp0_def q Let_def)
  qed
qed

subsection \<open>IPv4 words in memory\<close>

lemma length_store32 [simp]: "length (store32 le w) = 4"
  by (simp add: store32_def Let_def)

lemma all_less_4: "(\<forall>j<4. P j) \<longleftrightarrow> P 0 \<and> P 1 \<and> P 2 \<and> P (3 :: nat)"
  by (auto simp: numeral_eq_Suc less_Suc_eq)

lemma store32_and:
  "(\<forall>j<4. store32 le x ! j AND store32 le m ! j = store32 le y ! j AND store32 le m ! j) \<longleftrightarrow>
   store32 le (x AND m) = store32 le (y AND m)"
  by (auto simp: store32_def all_less_4 Let_def unsigned_and_eq drop_bit_and)

lemma load32_store32 [simp]: "load32 le (store32 le w) = w"  for w :: "32 word"
proof -
  have "ucast (ucast w :: byte) OR push_bit 8 (ucast (ucast (drop_bit 8 w) :: byte))
      OR push_bit 16 (ucast (ucast (drop_bit 16 w) :: byte)) OR push_bit 24 (ucast (ucast (drop_bit 24 w) :: byte)) = w" for w :: "32 word"
  proof (rule bit_word_eqI)
    fix n assume "n < LENGTH(32)"
    then have "n < 8 \<or> (8 \<le> n \<and> n < 16) \<or> (16 \<le> n \<and> n < 24) \<or> (24 \<le> n \<and> n < 32)" by auto
    then show "bit (ucast (ucast w :: byte) OR push_bit 8 (ucast (ucast (drop_bit 8 w) :: byte))
      OR push_bit 16 (ucast (ucast (drop_bit 16 w) :: byte)) OR push_bit 24 (ucast (ucast (drop_bit 24 w) :: byte)) :: 32 word) n = bit w n"
      by (elim disjE conjE; auto simp: bit_or_iff bit_push_bit_iff bit_unsigned_iff bit_drop_bit_eq)
  qed
  then show ?thesis by (simp add: load32_def store32_def Let_def)
qed

lemma store32_load32:
  assumes "length bs = 4"
  shows "store32 le (load32 le bs) = bs"
proof -
  obtain a b c d where "bs = [a, b, c, d]" using assms by (auto simp: numeral_eq_Suc length_Suc_conv)
  moreover have "ucast (ucast x OR push_bit 8 (ucast y) OR push_bit 16 (ucast z) OR push_bit 24 (ucast u) :: 32 word) = x"
    and "ucast (drop_bit 8 (ucast x OR push_bit 8 (ucast y) OR push_bit 16 (ucast z) OR push_bit 24 (ucast u) :: 32 word)) = y"
    and "ucast (drop_bit 16 (ucast x OR push_bit 8 (ucast y) OR push_bit 16 (ucast z) OR push_bit 24 (ucast u) :: 32 word)) = z"
    and "ucast (drop_bit 24 (ucast x OR push_bit 8 (ucast y) OR push_bit 16 (ucast z) OR push_bit 24 (ucast u) :: 32 word)) = u"
    for x y z u :: byte
    by (rule bit_word_eqI; auto simp: bit_simps dest: bit_imp_le_length)+
  ultimately show ?thesis by (simp add: store32_def load32_def Let_def)
qed

lemma store32_inject: "store32 le x = store32 le y \<longleftrightarrow> x = y"
  using load32_store32 by metis

text \<open>A mask whose bytes in memory have exactly the first \<open>k\<close> bits.\<close>

definition prefix_mask :: "bool \<Rightarrow> 32 word \<Rightarrow> nat \<Rightarrow> bool" where
  "prefix_mask le m k \<longleftrightarrow> k \<le> 32 \<and> (\<forall>i<32. addr_bit (store32 le m) i = (i < k))"

lemma ipv4_in_ipv4_net_spec:
  assumes "prefix_mask le m k"
  shows "ipv4_in_ipv4_net x y m \<longleftrightarrow> prefix_eq k (store32 le x) (store32 le y)"
  using masked_eq_prefix [of k 4 "store32 le m" "store32 le x" "store32 le y"] assms
  by (simp add: prefix_mask_def ipv4_in_ipv4_net_def store32_and store32_inject)

subsection \<open>The four kinds of comparison\<close>

fun is_ip :: "condition_rvalue \<Rightarrow> bool" where
  "is_ip (COND_VALUE_SOCKET_IPV4 _ _) = True"
| "is_ip (COND_VALUE_SOCKET_IPV6 bs _) = (length bs = 16)"
| "is_ip _ = False"

fun mapped_address :: "bool \<Rightarrow> condition_rvalue \<Rightarrow> byte list" where
  "mapped_address le (COND_VALUE_SOCKET_IPV4 a _) = replicate 10 0 @ [0xFF, 0xFF] @ store32 le a"
| "mapped_address le (COND_VALUE_SOCKET_IPV6 bs _) = bs"
| "mapped_address le _ = []"

fun is_net :: "bool \<Rightarrow> condition_rvalue \<Rightarrow> nat \<Rightarrow> bool" where
  "is_net le (COND_VALUE_SOCKET_IPV4 _ m) n = (96 \<le> n \<and> prefix_mask le m (n - 96))"
| "is_net le (COND_VALUE_SOCKET_IPV6 bs network) n = (length bs = 16 \<and> n = unat network \<and> n \<le> 128)"
| "is_net le _ n = False"

definition mapped_front :: "byte list" where
  "mapped_front = replicate 10 0 @ [0xFF, 0xFF]"

lemma mapped_front_simps [simp]: "length mapped_front = 12"
  by (simp add: mapped_front_def)

lemma mapped_front_eq: "replicate 10 0 @ 0xFF # 0xFF # a = mapped_front @ a"
  by (simp add: mapped_front_def)

lemma ipv6match_eq: "ipv6match = mapped_front @ [0, 0, 0, 0]"
  by (simp add: ipv6match_def mapped_front_def numeral_eq_Suc)

lemma prefix_eq_mapped:
  assumes "96 \<le> n"
  shows "prefix_eq n (mapped_front @ a) (mapped_front @ b) \<longleftrightarrow> prefix_eq (n - 96) a b"
  using prefix_eq_append [of mapped_front mapped_front "n - 96" a b] assms by simp

lemma ipv4_in_ipv6_net_spec:
  assumes "length match = 16" "unat network \<le> 128"
  shows "ipv4_in_ipv6_net le x match network = Inr (prefix_eq (unat network) (mapped_front @ store32 le x) match)"
  using ipv6_in_ipv6_net_spec [of "mapped_front @ store32 le x" match network] assms
  by (simp add: ipv4_in_ipv6_net_def ipv6match_eq mem_write_def)

lemma ipv6_in_ipv4_net_spec:
  assumes "length target = 16" "96 \<le> n" "prefix_mask le m (n - 96)"
  shows "ipv6_in_ipv4_net le target y m = Inr (prefix_eq n target (mapped_front @ store32 le y))"
proof -
  have front: "ipv6_in_ipv6_net target ipv6match 96 = Inr (take 12 target = mapped_front)"
    using ipv6_in_ipv6_net_spec [of target ipv6match 96] prefix_eq_split [of 12 target ipv6match 0] assms(1)
    by (simp add: ipv6match_eq prefix_eq_def)
  have "store32 le (load32 le (mem_read 12 4 target)) = drop 12 target"
    using store32_load32 [of "mem_read 12 4 target" le] assms(1) by (simp add: mem_read_def)
  then have "ipv4_in_ipv4_net (load32 le (mem_read 12 4 target)) y m \<longleftrightarrow>
      prefix_eq (n - 96) (drop 12 target) (store32 le y)"
    by (simp add: ipv4_in_ipv4_net_spec [OF assms(3)])
  moreover have "prefix_eq n target (mapped_front @ store32 le y) \<longleftrightarrow>
      take 12 target = mapped_front \<and> prefix_eq (n - 96) (drop 12 target) (store32 le y)"
    using prefix_eq_split [of 12 target "mapped_front @ store32 le y" "n - 96"] assms(1,2) by simp
  ultimately show ?thesis using front assms(1) by (simp add: ipv6_in_ipv4_net_def)
qed

lemma ip_in_net_spec:
  assumes t: "is_ip t" and v: "is_net le v n"
  shows "ip_in_net le t v = Inr (prefix_eq n (mapped_address le t) (mapped_address le v))"
proof (cases v)
  case net: (COND_VALUE_SOCKET_IPV4 y m)
  then show ?thesis using assms ipv6_in_ipv4_net_spec [of _ n le m y]
    by (cases t) (auto simp: mapped_front_eq prefix_eq_mapped ipv4_in_ipv4_net_spec)
next
  case net: (COND_VALUE_SOCKET_IPV6 bs network)
  then show ?thesis using assms
    by (cases t) (simp_all add: mapped_front_eq ipv4_in_ipv6_net_spec ipv6_in_ipv6_net_spec)
qed (use v in simp_all)

end
