(* ===== verification/Light_Keep.thy ===== *)
theory Light_Keep
  imports Light_Calls Light_Net
begin

text \<open>
  Conditions of \<open>lighttpd/src/condition.c\<close> do not change while they are held. \<open>unchanged\<close> is what a call leaves alone of the
  objects that survive it; \<open>meaning\<close> collects what the evaluation reads of a condition. A check of a held
  condition returns, and depends on nothing else in the store.
\<close>

subsection \<open>What a call leaves alone\<close>

definition unchanged :: "held \<Rightarrow> 'rx store \<Rightarrow> 'rx store \<Rightarrow> bool" where
  "unchanged g h h' \<longleftrightarrow>
     (\<forall>c k k'. conds h c = Some k \<longrightarrow> conds h' c = Some k' \<longrightarrow> c_static k = c_static k') \<and>
     (\<forall>l v v'. lvalues h l = Some v \<longrightarrow> lvalues h' l = Some v' \<longrightarrow> lv_static v = lv_static v') \<and>
     (\<forall>s t t'. s \<notin> held_s g \<longrightarrow> strings h s = Some t \<longrightarrow> strings h' s = Some t' \<longrightarrow> t = t') \<and>
     (\<forall>r x x'. regexes h r = Some x \<longrightarrow> regexes h' r = Some x' \<longrightarrow> fst x = fst x')"

lemma unchanged_refl [simp]: "unchanged g h h"
  by (simp add: unchanged_def)

lemma unchanged_log [simp]: "unchanged g h (log_error msg h)"
  by (simp add: unchanged_def log_error_def)

lemma lvalue_release_parts:
  assumes "condition_lvalue_release p h = Inr h'"
  shows "conds h' = conds h \<and> regexes h' = regexes h \<and> strings h' \<subseteq>\<^sub>m strings h \<and>
    (\<forall>l v v'. lvalues h l = Some v \<longrightarrow> lvalues h' l = Some v' \<longrightarrow> lv_static v = lv_static v')"
  using assms
  by (auto simp: condition_lvalue_release_def g_string_free_def access_def map_le_def ebind_def
      split: option.splits if_splits sum.splits)

lemma rvalue_free_parts:
  assumes "rvalue_free v h = Inr h'"
  shows "conds h' = conds h \<and> lvalues h' = lvalues h \<and> strings h' \<subseteq>\<^sub>m strings h \<and>
    (\<forall>r x x'. regexes h r = Some x \<longrightarrow> regexes h' r = Some x' \<longrightarrow> fst x = fst x')"
  using assms
  by (auto simp: rvalue_free_def g_string_free_def g_regex_unref_def access_def map_le_def ebind_def
      split: condition_rvalue.splits option.splits if_splits sum.splits)

lemma cond_free_unchanged:
  assumes "condition_free c h = Inr h'"
  shows "unchanged g h h'" and "\<And>d k. conds h' d = Some k \<Longrightarrow> conds h d = Some k"
proof -
  obtain k where k: "conds h c = Some k"
    using assms by (cases "conds h c") (auto simp: condition_free_def access_def)
  obtain h1 h2 where h1: "condition_lvalue_release (c_lvalue k) h = Inr h1" and h2: "rvalue_free (c_rvalue k) h1 = Inr h2"
    and h': "h' = h2\<lparr>conds := (conds h2)(c := None)\<rparr>"
    using assms k by (auto simp: condition_free_def access_def ebind_eq_Inr rvalue_free_def [symmetric])
  have "strings h' \<subseteq>\<^sub>m strings h"
    using map_le_trans rvalue_free_parts [OF h2] lvalue_release_parts [OF h1] h' by auto
  then have "strings h' s = Some t \<Longrightarrow> strings h s = Some t" for s t by (auto simp: map_le_def dom_def)
  then show "unchanged g h h'" and "\<And>d k. conds h' d = Some k \<Longrightarrow> conds h d = Some k"
    using rvalue_free_parts [OF h2] lvalue_release_parts [OF h1] h'
    by (auto simp: unchanged_def split: if_splits)
qed

lemma cond_release_unchanged:
  assumes "condition_release p h = Inr h'"
  shows "unchanged g h h'"
proof (cases p)
  case (Some c)
  then obtain k where k: "conds h c = Some k"
    using assms by (cases "conds h c") (auto simp: condition_release_def access_def)
  define h1 where "h1 = h\<lparr>conds := (conds h)(c \<mapsto> k\<lparr>c_refcount := c_refcount k - 1\<rparr>)\<rparr>"
  have "h' = h1 \<or> condition_free c h1 = Inr h'"
    using assms Some k by (auto simp: condition_release_def access_def h1_def Let_def split: if_splits)
  then have "unchanged g h1 h'" using cond_free_unchanged(1) [of c h1 h'] by auto
  then show ?thesis using k by (auto simp: unchanged_def h1_def split: if_splits) (metis option.inject)
qed (use assms in \<open>auto simp: condition_release_def\<close>)

text \<open>A new condition occupies a new address.\<close>

lemma new_cell_unchanged:
  assumes "conds h (new_addr L h) = None"
  shows "unchanged g h (new_cell L op lvalue v h)"
  using assms by (auto simp: unchanged_def new_cell_def)

lemma cond_new_match_unchanged:
  assumes L: "supplied L" and g: "good h g" and r: "cond_new_match L op lvalue s h = Inr (r, h')"
  shows "unchanged g h h'"
proof -
  have fin: "finite_store h" using g balancedD(1) by (auto simp: good_def)
  obtain str where str: "strings h s = Some str"
    using r by (cases "strings h s") (auto simp: cond_new_match_def access_def)
  show ?thesis
  proof (cases "regex_new L str")
    case (Inl message)
    then show ?thesis using r str by (auto simp: cond_new_match_def access_def log_error_def unchanged_def)
  next
    case (Inr rx)
    let ?h1 = "h\<lparr>regexes := (regexes h)(new_addr L h \<mapsto> (rx, 1))\<rparr>"
    have "finite_store ?h1" using fin by (simp add: finite_store_def)
    then have free: "regexes h (new_addr L h) = None" "conds ?h1 (new_addr L ?h1) = None"
      using suppliedD(4) [OF L fin] suppliedD(2) [OF L, of ?h1] by simp_all
    have "h' = (new_cell L op lvalue (COND_VALUE_REGEXP (new_addr L h)) ?h1)\<lparr>strings := (strings h)(s := None)\<rparr>"
      using r str Inr
      by (auto simp: cond_new_match_def access_def Let_def condition_new_eq set_rvalue_new g_string_free_def)
    then show ?thesis using free by (auto simp: unchanged_def new_cell_def split: if_splits)
  qed
qed

lemma cond_new_ip_unchanged:
  assumes L: "supplied L" and g: "good h g" and r: "cond_new_ip L op lvalue s h = Inr (r, h')"
  shows "unchanged g h h'"
proof -
  have free: "conds h (new_addr L h) = None" using suppliedD(2) [OF L] g balancedD(1) by (auto simp: good_def)
  obtain str where str: "strings h s = Some str"
    using r by (cases "strings h s") (auto simp: cond_new_ip_def access_def condition_new_eq)
  show ?thesis
  proof (cases "condition_parse_ip_net L str")
    case (Some v)
    then show ?thesis using r str new_cell_unchanged [OF free]
      by (auto simp: cond_new_ip_def access_def condition_new_eq set_rvalue_new)
  next
    case None
    then obtain msg where "condition_release (Some (new_addr L h)) (log_error msg (new_cell L op lvalue (rvalue0 L) h)) = Inr h'"
      using r str by (auto simp: cond_new_ip_def access_def condition_new_eq ebind_eq_Inr)
    from cond_release_unchanged [OF this, of g] show ?thesis using free
      by (auto simp: unchanged_def new_cell_def log_error_def) (metis option.distinct(1))
  qed
qed

lemma make_call_unchanged:
  assumes L: "supplied L" and g: "good h g" and x: "permitted h g x" and r: "make_call L x h = Inr (r, h')"
  shows "unchanged g h h'"
proof -
  have fin: "finite_store h" using g balancedD(1) by (auto simp: good_def)
  note fresh = suppliedD(1-4) [OF L fin]
  show ?thesis
  proof (cases x)
    case (String_new str)
    then show ?thesis using r fresh(3) by (auto simp: unchanged_def split: if_splits)
  next
    case (String_free s)
    then show ?thesis using r
      by (auto simp: g_string_free_def access_def unchanged_def ebind_eq_Inr split: if_splits option.splits)
  next
    case (Lvalue_new t key)
    then show ?thesis using r x fresh(1)
      by (auto simp: condition_lvalue_new_def deref_def access_def unchanged_def Let_def ebind_eq_Inr
          split: if_splits option.splits)
  next
    case (Lvalue_acquire l)
    then show ?thesis using r
      by (auto simp: condition_lvalue_acquire_def access_def unchanged_def ebind_eq_Inr split: if_splits option.splits)
  next
    case (Lvalue_release l)
    then obtain h1 where "condition_lvalue_release (Some l) h = Inr h1" "h' = h1" using r by (auto simp: ebind_eq_Inr)
    then show ?thesis using lvalue_release_parts [of "Some l" h h1] by (auto simp: unchanged_def map_le_def dom_def)
  next
    case (New_bool l v)
    then show ?thesis using r new_cell_unchanged [OF fresh(2)]
      by (auto simp: condition_new_bool_def condition_new_eq set_rvalue_new)
  next
    case (New_string op l s)
    then show ?thesis using r new_cell_unchanged [OF fresh(2)] cond_new_match_unchanged [OF L g] cond_new_ip_unchanged [OF L g]
      by (cases op) (auto simp: condition_new_string_def cond_new_string_def condition_new_eq set_rvalue_new)
  next
    case (New_int op l i)
    then show ?thesis using r new_cell_unchanged [OF fresh(2)]
      by (cases op) (auto simp: condition_new_int_def condition_new_eq set_rvalue_new)
  next
    case (Cond_acquire c)
    then show ?thesis using r
      by (auto simp: condition_acquire_def access_def unchanged_def ebind_eq_Inr split: if_splits option.splits)
  next
    case (Cond_release c)
    then show ?thesis using r cond_release_unchanged [of "Some c" h h' g] by (auto simp: ebind_eq_Inr)
  qed
qed

subsection \<open>A held condition\<close>

definition owned_string :: "'rx store \<Rightarrow> held \<Rightarrow> addr \<Rightarrow> bool" where
  "owned_string h g s \<longleftrightarrow> s \<notin> held_s g \<and> strings h s \<noteq> None"

lemma held_condition:
  assumes g: "good h g" and c: "0 < held_c g c"
  obtains k l v where "conds h c = Some k" "c_lvalue k = Some l" "lvalues h l = Some v" "op_fits (c_op k) (c_rvalue k)"
    and "lv_type v = COMP_REQUEST_HEADER \<longrightarrow> lv_key v \<noteq> None"
    and "\<forall>s. lv_key v = Some s \<longrightarrow> owned_string h g s"
    and "\<forall>s. c_rvalue k = COND_VALUE_STRING s \<longrightarrow> owned_string h g s"
    and "\<forall>r. c_rvalue k = COND_VALUE_REGEXP r \<longrightarrow> regexes h r \<noteq> None"
proof -
  have b: "balanced h g" and t: "typed h" using g by (simp_all add: good_def)
  have fin: "finite (dom (conds h))" "finite (dom (lvalues h))" using balancedD(1) [OF b] by (simp_all add: finite_store_def)
  obtain k where k: "conds h c = Some k" by (rule cond_counted [OF b c])
  have "c_lvalue k \<noteq> None" "op_fits (c_op k) (c_rvalue k)" using t k by (simp_all add: typed_def)
  then obtain l where l: "c_lvalue k = Some l" "op_fits (c_op k) (c_rvalue k)" by blast
  have "0 < lcount h g l" using count_pos [of "conds h" c k "\<lambda>k. c_lvalue k = Some l", OF fin(1) k l(1)] by (simp add: lcount_def)
  then obtain v where v: "lvalues h l = Some v" by (rule lvalue_counted [OF b])
  have "owned_string h g s" if "lv_key v = Some s" for s
    using count_pos [of "lvalues h" l v "\<lambda>v. lv_key v = Some s", OF fin(2) v that] balancedD(4) [OF b, of s]
    by (auto simp: scount_def owned_string_def of_bool_def split: if_splits)
  moreover have "owned_string h g s" if "c_rvalue k = COND_VALUE_STRING s" for s
    using count_pos [of "conds h" c k "\<lambda>k. c_rvalue k = COND_VALUE_STRING s", OF fin(1) k that] balancedD(4) [OF b, of s]
    by (auto simp: scount_def owned_string_def of_bool_def split: if_splits)
  moreover have "regexes h r \<noteq> None" if "c_rvalue k = COND_VALUE_REGEXP r" for r
    using count_pos [of "conds h" c k "\<lambda>k. c_rvalue k = COND_VALUE_REGEXP r", OF fin(1) k that] balancedD(5) [OF b, of r]
    by (auto simp: rcount_def of_bool_def split: if_splits)
  ultimately show ?thesis using that k l v t by (auto simp: typed_def)
qed

text \<open>The evaluation reads the operator and the value of a condition, the type and the key of its left-hand side,
  and the strings and the regular expression they point to.\<close>

lemma check_reads:
  assumes k: "conds h c = Some k" "conds h' c = Some k'" "c_static k = c_static k'"
    and v: "c_lvalue k = Some l" "lvalues h l = Some v" "lvalues h' l = Some v'" "lv_static v = lv_static v'"
    and key: "\<forall>s. lv_key v = Some s \<longrightarrow> strings h s = strings h' s"
    and str: "\<forall>s. c_rvalue k = COND_VALUE_STRING s \<longrightarrow> strings h s = strings h' s"
    and rx: "\<forall>r. c_rvalue k = COND_VALUE_REGEXP r \<longrightarrow> map_option fst (regexes h r) = map_option fst (regexes h' r)"
  shows "condition_check L R h c vr res = condition_check L R h' c vr res"
proof -
  have s: "c_op k' = c_op k" "c_lvalue k' = c_lvalue k" "c_rvalue k' = c_rvalue k" "lv_type v' = lv_type v" "lv_key v' = lv_key v"
    using k(3) v(4) by (simp_all add: c_static_def lv_static_def)
  have keys: "deref (strings h') (lv_key v) = deref (strings h) (lv_key v)"
    using key by (cases "lv_key v") (simp_all add: deref_def access_def)
  have vals: "rvalue_string h' k' = rvalue_string h k" "rvalue_number k' = rvalue_number k"
    using str by (cases "c_rvalue k"; simp add: rvalue_string_def rvalue_number_def s access_def)+
  have regex: "rvalue_regex h' k' = rvalue_regex h k"
  proof (cases "c_rvalue k")
    case (COND_VALUE_REGEXP r)
    then have "map_option fst (regexes h r) = map_option fst (regexes h' r)" using rx by simp
    then show ?thesis using COND_VALUE_REGEXP
      by (cases "regexes h r"; cases "regexes h' r") (auto simp: rvalue_regex_def s access_def)
  qed (simp_all add: rvalue_regex_def s)
  have parts: "compare_string L h' k' = compare_string L h k" "compare_int k' = compare_int k"
      "compare_ip R k' = compare_ip R k" "string_value L R h' v' = string_value L R h v" "ip_value R h' v' = ip_value R h v"
    unfolding fun_eq_iff compare_string_def compare_int_def compare_ip_def string_value_def ip_value_def s keys vals regex
    by simp_all
  have lv: "deref (lvalues h) (c_lvalue k) = Inr v" "deref (lvalues h') (c_lvalue k) = Inr v'"
    using v by (simp_all add: deref_def access_def)
  have "access (conds h) c = Inr k" "access (conds h') c = Inr k'" using k by (simp_all add: access_def)
  then show ?thesis
    unfolding condition_check_def condition_check_eval_bool_def condition_check_eval_string_def
      condition_check_eval_int_def condition_check_eval_ip_def
    by (simp only: ebind_Inr s lv parts)
qed

lemma check_unchanged:
  assumes g: "good h g" "good h' g'" and unchanged: "unchanged g h h'" and c: "0 < held_c g c" "0 < held_c g' c"
  shows "condition_check L R h c vr res = condition_check L R h' c vr res"
proof -
  obtain k l v where k: "conds h c = Some k" "c_lvalue k = Some l" "lvalues h l = Some v"
    and str: "\<forall>s. lv_key v = Some s \<longrightarrow> owned_string h g s" "\<forall>s. c_rvalue k = COND_VALUE_STRING s \<longrightarrow> owned_string h g s"
    and rx: "\<forall>r. c_rvalue k = COND_VALUE_REGEXP r \<longrightarrow> regexes h r \<noteq> None"
    by (rule held_condition [OF g(1) c(1)])
  obtain k' l' v' where k': "conds h' c = Some k'" "c_lvalue k' = Some l'" "lvalues h' l' = Some v'"
    and str': "\<forall>s. lv_key v' = Some s \<longrightarrow> owned_string h' g' s" "\<forall>s. c_rvalue k' = COND_VALUE_STRING s \<longrightarrow> owned_string h' g' s"
    and rx': "\<forall>r. c_rvalue k' = COND_VALUE_REGEXP r \<longrightarrow> regexes h' r \<noteq> None"
    by (rule held_condition [OF g(2) c(2)])
  have ks: "c_static k = c_static k'" using unchanged k k' by (simp add: unchanged_def)
  then have l': "l' = l" "c_rvalue k' = c_rvalue k" using k k' by (simp_all add: c_static_def)
  have vs: "lv_static v = lv_static v'" using unchanged k k' l' by (simp add: unchanged_def)
  then have key': "lv_key v' = lv_key v" by (simp add: lv_static_def)
  have same: "strings h s = strings h' s" if "owned_string h g s" "owned_string h' g' s" for s
    using that unchanged by (auto simp: unchanged_def owned_string_def)
  have "map_option fst (regexes h r) = map_option fst (regexes h' r)" if r: "c_rvalue k = COND_VALUE_REGEXP r" for r
  proof -
    obtain x x' where x: "regexes h r = Some x" "regexes h' r = Some x'" using r rx rx' l' by fastforce
    then have "fst x = fst x'" using unchanged unfolding unchanged_def by blast
    then show ?thesis using x by simp
  qed
  then show ?thesis using check_reads [OF k(1) k'(1) ks k(2,3) _ vs] k'(3) str str' key' l' same by simp
qed

end
