(* ===== verification/Light_Checks.thy ===== *)
theory Light_Checks
  imports Light_Keep
begin

text \<open>
  Every check of a held condition of \<open>lighttpd/src/condition.c\<close> returns: no access to a freed object, to the wrong
  member of the value or outside an address.
\<close>

subsection \<open>Checks return\<close>

fun wf_sockaddr :: "sock_addr \<Rightarrow> bool" where
  "wf_sockaddr (AF_INET6 a) = (length a = 16)"
| "wf_sockaddr _ = True"

definition wf_con :: "connection \<Rightarrow> bool" where
  "wf_con cn \<longleftrightarrow> wf_sockaddr (local_addr cn) \<and> wf_sockaddr (remote_addr cn)"

lemma ip_in_net_returns:
  assumes t: "is_ip t" and v: "op \<in> {CONFIG_COND_IP, CONFIG_COND_NOTIP}" "op_fits op v"
  obtains b where "ip_in_net le t v = Inr b"
proof (cases v)
  case net: (COND_VALUE_SOCKET_IPV4 y m)
  have "\<exists>b. ipv6_in_ipv4_net le a y m = Inr b" if "length a = 16" for a
    using ipv6_in_ipv6_net_spec [of a ipv6match 96] that by (auto simp: ipv6_in_ipv4_net_def ipv6match_eq)
  then show ?thesis using net t that by (cases t) auto
next
  case net: (COND_VALUE_SOCKET_IPV6 bs network)
  then show ?thesis using t v that by (cases t) (auto simp: ipv4_in_ipv6_net_spec ipv6_in_ipv6_net_spec)
qed (use t v that in \<open>cases t; auto\<close>)+

lemma parse_ip_is_ip: "supplied L \<Longrightarrow> condition_parse_ip L str = Some v \<Longrightarrow> is_ip v"
  using suppliedD(7) [of L False str] by (auto simp: condition_parse_ip_def split: option.splits)

lemma socket_is_ip: "wf_sockaddr a \<Longrightarrow> condition_ip_from_socket R a = Some v \<Longrightarrow> is_ip v"
  by (cases a) (auto simp: condition_ip_from_socket_def split: if_splits)

lemma compare_ip_returns:
  assumes "is_ip t" "c_op k \<in> {CONFIG_COND_IP, CONFIG_COND_NOTIP}" "op_fits (c_op k) (c_rvalue k)"
  obtains out where "compare_ip R k t res vr = Inr (HANDLER_ERROR, out)"
proof -
  obtain b where "ip_in_net (little_endian R) t (c_rvalue k) = Inr b" by (rule ip_in_net_returns [OF assms])
  then show ?thesis using that assms(2) by (auto simp: compare_ip_def Let_def)
qed

text \<open>What \<open>ip_value\<close> gives: an early return, an address, or a text.\<close>

fun ip_answer :: "handler_t + condition_rvalue \<times> string option \<Rightarrow> bool" where
  "ip_answer (Inl _) = True"
| "ip_answer (Inr (t, None)) = is_ip t"
| "ip_answer (Inr (t, Some _)) = (t = COND_VALUE_NUMBER 0)"

lemma key_text:
  assumes "lv_type v = COMP_REQUEST_HEADER \<longrightarrow> lv_key v \<noteq> None" "\<forall>s. lv_key v = Some s \<longrightarrow> strings h s \<noteq> None"
    and "lv_type v = COMP_REQUEST_HEADER"
  obtains key where "deref (strings h) (lv_key v) = Inr key"
  using assms by (cases "lv_key v") (auto simp: deref_def access_def)

lemma ip_value_returns:
  assumes key: "lv_type v = COMP_REQUEST_HEADER \<longrightarrow> lv_key v \<noteq> None" "\<forall>s. lv_key v = Some s \<longrightarrow> strings h s \<noteq> None"
    and wf: "wf_con (con vr)"
  shows "\<exists>a vr'. ip_value R h v vr = Inr (a, vr') \<and> ip_answer a"
proof (cases "lv_type v")
  case COMP_REQUEST_LOCALIP
  then show ?thesis using wf socket_is_ip [of "local_addr (con vr)" R]
    by (cases "condition_ip_from_socket R (local_addr (con vr))") (simp_all add: ip_value_def wf_con_def Let_def)
next
  case COMP_REQUEST_REMOTEIP
  then show ?thesis using wf socket_is_ip [of "remote_addr (con vr)" R]
    by (cases "condition_ip_from_socket R (remote_addr (con vr))") (simp_all add: ip_value_def wf_con_def Let_def)
next
  case COMP_REQUEST_HEADER
  obtain k where "deref (strings h) (lv_key v) = Inr k" by (rule key_text [OF key COMP_REQUEST_HEADER])
  then show ?thesis using COMP_REQUEST_HEADER by (simp add: ip_value_def Let_def)
qed (simp_all add: ip_value_def Let_def)

lemma string_value_returns:
  assumes key: "lv_type v = COMP_REQUEST_HEADER \<longrightarrow> lv_key v \<noteq> None" "\<forall>s. lv_key v = Some s \<longrightarrow> strings h s \<noteq> None"
  shows "\<exists>a. string_value L R h v vr = Inr a"
proof (cases "lv_type v")
  case COMP_REQUEST_HEADER
  obtain k where "deref (strings h) (lv_key v) = Inr k" by (rule key_text [OF key COMP_REQUEST_HEADER])
  then show ?thesis using COMP_REQUEST_HEADER by (simp add: string_value_def Let_def)
qed (simp_all add: string_value_def Let_def)

lemma compare_string_returns:
  assumes "op_fits (c_op k) (c_rvalue k)" "\<And>i. c_rvalue k = COND_VALUE_STRING i \<Longrightarrow> strings h i \<noteq> None"
    and "\<And>r. c_rvalue k = COND_VALUE_REGEXP r \<Longrightarrow> regexes h r \<noteq> None"
    and "(\<exists>s. c_rvalue k = COND_VALUE_STRING s) \<or> (\<exists>r. c_rvalue k = COND_VALUE_REGEXP r)"
  shows "\<exists>out. compare_string L h k val vr = Inr out"
  using assms(4)
proof (elim disjE exE)
  fix s assume s: "c_rvalue k = COND_VALUE_STRING s"
  then obtain t where "rvalue_string h k = Inr t" using assms(2) [OF s] by (auto simp: rvalue_string_def access_def)
  then show ?thesis using assms(1) s by (cases "c_op k") (simp_all add: compare_string_def Let_def)
next
  fix r assume r: "c_rvalue k = COND_VALUE_REGEXP r"
  then obtain x where "rvalue_regex h k = Inr x" using assms(3) [OF r] by (auto simp: rvalue_regex_def access_def)
  then show ?thesis using assms(1) r by (cases "c_op k") (simp_all add: compare_string_def Let_def)
qed

lemma compare_int_returns:
  assumes "op_fits (c_op k) (COND_VALUE_NUMBER i)" "c_rvalue k = COND_VALUE_NUMBER i"
  shows "\<exists>out. compare_int k val vr = Inr out"
  using assms by (cases "c_op k") (simp_all add: compare_int_def rvalue_number_def)

lemma eval_ip_returns:
  assumes L: "supplied L" and v: "deref (lvalues h) (c_lvalue k) = Inr v"
    and key: "lv_type v = COMP_REQUEST_HEADER \<longrightarrow> lv_key v \<noteq> None" "\<forall>s. lv_key v = Some s \<longrightarrow> strings h s \<noteq> None"
    and wf: "wf_con (con vr)"
    and op: "c_op k \<in> {CONFIG_COND_IP, CONFIG_COND_NOTIP}" "op_fits (c_op k) (c_rvalue k)"
  shows "\<exists>out. condition_check_eval_ip L R h k vr = Inr out"
proof -
  obtain a vr' where a: "ip_value R h v vr = Inr (a, vr')" "ip_answer a"
    using ip_value_returns [OF key wf] by blast
  show ?thesis
  proof (cases a)
    case (Inl code)
    then show ?thesis using a(1) v by (simp add: condition_check_eval_ip_def)
  next
    case (Inr x)
    obtain t o' where x: "x = (t, o')" by (cases x)
    show ?thesis
    proof (cases o')
      case None
      then have "is_ip t" using a(2) Inr x by simp
      moreover obtain out where "compare_ip R k t (c_op k = CONFIG_COND_NOTIP) vr' = Inr (HANDLER_ERROR, out)"
        by (rule compare_ip_returns [OF \<open>is_ip t\<close> op])
      ultimately show ?thesis using a(1) v Inr x None by (cases t) (simp_all add: condition_check_eval_ip_def)
    next
      case (Some str)
      then have t: "t = COND_VALUE_NUMBER 0" using a(2) Inr x by simp
      show ?thesis
      proof (cases "condition_parse_ip L str")
        case None
        then show ?thesis using a(1) v Inr x Some t by (simp add: condition_check_eval_ip_def)
      next
        case (Some u)
        obtain out where "compare_ip R k u (c_op k = CONFIG_COND_NOTIP) vr' = Inr (HANDLER_ERROR, out)"
          by (rule compare_ip_returns [OF parse_ip_is_ip [OF L Some] op])
        then show ?thesis using a(1) v Inr x \<open>o' = Some str\<close> t Some by (simp add: condition_check_eval_ip_def)
      qed
    qed
  qed
qed

lemma check_returns:
  assumes L: "supplied L" and g: "good h g" and c: "0 < held_c g c" and wf: "wf_con (con vr)"
  shows "\<exists>out. condition_check L R h c vr res = Inr out"
proof -
  obtain k l v where k: "conds h c = Some k" "c_lvalue k = Some l" "lvalues h l = Some v" "op_fits (c_op k) (c_rvalue k)"
    and hd: "lv_type v = COMP_REQUEST_HEADER \<longrightarrow> lv_key v \<noteq> None"
    and str: "\<forall>s. lv_key v = Some s \<longrightarrow> owned_string h g s" "\<forall>s. c_rvalue k = COND_VALUE_STRING s \<longrightarrow> owned_string h g s"
    and rx: "\<forall>r. c_rvalue k = COND_VALUE_REGEXP r \<longrightarrow> regexes h r \<noteq> None"
    by (rule held_condition [OF g c])
  have v: "deref (lvalues h) (c_lvalue k) = Inr v" using k by (simp add: deref_def access_def)
  have key: "\<forall>s. lv_key v = Some s \<longrightarrow> strings h s \<noteq> None" using str(1) by (auto simp: owned_string_def)
  have cond: "access (conds h) c = Inr k" using k(1) by (simp add: access_def)
  have str_ok: "\<exists>out. condition_check_eval_string L R h k vr = Inr out"
    if "(\<exists>s. c_rvalue k = COND_VALUE_STRING s) \<or> (\<exists>r. c_rvalue k = COND_VALUE_REGEXP r)"
  proof -
    obtain val vr' where "string_value L R h v vr = Inr (val, vr')" using string_value_returns [OF hd key] by fastforce
    moreover have "\<exists>out. compare_string L h k w vr' = Inr out" for w
      by (rule compare_string_returns [OF k(4) _ _ that]) (use str(2) rx in \<open>auto simp: owned_string_def\<close>)
    ultimately show ?thesis by (cases val) (auto simp: condition_check_eval_string_def v)
  qed
  show ?thesis
  proof (cases "c_rvalue k")
    case (COND_VALUE_BOOL b)
    then show ?thesis by (simp add: condition_check_def cond condition_check_eval_bool_def v Let_def split_beta del: split_paired_Ex)
  next
    case (COND_VALUE_NUMBER i)
    obtain ok vr' where ns: "need_stat R vr = (ok, vr')" by (cases "need_stat R vr")
    have "\<exists>out. compare_int k (st_size vr') vr' = Inr out"
      by (rule compare_int_returns) (use k(4) COND_VALUE_NUMBER in auto)
    then show ?thesis using COND_VALUE_NUMBER
      by (cases "lv_type v") (simp_all add: condition_check_def cond condition_check_eval_int_def v ns Let_def del: split_paired_Ex)
  next
    case (COND_VALUE_STRING s)
    then show ?thesis using str_ok by (simp add: condition_check_def cond)
  next
    case (COND_VALUE_REGEXP r)
    then show ?thesis using str_ok by (simp add: condition_check_def cond)
  next
    case (COND_VALUE_SOCKET_IPV4 a m)
    then show ?thesis using eval_ip_returns [OF L v hd key wf, of R] k(4) by (simp add: condition_check_def cond)
  next
    case (COND_VALUE_SOCKET_IPV6 a n)
    then show ?thesis using eval_ip_returns [OF L v hd key wf, of R] k(4) by (simp add: condition_check_def cond)
  qed
qed

end
