(* ===== verification/Light_Session.thy ===== *)
theory Light_Session
  imports Light_Checks
begin

text \<open>
  What users of \<open>lighttpd/src/condition.c\<close> see: reference counts that never go wrong, conditions that keep their
  meaning while they are held, what the comparisons of strings, numbers and addresses answer, and the two
  places where a missing \<open>break\<close> gives another answer than the configuration asks for.
\<close>

subsection \<open>What the comparisons mean\<close>

text \<open>Documented behaviour of \<open>g_str_equal\<close>, \<open>g_str_has_prefix\<close> and \<open>g_str_has_suffix\<close>.\<close>

definition glib_strings :: "'rx light_h \<Rightarrow> bool" where
  "glib_strings L \<longleftrightarrow> (\<forall>s t. str_equal L s t \<longleftrightarrow> s = t) \<and> (\<forall>s p. str_has_prefix L s p \<longleftrightarrow> (\<exists>r. s = p @ r))
     \<and> (\<forall>s p. str_has_suffix L s p \<longleftrightarrow> (\<exists>r. s = r @ p))"

fun string_relation :: "comp_operator_t \<Rightarrow> string \<Rightarrow> string \<Rightarrow> bool" where
  "string_relation CONFIG_COND_EQ s t = (s = t)"
| "string_relation CONFIG_COND_NE s t = (s \<noteq> t)"
| "string_relation CONFIG_COND_PREFIX s t = (\<exists>r. s = t @ r)"
| "string_relation CONFIG_COND_NOPREFIX s t = (\<nexists>r. s = t @ r)"
| "string_relation CONFIG_COND_SUFFIX s t = (\<exists>r. s = r @ t)"
| "string_relation CONFIG_COND_NOSUFFIX s t = (\<nexists>r. s = r @ t)"
| "string_relation _ s t = False"

fun int_relation :: "comp_operator_t \<Rightarrow> int \<Rightarrow> int \<Rightarrow> bool" where
  "int_relation CONFIG_COND_EQ a b = (a = b)"
| "int_relation CONFIG_COND_NE a b = (a \<noteq> b)"
| "int_relation CONFIG_COND_LT a b = (a < b)"
| "int_relation CONFIG_COND_LE a b = (a \<le> b)"
| "int_relation CONFIG_COND_GT a b = (b < a)"
| "int_relation CONFIG_COND_GE a b = (b \<le> a)"
| "int_relation _ a b = False"

text \<open>The text a left-hand side stands for; \<open>key\<close> is the name of the header.\<close>

fun request_text :: "'rx light_h \<Rightarrow> ('rx, 'hd) request_h \<Rightarrow> cond_lvalue_t \<Rightarrow> string \<Rightarrow> ('rx, 'hd) vrequest \<Rightarrow> string option" where
  "request_text L R COMP_REQUEST_LOCALIP key vr = Some (local_addr_str (con vr))"
| "request_text L R COMP_REQUEST_REMOTEIP key vr = Some (remote_addr_str (con vr))"
| "request_text L R COMP_REQUEST_PATH key vr = Some (uri_path vr)"
| "request_text L R COMP_REQUEST_HOST key vr = Some (uri_host vr)"
| "request_text L R COMP_REQUEST_SCHEME key vr = Some (if is_ssl (con vr) then ''https'' else ''http'')"
| "request_text L R COMP_REQUEST_QUERY_STRING key vr = Some (uri_query vr)"
| "request_text L R COMP_REQUEST_METHOD key vr = Some (http_method_str vr)"
| "request_text L R COMP_REQUEST_CONTENT_LENGTH key vr = Some (offset_text L (content_length vr))"
| "request_text L R COMP_PHYSICAL_PATH key vr = Some (physical_path vr)"
| "request_text L R COMP_REQUEST_HEADER key vr = Some (http_header_get_fast R (headers vr) key)"
| "request_text L R _ key vr = None"

lemma string_value_text:
  assumes "request_text L R (lv_type v) key vr = Some val" "lv_type v = COMP_REQUEST_HEADER \<longrightarrow> deref (strings h) (lv_key v) = Inr key"
  shows "\<exists>vr'. string_value L R h v vr = Inr (Some val, vr')"
  using assms by (cases "lv_type v") (simp_all add: string_value_def Let_def)

lemma signed_order: "sint a = sint b \<longleftrightarrow> a = b" "a <s b \<longleftrightarrow> sint a < sint b" "a \<le>s b \<longleftrightarrow> sint a \<le> sint b"
  for a b :: "64 word"
  by (auto simp: word_sless_alt word_sle_eq intro: signed_word_eqI)

lemma compare_string_relation:
  assumes "glib_strings L" "rvalue_string h k = Inr t" "op_fits (c_op k) (COND_VALUE_STRING s)"
  shows "compare_string L h k val vr = Inr (HANDLER_GO_ON, string_relation (c_op k) val t, vr)"
  using assms by (cases "c_op k") (simp_all add: compare_string_def glib_strings_def)

lemma compare_int_relation:
  assumes "c_rvalue k = COND_VALUE_NUMBER i" "op_fits (c_op k) (COND_VALUE_NUMBER i)"
  shows "compare_int k val vr = Inr (HANDLER_GO_ON, int_relation (c_op k) (sint val) (sint i), vr)"
  using assms by (cases "c_op k") (simp_all add: compare_int_def rvalue_number_def signed_order)

text \<open>A new condition in the store.\<close>

lemma new_cell_check:
  assumes l: "lvalues h l = Some v"
  shows "access (conds (new_cell L op (Some l) w h)) (new_addr L h) =
      Inr \<lparr>c_refcount = 1, c_op = op, c_lvalue = Some l, c_rvalue = w\<rparr>"
    and "deref (lvalues (new_cell L op (Some l) w h)) (Some l) = Inr v"
  using l by (simp_all add: new_cell_def access_def deref_def)

lemma new_string_cell:
  assumes "condition_new_string L op lvalue s h = Inr (Some c, h')" "op_fits op (COND_VALUE_STRING s)"
  shows "c = new_addr L h \<and> h' = new_cell L op lvalue (COND_VALUE_STRING s) h"
  using assms by (cases op) (auto simp: condition_new_string_def cond_new_string_def condition_new_eq set_rvalue_new)

lemma new_int_cell:
  assumes "condition_new_int L op lvalue i h = Inr (Some c, h')"
  shows "c = new_addr L h \<and> h' = new_cell L op lvalue (COND_VALUE_NUMBER i) h \<and> op_fits op (COND_VALUE_NUMBER i)"
  using assms by (cases op) (auto simp: condition_new_int_def condition_new_eq set_rvalue_new)

lemma new_ip_cell:
  assumes "condition_new_string L op lvalue s h = Inr (Some c, h')" "op \<in> {CONFIG_COND_IP, CONFIG_COND_NOTIP}"
    and "strings h s = Some t" "condition_parse_ip_net L t = Some net"
  shows "c = new_addr L h \<and> h' = new_cell L op lvalue net h"
  using assms by (auto simp: condition_new_string_def cond_new_ip_def condition_new_eq set_rvalue_new access_def)

lemma string_condition_spec:
  assumes G: "glib_strings L" and new: "condition_new_string L op (Some l) s h = Inr (Some c, h')"
    and op: "op_fits op (COND_VALUE_STRING s)" and s: "strings h s = Some t" and l: "lvalues h l = Some v"
    and val: "request_text L R (lv_type v) key vr = Some val"
    and key: "lv_type v = COMP_REQUEST_HEADER \<longrightarrow> deref (strings h) (lv_key v) = Inr key"
  shows "\<exists>vr'. condition_check L R h' c vr res = Inr (HANDLER_GO_ON, string_relation op val t, vr')"
proof -
  let ?k = "\<lparr>c_refcount = 1, c_op = op, c_lvalue = Some l, c_rvalue = COND_VALUE_STRING s\<rparr>"
  have c: "c = new_addr L h" "h' = new_cell L op (Some l) (COND_VALUE_STRING s) h"
    using new_string_cell [OF new op] by auto
  obtain vr' where vr': "string_value L R h' v vr = Inr (Some val, vr')"
    using string_value_text [OF val, of h'] key by (auto simp: c(2))
  have "compare_string L h' ?k val vr' = Inr (HANDLER_GO_ON, string_relation op val t, vr')"
    using compare_string_relation [OF G, of h' ?k t s val vr'] s op by (simp add: rvalue_string_def access_def c(2))
  then show ?thesis using new_cell_check [OF l, of L op "COND_VALUE_STRING s", folded c] vr'
    by (simp add: condition_check_def condition_check_eval_string_def)
qed

lemma int_condition_spec:
  assumes new: "condition_new_int L op (Some l) i h = Inr (Some c, h')" and l: "lvalues h l = Some v"
    and type: "lv_type v \<in> {COMP_REQUEST_CONTENT_LENGTH, COMP_PHYSICAL_SIZE}" and stat: "have_stat vr"
  shows "condition_check L R h' c vr res = Inr (HANDLER_GO_ON, int_relation op (sint (st_size vr)) (sint i), vr)"
proof -
  let ?k = "\<lparr>c_refcount = 1, c_op = op, c_lvalue = Some l, c_rvalue = COND_VALUE_NUMBER i\<rparr>"
  have c: "c = new_addr L h" "h' = new_cell L op (Some l) (COND_VALUE_NUMBER i) h" "op_fits op (COND_VALUE_NUMBER i)"
    using new_int_cell [OF new] by auto
  have "compare_int ?k (st_size vr) vr = Inr (HANDLER_GO_ON, int_relation op (sint (st_size vr)) (sint i), vr)"
    using compare_int_relation [of ?k i "st_size vr" vr] c(3) by simp
  moreover have "condition_check L R h' c vr res = compare_int ?k (st_size vr) vr"
    using new_cell_check [OF l, of L op "COND_VALUE_NUMBER i", folded c(1,2)] type stat
    by (auto simp: condition_check_def condition_check_eval_int_def need_stat_def)
  ultimately show ?thesis by simp
qed

text \<open>The address of the socket as 16 bytes, if it has one.\<close>

definition socket_bytes :: "('rx, 'hd) request_h \<Rightarrow> sock_addr \<Rightarrow> byte list option" where
  "socket_bytes R a =
     (case a of
        AF_INET s \<Rightarrow> Some (replicate 10 0 @ [0xFF, 0xFF] @ store32 (little_endian R) s)
      | AF_INET6 bs \<Rightarrow> if HAVE_IPV6 R then Some bs else None
      | AF_other _ \<Rightarrow> None)"

lemma socket_bytes_eq:
  assumes "wf_sockaddr a"
  shows "case condition_ip_from_socket R a of
      None \<Rightarrow> socket_bytes R a = None
    | Some t \<Rightarrow> socket_bytes R a = Some (mapped_address (little_endian R) t) \<and> is_ip t"
  using assms by (cases a) (simp_all add: socket_bytes_def condition_ip_from_socket_def)

lemma ip_condition_spec:
  assumes new: "condition_new_string L op (Some l) s h = Inr (Some c, h')"
    and op: "op \<in> {CONFIG_COND_IP, CONFIG_COND_NOTIP}"
    and s: "strings h s = Some t" "condition_parse_ip_net L t = Some net" "is_net (little_endian R) net n"
    and l: "lvalues h l = Some v" "lv_type v \<in> {COMP_REQUEST_LOCALIP, COMP_REQUEST_REMOTEIP}"
    and a: "sock = (if lv_type v = COMP_REQUEST_LOCALIP then local_addr (con vr) else remote_addr (con vr))" "wf_sockaddr sock"
  shows "case socket_bytes R sock of
      None \<Rightarrow> condition_check L R h' c vr res = Inr (HANDLER_GO_ON, op = CONFIG_COND_NOTIP, vr)
    | Some bytes \<Rightarrow> \<exists>vr'. condition_check L R h' c vr res =
        Inr (HANDLER_ERROR, \<not> prefix_eq n bytes (mapped_address (little_endian R) net), vr')"
proof -
  let ?k = "\<lparr>c_refcount = 1, c_op = op, c_lvalue = Some l, c_rvalue = net\<rparr>"
  have c: "c = new_addr L h" "h' = new_cell L op (Some l) net h" using new_ip_cell [OF new op s(1,2)] by auto
  have val: "ip_value R h' v vr = (case condition_ip_from_socket R sock of
      None \<Rightarrow> Inr (Inl HANDLER_GO_ON, vr) | Some ipval \<Rightarrow> Inr (Inr (ipval, None), vr))"
    using l(2) a(1) by (auto simp: ip_value_def Let_def)
  have check: "condition_check L R h' c vr res = condition_check_eval_ip L R h' ?k vr"
      "deref (lvalues h') (c_lvalue ?k) = Inr v"
    using new_cell_check [OF l(1), of L op net, folded c] s(3) by (cases net; simp add: condition_check_def)+
  show ?thesis
  proof (cases "condition_ip_from_socket R sock")
    case None
    then show ?thesis using socket_bytes_eq [OF a(2), of R] check val by (simp add: condition_check_eval_ip_def)
  next
    case (Some t)
    let ?in = "prefix_eq n (mapped_address (little_endian R) t) (mapped_address (little_endian R) net)"
    have t: "socket_bytes R sock = Some (mapped_address (little_endian R) t)" "is_ip t"
      using socket_bytes_eq [OF a(2), of R] Some by simp_all
    have in_net: "ip_in_net (little_endian R) t net = Inr ?in" by (rule ip_in_net_spec [OF t(2) s(3)])
    obtain vr' where "compare_ip R ?k t (op = CONFIG_COND_NOTIP) vr = Inr (HANDLER_ERROR, \<not> ?in, vr')"
      using op by (auto simp: compare_ip_def in_net Let_def simp del: ip_in_net.simps)
    moreover have "condition_check_eval_ip L R h' ?k vr = compare_ip R ?k t (op = CONFIG_COND_NOTIP) vr"
      using check(2) val Some t(2) by (cases t) (simp_all add: condition_check_eval_ip_def)
    ultimately show ?thesis using t(1) check(1) by simp
  qed
qed

text \<open>The value a boolean condition is compared with is never read.\<close>

lemma bool_value_ignored:
  assumes "condition_new_bool L lvalue True h = Inr (c, h1)" "condition_new_bool L lvalue False h = Inr (c, h2)" "c = Some a"
  shows "condition_check L R h1 a vr res = condition_check L R h2 a vr res"
proof -
  have "a = new_addr L h" "h1 = new_cell L CONFIG_COND_EQ lvalue (COND_VALUE_BOOL True) h"
    "h2 = new_cell L CONFIG_COND_EQ lvalue (COND_VALUE_BOOL False) h"
    using assms by (auto simp: condition_new_bool_def condition_new_eq set_rvalue_new)
  then show ?thesis
    by (simp add: new_cell_def condition_check_def access_def condition_check_eval_bool_def deref_def)
qed

text \<open>Names: every known left-hand side is found under its own name, and also under every beginning of it that is
  no beginning of an earlier name.\<close>

lemma lvalue_name_found:
  assumes "glib_strings L" "t \<noteq> COMP_UNKNOWN"
  shows "cond_lvalue_from_string L (cond_lvalue_to_string t) (of_nat (length (cond_lvalue_to_string t))) = t"
  using assms by (cases t) (simp_all add: cond_lvalue_from_string_def glib_strings_def strncmp0_def)

lemma lvalue_name_empty:
  assumes "glib_strings L"
  shows "cond_lvalue_from_string L ''request.'' 8 = COMP_REQUEST_LOCALIP"
  using assms by (simp add: cond_lvalue_from_string_def glib_strings_def strncmp0_def)

subsection \<open>Holding a condition\<close>

inductive holding :: "'rx light_h \<Rightarrow> addr \<Rightarrow> 'rx store \<Rightarrow> held \<Rightarrow> 'rx store \<Rightarrow> held \<Rightarrow> bool"
  for L :: "'rx light_h" and c :: addr and h0 :: "'rx store" and g0 :: held where
  holding_start: "0 < held_c g0 c \<Longrightarrow> holding L c h0 g0 h0 g0"
| holding_call: "holding L c h0 g0 h g \<Longrightarrow> permitted h g x \<Longrightarrow> make_call L x h = Inr (r, h') \<Longrightarrow>
    0 < held_c (settle x r g) c \<Longrightarrow> holding L c h0 g0 h' (settle x r g)"

lemma holding_same:
  assumes L: "supplied L" and g0: "good h0 g0"
  shows "holding L c h0 g0 h g \<Longrightarrow> good h g \<and> 0 < held_c g c \<and>
    (\<forall>vr res. condition_check L R h c vr res = condition_check L R h0 c vr res)"
proof (induction rule: holding.induct)
  case holding_start
  then show ?case using g0 by simp
next
  case (holding_call h g x r h')
  have g: "good h g" using holding_call.IH by simp
  have g': "good h' (settle x r g)" using make_call_good [OF L g holding_call.hyps(2)] holding_call.hyps(3) by auto
  have "unchanged g h h'" by (rule make_call_unchanged [OF L g holding_call.hyps(2,3)])
  then have "condition_check L R h c vr res = condition_check L R h' c vr res" for vr res
    using check_unchanged [OF g g'] holding_call.IH holding_call.hyps(4) by blast
  then show ?case using holding_call.IH holding_call.hyps(4) g' by simp
qed

subsection \<open>A sample server\<close>

definition unused :: "'rx store \<Rightarrow> addr \<Rightarrow> bool" where
  "unused h a \<longleftrightarrow> lvalues h a = None \<and> conds h a = None \<and> strings h a = None \<and> regexes h a = None"

definition sample_addr :: "string store \<Rightarrow> addr" where
  "sample_addr h = (if unused h 0 then 0 else if unused h 1 then 1 else if unused h 2 then 2 else (LEAST a. unused h a))"

definition sample_h :: "string light_h" where
  "sample_h = \<lparr>new_addr = sample_addr, rvalue0 = COND_VALUE_BOOL False, ascii_down = (\<lambda>s. s),
     str_equal = (\<lambda>s t. s = t), str_has_prefix = (\<lambda>s p. take (length p) s = p),
     str_has_suffix = (\<lambda>s p. length p \<le> length s \<and> drop (length s - length p) s = p), offset_text = (\<lambda>_. ''0''),
     regex_new = (\<lambda>s. Inr s), regex_match = (\<lambda>r s. r = s),
     parse_ipv4 = (\<lambda>net s. if s = ''10.0.0.0/8'' \<and> net then Some (10, 0xFF) else None), parse_ipv6 = (\<lambda>_ _. None)\<rparr>"

lemma unused_exists:
  assumes "finite_store h"
  shows "unused h (LEAST a. unused h a)"
proof -
  have "finite (dom (lvalues h) \<union> dom (conds h) \<union> dom (strings h) \<union> dom (regexes h))"
    using assms by (simp add: finite_store_def)
  from ex_new_if_finite [OF infinite_UNIV_nat this] obtain a
    where "a \<notin> dom (lvalues h) \<union> dom (conds h) \<union> dom (strings h) \<union> dom (regexes h)" ..
  then have "unused h a" by (auto simp: unused_def)
  then show ?thesis by (rule LeastI)
qed

lemma sample_supplied: "supplied sample_h"
proof -
  have "unused h (sample_addr h)" if "finite_store h" for h
    using unused_exists [OF that] by (simp add: sample_addr_def)
  then show ?thesis by (simp add: supplied_def sample_h_def unused_def)
qed

lemma sample_strings: "glib_strings sample_h"
proof -
  have "(take (length p) s = p) \<longleftrightarrow> (\<exists>r. s = p @ r)" for s p :: string
  proof
    assume "take (length p) s = p"
    then have "s = p @ drop (length p) s" using append_take_drop_id [of "length p" s] by simp
    then show "\<exists>r. s = p @ r" by blast
  qed auto
  moreover have "(length p \<le> length s \<and> drop (length s - length p) s = p) \<longleftrightarrow> (\<exists>r. s = r @ p)" for s p :: string
  proof
    assume "length p \<le> length s \<and> drop (length s - length p) s = p"
    then have "s = take (length s - length p) s @ p" using append_take_drop_id [of "length s - length p" s] by simp
    then show "\<exists>r. s = r @ p" by blast
  qed auto
  ultimately show ?thesis by (simp add: glib_strings_def sample_h_def)
qed

text \<open>A string and a left-hand side, from which conditions are made.\<close>

definition sample_store :: "cond_lvalue_t \<Rightarrow> string \<Rightarrow> string store" where
  "sample_store type t = no_store\<lparr>strings := [0 \<mapsto> t],
     lvalues := [1 \<mapsto> \<lparr>lv_type = type, lv_key = None, lv_refcount = 1\<rparr>]\<rparr>"

definition sample_held :: held where
  "sample_held = set_l 1 1 (give_strings None (holds_nothing\<lparr>held_s := {0}\<rparr>))"

lemma sample_session:
  assumes "type \<noteq> COMP_REQUEST_HEADER"
  shows "session sample_h (sample_store type t) sample_held"
proof -
  have "session sample_h (no_store\<lparr>strings := [0 \<mapsto> t]\<rparr>) (settle (String_new t) (Some 0) holds_nothing)"
    by (rule session_call [OF session_start])
      (simp_all add: sample_h_def sample_addr_def unused_def no_store_def)
  then have "session sample_h (sample_store type t) (settle (Lvalue_new type None) (Some 1) (settle (String_new t) (Some 0) holds_nothing))"
    by (rule session_call)
      (use assms in \<open>simp_all add: condition_lvalue_new_def sample_h_def sample_addr_def unused_def no_store_def sample_store_def\<close>)
  then show ?thesis by (simp add: sample_held_def holds_nothing_def)
qed

lemma sample_lvalue: "lvalues (sample_store type t) 1 = Some \<lparr>lv_type = type, lv_key = None, lv_refcount = 1\<rparr>"
  and sample_string: "strings (sample_store type t) 0 = Some t"
  by (simp_all add: sample_store_def no_store_def)

lemma sample_permits: "permitted (sample_store type t) sample_held (New_string op 1 0)"
  "permitted (sample_store type t) sample_held (New_int op 1 i)"
  by (simp_all add: sample_held_def)

lemma sample_new_addr: "new_addr sample_h (sample_store type t) = 2"
  by (simp add: sample_h_def sample_addr_def unused_def sample_store_def no_store_def)

lemma sample_set: "set_rvalue 2 v (new_cell sample_h op lvalue w (sample_store type t)) =
    new_cell sample_h op lvalue v (sample_store type t)"
  using set_rvalue_new [of sample_h "sample_store type t" v op lvalue w] by (simp add: sample_new_addr)

definition sample_vr :: "(string, unit) vrequest" where
  "sample_vr = \<lparr>con = \<lparr>local_addr_str = ''10.0.0.1'', remote_addr_str = ''10.0.0.2'', local_addr = AF_INET 0x100000A,
       remote_addr = AF_INET 0x200000A, is_ssl = True\<rparr>,
     uri_path = ''/index'', uri_host = ''host'', uri_query = [], http_method_str = ''GET'', headers = (),
     content_length = 7, physical_path = ''/srv/index'', have_stat = True, have_errno = False, stat_errno = ENOENT,
     st_mode = 0x8000, st_size = 12, http_status = 0, tmp_str = [], regex_stack = [], vr_log = []\<rparr>"

definition sample_r :: "(string, unit) request_h" where
  "sample_r = \<lparr>vrequest_stat = (\<lambda>vr. (True, vr)), vrequest_handle_direct = (\<lambda>vr. vr),
     http_header_get_fast = (\<lambda>_ _. []), HAVE_IPV6 = True, HAVE_PCRE_H = True, little_endian = True\<rparr>"

lemma sample_con: "wf_con (con sample_vr)"
  by (simp add: wf_con_def sample_vr_def)

subsection \<open>Properties\<close>

text \<open>C26. Reference counting never goes wrong. In every state that calls of a caller lead to which only passes what it
  holds, the next such call returns: no assertion fails and no freed object is touched. Afterwards every counter
  equals the number of references that conditions and the caller have, and every object without a reference is
  gone. (A comparison of addresses leaves the string with the caller; one that fails to parse it consumes the
  left-hand side although no condition comes back.)\<close>

theorem condition_calls_balanced:
  assumes L: "supplied L" and s: "session L h g" and x: "permitted h g x"
  shows "\<exists>r h'. make_call L x h = Inr (r, h') \<and> balanced h' (settle x r g)"
  using make_call_good [OF L session_good [OF L s] x] by (auto simp: good_def)

theorem condition_calls_balanced_witness:
  "\<exists>r h'. make_call sample_h (New_string CONFIG_COND_EQ 1 0) (sample_store COMP_REQUEST_PATH ''/index'') = Inr (r, h') \<and>
     balanced h' (settle (New_string CONFIG_COND_EQ 1 0) r sample_held)"
  by (rule condition_calls_balanced [OF sample_supplied sample_session sample_permits(1)]) simp

text \<open>C27. Nothing is left behind: a caller that has given back every reference and freed its strings leaves no
  condition, left-hand side, string or regular expression allocated.\<close>

theorem released_store_empty:
  assumes L: "supplied L" and s: "session L h g"
    and "\<forall>l. held_l g l = 0" "\<forall>c. held_c g c = 0" "held_s g = {}"
  shows "lvalues h = Map.empty \<and> conds h = Map.empty \<and> strings h = Map.empty \<and> regexes h = Map.empty"
  by (rule good_released [OF session_good [OF L s] assms(3-5)])

theorem released_store_empty_witness:
  "\<exists>h g. session sample_h h g \<and> make_call sample_h (Lvalue_release 0)
     (no_store\<lparr>lvalues := [0 \<mapsto> \<lparr>lv_type = COMP_REQUEST_PATH, lv_key = None, lv_refcount = 1\<rparr>]\<rparr>) = Inr (None, h) \<and>
     lvalues h = Map.empty \<and> conds h = Map.empty \<and> strings h = Map.empty \<and> regexes h = Map.empty"
proof -
  let ?h = "no_store\<lparr>lvalues := [0 \<mapsto> \<lparr>lv_type = COMP_REQUEST_PATH, lv_key = None, lv_refcount = 1\<rparr>]\<rparr>"
  let ?g = "settle (Lvalue_new COMP_REQUEST_PATH None) (Some 0) holds_nothing"
  have "session sample_h ?h ?g"
    by (rule session_call [OF session_start])
      (simp_all add: condition_lvalue_new_def sample_h_def sample_addr_def unused_def no_store_def)
  moreover have call: "make_call sample_h (Lvalue_release 0) ?h = Inr (None, no_store\<lparr>lvalues := Map.empty\<rparr>)"
    by (simp add: condition_lvalue_release_def access_def word_sless_alt no_store_def)
  moreover have "permitted ?h ?g (Lvalue_release 0)" by simp
  ultimately have s: "session sample_h (no_store\<lparr>lvalues := Map.empty\<rparr>) (settle (Lvalue_release 0) None ?g)"
    by (blast intro: session_call)
  have "lvalues h = Map.empty \<and> conds h = Map.empty \<and> strings h = Map.empty \<and> regexes h = Map.empty"
    if "h = no_store\<lparr>lvalues := Map.empty\<rparr>" for h :: "string store"
    using released_store_empty [OF sample_supplied s] unfolding that by (simp add: holds_nothing_def)
  then show ?thesis using s call by blast
qed

text \<open>C28. A condition keeps its meaning while it is held. Whatever calls the caller makes in between, as long as it keeps
  a reference, a check of the condition returns, and its outcome is the one the check had before.\<close>

theorem held_condition_keeps_meaning:
  assumes L: "supplied L" and s: "session L h g" and hold: "holding L c h g h' g'" and wf: "wf_con (con vr)"
  shows "\<exists>out. condition_check L R h c vr res = Inr out \<and> condition_check L R h' c vr res = Inr out"
proof -
  have later: "good h' g'" "0 < held_c g' c" "condition_check L R h' c vr res = condition_check L R h c vr res"
    using holding_same [OF L session_good [OF L s] hold] by auto
  then show ?thesis using check_returns [OF L later(1,2) wf, of R res] by auto
qed

theorem held_condition_keeps_meaning_witness:
  "\<exists>h g h' g' out. holding sample_h 2 h g h' g' \<and>
     condition_check sample_h sample_r h 2 sample_vr False = Inr out \<and>
     condition_check sample_h sample_r h' 2 sample_vr False = Inr out"
proof -
  let ?x = "New_string CONFIG_COND_EQ 1 0" and ?start = "sample_store COMP_REQUEST_PATH ''/index''"
  let ?h = "new_cell sample_h CONFIG_COND_EQ (Some 1) (COND_VALUE_STRING 0) ?start"
  let ?g = "settle ?x (Some 2) sample_held"
  have "make_call sample_h ?x ?start = Inr (Some 2, ?h)"
    by (simp add: condition_new_string_def cond_new_string_def condition_new_eq sample_new_addr sample_set)
  then have s: "session sample_h ?h ?g" by (rule session_call [OF sample_session sample_permits(1), rotated]) simp
  have held: "held_c ?g 2 = 1" by (simp add: after_string_def keep_string_def)
  have perm: "permitted ?h ?g (Cond_acquire 2)" unfolding permitted.simps held by simp
  obtain r h' where call: "make_call sample_h (Cond_acquire 2) ?h = Inr (r, h')"
    using make_call_good [OF sample_supplied session_good [OF sample_supplied s] perm] by blast
  have "0 < held_c ?g 2" "0 < held_c (settle (Cond_acquire 2) r ?g) 2" using held by simp_all
  then have hold: "holding sample_h 2 ?h ?g h' (settle (Cond_acquire 2) r ?g)"
    by (intro holding_call [OF holding_start perm call])
  from held_condition_keeps_meaning [OF sample_supplied s hold sample_con] hold show ?thesis by blast
qed

text \<open>C29. A condition on a string compares it. A condition made from a left-hand side with one of the six string
  operators and a string answers, for every request, whether the text the left-hand side stands for is in this
  relation to the string; no error is reported.\<close>

theorem string_condition_compares:
  assumes "glib_strings L" and "condition_new_string L op (Some l) s h = Inr (Some c, h')"
    and "op_fits op (COND_VALUE_STRING s)" and "strings h s = Some t" and "lvalues h l = Some v"
    and "request_text L R (lv_type v) key vr = Some val"
    and "lv_type v = COMP_REQUEST_HEADER \<longrightarrow> deref (strings h) (lv_key v) = Inr key"
  shows "\<exists>vr'. condition_check L R h' c vr res = Inr (HANDLER_GO_ON, string_relation op val t, vr')"
  by (rule string_condition_spec [OF assms])

theorem string_condition_compares_witness:
  "\<exists>c h' vr'. condition_new_string sample_h CONFIG_COND_PREFIX (Some 1) 0 (sample_store COMP_REQUEST_PATH ''/in'') =
       Inr (Some c, h') \<and>
     condition_check sample_h sample_r h' c sample_vr False = Inr (HANDLER_GO_ON, True, vr')"
proof -
  let ?h = "sample_store COMP_REQUEST_PATH ''/in''"
  have new: "condition_new_string sample_h CONFIG_COND_PREFIX (Some 1) 0 ?h =
      Inr (Some (new_addr sample_h ?h), new_cell sample_h CONFIG_COND_PREFIX (Some 1) (COND_VALUE_STRING 0) ?h)"
    by (simp add: condition_new_string_def cond_new_string_def condition_new_eq set_rvalue_new)
  have "\<exists>vr'. condition_check sample_h sample_r (new_cell sample_h CONFIG_COND_PREFIX (Some 1) (COND_VALUE_STRING 0) ?h)
      (new_addr sample_h ?h) sample_vr False =
      Inr (HANDLER_GO_ON, string_relation CONFIG_COND_PREFIX ''/index'' ''/in'', vr')"
    by (rule string_condition_compares [where key = "[]", OF sample_strings new _ sample_string sample_lvalue])
      (simp_all add: sample_vr_def)
  then show ?thesis using new by simp
qed

text \<open>C30. Membership in a network is agreement of the leading bits. For an address of either family and a network of
  either family, with \<open>n\<close> leading bits when IPv4 addresses count as mapped addresses of IPv6, the test says whether
  the first \<open>n\<close> bits agree, on machines of either byte order; it never reads outside the addresses.\<close>

theorem ip_in_net_is_prefix:
  assumes "is_ip t" and "is_net le net n"
  shows "ip_in_net le t net = Inr (prefix_eq n (mapped_address le t) (mapped_address le net))"
  by (rule ip_in_net_spec [OF assms])

lemma sample_mask: "prefix_mask True 0xFF 8"
proof -
  have "addr_bit (store32 True 0xFF) i = (i < 8)" if "i < 32" for i
  proof -
    have "i \<in> {..<32}" using that by simp
    moreover have "\<forall>i\<in>{..<32}. addr_bit (store32 True 0xFF) i = (i < 8)" by code_simp
    ultimately show ?thesis by blast
  qed
  then show ?thesis by (simp add: prefix_mask_def)
qed

theorem ip_in_net_is_prefix_witness:
  "ip_in_net True (COND_VALUE_SOCKET_IPV6 (replicate 10 0 @ [0xFF, 0xFF, 10, 1, 2, 3]) 128) (COND_VALUE_SOCKET_IPV4 10 0xFF) =
     Inr (prefix_eq 104 (replicate 10 0 @ [0xFF, 0xFF, 10, 1, 2, 3]) (replicate 10 0 @ [0xFF, 0xFF] @ store32 True 10))"
  using ip_in_net_is_prefix [of "COND_VALUE_SOCKET_IPV6 (replicate 10 0 @ [0xFF, 0xFF, 10, 1, 2, 3]) 128" True
      "COND_VALUE_SOCKET_IPV4 10 0xFF" 104] sample_mask by simp

text \<open>C34. A condition on an address answers for no address. A condition made with \<open>=/\<close> or \<open>!/\<close> from the local or
  the remote address and a network reports an error whenever that socket has an IPv4 address, or an IPv6 address in a
  build with IPv6, and the answer it stores is the same for both operators, that the address is not in the network:
  the cases of the switch have no \<open>break\<close>. Only for a socket without such an address it goes on, with the answer
  of the operator for an address outside.\<close>

theorem ip_condition_fails_for_addresses:
  assumes "condition_new_string L op (Some l) s h = Inr (Some c, h')" and "op \<in> {CONFIG_COND_IP, CONFIG_COND_NOTIP}"
    and "strings h s = Some t" "condition_parse_ip_net L t = Some net" "is_net (little_endian R) net n"
    and "lvalues h l = Some v" "lv_type v \<in> {COMP_REQUEST_LOCALIP, COMP_REQUEST_REMOTEIP}"
    and "sock = (if lv_type v = COMP_REQUEST_LOCALIP then local_addr (con vr) else remote_addr (con vr))" "wf_sockaddr sock"
  shows "case socket_bytes R sock of
      None \<Rightarrow> condition_check L R h' c vr res = Inr (HANDLER_GO_ON, op = CONFIG_COND_NOTIP, vr)
    | Some bytes \<Rightarrow> \<exists>vr'. condition_check L R h' c vr res =
        Inr (HANDLER_ERROR, \<not> prefix_eq n bytes (mapped_address (little_endian R) net), vr')"
  by (rule ip_condition_spec [OF assms])

theorem ip_condition_fails_for_addresses_witness:
  "\<exists>c h' vr' answer. condition_new_string sample_h CONFIG_COND_IP (Some 1) 0
       (sample_store COMP_REQUEST_REMOTEIP ''10.0.0.0/8'') = Inr (Some c, h') \<and>
     condition_check sample_h sample_r h' c sample_vr False = Inr (HANDLER_ERROR, answer, vr')"
proof -
  let ?h = "sample_store COMP_REQUEST_REMOTEIP ''10.0.0.0/8''"
  let ?net = "COND_VALUE_SOCKET_IPV4 10 0xFF"
  have parse: "condition_parse_ip_net sample_h ''10.0.0.0/8'' = Some ?net"
    by (simp add: condition_parse_ip_net_def sample_h_def)
  note str = sample_string [of COMP_REQUEST_REMOTEIP "''10.0.0.0/8''"]
  note lv = sample_lvalue [of COMP_REQUEST_REMOTEIP "''10.0.0.0/8''"]
  have new: "condition_new_string sample_h CONFIG_COND_IP (Some 1) 0 ?h = Inr (Some 2, new_cell sample_h CONFIG_COND_IP (Some 1) ?net ?h)"
    using parse str by (simp add: condition_new_string_def cond_new_ip_def condition_new_eq access_def sample_new_addr sample_set)
  have net: "is_net (little_endian sample_r) ?net 104" using sample_mask by (simp add: sample_r_def)
  let ?sock = "AF_INET 0x200000A"
  have "case socket_bytes sample_r ?sock of
      None \<Rightarrow> condition_check sample_h sample_r (new_cell sample_h CONFIG_COND_IP (Some 1) ?net ?h) 2 sample_vr False =
        Inr (HANDLER_GO_ON, CONFIG_COND_IP = CONFIG_COND_NOTIP, sample_vr)
    | Some bytes \<Rightarrow> \<exists>vr'. condition_check sample_h sample_r (new_cell sample_h CONFIG_COND_IP (Some 1) ?net ?h) 2 sample_vr False =
        Inr (HANDLER_ERROR, \<not> prefix_eq 104 bytes (mapped_address (little_endian sample_r) ?net), vr')"
    by (rule ip_condition_fails_for_addresses [OF new _ str parse net lv]) (simp_all add: sample_vr_def)
  then show ?thesis using new by (auto simp: socket_bytes_def)
qed

text \<open>C35. A condition on the length of a request looks at a file instead. Made from either of the two left-hand
  sides with integer values, a condition compares the size of the requested file once its status is known: the case of the request's length
  has no \<open>break\<close>. The comparison is of signed numbers.\<close>

theorem length_condition_compares_size:
  assumes "condition_new_int L op (Some l) i h = Inr (Some c, h')" and "lvalues h l = Some v"
    and "lv_type v \<in> {COMP_REQUEST_CONTENT_LENGTH, COMP_PHYSICAL_SIZE}" and "have_stat vr"
  shows "condition_check L R h' c vr res = Inr (HANDLER_GO_ON, int_relation op (sint (st_size vr)) (sint i), vr)"
  by (rule int_condition_spec [OF assms])

theorem length_condition_compares_size_witness:
  "\<exists>c h'. condition_new_int sample_h CONFIG_COND_EQ (Some 1) 7 (sample_store COMP_REQUEST_CONTENT_LENGTH []) = Inr (Some c, h') \<and>
     content_length sample_vr = 7 \<and>
     condition_check sample_h sample_r h' c sample_vr False = Inr (HANDLER_GO_ON, False, sample_vr)"
proof -
  let ?h = "sample_store COMP_REQUEST_CONTENT_LENGTH []"
  have new: "condition_new_int sample_h CONFIG_COND_EQ (Some 1) 7 ?h =
      Inr (Some 2, new_cell sample_h CONFIG_COND_EQ (Some 1) (COND_VALUE_NUMBER 7) ?h)"
    by (simp add: condition_new_int_def condition_new_eq sample_new_addr sample_set)
  have "condition_check sample_h sample_r (new_cell sample_h CONFIG_COND_EQ (Some 1) (COND_VALUE_NUMBER 7) ?h) 2 sample_vr False =
      Inr (HANDLER_GO_ON, int_relation CONFIG_COND_EQ (sint (st_size sample_vr)) (sint (7 :: 64 word)), sample_vr)"
    by (rule length_condition_compares_size [OF new sample_lvalue]) (simp_all add: sample_vr_def)
  then show ?thesis using new by (simp add: sample_vr_def)
qed

end
