(* ===== verification/Spec2Isabelle.thy ===== *)
theory Spec2Isabelle
  imports NP_Resolvers NP_Aifl NP_Tree NP_BenRuns CVS_Packet PNG_Trans Sched_Bounds Vim_Store Cherokee_Match Gz_Session Light_Session
begin

text \<open>
  \<^bold>\<open>A verification of NoPend and of subjects of its benchmark.\<close>

  The repository has two parts. \<open>src/main/java/nju/gist\<close> is a tool that locates faulty combinations of
  parameter values: a failing test case of a configurable system is given, a resolver asks the checker
  about further test cases and reports the minimal combinations that make a test case fail.
  \<open>src/main/resources/bugs\<close> is the benchmark: C files of configurable systems in which such interaction
  faults were found. The development models the resolvers NoPend, TRT, FIC, FIC\_BS, SOFOT, ComFIL, IterAIFL and Ben
  with everything they use, and seven of the C files completely.

  \<^bold>\<open>Parts of the tool.\<close> A \<open>Comb\<close> assigns values to some parameters, a \<open>Testcase\<close> to all. A \<open>Schema\<close> is a
  set of parameter positions; applied to the failing test case it gives a \<open>Comb\<close>. A \<open>MonotoneSchemaSet\<close>
  keeps the minimal or the maximal schemas of all that were added and computes minimal hitting sets.
  \<open>NoPendFaultResolver.identify\<close> keeps the minimal known faulty and the maximal known healthy schemas,
  takes the longest chain between the two borders, searches the border on it by bisection and recurs into
  the faulty schema it found until nothing is pending; \<open>conduct\<close> does so for each failing test case.

  \<^item> \<open>Prelude\<close>: results of Java methods and of C functions as sums, their sequencing \<open>ebind\<close>, byte arrays.
  \<^item> \<open>NP_Comb\<close>: \<open>Common/Comb.java\<close>, \<open>MutableComb.java\<close>, \<open>Testcase.java\<close>, \<open>MutableTestcase.java\<close>, \<open>Tester/Checker.java\<close>.
  \<^item> \<open>NP_Schema\<close>: \<open>Common/Schema.java\<close>, \<open>MutableSchema.java\<close>. A \<open>BitSet\<close> is the set of its set bits.
  \<^item> \<open>NP_Monotone\<close>: \<open>Common/MonotoneSchemaSet.java\<close>; the contract of a family is the locale
    \<open>monotone_family\<close>, interpreted for the minimal and for the maximal sets; the hitting sets are exact.
  \<^item> \<open>NP_Identify\<close>: \<open>AbstractFaultResolver.java\<close>, \<open>NoPend/NoPend.java\<close>, \<open>NoPend/NoPendFaultResolver.java\<close>.
    The recursion of \<open>identify\<close> is a \<open>partial_function (option)\<close>; that it returns is proved.
  \<^item> \<open>NP_Correct\<close>, \<open>NP_Conduct\<close>: the bisection finds a border of the chain; against any monotone oracle
    \<open>identify\<close> ends with exactly the minimal faulty and maximal healthy schemas; the checker is such an
    oracle for safe values that no faulty combination uses; \<open>conduct\<close> reports exactly the faulty
    combinations that occur in a failing test case.
  \<^item> \<open>NP_Finovlp\<close>: \<open>FINOVLP/FINOVLPFaultResolver.java\<close>, \<open>FICFaultResovler.java\<close>, \<open>FICBSFaultResolver.java\<close>,
    \<open>SOFOT/SOFOTFaultResolver.java\<close>. \<open>NP_Locate\<close>: FIC and FIC\_BS locate a minimal faulty set. \<open>NP_Resolvers\<close>: the
    loop of FINOVLP in the locale \<open>mfc_locator\<close>, interpreted on both; what the resolvers report.
  \<^item> \<open>NP_Exhaust\<close>: the resolvers that enumerate all combinations of a test case, \<open>ComFIL\<close> and \<open>IterAIFL\<close>, with
    \<open>Util/Combinatorics.java\<close>, \<open>tWayComb\<close> and \<open>powerSet\<close>, and the estimate of the pending proportion. \<open>NP_Comfil\<close>: the
    enumeration is complete, ComFIL reports exactly the faults. \<open>NP_Aifl\<close>: IterAIFL reports the minimal suspicious
    combinations. \<open>NP_Ben\<close>: \<open>Ben/BenFaultResolver.java\<close>. \<open>NP_BenRuns\<close>: it always returns, since a round that runs no new test
    case leaves the suspicious combinations as they were, and reports all faults up to its strength. ComFIL and IterAIFL are treated for at most 30
    parameters, Ben for any number, with the binomial coefficients that overflow.
  \<^item> \<open>NP_TRT\<close>: \<open>NoPend/TRT.java\<close>, the bit sets over all schemas, and \<open>TRTFaultResolver.java\<close>. \<open>NP_Search\<close>: the locale
    \<open>lattice_search\<close> of a search that marks what it visits, interpreted on the five recursive methods; it marks
    exactly the reachable schemas. \<open>NP_Tree\<close>: every turn of the resolver settles a pending schema; the report,
    including the fault that an uncleared mark makes it miss.

  \<^bold>\<open>\<open>cvs/src/buffer.c\<close>.\<close> A buffer is a chain of blocks in front of a device.
  \<^item> \<open>CVS_Buffer\<close>: the pool of blocks, appending, sending, flushing. The locales \<open>byte_queue\<close> (a queue of
    bytes that may run out of memory) and \<open>output_device\<close>, \<open>blocking_device\<close> are the interfaces; sending
    loses, repeats and reorders nothing, whatever part of the data a device takes.
  \<^item> \<open>CVS_Input\<close>: filling from a device (locale \<open>input_device\<close>), taking lines and counted pieces.
  \<^item> \<open>CVS_Stdio\<close>: the device on a stdio file, which interprets the device locales.
  \<^item> \<open>CVS_Transfer\<close>: \<open>buf_copy_lines\<close>, \<open>buf_copy_counted\<close> refine functions on byte streams; what the
    latter leaves of its input.
  \<^item> \<open>CVS_Packet\<close>: the packetizing layer; for any pair of inverse translations what is sent arrives.
  Loops on a device are \<open>partial_function (option)\<close>; those on the pool end because blocks run out.

  \<^bold>\<open>\<open>libpng/pngtrans.c\<close>.\<close> \<open>PNG_Trans\<close>: every transformation of a row in place, with checked accesses: no
  access leaves the row, and what the samples of the result are.

  \<^bold>\<open>\<open>linux/kernel/sched/proc.c\<close>.\<close> \<open>Sched_Load\<close>: the load accounting on 64-bit words, the tickless idle
  bookkeeping as an inductive step relation with a conservation invariant. \<open>Sched_Bounds\<close>: error bounds of
  the fixed-point averages against the exact formulas, catching up after missed periods.

  \<^bold>\<open>\<open>vim/src/memfile.c\<close>.\<close> Blocks of memory that are swapped to a file.
  \<^item> \<open>Vim_Memfile\<close>: all functions of the file. Outcomes of \<open>alloc\<close>, of system calls and of the keyboard test
    are lists in the state, so that every failure can occur at every point.
  \<^item> \<open>Vim_Swap\<close>: the invariant \<open>mf_inv\<close> relative to the blocks in use, the content \<open>holds\<close> of a block, the
    relation \<open>keeps\<close>, and the loop of \<open>mf_write\<close>. Its fuel is the distance of the block from the end of the
    file plus one; every round but the last appends a page.
  \<^item> \<open>Vim_Blocks\<close>: taking blocks out of and into the lists, page numbers.
  \<^item> \<open>Vim_Ops\<close>, \<open>Vim_New\<close>, \<open>Vim_Access\<close>, \<open>Vim_Sync\<close>: each operation against the invariant. The scan of
    \<open>mf_release_all\<close> has fuel \<open>(n + 1) * (n + 1)\<close> for \<open>n\<close> blocks, one scan per released block.
  \<^item> \<open>Vim_Store\<close>: the promises to the client; the locale \<open>keeper\<close> states what a housekeeping operation keeps,
    and is interpreted on sync and release; when a failed allocation makes a call crash.

  \<^bold>\<open>\<open>cherokee/cherokee/access.c\<close>.\<close> Access rules of a web server. \<open>Cherokee_Access\<close>: parsing of addresses and
  masks, the lists of addresses and subnets, matching of a socket, in the configuration with IPv6.
  \<open>Cherokee_Match\<close>: a rule admits exactly the addresses that share its first bits; the masks are shown to
  have these bits; rules that are domain names; what a refused rule leaves behind.

  \<open>IP_Bits\<close>: addresses as sequences of bits, shared with the next part.

  \<^bold>\<open>\<open>lighttpd/src/condition.c\<close>.\<close> Conditions on requests, shared by reference counts.
  \<^item> \<open>Light_Cond\<close>: the store of left-hand sides, conditions, strings and regular expressions, the constructors and the
    counters, on 32-bit words. A freed object is undefined, so that a later access is an error. \<open>Light_Eval\<close>: the
    evaluation for a request, with the missing \<open>break\<close>s of the source.
  \<^item> \<open>Light_Net\<close>: membership of an address in a network is agreement of the leading bits.
  \<^item> \<open>Light_Refs\<close>: stores whose counters agree with the references of conditions and of the caller; freeing and creating
    move references. \<open>Light_Calls\<close>: every function keeps this balance and the fit of operators and values; the
    locale \<open>counted_object\<close>, interpreted on left-hand sides and on conditions; the states (\<open>session\<close>) that calls lead to.
  \<^item> \<open>Light_Keep\<close>, \<open>Light_Checks\<close>: what a call leaves alone; checks of held conditions return. \<open>Light_Session\<close>: what
    users see, and the two conditions that go wrong.

  \<^bold>\<open>\<open>firefox/zlib/gzread.c\<close>.\<close> Reading of gzip files and, transparently, of any other file.
  \<^item> \<open>Gz_Read\<close>: all functions of the file on a record of the state, with checked accesses to the buffers. The
    loops are instances of one loop that is \<open>None\<close> when it is never left.
  \<^item> \<open>Gz_Stream\<close>: what is assumed of the decompressor, the invariant, and the relation \<open>delivers\<close> between a state
    and the bytes still to come; loading, looking for a header and decompressing keep it. \<open>Gz_Fetch\<close>: so does
    fetching, and it returns.
  \<^item> \<open>Gz_Client\<close>: the locale \<open>byte_source\<close>, what the reading calls need of the fetching routines, and skipping,
    \<open>gzread\<close>, \<open>gzgetc\<close> and \<open>gzgets\<close> inside it. \<open>Gz_File\<close>: its interpretation on \<open>delivers\<close>; bytes pushed back.
  \<^item> \<open>Gz_Safe\<close>, \<open>Gz_Calls\<close>: with failing reads, allocations and decompression no call leaves the buffers, in all
    states that calls lead to (\<open>reached\<close>).
  \<^item> \<open>Gz_Session\<close>: what callers see: reading a file back, lines, pushing back, and the call that goes wrong.

  \<^bold>\<open>Code that is not in the repository\<close> appears as parameters: translation functions of a packetizing
  buffer, constants of headers (\<open>png_h\<close>, \<open>kernel\<close>, \<open>vim_h\<close>), the address
  functions, lists and resolver of Cherokee (\<open>ac_h\<close>), the decompressor and the error function of zlib (\<open>zlib\<close>),
  GLib, the allocator and the parsers of addresses (\<open>light_h\<close>), the status of files and the build options (\<open>request_h\<close>) of lighttpd, the hash function and the options of Vim, the
  iteration order of a Java hash set, random draws, the operations on \<open>double\<close> (\<open>arith\<close>) and the enumeration of index sets by the library class
  \<open>Combination\<close>. Files, allocation and devices are part of the explicit state.

  \<^bold>\<open>Not modelled.\<close> The reading of models, the
  generation of covering arrays, the measures and the experiment drivers; printing; the other C files of
  the benchmark, each of which belongs to another program; in \<open>memfile.c\<close> the branches for other operating systems, and several memory
  files sharing the headers at once; overflow of \<open>int\<close> and \<open>long\<close> in \<open>buffer.c\<close> and \<open>memfile.c\<close>, of the file
  position in \<open>gzread.c\<close>; a file that grows while \<open>gzread.c\<close> reads it;
  in \<open>condition.c\<close> the references that match information keeps on a regular expression, bytes behind a zero in a string, and
  operators outside the enumeration.
\<close>

end
